(* ===== verification/Pb_Prelude.thy ===== *)
theory Pb_Prelude
  imports Main "HOL-Library.Word"
begin

text \<open>
  Shared ground of the development: machine types, the outcome of a C function, a
  weakest-precondition reading of outcomes, byte-addressed memory and little-endian
  integers.

  A C function that returns \<^verbatim>\<open>bool\<close> and changes its arguments through pointers becomes
  a function into \<open>('a, 's) outcome\<close>: \<open>Ok v s\<close> is a return of \<^verbatim>\<open>true\<close> with the
  out-parameter \<open>v\<close> and the new state \<open>s\<close>, \<open>Fail s\<close> a return of \<^verbatim>\<open>false\<close> (the state
  as the function left it), \<open>Halt Undefined_Behaviour\<close> an execution the C standard
  gives no meaning to (an out-of-bounds access, a call through NULL, an oversized
  shift), and \<open>Halt Out_Of_Fuel\<close> a bound of the model that was too small.
\<close>

unbundle bit_operations_syntax

section \<open>Machine types\<close>

type_synonym byte = "8 word"
type_synonym size_t = "64 word"
type_synonym addr = int
type_synonym mem = "addr \<Rightarrow> byte"

lemma unat_ucast_up:
  fixes w :: "'a::len word"
  assumes "LENGTH('a) \<le> LENGTH('b)"
  shows "unat (ucast w :: 'b::len word) = unat w"
proof -
  have "unat w < 2 ^ LENGTH('a)" by (rule unsigned_less)
  also have "(2::nat) ^ LENGTH('a) \<le> 2 ^ LENGTH('b)" using assms by simp
  finally show ?thesis by (simp add: unsigned_ucast_eq take_bit_nat_eq_self)
qed

lemma unat_add_of_nat:
  "unat w + n < 2 ^ 64 \<Longrightarrow> unat (w + of_nat n :: 64 word) = unat w + n"
  by (simp add: unat_word_ariths unat_of_nat)

section \<open>Outcomes\<close>

datatype stop = Undefined_Behaviour | Out_Of_Fuel

datatype ('a, 's) outcome = Ok 'a 's | Fail 's | Halt stop

fun obind :: "('a, 's) outcome \<Rightarrow> ('a \<Rightarrow> 's \<Rightarrow> ('b, 's) outcome) \<Rightarrow> ('b, 's) outcome" where
  "obind (Ok a s) f = f a s"
| "obind (Fail s) f = Fail s"
| "obind (Halt e) f = Halt e"

lemma obind_assoc: "obind (obind x f) g = obind x (\<lambda>a s. obind (f a s) g)"
  by (cases x) auto

lemma obind_eq_Ok:
  "obind x f = Ok b t \<longleftrightarrow> (\<exists>a s. x = Ok a s \<and> f a s = Ok b t)"
  by (cases x) auto

lemma obind_cong [fundef_cong]:
  "x = y \<Longrightarrow> (\<And>a s. y = Ok a s \<Longrightarrow> f a s = g a s) \<Longrightarrow> obind x f = obind y g"
  by (cases y) auto

text \<open>
  \<open>owp Q F H x\<close>: if \<open>x\<close> is a success it satisfies \<open>Q\<close>, if a failure \<open>F\<close>, and if it
  stops, the reason satisfies \<open>H\<close>. Safety, framing and termination of the operations
  are all stated as instances of it.
\<close>

fun owp :: "('a \<Rightarrow> 's \<Rightarrow> bool) \<Rightarrow> ('s \<Rightarrow> bool) \<Rightarrow> (stop \<Rightarrow> bool) \<Rightarrow> ('a, 's) outcome \<Rightarrow> bool" where
  "owp Q F H (Ok a s) = Q a s"
| "owp Q F H (Fail s) = F s"
| "owp Q F H (Halt e) = H e"

lemma owp_obind:
  "owp Q F H (obind x f) = owp (\<lambda>a s. owp Q F H (f a s)) F H x"
  by (cases x) auto

lemma owp_mono:
  assumes "owp Q F H x"
    and "\<And>a s. x = Ok a s \<Longrightarrow> Q a s \<Longrightarrow> Q' a s"
    and "\<And>s. x = Fail s \<Longrightarrow> F s \<Longrightarrow> F' s"
    and "\<And>e. x = Halt e \<Longrightarrow> H e \<Longrightarrow> H' e"
  shows "owp Q' F' H' x"
  using assms by (cases x) auto

lemma owp_obindI:
  assumes "owp Q0 F H x"
    and "\<And>a s. x = Ok a s \<Longrightarrow> Q0 a s \<Longrightarrow> owp Q F H (f a s)"
  shows "owp Q F H (obind x f)"
  using assms by (cases x) auto

lemma owp_conj:
  "owp Q F H x \<Longrightarrow> owp Q' F' H' x \<Longrightarrow>
    owp (\<lambda>a s. Q a s \<and> Q' a s) (\<lambda>s. F s \<and> F' s) (\<lambda>e. H e \<and> H' e) x"
  by (cases x) auto

section \<open>Byte-addressed memory\<close>

text \<open>
  The address space of the message structures: every address holds a byte; pointers are
  integers and NULL is 0. Objects that the code only reads through a moving pointer (the
  input buffer) or only appends to (the output buffer) are kept apart in the streams,
  with their bounds.
\<close>

definition load_bytes :: "mem \<Rightarrow> addr \<Rightarrow> nat \<Rightarrow> byte list" where
  "load_bytes m a n = map (\<lambda>i. m (a + int i)) [0..<n]"

fun store_bytes :: "mem \<Rightarrow> addr \<Rightarrow> byte list \<Rightarrow> mem" where
  "store_bytes m a [] = m"
| "store_bytes m a (b # bs) = store_bytes (m(a := b)) (a + 1) bs"

lemma length_load_bytes [simp]: "length (load_bytes m a n) = n"
  by (simp add: load_bytes_def)

lemma nth_load_bytes: "i < n \<Longrightarrow> load_bytes m a n ! i = m (a + int i)"
  by (simp add: load_bytes_def)

lemma load_bytes_0 [simp]: "load_bytes m a 0 = []"
  by (simp add: load_bytes_def)

lemma load_bytes_Suc: "load_bytes m a (Suc n) = m a # load_bytes m (a + 1) n"
proof -
  have "[0..<Suc n] = 0 # map Suc [0..<n]"
    by (metis map_Suc_upt upt_conv_Cons zero_less_Suc)
  then show ?thesis
    by (simp add: load_bytes_def del: upt_Suc) (simp add: algebra_simps)
qed

lemma store_bytes_apply:
  "store_bytes m a bs x = (if a \<le> x \<and> x < a + int (length bs) then bs ! nat (x - a) else m x)"
proof (induction m a bs arbitrary: x rule: store_bytes.induct)
  case (1 m a)
  then show ?case by auto
next
  case (2 m a b bs)
  show ?case
  proof (cases "x = a")
    case True
    then show ?thesis by (simp add: 2)
  next
    case False
    then have "nat (x - a) = Suc (nat (x - (a + 1)))" if "a \<le> x" using that by simp
    with False show ?thesis by (auto simp: 2)
  qed
qed

lemma store_bytes_outside: "x < a \<or> a + int (length bs) \<le> x \<Longrightarrow> store_bytes m a bs x = m x"
  by (auto simp: store_bytes_apply)

lemma load_store_same [simp]: "load_bytes (store_bytes m a bs) a (length bs) = bs"
  by (rule nth_equalityI) (simp_all add: nth_load_bytes store_bytes_apply)

lemma load_bytes_cong:
  "(\<And>x. a \<le> x \<Longrightarrow> x < a + int n \<Longrightarrow> m x = m' x) \<Longrightarrow> load_bytes m a n = load_bytes m' a n"
  by (simp add: load_bytes_def)

lemma load_store_disjoint:
  "a + int n \<le> b \<or> b + int (length bs) \<le> a \<Longrightarrow> load_bytes (store_bytes m b bs) a n = load_bytes m a n"
  by (rule load_bytes_cong) (auto simp: store_bytes_apply)

section \<open>Little-endian integers\<close>

text \<open>
  The iOS targets are little endian: an object of \<open>n\<close> bytes at address \<open>a\<close> is read
  least significant byte first.
\<close>

fun word_of_bytes :: "byte list \<Rightarrow> 'a::len word" where
  "word_of_bytes [] = 0"
| "word_of_bytes (b # bs) = ucast b OR push_bit 8 (word_of_bytes bs)"

definition bytes_of_word :: "nat \<Rightarrow> 'a::len word \<Rightarrow> byte list" where
  "bytes_of_word n w = map (\<lambda>i. ucast (drop_bit (8 * i) w)) [0..<n]"

lemma length_bytes_of_word [simp]: "length (bytes_of_word n w) = n"
  by (simp add: bytes_of_word_def)

lemma bit_word_of_bytes:
  "bit (word_of_bytes bs :: 'a::len word) k \<longleftrightarrow>
     k < LENGTH('a) \<and> k < 8 * length bs \<and> bit (bs ! (k div 8)) (k mod 8)"
proof (induction bs arbitrary: k)
  case Nil
  then show ?case by simp
next
  case (Cons b bs)
  show ?case
  proof (cases "k < 8")
    case True
    then show ?thesis by (auto simp: bit_simps)
  next
    case False
    then have "k div 8 = Suc ((k - 8) div 8)" "k mod 8 = (k - 8) mod 8"
      by (simp_all add: le_div_geq le_mod_geq)
    moreover have "\<not> bit b k" using False by (auto dest: bit_imp_le_length)
    ultimately show ?thesis using False by (auto simp: bit_simps Cons)
  qed
qed

lemma bit_bytes_of_word:
  "i < n \<Longrightarrow> j < 8 \<Longrightarrow> bit (bytes_of_word n w ! i) j = bit w (8 * i + j)"
  by (simp add: bytes_of_word_def bit_simps ac_simps)

lemma word_of_bytes_of_word:
  fixes w :: "'a::len word"
  assumes "LENGTH('a) \<le> 8 * n"
  shows "word_of_bytes (bytes_of_word n w) = w"
proof (rule bit_word_eqI)
  fix k assume k: "k < LENGTH('a)"
  then have "k < 8 * n" using assms by simp
  then have "k div 8 < n" by (simp add: less_mult_imp_div_less mult.commute)
  then show "bit (word_of_bytes (bytes_of_word n w) :: 'a word) k = bit w k"
    using k \<open>k < 8 * n\<close> by (simp add: bit_word_of_bytes bit_bytes_of_word)
qed

lemma bytes_of_word_of_bytes:
  assumes "length bs = n" "8 * n \<le> LENGTH('a::len)"
  shows "bytes_of_word n (word_of_bytes bs :: 'a word) = bs"
proof (rule nth_equalityI)
  show "length (bytes_of_word n (word_of_bytes bs :: 'a word)) = length bs"
    using assms by simp
next
  fix i assume "i < length (bytes_of_word n (word_of_bytes bs :: 'a word))"
  then have i: "i < n" by simp
  show "bytes_of_word n (word_of_bytes bs :: 'a word) ! i = bs ! i"
  proof (rule bit_word_eqI)
    fix j assume "j < LENGTH(8)"
    then have j: "j < 8" by simp
    with i assms have "8 * i + j < LENGTH('a)" "8 * i + j < 8 * length bs" by auto
    with i j show "bit (bytes_of_word n (word_of_bytes bs :: 'a word) ! i) j = bit (bs ! i) j"
      by (simp add: bit_bytes_of_word bit_word_of_bytes)
  qed
qed

definition load_word :: "nat \<Rightarrow> mem \<Rightarrow> addr \<Rightarrow> 'a::len word" where
  "load_word n m a = word_of_bytes (load_bytes m a n)"

definition store_word :: "nat \<Rightarrow> mem \<Rightarrow> addr \<Rightarrow> 'a::len word \<Rightarrow> mem" where
  "store_word n m a w = store_bytes m a (bytes_of_word n w)"

text \<open>Pointers stored in memory are eight bytes (the 64-bit iOS targets).\<close>

definition load_ptr :: "mem \<Rightarrow> addr \<Rightarrow> addr" where
  "load_ptr m a = uint (load_word 8 m a :: 64 word)"

definition store_ptr :: "mem \<Rightarrow> addr \<Rightarrow> addr \<Rightarrow> mem" where
  "store_ptr m a p = store_word 8 m a (word_of_int p :: 64 word)"

lemma load_store_word:
  "LENGTH('a) \<le> 8 * n \<Longrightarrow> load_word n (store_word n m a (w :: 'a::len word)) a = w"
  using load_store_same [of m a "bytes_of_word n w"]
  by (simp add: load_word_def store_word_def word_of_bytes_of_word)

lemma load_store_word_disjoint:
  "a + int n \<le> b \<or> b + int k \<le> a \<Longrightarrow> load_word n (store_word k m b w) a = load_word n m a"
  by (simp add: load_word_def store_word_def load_store_disjoint)

lemma store_word_outside:
  "x < a \<or> a + int n \<le> x \<Longrightarrow> store_word n m a w x = m x"
  by (simp add: store_word_def store_bytes_outside)

lemma load_store_ptr: "0 \<le> p \<Longrightarrow> p < 2 ^ 64 \<Longrightarrow> load_ptr (store_ptr m a p) a = p"
  by (simp add: load_ptr_def store_ptr_def load_store_word uint_word_of_int)

text \<open>Memory agreement outside an address range, the frame of every write.\<close>

definition same_outside :: "addr \<Rightarrow> addr \<Rightarrow> mem \<Rightarrow> mem \<Rightarrow> bool" where
  "same_outside lo hi m m' \<longleftrightarrow> (\<forall>x. x < lo \<or> hi \<le> x \<longrightarrow> m' x = m x)"

lemma same_outside_refl [simp]: "same_outside lo hi m m"
  by (simp add: same_outside_def)

lemma same_outside_trans:
  "same_outside lo hi m m' \<Longrightarrow> same_outside lo hi m' m'' \<Longrightarrow> same_outside lo hi m m''"
  by (simp add: same_outside_def)

lemma same_outside_weaken:
  "same_outside lo hi m m' \<Longrightarrow> lo' \<le> lo \<Longrightarrow> hi \<le> hi' \<Longrightarrow> same_outside lo' hi' m m'"
  by (auto simp: same_outside_def)

lemma same_outside_store_bytes:
  "lo \<le> a \<Longrightarrow> a + int (length bs) \<le> hi \<Longrightarrow> same_outside lo hi m (store_bytes m a bs)"
  by (auto simp: same_outside_def store_bytes_apply)

lemma same_outside_store_word:
  "lo \<le> a \<Longrightarrow> a + int n \<le> hi \<Longrightarrow> same_outside lo hi m (store_word n m a w)"
  by (simp add: store_word_def same_outside_store_bytes)

end
