(* ===== verification/Pb_Types.thy ===== *)
theory Pb_Types
  imports Pb_Prelude
begin

text \<open>
  The types of \<^verbatim>\<open>pb.h\<close>, \<^verbatim>\<open>pb_decode.h\<close> and \<^verbatim>\<open>pb_encode.h\<close>: field types and their
  masks, wire types, field descriptors, streams, and the environment of user code
  (stream callbacks, field callbacks, extension handlers, allocator) that the library
  calls through function pointers.

  The configuration is the one the pod is built with
  (\<^verbatim>\<open>Target Support Files/nanopb/nanopb.xcconfig\<close>): \<^verbatim>\<open>PB_FIELD_32BIT\<close>, so \<^verbatim>\<open>pb_size_t\<close> is
  32 bits wide, and error messages, custom streams and new-style callbacks enabled.
  \<^verbatim>\<open>PB_ENABLE_MALLOC\<close> is a flag of the environment; the pod leaves it off.
\<close>

section \<open>Field types\<close>

type_synonym pb_size_t = "32 word"
type_synonym pb_type_t = "8 word"

definition PB_LTYPE_VARINT :: pb_type_t where "PB_LTYPE_VARINT = 0x00"
definition PB_LTYPE_UVARINT :: pb_type_t where "PB_LTYPE_UVARINT = 0x01"
definition PB_LTYPE_SVARINT :: pb_type_t where "PB_LTYPE_SVARINT = 0x02"
definition PB_LTYPE_FIXED32 :: pb_type_t where "PB_LTYPE_FIXED32 = 0x03"
definition PB_LTYPE_FIXED64 :: pb_type_t where "PB_LTYPE_FIXED64 = 0x04"
definition PB_LTYPE_LAST_PACKABLE :: pb_type_t where "PB_LTYPE_LAST_PACKABLE = 0x04"
definition PB_LTYPE_BYTES :: pb_type_t where "PB_LTYPE_BYTES = 0x05"
definition PB_LTYPE_STRING :: pb_type_t where "PB_LTYPE_STRING = 0x06"
definition PB_LTYPE_SUBMESSAGE :: pb_type_t where "PB_LTYPE_SUBMESSAGE = 0x07"
definition PB_LTYPE_EXTENSION :: pb_type_t where "PB_LTYPE_EXTENSION = 0x08"
definition PB_LTYPE_FIXED_LENGTH_BYTES :: pb_type_t where "PB_LTYPE_FIXED_LENGTH_BYTES = 0x09"
definition PB_LTYPES_COUNT :: pb_type_t where "PB_LTYPES_COUNT = 0x0A"

definition PB_HTYPE_REQUIRED :: pb_type_t where "PB_HTYPE_REQUIRED = 0x00"
definition PB_HTYPE_OPTIONAL :: pb_type_t where "PB_HTYPE_OPTIONAL = 0x10"
definition PB_HTYPE_REPEATED :: pb_type_t where "PB_HTYPE_REPEATED = 0x20"
definition PB_HTYPE_ONEOF :: pb_type_t where "PB_HTYPE_ONEOF = 0x30"

definition PB_ATYPE_STATIC :: pb_type_t where "PB_ATYPE_STATIC = 0x00"
definition PB_ATYPE_POINTER :: pb_type_t where "PB_ATYPE_POINTER = 0x80"
definition PB_ATYPE_CALLBACK :: pb_type_t where "PB_ATYPE_CALLBACK = 0x40"

definition PB_ATYPE :: "pb_type_t \<Rightarrow> pb_type_t" where "PB_ATYPE x = x AND 0xC0"
definition PB_HTYPE :: "pb_type_t \<Rightarrow> pb_type_t" where "PB_HTYPE x = x AND 0x30"
definition PB_LTYPE :: "pb_type_t \<Rightarrow> pb_type_t" where "PB_LTYPE x = x AND 0x0F"

definition PB_SIZE_MAX :: pb_size_t where "PB_SIZE_MAX = - 1"

text \<open>Number of required fields the decoder keeps track of.\<close>

definition PB_MAX_REQUIRED_FIELDS :: nat where "PB_MAX_REQUIRED_FIELDS = 64"

lemmas pb_ltypes =
  PB_LTYPE_VARINT_def PB_LTYPE_UVARINT_def PB_LTYPE_SVARINT_def PB_LTYPE_FIXED32_def
  PB_LTYPE_FIXED64_def PB_LTYPE_LAST_PACKABLE_def PB_LTYPE_BYTES_def PB_LTYPE_STRING_def
  PB_LTYPE_SUBMESSAGE_def PB_LTYPE_EXTENSION_def PB_LTYPE_FIXED_LENGTH_BYTES_def
  PB_LTYPES_COUNT_def

lemmas pb_htypes =
  PB_HTYPE_REQUIRED_def PB_HTYPE_OPTIONAL_def PB_HTYPE_REPEATED_def PB_HTYPE_ONEOF_def

lemmas pb_atypes =
  PB_ATYPE_STATIC_def PB_ATYPE_POINTER_def PB_ATYPE_CALLBACK_def

section \<open>Wire types\<close>

text \<open>
  \<^verbatim>\<open>pb_wire_type_t\<close> is a C enum; the decoder casts any three-bit value to it, so it is
  kept as an integer.
\<close>

type_synonym pb_wire_type_t = "32 word"

definition PB_WT_VARINT :: pb_wire_type_t where "PB_WT_VARINT = 0"
definition PB_WT_64BIT :: pb_wire_type_t where "PB_WT_64BIT = 1"
definition PB_WT_STRING :: pb_wire_type_t where "PB_WT_STRING = 2"
definition PB_WT_32BIT :: pb_wire_type_t where "PB_WT_32BIT = 5"

lemmas pb_wiretypes = PB_WT_VARINT_def PB_WT_64BIT_def PB_WT_STRING_def PB_WT_32BIT_def

section \<open>Field descriptors\<close>

text \<open>
  \<^verbatim>\<open>struct pb_field_s\<close>. The untyped \<^verbatim>\<open>ptr\<close> member points at the descriptors of a
  submessage, at the bytes of a default value, or is NULL; \<open>size_offset\<close> is signed
  (\<^verbatim>\<open>pb_ssize_t\<close>) and read with \<open>sint\<close>. An array of descriptors is the list of the entries
  before \<^verbatim>\<open>PB_LAST_FIELD\<close>; reading the entry after the last one yields that terminator.
\<close>

datatype pb_field_t =
  PB_field_t (f_tag: pb_size_t) (f_type: pb_type_t) (f_data_offset: pb_size_t)
    (f_size_offset: pb_size_t) (f_data_size: pb_size_t) (f_array_size: pb_size_t)
    (f_ptr: pb_field_ptr)
and pb_field_ptr = Ptr_null | Ptr_fields "pb_field_t list" | Ptr_default "byte list"

definition PB_LAST_FIELD :: pb_field_t where
  "PB_LAST_FIELD = PB_field_t 0 0 0 0 0 0 Ptr_null"

definition field_at :: "pb_field_t list \<Rightarrow> nat \<Rightarrow> pb_field_t" where
  "field_at fs i = (if i < length fs then fs ! i else PB_LAST_FIELD)"

abbreviation ltype_of :: "pb_field_t \<Rightarrow> pb_type_t" where "ltype_of f \<equiv> PB_LTYPE (f_type f)"
abbreviation htype_of :: "pb_field_t \<Rightarrow> pb_type_t" where "htype_of f \<equiv> PB_HTYPE (f_type f)"
abbreviation atype_of :: "pb_field_t \<Rightarrow> pb_type_t" where "atype_of f \<equiv> PB_ATYPE (f_type f)"

text \<open>
  Offsets of \<^verbatim>\<open>pb_bytes_array_t\<close>, \<^verbatim>\<open>pb_callback_t\<close> and \<^verbatim>\<open>pb_extension_t\<close> on the 64-bit
  targets, and the allocation size of a bytes array.
\<close>

definition bytes_offset :: int where "bytes_offset = 4"
definition callback_arg_offset :: int where "callback_arg_offset = 8"
definition ext_dest_offset :: int where "ext_dest_offset = 8"
definition ext_next_offset :: int where "ext_next_offset = 16"
definition ext_found_offset :: int where "ext_found_offset = 24"
definition sizeof_pointer :: size_t where "sizeof_pointer = 8"

definition PB_BYTES_ARRAY_T_ALLOCSIZE :: "size_t \<Rightarrow> size_t" where
  "PB_BYTES_ARRAY_T_ALLOCSIZE n = n + word_of_int bytes_offset"

lemma alloc_size_fits:
  "ucast (ds :: 32 word) < PB_BYTES_ARRAY_T_ALLOCSIZE (ucast (sz :: 32 word)) \<longleftrightarrow> unat ds < unat sz + 4"
proof -
  have "unat sz + 4 < 2 ^ 64" using unsigned_less [of sz, where ?'a = nat] by simp
  then have "unat (ucast sz + 4 :: 64 word) = unat sz + 4"
    using unat_add_of_nat [of "ucast sz" 4] by (simp add: unat_ucast_up)
  then show ?thesis
    by (simp add: PB_BYTES_ARRAY_T_ALLOCSIZE_def bytes_offset_def word_less_nat_alt unat_ucast_up)
qed

text \<open>
  \<^verbatim>\<open>pb_extension_type_t\<close>: the handlers are function pointers (0 is NULL), \<^verbatim>\<open>arg\<close> the
  descriptor the default handlers use.
\<close>

record pb_extension_type_t =
  et_decode :: addr
  et_encode :: addr
  et_arg :: "pb_field_t option"

section \<open>Streams\<close>

text \<open>
  An input stream reads either from a memory buffer through \<^verbatim>\<open>buf_read\<close>, and then its
  state is the pointer into that buffer, represented by the bytes from the pointer to the
  end of the buffer object; or through a user callback with a state of its own.
\<close>

datatype istream_callback = Buf_read | User_read addr

datatype istream_state = In_buf "byte list" | In_user addr

record pb_istream_t =
  is_callback :: istream_callback
  is_state :: istream_state
  bytes_left :: size_t
  is_errmsg :: "string option"

text \<open>
  An output stream without callback only counts (\<^verbatim>\<open>PB_OSTREAM_SIZING\<close>). With
  \<^verbatim>\<open>buf_write\<close> its state points into the output buffer object: \<open>Out_buf out room\<close> is the
  pointer after the bytes \<open>out\<close>, with \<open>room\<close> bytes of the object left.
\<close>

datatype ostream_callback = Null_write | Buf_write | User_write addr

datatype ostream_state = Out_null | Out_buf "byte list" nat | Out_user addr

record pb_ostream_t =
  os_callback :: ostream_callback
  os_state :: ostream_state
  max_size :: size_t
  bytes_written :: size_t
  os_errmsg :: "string option"

text \<open>
  The destination of a read: NULL, an array of the caller's own frame (the bytes are then
  the result), or message memory.
\<close>

datatype read_dst = Dst_null | Dst_local | Dst_mem addr

type_synonym 'a istep = "('a, pb_istream_t \<times> mem) outcome"
type_synonym 'a ostep = "('a, pb_ostream_t \<times> mem) outcome"

section \<open>The environment: code behind function pointers\<close>

text \<open>
  The environment stands for the code that is not in the library: what the function
  pointers of streams, callback fields and extensions do, the constant extension types,
  and the allocator macros \<^verbatim>\<open>pb_realloc\<close> and \<^verbatim>\<open>pb_free\<close>.
\<close>

record pb_env =
  env_read :: "addr \<Rightarrow> pb_istream_t \<Rightarrow> read_dst \<Rightarrow> size_t \<Rightarrow> mem \<Rightarrow> byte list istep"
  env_write :: "addr \<Rightarrow> pb_ostream_t \<Rightarrow> byte list \<Rightarrow> mem \<Rightarrow> unit ostep"
  env_decode_callback :: "addr \<Rightarrow> pb_istream_t \<Rightarrow> pb_field_t \<Rightarrow> addr \<Rightarrow> mem \<Rightarrow> unit istep"
  env_encode_callback :: "addr \<Rightarrow> pb_ostream_t \<Rightarrow> pb_field_t \<Rightarrow> addr \<Rightarrow> mem \<Rightarrow> unit ostep"
  env_ext_type :: "addr \<Rightarrow> pb_extension_type_t option"
  env_ext_decode :: "addr \<Rightarrow> pb_istream_t \<Rightarrow> addr \<Rightarrow> 32 word \<Rightarrow> pb_wire_type_t \<Rightarrow> mem \<Rightarrow> unit istep"
  env_ext_encode :: "addr \<Rightarrow> pb_ostream_t \<Rightarrow> addr \<Rightarrow> mem \<Rightarrow> unit ostep"
  env_malloc :: bool
  env_realloc :: "addr \<Rightarrow> size_t \<Rightarrow> mem \<Rightarrow> addr \<times> mem"
  env_free :: "addr \<Rightarrow> mem \<Rightarrow> mem"

text \<open>
  The environment of a program that installs no callback, extension or allocator, as the
  concrete instance of the parameter.
\<close>

definition bare_env :: pb_env where
  "bare_env =
     \<lparr>env_read = \<lambda>p s dst n m. Halt Undefined_Behaviour,
      env_write = \<lambda>p s bs m. Halt Undefined_Behaviour,
      env_decode_callback = \<lambda>p s f a m. Halt Undefined_Behaviour,
      env_encode_callback = \<lambda>p s f a m. Halt Undefined_Behaviour,
      env_ext_type = \<lambda>p. None,
      env_ext_decode = \<lambda>p s e t w m. Halt Undefined_Behaviour,
      env_ext_encode = \<lambda>p s e m. Halt Undefined_Behaviour,
      env_malloc = False,
      env_realloc = \<lambda>p n m. (0, m),
      env_free = \<lambda>p m. m\<rparr>"

abbreviation zero_mem :: mem where "zero_mem \<equiv> \<lambda>_. 0"

section \<open>Error messages\<close>

text \<open>\<^verbatim>\<open>PB_SET_ERROR\<close>: the message is set if none has been set yet.\<close>

definition PB_SET_ERROR_i :: "pb_istream_t \<Rightarrow> string \<Rightarrow> pb_istream_t" where
  "PB_SET_ERROR_i s msg =
     s\<lparr>is_errmsg := (case is_errmsg s of None \<Rightarrow> Some msg | Some e \<Rightarrow> Some e)\<rparr>"

definition PB_SET_ERROR_o :: "pb_ostream_t \<Rightarrow> string \<Rightarrow> pb_ostream_t" where
  "PB_SET_ERROR_o s msg =
     s\<lparr>os_errmsg := (case os_errmsg s of None \<Rightarrow> Some msg | Some e \<Rightarrow> Some e)\<rparr>"

definition PB_RETURN_ERROR_i :: "pb_istream_t \<Rightarrow> string \<Rightarrow> mem \<Rightarrow> 'a istep" where
  "PB_RETURN_ERROR_i s msg m = Fail (PB_SET_ERROR_i s msg, m)"

definition PB_RETURN_ERROR_o :: "pb_ostream_t \<Rightarrow> string \<Rightarrow> mem \<Rightarrow> 'a ostep" where
  "PB_RETURN_ERROR_o s msg m = Fail (PB_SET_ERROR_o s msg, m)"

lemma PB_SET_ERROR_i_simps [simp]:
  "is_callback (PB_SET_ERROR_i s e) = is_callback s"
  "is_state (PB_SET_ERROR_i s e) = is_state s"
  "bytes_left (PB_SET_ERROR_i s e) = bytes_left s"
  by (simp_all add: PB_SET_ERROR_i_def)

lemma PB_SET_ERROR_o_simps [simp]:
  "os_callback (PB_SET_ERROR_o s e) = os_callback s"
  "os_state (PB_SET_ERROR_o s e) = os_state s"
  "max_size (PB_SET_ERROR_o s e) = max_size s"
  "bytes_written (PB_SET_ERROR_o s e) = bytes_written s"
  by (simp_all add: PB_SET_ERROR_o_def)

lemma PB_SET_ERROR_keeps_first:
  "is_errmsg s = Some e \<Longrightarrow> PB_SET_ERROR_i s e' = s"
  by (simp add: PB_SET_ERROR_i_def)

end
