(* ===== verification/Pb_Common.thy ===== *)
theory Pb_Common
  imports Pb_Types
begin

text \<open>
  The field iterator of \<^verbatim>\<open>pb_common.c\<close>: a cursor over a descriptor array that keeps the
  addresses of the current field's data and of its count or has-flag, which it derives
  from the previous field's size and the delta-encoded offsets.
\<close>

section \<open>Iterator state\<close>

record pb_field_iter_t =
  it_start :: "pb_field_t list"
  it_pos :: nat
  required_field_index :: nat
  dest_struct :: addr
  pData :: addr
  pSize :: addr

definition pos_field :: "pb_field_iter_t \<Rightarrow> pb_field_t" where
  "pos_field it = field_at (it_start it) (it_pos it)"

section \<open>Operations\<close>

definition pb_field_iter_begin :: "pb_field_t list \<Rightarrow> addr \<Rightarrow> bool \<times> pb_field_iter_t" where
  "pb_field_iter_begin fs dest =
     (let pos = field_at fs 0;
          data = dest + uint (f_data_offset pos)
      in (f_tag pos \<noteq> 0,
          \<lparr>it_start = fs, it_pos = 0, required_field_index = 0, dest_struct = dest,
           pData = data, pSize = data + sint (f_size_offset pos)\<rparr>))"

text \<open>
  The three ways the previous field's size is taken, in the order of the code: \<open>None\<close> is
  the early return inside a union.
\<close>

definition prev_field_size :: "pb_field_t \<Rightarrow> pb_field_t \<Rightarrow> size_t option" where
  "prev_field_size prev pos =
     (if htype_of prev = PB_HTYPE_ONEOF \<and> htype_of pos = PB_HTYPE_ONEOF
         \<and> f_data_offset pos = PB_SIZE_MAX
      then None
      else if atype_of prev = PB_ATYPE_STATIC \<and> htype_of prev = PB_HTYPE_REPEATED
      then Some (ucast (f_data_size prev) * ucast (f_array_size prev))
      else if atype_of prev = PB_ATYPE_POINTER then Some sizeof_pointer
      else Some (ucast (f_data_size prev)))"

definition pb_field_iter_next :: "pb_field_iter_t \<Rightarrow> bool \<times> pb_field_iter_t" where
  "pb_field_iter_next it =
     (let prev = pos_field it in
      if f_tag prev = 0 then (False, it)
      else let it1 = it\<lparr>it_pos := Suc (it_pos it)\<rparr>; pos = pos_field it1 in
      if f_tag pos = 0
      then (False, snd (pb_field_iter_begin (it_start it) (dest_struct it)))
      else case prev_field_size prev pos of
             None \<Rightarrow> (True, it1)
           | Some prev_size \<Rightarrow>
               let it2 = (if htype_of prev = PB_HTYPE_REQUIRED
                          then it1\<lparr>required_field_index := Suc (required_field_index it1)\<rparr>
                          else it1);
                   data = pData it2 + uint prev_size + uint (f_data_offset pos)
               in (True, it2\<lparr>pData := data, pSize := data + sint (f_size_offset pos)\<rparr>))"

text \<open>
  \<^verbatim>\<open>do { if (found) return true; next } while (iter->pos != start)\<close>, shared by
  \<^verbatim>\<open>pb_field_iter_find\<close> and \<^verbatim>\<open>find_extension_field\<close>. The loop visits each entry at most
  once before it is back at \<open>start\<close>; \<open>None\<close> would be a loop that never gets back.
\<close>

primrec iter_search ::
  "nat \<Rightarrow> (pb_field_t \<Rightarrow> bool) \<Rightarrow> nat \<Rightarrow> pb_field_iter_t \<Rightarrow> (bool \<times> pb_field_iter_t) option" where
  "iter_search 0 P start it = None"
| "iter_search (Suc n) P start it =
     (if P (pos_field it) then Some (True, it)
      else let it' = snd (pb_field_iter_next it) in
           if it_pos it' \<noteq> start then iter_search n P start it' else Some (False, it'))"

definition pb_field_iter_find :: "pb_field_iter_t \<Rightarrow> 32 word \<Rightarrow> (bool \<times> pb_field_iter_t) option" where
  "pb_field_iter_find it tag =
     iter_search (Suc (length (it_start it)))
       (\<lambda>f. f_tag f = tag \<and> ltype_of f \<noteq> PB_LTYPE_EXTENSION) (it_pos it) it"

definition find_extension_field :: "pb_field_iter_t \<Rightarrow> (bool \<times> pb_field_iter_t) option" where
  "find_extension_field it =
     iter_search (Suc (length (it_start it)))
       (\<lambda>f. ltype_of f = PB_LTYPE_EXTENSION) (it_pos it) it"

text \<open>The loop \<^verbatim>\<open>do { body } while (pb_field_iter_next(&iter))\<close> over a message's fields.\<close>

lemma iter_next_progress:
  assumes "pb_field_iter_next it = (True, it')"
  shows "it_start it' = it_start it" "it_pos it' = Suc (it_pos it)"
    "dest_struct it' = dest_struct it" "it_pos it' < length (it_start it)"
    "f_tag (pos_field it') \<noteq> 0" "f_tag (pos_field it) \<noteq> 0"
  using assms
  by (auto simp: pb_field_iter_next_def Let_def pos_field_def field_at_def PB_LAST_FIELD_def
      split: if_splits option.splits)

function for_each_field ::
  "(pb_field_iter_t \<Rightarrow> 's \<Rightarrow> (unit, 's) outcome) \<Rightarrow> pb_field_iter_t \<Rightarrow> 's \<Rightarrow> (unit, 's) outcome" where
  "for_each_field body it s =
     obind (body it s) (\<lambda>_ s'.
       case pb_field_iter_next it of
         (True, it') \<Rightarrow> for_each_field body it' s'
       | (False, _) \<Rightarrow> Ok () s')"
  by pat_completeness auto
termination
proof (relation "measure (\<lambda>(body, it, s). length (it_start it) - it_pos it)", goal_cases)
  case 1
  then show ?case by simp
next
  case (2 body it s a sa x y)
  then have "pb_field_iter_next it = (True, y)" by auto
  then show ?case using iter_next_progress [of it y] by simp
qed

declare for_each_field.simps [simp del]

end
