(* ===== verification/Pb_Iter_Props.thy ===== *)
theory Pb_Iter_Props
  imports Pb_Common
begin

text \<open>
  What the field iterator computes. The delta-encoded descriptors determine the address of
  every field once and for all; \<open>positions\<close> is that table, and the iterator is shown to be
  a cursor into it that wraps around, whatever mixture of stepping and searching moved it.
\<close>

section \<open>The table of field addresses\<close>

text \<open>One entry: a field, the address of its data, the address of its count or has-flag.\<close>

type_synonym placed = "pb_field_t \<times> addr \<times> addr"

definition place_next :: "placed \<Rightarrow> pb_field_t \<Rightarrow> placed" where
  "place_next p f =
     (case p of (prev, d, z) \<Rightarrow>
        case prev_field_size prev f of
          None \<Rightarrow> (f, d, z)
        | Some sz \<Rightarrow>
            let d' = d + uint sz + uint (f_data_offset f)
            in (f, d', d' + sint (f_size_offset f)))"

fun positions_from :: "placed \<Rightarrow> pb_field_t list \<Rightarrow> placed list" where
  "positions_from p [] = []"
| "positions_from p (f # fs) = place_next p f # positions_from (place_next p f) fs"

definition place_first :: "addr \<Rightarrow> pb_field_t \<Rightarrow> placed" where
  "place_first dest f =
     (let d = dest + uint (f_data_offset f) in (f, d, d + sint (f_size_offset f)))"

fun positions :: "pb_field_t list \<Rightarrow> addr \<Rightarrow> placed list" where
  "positions [] dest = []"
| "positions (f # fs) dest = place_first dest f # positions_from (place_first dest f) fs"

definition no_terminator :: "pb_field_t list \<Rightarrow> bool" where
  "no_terminator fs \<longleftrightarrow> (\<forall>f \<in> set fs. f_tag f \<noteq> 0)"

lemma fst_place_next [simp]: "fst (place_next p f) = f"
  by (auto simp: place_next_def Let_def split: prod.splits option.splits)

lemma fst_place_first [simp]: "fst (place_first dest f) = f"
  by (simp add: place_first_def Let_def)

lemma map_fst_positions_from: "map fst (positions_from p fs) = fs"
  by (induction fs arbitrary: p) simp_all

lemma map_fst_positions [simp]: "map fst (positions fs dest) = fs"
  by (cases fs) (simp_all add: map_fst_positions_from)

lemma length_positions [simp]: "length (positions fs dest) = length fs"
  by (metis length_map map_fst_positions)

lemma length_positions_from [simp]: "length (positions_from p fs) = length fs"
  by (metis length_map map_fst_positions_from)

lemma nth_positions_from:
  "i < length fs \<Longrightarrow>
    positions_from p fs ! i = place_next (if i = 0 then p else positions_from p fs ! (i - 1)) (fs ! i)"
proof (induction fs arbitrary: p i)
  case (Cons f fs)
  then show ?case by (cases i) (auto simp: nth_Cons' Cons.IH)
qed simp

lemma nth_positions_0: "fs \<noteq> [] \<Longrightarrow> positions fs dest ! 0 = place_first dest (fs ! 0)"
  by (cases fs) simp_all

lemma nth_positions_Suc:
  "Suc i < length fs \<Longrightarrow> positions fs dest ! Suc i = place_next (positions fs dest ! i) (fs ! Suc i)"
  by (cases fs) (auto simp: nth_positions_from nth_Cons')

lemma positions_from_take: "positions_from p (take i fs) = take i (positions_from p fs)"
proof (induction fs arbitrary: p i)
  case (Cons f fs)
  then show ?case by (cases i) simp_all
qed simp

lemma positions_take: "positions (take i fs) dest = take i (positions fs dest)"
  by (cases fs; cases i) (simp_all add: positions_from_take)

section \<open>The iterator as a cursor\<close>

text \<open>
  \<open>iter_valid fs dest it\<close>: the iterator stands on an entry of the table and its fields are
  those of the entry; the index counts the required fields before it.
\<close>

definition is_required :: "pb_field_t \<Rightarrow> bool" where
  "is_required f \<longleftrightarrow> htype_of f = PB_HTYPE_REQUIRED"

definition iter_valid :: "pb_field_t list \<Rightarrow> addr \<Rightarrow> pb_field_iter_t \<Rightarrow> bool" where
  "iter_valid fs dest it \<longleftrightarrow>
     it_start it = fs \<and> dest_struct it = dest \<and> it_pos it < length fs \<and>
     (pos_field it, pData it, pSize it) = positions fs dest ! it_pos it \<and>
     required_field_index it = length (filter is_required (take (it_pos it) fs))"

lemma iter_begin_valid:
  assumes "fs \<noteq> []"
  shows "iter_valid fs dest (snd (pb_field_iter_begin fs dest))"
    "it_pos (snd (pb_field_iter_begin fs dest)) = 0"
  using assms
  by (auto simp: iter_valid_def pb_field_iter_begin_def Let_def pos_field_def field_at_def
      nth_positions_0 place_first_def)

lemma iter_begin_bool:
  "no_terminator fs \<Longrightarrow> fst (pb_field_iter_begin fs dest) \<longleftrightarrow> fs \<noteq> []"
  by (cases fs) (auto simp: pb_field_iter_begin_def Let_def field_at_def no_terminator_def PB_LAST_FIELD_def)

lemma pos_field_nth: "iter_valid fs dest it \<Longrightarrow> pos_field it = fs ! it_pos it"
  by (simp add: iter_valid_def pos_field_def field_at_def)

lemma iter_valid_in: "iter_valid fs dest it \<Longrightarrow> (pos_field it, pData it, pSize it) \<in> set (positions fs dest)"
  by (simp add: iter_valid_def)

lemma prev_field_size_required:
  "htype_of prev = PB_HTYPE_REQUIRED \<Longrightarrow> prev_field_size prev pos \<noteq> None"
  by (simp add: prev_field_size_def pb_htypes)

text \<open>Stepping moves to the next entry, or back to the first one.\<close>

lemma iter_next_valid:
  assumes "no_terminator fs" "iter_valid fs dest it"
  shows "iter_valid fs dest (snd (pb_field_iter_next it))"
    "fst (pb_field_iter_next it) \<longleftrightarrow> Suc (it_pos it) < length fs"
    "it_pos (snd (pb_field_iter_next it)) = (if Suc (it_pos it) < length fs then Suc (it_pos it) else 0)"
proof -
  let ?i = "it_pos it"
  have i: "?i < length fs" and st: "it_start it = fs" and de: "dest_struct it = dest"
    and ps: "positions fs dest ! ?i = (pos_field it, pData it, pSize it)"
    using assms(2) by (auto simp: iter_valid_def)
  have pf: "pos_field it = fs ! ?i" using assms(2) by (rule pos_field_nth)
  have t: "f_tag (pos_field it) \<noteq> 0" using assms(1) i pf by (simp add: no_terminator_def)
  show "iter_valid fs dest (snd (pb_field_iter_next it))"
    "fst (pb_field_iter_next it) \<longleftrightarrow> Suc ?i < length fs"
    "it_pos (snd (pb_field_iter_next it)) = (if Suc ?i < length fs then Suc ?i else 0)"
  proof (atomize (full), cases "Suc ?i < length fs")
    case False
    then have "pos_field (it\<lparr>it_pos := Suc ?i\<rparr>) = PB_LAST_FIELD"
      by (simp add: pos_field_def field_at_def st)
    then have nx: "pb_field_iter_next it = (False, snd (pb_field_iter_begin fs dest))"
      using t by (simp add: pb_field_iter_next_def Let_def PB_LAST_FIELD_def st de)
    from i have "fs \<noteq> []" by auto
    then show "iter_valid fs dest (snd (pb_field_iter_next it)) \<and>
      (fst (pb_field_iter_next it) = (Suc ?i < length fs)) \<and>
      it_pos (snd (pb_field_iter_next it)) = (if Suc ?i < length fs then Suc ?i else 0)"
      using nx False iter_begin_valid [of fs dest] by simp
  next
    case True
    let ?pos = "fs ! Suc ?i"
    have p: "pos_field (it\<lparr>it_pos := Suc ?i\<rparr>) = ?pos"
      using True by (simp add: pos_field_def field_at_def st)
    have t': "f_tag ?pos \<noteq> 0" using True assms(1) by (simp add: no_terminator_def)
    have pl: "positions fs dest ! Suc ?i = place_next (pos_field it, pData it, pSize it) ?pos"
      using nth_positions_Suc [OF True, of dest] ps by simp
    have fl: "length (filter is_required (take (Suc ?i) fs))
        = length (filter is_required (take ?i fs)) + (if is_required (pos_field it) then 1 else 0)"
      using i pf by (simp add: take_Suc_conv_app_nth)
    have ri: "required_field_index it = length (filter is_required (take ?i fs))"
      using assms(2) by (simp add: iter_valid_def)
    have "fst (pb_field_iter_next it) \<and> iter_valid fs dest (snd (pb_field_iter_next it))
        \<and> it_pos (snd (pb_field_iter_next it)) = Suc ?i"
    proof (cases "prev_field_size (pos_field it) ?pos")
      case None
      then have "\<not> is_required (pos_field it)"
        using prev_field_size_required [of "pos_field it" ?pos] unfolding is_required_def by metis
      with None t t' p pl fl ri True st de show ?thesis
        by (simp add: pb_field_iter_next_def Let_def iter_valid_def place_next_def)
    next
      case (Some sz)
      with t t' p pl fl ri True st de show ?thesis
        by (auto simp: pb_field_iter_next_def Let_def iter_valid_def place_next_def is_required_def
            pos_field_def)
    qed
    with True show "iter_valid fs dest (snd (pb_field_iter_next it)) \<and>
      (fst (pb_field_iter_next it) = (Suc ?i < length fs)) \<and>
      it_pos (snd (pb_field_iter_next it)) = (if Suc ?i < length fs then Suc ?i else 0)"
      by simp
  qed
qed

section \<open>Walking over all fields\<close>

primrec fold_placed ::
  "(pb_field_t \<Rightarrow> addr \<Rightarrow> addr \<Rightarrow> 's \<Rightarrow> (unit, 's) outcome) \<Rightarrow> placed list \<Rightarrow> 's \<Rightarrow> (unit, 's) outcome" where
  "fold_placed g [] s = Ok () s"
| "fold_placed g (p # ps) s =
     obind (case p of (f, d, z) \<Rightarrow> g f d z s) (\<lambda>_ s'. fold_placed g ps s')"

lemma for_each_field_drop:
  assumes "no_terminator fs" "iter_valid fs dest it"
    and body: "\<And>it s. body it s = g (pos_field it) (pData it) (pSize it) s"
  shows "for_each_field body it s = fold_placed g (drop (it_pos it) (positions fs dest)) s"
  using assms(2)
proof (induction "length fs - it_pos it" arbitrary: it s rule: less_induct)
  case less
  note nx = iter_next_valid [OF assms(1) less.prems]
  have i: "it_pos it < length fs" using less.prems by (simp add: iter_valid_def)
  then have d: "drop (it_pos it) (positions fs dest)
      = (pos_field it, pData it, pSize it) # drop (Suc (it_pos it)) (positions fs dest)"
    using less.prems by (simp add: iter_valid_def flip: Cons_nth_drop_Suc)
  show ?case
  proof (cases "Suc (it_pos it) < length fs")
    case True
    obtain it' where it': "pb_field_iter_next it = (True, it')"
      using nx(2) True by (cases "pb_field_iter_next it") auto
    have "for_each_field body it' s' = fold_placed g (drop (Suc (it_pos it)) (positions fs dest)) s'" for s'
      using less.hyps [of it' s'] nx(1,3) it' True i by simp
    then show ?thesis
      by (simp add: for_each_field.simps [of body it] d it' body)
  next
    case False
    then have "drop (Suc (it_pos it)) (positions fs dest) = []" by simp
    moreover obtain it' where "pb_field_iter_next it = (False, it')"
      using nx(2) False by (cases "pb_field_iter_next it") auto
    ultimately show ?thesis
      by (simp add: for_each_field.simps [of body it] d body)
  qed
qed

text \<open>
  The loop the library runs over a message visits every field of the table once, in
  order, with its own address.
\<close>

lemma for_each_field_positions:
  assumes "no_terminator fs"
    and "\<And>it s. body it s = g (pos_field it) (pData it) (pSize it) s"
  shows "(case pb_field_iter_begin fs dest of
            (True, it) \<Rightarrow> for_each_field body it s | (False, _) \<Rightarrow> Ok () s)
       = fold_placed g (positions fs dest) s"
proof (cases "fs = []")
  case True
  then show ?thesis
    by (simp add: pb_field_iter_begin_def Let_def field_at_def PB_LAST_FIELD_def)
next
  case False
  then obtain it where it: "pb_field_iter_begin fs dest = (True, it)"
    using iter_begin_bool [OF assms(1), of dest] by (cases "pb_field_iter_begin fs dest") auto
  then have "iter_valid fs dest it" "it_pos it = 0"
    using iter_begin_valid [OF False, of dest] by auto
  then show ?thesis
    using for_each_field_drop [of fs dest it body g s] assms by (simp add: it)
qed

section \<open>Searching\<close>

lemma iter_search_run:
  assumes nt: "no_terminator fs" and s0: "s0 < length fs"
  shows "iter_valid fs dest it \<Longrightarrow> it_pos it = (s0 + k) mod length fs \<Longrightarrow> k < length fs \<Longrightarrow>
    length fs - k \<le> n \<Longrightarrow> (\<forall>j<k. \<not> P (fs ! ((s0 + j) mod length fs))) \<Longrightarrow>
    \<exists>b it'. iter_search n P s0 it = Some (b, it') \<and> iter_valid fs dest it' \<and>
      (if b then P (pos_field it')
       else it_pos it' = s0 \<and> (\<forall>j<length fs. \<not> P (fs ! ((s0 + j) mod length fs))))"
proof (induction n arbitrary: it k)
  case 0
  then show ?case by simp
next
  case (Suc n)
  let ?N = "length fs"
  show ?case
  proof (cases "P (pos_field it)")
    case True
    with Suc.prems show ?thesis by auto
  next
    case False
    define it' where "it' = snd (pb_field_iter_next it)"
    note nx = iter_next_valid [OF nt Suc.prems(1), folded it'_def]
    have pos': "it_pos it' = (s0 + Suc k) mod ?N"
    proof (cases "Suc (it_pos it) < ?N")
      case True
      then show ?thesis using nx(3) Suc.prems(2) by (simp add: mod_Suc split: if_splits)
    next
      case False
      moreover have "it_pos it < ?N" using Suc.prems(1) by (simp add: iter_valid_def)
      ultimately have "Suc (it_pos it) = ?N" by simp
      then show ?thesis using nx(3) Suc.prems(2) by (simp add: mod_Suc)
    qed
    have seen: "\<forall>j<Suc k. \<not> P (fs ! ((s0 + j) mod ?N))"
      using Suc.prems(2,5) False pos_field_nth [OF Suc.prems(1)] by (auto simp: less_Suc_eq)
    have step: "iter_search (Suc n) P s0 it =
        (if it_pos it' \<noteq> s0 then iter_search n P s0 it' else Some (False, it'))"
      using False by (simp add: it'_def Let_def)
    show ?thesis
    proof (cases "Suc k < ?N")
      case True
      have "it_pos it' \<noteq> s0"
      proof
        assume "it_pos it' = s0"
        then have "(s0 + Suc k) mod ?N = s0 mod ?N" using pos' s0 by simp
        then have "?N dvd Suc k" by (metis add_diff_cancel_left' le_add1 mod_eq_dvd_iff_nat)
        with True show False by (auto dest: dvd_imp_le)
      qed
      then show ?thesis
        using Suc.IH [OF nx(1) pos' True _ seen] Suc.prems(4) step by simp
    next
      case False
      with Suc.prems(3) have k: "Suc k = ?N" by simp
      then have "it_pos it' = s0" using pos' s0 by simp
      then show ?thesis using step nx(1) seen k by auto
    qed
  qed
qed

text \<open>
  A search from any position terminates and is complete: it finds an entry with the
  property if there is one, and otherwise is back where it began.
\<close>

lemma iter_search_complete:
  assumes "no_terminator fs" "iter_valid fs dest it" "length fs \<le> n"
  shows "\<exists>b it'. iter_search n P (it_pos it) it = Some (b, it') \<and> iter_valid fs dest it' \<and>
      (if b then P (pos_field it') else it' = it \<and> (\<forall>f \<in> set fs. \<not> P f))"
proof -
  let ?N = "length fs" and ?s = "it_pos it"
  have s: "?s < ?N" using assms(2) by (simp add: iter_valid_def)
  have "?s = (?s + 0) mod ?N" "0 < ?N" "?N - 0 \<le> n" using s assms(3) by auto
  from iter_search_run [OF assms(1) s assms(2) this, of P]
  obtain b it' where r: "iter_search n P ?s it = Some (b, it')" "iter_valid fs dest it'"
    "if b then P (pos_field it')
     else it_pos it' = ?s \<and> (\<forall>j<?N. \<not> P (fs ! ((?s + j) mod ?N)))"
    by auto
  have all: "\<forall>f \<in> set fs. \<not> P f" if "\<forall>j<?N. \<not> P (fs ! ((?s + j) mod ?N))"
  proof
    fix f assume "f \<in> set fs"
    then obtain i where i: "i < ?N" "f = fs ! i" by (auto simp: in_set_conv_nth)
    have "(?s + (i + ?N - ?s) mod ?N) mod ?N = i"
      using s i(1) by (simp add: mod_add_right_eq)
    moreover have "(i + ?N - ?s) mod ?N < ?N" using s by (intro mod_less_divisor) auto
    ultimately show "\<not> P f" using that i(2) by metis
  qed
  have same: "it' = it" if p: "it_pos it' = ?s"
  proof -
    have "(pos_field it', pData it', pSize it') = (pos_field it, pData it, pSize it)"
      using p r(2) assms(2) unfolding iter_valid_def by metis
    then show ?thesis
      using p r(2) assms(2) by (intro pb_field_iter_t.equality) (simp_all add: iter_valid_def)
  qed
  from r all same show ?thesis by (cases b) auto
qed

lemma find_valid:
  assumes "no_terminator fs" "iter_valid fs dest it"
  obtains (found) it' where "pb_field_iter_find it tag = Some (True, it')" "iter_valid fs dest it'"
      "f_tag (pos_field it') = tag" "ltype_of (pos_field it') \<noteq> PB_LTYPE_EXTENSION"
    | (absent) "pb_field_iter_find it tag = Some (False, it)"
      "\<And>f. f \<in> set fs \<Longrightarrow> f_tag f = tag \<Longrightarrow> ltype_of f = PB_LTYPE_EXTENSION"
proof -
  let ?P = "\<lambda>f. f_tag f = tag \<and> ltype_of f \<noteq> PB_LTYPE_EXTENSION"
  have "it_start it = fs" using assms(2) by (simp add: iter_valid_def)
  then obtain b it' where r: "pb_field_iter_find it tag = Some (b, it')" "iter_valid fs dest it'"
      "if b then ?P (pos_field it') else it' = it \<and> (\<forall>f \<in> set fs. \<not> ?P f)"
    using iter_search_complete [OF assms, of "Suc (length fs)" ?P, OF le_SucI [OF order_refl]]
    unfolding pb_field_iter_find_def by blast
  show thesis
  proof (cases b)
    case True
    then show thesis using r by (intro found [of it']) simp_all
  next
    case False
    then show thesis using r by (intro absent) auto
  qed
qed

lemma find_extension_valid:
  assumes "no_terminator fs" "iter_valid fs dest it"
  obtains (found) it' where "find_extension_field it = Some (True, it')" "iter_valid fs dest it'"
      "ltype_of (pos_field it') = PB_LTYPE_EXTENSION"
    | (absent) "find_extension_field it = Some (False, it)"
      "\<And>f. f \<in> set fs \<Longrightarrow> ltype_of f \<noteq> PB_LTYPE_EXTENSION"
proof -
  let ?P = "\<lambda>f. ltype_of f = PB_LTYPE_EXTENSION"
  have "it_start it = fs" using assms(2) by (simp add: iter_valid_def)
  then obtain b it' where r: "find_extension_field it = Some (b, it')" "iter_valid fs dest it'"
      "if b then ?P (pos_field it') else it' = it \<and> (\<forall>f \<in> set fs. \<not> ?P f)"
    using iter_search_complete [OF assms, of "Suc (length fs)" ?P, OF le_SucI [OF order_refl]]
    unfolding find_extension_field_def by blast
  show thesis
  proof (cases b)
    case True
    then show thesis using r by (intro found [of it']) simp_all
  next
    case False
    then show thesis using r by (intro absent) auto
  qed
qed

end
