(* ===== verification/Pb_Fields.thy ===== *)
theory Pb_Fields
  imports Pb_Iter_Props
begin

text \<open>
  Well-formed descriptor arrays: what the generator of the descriptors guarantees and the
  C code relies on, and the nesting depth of a message type, which bounds the recursion of
  encoder and decoder.
\<close>

section \<open>Well-formed descriptors\<close>

text \<open>
  A tag that is not the terminator's, an entry in the function tables, a count or selector
  where the code reads one, and the descriptors of a submessage where it follows them.
\<close>

primrec wf_field :: "pb_field_t \<Rightarrow> bool"
  and wf_ptr :: "pb_field_ptr \<Rightarrow> bool" where
  "wf_field (PB_field_t tag ty doff soff ds as ptr) \<longleftrightarrow>
     tag \<noteq> 0 \<and> PB_LTYPE ty < PB_LTYPES_COUNT \<and>
     (PB_HTYPE ty = PB_HTYPE_REPEATED \<or> PB_HTYPE ty = PB_HTYPE_ONEOF \<longrightarrow> soff \<noteq> 0) \<and>
     (PB_LTYPE ty = PB_LTYPE_SUBMESSAGE \<longrightarrow> wf_ptr ptr)"
| "wf_ptr Ptr_null = False"
| "wf_ptr (Ptr_fields fs) = list_all id (map wf_field fs)"
| "wf_ptr (Ptr_default bs) = False"

definition wf_fields :: "pb_field_t list \<Rightarrow> bool" where
  "wf_fields fs \<longleftrightarrow> (\<forall>f \<in> set fs. wf_field f)"

lemma wf_field_iff:
  "wf_field f \<longleftrightarrow> f_tag f \<noteq> 0 \<and> ltype_of f < PB_LTYPES_COUNT \<and>
     (htype_of f = PB_HTYPE_REPEATED \<or> htype_of f = PB_HTYPE_ONEOF \<longrightarrow> f_size_offset f \<noteq> 0) \<and>
     (ltype_of f = PB_LTYPE_SUBMESSAGE \<longrightarrow> (\<exists>fs. f_ptr f = Ptr_fields fs \<and> wf_fields fs))"
proof -
  have p: "wf_ptr p \<longleftrightarrow> (\<exists>fs. p = Ptr_fields fs \<and> wf_fields fs)" for p
    by (cases p) (auto simp: wf_fields_def list_all_iff)
  show ?thesis by (cases f) (simp only: wf_field.simps p pb_field_t.sel)
qed

lemma wf_fields_no_terminator: "wf_fields fs \<Longrightarrow> no_terminator fs"
  unfolding wf_fields_def no_terminator_def using wf_field_iff by blast

lemma wf_fields_in: "wf_fields fs \<Longrightarrow> f \<in> set fs \<Longrightarrow> wf_field f"
  by (simp add: wf_fields_def)

lemma wf_submessage:
  assumes "wf_field f" "ltype_of f = PB_LTYPE_SUBMESSAGE"
  obtains fs where "f_ptr f = Ptr_fields fs" "wf_fields fs"
  using assms wf_field_iff [of f] by blast

section \<open>Depth\<close>

text \<open>Sizes, for recursion along submessages.\<close>

lemma positions_subset: "(f, d, z) \<in> set (positions fs dest) \<Longrightarrow> f \<in> set fs"
  using map_fst_positions [of fs dest] by (metis fst_conv image_eqI list.set_map)

lemma size_sub_fields:
  "f_ptr f = Ptr_fields fs' \<Longrightarrow> size_list size fs' < size f"
  by (cases f) auto

lemma size_in_fields: "(f :: pb_field_t) \<in> set fs \<Longrightarrow> size f \<le> size_list size fs"
  by (rule size_list_estimation' [of f fs _ size]) simp_all



text \<open>The number of levels of submessages below a field and below a message.\<close>

primrec depth_field :: "pb_field_t \<Rightarrow> nat"
  and depth_ptr :: "pb_field_ptr \<Rightarrow> nat" where
  "depth_field (PB_field_t tag ty doff soff ds as ptr) = depth_ptr ptr"
| "depth_ptr Ptr_null = 0"
| "depth_ptr (Ptr_fields fs) = Suc (foldr max (map depth_field fs) 0)"
| "depth_ptr (Ptr_default bs) = 0"

definition depth_fields :: "pb_field_t list \<Rightarrow> nat" where
  "depth_fields fs = foldr max (map depth_field fs) 0"

lemma depth_field_in: "f \<in> set fs \<Longrightarrow> depth_field f \<le> depth_fields fs"
  unfolding depth_fields_def by (induction fs) auto

lemma depth_fields_le: "depth_fields fs \<le> k \<longleftrightarrow> (\<forall>f \<in> set fs. depth_field f \<le> k)"
  unfolding depth_fields_def by (induction fs) auto

lemma depth_fields_mono: "set xs \<subseteq> set ys \<Longrightarrow> depth_fields xs \<le> depth_fields ys"
  by (auto simp: depth_fields_le depth_field_in)

lemma depth_sub_fields: "f_ptr f = Ptr_fields fs \<Longrightarrow> depth_field f = Suc (depth_fields fs)"
  by (cases f) (simp add: depth_fields_def)

section \<open>Type masks\<close>

lemma pb_type_distinct [simp]:
  "PB_HTYPE_REQUIRED \<noteq> PB_HTYPE_OPTIONAL" "PB_HTYPE_OPTIONAL \<noteq> PB_HTYPE_REQUIRED"
  "PB_HTYPE_REQUIRED \<noteq> PB_HTYPE_REPEATED" "PB_HTYPE_REPEATED \<noteq> PB_HTYPE_REQUIRED"
  "PB_HTYPE_REQUIRED \<noteq> PB_HTYPE_ONEOF" "PB_HTYPE_ONEOF \<noteq> PB_HTYPE_REQUIRED"
  "PB_HTYPE_OPTIONAL \<noteq> PB_HTYPE_REPEATED" "PB_HTYPE_REPEATED \<noteq> PB_HTYPE_OPTIONAL"
  "PB_HTYPE_OPTIONAL \<noteq> PB_HTYPE_ONEOF" "PB_HTYPE_ONEOF \<noteq> PB_HTYPE_OPTIONAL"
  "PB_HTYPE_REPEATED \<noteq> PB_HTYPE_ONEOF" "PB_HTYPE_ONEOF \<noteq> PB_HTYPE_REPEATED"
  "PB_ATYPE_STATIC \<noteq> PB_ATYPE_POINTER" "PB_ATYPE_POINTER \<noteq> PB_ATYPE_STATIC"
  "PB_ATYPE_STATIC \<noteq> PB_ATYPE_CALLBACK" "PB_ATYPE_CALLBACK \<noteq> PB_ATYPE_STATIC"
  "PB_ATYPE_POINTER \<noteq> PB_ATYPE_CALLBACK" "PB_ATYPE_CALLBACK \<noteq> PB_ATYPE_POINTER"
  by (simp_all add: pb_htypes pb_atypes)

text \<open>The repetition rule has two bits, so one of the four rules applies.\<close>

lemma PB_HTYPE_cases:
  "PB_HTYPE t = PB_HTYPE_REQUIRED \<or> PB_HTYPE t = PB_HTYPE_OPTIONAL \<or>
   PB_HTYPE t = PB_HTYPE_REPEATED \<or> PB_HTYPE t = PB_HTYPE_ONEOF"
proof -
  have "t AND 0x30 = (if bit t 4 then 0x10 else 0) + (if bit t 5 then 0x20 else 0)" for t :: "8 word"
  proof -
    have "t AND 0x30 = (if bit t 4 then 0x10 else 0) OR (if bit t 5 then 0x20 else 0)"
      by (rule bit_word_eqI) (auto simp: bit_simps nat_less_iff numeral_eq_Suc less_Suc_eq)
    then show ?thesis by simp
  qed
  then show ?thesis by (auto simp: PB_HTYPE_def pb_htypes)
qed

lemma ltype_cases:
  assumes "PB_LTYPE t < PB_LTYPES_COUNT"
  shows "PB_LTYPE t = PB_LTYPE_VARINT \<or> PB_LTYPE t = PB_LTYPE_UVARINT \<or> PB_LTYPE t = PB_LTYPE_SVARINT \<or>
    PB_LTYPE t = PB_LTYPE_FIXED32 \<or> PB_LTYPE t = PB_LTYPE_FIXED64 \<or> PB_LTYPE t = PB_LTYPE_BYTES \<or>
    PB_LTYPE t = PB_LTYPE_STRING \<or> PB_LTYPE t = PB_LTYPE_SUBMESSAGE \<or> PB_LTYPE t = PB_LTYPE_EXTENSION \<or>
    PB_LTYPE t = PB_LTYPE_FIXED_LENGTH_BYTES"
proof -
  have "unat (PB_LTYPE t) < 10" using assms by (simp add: PB_LTYPES_COUNT_def word_less_nat_alt)
  then have "unat (PB_LTYPE t) \<in> {0, 1, 2, 3, 4, 5, 6, 7, 8, 9}" by auto
  then show ?thesis by (auto simp: pb_ltypes word_unat_eq_iff)
qed

end
