(* ===== verification/Pb_Stream.thy ===== *)
theory Pb_Stream
  imports Pb_Types
begin

text \<open>
  The stream layer: \<^verbatim>\<open>buf_read\<close>, \<^verbatim>\<open>pb_read\<close>, \<^verbatim>\<open>pb_readbyte\<close>, \<^verbatim>\<open>pb_istream_from_buffer\<close> of
  \<^verbatim>\<open>pb_decode.c\<close> and \<^verbatim>\<open>buf_write\<close>, \<^verbatim>\<open>pb_write\<close>, \<^verbatim>\<open>pb_ostream_from_buffer\<close> of \<^verbatim>\<open>pb_encode.c\<close>.
  A read or write past the end of a buffer object is undefined behaviour in the model; the
  lemmas show that the size checks of the library keep every access inside.
\<close>

section \<open>Input streams\<close>

text \<open>Delivers bytes to a destination: nothing to NULL, a local array, or memory.\<close>

definition deliver :: "read_dst \<Rightarrow> byte list \<Rightarrow> mem \<Rightarrow> mem" where
  "deliver dst bs m = (case dst of Dst_mem a \<Rightarrow> store_bytes m a bs | _ \<Rightarrow> m)"

definition buf_read :: "pb_istream_t \<Rightarrow> read_dst \<Rightarrow> size_t \<Rightarrow> mem \<Rightarrow> byte list istep" where
  "buf_read s dst count m =
     (case is_state s of
        In_buf source \<Rightarrow>
          if length source < unat count then Halt Undefined_Behaviour
          else Ok (take (unat count) source)
                 (s\<lparr>is_state := In_buf (drop (unat count) source)\<rparr>,
                  deliver dst (take (unat count) source) m)
      | In_user _ \<Rightarrow> Halt Undefined_Behaviour)"

text \<open>
  The call \<^verbatim>\<open>stream->callback(stream, buf, count)\<close>. A callback that reports success
  without filling the caller's array leaves indeterminate bytes behind.
\<close>

definition call_read :: "pb_env \<Rightarrow> pb_istream_t \<Rightarrow> read_dst \<Rightarrow> size_t \<Rightarrow> mem \<Rightarrow> byte list istep" where
  "call_read env s dst count m =
     (case is_callback s of
        Buf_read \<Rightarrow> buf_read s dst count m
      | User_read p \<Rightarrow>
          obind (env_read env p s dst count m) (\<lambda>bs (s', m').
            if dst = Dst_local \<and> length bs \<noteq> unat count then Halt Undefined_Behaviour
            else Ok bs (s', m')))"

text \<open>\<^verbatim>\<open>pb_read\<close> after the test for skipping: bounds check, callback, bookkeeping.\<close>

definition pb_read_checked :: "pb_env \<Rightarrow> pb_istream_t \<Rightarrow> read_dst \<Rightarrow> size_t \<Rightarrow> mem \<Rightarrow> byte list istep" where
  "pb_read_checked env s dst count m =
     (if bytes_left s < count then PB_RETURN_ERROR_i s ''end-of-stream'' m
      else case call_read env s dst count m of
             Ok bs (s', m') \<Rightarrow> Ok bs (s'\<lparr>bytes_left := bytes_left s' - count\<rparr>, m')
           | Fail (s', m') \<Rightarrow> PB_RETURN_ERROR_i s' ''io error'' m'
           | Halt e \<Rightarrow> Halt e)"

text \<open>Skipping input of a custom stream: sixteen bytes at a time into a scratch array.\<close>

function pb_skip_input :: "pb_env \<Rightarrow> pb_istream_t \<Rightarrow> size_t \<Rightarrow> mem \<Rightarrow> byte list istep" where
  "pb_skip_input env s count m =
     (if 16 < count
      then obind (pb_read_checked env s Dst_local 16 m) (\<lambda>_ (s', m').
             pb_skip_input env s' (count - 16) m')
      else obind (pb_read_checked env s Dst_local count m) (\<lambda>_ st. Ok [] st))"
  by pat_completeness auto
termination
proof (relation "measure (\<lambda>(env, s, count, m). unat count)", goal_cases)
  case 1
  then show ?case by simp
next
  case (2 env s count m)
  then have "16 < unat count" by (simp add: word_less_nat_alt)
  then have "unat (count - 16) < unat count" by (simp add: unat_sub_if')
  then show ?case by simp
qed

declare pb_skip_input.simps [simp del]

definition pb_read :: "pb_env \<Rightarrow> pb_istream_t \<Rightarrow> read_dst \<Rightarrow> size_t \<Rightarrow> mem \<Rightarrow> byte list istep" where
  "pb_read env s dst count m =
     (if dst = Dst_null \<and> is_callback s \<noteq> Buf_read then pb_skip_input env s count m
      else pb_read_checked env s dst count m)"

text \<open>Read a single byte, the fast path of the varint decoders.\<close>

definition pb_readbyte :: "pb_env \<Rightarrow> pb_istream_t \<Rightarrow> mem \<Rightarrow> byte istep" where
  "pb_readbyte env s m =
     (if bytes_left s = 0 then PB_RETURN_ERROR_i s ''end-of-stream'' m
      else case call_read env s Dst_local 1 m of
             Ok bs (s', m') \<Rightarrow> Ok (hd bs) (s'\<lparr>bytes_left := bytes_left s' - 1\<rparr>, m')
           | Fail (s', m') \<Rightarrow> PB_RETURN_ERROR_i s' ''io error'' m'
           | Halt e \<Rightarrow> Halt e)"

definition pb_istream_from_buffer :: "byte list \<Rightarrow> size_t \<Rightarrow> pb_istream_t" where
  "pb_istream_from_buffer buf bufsize =
     \<lparr>is_callback = Buf_read, is_state = In_buf buf, bytes_left = bufsize, is_errmsg = None\<rparr>"

section \<open>Output streams\<close>

definition PB_OSTREAM_SIZING :: pb_ostream_t where
  "PB_OSTREAM_SIZING =
     \<lparr>os_callback = Null_write, os_state = Out_null, max_size = 0, bytes_written = 0,
      os_errmsg = None\<rparr>"

definition buf_write :: "pb_ostream_t \<Rightarrow> byte list \<Rightarrow> mem \<Rightarrow> unit ostep" where
  "buf_write s bs m =
     (case os_state s of
        Out_buf out room \<Rightarrow>
          if room < length bs then Halt Undefined_Behaviour
          else Ok () (s\<lparr>os_state := Out_buf (out @ bs) (room - length bs)\<rparr>, m)
      | _ \<Rightarrow> Halt Undefined_Behaviour)"

definition pb_ostream_from_buffer :: "nat \<Rightarrow> size_t \<Rightarrow> pb_ostream_t" where
  "pb_ostream_from_buffer capacity bufsize =
     \<lparr>os_callback = Buf_write, os_state = Out_buf [] capacity, max_size = bufsize,
      bytes_written = 0, os_errmsg = None\<rparr>"

text \<open>
  \<open>buf\<close> holds the bytes of the source object from the pointer on; a sizing stream is
  given none. A write that needs more bytes than the source has reads past its end.
\<close>

definition pb_write :: "pb_env \<Rightarrow> pb_ostream_t \<Rightarrow> byte list \<Rightarrow> size_t \<Rightarrow> mem \<Rightarrow> unit ostep" where
  "pb_write env s buf count m =
     (if os_callback s \<noteq> Null_write \<and> max_size s < bytes_written s + count
      then PB_RETURN_ERROR_o s ''stream full'' m
      else case (case os_callback s of
                   Null_write \<Rightarrow> Ok () (s, m)
                 | Buf_write \<Rightarrow>
                     if length buf < unat count then Halt Undefined_Behaviour
                     else buf_write s (take (unat count) buf) m
                 | User_write p \<Rightarrow>
                     if length buf < unat count then Halt Undefined_Behaviour
                     else env_write env p s (take (unat count) buf) m) of
             Ok _ (s', m') \<Rightarrow> Ok () (s'\<lparr>bytes_written := bytes_written s' + count\<rparr>, m')
           | Fail (s', m') \<Rightarrow> PB_RETURN_ERROR_o s' ''io error'' m'
           | Halt e \<Rightarrow> Halt e)"

end
