(* ===== verification/Pb_Wire.thy ===== *)
theory Pb_Wire
  imports Pb_Stream
begin

text \<open>
  The wire-level primitives: varints, zig-zag integers, fixed-width integers, tags,
  length-prefixed strings and the skipping of unknown fields. The encoders are those at
  the end of \<^verbatim>\<open>pb_encode.c\<close>, the decoders the helper functions of \<^verbatim>\<open>pb_decode.c\<close>.
\<close>

section \<open>Encoding primitives\<close>

text \<open>
  The loop of \<^verbatim>\<open>pb_encode_varint\<close> fills \<^verbatim>\<open>buffer\<close> with seven-bit groups, all with the
  continuation bit; the bit of the last group is cleared afterwards.
\<close>

function varint_groups :: "64 word \<Rightarrow> byte list" where
  "varint_groups value =
     (if value = 0 then []
      else (ucast (value AND 0x7F) OR 0x80) # varint_groups (drop_bit 7 value))"
  by pat_completeness auto
termination
proof (relation "measure unat", goal_cases)
  case 1
  then show ?case by simp
next
  case (2 v)
  then have "0 < unat v" by (simp add: unat_gt_0)
  then have "unat v div 128 < unat v" by simp
  then show ?case by (simp add: drop_bit_eq_div unat_div)
qed

declare varint_groups.simps [simp del]

definition varint_buffer :: "64 word \<Rightarrow> byte list" where
  "varint_buffer value =
     (let buffer = varint_groups value; i = length buffer
      in buffer[i - 1 := (buffer ! (i - 1)) AND 0x7F])"

text \<open>\<^verbatim>\<open>buffer\<close> has room for ten bytes; a longer run would overflow the stack array.\<close>

definition pb_encode_varint :: "pb_env \<Rightarrow> pb_ostream_t \<Rightarrow> 64 word \<Rightarrow> mem \<Rightarrow> unit ostep" where
  "pb_encode_varint env s value m =
     (if value \<le> 0x7F then pb_write env s [ucast value] 1 m
      else let buffer = varint_buffer value
           in if 10 < length buffer then Halt Undefined_Behaviour
              else pb_write env s buffer (of_nat (length buffer)) m)"

definition zigzag :: "64 word \<Rightarrow> 64 word" where
  "zigzag value = (if sint value < 0 then NOT (push_bit 1 value) else push_bit 1 value)"

definition pb_encode_svarint :: "pb_env \<Rightarrow> pb_ostream_t \<Rightarrow> 64 word \<Rightarrow> mem \<Rightarrow> unit ostep" where
  "pb_encode_svarint env s value m = pb_encode_varint env s (zigzag value) m"

definition pb_encode_fixed32 :: "pb_env \<Rightarrow> pb_ostream_t \<Rightarrow> 32 word \<Rightarrow> mem \<Rightarrow> unit ostep" where
  "pb_encode_fixed32 env s val m =
     pb_write env s
       [ucast (val AND 0xFF),
        ucast (drop_bit 8 val AND 0xFF),
        ucast (drop_bit 16 val AND 0xFF),
        ucast (drop_bit 24 val AND 0xFF)] 4 m"

definition pb_encode_fixed64 :: "pb_env \<Rightarrow> pb_ostream_t \<Rightarrow> 64 word \<Rightarrow> mem \<Rightarrow> unit ostep" where
  "pb_encode_fixed64 env s val m =
     pb_write env s
       [ucast (val AND 0xFF),
        ucast (drop_bit 8 val AND 0xFF),
        ucast (drop_bit 16 val AND 0xFF),
        ucast (drop_bit 24 val AND 0xFF),
        ucast (drop_bit 32 val AND 0xFF),
        ucast (drop_bit 40 val AND 0xFF),
        ucast (drop_bit 48 val AND 0xFF),
        ucast (drop_bit 56 val AND 0xFF)] 8 m"

definition tag_word :: "pb_wire_type_t \<Rightarrow> 32 word \<Rightarrow> 64 word" where
  "tag_word wiretype field_number = push_bit 3 (ucast field_number) OR ucast wiretype"

definition pb_encode_tag ::
  "pb_env \<Rightarrow> pb_ostream_t \<Rightarrow> pb_wire_type_t \<Rightarrow> 32 word \<Rightarrow> mem \<Rightarrow> unit ostep" where
  "pb_encode_tag env s wiretype field_number m =
     pb_encode_varint env s (tag_word wiretype field_number) m"

text \<open>The wire type of a field; \<open>None\<close> is the \<^verbatim>\<open>default\<close> branch.\<close>

definition wire_type_of :: "pb_type_t \<Rightarrow> pb_wire_type_t option" where
  "wire_type_of lt =
     (if lt = PB_LTYPE_VARINT \<or> lt = PB_LTYPE_UVARINT \<or> lt = PB_LTYPE_SVARINT
      then Some PB_WT_VARINT
      else if lt = PB_LTYPE_FIXED32 then Some PB_WT_32BIT
      else if lt = PB_LTYPE_FIXED64 then Some PB_WT_64BIT
      else if lt = PB_LTYPE_BYTES \<or> lt = PB_LTYPE_STRING \<or> lt = PB_LTYPE_SUBMESSAGE
              \<or> lt = PB_LTYPE_FIXED_LENGTH_BYTES
      then Some PB_WT_STRING
      else None)"

definition pb_encode_tag_for_field ::
  "pb_env \<Rightarrow> pb_ostream_t \<Rightarrow> pb_field_t \<Rightarrow> mem \<Rightarrow> unit ostep" where
  "pb_encode_tag_for_field env s field m =
     (case wire_type_of (ltype_of field) of
        None \<Rightarrow> PB_RETURN_ERROR_o s ''invalid field type'' m
      | Some wiretype \<Rightarrow> pb_encode_tag env s wiretype (f_tag field) m)"

definition pb_encode_string ::
  "pb_env \<Rightarrow> pb_ostream_t \<Rightarrow> byte list \<Rightarrow> size_t \<Rightarrow> mem \<Rightarrow> unit ostep" where
  "pb_encode_string env s buffer sz m =
     obind (pb_encode_varint env s sz m) (\<lambda>_ (s', m'). pb_write env s' buffer sz m')"

section \<open>Decoding primitives\<close>

text \<open>
  The \<^verbatim>\<open>do ... while\<close> loop shared by both varint decoders: \<open>limit\<close> is the width of the
  result (64 or 32), \<open>bitpos\<close> the position of the next seven bits. \<^verbatim>\<open>bitpos\<close> stays at
  most 70, so its eight bits never wrap.
\<close>

function varint_loop ::
  "nat \<Rightarrow> pb_env \<Rightarrow> nat \<Rightarrow> 'a::len word \<Rightarrow> pb_istream_t \<Rightarrow> mem \<Rightarrow> 'a word istep" where
  "varint_loop limit env bitpos result s m =
     (if limit \<le> bitpos then PB_RETURN_ERROR_i s ''varint overflow'' m
      else obind (pb_readbyte env s m) (\<lambda>b (s', m').
        let result' = result OR push_bit bitpos (ucast (b AND 0x7F))
        in if b AND 0x80 \<noteq> 0
           then varint_loop limit env (bitpos + 7) result' s' m'
           else Ok result' (s', m')))"
  by pat_completeness auto
termination
  by (relation "measure (\<lambda>(limit, env, bitpos, result, s, m). limit - bitpos)") auto

declare varint_loop.simps [simp del]

definition pb_decode_varint :: "pb_env \<Rightarrow> pb_istream_t \<Rightarrow> mem \<Rightarrow> 64 word istep" where
  "pb_decode_varint env s m = varint_loop 64 env 0 0 s m"

definition pb_decode_varint32 :: "pb_env \<Rightarrow> pb_istream_t \<Rightarrow> mem \<Rightarrow> 32 word istep" where
  "pb_decode_varint32 env s m =
     obind (pb_readbyte env s m) (\<lambda>b (s', m').
       if b AND 0x80 = 0 then Ok (ucast b) (s', m')
       else varint_loop 32 env 7 (ucast (b AND 0x7F)) s' m')"

text \<open>
  \<^verbatim>\<open>pb_skip_varint\<close> has no bound on the number of bytes; the fuel is one unit per byte
  (a custom callback may serve continuation bytes for ever).
\<close>

primrec pb_skip_varint :: "nat \<Rightarrow> pb_env \<Rightarrow> pb_istream_t \<Rightarrow> mem \<Rightarrow> unit istep" where
  "pb_skip_varint 0 env s m = Halt Out_Of_Fuel"
| "pb_skip_varint (Suc n) env s m =
     obind (pb_read env s Dst_local 1 m) (\<lambda>bs (s', m').
       if hd bs AND 0x80 \<noteq> 0 then pb_skip_varint n env s' m' else Ok () (s', m'))"

definition pb_skip_string :: "pb_env \<Rightarrow> pb_istream_t \<Rightarrow> mem \<Rightarrow> unit istep" where
  "pb_skip_string env s m =
     obind (pb_decode_varint32 env s m) (\<lambda>len (s', m').
       obind (pb_read env s' Dst_null (ucast len) m') (\<lambda>_ st. Ok () st))"

text \<open>
  \<^verbatim>\<open>pb_decode_tag\<close> returns \<^verbatim>\<open>true\<close> with a wire type and a tag, \<^verbatim>\<open>false\<close> with \<^verbatim>\<open>*eof\<close> set
  (\<open>Tag_eof\<close>), or \<^verbatim>\<open>false\<close> without (a failure).
\<close>

datatype tag_result = Tag pb_wire_type_t "32 word" | Tag_eof

definition pb_decode_tag :: "pb_env \<Rightarrow> pb_istream_t \<Rightarrow> mem \<Rightarrow> tag_result istep" where
  "pb_decode_tag env s m =
     (case pb_decode_varint32 env s m of
        Ok temp st \<Rightarrow>
          if temp = 0 then Ok Tag_eof st
          else Ok (Tag (temp AND 7) (drop_bit 3 temp)) st
      | Fail (s', m') \<Rightarrow> if bytes_left s' = 0 then Ok Tag_eof (s', m') else Fail (s', m')
      | Halt e \<Rightarrow> Halt e)"

definition pb_skip_field :: "nat \<Rightarrow> pb_env \<Rightarrow> pb_istream_t \<Rightarrow> pb_wire_type_t \<Rightarrow> mem \<Rightarrow> unit istep" where
  "pb_skip_field n env s wire_type m =
     (if wire_type = PB_WT_VARINT then pb_skip_varint n env s m
      else if wire_type = PB_WT_64BIT then obind (pb_read env s Dst_null 8 m) (\<lambda>_ st. Ok () st)
      else if wire_type = PB_WT_STRING then pb_skip_string env s m
      else if wire_type = PB_WT_32BIT then obind (pb_read env s Dst_null 4 m) (\<lambda>_ st. Ok () st)
      else PB_RETURN_ERROR_i s ''invalid wire_type'' m)"

text \<open>The bytes of a varint, for a callback: \<open>buf\<close> holds those read so far.\<close>

function read_raw_varint :: "nat \<Rightarrow> pb_env \<Rightarrow> pb_istream_t \<Rightarrow> byte list \<Rightarrow> mem \<Rightarrow> byte list istep" where
  "read_raw_varint max_sz env s buf m =
     (if max_sz < Suc (length buf) then Fail (s, m)
      else obind (pb_read env s Dst_local 1 m) (\<lambda>bs (s', m').
        if hd bs AND 0x80 \<noteq> 0 then read_raw_varint max_sz env s' (buf @ [hd bs]) m'
        else Ok (buf @ [hd bs]) (s', m')))"
  by pat_completeness auto
termination
  by (relation "measure (\<lambda>(max_sz, env, s, buf, m). max_sz - length buf)") auto

declare read_raw_varint.simps [simp del]

definition read_raw_value ::
  "pb_env \<Rightarrow> pb_istream_t \<Rightarrow> pb_wire_type_t \<Rightarrow> nat \<Rightarrow> mem \<Rightarrow> byte list istep" where
  "read_raw_value env s wire_type max_sz m =
     (if wire_type = PB_WT_VARINT then read_raw_varint max_sz env s [] m
      else if wire_type = PB_WT_64BIT then pb_read env s Dst_local 8 m
      else if wire_type = PB_WT_32BIT then pb_read env s Dst_local 4 m
      else PB_RETURN_ERROR_i s ''invalid wire_type'' m)"

text \<open>
  \<^verbatim>\<open>pb_make_string_substream\<close>: the substream is a copy of the stream limited to the
  length prefix; the parent gives the same number of bytes up.
\<close>

definition pb_make_string_substream :: "pb_env \<Rightarrow> pb_istream_t \<Rightarrow> mem \<Rightarrow> pb_istream_t istep" where
  "pb_make_string_substream env s m =
     obind (pb_decode_varint32 env s m) (\<lambda>sz (s', m').
       if bytes_left s' < ucast sz then PB_RETURN_ERROR_i s' ''parent stream too short'' m'
       else Ok (s'\<lparr>bytes_left := ucast sz\<rparr>)
              (s'\<lparr>bytes_left := bytes_left s' - ucast sz\<rparr>, m'))"

definition pb_close_string_substream ::
  "pb_env \<Rightarrow> pb_istream_t \<Rightarrow> pb_istream_t \<Rightarrow> mem \<Rightarrow> unit istep" where
  "pb_close_string_substream env s sub m =
     (case (if bytes_left sub \<noteq> 0 then pb_read env sub Dst_null (bytes_left sub) m
            else Ok [] (sub, m)) of
        Ok _ (sub', m') \<Rightarrow>
          Ok () (s\<lparr>is_state := is_state sub', is_errmsg := is_errmsg sub'\<rparr>, m')
      | Fail (sub', m') \<Rightarrow> Fail (s, m')
      | Halt e \<Rightarrow> Halt e)"

definition unzigzag :: "64 word \<Rightarrow> 64 word" where
  "unzigzag value = (if value AND 1 \<noteq> 0 then NOT (drop_bit 1 value) else drop_bit 1 value)"

definition pb_decode_svarint :: "pb_env \<Rightarrow> pb_istream_t \<Rightarrow> mem \<Rightarrow> 64 word istep" where
  "pb_decode_svarint env s m =
     obind (pb_decode_varint env s m) (\<lambda>value st. Ok (unzigzag value) st)"

text \<open>The bytes are read into a local array and assembled by shifts.\<close>

definition assemble32 :: "byte list \<Rightarrow> 32 word" where
  "assemble32 bs =
     push_bit 0 (ucast (bs ! 0)) OR push_bit 8 (ucast (bs ! 1)) OR
     push_bit 16 (ucast (bs ! 2)) OR push_bit 24 (ucast (bs ! 3))"

definition assemble64 :: "byte list \<Rightarrow> 64 word" where
  "assemble64 bs =
     push_bit 0 (ucast (bs ! 0)) OR push_bit 8 (ucast (bs ! 1)) OR
     push_bit 16 (ucast (bs ! 2)) OR push_bit 24 (ucast (bs ! 3)) OR
     push_bit 32 (ucast (bs ! 4)) OR push_bit 40 (ucast (bs ! 5)) OR
     push_bit 48 (ucast (bs ! 6)) OR push_bit 56 (ucast (bs ! 7))"

definition pb_decode_fixed32 :: "pb_env \<Rightarrow> pb_istream_t \<Rightarrow> addr \<Rightarrow> mem \<Rightarrow> unit istep" where
  "pb_decode_fixed32 env s dest m =
     obind (pb_read env s Dst_local 4 m) (\<lambda>bs (s', m').
       Ok () (s', store_word 4 m' dest (assemble32 bs)))"

definition pb_decode_fixed64 :: "pb_env \<Rightarrow> pb_istream_t \<Rightarrow> addr \<Rightarrow> mem \<Rightarrow> unit istep" where
  "pb_decode_fixed64 env s dest m =
     obind (pb_read env s Dst_local 8 m) (\<lambda>bs (s', m').
       Ok () (s', store_word 8 m' dest (assemble64 bs)))"

end
