(* ===== verification/Pb_Encode.thy ===== *)
theory Pb_Encode
  imports Pb_Wire Pb_Common
begin

text \<open>
  The message encoder of \<^verbatim>\<open>pb_encode.c\<close>. \<^verbatim>\<open>pb_encode\<close> calls itself through
  \<^verbatim>\<open>pb_encode_submessage\<close>; the functions in between take the recursive call as the
  argument \<open>enc\<close>, and \<open>pb_encode\<close> closes the loop with one unit of fuel per nesting
  level (also spent per extension of a chain).
\<close>

type_synonym encode_fun = "pb_field_t list \<Rightarrow> addr \<Rightarrow> pb_ostream_t \<Rightarrow> mem \<Rightarrow> unit ostep"
type_synonym field_encoder = "pb_ostream_t \<Rightarrow> pb_field_t \<Rightarrow> addr \<Rightarrow> mem \<Rightarrow> unit ostep"

section \<open>Submessages\<close>

definition pb_encode_submessage :: "encode_fun \<Rightarrow> pb_env \<Rightarrow> encode_fun" where
  "pb_encode_submessage enc env fs src s m =
     (case enc fs src PB_OSTREAM_SIZING m of
        Halt e \<Rightarrow> Halt e
      | Fail (sub, m') \<Rightarrow> Fail (s\<lparr>os_errmsg := os_errmsg sub\<rparr>, m')
      | Ok _ (sub, m') \<Rightarrow>
          let sz = bytes_written sub in
          obind (pb_encode_varint env s sz m') (\<lambda>_ (s1, m1).
            if os_callback s1 = Null_write then pb_write env s1 [] sz m1
            else if max_size s1 < bytes_written s1 + sz
            then PB_RETURN_ERROR_o s1 ''stream full'' m1
            else
              let finish = (\<lambda>status (sub2, m2).
                    let s2 = s1\<lparr>bytes_written := bytes_written s1 + bytes_written sub2,
                                os_state := os_state sub2, os_errmsg := os_errmsg sub2\<rparr>
                    in if bytes_written sub2 \<noteq> sz
                       then PB_RETURN_ERROR_o s2 ''submsg size changed'' m2
                       else if status then Ok () (s2, m2) else Fail (s2, m2))
              in case enc fs src
                   \<lparr>os_callback = os_callback s1, os_state = os_state s1, max_size = sz,
                    bytes_written = 0, os_errmsg = None\<rparr> m1 of
                   Ok _ st \<Rightarrow> finish True st
                 | Fail st \<Rightarrow> finish False st
                 | Halt e \<Rightarrow> Halt e))"

section \<open>Field encoders\<close>

text \<open>
  \<^verbatim>\<open>value = *(const intN_t* )src\<close> by \<open>data_size\<close>, sign- or zero-extended to 64 bits;
  \<open>None\<close> is the \<^verbatim>\<open>"invalid data_size"\<close> branch.
\<close>

definition load_signed :: "pb_size_t \<Rightarrow> mem \<Rightarrow> addr \<Rightarrow> 64 word option" where
  "load_signed data_size m src =
     (if data_size = 1 then Some (scast (load_word 1 m src :: 8 word))
      else if data_size = 2 then Some (scast (load_word 2 m src :: 16 word))
      else if data_size = 4 then Some (scast (load_word 4 m src :: 32 word))
      else if data_size = 8 then Some (load_word 8 m src)
      else None)"

definition load_unsigned :: "pb_size_t \<Rightarrow> mem \<Rightarrow> addr \<Rightarrow> 64 word option" where
  "load_unsigned data_size m src =
     (if data_size = 1 then Some (ucast (load_word 1 m src :: 8 word))
      else if data_size = 2 then Some (ucast (load_word 2 m src :: 16 word))
      else if data_size = 4 then Some (ucast (load_word 4 m src :: 32 word))
      else if data_size = 8 then Some (load_word 8 m src)
      else None)"

definition pb_enc_varint :: "pb_env \<Rightarrow> field_encoder" where
  "pb_enc_varint env s field src m =
     (case load_signed (f_data_size field) m src of
        None \<Rightarrow> PB_RETURN_ERROR_o s ''invalid data_size'' m
      | Some v \<Rightarrow> pb_encode_varint env s v m)"

definition pb_enc_uvarint :: "pb_env \<Rightarrow> field_encoder" where
  "pb_enc_uvarint env s field src m =
     (case load_unsigned (f_data_size field) m src of
        None \<Rightarrow> PB_RETURN_ERROR_o s ''invalid data_size'' m
      | Some v \<Rightarrow> pb_encode_varint env s v m)"

definition pb_enc_svarint :: "pb_env \<Rightarrow> field_encoder" where
  "pb_enc_svarint env s field src m =
     (case load_signed (f_data_size field) m src of
        None \<Rightarrow> PB_RETURN_ERROR_o s ''invalid data_size'' m
      | Some v \<Rightarrow> pb_encode_svarint env s v m)"

definition pb_enc_fixed64 :: "pb_env \<Rightarrow> field_encoder" where
  "pb_enc_fixed64 env s field src m = pb_encode_fixed64 env s (load_word 8 m src) m"

definition pb_enc_fixed32 :: "pb_env \<Rightarrow> field_encoder" where
  "pb_enc_fixed32 env s field src m = pb_encode_fixed32 env s (load_word 4 m src) m"

definition pb_enc_bytes :: "pb_env \<Rightarrow> field_encoder" where
  "pb_enc_bytes env s field src m =
     (if src = 0 then pb_encode_string env s [] 0 m
      else let sz = load_word 4 m src :: pb_size_t in
        if atype_of field = PB_ATYPE_STATIC
           \<and> ucast (f_data_size field) < PB_BYTES_ARRAY_T_ALLOCSIZE (ucast sz)
        then PB_RETURN_ERROR_o s ''bytes size exceeded'' m
        else pb_encode_string env s (load_bytes m (src + bytes_offset) (unat sz)) (ucast sz) m)"

text \<open>The \<^verbatim>\<open>strnlen\<close> loop: \<open>k\<close> is what is left of \<^verbatim>\<open>max_size\<close>.\<close>

primrec strnlen :: "nat \<Rightarrow> mem \<Rightarrow> addr \<Rightarrow> nat" where
  "strnlen 0 m p = 0"
| "strnlen (Suc k) m p = (if m p \<noteq> 0 then Suc (strnlen k m (p + 1)) else 0)"

definition pb_enc_string :: "pb_env \<Rightarrow> field_encoder" where
  "pb_enc_string env s field src m =
     (let max_sz = (if atype_of field = PB_ATYPE_POINTER then 2 ^ 64 - 1
                    else unat (f_data_size field));
          sz = (if src = 0 then 0 else strnlen max_sz m src)
      in pb_encode_string env s (load_bytes m src sz) (of_nat sz) m)"

definition pb_enc_submessage :: "encode_fun \<Rightarrow> pb_env \<Rightarrow> field_encoder" where
  "pb_enc_submessage enc env s field src m =
     (case f_ptr field of
        Ptr_null \<Rightarrow> PB_RETURN_ERROR_o s ''invalid field descriptor'' m
      | Ptr_fields fs \<Rightarrow> pb_encode_submessage enc env fs src s m
      | Ptr_default _ \<Rightarrow> Halt Undefined_Behaviour)"

definition pb_enc_fixed_length_bytes :: "pb_env \<Rightarrow> field_encoder" where
  "pb_enc_fixed_length_bytes env s field src m =
     pb_encode_string env s (load_bytes m src (unat (f_data_size field)))
       (ucast (f_data_size field)) m"

text \<open>
  The table \<^verbatim>\<open>PB_ENCODERS\<close>. The entry for extensions is NULL, and calling it is undefined,
  as is an index past the table.
\<close>

definition PB_ENCODERS :: "encode_fun \<Rightarrow> pb_env \<Rightarrow> pb_type_t \<Rightarrow> field_encoder" where
  "PB_ENCODERS enc env lt =
     (if lt = PB_LTYPE_VARINT then pb_enc_varint env
      else if lt = PB_LTYPE_UVARINT then pb_enc_uvarint env
      else if lt = PB_LTYPE_SVARINT then pb_enc_svarint env
      else if lt = PB_LTYPE_FIXED32 then pb_enc_fixed32 env
      else if lt = PB_LTYPE_FIXED64 then pb_enc_fixed64 env
      else if lt = PB_LTYPE_BYTES then pb_enc_bytes env
      else if lt = PB_LTYPE_STRING then pb_enc_string env
      else if lt = PB_LTYPE_SUBMESSAGE then pb_enc_submessage enc env
      else if lt = PB_LTYPE_FIXED_LENGTH_BYTES then pb_enc_fixed_length_bytes env
      else (\<lambda>s field src m. Halt Undefined_Behaviour))"

section \<open>Arrays\<close>

text \<open>The three loops of \<^verbatim>\<open>encode_array\<close>: one call of the encoder per item.\<close>

primrec encode_items ::
  "(pb_ostream_t \<Rightarrow> addr \<Rightarrow> mem \<Rightarrow> unit ostep) \<Rightarrow> pb_size_t \<Rightarrow> nat \<Rightarrow> addr \<Rightarrow> pb_ostream_t \<Rightarrow> mem
    \<Rightarrow> unit ostep" where
  "encode_items item data_size 0 p s m = Ok () (s, m)"
| "encode_items item data_size (Suc k) p s m =
     obind (item s p m) (\<lambda>_ (s', m').
       encode_items item data_size k (p + uint data_size) s' m')"

definition encode_array ::
  "pb_env \<Rightarrow> pb_ostream_t \<Rightarrow> pb_field_t \<Rightarrow> addr \<Rightarrow> size_t \<Rightarrow> field_encoder \<Rightarrow> mem \<Rightarrow> unit ostep" where
  "encode_array env s field p count func m =
     (if count = 0 then Ok () (s, m)
      else if atype_of field \<noteq> PB_ATYPE_POINTER \<and> ucast (f_array_size field) < count
      then PB_RETURN_ERROR_o s ''array max size exceeded'' m
      else if ltype_of field \<le> PB_LTYPE_LAST_PACKABLE
      then obind (pb_encode_tag env s PB_WT_STRING (f_tag field) m) (\<lambda>_ (s1, m1).
             let body = (\<lambda>sz m2. obind (pb_encode_varint env s1 sz m2) (\<lambda>_ (s3, m3).
                   if os_callback s3 = Null_write then pb_write env s3 [] sz m3
                   else encode_items (\<lambda>s p m. func s field p m) (f_data_size field)
                          (unat count) p s3 m3))
             in if ltype_of field = PB_LTYPE_FIXED32 then body (4 * count) m1
                else if ltype_of field = PB_LTYPE_FIXED64 then body (8 * count) m1
                else case encode_items (\<lambda>s p m. func s field p m) (f_data_size field)
                            (unat count) p PB_OSTREAM_SIZING m1 of
                       Ok _ (sizestream, m2) \<Rightarrow> body (bytes_written sizestream) m2
                     | Fail (_, m2) \<Rightarrow> Fail (s1, m2)
                     | Halt e \<Rightarrow> Halt e)
      else encode_items
             (\<lambda>s p m. obind (pb_encode_tag_for_field env s field m) (\<lambda>_ (s', m').
                if atype_of field = PB_ATYPE_POINTER
                   \<and> (ltype_of field = PB_LTYPE_STRING \<or> ltype_of field = PB_LTYPE_BYTES)
                then func s' field (load_ptr m' p) m'
                else func s' field p m'))
             (f_data_size field) (unat count) p s m)"

section \<open>Presence of proto3 fields\<close>

text \<open>
  \<^verbatim>\<open>pb_check_proto3_default_value\<close>: \<open>Ok\<close> is \<^verbatim>\<open>true\<close> (the value is zero), \<open>Fail\<close> is
  \<^verbatim>\<open>false\<close>. One unit of fuel per submessage level.
\<close>

primrec pb_check_proto3_default_value ::
  "nat \<Rightarrow> mem \<Rightarrow> pb_field_t \<Rightarrow> addr \<Rightarrow> (unit, unit) outcome" where
  "pb_check_proto3_default_value 0 m field p = Halt Out_Of_Fuel"
| "pb_check_proto3_default_value (Suc n) m field p =
     (let answer = (\<lambda>b. if b then Ok () () else Fail ()) in
      if atype_of field = PB_ATYPE_STATIC \<and> ltype_of field = PB_LTYPE_BYTES
      then answer ((load_word 4 m p :: pb_size_t) = 0)
      else if atype_of field = PB_ATYPE_STATIC \<and> ltype_of field = PB_LTYPE_STRING
      then answer (m p = 0)
      else if atype_of field = PB_ATYPE_STATIC \<and> ltype_of field = PB_LTYPE_FIXED_LENGTH_BYTES
      then answer (f_data_size field = 0)
      else if atype_of field = PB_ATYPE_STATIC \<and> ltype_of field = PB_LTYPE_SUBMESSAGE
      then (case f_ptr field of
              Ptr_fields fs \<Rightarrow>
                (case pb_field_iter_begin fs p of
                   (True, it) \<Rightarrow>
                     for_each_field
                       (\<lambda>it _. pb_check_proto3_default_value n m (pos_field it) (pData it)) it ()
                 | (False, _) \<Rightarrow> Ok () ())
            | _ \<Rightarrow> Halt Undefined_Behaviour)
      else answer (list_all (\<lambda>b. b = 0) (load_bytes m p (unat (f_data_size field)))))"

section \<open>Fields\<close>

text \<open>
  The pointer \<^verbatim>\<open>pSize\<close> of \<^verbatim>\<open>encode_basic_field\<close> points into the message or at the local
  \<^verbatim>\<open>implicit_has\<close>.
\<close>

datatype size_ptr = Size_at addr | Implicit_has bool

definition basic_field_size_ptr ::
  "nat \<Rightarrow> pb_field_t \<Rightarrow> addr \<Rightarrow> mem \<Rightarrow> (size_ptr, unit) outcome" where
  "basic_field_size_ptr n field p m =
     (if f_size_offset field \<noteq> 0 then Ok (Size_at (p + sint (f_size_offset field))) ()
      else if htype_of field = PB_HTYPE_OPTIONAL
      then (case pb_check_proto3_default_value n m field p of
              Ok _ _ \<Rightarrow> Ok (Implicit_has False) ()
            | Fail _ \<Rightarrow> Ok (Implicit_has True) ()
            | Halt e \<Rightarrow> Halt e)
      else Ok (Implicit_has True) ())"

definition encode_basic_field ::
  "nat \<Rightarrow> encode_fun \<Rightarrow> pb_env \<Rightarrow> pb_ostream_t \<Rightarrow> pb_field_t \<Rightarrow> addr \<Rightarrow> mem \<Rightarrow> unit ostep" where
  "encode_basic_field n enc env s field p m =
     (if PB_LTYPES_COUNT \<le> ltype_of field then Halt Undefined_Behaviour
      else
      let func = PB_ENCODERS enc env (ltype_of field) in
      case basic_field_size_ptr n field p m of
        Halt e \<Rightarrow> Halt e
      | Fail _ \<Rightarrow> Halt Undefined_Behaviour
      | Ok size0 _ \<Rightarrow>
        let is_ptr = (atype_of field = PB_ATYPE_POINTER);
            data = (if is_ptr then load_ptr m p else p);
            size = (case size0 of
                      Implicit_has b \<Rightarrow> Implicit_has (if is_ptr then data \<noteq> 0 else b)
                    | Size_at a \<Rightarrow> Size_at a);
            encode = obind (pb_encode_tag_for_field env s field m) (\<lambda>_ (s', m').
                       func s' field data m')
        in if htype_of field = PB_HTYPE_REQUIRED
           then (if data = 0 then PB_RETURN_ERROR_o s ''missing required field'' m else encode)
           else if htype_of field = PB_HTYPE_OPTIONAL
           then (if (case size of Size_at a \<Rightarrow> m a \<noteq> 0 | Implicit_has b \<Rightarrow> b)
                 then encode else Ok () (s, m))
           else case size of
             Implicit_has _ \<Rightarrow> Halt Undefined_Behaviour
           | Size_at a \<Rightarrow>
             (if htype_of field = PB_HTYPE_REPEATED
              then encode_array env s field data (ucast (load_word 4 m a :: pb_size_t)) func m
              else if htype_of field = PB_HTYPE_ONEOF
              then (if (load_word 4 m a :: pb_size_t) = f_tag field then encode else Ok () (s, m))
              else PB_RETURN_ERROR_o s ''invalid field type'' m))"

definition encode_callback_field ::
  "pb_env \<Rightarrow> pb_ostream_t \<Rightarrow> pb_field_t \<Rightarrow> addr \<Rightarrow> mem \<Rightarrow> unit ostep" where
  "encode_callback_field env s field p m =
     (let encode = load_ptr m p in
      if encode \<noteq> 0
      then (case env_encode_callback env encode s field (p + callback_arg_offset) m of
              Fail (s', m') \<Rightarrow> PB_RETURN_ERROR_o s' ''callback error'' m'
            | r \<Rightarrow> r)
      else Ok () (s, m))"

definition encode_field ::
  "nat \<Rightarrow> encode_fun \<Rightarrow> pb_env \<Rightarrow> pb_ostream_t \<Rightarrow> pb_field_t \<Rightarrow> addr \<Rightarrow> mem \<Rightarrow> unit ostep" where
  "encode_field n enc env s field p m =
     (if atype_of field = PB_ATYPE_STATIC \<or> atype_of field = PB_ATYPE_POINTER
      then encode_basic_field n enc env s field p m
      else if atype_of field = PB_ATYPE_CALLBACK then encode_callback_field env s field p m
      else PB_RETURN_ERROR_o s ''invalid field type'' m)"

section \<open>Extensions\<close>

definition default_extension_encoder ::
  "nat \<Rightarrow> encode_fun \<Rightarrow> pb_env \<Rightarrow> pb_ostream_t \<Rightarrow> addr \<Rightarrow> mem \<Rightarrow> unit ostep" where
  "default_extension_encoder n enc env s extension m =
     (case Option.bind (env_ext_type env (load_ptr m extension)) et_arg of
        None \<Rightarrow> Halt Undefined_Behaviour
      | Some field \<Rightarrow>
          if atype_of field = PB_ATYPE_POINTER
          then encode_field n enc env s field (extension + ext_dest_offset) m
          else encode_field n enc env s field (load_ptr m (extension + ext_dest_offset)) m)"

text \<open>The walk along the extension list, one unit of fuel per element.\<close>

primrec encode_extensions ::
  "nat \<Rightarrow> nat \<Rightarrow> encode_fun \<Rightarrow> pb_env \<Rightarrow> pb_ostream_t \<Rightarrow> addr \<Rightarrow> mem \<Rightarrow> unit ostep" where
  "encode_extensions 0 n enc env s extension m = Halt Out_Of_Fuel"
| "encode_extensions (Suc k) n enc env s extension m =
     (if extension = 0 then Ok () (s, m)
      else case env_ext_type env (load_ptr m extension) of
             None \<Rightarrow> Halt Undefined_Behaviour
           | Some ty \<Rightarrow>
               obind (if et_encode ty \<noteq> 0 then env_ext_encode env (et_encode ty) s extension m
                      else default_extension_encoder n enc env s extension m) (\<lambda>_ (s', m').
                 encode_extensions k n enc env s' (load_ptr m' (extension + ext_next_offset)) m'))"

definition encode_extension_field ::
  "nat \<Rightarrow> encode_fun \<Rightarrow> pb_env \<Rightarrow> pb_ostream_t \<Rightarrow> addr \<Rightarrow> mem \<Rightarrow> unit ostep" where
  "encode_extension_field n enc env s p m = encode_extensions n n enc env s (load_ptr m p) m"

section \<open>Messages\<close>

primrec pb_encode :: "nat \<Rightarrow> pb_env \<Rightarrow> encode_fun" where
  "pb_encode 0 env fs src s m = Halt Out_Of_Fuel"
| "pb_encode (Suc n) env fs src s m =
     (case pb_field_iter_begin fs src of
        (False, _) \<Rightarrow> Ok () (s, m)
      | (True, it) \<Rightarrow>
          for_each_field
            (\<lambda>it (s, m).
               if ltype_of (pos_field it) = PB_LTYPE_EXTENSION
               then encode_extension_field n (pb_encode n env) env s (pData it) m
               else encode_field n (pb_encode n env) env s (pos_field it) (pData it) m)
            it (s, m))"

definition pb_encode_delimited :: "nat \<Rightarrow> pb_env \<Rightarrow> encode_fun" where
  "pb_encode_delimited n env fs src s m = pb_encode_submessage (pb_encode n env) env fs src s m"

text \<open>\<^verbatim>\<open>pb_get_encoded_size\<close>: the out-parameter is the value of \<open>Ok\<close>.\<close>

definition pb_get_encoded_size ::
  "nat \<Rightarrow> pb_env \<Rightarrow> pb_field_t list \<Rightarrow> addr \<Rightarrow> mem \<Rightarrow> (size_t, mem) outcome" where
  "pb_get_encoded_size n env fs src m =
     (case pb_encode n env fs src PB_OSTREAM_SIZING m of
        Ok _ (s, m') \<Rightarrow> Ok (bytes_written s) m'
      | Fail (_, m') \<Rightarrow> Fail m'
      | Halt e \<Rightarrow> Halt e)"

end
