(* ===== verification/Leb128.thy ===== *)
theory Leb128
  imports Pb_Prelude
begin

text \<open>
  The base-128 varint format as an abstract specification on natural numbers and byte
  lists: the canonical encoder, a bounded scanner that says how far a decoder reads and
  what it finds, and the bit-level facts that connect both with the code's words.
\<close>

section \<open>Canonical encoding\<close>

fun leb128 :: "nat \<Rightarrow> byte list" where
  "leb128 n = (if n < 128 then [of_nat n] else of_nat (n mod 128 + 128) # leb128 (n div 128))"

declare leb128.simps [simp del]

lemma leb128_small: "n < 128 \<Longrightarrow> leb128 n = [of_nat n]"
  by (simp add: leb128.simps)

lemma leb128_big: "\<not> n < 128 \<Longrightarrow> leb128 n = of_nat (n mod 128 + 128) # leb128 (n div 128)"
  by (simp add: leb128.simps)

lemma leb128_not_Nil [simp]: "leb128 n \<noteq> []"
  by (subst leb128.simps) simp

lemma length_leb128_pos [simp]: "0 < length (leb128 n)"
  by simp

lemma length_leb128_le: "n < 128 ^ Suc k \<Longrightarrow> length (leb128 n) \<le> Suc k"
proof (induction k arbitrary: n)
  case 0
  then show ?case by (simp add: leb128_small)
next
  case (Suc k)
  show ?case
  proof (cases "n < 128")
    case True
    then show ?thesis by (simp add: leb128_small)
  next
    case False
    from Suc.prems have "n div 128 < 128 ^ Suc k"
      by (simp add: less_mult_imp_div_less mult.commute)
    then show ?thesis using Suc.IH False by (simp add: leb128_big)
  qed
qed

lemma length_leb128_ge: "128 ^ k \<le> n \<Longrightarrow> Suc k \<le> length (leb128 n)"
proof (induction k arbitrary: n)
  case 0
  then show ?case by (simp add: Suc_le_eq)
next
  case (Suc k)
  have "128 \<le> (128::nat) ^ Suc k" by simp
  with Suc.prems have big: "\<not> n < 128" by linarith
  from Suc.prems have "128 ^ k \<le> n div 128"
    by (simp add: less_eq_div_iff_mult_less_eq mult.commute)
  with Suc.IH big show ?case by (simp add: leb128_big)
qed

lemma length_leb128_64: "n < 2 ^ 64 \<Longrightarrow> length (leb128 n) \<le> 10"
  using length_leb128_le [of n 9] by simp

lemma length_leb128_word [simp]: "length (leb128 (unat (v :: 64 word))) \<le> 10"
  using length_leb128_64 [of "unat v"] unsigned_less [of v, where ?'a = nat] by simp

lemma length_leb128_32: "n < 2 ^ 32 \<Longrightarrow> length (leb128 n) \<le> 5"
  using length_leb128_le [of n 4] by simp

section \<open>Scanning\<close>

text \<open>
  \<open>varint_scan k bs\<close> reads at most \<open>k\<close> bytes: a value with the number of bytes it took,
  \<open>k\<close> continuation bytes in a row, or the end of the input.
\<close>

datatype scan_result = Scan_ok nat nat | Scan_overflow nat | Scan_eos nat

fun scan_cons :: "byte \<Rightarrow> scan_result \<Rightarrow> scan_result" where
  "scan_cons b (Scan_ok v n) = Scan_ok (unat b mod 128 + 128 * v) (Suc n)"
| "scan_cons b (Scan_overflow n) = Scan_overflow (Suc n)"
| "scan_cons b (Scan_eos n) = Scan_eos (Suc n)"

fun varint_scan :: "nat \<Rightarrow> byte list \<Rightarrow> scan_result" where
  "varint_scan 0 bs = Scan_overflow 0"
| "varint_scan (Suc k) [] = Scan_eos 0"
| "varint_scan (Suc k) (b # bs) =
     (if unat b < 128 then Scan_ok (unat b) 1 else scan_cons b (varint_scan k bs))"

lemma varint_scan_numeral [simp]:
  "varint_scan (numeral k) [] = Scan_eos 0"
  "varint_scan (numeral k) (b # bs) =
     (if unat b < 128 then Scan_ok (unat b) 1 else scan_cons b (varint_scan (pred_numeral k) bs))"
  by (simp_all add: numeral_eq_Suc)

lemma unat_of_nat_byte: "n < 256 \<Longrightarrow> unat (of_nat n :: byte) = n"
  by (simp add: unat_of_nat)

theorem varint_scan_leb128:
  "length (leb128 n) \<le> k \<Longrightarrow> varint_scan k (leb128 n @ rest) = Scan_ok n (length (leb128 n))"
proof (induction n arbitrary: k rule: leb128.induct)
  case (1 n)
  show ?case
  proof (cases "n < 128")
    case True
    with 1 show ?thesis by (cases k) (auto simp: leb128_small unat_of_nat_byte)
  next
    case False
    obtain k' where k: "k = Suc k'" "length (leb128 (n div 128)) \<le> k'"
      using 1(2) unfolding leb128_big [OF False] by (cases k) auto
    have "n mod 128 + 128 < 256" by simp
    then have u: "unat (of_nat (n mod 128 + 128) :: byte) = n mod 128 + 128"
      by (rule unat_of_nat_byte)
    have ih: "varint_scan k' (leb128 (n div 128) @ rest)
        = Scan_ok (n div 128) (length (leb128 (n div 128)))"
      using 1(1) [OF False k(2)] .
    let ?b = "of_nat (n mod 128 + 128) :: byte"
    have "varint_scan k (leb128 n @ rest) = scan_cons ?b (varint_scan k' (leb128 (n div 128) @ rest))"
      unfolding leb128_big [OF False] k(1) using u by (simp del: of_nat_add)
    also have "\<dots> = Scan_ok n (Suc (length (leb128 (n div 128))))"
      unfolding ih using u by (simp del: of_nat_add)
    finally show ?thesis unfolding leb128_big [OF False] by simp
  qed
qed

lemma varint_scan_ok_bounds:
  "varint_scan k bs = Scan_ok v n \<Longrightarrow> 0 < n \<and> n \<le> k \<and> n \<le> length bs \<and> v < 128 ^ n"
proof (induction k bs arbitrary: v n rule: varint_scan.induct)
  case (3 k b bs)
  show ?case
  proof (cases "unat b < 128")
    case True
    with 3 show ?thesis by auto
  next
    case False
    with 3 obtain v' n' where s: "varint_scan k bs = Scan_ok v' n'"
      and v: "v = unat b mod 128 + 128 * v'" "n = Suc n'"
      by (cases "varint_scan k bs") auto
    from 3 s False have "0 < n' \<and> n' \<le> k \<and> n' \<le> length bs \<and> v' < 128 ^ n'" by simp
    moreover have "unat b mod 128 < 128" by simp
    ultimately show ?thesis using v by (simp add: mult.commute) linarith
  qed
qed auto

lemma varint_scan_overflow_bounds:
  "varint_scan k bs = Scan_overflow n \<Longrightarrow> n = k \<and> k \<le> length bs"
proof (induction k bs arbitrary: n rule: varint_scan.induct)
  case (3 k b bs)
  then show ?case by (cases "varint_scan k bs") (auto split: if_splits)
qed auto

lemma varint_scan_eos_bounds:
  "varint_scan k bs = Scan_eos n \<Longrightarrow> n = length bs \<and> n < k"
proof (induction k bs arbitrary: n rule: varint_scan.induct)
  case (3 k b bs)
  then show ?case by (cases "varint_scan k bs") (auto split: if_splits)
qed auto

text \<open>A larger bound finds the same value; bytes after the last one do not matter.\<close>

lemma varint_scan_ok_mono:
  "varint_scan k bs = Scan_ok v n \<Longrightarrow> k \<le> k' \<Longrightarrow> varint_scan k' (bs @ rest) = Scan_ok v n"
proof (induction k bs arbitrary: v n k' rule: varint_scan.induct)
  case (3 k b bs)
  then obtain k'' where "k' = Suc k''" "k \<le> k''" by (cases k') auto
  with 3 show ?case by (cases "varint_scan k bs") (auto split: if_splits)
qed auto

section \<open>Seven-bit groups of words\<close>

lemma and_7F: "(w :: 'a::len word) AND 0x7F = take_bit 7 w"
  by (simp add: take_bit_eq_mask mask_eq_exp_minus_1)

lemma unat_and_7F_byte: "unat ((b :: byte) AND 0x7F) = unat b mod 128"
  by (simp add: and_7F unsigned_take_bit_eq take_bit_eq_mod unat_mod)

lemma and_80_zero_iff: "(b :: byte) AND 0x80 = 0 \<longleftrightarrow> unat b < 128"
proof -
  have "(0x80 :: byte) = push_bit 7 1" by simp
  then have "b AND 0x80 = 0 \<longleftrightarrow> \<not> bit b 7"
    by (metis and_exp_eq_0_iff_not_bit push_bit_of_1)
  moreover have "bit b 7 \<longleftrightarrow> odd (unat b div 128)"
  proof -
    have "bit b 7 = bit (unat b) 7" by (simp add: bit_unsigned_iff)
    then show ?thesis by (simp add: bit_iff_odd)
  qed
  moreover have "unat b div 128 < 2"
    using unsigned_less [of b, where ?'a = nat] by (simp add: less_mult_imp_div_less)
  ultimately show ?thesis by (cases "unat b div 128") (auto simp: less_2_cases_iff)
qed

lemma unat_and_7F: "unat (v AND 0x7F :: 64 word) = unat v mod 128"
proof -
  have "unat (v AND 0x7F) = take_bit 7 (unat v)"
    by (simp only: and_7F unsigned_take_bit_eq)
  then show ?thesis by (simp add: take_bit_eq_mod)
qed

lemma byte_or_80: "k < 128 \<Longrightarrow> (of_nat k :: byte) OR 0x80 = of_nat (k + 128)"
proof -
  assume k: "k < 128"
  then have "(of_nat k :: byte) AND 0x80 = 0"
    by (simp add: and_80_zero_iff unat_of_nat_byte)
  then have "(of_nat k :: byte) OR 0x80 = of_nat k + 0x80"
    by (simp add: disjunctive_add_eq_or)
  then show ?thesis by simp
qed

lemma low_group_byte:
  "(ucast (v AND 0x7F :: 64 word) OR 0x80 :: byte) = of_nat (unat v mod 128 + 128)"
proof -
  have "(ucast (v AND 0x7F) :: byte) = of_nat (unat v mod 128)"
    by (metis of_nat_unat unat_and_7F)
  then show ?thesis using byte_or_80 [of "unat v mod 128"] by simp
qed

lemma group_clear_top: "k < 128 \<Longrightarrow> (of_nat (k + 128) :: byte) AND 0x7F = of_nat k"
proof -
  assume k: "k < 128"
  then have "unat (of_nat (k + 128) :: byte) = k + 128" by (intro unat_of_nat_byte) simp
  then have "unat ((of_nat (k + 128) :: byte) AND 0x7F) = k"
    using k unat_and_7F_byte [of "of_nat (k + 128)"] by simp
  then show ?thesis by (metis of_nat_unat ucast_id)
qed

end
