(* ===== verification/Pb_Records.thy ===== *)
theory Pb_Records
  imports Pb_Fields Pb_Encode Leb128
begin

text \<open>
  The abstract specification of the encoder. A message in memory stands for a list of
  records, each a field number with a wire value; the encoding is the concatenation of the
  serialised records. Both are defined on memory and descriptors alone, without streams,
  sizes or the order in which the code does its work.
\<close>

section \<open>Records and their serialisation\<close>

datatype wire_value =
  W_varint "64 word" | W_fixed64 "64 word" | W_len "byte list" | W_fixed32 "32 word"

type_synonym record_t = "32 word \<times> wire_value"

fun wire_type :: "wire_value \<Rightarrow> pb_wire_type_t" where
  "wire_type (W_varint v) = PB_WT_VARINT"
| "wire_type (W_fixed64 v) = PB_WT_64BIT"
| "wire_type (W_len bs) = PB_WT_STRING"
| "wire_type (W_fixed32 v) = PB_WT_32BIT"

fun ser_value :: "wire_value \<Rightarrow> byte list" where
  "ser_value (W_varint v) = leb128 (unat v)"
| "ser_value (W_fixed64 v) = bytes_of_word 8 v"
| "ser_value (W_len bs) = leb128 (length bs) @ bs"
| "ser_value (W_fixed32 v) = bytes_of_word 4 v"

definition ser_tag :: "record_t \<Rightarrow> byte list" where
  "ser_tag r = leb128 (unat (tag_word (wire_type (snd r)) (fst r)))"

definition ser_record :: "record_t \<Rightarrow> byte list" where
  "ser_record r = ser_tag r @ ser_value (snd r)"

definition serialize :: "record_t list \<Rightarrow> byte list" where
  "serialize rs = concat (map ser_record rs)"

lemma serialize_simps [simp]:
  "serialize [] = []" "serialize (r # rs) = ser_record r @ serialize rs"
  "serialize (rs @ qs) = serialize rs @ serialize qs"
  by (simp_all add: serialize_def)

lemma ser_record_not_Nil [simp]: "ser_record r \<noteq> []"
  by (simp add: ser_record_def ser_tag_def)

section \<open>Values in memory\<close>

text \<open>A C string of at most \<open>n\<close> characters, and the items of an array.\<close>

definition c_string :: "nat \<Rightarrow> mem \<Rightarrow> addr \<Rightarrow> byte list" where
  "c_string n m a = takeWhile (\<lambda>b. b \<noteq> 0) (load_bytes m a n)"

primrec item_addrs :: "addr \<Rightarrow> int \<Rightarrow> nat \<Rightarrow> addr list" where
  "item_addrs a step 0 = []"
| "item_addrs a step (Suc k) = a # item_addrs (a + step) step k"

lemma length_item_addrs [simp]: "length (item_addrs a step k) = k"
  by (induction k arbitrary: a) simp_all

lemma nth_item_addrs: "i < k \<Longrightarrow> item_addrs a step k ! i = a + int i * step"
proof (induction k arbitrary: a i)
  case (Suc k)
  then show ?case by (cases i) (simp_all add: algebra_simps)
qed simp

text \<open>The wire value of one item; \<open>sub\<close> gives the records of a submessage.\<close>

definition item_value :: "(addr \<Rightarrow> record_t list option) \<Rightarrow> mem \<Rightarrow> pb_field_t \<Rightarrow> addr \<Rightarrow> wire_value option" where
  "item_value sub m f a =
     (let lt = ltype_of f; ds = f_data_size f in
      if lt = PB_LTYPE_VARINT then map_option W_varint (load_signed ds m a)
      else if lt = PB_LTYPE_UVARINT then map_option W_varint (load_unsigned ds m a)
      else if lt = PB_LTYPE_SVARINT then map_option (W_varint \<circ> zigzag) (load_signed ds m a)
      else if lt = PB_LTYPE_FIXED32 then Some (W_fixed32 (load_word 4 m a))
      else if lt = PB_LTYPE_FIXED64 then Some (W_fixed64 (load_word 8 m a))
      else if lt = PB_LTYPE_BYTES
      then (if a = 0 then Some (W_len [])
            else let sz = unat (load_word 4 m a :: pb_size_t) in
              if atype_of f = PB_ATYPE_STATIC \<and> unat ds < sz + 4 then None
              else Some (W_len (load_bytes m (a + bytes_offset) sz)))
      else if lt = PB_LTYPE_STRING
      then Some (W_len (if a = 0 then []
             else c_string (if atype_of f = PB_ATYPE_POINTER then 2 ^ 64 - 1 else unat ds) m a))
      else if lt = PB_LTYPE_SUBMESSAGE then map_option (W_len \<circ> serialize) (sub a)
      else if lt = PB_LTYPE_FIXED_LENGTH_BYTES then Some (W_len (load_bytes m a (unat ds)))
      else None)"

text \<open>
  The proto3 rule of absence: a scalar is absent when its bytes are zero, bytes and strings
  when empty, a submessage when all of its fields are.
\<close>

function default_value :: "mem \<Rightarrow> pb_field_t \<Rightarrow> addr \<Rightarrow> bool" where
  "default_value m f a =
     (let lt = ltype_of f in
      if atype_of f = PB_ATYPE_STATIC \<and> lt = PB_LTYPE_BYTES then (load_word 4 m a :: pb_size_t) = 0
      else if atype_of f = PB_ATYPE_STATIC \<and> lt = PB_LTYPE_STRING then m a = 0
      else if atype_of f = PB_ATYPE_STATIC \<and> lt = PB_LTYPE_FIXED_LENGTH_BYTES then f_data_size f = 0
      else if atype_of f = PB_ATYPE_STATIC \<and> lt = PB_LTYPE_SUBMESSAGE
      then (case f_ptr f of
              Ptr_fields fs \<Rightarrow> (\<forall>x \<in> set (positions fs a). case x of (f', a', _) \<Rightarrow> default_value m f' a')
            | _ \<Rightarrow> True)
      else list_all (\<lambda>b. b = 0) (load_bytes m a (unat (f_data_size f))))"
  by pat_completeness auto
termination
proof (relation "measure (\<lambda>(m, f, a). size f)", goal_cases)
  case 1
  then show ?case by simp
next
  case (2 m f a lt fs x f' y a' z)
  then show ?case
    using size_sub_fields [of f fs] positions_subset [of f' a' z fs a] size_in_fields [of f' fs] by auto
qed

declare default_value.simps [simp del]

section \<open>Records of a message\<close>

definition field_records ::
  "(addr \<Rightarrow> record_t list option) \<Rightarrow> mem \<Rightarrow> pb_field_t \<Rightarrow> addr \<Rightarrow> record_t list option" where
  "field_records sub m f d =
     (let ptr = (atype_of f = PB_ATYPE_POINTER); ht = htype_of f; lt = ltype_of f;
          data = (if ptr then load_ptr m d else d);
          z = d + sint (f_size_offset f);
          one = map_option (\<lambda>v. [(f_tag f, v)]) (item_value sub m f data)
      in if lt = PB_LTYPE_EXTENSION \<or> atype_of f = PB_ATYPE_CALLBACK
         then (if load_ptr m d = 0 then Some [] else None)
         else if \<not> ptr \<and> atype_of f \<noteq> PB_ATYPE_STATIC then None
         else if ht = PB_HTYPE_REQUIRED then (if data = 0 then None else one)
         else if ht = PB_HTYPE_OPTIONAL
         then (if (if f_size_offset f \<noteq> 0 then m z \<noteq> 0
                   else if ptr then data \<noteq> 0 else \<not> default_value m f d)
               then one else Some [])
         else if ht = PB_HTYPE_REPEATED
         then (let count = load_word 4 m z :: pb_size_t;
                   addrs = item_addrs data (uint (f_data_size f)) (unat count) in
               if count = 0 then Some []
               else if \<not> ptr \<and> f_array_size f < count then None
               else if lt \<le> PB_LTYPE_LAST_PACKABLE
               then map_option (\<lambda>vs. [(f_tag f, W_len (concat (map ser_value vs)))])
                      (those (map (item_value sub m f) addrs))
               else map_option (map (\<lambda>v. (f_tag f, v)))
                      (those (map (\<lambda>a. item_value sub m f
                         (if ptr \<and> (lt = PB_LTYPE_STRING \<or> lt = PB_LTYPE_BYTES) then load_ptr m a else a))
                         addrs)))
         else if (load_word 4 m z :: pb_size_t) = f_tag f then one else Some [])"

text \<open>The records of a message are those of its fields, in descriptor order.\<close>

function message_records :: "mem \<Rightarrow> pb_field_t list \<Rightarrow> addr \<Rightarrow> record_t list option" where
  "message_records m fs p =
     map_option concat (those (map (\<lambda>(f, d, _).
       field_records (\<lambda>a. case f_ptr f of Ptr_fields fs' \<Rightarrow> message_records m fs' a | _ \<Rightarrow> None) m f d)
       (positions fs p)))"
  by pat_completeness auto
termination
proof (relation "measure (\<lambda>(m, fs, p). size_list size fs)", goal_cases)
  case 1
  then show ?case by simp
next
  case (2 m fs p x f y d z a fs')
  then show ?case
    using size_sub_fields [of f fs'] positions_subset [of f d z fs p] size_in_fields [of f fs] by auto
qed

declare message_records.simps [simp del]

end
