(* ===== verification/Pb_Sink.thy ===== *)
theory Pb_Sink
  imports Pb_Wire Leb128
begin

text \<open>
  The contract between the encoders and the sink of their bytes. A \<open>byte_sink\<close> accepts
  bytes in order as long as they fit and then refuses; a counting stream accepts
  everything. The primitive encoders are specified once in the locale as \<open>appends\<close> facts,
  which compose; the library's counting and buffer streams are interpreted as its
  instance.
\<close>

section \<open>What the primitives write\<close>

text \<open>
  Every primitive encoder is a single \<^verbatim>\<open>pb_write\<close>, of the bytes the format prescribes.
\<close>

lemma varint_groups_leb128:
  "v \<noteq> 0 \<Longrightarrow> varint_groups v \<noteq> [] \<and>
     butlast (varint_groups v) @ [last (varint_groups v) AND 0x7F] = leb128 (unat v)"
proof (induction v rule: varint_groups.induct)
  case (1 v)
  have d: "unat (drop_bit 7 v) = unat v div 128"
    by (simp add: drop_bit_eq_div unat_div)
  have vg: "varint_groups v = of_nat (unat v mod 128 + 128) # varint_groups (drop_bit 7 v)"
    using 1(2) by (subst varint_groups.simps) (simp add: low_group_byte del: of_nat_add)
  show ?case
  proof (cases "unat v < 128")
    case True
    then have "drop_bit 7 v = 0" using d by (simp add: unat_eq_zero)
    with True vg show ?thesis
      by (simp add: leb128_small varint_groups.simps [of 0] group_clear_top del: of_nat_add)
  next
    case False
    then have nz: "drop_bit 7 v \<noteq> 0" using d by (metis div_greater_zero_iff not_less unat_0 less_irrefl zero_less_numeral)
    from 1(1) [OF 1(2) nz] False show ?thesis
      by (simp add: vg leb128_big d del: of_nat_add)
  qed
qed

lemma varint_buffer_leb128: "v \<noteq> 0 \<Longrightarrow> varint_buffer v = leb128 (unat v)"
proof -
  assume "v \<noteq> 0"
  note g = varint_groups_leb128 [OF this]
  then obtain xs x where "varint_groups v = xs @ [x]" by (metis rev_exhaust)
  with g show ?thesis by (simp add: varint_buffer_def Let_def)
qed

lemma pb_encode_varint_write:
  "pb_encode_varint env s v m = pb_write env s (leb128 (unat v)) (of_nat (length (leb128 (unat v)))) m"
proof (cases "v \<le> 0x7F")
  case True
  then have "unat v < 128" by (simp add: word_le_nat_alt)
  moreover have "(ucast v :: byte) = of_nat (unat v)" by simp
  ultimately show ?thesis using True by (simp add: pb_encode_varint_def leb128_small)
next
  case False
  then have "v \<noteq> 0" by auto
  with False length_leb128_word [of v] show ?thesis
    by (simp add: pb_encode_varint_def varint_buffer_leb128 Let_def del: length_leb128_word)
qed

lemma low_byte: "(ucast ((w :: 'a::len word) AND 0xFF) :: byte) = ucast w"
proof -
  have "w AND 0xFF = take_bit 8 w" by (simp add: take_bit_eq_mask mask_eq_exp_minus_1)
  then show ?thesis by (intro bit_word_eqI) (auto simp: bit_simps)
qed

lemma pb_encode_fixed32_write:
  "pb_encode_fixed32 env s v m = pb_write env s (bytes_of_word 4 v) 4 m"
proof -
  have "(ucast (w AND 0xFF) :: byte) = ucast w" for w :: "32 word"
    by (rule low_byte)
  then show ?thesis
    by (simp add: pb_encode_fixed32_def bytes_of_word_def upt_rec)
qed

lemma pb_encode_fixed64_write:
  "pb_encode_fixed64 env s v m = pb_write env s (bytes_of_word 8 v) 8 m"
proof -
  have "(ucast (w AND 0xFF) :: byte) = ucast w" for w :: "64 word"
    by (rule low_byte)
  then show ?thesis
    by (simp add: pb_encode_fixed64_def bytes_of_word_def upt_rec)
qed

section \<open>The interface\<close>

text \<open>The substream of \<^verbatim>\<open>pb_encode_submessage\<close> and the way its result goes back.\<close>

definition limited_substream :: "pb_ostream_t \<Rightarrow> size_t \<Rightarrow> pb_ostream_t" where
  "limited_substream s sz =
     \<lparr>os_callback = os_callback s, os_state = os_state s, max_size = sz, bytes_written = 0,
      os_errmsg = None\<rparr>"

definition join_substream :: "pb_ostream_t \<Rightarrow> pb_ostream_t \<Rightarrow> pb_ostream_t" where
  "join_substream s sub =
     s\<lparr>bytes_written := bytes_written s + bytes_written sub, os_state := os_state sub,
       os_errmsg := os_errmsg sub\<rparr>"

locale byte_sink =
  fixes env :: pb_env
    and ok :: "pb_ostream_t \<Rightarrow> bool"
    and fits :: "pb_ostream_t \<Rightarrow> nat \<Rightarrow> bool"
    and app :: "byte list \<Rightarrow> pb_ostream_t \<Rightarrow> pb_ostream_t"
  assumes write_fits: "\<And>s bs m. ok s \<Longrightarrow> length bs < 2 ^ 63 \<Longrightarrow> fits s (length bs) \<Longrightarrow>
      pb_write env s bs (of_nat (length bs)) m = Ok () (app bs s, m)"
    and write_full: "\<And>s bs m. ok s \<Longrightarrow> length bs < 2 ^ 63 \<Longrightarrow> \<not> fits s (length bs) \<Longrightarrow>
      \<exists>s'. pb_write env s bs (of_nat (length bs)) m = Fail (s', m)"
    and write_size: "\<And>s bs m. ok s \<Longrightarrow> os_callback s = Null_write \<Longrightarrow>
      pb_write env s [] (of_nat (length bs)) m = Ok () (app bs s, m)"
    and null_fits: "\<And>s n. os_callback s = Null_write \<Longrightarrow> fits s n"
    and fits_app: "\<And>s bs k. ok s \<Longrightarrow> fits s (length bs) \<Longrightarrow>
      fits (app bs s) k \<longleftrightarrow> fits s (length bs + k)"
    and fits_mono: "\<And>s n k. fits s (n + k) \<Longrightarrow> fits s n"
    and app_ok: "\<And>s bs. ok s \<Longrightarrow> fits s (length bs) \<Longrightarrow> ok (app bs s)"
    and app_app: "\<And>s bs cs. ok s \<Longrightarrow> fits s (length (bs @ cs)) \<Longrightarrow> app cs (app bs s) = app (bs @ cs) s"
    and app_Nil: "\<And>s. ok s \<Longrightarrow> app [] s = s"
    and fits_0: "\<And>s. ok s \<Longrightarrow> fits s 0"
    and app_callback: "\<And>s bs. os_callback (app bs s) = os_callback s"
    and sizing_ok: "ok PB_OSTREAM_SIZING"
    and sizing_count: "\<And>bs. bytes_written (app bs PB_OSTREAM_SIZING) = of_nat (length bs)"
    and full_iff: "\<And>s n. ok s \<Longrightarrow> os_callback s \<noteq> Null_write \<Longrightarrow> n < 2 ^ 63 \<Longrightarrow>
      max_size s < bytes_written s + of_nat n \<longleftrightarrow> \<not> fits s n"
    and sub_ok: "\<And>s n. ok s \<Longrightarrow> os_callback s \<noteq> Null_write \<Longrightarrow> n < 2 ^ 63 \<Longrightarrow> fits s n \<Longrightarrow>
      ok (limited_substream s (of_nat n)) \<and> fits (limited_substream s (of_nat n)) n"
    and sub_join: "\<And>s bs. ok s \<Longrightarrow> os_callback s \<noteq> Null_write \<Longrightarrow> length bs < 2 ^ 63 \<Longrightarrow>
      fits s (length bs) \<Longrightarrow>
      bytes_written (app bs (limited_substream s (of_nat (length bs)))) = of_nat (length bs) \<and>
      join_substream s (app bs (limited_substream s (of_nat (length bs)))) = app bs s"
begin

text \<open>
  \<open>appends E m bs\<close>: run on memory \<open>m\<close>, the operation \<open>E\<close> writes exactly \<open>bs\<close>, or fails if
  they do not fit; \<open>rejects E m\<close>: it always fails. Both leave memory alone.
\<close>

definition appends :: "(pb_ostream_t \<Rightarrow> mem \<Rightarrow> unit ostep) \<Rightarrow> mem \<Rightarrow> byte list \<Rightarrow> bool" where
  "appends E m bs \<longleftrightarrow> (\<forall>s. ok s \<longrightarrow>
     (if fits s (length bs) then E s m = Ok () (app bs s, m) else (\<exists>s'. E s m = Fail (s', m))))"

lemma appends_write: "length bs < 2 ^ 63 \<Longrightarrow> appends (\<lambda>s m. pb_write env s bs (of_nat (length bs)) m) m bs"
  by (simp add: appends_def write_fits write_full)

lemma appends_Nil: "appends (\<lambda>s m. Ok () (s, m)) m []"
  by (simp add: appends_def app_Nil fits_0)

lemma appends_seq:
  assumes "appends E m bs" "appends F m cs"
  shows "appends (\<lambda>s m. obind (E s m) (\<lambda>_ (s', m'). F s' m')) m (bs @ cs)"
  unfolding appends_def
proof (intro allI impI)
  fix s assume s: "ok s"
  show "if fits s (length (bs @ cs)) then obind (E s m) (\<lambda>_ (s', m'). F s' m') = Ok () (app (bs @ cs) s, m)
        else \<exists>s'. obind (E s m) (\<lambda>_ (s', m'). F s' m') = Fail (s', m)"
  proof (cases "fits s (length bs)")
    case True
    then show ?thesis using assms s app_ok [OF s True] fits_app [OF s True] app_app [OF s]
      by (auto simp: appends_def)
  next
    case False
    then have "\<not> fits s (length (bs @ cs))" using fits_mono [of s "length bs" "length cs"] by auto
    then show ?thesis using assms s False by (auto simp: appends_def) (metis obind.simps(2))
  qed
qed

text \<open>The primitive encoders.\<close>

lemma appends_varint:
  "appends (\<lambda>s m. pb_encode_varint env s v m) m (leb128 (unat v))"
  using appends_write [of "leb128 (unat v)" m] length_leb128_word [of v]
  by (simp add: pb_encode_varint_write order_le_less_trans del: length_leb128_word)

lemma appends_tag:
  "appends (\<lambda>s m. pb_encode_tag env s wt n m) m (leb128 (unat (tag_word wt n)))"
  unfolding pb_encode_tag_def by (rule appends_varint)

lemma appends_svarint:
  "appends (\<lambda>s m. pb_encode_svarint env s v m) m (leb128 (unat (zigzag v)))"
  unfolding pb_encode_svarint_def by (rule appends_varint)

lemma appends_fixed32:
  "appends (\<lambda>s m. pb_encode_fixed32 env s v m) m (bytes_of_word 4 v)"
  using appends_write [of "bytes_of_word 4 v" m] by (simp add: pb_encode_fixed32_write)

lemma appends_fixed64:
  "appends (\<lambda>s m. pb_encode_fixed64 env s v m) m (bytes_of_word 8 v)"
  using appends_write [of "bytes_of_word 8 v" m] by (simp add: pb_encode_fixed64_write)

lemma appends_string:
  assumes "length bs = unat sz" "length bs < 2 ^ 63"
  shows "appends (\<lambda>s m. pb_encode_string env s bs sz m) m (leb128 (unat sz) @ bs)"
proof -
  have "sz = of_nat (length bs)" by (simp add: assms(1))
  then show ?thesis
    unfolding pb_encode_string_def
    using appends_seq [OF appends_varint appends_write [OF assms(2)]] by simp
qed

end

section \<open>The library's streams\<close>

text \<open>
  A counting stream, or a stream on a buffer object with at least as much room as its size
  limit allows to be written; neither has reported an error yet.
\<close>

definition out_ok :: "pb_ostream_t \<Rightarrow> bool" where
  "out_ok s \<longleftrightarrow> os_errmsg s = None \<and>
     (case os_callback s of
        Null_write \<Rightarrow> True
      | Buf_write \<Rightarrow>
          (case os_state s of
             Out_buf out room \<Rightarrow>
               unat (max_size s) < 2 ^ 63 \<and> unat (bytes_written s) \<le> unat (max_size s) \<and>
               unat (max_size s) - unat (bytes_written s) \<le> room
           | _ \<Rightarrow> False)
      | User_write _ \<Rightarrow> False)"

definition out_fits :: "pb_ostream_t \<Rightarrow> nat \<Rightarrow> bool" where
  "out_fits s n \<longleftrightarrow> os_callback s = Null_write \<or> unat (bytes_written s) + n \<le> unat (max_size s)"

definition out_app :: "byte list \<Rightarrow> pb_ostream_t \<Rightarrow> pb_ostream_t" where
  "out_app bs s =
     s\<lparr>os_state := (if os_callback s = Null_write then os_state s
                    else case os_state s of
                      Out_buf out room \<Rightarrow> Out_buf (out @ bs) (room - length bs)
                    | x \<Rightarrow> x),
       bytes_written := bytes_written s + of_nat (length bs)\<rparr>"

lemma out_full_iff:
  assumes "out_ok s" "os_callback s \<noteq> Null_write" "n < 2 ^ 63"
  shows "max_size s < bytes_written s + of_nat n \<longleftrightarrow> \<not> out_fits s n"
  using assms unat_add_of_nat [of "bytes_written s" n]
  by (auto simp: out_ok_def out_fits_def word_less_nat_alt
      split: ostream_callback.splits ostream_state.splits)

lemma out_write_fits:
  assumes "out_ok s" "length bs < 2 ^ 63" "out_fits s (length bs)"
  shows "pb_write env s bs (of_nat (length bs)) m = Ok () (out_app bs s, m)"
  using assms out_full_iff [of s "length bs"]
  by (auto simp: pb_write_def out_ok_def out_app_def out_fits_def buf_write_def unat_of_nat
      split: ostream_callback.splits ostream_state.splits)

lemma out_write_full:
  assumes "out_ok s" "length bs < 2 ^ 63" "\<not> out_fits s (length bs)"
  shows "pb_write env s bs (of_nat (length bs)) m = PB_RETURN_ERROR_o s ''stream full'' m"
  using assms out_full_iff [of s "length bs"]
  by (auto simp: pb_write_def out_fits_def)

lemma out_app_ok:
  assumes "out_ok s" "out_fits s (length bs)"
  shows "out_ok (out_app bs s)"
proof (cases "os_callback s = Null_write")
  case True
  then show ?thesis using assms(1) by (simp add: out_ok_def out_app_def)
next
  case False
  with assms unat_add_of_nat [of "bytes_written s" "length bs"] show ?thesis
    by (auto simp: out_ok_def out_app_def out_fits_def
        split: ostream_callback.splits ostream_state.splits)
qed

lemma out_fits_app:
  assumes "out_ok s" "out_fits s (length bs)"
  shows "out_fits (out_app bs s) k \<longleftrightarrow> out_fits s (length bs + k)"
proof (cases "os_callback s = Null_write")
  case True
  then show ?thesis by (simp add: out_fits_def out_app_def)
next
  case False
  with assms unat_add_of_nat [of "bytes_written s" "length bs"] show ?thesis
    by (auto simp: out_ok_def out_app_def out_fits_def
        split: ostream_callback.splits ostream_state.splits)
qed

interpretation out: byte_sink env out_ok out_fits out_app
  for env
proof (unfold_locales, goal_cases)
  case (1 s bs m)
  then show ?case by (rule out_write_fits)
next
  case (2 s bs m)
  then show ?case by (simp add: out_write_full PB_RETURN_ERROR_o_def)
next
  case (3 s bs m)
  then show ?case by (simp add: pb_write_def out_app_def)
next
  case (5 s bs k)
  then show ?case by (rule out_fits_app)
next
  case (7 s bs)
  then show ?case by (rule out_app_ok)
next
  case (8 s bs cs)
  then show ?case
    by (auto simp: out_app_def split: ostream_state.splits)
next
  case (9 s)
  then show ?case by (auto simp: out_app_def split: ostream_state.splits)
next
  case (14 s n)
  then show ?case by (rule out_full_iff)
next
  case (15 s n)
  then show ?case
    by (auto simp: out_ok_def out_fits_def limited_substream_def unat_of_nat
        split: ostream_callback.splits ostream_state.splits)
next
  case (16 s bs)
  then show ?case
    by (auto simp: out_ok_def out_app_def limited_substream_def join_substream_def
        split: ostream_callback.splits ostream_state.splits)
qed (auto simp: out_fits_def out_app_def out_ok_def PB_OSTREAM_SIZING_def
    split: ostream_callback.splits ostream_state.splits)

section \<open>A fresh buffer\<close>

text \<open>The stream on a buffer of \<open>cap\<close> bytes after \<open>bs\<close> has been written to it.\<close>

definition buffer_with :: "nat \<Rightarrow> byte list \<Rightarrow> pb_ostream_t" where
  "buffer_with cap bs =
     \<lparr>os_callback = Buf_write, os_state = Out_buf bs (cap - length bs), max_size = of_nat cap,
      bytes_written = of_nat (length bs), os_errmsg = None\<rparr>"

lemma fresh_buffer:
  assumes "cap < 2 ^ 63"
  shows "out_ok (pb_ostream_from_buffer cap (of_nat cap))"
    "out_fits (pb_ostream_from_buffer cap (of_nat cap)) n \<longleftrightarrow> n \<le> cap"
    "out_app bs (pb_ostream_from_buffer cap (of_nat cap)) = buffer_with cap bs"
  using assms
  by (simp_all add: out_ok_def out_fits_def out_app_def pb_ostream_from_buffer_def buffer_with_def
      unat_of_nat)

lemma appends_to_buffer:
  assumes "out.appends E m bs" "cap < 2 ^ 63"
  shows "length bs \<le> cap \<Longrightarrow>
      E (pb_ostream_from_buffer cap (of_nat cap)) m = Ok () (buffer_with cap bs, m)"
    "cap < length bs \<Longrightarrow> \<exists>s. E (pb_ostream_from_buffer cap (of_nat cap)) m = Fail (s, m)"
  using assms fresh_buffer [of cap] by (auto simp: out.appends_def)

lemma appends_sizing:
  "out.appends E m bs \<Longrightarrow>
    E PB_OSTREAM_SIZING m = Ok () (out_app bs PB_OSTREAM_SIZING, m)"
  using out.null_fits [of PB_OSTREAM_SIZING] out.sizing_ok
  by (auto simp: out.appends_def PB_OSTREAM_SIZING_def)

end
