(* ===== verification/Pb_Encode_Props.thy ===== *)
theory Pb_Encode_Props
  imports Pb_Records Pb_Fields Pb_Sink
begin

text \<open>
  The encoder implements the record specification: on every byte sink, \<^verbatim>\<open>pb_encode\<close> writes
  exactly the serialised records of the message, or fails because they do not fit.
\<close>

section \<open>Values\<close>

lemma takeWhile_load_bytes:
  "load_bytes m a (strnlen n m a) = takeWhile (\<lambda>b. b \<noteq> 0) (load_bytes m a n)"
  by (induction n arbitrary: a) (simp_all add: load_bytes_Suc)

lemma c_string_strnlen: "c_string n m a = load_bytes m a (strnlen n m a)"
  by (simp add: c_string_def takeWhile_load_bytes)

lemma length_c_string: "length (c_string n m a) = strnlen n m a"
  by (simp add: c_string_strnlen)

lemma strnlen_le: "strnlen n m a \<le> n"
  by (induction n arbitrary: a) simp_all

lemma wire_type_of_simps [simp]:
  "wire_type_of PB_LTYPE_VARINT = Some PB_WT_VARINT" "wire_type_of PB_LTYPE_UVARINT = Some PB_WT_VARINT"
  "wire_type_of PB_LTYPE_SVARINT = Some PB_WT_VARINT" "wire_type_of PB_LTYPE_FIXED32 = Some PB_WT_32BIT"
  "wire_type_of PB_LTYPE_FIXED64 = Some PB_WT_64BIT" "wire_type_of PB_LTYPE_BYTES = Some PB_WT_STRING"
  "wire_type_of PB_LTYPE_STRING = Some PB_WT_STRING" "wire_type_of PB_LTYPE_SUBMESSAGE = Some PB_WT_STRING"
  "wire_type_of PB_LTYPE_FIXED_LENGTH_BYTES = Some PB_WT_STRING"
  by (simp_all add: wire_type_of_def pb_ltypes)

text \<open>The field types with their item values and their encoders, one line per type.\<close>

lemma item_value_simps:
  "ltype_of f = PB_LTYPE_VARINT \<Longrightarrow> item_value sub m f a = map_option W_varint (load_signed (f_data_size f) m a)"
  "ltype_of f = PB_LTYPE_UVARINT \<Longrightarrow> item_value sub m f a = map_option W_varint (load_unsigned (f_data_size f) m a)"
  "ltype_of f = PB_LTYPE_SVARINT \<Longrightarrow> item_value sub m f a = map_option (W_varint \<circ> zigzag) (load_signed (f_data_size f) m a)"
  "ltype_of f = PB_LTYPE_FIXED32 \<Longrightarrow> item_value sub m f a = Some (W_fixed32 (load_word 4 m a))"
  "ltype_of f = PB_LTYPE_FIXED64 \<Longrightarrow> item_value sub m f a = Some (W_fixed64 (load_word 8 m a))"
  "ltype_of f = PB_LTYPE_BYTES \<Longrightarrow> item_value sub m f a =
     (if a = 0 then Some (W_len [])
      else if atype_of f = PB_ATYPE_STATIC \<and> unat (f_data_size f) < unat (load_word 4 m a :: pb_size_t) + 4 then None
      else Some (W_len (load_bytes m (a + bytes_offset) (unat (load_word 4 m a :: pb_size_t)))))"
  "ltype_of f = PB_LTYPE_STRING \<Longrightarrow> item_value sub m f a =
     Some (W_len (if a = 0 then []
       else c_string (if atype_of f = PB_ATYPE_POINTER then 2 ^ 64 - 1 else unat (f_data_size f)) m a))"
  "ltype_of f = PB_LTYPE_SUBMESSAGE \<Longrightarrow> item_value sub m f a = map_option (W_len \<circ> serialize) (sub a)"
  "ltype_of f = PB_LTYPE_EXTENSION \<Longrightarrow> item_value sub m f a = None"
  "ltype_of f = PB_LTYPE_FIXED_LENGTH_BYTES \<Longrightarrow> item_value sub m f a = Some (W_len (load_bytes m a (unat (f_data_size f))))"
  by (simp_all add: item_value_def Let_def pb_ltypes)

lemma PB_ENCODERS_simps:
  "PB_ENCODERS enc env PB_LTYPE_VARINT = pb_enc_varint env"
  "PB_ENCODERS enc env PB_LTYPE_UVARINT = pb_enc_uvarint env"
  "PB_ENCODERS enc env PB_LTYPE_SVARINT = pb_enc_svarint env"
  "PB_ENCODERS enc env PB_LTYPE_FIXED32 = pb_enc_fixed32 env"
  "PB_ENCODERS enc env PB_LTYPE_FIXED64 = pb_enc_fixed64 env"
  "PB_ENCODERS enc env PB_LTYPE_BYTES = pb_enc_bytes env"
  "PB_ENCODERS enc env PB_LTYPE_STRING = pb_enc_string env"
  "PB_ENCODERS enc env PB_LTYPE_SUBMESSAGE = pb_enc_submessage enc env"
  "PB_ENCODERS enc env PB_LTYPE_FIXED_LENGTH_BYTES = pb_enc_fixed_length_bytes env"
  by (simp_all add: PB_ENCODERS_def pb_ltypes)

lemma item_value_None: "\<not> ltype_of f < PB_LTYPES_COUNT \<Longrightarrow> item_value sub m f a = None"
  by (auto simp: item_value_def Let_def pb_ltypes word_less_nat_alt)

lemma wire_type_item_value:
  assumes "item_value sub m f a = Some v"
  shows "wire_type_of (ltype_of f) = Some (wire_type v)"
proof -
  have "ltype_of f < PB_LTYPES_COUNT" using assms item_value_None [of f sub m a] by auto
  from ltype_cases [OF this] assms show ?thesis
    by (elim disjE) (auto simp: item_value_simps split: if_splits)
qed

lemma those_map_Some:
  "those (map g xs) = Some ys \<longleftrightarrow> ys = map (\<lambda>x. the (g x)) xs \<and> (\<forall>x \<in> set xs. g x \<noteq> None)"
  by (induction xs arbitrary: ys) (auto split: option.splits)

lemma packable_cases:
  assumes "ltype_of f \<le> PB_LTYPE_LAST_PACKABLE"
  shows "ltype_of f = PB_LTYPE_VARINT \<or> ltype_of f = PB_LTYPE_UVARINT \<or> ltype_of f = PB_LTYPE_SVARINT \<or>
    ltype_of f = PB_LTYPE_FIXED32 \<or> ltype_of f = PB_LTYPE_FIXED64"
proof -
  have "unat (ltype_of f) < 5" using assms by (simp add: PB_LTYPE_LAST_PACKABLE_def word_le_nat_alt)
  then have "unat (ltype_of f) \<in> {0, 1, 2, 3, 4}" by auto
  then show ?thesis by (auto simp: pb_ltypes word_unat_eq_iff)
qed

lemma length_concat_const: "(\<And>x. x \<in> set xs \<Longrightarrow> length (g x) = k) \<Longrightarrow> length (concat (map g xs)) = k * length xs"
  by (induction xs) auto

lemma length_le_concat: "xs \<in> set xss \<Longrightarrow> length xs \<le> length (concat xss)"
  by (induction xss) auto

section \<open>Presence\<close>

lemma fold_placed_check:
  assumes "\<And>f d z. (f, d, z) \<in> set ps \<Longrightarrow> g f d z () = (if P (f, d, z) then Ok () () else Fail ())"
  shows "fold_placed g ps () = (if \<forall>x \<in> set ps. P x then Ok () () else Fail ())"
  using assms by (induction ps) (auto split: prod.splits)

text \<open>The presence check terminates within the depth of the field and decides \<open>default_value\<close>.\<close>

lemma check_default_value:
  "wf_field f \<Longrightarrow> depth_field f < n \<Longrightarrow>
    pb_check_proto3_default_value n m f a = (if default_value m f a then Ok () () else Fail ())"
proof (induction n arbitrary: f a)
  case (Suc n)
  show ?case
  proof (cases "atype_of f = PB_ATYPE_STATIC \<and> ltype_of f = PB_LTYPE_SUBMESSAGE")
    case True
    then obtain fs where fs: "f_ptr f = Ptr_fields fs" "wf_fields fs"
      using Suc.prems(1) wf_submessage by blast
    let ?g = "\<lambda>f' a' z' (_ :: unit). pb_check_proto3_default_value n m f' a'"
    have sub: "?g f' a' z' () = (if default_value m f' a' then Ok () () else Fail ())"
      if "(f', a', z') \<in> set (positions fs a)" for f' a' z'
    proof -
      have "f' \<in> set fs" using that by (rule positions_subset)
      then have "wf_field f'" "depth_field f' < n"
        using fs Suc.prems(2) depth_sub_fields [OF fs(1)] depth_field_in [of f' fs]
        by (auto intro: wf_fields_in)
      then show ?thesis by (rule Suc.IH)
    qed
    have "(case pb_field_iter_begin fs a of
            (True, it) \<Rightarrow> for_each_field
              (\<lambda>it _. pb_check_proto3_default_value n m (pos_field it) (pData it)) it ()
          | (False, _) \<Rightarrow> Ok () ()) = fold_placed ?g (positions fs a) ()"
      by (rule for_each_field_positions) (simp_all add: wf_fields_no_terminator fs)
    also have "\<dots> = (if \<forall>x \<in> set (positions fs a). case x of (f', a', _) \<Rightarrow> default_value m f' a'
                     then Ok () () else Fail ())"
      by (subst fold_placed_check [where P = "\<lambda>(f', a', _). default_value m f' a'"]) (auto simp: sub)
    finally show ?thesis
      using True fs(1) default_value.simps [of m f a]
      by (simp add: pb_ltypes)
  next
    case False
    then show ?thesis by (auto simp: default_value.simps [of m f a] Let_def)
  qed
qed simp

lemma basic_field_size_ptr_value:
  assumes "wf_field f" "depth_field f < n"
  shows "basic_field_size_ptr n f d m = Ok
    (if f_size_offset f \<noteq> 0 then Size_at (d + sint (f_size_offset f))
     else Implicit_has (htype_of f \<noteq> PB_HTYPE_OPTIONAL \<or> \<not> default_value m f d)) ()"
  using check_default_value [OF assms, of m d] by (simp add: basic_field_size_ptr_def)

text \<open>\<^verbatim>\<open>pb_encode\<close> as a walk over the table of placed fields.\<close>

definition encode_placed ::
  "nat \<Rightarrow> pb_env \<Rightarrow> pb_field_t \<Rightarrow> addr \<Rightarrow> addr \<Rightarrow> pb_ostream_t \<times> mem \<Rightarrow> unit ostep" where
  "encode_placed n env f d z st =
     (case st of (s, m) \<Rightarrow>
        if ltype_of f = PB_LTYPE_EXTENSION then encode_extension_field n (pb_encode n env) env s d m
        else encode_field n (pb_encode n env) env s f d m)"

lemma pb_encode_placed:
  "no_terminator fs \<Longrightarrow>
    pb_encode (Suc n) env fs p s m = fold_placed (encode_placed n env) (positions fs p) (s, m)"
  using for_each_field_positions [of fs,
      where body = "\<lambda>it (s, m). if ltype_of (pos_field it) = PB_LTYPE_EXTENSION
             then encode_extension_field n (pb_encode n env) env s (pData it) m
             else encode_field n (pb_encode n env) env s (pos_field it) (pData it) m"
        and g = "encode_placed n env" and dest = p and s = "(s, m)"]
  by (simp add: encode_placed_def case_prod_unfold)

lemma fold_placed_append:
  "fold_placed g (xs @ ys) s = obind (fold_placed g xs s) (\<lambda>_ s'. fold_placed g ys s')"
  by (induction xs arbitrary: s) (simp_all add: obind_assoc)

text \<open>
  When \<^verbatim>\<open>encode_basic_field\<close> encodes a field that is no array: a required field with data,
  an optional one whose \<^verbatim>\<open>has_\<close> flag is set (or, without a flag, whose pointer is not NULL
  or whose data is not all default), and the selected member of a oneof.
\<close>

definition field_data :: "mem \<Rightarrow> pb_field_t \<Rightarrow> addr \<Rightarrow> addr" where
  "field_data m f d = (if atype_of f = PB_ATYPE_POINTER then load_ptr m d else d)"

definition field_present :: "mem \<Rightarrow> pb_field_t \<Rightarrow> addr \<Rightarrow> bool" where
  "field_present m f d \<longleftrightarrow>
     htype_of f = PB_HTYPE_REQUIRED \<and> field_data m f d \<noteq> 0 \<or>
     htype_of f = PB_HTYPE_OPTIONAL \<and>
       (if f_size_offset f \<noteq> 0 then m (d + sint (f_size_offset f)) \<noteq> 0
        else if atype_of f = PB_ATYPE_POINTER then field_data m f d \<noteq> 0 else \<not> default_value m f d) \<or>
     htype_of f = PB_HTYPE_ONEOF \<and> load_word 4 m (d + sint (f_size_offset f)) = f_tag f"

text \<open>
  Data no encoding exists for: a static array whose count exceeds its size, a required
  pointer that is NULL, and a static bytes field that is present and longer than its allocation.
\<close>

definition bad_field :: "mem \<Rightarrow> pb_field_t \<Rightarrow> addr \<Rightarrow> bool" where
  "bad_field m f d \<longleftrightarrow>
     atype_of f = PB_ATYPE_STATIC \<and> htype_of f = PB_HTYPE_REPEATED \<and>
       f_array_size f < (load_word 4 m (d + sint (f_size_offset f)) :: pb_size_t) \<or>
     atype_of f = PB_ATYPE_POINTER \<and> htype_of f = PB_HTYPE_REQUIRED \<and> load_ptr m d = 0 \<or>
     atype_of f = PB_ATYPE_STATIC \<and> ltype_of f = PB_LTYPE_BYTES \<and> field_present m f d \<and>
       d \<noteq> 0 \<and> unat (f_data_size f) < unat (load_word 4 m d :: pb_size_t) + 4"

text \<open>
  A message with such a field, in its own table or in the table of a submessage that is present,
  where the fields in front of it, in every table on the way, can be encoded.
\<close>

inductive bad_message :: "mem \<Rightarrow> pb_field_t list \<Rightarrow> addr \<Rightarrow> bool" for m :: mem where
  bad_here: "i < length fs \<Longrightarrow> positions fs p ! i = (f, d, z) \<Longrightarrow>
    message_records m (take i fs) p = Some rs \<Longrightarrow> length (serialize rs) < 2 ^ 63 \<Longrightarrow>
    ltype_of f \<noteq> PB_LTYPE_EXTENSION \<Longrightarrow> bad_field m f d \<Longrightarrow> bad_message m fs p"
| bad_inside: "i < length fs \<Longrightarrow> positions fs p ! i = (f, d, z) \<Longrightarrow>
    message_records m (take i fs) p = Some rs \<Longrightarrow> length (serialize rs) < 2 ^ 63 \<Longrightarrow>
    ltype_of f = PB_LTYPE_SUBMESSAGE \<Longrightarrow> atype_of f = PB_ATYPE_STATIC \<or> atype_of f = PB_ATYPE_POINTER \<Longrightarrow>
    f_ptr f = Ptr_fields gs \<Longrightarrow> field_present m f d \<Longrightarrow>
    bad_message m gs (field_data m f d) \<Longrightarrow> bad_message m fs p"

section \<open>Encoders append\<close>

context byte_sink begin

lemma appends_at: "appends F m bs \<Longrightarrow> (\<And>s. E s m = F s m) \<Longrightarrow> appends E m bs"
  by (simp add: appends_def)

text \<open>The sizing pass and the limited substream together write the length and the bytes.\<close>

lemma appends_submessage:
  assumes enc: "appends (\<lambda>s m. enc fs a s m) m bs" and len: "length bs < 2 ^ 63"
  shows "appends (\<lambda>s m. pb_encode_submessage enc env fs a s m) m (leb128 (length bs) @ bs)"
proof -
  let ?sz = "of_nat (length bs) :: size_t"
  have sizing: "enc fs a PB_OSTREAM_SIZING m = Ok () (app bs PB_OSTREAM_SIZING, m)"
    using enc sizing_ok null_fits [of PB_OSTREAM_SIZING "length bs"]
    by (simp add: appends_def PB_OSTREAM_SIZING_def)
  have u: "unat ?sz = length bs" using len by (simp add: unat_of_nat)
  define F where "F = (\<lambda>s1 m1. if os_callback s1 = Null_write then pb_write env s1 [] ?sz m1
            else if max_size s1 < bytes_written s1 + ?sz then PB_RETURN_ERROR_o s1 ''stream full'' m1
            else
              let finish = (\<lambda>status (sub2, m2).
                    let s2 = s1\<lparr>bytes_written := bytes_written s1 + bytes_written sub2,
                                os_state := os_state sub2, os_errmsg := os_errmsg sub2\<rparr>
                    in if bytes_written sub2 \<noteq> ?sz then PB_RETURN_ERROR_o s2 ''submsg size changed'' m2
                       else if status then Ok () (s2, m2) else Fail (s2, m2))
              in case enc fs a (limited_substream s1 ?sz) m1 of
                   Ok _ st \<Rightarrow> finish True st | Fail st \<Rightarrow> finish False st | Halt e \<Rightarrow> Halt e)"
  have "appends F m bs"
    unfolding appends_def
  proof (intro allI impI)
    fix s assume s: "ok s"
    show "if fits s (length bs) then F s m = Ok () (app bs s, m) else \<exists>s'. F s m = Fail (s', m)"
    proof (cases "os_callback s = Null_write")
      case True
      then show ?thesis using write_size [OF s True, of bs m] null_fits [OF True]
        by (simp add: F_def)
    next
      case False
      note full = full_iff [OF s False len]
      show ?thesis
      proof (cases "fits s (length bs)")
        case True
        note sub = sub_ok [OF s False len True] and join = sub_join [OF s False len True]
        have "enc fs a (limited_substream s ?sz) m = Ok () (app bs (limited_substream s ?sz), m)"
          using enc sub by (simp add: appends_def)
        then show ?thesis
          using True False full conjunct1 [OF join]
            conjunct2 [OF join, unfolded join_substream_def conjunct1 [OF join]]
          by (simp add: F_def Let_def)
      next
        case nofit: False
        then show ?thesis using False full by (simp add: F_def PB_RETURN_ERROR_o_def)
      qed
    qed
  qed
  from appends_seq [OF appends_varint [of ?sz m] this]
  have "appends (\<lambda>s m. obind (pb_encode_varint env s ?sz m) (\<lambda>_ (s1, m1). F s1 m1)) m (leb128 (length bs) @ bs)"
    by (simp add: u)
  then show ?thesis
    by (rule appends_at)
       (simp only: pb_encode_submessage_def sizing sizing_count F_def limited_substream_def
         outcome.case prod.case Let_def)
qed

text \<open>One item: what the table \<^verbatim>\<open>PB_ENCODERS\<close> selects writes the item's value.\<close>

lemma appends_string_bytes:
  assumes "length bs < 2 ^ 63" "unat sz = length bs"
  shows "appends (\<lambda>s m. pb_encode_string env s bs sz m) m (leb128 (length bs) @ bs)"
  using appends_string [of bs sz m] assms by simp

lemma appends_item:
  assumes v: "item_value sub m f a = Some v" and len: "length (ser_value v) < 2 ^ 63"
    and sub: "\<And>fs rs. ltype_of f = PB_LTYPE_SUBMESSAGE \<Longrightarrow> f_ptr f = Ptr_fields fs \<Longrightarrow> sub a = Some rs \<Longrightarrow>
      length (serialize rs) < 2 ^ 63 \<Longrightarrow> appends (\<lambda>s m. enc fs a s m) m (serialize rs)"
    and ptr: "ltype_of f = PB_LTYPE_SUBMESSAGE \<Longrightarrow> \<exists>fs. f_ptr f = Ptr_fields fs"
  shows "appends (\<lambda>s m. PB_ENCODERS enc env (ltype_of f) s f a m) m (ser_value v)"
proof -
  have "ltype_of f < PB_LTYPES_COUNT" using v item_value_None [of f sub m a] by auto
  from ltype_cases [OF this] show ?thesis
  proof (elim disjE)
    assume lt: "ltype_of f = PB_LTYPE_VARINT"
    then obtain w where "load_signed (f_data_size f) m a = Some w" "v = W_varint w"
      using v by (auto simp: item_value_simps)
    with lt show ?thesis
      by (auto simp: PB_ENCODERS_simps pb_enc_varint_def intro: appends_at [OF appends_varint])
  next
    assume lt: "ltype_of f = PB_LTYPE_UVARINT"
    then obtain w where "load_unsigned (f_data_size f) m a = Some w" "v = W_varint w"
      using v by (auto simp: item_value_simps)
    with lt show ?thesis
      by (auto simp: PB_ENCODERS_simps pb_enc_uvarint_def intro: appends_at [OF appends_varint])
  next
    assume lt: "ltype_of f = PB_LTYPE_SVARINT"
    then obtain w where "load_signed (f_data_size f) m a = Some w" "v = W_varint (zigzag w)"
      using v by (auto simp: item_value_simps)
    with lt show ?thesis
      by (auto simp: PB_ENCODERS_simps pb_enc_svarint_def intro: appends_at [OF appends_svarint])
  next
    assume "ltype_of f = PB_LTYPE_FIXED32"
    with v show ?thesis
      by (auto simp: item_value_simps PB_ENCODERS_simps pb_enc_fixed32_def intro: appends_at [OF appends_fixed32])
  next
    assume "ltype_of f = PB_LTYPE_FIXED64"
    with v show ?thesis
      by (auto simp: item_value_simps PB_ENCODERS_simps pb_enc_fixed64_def intro: appends_at [OF appends_fixed64])
  next
    assume lt: "ltype_of f = PB_LTYPE_BYTES"
    show ?thesis
    proof (cases "a = 0")
      case True
      then show ?thesis using v lt appends_string_bytes [of "[]" 0 m]
        by (auto simp: item_value_simps PB_ENCODERS_simps pb_enc_bytes_def)
    next
      case False
      let ?sz = "load_word 4 m a :: pb_size_t"
      have ok: "\<not> (atype_of f = PB_ATYPE_STATIC \<and> unat (f_data_size f) < unat ?sz + 4)"
        and vv: "v = W_len (load_bytes m (a + bytes_offset) (unat ?sz))"
        using v lt False by (auto simp: item_value_simps split: if_splits)
      from vv len have "appends (\<lambda>s m'. pb_encode_string env s
          (load_bytes m (a + bytes_offset) (unat ?sz)) (ucast ?sz) m') m (ser_value v)"
        using appends_string_bytes [of "load_bytes m (a + bytes_offset) (unat ?sz)" "ucast ?sz" m]
        by (simp add: unat_ucast_up)
      then show ?thesis
        by (rule appends_at) (use ok lt False in
          \<open>auto simp: PB_ENCODERS_simps pb_enc_bytes_def Let_def alloc_size_fits\<close>)
    qed
  next
    assume lt: "ltype_of f = PB_LTYPE_STRING"
    define n where "n = (if atype_of f = PB_ATYPE_POINTER then 2 ^ 64 - 1 else unat (f_data_size f))"
    define k where "k = (if a = 0 then 0 else strnlen n m a)"
    have vv: "v = W_len (load_bytes m a k)"
      using v lt by (auto simp: item_value_simps k_def n_def c_string_strnlen)
    have "unat (of_nat k :: size_t) = k" using len vv by (simp add: unat_of_nat)
    then have "appends (\<lambda>s m'. pb_encode_string env s (load_bytes m a k) (of_nat k) m') m (ser_value v)"
      using appends_string_bytes [of "load_bytes m a k" "of_nat k" m] len vv by simp
    then show ?thesis
      by (rule appends_at) (use lt in \<open>simp add: PB_ENCODERS_simps pb_enc_string_def Let_def k_def n_def\<close>)
  next
    assume lt: "ltype_of f = PB_LTYPE_SUBMESSAGE"
    then obtain fs rs where fs: "f_ptr f = Ptr_fields fs" and rs: "sub a = Some rs" "v = W_len (serialize rs)"
      using v ptr by (auto simp: item_value_simps)
    have l: "length (serialize rs) < 2 ^ 63" using len rs(2) by simp
    have "appends (\<lambda>s m. pb_encode_submessage enc env fs a s m) m (ser_value v)"
      using appends_submessage [of enc fs a m, OF sub [OF lt fs rs(1) l] l] rs(2) by simp
    then show ?thesis
      by (rule appends_at) (use lt fs in \<open>simp add: PB_ENCODERS_simps pb_enc_submessage_def\<close>)
  next
    assume "ltype_of f = PB_LTYPE_EXTENSION"
    with v show ?thesis by (simp add: item_value_simps)
  next
    assume lt: "ltype_of f = PB_LTYPE_FIXED_LENGTH_BYTES"
    have vv: "v = W_len (load_bytes m a (unat (f_data_size f)))" using v lt by (simp add: item_value_simps)
    have "appends (\<lambda>s m'. pb_encode_string env s (load_bytes m a (unat (f_data_size f))) (ucast (f_data_size f)) m')
        m (ser_value v)"
      using appends_string_bytes [of "load_bytes m a (unat (f_data_size f))" "ucast (f_data_size f)" m] len vv
      by (simp add: unat_ucast_up)
    then show ?thesis
      by (rule appends_at) (use lt in \<open>simp add: PB_ENCODERS_simps pb_enc_fixed_length_bytes_def\<close>)
  qed
qed

text \<open>Arrays.\<close>

lemma appends_items:
  "(\<And>a. a \<in> set (item_addrs p (uint ds) k) \<Longrightarrow> appends (\<lambda>s m. item s a m) m (bsf a)) \<Longrightarrow>
    appends (\<lambda>s m. encode_items item ds k p s m) m (concat (map bsf (item_addrs p (uint ds) k)))"
proof (induction k arbitrary: p)
  case 0
  then show ?case by (simp add: appends_Nil)
next
  case (Suc k)
  have "appends (\<lambda>s m. item s p m) m (bsf p)" by (rule Suc.prems) simp
  moreover have "appends (\<lambda>s m. encode_items item ds k (p + uint ds) s m) m
      (concat (map bsf (item_addrs (p + uint ds) (uint ds) k)))"
    by (rule Suc.IH) (auto intro: Suc.prems)
  ultimately show ?case using appends_seq by fastforce
qed

lemma appends_packed_body:
  assumes items: "appends (\<lambda>s m. encode_items item ds k p s m) m bs" and len: "length bs < 2 ^ 63"
    and sz: "sz = of_nat (length bs)"
  shows "appends (\<lambda>s m. obind (pb_encode_varint env s sz m) (\<lambda>_ (s3, m3).
           if os_callback s3 = Null_write then pb_write env s3 [] sz m3
           else encode_items item ds k p s3 m3)) m (leb128 (length bs) @ bs)"
proof -
  have u: "unat sz = length bs" using len by (simp add: sz unat_of_nat)
  have "appends (\<lambda>s3 m3. if os_callback s3 = Null_write then pb_write env s3 [] sz m3
           else encode_items item ds k p s3 m3) m bs"
    using items write_size null_fits by (auto simp: appends_def sz)
  from appends_seq [OF appends_varint [of sz m] this] show ?thesis by (simp add: u)
qed

lemma appends_packed_array:
  assumes cnt: "count \<noteq> 0" "atype_of f = PB_ATYPE_POINTER \<or> count \<le> ucast (f_array_size f)"
    and lt: "ltype_of f \<le> PB_LTYPE_LAST_PACKABLE"
    and vs: "those (map (item_value sub m f) (item_addrs p (uint (f_data_size f)) (unat count))) = Some vs"
    and len: "length (ser_record (f_tag f, W_len (concat (map ser_value vs)))) < 2 ^ 63"
  shows "appends (\<lambda>s m. encode_array env s f p count (PB_ENCODERS enc env (ltype_of f)) m) m
    (ser_record (f_tag f, W_len (concat (map ser_value vs))))"
proof -
  let ?addrs = "item_addrs p (uint (f_data_size f)) (unat count)"
  let ?bs = "concat (map ser_value vs)"
  let ?item = "\<lambda>s a m. PB_ENCODERS enc env (ltype_of f) s f a m"
  have nsub: "ltype_of f \<noteq> PB_LTYPE_SUBMESSAGE" using packable_cases [OF lt] by (auto simp: pb_ltypes)
  have vsv: "vs = map (\<lambda>a. the (item_value sub m f a)) ?addrs" "\<forall>a \<in> set ?addrs. item_value sub m f a \<noteq> None"
    using vs by (auto simp: those_map_Some)
  have bsl: "length ?bs < 2 ^ 63" using len by (simp add: ser_record_def)
  have bs: "?bs = concat (map (\<lambda>a. ser_value (the (item_value sub m f a))) ?addrs)"
    by (simp add: vsv(1) comp_def)
  have items: "appends (\<lambda>s m. encode_items ?item (f_data_size f) (unat count) p s m) m ?bs"
    unfolding bs
  proof (rule appends_items)
    fix a assume a: "a \<in> set ?addrs"
    then obtain v where v: "item_value sub m f a = Some v" using vsv(2) by auto
    have "ser_value v \<in> set (map (\<lambda>a. ser_value (the (item_value sub m f a))) ?addrs)" using a v by force
    then have "length (ser_value v) \<le> length ?bs" unfolding bs by (rule length_le_concat)
    then have "length (ser_value v) < 2 ^ 63" using bsl by simp
    then show "appends (\<lambda>s m. ?item s a m) m (ser_value (the (item_value sub m f a)))"
      using appends_item [OF v, of enc] nsub v by simp
  qed
  have sizing: "encode_items ?item (f_data_size f) (unat count) p PB_OSTREAM_SIZING m
      = Ok () (app ?bs PB_OSTREAM_SIZING, m)"
    using items sizing_ok null_fits [of PB_OSTREAM_SIZING "length ?bs"]
    by (simp add: appends_def PB_OSTREAM_SIZING_def)
  have fixed: "of_nat (length ?bs) = of_nat k * count" if "\<And>v a. item_value sub m f a = Some v \<Longrightarrow> length (ser_value v) = k" for k
  proof -
    have "length ?bs = k * unat count"
      unfolding bs by (subst length_concat_const [where k = k]) (use vsv(2) that in auto)
    then show ?thesis by simp
  qed
  have f32: "4 * count = of_nat (length ?bs)" if "ltype_of f = PB_LTYPE_FIXED32"
    by (subst fixed [of 4]) (auto simp: item_value_simps that)
  have f64: "8 * count = of_nat (length ?bs)" if "ltype_of f = PB_LTYPE_FIXED64"
    by (subst fixed [of 8]) (auto simp: item_value_simps that)
  define body where "body = (\<lambda>s1 sz m2. obind (pb_encode_varint env s1 sz m2) (\<lambda>_ (s3, m3).
            if os_callback s3 = Null_write then pb_write env s3 [] sz m3
            else encode_items ?item (f_data_size f) (unat count) p s3 m3))"
  define F where "F = (\<lambda>s1 m1.
      if ltype_of f = PB_LTYPE_FIXED32 then body s1 (4 * count) m1
      else if ltype_of f = PB_LTYPE_FIXED64 then body s1 (8 * count) m1
      else case encode_items ?item (f_data_size f) (unat count) p PB_OSTREAM_SIZING m1 of
             Ok _ (sizestream, m2) \<Rightarrow> body s1 (bytes_written sizestream) m2
           | Fail (_, m2) \<Rightarrow> Fail (s1, m2)
           | Halt e \<Rightarrow> Halt e)"
  have "appends (\<lambda>s m. body s (of_nat (length ?bs)) m) m (leb128 (length ?bs) @ ?bs)"
    unfolding body_def by (rule appends_packed_body [OF items bsl refl])
  then have "appends F m (leb128 (length ?bs) @ ?bs)"
    by (rule appends_at) (simp add: F_def f32 f64 sizing sizing_count)
  from appends_seq [OF appends_tag this, of PB_WT_STRING "f_tag f"]
  have "appends (\<lambda>s m. obind (pb_encode_tag env s PB_WT_STRING (f_tag f) m) (\<lambda>_ (s1, m1). F s1 m1)) m
      (ser_record (f_tag f, W_len ?bs))"
    by (simp add: ser_record_def ser_tag_def)
  moreover have "(count = 0) = False" "(ltype_of f \<le> PB_LTYPE_LAST_PACKABLE) = True"
    "(atype_of f \<noteq> PB_ATYPE_POINTER \<and> ucast (f_array_size f) < count) = False"
    using cnt lt by (auto simp: not_less)
  note g = this
  have "encode_array env s f p count (PB_ENCODERS enc env (ltype_of f)) m =
      obind (pb_encode_tag env s PB_WT_STRING (f_tag f) m) (\<lambda>_ (s1, m1). F s1 m1)" for s
    unfolding encode_array_def F_def body_def Let_def g if_True if_False by (rule refl)
  ultimately show ?thesis by (rule appends_at)
qed

text \<open>A tagged value, the form of every unpacked item.\<close>

lemma appends_tagged:
  assumes v: "item_value sub m f a = Some v" and len: "length (ser_record (f_tag f, v)) < 2 ^ 63"
    and sub: "\<And>fs rs. ltype_of f = PB_LTYPE_SUBMESSAGE \<Longrightarrow> f_ptr f = Ptr_fields fs \<Longrightarrow> sub a = Some rs \<Longrightarrow>
      length (serialize rs) < 2 ^ 63 \<Longrightarrow> appends (\<lambda>s m. enc fs a s m) m (serialize rs)"
    and ptr: "ltype_of f = PB_LTYPE_SUBMESSAGE \<Longrightarrow> \<exists>fs. f_ptr f = Ptr_fields fs"
    and a: "a = g m"
  shows "appends (\<lambda>s m. obind (pb_encode_tag_for_field env s f m) (\<lambda>_ (s', m').
      PB_ENCODERS enc env (ltype_of f) s' f (g m') m')) m (ser_record (f_tag f, v))"
proof -
  have tag: "appends (\<lambda>s m. pb_encode_tag_for_field env s f m) m (ser_tag (f_tag f, v))"
    using appends_at [OF appends_tag [of "wire_type v" "f_tag f" m]]
    by (simp add: pb_encode_tag_for_field_def wire_type_item_value [OF v] ser_tag_def)
  have "appends (\<lambda>s m. PB_ENCODERS enc env (ltype_of f) s f a m) m (ser_value v)"
    by (rule appends_item [OF v]) (use len sub ptr in \<open>auto simp: ser_record_def\<close>)
  then have "appends (\<lambda>s m'. PB_ENCODERS enc env (ltype_of f) s f (g m') m') m (ser_value v)"
    by (rule appends_at) (simp add: a)
  from appends_seq [OF tag this] show ?thesis by (simp add: ser_record_def)
qed

lemma appends_unpacked_array:
  assumes cnt: "count \<noteq> 0" "atype_of f = PB_ATYPE_POINTER \<or> count \<le> ucast (f_array_size f)"
    and lt: "\<not> ltype_of f \<le> PB_LTYPE_LAST_PACKABLE"
    and addr: "addr = (\<lambda>m a. if atype_of f = PB_ATYPE_POINTER \<and>
      (ltype_of f = PB_LTYPE_STRING \<or> ltype_of f = PB_LTYPE_BYTES) then load_ptr m a else a)"
    and vs: "those (map (\<lambda>a. item_value sub m f (addr m a))
      (item_addrs p (uint (f_data_size f)) (unat count))) = Some vs"
    and len: "length (serialize (map (\<lambda>v. (f_tag f, v)) vs)) < 2 ^ 63"
    and sub: "\<And>fs a rs. ltype_of f = PB_LTYPE_SUBMESSAGE \<Longrightarrow> f_ptr f = Ptr_fields fs \<Longrightarrow> sub a = Some rs \<Longrightarrow>
      length (serialize rs) < 2 ^ 63 \<Longrightarrow> appends (\<lambda>s m. enc fs a s m) m (serialize rs)"
    and ptr: "ltype_of f = PB_LTYPE_SUBMESSAGE \<Longrightarrow> \<exists>fs. f_ptr f = Ptr_fields fs"
  shows "appends (\<lambda>s m. encode_array env s f p count (PB_ENCODERS enc env (ltype_of f)) m) m
    (serialize (map (\<lambda>v. (f_tag f, v)) vs))"
proof -
  let ?addrs = "item_addrs p (uint (f_data_size f)) (unat count)"
  let ?item = "\<lambda>s a m. obind (pb_encode_tag_for_field env s f m) (\<lambda>_ (s', m').
      PB_ENCODERS enc env (ltype_of f) s' f (addr m' a) m')"
  let ?ser = "\<lambda>a. ser_record (f_tag f, the (item_value sub m f (addr m a)))"
  have vsv: "vs = map (\<lambda>a. the (item_value sub m f (addr m a))) ?addrs"
      "\<forall>a \<in> set ?addrs. item_value sub m f (addr m a) \<noteq> None"
    using vs by (auto simp: those_map_Some)
  have bs: "serialize (map (\<lambda>v. (f_tag f, v)) vs) = concat (map ?ser ?addrs)"
    by (simp add: serialize_def vsv(1) comp_def)
  have "appends (\<lambda>s m. encode_items ?item (f_data_size f) (unat count) p s m) m (concat (map ?ser ?addrs))"
  proof (rule appends_items)
    fix a assume a: "a \<in> set ?addrs"
    then obtain v where v: "item_value sub m f (addr m a) = Some v" using vsv(2) by auto
    have "?ser a \<in> set (map ?ser ?addrs)" using a by force
    then have "length (ser_record (f_tag f, v)) < 2 ^ 63"
      using length_le_concat [of "?ser a"] len v unfolding bs by fastforce
    with v have "appends (\<lambda>s m. ?item s a m) m (ser_record (f_tag f, v))"
      by (rule appends_tagged [where g = "\<lambda>m. addr m a"]) (use sub ptr in auto)
    then show "appends (\<lambda>s m. ?item s a m) m (?ser a)" using v by simp
  qed
  moreover have "(count = 0) = False" "(ltype_of f \<le> PB_LTYPE_LAST_PACKABLE) = False"
    "(atype_of f \<noteq> PB_ATYPE_POINTER \<and> ucast (f_array_size f) < count) = False"
    using cnt lt by (auto simp: not_less)
  note g = this
  have "encode_array env s f p count (PB_ENCODERS enc env (ltype_of f)) m =
      encode_items ?item (f_data_size f) (unat count) p s m" for s
    unfolding encode_array_def Let_def g if_True if_False addr
    by (intro arg_cong [where f = "\<lambda>i. encode_items i _ _ _ _ _"] ext)
       (auto intro!: arg_cong [where f = "obind _"] ext)
  ultimately show ?thesis unfolding bs by (rule appends_at)
qed

text \<open>Whole fields.\<close>

lemma appends_basic_field:
  assumes rs: "field_records sub m f d = Some rs" and wf: "wf_field f" "depth_field f < n"
    and kind: "ltype_of f \<noteq> PB_LTYPE_EXTENSION" "atype_of f \<noteq> PB_ATYPE_CALLBACK"
    and len: "length (serialize rs) < 2 ^ 63"
    and sub: "\<And>fs a rs. ltype_of f = PB_LTYPE_SUBMESSAGE \<Longrightarrow> f_ptr f = Ptr_fields fs \<Longrightarrow> sub a = Some rs \<Longrightarrow>
      length (serialize rs) < 2 ^ 63 \<Longrightarrow> appends (\<lambda>s m. enc fs a s m) m (serialize rs)"
  shows "appends (\<lambda>s m. encode_basic_field n enc env s f d m) m (serialize rs)"
proof -
  let ?data = "if atype_of f = PB_ATYPE_POINTER then load_ptr m d else d"
  let ?z = "d + sint (f_size_offset f)"
  let ?func = "PB_ENCODERS enc env (ltype_of f)"
  let ?count = "load_word 4 m ?z :: pb_size_t"
  let ?encode = "\<lambda>s m. obind (pb_encode_tag_for_field env s f m) (\<lambda>_ (s', m'). ?func s' f ?data m')"
  have lt: "\<not> PB_LTYPES_COUNT \<le> ltype_of f" using wf(1) wf_field_iff [of f] by (simp add: not_le)
  have ptr: "\<exists>fs. f_ptr f = Ptr_fields fs" if "ltype_of f = PB_LTYPE_SUBMESSAGE"
    using that wf(1) wf_submessage by blast
  have soff: "f_size_offset f \<noteq> 0" if "htype_of f = PB_HTYPE_REPEATED \<or> htype_of f = PB_HTYPE_ONEOF"
    using that wf(1) wf_field_iff [of f] by blast
  note unfold = encode_basic_field_def Let_def basic_field_size_ptr_value [OF wf] lt
  have at: "atype_of f \<noteq> PB_ATYPE_POINTER \<Longrightarrow> atype_of f = PB_ATYPE_STATIC"
    using rs kind by (auto simp: field_records_def Let_def split: if_splits)
  have one: "appends (\<lambda>s _. ?encode s m) m (serialize rs)"
    if "map_option (\<lambda>v. [(f_tag f, v)]) (item_value sub m f ?data) = Some rs"
  proof -
    from that obtain v where v: "item_value sub m f ?data = Some v" "rs = [(f_tag f, v)]" by auto
    have "appends ?encode m (ser_record (f_tag f, v))"
      by (rule appends_tagged [where g = "\<lambda>_. ?data", OF v(1)]) (use len sub ptr v in auto)
    then have "appends ?encode m (serialize rs)" by (simp only: v(2) serialize_simps append_Nil2)
    then show ?thesis by (rule appends_at) (rule refl)
  qed
  from PB_HTYPE_cases [of "f_type f"] show ?thesis
  proof (elim disjE)
    assume ht: "htype_of f = PB_HTYPE_REQUIRED"
    with rs kind at have "?data \<noteq> 0" "map_option (\<lambda>v. [(f_tag f, v)]) (item_value sub m f ?data) = Some rs"
      by (auto simp: field_records_def Let_def split: if_splits)
    from one [OF this(2)] show ?thesis
      by (rule appends_at) (use ht \<open>?data \<noteq> 0\<close> in \<open>simp add: unfold\<close>)
  next
    assume ht: "htype_of f = PB_HTYPE_OPTIONAL"
    define pr where "pr = (if f_size_offset f \<noteq> 0 then m ?z \<noteq> 0
      else if atype_of f = PB_ATYPE_POINTER then ?data \<noteq> 0 else \<not> default_value m f d)"
    have r: "(if pr then map_option (\<lambda>v. [(f_tag f, v)]) (item_value sub m f ?data) else Some []) = Some rs"
      using rs kind at ht by (auto simp: field_records_def Let_def pr_def split: if_splits)
    have e: "encode_basic_field n enc env s f d m = (if pr then ?encode s m else Ok () (s, m))" for s
      using ht by (simp add: unfold pr_def)
    show ?thesis
    proof (cases pr)
      case True
      then have "map_option (\<lambda>v. [(f_tag f, v)]) (item_value sub m f ?data) = Some rs" using r by simp
      from one [OF this] show ?thesis by (rule appends_at) (simp add: e True)
    next
      case False
      with r show ?thesis by (auto intro!: appends_at [OF appends_Nil] simp: e)
    qed
  next
    assume ht: "htype_of f = PB_HTYPE_ONEOF"
    have r: "(if ?count = f_tag f then map_option (\<lambda>v. [(f_tag f, v)]) (item_value sub m f ?data) else Some []) = Some rs"
      using rs kind at ht by (auto simp: field_records_def Let_def split: if_splits)
    have e: "encode_basic_field n enc env s f d m = (if ?count = f_tag f then ?encode s m else Ok () (s, m))" for s
      using ht soff by (simp add: unfold)
    show ?thesis
    proof (cases "?count = f_tag f")
      case True
      then have "map_option (\<lambda>v. [(f_tag f, v)]) (item_value sub m f ?data) = Some rs" using r by simp
      from one [OF this] show ?thesis by (rule appends_at) (simp add: e True)
    next
      case False
      with r show ?thesis by (auto intro!: appends_at [OF appends_Nil] simp: e)
    qed
  next
    assume ht: "htype_of f = PB_HTYPE_REPEATED"
    let ?arr = "\<lambda>s m'. encode_array env s f ?data (ucast ?count) ?func m'"
    have e: "encode_basic_field n enc env s f d m = ?arr s m" for s
      using ht soff by (simp add: unfold)
    have u: "unat (ucast ?count :: size_t) = unat ?count" by (rule unat_ucast_up) simp
    then have u0: "(ucast ?count :: size_t) = 0 \<longleftrightarrow> ?count = 0" by (simp add: word_unat_eq_iff)
    let ?addrs = "item_addrs ?data (uint (f_data_size f)) (unat ?count)"
    have "appends ?arr m (serialize rs)"
    proof (cases "?count = 0")
      case True
      then have "rs = []" using rs kind at ht by (auto simp: field_records_def Let_def split: if_splits)
      then show ?thesis using True by (auto intro: appends_at [OF appends_Nil] simp: encode_array_def)
    next
      case False
      then have fit: "atype_of f = PB_ATYPE_POINTER \<or> ?count \<le> f_array_size f"
        using rs kind at ht by (auto simp: field_records_def Let_def not_le split: if_splits)
      then have fit': "atype_of f = PB_ATYPE_POINTER \<or> (ucast ?count :: size_t) \<le> ucast (f_array_size f)"
        by (auto simp: word_le_nat_alt unat_ucast_up)
      show ?thesis
      proof (cases "ltype_of f \<le> PB_LTYPE_LAST_PACKABLE")
        case pk: True
        then obtain vs where vs: "those (map (item_value sub m f) ?addrs) = Some vs"
          "rs = [(f_tag f, W_len (concat (map ser_value vs)))]"
          using rs kind at ht False fit by (auto simp: field_records_def Let_def split: if_splits)
        show ?thesis
          using appends_packed_array [of "ucast ?count" f sub m ?data vs enc] vs len fit' u u0 False pk by simp
      next
        case npk: False
        define addr where "addr = (\<lambda>m a. if atype_of f = PB_ATYPE_POINTER \<and>
          (ltype_of f = PB_LTYPE_STRING \<or> ltype_of f = PB_LTYPE_BYTES) then load_ptr m a else a)"
        obtain vs where vs: "those (map (\<lambda>a. item_value sub m f (addr m a)) ?addrs) = Some vs"
          "rs = map (\<lambda>v. (f_tag f, v)) vs"
          using rs kind at ht False fit npk by (auto simp: field_records_def Let_def addr_def split: if_splits)
        have "ucast ?count \<noteq> (0 :: size_t)" using u0 False by simp
        from appends_unpacked_array [OF this fit' npk addr_def, of sub m ?data vs enc] vs len u sub ptr
        show ?thesis by simp
      qed
    qed
    then show ?thesis by (rule appends_at) (rule e)
  qed
qed

lemma appends_field:
  assumes rs: "field_records sub m f d = Some rs" and wf: "wf_field f" "depth_field f < n"
    and len: "length (serialize rs) < 2 ^ 63"
    and sub: "\<And>fs a rs. ltype_of f = PB_LTYPE_SUBMESSAGE \<Longrightarrow> f_ptr f = Ptr_fields fs \<Longrightarrow> sub a = Some rs \<Longrightarrow>
      length (serialize rs) < 2 ^ 63 \<Longrightarrow> appends (\<lambda>s m. enc fs a s m) m (serialize rs)"
  shows "appends (\<lambda>s m. if ltype_of f = PB_LTYPE_EXTENSION then encode_extension_field n enc env s d m
    else encode_field n enc env s f d m) m (serialize rs)"
proof (cases "ltype_of f = PB_LTYPE_EXTENSION \<or> atype_of f = PB_ATYPE_CALLBACK")
  case True
  with rs have z: "load_ptr m d = 0" "rs = []" by (auto simp: field_records_def split: if_splits)
  obtain k where k: "n = Suc k" using wf(2) by (cases n) auto
  show ?thesis unfolding z(2) serialize_simps
  proof (rule appends_at [OF appends_Nil])
    fix s show "(if ltype_of f = PB_LTYPE_EXTENSION then encode_extension_field n enc env s d m
      else encode_field n enc env s f d m) = Ok () (s, m)"
      using True z(1) by (auto simp: encode_extension_field_def encode_field_def encode_callback_field_def k)
  qed
next
  case False
  then have at: "atype_of f = PB_ATYPE_STATIC \<or> atype_of f = PB_ATYPE_POINTER"
    using rs by (auto simp: field_records_def Let_def split: if_splits)
  have "appends (\<lambda>s m. encode_basic_field n enc env s f d m) m (serialize rs)"
    using False by (intro appends_basic_field [OF rs wf _ _ len sub]) auto
  then show ?thesis by (rule appends_at) (use False at in \<open>auto simp: encode_field_def\<close>)
qed

lemma appends_fold_placed:
  assumes "\<And>f d z rs. (f, d, z) \<in> set ps \<Longrightarrow> r (f, d, z) = Some rs \<Longrightarrow> length (serialize rs) < 2 ^ 63 \<Longrightarrow>
      appends (\<lambda>s m. g f d z (s, m)) m (serialize rs)"
    and "those (map r ps) = Some rss" "length (serialize (concat rss)) < 2 ^ 63"
  shows "appends (\<lambda>s m. fold_placed g ps (s, m)) m (serialize (concat rss))"
  using assms
proof (induction ps arbitrary: rss)
  case Nil
  then show ?case by (simp add: appends_Nil)
next
  case (Cons p ps)
  obtain f d z where p: "p = (f, d, z)" by (cases p)
  from Cons.prems(2) p obtain rs qss where rs: "r (f, d, z) = Some rs" "those (map r ps) = Some qss" "rss = rs # qss"
    by (auto split: option.splits)
  have "appends (\<lambda>s m. g f d z (s, m)) m (serialize rs)"
    by (rule Cons.prems(1)) (use rs Cons.prems(3) p in auto)
  moreover have "appends (\<lambda>s m. fold_placed g ps (s, m)) m (serialize (concat qss))"
    by (rule Cons.IH) (use rs Cons.prems in auto)
  ultimately have "appends (\<lambda>s m. obind (g f d z (s, m)) (\<lambda>_ (s', m'). fold_placed g ps (s', m'))) m
      (serialize rs @ serialize (concat qss))"
    by (rule appends_seq)
  then show ?case by (simp add: p rs(3) case_prod_unfold)
qed

text \<open>
  The refinement: with fuel above the nesting depth, \<^verbatim>\<open>pb_encode\<close> writes the serialised
  records of the message.
\<close>

lemma appends_message:
  "message_records m fs p = Some rs \<Longrightarrow> wf_fields fs \<Longrightarrow> depth_fields fs + 2 \<le> n \<Longrightarrow>
    length (serialize rs) < 2 ^ 63 \<Longrightarrow> appends (\<lambda>s m. pb_encode n env fs p s m) m (serialize rs)"
proof (induction n arbitrary: fs p rs)
  case (Suc n)
  define r where "r = (\<lambda>(f, d, z :: addr). field_records
    (\<lambda>a. case f_ptr f of Ptr_fields fs' \<Rightarrow> message_records m fs' a | _ \<Rightarrow> None) m f d)"
  obtain rss where rss: "those (map r (positions fs p)) = Some rss" "rs = concat rss"
    using Suc.prems(1) unfolding message_records.simps [of m fs p] r_def by auto
  have "appends (\<lambda>s m. fold_placed (encode_placed n env) (positions fs p) (s, m)) m (serialize (concat rss))"
  proof (rule appends_fold_placed [OF _ rss(1)])
    show "length (serialize (concat rss)) < 2 ^ 63" using Suc.prems(4) rss(2) by simp
    fix f d z qs assume fdz: "(f, d, z) \<in> set (positions fs p)" and qs: "r (f, d, z) = Some qs"
      and len: "length (serialize qs) < 2 ^ 63"
    have f: "f \<in> set fs" using fdz by (rule positions_subset)
    then have wf: "wf_field f" "depth_field f < n"
      using Suc.prems(2,3) depth_field_in [OF f] by (auto intro: wf_fields_in)
    have "appends (\<lambda>s m. pb_encode n env fs' a s m) m (serialize rs')"
      if "ltype_of f = PB_LTYPE_SUBMESSAGE" "f_ptr f = Ptr_fields fs'"
        "(case f_ptr f of Ptr_fields fs' \<Rightarrow> message_records m fs' a | _ \<Rightarrow> None) = Some rs'"
        "length (serialize rs') < 2 ^ 63" for fs' a rs'
    proof (rule Suc.IH)
      show "message_records m fs' a = Some rs'" using that by simp
      show "wf_fields fs'" using wf(1) that wf_submessage by fastforce
      show "depth_fields fs' + 2 \<le> n"
        using depth_sub_fields [OF that(2)] depth_field_in [OF f] Suc.prems(3) by simp
    qed (rule that(4))
    from appends_field [OF qs [unfolded r_def prod.case] wf len, of "pb_encode n env", OF this]
    show "appends (\<lambda>s m. encode_placed n env f d z (s, m)) m (serialize qs)"
      by (simp add: encode_placed_def)
  qed
  then show ?case unfolding rss(2)
    by (rule appends_at) (rule pb_encode_placed [OF wf_fields_no_terminator [OF Suc.prems(2)]])
qed simp

text \<open>Data the encoder refuses, whatever the stream.\<close>

definition rejects :: "(pb_ostream_t \<Rightarrow> mem \<Rightarrow> unit ostep) \<Rightarrow> mem \<Rightarrow> bool" where
  "rejects E m \<longleftrightarrow> (\<forall>s. ok s \<longrightarrow> (\<exists>s'. E s m = Fail (s', m)))"

lemma rejects_at: "rejects F m \<Longrightarrow> (\<And>s. E s m = F s m) \<Longrightarrow> rejects E m"
  by (simp add: rejects_def)

lemma rejects_error: "rejects (\<lambda>s m. PB_RETURN_ERROR_o s e m) m"
  by (simp add: rejects_def PB_RETURN_ERROR_o_def)

lemma rejects_seq:
  assumes "appends E m bs" "rejects F m"
  shows "rejects (\<lambda>s m. obind (E s m) (\<lambda>_ (s', m'). F s' m')) m"
  unfolding rejects_def
proof (intro allI impI)
  fix s assume s: "ok s"
  show "\<exists>s'. obind (E s m) (\<lambda>_ (s', m'). F s' m') = Fail (s', m)"
  proof (cases "fits s (length bs)")
    case True
    then show ?thesis using assms s app_ok [OF s True] by (auto simp: appends_def rejects_def)
  next
    case False
    then have "\<exists>s'. E s m = Fail (s', m)" using assms(1) s unfolding appends_def by metis
    then show ?thesis by auto
  qed
qed

lemma rejects_obind: "rejects E m \<Longrightarrow> rejects (\<lambda>s m. obind (E s m) (G s)) m"
  by (fastforce simp: rejects_def)

lemma rejects_present:
  assumes "field_present m f d" and wf: "wf_field f" "depth_field f < n"
    and at: "atype_of f = PB_ATYPE_STATIC \<or> atype_of f = PB_ATYPE_POINTER"
    and lt: "ltype_of f = PB_LTYPE_BYTES \<or> ltype_of f = PB_LTYPE_SUBMESSAGE"
    and bad: "rejects (\<lambda>s m. PB_ENCODERS enc env (ltype_of f) s f (field_data m f d) m) m"
  shows "rejects (\<lambda>s m. encode_field n enc env s f d m) m"
proof -
  have count: "\<not> PB_LTYPES_COUNT \<le> ltype_of f" using wf(1) wf_field_iff [of f] by (simp add: not_le)
  have soff: "f_size_offset f \<noteq> 0" if "htype_of f = PB_HTYPE_ONEOF"
    using that wf(1) wf_field_iff [of f] by blast
  note unfold = encode_field_def encode_basic_field_def Let_def basic_field_size_ptr_value [OF wf] count
    field_data_def
  have tag: "appends (\<lambda>s m. pb_encode_tag_for_field env s f m) m (ser_tag (f_tag f, W_len []))"
    using appends_at [OF appends_tag [of PB_WT_STRING "f_tag f" m]] lt
    by (auto simp: pb_encode_tag_for_field_def ser_tag_def)
  have bad': "rejects (\<lambda>s m'. PB_ENCODERS enc env (ltype_of f) s f (field_data m f d) m') m"
    using bad by (simp add: rejects_def)
  have enc: "encode_field n enc env s f d m = obind (pb_encode_tag_for_field env s f m)
      (\<lambda>_ (s', m'). PB_ENCODERS enc env (ltype_of f) s' f (field_data m f d) m')" for s
    using assms(1) at unfolding field_present_def
  proof (elim disjE conjE)
    assume h: "htype_of f = PB_HTYPE_ONEOF" "load_word 4 m (d + sint (f_size_offset f)) = f_tag f"
      and a: "atype_of f = PB_ATYPE_STATIC"
    show ?thesis using h soff a by (simp add: unfold)
  next
    assume h: "htype_of f = PB_HTYPE_ONEOF" "load_word 4 m (d + sint (f_size_offset f)) = f_tag f"
      and a: "atype_of f = PB_ATYPE_POINTER"
    show ?thesis using h soff a by (simp add: unfold)
  qed (simp_all add: unfold split: if_splits)
  from rejects_seq [OF tag bad'] show ?thesis by (rule rejects_at) (rule enc)
qed

lemma rejects_bad_field:
  assumes bad: "bad_field m f d" and wf: "wf_field f" "depth_field f < n"
  shows "rejects (\<lambda>s m. encode_field n enc env s f d m) m"
proof -
  have lt: "\<not> PB_LTYPES_COUNT \<le> ltype_of f" using wf(1) wf_field_iff [of f] by (simp add: not_le)
  have soff: "f_size_offset f \<noteq> 0" if "htype_of f = PB_HTYPE_REPEATED"
    using that wf(1) wf_field_iff [of f] by blast
  note unfold = encode_field_def encode_basic_field_def Let_def basic_field_size_ptr_value [OF wf] lt
  from bad [unfolded bad_field_def] show ?thesis
  proof (elim disjE conjE)
    let ?count = "load_word 4 m (d + sint (f_size_offset f)) :: pb_size_t"
    assume a: "atype_of f = PB_ATYPE_STATIC" "htype_of f = PB_HTYPE_REPEATED" "f_array_size f < ?count"
    have c: "(ucast ?count :: size_t) \<noteq> 0" "ucast (f_array_size f) < (ucast ?count :: size_t)"
      using a(3) by (auto simp: word_less_nat_alt unat_ucast_up word_unat_eq_iff)
    show ?thesis
      by (rule rejects_at [OF rejects_error [of "''array max size exceeded''"]])
         (use a c soff in \<open>simp add: unfold encode_array_def\<close>)
  next
    assume "atype_of f = PB_ATYPE_POINTER" "htype_of f = PB_HTYPE_REQUIRED" "load_ptr m d = 0"
    then show ?thesis
      by (intro rejects_at [OF rejects_error [of "''missing required field''"]]) (simp add: unfold)
  next
    assume a: "atype_of f = PB_ATYPE_STATIC" "ltype_of f = PB_LTYPE_BYTES" "field_present m f d"
      "d \<noteq> 0" "unat (f_data_size f) < unat (load_word 4 m d :: pb_size_t) + 4"
    have "rejects (\<lambda>s m. PB_ENCODERS enc env (ltype_of f) s f (field_data m f d) m) m"
      by (rule rejects_at [OF rejects_error [of "''bytes size exceeded''"]])
         (use a in \<open>simp add: PB_ENCODERS_simps pb_enc_bytes_def Let_def alloc_size_fits field_data_def\<close>)
    from rejects_present [OF a(3) wf _ _ this] a(1,2) show ?thesis by simp
  qed
qed

lemma rejects_submessage:
  "rejects (\<lambda>s m. enc fs a s m) m \<Longrightarrow> rejects (\<lambda>s m. pb_encode_submessage enc env fs a s m) m"
  using sizing_ok by (fastforce simp: rejects_def pb_encode_submessage_def)

lemma rejects_from:
  assumes i: "i < length fs" "positions fs p ! i = (f, d, z)"
    and pre: "message_records m (take i fs) p = Some rs" "length (serialize rs) < 2 ^ 63"
    and bad: "\<And>k. wf_field f \<Longrightarrow> depth_field f < k \<Longrightarrow> rejects (\<lambda>s m. encode_field k (pb_encode k env) env s f d m) m"
      "ltype_of f \<noteq> PB_LTYPE_EXTENSION"
    and wf: "wf_fields fs" "depth_fields fs + 2 \<le> n"
  shows "rejects (\<lambda>s m. pb_encode n env fs p s m) m"
proof -
  obtain k where n: "n = Suc k" using wf(2) by (cases n) auto
  let ?g = "encode_placed k env"
  have f: "f \<in> set fs" using i by (metis fst_conv map_fst_positions nth_map nth_mem length_positions)
  have split: "positions fs p = positions (take i fs) p @ (f, d, z) # drop (Suc i) (positions fs p)"
    using i by (simp add: positions_take id_take_nth_drop flip: i(2))
  have dt: "depth_fields (take i fs) \<le> depth_fields fs" by (rule depth_fields_mono) (rule set_take_subset)
  have "wf_fields (take i fs)" using wf(1) by (auto simp: wf_fields_def dest: in_set_takeD)
  then have "appends (\<lambda>s m. pb_encode n env (take i fs) p s m) m (serialize rs)"
    using appends_message [OF pre(1) _ _ pre(2)] dt wf(2) by simp
  then have pre': "appends (\<lambda>s m. fold_placed ?g (positions (take i fs) p) (s, m)) m (serialize rs)"
    by (rule appends_at)
       (simp add: n pb_encode_placed wf_fields_no_terminator \<open>wf_fields (take i fs)\<close> del: pb_encode.simps)
  have "depth_field f < k" using depth_field_in [OF f] wf(2) n by simp
  then have "rejects (\<lambda>s m. encode_field k (pb_encode k env) env s f d m) m"
    using wf_fields_in [OF wf(1) f] by (intro bad(1)) auto
  then have "rejects (\<lambda>s m. ?g f d z (s, m)) m"
    by (rule rejects_at) (simp add: encode_placed_def bad(2))
  then have "rejects (\<lambda>s m. obind (?g f d z (s, m))
      (\<lambda>_ st. fold_placed ?g (drop (Suc i) (positions fs p)) st)) m"
    by (rule rejects_obind [where G = "\<lambda>_ _ st. fold_placed ?g (drop (Suc i) (positions fs p)) st"])
  from rejects_seq [OF pre' this] show ?thesis
  proof (rule rejects_at)
    fix s
    show "pb_encode n env fs p s m = obind (fold_placed ?g (positions (take i fs) p) (s, m))
        (\<lambda>_ (s', m'). obind (?g f d z (s', m')) (\<lambda>_ st. fold_placed ?g (drop (Suc i) (positions fs p)) st))"
      unfolding n pb_encode_placed [OF wf_fields_no_terminator [OF wf(1)]]
      by (subst split) (simp add: fold_placed_append case_prod_unfold)
  qed
qed

lemma rejects_message:
  "bad_message m fs p \<Longrightarrow> wf_fields fs \<Longrightarrow> depth_fields fs + 2 \<le> n \<Longrightarrow> rejects (\<lambda>s m. pb_encode n env fs p s m) m"
proof (induction arbitrary: n rule: bad_message.induct)
  case (bad_here i fs p f d z rs)
  then show ?case by (intro rejects_from [OF bad_here.hyps(1-4)] rejects_bad_field) auto
next
  case (bad_inside i fs p f d z rs gs)
  show ?case
  proof (rule rejects_from [OF bad_inside.hyps(1-4) _ _ bad_inside.prems])
    fix k assume wf: "wf_field f" "depth_field f < k"
    have "wf_fields gs" using wf(1) bad_inside.hyps(5,7) wf_submessage by fastforce
    moreover have "depth_fields gs + 2 \<le> k" using depth_sub_fields [OF bad_inside.hyps(7)] wf(2) by simp
    ultimately have "rejects (\<lambda>s m'. pb_encode k env gs (field_data m f d) s m') m"
      by (rule bad_inside.IH)
    from rejects_submessage [where enc = "pb_encode k env" and fs = gs, OF this]
    have "rejects (\<lambda>s m. PB_ENCODERS (pb_encode k env) env (ltype_of f) s f (field_data m f d) m) m"
      by (simp add: rejects_def bad_inside.hyps(5,7) PB_ENCODERS_simps pb_enc_submessage_def)
    then show "rejects (\<lambda>s m. encode_field k (pb_encode k env) env s f d m) m"
      by (rule rejects_present [OF bad_inside.hyps(8) wf, rotated 2]) (use bad_inside.hyps(5,6) in auto)
  qed (use bad_inside.hyps(5) in \<open>simp add: pb_ltypes\<close>)
qed

end

end
