(* ===== verification/Pb_Sample.thy ===== *)
theory Pb_Sample
  imports Pb_Fields
begin

text \<open>
  A message type with a required integer, a packed array, an optional string and a
  submessage, and an instance of it in memory: the concrete input of the witnesses.

    message Sub    \<open>{ required int32 id = 1; }\<close>
    message Sample \<open>{ required int32 key = 1; repeated int32 xs = 2 [max_count = 3];
                     optional string name = 3 [max_size = 8]; required Sub sub = 5; }\<close>
\<close>

definition sub_fields :: "pb_field_t list" where
  "sub_fields = [PB_field_t 1 0x00 0 0 4 0 Ptr_null]"

definition sample_fields :: "pb_field_t list" where
  "sample_fields =
     [PB_field_t 1 0x00 0 0 4 0 Ptr_null,
      PB_field_t 2 0x20 4 (- 4) 4 3 Ptr_null,
      PB_field_t 3 0x16 4 (- 4) 8 0 Ptr_null,
      PB_field_t 5 0x07 0 0 4 0 (Ptr_fields sub_fields)]"

text \<open>\<open>key = 1\<close>, \<open>xs = [150, 3]\<close>, \<open>name = "AB"\<close>, \<open>sub.id = 7\<close>, at address 1000.\<close>

definition sample_bytes :: "byte list" where
  "sample_bytes =
     [1, 0, 0, 0,  2, 0, 0, 0,  150, 0, 0, 0,  3, 0, 0, 0,  0, 0, 0, 0,
      1, 0, 0, 0,  65, 66, 0, 0, 0, 0, 0, 0,  7, 0, 0, 0]"

definition sample_mem :: mem where "sample_mem = store_bytes zero_mem 1000 sample_bytes"

definition sample_wire :: "byte list" where
  "sample_wire =
     [8, 1,  18, 3, 150, 1, 3,  26, 2, 65, 66,  42, 2, 8, 7]"

lemma wf_sample_fields: "wf_fields sample_fields"
  by (simp add: wf_fields_def sample_fields_def sub_fields_def PB_LTYPE_def PB_HTYPE_def pb_ltypes pb_htypes)

lemma depth_sample_fields: "depth_fields sample_fields = 1"
  by (simp add: depth_fields_def sample_fields_def sub_fields_def)

end
