(* ===== verification/Pb_Encode_Theorems.thy ===== *)
theory Pb_Encode_Theorems
  imports Pb_Encode_Props Pb_Sample
begin

text \<open>
  The properties of the encoder on the library's streams, from the interpretation \<open>out\<close>
  of \<open>byte_sink\<close>.
\<close>

section \<open>The sample message\<close>

definition sample_records :: "record_t list" where
  "sample_records =
     [(1, W_varint 1), (2, W_len [150, 1, 3]), (3, W_len [65, 66]), (5, W_len [8, 7])]"

lemma message_records_sample: "message_records sample_mem sample_fields 1000 = Some sample_records"
  by code_simp

lemma serialize_sample: "serialize sample_records = sample_wire"
  by code_simp

lemma length_sample: "length sample_wire = 15"
  by (simp add: sample_wire_def)

section \<open>Messages\<close>

text \<open>C8: \<^verbatim>\<open>pb_encode\<close> to a buffer. If the message stands for the records \<open>rs\<close>, then with
  enough room the buffer receives exactly the serialised records, nothing in memory
  changes, and the call terminates with fuel two above the nesting depth; with less room
  the call fails and memory is unchanged as well.\<close>

theorem encode_writes_records:
  assumes "message_records m fs p = Some rs" "wf_fields fs" "depth_fields fs + 2 \<le> n"
    and "length (serialize rs) < 2 ^ 63" "cap < 2 ^ 63"
  shows "if length (serialize rs) \<le> cap
    then pb_encode n env fs p (pb_ostream_from_buffer cap (of_nat cap)) m
       = Ok () (buffer_with cap (serialize rs), m)
    else \<exists>s. pb_encode n env fs p (pb_ostream_from_buffer cap (of_nat cap)) m = Fail (s, m)"
  using appends_to_buffer [OF out.appends_message [OF assms(1-4)] assms(5)] by simp

lemma encode_writes_records_witness:
  "pb_encode 3 bare_env sample_fields 1000 (pb_ostream_from_buffer 64 64) sample_mem
     = Ok () (buffer_with 64 sample_wire, sample_mem) \<and>
   (\<exists>s. pb_encode 3 bare_env sample_fields 1000 (pb_ostream_from_buffer 14 14) sample_mem
     = Fail (s, sample_mem))"
  using encode_writes_records [OF message_records_sample wf_sample_fields, of 3 64 bare_env]
    encode_writes_records [OF message_records_sample wf_sample_fields, of 3 14 bare_env]
  by (simp add: depth_sample_fields length_sample serialize_sample)

text \<open>C22: \<^verbatim>\<open>pb_get_encoded_size\<close> returns the number of bytes \<^verbatim>\<open>pb_encode\<close> writes, and a buffer
  of just that size is enough for the message.\<close>

theorem encoded_size_suffices:
  assumes "message_records m fs p = Some rs" "wf_fields fs" "depth_fields fs + 2 \<le> n"
    and "length (serialize rs) < 2 ^ 63"
  shows "\<exists>sz. pb_get_encoded_size n env fs p m = Ok sz m \<and> unat sz = length (serialize rs) \<and>
    pb_encode n env fs p (pb_ostream_from_buffer (unat sz) sz) m
      = Ok () (buffer_with (unat sz) (serialize rs), m)"
proof -
  let ?sz = "of_nat (length (serialize rs)) :: size_t"
  note app = out.appends_message [OF assms, of env]
  have u: "unat ?sz = length (serialize rs)" using assms(4) by (simp add: unat_of_nat)
  have "pb_get_encoded_size n env fs p m = Ok ?sz m"
    using appends_sizing [OF app] by (simp add: pb_get_encoded_size_def out.sizing_count)
  moreover have "pb_encode n env fs p (pb_ostream_from_buffer (unat ?sz) ?sz) m
      = Ok () (buffer_with (unat ?sz) (serialize rs), m)"
    using appends_to_buffer(1) [OF app assms(4)] by (simp add: u)
  ultimately show ?thesis using u by blast
qed

lemma encoded_size_suffices_witness:
  "\<exists>sz. pb_get_encoded_size 3 bare_env sample_fields 1000 sample_mem = Ok sz sample_mem \<and> unat sz = 15 \<and>
    pb_encode 3 bare_env sample_fields 1000 (pb_ostream_from_buffer (unat sz) sz) sample_mem
      = Ok () (buffer_with (unat sz) sample_wire, sample_mem)"
  using encoded_size_suffices [OF message_records_sample wf_sample_fields, of 3 bare_env]
  by (simp add: depth_sample_fields length_sample serialize_sample)

text \<open>C25: \<^verbatim>\<open>pb_encode_delimited\<close> writes the length of the message as a varint and then the
  same bytes as \<^verbatim>\<open>pb_encode\<close>.\<close>

theorem encode_delimited_prefixes_length:
  assumes "message_records m fs p = Some rs" "wf_fields fs" "depth_fields fs + 2 \<le> n"
    and "length (serialize rs) < 2 ^ 63" "length (leb128 (length (serialize rs)) @ serialize rs) \<le> cap" "cap < 2 ^ 63"
  shows "pb_encode_delimited n env fs p (pb_ostream_from_buffer cap (of_nat cap)) m
    = Ok () (buffer_with cap (leb128 (length (serialize rs)) @ serialize rs), m)"
proof -
  have "out.appends (\<lambda>s m. pb_encode_submessage (pb_encode n env) env fs p s m) m
      (leb128 (length (serialize rs)) @ serialize rs)"
    by (rule out.appends_submessage [where enc = "pb_encode n env", OF out.appends_message [OF assms(1-4)] assms(4)])
  from appends_to_buffer(1) [OF this assms(6,5)] show ?thesis
    by (simp add: pb_encode_delimited_def)
qed

lemma encode_delimited_prefixes_length_witness:
  "pb_encode_delimited 3 bare_env sample_fields 1000 (pb_ostream_from_buffer 64 64) sample_mem
     = Ok () (buffer_with 64 (15 # sample_wire), sample_mem)"
  using encode_delimited_prefixes_length [OF message_records_sample wf_sample_fields, of 3 64 bare_env]
  by (simp add: depth_sample_fields length_sample serialize_sample leb128_small)

section \<open>Refused data\<close>

text \<open>C24: data without an encoding is refused on every library stream, and memory is left
  alone. The data: a field whose static array has a count beyond its capacity, a required
  pointer that is NULL, or a static bytes field (required with an address that is not NULL,
  optional and present, or the selected member of a oneof) longer than its allocation; the
  field is in the message or, at any depth, in a submessage that is present and no array.
  The fields before it in its table, and before each submessage on the way, stand for records
  (so their data is encodable, and callbacks and extension lists among them are NULL) of
  less than \<open>2^63\<close> bytes; the fields after it are arbitrary.\<close>

theorem encode_refuses_bad_field:
  assumes "out_ok s" "wf_fields fs" "depth_fields fs + 2 \<le> n" "bad_message m fs p"
  shows "\<exists>s'. pb_encode n env fs p s m = Fail (s', m)"
  using out.rejects_message [OF assms(4,2,3)] assms(1) by (auto simp: out.rejects_def)

text \<open>
  The sample message with a count of four in its array of three, on its own and inside a message
  of one required submessage.
\<close>

definition overfull_mem :: mem where "overfull_mem = sample_mem(1004 := 4)"

definition wrap_fields :: "pb_field_t list" where
  "wrap_fields = [PB_field_t 1 0x07 0 0 36 0 (Ptr_fields sample_fields)]"

lemma overfull_sample: "bad_message overfull_mem sample_fields 1000"
proof (rule bad_here)
  show "1 < length sample_fields" by (simp add: sample_fields_def)
  show "positions sample_fields 1000 ! 1 = (sample_fields ! 1, 1008, 1004)" by code_simp
  show "bad_field overfull_mem (sample_fields ! 1) 1008" by code_simp
  show "ltype_of (sample_fields ! 1) \<noteq> PB_LTYPE_EXTENSION" by code_simp
  show "message_records overfull_mem (take 1 sample_fields) 1000 = Some [(1, W_varint 1)]" by code_simp
  show "length (serialize [(1, W_varint 1)]) < 2 ^ 63"
    by (simp add: ser_record_def ser_tag_def tag_word_def leb128_small pb_wiretypes)
qed

lemma overfull_wrap: "bad_message overfull_mem wrap_fields 1000"
proof (rule bad_inside)
  show "positions wrap_fields 1000 ! 0 = (wrap_fields ! 0, 1000, 1000)" by code_simp
  show "message_records overfull_mem (take 0 wrap_fields) 1000 = Some []" by code_simp
  show "field_present overfull_mem (wrap_fields ! 0) 1000" by code_simp
  have "field_data overfull_mem (wrap_fields ! 0) 1000 = 1000" by code_simp
  then show "bad_message overfull_mem sample_fields (field_data overfull_mem (wrap_fields ! 0) 1000)"
    using overfull_sample by simp
qed (simp_all add: wrap_fields_def PB_LTYPE_def PB_ATYPE_def pb_ltypes pb_atypes)

lemma encode_refuses_bad_field_witness:
  "(\<exists>s'. pb_encode 3 bare_env sample_fields 1000 PB_OSTREAM_SIZING overfull_mem = Fail (s', overfull_mem)) \<and>
   (\<exists>s'. pb_encode 4 bare_env wrap_fields 1000 PB_OSTREAM_SIZING overfull_mem = Fail (s', overfull_mem))"
proof -
  have "wf_fields wrap_fields" "depth_fields wrap_fields = 2"
    using wf_sample_fields depth_sample_fields
    by (simp_all add: wf_fields_def wrap_fields_def depth_fields_def PB_LTYPE_def PB_HTYPE_def
        pb_ltypes pb_htypes list_all_iff)
  then show ?thesis
    using encode_refuses_bad_field [OF out.sizing_ok wf_sample_fields, of 3 overfull_mem 1000 bare_env]
      encode_refuses_bad_field [OF out.sizing_ok, of wrap_fields 4 overfull_mem 1000 bare_env]
      overfull_sample overfull_wrap depth_sample_fields by auto
qed

section \<open>Implicit presence\<close>

text \<open>
  A proto3 message whose only field is a submessage with a repeated field:
    message Inner  \<open>{ repeated int32 xs = 1 [max_count = 4]; }\<close>
    message Outer  \<open>{ Inner inner = 1; }\<close>
\<close>

definition inner_fields :: "pb_field_t list" where
  "inner_fields = [PB_field_t 1 0x20 4 (- 4) 4 4 Ptr_null]"

definition outer_fields :: "pb_field_t list" where
  "outer_fields = [PB_field_t 1 0x17 0 0 20 0 (Ptr_fields inner_fields)]"

lemma wf_outer_fields: "wf_fields outer_fields" "depth_fields outer_fields = 1"
  by (simp_all add: wf_fields_def outer_fields_def inner_fields_def depth_fields_def
      PB_LTYPE_def PB_HTYPE_def pb_ltypes pb_htypes)

lemma outer_records:
  assumes "load_bytes m (p + 4) 4 = [0, 0, 0, 0]"
  shows "message_records m outer_fields p = Some []"
proof -
  have "default_value m (PB_field_t 1 0x20 4 (- 4) 4 4 Ptr_null) (p + 4)"
    using assms by (simp add: default_value.simps PB_ATYPE_def PB_LTYPE_def pb_atypes pb_ltypes)
  then have "default_value m (PB_field_t 1 0x17 0 0 20 0 (Ptr_fields inner_fields)) p"
    by (subst default_value.simps)
       (simp add: inner_fields_def place_first_def Let_def PB_ATYPE_def PB_LTYPE_def pb_atypes pb_ltypes)
  then show ?thesis
    unfolding outer_fields_def
    by (subst message_records.simps) (simp add: place_first_def Let_def
        field_records_def PB_ATYPE_def PB_LTYPE_def PB_HTYPE_def pb_atypes pb_ltypes pb_htypes)
qed

text \<open>C27: the proto3 presence check looks at the first item of a repeated field in place of
  its count, so a submessage whose array starts with 0 is taken for an absent one: whatever
  the count and the other items are, the outer message is encoded as no bytes at all.\<close>

theorem proto3_submessage_dropped:
  assumes "load_bytes m (p + 4) 4 = [0, 0, 0, 0]" "cap < 2 ^ 63"
  shows "pb_encode 3 env outer_fields p (pb_ostream_from_buffer cap (of_nat cap)) m
    = Ok () (buffer_with cap [], m)"
  using appends_to_buffer(1) [OF out.appends_message [OF outer_records [OF assms(1)]] assms(2)]
  by (simp add: wf_outer_fields)

text \<open>The array 0, 5: encoded on its own as four bytes, lost inside the outer message.\<close>

definition outer_mem :: mem where
  "outer_mem = store_bytes zero_mem 1000 [2, 0, 0, 0,  0, 0, 0, 0,  5, 0, 0, 0]"

lemma proto3_submessage_dropped_witness:
  "pb_encode 3 bare_env outer_fields 1000 (pb_ostream_from_buffer 64 64) outer_mem
     = Ok () (buffer_with 64 [], outer_mem) \<and>
   message_records outer_mem inner_fields 1000 = Some [(1, W_len [0, 5])]"
proof -
  have "load_bytes outer_mem (1000 + 4) 4 = [0, 0, 0, 0]" by code_simp
  moreover have "message_records outer_mem inner_fields 1000 = Some [(1, W_len [0, 5])]" by code_simp
  ultimately show ?thesis using proto3_submessage_dropped [of outer_mem 1000 64 bare_env] by simp
qed

end
