(* ===== verification/Pb_Source.thy ===== *)
theory Pb_Source
  imports Pb_Wire Leb128
begin

text \<open>
  The contract between the wire-level decoders and the source of their bytes. Any stream
  callback that delivers the bytes it is asked for, in order, is a \<open>byte_source\<close>; every
  primitive decoder is specified once in that locale, and \<^verbatim>\<open>buf_read\<close> is interpreted as an
  instance, which gives the specifications on memory buffers.
\<close>

section \<open>The interface\<close>

locale byte_source =
  fixes env :: pb_env
    and ready :: "pb_istream_t \<Rightarrow> mem \<Rightarrow> bool"
    and inp :: "pb_istream_t \<Rightarrow> mem \<Rightarrow> byte list"
    and adv :: "nat \<Rightarrow> pb_istream_t \<Rightarrow> mem \<Rightarrow> pb_istream_t \<times> mem"
  assumes read_local: "\<And>s m c. ready s m \<Longrightarrow> unat c \<le> length (inp s m) \<Longrightarrow>
      call_read env s Dst_local c m = Ok (take (unat c) (inp s m)) (adv (unat c) s m)"
    and adv_ready: "\<And>s m n. ready s m \<Longrightarrow> n \<le> length (inp s m) \<Longrightarrow>
      ready (fst (adv n s m)) (snd (adv n s m))"
    and adv_inp: "\<And>s m n. ready s m \<Longrightarrow> n \<le> length (inp s m) \<Longrightarrow>
      inp (fst (adv n s m)) (snd (adv n s m)) = drop n (inp s m)"
    and adv_left: "\<And>s m n. ready s m \<Longrightarrow> bytes_left (fst (adv n s m)) = bytes_left s"
    and adv_errmsg: "\<And>s m n. ready s m \<Longrightarrow> is_errmsg (fst (adv n s m)) = is_errmsg s"
    and adv_0: "\<And>s m. ready s m \<Longrightarrow> adv 0 s m = (s, m)"
    and adv_adv: "\<And>s m n k. ready s m \<Longrightarrow> n + k \<le> length (inp s m) \<Longrightarrow>
      adv k (fst (adv n s m)) (snd (adv n s m)) = adv (n + k) s m"
    and ready_left: "\<And>s m l. ready (s\<lparr>bytes_left := l\<rparr>) m \<longleftrightarrow> ready s m"
    and inp_left: "\<And>s m l. inp (s\<lparr>bytes_left := l\<rparr>) m = inp s m"
    and adv_set_left: "\<And>s m n l. ready s m \<Longrightarrow>
      adv n (s\<lparr>bytes_left := l\<rparr>) m
        = ((fst (adv n s m))\<lparr>bytes_left := l\<rparr>, snd (adv n s m))"

text \<open>Reading \<open>n\<close> bytes off a stream, and the outcome a scan of its bytes predicts.\<close>

definition scan_outcome :: "scan_result \<Rightarrow> (nat \<Rightarrow> pb_istream_t \<times> mem) \<Rightarrow> 'a::len word istep" where
  "scan_outcome r eat =
     (case r of
        Scan_ok v n \<Rightarrow> Ok (of_nat v) (eat n)
      | Scan_overflow n \<Rightarrow> PB_RETURN_ERROR_i (fst (eat n)) ''varint overflow'' (snd (eat n))
      | Scan_eos n \<Rightarrow> PB_RETURN_ERROR_i (fst (eat n)) ''end-of-stream'' (snd (eat n)))"

fun scan_acc :: "nat \<Rightarrow> nat \<Rightarrow> scan_result \<Rightarrow> scan_result" where
  "scan_acc r p (Scan_ok v n) = Scan_ok (r + 2 ^ p * v) n"
| "scan_acc r p x = x"

lemma scan_acc_0 [simp]: "scan_acc 0 0 x = x"
  by (cases x) auto

text \<open>Number of seven-bit groups a varint loop still accepts.\<close>

definition groups_left :: "nat \<Rightarrow> nat \<Rightarrow> nat" where
  "groups_left limit bitpos = (limit - bitpos + 6) div 7"

lemma groups_left_0: "limit \<le> bitpos \<Longrightarrow> groups_left limit bitpos = 0"
  by (simp add: groups_left_def)

lemma groups_left_Suc: "bitpos < limit \<Longrightarrow> groups_left limit bitpos = Suc (groups_left limit (bitpos + 7))"
proof -
  assume "bitpos < limit"
  then obtain d where d: "limit = bitpos + Suc d" by (auto dest: less_imp_Suc_add)
  have "(limit - bitpos + 6) div 7 = Suc (d div 7)" by (simp add: d)
  moreover have "(limit - (bitpos + 7) + 6) div 7 = d div 7"
    by (cases "d < 6") (auto simp: d)
  ultimately show ?thesis by (simp add: groups_left_def)
qed

lemma or_group:
  assumes "r < 2 ^ p"
  shows "(of_nat r :: 'a::len word) OR push_bit p (ucast ((b :: byte) AND 0x7F))
       = of_nat (r + 2 ^ p * (unat b mod 128))"
proof -
  have z: "\<not> bit r n" if "p \<le> n" for n
    using assms that by (metis bit_take_bit_iff leD take_bit_nat_eq_self)
  have "r AND push_bit p (unat b mod 128) = 0"
    by (rule bit_eqI) (auto simp: bit_simps z)
  then have n: "r OR push_bit p (unat b mod 128) = r + 2 ^ p * (unat b mod 128)"
    by (simp add: disjunctive_add_eq_or [symmetric] push_bit_eq_mult)
  have "(ucast (b AND 0x7F) :: 'a word) = of_nat (unat b mod 128)"
    by (metis of_nat_unat unat_and_7F_byte)
  then have "(of_nat r :: 'a word) OR push_bit p (ucast (b AND 0x7F))
      = of_nat (r OR push_bit p (unat b mod 128))"
    by (simp only: of_nat_or_eq push_bit_of_nat)
  then show ?thesis by (simp only: n)
qed

context byte_source
begin

definition eat :: "pb_istream_t \<Rightarrow> mem \<Rightarrow> nat \<Rightarrow> pb_istream_t \<times> mem" where
  "eat s m n = ((fst (adv n s m))\<lparr>bytes_left := bytes_left s - of_nat n\<rparr>, snd (adv n s m))"

definition good :: "pb_istream_t \<Rightarrow> mem \<Rightarrow> bool" where
  "good s m \<longleftrightarrow> ready s m \<and> unat (bytes_left s) \<le> length (inp s m)"

definition avail :: "pb_istream_t \<Rightarrow> mem \<Rightarrow> byte list" where
  "avail s m = take (unat (bytes_left s)) (inp s m)"

lemma length_avail: "good s m \<Longrightarrow> length (avail s m) = unat (bytes_left s)"
  by (simp add: good_def avail_def)

lemma eat_0: "good s m \<Longrightarrow> eat s m 0 = (s, m)"
  by (simp add: eat_def good_def adv_0)

lemma unat_left_eat:
  "n \<le> unat (bytes_left s) \<Longrightarrow> unat (bytes_left s - of_nat n) = unat (bytes_left s) - n"
  proof -
  assume n: "n \<le> unat (bytes_left s)"
  then have "unat (of_nat n :: size_t) = n"
    using unsigned_less [of "bytes_left s", where ?'a = nat] by (simp add: unat_of_nat)
  with n show ?thesis by (simp add: unat_sub word_le_nat_alt)
qed

lemma eat_good:
  assumes "good s m" "n \<le> unat (bytes_left s)"
  shows "good (fst (eat s m n)) (snd (eat s m n))"
    "avail (fst (eat s m n)) (snd (eat s m n)) = drop n (avail s m)"
    "unat (bytes_left (fst (eat s m n))) = unat (bytes_left s) - n"
  using assms adv_ready [of s m n] adv_inp [of s m n]
  by (auto simp: good_def eat_def avail_def unat_left_eat ready_left inp_left drop_take)

lemma eat_eat:
  assumes "good s m" "n + k \<le> unat (bytes_left s)"
  shows "eat (fst (eat s m n)) (snd (eat s m n)) k = eat s m (n + k)"
  using assms adv_adv [of s m n k] adv_ready [of s m n]
  by (auto simp: good_def eat_def adv_set_left)

lemma readbyte_good:
  assumes "good s m" "bytes_left s \<noteq> 0"
  shows "pb_readbyte env s m = Ok (hd (avail s m)) (eat s m 1)"
proof -
  have "1 \<le> unat (bytes_left s)" using assms(2) by (simp add: Suc_le_eq unat_gt_0)
  with assms have "1 \<le> length (inp s m)" "ready s m" by (auto simp: good_def)
  with read_local [of s m 1] adv_left [of s m 1] \<open>1 \<le> unat (bytes_left s)\<close> show ?thesis
    using assms(2) by (cases "inp s m") (auto simp: pb_readbyte_def eat_def avail_def split: prod.splits)
qed

lemma readbyte_empty:
  "bytes_left s = 0 \<Longrightarrow> pb_readbyte env s m = PB_RETURN_ERROR_i s ''end-of-stream'' m"
  by (simp add: pb_readbyte_def)

lemma read_local_good:
  assumes "good s m"
  shows "pb_read env s Dst_local c m =
    (if unat c \<le> unat (bytes_left s) then Ok (take (unat c) (avail s m)) (eat s m (unat c))
     else PB_RETURN_ERROR_i s ''end-of-stream'' m)"
  using assms read_local [of s m c] adv_left [of s m "unat c"]
  by (auto simp: pb_read_def pb_read_checked_def good_def eat_def avail_def word_less_nat_alt
      min_def split: prod.splits)

lemma scan_outcome_cons:
  assumes "good s m" "bytes_left s \<noteq> 0"
    and x: "x = varint_scan k (tl (avail s m))"
  shows "scan_outcome (scan_acc (r + 2 ^ p * (unat b mod 128)) (p + 7) x)
           (eat (fst (eat s m 1)) (snd (eat s m 1)))
       = (scan_outcome (scan_acc r p (scan_cons b x)) (eat s m) :: 'a::len word istep)"
proof -
  have len: "Suc (length (tl (avail s m))) = unat (bytes_left s)"
    using assms(1,2) by (simp add: length_avail unat_gt_0)
  have e: "eat (fst (eat s m 1)) (snd (eat s m 1)) n = eat s m (Suc n)"
    if "n \<le> length (tl (avail s m))" for n
    using eat_eat [of s m 1 n] assms(1) that len by simp
  show ?thesis
  proof (cases x)
    case (Scan_ok v n)
    with e varint_scan_ok_bounds [OF trans [OF x [symmetric] Scan_ok]] show ?thesis
      by (simp add: scan_outcome_def power_add algebra_simps)
  next
    case (Scan_overflow n)
    with e varint_scan_overflow_bounds [OF trans [OF x [symmetric] Scan_overflow]] show ?thesis
      by (simp add: scan_outcome_def)
  next
    case (Scan_eos n)
    with e varint_scan_eos_bounds [OF trans [OF x [symmetric] Scan_eos]] show ?thesis
      by (simp add: scan_outcome_def)
  qed
qed

lemma avail_Cons:
  assumes "good s m" "bytes_left s \<noteq> 0"
  shows "avail s m = hd (avail s m) # tl (avail s m)"
    "avail (fst (eat s m 1)) (snd (eat s m 1)) = tl (avail s m)"
    "good (fst (eat s m 1)) (snd (eat s m 1))"
proof -
  have "1 \<le> unat (bytes_left s)" using assms(2) by (simp add: Suc_le_eq unat_gt_0)
  with assms eat_good [of s m 1] length_avail [of s m]
  show "avail s m = hd (avail s m) # tl (avail s m)"
    "avail (fst (eat s m 1)) (snd (eat s m 1)) = tl (avail s m)"
    "good (fst (eat s m 1)) (snd (eat s m 1))"
    by (auto simp: drop_Suc intro!: hd_Cons_tl [symmetric])
qed

lemma varint_loop_good:
  assumes "good s m" "r < 2 ^ bitpos"
  shows "varint_loop limit env bitpos (of_nat r :: 'a::len word) s m =
    scan_outcome (scan_acc r bitpos (varint_scan (groups_left limit bitpos) (avail s m))) (eat s m)"
  using assms
proof (induction "groups_left limit bitpos" arbitrary: bitpos r s m)
  case 0
  then have "limit \<le> bitpos" using groups_left_Suc [of bitpos limit] by (cases "limit \<le> bitpos") auto
  then show ?case
    using 0 by (simp add: varint_loop.simps [of limit] groups_left_0 scan_outcome_def eat_0)
next
  case (Suc k)
  then have lt: "bitpos < limit" using groups_left_0 [of limit bitpos] by (cases "limit \<le> bitpos") auto
  then have k: "k = groups_left limit (bitpos + 7)" and gl: "groups_left limit bitpos = Suc k"
    using Suc.hyps(2) groups_left_Suc [of bitpos limit] by auto
  show ?case
  proof (cases "bytes_left s = 0")
    case True
    then show ?thesis using lt Suc.prems
      by (simp add: varint_loop.simps [of limit] readbyte_empty avail_def gl scan_outcome_def
          PB_RETURN_ERROR_i_def eat_0)
  next
    case False
    define b where "b = hd (avail s m)"
    define s1 where "s1 = fst (eat s m 1)"
    define m1 where "m1 = snd (eat s m 1)"
    obtain rest where rest: "rest = tl (avail s m)" by blast
    note av = avail_Cons [OF Suc.prems(1) False, folded b_def s1_def m1_def rest]
    have rb: "pb_readbyte env s m = Ok b (s1, m1)"
      using readbyte_good [OF Suc.prems(1) False] by (simp add: b_def s1_def m1_def)
    have loop: "varint_loop limit env bitpos (of_nat r :: 'a word) s m =
      (if unat b < 128 then Ok (of_nat (r + 2 ^ bitpos * (unat b mod 128))) (s1, m1)
       else varint_loop limit env (bitpos + 7) (of_nat (r + 2 ^ bitpos * (unat b mod 128)) :: 'a word) s1 m1)"
      using lt by (subst varint_loop.simps)
        (simp add: rb Let_def or_group [OF Suc.prems(2)] and_80_zero_iff del: of_nat_add of_nat_mult)
    show ?thesis
    proof (cases "unat b < 128")
      case True
      have "eat s m 1 = (s1, m1)" by (simp add: s1_def m1_def)
      with True show ?thesis
        by (simp add: loop gl av(1) scan_outcome_def del: of_nat_add of_nat_mult)
    next
      case False
      have "2 ^ bitpos * (unat b mod 128) \<le> 2 ^ bitpos * 127"
        by (rule mult_le_mono2) (use mod_less_divisor [of 128 "unat b"] in linarith)
      moreover have "(2::nat) ^ (bitpos + 7) = 2 ^ bitpos * 127 + 2 ^ bitpos"
        by (simp add: power_add)
      ultimately have "r + 2 ^ bitpos * (unat b mod 128) < 2 ^ (bitpos + 7)"
        using Suc.prems(2) by linarith
      then have "varint_loop limit env (bitpos + 7) (of_nat (r + 2 ^ bitpos * (unat b mod 128)) :: 'a word) s1 m1
         = scan_outcome (scan_acc (r + 2 ^ bitpos * (unat b mod 128)) (bitpos + 7)
             (varint_scan k rest)) (eat s1 m1)"
        using Suc.hyps(1) [OF k av(3)] by (simp add: av(2) k del: of_nat_add of_nat_mult)
      also have "\<dots> = scan_outcome (scan_acc r bitpos (scan_cons b (varint_scan k rest))) (eat s m)"
        unfolding s1_def m1_def rest
        by (rule scan_outcome_cons [OF Suc.prems(1) \<open>bytes_left s \<noteq> 0\<close> refl])
      finally show ?thesis using False
        by (simp add: loop gl av(1) del: of_nat_add of_nat_mult)
    qed
  qed
qed

lemma decode_varint_scan:
  "good s m \<Longrightarrow>
    pb_decode_varint env s m = scan_outcome (varint_scan 10 (avail s m)) (eat s m)"
  using varint_loop_good [of s m 0 0 64] by (simp add: pb_decode_varint_def groups_left_def)

lemma decode_varint32_scan:
  assumes "good s m"
  shows "pb_decode_varint32 env s m = scan_outcome (varint_scan 5 (avail s m)) (eat s m)"
proof (cases "bytes_left s = 0")
  case True
  then show ?thesis using assms
    by (simp add: pb_decode_varint32_def readbyte_empty avail_def eval_nat_numeral
        scan_outcome_def PB_RETURN_ERROR_i_def eat_0)
next
  case False
  obtain b rest where br: "b = hd (avail s m)" "rest = tl (avail s m)" by blast
  obtain s1 m1 where st: "eat s m 1 = (s1, m1)" by (cases "eat s m 1") auto
  note av = avail_Cons [OF assms False, folded br, unfolded st, simplified]
  have rb: "pb_readbyte env s m = Ok b (s1, m1)"
    unfolding br by (simp only: readbyte_good [OF assms False] st)
  have s5: "varint_scan 5 (b # rest) =
      (if unat b < 128 then Scan_ok (unat b) 1 else scan_cons b (varint_scan 4 rest))"
    using varint_scan.simps(3) [of 4 b rest] by simp
  have u: "(ucast (b AND 0x7F) :: 32 word) = of_nat (unat b mod 128)"
    by (metis of_nat_unat unat_and_7F_byte)
  show ?thesis
  proof (cases "unat b < 128")
    case True
    then show ?thesis
      by (simp add: pb_decode_varint32_def rb and_80_zero_iff av(1) s5
          scan_outcome_def st [unfolded One_nat_def])
  next
    case False
    have "unat b mod 128 < 2 ^ 7" by simp
    then have "varint_loop 32 env 7 (of_nat (unat b mod 128) :: 32 word) s1 m1
       = scan_outcome (scan_acc (unat b mod 128) 7 (varint_scan 4 rest)) (eat s1 m1)"
      using varint_loop_good [OF av(3), of "unat b mod 128" 7 32] by (simp add: av(2) groups_left_def)
    also have "\<dots> = scan_outcome (scan_cons b (varint_scan 4 rest)) (eat s m)"
      using scan_outcome_cons [OF assms \<open>bytes_left s \<noteq> 0\<close> refl, of 0 0 b 4]
      unfolding st br by simp
    finally show ?thesis using False
      by (simp add: pb_decode_varint32_def rb and_80_zero_iff u av(1) s5)
  qed
qed

end

section \<open>Memory buffers\<close>

text \<open>
  The provider: a stream on a buffer. \<open>buf_ok\<close> is its invariant, that the bytes the stream
  may still hand out lie inside the buffer object.
\<close>

definition buf_bytes :: "pb_istream_t \<Rightarrow> byte list" where
  "buf_bytes s = (case is_state s of In_buf bs \<Rightarrow> bs | In_user _ \<Rightarrow> [])"

definition buf_ready :: "pb_istream_t \<Rightarrow> bool" where
  "buf_ready s \<longleftrightarrow> is_callback s = Buf_read \<and> (\<exists>bs. is_state s = In_buf bs)"

definition buf_ok :: "pb_istream_t \<Rightarrow> bool" where
  "buf_ok s \<longleftrightarrow> buf_ready s \<and> unat (bytes_left s) \<le> length (buf_bytes s)"

definition buf_avail :: "pb_istream_t \<Rightarrow> byte list" where
  "buf_avail s = take (unat (bytes_left s)) (buf_bytes s)"

definition buf_adv :: "nat \<Rightarrow> pb_istream_t \<Rightarrow> pb_istream_t" where
  "buf_adv n s = s\<lparr>is_state := In_buf (drop n (buf_bytes s))\<rparr>"

definition buf_eat :: "nat \<Rightarrow> pb_istream_t \<Rightarrow> pb_istream_t" where
  "buf_eat n s = (buf_adv n s)\<lparr>bytes_left := bytes_left s - of_nat n\<rparr>"

lemma buf_bytes_simps [simp]:
  "buf_bytes (s\<lparr>bytes_left := l\<rparr>) = buf_bytes s"
  "buf_bytes (s\<lparr>is_errmsg := e\<rparr>) = buf_bytes s"
  "buf_bytes (s\<lparr>is_state := In_buf bs\<rparr>) = bs"
  "buf_bytes (PB_SET_ERROR_i s msg) = buf_bytes s"
  by (simp_all add: buf_bytes_def PB_SET_ERROR_i_def)

lemma buf_ready_simps [simp]:
  "buf_ready (s\<lparr>bytes_left := l\<rparr>) = buf_ready s"
  "buf_ready (s\<lparr>is_errmsg := e\<rparr>) = buf_ready s"
  "buf_ready (PB_SET_ERROR_i s msg) = buf_ready s"
  "buf_ready (buf_adv n s) = (is_callback s = Buf_read)"
  by (simp_all add: buf_ready_def PB_SET_ERROR_i_def buf_adv_def)

lemma buf_adv_same: "buf_ready s \<Longrightarrow> buf_adv 0 s = s"
  by (auto simp: buf_adv_def buf_ready_def buf_bytes_def)

lemma buf_read_ready:
  "buf_ready s \<Longrightarrow> unat c \<le> length (buf_bytes s) \<Longrightarrow>
    buf_read s dst c m =
      Ok (take (unat c) (buf_bytes s)) (buf_adv (unat c) s, deliver dst (take (unat c) (buf_bytes s)) m)"
  by (auto simp: buf_read_def buf_ready_def buf_bytes_def buf_adv_def)

interpretation buf: byte_source env "\<lambda>s m. buf_ready s" "\<lambda>s m. buf_bytes s" "\<lambda>n s m. (buf_adv n s, m)"
  for env
proof (unfold_locales, goal_cases)
  case (1 s m c)
  then have "is_callback s = Buf_read" by (simp add: buf_ready_def)
  with 1 show ?case by (simp add: call_read_def buf_read_ready deliver_def)
qed (auto simp: buf_adv_same buf_adv_def buf_bytes_def buf_ready_def add.commute)

lemma buf_good [simp]: "buf.good s m = buf_ok s"
  by (simp add: buf.good_def buf_ok_def)

lemma buf_avail_eq [simp]: "buf.avail s m = buf_avail s"
  by (simp add: buf.avail_def buf_avail_def)

lemma buf_eat_eq [simp]: "buf.eat s m = (\<lambda>n. (buf_eat n s, m))"
  by (rule ext) (simp add: buf.eat_def buf_eat_def)

end
