(* ===== verification/Pb_Wire_Props.thy ===== *)
theory Pb_Wire_Props
  imports Pb_Source Pb_Sink
begin

text \<open>
  The wire primitives on memory buffers: exact specifications of the decoders from the
  \<open>byte_source\<close> interpretation, and the round trips with the encoders.
\<close>

section \<open>Reading from a buffer\<close>

lemma buf_eat_ok:
  assumes "buf_ok s" "n \<le> unat (bytes_left s)"
  shows "buf_ok (buf_eat n s)" "buf_avail (buf_eat n s) = drop n (buf_avail s)"
    "unat (bytes_left (buf_eat n s)) = unat (bytes_left s) - n"
  using buf.eat_good [of s undefined n] assms by simp_all

lemma buf_eat_eat:
  "buf_ok s \<Longrightarrow> n + k \<le> unat (bytes_left s) \<Longrightarrow> buf_eat k (buf_eat n s) = buf_eat (n + k) s"
  using buf.eat_eat [of s undefined n k] by simp

lemma buf_eat_0: "buf_ok s \<Longrightarrow> buf_eat 0 s = s"
  using buf.eat_0 [of s undefined] by simp

lemma length_buf_avail: "buf_ok s \<Longrightarrow> length (buf_avail s) = unat (bytes_left s)"
  using buf.length_avail [of s undefined] by simp

lemma buf_eat_callback [simp]: "is_callback (buf_eat n s) = is_callback s"
  "is_errmsg (buf_eat n s) = is_errmsg s"
  by (simp_all add: buf_eat_def buf_adv_def)

lemma buf_ok_callback: "buf_ok s \<Longrightarrow> is_callback s = Buf_read"
  by (simp add: buf_ok_def buf_ready_def)

lemma buf_ok_state: "buf_ok s \<Longrightarrow> is_state s = In_buf (buf_bytes s)"
  by (auto simp: buf_ok_def buf_ready_def buf_bytes_def)

text \<open>\<^verbatim>\<open>pb_read\<close> delivers the next bytes to any destination, or reports the end of the stream.\<close>

lemma pb_read_buf:
  assumes "buf_ok s"
  shows "pb_read env s dst c m =
    (if unat c \<le> unat (bytes_left s)
     then Ok (take (unat c) (buf_avail s))
            (buf_eat (unat c) s, deliver dst (take (unat c) (buf_avail s)) m)
     else PB_RETURN_ERROR_i s ''end-of-stream'' m)"
proof (cases "unat c \<le> unat (bytes_left s)")
  case True
  with assms have le: "unat c \<le> length (buf_bytes s)" "buf_ready s" by (auto simp: buf_ok_def)
  from True have "\<not> bytes_left s < c" by (simp add: word_less_nat_alt)
  moreover have "take (unat c) (buf_avail s) = take (unat c) (buf_bytes s)"
    using True by (simp add: buf_avail_def min_def)
  ultimately show ?thesis
    using True buf_ok_callback [OF assms] buf_read_ready [OF le(2,1)]
    by (simp add: pb_read_def pb_read_checked_def call_read_def buf_eat_def buf_adv_def)
next
  case False
  then show ?thesis using buf_ok_callback [OF assms]
    by (simp add: pb_read_def pb_read_checked_def word_less_nat_alt)
qed

lemma pb_decode_varint_buf:
  "buf_ok s \<Longrightarrow>
    pb_decode_varint env s m = scan_outcome (varint_scan 10 (buf_avail s)) (\<lambda>n. (buf_eat n s, m))"
  using buf.decode_varint_scan [of s m env] by simp

lemma pb_decode_varint32_buf:
  "buf_ok s \<Longrightarrow>
    pb_decode_varint32 env s m = scan_outcome (varint_scan 5 (buf_avail s)) (\<lambda>n. (buf_eat n s, m))"
  using buf.decode_varint32_scan [of s m env] by simp

lemma pb_decode_varint_leb128:
  "buf_ok s \<Longrightarrow> buf_avail s = leb128 (unat v) @ rest \<Longrightarrow>
    pb_decode_varint env s m = Ok v (buf_eat (length (leb128 (unat v))) s, m)"
  by (simp add: pb_decode_varint_buf varint_scan_leb128 scan_outcome_def)

lemma pb_decode_varint32_leb128:
  "buf_ok s \<Longrightarrow> buf_avail s = leb128 (unat v) @ rest \<Longrightarrow>
    pb_decode_varint32 env s m = Ok v (buf_eat (length (leb128 (unat v))) s, m)"
  using length_leb128_32 [of "unat v"] unsigned_less [of v, where ?'a = nat]
  by (simp add: pb_decode_varint32_buf varint_scan_leb128 scan_outcome_def)

text \<open>Skipping a varint: the bytes up to the first one without continuation bit.\<close>

lemma pb_skip_varint_buf:
  "buf_ok s \<Longrightarrow> k \<le> n \<Longrightarrow> varint_scan k (buf_avail s) = Scan_ok v j \<Longrightarrow>
    pb_skip_varint n env s m = Ok () (buf_eat j s, m)"
proof (induction n arbitrary: k v j s)
  case 0
  then show ?case by simp
next
  case (Suc n)
  then obtain k' where k: "k = Suc k'" by (cases k) auto
  with Suc.prems obtain b rest where br: "buf_avail s = b # rest"
    by (cases "buf_avail s") auto
  then have left: "1 \<le> unat (bytes_left s)" using length_buf_avail [OF Suc.prems(1)] by auto
  note eat = buf_eat_ok [OF Suc.prems(1) left]
  have rd: "pb_read env s Dst_local 1 m = Ok [b] (buf_eat 1 s, m)"
    using pb_read_buf [OF Suc.prems(1), of env Dst_local 1 m] left
    by (simp add: br deliver_def)
  show ?case
  proof (cases "unat b < 128")
    case True
    then show ?thesis using Suc.prems k br by (auto simp: rd and_80_zero_iff)
  next
    case False
    with Suc.prems(3) k br obtain v' j' where sc: "varint_scan k' rest = Scan_ok v' j'" "j = Suc j'"
      by (cases "varint_scan k' rest") auto
    have "pb_skip_varint n env (buf_eat 1 s) m = Ok () (buf_eat j' (buf_eat 1 s), m)"
      using Suc.IH [OF eat(1), of k' v' j'] Suc.prems(2) k sc(1) eat(2) br by simp
    moreover have "1 + j' \<le> unat (bytes_left s)"
      using varint_scan_ok_bounds [OF sc(1)] length_buf_avail [OF Suc.prems(1)] br by simp
    ultimately show ?thesis
      using False sc(2) buf_eat_eat [OF Suc.prems(1), of 1 j'] by (simp add: rd and_80_zero_iff)
  qed
qed

section \<open>Zig-zag\<close>

lemma unzigzag_zigzag: "unzigzag (zigzag v) = v"
proof -
  have b0: "x AND 1 \<noteq> 0 \<longleftrightarrow> bit x 0" for x :: "64 word"
    by (simp add: and_one_eq bit_0 odd_iff_mod_2_eq_one)
  obtain p where p: "p = push_bit 1 v" by blast
  have bp: "bit p n \<longleftrightarrow> 0 < n \<and> n < 64 \<and> bit v (n - 1)" for n
    unfolding p by (simp only: bit_push_bit_iff) (auto dest: bit_imp_le_length)
  have hi: "sint v < 0 \<longleftrightarrow> bit v 63"
    by (simp add: bit_last_iff [symmetric])
  have "NOT (drop_bit 1 (NOT p)) = v" if "bit v 63"
  proof (rule bit_word_eqI)
    fix n assume "n < LENGTH(64)"
    then consider "n < 63" | "n = 63" by fastforce
    then show "bit (NOT (drop_bit 1 (NOT p))) n = bit v n"
      by cases (use that in \<open>auto simp: bit_not_iff bit_drop_bit_eq bp\<close>)
  qed
  moreover have "drop_bit 1 p = v" if "\<not> bit v 63"
  proof (rule bit_word_eqI)
    fix n assume "n < LENGTH(64)"
    then consider "n < 63" | "n = 63" by fastforce
    then show "bit (drop_bit 1 p) n = bit v n"
      by cases (use that in \<open>auto simp: bit_drop_bit_eq bp\<close>)
  qed
  ultimately show ?thesis
    by (simp only: unzigzag_def zigzag_def hi p [symmetric] b0 bit_not_iff bp split: if_split)
      (simp add: bit_not_iff bp)
qed

section \<open>Fixed-width integers\<close>

lemma assemble32_word_of_bytes:
  assumes "length bs = 4"
  shows "assemble32 bs = word_of_bytes bs"
proof -
  obtain a b c d where "bs = [a, b, c, d]"
    using assms by (auto simp: numeral_eq_Suc length_Suc_conv)
  then show ?thesis by (simp add: assemble32_def push_bit_or or.assoc)
qed

lemma assemble64_word_of_bytes:
  assumes "length bs = 8"
  shows "assemble64 bs = word_of_bytes bs"
proof -
  obtain a b c d e f g h where "bs = [a, b, c, d, e, f, g, h]"
    using assms by (auto simp: numeral_eq_Suc length_Suc_conv)
  then show ?thesis by (simp add: assemble64_def push_bit_or or.assoc)
qed

lemma take_append_avail:
  assumes "buf_ok s" "buf_avail s = bs @ rest"
  shows "length bs \<le> unat (bytes_left s)" "take (length bs) (buf_avail s) = bs"
  using length_buf_avail [OF assms(1)] assms(2) by simp_all

lemma pb_decode_fixed32_buf:
  fixes v :: "32 word"
  assumes "buf_ok s" "buf_avail s = bytes_of_word 4 v @ rest"
  shows "pb_decode_fixed32 env s dest m = Ok () (buf_eat 4 s, store_word 4 m dest v)"
  using take_append_avail [OF assms]
  by (simp add: pb_decode_fixed32_def pb_read_buf [OF assms(1)] deliver_def
      assemble32_word_of_bytes word_of_bytes_of_word)

lemma pb_decode_fixed64_buf:
  fixes v :: "64 word"
  assumes "buf_ok s" "buf_avail s = bytes_of_word 8 v @ rest"
  shows "pb_decode_fixed64 env s dest m = Ok () (buf_eat 8 s, store_word 8 m dest v)"
  using take_append_avail [OF assms]
  by (simp add: pb_decode_fixed64_def pb_read_buf [OF assms(1)] deliver_def
      assemble64_word_of_bytes word_of_bytes_of_word)

section \<open>Tags\<close>

lemma tag_word_small:
  assumes "unat fn < 2 ^ 29" "unat wt < 8"
  shows "unat (tag_word wt fn) = 8 * unat fn + unat wt"
proof -
  have z: "\<not> bit wt n" if "3 \<le> n" for n
  proof -
    have "take_bit 3 (unat wt) = unat wt" using assms(2) by (simp add: take_bit_nat_eq_self)
    then have "\<not> bit (unat wt) n" using that by (metis bit_take_bit_iff leD)
    then show ?thesis by (simp add: bit_unsigned_iff)
  qed
  have "push_bit 3 (unat fn) AND unat wt = 0"
    by (rule bit_eqI) (auto simp: bit_simps z)
  then have "push_bit 3 (unat fn) OR unat wt = push_bit 3 (unat fn) + unat wt"
    by (simp add: disjunctive_add_eq_or)
  moreover have "unat (tag_word wt fn) = push_bit 3 (unat fn) OR unat wt"
  proof -
    have "unat fn < 2 ^ 64" using assms(1) by simp
    moreover have "8 * unat fn < 2 ^ 64" using assms(1) by simp
    ultimately have "unat (push_bit 3 (ucast fn :: 64 word)) = push_bit 3 (unat fn)"
      by (simp only: unsigned_push_bit_eq unsigned_ucast_eq)
        (simp add: take_bit_nat_eq_self push_bit_eq_mult)
    moreover have "unat (ucast wt :: 64 word) = unat wt"
      using assms(2) by (simp add: unsigned_ucast_eq take_bit_nat_eq_self)
    ultimately show ?thesis unfolding tag_word_def unsigned_or_eq by simp
  qed
  ultimately show ?thesis by (simp add: push_bit_eq_mult)
qed

text \<open>A tag written by the encoder is read back, for every legal field number.\<close>

lemma pb_decode_tag_encoded:
  assumes "buf_ok s" "buf_avail s = leb128 (unat (tag_word wt fn)) @ rest"
    and "0 < unat fn" "unat fn < 2 ^ 29" "unat wt < 8"
  shows "pb_decode_tag env s m = Ok (Tag wt fn) (buf_eat (length (leb128 (unat (tag_word wt fn)))) s, m)"
proof -
  obtain t where t_def: "t = 8 * unat fn + unat wt" by blast
  have "t < 2 ^ 32" using assms(4,5) by (simp add: t_def)
  then have t: "unat (of_nat t :: 32 word) = t" by (simp add: unat_of_nat)
  have tw: "unat (tag_word wt fn) = t" using tag_word_small [OF assms(4,5)] by (simp add: t_def)
  have dec: "pb_decode_varint32 env s m = Ok (of_nat t) (buf_eat (length (leb128 t)) s, m)"
    using pb_decode_varint32_leb128 [OF assms(1), of "of_nat t" rest env m] assms(2)
    by (simp only: t tw)
  have nz: "(of_nat t :: 32 word) \<noteq> 0"
    using t assms(3) by (metis t_def add_is_0 mult_is_0 not_gr_zero unat_0 zero_neq_numeral)
  have "unat ((of_nat t :: 32 word) AND 7) = unat wt"
  proof -
    have "(of_nat t :: 32 word) AND 7 = take_bit 3 (of_nat t)"
      by (simp add: take_bit_eq_mask mask_eq_exp_minus_1)
    then have "unat ((of_nat t :: 32 word) AND 7) = take_bit 3 t"
      by (simp only: unsigned_take_bit_eq t)
    then show ?thesis using assms(5) by (simp add: take_bit_eq_mod t_def)
  qed
  moreover have "unat (drop_bit 3 (of_nat t :: 32 word)) = unat fn"
  proof -
    have "unat (drop_bit 3 (of_nat t :: 32 word)) = t div 8"
      using \<open>t < 2 ^ 32\<close> by (simp only: unsigned_drop_bit_eq t) (simp add: drop_bit_eq_div take_bit_nat_eq_self)
    then show ?thesis using assms(5) by (simp add: t_def)
  qed
  ultimately have "(of_nat t :: 32 word) AND 7 = wt" "drop_bit 3 (of_nat t :: 32 word) = fn"
    by (simp_all only: word_unat_eq_iff)
  then show ?thesis using nz by (simp add: pb_decode_tag_def dec tw)
qed

end
