(* ===== verification/Pb_Layout.thy ===== *)
theory Pb_Layout
  imports Pb_Fields
begin

text \<open>
  Memory layout of a message struct: how many bytes each field's data and its count,
  has-flag or selector take, and when they all lie inside the struct, submessages
  included. This is what the C compiler guarantees for generated descriptors.
\<close>

section \<open>Extents\<close>

definition data_extent :: "pb_field_t \<Rightarrow> int" where
  "data_extent f =
     (if atype_of f = PB_ATYPE_POINTER then 8
      else if htype_of f = PB_HTYPE_REPEATED then uint (f_data_size f) * uint (f_array_size f)
      else uint (f_data_size f))"

definition size_extent :: "pb_field_t \<Rightarrow> int" where
  "size_extent f =
     (if htype_of f = PB_HTYPE_REPEATED \<or> htype_of f = PB_HTYPE_ONEOF then 4
      else if htype_of f = PB_HTYPE_OPTIONAL then 1 else 0)"

text \<open>The sizes the decoders rely on: a decoder writes this many bytes without looking.\<close>

definition item_size_ok :: "pb_field_t \<Rightarrow> bool" where
  "item_size_ok f \<longleftrightarrow>
     (ltype_of f = PB_LTYPE_FIXED32 \<longrightarrow> 4 \<le> f_data_size f) \<and>
     (ltype_of f = PB_LTYPE_FIXED64 \<longrightarrow> 8 \<le> f_data_size f) \<and>
     (case f_ptr f of Ptr_null \<Rightarrow> True
      | Ptr_default bs \<Rightarrow> unat (f_data_size f) \<le> length bs
      | Ptr_fields _ \<Rightarrow> ltype_of f = PB_LTYPE_SUBMESSAGE)"

text \<open>A field at offset \<open>d\<close> with its count at offset \<open>z\<close> fits a struct of \<open>sz\<close> bytes.\<close>

definition field_fits :: "pb_field_t \<Rightarrow> addr \<Rightarrow> addr \<Rightarrow> int \<Rightarrow> bool" where
  "field_fits f d z sz \<longleftrightarrow>
     0 \<le> d \<and> d + data_extent f \<le> sz \<and> 0 \<le> z \<and> z + size_extent f \<le> sz \<and>
     uint (f_data_size f) * uint (f_array_size f) < 2 ^ 32 \<and> item_size_ok f"

function layout_ok :: "pb_field_t list \<Rightarrow> int \<Rightarrow> bool" where
  "layout_ok fs sz \<longleftrightarrow>
     (\<forall>x \<in> set (positions fs 0). case x of (f, d, z) \<Rightarrow>
        field_fits f d z sz \<and>
        (case f_ptr f of Ptr_fields fs' \<Rightarrow> layout_ok fs' (uint (f_data_size f)) | _ \<Rightarrow> True))"
  by pat_completeness auto
termination
proof (relation "measure (\<lambda>(fs, sz). size_list size fs)", goal_cases)
  case 1
  then show ?case by simp
next
  case (2 fs sz x f y d z fs')
  then show ?case
    using size_sub_fields [of f fs'] positions_subset [of f d z fs 0] size_in_fields [of f fs] by auto
qed

declare layout_ok.simps [simp del]

lemma layout_ok_in:
  assumes "layout_ok fs sz" "(f, d, z) \<in> set (positions fs 0)"
  shows "field_fits f d z sz" "\<And>fs'. f_ptr f = Ptr_fields fs' \<Longrightarrow> layout_ok fs' (uint (f_data_size f))"
  using assms layout_ok.simps [of fs sz] by auto

section \<open>Moving a struct\<close>

definition shift_placed :: "int \<Rightarrow> placed \<Rightarrow> placed" where
  "shift_placed k p = (case p of (f, d, z) \<Rightarrow> (f, d + k, z + k))"

lemma place_next_shift: "place_next (shift_placed k p) f = shift_placed k (place_next p f)"
  by (auto simp: place_next_def shift_placed_def Let_def split: prod.splits option.splits)

lemma positions_from_shift:
  "positions_from (shift_placed k p) fs = map (shift_placed k) (positions_from p fs)"
  by (induction fs arbitrary: p) (simp_all add: place_next_shift)

lemma positions_shift: "positions fs (dest + k) = map (shift_placed k) (positions fs dest)"
proof (cases fs)
  case (Cons f gs)
  have "place_first (dest + k) f = shift_placed k (place_first dest f)"
    by (simp add: place_first_def shift_placed_def Let_def)
  then show ?thesis by (simp add: Cons positions_from_shift)
qed simp

lemma positions_at: "(f, d, z) \<in> set (positions fs dest) \<longleftrightarrow> (f, d - dest, z - dest) \<in> set (positions fs 0)"
  using positions_shift [of fs 0 dest]
  by (force simp: shift_placed_def)

lemma layout_fits_at:
  assumes "layout_ok fs sz" "(f, d, z) \<in> set (positions fs dest)"
  shows "field_fits f (d - dest) (z - dest) sz"
    "\<And>fs'. f_ptr f = Ptr_fields fs' \<Longrightarrow> layout_ok fs' (uint (f_data_size f))"
  using layout_ok_in [OF assms(1)] assms(2) positions_at [of f d z fs dest] by auto

section \<open>Plain message types\<close>

text \<open>
  Message types without callback and extension fields: no user code runs while they are
  decoded.
\<close>

primrec plain_field :: "pb_field_t \<Rightarrow> bool"
  and plain_ptr :: "pb_field_ptr \<Rightarrow> bool" where
  "plain_field (PB_field_t tag ty doff soff ds as ptr) \<longleftrightarrow>
     (PB_ATYPE ty = PB_ATYPE_STATIC \<or> PB_ATYPE ty = PB_ATYPE_POINTER) \<and>
     PB_LTYPE ty \<noteq> PB_LTYPE_EXTENSION \<and> plain_ptr ptr"
| "plain_ptr Ptr_null = True"
| "plain_ptr (Ptr_fields fs) = list_all id (map plain_field fs)"
| "plain_ptr (Ptr_default bs) = True"

definition plain_fields :: "pb_field_t list \<Rightarrow> bool" where
  "plain_fields fs \<longleftrightarrow> (\<forall>f \<in> set fs. plain_field f)"

lemma plain_field_iff:
  "plain_field f \<longleftrightarrow> (atype_of f = PB_ATYPE_STATIC \<or> atype_of f = PB_ATYPE_POINTER) \<and>
     ltype_of f \<noteq> PB_LTYPE_EXTENSION \<and> (\<forall>fs. f_ptr f = Ptr_fields fs \<longrightarrow> plain_fields fs)"
proof -
  have p: "plain_ptr p \<longleftrightarrow> (\<forall>fs. p = Ptr_fields fs \<longrightarrow> plain_fields fs)" for p
    by (cases p) (auto simp: plain_fields_def list_all_iff)
  show ?thesis by (cases f) (simp only: plain_field.simps p pb_field_t.sel)
qed

lemma plain_fields_in: "plain_fields fs \<Longrightarrow> f \<in> set fs \<Longrightarrow> plain_field f"
  by (simp add: plain_fields_def)

end
