(* ===== verification/Pb_Decode.thy ===== *)
theory Pb_Decode
  imports Pb_Wire Pb_Common
begin

text \<open>
  The message decoder of \<^verbatim>\<open>pb_decode.c\<close>, in both of its configurations: the flag
  \<open>env_malloc\<close> selects the code under \<^verbatim>\<open>PB_ENABLE_MALLOC\<close>. As in the encoder, the functions
  between two levels of \<^verbatim>\<open>pb_decode_noinit\<close> take the recursive call as the argument \<open>dec\<close>;
  \<open>n\<close> is the fuel of their loops and of the default-value recursion.
\<close>

type_synonym decode_fun = "pb_field_t list \<Rightarrow> addr \<Rightarrow> pb_istream_t \<Rightarrow> mem \<Rightarrow> unit istep"
type_synonym field_decoder = "pb_istream_t \<Rightarrow> pb_field_t \<Rightarrow> addr \<Rightarrow> mem \<Rightarrow> unit istep"
type_synonym mstep = "(unit, mem) outcome"

text \<open>A step on memory alone, run while a stream is around.\<close>

definition lift_mem :: "pb_istream_t \<Rightarrow> mstep \<Rightarrow> unit istep" where
  "lift_mem s x = (case x of Ok a m \<Rightarrow> Ok a (s, m) | Fail m \<Rightarrow> Fail (s, m) | Halt e \<Rightarrow> Halt e)"

section \<open>Extension iterators and default values\<close>

text \<open>\<^verbatim>\<open>iter_from_extension\<close>: a fake iterator for one extension; \<open>None\<close> is a NULL access.\<close>

definition iter_from_extension :: "pb_env \<Rightarrow> addr \<Rightarrow> mem \<Rightarrow> pb_field_iter_t option" where
  "iter_from_extension env ext m =
     (case Option.bind (env_ext_type env (load_ptr m ext)) et_arg of
        None \<Rightarrow> None
      | Some field \<Rightarrow>
          let dest = load_ptr m (ext + ext_dest_offset);
              it = snd (pb_field_iter_begin [field] dest)
          in Some (it\<lparr>pData := (if atype_of field = PB_ATYPE_POINTER
                               then ext + ext_dest_offset else dest),
                      pSize := ext + ext_found_offset\<rparr>))"

text \<open>Walking an extension list with a body per fake iterator.\<close>

primrec for_each_extension ::
  "nat \<Rightarrow> pb_env \<Rightarrow> (addr \<Rightarrow> mem \<Rightarrow> mem) \<Rightarrow> (pb_field_iter_t \<Rightarrow> mem \<Rightarrow> mstep) \<Rightarrow> addr \<Rightarrow> mem \<Rightarrow> mstep" where
  "for_each_extension 0 env pre body ext m = Halt Out_Of_Fuel"
| "for_each_extension (Suc k) env pre body ext m =
     (if ext = 0 then Ok () m
      else let m1 = pre ext m in
           case iter_from_extension env ext m1 of
             None \<Rightarrow> Halt Undefined_Behaviour
           | Some it \<Rightarrow> obind (body it m1) (\<lambda>_ m2.
               for_each_extension k env pre body (load_ptr m2 (ext + ext_next_offset)) m2))"

definition message_defaults ::
  "(pb_field_iter_t \<Rightarrow> mem \<Rightarrow> mstep) \<Rightarrow> pb_field_ptr \<Rightarrow> addr \<Rightarrow> mem \<Rightarrow> mstep" where
  "message_defaults setf ptr dest m =
     (case ptr of
        Ptr_fields fs \<Rightarrow>
          (case pb_field_iter_begin fs dest of
             (False, _) \<Rightarrow> Ok () m
           | (True, it) \<Rightarrow> for_each_field setf it m)
      | _ \<Rightarrow> Halt Undefined_Behaviour)"

primrec pb_field_set_to_default :: "nat \<Rightarrow> pb_env \<Rightarrow> pb_field_iter_t \<Rightarrow> mem \<Rightarrow> mstep" where
  "pb_field_set_to_default 0 env it m = Halt Out_Of_Fuel"
| "pb_field_set_to_default (Suc n) env it m =
     (let field = pos_field it in
      if ltype_of field = PB_LTYPE_EXTENSION
      then for_each_extension n env (\<lambda>ext m. m(ext + ext_found_offset := 0))
             (pb_field_set_to_default n env) (load_ptr m (pData it)) m
      else if atype_of field = PB_ATYPE_STATIC
      then (if htype_of field = PB_HTYPE_REPEATED \<or> htype_of field = PB_HTYPE_ONEOF
            then Ok () (store_word 4 m (pSize it) (0 :: pb_size_t))
            else let m1 = (if htype_of field = PB_HTYPE_OPTIONAL \<and> pSize it \<noteq> pData it
                           then m(pSize it := 0) else m) in
              if ltype_of field = PB_LTYPE_SUBMESSAGE
              then message_defaults (pb_field_set_to_default n env) (f_ptr field) (pData it) m1
              else (case f_ptr field of
                      Ptr_null \<Rightarrow>
                        Ok () (store_bytes m1 (pData it) (replicate (unat (f_data_size field)) 0))
                    | Ptr_default bs \<Rightarrow>
                        if length bs < unat (f_data_size field) then Halt Undefined_Behaviour
                        else Ok () (store_bytes m1 (pData it) (take (unat (f_data_size field)) bs))
                    | Ptr_fields _ \<Rightarrow> Halt Undefined_Behaviour))
      else if atype_of field = PB_ATYPE_POINTER
      then (let m1 = store_ptr m (pData it) 0 in
            if htype_of field = PB_HTYPE_REPEATED \<or> htype_of field = PB_HTYPE_ONEOF
            then Ok () (store_word 4 m1 (pSize it) (0 :: pb_size_t)) else Ok () m1)
      else Ok () m)"

definition pb_message_set_to_defaults ::
  "nat \<Rightarrow> pb_env \<Rightarrow> pb_field_ptr \<Rightarrow> addr \<Rightarrow> mem \<Rightarrow> mstep" where
  "pb_message_set_to_defaults n env ptr dest m =
     message_defaults (pb_field_set_to_default n env) ptr dest m"

section \<open>Dynamic allocation\<close>

text \<open>\<^verbatim>\<open>allocate_field\<close>, with the multiplication check by half-width limits.\<close>

definition allocate_field ::
  "pb_env \<Rightarrow> pb_istream_t \<Rightarrow> addr \<Rightarrow> size_t \<Rightarrow> size_t \<Rightarrow> mem \<Rightarrow> unit istep" where
  "allocate_field env s p data_size array_size m =
     (let ptr = load_ptr m p; check_limit = push_bit 32 1 :: size_t; size_max = - 1 :: size_t in
      if data_size = 0 \<or> array_size = 0 then PB_RETURN_ERROR_i s ''invalid size'' m
      else if (check_limit \<le> data_size \<or> check_limit \<le> array_size)
              \<and> size_max div array_size < data_size
      then PB_RETURN_ERROR_i s ''size too large'' m
      else case env_realloc env ptr (array_size * data_size) m of
             (ptr', m') \<Rightarrow>
               if ptr' = 0 then PB_RETURN_ERROR_i s ''realloc failed'' m'
               else Ok () (s, store_ptr m' p ptr'))"

definition initialize_pointer_field ::
  "nat \<Rightarrow> pb_env \<Rightarrow> addr \<Rightarrow> pb_field_iter_t \<Rightarrow> mem \<Rightarrow> mstep" where
  "initialize_pointer_field n env item it m =
     (let field = pos_field it in
      if ltype_of field = PB_LTYPE_STRING \<or> ltype_of field = PB_LTYPE_BYTES
      then Ok () (store_ptr m item 0)
      else if ltype_of field = PB_LTYPE_SUBMESSAGE
      then pb_message_set_to_defaults n env (f_ptr field) item m
      else Ok () m)"

text \<open>Releasing: the items of a submessage array, and of an array of strings.\<close>

primrec release_items ::
  "(addr \<Rightarrow> mem \<Rightarrow> mstep) \<Rightarrow> pb_size_t \<Rightarrow> nat \<Rightarrow> addr \<Rightarrow> mem \<Rightarrow> mstep" where
  "release_items rel data_size 0 item m = Ok () m"
| "release_items rel data_size (Suc k) item m =
     obind (rel item m) (\<lambda>_ m'. release_items rel data_size k (item + uint data_size) m')"

primrec release_strings :: "pb_env \<Rightarrow> nat \<Rightarrow> addr \<Rightarrow> mem \<Rightarrow> mem" where
  "release_strings env 0 item m = m"
| "release_strings env (Suc k) item m =
     release_strings env k (item + uint sizeof_pointer)
       (store_ptr (env_free env (load_ptr m item) m) item 0)"

definition release_message ::
  "(pb_field_iter_t \<Rightarrow> mem \<Rightarrow> mstep) \<Rightarrow> pb_field_ptr \<Rightarrow> addr \<Rightarrow> mem \<Rightarrow> mstep" where
  "release_message rel ptr dest m =
     (if dest = 0 then Ok () m
      else case ptr of
        Ptr_fields fs \<Rightarrow>
          (case pb_field_iter_begin fs dest of
             (False, _) \<Rightarrow> Ok () m
           | (True, it) \<Rightarrow> for_each_field rel it m)
      | _ \<Rightarrow> Halt Undefined_Behaviour)"

definition release_pointer :: "pb_env \<Rightarrow> pb_field_iter_t \<Rightarrow> mem \<Rightarrow> mem" where
  "release_pointer env it m =
     (let field = pos_field it; repeated = (htype_of field = PB_HTYPE_REPEATED);
          m1 = (if repeated \<and> (ltype_of field = PB_LTYPE_STRING \<or> ltype_of field = PB_LTYPE_BYTES)
                then release_strings env (unat (load_word 4 m (pSize it) :: pb_size_t))
                       (load_ptr m (pData it)) m
                else m);
          m2 = (if repeated then store_word 4 m1 (pSize it) (0 :: pb_size_t) else m1)
      in store_ptr (env_free env (load_ptr m2 (pData it)) m2) (pData it) 0)"

primrec pb_release_single_field :: "nat \<Rightarrow> pb_env \<Rightarrow> pb_field_iter_t \<Rightarrow> mem \<Rightarrow> mstep" where
  "pb_release_single_field 0 env it m = Halt Out_Of_Fuel"
| "pb_release_single_field (Suc n) env it m =
     (let field = pos_field it; rel = pb_release_single_field n env in
      if htype_of field = PB_HTYPE_ONEOF
         \<and> (load_word 4 m (pSize it) :: pb_size_t) \<noteq> f_tag field
      then Ok () m
      else obind
        (if ltype_of field = PB_LTYPE_EXTENSION
         then for_each_extension n env (\<lambda>_ m. m) rel (load_ptr m (pData it)) m
         else if ltype_of field = PB_LTYPE_SUBMESSAGE
         then (let item = (if atype_of field = PB_ATYPE_POINTER then load_ptr m (pData it)
                           else pData it);
                   stored = (load_word 4 m (pSize it) :: pb_size_t);
                   count = (if htype_of field = PB_HTYPE_REPEATED
                            then (if atype_of field = PB_ATYPE_STATIC \<and> f_array_size field < stored
                                  then f_array_size field else stored)
                            else 1)
               in if item \<noteq> 0
                  then release_items (release_message rel (f_ptr field)) (f_data_size field)
                         (unat count) item m
                  else Ok () m)
         else Ok () m)
        (\<lambda>_ m1. if atype_of field = PB_ATYPE_POINTER then Ok () (release_pointer env it m1)
                else Ok () m1))"

definition pb_release :: "nat \<Rightarrow> pb_env \<Rightarrow> pb_field_t list \<Rightarrow> addr \<Rightarrow> mem \<Rightarrow> mstep" where
  "pb_release n env fs dest m =
     release_message (pb_release_single_field n env) (Ptr_fields fs) dest m"

text \<open>\<^verbatim>\<open>pb_release_union_field\<close> moves the caller's iterator, so it returns it.\<close>

definition pb_release_union_field ::
  "nat \<Rightarrow> pb_env \<Rightarrow> pb_istream_t \<Rightarrow> pb_field_iter_t \<Rightarrow> mem \<Rightarrow> pb_field_iter_t istep" where
  "pb_release_union_field n env s it m =
     (let old_tag = (load_word 4 m (pSize it) :: pb_size_t); new_tag = f_tag (pos_field it) in
      if old_tag = 0 \<or> old_tag = new_tag then Ok it (s, m)
      else case pb_field_iter_find it old_tag of
        None \<Rightarrow> Halt Out_Of_Fuel
      | Some (False, it1) \<Rightarrow> PB_RETURN_ERROR_i s ''invalid union tag'' m
      | Some (True, it1) \<Rightarrow>
          obind (lift_mem s (pb_release_single_field n env it1 m)) (\<lambda>_ (s', m').
            case pb_field_iter_find it1 new_tag of
              None \<Rightarrow> Halt Out_Of_Fuel
            | Some (False, _) \<Rightarrow> PB_RETURN_ERROR_i s' ''iterator error'' m'
            | Some (True, it2) \<Rightarrow> Ok it2 (s', m')))"

section \<open>Field decoders\<close>

text \<open>
  Storing an integer by \<open>data_size\<close>: the memory after the cast store and \<^verbatim>\<open>clamped\<close>, the
  stored value read back at 64 bits; \<open>None\<close> is the \<^verbatim>\<open>"invalid data_size"\<close> branch.
\<close>

definition store_signed :: "pb_size_t \<Rightarrow> mem \<Rightarrow> addr \<Rightarrow> 64 word \<Rightarrow> (mem \<times> 64 word) option" where
  "store_signed data_size m dest v =
     (if data_size = 8 then Some (store_word 8 m dest v, v)
      else if data_size = 4
      then Some (store_word 4 m dest (ucast v :: 32 word), scast (ucast v :: 32 word))
      else if data_size = 2
      then Some (store_word 2 m dest (ucast v :: 16 word), scast (ucast v :: 16 word))
      else if data_size = 1
      then Some (store_word 1 m dest (ucast v :: 8 word), scast (ucast v :: 8 word))
      else None)"

definition store_unsigned :: "pb_size_t \<Rightarrow> mem \<Rightarrow> addr \<Rightarrow> 64 word \<Rightarrow> (mem \<times> 64 word) option" where
  "store_unsigned data_size m dest v =
     (if data_size = 8 then Some (store_word 8 m dest v, v)
      else if data_size = 4
      then Some (store_word 4 m dest (ucast v :: 32 word), ucast (ucast v :: 32 word))
      else if data_size = 2
      then Some (store_word 2 m dest (ucast v :: 16 word), ucast (ucast v :: 16 word))
      else if data_size = 1
      then Some (store_word 1 m dest (ucast v :: 8 word), ucast (ucast v :: 8 word))
      else None)"

text \<open>The common tail of the integer decoders: store, then compare with what was meant.\<close>

definition finish_integer ::
  "(mem \<times> 64 word) option \<Rightarrow> 64 word \<Rightarrow> pb_istream_t \<Rightarrow> mem \<Rightarrow> unit istep" where
  "finish_integer stored v s m =
     (case stored of
        None \<Rightarrow> PB_RETURN_ERROR_i s ''invalid data_size'' m
      | Some (m', clamped) \<Rightarrow>
          if clamped \<noteq> v then PB_RETURN_ERROR_i s ''integer too large'' m' else Ok () (s, m'))"

definition pb_dec_varint :: "pb_env \<Rightarrow> field_decoder" where
  "pb_dec_varint env s field dest m =
     obind (pb_decode_varint env s m) (\<lambda>v (s', m').
       let svalue = (if f_data_size field = 8 then v else scast (ucast v :: 32 word))
       in finish_integer (store_signed (f_data_size field) m' dest svalue) svalue s' m')"

definition pb_dec_uvarint :: "pb_env \<Rightarrow> field_decoder" where
  "pb_dec_uvarint env s field dest m =
     obind (pb_decode_varint env s m) (\<lambda>v (s', m').
       finish_integer (store_unsigned (f_data_size field) m' dest v) v s' m')"

definition pb_dec_svarint :: "pb_env \<Rightarrow> field_decoder" where
  "pb_dec_svarint env s field dest m =
     obind (pb_decode_svarint env s m) (\<lambda>v (s', m').
       finish_integer (store_signed (f_data_size field) m' dest v) v s' m')"

definition pb_dec_fixed32 :: "pb_env \<Rightarrow> field_decoder" where
  "pb_dec_fixed32 env s field dest m = pb_decode_fixed32 env s dest m"

definition pb_dec_fixed64 :: "pb_env \<Rightarrow> field_decoder" where
  "pb_dec_fixed64 env s field dest m = pb_decode_fixed64 env s dest m"

definition pb_dec_bytes :: "pb_env \<Rightarrow> field_decoder" where
  "pb_dec_bytes env s field dest m =
     obind (pb_decode_varint32 env s m) (\<lambda>sz (s1, m1).
       if PB_SIZE_MAX < sz then PB_RETURN_ERROR_i s1 ''bytes overflow'' m1
       else let alloc_size = PB_BYTES_ARRAY_T_ALLOCSIZE (ucast sz) in
       if alloc_size < ucast sz then PB_RETURN_ERROR_i s1 ''size too large'' m1
       else
       let fill = (\<lambda>bdest (s2, m2).
             obind (pb_read env s2 (Dst_mem (bdest + bytes_offset)) (ucast sz)
                      (store_word 4 m2 bdest sz)) (\<lambda>_ st. Ok () st))
       in if atype_of field = PB_ATYPE_POINTER
          then (if \<not> env_malloc env then PB_RETURN_ERROR_i s1 ''no malloc support'' m1
                else obind (allocate_field env s1 dest alloc_size 1 m1) (\<lambda>_ (s2, m2).
                       fill (load_ptr m2 dest) (s2, m2)))
          else if ucast (f_data_size field) < alloc_size
          then PB_RETURN_ERROR_i s1 ''bytes overflow'' m1
          else fill dest (s1, m1))"

text \<open>\<^verbatim>\<open>size + 1\<close> is computed in 32 bits, so the largest length wraps to 0 and is refused.\<close>

definition pb_dec_string :: "pb_env \<Rightarrow> field_decoder" where
  "pb_dec_string env s field dest m =
     obind (pb_decode_varint32 env s m) (\<lambda>sz (s1, m1).
       let alloc_size = ucast (sz + 1) :: size_t in
       if alloc_size < ucast sz then PB_RETURN_ERROR_i s1 ''size too large'' m1
       else
       let fill = (\<lambda>d (s2, m2).
             case pb_read env s2 (Dst_mem d) (ucast sz) m2 of
               Ok _ (s3, m3) \<Rightarrow> Ok () (s3, m3(d + uint sz := 0))
             | Fail (s3, m3) \<Rightarrow> Fail (s3, m3(d + uint sz := 0))
             | Halt e \<Rightarrow> Halt e)
       in if atype_of field = PB_ATYPE_POINTER
          then (if \<not> env_malloc env then PB_RETURN_ERROR_i s1 ''no malloc support'' m1
                else obind (allocate_field env s1 dest alloc_size 1 m1) (\<lambda>_ (s2, m2).
                       fill (load_ptr m2 dest) (s2, m2)))
          else if ucast (f_data_size field) < alloc_size
          then PB_RETURN_ERROR_i s1 ''string overflow'' m1
          else fill dest (s1, m1))"

text \<open>
  \<^verbatim>\<open>pb_decode\<close> over the recursive call: defaults first, then the fields; with an
  allocator, a failed message is released.
\<close>

definition pb_decode_with :: "nat \<Rightarrow> decode_fun \<Rightarrow> pb_env \<Rightarrow> decode_fun" where
  "pb_decode_with n dec env fs dest s m =
     obind (lift_mem s (pb_message_set_to_defaults n env (Ptr_fields fs) dest m)) (\<lambda>_ (s1, m1).
       case dec fs dest s1 m1 of
         Fail (s2, m2) \<Rightarrow>
           if env_malloc env
           then obind (lift_mem s2 (pb_release n env fs dest m2)) (\<lambda>_ st. Fail st)
           else Fail (s2, m2)
       | r \<Rightarrow> r)"

definition pb_dec_submessage :: "nat \<Rightarrow> decode_fun \<Rightarrow> pb_env \<Rightarrow> field_decoder" where
  "pb_dec_submessage n dec env s field dest m =
     obind (pb_make_string_substream env s m) (\<lambda>sub (s1, m1).
       case f_ptr field of
         Ptr_null \<Rightarrow> PB_RETURN_ERROR_i s1 ''invalid field descriptor'' m1
       | Ptr_default _ \<Rightarrow> Halt Undefined_Behaviour
       | Ptr_fields fs \<Rightarrow>
           let finish = (\<lambda>status (sub2, m2).
                 obind (pb_close_string_substream env s1 sub2 m2) (\<lambda>_ st.
                   if status then Ok () st else Fail st))
           in case (if htype_of field = PB_HTYPE_REPEATED
                    then pb_decode_with n dec env fs dest sub m1
                    else dec fs dest sub m1) of
                Ok _ st \<Rightarrow> finish True st
              | Fail st \<Rightarrow> finish False st
              | Halt e \<Rightarrow> Halt e)"

definition pb_dec_fixed_length_bytes :: "pb_env \<Rightarrow> field_decoder" where
  "pb_dec_fixed_length_bytes env s field dest m =
     obind (pb_decode_varint32 env s m) (\<lambda>sz (s1, m1).
       if PB_SIZE_MAX < sz then PB_RETURN_ERROR_i s1 ''bytes overflow'' m1
       else if sz = 0
       then Ok () (s1, store_bytes m1 dest (replicate (unat (f_data_size field)) 0))
       else if sz \<noteq> f_data_size field
       then PB_RETURN_ERROR_i s1 ''incorrect fixed length bytes size'' m1
       else obind (pb_read env s1 (Dst_mem dest) (ucast (f_data_size field)) m1) (\<lambda>_ st. Ok () st))"

definition PB_DECODERS :: "nat \<Rightarrow> decode_fun \<Rightarrow> pb_env \<Rightarrow> pb_type_t \<Rightarrow> field_decoder" where
  "PB_DECODERS n dec env lt =
     (if lt = PB_LTYPE_VARINT then pb_dec_varint env
      else if lt = PB_LTYPE_UVARINT then pb_dec_uvarint env
      else if lt = PB_LTYPE_SVARINT then pb_dec_svarint env
      else if lt = PB_LTYPE_FIXED32 then pb_dec_fixed32 env
      else if lt = PB_LTYPE_FIXED64 then pb_dec_fixed64 env
      else if lt = PB_LTYPE_BYTES then pb_dec_bytes env
      else if lt = PB_LTYPE_STRING then pb_dec_string env
      else if lt = PB_LTYPE_SUBMESSAGE then pb_dec_submessage n dec env
      else if lt = PB_LTYPE_FIXED_LENGTH_BYTES then pb_dec_fixed_length_bytes env
      else (\<lambda>s field dest m. Halt Undefined_Behaviour))"

section \<open>Static fields\<close>

text \<open>
  The item address is computed in the width of \<^verbatim>\<open>pb_size_t\<close>, as the C expression is.
\<close>

definition item_addr :: "pb_field_t \<Rightarrow> addr \<Rightarrow> pb_size_t \<Rightarrow> addr" where
  "item_addr field base i = base + uint (f_data_size field * i)"

text \<open>The packed-array loop: \<open>False\<close> is the \<^verbatim>\<open>status = false; break\<close> exit.\<close>

primrec decode_packed ::
  "nat \<Rightarrow> field_decoder \<Rightarrow> pb_field_iter_t \<Rightarrow> pb_istream_t \<Rightarrow> mem \<Rightarrow> bool istep" where
  "decode_packed 0 func it sub m = Halt Out_Of_Fuel"
| "decode_packed (Suc k) func it sub m =
     (let size = load_word 4 m (pSize it) :: pb_size_t; field = pos_field it in
      if 0 < bytes_left sub \<and> size < f_array_size field
      then (case func sub field (item_addr field (pData it) size) m of
              Fail st \<Rightarrow> Ok False st
            | Halt e \<Rightarrow> Halt e
            | Ok _ (sub', m') \<Rightarrow>
                decode_packed k func it sub'
                  (store_word 4 m' (pSize it) ((load_word 4 m' (pSize it) :: pb_size_t) + 1)))
      else Ok True (sub, m))"

definition decode_static_field ::
  "nat \<Rightarrow> decode_fun \<Rightarrow> pb_env \<Rightarrow> pb_istream_t \<Rightarrow> pb_wire_type_t \<Rightarrow> pb_field_iter_t \<Rightarrow> mem
    \<Rightarrow> unit istep" where
  "decode_static_field n dec env s wire_type it m =
     (let field = pos_field it; func = PB_DECODERS n dec env (ltype_of field) in
      if PB_LTYPES_COUNT \<le> ltype_of field then Halt Undefined_Behaviour
      else if htype_of field = PB_HTYPE_REQUIRED then func s field (pData it) m
      else if htype_of field = PB_HTYPE_OPTIONAL
      then func s field (pData it) (if pSize it \<noteq> pData it then m(pSize it := 1) else m)
      else if htype_of field = PB_HTYPE_REPEATED
      then (if wire_type = PB_WT_STRING \<and> ltype_of field \<le> PB_LTYPE_LAST_PACKABLE
            then obind (pb_make_string_substream env s m) (\<lambda>sub (s1, m1).
                   case decode_packed n func it sub m1 of
                     Ok status (sub2, m2) \<Rightarrow>
                       if bytes_left sub2 \<noteq> 0 then PB_RETURN_ERROR_i s1 ''array overflow'' m2
                       else obind (pb_close_string_substream env s1 sub2 m2) (\<lambda>_ st.
                              if status then Ok () st else Fail st)
                   | Fail (sub2, m2) \<Rightarrow> Fail (s1, m2)
                   | Halt e \<Rightarrow> Halt e)
            else let size = load_word 4 m (pSize it) :: pb_size_t in
                 if f_array_size field \<le> size then PB_RETURN_ERROR_i s ''array overflow'' m
                 else func s field (item_addr field (pData it) size)
                        (store_word 4 m (pSize it) (size + 1)))
      else if htype_of field = PB_HTYPE_ONEOF
      then (let m1 = store_word 4 m (pSize it) (f_tag field) in
            if ltype_of field = PB_LTYPE_SUBMESSAGE
            then obind (lift_mem s (pb_message_set_to_defaults n env (f_ptr field) (pData it)
                    (store_bytes m1 (pData it) (replicate (unat (f_data_size field)) 0))))
                   (\<lambda>_ (s2, m2). func s2 field (pData it) m2)
            else func s field (pData it) m1)
      else PB_RETURN_ERROR_i s ''invalid field type'' m)"

section \<open>Pointer fields\<close>

text \<open>
  The packed loop of \<^verbatim>\<open>decode_pointer_field\<close>. The result is the pair of \<^verbatim>\<open>status\<close> and
  whether the loop set the parent's message to \<^verbatim>\<open>"too many array entries"\<close>.
\<close>

primrec decode_pointer_packed ::
  "nat \<Rightarrow> nat \<Rightarrow> field_decoder \<Rightarrow> pb_env \<Rightarrow> pb_field_iter_t \<Rightarrow> size_t \<Rightarrow> pb_istream_t \<Rightarrow> mem
    \<Rightarrow> (bool \<times> bool) istep" where
  "decode_pointer_packed 0 n func env it allocated sub m = Halt Out_Of_Fuel"
| "decode_pointer_packed (Suc k) n func env it allocated sub m =
     (let field = pos_field it; data_size = f_data_size field;
          size = load_word 4 m (pSize it) :: pb_size_t in
      if bytes_left sub = 0 then Ok (True, False) (sub, m)
      else
      let grow = allocated < ucast size + 1;
          allocated' = (if grow then allocated + ((bytes_left sub - 1) div ucast data_size + 1)
                        else allocated)
      in if grow \<and> data_size = 0 then Halt Undefined_Behaviour
      else case (if grow then allocate_field env sub (pData it) (ucast data_size) allocated' m
                 else Ok () (sub, m)) of
        Halt e \<Rightarrow> Halt e
      | Fail st \<Rightarrow> Ok (False, False) st
      | Ok _ (sub1, m1) \<Rightarrow>
          let item = item_addr field (load_ptr m1 (pData it)) (load_word 4 m1 (pSize it)) in
          obind (lift_mem sub1 (initialize_pointer_field n env item it m1)) (\<lambda>_ (sub2, m2).
            case func sub2 field item m2 of
              Halt e \<Rightarrow> Halt e
            | Fail st \<Rightarrow> Ok (False, False) st
            | Ok _ (sub3, m3) \<Rightarrow>
                let size3 = load_word 4 m3 (pSize it) :: pb_size_t in
                if size3 = PB_SIZE_MAX then Ok (False, True) (sub3, m3)
                else decode_pointer_packed k n func env it allocated' sub3
                       (store_word 4 m3 (pSize it) (size3 + 1))))"

definition decode_pointer_field ::
  "nat \<Rightarrow> decode_fun \<Rightarrow> pb_env \<Rightarrow> pb_istream_t \<Rightarrow> pb_wire_type_t \<Rightarrow> pb_field_iter_t \<Rightarrow> mem
    \<Rightarrow> unit istep" where
  "decode_pointer_field n dec env s wire_type it m =
     (if \<not> env_malloc env then PB_RETURN_ERROR_i s ''no malloc support'' m
      else
      let field = pos_field it; lt = ltype_of field; ht = htype_of field;
          func = PB_DECODERS n dec env lt; data_size = ucast (f_data_size field) :: size_t in
      if PB_LTYPES_COUNT \<le> lt then Halt Undefined_Behaviour
      else if ht = PB_HTYPE_REQUIRED \<or> ht = PB_HTYPE_OPTIONAL \<or> ht = PB_HTYPE_ONEOF
      then obind
        (if lt = PB_LTYPE_SUBMESSAGE \<and> load_ptr m (pData it) \<noteq> 0
         then lift_mem s (pb_release_single_field n env it m) else Ok () (s, m))
        (\<lambda>_ (s1, m1).
           let m2 = (if ht = PB_HTYPE_ONEOF then store_word 4 m1 (pSize it) (f_tag field) else m1)
           in if lt = PB_LTYPE_STRING \<or> lt = PB_LTYPE_BYTES then func s1 field (pData it) m2
              else obind (allocate_field env s1 (pData it) data_size 1 m2) (\<lambda>_ (s3, m3).
                obind (lift_mem s3 (initialize_pointer_field n env (load_ptr m3 (pData it)) it m3))
                  (\<lambda>_ (s4, m4). func s4 field (load_ptr m4 (pData it)) m4)))
      else if ht = PB_HTYPE_REPEATED
      then (if wire_type = PB_WT_STRING \<and> lt \<le> PB_LTYPE_LAST_PACKABLE
            then obind (pb_make_string_substream env s m) (\<lambda>sub (s1, m1).
                   case decode_pointer_packed n n func env it
                          (ucast (load_word 4 m1 (pSize it) :: pb_size_t)) sub m1 of
                     Halt e \<Rightarrow> Halt e
                   | Fail (sub2, m2) \<Rightarrow> Fail (s1, m2)
                   | Ok (status, too_many) (sub2, m2) \<Rightarrow>
                       let s2 = (if too_many
                                 then s1\<lparr>is_errmsg := Some ''too many array entries''\<rparr> else s1)
                       in obind (pb_close_string_substream env s2 sub2 m2) (\<lambda>_ st.
                            if status then Ok () st else Fail st))
            else let size = load_word 4 m (pSize it) :: pb_size_t in
                 if size = PB_SIZE_MAX then PB_RETURN_ERROR_i s ''too many array entries'' m
                 else obind (allocate_field env s (pData it) data_size (ucast (size + 1))
                        (store_word 4 m (pSize it) (size + 1))) (\<lambda>_ (s1, m1).
                   let item = item_addr field (load_ptr m1 (pData it))
                                (load_word 4 m1 (pSize it) - 1)
                   in obind (lift_mem s1 (initialize_pointer_field n env item it m1))
                        (\<lambda>_ (s2, m2). func s2 field item m2)))
      else PB_RETURN_ERROR_i s ''invalid field type'' m)"

section \<open>Callback fields\<close>

text \<open>\<^verbatim>\<open>do { callback } while (substream.bytes_left)\<close>, one unit of fuel per call.\<close>

primrec decode_callback_loop ::
  "nat \<Rightarrow> (pb_istream_t \<Rightarrow> mem \<Rightarrow> unit istep) \<Rightarrow> pb_istream_t \<Rightarrow> mem \<Rightarrow> unit istep" where
  "decode_callback_loop 0 cb sub m = Halt Out_Of_Fuel"
| "decode_callback_loop (Suc k) cb sub m =
     obind (cb sub m) (\<lambda>_ (sub', m').
       if bytes_left sub' \<noteq> 0 then decode_callback_loop k cb sub' m' else Ok () (sub', m'))"

definition decode_callback_field ::
  "nat \<Rightarrow> pb_env \<Rightarrow> pb_istream_t \<Rightarrow> pb_wire_type_t \<Rightarrow> pb_field_iter_t \<Rightarrow> mem \<Rightarrow> unit istep" where
  "decode_callback_field n env s wire_type it m =
     (let decode = load_ptr m (pData it);
          cb = (\<lambda>sub m. env_decode_callback env decode sub (pos_field it)
                         (pData it + callback_arg_offset) m) in
      if decode = 0 then pb_skip_field n env s wire_type m
      else if wire_type = PB_WT_STRING
      then obind (pb_make_string_substream env s m) (\<lambda>sub (s1, m1).
             case decode_callback_loop n cb sub m1 of
               Ok _ (sub2, m2) \<Rightarrow> pb_close_string_substream env s1 sub2 m2
             | Fail (sub2, m2) \<Rightarrow> PB_RETURN_ERROR_i s1 ''callback failed'' m2
             | Halt e \<Rightarrow> Halt e)
      else obind (read_raw_value env s wire_type 10 m) (\<lambda>buffer (s1, m1).
             case cb (pb_istream_from_buffer buffer (of_nat (length buffer))) m1 of
               Ok _ (sub2, m2) \<Rightarrow> Ok () (s1, m2)
             | Fail (sub2, m2) \<Rightarrow> Fail (s1, m2)
             | Halt e \<Rightarrow> Halt e))"

text \<open>\<^verbatim>\<open>decode_field\<close> returns the iterator, which the release of a union may have moved.\<close>

definition decode_field ::
  "nat \<Rightarrow> decode_fun \<Rightarrow> pb_env \<Rightarrow> pb_istream_t \<Rightarrow> pb_wire_type_t \<Rightarrow> pb_field_iter_t \<Rightarrow> mem
    \<Rightarrow> pb_field_iter_t istep" where
  "decode_field n dec env s wire_type it m =
     obind (if env_malloc env \<and> htype_of (pos_field it) = PB_HTYPE_ONEOF
            then pb_release_union_field n env s it m else Ok it (s, m)) (\<lambda>it' (s', m').
       let at = atype_of (pos_field it') in
       obind (if at = PB_ATYPE_STATIC then decode_static_field n dec env s' wire_type it' m'
              else if at = PB_ATYPE_POINTER
              then decode_pointer_field n dec env s' wire_type it' m'
              else if at = PB_ATYPE_CALLBACK then decode_callback_field n env s' wire_type it' m'
              else PB_RETURN_ERROR_i s' ''invalid field type'' m')
         (\<lambda>_ st. Ok it' st))"

section \<open>Extensions\<close>

definition default_extension_decoder ::
  "nat \<Rightarrow> decode_fun \<Rightarrow> pb_env \<Rightarrow> pb_istream_t \<Rightarrow> addr \<Rightarrow> 32 word \<Rightarrow> pb_wire_type_t \<Rightarrow> mem
    \<Rightarrow> unit istep" where
  "default_extension_decoder n dec env s ext tag wire_type m =
     (case iter_from_extension env ext m of
        None \<Rightarrow> Halt Undefined_Behaviour
      | Some it \<Rightarrow>
          if f_tag (pos_field it) \<noteq> tag then Ok () (s, m)
          else obind (decode_field n dec env s wire_type it (m(ext + ext_found_offset := 1)))
                 (\<lambda>_ st. Ok () st))"

text \<open>\<open>left0\<close> is \<^verbatim>\<open>bytes_left\<close> at the start: the walk stops when a handler consumed input.\<close>

primrec decode_extensions ::
  "nat \<Rightarrow> nat \<Rightarrow> decode_fun \<Rightarrow> pb_env \<Rightarrow> pb_istream_t \<Rightarrow> size_t \<Rightarrow> addr \<Rightarrow> 32 word \<Rightarrow> pb_wire_type_t
    \<Rightarrow> mem \<Rightarrow> unit istep" where
  "decode_extensions 0 n dec env s left0 ext tag wire_type m = Halt Out_Of_Fuel"
| "decode_extensions (Suc k) n dec env s left0 ext tag wire_type m =
     (if ext = 0 \<or> left0 \<noteq> bytes_left s then Ok () (s, m)
      else case env_ext_type env (load_ptr m ext) of
             None \<Rightarrow> Halt Undefined_Behaviour
           | Some ty \<Rightarrow>
               obind (if et_decode ty \<noteq> 0
                      then env_ext_decode env (et_decode ty) s ext tag wire_type m
                      else default_extension_decoder n dec env s ext tag wire_type m)
                 (\<lambda>_ (s', m'). decode_extensions k n dec env s' left0
                                (load_ptr m' (ext + ext_next_offset)) tag wire_type m'))"

definition decode_extension ::
  "nat \<Rightarrow> decode_fun \<Rightarrow> pb_env \<Rightarrow> pb_istream_t \<Rightarrow> 32 word \<Rightarrow> pb_wire_type_t \<Rightarrow> pb_field_iter_t \<Rightarrow> mem
    \<Rightarrow> unit istep" where
  "decode_extension n dec env s tag wire_type it m =
     decode_extensions n n dec env s (bytes_left s) (load_ptr m (pData it)) tag wire_type m"

section \<open>Messages\<close>

text \<open>
  A tag that no regular field has: try the extensions if the tag is in their range, skip
  the field otherwise. The results are the iterator and \<^verbatim>\<open>extension_range_start\<close>.
\<close>

definition decode_unknown ::
  "nat \<Rightarrow> decode_fun \<Rightarrow> pb_env \<Rightarrow> pb_istream_t \<Rightarrow> 32 word \<Rightarrow> pb_wire_type_t \<Rightarrow> pb_field_iter_t
    \<Rightarrow> 32 word \<Rightarrow> mem \<Rightarrow> (pb_field_iter_t \<times> 32 word) istep" where
  "decode_unknown n dec env s tag wire_type it range_start m =
     (let skip = (\<lambda>it' start' s m. obind (pb_skip_field n env s wire_type m)
                    (\<lambda>_ st. Ok (it', start') st)) in
      if tag < range_start then skip it range_start s m
      else case find_extension_field it of
        None \<Rightarrow> Halt Out_Of_Fuel
      | Some (found, it') \<Rightarrow>
          let start' = (if found then f_tag (pos_field it') else - 1) in
          if tag < start' then skip it' start' s m
          else obind (decode_extension n dec env s tag wire_type it' m) (\<lambda>_ (s1, m1).
                 if bytes_left s \<noteq> bytes_left s1 then Ok (it', start') (s1, m1)
                 else skip it' start' s1 m1))"

text \<open>\<^verbatim>\<open>fields_seen\<close> is an array of two 32-bit words.\<close>

definition mark_seen :: "pb_field_iter_t \<Rightarrow> 32 word list \<Rightarrow> 32 word list" where
  "mark_seen it seen =
     (let i = required_field_index it in
      if htype_of (pos_field it) = PB_HTYPE_REQUIRED \<and> i < PB_MAX_REQUIRED_FIELDS
      then seen[i div 32 := seen ! (i div 32) OR push_bit (i mod 32) 1] else seen)"

primrec decode_loop ::
  "nat \<Rightarrow> nat \<Rightarrow> decode_fun \<Rightarrow> pb_env \<Rightarrow> pb_field_iter_t \<Rightarrow> 32 word list \<Rightarrow> 32 word \<Rightarrow> pb_istream_t \<Rightarrow> mem
    \<Rightarrow> (pb_field_iter_t \<times> 32 word list) istep" where
  "decode_loop 0 n dec env it seen range_start s m = Halt Out_Of_Fuel"
| "decode_loop (Suc k) n dec env it seen range_start s m =
     (if bytes_left s = 0 then Ok (it, seen) (s, m)
      else obind (pb_decode_tag env s m) (\<lambda>r (s1, m1).
        case r of
          Tag_eof \<Rightarrow> Ok (it, seen) (s1, m1)
        | Tag wire_type tag \<Rightarrow>
            (case pb_field_iter_find it tag of
               None \<Rightarrow> Halt Out_Of_Fuel
             | Some (False, it1) \<Rightarrow>
                 obind (decode_unknown n dec env s1 tag wire_type it1 range_start m1)
                   (\<lambda>(it2, start2) (s2, m2). decode_loop k n dec env it2 seen start2 s2 m2)
             | Some (True, it1) \<Rightarrow>
                 obind (decode_field n dec env s1 wire_type it1 m1) (\<lambda>it2 (s2, m2).
                   decode_loop k n dec env it2 (mark_seen it1 seen) range_start s2 m2))))"

text \<open>
  \<^verbatim>\<open>req_field_count\<close>: the iterator runs to the end of the array, remembering the index
  and type of the last field; then \<^verbatim>\<open>iter.pos\<close> is back at the first entry.
\<close>

definition req_field_count :: "pb_field_iter_t \<Rightarrow> nat" where
  "req_field_count it =
     (case for_each_field (\<lambda>it _. Ok () (required_field_index it, f_type (pos_field it))) it (0, 0) of
        Ok _ (count, last_type) \<Rightarrow>
          if PB_HTYPE last_type = PB_HTYPE_REQUIRED \<and> f_tag (field_at (it_start it) 0) \<noteq> 0
          then Suc count else count
      | _ \<Rightarrow> 0)"

text \<open>
  The whole words, then the remaining bits. Reading past \<^verbatim>\<open>fields_seen\<close> is undefined, and
  so is the shift by 32 that a multiple of 32 required fields leads to. \<open>None\<close> stands for
  both.
\<close>

primrec check_whole_words :: "nat \<Rightarrow> 32 word list \<Rightarrow> nat \<Rightarrow> bool option" where
  "check_whole_words 0 seen i = Some True"
| "check_whole_words (Suc k) seen i =
     (if length seen \<le> i then None
      else if seen ! i \<noteq> - 1 then Some False
      else check_whole_words k seen (Suc i))"

definition check_required :: "32 word list \<Rightarrow> nat \<Rightarrow> bool option" where
  "check_required seen count =
     (if count = 0 then Some True
      else case check_whole_words (count div 32) seen 0 of
        None \<Rightarrow> None
      | Some False \<Rightarrow> Some False
      | Some True \<Rightarrow>
          if length seen \<le> count div 32 \<or> count mod 32 = 0 then None
          else Some (seen ! (count div 32) = drop_bit (32 - count mod 32) (- 1)))"

primrec pb_decode_noinit :: "nat \<Rightarrow> pb_env \<Rightarrow> decode_fun" where
  "pb_decode_noinit 0 env fs dest s m = Halt Out_Of_Fuel"
| "pb_decode_noinit (Suc n) env fs dest s m =
     obind (decode_loop (Suc n) n (pb_decode_noinit n env) env
              (snd (pb_field_iter_begin fs dest)) [0, 0] 0 s m) (\<lambda>(it, seen) (s', m').
       case check_required seen (req_field_count it) of
         None \<Rightarrow> Halt Undefined_Behaviour
       | Some False \<Rightarrow> PB_RETURN_ERROR_i s' ''missing required field'' m'
       | Some True \<Rightarrow> Ok () (s', m'))"

definition pb_decode :: "nat \<Rightarrow> pb_env \<Rightarrow> decode_fun" where
  "pb_decode n env = pb_decode_with n (pb_decode_noinit n env) env"

definition pb_decode_delimited :: "nat \<Rightarrow> pb_env \<Rightarrow> decode_fun" where
  "pb_decode_delimited n env fs dest s m =
     obind (pb_make_string_substream env s m) (\<lambda>sub (s1, m1).
       let finish = (\<lambda>status (sub2, m2).
             obind (pb_close_string_substream env s1 sub2 m2) (\<lambda>_ st.
               if status then Ok () st else Fail st))
       in case pb_decode n env fs dest sub m1 of
            Ok _ st \<Rightarrow> finish True st
          | Fail st \<Rightarrow> finish False st
          | Halt e \<Rightarrow> Halt e)"

end
