(* ===== verification/Pb_Safe.thy ===== *)
theory Pb_Safe
  imports Pb_Wire_Props Pb_Layout Pb_Decode
begin

text \<open>
  The safety judgement of the decoder. \<open>safe Q j lo hi s m x\<close>: started on the buffer
  stream \<open>s\<close> and memory \<open>m\<close>, the step \<open>x\<close> does not stop (no undefined behaviour, enough
  fuel), writes memory only in \<open>[lo, hi)\<close>, and leaves the stream inside its buffer; on
  success it has consumed at least \<open>j\<close> bytes and its value satisfies \<open>Q\<close>.
\<close>

section \<open>Streams\<close>

text \<open>Consuming \<open>k\<close> bytes, whatever the error message is.\<close>

definition ate :: "pb_istream_t \<Rightarrow> nat \<Rightarrow> pb_istream_t \<Rightarrow> bool" where
  "ate s k s' \<longleftrightarrow> k \<le> unat (bytes_left s) \<and> (\<exists>e. s' = (buf_eat k s)\<lparr>is_errmsg := e\<rparr>)"

text \<open>Bytes of the buffer object behind what the stream may still read.\<close>

definition slack :: "pb_istream_t \<Rightarrow> nat" where
  "slack s = length (buf_bytes s) - unat (bytes_left s)"

lemma buf_ok_errmsg [simp]: "buf_ok (s\<lparr>is_errmsg := e\<rparr>) = buf_ok s"
  by (simp add: buf_ok_def)

lemma buf_ok_set_error [simp]: "buf_ok (PB_SET_ERROR_i s e) = buf_ok s"
  by (simp add: buf_ok_def)

lemma slack_errmsg [simp]: "slack (s\<lparr>is_errmsg := e\<rparr>) = slack s" "slack (PB_SET_ERROR_i s msg) = slack s"
  by (simp_all add: slack_def)

lemma buf_eat_errmsg: "buf_eat k (s\<lparr>is_errmsg := e\<rparr>) = (buf_eat k s)\<lparr>is_errmsg := e\<rparr>"
  by (simp add: buf_eat_def buf_adv_def)

lemma ate_eat: "buf_ok s \<Longrightarrow> k \<le> unat (bytes_left s) \<Longrightarrow> ate s k (buf_eat k s)"
  unfolding ate_def by (metis pb_istream_t.surjective pb_istream_t.update_convs(4))

lemma ate_0: "buf_ok s \<Longrightarrow> ate s 0 s"
  using ate_eat [of s 0] by (simp add: buf_eat_0)

lemma ate_errmsg: "ate s k s' \<Longrightarrow> ate s k (s'\<lparr>is_errmsg := e\<rparr>)"
  unfolding ate_def by auto

lemma ate_set_error: "ate s k s' \<Longrightarrow> ate s k (PB_SET_ERROR_i s' e)"
  unfolding PB_SET_ERROR_i_def by (rule ate_errmsg)

lemma ate_ok:
  assumes "buf_ok s" "ate s k s'"
  shows "buf_ok s'" "unat (bytes_left s') = unat (bytes_left s) - k" "k \<le> unat (bytes_left s)"
    "buf_avail s' = drop k (buf_avail s)" "buf_bytes s' = drop k (buf_bytes s)" "slack s' = slack s"
proof -
  obtain e where s': "s' = (buf_eat k s)\<lparr>is_errmsg := e\<rparr>" and k: "k \<le> unat (bytes_left s)"
    using assms(2) by (auto simp: ate_def)
  note ok = buf_eat_ok [OF assms(1) k]
  show "buf_ok s'" "unat (bytes_left s') = unat (bytes_left s) - k" "k \<le> unat (bytes_left s)"
    "buf_avail s' = drop k (buf_avail s)"
    using ok k by (simp_all add: s' buf_avail_def)
  show b: "buf_bytes s' = drop k (buf_bytes s)"
    by (simp add: s' buf_eat_def buf_adv_def)
  show "slack s' = slack s"
    using ok(3) k assms(1) by (simp add: slack_def b) (simp add: s' buf_ok_def)
qed

lemma ate_trans:
  assumes "buf_ok s" "ate s k s'" "ate s' j s''"
  shows "ate s (k + j) s''"
proof -
  obtain e where s': "s' = (buf_eat k s)\<lparr>is_errmsg := e\<rparr>" and k: "k \<le> unat (bytes_left s)"
    using assms(2) by (auto simp: ate_def)
  have j: "k + j \<le> unat (bytes_left s)"
    using assms(3) ate_ok(2) [OF assms(1,2)] k by (auto simp: ate_def)
  obtain e' where "s'' = (buf_eat j s')\<lparr>is_errmsg := e'\<rparr>" using assms(3) by (auto simp: ate_def)
  then have "s'' = (buf_eat (k + j) s)\<lparr>is_errmsg := e'\<rparr>"
    by (simp add: s' buf_eat_errmsg buf_eat_eat [OF assms(1) j])
  with j show ?thesis by (auto simp: ate_def)
qed

section \<open>The judgement\<close>

definition safe ::
  "('a \<Rightarrow> bool) \<Rightarrow> nat \<Rightarrow> addr \<Rightarrow> addr \<Rightarrow> pb_istream_t \<Rightarrow> mem \<Rightarrow> 'a istep \<Rightarrow> bool" where
  "safe Q j lo hi s m x \<longleftrightarrow>
     owp (\<lambda>a (s', m'). Q a \<and> (\<exists>k\<ge>j. ate s k s') \<and> same_outside lo hi m m')
       (\<lambda>(s', m'). buf_ok s' \<and> slack s \<le> slack s' \<and> same_outside lo hi m m') (\<lambda>_. False) x"

lemma safe_bind:
  assumes s: "buf_ok s" and x: "safe P i lo hi s m x"
    and f: "\<And>a s' m'. P a \<Longrightarrow> buf_ok s' \<Longrightarrow> unat (bytes_left s') + i \<le> unat (bytes_left s) \<Longrightarrow>
      safe Q j lo hi s' m' (f a (s', m'))"
  shows "safe Q (i + j) lo hi s m (obind x f)"
  unfolding safe_def owp_obind
proof (rule owp_mono [OF x [unfolded safe_def]])
  fix a st assume "case st of (s', m') \<Rightarrow> P a \<and> (\<exists>k\<ge>i. ate s k s') \<and> same_outside lo hi m m'"
  then obtain s' m' k where st: "st = (s', m')" and a: "P a" "i \<le> k" "ate s k s'" "same_outside lo hi m m'"
    by (cases st) auto
  note ok = ate_ok [OF s a(3)]
  have "safe Q j lo hi s' m' (f a (s', m'))" by (rule f) (use a ok in auto)
  then show "owp (\<lambda>a (s', m'). Q a \<and> (\<exists>k\<ge>i + j. ate s k s') \<and> same_outside lo hi m m')
      (\<lambda>(s', m'). buf_ok s' \<and> slack s \<le> slack s' \<and> same_outside lo hi m m') (\<lambda>_. False) (f a st)"
    unfolding st safe_def
    by (rule owp_mono)
       (use a ok(6) in \<open>auto intro: same_outside_trans dest: ate_trans [OF s a(3)] intro: add_mono\<close>)
qed auto

lemma safe_weaken:
  "safe P j lo hi s m x \<Longrightarrow> (\<And>a. P a \<Longrightarrow> Q a) \<Longrightarrow> i \<le> j \<Longrightarrow> lo' \<le> lo \<Longrightarrow> hi \<le> hi' \<Longrightarrow> safe Q i lo' hi' s m x"
  unfolding safe_def
  by (erule owp_mono) (auto intro: same_outside_weaken order_trans)

lemma safe_pre:
  assumes "same_outside lo hi m m1" "safe Q j lo hi s m1 x"
  shows "safe Q j lo hi s m x"
  using assms(2) unfolding safe_def
  by (rule owp_mono) (auto intro: same_outside_trans [OF assms(1)])

lemma safe_error:
  "buf_ok s' \<Longrightarrow> slack s \<le> slack s' \<Longrightarrow> same_outside lo hi m m' \<Longrightarrow>
    safe Q j lo hi s m (PB_RETURN_ERROR_i s' e m')"
  by (simp add: safe_def PB_RETURN_ERROR_i_def)

lemma safe_Ok: "buf_ok s \<Longrightarrow> Q a \<Longrightarrow> same_outside lo hi m m' \<Longrightarrow> safe Q 0 lo hi s m (Ok a (s, m'))"
  using ate_0 [of s] by (auto simp: safe_def)

lemma safe_bind_Ok:
  assumes "buf_ok s" "safe P i lo hi s m x"
    and "\<And>a s' m'. P a \<Longrightarrow> buf_ok s' \<Longrightarrow> unat (bytes_left s') + i \<le> unat (bytes_left s) \<Longrightarrow>
      safe Q 0 lo hi s' m' (f a (s', m'))"
  shows "safe Q i lo hi s m (obind x f)"
  using safe_bind [where j = 0 and Q = Q, OF assms] by simp

section \<open>Primitives\<close>

lemma safe_scan:
  assumes "buf_ok s" "varint_scan k (buf_avail s) = r"
  shows "safe (\<lambda>_. True) 1 lo hi s m (scan_outcome r (\<lambda>n. (buf_eat n s, m)) :: 'a::len word istep)"
proof -
  have len: "length (buf_avail s) = unat (bytes_left s)" by (rule length_buf_avail [OF assms(1)])
  have fail: "buf_ok (buf_eat n s) \<and> slack s \<le> slack (buf_eat n s)" if "n \<le> unat (bytes_left s)" for n
    using ate_ok [OF assms(1) ate_eat [OF assms(1) that]] by simp
  show ?thesis
  proof (cases r)
    case (Scan_ok v n)
    then have "0 < n" "n \<le> unat (bytes_left s)"
      using varint_scan_ok_bounds [of k "buf_avail s" v n] assms(2) len by auto
    with ate_eat [OF assms(1)] show ?thesis
      by (auto simp: Scan_ok scan_outcome_def safe_def Suc_le_eq)
  next
    case (Scan_overflow n)
    then have "n \<le> unat (bytes_left s)"
      using varint_scan_overflow_bounds [of k "buf_avail s" n] assms(2) len by auto
    from fail [OF this] show ?thesis
      by (auto simp: Scan_overflow scan_outcome_def intro!: safe_error)
  next
    case (Scan_eos n)
    then have "n \<le> unat (bytes_left s)"
      using varint_scan_eos_bounds [of k "buf_avail s" n] assms(2) len by auto
    from fail [OF this] show ?thesis
      by (auto simp: Scan_eos scan_outcome_def intro!: safe_error)
  qed
qed

lemma safe_varint: "buf_ok s \<Longrightarrow> safe (\<lambda>_. True) 1 lo hi s m (pb_decode_varint env s m)"
  unfolding pb_decode_varint_buf by (rule safe_scan) simp_all

lemma safe_varint32: "buf_ok s \<Longrightarrow> safe (\<lambda>_. True) 1 lo hi s m (pb_decode_varint32 env s m)"
  unfolding pb_decode_varint32_buf by (rule safe_scan) simp_all

definition dst_in :: "read_dst \<Rightarrow> nat \<Rightarrow> addr \<Rightarrow> addr \<Rightarrow> bool" where
  "dst_in dst n lo hi \<longleftrightarrow> (case dst of Dst_mem a \<Rightarrow> lo \<le> a \<and> a + int n \<le> hi | _ \<Rightarrow> True)"

lemma safe_read:
  assumes "buf_ok s" "dst_in dst (unat c) lo hi"
  shows "safe (\<lambda>bs. length bs = unat c) (unat c) lo hi s m (pb_read env s dst c m)"
proof (cases "unat c \<le> unat (bytes_left s)")
  case True
  have len: "length (take (unat c) (buf_avail s)) = unat c"
    using True length_buf_avail [OF assms(1)] by simp
  have "same_outside lo hi m (deliver dst (take (unat c) (buf_avail s)) m)"
    using assms(2) len by (auto simp: deliver_def dst_in_def intro: same_outside_store_bytes split: read_dst.splits)
  then show ?thesis using True ate_eat [OF assms(1) True] len
    by (auto simp: pb_read_buf [OF assms(1)] safe_def)
next
  case False
  then show ?thesis using assms(1) by (auto simp: pb_read_buf [OF assms(1)] intro!: safe_error)
qed

lemma safe_skip_varint:
  "buf_ok s \<Longrightarrow> unat (bytes_left s) < n \<Longrightarrow> safe (\<lambda>_. True) 1 lo hi s m (pb_skip_varint n env s m)"
proof (induction n arbitrary: s m)
  case (Suc n)
  have rd: "safe (\<lambda>bs. length bs = 1) 1 lo hi s m (pb_read env s Dst_local 1 m)"
    using safe_read [OF Suc.prems(1), of Dst_local 1 lo hi m env] by (simp add: dst_in_def)
  show ?case unfolding pb_skip_varint.simps
  proof (rule safe_bind_Ok [OF Suc.prems(1) rd])
    fix bs s' m' assume "buf_ok s'" "unat (bytes_left s') + 1 \<le> unat (bytes_left s)"
    then show "safe (\<lambda>_. True) 0 lo hi s' m' (case (s', m') of (s', m') \<Rightarrow>
        if hd bs AND 0x80 \<noteq> 0 then pb_skip_varint n env s' m' else Ok () (s', m'))"
      using Suc.IH [of s' m'] Suc.prems(2) by (auto intro: safe_weaken safe_Ok)
  qed
qed simp

text \<open>The three outcomes of reading a tag: a tag, the end of the message, an error.\<close>

lemma decode_tag_cases:
  assumes "buf_ok s"
  obtains (tag) wt t k where "pb_decode_tag env s m = Ok (Tag wt t) (buf_eat k s, m)"
      "1 \<le> k" "k \<le> unat (bytes_left s)" "unat t < 2 ^ 29"
    | (eof) s' k where "pb_decode_tag env s m = Ok Tag_eof (s', m)" "ate s k s'"
    | (error) s' where "pb_decode_tag env s m = Fail (s', m)" "buf_ok s'" "slack s \<le> slack s'"
proof -
  let ?r = "varint_scan 5 (buf_avail s)"
  have len: "length (buf_avail s) = unat (bytes_left s)" by (rule length_buf_avail [OF assms])
  show ?thesis
  proof (cases ?r)
    case (Scan_ok v n)
    note b = varint_scan_ok_bounds [OF this]
    have d: "pb_decode_varint32 env s m = Ok (of_nat v) (buf_eat n s, m)"
      by (simp add: pb_decode_varint32_buf [OF assms] Scan_ok scan_outcome_def)
    show ?thesis
    proof (cases "(of_nat v :: 32 word) = 0")
      case True
      then show ?thesis using eof [of "buf_eat n s" n] ate_eat [OF assms, of n] b len
        by (simp add: pb_decode_tag_def d)
    next
      case False
      have "unat (drop_bit 3 w) < 2 ^ 29" for w :: "32 word"
        using unsigned_less [of w, where ?'a = nat] by (simp add: drop_bit_eq_div unat_div)
      with False show ?thesis using tag [of "of_nat v AND 7" "drop_bit 3 (of_nat v)" n] b len
        by (simp add: pb_decode_tag_def d)
    qed
  next
    case (Scan_overflow n)
    then have n: "n \<le> unat (bytes_left s)"
      using varint_scan_overflow_bounds [of 5 "buf_avail s" n] len by simp
    note a = ate_set_error [OF ate_eat [OF assms n]] 
    show ?thesis
      using eof [OF _ a] error [OF _ ate_ok(1) [OF assms a]] ate_ok(6) [OF assms a]
      by (cases "bytes_left (buf_eat n s) = 0")
         (simp_all add: pb_decode_tag_def pb_decode_varint32_buf [OF assms] Scan_overflow scan_outcome_def
           PB_RETURN_ERROR_i_def)
  next
    case (Scan_eos n)
    then have n: "n \<le> unat (bytes_left s)"
      using varint_scan_eos_bounds [of 5 "buf_avail s" n] len by simp
    note a = ate_set_error [OF ate_eat [OF assms n]] 
    show ?thesis
      using eof [OF _ a] error [OF _ ate_ok(1) [OF assms a]] ate_ok(6) [OF assms a]
      by (cases "bytes_left (buf_eat n s) = 0")
         (simp_all add: pb_decode_tag_def pb_decode_varint32_buf [OF assms] Scan_eos scan_outcome_def
           PB_RETURN_ERROR_i_def)
  qed
qed

lemma safe_skip_string:
  assumes s: "buf_ok s"
  shows "safe (\<lambda>_. True) 1 lo hi s m (pb_skip_string env s m)"
  unfolding pb_skip_string_def
proof (rule safe_bind_Ok [OF s safe_varint32 [OF s]])
  fix len s' m' assume s': "buf_ok s'"
  have "safe (\<lambda>bs. length bs = unat (ucast len :: size_t)) 0 lo hi s' m' (pb_read env s' Dst_null (ucast len) m')"
    by (rule safe_weaken [OF safe_read [OF s']]) (auto simp: dst_in_def)
  then have "safe (\<lambda>_. True) 0 lo hi s' m' (obind (pb_read env s' Dst_null (ucast len) m') (\<lambda>_ st. Ok () st))"
    by (rule safe_bind_Ok [OF s']) (auto intro: safe_Ok)
  then show "safe (\<lambda>_. True) 0 lo hi s' m' (case (s', m') of (s', m') \<Rightarrow>
      obind (pb_read env s' Dst_null (ucast len) m') (\<lambda>_ st. Ok () st))" by simp
qed

lemma safe_skip_read:
  assumes s: "buf_ok s" and c: "0 < unat c"
  shows "safe (\<lambda>_. True) 1 lo hi s m (obind (pb_read env s Dst_null c m) (\<lambda>_ st. Ok () st))"
proof -
  have "safe (\<lambda>bs. length bs = unat c) 1 lo hi s m (pb_read env s Dst_null c m)"
    by (rule safe_weaken [OF safe_read [OF s]]) (use c in \<open>auto simp: dst_in_def\<close>)
  then show ?thesis by (rule safe_bind_Ok [OF s]) (auto intro: safe_Ok)
qed

lemma safe_skip_field:
  assumes s: "buf_ok s" and n: "unat (bytes_left s) < n"
  shows "safe (\<lambda>_. True) 1 lo hi s m (pb_skip_field n env s wt m)"
  unfolding pb_skip_field_def
  using safe_skip_varint [OF s n] safe_skip_string [OF s] safe_skip_read [OF s, of 8]
    safe_skip_read [OF s, of 4] safe_error [OF s order_refl same_outside_refl]
  by (auto split: if_splits)

section \<open>Substreams\<close>

definition sub_of :: "pb_istream_t \<Rightarrow> nat \<Rightarrow> pb_istream_t" where
  "sub_of t n = t\<lparr>bytes_left := of_nat n\<rparr>"

definition rest_of :: "pb_istream_t \<Rightarrow> nat \<Rightarrow> pb_istream_t" where
  "rest_of t n = t\<lparr>bytes_left := bytes_left t - of_nat n\<rparr>"

lemma unat_left_eat_rest:
  "n \<le> unat (bytes_left t) \<Longrightarrow> unat (bytes_left t - of_nat n) = unat (bytes_left t) - n"
  by (rule buf.unat_left_eat)

lemma sub_rest_ok:
  assumes t: "buf_ok t" and n: "n \<le> unat (bytes_left t)"
  shows "buf_ok (sub_of t n)" "unat (bytes_left (sub_of t n)) = n" "buf_avail (sub_of t n) = take n (buf_avail t)"
    "buf_ok (rest_of t n)" "slack t \<le> slack (rest_of t n)" "slack (sub_of t n) = slack t + (unat (bytes_left t) - n)"
proof -
  have "n < 2 ^ 64" using n unsigned_less [of "bytes_left t", where ?'a = nat] by simp
  then have u: "unat (of_nat n :: size_t) = n" by (simp add: unat_of_nat)
  have l: "unat (bytes_left t) \<le> length (buf_bytes t)" using t by (simp add: buf_ok_def)
  have r: "unat (bytes_left t - of_nat n) = unat (bytes_left t) - n"
    using n u by (simp add: unat_sub word_le_nat_alt)
  show "buf_ok (sub_of t n)" "unat (bytes_left (sub_of t n)) = n" "buf_avail (sub_of t n) = take n (buf_avail t)"
    "buf_ok (rest_of t n)" "slack t \<le> slack (rest_of t n)" "slack (sub_of t n) = slack t + (unat (bytes_left t) - n)"
    using t u r l n by (simp_all add: sub_of_def rest_of_def buf_ok_def buf_avail_def slack_def min_absorb1)
qed

lemma make_substream_cases:
  assumes "buf_ok s"
  obtains (ok) k n where "pb_make_string_substream env s m =
        Ok (sub_of (buf_eat k s) n) (rest_of (buf_eat k s) n, m)" "1 \<le> k" "k + n \<le> unat (bytes_left s)"
    | (error) s' where "pb_make_string_substream env s m = Fail (s', m)" "buf_ok s'" "slack s \<le> slack s'"
proof -
  have "safe (\<lambda>_. True) 1 0 0 s m (pb_decode_varint32 env s m)" by (rule safe_varint32 [OF assms])
  then show ?thesis
  proof (cases "varint_scan 5 (buf_avail s)")
    case (Scan_ok v k)
    have d: "pb_decode_varint32 env s m = Ok (of_nat v) (buf_eat k s, m)"
      by (simp add: pb_decode_varint32_buf [OF assms] Scan_ok scan_outcome_def)
    have k: "1 \<le> k" "k \<le> unat (bytes_left s)"
      using varint_scan_ok_bounds [OF Scan_ok] length_buf_avail [OF assms] by auto
    note ok' = buf_eat_ok [OF assms k(2)]
    define n where "n = unat (of_nat v :: 32 word)"
    have nn: "(ucast (of_nat v :: 32 word) :: size_t) = of_nat n" by (simp add: n_def)
    have "n < 2 ^ 32" unfolding n_def using unsigned_less [of "of_nat v :: 32 word", where ?'a = nat] by simp
    then have un: "unat (of_nat n :: size_t) = n" by (simp add: unat_of_nat)
    show ?thesis
    proof (cases "bytes_left (buf_eat k s) < of_nat n")
      case True
      then show ?thesis
        using error [of "PB_SET_ERROR_i (buf_eat k s) ''parent stream too short''"] ok'(1)
          ate_ok(6) [OF assms ate_eat [OF assms k(2)]]
        by (simp add: pb_make_string_substream_def d nn PB_RETURN_ERROR_i_def)
    next
      case False
      then have "k + n \<le> unat (bytes_left s)" using ok'(3) k(2) un by (simp add: word_less_nat_alt)
      with False show ?thesis using ok [of k n] k(1)
        by (simp add: pb_make_string_substream_def d nn sub_of_def rest_of_def)
    qed
  next
    case (Scan_overflow k)
    then have k: "k \<le> unat (bytes_left s)"
      using varint_scan_overflow_bounds [of 5 "buf_avail s" k] length_buf_avail [OF assms] by simp
    note a = ate_set_error [OF ate_eat [OF assms k]]
    show ?thesis using error [OF _ ate_ok(1) [OF assms a]] ate_ok(6) [OF assms a]
      by (simp add: pb_make_string_substream_def pb_decode_varint32_buf [OF assms] Scan_overflow
          scan_outcome_def PB_RETURN_ERROR_i_def)
  next
    case (Scan_eos k)
    then have k: "k \<le> unat (bytes_left s)"
      using varint_scan_eos_bounds [of 5 "buf_avail s" k] length_buf_avail [OF assms] by simp
    note a = ate_set_error [OF ate_eat [OF assms k]]
    show ?thesis using error [OF _ ate_ok(1) [OF assms a]] ate_ok(6) [OF assms a]
      by (simp add: pb_make_string_substream_def pb_decode_varint32_buf [OF assms] Scan_eos
          scan_outcome_def PB_RETURN_ERROR_i_def)
  qed
qed

lemma close_substream:
  assumes "buf_ok sub"
  shows "pb_close_string_substream env s sub m =
    Ok () (s\<lparr>is_state := In_buf (drop (unat (bytes_left sub)) (buf_bytes sub)), is_errmsg := is_errmsg sub\<rparr>, m)"
proof (cases "bytes_left sub = 0")
  case True
  then show ?thesis using buf_ok_state [OF assms] by (simp add: pb_close_string_substream_def)
next
  case False
  then show ?thesis
    by (simp add: pb_close_string_substream_def pb_read_buf [OF assms] deliver_def buf_eat_def buf_adv_def)
qed

text \<open>
  After a success the parent stands behind the substream; after a failure, wherever that
  left the substream, it is still inside its buffer.
\<close>

lemma close_substream_ate:
  assumes t: "buf_ok t" and n: "n \<le> unat (bytes_left t)" and a: "ate (sub_of t n) k sub"
  shows "\<exists>s'. pb_close_string_substream env (rest_of t n) sub m = Ok () (s', m) \<and> ate t n s'"
proof -
  note so = sub_rest_ok [OF t n] and ok = ate_ok [OF sub_rest_ok(1) [OF t n] a]
  have "drop (unat (bytes_left sub)) (buf_bytes sub) = drop n (buf_bytes t)"
    using ok(2,3,5) so(2) by (simp add: sub_of_def)
  then have "(rest_of t n)\<lparr>is_state := In_buf (drop (unat (bytes_left sub)) (buf_bytes sub)), is_errmsg := is_errmsg sub\<rparr>
      = (buf_eat n t)\<lparr>is_errmsg := is_errmsg sub\<rparr>"
    by (simp add: rest_of_def buf_eat_def buf_adv_def)
  then show ?thesis using n by (auto simp: close_substream [OF ok(1)] ate_def)
qed

lemma close_substream_slack:
  assumes t: "buf_ok t" and n: "n \<le> unat (bytes_left t)"
    and sub: "buf_ok sub" "slack (sub_of t n) \<le> slack sub"
  shows "\<exists>s'. pb_close_string_substream env (rest_of t n) sub m = Ok () (s', m) \<and> buf_ok s' \<and> slack t \<le> slack s'"
proof -
  note so = sub_rest_ok [OF t n]
  let ?s = "(rest_of t n)\<lparr>is_state := In_buf (drop (unat (bytes_left sub)) (buf_bytes sub)), is_errmsg := is_errmsg sub\<rparr>"
  have r: "unat (bytes_left (rest_of t n)) = unat (bytes_left t) - n"
    using unat_left_eat_rest [of n t] n by (simp add: rest_of_def)
  have "slack sub = length (drop (unat (bytes_left sub)) (buf_bytes sub))" by (simp add: slack_def)
  then have "slack t + (unat (bytes_left t) - n) \<le> length (buf_bytes ?s)" using so(6) sub(2) by simp
  then have "buf_ok ?s \<and> slack t \<le> slack ?s"
    using so(4) r by (auto simp: buf_ok_def buf_ready_def slack_def)
  then show ?thesis by (simp add: close_substream [OF sub(1)])
qed

end
