(* ===== verification/Pb_Defaults.thy ===== *)
theory Pb_Defaults
  imports Pb_Layout Pb_Decode
begin

text \<open>
  Setting a message to its default values: the recursion terminates within the depth of
  the message type, never fails and stays inside the struct.
\<close>

section \<open>The walk over the fields\<close>

text \<open>\<^verbatim>\<open>pb_field_set_to_default\<close> looks at the current field and its two addresses only.\<close>

definition placed_iter :: "pb_field_t \<Rightarrow> addr \<Rightarrow> addr \<Rightarrow> pb_field_iter_t" where
  "placed_iter f d z =
     \<lparr>it_start = [f], it_pos = 0, required_field_index = 0, dest_struct = 0, pData = d, pSize = z\<rparr>"

lemma placed_iter_simps [simp]:
  "pos_field (placed_iter f d z) = f" "pData (placed_iter f d z) = d" "pSize (placed_iter f d z) = z"
  by (simp_all add: placed_iter_def pos_field_def field_at_def)

lemma set_to_default_placed:
  "pb_field_set_to_default n env it m =
    pb_field_set_to_default n env (placed_iter (pos_field it) (pData it) (pSize it)) m"
proof (cases n)
  case (Suc k)
  show ?thesis unfolding Suc pb_field_set_to_default.simps placed_iter_simps by (rule refl)
qed simp

lemma message_defaults_placed:
  assumes "no_terminator fs"
  shows "message_defaults (pb_field_set_to_default n env) (Ptr_fields fs) dest m =
    fold_placed (\<lambda>f d z m. pb_field_set_to_default n env (placed_iter f d z) m) (positions fs dest) m"
  using for_each_field_positions [OF assms, where body = "pb_field_set_to_default n env"
      and g = "\<lambda>f d z m. pb_field_set_to_default n env (placed_iter f d z) m" and dest = dest and s = m]
    set_to_default_placed [of n env]
  by (simp add: message_defaults_def)

section \<open>Memory steps that stay in a range\<close>

definition stays :: "addr \<Rightarrow> addr \<Rightarrow> mem \<Rightarrow> mstep \<Rightarrow> bool" where
  "stays lo hi m x \<longleftrightarrow> owp (\<lambda>_ m'. same_outside lo hi m m') (\<lambda>_. False) (\<lambda>_. False) x"

lemma stays_Ok: "same_outside lo hi m m' \<Longrightarrow> stays lo hi m (Ok a m')"
  by (simp add: stays_def)

lemma stays_pre: "same_outside lo hi m m1 \<Longrightarrow> stays lo hi m1 x \<Longrightarrow> stays lo hi m x"
  unfolding stays_def by (erule owp_mono) (auto intro: same_outside_trans)

lemma stays_weaken: "stays lo hi m x \<Longrightarrow> lo' \<le> lo \<Longrightarrow> hi \<le> hi' \<Longrightarrow> stays lo' hi' m x"
  unfolding stays_def by (erule owp_mono) (auto intro: same_outside_weaken)

lemma stays_fold_placed:
  assumes "\<And>f d z m. (f, d, z) \<in> set ps \<Longrightarrow> stays lo hi m (g f d z m)"
  shows "stays lo hi m (fold_placed g ps m)"
  using assms
proof (induction ps arbitrary: m)
  case Nil
  then show ?case by (simp add: stays_Ok)
next
  case (Cons p ps)
  obtain f d z where p: "p = (f, d, z)" by (cases p)
  have "stays lo hi m (g f d z m)" by (rule Cons.prems) (simp add: p)
  moreover have "stays lo hi m' (fold_placed g ps m')" for m' by (rule Cons.IH) (use Cons.prems in auto)
  ultimately show ?case
    by (cases "g f d z m") (auto simp: p stays_def intro: owp_mono same_outside_trans)
qed

section \<open>Defaults stay in the struct\<close>

lemma stays_set_to_default:
  "wf_field f \<Longrightarrow> plain_field f \<Longrightarrow> depth_field f < n \<Longrightarrow> field_fits f (d - dest) (z - dest) sz \<Longrightarrow>
    (\<And>fs. f_ptr f = Ptr_fields fs \<Longrightarrow> layout_ok fs (uint (f_data_size f))) \<Longrightarrow>
    stays dest (dest + sz) m (pb_field_set_to_default n env (placed_iter f d z) m)"
proof (induction n arbitrary: f d z dest sz m)
  case (Suc n)
  let ?lo = dest and ?hi = "dest + sz"
  have fits: "dest \<le> d" "d + data_extent f \<le> ?hi" "dest \<le> z" "z + size_extent f \<le> ?hi" "item_size_ok f"
    using Suc.prems(4) by (auto simp: field_fits_def)
  have ext: "ltype_of f \<noteq> PB_LTYPE_EXTENSION" and at: "atype_of f = PB_ATYPE_STATIC \<or> atype_of f = PB_ATYPE_POINTER"
    using Suc.prems(2) plain_field_iff [of f] by auto
  have count: "same_outside ?lo ?hi m' (store_word 4 m' z (0 :: pb_size_t))"
    if "htype_of f = PB_HTYPE_REPEATED \<or> htype_of f = PB_HTYPE_ONEOF" for m'
    by (rule same_outside_store_word) (use that fits in \<open>auto simp: size_extent_def\<close>)
  show ?case
  proof (cases "atype_of f = PB_ATYPE_POINTER")
    case True
    have p: "same_outside ?lo ?hi m' (store_ptr m' d 0)" for m'
      unfolding store_ptr_def
      by (rule same_outside_store_word) (use fits True in \<open>auto simp: data_extent_def\<close>)
    show ?thesis using True ext p count
      by (auto simp: Let_def intro!: stays_Ok intro: same_outside_trans)
  next
    case False
    with at have st: "atype_of f = PB_ATYPE_STATIC" by simp
    show ?thesis
    proof (cases "htype_of f = PB_HTYPE_REPEATED \<or> htype_of f = PB_HTYPE_ONEOF")
      case True
      then show ?thesis using st ext count by (auto simp: Let_def intro!: stays_Ok)
    next
      case rep: False
      then have de: "data_extent f = uint (f_data_size f)" using st by (simp add: data_extent_def)
      define m1 where "m1 = (if htype_of f = PB_HTYPE_OPTIONAL \<and> z \<noteq> d then m(z := 0) else m)"
      have m1: "same_outside ?lo ?hi m m1"
        using fits rep by (auto simp: m1_def same_outside_def size_extent_def)
      define r where "r =
        (if ltype_of f = PB_LTYPE_SUBMESSAGE
         then message_defaults (pb_field_set_to_default n env) (f_ptr f) d m1
         else (case f_ptr f of
                 Ptr_null \<Rightarrow> Ok () (store_bytes m1 d (replicate (unat (f_data_size f)) 0))
               | Ptr_default bs \<Rightarrow>
                   if length bs < unat (f_data_size f) then Halt Undefined_Behaviour
                   else Ok () (store_bytes m1 d (take (unat (f_data_size f)) bs))
               | Ptr_fields _ \<Rightarrow> Halt Undefined_Behaviour))"
      have r: "pb_field_set_to_default (Suc n) env (placed_iter f d z) m = r"
        unfolding pb_field_set_to_default.simps placed_iter_simps Let_def r_def m1_def
        using rep st ext by (simp only: if_True if_False simp_thms)
      have "stays ?lo ?hi m1 r"
      proof (cases "ltype_of f = PB_LTYPE_SUBMESSAGE")
        case True
        then obtain fs where fs: "f_ptr f = Ptr_fields fs" "wf_fields fs"
          using Suc.prems(1) wf_submessage by blast
        have pl: "plain_fields fs" using Suc.prems(2) plain_field_iff [of f] fs(1) by auto
        have "stays d (d + uint (f_data_size f)) m1
            (fold_placed (\<lambda>f d z m. pb_field_set_to_default n env (placed_iter f d z) m) (positions fs d) m1)"
        proof (rule stays_fold_placed)
          fix f' d' z' m' assume in': "(f', d', z') \<in> set (positions fs d)"
          then have f': "f' \<in> set fs" by (rule positions_subset)
          show "stays d (d + uint (f_data_size f)) m' (pb_field_set_to_default n env (placed_iter f' d' z') m')"
          proof (rule Suc.IH)
            show "wf_field f'" "plain_field f'" using wf_fields_in fs(2) plain_fields_in pl f' by auto
            show "depth_field f' < n"
              using depth_sub_fields [OF fs(1)] depth_field_in [OF f'] Suc.prems(3) by simp
            show "field_fits f' (d' - d) (z' - d) (uint (f_data_size f))"
              "\<And>fs'. f_ptr f' = Ptr_fields fs' \<Longrightarrow> layout_ok fs' (uint (f_data_size f'))"
              using layout_fits_at [OF Suc.prems(5) [OF fs(1)] in'] by auto
          qed
        qed
        then have "stays ?lo ?hi m1 (message_defaults (pb_field_set_to_default n env) (f_ptr f) d m1)"
          unfolding fs(1) message_defaults_placed [OF wf_fields_no_terminator [OF fs(2)]]
          by (rule stays_weaken) (use fits de in auto)
        then show ?thesis using True by (simp add: r_def)
      next
        case False
        then show ?thesis using fits de
          by (auto simp: r_def item_size_ok_def intro!: stays_Ok same_outside_store_bytes split: pb_field_ptr.splits)
      qed
      then show ?thesis unfolding r by (rule stays_pre [OF m1])
    qed
  qed
qed simp

lemma stays_message_defaults:
  assumes "wf_fields fs" "plain_fields fs" "depth_fields fs < n" "layout_ok fs sz"
  shows "stays dest (dest + sz) m (pb_message_set_to_defaults n env (Ptr_fields fs) dest m)"
  unfolding pb_message_set_to_defaults_def message_defaults_placed [OF wf_fields_no_terminator [OF assms(1)]]
proof (rule stays_fold_placed)
  fix f d z m' assume in': "(f, d, z) \<in> set (positions fs dest)"
  then have f: "f \<in> set fs" by (rule positions_subset)
  show "stays dest (dest + sz) m' (pb_field_set_to_default n env (placed_iter f d z) m')"
    using layout_fits_at [OF assms(4) in'] wf_fields_in [OF assms(1) f] plain_fields_in [OF assms(2) f]
      depth_field_in [OF f] assms(3)
    by (intro stays_set_to_default) auto
qed

end
