(* ===== verification/Pb_Decode_Safe.thy ===== *)
theory Pb_Decode_Safe
  imports Pb_Safe Pb_Defaults
begin

text \<open>
  Safety of the decoder on arbitrary input: for plain message types whose layout fits the
  struct, decoding any bytes never leaves the input buffer or the struct, always returns,
  and never reaches undefined behaviour.
\<close>

section \<open>Scalars\<close>

lemma store_signed_outside:
  "store_signed ds m a v = Some (m', c) \<Longrightarrow> same_outside a (a + uint ds) m m'"
  by (auto simp: store_signed_def split: if_splits intro!: same_outside_store_word)

lemma store_unsigned_outside:
  "store_unsigned ds m a v = Some (m', c) \<Longrightarrow> same_outside a (a + uint ds) m m'"
  by (auto simp: store_unsigned_def split: if_splits intro!: same_outside_store_word)

lemma safe_finish_integer:
  assumes "buf_ok s" "\<And>m' c. st = Some (m', c) \<Longrightarrow> same_outside lo hi m m'"
  shows "safe (\<lambda>_. True) 0 lo hi s m (finish_integer st v s m)"
  using assms
  by (auto simp: finish_integer_def split: option.splits intro!: safe_error safe_Ok)

lemma safe_dec_varint:
  assumes s: "buf_ok s"
  shows "safe (\<lambda>_. True) 1 a (a + uint (f_data_size f)) s m (pb_dec_varint env s f a m)"
  unfolding pb_dec_varint_def Let_def
  by (rule safe_bind_Ok [OF s safe_varint [OF s]])
     (auto intro!: safe_finish_integer store_signed_outside split del: if_split)

lemma safe_dec_uvarint:
  assumes s: "buf_ok s"
  shows "safe (\<lambda>_. True) 1 a (a + uint (f_data_size f)) s m (pb_dec_uvarint env s f a m)"
  unfolding pb_dec_uvarint_def
  by (rule safe_bind_Ok [OF s safe_varint [OF s]])
     (auto intro!: safe_finish_integer store_unsigned_outside)

lemma safe_svarint:
  assumes s: "buf_ok s"
  shows "safe (\<lambda>_. True) 1 lo hi s m (pb_decode_svarint env s m)"
  unfolding pb_decode_svarint_def
  by (rule safe_bind_Ok [OF s safe_varint [OF s]]) (auto intro: safe_Ok)

lemma safe_dec_svarint:
  assumes s: "buf_ok s"
  shows "safe (\<lambda>_. True) 1 a (a + uint (f_data_size f)) s m (pb_dec_svarint env s f a m)"
  unfolding pb_dec_svarint_def
  by (rule safe_bind_Ok [OF s safe_svarint [OF s]])
     (auto intro!: safe_finish_integer store_signed_outside)

lemma safe_dec_fixed32:
  assumes s: "buf_ok s" and ds: "4 \<le> f_data_size f"
  shows "safe (\<lambda>_. True) 1 a (a + uint (f_data_size f)) s m (pb_dec_fixed32 env s f a m)"
  unfolding pb_dec_fixed32_def pb_decode_fixed32_def
proof (rule safe_bind_Ok [OF s])
  show "safe (\<lambda>_. True) 1 a (a + uint (f_data_size f)) s m (pb_read env s Dst_local 4 m)"
    by (rule safe_weaken [OF safe_read [OF s]]) (auto simp: dst_in_def)
  have "a + int 4 \<le> a + uint (f_data_size f)" using ds by (simp add: word_le_def)
  then show "safe (\<lambda>_. True) 0 a (a + uint (f_data_size f)) s' m' (case (s', m') of (s', m') \<Rightarrow>
      Ok () (s', store_word 4 m' a (assemble32 bs)))" if "buf_ok s'" for s' m' bs
    using that by (auto intro!: safe_Ok same_outside_store_word)
qed

lemma safe_dec_fixed64:
  assumes s: "buf_ok s" and ds: "8 \<le> f_data_size f"
  shows "safe (\<lambda>_. True) 1 a (a + uint (f_data_size f)) s m (pb_dec_fixed64 env s f a m)"
  unfolding pb_dec_fixed64_def pb_decode_fixed64_def
proof (rule safe_bind_Ok [OF s])
  show "safe (\<lambda>_. True) 1 a (a + uint (f_data_size f)) s m (pb_read env s Dst_local 8 m)"
    by (rule safe_weaken [OF safe_read [OF s]]) (auto simp: dst_in_def)
  have "a + int 8 \<le> a + uint (f_data_size f)" using ds by (simp add: word_le_def)
  then show "safe (\<lambda>_. True) 0 a (a + uint (f_data_size f)) s' m' (case (s', m') of (s', m') \<Rightarrow>
      Ok () (s', store_word 8 m' a (assemble64 bs)))" if "buf_ok s'" for s' m' bs
    using that by (auto intro!: safe_Ok same_outside_store_word)
qed

section \<open>Bytes and strings\<close>

lemma unat_le_uint: "unat v + k \<le> unat w \<Longrightarrow> uint v + int k \<le> uint w"
  by (metis of_nat_add of_nat_le_iff of_nat_unat)

lemma safe_dec_bytes:
  assumes s: "buf_ok s" and at: "atype_of f = PB_ATYPE_STATIC"
  shows "safe (\<lambda>_. True) 1 a (a + uint (f_data_size f)) s m (pb_dec_bytes env s f a m)"
  unfolding pb_dec_bytes_def
proof (rule safe_bind_Ok [OF s safe_varint32 [OF s]])
  fix sz :: "32 word" and s' m' assume s': "buf_ok s'"
  let ?lo = "a" and ?hi = "a + uint (f_data_size f)"
  let ?alloc = "PB_BYTES_ARRAY_T_ALLOCSIZE (ucast sz)"
  have fill: "safe (\<lambda>_. True) 0 ?lo ?hi s' m'
      (obind (pb_read env s' (Dst_mem (a + bytes_offset)) (ucast sz) (store_word 4 m' a sz)) (\<lambda>_ st. Ok () st))"
    if "\<not> ucast (f_data_size f) < ?alloc"
  proof -
    have le: "uint sz + 4 \<le> uint (f_data_size f)"
      using that unat_le_uint [of sz 4 "f_data_size f"] unfolding alloc_size_fits by simp
    have "0 \<le> uint sz" by simp
    with le have nn: "4 \<le> uint (f_data_size f)" by linarith
    have u: "unat (ucast sz :: size_t) = unat sz" by (rule unat_ucast_up) simp
    show ?thesis
    proof (rule safe_pre [of _ _ _ "store_word 4 m' a sz"])
      show "same_outside ?lo ?hi m' (store_word 4 m' a sz)"
        by (rule same_outside_store_word) (use le nn in auto)
      have "safe (\<lambda>bs. length bs = unat (ucast sz :: size_t)) 0 ?lo ?hi s' (store_word 4 m' a sz)
          (pb_read env s' (Dst_mem (a + bytes_offset)) (ucast sz) (store_word 4 m' a sz))"
        by (rule safe_weaken [OF safe_read [OF s']])
           (use le nn in \<open>auto simp: dst_in_def u bytes_offset_def\<close>)
      then show "safe (\<lambda>_. True) 0 ?lo ?hi s' (store_word 4 m' a sz)
          (obind (pb_read env s' (Dst_mem (a + bytes_offset)) (ucast sz) (store_word 4 m' a sz)) (\<lambda>_ st. Ok () st))"
        by (rule safe_bind_Ok [OF s']) (auto intro: safe_Ok)
    qed
  qed
  have err: "safe (\<lambda>_. True) 0 ?lo ?hi s' m' (PB_RETURN_ERROR_i s' e m' :: unit istep)" for e
    by (rule safe_error) (use s' in auto)
  show "safe (\<lambda>_. True) 0 ?lo ?hi s' m' (case (s', m') of (s1, m1) \<Rightarrow>
       if PB_SIZE_MAX < sz then PB_RETURN_ERROR_i s1 ''bytes overflow'' m1
       else let alloc_size = ?alloc in
       if alloc_size < ucast sz then PB_RETURN_ERROR_i s1 ''size too large'' m1
       else
       let fill = (\<lambda>bdest (s2, m2).
             obind (pb_read env s2 (Dst_mem (bdest + bytes_offset)) (ucast sz)
                      (store_word 4 m2 bdest sz)) (\<lambda>_ st. Ok () st))
       in if atype_of f = PB_ATYPE_POINTER
          then (if \<not> env_malloc env then PB_RETURN_ERROR_i s1 ''no malloc support'' m1
                else obind (allocate_field env s1 a alloc_size 1 m1) (\<lambda>_ (s2, m2).
                       fill (load_ptr m2 a) (s2, m2)))
          else if ucast (f_data_size f) < alloc_size
          then PB_RETURN_ERROR_i s1 ''bytes overflow'' m1
          else fill a (s1, m1))"
    using at fill err by (simp add: Let_def)
qed

lemma string_alloc_size:
  fixes sz ds :: "32 word"
  assumes "\<not> (ucast (sz + 1) :: size_t) < ucast sz" "\<not> ucast ds < (ucast (sz + 1) :: size_t)"
  shows "uint sz + 1 \<le> uint ds"
proof -
  have "unat sz \<le> unat (sz + 1)" using assms(1) by (simp add: word_less_nat_alt unat_ucast_up)
  then have "sz + 1 \<noteq> 0" by (auto simp: word_unat_eq_iff unat_word_ariths mod_Suc)
  then have "unat (sz + 1) = unat sz + 1" by (simp add: unatSuc add.commute)
  moreover have "unat (sz + 1) \<le> unat ds" using assms(2) by (simp add: word_less_nat_alt unat_ucast_up)
  ultimately have "unat sz + 1 \<le> unat ds" by simp
  from unat_le_uint [OF this] show ?thesis by simp
qed

lemma safe_dec_string:
  assumes s: "buf_ok s" and at: "atype_of f = PB_ATYPE_STATIC"
  shows "safe (\<lambda>_. True) 1 a (a + uint (f_data_size f)) s m (pb_dec_string env s f a m)"
  unfolding pb_dec_string_def
proof (rule safe_bind_Ok [OF s safe_varint32 [OF s]])
  fix sz :: "32 word" and s' m' assume s': "buf_ok s'"
  let ?lo = "a" and ?hi = "a + uint (f_data_size f)"
  let ?fill = "\<lambda>d (s2, m2).
             case pb_read env s2 (Dst_mem d) (ucast sz) m2 of
               Ok _ (s3, m3) \<Rightarrow> Ok () (s3, m3(d + uint sz := 0))
             | Fail (s3, m3) \<Rightarrow> Fail (s3, m3(d + uint sz := 0))
             | Halt e \<Rightarrow> Halt e"
  have fill: "safe (\<lambda>_. True) 0 ?lo ?hi s' m' (?fill a (s', m'))"
    if a1: "\<not> (ucast (sz + 1) :: size_t) < ucast sz" and a2: "\<not> ucast (f_data_size f) < (ucast (sz + 1) :: size_t)"
  proof -
    have le: "uint sz + 1 \<le> uint (f_data_size f)" by (rule string_alloc_size [OF a1 a2])
    have nn: "0 \<le> uint sz" by simp
    have u: "unat (ucast sz :: size_t) = unat sz" by (rule unat_ucast_up) simp
    have rd: "safe (\<lambda>bs. length bs = unat (ucast sz :: size_t)) 0 ?lo ?hi s' m'
        (pb_read env s' (Dst_mem a) (ucast sz) m')"
      by (rule safe_weaken [OF safe_read [OF s']]) (use le nn in \<open>auto simp: dst_in_def u\<close>)
    have upd: "same_outside ?lo ?hi m' (m3(a + uint sz := 0))" if "same_outside ?lo ?hi m' m3" for m3 :: mem
      using that le nn by (auto simp: same_outside_def)
    show ?thesis
      using rd upd by (cases "pb_read env s' (Dst_mem a) (ucast sz) m'") (auto simp: safe_def)
  qed
  have err: "safe (\<lambda>_. True) 0 ?lo ?hi s' m' (PB_RETURN_ERROR_i s' e m' :: unit istep)" for e
    by (rule safe_error) (use s' in auto)
  show "safe (\<lambda>_. True) 0 ?lo ?hi s' m' (case (s', m') of (s1, m1) \<Rightarrow>
       let alloc_size = ucast (sz + 1) :: size_t in
       if alloc_size < ucast sz then PB_RETURN_ERROR_i s1 ''size too large'' m1
       else
       let fill = ?fill
       in if atype_of f = PB_ATYPE_POINTER
          then (if \<not> env_malloc env then PB_RETURN_ERROR_i s1 ''no malloc support'' m1
                else obind (allocate_field env s1 a alloc_size 1 m1) (\<lambda>_ (s2, m2).
                       fill (load_ptr m2 a) (s2, m2)))
          else if ucast (f_data_size f) < alloc_size
          then PB_RETURN_ERROR_i s1 ''string overflow'' m1
          else fill a (s1, m1))"
    using at fill err by (simp add: Let_def)
qed

lemma safe_dec_fixed_length_bytes:
  assumes s: "buf_ok s"
  shows "safe (\<lambda>_. True) 1 a (a + uint (f_data_size f)) s m (pb_dec_fixed_length_bytes env s f a m)"
  unfolding pb_dec_fixed_length_bytes_def
proof (rule safe_bind_Ok [OF s safe_varint32 [OF s]])
  fix sz :: "32 word" and s' m' assume s': "buf_ok s'"
  let ?lo = "a" and ?hi = "a + uint (f_data_size f)"
  have u: "unat (ucast (f_data_size f) :: size_t) = unat (f_data_size f)" by (rule unat_ucast_up) simp
  have rd: "safe (\<lambda>bs. length bs = unat (ucast (f_data_size f) :: size_t)) 0 ?lo ?hi s' m'
      (pb_read env s' (Dst_mem a) (ucast (f_data_size f)) m')"
    by (rule safe_weaken [OF safe_read [OF s']]) (auto simp: dst_in_def u)
  then have rd': "safe (\<lambda>_. True) 0 ?lo ?hi s' m'
      (obind (pb_read env s' (Dst_mem a) (ucast (f_data_size f)) m') (\<lambda>_ st. Ok () st))"
    by (rule safe_bind_Ok [OF s']) (auto intro: safe_Ok)
  have z: "same_outside ?lo ?hi m' (store_bytes m' a (replicate (unat (f_data_size f)) 0))"
    by (rule same_outside_store_bytes) auto
  show "safe (\<lambda>_. True) 0 ?lo ?hi s' m' (case (s', m') of (s1, m1) \<Rightarrow>
       if PB_SIZE_MAX < sz then PB_RETURN_ERROR_i s1 ''bytes overflow'' m1
       else if sz = 0 then Ok () (s1, store_bytes m1 a (replicate (unat (f_data_size f)) 0))
       else if sz \<noteq> f_data_size f
       then PB_RETURN_ERROR_i s1 ''incorrect fixed length bytes size'' m1
       else obind (pb_read env s1 (Dst_mem a) (ucast (f_data_size f)) m1) (\<lambda>_ st. Ok () st))"
    using s' z rd' by (auto intro: safe_Ok safe_error)
qed

section \<open>Submessages\<close>

lemma safe_lift_mem:
  "buf_ok s \<Longrightarrow> stays lo hi m x \<Longrightarrow> safe (\<lambda>_. True) 0 lo hi s m (lift_mem s x)"
  using ate_0 [of s] by (cases x) (auto simp: lift_mem_def stays_def safe_def)

lemma pb_decode_with_no_malloc:
  assumes "\<not> env_malloc env"
  shows "pb_decode_with n dec env fs dest s m =
    obind (lift_mem s (pb_message_set_to_defaults n env (Ptr_fields fs) dest m))
      (\<lambda>_ (s1, m1). dec fs dest s1 m1)"
proof -
  have "(case x of Fail (s2, m2) \<Rightarrow> if env_malloc env
           then obind (lift_mem s2 (pb_release n env fs dest m2)) (\<lambda>_ st. Fail st) else Fail (s2, m2)
         | r \<Rightarrow> r) = x" for x :: "unit istep"
    using assms by (auto split: outcome.split)
  then show ?thesis by (simp add: pb_decode_with_def)
qed

text \<open>What decoding a submessage type needs, for streams of at most \<open>b\<close> bytes.\<close>

definition dec_safe :: "decode_fun \<Rightarrow> pb_field_t list \<Rightarrow> int \<Rightarrow> nat \<Rightarrow> bool" where
  "dec_safe dec fs sz b \<longleftrightarrow>
     (\<forall>a s m. buf_ok s \<longrightarrow> unat (bytes_left s) \<le> b \<longrightarrow>
        safe (\<lambda>_. True) 0 a (a + sz) s m (dec fs a s m))"

definition type_ok :: "pb_field_t list \<Rightarrow> int \<Rightarrow> bool" where
  "type_ok fs sz \<longleftrightarrow> wf_fields fs \<and> plain_fields fs \<and> layout_ok fs sz \<and> 0 \<le> sz"

lemma safe_decode_with:
  assumes "\<not> env_malloc env" "buf_ok s" "unat (bytes_left s) \<le> b" "type_ok fs sz" "depth_fields fs < n"
    and "dec_safe dec fs sz b"
  shows "safe (\<lambda>_. True) 0 a (a + sz) s m (pb_decode_with n dec env fs a s m)"
  unfolding pb_decode_with_no_malloc [OF assms(1)]
proof (rule safe_bind_Ok [OF assms(2)])
  show "safe (\<lambda>_. True) 0 a (a + sz) s m
      (lift_mem s (pb_message_set_to_defaults n env (Ptr_fields fs) a m))"
    using assms(2,4,5) by (auto intro!: safe_lift_mem stays_message_defaults simp: type_ok_def)
qed (use assms(3,6) in \<open>auto simp: dec_safe_def\<close>)

text \<open>Decoding into a substream and closing it.\<close>

lemma safe_in_substream:
  assumes s: "buf_ok s"
    and body: "\<And>sub m'. buf_ok sub \<Longrightarrow> unat (bytes_left sub) < unat (bytes_left s) \<Longrightarrow>
      safe (\<lambda>_. True) 0 lo hi sub m' (body sub m')"
  shows "safe (\<lambda>_. True) 1 lo hi s m (obind (pb_make_string_substream env s m) (\<lambda>sub (s1, m1).
      let finish = (\<lambda>status (sub2, m2).
            obind (pb_close_string_substream env s1 sub2 m2) (\<lambda>_ st. if status then Ok () st else Fail st))
      in case body sub m1 of
           Ok _ st \<Rightarrow> finish True st | Fail st \<Rightarrow> finish False st | Halt e \<Rightarrow> Halt e))"
  using s
proof (cases rule: make_substream_cases [of s env m])
  case (ok k n)
  have k: "k \<le> unat (bytes_left s)" using ok(3) by simp
  note t = buf_eat_ok [OF s k] and a = ate_eat [OF s k]
  have n: "n \<le> unat (bytes_left (buf_eat k s))" using ok(3) t(3) by simp
  note so = sub_rest_ok [OF t(1) n]
  let ?sub = "sub_of (buf_eat k s) n"
  have b: "safe (\<lambda>_. True) 0 lo hi ?sub m (body ?sub m)"
    by (rule body) (use so ok(2,3) in auto)
  show ?thesis
  proof (cases "body ?sub m")
    case (Ok u st)
    then obtain sub2 m2 j where st: "st = (sub2, m2)" "ate ?sub j sub2" "same_outside lo hi m m2"
      using b by (cases st) (auto simp: safe_def)
    obtain s' where s': "pb_close_string_substream env (rest_of (buf_eat k s) n) sub2 m2 = Ok () (s', m2)"
        "ate (buf_eat k s) n s'"
      using close_substream_ate [OF t(1) n st(2), of env m2] by auto
    have "ate s (k + n) s'" by (rule ate_trans [OF s a s'(2)])
    then show ?thesis using ok(1,2) Ok st s'(1) by (auto simp: safe_def intro: trans_le_add1)
  next
    case (Fail st)
    then obtain sub2 m2 where st: "st = (sub2, m2)" "buf_ok sub2" "slack ?sub \<le> slack sub2" "same_outside lo hi m m2"
      using b by (cases st) (auto simp: safe_def)
    obtain s' where s': "pb_close_string_substream env (rest_of (buf_eat k s) n) sub2 m2 = Ok () (s', m2)"
        "buf_ok s'" "slack (buf_eat k s) \<le> slack s'"
      using close_substream_slack [OF t(1) n st(2,3), of env m2] by auto
    then show ?thesis using ok(1) Fail st ate_ok(6) [OF s a] by (auto simp: safe_def)
  next
    case (Halt e)
    then show ?thesis using b by (simp add: safe_def)
  qed
next
  case (error s')
  then show ?thesis by (simp add: safe_def)
qed

lemma safe_dec_submessage:
  assumes nm: "\<not> env_malloc env" and s: "buf_ok s" and b: "unat (bytes_left s) \<le> Suc b"
    and fs: "f_ptr f = Ptr_fields fs" and ty: "type_ok fs (uint (f_data_size f))" "depth_fields fs < n"
    and dec: "dec_safe dec fs (uint (f_data_size f)) b"
  shows "safe (\<lambda>_. True) 1 a (a + uint (f_data_size f)) s m (pb_dec_submessage n dec env s f a m)"
proof -
  let ?body = "\<lambda>sub m1. if htype_of f = PB_HTYPE_REPEATED then pb_decode_with n dec env fs a sub m1
      else dec fs a sub m1"
  have "safe (\<lambda>_. True) 0 a (a + uint (f_data_size f)) sub m' (?body sub m')"
    if "buf_ok sub" "unat (bytes_left sub) < unat (bytes_left s)" for sub m'
    using safe_decode_with [OF nm that(1) _ ty dec] dec b that by (auto simp: dec_safe_def)
  from safe_in_substream [OF s this, of m env] show ?thesis
    by (simp add: pb_dec_submessage_def fs)
qed

section \<open>The table of decoders\<close>

lemma PB_DECODERS_simps:
  "PB_DECODERS n dec env PB_LTYPE_VARINT = pb_dec_varint env"
  "PB_DECODERS n dec env PB_LTYPE_UVARINT = pb_dec_uvarint env"
  "PB_DECODERS n dec env PB_LTYPE_SVARINT = pb_dec_svarint env"
  "PB_DECODERS n dec env PB_LTYPE_FIXED32 = pb_dec_fixed32 env"
  "PB_DECODERS n dec env PB_LTYPE_FIXED64 = pb_dec_fixed64 env"
  "PB_DECODERS n dec env PB_LTYPE_BYTES = pb_dec_bytes env"
  "PB_DECODERS n dec env PB_LTYPE_STRING = pb_dec_string env"
  "PB_DECODERS n dec env PB_LTYPE_SUBMESSAGE = pb_dec_submessage n dec env"
  "PB_DECODERS n dec env PB_LTYPE_FIXED_LENGTH_BYTES = pb_dec_fixed_length_bytes env"
  by (simp_all add: PB_DECODERS_def pb_ltypes)

lemma safe_decoder:
  assumes nm: "\<not> env_malloc env" and s: "buf_ok s" and b: "unat (bytes_left s) \<le> Suc b"
    and f: "wf_field f" "plain_field f" "atype_of f = PB_ATYPE_STATIC" "item_size_ok f"
    and sub: "\<And>fs. f_ptr f = Ptr_fields fs \<Longrightarrow> type_ok fs (uint (f_data_size f)) \<and> depth_fields fs < n \<and>
      dec_safe dec fs (uint (f_data_size f)) b"
  shows "safe (\<lambda>_. True) 1 a (a + uint (f_data_size f)) s m (PB_DECODERS n dec env (ltype_of f) s f a m)"
proof -
  have lt: "ltype_of f < PB_LTYPES_COUNT" using f(1) wf_field_iff by blast
  have ext: "ltype_of f \<noteq> PB_LTYPE_EXTENSION" using f(2) plain_field_iff [of f] by simp
  have f32: "ltype_of f = PB_LTYPE_FIXED32 \<Longrightarrow> 4 \<le> f_data_size f"
    and f64: "ltype_of f = PB_LTYPE_FIXED64 \<Longrightarrow> 8 \<le> f_data_size f"
    using f(4) by (auto simp: item_size_ok_def)
  from ltype_cases [OF lt] show ?thesis
  proof (elim disjE)
    assume sm: "ltype_of f = PB_LTYPE_SUBMESSAGE"
    then obtain fs where "f_ptr f = Ptr_fields fs" using f(1) wf_submessage by blast
    with sub [OF this] safe_dec_submessage [OF nm s b this] sm show ?thesis
      by (simp add: PB_DECODERS_simps)
  qed (use ext s f(3) f32 f64 in \<open>simp_all add: PB_DECODERS_simps safe_dec_varint safe_dec_uvarint safe_dec_svarint
      safe_dec_fixed32 safe_dec_fixed64 safe_dec_bytes safe_dec_string safe_dec_fixed_length_bytes
      del: One_nat_def\<close>)
qed

section \<open>Static fields\<close>

lemma item_addr_in:
  assumes "i < f_array_size f" "uint (f_data_size f) * uint (f_array_size f) < 2 ^ 32"
  shows "item_addr f d i = d + uint (f_data_size f) * uint i"
    "d \<le> item_addr f d i"
    "item_addr f d i + uint (f_data_size f) \<le> d + uint (f_data_size f) * uint (f_array_size f)"
proof -
  have i: "uint i + 1 \<le> uint (f_array_size f)" using assms(1) by (simp add: word_less_def)
  have nn: "0 \<le> uint (f_data_size f)" "0 \<le> uint i" by simp_all
  have le: "uint (f_data_size f) * (uint i + 1) \<le> uint (f_data_size f) * uint (f_array_size f)"
    using i nn by (intro mult_left_mono) auto
  then have "uint (f_data_size f) * uint i + uint (f_data_size f) \<le> uint (f_data_size f) * uint (f_array_size f)"
    by (simp add: algebra_simps)
  with assms(2) nn(1) have "uint (f_data_size f) * uint i < 2 ^ 32" by linarith
  then have u: "uint (f_data_size f * i) = uint (f_data_size f) * uint i"
    by (simp add: uint_word_ariths mod_pos_pos_trivial)
  then show "item_addr f d i = d + uint (f_data_size f) * uint i" by (simp add: item_addr_def)
  then show "d \<le> item_addr f d i" using nn by simp
  show "item_addr f d i + uint (f_data_size f) \<le> d + uint (f_data_size f) * uint (f_array_size f)"
    using le unfolding item_addr_def u by (simp add: algebra_simps)
qed

lemma safe_packed_loop:
  assumes func: "\<And>sub m i. buf_ok sub \<Longrightarrow> unat (bytes_left sub) \<le> b \<Longrightarrow> i < f_array_size (pos_field it) \<Longrightarrow>
      safe (\<lambda>_. True) 1 lo hi sub m (func sub (pos_field it) (item_addr (pos_field it) (pData it) i) m)"
    and z: "lo \<le> pSize it" "pSize it + 4 \<le> hi"
  shows "buf_ok sub \<Longrightarrow> unat (bytes_left sub) \<le> b \<Longrightarrow> unat (bytes_left sub) < k \<Longrightarrow>
    owp (\<lambda>status (sub', m'). buf_ok sub' \<and> slack sub \<le> slack sub' \<and> (status \<longrightarrow> (\<exists>j. ate sub j sub')) \<and>
           same_outside lo hi m m') (\<lambda>_. False) (\<lambda>_. False) (decode_packed k func it sub m)"
proof (induction k arbitrary: sub m)
  case (Suc k)
  let ?i = "load_word 4 m (pSize it) :: pb_size_t" and ?f = "pos_field it"
  show ?case
  proof (cases "0 < bytes_left sub \<and> ?i < f_array_size ?f")
    case False
    then have e: "decode_packed (Suc k) func it sub m = Ok True (sub, m)" by (auto simp: Let_def)
    show ?thesis unfolding e using Suc.prems(1) ate_0 [OF Suc.prems(1)] by auto
  next
    case True
    have sf: "safe (\<lambda>_. True) 1 lo hi sub m (func sub ?f (item_addr ?f (pData it) ?i) m)"
      using func Suc.prems True by blast
    show ?thesis
    proof (cases "func sub ?f (item_addr ?f (pData it) ?i) m")
      case (Ok u st)
      then obtain sub' m' j where st: "st = (sub', m')" "1 \<le> j" "ate sub j sub'" "same_outside lo hi m m'"
        using sf by (cases st) (auto simp: safe_def)
      note a = ate_ok [OF Suc.prems(1) st(3)]
      let ?m = "store_word 4 m' (pSize it) ((load_word 4 m' (pSize it) :: pb_size_t) + 1)"
      have so: "same_outside lo hi m' ?m" by (rule same_outside_store_word) (use z in auto)
      have e: "decode_packed (Suc k) func it sub m = decode_packed k func it sub' ?m"
        using True Ok st(1) by (simp add: Let_def)
      show ?thesis unfolding e
        by (rule owp_mono [OF Suc.IH])
           (use a st Suc.prems so in \<open>auto intro: same_outside_trans dest: ate_trans [OF Suc.prems(1) st(3)]\<close>)
    next
      case (Fail st)
      then obtain sub' m' where st: "st = (sub', m')" "buf_ok sub'" "slack sub \<le> slack sub'" "same_outside lo hi m m'"
        using sf by (cases st) (auto simp: safe_def)
      have e: "decode_packed (Suc k) func it sub m = Ok False (sub', m')"
        using True Fail st(1) by (simp add: Let_def)
      show ?thesis unfolding e using st by simp
    next
      case (Halt e)
      then show ?thesis using sf by (simp add: safe_def)
    qed
  qed
qed simp

lemma safe_packed_field:
  assumes s: "buf_ok s" and n: "unat (bytes_left s) \<le> n" and z: "lo \<le> pSize it" "pSize it + 4 \<le> hi"
    and func: "\<And>sub m i. buf_ok sub \<Longrightarrow> unat (bytes_left sub) < unat (bytes_left s) \<Longrightarrow> i < f_array_size (pos_field it) \<Longrightarrow>
      safe (\<lambda>_. True) 1 lo hi sub m (func sub (pos_field it) (item_addr (pos_field it) (pData it) i) m)"
  shows "safe (\<lambda>_. True) 1 lo hi s m (obind (pb_make_string_substream env s m) (\<lambda>sub (s1, m1).
     case decode_packed n func it sub m1 of
       Ok status (sub2, m2) \<Rightarrow>
         if bytes_left sub2 \<noteq> 0 then PB_RETURN_ERROR_i s1 ''array overflow'' m2
         else obind (pb_close_string_substream env s1 sub2 m2) (\<lambda>_ st. if status then Ok () st else Fail st)
     | Fail (sub2, m2) \<Rightarrow> Fail (s1, m2)
     | Halt e \<Rightarrow> Halt e))"
  using s
proof (cases rule: make_substream_cases [of s env m])
  case (ok k l)
  have k: "k \<le> unat (bytes_left s)" using ok(3) by simp
  note t = buf_eat_ok [OF s k] and a = ate_eat [OF s k]
  have l: "l \<le> unat (bytes_left (buf_eat k s))" using ok(3) t(3) by simp
  note so = sub_rest_ok [OF t(1) l]
  let ?sub = "sub_of (buf_eat k s) l" and ?rest = "rest_of (buf_eat k s) l"
  have "owp (\<lambda>status (sub', m'). buf_ok sub' \<and> slack ?sub \<le> slack sub' \<and> (status \<longrightarrow> (\<exists>j. ate ?sub j sub')) \<and>
           same_outside lo hi m m') (\<lambda>_. False) (\<lambda>_. False) (decode_packed n func it ?sub m)"
    by (rule safe_packed_loop [where b = "unat (bytes_left s) - 1", OF _ z so(1)])
       (use func so(2) ok(2,3) n in auto)
  then obtain status sub2 m2 where d: "decode_packed n func it ?sub m = Ok status (sub2, m2)"
      "buf_ok sub2" "slack ?sub \<le> slack sub2" "status \<longrightarrow> (\<exists>j. ate ?sub j sub2)" "same_outside lo hi m m2"
    by (cases "decode_packed n func it ?sub m") auto
  have sl: "slack s \<le> slack (buf_eat k s)" using ate_ok(6) [OF s a] by simp
  show ?thesis
  proof (cases "bytes_left sub2 = 0")
    case False
    then show ?thesis using ok(1) d so(4,5) sl
      by (auto simp: safe_def PB_RETURN_ERROR_i_def)
  next
    case z: True
    show ?thesis
    proof (cases status)
      case True
      then obtain j where j: "ate ?sub j sub2" using d(4) by auto
      obtain s' where s': "pb_close_string_substream env ?rest sub2 m2 = Ok () (s', m2)" "ate (buf_eat k s) l s'"
        using close_substream_ate [OF t(1) l j, of env m2] by auto
      have "ate s (k + l) s'" by (rule ate_trans [OF s a s'(2)])
      then show ?thesis using ok(1,2) d(1,5) z True s'(1) by (auto simp: safe_def intro: trans_le_add1)
    next
      case False
      obtain s' where s': "pb_close_string_substream env ?rest sub2 m2 = Ok () (s', m2)"
          "buf_ok s'" "slack (buf_eat k s) \<le> slack s'"
        using close_substream_slack [OF t(1) l d(2,3), of env m2] by auto
      then show ?thesis using ok(1) d(1,5) z False sl by (auto simp: safe_def)
    qed
  qed
next
  case (error s')
  then show ?thesis by (simp add: safe_def)
qed

text \<open>
  A field of a struct at \<open>dest\<close> of \<open>sz\<close> bytes, ready to be decoded with fuel \<open>n\<close> from a
  stream whose submessages have at most \<open>b\<close> bytes.
\<close>

definition field_ready ::
  "nat \<Rightarrow> decode_fun \<Rightarrow> nat \<Rightarrow> addr \<Rightarrow> int \<Rightarrow> pb_field_t \<Rightarrow> addr \<Rightarrow> addr \<Rightarrow> bool" where
  "field_ready n dec b dest sz f d z \<longleftrightarrow>
     wf_field f \<and> plain_field f \<and> field_fits f (d - dest) (z - dest) sz \<and>
     (\<forall>fs. f_ptr f = Ptr_fields fs \<longrightarrow>
        type_ok fs (uint (f_data_size f)) \<and> depth_fields fs < n \<and> dec_safe dec fs (uint (f_data_size f)) b)"

lemma safe_static_field:
  assumes nm: "\<not> env_malloc env" and s: "buf_ok s" and b: "unat (bytes_left s) \<le> Suc b" "unat (bytes_left s) \<le> n"
    and f: "field_ready n dec b dest sz (pos_field it) (pData it) (pSize it)"
    and st: "atype_of (pos_field it) = PB_ATYPE_STATIC"
  shows "safe (\<lambda>_. True) 1 dest (dest + sz) s m (decode_static_field n dec env s wt it m)"
proof -
  let ?f = "pos_field it" and ?d = "pData it" and ?z = "pSize it"
  let ?lo = dest and ?hi = "dest + sz"
  let ?func = "PB_DECODERS n dec env (ltype_of ?f)"
  have wf: "wf_field ?f" and pl: "plain_field ?f"
    and sub: "\<And>fs. f_ptr ?f = Ptr_fields fs \<Longrightarrow> type_ok fs (uint (f_data_size ?f)) \<and> depth_fields fs < n \<and>
      dec_safe dec fs (uint (f_data_size ?f)) b"
    and fits: "dest \<le> ?d" "?d + data_extent ?f \<le> ?hi" "dest \<le> ?z" "?z + size_extent ?f \<le> ?hi" "item_size_ok ?f"
      "uint (f_data_size ?f) * uint (f_array_size ?f) < 2 ^ 32"
    using f by (auto simp: field_ready_def field_fits_def)
  have lt: "\<not> PB_LTYPES_COUNT \<le> ltype_of ?f" using wf wf_field_iff [of ?f] by (simp add: not_le)
  have dec: "safe (\<lambda>_. True) 1 a (a + uint (f_data_size ?f)) s' m' (?func s' ?f a m')"
    if "buf_ok s'" "unat (bytes_left s') \<le> unat (bytes_left s)" for s' m' a
    by (rule safe_decoder [OF nm that(1) _ wf pl st fits(5) sub]) (use that b in auto)
  have one: "safe (\<lambda>_. True) 1 ?lo ?hi s m' (?func s ?f ?d m')"
    if "htype_of ?f \<noteq> PB_HTYPE_REPEATED" for m'
    by (rule safe_weaken [OF dec [OF s order_refl]]) (use that st fits in \<open>auto simp: data_extent_def\<close>)
  have item: "safe (\<lambda>_. True) 1 ?lo ?hi s' m' (?func s' ?f (item_addr ?f ?d i) m')"
    if "buf_ok s'" "unat (bytes_left s') \<le> unat (bytes_left s)" "htype_of ?f = PB_HTYPE_REPEATED"
      "i < f_array_size ?f" for s' m' i
    by (rule safe_weaken [OF dec [OF that(1,2)]])
       (use item_addr_in(2,3) [OF that(4) fits(6), of ?d] that(3) st fits in \<open>auto simp: data_extent_def\<close>)
  note unfold = decode_static_field_def Let_def lt
  from PB_HTYPE_cases [of "f_type ?f"] show ?thesis
  proof (elim disjE)
    assume "htype_of ?f = PB_HTYPE_REQUIRED"
    then show ?thesis using one [of m] by (simp add: unfold del: One_nat_def)
  next
    assume ht: "htype_of ?f = PB_HTYPE_OPTIONAL"
    have "same_outside ?lo ?hi m (if ?z \<noteq> ?d then m(?z := 1) else m)"
      using fits(3,4) ht by (auto simp: same_outside_def size_extent_def)
    from safe_pre [OF this one] show ?thesis using ht by (simp add: unfold del: One_nat_def)
  next
    assume ht: "htype_of ?f = PB_HTYPE_REPEATED"
    have z4: "?lo \<le> ?z" "?z + 4 \<le> ?hi" using fits(3,4) ht by (auto simp: size_extent_def)
    show ?thesis
    proof (cases "wt = PB_WT_STRING \<and> ltype_of ?f \<le> PB_LTYPE_LAST_PACKABLE")
      case True
      then have e: "decode_static_field n dec env s wt it m =
        obind (pb_make_string_substream env s m) (\<lambda>sub (s1, m1).
          case decode_packed n ?func it sub m1 of
            Ok status (sub2, m2) \<Rightarrow>
              if bytes_left sub2 \<noteq> 0 then PB_RETURN_ERROR_i s1 ''array overflow'' m2
              else obind (pb_close_string_substream env s1 sub2 m2) (\<lambda>_ st. if status then Ok () st else Fail st)
          | Fail (sub2, m2) \<Rightarrow> Fail (s1, m2)
          | Halt e \<Rightarrow> Halt e)"
        using ht lt by (simp add: decode_static_field_def Let_def)
      show ?thesis unfolding e
        by (rule safe_packed_field [OF s b(2) z4]) (use item ht in auto)
    next
      case False
      let ?i = "load_word 4 m ?z :: pb_size_t"
      have so: "same_outside ?lo ?hi m (store_word 4 m ?z (?i + 1))"
        by (rule same_outside_store_word) (use z4 in auto)
      have e: "decode_static_field n dec env s wt it m =
        (if f_array_size ?f \<le> ?i then PB_RETURN_ERROR_i s ''array overflow'' m
         else ?func s ?f (item_addr ?f ?d ?i) (store_word 4 m ?z (?i + 1)))"
        using ht lt False by (auto simp: decode_static_field_def Let_def)
      show ?thesis unfolding e
        using safe_pre [OF so item [OF s order_refl ht]] safe_error [OF s order_refl same_outside_refl]
        by (auto simp: not_le simp del: One_nat_def)
    qed
  next
    assume ht: "htype_of ?f = PB_HTYPE_ONEOF"
    define m1 where "m1 = store_word 4 m ?z (f_tag ?f)"
    have m1: "same_outside ?lo ?hi m m1" unfolding m1_def
      by (rule same_outside_store_word) (use fits(3,4) ht in \<open>auto simp: size_extent_def\<close>)
    have de: "data_extent ?f = uint (f_data_size ?f)" using st ht by (simp add: data_extent_def)
    show ?thesis
    proof (cases "ltype_of ?f = PB_LTYPE_SUBMESSAGE")
      case True
      then obtain fs where fs: "f_ptr ?f = Ptr_fields fs" using wf wf_submessage by blast
      define m2 where "m2 = store_bytes m1 ?d (replicate (unat (f_data_size ?f)) 0)"
      have m2: "same_outside ?lo ?hi m1 m2" unfolding m2_def
        by (rule same_outside_store_bytes) (use fits de in auto)
      have "stays ?d (?d + uint (f_data_size ?f)) m2 (pb_message_set_to_defaults n env (f_ptr ?f) ?d m2)"
        unfolding fs using sub [OF fs] by (intro stays_message_defaults) (auto simp: type_ok_def)
      then have "stays ?lo ?hi m2 (pb_message_set_to_defaults n env (f_ptr ?f) ?d m2)"
        by (rule stays_weaken) (use fits de in auto)
      note lift = safe_lift_mem [OF s this]
      have "safe (\<lambda>_. True) (0 + 1) ?lo ?hi s m2
          (obind (lift_mem s (pb_message_set_to_defaults n env (f_ptr ?f) ?d m2)) (\<lambda>_ (s2, m2). ?func s2 ?f ?d m2))"
      proof (rule safe_bind [OF s lift])
        fix u s' m' assume s': "buf_ok s'" "unat (bytes_left s') + 0 \<le> unat (bytes_left s)"
        have "safe (\<lambda>_. True) 1 ?lo ?hi s' m' (?func s' ?f ?d m')"
          by (rule safe_weaken [OF dec]) (use s' de fits in auto)
        then show "safe (\<lambda>_. True) 1 ?lo ?hi s' m' (case (s', m') of (s2, m2) \<Rightarrow> ?func s2 ?f ?d m2)" by simp
      qed
      then have "safe (\<lambda>_. True) 1 ?lo ?hi s m2
          (obind (lift_mem s (pb_message_set_to_defaults n env (f_ptr ?f) ?d m2)) (\<lambda>_ (s2, m2). ?func s2 ?f ?d m2))"
        by simp
      from safe_pre [OF same_outside_trans [OF m1 m2] this] show ?thesis
        using ht True lt [unfolded True] by (simp add: unfold m1_def m2_def del: One_nat_def)
    next
      case False
      then show ?thesis using safe_pre [OF m1 one] ht by (simp add: unfold m1_def del: One_nat_def)
    qed
  qed
qed

end
