(* ===== verification/Pb_Required.thy ===== *)
theory Pb_Required
  imports Pb_Fields Pb_Decode
begin

text \<open>
  The bookkeeping of required fields in \<^verbatim>\<open>pb_decode_noinit\<close>: the bit array of fields seen,
  the count of required fields the iterator arrives at, and the final comparison.
\<close>

section \<open>Counting\<close>

lemma for_each_field_last:
  assumes "no_terminator fs" "iter_valid fs dest it"
    and body: "\<And>it s. body it s = Ok () (h it)"
  shows "\<exists>it'. iter_valid fs dest it' \<and> Suc (it_pos it') = length fs \<and> for_each_field body it s = Ok () (h it')"
  using assms(2)
proof (induction "length fs - it_pos it" arbitrary: it s rule: less_induct)
  case less
  note nx = iter_next_valid [OF assms(1) less.prems]
  have i: "it_pos it < length fs" using less.prems by (simp add: iter_valid_def)
  show ?case
  proof (cases "Suc (it_pos it) < length fs")
    case True
    obtain it1 where it1: "pb_field_iter_next it = (True, it1)"
      using nx(2) True by (cases "pb_field_iter_next it") auto
    have "\<exists>it'. iter_valid fs dest it' \<and> Suc (it_pos it') = length fs \<and> for_each_field body it1 (h it) = Ok () (h it')"
      by (rule less.hyps) (use nx(1,3) it1 True i in auto)
    then show ?thesis by (simp add: for_each_field.simps [of body it] it1 body)
  next
    case False
    obtain it1 where "pb_field_iter_next it = (False, it1)"
      using nx(2) False by (cases "pb_field_iter_next it") auto
    then show ?thesis using less.prems False i
      by (intro exI [of _ it]) (auto simp: for_each_field.simps [of body it] body)
  qed
qed

definition required_count :: "pb_field_t list \<Rightarrow> nat" where
  "required_count fs = length (filter is_required fs)"

text \<open>Wherever decoding left the iterator, the count is that of the message type.\<close>

lemma req_field_count_valid:
  assumes "no_terminator fs" "iter_valid fs dest it"
  shows "req_field_count it = required_count fs"
proof -
  obtain it' where it': "iter_valid fs dest it'" "Suc (it_pos it') = length fs"
    "for_each_field (\<lambda>it _. Ok () (required_field_index it, f_type (pos_field it))) it (0, 0)
      = Ok () (required_field_index it', f_type (pos_field it'))"
    using for_each_field_last [OF assms refl, where h = "\<lambda>it. (required_field_index it, f_type (pos_field it))"] by blast
  have st: "it_start it = fs" "it_pos it < length fs" using assms(2) by (auto simp: iter_valid_def)
  then have t0: "f_tag (field_at (it_start it) 0) \<noteq> 0"
    using assms(1) by (auto simp: field_at_def no_terminator_def)
  have pf: "pos_field it' = fs ! it_pos it'" by (rule pos_field_nth [OF it'(1)])
  have "fs = take (it_pos it') fs @ [fs ! it_pos it']"
    using it'(2) by (metis lessI take_Suc_conv_app_nth take_all order_refl)
  from arg_cong [OF this, of "\<lambda>xs. length (filter is_required xs)"]
  have "required_count fs = length (filter is_required (take (it_pos it') fs))
      + (if is_required (pos_field it') then 1 else 0)"
    unfolding required_count_def pf filter_append length_append by simp
  then show ?thesis using it' t0
    by (simp add: req_field_count_def iter_valid_def is_required_def)
qed

lemma req_field_count_empty: "req_field_count (snd (pb_field_iter_begin [] dest)) = 0"
  by (simp add: req_field_count_def pb_field_iter_begin_def Let_def field_at_def PB_LAST_FIELD_def
      for_each_field.simps pb_field_iter_next_def pos_field_def)

section \<open>Bits\<close>

text \<open>The two words hold the indices in \<open>S\<close>, below 64.\<close>

definition seen_is :: "32 word list \<Rightarrow> nat set \<Rightarrow> bool" where
  "seen_is seen S \<longleftrightarrow> length seen = 2 \<and> (\<forall>i<64. bit (seen ! (i div 32)) (i mod 32) \<longleftrightarrow> i \<in> S)"

lemma seen_is_empty: "seen_is [0, 0] {}"
proof -
  have "([0, 0 :: 32 word] ! (i div 32)) = 0" if "i < 64" for i :: nat
  proof -
    have "i div 32 < 2" using that by (simp add: less_mult_imp_div_less)
    then show ?thesis by (auto simp: less_2_cases_iff)
  qed
  then show ?thesis by (simp add: seen_is_def)
qed

lemma seen_is_nth:
  assumes "seen_is seen S" "w < 2" "k < 32"
  shows "bit (seen ! w) k \<longleftrightarrow> 32 * w + k \<in> S"
proof -
  have "32 * w + k < 64" using assms(2,3) by auto
  moreover have "(32 * w + k) div 32 = w" "(32 * w + k) mod 32 = k" using assms(3) by auto
  ultimately show ?thesis using assms(1) unfolding seen_is_def by metis
qed

lemma seen_is_mark:
  assumes "seen_is seen S"
  shows "seen_is (mark_seen it seen)
    (if is_required (pos_field it) \<and> required_field_index it < 64 then insert (required_field_index it) S else S)"
proof (cases "is_required (pos_field it) \<and> required_field_index it < 64")
  case True
  let ?i = "required_field_index it"
  have len: "length seen = 2" using assms by (simp add: seen_is_def)
  have d: "?i div 32 < 2" using True by (simp add: less_mult_imp_div_less)
  have e: "mark_seen it seen = seen[?i div 32 := seen ! (?i div 32) OR push_bit (?i mod 32) 1]"
    using True by (simp add: mark_seen_def Let_def PB_MAX_REQUIRED_FIELDS_def is_required_def)
  have "bit (mark_seen it seen ! (j div 32)) (j mod 32) \<longleftrightarrow> j \<in> insert ?i S" if j: "j < 64" for j
  proof -
    have jd: "j div 32 < 2" using j by (simp add: less_mult_imp_div_less)
    have old: "bit (seen ! (j div 32)) (j mod 32) \<longleftrightarrow> j \<in> S"
      using assms j by (simp add: seen_is_def)
    have one: "bit (push_bit (?i mod 32) (1 :: 32 word)) (j mod 32) \<longleftrightarrow> j mod 32 = ?i mod 32"
      by (simp only: bit_push_bit_iff bit_1_iff) auto
    show ?thesis
    proof (cases "j div 32 = ?i div 32")
      case True
      then have "j mod 32 = ?i mod 32 \<longleftrightarrow> j = ?i" by (metis div_mult_mod_eq)
      then show ?thesis using True old one d len by (auto simp: e bit_or_iff)
    next
      case False
      then show ?thesis using old by (auto simp: e)
    qed
  qed
  with True len show ?thesis by (simp add: seen_is_def) (simp add: e)
next
  case False
  then show ?thesis using assms by (auto simp: mark_seen_def Let_def PB_MAX_REQUIRED_FIELDS_def is_required_def)
qed

lemma bit_low_ones: "0 < k \<Longrightarrow> k \<le> 32 \<Longrightarrow> j < 32 \<Longrightarrow> bit (drop_bit (32 - k) (- 1 :: 32 word)) j \<longleftrightarrow> j < k"
  by (auto simp: bit_simps)

lemma word_eq_low_ones:
  assumes "\<And>j. j < 32 \<Longrightarrow> bit (w :: 32 word) j \<longleftrightarrow> j \<in> T" "0 < k" "k \<le> 32"
  shows "w = drop_bit (32 - k) (- 1) \<longleftrightarrow> (\<forall>j<32. j \<in> T \<longleftrightarrow> j < k)"
proof
  assume "w = drop_bit (32 - k) (- 1)"
  then show "\<forall>j<32. j \<in> T \<longleftrightarrow> j < k" using assms bit_low_ones [OF assms(2,3)] by auto
next
  assume "\<forall>j<32. j \<in> T \<longleftrightarrow> j < k"
  then show "w = drop_bit (32 - k) (- 1)"
    using assms bit_low_ones [OF assms(2,3)] by (intro bit_word_eqI) auto
qed

text \<open>
  For a count the code handles, below 64 and no multiple of 32, the check succeeds exactly
  when all required fields have been seen.
\<close>

lemma check_required_seen:
  assumes seen: "seen_is seen S" "S \<subseteq> {..<r}" and r: "r < 64" "r = 0 \<or> r mod 32 \<noteq> 0"
  shows "check_required seen r = Some (S = {..<r})"
proof -
  have len: "length seen = 2" using seen(1) by (simp add: seen_is_def)
  have w0: "bit (seen ! 0) j \<longleftrightarrow> j \<in> S" if "j < 32" for j
    using seen_is_nth [OF seen(1), of 0 j] that by simp
  have w1: "bit (seen ! 1) j \<longleftrightarrow> j \<in> {j. 32 + j \<in> S}" if "j < 32" for j
    using seen_is_nth [OF seen(1), of 1 j] that by simp
  consider "r = 0" | "0 < r" "r < 32" | "32 < r" "r < 64" using r by fastforce
  then show ?thesis
  proof cases
    case 1
    then show ?thesis using seen(2) by (auto simp: check_required_def)
  next
    case 2
    have "check_required seen r = Some (seen ! 0 = drop_bit (32 - r) (- 1))"
      using 2 len by (simp add: check_required_def)
    moreover have "seen ! 0 = drop_bit (32 - r) (- 1) \<longleftrightarrow> (\<forall>j<32. j \<in> S \<longleftrightarrow> j < r)"
      by (rule word_eq_low_ones [OF w0]) (use 2 in auto)
    moreover have "(\<forall>j<32. j \<in> S \<longleftrightarrow> j < r) \<longleftrightarrow> S = {..<r}" using seen(2) 2 by force
    ultimately show ?thesis by simp
  next
    case 3
    have d: "r div 32 = 1" "r mod 32 = r - 32" using 3 by (simp_all add: div_nat_eqI mod_if)
    have all: "seen ! 0 = - 1 \<longleftrightarrow> (\<forall>j<32. j \<in> S)"
      using word_eq_low_ones [OF w0, of 32] by simp
    have top: "seen ! 1 = drop_bit (32 - (r - 32)) (- 1) \<longleftrightarrow> (\<forall>j<32. j \<in> {j. 32 + j \<in> S} \<longleftrightarrow> j < r - 32)"
      by (rule word_eq_low_ones [OF w1]) (use 3 in auto)
    have S: "S = {..<r} \<longleftrightarrow> (\<forall>j<32. j \<in> S) \<and> (\<forall>j<32. 32 + j \<in> S \<longleftrightarrow> j < r - 32)"
    proof
      assume a: "(\<forall>j<32. j \<in> S) \<and> (\<forall>j<32. 32 + j \<in> S \<longleftrightarrow> j < r - 32)"
      have "i \<in> S" if "i < r" for i
      proof (cases "i < 32")
        case False
        then obtain j where j: "i = 32 + j" using le_Suc_ex not_less by blast
        then show ?thesis using a that 3 by auto
      qed (use a in auto)
      then show "S = {..<r}" using seen(2) by auto
    qed (use 3 in auto)
    have "check_required seen r = Some (seen ! 0 = - 1 \<and> seen ! 1 = drop_bit (32 - (r - 32)) (- 1))"
      using 3 len by (simp add: check_required_def d)
    then show ?thesis by (simp only: all top S mem_Collect_eq)
  qed
qed

end
