(* ===== verification/Pb_Message_Safe.thy ===== *)
theory Pb_Message_Safe
  imports Pb_Decode_Safe Pb_Required
begin

text \<open>
  Safety of the message loop: searching the iterator, skipping unknown fields, and the
  recursion over submessages, up to \<^verbatim>\<open>pb_decode_noinit\<close>.
\<close>

section \<open>Required fields of a type\<close>

text \<open>
  The counts the final comparison handles: below 64, and no multiple of 32 but 0, in the
  message type and in all its submessage types.
\<close>

definition count_ok :: "nat \<Rightarrow> bool" where
  "count_ok r \<longleftrightarrow> r < 64 \<and> (r = 0 \<or> r mod 32 \<noteq> 0)"

primrec required_field_ok :: "pb_field_t \<Rightarrow> bool"
  and required_ptr_ok :: "pb_field_ptr \<Rightarrow> bool" where
  "required_field_ok (PB_field_t tag ty doff soff ds as ptr) \<longleftrightarrow> required_ptr_ok ptr"
| "required_ptr_ok Ptr_null = True"
| "required_ptr_ok (Ptr_fields fs) \<longleftrightarrow> count_ok (required_count fs) \<and> list_all id (map required_field_ok fs)"
| "required_ptr_ok (Ptr_default bs) = True"

definition required_ok :: "pb_field_t list \<Rightarrow> bool" where
  "required_ok fs \<longleftrightarrow> count_ok (required_count fs) \<and> (\<forall>f \<in> set fs. required_field_ok f)"

lemma required_ok_sub: "required_ok fs \<Longrightarrow> f \<in> set fs \<Longrightarrow> f_ptr f = Ptr_fields fs' \<Longrightarrow> required_ok fs'"
  by (cases f) (auto simp: required_ok_def list_all_iff)

section \<open>Where the iterator stands\<close>

text \<open>On an empty table the iterator stands on the terminator.\<close>

definition iter_at :: "pb_field_t list \<Rightarrow> addr \<Rightarrow> pb_field_iter_t \<Rightarrow> bool" where
  "iter_at fs dest it \<longleftrightarrow>
     (if fs = [] then it = snd (pb_field_iter_begin [] dest) else iter_valid fs dest it)"

lemma iter_at_begin: "iter_at fs dest (snd (pb_field_iter_begin fs dest))"
  using iter_begin_valid by (simp add: iter_at_def)

lemma begin_empty:
  "snd (pb_field_iter_begin [] dest) =
    \<lparr>it_start = [], it_pos = 0, required_field_index = 0, dest_struct = dest, pData = dest, pSize = dest\<rparr>"
  by (simp add: pb_field_iter_begin_def Let_def field_at_def PB_LAST_FIELD_def)

lemma search_empty:
  "pb_field_iter_find (snd (pb_field_iter_begin [] dest)) tag = Some (tag = 0, snd (pb_field_iter_begin [] dest))"
  "find_extension_field (snd (pb_field_iter_begin [] dest)) = Some (False, snd (pb_field_iter_begin [] dest))"
  by (simp_all add: begin_empty pb_field_iter_find_def find_extension_field_def pos_field_def field_at_def
      pb_field_iter_next_def Let_def PB_LAST_FIELD_def PB_LTYPE_def PB_LTYPE_EXTENSION_def)

lemma iter_find_at:
  assumes "no_terminator fs" "iter_at fs dest it"
  obtains found it' where "pb_field_iter_find it tag = Some (found, it')" "iter_at fs dest it'"
proof (cases "fs = []")
  case True
  with assms(2) have it: "it = snd (pb_field_iter_begin [] dest)" by (simp add: iter_at_def)
  show thesis by (rule that [of "tag = 0" it]) (use True it search_empty(1) in \<open>simp_all add: iter_at_def\<close>)
next
  case False
  with assms(2) have v: "iter_valid fs dest it" by (simp add: iter_at_def)
  with False that show thesis
    by (cases rule: find_valid [OF assms(1) v, of tag]) (simp_all add: iter_at_def)
qed

lemma find_no_extension:
  assumes "no_terminator fs" "plain_fields fs" "iter_at fs dest it"
  shows "find_extension_field it = Some (False, it)"
proof (cases "fs = []")
  case True
  with assms(3) have it: "it = snd (pb_field_iter_begin [] dest)" by (simp add: iter_at_def)
  with search_empty(2) show ?thesis by simp
next
  case False
  with assms(3) have v: "iter_valid fs dest it" by (simp add: iter_at_def)
  have nx: "ltype_of f \<noteq> PB_LTYPE_EXTENSION" if "f \<in> set fs" for f
    using plain_fields_in [OF assms(2) that] plain_field_iff [of f] by simp
  from assms(1) v show ?thesis
  proof (cases rule: find_extension_valid)
    case (found it')
    have "pos_field it' \<in> set fs" using iter_valid_in [OF found(2)] positions_subset by blast
    with nx found(3) show ?thesis by blast
  qed
qed

text \<open>The bits marked stay those of required fields.\<close>

lemma index_below_count:
  assumes "iter_valid fs dest it" "is_required (pos_field it)"
  shows "required_field_index it < required_count fs"
proof -
  let ?i = "it_pos it"
  have i: "?i < length fs" and ri: "required_field_index it = length (filter is_required (take ?i fs))"
    using assms(1) by (auto simp: iter_valid_def)
  have "fs = take ?i fs @ fs ! ?i # drop (Suc ?i) fs" using i by (simp add: id_take_nth_drop)
  from arg_cong [OF this, of "\<lambda>xs. length (filter is_required xs)"]
  have "required_count fs = length (filter is_required (take ?i fs))
      + Suc (length (filter is_required (drop (Suc ?i) fs)))"
    using assms(2) pos_field_nth [OF assms(1)] unfolding required_count_def filter_append length_append by simp
  with ri show ?thesis by simp
qed

definition seen_ok :: "pb_field_t list \<Rightarrow> 32 word list \<Rightarrow> bool" where
  "seen_ok fs seen \<longleftrightarrow> fs = [] \<or> (\<exists>S. seen_is seen S \<and> S \<subseteq> {..<required_count fs})"

lemma seen_ok_init: "seen_ok fs [0, 0]"
  using seen_is_empty by (auto simp: seen_ok_def)

lemma seen_ok_mark:
  assumes "iter_at fs dest it" "seen_ok fs seen"
  shows "seen_ok fs (mark_seen it seen)"
proof (cases "fs = []")
  case False
  with assms obtain S where S: "seen_is seen S" "S \<subseteq> {..<required_count fs}" by (auto simp: seen_ok_def)
  have v: "iter_valid fs dest it" using assms(1) False by (simp add: iter_at_def)
  show ?thesis
    using seen_is_mark [OF S(1), of it] S(2) index_below_count [OF v]
    by (auto simp: seen_ok_def split: if_splits)
qed (simp add: seen_ok_def)

lemma check_required_ok:
  assumes "no_terminator fs" "count_ok (required_count fs)" "iter_at fs dest it" "seen_ok fs seen"
  obtains ok where "check_required seen (req_field_count it) = Some ok"
proof (cases "fs = []")
  case True
  then have "req_field_count it = 0" using assms(3) req_field_count_empty by (simp add: iter_at_def)
  then show thesis by (intro that [of True]) (simp add: check_required_def)
next
  case False
  with assms(4) obtain S where S: "seen_is seen S" "S \<subseteq> {..<required_count fs}" by (auto simp: seen_ok_def)
  have "req_field_count it = required_count fs"
    using assms(3) False req_field_count_valid [OF assms(1)] by (simp add: iter_at_def)
  then show thesis using check_required_seen [OF S] assms(2) by (auto simp: count_ok_def intro: that)
qed

section \<open>Fields, known and unknown\<close>

lemma safe_return:
  assumes "buf_ok s" "safe P 1 lo hi s m x" "Q a"
  shows "safe Q 1 lo hi s m (obind x (\<lambda>_ st. Ok a st))"
  by (rule safe_bind_Ok [OF assms(1,2)]) (use assms(3) in \<open>auto intro: safe_Ok\<close>)

lemma safe_decode_field:
  assumes nm: "\<not> env_malloc env" and s: "buf_ok s" and b: "unat (bytes_left s) \<le> Suc b" "unat (bytes_left s) \<le> n"
    and f: "field_ready n dec b dest sz (pos_field it) (pData it) (pSize it)"
  shows "safe (\<lambda>it'. it' = it) 1 dest (dest + sz) s m (decode_field n dec env s wt it m)"
proof -
  have e: "decode_field n dec env s wt it m =
      obind (if atype_of (pos_field it) = PB_ATYPE_STATIC then decode_static_field n dec env s wt it m
             else if atype_of (pos_field it) = PB_ATYPE_POINTER then decode_pointer_field n dec env s wt it m
             else if atype_of (pos_field it) = PB_ATYPE_CALLBACK then decode_callback_field n env s wt it m
             else PB_RETURN_ERROR_i s ''invalid field type'' m) (\<lambda>_ st. Ok it st)"
    using nm by (simp add: decode_field_def Let_def)
  have "plain_field (pos_field it)" using f by (simp add: field_ready_def)
  then have at: "atype_of (pos_field it) = PB_ATYPE_STATIC \<or> atype_of (pos_field it) = PB_ATYPE_POINTER"
    using plain_field_iff [of "pos_field it"] by simp
  show ?thesis unfolding e
  proof (rule safe_return [OF s])
    have "safe (\<lambda>_. True) 1 dest (dest + sz) s m (decode_pointer_field n dec env s wt it m)"
      using nm s by (simp add: decode_pointer_field_def safe_error)
    with at safe_static_field [OF nm s b f] show "safe (\<lambda>_. True) 1 dest (dest + sz) s m
        (if atype_of (pos_field it) = PB_ATYPE_STATIC then decode_static_field n dec env s wt it m
         else if atype_of (pos_field it) = PB_ATYPE_POINTER then decode_pointer_field n dec env s wt it m
         else if atype_of (pos_field it) = PB_ATYPE_CALLBACK then decode_callback_field n env s wt it m
         else PB_RETURN_ERROR_i s ''invalid field type'' m)"
      by auto
  qed simp
qed

text \<open>
  On an empty table a tag of 0 matches the terminator, which is then decoded as a varint of
  size 0: the decoder reports an invalid data size.
\<close>

lemma safe_decode_last:
  assumes nm: "\<not> env_malloc env" and s: "buf_ok s" and sz: "0 \<le> sz"
    and it: "it = snd (pb_field_iter_begin [] dest)"
  shows "safe (\<lambda>it'. it' = it) 1 dest (dest + sz) s m (decode_field n dec env s wt it m)"
proof -
  have f: "pos_field it = PB_LAST_FIELD" "pData it = dest"
    by (simp_all add: it begin_empty pos_field_def field_at_def)
  have t: "PB_LTYPE 0 = PB_LTYPE_VARINT" "PB_HTYPE 0 = PB_HTYPE_REQUIRED" "PB_ATYPE 0 = PB_ATYPE_STATIC"
      "\<not> PB_LTYPES_COUNT \<le> PB_LTYPE_VARINT"
    by (simp_all add: PB_LTYPE_def PB_HTYPE_def PB_ATYPE_def pb_ltypes pb_htypes pb_atypes)
  have e: "decode_field n dec env s wt it m = obind (pb_dec_varint env s PB_LAST_FIELD dest m) (\<lambda>_ st. Ok it st)"
    using nm f t by (simp add: decode_field_def Let_def decode_static_field_def PB_LAST_FIELD_def PB_DECODERS_simps)
  have "safe (\<lambda>_. True) 1 dest (dest + sz) s m (pb_dec_varint env s PB_LAST_FIELD dest m)"
    by (rule safe_weaken [OF safe_dec_varint [OF s]]) (use sz in \<open>auto simp: PB_LAST_FIELD_def\<close>)
  then show ?thesis unfolding e by (rule safe_return [OF s]) (rule refl)
qed

text \<open>\<^verbatim>\<open>extension_range_start\<close> is 0 before the first unknown field and the maximum after it.\<close>

lemma safe_decode_unknown:
  assumes s: "buf_ok s" "unat (bytes_left s) < n" and fs: "no_terminator fs" "plain_fields fs"
    and it: "iter_at fs dest it" and tag: "unat tag < 2 ^ 29"
  shows "safe (\<lambda>(it', start'). iter_at fs dest it') 1 lo hi s m
    (decode_unknown n dec env s tag wt it start m)"
proof -
  have skip: "safe (\<lambda>(it', start'). iter_at fs dest it') 1 lo hi s m
      (obind (pb_skip_field n env s wt m) (\<lambda>_ st. Ok (it, st') st))" for st' :: "32 word"
    by (rule safe_return [OF s(1) safe_skip_field [OF s]]) (use it in simp)
  have "tag < - 1"
    using tag by (simp add: word_less_nat_alt unsigned_minus_1_eq_mask mask_eq_exp_minus_1)
  with find_no_extension [OF fs it] skip show ?thesis
    by (simp add: decode_unknown_def Let_def del: One_nat_def)
qed

section \<open>The message loop\<close>

lemma safe_after:
  assumes "buf_ok s" "ate s j s'" "safe Q i lo hi s' m x"
  shows "safe Q (j + i) lo hi s m x"
  unfolding safe_def
  by (rule owp_mono [OF assms(3) [unfolded safe_def]])
     (use ate_ok(6) [OF assms(1,2)] in \<open>auto dest: ate_trans [OF assms(1,2)] intro: add_mono\<close>)

text \<open>Decoding the fields of a type needs this of each of them.\<close>

definition fields_ready :: "nat \<Rightarrow> decode_fun \<Rightarrow> nat \<Rightarrow> pb_field_t list \<Rightarrow> int \<Rightarrow> bool" where
  "fields_ready n dec b fs sz \<longleftrightarrow>
     (\<forall>f \<in> set fs. \<forall>fs'. f_ptr f = Ptr_fields fs' \<longrightarrow>
        type_ok fs' (uint (f_data_size f)) \<and> depth_fields fs' < n \<and> dec_safe dec fs' (uint (f_data_size f)) b)"

lemma field_ready_at:
  assumes "type_ok fs sz" "fields_ready n dec b fs sz" "iter_valid fs dest it"
  shows "field_ready n dec b dest sz (pos_field it) (pData it) (pSize it)"
proof -
  note inp = iter_valid_in [OF assms(3)]
  then have f: "pos_field it \<in> set fs" by (rule positions_subset)
  show ?thesis
    using assms(1,2) f layout_fits_at(1) [OF _ inp, of sz]
    by (auto simp: field_ready_def fields_ready_def type_ok_def wf_fields_in plain_fields_in)
qed

lemma safe_decode_at:
  assumes nm: "\<not> env_malloc env" and s: "buf_ok s" and b: "unat (bytes_left s) \<le> Suc b" "unat (bytes_left s) \<le> n"
    and ty: "type_ok fs sz" and ready: "fields_ready n dec b fs sz" and it: "iter_at fs dest it"
  shows "safe (\<lambda>it'. it' = it) 1 dest (dest + sz) s m (decode_field n dec env s wt it m)"
proof (cases "fs = []")
  case True
  with it ty show ?thesis by (intro safe_decode_last [OF nm s]) (simp_all add: iter_at_def type_ok_def)
next
  case False
  with it have "iter_valid fs dest it" by (simp add: iter_at_def)
  from safe_decode_field [OF nm s b field_ready_at [OF ty ready this]] show ?thesis .
qed

lemma safe_decode_loop:
  assumes nm: "\<not> env_malloc env" and ty: "type_ok fs sz" and ready: "fields_ready n dec b fs sz"
  shows "buf_ok s \<Longrightarrow> unat (bytes_left s) < k \<Longrightarrow> unat (bytes_left s) \<le> n \<Longrightarrow> unat (bytes_left s) \<le> Suc b \<Longrightarrow>
    iter_at fs dest it \<Longrightarrow> seen_ok fs seen \<Longrightarrow>
    safe (\<lambda>(it', seen'). iter_at fs dest it' \<and> seen_ok fs seen') 0 dest (dest + sz) s m
      (decode_loop k n dec env it seen start s m)"
proof (induction k arbitrary: it seen start s m)
  case (Suc k)
  let ?Q = "\<lambda>(it', seen'). iter_at fs dest it' \<and> seen_ok fs seen'"
  have nt: "no_terminator fs" and pl: "plain_fields fs"
    using ty wf_fields_no_terminator by (auto simp: type_ok_def)
  show ?case
  proof (cases "bytes_left s = 0")
    case True
    then show ?thesis using Suc.prems by (auto intro!: safe_Ok)
  next
    case False
    from Suc.prems(1) show ?thesis
    proof (cases rule: decode_tag_cases [of s env m])
      case (tag wt t j)
      let ?s = "buf_eat j s"
      note s1 = buf_eat_ok [OF Suc.prems(1) tag(3)] and a = ate_eat [OF Suc.prems(1) tag(3)]
      have left: "unat (bytes_left ?s) < unat (bytes_left s)" using s1(3) tag(2,3) by simp
      obtain found it1 where fd: "pb_field_iter_find it t = Some (found, it1)" "iter_at fs dest it1"
        by (rule iter_find_at [OF nt Suc.prems(5)])
      have rec: "safe ?Q 0 dest (dest + sz) s' m' (decode_loop k n dec env it' seen' start' s' m')"
        if "buf_ok s'" "unat (bytes_left s') \<le> unat (bytes_left ?s)" "iter_at fs dest it'" "seen_ok fs seen'"
        for it' seen' start' s' m'
        by (rule Suc.IH) (use that left Suc.prems in auto)
      define rest where "rest =
        (if found then obind (decode_field n dec env ?s wt it1 m) (\<lambda>it2 (s2, m2).
                   decode_loop k n dec env it2 (mark_seen it1 seen) start s2 m2)
         else obind (decode_unknown n dec env ?s t wt it1 start m)
                   (\<lambda>(it2, start2) (s2, m2). decode_loop k n dec env it2 seen start2 s2 m2))"
      have "safe ?Q 1 dest (dest + sz) ?s m rest"
      proof (cases found)
        case True
        have fld: "safe (\<lambda>it'. it' = it1) 1 dest (dest + sz) ?s m (decode_field n dec env ?s wt it1 m)"
          by (rule safe_decode_at [OF nm s1(1) _ _ ty ready fd(2)]) (use left Suc.prems in auto)
        have "safe ?Q 1 dest (dest + sz) ?s m (obind (decode_field n dec env ?s wt it1 m) (\<lambda>it2 (s2, m2).
                   decode_loop k n dec env it2 (mark_seen it1 seen) start s2 m2))"
          by (rule safe_bind_Ok [OF s1(1) fld])
             (use fd(2) seen_ok_mark [OF fd(2) Suc.prems(6)] in \<open>auto intro!: rec\<close>)
        then show ?thesis using True by (simp add: rest_def)
      next
        case False
        have unk: "safe (\<lambda>(it', start'). iter_at fs dest it') 1 dest (dest + sz) ?s m
            (decode_unknown n dec env ?s t wt it1 start m)"
          by (rule safe_decode_unknown [OF s1(1) _ nt pl fd(2) tag(4)]) (use left Suc.prems in auto)
        have "safe ?Q 1 dest (dest + sz) ?s m (obind (decode_unknown n dec env ?s t wt it1 start m)
                   (\<lambda>(it2, start2) (s2, m2). decode_loop k n dec env it2 seen start2 s2 m2))"
          by (rule safe_bind_Ok [OF s1(1) unk]) (use Suc.prems(6) in \<open>auto intro!: rec\<close>)
        then show ?thesis using False by (simp add: rest_def)
      qed
      moreover have "decode_loop (Suc k) n dec env it seen start s m = rest"
        using False tag(1) fd(1) by (simp add: rest_def)
      ultimately have "safe ?Q (j + 1) dest (dest + sz) s m (decode_loop (Suc k) n dec env it seen start s m)"
        by (simp only: safe_after [OF Suc.prems(1) a])
      then show ?thesis by (rule safe_weaken) simp_all
    next
      case (eof s' j)
      then show ?thesis using False Suc.prems(5,6) by (auto simp: safe_def)
    next
      case (error s')
      then show ?thesis using False by (simp add: safe_def)
    qed
  qed
qed simp

text \<open>The recursion: one unit of fuel per level and one per byte.\<close>

lemma safe_decode_noinit:
  assumes nm: "\<not> env_malloc env"
  shows "type_ok fs sz \<Longrightarrow> required_ok fs \<Longrightarrow> b + depth_fields fs < n \<Longrightarrow> dec_safe (pb_decode_noinit n env) fs sz b"
proof (induction n arbitrary: fs sz b)
  case (Suc n)
  have nt: "no_terminator fs" using Suc.prems(1) wf_fields_no_terminator by (auto simp: type_ok_def)
  have ready: "fields_ready n (pb_decode_noinit n env) b fs sz"
    unfolding fields_ready_def
  proof (intro ballI allI impI)
    fix f fs' assume f: "f \<in> set fs" "f_ptr f = Ptr_fields fs'"
    obtain d z where "(f, d, z) \<in> set (positions fs 0)"
      using f(1) map_fst_positions [of fs 0] by (metis (no_types, opaque_lifting) imageE list.set_map prod.collapse)
    then have lay: "layout_ok fs' (uint (f_data_size f))" and fit: "field_fits f d z sz"
      using layout_ok_in [of fs sz f d z] Suc.prems(1) f(2) by (auto simp: type_ok_def)
    have "ltype_of f = PB_LTYPE_SUBMESSAGE" using fit f(2) by (simp add: field_fits_def item_size_ok_def)
    moreover have wf: "wf_field f" "plain_field f"
      using Suc.prems(1) f(1) by (auto simp: type_ok_def wf_fields_in plain_fields_in)
    ultimately have ty: "type_ok fs' (uint (f_data_size f))"
      using lay f(2) wf_field_iff [of f] plain_field_iff [of f] by (auto simp: type_ok_def)
    have d: "b + depth_fields fs' < n"
      using depth_sub_fields [OF f(2)] depth_field_in [OF f(1)] Suc.prems(3) by simp
    from Suc.IH [OF ty required_ok_sub [OF Suc.prems(2) f] d] ty d
    show "type_ok fs' (uint (f_data_size f)) \<and> depth_fields fs' < n \<and>
        dec_safe (pb_decode_noinit n env) fs' (uint (f_data_size f)) b" by simp
  qed
  show ?case unfolding dec_safe_def
  proof (intro allI impI)
    fix a s m assume s: "buf_ok s" "unat (bytes_left s) \<le> b"
    have lp: "safe (\<lambda>(it', seen'). iter_at fs a it' \<and> seen_ok fs seen') 0 a (a + sz) s m
        (decode_loop (Suc n) n (pb_decode_noinit n env) env (snd (pb_field_iter_begin fs a)) [0, 0] 0 s m)"
      by (rule safe_decode_loop [OF nm Suc.prems(1) ready s(1)])
         (use s(2) Suc.prems(3) iter_at_begin seen_ok_init in auto)
    show "safe (\<lambda>_. True) 0 a (a + sz) s m (pb_decode_noinit (Suc n) env fs a s m)"
      unfolding pb_decode_noinit.simps
    proof (rule safe_bind_Ok [OF s(1) lp])
      fix r s' m' assume r: "case r of (it', seen') \<Rightarrow> iter_at fs a it' \<and> seen_ok fs seen'" and s': "buf_ok s'"
      obtain it' seen' where e: "r = (it', seen')" by (cases r)
      with r have r': "iter_at fs a it'" "seen_ok fs seen'" by auto
      have "count_ok (required_count fs)" using Suc.prems(2) by (simp add: required_ok_def)
      from check_required_ok [OF nt this r'] obtain ok where "check_required seen' (req_field_count it') = Some ok" .
      then show "safe (\<lambda>_. True) 0 a (a + sz) s' m' ((case r of (it, seen) \<Rightarrow> (\<lambda>(s', m').
          (case check_required seen (req_field_count it) of
            None \<Rightarrow> Halt Undefined_Behaviour
          | Some False \<Rightarrow> PB_RETURN_ERROR_i s' ''missing required field'' m'
          | Some True \<Rightarrow> Ok () (s', m')))) (s', m'))"
        using s' by (auto simp: e intro: safe_error safe_Ok split: bool.splits)
    qed
  qed
qed simp

end
