(* ===== verification/Pb_Wire_Theorems.thy ===== *)
theory Pb_Wire_Theorems
  imports Pb_Wire_Props
begin

text \<open>
  The properties of the wire layer: what an encoder writes to a memory buffer, the
  matching decoder reads back from it, whatever follows it in the buffer.
\<close>

section \<open>A buffer read as a stream\<close>

definition reading :: "byte list \<Rightarrow> pb_istream_t" where
  "reading bs = pb_istream_from_buffer bs (of_nat (length bs))"

lemma reading_ok:
  assumes "length bs < 2 ^ 64"
  shows "buf_ok (reading bs)" "buf_avail (reading bs) = bs" "unat (bytes_left (reading bs)) = length bs"
  using assms
  by (simp_all add: reading_def pb_istream_from_buffer_def buf_ok_def buf_ready_def buf_avail_def
      buf_bytes_def unat_of_nat)

lemma eat_reading:
  "buf_eat (length bs) (reading (bs @ rest)) = reading rest"
proof -
  have "(of_nat (length (bs @ rest)) :: size_t) - of_nat (length bs) = of_nat (length rest)" by simp
  then show ?thesis
    by (simp add: buf_eat_def buf_adv_def reading_def pb_istream_from_buffer_def buf_bytes_def)
qed

lemma write_read:
  assumes "out.appends E m bs" "length bs \<le> n" "n \<le> cap" "cap < 2 ^ 63" "length rest < 2 ^ 63"
  shows "E (pb_ostream_from_buffer cap (of_nat cap)) m = Ok () (buffer_with cap bs, m)"
    "length (bs @ rest) < 2 ^ 64"
    "buf_ok (reading (bs @ rest))" "buf_avail (reading (bs @ rest)) = bs @ rest"
proof -
  have "length bs \<le> cap" using assms(2,3) by simp
  then show "E (pb_ostream_from_buffer cap (of_nat cap)) m = Ok () (buffer_with cap bs, m)"
    by (rule appends_to_buffer(1) [OF assms(1,4)])
  show len: "length (bs @ rest) < 2 ^ 64" using assms(2-) by simp
  show "buf_ok (reading (bs @ rest))" "buf_avail (reading (bs @ rest)) = bs @ rest"
    by (rule reading_ok [OF len])+
qed

section \<open>Integers\<close>

text \<open>C28: a 64-bit value written by \<^verbatim>\<open>pb_encode_varint\<close> takes at most ten bytes, and
  \<^verbatim>\<open>pb_decode_varint\<close> reads exactly those bytes back as the same value.\<close>

theorem varint_roundtrip:
  assumes "10 \<le> cap" "cap < 2 ^ 63" "length rest < 2 ^ 63"
  shows "\<exists>bs. length bs \<le> 10 \<and>
    pb_encode_varint env (pb_ostream_from_buffer cap (of_nat cap)) v m = Ok () (buffer_with cap bs, m) \<and>
    pb_decode_varint env' (reading (bs @ rest)) m' = Ok v (reading rest, m')"
proof (intro exI conjI)
  let ?bs = "leb128 (unat v)"
  show len: "length ?bs \<le> 10" by simp
  note wr = write_read [OF out.appends_varint len assms]
  show "pb_encode_varint env (pb_ostream_from_buffer cap (of_nat cap)) v m = Ok () (buffer_with cap ?bs, m)"
    by (rule wr(1))
  show "pb_decode_varint env' (reading (?bs @ rest)) m' = Ok v (reading rest, m')"
    using pb_decode_varint_leb128 [OF wr(3,4)] by (simp add: eat_reading)
qed

lemma varint_roundtrip_witness:
  "\<exists>bs. length bs \<le> 10 \<and>
    pb_encode_varint bare_env (pb_ostream_from_buffer 16 16) 300 zero_mem = Ok () (buffer_with 16 bs, zero_mem) \<and>
    pb_decode_varint bare_env (reading (bs @ [7])) zero_mem = Ok 300 (reading [7], zero_mem)"
  using varint_roundtrip [of 16 "[7]" bare_env 300 zero_mem bare_env zero_mem] by simp

text \<open>a signed value written by \<^verbatim>\<open>pb_encode_svarint\<close> (zig-zag) is read back by
  \<^verbatim>\<open>pb_decode_svarint\<close>, for all 64-bit values, the most negative one included.\<close>

theorem svarint_roundtrip:
  assumes "10 \<le> cap" "cap < 2 ^ 63" "length rest < 2 ^ 63"
  shows "\<exists>bs. length bs \<le> 10 \<and>
    pb_encode_svarint env (pb_ostream_from_buffer cap (of_nat cap)) v m = Ok () (buffer_with cap bs, m) \<and>
    pb_decode_svarint env' (reading (bs @ rest)) m' = Ok v (reading rest, m')"
proof (intro exI conjI)
  let ?bs = "leb128 (unat (zigzag v))"
  show len: "length ?bs \<le> 10" by simp
  note wr = write_read [OF out.appends_svarint len assms]
  show "pb_encode_svarint env (pb_ostream_from_buffer cap (of_nat cap)) v m = Ok () (buffer_with cap ?bs, m)"
    by (rule wr(1))
  show "pb_decode_svarint env' (reading (?bs @ rest)) m' = Ok v (reading rest, m')"
    using pb_decode_varint_leb128 [OF wr(3,4)]
    by (simp add: pb_decode_svarint_def eat_reading unzigzag_zigzag)
qed

lemma svarint_roundtrip_witness:
  "\<exists>bs. length bs \<le> 10 \<and>
    pb_encode_svarint bare_env (pb_ostream_from_buffer 10 10) (- 5) zero_mem = Ok () (buffer_with 10 bs, zero_mem) \<and>
    pb_decode_svarint bare_env (reading (bs @ [])) zero_mem = Ok (- 5) (reading [], zero_mem)"
  using svarint_roundtrip [of 10 "[]" bare_env "- 5" zero_mem bare_env zero_mem] by simp

text \<open>\<^verbatim>\<open>pb_encode_fixed32\<close> and \<^verbatim>\<open>pb_encode_fixed64\<close> write four and eight bytes, from which
  the decoders store the same integer at the destination and nothing else.\<close>

theorem fixed_roundtrip:
  fixes v :: "32 word" and w :: "64 word"
  assumes "12 \<le> cap" "cap < 2 ^ 63" "length rest < 2 ^ 63"
  shows "\<exists>bs cs. length bs = 4 \<and> length cs = 8 \<and>
    pb_encode_fixed32 env (pb_ostream_from_buffer cap (of_nat cap)) v m = Ok () (buffer_with cap bs, m) \<and>
    pb_encode_fixed64 env (pb_ostream_from_buffer cap (of_nat cap)) w m = Ok () (buffer_with cap cs, m) \<and>
    pb_decode_fixed32 env' (reading (bs @ rest)) dest m' = Ok () (reading rest, store_word 4 m' dest v) \<and>
    pb_decode_fixed64 env' (reading (cs @ rest)) dest m' = Ok () (reading rest, store_word 8 m' dest w)"
proof (intro exI conjI)
  let ?bs = "bytes_of_word 4 v" and ?cs = "bytes_of_word 8 w"
  show "length ?bs = 4" "length ?cs = 8" by simp_all
  then have "length ?bs \<le> 12" "length ?cs \<le> 12" by simp_all
  note wr4 = write_read [OF out.appends_fixed32 this(1) assms]
    and wr8 = write_read [OF out.appends_fixed64 this(2) assms]
  show "pb_encode_fixed32 env (pb_ostream_from_buffer cap (of_nat cap)) v m = Ok () (buffer_with cap ?bs, m)"
    "pb_encode_fixed64 env (pb_ostream_from_buffer cap (of_nat cap)) w m = Ok () (buffer_with cap ?cs, m)"
    by (rule wr4(1) wr8(1))+
  show "pb_decode_fixed32 env' (reading (?bs @ rest)) dest m' = Ok () (reading rest, store_word 4 m' dest v)"
    "pb_decode_fixed64 env' (reading (?cs @ rest)) dest m' = Ok () (reading rest, store_word 8 m' dest w)"
    using pb_decode_fixed32_buf [OF wr4(3,4)] pb_decode_fixed64_buf [OF wr8(3,4)]
      eat_reading [of ?bs rest] eat_reading [of ?cs rest] by simp_all
qed

lemma fixed_roundtrip_witness:
  "\<exists>bs cs. length bs = 4 \<and> length cs = 8 \<and>
    pb_encode_fixed32 bare_env (pb_ostream_from_buffer 12 12) 1 zero_mem = Ok () (buffer_with 12 bs, zero_mem) \<and>
    pb_encode_fixed64 bare_env (pb_ostream_from_buffer 12 12) 2 zero_mem = Ok () (buffer_with 12 cs, zero_mem) \<and>
    pb_decode_fixed32 bare_env (reading (bs @ [])) 100 zero_mem = Ok () (reading [], store_word 4 zero_mem 100 (1 :: 32 word)) \<and>
    pb_decode_fixed64 bare_env (reading (cs @ [])) 100 zero_mem = Ok () (reading [], store_word 8 zero_mem 100 (2 :: 64 word))"
  using fixed_roundtrip [of 12 "[]" bare_env 1 zero_mem 2 bare_env 100 zero_mem] by simp

section \<open>Tags\<close>

text \<open>\<^verbatim>\<open>pb_decode_tag\<close> reads the field number and wire type that \<^verbatim>\<open>pb_encode_tag\<close> wrote,
  for the field numbers protocol buffers allow (below 2 to the 29) and three-bit wire types.\<close>

theorem tag_roundtrip:
  assumes "10 \<le> cap" "cap < 2 ^ 63" "length rest < 2 ^ 63"
    and "0 < unat fn" "unat fn < 2 ^ 29" "unat wt < 8"
  shows "\<exists>bs. pb_encode_tag env (pb_ostream_from_buffer cap (of_nat cap)) wt fn m = Ok () (buffer_with cap bs, m) \<and>
    pb_decode_tag env' (reading (bs @ rest)) m' = Ok (Tag wt fn) (reading rest, m')"
proof (intro exI conjI)
  let ?bs = "leb128 (unat (tag_word wt fn))"
  have len: "length ?bs \<le> 10" by simp
  note wr = write_read [OF out.appends_tag len assms(1-3)]
  show "pb_encode_tag env (pb_ostream_from_buffer cap (of_nat cap)) wt fn m = Ok () (buffer_with cap ?bs, m)"
    by (rule wr(1))
  show "pb_decode_tag env' (reading (?bs @ rest)) m' = Ok (Tag wt fn) (reading rest, m')"
    using pb_decode_tag_encoded [OF wr(3,4) assms(4-6)] by (simp add: eat_reading)
qed

lemma tag_roundtrip_witness:
  "\<exists>bs. pb_encode_tag bare_env (pb_ostream_from_buffer 10 10) 2 16 zero_mem = Ok () (buffer_with 10 bs, zero_mem) \<and>
    pb_decode_tag bare_env (reading (bs @ [1])) zero_mem = Ok (Tag 2 16) (reading [1], zero_mem)"
  using tag_roundtrip [of 10 "[1]" 16 2 bare_env zero_mem bare_env zero_mem] by simp

section \<open>Any input\<close>

lemma scan_outcome_reading:
  "scan_outcome r (\<lambda>n. (buf_eat n (reading bs), m)) =
    (case r of
       Scan_ok v n \<Rightarrow> Ok (of_nat v) (buf_eat n (reading bs), m)
     | Scan_overflow n \<Rightarrow> PB_RETURN_ERROR_i (buf_eat n (reading bs)) ''varint overflow'' m
     | Scan_eos n \<Rightarrow> PB_RETURN_ERROR_i (buf_eat n (reading bs)) ''end-of-stream'' m)"
  by (simp add: scan_outcome_def split: scan_result.split)

lemma eat_reading_take: "n \<le> length bs \<Longrightarrow> buf_eat n (reading bs) = reading (drop n bs)"
  using eat_reading [of "take n bs" "drop n bs"] by (simp add: min_absorb2)

text \<open>C29: on any input \<^verbatim>\<open>pb_decode_varint\<close> either returns the value of the groups up to the
  first byte without continuation bit, or fails with "varint overflow" after ten
  continuation bytes, or with "end-of-stream" when the input ends first. It never reads
  past the buffer.\<close>

theorem decode_varint_any_input:
  assumes "length bs < 2 ^ 63"
  shows "pb_decode_varint env (reading bs) m =
    (case varint_scan 10 bs of
       Scan_ok v n \<Rightarrow> Ok (of_nat v) (reading (drop n bs), m)
     | Scan_overflow n \<Rightarrow> PB_RETURN_ERROR_i (reading (drop 10 bs)) ''varint overflow'' m
     | Scan_eos n \<Rightarrow> PB_RETURN_ERROR_i (reading []) ''end-of-stream'' m)"
proof -
  have "length bs < 2 ^ 64" using assms by simp
  note r = reading_ok [OF this]
  show ?thesis
    unfolding pb_decode_varint_buf [OF r(1)] r(2) scan_outcome_reading
    by (auto split: scan_result.split simp: eat_reading_take
        dest: varint_scan_ok_bounds varint_scan_overflow_bounds varint_scan_eos_bounds)
qed

lemma decode_varint_any_input_witness:
  "pb_decode_varint bare_env (reading [0x96, 0x01, 0x05]) zero_mem = Ok 150 (reading [5], zero_mem)"
  using decode_varint_any_input [of "[0x96, 0x01, 0x05]" bare_env zero_mem] by simp

lemma varint_scan_prefix:
  "varint_scan k bs = Scan_ok v n \<Longrightarrow> k \<le> k' \<Longrightarrow> varint_scan k' bs = Scan_ok v n"
  using varint_scan_ok_mono [of k bs v n k' "[]"] by simp

text \<open>C30: whenever \<^verbatim>\<open>pb_decode_varint32\<close> accepts an input, \<^verbatim>\<open>pb_decode_varint\<close> accepts the same
  bytes, and the 32-bit result is the 64-bit one truncated: the bits of the fifth group
  above bit 31 are dropped without an error.\<close>

theorem varint32_truncates_varint:
  assumes "length bs < 2 ^ 63" "pb_decode_varint32 env (reading bs) m = Ok v st"
  shows "\<exists>w. pb_decode_varint env (reading bs) m = Ok w st \<and> v = ucast w"
proof -
  have "length bs < 2 ^ 64" using assms(1) by simp
  note r = reading_ok [OF this]
  obtain x n where sc: "varint_scan 5 bs = Scan_ok x n" "v = of_nat x" "st = (buf_eat n (reading bs), m)"
    using assms(2) unfolding pb_decode_varint32_buf [OF r(1)] r(2) scan_outcome_reading
    by (auto simp: PB_RETURN_ERROR_i_def split: scan_result.splits)
  have "varint_scan 10 bs = Scan_ok x n" by (rule varint_scan_prefix [OF sc(1)]) simp
  then have "pb_decode_varint env (reading bs) m = Ok (of_nat x) st"
    unfolding pb_decode_varint_buf [OF r(1)] r(2) by (simp add: scan_outcome_reading sc(3))
  moreover have "(of_nat x :: 32 word) = ucast (of_nat x :: 64 word)"
    by (rule bit_word_eqI) (auto simp: bit_simps)
  ultimately show ?thesis using sc(2) by blast
qed

text \<open>The largest value of five groups does not fit 32 bits and is accepted all the same.\<close>

lemma varint32_truncates_varint_witness:
  "pb_decode_varint32 bare_env (reading [0xFF, 0xFF, 0xFF, 0xFF, 0x7F]) zero_mem = Ok 0xFFFFFFFF (reading [], zero_mem) \<and>
    (\<exists>w. pb_decode_varint bare_env (reading [0xFF, 0xFF, 0xFF, 0xFF, 0x7F]) zero_mem = Ok w (reading [], zero_mem)
      \<and> 0xFFFFFFFF = (ucast w :: 32 word))"
proof -
  have r: "length [0xFF, 0xFF, 0xFF, 0xFF, 0x7F :: byte] < 2 ^ 64" by simp
  have "varint_scan 5 [0xFF, 0xFF, 0xFF, 0xFF, 0x7F] = Scan_ok 34359738367 5" by simp
  then have d: "pb_decode_varint32 bare_env (reading [0xFF, 0xFF, 0xFF, 0xFF, 0x7F]) zero_mem
      = Ok 0xFFFFFFFF (reading [], zero_mem)"
    using reading_ok [OF r] eat_reading [of "[0xFF, 0xFF, 0xFF, 0xFF, 0x7F]" "[]"]
    by (simp add: pb_decode_varint32_buf scan_outcome_reading)
  with varint32_truncates_varint [OF _ d] show ?thesis by simp
qed

lemma scan_overflow_leb128:
  "128 ^ k \<le> n \<Longrightarrow> varint_scan k (leb128 n @ rest) = Scan_overflow k"
proof (induction k arbitrary: n)
  case (Suc k)
  have "(1::nat) \<le> 128 ^ k" by simp
  then have big: "\<not> n < 128" using Suc.prems unfolding power_Suc by linarith
  have "128 ^ k \<le> n div 128" using Suc.prems by (simp add: less_eq_div_iff_mult_less_eq mult.commute)
  then have "varint_scan k (leb128 (n div 128) @ rest) = Scan_overflow k" by (rule Suc.IH)
  moreover have "unat (of_nat (n mod 128 + 128) :: byte) = n mod 128 + 128"
    by (intro unat_of_nat_byte) simp
  ultimately show ?case using big by (simp add: leb128_big del: of_nat_add)
qed simp

text \<open>C31: \<^verbatim>\<open>pb_decode_varint32\<close> rejects every varint of six bytes or more with "varint
  overflow", among them the ten-byte encoding of every negative \<^verbatim>\<open>int32\<close>, although
  \<^verbatim>\<open>pb_decode_varint\<close> accepts them.\<close>

theorem varint32_rejects_negative:
  assumes "2 ^ 35 \<le> unat v" "length rest < 2 ^ 62"
  shows "pb_decode_varint32 env (reading (leb128 (unat v) @ rest)) m
      = PB_RETURN_ERROR_i (buf_eat 5 (reading (leb128 (unat v) @ rest))) ''varint overflow'' m \<and>
    pb_decode_varint env (reading (leb128 (unat v) @ rest)) m = Ok (v :: 64 word) (reading rest, m)"
proof -
  have "length (leb128 (unat v) @ rest) < 2 ^ 64"
    using assms(2) length_leb128_word [of v] by (simp del: length_leb128_word)
  note r = reading_ok [OF this]
  have "varint_scan 5 (leb128 (unat v) @ rest) = Scan_overflow 5"
    by (rule scan_overflow_leb128) (use assms(1) in simp)
  then have "pb_decode_varint32 env (reading (leb128 (unat v) @ rest)) m
      = PB_RETURN_ERROR_i (buf_eat 5 (reading (leb128 (unat v) @ rest))) ''varint overflow'' m"
    unfolding pb_decode_varint32_buf [OF r(1)] r(2) by (simp add: scan_outcome_reading)
  moreover have "pb_decode_varint env (reading (leb128 (unat v) @ rest)) m = Ok v (reading rest, m)"
    using pb_decode_varint_leb128 [OF r(1,2)] by (simp add: eat_reading)
  ultimately show ?thesis ..
qed

lemma varint32_rejects_negative_witness:
  "pb_decode_varint32 bare_env (reading (leb128 (unat (- 1 :: 64 word)) @ [])) zero_mem
      = PB_RETURN_ERROR_i (buf_eat 5 (reading (leb128 (unat (- 1 :: 64 word)) @ []))) ''varint overflow'' zero_mem \<and>
    pb_decode_varint bare_env (reading (leb128 (unat (- 1 :: 64 word)) @ [])) zero_mem = Ok (- 1 :: 64 word) (reading [], zero_mem)"
  by (rule varint32_rejects_negative) (simp_all add: unsigned_minus_1_eq_mask mask_eq_exp_minus_1)

section \<open>Writing to a buffer\<close>

text \<open>C32: \<^verbatim>\<open>pb_write\<close> to a stream on a buffer writes either all of the bytes or none: all of
  them, and the stream stays inside its buffer object, exactly when they fit the limit;
  otherwise it reports "stream full" and leaves the buffer alone.\<close>

theorem write_all_or_nothing:
  assumes "out_ok s" "length bs < 2 ^ 63"
  shows "pb_write env s bs (of_nat (length bs)) m =
    (if out_fits s (length bs) then Ok () (out_app bs s, m) else PB_RETURN_ERROR_o s ''stream full'' m)
    \<and> (if out_fits s (length bs) then out_ok (out_app bs s) else True)"
  using assms by (simp add: out_write_fits out_write_full out_app_ok)

lemma write_all_or_nothing_witness:
  "pb_write bare_env (pb_ostream_from_buffer 2 2) [1, 2, 3] 3 zero_mem
    = PB_RETURN_ERROR_o (pb_ostream_from_buffer 2 2) ''stream full'' zero_mem"
  using write_all_or_nothing [of "pb_ostream_from_buffer 2 2" "[1, 2, 3]" bare_env zero_mem]
    fresh_buffer(1) [of 2] fresh_buffer(2) [of 2 3] by (simp add: numeral_3_eq_3)

end
