(* ===== verification/Pb_Decode_Theorems.thy ===== *)
theory Pb_Decode_Theorems
  imports Pb_Message_Safe Pb_Wire_Theorems Pb_Sample
begin

text \<open>
  The properties of the decoder on arbitrary input: memory safety and termination of whole
  messages, the check of required fields, the iterator, and the length checks of strings.
\<close>

section \<open>Safety\<close>

text \<open>
  What a call may leave behind in any case: nothing outside the struct has changed and the
  stream has not left its buffer.
\<close>

definition contained :: "addr \<Rightarrow> int \<Rightarrow> mem \<Rightarrow> 'a istep \<Rightarrow> bool" where
  "contained dest sz m x \<longleftrightarrow>
     (case x of
        Ok _ (s', m') \<Rightarrow> buf_ok s' \<and> same_outside dest (dest + sz) m m'
      | Fail (s', m') \<Rightarrow> buf_ok s' \<and> same_outside dest (dest + sz) m m'
      | Halt _ \<Rightarrow> False)"

lemma safe_contained:
  assumes "buf_ok s" "safe Q j dest (dest + sz) s m x"
  shows "contained dest sz m x"
  using assms(2) ate_ok(1) [OF assms(1)] by (cases x) (auto simp: safe_def contained_def)

text \<open>C10: \<^verbatim>\<open>pb_decode\<close> on arbitrary bytes. For a message type without callbacks, extensions
  and allocation whose fields fit the struct of \<open>sz\<close> bytes at \<open>dest\<close>, the call always
  returns (one unit of fuel per byte and level is enough), never runs into undefined
  behaviour, never reads past the input and never writes outside the struct.\<close>

theorem decode_is_safe:
  assumes "\<not> env_malloc env" "type_ok fs sz" "required_ok fs"
    and "length bs < 2 ^ 64" "length bs + depth_fields fs < n"
  shows "contained dest sz m (pb_decode n env fs dest (reading bs) m)"
proof (rule safe_contained)
  note r = reading_ok [OF assms(4)]
  show "buf_ok (reading bs)" by (rule r(1))
  show "safe (\<lambda>_. True) 0 dest (dest + sz) (reading bs) m (pb_decode n env fs dest (reading bs) m)"
    unfolding pb_decode_def
    by (rule safe_decode_with [OF assms(1) r(1) _ assms(2) _ safe_decode_noinit [OF assms(1-3,5)]])
       (use r(3) assms(5) in auto)
qed

lemma sample_type: "type_ok sample_fields 36" "required_ok sample_fields"
proof -
  have "layout_ok sample_fields 36" by code_simp
  moreover have "plain_fields sample_fields"
    by (simp add: plain_fields_def sample_fields_def sub_fields_def PB_LTYPE_def PB_ATYPE_def pb_ltypes pb_atypes)
  ultimately show "type_ok sample_fields 36" using wf_sample_fields by (simp add: type_ok_def)
  show "required_ok sample_fields" by code_simp
qed

lemma decode_is_safe_witness:
  "contained 1000 36 zero_mem (pb_decode 9 bare_env sample_fields 1000 (reading [42, 5, 8, 1, 255, 18, 200]) zero_mem)"
  by (rule decode_is_safe [OF _ sample_type]) (simp_all add: bare_env_def depth_sample_fields)

text \<open>C23: the same for \<^verbatim>\<open>pb_decode_delimited\<close>, where the input announces its own length.\<close>

theorem decode_delimited_is_safe:
  assumes "\<not> env_malloc env" "type_ok fs sz" "required_ok fs"
    and "length bs < 2 ^ 64" "length bs + depth_fields fs < n"
  shows "contained dest sz m (pb_decode_delimited n env fs dest (reading bs) m)"
proof (rule safe_contained)
  note r = reading_ok [OF assms(4)]
  show "buf_ok (reading bs)" by (rule r(1))
  have "safe (\<lambda>_. True) 0 dest (dest + sz) sub m' (pb_decode n env fs dest sub m')"
    if "buf_ok sub" "unat (bytes_left sub) < unat (bytes_left (reading bs))" for sub m'
    unfolding pb_decode_def
    by (rule safe_decode_with [OF assms(1) that(1) _ assms(2) _ safe_decode_noinit [OF assms(1-3,5)]])
       (use r(3) that(2) assms(5) in auto)
  from safe_in_substream [OF r(1) this]
  show "safe (\<lambda>_. True) 1 dest (dest + sz) (reading bs) m (pb_decode_delimited n env fs dest (reading bs) m)"
    unfolding pb_decode_delimited_def by blast
qed

lemma decode_delimited_is_safe_witness:
  "contained 1000 36 zero_mem (pb_decode_delimited 9 bare_env sample_fields 1000 (reading [6, 42, 5, 8, 1, 18]) zero_mem)"
  by (rule decode_delimited_is_safe [OF _ sample_type]) (simp_all add: bare_env_def depth_sample_fields)

section \<open>Required fields\<close>

text \<open>C20: the final check of \<^verbatim>\<open>pb_decode_noinit\<close>. If the bit array holds the indices of the
  required fields that were seen, the check accepts exactly when all \<open>r\<close> of them were, for
  every count below 64 that is not 32.\<close>

theorem required_check_exact:
  assumes "seen_is seen S" "S \<subseteq> {..<r}" "r < 64" "r \<noteq> 32"
  shows "check_required seen r = Some (S = {..<r})"
proof (rule check_required_seen [OF assms(1-3)])
  show "r = 0 \<or> r mod 32 \<noteq> 0" using assms(3,4) by auto
qed

lemma seen_first_five: "seen_is [31, 0] {..<5}"
proof -
  have "bit ([31, 0 :: 32 word] ! (i div 32)) (i mod 32) \<longleftrightarrow> i < 5" if "i < 64" for i :: nat
  proof (cases "i < 32")
    case True
    have "(31 :: 32 word) = mask 5" by (simp add: mask_eq_exp_minus_1)
    then show ?thesis using True by (simp only: \<open>31 = mask 5\<close>) (simp add: bit_mask_iff)
  next
    case False
    with that have "i div 32 = 1" by auto
    with False show ?thesis by simp
  qed
  then show ?thesis by (simp add: seen_is_def)
qed

lemma required_check_exact_witness:
  "check_required [31, 0] 5 = Some True \<and> check_required [31, 0] 6 = Some False"
proof -
  have "{..<5::nat} \<noteq> {..<6}" by (metis lessThan_eq_iff numeral_eq_iff semiring_norm(88,91))
  then show ?thesis
    using required_check_exact [OF seen_first_five, of 5] required_check_exact [OF seen_first_five, of 6] by auto
qed

section \<open>The iterator\<close>

text \<open>C21: \<^verbatim>\<open>pb_field_iter_find\<close> from any position of the table terminates; it stops on a field
  with the tag that is no extension if there is one, with the field's own addresses, and
  otherwise leaves the iterator where it was.\<close>

theorem iter_find_complete:
  assumes "no_terminator fs" "iter_valid fs dest it"
  shows "\<exists>found it'. pb_field_iter_find it tag = Some (found, it') \<and> iter_valid fs dest it' \<and>
    (found \<longleftrightarrow> (\<exists>f \<in> set fs. f_tag f = tag \<and> ltype_of f \<noteq> PB_LTYPE_EXTENSION)) \<and>
    (if found then f_tag (pos_field it') = tag \<and> ltype_of (pos_field it') \<noteq> PB_LTYPE_EXTENSION \<and>
       (pos_field it', pData it', pSize it') \<in> set (positions fs dest)
     else it' = it)"
  using assms
proof (cases rule: find_valid [where tag = tag])
  case (found it')
  moreover have "pos_field it' \<in> set fs" using iter_valid_in [OF found(2)] by (rule positions_subset)
  ultimately show ?thesis using iter_valid_in [OF found(2)] by (intro exI [of _ True] exI [of _ it']) auto
next
  case absent
  then show ?thesis using assms(2) by (intro exI [of _ False] exI [of _ it]) auto
qed

lemma iter_find_complete_witness:
  "\<exists>found it'. pb_field_iter_find (snd (pb_field_iter_begin sample_fields 1000)) 5 = Some (found, it') \<and>
    iter_valid sample_fields 1000 it' \<and> found \<and> f_tag (pos_field it') = 5"
proof -
  have nt: "no_terminator sample_fields" by (rule wf_fields_no_terminator [OF wf_sample_fields])
  have v: "iter_valid sample_fields 1000 (snd (pb_field_iter_begin sample_fields 1000))"
    by (rule iter_begin_valid(1)) (simp add: sample_fields_def)
  have ex: "\<exists>f \<in> set sample_fields. f_tag f = 5 \<and> ltype_of f \<noteq> PB_LTYPE_EXTENSION" by code_simp
  from iter_find_complete [OF nt v, of 5] show ?thesis
    by (simp only: ex simp_thms) (elim exE conjE, (rule exI)+, intro conjI, assumption, assumption, simp_all)
qed

section \<open>Strings\<close>

lemma store_bytes_snoc: "store_bytes m a (bs @ [b]) = (store_bytes m a bs)(a + int (length bs) := b)"
  by (rule ext) (auto simp: store_bytes_apply nth_append nat_less_iff)

text \<open>C26: \<^verbatim>\<open>pb_dec_string\<close> into a static field of \<open>data_size\<close> bytes. A string that leaves room
  for the terminator is stored with it, byte for byte, and the stream stands behind it; any
  other length is refused and memory is left alone.\<close>

theorem dec_string_terminates:
  assumes "atype_of f = PB_ATYPE_STATIC" "length bs < 2 ^ 32" "length rest < 2 ^ 62"
  shows "if length bs < unat (f_data_size f)
    then pb_dec_string env (reading (leb128 (length bs) @ bs @ rest)) f dest m
       = Ok () (reading rest, store_bytes m dest (bs @ [0]))
    else \<exists>s'. pb_dec_string env (reading (leb128 (length bs) @ bs @ rest)) f dest m = Fail (s', m)"
proof -
  let ?L = "leb128 (length bs)" and ?sz = "of_nat (length bs) :: 32 word"
  have l5: "length ?L \<le> 5" by (rule length_leb128_32 [OF assms(2)])
  have l1: "length (?L @ bs @ rest) < 2 ^ 64" and l2: "length (bs @ rest) < 2 ^ 64"
    using assms(2,3) l5 by auto
  note r1 = reading_ok [OF l1] and r2 = reading_ok [OF l2]
  have u: "unat ?sz = length bs" using assms(2) by (simp add: unat_of_nat)
  have u64: "unat (ucast ?sz :: size_t) = length bs" by (simp add: unat_ucast_up u)
  have d: "pb_decode_varint32 env (reading (?L @ bs @ rest)) m = Ok ?sz (reading (bs @ rest), m)"
    using varint_scan_leb128 [OF l5, of "bs @ rest"]
    unfolding pb_decode_varint32_buf [OF r1(1)] r1(2) by (simp add: scan_outcome_def eat_reading)
  have rd: "pb_read env (reading (bs @ rest)) (Dst_mem dest) (ucast ?sz) m
      = Ok bs (reading rest, store_bytes m dest bs)"
    using r2 u64 by (simp add: pb_read_buf deliver_def eat_reading)
  have ov: "(ucast (?sz + 1) :: size_t) < ucast ?sz \<longleftrightarrow> length bs = 2 ^ 32 - 1"
    "\<not> (ucast (?sz + 1) :: size_t) < ucast ?sz \<Longrightarrow>
       ucast (f_data_size f) < (ucast (?sz + 1) :: size_t) \<longleftrightarrow> unat (f_data_size f) < length bs + 1"
  proof -
    have un: "unat (?sz + 1) = (if length bs = 2 ^ 32 - 1 then 0 else length bs + 1)"
      using assms(2) by (simp add: unat_word_ariths u)
    show "(ucast (?sz + 1) :: size_t) < ucast ?sz \<longleftrightarrow> length bs = 2 ^ 32 - 1"
      "\<not> (ucast (?sz + 1) :: size_t) < ucast ?sz \<Longrightarrow>
        ucast (f_data_size f) < (ucast (?sz + 1) :: size_t) \<longleftrightarrow> unat (f_data_size f) < length bs + 1"
      using un by (auto simp: word_less_nat_alt unat_ucast_up u split: if_splits)
  qed
  have ui: "uint ?sz = int (length bs)" by (simp only: uint_nat u)
  have ds: "unat (f_data_size f) < 2 ^ 32" using unsigned_less [of "f_data_size f", where ?'a = nat] by simp
  show ?thesis
  proof (cases "length bs < unat (f_data_size f)")
    case True
    then show ?thesis using ov ds u assms(1)
      by (simp add: pb_dec_string_def d rd Let_def store_bytes_snoc ui del: of_nat_Suc)
  next
    case False
    then show ?thesis using ov assms(1)
      by (auto simp: pb_dec_string_def d Let_def PB_RETURN_ERROR_i_def)
  qed
qed

lemma dec_string_terminates_witness:
  "pb_dec_string bare_env (reading ([2] @ [65, 66] @ [7])) (sample_fields ! 2) 1020 zero_mem
     = Ok () (reading [7], store_bytes zero_mem 1020 ([65, 66] @ [0])) \<and>
   (\<exists>s'. pb_dec_string bare_env (reading ([8] @ [65, 66, 67, 68, 69, 70, 71, 72] @ [])) (sample_fields ! 2) 1020 zero_mem
     = Fail (s', zero_mem))"
proof -
  have f: "atype_of (sample_fields ! 2) = PB_ATYPE_STATIC" "unat (f_data_size (sample_fields ! 2)) = 8"
    by (simp_all add: sample_fields_def PB_ATYPE_def pb_atypes)
  show ?thesis
    using dec_string_terminates [OF f(1), of "[65, 66]" "[7]" bare_env 1020 zero_mem]
      dec_string_terminates [OF f(1), of "[65, 66, 67, 68, 69, 70, 71, 72]" "[]" bare_env 1020 zero_mem] f(2)
    by (simp add: leb128_small)
qed

end
