(* ===== verification/Ldb_Coding.thy ===== *)
theory Ldb_Coding
  imports Leb128
begin

text \<open>
  LevelDB's byte-level formats, \<^verbatim>\<open>util/coding.h\<close> and \<^verbatim>\<open>util/coding.cc\<close>: fixed-width integers,
  varints and length-prefixed strings. A string and a slice are the list of their bytes. A
  pointer \<^verbatim>\<open>p\<close> that runs to a \<^verbatim>\<open>limit\<close> is the list of bytes between them; \<open>None\<close> is NULL or
  \<^verbatim>\<open>false\<close>, and \<open>Some (v, rest)\<close> a parsed value with the bytes that follow it.
\<close>

section \<open>Fixed-width integers\<close>

text \<open>The iOS targets are little endian; both branches of the code are kept.\<close>

definition kLittleEndian :: bool where "kLittleEndian = True"

definition EncodeFixed32 :: "32 word \<Rightarrow> byte list" where
  "EncodeFixed32 v =
     (if kLittleEndian then bytes_of_word 4 v
      else [ucast (v AND 0xff), ucast (drop_bit 8 v AND 0xff),
            ucast (drop_bit 16 v AND 0xff), ucast (drop_bit 24 v AND 0xff)])"

definition EncodeFixed64 :: "64 word \<Rightarrow> byte list" where
  "EncodeFixed64 v =
     (if kLittleEndian then bytes_of_word 8 v
      else [ucast (v AND 0xff), ucast (drop_bit 8 v AND 0xff),
            ucast (drop_bit 16 v AND 0xff), ucast (drop_bit 24 v AND 0xff),
            ucast (drop_bit 32 v AND 0xff), ucast (drop_bit 40 v AND 0xff),
            ucast (drop_bit 48 v AND 0xff), ucast (drop_bit 56 v AND 0xff)])"

definition PutFixed32 :: "byte list \<Rightarrow> 32 word \<Rightarrow> byte list" where
  "PutFixed32 dst v = dst @ EncodeFixed32 v"

definition PutFixed64 :: "byte list \<Rightarrow> 64 word \<Rightarrow> byte list" where
  "PutFixed64 dst v = dst @ EncodeFixed64 v"

text \<open>The decoders look at the first four or eight bytes only, without any bounds check.\<close>

definition DecodeFixed32 :: "byte list \<Rightarrow> 32 word" where
  "DecodeFixed32 p =
     (if kLittleEndian then word_of_bytes (take 4 p)
      else ucast (p ! 0) OR push_bit 8 (ucast (p ! 1)) OR
           push_bit 16 (ucast (p ! 2)) OR push_bit 24 (ucast (p ! 3)))"

definition DecodeFixed64 :: "byte list \<Rightarrow> 64 word" where
  "DecodeFixed64 p =
     (if kLittleEndian then word_of_bytes (take 8 p)
      else let lo = ucast (DecodeFixed32 p); hi = ucast (DecodeFixed32 (drop 4 p))
           in push_bit 32 hi OR lo)"

section \<open>Varints\<close>

text \<open>\<^verbatim>\<open>EncodeVarint32\<close> is unrolled; a store to \<^verbatim>\<open>*ptr\<close> keeps the low eight bits.\<close>

definition EncodeVarint32 :: "32 word \<Rightarrow> byte list" where
  "EncodeVarint32 v =
     (let B = 128 in
      if v < push_bit 7 1 then [ucast v]
      else if v < push_bit 14 1 then [ucast (v OR B), ucast (drop_bit 7 v)]
      else if v < push_bit 21 1
      then [ucast (v OR B), ucast (drop_bit 7 v OR B), ucast (drop_bit 14 v)]
      else if v < push_bit 28 1
      then [ucast (v OR B), ucast (drop_bit 7 v OR B), ucast (drop_bit 14 v OR B),
            ucast (drop_bit 21 v)]
      else [ucast (v OR B), ucast (drop_bit 7 v OR B), ucast (drop_bit 14 v OR B),
            ucast (drop_bit 21 v OR B), ucast (drop_bit 28 v)])"

definition PutVarint32 :: "byte list \<Rightarrow> 32 word \<Rightarrow> byte list" where
  "PutVarint32 dst v = dst @ EncodeVarint32 v"

lemma unat_drop_7: "unat (drop_bit 7 v :: 64 word) = unat v div 128"
  by (simp add: drop_bit_eq_div unat_div)

function EncodeVarint64 :: "64 word \<Rightarrow> byte list" where
  "EncodeVarint64 v =
     (if 128 \<le> v then ucast ((v AND 127) OR 128) # EncodeVarint64 (drop_bit 7 v) else [ucast v])"
  by pat_completeness auto
termination
proof (relation "measure unat", goal_cases)
  case (2 v)
  then have "128 \<le> unat v" by (simp add: word_le_nat_alt)
  then show ?case by (simp add: unat_drop_7)
qed simp

declare EncodeVarint64.simps [simp del]

definition PutVarint64 :: "byte list \<Rightarrow> 64 word \<Rightarrow> byte list" where
  "PutVarint64 dst v = dst @ EncodeVarint64 v"

text \<open>A size is converted to \<^verbatim>\<open>uint32_t\<close> before it is written.\<close>

definition PutLengthPrefixedSlice :: "byte list \<Rightarrow> byte list \<Rightarrow> byte list" where
  "PutLengthPrefixedSlice dst v = PutVarint32 dst (of_nat (length v)) @ v"

function VarintLength :: "64 word \<Rightarrow> nat" where
  "VarintLength v = (if 128 \<le> v then Suc (VarintLength (drop_bit 7 v)) else 1)"
  by pat_completeness auto
termination
proof (relation "measure unat", goal_cases)
  case (2 v)
  then have "128 \<le> unat v" by (simp add: word_le_nat_alt)
  then show ?case by (simp add: unat_drop_7)
qed simp

declare VarintLength.simps [simp del]

text \<open>The loop of both pointer-based decoders; \<open>last_shift\<close> is the last shift, 28 or 63.\<close>

function varint_ptr_loop ::
  "nat \<Rightarrow> nat \<Rightarrow> 'a::len word \<Rightarrow> byte list \<Rightarrow> ('a word \<times> byte list) option" where
  "varint_ptr_loop last_shift shift result p =
     (if shift \<le> last_shift \<and> p \<noteq> []
      then let byte = ucast (hd p) :: 'a word; p' = tl p in
           if byte AND 128 \<noteq> 0
           then varint_ptr_loop last_shift (shift + 7) (result OR push_bit shift (byte AND 127)) p'
           else Some (result OR push_bit shift byte, p')
      else None)"
  by pat_completeness auto
termination
  by (relation "measure (\<lambda>(last_shift, shift, result, p). length p)") auto

declare varint_ptr_loop.simps [simp del]

definition GetVarint32PtrFallback :: "byte list \<Rightarrow> (32 word \<times> byte list) option" where
  "GetVarint32PtrFallback p = varint_ptr_loop 28 0 0 p"

definition GetVarint32Ptr :: "byte list \<Rightarrow> (32 word \<times> byte list) option" where
  "GetVarint32Ptr p =
     (if p \<noteq> [] \<and> (ucast (hd p) :: 32 word) AND 128 = 0 then Some (ucast (hd p), tl p)
      else GetVarint32PtrFallback p)"

definition GetVarint64Ptr :: "byte list \<Rightarrow> (64 word \<times> byte list) option" where
  "GetVarint64Ptr p = varint_ptr_loop 63 0 0 p"

text \<open>The slice versions advance the input past the value.\<close>

definition GetVarint32 :: "byte list \<Rightarrow> (32 word \<times> byte list) option" where
  "GetVarint32 inp = (case GetVarint32Ptr inp of None \<Rightarrow> None | Some (v, q) \<Rightarrow> Some (v, q))"

definition GetVarint64 :: "byte list \<Rightarrow> (64 word \<times> byte list) option" where
  "GetVarint64 inp = (case GetVarint64Ptr inp of None \<Rightarrow> None | Some (v, q) \<Rightarrow> Some (v, q))"

definition GetLengthPrefixedSlicePtr :: "byte list \<Rightarrow> (byte list \<times> byte list) option" where
  "GetLengthPrefixedSlicePtr p =
     (case GetVarint32Ptr p of
        None \<Rightarrow> None
      | Some (len, q) \<Rightarrow>
          if length q < unat len then None else Some (take (unat len) q, drop (unat len) q))"

definition GetLengthPrefixedSlice :: "byte list \<Rightarrow> (byte list \<times> byte list) option" where
  "GetLengthPrefixedSlice inp =
     (case GetVarint32 inp of
        None \<Rightarrow> None
      | Some (len, q) \<Rightarrow>
          if unat len \<le> length q then Some (take (unat len) q, drop (unat len) q) else None)"

section \<open>Fixed-width integers read back\<close>

lemma length_EncodeFixed [simp]:
  "length (EncodeFixed32 v) = 4" "length (EncodeFixed64 w) = 8"
  by (simp_all add: EncodeFixed32_def EncodeFixed64_def kLittleEndian_def)

lemma Decode_EncodeFixed [simp]:
  "DecodeFixed32 (EncodeFixed32 v @ rest) = v" "DecodeFixed64 (EncodeFixed64 w @ rest) = w"
  by (simp_all add: DecodeFixed32_def DecodeFixed64_def EncodeFixed32_def EncodeFixed64_def
      kLittleEndian_def word_of_bytes_of_word)

lemmas Decode_EncodeFixed_Nil [simp] = Decode_EncodeFixed [where rest = "[]", simplified]

lemma Encode_DecodeFixed:
  "length bs = 4 \<Longrightarrow> EncodeFixed32 (DecodeFixed32 bs) = bs"
  "length cs = 8 \<Longrightarrow> EncodeFixed64 (DecodeFixed64 cs) = cs"
  by (simp_all add: DecodeFixed32_def DecodeFixed64_def EncodeFixed32_def EncodeFixed64_def
      kLittleEndian_def bytes_of_word_of_bytes)

section \<open>The encoders write the canonical format\<close>

lemma group_byte:
  "8 \<le> LENGTH('a) \<Longrightarrow> (ucast ((v :: 'a::len word) OR 128) :: byte) = of_nat (unat v mod 128 + 128)"
proof -
  assume l: "8 \<le> LENGTH('a)"
  have "(ucast (v OR 128) :: byte) = ucast (v AND 0x7F) OR 0x80"
  proof (rule bit_word_eqI)
    fix n assume n: "n < LENGTH(8)"
    have "(128 :: 'a word) = push_bit 7 1" "(0x80 :: byte) = push_bit 7 1" "(0x7F :: 'a word) = mask 7"
      by (simp_all add: mask_eq_exp_minus_1)
    then have "bit (128 :: 'a word) n \<longleftrightarrow> n = 7" "bit (0x80 :: byte) n \<longleftrightarrow> n = 7" "bit (0x7F :: 'a word) n \<longleftrightarrow> n < 7"
      using n l by (simp_all only: bit_push_bit_iff bit_1_iff bit_mask_iff) auto
    then show "bit (ucast (v OR 128) :: byte) n = bit (ucast (v AND 0x7F) OR 0x80 :: byte) n"
      using n l by (auto simp: bit_unsigned_iff bit_or_iff bit_and_iff)
  qed
  moreover have "(ucast (v AND 0x7F) :: byte) = of_nat (unat v mod 128)"
  proof -
    have "unat (v AND 0x7F) = take_bit 7 (unat v)" by (simp only: and_7F unsigned_take_bit_eq)
    then have "unat (v AND 0x7F) = unat v mod 128" by (simp add: take_bit_eq_mod)
    then show ?thesis by (metis of_nat_unat ucast_id)
  qed
  ultimately show ?thesis using byte_or_80 [of "unat v mod 128"] by simp
qed

lemma last_group: "8 \<le> LENGTH('a) \<Longrightarrow> (ucast (v :: 'a::len word) :: byte) = of_nat (unat v)"
  by simp

lemma unat_drop_bit: "unat (drop_bit n v) = unat v div 2 ^ n"
  by (simp only: unsigned_drop_bit_eq) (simp add: drop_bit_eq_div take_bit_nat_eq_self)

text \<open>The canonical format of numbers up to five groups, unrolled.\<close>

lemma leb128_unrolled:
  assumes "n < 2 ^ 35"
  shows "leb128 n =
    (if n < 2 ^ 7 then [of_nat n]
     else if n < 2 ^ 14 then [of_nat (n mod 128 + 128), of_nat (n div 2 ^ 7)]
     else if n < 2 ^ 21
     then [of_nat (n mod 128 + 128), of_nat (n div 2 ^ 7 mod 128 + 128), of_nat (n div 2 ^ 14)]
     else if n < 2 ^ 28
     then [of_nat (n mod 128 + 128), of_nat (n div 2 ^ 7 mod 128 + 128),
           of_nat (n div 2 ^ 14 mod 128 + 128), of_nat (n div 2 ^ 21)]
     else [of_nat (n mod 128 + 128), of_nat (n div 2 ^ 7 mod 128 + 128),
           of_nat (n div 2 ^ 14 mod 128 + 128), of_nat (n div 2 ^ 21 mod 128 + 128), of_nat (n div 2 ^ 28)])"
proof -
  have d: "n div 2 ^ 7 div 128 = n div 2 ^ 14" "n div 2 ^ 14 div 128 = n div 2 ^ 21"
    "n div 2 ^ 21 div 128 = n div 2 ^ 28" "n div 128 = n div 2 ^ 7"
    by (simp_all flip: div_mult2_eq)
  have c: "n div 2 ^ 7 < 128 \<longleftrightarrow> n < 2 ^ 14" "n div 2 ^ 14 < 128 \<longleftrightarrow> n < 2 ^ 21"
    "n div 2 ^ 21 < 128 \<longleftrightarrow> n < 2 ^ 28" "n div 2 ^ 28 < 128" "n < 128 \<longleftrightarrow> n < 2 ^ 7"
    using assms by (simp_all add: div_less_iff_less_mult)
  show ?thesis
    by (simp only: leb128.simps [of n] leb128.simps [of "n div 2 ^ 7"] leb128.simps [of "n div 2 ^ 14"]
        leb128.simps [of "n div 2 ^ 21"] leb128.simps [of "n div 2 ^ 28"] d c if_True) auto
qed

lemma EncodeVarint32_leb128: "EncodeVarint32 v = leb128 (unat v)"
proof -
  have g: "(ucast (drop_bit n v OR 128) :: byte) = of_nat (unat v div 2 ^ n mod 128 + 128)" for n
    using group_byte [of "drop_bit n v"] by (simp add: unat_drop_bit del: of_nat_add)
  have l: "(ucast (drop_bit n v) :: byte) = of_nat (unat v div 2 ^ n)" for n
    using last_group [of "drop_bit n v"] by (simp add: unat_drop_bit)
  have g0: "(ucast (v OR 128) :: byte) = of_nat (unat v mod 128 + 128)" by (rule group_byte) simp
  have l0: "(ucast v :: byte) = of_nat (unat v)" by simp
  have "push_bit 7 1 = (128 :: 32 word)" "push_bit 14 1 = (16384 :: 32 word)"
    "push_bit 21 1 = (2097152 :: 32 word)" "push_bit 28 1 = (268435456 :: 32 word)" by simp_all
  then have c: "v < push_bit 7 1 \<longleftrightarrow> unat v < 2 ^ 7" "v < push_bit 14 1 \<longleftrightarrow> unat v < 2 ^ 14"
    "v < push_bit 21 1 \<longleftrightarrow> unat v < 2 ^ 21" "v < push_bit 28 1 \<longleftrightarrow> unat v < 2 ^ 28"
    by (simp_all only: word_less_nat_alt) simp_all
  have "unat v < 2 ^ 32" using unsigned_less [of v, where ?'a = nat] by simp
  then have top: "unat v < 2 ^ 35" by simp
  show ?thesis
    unfolding EncodeVarint32_def Let_def c leb128_unrolled [OF top] g l g0 l0 by (rule refl)
qed

lemma EncodeVarint64_leb128: "EncodeVarint64 v = leb128 (unat v)"
proof (induction v rule: EncodeVarint64.induct)
  case (1 v)
  show ?case
  proof (cases "128 \<le> v")
    case True
    then have "\<not> unat v < 128" by (simp add: word_le_nat_alt)
    moreover have "(ucast ((v AND 127) OR 128) :: byte) = of_nat (unat v mod 128 + 128)"
      using group_byte [of "v AND 127"] by (simp add: unat_and_7F del: of_nat_add)
    ultimately show ?thesis using 1 True
      by (simp add: EncodeVarint64.simps [of v] leb128_big unat_drop_7 del: of_nat_add)
  next
    case False
    then have "unat v < 128" by (simp add: word_le_nat_alt not_le)
    with False show ?thesis by (simp add: EncodeVarint64.simps [of v] leb128_small)
  qed
qed

lemma VarintLength_leb128: "VarintLength v = length (leb128 (unat v))"
proof (induction v rule: VarintLength.induct)
  case (1 v)
  show ?case
  proof (cases "128 \<le> v")
    case True
    then have "\<not> unat v < 128" by (simp add: word_le_nat_alt)
    with 1 True show ?thesis by (simp add: VarintLength.simps [of v] leb128_big unat_drop_7)
  next
    case False
    then have "unat v < 128" by (simp add: word_le_nat_alt not_le)
    with False show ?thesis by (simp add: VarintLength.simps [of v] leb128_small)
  qed
qed

section \<open>The decoders scan it\<close>

lemma or_group_word:
  "r < 2 ^ s \<Longrightarrow> (of_nat r :: 'a::len word) OR push_bit s (of_nat k) = of_nat (r + 2 ^ s * k)"
proof -
  assume "r < 2 ^ s"
  then have z: "\<not> bit r n" if "s \<le> n" for n
    using that by (metis bit_take_bit_iff leD take_bit_nat_eq_self)
  have "r AND push_bit s k = 0" by (rule bit_eqI) (auto simp: bit_simps z)
  then have n: "r OR push_bit s k = r + 2 ^ s * k"
    by (simp add: disjunctive_add_eq_or [symmetric] push_bit_eq_mult)
  have "(of_nat r :: 'a word) OR push_bit s (of_nat k) = of_nat (r OR push_bit s k)"
    by (simp only: of_nat_or_eq push_bit_of_nat)
  then show ?thesis by (simp only: n)
qed

lemma byte_groups:
  assumes "8 \<le> LENGTH('a::len)"
  shows "(ucast (b :: byte) :: 'a word) AND 128 \<noteq> 0 \<longleftrightarrow> \<not> unat b < 128"
    "(ucast b :: 'a word) AND 127 = of_nat (unat b mod 128)"
proof -
  have "(ucast b :: 'a word) AND 128 = 0 \<longleftrightarrow> b AND 0x80 = 0" 
  proof -
    have "(ucast b :: 'a word) AND 128 = ucast (b AND 0x80)"
      using assms by (intro bit_word_eqI) (auto simp: bit_simps dest: bit_imp_le_length)
    moreover have "(ucast c :: 'a word) = 0 \<longleftrightarrow> c = 0" for c :: byte
      using unat_ucast_up [of c, where ?'b = 'a] assms by (simp add: word_unat_eq_iff)
    ultimately show ?thesis by simp
  qed
  then show "(ucast b :: 'a word) AND 128 \<noteq> 0 \<longleftrightarrow> \<not> unat b < 128" by (simp add: and_80_zero_iff)
  have "(ucast b :: 'a word) AND 127 = take_bit 7 (ucast b)"
    using and_7F [of "ucast b :: 'a word"] by simp
  also have "\<dots> = of_nat (unat b mod 128)"
  proof -
    have "unat (take_bit 7 (ucast b :: 'a word)) = unat b mod 128"
      using unat_ucast_up [of b, where ?'b = 'a] assms by (simp only: unsigned_take_bit_eq) (simp add: take_bit_eq_mod)
    then show ?thesis by (metis of_nat_unat ucast_id)
  qed
  finally show "(ucast b :: 'a word) AND 127 = of_nat (unat b mod 128)" .
qed

text \<open>What a scan of the bytes says of the decoder: a value with the rest, or NULL.\<close>

definition scan_ptr :: "scan_result \<Rightarrow> byte list \<Rightarrow> ('a::len word \<times> byte list) option" where
  "scan_ptr r p = (case r of Scan_ok v n \<Rightarrow> Some (of_nat v, drop n p) | _ \<Rightarrow> None)"

fun scan_shift :: "nat \<Rightarrow> nat \<Rightarrow> scan_result \<Rightarrow> scan_result" where
  "scan_shift r s (Scan_ok v n) = Scan_ok (r + 2 ^ s * v) n"
| "scan_shift r s x = x"

lemma varint_ptr_loop_scan:
  assumes "8 \<le> LENGTH('a::len)" "last_shift < shift + 7 * k" "shift + 7 * k \<le> last_shift + 7" "r < 2 ^ shift"
  shows "varint_ptr_loop last_shift shift (of_nat r :: 'a word) p
    = scan_ptr (scan_shift r shift (varint_scan k p)) p"
  using assms(2-)
proof (induction k arbitrary: shift r p)
  case 0
  then show ?case by (simp add: varint_ptr_loop.simps [of last_shift] scan_ptr_def)
next
  case (Suc k)
  have le: "shift \<le> last_shift" using Suc.prems by simp
  show ?case
  proof (cases p)
    case Nil
    then show ?thesis by (simp add: varint_ptr_loop.simps [of last_shift] scan_ptr_def)
  next
    case (Cons b q)
    note gr = byte_groups [OF assms(1), of b]
    show ?thesis
    proof (cases "unat b < 128")
      case True
      have "(ucast b :: 'a word) = of_nat (unat b)" by simp
      then show ?thesis using True gr(1) le or_group_word [OF Suc.prems(3), of "unat b", where ?'a = 'a]
        by (simp add: varint_ptr_loop.simps [of last_shift] Cons scan_ptr_def del: of_nat_unat of_nat_add of_nat_mult)
    next
      case False
      have "2 ^ shift * (unat b mod 128) \<le> 2 ^ shift * 127"
        by (rule mult_le_mono2) (use mod_less_divisor [of 128 "unat b"] in linarith)
      moreover have "(2::nat) ^ (shift + 7) = 2 ^ shift * 127 + 2 ^ shift" by (simp add: power_add)
      ultimately have r': "r + 2 ^ shift * (unat b mod 128) < 2 ^ (shift + 7)"
        using Suc.prems(3) by linarith
      have "varint_ptr_loop last_shift shift (of_nat r :: 'a word) p
          = varint_ptr_loop last_shift (shift + 7) (of_nat (r + 2 ^ shift * (unat b mod 128))) q"
        using False gr le or_group_word [OF Suc.prems(3), of "unat b mod 128", where ?'a = 'a]
        by (simp add: varint_ptr_loop.simps [of last_shift shift] Cons del: of_nat_add of_nat_mult)
      also have "\<dots> = scan_ptr (scan_shift (r + 2 ^ shift * (unat b mod 128)) (shift + 7) (varint_scan k q)) q"
        by (rule Suc.IH) (use Suc.prems r' in auto)
      also have "\<dots> = scan_ptr (scan_shift r shift (varint_scan (Suc k) p)) p"
        using False by (cases "varint_scan k q") (auto simp: Cons scan_ptr_def power_add algebra_simps)
      finally show ?thesis .
    qed
  qed
qed

lemma scan_shift_0 [simp]: "scan_shift 0 0 r = r"
  by (cases r) auto

lemma GetVarint64_scan: "GetVarint64 p = scan_ptr (varint_scan 10 p) p"
proof -
  have "varint_ptr_loop 63 0 (of_nat 0 :: 64 word) p = scan_ptr (scan_shift 0 0 (varint_scan 10 p)) p"
    by (rule varint_ptr_loop_scan) simp_all
  then have "GetVarint64Ptr p = scan_ptr (varint_scan 10 p) p" by (simp add: GetVarint64Ptr_def)
  then show ?thesis by (simp add: GetVarint64_def split: option.split)
qed

lemma GetVarint32_scan: "GetVarint32 p = scan_ptr (varint_scan 5 p) p"
proof -
  have "varint_ptr_loop 28 0 (of_nat 0 :: 32 word) p = scan_ptr (scan_shift 0 0 (varint_scan 5 p)) p"
    by (rule varint_ptr_loop_scan) simp_all
  then have fb: "GetVarint32PtrFallback p = scan_ptr (varint_scan 5 p) p"
    by (simp add: GetVarint32PtrFallback_def)
  have "GetVarint32Ptr p = scan_ptr (varint_scan 5 p) p"
  proof (cases p)
    case (Cons b q)
    have g: "(ucast b :: 32 word) AND 128 \<noteq> 0 \<longleftrightarrow> \<not> unat b < 128" by (rule byte_groups) simp
    show ?thesis using g by (auto simp: GetVarint32Ptr_def fb) (simp_all add: Cons scan_ptr_def)
  qed (use fb in \<open>simp add: GetVarint32Ptr_def\<close>)
  then show ?thesis by (simp add: GetVarint32_def split: option.split)
qed

section \<open>Round trips\<close>

lemma GetVarint32_Encode [simp]: "GetVarint32 (EncodeVarint32 v @ rest) = Some (v, rest)"
proof -
  have "unat v < 2 ^ 32" using unsigned_less [of v, where ?'a = nat] by simp
  then have "length (leb128 (unat v)) \<le> 5" by (rule length_leb128_32)
  from varint_scan_leb128 [OF this, of rest] show ?thesis
    by (simp add: GetVarint32_scan EncodeVarint32_leb128 scan_ptr_def)
qed

lemma GetVarint64_Encode [simp]: "GetVarint64 (EncodeVarint64 v @ rest) = Some (v, rest)"
  using varint_scan_leb128 [OF length_leb128_word, of v rest]
  by (simp add: GetVarint64_scan EncodeVarint64_leb128 scan_ptr_def)

lemma GetLengthPrefixedSlice_Put:
  "length v < 2 ^ 32 \<Longrightarrow> GetLengthPrefixedSlice (EncodeVarint32 (of_nat (length v)) @ v @ rest) = Some (v, rest)"
  by (simp add: GetLengthPrefixedSlice_def unat_of_nat)

lemma GetVarint32_cut:
  assumes "n < length (EncodeVarint32 v)"
  shows "GetVarint32 (take n (EncodeVarint32 v)) = None"
proof -
  let ?bs = "leb128 (unat v)"
  have "unat v < 2 ^ 32" using unsigned_less [of v, where ?'a = nat] by simp
  then have whole: "varint_scan 5 ?bs = Scan_ok (unat v) (length ?bs)"
    using varint_scan_leb128 [OF length_leb128_32, of "unat v" "[]"] by simp
  have "varint_scan 5 (take n ?bs) \<noteq> Scan_ok w k" for w k
  proof
    assume cut: "varint_scan 5 (take n ?bs) = Scan_ok w k"
    have "varint_scan 5 (take n ?bs @ drop n ?bs) = Scan_ok w k" by (rule varint_scan_ok_mono [OF cut order_refl])
    then have "k = length ?bs" using whole by (metis append_take_drop_id scan_result.inject(1))
    then show False using varint_scan_ok_bounds [OF cut] assms by (simp add: EncodeVarint32_leb128)
  qed
  then show ?thesis
    by (auto simp: GetVarint32_scan scan_ptr_def EncodeVarint32_leb128 split: scan_result.splits)
qed

text \<open>A length-prefixed slice that is cut anywhere is not read.\<close>

lemma GetLengthPrefixedSlice_cut:
  assumes "length v < 2 ^ 32" "n < length (EncodeVarint32 (of_nat (length v))) + length v"
  shows "GetLengthPrefixedSlice (take n (EncodeVarint32 (of_nat (length v)) @ v)) = None"
proof (cases "n < length (EncodeVarint32 (of_nat (length v)))")
  case True
  then show ?thesis by (simp add: GetLengthPrefixedSlice_def GetVarint32_cut)
next
  case False
  then show ?thesis using assms by (simp add: GetLengthPrefixedSlice_def unat_of_nat take_bit_nat_eq_self)
qed

lemma GetVarint32_shorter: "GetVarint32 p = Some (v, q) \<Longrightarrow> length q < length p"
  using varint_scan_ok_bounds [of 5 p]
  by (auto simp: GetVarint32_scan scan_ptr_def split: scan_result.splits)

lemma GetLengthPrefixedSlice_shorter:
  "GetLengthPrefixedSlice p = Some (v, q) \<Longrightarrow> length v + length q < length p"
  by (auto simp: GetLengthPrefixedSlice_def split: option.splits if_splits dest!: GetVarint32_shorter)

lemma unat_small32: "n < 2 ^ 32 \<Longrightarrow> unat (of_nat n :: 32 word) = n"
  by (simp add: unat_of_nat take_bit_nat_eq_self)

lemma GetVarint32Ptr_Encode [simp]: "GetVarint32Ptr (EncodeVarint32 v @ rest) = Some (v, rest)"
  using GetVarint32_Encode [of v rest] by (simp add: GetVarint32_def split: option.splits prod.splits)

text \<open>Arrays of fixed-width numbers.\<close>

lemma drop_fixed: "j < length l \<Longrightarrow> drop (4 * j) (concat (map (\<lambda>i. EncodeFixed32 (f i)) l) @ rest) =
    EncodeFixed32 (f (l ! j)) @ concat (map (\<lambda>i. EncodeFixed32 (f i)) (drop (Suc j) l)) @ rest"
proof (induction l arbitrary: j)
  case (Cons a l)
  then show ?case by (cases j) simp_all
qed simp

lemma fold_PutFixed32: "fold (\<lambda>r buffer. buffer @ EncodeFixed32 r) rs buf = buf @ concat (map EncodeFixed32 rs)"
  by (induction rs arbitrary: buf) simp_all

text \<open>LevelDB's varint writers and readers are inverse for every 32- and 64-bit value,
  whatever follows in the buffer; at most five and ten bytes are written, the number
  \<^verbatim>\<open>VarintLength\<close> computes.\<close>

theorem ldb_varint_roundtrip:
  fixes v :: "32 word" and w :: "64 word"
  shows "GetVarint32 (PutVarint32 [] v @ rest) = Some (v, rest) \<and>
    GetVarint64 (PutVarint64 [] w @ rest) = Some (w, rest) \<and>
    length (PutVarint32 [] v) = VarintLength (ucast v) \<and> VarintLength (ucast v) \<le> 5 \<and>
    length (PutVarint64 [] w) = VarintLength w \<and> VarintLength w \<le> 10"
proof -
  have "unat v < 2 ^ 32" using unsigned_less [of v, where ?'a = nat] by simp
  then have "length (EncodeVarint32 v) \<le> 5" "length (EncodeVarint64 w) \<le> 10"
    unfolding EncodeVarint32_leb128 EncodeVarint64_leb128 by (simp_all add: length_leb128_32)
  then show ?thesis
    by (simp add: PutVarint32_def PutVarint64_def VarintLength_leb128 unat_ucast_up
        flip: EncodeVarint32_leb128 EncodeVarint64_leb128)
qed

text \<open>a string written with its length in front is read back, and the rest of the
  input with it, for every string shorter than 4 GB.\<close>

theorem length_prefixed_roundtrip:
  assumes "length s < 2 ^ 32"
  shows "GetLengthPrefixedSlice (PutLengthPrefixedSlice [] s @ rest) = Some (s, rest)"
  using GetLengthPrefixedSlice_Put [OF assms] by (simp add: PutLengthPrefixedSlice_def PutVarint32_def)

lemma length_prefixed_roundtrip_witness:
  "GetLengthPrefixedSlice (PutLengthPrefixedSlice [] [104, 105] @ [1, 2]) = Some ([104, 105], [1, 2])"
  by (rule length_prefixed_roundtrip) simp

end
