(* ===== verification/Ldb_Comparator.thy ===== *)
theory Ldb_Comparator
  imports Pb_Prelude "HOL-Library.List_Lexorder"
begin

text \<open>
  Keys and their order: slice comparison (\<^verbatim>\<open>include/leveldb/slice.h\<close>), the contract of a
  comparator (\<^verbatim>\<open>include/leveldb/comparator.h\<close>) as the locale \<open>comparator\<close>, and the
  byte-wise comparator of \<^verbatim>\<open>util/comparator.cc\<close> as its first instance.
\<close>

section \<open>Slices\<close>

text \<open>\<^verbatim>\<open>memcmp\<close> compares bytes as unsigned numbers, here over lists of equal length.\<close>

fun memcmp :: "byte list \<Rightarrow> byte list \<Rightarrow> int" where
  "memcmp (x # xs) (y # ys) = (if x = y then memcmp xs ys else uint x - uint y)"
| "memcmp xs ys = 0"

definition slice_compare :: "byte list \<Rightarrow> byte list \<Rightarrow> int" where
  "slice_compare a b =
     (let min_len = (if length a < length b then length a else length b);
          r = memcmp (take min_len a) (take min_len b)
      in if r = 0 then (if length a < length b then - 1 else if length b < length a then 1 else r)
         else r)"

definition slice_equal :: "byte list \<Rightarrow> byte list \<Rightarrow> bool" where
  "slice_equal x y \<longleftrightarrow> length x = length y \<and> memcmp x y = 0"

definition starts_with :: "byte list \<Rightarrow> byte list \<Rightarrow> bool" where
  "starts_with a x \<longleftrightarrow> length x \<le> length a \<and> memcmp (take (length x) a) x = 0"

text \<open>The comparison decides the lexicographic order of byte lists.\<close>

lemma slice_compare_Nil [simp]:
  "slice_compare [] [] = 0" "slice_compare [] (y # ys) = - 1" "slice_compare (x # xs) [] = 1"
  by (simp_all add: slice_compare_def)

lemma slice_compare_Cons [simp]:
  "slice_compare (x # xs) (y # ys) = (if x = y then slice_compare xs ys else uint x - uint y)"
  by (auto simp: slice_compare_def Let_def word_uint_eq_iff)

lemma slice_compare_less: "slice_compare a b < 0 \<longleftrightarrow> a < b"
proof (induction a arbitrary: b)
  case Nil
  then show ?case by (cases b) simp_all
next
  case (Cons x xs)
  then show ?case by (cases b) (auto simp: word_less_def word_uint_eq_iff)
qed

lemma slice_compare_eq: "slice_compare a b = 0 \<longleftrightarrow> a = b"
proof (induction a arbitrary: b)
  case Nil
  then show ?case by (cases b) simp_all
next
  case (Cons x xs)
  then show ?case by (cases b) (auto simp: word_uint_eq_iff)
qed

lemma slice_compare_sign: "slice_compare a b > 0 \<longleftrightarrow> b < a"
  using slice_compare_less [of a b] slice_compare_eq [of a b] by auto

section \<open>The contract of a comparator\<close>

text \<open>
  A three-way comparison of valid keys is a total preorder; \<open>valid\<close> lets the internal
  comparator speak of well-formed internal keys only.
\<close>

locale key_order =
  fixes valid :: "'k \<Rightarrow> bool"
    and cmp :: "'k \<Rightarrow> 'k \<Rightarrow> int"
  assumes cmp_swap: "\<And>a b. valid a \<Longrightarrow> valid b \<Longrightarrow> cmp a b < 0 \<longleftrightarrow> 0 < cmp b a"
    and cmp_trans: "\<And>a b c. valid a \<Longrightarrow> valid b \<Longrightarrow> valid c \<Longrightarrow> cmp a b \<le> 0 \<Longrightarrow> cmp b c \<le> 0 \<Longrightarrow> cmp a c \<le> 0"
begin

lemma cmp_refl: "valid a \<Longrightarrow> cmp a a = 0"
  using cmp_swap [of a a] by linarith

lemma cmp_eq_sym: "valid a \<Longrightarrow> valid b \<Longrightarrow> cmp a b = 0 \<longleftrightarrow> cmp b a = 0"
  using cmp_swap [of a b] cmp_swap [of b a] by linarith

lemma cmp_le_less: "valid a \<Longrightarrow> valid b \<Longrightarrow> valid c \<Longrightarrow> cmp a b \<le> 0 \<Longrightarrow> cmp b c < 0 \<Longrightarrow> cmp a c < 0"
  using cmp_trans [of c a b] cmp_swap [of b c] cmp_swap [of a c] cmp_swap [of c a] cmp_swap [of c b] by fastforce

lemma cmp_less_le: "valid a \<Longrightarrow> valid b \<Longrightarrow> valid c \<Longrightarrow> cmp a b < 0 \<Longrightarrow> cmp b c \<le> 0 \<Longrightarrow> cmp a c < 0"
  using cmp_trans [of b c a] cmp_swap [of a b] cmp_swap [of a c] cmp_swap [of c a] by fastforce

lemma cmp_less_trans: "valid a \<Longrightarrow> valid b \<Longrightarrow> valid c \<Longrightarrow> cmp a b < 0 \<Longrightarrow> cmp b c < 0 \<Longrightarrow> cmp a c < 0"
  using cmp_less_le [of a b c] by simp

end

text \<open>
  The two advisory operations of \<^verbatim>\<open>Comparator\<close>: a short string in \<open>[start, limit)\<close> and a
  short string at or after a key. An empty or reversed range is left alone.
\<close>

locale comparator = key_order valid cmp
  for valid :: "byte list \<Rightarrow> bool" and cmp :: "byte list \<Rightarrow> byte list \<Rightarrow> int" +
  fixes sep :: "byte list \<Rightarrow> byte list \<Rightarrow> byte list"
    and succ :: "byte list \<Rightarrow> byte list"
  assumes sep_valid: "\<And>a b. valid a \<Longrightarrow> valid b \<Longrightarrow> valid (sep a b)"
    and sep_between: "\<And>a b. valid a \<Longrightarrow> valid b \<Longrightarrow> cmp a b < 0 \<Longrightarrow> cmp a (sep a b) \<le> 0 \<and> cmp (sep a b) b < 0"
    and sep_outside: "\<And>a b. valid a \<Longrightarrow> valid b \<Longrightarrow> 0 \<le> cmp a b \<Longrightarrow> sep a b = a"
    and succ_valid: "\<And>a. valid a \<Longrightarrow> valid (succ a)"
    and succ_above: "\<And>a. valid a \<Longrightarrow> cmp a (succ a) \<le> 0"

section \<open>The byte-wise comparator\<close>

text \<open>The loop that finds the first position where two strings differ.\<close>

fun common_prefix :: "byte list \<Rightarrow> byte list \<Rightarrow> nat" where
  "common_prefix (x # xs) (y # ys) = (if x = y then Suc (common_prefix xs ys) else 0)"
| "common_prefix xs ys = 0"

definition Bytewise_Compare :: "byte list \<Rightarrow> byte list \<Rightarrow> int" where
  "Bytewise_Compare a b = slice_compare a b"

definition Bytewise_FindShortestSeparator :: "byte list \<Rightarrow> byte list \<Rightarrow> byte list" where
  "Bytewise_FindShortestSeparator start limit =
     (let min_length = min (length start) (length limit);
          diff_index = common_prefix start limit
      in if min_length \<le> diff_index then start
         else let diff_byte = start ! diff_index in
           if diff_byte < 0xff \<and> uint diff_byte + 1 < uint (limit ! diff_index)
           then take (diff_index + 1) (start[diff_index := diff_byte + 1])
           else start)"

text \<open>\<open>Some\<close> is the shortened key, \<open>None\<close> a run of \<^verbatim>\<open>0xff\<close> bytes, which is left alone.\<close>

fun increment_first :: "byte list \<Rightarrow> byte list option" where
  "increment_first [] = None"
| "increment_first (b # bs) =
     (if b \<noteq> 0xff then Some [b + 1] else map_option (Cons b) (increment_first bs))"

definition Bytewise_FindShortSuccessor :: "byte list \<Rightarrow> byte list" where
  "Bytewise_FindShortSuccessor key = (case increment_first key of None \<Rightarrow> key | Some k \<Rightarrow> k)"

lemma common_prefix_le: "common_prefix a b \<le> length a" "common_prefix a b \<le> length b"
  by (induction a b rule: common_prefix.induct) auto

lemma common_prefix_take: "take (common_prefix a b) a = take (common_prefix a b) b"
  by (induction a b rule: common_prefix.induct) auto

lemma uint_increment: "(b :: byte) < 0xff \<Longrightarrow> uint (b + 1) = uint b + 1"
  by (simp add: word_less_def uint_word_ariths)

lemma separator_between:
  "slice_compare a b < 0 \<Longrightarrow>
    slice_compare a (Bytewise_FindShortestSeparator a b) \<le> 0 \<and> slice_compare (Bytewise_FindShortestSeparator a b) b < 0"
proof (induction a arbitrary: b)
  case Nil
  then show ?case by (cases b) (simp_all add: Bytewise_FindShortestSeparator_def)
next
  case (Cons x xs)
  then obtain y ys where b: "b = y # ys" by (cases b) auto
  show ?case
  proof (cases "x = y")
    case True
    with Cons.prems b have "slice_compare xs ys < 0" by simp
    from Cons.IH [OF this] have ih: "slice_compare xs (Bytewise_FindShortestSeparator xs ys) \<le> 0"
        "slice_compare (Bytewise_FindShortestSeparator xs ys) ys < 0" by auto
    have "Bytewise_FindShortestSeparator (x # xs) (y # ys) = x # Bytewise_FindShortestSeparator xs ys"
      using True by (simp add: Bytewise_FindShortestSeparator_def Let_def min_def)
    with ih True show ?thesis by (simp add: b)
  next
    case False
    with Cons.prems b have lt: "uint x < uint y" by simp
    show ?thesis
    proof (cases "x < 0xff \<and> uint x + 1 < uint y")
      case True
      then have "Bytewise_FindShortestSeparator (x # xs) (y # ys) = [x + 1]"
        using False by (simp add: Bytewise_FindShortestSeparator_def)
      moreover have "uint (x + 1) = uint x + 1" using uint_increment True by blast
      moreover have "x \<noteq> x + 1" "x + 1 \<noteq> y" using calculation(2) True by (auto simp: word_uint_eq_iff)
      ultimately show ?thesis using True by (simp add: b)
    next
      case no: False
      then have "Bytewise_FindShortestSeparator (x # xs) (y # ys) = x # xs"
        using False by (auto simp: Bytewise_FindShortestSeparator_def)
      then show ?thesis using False lt slice_compare_eq [of xs xs] by (simp add: b)
    qed
  qed
qed

lemma separator_outside: "0 \<le> slice_compare a b \<Longrightarrow> Bytewise_FindShortestSeparator a b = a"
proof (induction a arbitrary: b)
  case Nil
  then show ?case by (simp add: Bytewise_FindShortestSeparator_def)
next
  case (Cons x xs)
  show ?case
  proof (cases b)
    case Nil
    then show ?thesis by (simp add: Bytewise_FindShortestSeparator_def)
  next
    case b: (Cons y ys)
    show ?thesis
    proof (cases "x = y")
      case True
      with Cons b have "Bytewise_FindShortestSeparator xs ys = xs" by simp
      with True b show ?thesis by (auto simp: Bytewise_FindShortestSeparator_def Let_def min_def split: if_splits)
    next
      case False
      with Cons.prems b show ?thesis by (simp add: Bytewise_FindShortestSeparator_def)
    qed
  qed
qed

lemma increment_first_above: "increment_first a = Some c \<Longrightarrow> slice_compare a c < 0"
proof (induction a arbitrary: c)
  case (Cons x xs)
  show ?case
  proof (cases "x = 0xff")
    case True
    with Cons show ?thesis by auto
  next
    case False
    then have "unat x \<noteq> 255" by (simp add: word_unat_eq_iff)
    then have "x < 0xff" using unsigned_less [of x, where ?'a = nat] by (simp add: word_less_nat_alt)
    then have "uint (x + 1) = uint x + 1" by (rule uint_increment)
    with False Cons.prems show ?thesis by (auto simp: word_uint_eq_iff)
  qed
qed simp

interpretation bytewise: comparator "\<lambda>_. True" Bytewise_Compare
  Bytewise_FindShortestSeparator Bytewise_FindShortSuccessor
proof (unfold_locales, goal_cases)
  case (1 a b)
  then show ?case
    using slice_compare_less [of a b] slice_compare_sign [of b a] by (simp add: Bytewise_Compare_def)
next
  case (2 a b c)
  then show ?case
    using slice_compare_sign [of a b] slice_compare_sign [of b c] slice_compare_sign [of a c]
    by (simp add: Bytewise_Compare_def not_less [symmetric])
next
  case (7 a)
  then show ?case
    using increment_first_above [of a] slice_compare_eq [of a a]
    by (auto simp: Bytewise_FindShortSuccessor_def Bytewise_Compare_def split: option.split intro: less_imp_le)
qed (use separator_between separator_outside in \<open>auto simp: Bytewise_Compare_def\<close>)

text \<open>for keys \<open>start < limit\<close> in the byte-wise order, \<^verbatim>\<open>FindShortestSeparator\<close> returns a
  key in \<open>[start, limit)\<close> that is no longer than \<open>start\<close>.\<close>

theorem bytewise_separator_between:
  assumes "start < limit"
  shows "start \<le> Bytewise_FindShortestSeparator start limit \<and>
    Bytewise_FindShortestSeparator start limit < limit \<and>
    length (Bytewise_FindShortestSeparator start limit) \<le> length start"
proof -
  have "Bytewise_Compare start limit < 0"
    using assms slice_compare_less by (simp add: Bytewise_Compare_def)
  from bytewise.sep_between [OF _ _ this]
  have "start \<le> Bytewise_FindShortestSeparator start limit \<and> Bytewise_FindShortestSeparator start limit < limit"
    using slice_compare_less slice_compare_sign by (metis Bytewise_Compare_def not_less)
  moreover have "length (Bytewise_FindShortestSeparator start limit) \<le> length start"
    by (auto simp: Bytewise_FindShortestSeparator_def Let_def)
  ultimately show ?thesis by blast
qed

lemma bytewise_separator_between_witness:
  "[1, 2, 3] \<le> Bytewise_FindShortestSeparator [1, 2, 3] [1, 9] \<and>
    Bytewise_FindShortestSeparator [1, 2, 3] [1, 9] < [1, 9] \<and>
    length (Bytewise_FindShortestSeparator [1, 2, 3] [1, 9]) \<le> length [1 :: byte, 2, 3]"
  by (rule bytewise_separator_between) (simp add: word_less_nat_alt)

end
