(* ===== verification/Ldb_Dbformat.thy ===== *)
theory Ldb_Dbformat
  imports Ldb_Coding Ldb_Comparator
begin

text \<open>
  Internal keys, \<^verbatim>\<open>db/dbformat.h\<close> and \<^verbatim>\<open>db/dbformat.cc\<close>: a user key with a sequence number
  and a value type behind it, their order, and the key a lookup searches for. The user's
  comparator and filter policy are parameters.
\<close>

section \<open>Internal keys\<close>

text \<open>A parsed key may carry any type byte; the enumeration's values are named.\<close>

type_synonym ValueType = byte
type_synonym SequenceNumber = "64 word"

definition kTypeDeletion :: ValueType where "kTypeDeletion = 0"
definition kTypeValue :: ValueType where "kTypeValue = 1"
definition kValueTypeForSeek :: ValueType where "kValueTypeForSeek = kTypeValue"
definition kMaxSequenceNumber :: SequenceNumber where "kMaxSequenceNumber = push_bit 56 1 - 1"

record ParsedInternalKey =
  pk_user_key :: "byte list"
  pk_sequence :: SequenceNumber
  pk_type :: ValueType

definition InternalKeyEncodingLength :: "ParsedInternalKey \<Rightarrow> nat" where
  "InternalKeyEncodingLength key = length (pk_user_key key) + 8"

definition PackSequenceAndType :: "64 word \<Rightarrow> ValueType \<Rightarrow> 64 word" where
  "PackSequenceAndType seq t = push_bit 8 seq OR ucast t"

definition AppendInternalKey :: "byte list \<Rightarrow> ParsedInternalKey \<Rightarrow> byte list" where
  "AppendInternalKey result key =
     PutFixed64 (result @ pk_user_key key) (PackSequenceAndType (pk_sequence key) (pk_type key))"

definition ExtractUserKey :: "byte list \<Rightarrow> byte list" where
  "ExtractUserKey internal_key = take (length internal_key - 8) internal_key"

definition key_number :: "byte list \<Rightarrow> 64 word" where
  "key_number k = DecodeFixed64 (drop (length k - 8) k)"

definition ExtractValueType :: "byte list \<Rightarrow> ValueType" where
  "ExtractValueType internal_key = ucast (key_number internal_key AND 0xff)"

definition ParseInternalKey :: "byte list \<Rightarrow> ParsedInternalKey option" where
  "ParseInternalKey internal_key =
     (let n = length internal_key in
      if n < 8 then None
      else let num = DecodeFixed64 (drop (n - 8) internal_key);
               c = ucast (num AND 0xff) :: byte;
               result = \<lparr>pk_user_key = take (n - 8) internal_key, pk_sequence = drop_bit 8 num, pk_type = c\<rparr>
           in if c \<le> kTypeValue then Some result else None)"

section \<open>The order of internal keys\<close>

definition InternalKeyCompare :: "(byte list \<Rightarrow> byte list \<Rightarrow> int) \<Rightarrow> byte list \<Rightarrow> byte list \<Rightarrow> int" where
  "InternalKeyCompare user_cmp akey bkey =
     (let r = user_cmp (ExtractUserKey akey) (ExtractUserKey bkey) in
      if r = 0
      then let anum = DecodeFixed64 (drop (length akey - 8) akey);
               bnum = DecodeFixed64 (drop (length bkey - 8) bkey)
           in if bnum < anum then - 1 else if anum < bnum then 1 else r
      else r)"

text \<open>The shorter user key, if it is larger as well, with the earliest number behind it.\<close>

definition shorten ::
  "(byte list \<Rightarrow> byte list \<Rightarrow> int) \<Rightarrow> byte list \<Rightarrow> byte list \<Rightarrow> byte list" where
  "shorten user_cmp key tmp =
     (let user_key = ExtractUserKey key in
      if length tmp < length user_key \<and> user_cmp user_key tmp < 0
      then PutFixed64 tmp (PackSequenceAndType kMaxSequenceNumber kValueTypeForSeek)
      else key)"

definition InternalFindShortestSeparator ::
  "(byte list \<Rightarrow> byte list \<Rightarrow> int) \<Rightarrow> (byte list \<Rightarrow> byte list \<Rightarrow> byte list) \<Rightarrow>
    byte list \<Rightarrow> byte list \<Rightarrow> byte list" where
  "InternalFindShortestSeparator user_cmp user_sep start limit =
     shorten user_cmp start (user_sep (ExtractUserKey start) (ExtractUserKey limit))"

definition InternalFindShortSuccessor ::
  "(byte list \<Rightarrow> byte list \<Rightarrow> int) \<Rightarrow> (byte list \<Rightarrow> byte list) \<Rightarrow> byte list \<Rightarrow> byte list" where
  "InternalFindShortSuccessor user_cmp user_succ key =
     shorten user_cmp key (user_succ (ExtractUserKey key))"

section \<open>Filters over internal keys\<close>

definition InternalCreateFilter ::
  "(byte list list \<Rightarrow> byte list \<Rightarrow> byte list) \<Rightarrow> byte list list \<Rightarrow> byte list \<Rightarrow> byte list" where
  "InternalCreateFilter user_create keys dst = user_create (map ExtractUserKey keys) dst"

definition InternalKeyMayMatch :: "(byte list \<Rightarrow> byte list \<Rightarrow> bool) \<Rightarrow> byte list \<Rightarrow> byte list \<Rightarrow> bool" where
  "InternalKeyMayMatch user_match key f = user_match (ExtractUserKey key) f"

section \<open>Lookup keys\<close>

text \<open>The array from \<^verbatim>\<open>start_\<close> to \<^verbatim>\<open>end_\<close>, and the offset of \<^verbatim>\<open>kstart_\<close> in it.\<close>

record LookupKey =
  lk_array :: "byte list"
  lk_kstart :: nat

definition make_LookupKey :: "byte list \<Rightarrow> SequenceNumber \<Rightarrow> LookupKey" where
  "make_LookupKey user_key s =
     (let prefix = EncodeVarint32 (of_nat (length user_key + 8)) in
      \<lparr>lk_array = prefix @ user_key @ EncodeFixed64 (PackSequenceAndType s kValueTypeForSeek),
       lk_kstart = length prefix\<rparr>)"

definition lookup_memtable_key :: "LookupKey \<Rightarrow> byte list" where
  "lookup_memtable_key k = lk_array k"

definition lookup_internal_key :: "LookupKey \<Rightarrow> byte list" where
  "lookup_internal_key k = drop (lk_kstart k) (lk_array k)"

definition lookup_user_key :: "LookupKey \<Rightarrow> byte list" where
  "lookup_user_key k = (let key = drop (lk_kstart k) (lk_array k) in take (length key - 8) key)"

section \<open>Packing\<close>

lemma pack_fields:
  assumes "seq \<le> kMaxSequenceNumber"
  shows "drop_bit 8 (PackSequenceAndType seq t) = seq" "ucast (PackSequenceAndType seq t AND 0xff) = t"
    "unat (PackSequenceAndType seq t) = unat seq * 256 + unat t"
proof -
  have top: "unat seq < 2 ^ 56" using assms by (simp add: kMaxSequenceNumber_def word_le_nat_alt)
  have hi: "\<not> bit seq n" if "56 \<le> n" for n
  proof -
    have "\<not> bit (unat seq) n" using top that by (metis bit_take_bit_iff leD take_bit_nat_eq_self)
    then show ?thesis by (simp add: bit_unsigned_iff)
  qed
  have lo: "n < 56" if "bit seq n" for n using hi that not_le by blast
  show d: "drop_bit 8 (PackSequenceAndType seq t) = seq"
    by (rule bit_word_eqI)
       (auto simp: PackSequenceAndType_def bit_simps lo dest: bit_imp_le_length)
  have "PackSequenceAndType seq t AND 0xff = take_bit 8 (PackSequenceAndType seq t)"
    by (simp add: take_bit_eq_mask mask_eq_exp_minus_1)
  moreover have l: "take_bit 8 (PackSequenceAndType seq t) = ucast t"
    by (rule bit_word_eqI) (auto simp: PackSequenceAndType_def bit_simps dest: bit_imp_le_length)
  moreover have "(ucast (ucast t :: 64 word) :: byte) = t"
    by (rule bit_word_eqI) (simp add: bit_simps)
  ultimately show "ucast (PackSequenceAndType seq t AND 0xff) = t" by simp
  have "unat (PackSequenceAndType seq t) = unat (PackSequenceAndType seq t) div 2 ^ 8 * 2 ^ 8 + unat (PackSequenceAndType seq t) mod 2 ^ 8"
    by simp
  also have "unat (PackSequenceAndType seq t) div 2 ^ 8 = unat seq"
    using d unat_drop_bit [of 8 "PackSequenceAndType seq t"] by simp
  also have "unat (PackSequenceAndType seq t) mod 2 ^ 8 = unat t"
  proof -
    have "unat (take_bit 8 (PackSequenceAndType seq t)) = unat t" using l by (simp add: unat_ucast_up)
    then show ?thesis by (simp only: unsigned_take_bit_eq) (simp add: take_bit_eq_mod)
  qed
  finally show "unat (PackSequenceAndType seq t) = unat seq * 256 + unat t" by simp
qed

lemma pack_less:
  assumes "s1 \<le> kMaxSequenceNumber" "s2 \<le> kMaxSequenceNumber"
  shows "PackSequenceAndType s1 t1 < PackSequenceAndType s2 t2 \<longleftrightarrow> s1 < s2 \<or> s1 = s2 \<and> t1 < t2"
proof -
  have "unat t1 < 256" "unat t2 < 256"
    using unsigned_less [of t1, where ?'a = nat] unsigned_less [of t2, where ?'a = nat] by simp_all
  then have "unat s1 * 256 + unat t1 < unat s2 * 256 + unat t2 \<longleftrightarrow>
      unat s1 < unat s2 \<or> unat s1 = unat s2 \<and> unat t1 < unat t2"
    by linarith
  then show ?thesis
    by (simp add: word_less_nat_alt pack_fields(3) [OF assms(1)] pack_fields(3) [OF assms(2)] word_unat_eq_iff)
qed

lemma AppendInternalKey_fields:
  "length (AppendInternalKey [] k) = length (pk_user_key k) + 8"
  "ExtractUserKey (AppendInternalKey [] k) = pk_user_key k"
  "DecodeFixed64 (drop (length (pk_user_key k)) (AppendInternalKey [] k))
     = PackSequenceAndType (pk_sequence k) (pk_type k)"
  by (simp_all add: AppendInternalKey_def PutFixed64_def ExtractUserKey_def)

text \<open>an internal key is parsed back into its user key, sequence number and type, if
  the number is within 56 bits and the type is one of the two.\<close>

theorem internal_key_roundtrip:
  assumes "pk_sequence k \<le> kMaxSequenceNumber" "pk_type k \<le> kTypeValue"
  shows "ParseInternalKey (AppendInternalKey [] k) = Some k \<and>
    ExtractUserKey (AppendInternalKey [] k) = pk_user_key k \<and>
    ExtractValueType (AppendInternalKey [] k) = pk_type k \<and>
    length (AppendInternalKey [] k) = InternalKeyEncodingLength k"
proof -
  have "drop (length (pk_user_key k)) (AppendInternalKey [] k) = EncodeFixed64 (PackSequenceAndType (pk_sequence k) (pk_type k))"
    "take (length (pk_user_key k)) (AppendInternalKey [] k) = pk_user_key k"
    by (simp_all add: AppendInternalKey_def PutFixed64_def)
  then show ?thesis using assms
    by (simp add: ParseInternalKey_def Let_def AppendInternalKey_fields pack_fields InternalKeyEncodingLength_def
        ExtractValueType_def key_number_def)
qed

lemma internal_key_roundtrip_witness:
  "ParseInternalKey (AppendInternalKey [] \<lparr>pk_user_key = [97, 98], pk_sequence = 7, pk_type = kTypeValue\<rparr>)
     = Some \<lparr>pk_user_key = [97, 98], pk_sequence = 7, pk_type = kTypeValue\<rparr>"
  using internal_key_roundtrip [of "\<lparr>pk_user_key = [97, 98], pk_sequence = 7, pk_type = kTypeValue\<rparr>"]
  by (simp add: kMaxSequenceNumber_def kTypeValue_def)

section \<open>A comparator over a comparator\<close>

definition internal_key :: "(byte list \<Rightarrow> bool) \<Rightarrow> byte list \<Rightarrow> bool" where
  "internal_key valid k \<longleftrightarrow> 8 \<le> length k \<and> valid (ExtractUserKey k)"

lemma PutFixed64_fields:
  "ExtractUserKey (PutFixed64 u w) = u" "8 \<le> length (PutFixed64 u w)"
  by (simp_all add: PutFixed64_def ExtractUserKey_def)

context comparator
begin

lemma InternalKeyCompare_swap:
  assumes "internal_key valid a" "internal_key valid b"
  shows "InternalKeyCompare cmp a b < 0 \<longleftrightarrow> 0 < InternalKeyCompare cmp b a"
proof -
  have v: "valid (ExtractUserKey a)" "valid (ExtractUserKey b)" using assms by (simp_all add: internal_key_def)
  show ?thesis
    using cmp_eq_sym [OF v] cmp_swap [OF v] by (auto simp: InternalKeyCompare_def Let_def)
qed

lemma InternalKeyCompare_trans:
  assumes "internal_key valid a" "internal_key valid b" "internal_key valid c"
    and "InternalKeyCompare cmp a b \<le> 0" "InternalKeyCompare cmp b c \<le> 0"
  shows "InternalKeyCompare cmp a c \<le> 0"
proof -
  let ?a = "ExtractUserKey a" and ?b = "ExtractUserKey b" and ?c = "ExtractUserKey c"
  have v: "valid ?a" "valid ?b" "valid ?c" using assms(1-3) by (simp_all add: internal_key_def)
  have le: "cmp ?a ?b \<le> 0" "cmp ?b ?c \<le> 0"
    using assms(4,5) by (auto simp: InternalKeyCompare_def Let_def split: if_splits)
  show ?thesis
  proof (cases "cmp ?a ?c = 0")
    case True
    have "cmp ?a ?b = 0"
      using cmp_less_le [OF v(1,2,3) _ le(2)] le(1) True by force
    moreover have "cmp ?b ?c = 0"
      using cmp_le_less [OF v(1,2,3) le(1)] le(2) True by force
    ultimately show ?thesis using assms(4,5) True
      by (auto simp: InternalKeyCompare_def Let_def split: if_splits)
  next
    case False
    then show ?thesis using cmp_trans [OF v le] by (simp add: InternalKeyCompare_def)
  qed
qed

lemma shorten_above:
  assumes "internal_key valid k"
  shows "InternalKeyCompare cmp k (shorten cmp k t) \<le> 0"
proof (cases "shorten cmp k t = k")
  case True
  then show ?thesis using assms cmp_refl by (simp add: InternalKeyCompare_def internal_key_def)
next
  case False
  then have "cmp (ExtractUserKey k) t < 0" by (auto simp: shorten_def Let_def split: if_splits)
  moreover have "ExtractUserKey (shorten cmp k t) = t"
    using False by (auto simp: shorten_def Let_def PutFixed64_fields split: if_splits)
  ultimately show ?thesis by (simp add: InternalKeyCompare_def)
qed

lemma shorten_valid:
  assumes "internal_key valid k" "valid t"
  shows "internal_key valid (shorten cmp k t)"
  using assms by (auto simp: shorten_def Let_def internal_key_def PutFixed64_fields)

text \<open>The internal comparator over a comparator is one.\<close>

lemma internal_comparator:
  "comparator (internal_key valid) (InternalKeyCompare cmp)
     (InternalFindShortestSeparator cmp sep) (InternalFindShortSuccessor cmp succ)"
proof (unfold_locales, goal_cases)
  case (1 a b)
  then show ?case by (rule InternalKeyCompare_swap)
next
  case (2 a b c)
  then show ?case by (rule InternalKeyCompare_trans)
next
  case (3 a b)
  then show ?case
    using sep_valid shorten_valid by (simp add: InternalFindShortestSeparator_def internal_key_def)
next
  case (4 a b)
  let ?a = "ExtractUserKey a" and ?b = "ExtractUserKey b"
  let ?t = "sep ?a ?b" and ?r = "InternalFindShortestSeparator cmp sep a b"
  have v: "valid ?a" "valid ?b" using 4 by (simp_all add: internal_key_def)
  have le: "cmp ?a ?b \<le> 0" using 4(3) by (auto simp: InternalKeyCompare_def Let_def split: if_splits)
  have "InternalKeyCompare cmp ?r b < 0"
  proof (cases "?r = a")
    case True
    then show ?thesis using 4(3) by simp
  next
    case False
    then have t: "cmp ?a ?t < 0" "ExtractUserKey ?r = ?t"
      by (auto simp: InternalFindShortestSeparator_def shorten_def Let_def PutFixed64_fields split: if_splits)
    have "cmp ?a ?b \<noteq> 0" using sep_outside [OF v] t(1) cmp_refl [OF v(1)] by auto
    with le have "cmp ?a ?b < 0" by simp
    from sep_between [OF v this] t(2) show ?thesis by (simp add: InternalKeyCompare_def)
  qed
  then show ?case using shorten_above [OF 4(1)] by (simp add: InternalFindShortestSeparator_def)
next
  case (5 a b)
  let ?a = "ExtractUserKey a" and ?b = "ExtractUserKey b"
  have v: "valid ?a" "valid ?b" using 5 by (simp_all add: internal_key_def)
  have "0 \<le> cmp ?a ?b" using 5(3) by (auto simp: InternalKeyCompare_def Let_def split: if_splits)
  from sep_outside [OF v this] show ?case by (simp add: InternalFindShortestSeparator_def shorten_def)
next
  case (6 a)
  then show ?case
    using succ_valid shorten_valid by (simp add: InternalFindShortSuccessor_def internal_key_def)
next
  case (7 a)
  then show ?case by (simp add: InternalFindShortSuccessor_def shorten_above)
qed

end

lemma internal_order:
  assumes "key_order valid cmp"
  shows "key_order (internal_key valid) (InternalKeyCompare cmp)"
proof -
  have "comparator valid cmp (\<lambda>a b. a) (\<lambda>a. a)"
    using assms key_order.cmp_refl [OF assms] by (simp add: comparator_def comparator_axioms_def)
  note c = comparator.InternalKeyCompare_swap [OF this] comparator.InternalKeyCompare_trans [OF this]
  show ?thesis by (unfold_locales) (erule (1) c(1), erule (4) c(2))
qed

interpretation internal: comparator "internal_key (\<lambda>_. True)" "InternalKeyCompare Bytewise_Compare"
  "InternalFindShortestSeparator Bytewise_Compare Bytewise_FindShortestSeparator"
  "InternalFindShortSuccessor Bytewise_Compare Bytewise_FindShortSuccessor"
  by (rule bytewise.internal_comparator)

lemma internal_key_less:
  assumes "pk_sequence a \<le> kMaxSequenceNumber" "pk_sequence b \<le> kMaxSequenceNumber"
  shows "InternalKeyCompare Bytewise_Compare (AppendInternalKey [] a) (AppendInternalKey [] b) < 0 \<longleftrightarrow>
    pk_user_key a < pk_user_key b \<or>
    pk_user_key a = pk_user_key b \<and> (pk_sequence b < pk_sequence a \<or>
      pk_sequence a = pk_sequence b \<and> pk_type b < pk_type a)"
proof -
  let ?x = "PackSequenceAndType (pk_sequence a) (pk_type a)" and ?y = "PackSequenceAndType (pk_sequence b) (pk_type b)"
  let ?r = "slice_compare (pk_user_key a) (pk_user_key b)"
  have r: "InternalKeyCompare Bytewise_Compare (AppendInternalKey [] a) (AppendInternalKey [] b)
      = (if ?r = 0 then if ?y < ?x then - 1 else if ?x < ?y then 1 else ?r else ?r)"
    by (simp add: InternalKeyCompare_def Let_def AppendInternalKey_fields Bytewise_Compare_def)
  show ?thesis
    using pack_less [OF assms(2,1), of "pk_type b" "pk_type a"] slice_compare_less [of "pk_user_key a" "pk_user_key b"]
    unfolding r slice_compare_eq by auto
qed

text \<open>C19: the order of internal keys over byte-wise user keys: increasing user keys, and for
  one user key decreasing sequence numbers, then decreasing types.\<close>

theorem internal_key_order:
  assumes "pk_sequence a \<le> kMaxSequenceNumber" "pk_sequence b \<le> kMaxSequenceNumber"
  shows "InternalKeyCompare Bytewise_Compare (AppendInternalKey [] a) (AppendInternalKey [] b) < 0 \<longleftrightarrow>
    pk_user_key a < pk_user_key b \<or>
    pk_user_key a = pk_user_key b \<and> (pk_sequence b < pk_sequence a \<or>
      pk_sequence a = pk_sequence b \<and> pk_type b < pk_type a)"
  using assms by (rule internal_key_less)

lemma internal_key_order_witness:
  "InternalKeyCompare Bytewise_Compare
     (AppendInternalKey [] \<lparr>pk_user_key = [5], pk_sequence = 9, pk_type = 0\<rparr>)
     (AppendInternalKey [] \<lparr>pk_user_key = [5], pk_sequence = 8, pk_type = 1\<rparr>) < 0"
  using internal_key_order [of "\<lparr>pk_user_key = [5], pk_sequence = 9, pk_type = 0\<rparr>"
      "\<lparr>pk_user_key = [5], pk_sequence = 8, pk_type = 1\<rparr>"]
  by (simp add: kMaxSequenceNumber_def)

text \<open>C39: \<^verbatim>\<open>InternalKeyComparator::FindShortestSeparator\<close> over any user comparator that
  keeps the contract of \<^verbatim>\<open>comparator.h\<close>: for internal keys \<open>start < limit\<close> the result is an
  internal key in \<open>[start, limit)\<close>, so both assertions of the code hold. It is \<open>start\<close> itself
  or strictly shorter: the separator of the user keys with the tag that sorts first, taken
  exactly when that separator is physically shorter and logically larger than the user key.\<close>

theorem internal_separator_between:
  assumes "comparator valid cmp sep succ" "internal_key valid start" "internal_key valid limit"
    and "InternalKeyCompare cmp start limit < 0"
  shows "let r = InternalFindShortestSeparator cmp sep start limit;
      u = ExtractUserKey start; t = sep u (ExtractUserKey limit)
    in internal_key valid r \<and> InternalKeyCompare cmp start r \<le> 0 \<and> InternalKeyCompare cmp r limit < 0 \<and>
      (if length t < length u \<and> cmp u t < 0
       then r = PutFixed64 t (PackSequenceAndType kMaxSequenceNumber kValueTypeForSeek) \<and> length r < length start
       else r = start)"
proof -
  have internal: "comparator (internal_key valid) (InternalKeyCompare cmp)
      (InternalFindShortestSeparator cmp sep) (InternalFindShortSuccessor cmp succ)"
    using assms(1) by (rule comparator.internal_comparator)
  let ?r = "InternalFindShortestSeparator cmp sep start limit" and ?u = "ExtractUserKey start"
  let ?t = "sep ?u (ExtractUserKey limit)"
  have len: "length start = length ?u + 8" using assms(2) by (simp add: internal_key_def ExtractUserKey_def)
  have "if length ?t < length ?u \<and> cmp ?u ?t < 0
      then ?r = PutFixed64 ?t (PackSequenceAndType kMaxSequenceNumber kValueTypeForSeek) \<and> length ?r < length start
      else ?r = start"
    by (simp add: len InternalFindShortestSeparator_def shorten_def Let_def PutFixed64_def)
  then show ?thesis
    using comparator.sep_valid [OF internal assms(2,3)] comparator.sep_between [OF internal assms(2-4)]
    unfolding Let_def by blast
qed

text \<open>The separator of the two keys, whose user keys differ in the second byte, loses a byte.\<close>

lemma internal_separator_between_witness:
  "let r = InternalFindShortestSeparator Bytewise_Compare Bytewise_FindShortestSeparator
      (PutFixed64 [1, 2, 3] 256) (PutFixed64 [1, 9] 256)
   in InternalKeyCompare Bytewise_Compare r (PutFixed64 [1, 9] 256) < 0 \<and>
     r = PutFixed64 [1, 3] (PackSequenceAndType kMaxSequenceNumber kValueTypeForSeek)"
proof -
  have less: "InternalKeyCompare Bytewise_Compare (PutFixed64 [1, 2, 3] 256) (PutFixed64 [1, 9] 256) < 0"
    by (simp add: InternalKeyCompare_def PutFixed64_fields Bytewise_Compare_def)
  have sep: "Bytewise_FindShortestSeparator [1, 2, 3] [1, 9] = [1, 3]" "Bytewise_Compare [1, 2, 3] [1, 3] < 0"
    by (simp_all add: Bytewise_FindShortestSeparator_def Bytewise_Compare_def)
  have "comparator (\<lambda>_. True) Bytewise_Compare Bytewise_FindShortestSeparator Bytewise_FindShortSuccessor"
    by (rule bytewise.comparator_axioms)
  note between = internal_separator_between [OF this _ _ less]
  have c: "length [1 :: byte, 3] < length [1 :: byte, 2, 3] \<and> Bytewise_Compare [1, 2, 3] [1, 3] < 0"
    using sep(2) by simp
  have v: "internal_key (\<lambda>_. True) (PutFixed64 u 256)" for u by (simp add: internal_key_def PutFixed64_fields)
  show ?thesis using between [OF v v] unfolding Let_def PutFixed64_fields sep(1) if_P [OF c] by blast
qed

end
