(* ===== verification/Ldb_Bloom.thy ===== *)
theory Ldb_Bloom
  imports Ldb_Coding
begin

text \<open>
  The hash function of \<^verbatim>\<open>util/hash.cc\<close> and the Bloom filter of \<^verbatim>\<open>util/bloom.cc\<close>. A filter is
  an array of bytes with the number of probes behind it.
\<close>

section \<open>Hash\<close>

definition hash_m :: "32 word" where "hash_m = 0xc6a4a793"

text \<open>Four bytes at a time, then the fall-through switch over the remaining bytes.\<close>

fun hash_words :: "32 word \<Rightarrow> byte list \<Rightarrow> 32 word \<times> byte list" where
  "hash_words h (a # b # c # d # rest) =
     (let h1 = (h + DecodeFixed32 [a, b, c, d]) * hash_m
      in hash_words (h1 XOR drop_bit 16 h1) rest)"
| "hash_words h rest = (h, rest)"

definition Hash :: "byte list \<Rightarrow> 32 word \<Rightarrow> 32 word" where
  "Hash data seed =
     (let n = of_nat (length data) :: 64 word;
          h = ucast (ucast seed XOR (n * ucast hash_m));
          (h1, rest) = hash_words h data;
          h2 = (if 3 \<le> length rest then h1 + push_bit 16 (ucast (rest ! 2)) else h1);
          h3 = (if 2 \<le> length rest then h2 + push_bit 8 (ucast (rest ! 1)) else h2)
      in if 1 \<le> length rest
         then let h4 = (h3 + ucast (rest ! 0)) * hash_m in h4 XOR drop_bit 24 h4
         else h3)"

definition BloomHash :: "byte list \<Rightarrow> 32 word" where
  "BloomHash key = Hash key 0xbc9f1d34"

section \<open>The filter policy\<close>

text \<open>
  The constructor: \<open>probes\<close> stands for \<^verbatim>\<open>static_cast<size_t>(bits_per_key * 0.69)\<close>, the only
  floating-point computation; it is clamped.
\<close>

record BloomFilterPolicy =
  bits_per_key :: "64 word"
  bloom_k :: "64 word"

definition make_BloomFilterPolicy :: "64 word \<Rightarrow> 64 word \<Rightarrow> BloomFilterPolicy" where
  "make_BloomFilterPolicy bpk probes =
     (let k1 = (if probes < 1 then 1 else probes); k2 = (if 30 < k1 then 30 else k1)
      in \<lparr>bits_per_key = bpk, bloom_k = k2\<rparr>)"

definition bloom_delta :: "32 word \<Rightarrow> 32 word" where
  "bloom_delta h = drop_bit 17 h OR push_bit 15 h"

definition bloom_mask :: "nat \<Rightarrow> byte" where
  "bloom_mask bitpos = push_bit (bitpos mod 8) 1"

definition bloom_bitpos :: "32 word \<Rightarrow> 64 word \<Rightarrow> 32 word" where
  "bloom_bitpos h bits = ucast (ucast h mod bits)"

text \<open>The inner loop over the probes of one key, and the outer one over the keys.\<close>

primrec bloom_add :: "nat \<Rightarrow> 64 word \<Rightarrow> 32 word \<Rightarrow> 32 word \<Rightarrow> byte list \<Rightarrow> byte list" where
  "bloom_add 0 bits h delta array = array"
| "bloom_add (Suc k) bits h delta array =
     (let bitpos = unat (bloom_bitpos h bits) in
      bloom_add k bits (h + delta) delta
        (array[bitpos div 8 := array ! (bitpos div 8) OR bloom_mask bitpos]))"

definition CreateFilter :: "BloomFilterPolicy \<Rightarrow> byte list list \<Rightarrow> byte list \<Rightarrow> byte list" where
  "CreateFilter policy keys dst =
     (let bits0 = of_nat (length keys) * bits_per_key policy;
          bits1 = (if bits0 < 64 then 64 else bits0);
          bytes = (bits1 + 7) div 8;
          bits = bytes * 8;
          array = fold (\<lambda>key array. let h = BloomHash key in
                    bloom_add (unat (bloom_k policy)) bits h (bloom_delta h) array)
                  keys (replicate (unat bytes) 0)
      in dst @ array @ [ucast (bloom_k policy)])"

primrec bloom_check :: "nat \<Rightarrow> 64 word \<Rightarrow> 32 word \<Rightarrow> 32 word \<Rightarrow> byte list \<Rightarrow> bool" where
  "bloom_check 0 bits h delta array = True"
| "bloom_check (Suc k) bits h delta array =
     (let bitpos = unat (bloom_bitpos h bits) in
      if array ! (bitpos div 8) AND bloom_mask bitpos = 0 then False
      else bloom_check k bits (h + delta) delta array)"

text \<open>A \<^verbatim>\<open>char\<close> is signed, so a last byte from 128 on is a large \<^verbatim>\<open>size_t\<close>.\<close>

definition KeyMayMatch :: "byte list \<Rightarrow> byte list \<Rightarrow> bool" where
  "KeyMayMatch key bloom_filter =
     (let len = length bloom_filter in
      if len < 2 then False
      else let bits = (of_nat len - 1) * 8 :: 64 word;
               k = scast (bloom_filter ! (len - 1)) :: 64 word
           in if 30 < k then True
              else let h = BloomHash key in bloom_check (unat k) bits h (bloom_delta h) bloom_filter)"

section \<open>No false negatives\<close>

definition array_bit :: "byte list \<Rightarrow> nat \<Rightarrow> bool" where
  "array_bit array p \<longleftrightarrow> bit (array ! (p div 8)) (p mod 8)"

lemma bit_bloom_mask: "bit (bloom_mask p) n \<longleftrightarrow> n = p mod 8"
  by (simp add: bloom_mask_def bit_push_bit_iff bit_1_iff del: push_bit_of_1) auto

lemma and_bloom_mask: "b AND bloom_mask p = 0 \<longleftrightarrow> \<not> bit b (p mod 8)"
proof -
  have "b AND c = 0 \<longleftrightarrow> \<not> bit b j" if "\<And>n. bit c n \<longleftrightarrow> n = j" "j < 8" for b c :: byte and j
    unfolding bit_eq_iff [where 'a = "8 word"] using that by (auto simp: bit_and_iff)
  then show ?thesis using bit_bloom_mask [of p] by simp
qed

lemma set_array_bit:
  assumes "p div 8 < length array"
  shows "array_bit (array[p div 8 := array ! (p div 8) OR bloom_mask p]) q \<longleftrightarrow> q = p \<or> array_bit array q"
proof (cases "q div 8 = p div 8")
  case True
  then have "q mod 8 = p mod 8 \<longleftrightarrow> q = p" by (metis div_mult_mod_eq)
  then show ?thesis using True assms by (auto simp: array_bit_def bit_or_iff bit_bloom_mask)
next
  case False
  then show ?thesis by (auto simp: array_bit_def)
qed

lemma length_bloom_add [simp]: "length (bloom_add k bits h delta array) = length array"
  by (induction k arbitrary: h array) (simp_all add: Let_def)

lemma bitpos_less:
  assumes "0 < bits"
  shows "unat (bloom_bitpos h bits) < unat bits"
proof -
  have "(ucast h mod bits :: 64 word) < bits" using assms by (rule word_mod_less_divisor)
  then have "unat (ucast h mod bits :: 64 word) < unat bits" by (simp add: word_less_nat_alt)
  moreover have "unat (ucast (ucast h mod bits :: 64 word) :: 32 word) \<le> unat (ucast h mod bits :: 64 word)"
    by (simp add: unsigned_ucast_eq take_bit_nat_less_eq_self)
  ultimately show ?thesis unfolding bloom_bitpos_def by simp
qed

lemma bloom_add_keeps:
  assumes "0 < bits" "unat bits \<le> 8 * length array"
  shows "array_bit array q \<Longrightarrow> array_bit (bloom_add k bits h delta array) q"
  using assms(2)
proof (induction k arbitrary: h array)
  case (Suc k)
  have "unat (bloom_bitpos h bits) div 8 < length array"
    using bitpos_less [OF assms(1), of h] Suc.prems(2) by (simp add: less_mult_imp_div_less mult.commute)
  then show ?case using Suc by (simp add: Let_def set_array_bit)
qed simp

lemma bloom_check_keeps:
  assumes "\<And>q. q < unat bits \<Longrightarrow> array_bit array q \<Longrightarrow> array_bit array' q" "0 < bits"
  shows "bloom_check k bits h delta array \<Longrightarrow> bloom_check k bits h delta array'"
proof (induction k arbitrary: h)
  case (Suc k)
  have "unat (bloom_bitpos h bits) < unat bits" by (rule bitpos_less [OF assms(2)])
  then show ?case using Suc assms(1) [of "unat (bloom_bitpos h bits)"]
    by (auto simp: Let_def and_bloom_mask array_bit_def split: if_splits)
qed simp

lemma bloom_check_add:
  assumes "0 < bits" "unat bits \<le> 8 * length array"
  shows "bloom_check k bits h delta (bloom_add k bits h delta array)"
  using assms(2)
proof (induction k arbitrary: h array)
  case (Suc k)
  let ?p = "unat (bloom_bitpos h bits)"
  let ?array = "array[?p div 8 := array ! (?p div 8) OR bloom_mask ?p]"
  have d: "?p div 8 < length array"
    using bitpos_less [OF assms(1), of h] Suc.prems by (simp add: less_mult_imp_div_less mult.commute)
  have "array_bit (bloom_add k bits (h + delta) delta ?array) ?p"
    by (rule bloom_add_keeps [OF assms(1)]) (use d Suc.prems in \<open>simp_all add: set_array_bit\<close>)
  moreover have "bloom_check k bits (h + delta) delta (bloom_add k bits (h + delta) delta ?array)"
    by (rule Suc.IH) (use Suc.prems in simp)
  ultimately show ?case by (simp add: Let_def and_bloom_mask array_bit_def)
qed simp

lemma length_bloom_fold [simp]:
  "length (fold (\<lambda>key array. bloom_add k bits (h key) (d key) array) keys array) = length array"
  by (induction keys arbitrary: array) simp_all

lemma bloom_fold_keeps:
  assumes "0 < bits" "unat bits \<le> 8 * length array"
  shows "array_bit array q \<Longrightarrow>
    array_bit (fold (\<lambda>key array. bloom_add k bits (h key) (d key) array) keys array) q"
  using assms(2) by (induction keys arbitrary: array) (simp_all add: bloom_add_keeps [OF assms(1)])

lemma bloom_check_fold:
  assumes "0 < bits" "unat bits \<le> 8 * length array" "key \<in> set keys"
  shows "bloom_check k bits (h key) (d key)
    (fold (\<lambda>key array. bloom_add k bits (h key) (d key) array) keys array)"
  using assms(2,3)
proof (induction keys arbitrary: array)
  case (Cons x xs)
  show ?case
  proof (cases "key \<in> set xs")
    case True
    then show ?thesis using Cons by simp
  next
    case False
    then have "x = key" using Cons.prems by simp
    moreover have "bloom_check k bits (h key) (d key)
        (fold (\<lambda>key array. bloom_add k bits (h key) (d key) array) xs
          (bloom_add k bits (h key) (d key) array))"
      by (rule bloom_check_keeps [OF _ assms(1) bloom_check_add [OF assms(1) Cons.prems(1)]])
        (rule bloom_fold_keeps [OF assms(1)], use Cons.prems(1) in simp_all)
    ultimately show ?thesis by simp
  qed
qed simp

text \<open>The filter size: whole bytes, and at least eight of them.\<close>

definition filter_bytes :: "64 word \<Rightarrow> 64 word" where
  "filter_bytes bits0 = ((if bits0 < 64 then 64 else bits0) + 7) div 8"

lemma filter_bytes_bounds:
  assumes "unat b \<le> 2 ^ 63"
  shows "0 < unat (filter_bytes b)" "unat (filter_bytes b) < 2 ^ 61"
    "unat (filter_bytes b * 8) = 8 * unat (filter_bytes b)"
proof -
  let ?b = "if b < 64 then 64 else b"
  have b: "64 \<le> unat ?b" "unat ?b \<le> 2 ^ 63" using assms by (auto simp: word_less_nat_alt not_less)
  then have "unat (?b + 7) = unat ?b + 7" by (subst unat_add_lem [THEN iffD1]) simp_all
  then have n: "unat (filter_bytes b) = (unat ?b + 7) div 8" by (simp add: filter_bytes_def unat_div)
  show "0 < unat (filter_bytes b)" "unat (filter_bytes b) < 2 ^ 61" using n b by simp_all
  then show "unat (filter_bytes b * 8) = 8 * unat (filter_bytes b)"
    by (subst unat_mult_lem [THEN iffD1]) simp_all
qed

lemma array_bit_append: "q < 8 * length array \<Longrightarrow> array_bit (array @ xs) q = array_bit array q"
  by (simp add: array_bit_def nth_append less_mult_imp_div_less mult.commute)

lemma make_BloomFilterPolicy_k: "bloom_k (make_BloomFilterPolicy b p) \<le> 30"
  by (simp add: make_BloomFilterPolicy_def not_less)

lemma uint_bloom_k:
  assumes "k \<le> (30 :: 64 word)"
  shows "uint (ucast k :: byte) = uint k"
proof -
  have "uint k \<le> 30" using assms by (simp add: word_le_def)
  then show ?thesis by (simp only: unsigned_ucast_eq) (rule take_bit_int_eq_self, simp_all)
qed

lemma sint_bloom_k:
  assumes "k \<le> (30 :: 64 word)"
  shows "sint (ucast k :: byte) = uint k"
proof -
  have k: "uint k \<le> 30" using assms by (simp add: word_le_def)
  have "sint (ucast k :: byte) = signed_take_bit 7 (uint k)"
    by (simp only: sint_uint uint_bloom_k [OF assms]) simp
  also have "\<dots> = uint k"
    by (rule signed_take_bit_int_eq_self) (rule order_trans [OF _ uint_ge_0], use k in simp_all)
  finally show ?thesis .
qed

lemma scast_bloom_k: "k \<le> (30 :: 64 word) \<Longrightarrow> scast (ucast k :: byte) = k"
  by (simp only: scast_eq sint_bloom_k word_of_int_uint)

lemma CreateFilter_KeyMayMatch:
  assumes "key \<in> set keys" "length keys < 2 ^ 31" "unat bpk < 2 ^ 31"
    and "policy = make_BloomFilterPolicy bpk probes"
  shows "KeyMayMatch key (drop (length dst) (CreateFilter policy keys dst))"
proof -
  define n where "n = filter_bytes (of_nat (length keys) * bpk)"
  define k where "k = bloom_k policy"
  define array where "array = fold (\<lambda>key array. bloom_add (unat k) (n * 8) (BloomHash key)
    (bloom_delta (BloomHash key)) array) keys (replicate (unat n) 0)"
  have "length keys * unat bpk \<le> 2 ^ 31 * 2 ^ 31" using assms(2,3) by (intro mult_le_mono) simp_all
  then have "unat ((of_nat (length keys) :: 64 word) * bpk) \<le> 2 ^ 63"
    using assms(2) by (simp add: unat_word_ariths unat_of_nat take_bit_nat_eq_self)
  note b = filter_bytes_bounds [OF this, folded n_def]
  have k: "k \<le> 30" using make_BloomFilterPolicy_k [of bpk probes] assms(4) by (simp add: k_def)
  have la: "length array = unat n" by (simp add: array_def)
  have eq: "drop (length dst) (CreateFilter policy keys dst) = array @ [ucast k]"
    by (simp add: CreateFilter_def Let_def array_def n_def filter_bytes_def k_def assms(4) make_BloomFilterPolicy_def)
  have pos: "0 < n * 8" using b by (simp add: word_less_nat_alt)
  have "bloom_check (unat k) (n * 8) (BloomHash key) (bloom_delta (BloomHash key)) array"
    unfolding array_def by (rule bloom_check_fold [OF pos _ assms(1)]) (simp add: b)
  then have "bloom_check (unat k) (n * 8) (BloomHash key) (bloom_delta (BloomHash key)) (array @ [ucast k])"
    by (rule bloom_check_keeps [rotated 2]) (use la b pos in \<open>simp_all add: array_bit_append\<close>)
  moreover have "(of_nat (length (array @ [ucast k])) - 1) * 8 = n * 8"
    by (simp add: la)
  ultimately show ?thesis
    using b(1) by (simp add: KeyMayMatch_def eq Let_def la nth_append scast_bloom_k [OF k])
qed

text \<open>
  C40: a key the filter was built from always matches, whatever the other keys, the number of bits
  per key, the rounding of the number of probes and the prefix the filter is appended to: reading
  through a filter never loses a key. The bound says that the filter size does not overflow.
\<close>
theorem bloom_no_false_negative:
  assumes "key \<in> set keys" "length keys < 2 ^ 31" "unat bpk < 2 ^ 31"
    and "policy = make_BloomFilterPolicy bpk probes"
  shows "KeyMayMatch key (drop (length dst) (CreateFilter policy keys dst))"
  using assms by (rule CreateFilter_KeyMayMatch)

theorem bloom_no_false_negative_witness:
  "KeyMayMatch [1, 2] (drop 1 (CreateFilter (make_BloomFilterPolicy 10 6) [[1, 2], [3]] [9]))"
  using bloom_no_false_negative [of "[1, 2]" "[[1, 2], [3]]" 10 "make_BloomFilterPolicy 10 6" 6 "[9]"]
  by simp

end
