(* ===== verification/Ldb_Status.thy ===== *)
theory Ldb_Status
  imports Pb_Prelude "HOL-Library.Char_ord"
begin

text \<open>
  Error values: \<^verbatim>\<open>util/status.cc\<close> and \<^verbatim>\<open>include/leveldb/status.h\<close>. A status is a null pointer
  for success or the byte array the code allocates: four bytes of message length, the code, the
  message.
\<close>

type_synonym Status = "byte list option"

definition ascii :: "string \<Rightarrow> byte list" where "ascii s = map of_char s"

definition kOk :: byte where "kOk = 0"
definition kNotFound :: byte where "kNotFound = 1"
definition kCorruption :: byte where "kCorruption = 2"
definition kNotSupported :: byte where "kNotSupported = 3"
definition kInvalidArgument :: byte where "kInvalidArgument = 4"
definition kIOError :: byte where "kIOError = 5"

definition make_Status :: "byte \<Rightarrow> byte list \<Rightarrow> byte list \<Rightarrow> Status" where
  "make_Status code msg msg2 =
     (let len1 = of_nat (length msg) :: 32 word; len2 = of_nat (length msg2) :: 32 word;
          size1 = len1 + (if len2 \<noteq> 0 then 2 + len2 else 0)
      in Some (bytes_of_word 4 size1 @ [code] @ take (unat len1) msg @
           (if len2 \<noteq> 0 then ascii '': '' @ take (unat len2) msg2 else [])))"

definition Status_OK :: Status where "Status_OK = None"
definition Status_NotFound :: "byte list \<Rightarrow> byte list \<Rightarrow> Status" where
  "Status_NotFound msg msg2 = make_Status kNotFound msg msg2"
definition Status_Corruption :: "byte list \<Rightarrow> byte list \<Rightarrow> Status" where
  "Status_Corruption msg msg2 = make_Status kCorruption msg msg2"
definition Status_NotSupported :: "byte list \<Rightarrow> byte list \<Rightarrow> Status" where
  "Status_NotSupported msg msg2 = make_Status kNotSupported msg msg2"
definition Status_InvalidArgument :: "byte list \<Rightarrow> byte list \<Rightarrow> Status" where
  "Status_InvalidArgument msg msg2 = make_Status kInvalidArgument msg msg2"
definition Status_IOError :: "byte list \<Rightarrow> byte list \<Rightarrow> Status" where
  "Status_IOError msg msg2 = make_Status kIOError msg msg2"

definition CopyState :: "byte list \<Rightarrow> byte list" where
  "CopyState state = (let size1 = word_of_bytes (take 4 state) :: 32 word in take (unat (size1 + 5)) state)"

definition Status_copy :: "Status \<Rightarrow> Status" where
  "Status_copy s = (case s of None \<Rightarrow> None | Some state \<Rightarrow> Some (CopyState state))"

definition Status_code :: "Status \<Rightarrow> byte" where
  "Status_code s = (case s of None \<Rightarrow> kOk | Some state \<Rightarrow> state ! 4)"

definition Status_ok :: "Status \<Rightarrow> bool" where "Status_ok s \<longleftrightarrow> s = None"
definition IsNotFound :: "Status \<Rightarrow> bool" where "IsNotFound s \<longleftrightarrow> Status_code s = kNotFound"
definition IsCorruption :: "Status \<Rightarrow> bool" where "IsCorruption s \<longleftrightarrow> Status_code s = kCorruption"
definition IsIOError :: "Status \<Rightarrow> bool" where "IsIOError s \<longleftrightarrow> Status_code s = kIOError"

text \<open>Decimal digits, as \<^verbatim>\<open>printf\<close> writes an integer.\<close>

fun decimal :: "nat \<Rightarrow> byte list" where
  "decimal n = (if n < 10 then [of_nat (48 + n)] else decimal (n div 10) @ [of_nat (48 + n mod 10)])"

declare decimal.simps [simp del]

definition decimal_int :: "int \<Rightarrow> byte list" where
  "decimal_int i = (if i < 0 then ascii ''-'' @ decimal (nat (- i)) else decimal (nat i))"

definition Status_ToString :: "Status \<Rightarrow> byte list" where
  "Status_ToString s =
     (case s of None \<Rightarrow> ascii ''OK''
      | Some state \<Rightarrow>
          (let c = Status_code s;
               type = (if c = kOk then ascii ''OK''
                 else if c = kNotFound then ascii ''NotFound: ''
                 else if c = kCorruption then ascii ''Corruption: ''
                 else if c = kNotSupported then ascii ''Not implemented: ''
                 else if c = kInvalidArgument then ascii ''Invalid argument: ''
                 else if c = kIOError then ascii ''IO error: ''
                 else take 29 (ascii ''Unknown code('' @ decimal_int (sint c) @ ascii ''): ''));
               len = word_of_bytes (take 4 state) :: 32 word
           in type @ take (unat len) (drop 5 state)))"

section \<open>The message of a status\<close>

lemma length_ascii [simp]: "length (ascii s) = length s"
  by (simp add: ascii_def)

lemma make_Status_shape:
  assumes "length msg + length msg2 + 2 < 2 ^ 32"
  shows "make_Status code msg msg2 =
    Some (bytes_of_word 4 (of_nat (length msg + (if msg2 = [] then 0 else 2 + length msg2)) :: 32 word) @ [code] @
      msg @ (if msg2 = [] then [] else ascii '': '' @ msg2))"
proof -
  have "(of_nat (length msg2) :: 32 word) = 0 \<longleftrightarrow> msg2 = []"
    using assms by (simp add: word_unat_eq_iff unat_of_nat take_bit_nat_eq_self)
  then show ?thesis
    using assms by (auto simp: make_Status_def Let_def unat_of_nat take_bit_nat_eq_self)
qed

lemma Status_code_make [simp]: "Status_code (make_Status code msg msg2) = code"
  by (simp add: make_Status_def Status_code_def Let_def nth_append)

lemma Status_ok_make [simp]: "\<not> Status_ok (make_Status code msg msg2)" "make_Status code msg msg2 \<noteq> None"
  by (simp_all add: make_Status_def Status_ok_def Let_def)

lemma Status_message:
  assumes "length msg + length msg2 + 7 < 2 ^ 32"
  defines "text \<equiv> msg @ (if msg2 = [] then [] else ascii '': '' @ msg2)"
  shows "Status_copy (make_Status code msg msg2) = make_Status code msg msg2"
    and "Status_ToString (Status_Corruption msg msg2) = ascii ''Corruption: '' @ text"
proof -
  have len: "length text < 2 ^ 32 - 5" "length text = length msg + (if msg2 = [] then 0 else 2 + length msg2)"
    using assms(1) by (auto simp: text_def)
  have shape: "make_Status c msg msg2 = Some (bytes_of_word 4 (of_nat (length text) :: 32 word) @ [c] @ text)" for c
    using make_Status_shape [of msg msg2 c] assms(1) unfolding len(2) by (simp add: text_def)
  have "unat ((of_nat (length text) :: 32 word) + 5) = length text + 5"
    using len(1) by (simp add: unat_word_ariths unat_of_nat take_bit_nat_eq_self)
  then show "Status_copy (make_Status code msg msg2) = make_Status code msg msg2"
    by (simp add: shape Status_copy_def CopyState_def Let_def word_of_bytes_of_word)
  show "Status_ToString (Status_Corruption msg msg2) = ascii ''Corruption: '' @ text"
    using len(1)
    by (simp add: Status_Corruption_def shape Status_ToString_def Status_code_def Let_def word_of_bytes_of_word
        kCorruption_def kNotFound_def kOk_def nth_append unat_of_nat take_bit_nat_eq_self)
qed

end
