(* ===== verification/Ldb_Log.thy ===== *)
theory Ldb_Log
  imports Ldb_Crc32c Ldb_Status "HOL-Library.Monad_Syntax"
begin

text \<open>
  The write-ahead log: \<^verbatim>\<open>db/log_format.h\<close>, \<^verbatim>\<open>db/log_writer.cc\<close> and \<^verbatim>\<open>db/log_reader.cc\<close>. A log is
  a sequence of 32 KB blocks of physical records; a record that does not fit is cut into fragments.
  The files are the operations the code calls on them; the in-memory files of
  \<^verbatim>\<open>db/log_test.cc\<close> are their instances. Checksums do not depend on where the data lies
  (\<open>Extend_reference\<close>), so buffers are given the address 0.
\<close>

section \<open>Format\<close>

definition kZeroType :: byte where "kZeroType = 0"
definition kFullType :: byte where "kFullType = 1"
definition kFirstType :: byte where "kFirstType = 2"
definition kMiddleType :: byte where "kMiddleType = 3"
definition kLastType :: byte where "kLastType = 4"
definition kMaxRecordType :: byte where "kMaxRecordType = kLastType"
definition kBlockSize :: nat where "kBlockSize = 32768"
definition kHeaderSize :: nat where "kHeaderSize = 4 + 2 + 1"

section \<open>Writing\<close>

text \<open>A writable file is its two operations on its state.\<close>

record 'f WritableFile =
  wf_Append :: "byte list \<Rightarrow> 'f \<Rightarrow> Status \<times> 'f"
  wf_Flush :: "'f \<Rightarrow> Status \<times> 'f"

record 'f log_Writer =
  lw_dest :: 'f
  lw_block_offset :: int
  lw_type_crc :: "32 word list"

definition make_log_Writer :: "'f \<Rightarrow> 'f log_Writer" where
  "make_log_Writer dest =
     \<lparr>lw_dest = dest, lw_block_offset = 0,
      lw_type_crc = map (\<lambda>i. Value 0 [of_nat i]) [0..<unat kMaxRecordType + 1]\<rparr>"

definition EmitPhysicalRecord ::
  "'f WritableFile \<Rightarrow> 'f log_Writer \<Rightarrow> byte \<Rightarrow> byte list \<Rightarrow> Status \<times> 'f log_Writer" where
  "EmitPhysicalRecord file w t data =
     (let n = of_nat (length data) :: 64 word;
          crc = Mask (Extend (lw_type_crc w ! unat t) 0 data);
          buf = EncodeFixed32 crc @ [ucast (n AND 0xff), ucast (drop_bit 8 n), t];
          (s1, f1) = wf_Append file buf (lw_dest w);
          (s2, f2) = (if Status_ok s1
             then let (s, f) = wf_Append file data f1 in if Status_ok s then wf_Flush file f else (s, f)
             else (s1, f1))
      in (s2, w\<lparr>lw_dest := f2, lw_block_offset := lw_block_offset w + int kHeaderSize + int (length data)\<rparr>))"

text \<open>The switch to a new block, with zeros up to its start.\<close>

definition switch_block :: "'f WritableFile \<Rightarrow> 'f log_Writer \<Rightarrow> 'f log_Writer" where
  "switch_block file w =
     (let leftover = int kBlockSize - lw_block_offset w in
      if leftover < int kHeaderSize
      then let w' = (if 0 < leftover
             then w\<lparr>lw_dest := snd (wf_Append file (take (nat leftover) (replicate 6 0)) (lw_dest w))\<rparr> else w)
           in w'\<lparr>lw_block_offset := 0\<rparr>
      else w)"

definition fragment_type :: "bool \<Rightarrow> bool \<Rightarrow> byte" where
  "fragment_type at_begin at_end =
     (if at_begin \<and> at_end then kFullType else if at_begin then kFirstType
      else if at_end then kLastType else kMiddleType)"

lemma lw_block_offset_Emit [simp]:
  "lw_block_offset (snd (EmitPhysicalRecord file w t data)) = lw_block_offset w + 7 + int (length data)"
  by (simp add: EmitPhysicalRecord_def kHeaderSize_def Let_def case_prod_beta)

text \<open>The room for payload in the current block.\<close>

definition log_avail :: "'f log_Writer \<Rightarrow> nat" where
  "log_avail w = nat (int kBlockSize - lw_block_offset w - int kHeaderSize)"

function AddRecord_loop ::
  "'f WritableFile \<Rightarrow> 'f log_Writer \<Rightarrow> bool \<Rightarrow> byte list \<Rightarrow> Status \<times> 'f log_Writer" where
  "AddRecord_loop file w at_begin ptr =
     (let w1 = switch_block file w;
          avail = log_avail w1;
          fragment_length = (if length ptr < avail then length ptr else avail);
          type = fragment_type at_begin (length ptr = fragment_length);
          r = EmitPhysicalRecord file w1 type (take fragment_length ptr);
          ptr' = drop fragment_length ptr
      in if Status_ok (fst r) \<and> 0 < length ptr' then AddRecord_loop file (snd r) False ptr' else r)"
  by pat_completeness auto
termination
proof (relation "measure (\<lambda>(file, w, at_begin, ptr). 2 * length ptr + (if lw_block_offset w = 32761 then 1 else 0))", goal_cases)
  case (2 f w b ptr w1 avail fl ty r ptr')
  have off: "lw_block_offset w1 \<le> 32761" "lw_block_offset w = 32761 \<Longrightarrow> lw_block_offset w1 = 32761"
    "lw_block_offset w1 = 32761 \<Longrightarrow> lw_block_offset w = 32761"
    using 2(1) by (auto simp: switch_block_def Let_def kBlockSize_def kHeaderSize_def split: if_splits)
  have av: "avail = nat (32761 - lw_block_offset w1)" using 2(2) by (simp add: log_avail_def kBlockSize_def kHeaderSize_def)
  have "fl = avail" "avail < length ptr" using 2(3,6,7) by (auto split: if_splits)
  moreover have "lw_block_offset (snd r) = lw_block_offset w1 + 7 + int fl"
    using 2(5) \<open>fl = avail\<close> \<open>avail < length ptr\<close> by simp
  moreover have "avail = 0 \<longleftrightarrow> lw_block_offset w1 = 32761" using av off(1) by auto
  moreover have "length ptr' = length ptr - avail" using 2(6) \<open>fl = avail\<close> by simp
  ultimately show ?case using off av by (cases "avail = 0") auto
qed simp

declare AddRecord_loop.simps [simp del]

definition AddRecord :: "'f WritableFile \<Rightarrow> 'f log_Writer \<Rightarrow> byte list \<Rightarrow> Status \<times> 'f log_Writer" where
  "AddRecord file w data = AddRecord_loop file w True data"

section \<open>Reading\<close>

text \<open>A sequential file reads up to so many bytes, or skips; a reporter collects what is dropped.\<close>

record 'f SequentialFile =
  sf_Read :: "nat \<Rightarrow> 'f \<Rightarrow> Status \<times> byte list \<times> 'f"
  sf_Skip :: "64 word \<Rightarrow> 'f \<Rightarrow> Status \<times> 'f"

record 'f log_Reader =
  lr_file :: 'f
  lr_reporter :: bool
  lr_reports :: "(64 word \<times> Status) list"
  lr_checksum :: bool
  lr_buffer :: "byte list"
  lr_eof :: bool
  lr_last_record_offset :: "64 word"
  lr_end_of_buffer_offset :: "64 word"
  lr_initial_offset :: "64 word"

definition kEof :: "32 word" where "kEof = ucast kMaxRecordType + 1"
definition kBadRecord :: "32 word" where "kBadRecord = ucast kMaxRecordType + 2"

definition make_log_Reader :: "'f \<Rightarrow> bool \<Rightarrow> bool \<Rightarrow> 64 word \<Rightarrow> 'f log_Reader" where
  "make_log_Reader f reporter checksum initial_offset =
     \<lparr>lr_file = f, lr_reporter = reporter, lr_reports = [], lr_checksum = checksum, lr_buffer = [],
      lr_eof = False, lr_last_record_offset = 0, lr_end_of_buffer_offset = 0,
      lr_initial_offset = initial_offset\<rparr>"

definition ReportDrop :: "'f log_Reader \<Rightarrow> 64 word \<Rightarrow> Status \<Rightarrow> 'f log_Reader" where
  "ReportDrop rd bytes reason =
     (if lr_reporter rd \<and>
         lr_initial_offset rd \<le> lr_end_of_buffer_offset rd - of_nat (length (lr_buffer rd)) - bytes
      then rd\<lparr>lr_reports := lr_reports rd @ [(bytes, reason)]\<rparr> else rd)"

definition ReportCorruption :: "'f log_Reader \<Rightarrow> 64 word \<Rightarrow> byte list \<Rightarrow> 'f log_Reader" where
  "ReportCorruption rd bytes reason = ReportDrop rd bytes (Status_Corruption reason [])"

definition SkipToInitialBlock :: "'f SequentialFile \<Rightarrow> 'f log_Reader \<Rightarrow> bool \<times> 'f log_Reader" where
  "SkipToInitialBlock file rd =
     (let offset_in_block = lr_initial_offset rd mod of_nat kBlockSize;
          start = lr_initial_offset rd - offset_in_block;
          start = (if of_nat kBlockSize - 6 < offset_in_block then start + of_nat kBlockSize else start);
          rd1 = rd\<lparr>lr_end_of_buffer_offset := start\<rparr>
      in if 0 < start
         then let (skip_status, f) = sf_Skip file start (lr_file rd1); rd2 = rd1\<lparr>lr_file := f\<rparr>
              in if \<not> Status_ok skip_status then (False, ReportDrop rd2 start skip_status) else (True, rd2)
         else (True, rd1))"

text \<open>
  The part of \<^verbatim>\<open>ReadPhysicalRecord\<close> behind the refill: it looks at a buffer that holds a header.
  A header byte is a signed \<^verbatim>\<open>char\<close>. The result is the type, the fragment and the reader.
\<close>

definition ParseRecord :: "'f log_Reader \<Rightarrow> byte list \<Rightarrow> 32 word \<times> byte list \<times> 'f log_Reader" where
  "ParseRecord rd result =
     (let header = lr_buffer rd;
          a = scast (header ! 4) AND 0xff :: 32 word;
          b = scast (header ! 5) AND 0xff :: 32 word;
          type = scast (header ! 6) :: 32 word;
          len = unat (a OR push_bit 8 b)
      in if length (lr_buffer rd) < kHeaderSize + len
         then let drop_size = of_nat (length (lr_buffer rd)); rd1 = rd\<lparr>lr_buffer := []\<rparr>
              in if \<not> lr_eof rd1
                 then (kBadRecord, result, ReportCorruption rd1 drop_size (ascii ''bad record length''))
                 else (kEof, result, rd1)
         else if type = ucast kZeroType \<and> len = 0 then (kBadRecord, result, rd\<lparr>lr_buffer := []\<rparr>)
         else if lr_checksum rd \<and>
              Value 0 (take (1 + len) (drop 6 header)) \<noteq> Unmask (DecodeFixed32 header)
         then let drop_size = of_nat (length (lr_buffer rd)); rd1 = rd\<lparr>lr_buffer := []\<rparr>
              in (kBadRecord, result, ReportCorruption rd1 drop_size (ascii ''checksum mismatch''))
         else let rd1 = rd\<lparr>lr_buffer := drop (kHeaderSize + len) (lr_buffer rd)\<rparr>
              in if lr_end_of_buffer_offset rd1 - of_nat (length (lr_buffer rd1)) - of_nat kHeaderSize - of_nat len
                    < lr_initial_offset rd1
                 then (kBadRecord, [], rd1)
                 else (type, take len (drop kHeaderSize header), rd1))"

function ReadPhysicalRecord ::
  "'f SequentialFile \<Rightarrow> 'f log_Reader \<Rightarrow> byte list \<Rightarrow> 32 word \<times> byte list \<times> 'f log_Reader" where
  "ReadPhysicalRecord file rd result =
     (if length (lr_buffer rd) < kHeaderSize
      then if \<not> lr_eof rd
           then let r = sf_Read file kBlockSize (lr_file rd);
                    rd1 = rd\<lparr>lr_file := snd (snd r), lr_buffer := fst (snd r),
                      lr_end_of_buffer_offset := lr_end_of_buffer_offset rd + of_nat (length (fst (snd r)))\<rparr>
                in if \<not> Status_ok (fst r)
                   then let rd2 = ReportDrop (rd1\<lparr>lr_buffer := []\<rparr>) (of_nat kBlockSize) (fst r)
                        in (kEof, result, rd2\<lparr>lr_eof := True\<rparr>)
                   else if length (lr_buffer rd1) < kBlockSize
                   then ReadPhysicalRecord file (rd1\<lparr>lr_eof := True\<rparr>) result
                   else ReadPhysicalRecord file rd1 result
           else (kEof, result, rd\<lparr>lr_buffer := []\<rparr>)
      else ParseRecord rd result)"
  by pat_completeness auto
termination
  by (relation "measure (\<lambda>(file, rd, result).
      (if length (lr_buffer rd) < kHeaderSize then 1 else 0) + (if lr_eof rd then 0 else 1))")
    (auto simp: kHeaderSize_def kBlockSize_def)

declare ReadPhysicalRecord.simps [simp del]

text \<open>
  The loop of \<^verbatim>\<open>ReadRecord\<close>; it may run as long as the file does. Its result is the boolean, the
  record, the scratch string and the reader.
\<close>

partial_function (option) ReadRecord_loop ::
  "'f SequentialFile \<Rightarrow> 'f log_Reader \<Rightarrow> byte list \<Rightarrow> byte list \<Rightarrow> byte list \<Rightarrow> bool \<Rightarrow> 64 word \<Rightarrow>
    (bool \<times> byte list \<times> byte list \<times> 'f log_Reader) option" where
  "ReadRecord_loop file rd record scratch fragment in_fragmented prospective =
     (let physical_record_offset = lr_end_of_buffer_offset rd - of_nat (length (lr_buffer rd));
          (type, fragment, rd) = ReadPhysicalRecord file rd fragment
      in if type = ucast kFullType
         then let rd1 = (if in_fragmented \<and> scratch \<noteq> []
                  then ReportCorruption rd (of_nat (length scratch)) (ascii ''partial record without end(1)'') else rd)
              in Some (True, fragment, [], rd1\<lparr>lr_last_record_offset := physical_record_offset\<rparr>)
         else if type = ucast kFirstType
         then let rd1 = (if in_fragmented \<and> scratch \<noteq> []
                  then ReportCorruption rd (of_nat (length scratch)) (ascii ''partial record without end(2)'') else rd)
              in ReadRecord_loop file rd1 record fragment fragment True physical_record_offset
         else if type = ucast kMiddleType
         then if \<not> in_fragmented
              then ReadRecord_loop file
                     (ReportCorruption rd (of_nat (length fragment)) (ascii ''missing start of fragmented record(1)''))
                     record scratch fragment in_fragmented prospective
              else ReadRecord_loop file rd record (scratch @ fragment) fragment in_fragmented prospective
         else if type = ucast kLastType
         then if \<not> in_fragmented
              then ReadRecord_loop file
                     (ReportCorruption rd (of_nat (length fragment)) (ascii ''missing start of fragmented record(2)''))
                     record scratch fragment in_fragmented prospective
              else Some (True, scratch @ fragment, scratch @ fragment, rd\<lparr>lr_last_record_offset := prospective\<rparr>)
         else if type = kEof
         then Some (False, record, if in_fragmented then [] else scratch, rd)
         else if type = kBadRecord
         then if in_fragmented
              then ReadRecord_loop file
                     (ReportCorruption rd (of_nat (length scratch)) (ascii ''error in middle of record''))
                     record [] fragment False prospective
              else ReadRecord_loop file rd record scratch fragment in_fragmented prospective
         else ReadRecord_loop file
                (ReportCorruption rd (of_nat (length fragment + (if in_fragmented then length scratch else 0)))
                  (take 39 (ascii ''unknown record type '' @ decimal (unat type))))
                record [] fragment False prospective)"

definition ReadRecord ::
  "'f SequentialFile \<Rightarrow> 'f log_Reader \<Rightarrow> byte list \<Rightarrow> byte list \<Rightarrow>
    (bool \<times> byte list \<times> byte list \<times> 'f log_Reader) option" where
  "ReadRecord file rd record scratch =
     (let (ok, rd1) = (if lr_last_record_offset rd < lr_initial_offset rd then SkipToInitialBlock file rd else (True, rd))
      in if \<not> ok then Some (False, record, scratch, rd1)
         else ReadRecord_loop file rd1 [] [] [] False 0)"

definition LastRecordOffset :: "'f log_Reader \<Rightarrow> 64 word" where
  "LastRecordOffset rd = lr_last_record_offset rd"

text \<open>
  The numbers of \<open>kEof\<close> and \<open>kBadRecord\<close> are also values of a header byte: a record that carries one
  of them, whole and with a good checksum, ends the reading of the log without a report, where any
  other unknown type is reported.
\<close>

lemma record_type_five_is_eof:
  "lr_buffer rd = [c0, c1, c2, c3, 0, 0, 5] @ rest \<Longrightarrow> lr_initial_offset rd = 0 \<Longrightarrow>
    lr_checksum rd \<longrightarrow> Value 0 [5] = Unmask (DecodeFixed32 [c0, c1, c2, c3]) \<Longrightarrow>
    ParseRecord rd result = (kEof, [], rd\<lparr>lr_buffer := rest\<rparr>)"
  by (auto simp: ParseRecord_def Let_def kHeaderSize_def kZeroType_def kEof_def kMaxRecordType_def kLastType_def
      DecodeFixed32_def kLittleEndian_def)

section \<open>The files\<close>

text \<open>The contracts the writer and the reader rely on.\<close>

locale writable_file =
  fixes ops :: "'f WritableFile" and contents :: "'f \<Rightarrow> byte list"
  assumes append_ok: "\<And>d f. Status_ok (fst (wf_Append ops d f))"
    and append_contents: "\<And>d f. contents (snd (wf_Append ops d f)) = contents f @ d"
    and flush_ok: "\<And>f. Status_ok (fst (wf_Flush ops f))"
    and flush_contents: "\<And>f. contents (snd (wf_Flush ops f)) = contents f"

locale sequential_file =
  fixes ops :: "'f SequentialFile" and unread :: "'f \<Rightarrow> byte list" and ready :: "'f \<Rightarrow> bool"
  assumes read_ok: "\<And>n f. ready f \<Longrightarrow> fst (sf_Read ops n f) = Status_OK"
    and read_data: "\<And>n f. ready f \<Longrightarrow> fst (snd (sf_Read ops n f)) = take n (unread f)"
    and read_rest: "\<And>n f. ready f \<Longrightarrow> unread (snd (snd (sf_Read ops n f))) = drop n (unread f)"
    and read_ready: "\<And>n f. ready f \<Longrightarrow> n \<le> length (unread f) \<Longrightarrow> ready (snd (snd (sf_Read ops n f)))"

text \<open>The in-memory files of the log test.\<close>

type_synonym StringDest = "byte list"

definition StringDest_file :: "StringDest WritableFile" where
  "StringDest_file = \<lparr>wf_Append = (\<lambda>d contents. (Status_OK, contents @ d)), wf_Flush = (\<lambda>contents. (Status_OK, contents))\<rparr>"

record StringSource =
  ss_contents :: "byte list"
  ss_force_error :: bool
  ss_returned_partial :: bool

definition StringSource_Read :: "nat \<Rightarrow> StringSource \<Rightarrow> Status \<times> byte list \<times> StringSource" where
  "StringSource_Read n src =
     (if ss_force_error src
      then (Status_Corruption (ascii ''read error'') [], [], src\<lparr>ss_force_error := False, ss_returned_partial := True\<rparr>)
      else let (n, src) = (if length (ss_contents src) < n
                 then (length (ss_contents src), src\<lparr>ss_returned_partial := True\<rparr>) else (n, src))
           in (Status_OK, take n (ss_contents src), src\<lparr>ss_contents := drop n (ss_contents src)\<rparr>))"

definition StringSource_Skip :: "64 word \<Rightarrow> StringSource \<Rightarrow> Status \<times> StringSource" where
  "StringSource_Skip n src =
     (if length (ss_contents src) < unat n
      then (Status_NotFound (ascii ''in-memory file skipepd past end'') [], src\<lparr>ss_contents := []\<rparr>)
      else (Status_OK, src\<lparr>ss_contents := drop (unat n) (ss_contents src)\<rparr>))"

definition StringSource_file :: "StringSource SequentialFile" where
  "StringSource_file = \<lparr>sf_Read = StringSource_Read, sf_Skip = StringSource_Skip\<rparr>"

interpretation string_dest: writable_file StringDest_file "\<lambda>f. f"
  by unfold_locales (simp_all add: StringDest_file_def Status_OK_def Status_ok_def)

interpretation string_source: sequential_file StringSource_file ss_contents
  "\<lambda>f. \<not> ss_force_error f \<and> \<not> ss_returned_partial f"
  by unfold_locales (auto simp: StringSource_file_def StringSource_Read_def Let_def split: if_splits)

section \<open>What the writer appends\<close>

text \<open>A physical record, and the zeros that may stand in front of it.\<close>

definition phys :: "byte \<Rightarrow> byte list \<Rightarrow> byte list" where
  "phys t data =
     EncodeFixed32 (Mask (Extend 0 0 (t # data))) @ [of_nat (length data), of_nat (length data div 256), t] @ data"

definition log_item :: "nat \<times> byte \<times> byte list \<Rightarrow> byte list" where
  "log_item = (\<lambda>(k, t, data). replicate k 0 @ phys t data)"

text \<open>The fragments of a record that is appended at offset \<open>off\<close> of a block.\<close>

function fragments :: "nat \<Rightarrow> bool \<Rightarrow> byte list \<Rightarrow> (nat \<times> byte \<times> byte list) list" where
  "fragments off first data =
     (let k = (if kBlockSize < off + kHeaderSize then kBlockSize - off else 0);
          start = (if kBlockSize < off + kHeaderSize then 0 else off);
          avail = kBlockSize - kHeaderSize - start
      in if length data \<le> avail then [(k, fragment_type first True, data)]
         else (k, fragment_type first False, take avail data) #
           fragments (start + kHeaderSize + avail) False (drop avail data))"
  by pat_completeness auto
termination
  by (relation "measure (\<lambda>(off, first, data). 2 * length data + (if off = 32761 then 1 else 0))")
    (auto simp: kBlockSize_def kHeaderSize_def)

declare fragments.simps [simp del]

text \<open>The offset in the block behind them.\<close>

definition item_end :: "nat \<Rightarrow> nat \<times> byte \<times> byte list \<Rightarrow> nat" where
  "item_end off = (\<lambda>(k, t, data). (if kBlockSize < off + kHeaderSize then 0 else off) + kHeaderSize + length data)"

definition items_end :: "nat \<Rightarrow> (nat \<times> byte \<times> byte list) list \<Rightarrow> nat" where
  "items_end off xs = fold (\<lambda>x off. item_end off x) xs off"

definition writer_at :: "'f log_Writer \<Rightarrow> nat \<Rightarrow> bool" where
  "writer_at w off \<longleftrightarrow> off \<le> kBlockSize \<and> lw_block_offset w = int off \<and>
     lw_type_crc w = map (\<lambda>i. Value 0 [of_nat i]) [0..<unat kMaxRecordType + 1]"

lemma phys_crc:
  assumes "length data < 65536"
  shows "Extend (Value 0 [t]) 0 data = Extend 0 0 (t # data)"
  using Extend_append [of 0 "[t]" 0 data 0 0] assms by (simp add: Value_def)

lemma length_bytes:
  assumes "n < 65536"
  shows "ucast ((of_nat n :: 64 word) AND 0xff) = (of_nat n :: byte)"
    "ucast (drop_bit 8 (of_nat n :: 64 word)) = (of_nat (n div 256) :: byte)"
proof -
  have "(of_nat n :: 64 word) AND 0xff = take_bit 8 (of_nat n)"
    by (simp add: take_bit_eq_mask mask_eq_exp_minus_1)
  then show "ucast ((of_nat n :: 64 word) AND 0xff) = (of_nat n :: byte)"
    by (intro word_unat_eq_iff [THEN iffD2])
      (use assms in \<open>simp add: unsigned_ucast_eq unsigned_take_bit_eq unat_of_nat take_bit_nat_eq_self, simp add: take_bit_eq_mod\<close>)
  have "unat (drop_bit 8 (of_nat n :: 64 word)) = n div 256"
    using assms by (simp add: drop_bit_eq_div unat_div unat_of_nat take_bit_nat_eq_self)
  then show "ucast (drop_bit 8 (of_nat n :: 64 word)) = (of_nat (n div 256) :: byte)"
    by (metis of_nat_unat)
qed

lemma type_crc_nth:
  assumes "writer_at w off" "t \<le> kMaxRecordType"
  shows "lw_type_crc w ! unat t = Value 0 [t]"
proof -
  have "unat t < unat kMaxRecordType + 1" using assms(2) by (simp add: word_le_nat_alt)
  then show ?thesis using assms(1) by (simp add: writer_at_def del: upt_Suc)
qed

context writable_file
begin

lemma Emit_writes:
  assumes "writer_at w off" "t \<le> kMaxRecordType" "length data < 65536"
  shows "Status_ok (fst (EmitPhysicalRecord ops w t data))"
    "contents (lw_dest (snd (EmitPhysicalRecord ops w t data))) = contents (lw_dest w) @ phys t data"
    "lw_type_crc (snd (EmitPhysicalRecord ops w t data)) = lw_type_crc w"
  using assms append_ok append_contents flush_ok flush_contents
  by (simp_all add: EmitPhysicalRecord_def Let_def case_prod_beta phys_def length_bytes phys_crc type_crc_nth)

lemma switch_block_writes:
  assumes "writer_at w off"
  defines "k \<equiv> if kBlockSize < off + kHeaderSize then kBlockSize - off else 0"
  shows "contents (lw_dest (switch_block ops w)) = contents (lw_dest w) @ replicate k 0"
    "writer_at (switch_block ops w) (if kBlockSize < off + kHeaderSize then 0 else off)"
proof -
  have "k \<le> 6" using assms(1) by (auto simp: k_def kHeaderSize_def writer_at_def)
  then have "take k (replicate 6 (0 :: byte)) = replicate k 0" by (simp add: min_def)
  moreover have "nat (int kBlockSize - int off) = kBlockSize - off" by simp
  ultimately show "contents (lw_dest (switch_block ops w)) = contents (lw_dest w) @ replicate k 0"
    using assms append_contents by (auto simp: switch_block_def Let_def writer_at_def k_def)
  show "writer_at (switch_block ops w) (if kBlockSize < off + kHeaderSize then 0 else off)"
    using assms(1) by (auto simp: switch_block_def Let_def writer_at_def)
qed

lemma fragment_type_le: "fragment_type a b \<le> kMaxRecordType"
  by (simp add: fragment_type_def kMaxRecordType_def kLastType_def kFullType_def kFirstType_def kMiddleType_def)

lemma AddRecord_loop_writes:
  "writer_at w off \<Longrightarrow>
    Status_ok (fst (AddRecord_loop ops w first data)) \<and>
    contents (lw_dest (snd (AddRecord_loop ops w first data))) =
      contents (lw_dest w) @ concat (map log_item (fragments off first data)) \<and>
    writer_at (snd (AddRecord_loop ops w first data)) (items_end off (fragments off first data))"
proof (induction off first data arbitrary: w rule: fragments.induct)
  case (1 off first data)
  define k where "k = (if kBlockSize < off + kHeaderSize then kBlockSize - off else 0)"
  define start where "start = (if kBlockSize < off + kHeaderSize then 0 else off)"
  define avail where "avail = kBlockSize - kHeaderSize - start"
  define w1 where "w1 = switch_block ops w"
  have w1: "writer_at w1 start" "contents (lw_dest w1) = contents (lw_dest w) @ replicate k 0"
    using switch_block_writes [OF 1(2)] by (simp_all add: w1_def start_def k_def)
  have start: "start + kHeaderSize \<le> kBlockSize" by (auto simp: start_def kBlockSize_def kHeaderSize_def)
  have av: "log_avail w1 = avail"
    using w1(1) by (auto simp: log_avail_def writer_at_def avail_def)
  have small: "avail < 65536" by (simp add: avail_def kBlockSize_def)
  have next_at: "writer_at (snd (EmitPhysicalRecord ops w1 t d)) (start + kHeaderSize + length d)"
    if "length d \<le> avail" "t \<le> kMaxRecordType" for t d
    using w1(1) Emit_writes(3) [OF w1(1) that(2)] that(1) small start
    by (auto simp: writer_at_def avail_def kHeaderSize_def)
  show ?case
  proof (cases "length data \<le> avail")
    case True
    let ?t = "fragment_type first True"
    have "AddRecord_loop ops w first data = EmitPhysicalRecord ops w1 ?t data"
      using True by (subst AddRecord_loop.simps) (auto simp: Let_def w1_def [symmetric] av)
    moreover have "fragments off first data = [(k, ?t, data)]"
      using True by (subst fragments.simps) (simp add: Let_def k_def start_def avail_def)
    ultimately show ?thesis
      using Emit_writes [OF w1(1) fragment_type_le, of data first True] next_at [OF True fragment_type_le] w1(2) True small
      by (simp add: log_item_def items_end_def item_end_def start_def)
  next
    case False
    let ?t = "fragment_type first False" and ?d = "take avail data"
    let ?r = "EmitPhysicalRecord ops w1 ?t ?d"
    have d: "length ?d = avail" using False by simp
    have frag: "fragments off first data =
        (k, ?t, ?d) # fragments (start + kHeaderSize + avail) False (drop avail data)"
      using False by (subst fragments.simps) (simp add: Let_def k_def start_def avail_def)
    have emit: "Status_ok (fst ?r)" "contents (lw_dest (snd ?r)) = contents (lw_dest w1) @ phys ?t ?d"
      using Emit_writes [OF w1(1) fragment_type_le, of ?d first False] d small by simp_all
    have loop: "AddRecord_loop ops w first data = AddRecord_loop ops (snd ?r) False (drop avail data)"
      using False emit(1) by (subst AddRecord_loop.simps) (auto simp: Let_def w1_def [symmetric] av)
    have at: "writer_at (snd ?r) (start + kHeaderSize + avail)"
      using next_at [of ?d ?t] fragment_type_le d by simp
    from 1(1) [OF k_def start_def avail_def False at] show ?thesis
      using loop frag emit w1(2)
      by (simp add: k_def [symmetric] start_def [symmetric] avail_def [symmetric] log_item_def items_end_def
          item_end_def d [unfolded length_take])
  qed
qed

end

section \<open>A physical record is parsed back\<close>

lemma scast_low: "(scast (x :: byte) :: 32 word) AND 0xff = ucast x"
proof (rule bit_word_eqI)
  fix n assume "n < LENGTH(32)"
  then show "bit ((scast x :: 32 word) AND 0xff) n = bit (ucast x :: 32 word) n"
    by (cases "n < 7"; cases "n = 7") (auto simp: bit_low_byte bit_byte bit_signed_iff min_def dest: bit_imp_le_length)
qed

lemma scast_small: "t \<le> kMaxRecordType \<Longrightarrow> (scast t :: 32 word) = ucast t"
proof -
  assume "t \<le> kMaxRecordType"
  then have "unat t < 5"
    by (simp add: word_le_nat_alt kMaxRecordType_def kLastType_def)
  then have "t \<in> {0, 1, 2, 3, 4}"
    by (simp add: word_unat_eq_iff) linarith
  then show ?thesis by auto
qed

lemma length_field:
  assumes "n < 65536"
  shows "unat ((ucast (of_nat n :: byte) :: 32 word) OR push_bit 8 (ucast (of_nat (n div 256) :: byte))) = n"
proof -
  let ?a = "ucast (of_nat n :: byte) :: 32 word" and ?b = "ucast (of_nat (n div 256) :: byte) :: 32 word"
  have a: "unat ?a = n mod 256" by (simp add: unat_ucast_up unat_of_nat take_bit_eq_mod)
  have b: "unat ?b = n div 256" using assms by (simp add: unat_ucast_up unat_of_nat take_bit_nat_eq_self)
  have "?a AND push_bit 8 ?b = 0"
    by (rule bit_word_eqI) (auto simp: bit_and_iff bit_push_bit_iff bit_byte dest: bit_imp_le_length)
  then have "?a OR push_bit 8 ?b = ?a + push_bit 8 ?b" by (simp add: disjunctive_add_eq_or)
  moreover have "unat (push_bit 8 ?b) = n div 256 * 256"
    using assms by (simp add: push_bit_eq_mult unat_word_ariths b)
  ultimately show ?thesis using assms by (simp add: unat_word_ariths a)
qed

lemma length_phys [simp]: "length (phys t data) = 7 + length data"
  by (simp add: phys_def)

lemma ParseRecord_phys:
  assumes buf: "lr_buffer rd = phys t data @ rest" and n: "length data < 65536"
    and t: "t \<le> kMaxRecordType" "t \<noteq> kZeroType" and init: "lr_initial_offset rd = 0"
  shows "ParseRecord rd result = (ucast t, data, rd\<lparr>lr_buffer := rest\<rparr>)"
proof -
  have h: "lr_buffer rd ! 4 = of_nat (length data)" "lr_buffer rd ! 5 = of_nat (length data div 256)"
    "lr_buffer rd ! 6 = t" "drop 6 (lr_buffer rd) = t # data @ rest" "drop kHeaderSize (lr_buffer rd) = data @ rest"
    unfolding buf phys_def by (simp_all add: nth_append kHeaderSize_def)
  have d: "Unmask (DecodeFixed32 (lr_buffer rd)) = Value 0 (t # data)"
    unfolding buf phys_def by (simp add: Unmask_Mask Value_def)
  have "(ucast t :: 32 word) \<noteq> ucast kZeroType"
    using t(2) by (simp add: word_unat_eq_iff unat_ucast_up kZeroType_def)
  then show ?thesis
    unfolding ParseRecord_def Let_def h d scast_low length_field [OF n] scast_small [OF t(1)]
    by (simp add: buf init kHeaderSize_def)
qed

section \<open>The reader follows the blocks\<close>

text \<open>
  The reader stands at offset \<open>off\<close> of a block with \<open>rest\<close> still to come: its buffer ends where
  the block does, or where the file does after a short read.
\<close>

definition reader_at :: "('f \<Rightarrow> byte list) \<Rightarrow> ('f \<Rightarrow> bool) \<Rightarrow> 'f log_Reader \<Rightarrow> byte list \<Rightarrow> nat \<Rightarrow> bool" where
  "reader_at unread ready rd rest off \<longleftrightarrow>
     off \<le> kBlockSize \<and> lr_initial_offset rd = 0 \<and> lr_buffer rd @ unread (lr_file rd) = rest \<and>
     (if lr_eof rd then unread (lr_file rd) = [] \<and> off mod kBlockSize + length (lr_buffer rd) < kBlockSize
      else ready (lr_file rd) \<and>
        (lr_buffer rd = [] \<and> off mod kBlockSize = 0 \<or> off mod kBlockSize + length (lr_buffer rd) = kBlockSize))"

definition same_reports :: "'f log_Reader \<Rightarrow> 'f log_Reader \<Rightarrow> bool" where
  "same_reports rd rd' \<longleftrightarrow> lr_reports rd' = lr_reports rd"

lemma prefix_of_append:
  assumes "b @ u = x @ y" "length x \<le> length b"
  obtains b' where "b = x @ b'" "b' @ u = y"
  using assms by (metis append_eq_append_conv_if append_take_drop_id append_assoc append_eq_append_conv)

context sequential_file
begin

lemma read_from_buffer:
  assumes at: "reader_at unread ready rd (phys t data @ later) off" and buf: "kHeaderSize \<le> length (lr_buffer rd)"
    and fits: "off + kHeaderSize + length data \<le> kBlockSize" and t: "t \<le> kMaxRecordType" "t \<noteq> kZeroType"
  shows "\<exists>rd'. ReadPhysicalRecord ops rd result = (ucast t, data, rd') \<and>
    reader_at unread ready rd' later (off + kHeaderSize + length data) \<and> same_reports rd rd'"
proof -
  have off: "off mod kBlockSize = off" using fits by (simp add: kHeaderSize_def)
  have "length (phys t data) \<le> length (lr_buffer rd)"
  proof (cases "lr_eof rd")
    case True
    then have "lr_buffer rd = phys t data @ later" using at by (auto simp: reader_at_def)
    then show ?thesis by simp
  next
    case False
    then have "off + length (lr_buffer rd) = kBlockSize" using at off buf by (auto simp: reader_at_def kHeaderSize_def)
    then show ?thesis using fits by (simp add: kHeaderSize_def)
  qed
  moreover have "lr_buffer rd @ unread (lr_file rd) = phys t data @ later" using at by (simp add: reader_at_def)
  ultimately obtain b' where b': "lr_buffer rd = phys t data @ b'" "b' @ unread (lr_file rd) = later"
    by (blast elim: prefix_of_append)
  have "length data < 65536" using fits by (simp add: kBlockSize_def)
  then have "ReadPhysicalRecord ops rd result = (ucast t, data, rd\<lparr>lr_buffer := b'\<rparr>)"
    using ParseRecord_phys [OF b'(1) _ t] at buf
    by (subst ReadPhysicalRecord.simps) (simp add: reader_at_def)
  moreover have "reader_at unread ready (rd\<lparr>lr_buffer := b'\<rparr>) later (off + kHeaderSize + length data)"
  proof -
    let ?off = "off + kHeaderSize + length data"
    have len: "length (lr_buffer rd) = kHeaderSize + length data + length b'" using b'(1) by (simp add: kHeaderSize_def)
    then have inv: "if lr_eof rd then unread (lr_file rd) = [] \<and> ?off + length b' < kBlockSize
        else ready (lr_file rd) \<and> ?off + length b' = kBlockSize"
      using at off buf by (auto simp: reader_at_def kHeaderSize_def split: if_splits)
    show ?thesis
    proof (cases "?off = kBlockSize")
      case True
      then have "b' = []" "\<not> lr_eof rd" using inv by (auto split: if_splits)
      then show ?thesis using True inv b'(2) at by (simp add: reader_at_def)
    next
      case False
      then have "?off mod kBlockSize = ?off" using fits by simp
      then show ?thesis using inv b'(2) at fits by (simp add: reader_at_def)
    qed
  qed
  ultimately show ?thesis by (auto simp: same_reports_def)
qed

lemma refill:
  assumes at: "reader_at unread ready rd (replicate k 0 @ x) off" and buf: "length (lr_buffer rd) < kHeaderSize"
    and k: "k = (if kBlockSize < off + kHeaderSize then kBlockSize - off else 0)" and x: "kHeaderSize \<le> length x"
  shows "\<exists>rd'. ReadPhysicalRecord ops rd result = ReadPhysicalRecord ops rd' result \<and>
    reader_at unread ready rd' x 0 \<and> kHeaderSize \<le> length (lr_buffer rd') \<and> same_reports rd rd'"
proof -
  have sizes: "kHeaderSize \<le> kBlockSize" "0 < kBlockSize" "0 < kHeaderSize" by (simp_all add: kHeaderSize_def kBlockSize_def)
  have rest: "lr_buffer rd @ unread (lr_file rd) = replicate k 0 @ x" using at by (simp add: reader_at_def)
  have eof: "\<not> lr_eof rd"
  proof
    assume "lr_eof rd"
    then have "lr_buffer rd = replicate k 0 @ x" using at by (auto simp: reader_at_def)
    then show False using x buf by simp
  qed
  then have ready: "ready (lr_file rd)" using at by (simp add: reader_at_def)
  have "length (lr_buffer rd) = k"
  proof (cases "lr_buffer rd = [] \<and> off mod kBlockSize = 0")
    case True
    then have "off = 0 \<or> off = kBlockSize" using at by (auto simp: reader_at_def elim!: dvdE)
    then show ?thesis using True k by (auto simp: kBlockSize_def kHeaderSize_def)
  next
    case False
    then have full: "off mod kBlockSize + length (lr_buffer rd) = kBlockSize" using at eof by (auto simp: reader_at_def)
    moreover have "off \<noteq> kBlockSize" using full buf sizes by auto
    ultimately have "off mod kBlockSize = off" using at by (simp add: reader_at_def)
    then show ?thesis using full buf k by auto
  qed
  then have x': "unread (lr_file rd) = x" using rest by (metis append_eq_append_conv length_replicate)
  let ?r = "sf_Read ops kBlockSize (lr_file rd)"
  let ?rd1 = "rd\<lparr>lr_file := snd (snd ?r), lr_buffer := fst (snd ?r),
      lr_end_of_buffer_offset := lr_end_of_buffer_offset rd + of_nat (length (fst (snd ?r)))\<rparr>"
  let ?rd' = "if length x < kBlockSize then ?rd1\<lparr>lr_eof := True\<rparr> else ?rd1"
  have r: "fst ?r = Status_OK" "fst (snd ?r) = take kBlockSize x" "unread (snd (snd ?r)) = drop kBlockSize x"
    using read_ok [OF ready] read_data [OF ready] read_rest [OF ready] by (simp_all add: x')
  have "ReadPhysicalRecord ops rd result = ReadPhysicalRecord ops ?rd' result"
    using buf eof r by (subst ReadPhysicalRecord.simps) (simp add: Let_def Status_ok_def Status_OK_def)
  moreover have "reader_at unread ready ?rd' x 0"
    using at eof r read_ready [OF ready, of kBlockSize] x' by (auto simp: reader_at_def)
  moreover have "kHeaderSize \<le> length (lr_buffer ?rd')" using r(2) x sizes by simp
  ultimately show ?thesis by (intro exI [of _ ?rd']) (auto simp: same_reports_def)
qed

lemma read_item:
  assumes at: "reader_at unread ready rd (log_item (k, t, data) @ later) off"
    and k: "k = (if kBlockSize < off + kHeaderSize then kBlockSize - off else 0)"
    and fits: "item_end off (k, t, data) \<le> kBlockSize" and t: "t \<le> kMaxRecordType" "t \<noteq> kZeroType"
  shows "\<exists>rd'. ReadPhysicalRecord ops rd result = (ucast t, data, rd') \<and>
    reader_at unread ready rd' later (item_end off (k, t, data)) \<and> same_reports rd rd'"
proof (cases "length (lr_buffer rd) < kHeaderSize")
  case True
  have at': "reader_at unread ready rd (replicate k 0 @ phys t data @ later) off" using at by (simp add: log_item_def)
  obtain rd1 where rd1: "ReadPhysicalRecord ops rd result = ReadPhysicalRecord ops rd1 result"
    "reader_at unread ready rd1 (phys t data @ later) 0" "kHeaderSize \<le> length (lr_buffer rd1)" "same_reports rd rd1"
    using refill [OF at' True k] by (auto simp: kHeaderSize_def)
  have len: "kHeaderSize + length data \<le> kBlockSize" using fits by (auto simp: item_end_def split: if_splits)
  obtain rd2 where rd2: "ReadPhysicalRecord ops rd1 result = (ucast t, data, rd2)"
    "reader_at unread ready rd2 later (kHeaderSize + length data)" "same_reports rd1 rd2"
    using read_from_buffer [OF rd1(2,3) _ t] len by auto
  have "reader_at unread ready rd2 later (item_end off (k, t, data))"
  proof (cases "kBlockSize < off + kHeaderSize")
    case True
    then show ?thesis using rd2(2) by (simp add: item_end_def)
  next
    case False
    text \<open>The buffer was empty, so \<open>off\<close> is a block boundary.\<close>
    have "off mod kBlockSize = off" using False by (simp add: kHeaderSize_def)
    moreover have "\<not> lr_eof rd"
      using at' True by (auto simp: reader_at_def kHeaderSize_def)
    ultimately have "off = 0"
      using at \<open>length (lr_buffer rd) < kHeaderSize\<close> False by (auto simp: reader_at_def)
    then show ?thesis using rd2(2) False by (simp add: item_end_def)
  qed
  then show ?thesis using rd1 rd2 by (auto simp: same_reports_def)
next
  case False
  show ?thesis
  proof (cases "off = kBlockSize")
    case True
    then have "reader_at unread ready rd (phys t data @ later) 0" "kHeaderSize + length data \<le> kBlockSize"
      using at k fits by (auto simp: reader_at_def log_item_def item_end_def kHeaderSize_def split: if_splits)
    then show ?thesis
      using read_from_buffer [of rd t data later 0] False t True by (simp add: item_end_def kHeaderSize_def)
  next
    case ne: False
    then have "off mod kBlockSize = off" using at by (simp add: reader_at_def)
    then have "\<not> kBlockSize < off + kHeaderSize"
      using at False by (auto simp: reader_at_def kHeaderSize_def split: if_splits)
    then have "k = 0" "off + kHeaderSize + length data \<le> kBlockSize"
      "item_end off (k, t, data) = off + kHeaderSize + length data"
      using k fits by (simp_all add: item_end_def)
    then show ?thesis using read_from_buffer [of rd t data later off] at False t by (simp add: log_item_def)
  qed
qed

lemma read_end:
  assumes at: "reader_at unread ready rd [] off"
  shows "\<exists>rd'. ReadPhysicalRecord ops rd result = (kEof, result, rd') \<and> same_reports rd rd'"
proof -
  have buf: "lr_buffer rd = []" "unread (lr_file rd) = []" using at by (simp_all add: reader_at_def)
  have eof: "\<exists>rd'. ReadPhysicalRecord ops r result = (kEof, result, rd') \<and> same_reports r rd'"
    if "lr_eof r" "lr_buffer r = []" for r :: "'f log_Reader"
    using that by (subst ReadPhysicalRecord.simps) (simp add: same_reports_def kHeaderSize_def)
  show ?thesis
  proof (cases "lr_eof rd")
    case True
    then show ?thesis using eof buf(1) by blast
  next
    case False
    then have ready: "ready (lr_file rd)" using at by (simp add: reader_at_def)
    let ?r = "sf_Read ops kBlockSize (lr_file rd)"
    let ?rd1 = "rd\<lparr>lr_file := snd (snd ?r), lr_buffer := [], lr_end_of_buffer_offset := lr_end_of_buffer_offset rd, lr_eof := True\<rparr>"
    have "ReadPhysicalRecord ops rd result = ReadPhysicalRecord ops ?rd1 result"
      using False buf read_ok [OF ready] read_data [OF ready]
      by (subst ReadPhysicalRecord.simps)
        (simp add: Let_def Status_ok_def Status_OK_def kHeaderSize_def kBlockSize_def)
    moreover obtain rd' where "ReadPhysicalRecord ops ?rd1 result = (kEof, result, rd')" "same_reports ?rd1 rd'"
      using eof [of ?rd1] by auto
    ultimately show ?thesis by (auto simp: same_reports_def)
  qed
qed

text \<open>The fragments of a record are put together.\<close>

lemma record_types:
  "(ucast kFirstType :: 32 word) \<noteq> ucast kFullType" "(ucast kMiddleType :: 32 word) \<noteq> ucast kFullType"
  "(ucast kMiddleType :: 32 word) \<noteq> ucast kFirstType" "(ucast kLastType :: 32 word) \<noteq> ucast kFullType"
  "(ucast kLastType :: 32 word) \<noteq> ucast kFirstType" "(ucast kLastType :: 32 word) \<noteq> ucast kMiddleType"
  "kEof \<noteq> ucast kFullType" "kEof \<noteq> ucast kFirstType" "kEof \<noteq> ucast kMiddleType" "kEof \<noteq> ucast kLastType"
  by (simp_all add: kFullType_def kFirstType_def kMiddleType_def kLastType_def kEof_def kMaxRecordType_def)

lemma fragment_type_ok: "fragment_type a b \<le> kMaxRecordType" "fragment_type a b \<noteq> kZeroType"
  by (simp_all add: fragment_type_def kMaxRecordType_def kLastType_def kFullType_def kFirstType_def kMiddleType_def kZeroType_def)

lemma read_fragments:
  "reader_at unread ready rd (concat (map log_item (fragments off first data)) @ later) off \<Longrightarrow> (first \<Longrightarrow> acc = []) \<Longrightarrow>
    \<exists>rd' scratch. ReadRecord_loop ops rd rcd acc frag (\<not> first) pro = Some (True, acc @ data, scratch, rd') \<and>
      reader_at unread ready rd' later (items_end off (fragments off first data)) \<and> same_reports rd rd'"
proof (induction off first data arbitrary: rd acc frag pro rcd rule: fragments.induct)
  case (1 off first data)
  define k where "k = (if kBlockSize < off + kHeaderSize then kBlockSize - off else 0)"
  define start where "start = (if kBlockSize < off + kHeaderSize then 0 else off)"
  define avail where "avail = kBlockSize - kHeaderSize - start"
  have start: "start + kHeaderSize \<le> kBlockSize" by (auto simp: start_def kBlockSize_def kHeaderSize_def)
  show ?case
  proof (cases "length data \<le> avail")
    case True
    let ?t = "fragment_type first True"
    have frag: "fragments off first data = [(k, ?t, data)]"
      using True by (subst fragments.simps) (simp add: Let_def k_def start_def avail_def)
    have "item_end off (k, ?t, data) \<le> kBlockSize"
      using True start by (simp add: item_end_def start_def [symmetric] avail_def)
    then obtain rd' where rd': "ReadPhysicalRecord ops rd frag = (ucast ?t, data, rd')"
      "reader_at unread ready rd' later (item_end off (k, ?t, data))" "same_reports rd rd'"
      using read_item [OF _ k_def _ fragment_type_ok] 1(2) unfolding frag by fastforce
    have at: "reader_at unread ready (rd'\<lparr>lr_last_record_offset := x\<rparr>) later (items_end off (fragments off first data))" for x
      using rd'(2) by (simp add: frag items_end_def reader_at_def)
    show ?thesis
      using rd'(1,3) at 1(3) record_types
      by (cases first; subst ReadRecord_loop.simps) (auto simp: fragment_type_def Let_def same_reports_def)
  next
    case False
    let ?t = "fragment_type first False" and ?d = "take avail data"
    have frag: "fragments off first data =
        (k, ?t, ?d) # fragments (start + kHeaderSize + avail) False (drop avail data)"
      using False by (subst fragments.simps) (simp add: Let_def k_def start_def avail_def)
    have e: "item_end off (k, ?t, ?d) = start + kHeaderSize + avail"
      using False by (simp add: item_end_def start_def [symmetric])
    then have "item_end off (k, ?t, ?d) \<le> kBlockSize" using start by (simp add: avail_def)
    moreover have "reader_at unread ready rd (log_item (k, ?t, ?d) @
        concat (map log_item (fragments (start + kHeaderSize + avail) False (drop avail data))) @ later) off"
      using 1(2) by (simp add: frag)
    ultimately obtain rd' where rd': "ReadPhysicalRecord ops rd frag = (ucast ?t, ?d, rd')"
      "reader_at unread ready rd' (concat (map log_item (fragments (start + kHeaderSize + avail) False (drop avail data))) @ later)
        (start + kHeaderSize + avail)" "same_reports rd rd'"
      using read_item [OF _ k_def _ fragment_type_ok, of rd first False ?d] unfolding e by blast
    have ih: "\<exists>rd'' scratch. ReadRecord_loop ops rd' rcd acc' frag' True pro' =
        Some (True, acc' @ drop avail data, scratch, rd'') \<and>
        reader_at unread ready rd'' later (items_end off (fragments off first data)) \<and> same_reports rd' rd''"
      for acc' frag' pro'
      using 1(1) [OF k_def start_def avail_def False rd'(2), of acc' rcd frag' pro'] frag e
      by (simp add: items_end_def)
    show ?thesis
    proof (cases first)
      case True
      have "ReadRecord_loop ops rd rcd acc frag (\<not> first) pro =
          ReadRecord_loop ops rd' rcd ?d ?d True (lr_end_of_buffer_offset rd - of_nat (length (lr_buffer rd)))"
        using rd'(1) True record_types by (subst ReadRecord_loop.simps) (simp add: fragment_type_def Let_def)
      then show ?thesis using ih [of ?d ?d] rd'(3) 1(3) True by (auto simp: same_reports_def)
    next
      case nf: False
      have "ReadRecord_loop ops rd rcd acc frag (\<not> first) pro = ReadRecord_loop ops rd' rcd (acc @ ?d) ?d True pro"
        using rd'(1) nf record_types by (subst ReadRecord_loop.simps) (simp add: fragment_type_def Let_def)
      then show ?thesis using ih [of "acc @ ?d" ?d pro] rd'(3) by (auto simp: same_reports_def)
    qed
  qed
qed

text \<open>A file that ends within an item is at its end there.\<close>

lemma ParseRecord_cut:
  assumes buf: "lr_buffer rd = take n (phys t data)" "7 \<le> n" "n < 7 + length data" and len: "length data < 65536"
    and eof: "lr_eof rd"
  shows "ParseRecord rd result = (kEof, result, rd\<lparr>lr_buffer := []\<rparr>)"
proof -
  have h: "lr_buffer rd ! 4 = of_nat (length data)" "lr_buffer rd ! 5 = of_nat (length data div 256)"
    unfolding buf(1) phys_def using buf(2) by (simp_all add: nth_append)
  have "length (lr_buffer rd) < kHeaderSize + length data" using buf by (simp add: kHeaderSize_def min_def)
  then show ?thesis
    unfolding ParseRecord_def Let_def h scast_low length_field [OF len] using eof by simp
qed

lemma read_cut_buffer:
  assumes buf: "lr_buffer rd = take n (phys t data)" "n < 7 + length data" and len: "length data < 65536"
    and eof: "lr_eof rd"
  shows "\<exists>rd'. ReadPhysicalRecord ops rd result = (kEof, result, rd') \<and> same_reports rd rd'"
proof (cases "7 \<le> n")
  case True
  then have "\<not> length (lr_buffer rd) < kHeaderSize" using buf by (simp add: kHeaderSize_def)
  then show ?thesis
    using ParseRecord_cut [OF buf(1) True buf(2) len eof]
    by (subst ReadPhysicalRecord.simps) (simp add: same_reports_def)
next
  case False
  then show ?thesis using buf eof by (subst ReadPhysicalRecord.simps) (simp add: same_reports_def kHeaderSize_def)
qed

lemma read_item_cut:
  assumes at: "reader_at unread ready rd (take n (log_item (k, t, data))) off" and n: "n < k + 7 + length data"
    and k: "k = (if kBlockSize < off + kHeaderSize then kBlockSize - off else 0)"
    and fits: "item_end off (k, t, data) \<le> kBlockSize"
  shows "\<exists>rd'. ReadPhysicalRecord ops rd result = (kEof, result, rd') \<and> same_reports rd rd'"
proof -
  have len: "length data < 65536" "7 + length data \<le> kBlockSize"
    using fits by (auto simp: item_end_def kBlockSize_def kHeaderSize_def split: if_splits)
  have rest: "lr_buffer rd @ unread (lr_file rd) = take n (replicate k 0 @ phys t data)"
    using at by (simp add: reader_at_def log_item_def)
  then have total: "length (lr_buffer rd) + length (unread (lr_file rd)) = n"
    using n by (metis (no_types, lifting) add.assoc length_append length_phys length_replicate length_take less_imp_le min.absorb2)
  show ?thesis
  proof (cases "lr_eof rd")
    case eof: True
    show ?thesis
    proof (cases "length (lr_buffer rd) < kHeaderSize")
      case True
      then show ?thesis using eof by (subst ReadPhysicalRecord.simps) (simp add: same_reports_def)
    next
      case False
      then have "k = 0" using at eof k
        by (cases "off = kBlockSize") (auto simp: reader_at_def)
      then show ?thesis
        using read_cut_buffer [of rd n t data] rest at eof n len by (auto simp: reader_at_def)
    qed
  next
    case False
    then have ready: "ready (lr_file rd)"
      and pos: "lr_buffer rd = [] \<and> off mod kBlockSize = 0 \<or> off mod kBlockSize + length (lr_buffer rd) = kBlockSize"
      and off: "off \<le> kBlockSize" using at by (auto simp: reader_at_def)
    have small: "length (lr_buffer rd) < kHeaderSize \<and> length (lr_buffer rd) = k"
    proof (cases "lr_buffer rd = [] \<and> off mod kBlockSize = 0")
      case True
      then have "off = 0 \<or> off = kBlockSize" using off by (auto elim!: dvdE)
      then show ?thesis using True k by (auto simp: kBlockSize_def kHeaderSize_def)
    next
      case False
      then have full: "off mod kBlockSize + length (lr_buffer rd) = kBlockSize" using pos by blast
      have ne: "off \<noteq> kBlockSize"
      proof
        assume "off = kBlockSize"
        then have "length (lr_buffer rd) = kBlockSize" "k = 0" using full k by simp_all
        then show False using total n len(2) by simp
      qed
      then have m: "off mod kBlockSize = off" using off by simp
      have "kBlockSize < off + kHeaderSize"
      proof (rule ccontr)
        assume less: "\<not> kBlockSize < off + kHeaderSize"
        then have "k = 0" "off + 7 + length data \<le> kBlockSize" using k fits by (simp_all add: item_end_def kHeaderSize_def)
        then show False using total n full m by simp
      qed
      then show ?thesis using full m k by auto
    qed
    then have x: "unread (lr_file rd) = take (n - k) (phys t data)"
      using rest by (metis (no_types, lifting) append_eq_append_conv length_replicate length_take min.absorb2 take_append total le_add1 take_all_iff)
    let ?r = "sf_Read ops kBlockSize (lr_file rd)" and ?x = "take (n - k) (phys t data)"
    have short: "length ?x < kBlockSize" using n len by auto
    have "fst (snd ?r) = take kBlockSize ?x" by (simp only: read_data [OF ready] x)
    then have r: "fst ?r = Status_OK" "fst (snd ?r) = ?x"
      using read_ok [OF ready] short by (simp_all only: take_all less_imp_le)
    let ?rd1 = "rd\<lparr>lr_file := snd (snd ?r), lr_buffer := ?x,
        lr_end_of_buffer_offset := lr_end_of_buffer_offset rd + of_nat (length ?x), lr_eof := True\<rparr>"
    have "ReadPhysicalRecord ops rd result = ReadPhysicalRecord ops ?rd1 result"
      using False small r short by (subst ReadPhysicalRecord.simps) (simp add: Let_def Status_ok_def Status_OK_def)
    moreover have "n - k < 7 + length data" using n by simp
    ultimately show ?thesis
      using read_cut_buffer [of ?rd1 "n - k" t data result] len(1) by (auto simp: same_reports_def)
  qed
qed

lemma ReadRecord_loop_eof:
  assumes "ReadPhysicalRecord ops rd frag = (kEof, frag, rd')"
  shows "\<exists>scratch. ReadRecord_loop ops rd rcd acc frag infrag pro = Some (False, rcd, scratch, rd')"
  using assms record_types by (subst ReadRecord_loop.simps) (simp add: Let_def)

lemma length_log_item: "length (log_item (k, t, data)) = k + 7 + length data"
  by (simp add: log_item_def)

lemma read_fragments_cut:
  "reader_at unread ready rd (take n (concat (map log_item (fragments off first data)))) off \<Longrightarrow>
    n < length (concat (map log_item (fragments off first data))) \<Longrightarrow> (first \<Longrightarrow> acc = []) \<Longrightarrow>
    \<exists>rd' scratch. ReadRecord_loop ops rd rcd acc frag (\<not> first) pro = Some (False, rcd, scratch, rd') \<and> same_reports rd rd'"
proof (induction off first data arbitrary: rd acc frag pro n rule: fragments.induct)
  case (1 off first data)
  define k where "k = (if kBlockSize < off + kHeaderSize then kBlockSize - off else 0)"
  define start where "start = (if kBlockSize < off + kHeaderSize then 0 else off)"
  define avail where "avail = kBlockSize - kHeaderSize - start"
  have start: "start + kHeaderSize \<le> kBlockSize" by (auto simp: start_def kBlockSize_def kHeaderSize_def)
  show ?case
  proof (cases "length data \<le> avail")
    case True
    let ?t = "fragment_type first True"
    have frag: "fragments off first data = [(k, ?t, data)]"
      using True by (subst fragments.simps) (simp add: Let_def k_def start_def avail_def)
    have "item_end off (k, ?t, data) \<le> kBlockSize"
      using True start by (simp add: item_end_def start_def [symmetric] avail_def)
    then obtain rd' where "ReadPhysicalRecord ops rd frag = (kEof, frag, rd')" "same_reports rd rd'"
      using read_item_cut [OF _ _ k_def, of rd n ?t data frag] 1(2,3) by (auto simp: frag length_log_item)
    then show ?thesis using ReadRecord_loop_eof by blast
  next
    case False
    let ?t = "fragment_type first False" and ?d = "take avail data"
    let ?rest = "concat (map log_item (fragments (start + kHeaderSize + avail) False (drop avail data)))"
    have frag: "fragments off first data =
        (k, ?t, ?d) # fragments (start + kHeaderSize + avail) False (drop avail data)"
      using False by (subst fragments.simps) (simp add: Let_def k_def start_def avail_def)
    have e: "item_end off (k, ?t, ?d) = start + kHeaderSize + avail" "length ?d = avail"
      using False by (simp_all add: item_end_def start_def [symmetric])
    have fits: "item_end off (k, ?t, ?d) \<le> kBlockSize" unfolding e using start by (simp add: avail_def)
    show ?thesis
    proof (cases "n < k + 7 + avail")
      case True
      then have eq: "take n (log_item (k, ?t, ?d) @ ?rest) = take n (log_item (k, ?t, ?d))"
        using e(2) by (simp add: length_log_item)
      have "reader_at unread ready rd (take n (log_item (k, ?t, ?d) @ ?rest)) off"
        using 1(2) unfolding frag by (simp only: list.map concat.simps)
      then have "reader_at unread ready rd (take n (log_item (k, ?t, ?d))) off" unfolding eq .
      then obtain rd' where "ReadPhysicalRecord ops rd frag = (kEof, frag, rd')" "same_reports rd rd'"
        using read_item_cut [OF _ _ k_def fits, of rd n frag] True e(2) by auto
      then show ?thesis using ReadRecord_loop_eof by blast
    next
      case whole: False
      define n' where "n' = n - (k + 7 + avail)"
      have len: "length (log_item (k, ?t, ?d)) = k + 7 + avail" using e(2) by (simp add: length_log_item)
      then have "take n (log_item (k, ?t, ?d) @ ?rest) = log_item (k, ?t, ?d) @ take n' ?rest"
        using whole by (simp add: n'_def)
      then have "reader_at unread ready rd (log_item (k, ?t, ?d) @ take n' ?rest) off" using 1(2) by (simp add: frag)
      then obtain rd' where rd': "ReadPhysicalRecord ops rd frag = (ucast ?t, ?d, rd')"
        "reader_at unread ready rd' (take n' ?rest) (start + kHeaderSize + avail)" "same_reports rd rd'"
        using read_item [OF _ k_def fits fragment_type_ok] unfolding e(1) by blast
      have n': "n' < length ?rest" using 1(3) whole len by (simp add: frag n'_def)
      have ih: "\<exists>rd'' scratch. ReadRecord_loop ops rd' rcd acc' frag' True pro' = Some (False, rcd, scratch, rd'') \<and> same_reports rd' rd''"
        for acc' frag' pro'
        using 1(1) [OF k_def start_def avail_def False rd'(2) n', of acc' frag' pro'] by simp
      show ?thesis
      proof (cases first)
        case True
        have "ReadRecord_loop ops rd rcd acc frag (\<not> first) pro =
            ReadRecord_loop ops rd' rcd ?d ?d True (lr_end_of_buffer_offset rd - of_nat (length (lr_buffer rd)))"
          using rd'(1) True record_types by (subst ReadRecord_loop.simps) (simp add: fragment_type_def Let_def)
        then show ?thesis using ih [of ?d ?d] rd'(3) by (auto simp: same_reports_def)
      next
        case nf: False
        have "ReadRecord_loop ops rd rcd acc frag (\<not> first) pro = ReadRecord_loop ops rd' rcd (acc @ ?d) ?d True pro"
          using rd'(1) nf record_types by (subst ReadRecord_loop.simps) (simp add: fragment_type_def Let_def)
        then show ?thesis using ih [of "acc @ ?d" ?d pro] rd'(3) by (auto simp: same_reports_def)
      qed
    qed
  qed
qed

end

section \<open>Whole logs\<close>

text \<open>Appending records one after the other, and reading a number of them.\<close>

definition log_write :: "'f WritableFile \<Rightarrow> 'f log_Writer \<Rightarrow> byte list list \<Rightarrow> 'f log_Writer" where
  "log_write file w recs = fold (\<lambda>r w. snd (AddRecord file w r)) recs w"

primrec log_read ::
  "'f SequentialFile \<Rightarrow> nat \<Rightarrow> 'f log_Reader \<Rightarrow> (byte list option list \<times> 'f log_Reader) option" where
  "log_read file 0 rd = Some ([], rd)"
| "log_read file (Suc n) rd =
     do { (ok, record, scratch, rd1) \<leftarrow> ReadRecord file rd [] [];
          (rest, rd2) \<leftarrow> log_read file n rd1;
          Some ((if ok then Some record else None) # rest, rd2) }"

primrec log_items :: "nat \<Rightarrow> byte list list \<Rightarrow> (nat \<times> byte \<times> byte list) list" where
  "log_items off [] = []"
| "log_items off (r # rs) = fragments off True r @ log_items (items_end off (fragments off True r)) rs"

context writable_file
begin

lemma log_write_items:
  "writer_at w off \<Longrightarrow>
    contents (lw_dest (log_write ops w recs)) = contents (lw_dest w) @ concat (map log_item (log_items off recs))"
proof (induction recs arbitrary: w off)
  case (Cons r rs)
  show ?case
    using AddRecord_loop_writes [OF Cons.prems, of True r]
      Cons.IH [of "snd (AddRecord ops w r)" "items_end off (fragments off True r)"]
    by (simp add: log_write_def AddRecord_def)
qed (simp add: log_write_def)

end

definition record_bytes :: "nat \<Rightarrow> byte list \<Rightarrow> byte list" where
  "record_bytes off r = concat (map log_item (fragments off True r))"

context sequential_file
begin

lemma ReadRecord_initial: "lr_initial_offset rd = 0 \<Longrightarrow> ReadRecord ops rd a b = ReadRecord_loop ops rd [] [] [] False 0"
  by (simp add: ReadRecord_def)

text \<open>Reading a log that is cut off after \<open>n\<close> bytes, or not at all.\<close>

lemma log_read_cut:
  "reader_at unread ready rd (take n (concat (map log_item (log_items off recs)))) off \<Longrightarrow>
    \<exists>m rd'. m \<le> length recs \<and> log_read ops (Suc m) rd = Some (map Some (take m recs) @ [None], rd') \<and> same_reports rd rd' \<and>
      length (concat (map log_item (log_items off (take m recs)))) \<le> n \<and>
      (m < length recs \<longrightarrow> n < length (concat (map log_item (log_items off (take (Suc m) recs)))))"
proof (induction recs arbitrary: rd off n)
  case Nil
  then obtain rd' where rd': "ReadPhysicalRecord ops rd [] = (kEof, [], rd')" "same_reports rd rd'"
    using read_end [of rd off "[]"] by auto
  have "lr_initial_offset rd = 0" using Nil by (simp add: reader_at_def)
  then show ?case
    using ReadRecord_loop_eof [OF rd'(1), of "[]" "[]" False 0] rd'(2) by (auto simp: ReadRecord_initial)
next
  case (Cons r rs)
  have init: "lr_initial_offset rd = 0" using Cons.prems by (simp add: reader_at_def)
  let ?stop = "items_end off (fragments off True r)"
  let ?r = "concat (map log_item (fragments off True r))" and ?rs = "concat (map log_item (log_items ?stop rs))"
  have at: "reader_at unread ready rd (take n (?r @ ?rs)) off" using Cons.prems by (simp only: log_items.simps map_append concat_append)
  show ?case
  proof (cases "n < length ?r")
    case True
    have eq: "take n (?r @ ?rs) = take n ?r" using True by (simp only: take_append) simp
    obtain rd' scratch where "ReadRecord_loop ops rd [] [] [] (\<not> True) 0 = Some (False, [], scratch, rd')" "same_reports rd rd'"
      using read_fragments_cut [OF at [unfolded eq] True, of "[]" "[]" "[]" 0] by auto
    then show ?thesis using True by (intro exI [of _ 0]) (auto simp: ReadRecord_initial [OF init])
  next
    case False
    then have eq: "take n (?r @ ?rs) = ?r @ take (n - length ?r) ?rs" by (simp only: take_append) simp
    obtain rd1 scratch where rd1: "ReadRecord_loop ops rd [] [] [] (\<not> True) 0 = Some (True, [] @ r, scratch, rd1)"
      "reader_at unread ready rd1 (take (n - length ?r) ?rs) ?stop" "same_reports rd rd1"
      using read_fragments [OF at [unfolded eq], of "[]" "[]" "[]" 0] by auto
    obtain m rd' where m: "m \<le> length rs" "log_read ops (Suc m) rd1 = Some (map Some (take m rs) @ [None], rd')" "same_reports rd1 rd'"
      "length (concat (map log_item (log_items ?stop (take m rs)))) \<le> n - length ?r"
      "m < length rs \<longrightarrow> n - length ?r < length (concat (map log_item (log_items ?stop (take (Suc m) rs))))"
      using Cons.IH [OF rd1(2)] by blast
    have "log_read ops (Suc (Suc m)) rd = Some (map Some (take (Suc m) (r # rs)) @ [None], rd')"
      unfolding log_read.simps(2) [of ops "Suc m"]
      using rd1(1) by (simp add: ReadRecord_initial [OF init] m(2) del: log_read.simps)
    moreover have "same_reports rd rd'" using rd1(3) m(3) by (simp add: same_reports_def)
    ultimately show ?thesis
      using m(1,4,5) False by (intro exI [of _ "Suc m"] exI [of _ rd']) (simp, linarith)
  qed
qed

end

text \<open>A new log in memory, and a reader over it.\<close>

definition log_of :: "byte list list \<Rightarrow> byte list" where
  "log_of recs = lw_dest (log_write StringDest_file (make_log_Writer []) recs)"

definition log_source :: "byte list \<Rightarrow> StringSource" where
  "log_source contents = \<lparr>ss_contents = contents, ss_force_error = False, ss_returned_partial = False\<rparr>"

lemma log_of_items: "log_of recs = concat (map log_item (log_items 0 recs))"
proof -
  have "writer_at (make_log_Writer []) 0" by (simp add: writer_at_def make_log_Writer_def)
  from string_dest.log_write_items [OF this] show ?thesis by (simp add: log_of_def make_log_Writer_def)
qed

lemma log_reader_at:
  "reader_at ss_contents (\<lambda>f. \<not> ss_force_error f \<and> \<not> ss_returned_partial f)
    (make_log_Reader (log_source contents) reporter checksum 0) contents 0"
  by (simp add: reader_at_def make_log_Reader_def log_source_def)

lemma log_items_prefix: "\<exists>z. log_items off recs = log_items off (take m recs) @ z"
proof (induction recs arbitrary: off m)
  case (Cons r rs)
  show ?case
  proof (cases m)
    case 0
    then show ?thesis by simp
  next
    case (Suc m')
    obtain z where "log_items (items_end off (fragments off True r)) rs =
        log_items (items_end off (fragments off True r)) (take m' rs) @ z"
      using Cons by blast
    then show ?thesis using Suc by simp
  qed
qed simp

lemma log_of_take: "length (log_of (take m recs)) \<le> length (log_of recs)"
  using log_items_prefix [of 0 recs m] by (auto simp: log_of_items)

lemma log_read_prefix:
  "\<exists>m rd. m \<le> length recs \<and>
    log_read StringSource_file (m + 1) (make_log_Reader (log_source (take n (log_of recs))) reporter checksum 0) =
      Some (map Some (take m recs) @ [None], rd) \<and> lr_reports rd = [] \<and>
    length (log_of (take m recs)) \<le> n \<and> (m < length recs \<longrightarrow> n < length (log_of (take (m + 1) recs)))"
proof -
  have "reader_at ss_contents (\<lambda>f. \<not> ss_force_error f \<and> \<not> ss_returned_partial f)
      (make_log_Reader (log_source (take n (log_of recs))) reporter checksum 0)
      (take n (concat (map log_item (log_items 0 recs)))) 0"
    using log_reader_at by (simp add: log_of_items)
  from string_source.log_read_cut [OF this] show ?thesis
    by (simp only: log_of_items same_reports_def Suc_eq_plus1 make_log_Reader_def log_Reader.simps)
qed

text \<open>
  C3: a log is read back: whatever the records, empty ones and ones over many blocks included,
  reading it returns exactly the records that were added, in order, then the end, and nothing is
  reported as corrupt, with or without checking the checksums.
\<close>
theorem log_roundtrip:
  "\<exists>rd. log_read StringSource_file (length recs + 1) (make_log_Reader (log_source (log_of recs)) reporter checksum 0) =
      Some (map Some recs @ [None], rd) \<and> lr_reports rd = []"
proof -
  obtain m rd where m: "m \<le> length recs"
    "log_read StringSource_file (m + 1) (make_log_Reader (log_source (take (length (log_of recs)) (log_of recs))) reporter checksum 0) =
      Some (map Some (take m recs) @ [None], rd)" "lr_reports rd = []"
    "m < length recs \<longrightarrow> length (log_of recs) < length (log_of (take (m + 1) recs))"
    using log_read_prefix [of recs "length (log_of recs)" reporter checksum] by blast
  then have "m = length recs" using log_of_take [of "m + 1" recs] by auto
  then show ?thesis using m(2,3) by auto
qed

text \<open>
  C14: a log whose writer died is read up to the last whole record: if only the first \<open>n\<close> bytes of
  the file survive, for any \<open>n\<close>, the reader returns the records that lie within them, all of them and
  unchanged, and then the end; it always returns, and a torn record is never reported as corrupt.
\<close>
theorem log_crash_prefix:
  "\<exists>m rd. m \<le> length recs \<and>
    log_read StringSource_file (m + 1) (make_log_Reader (log_source (take n (log_of recs))) reporter checksum 0) =
      Some (map Some (take m recs) @ [None], rd) \<and> lr_reports rd = [] \<and>
    length (log_of (take m recs)) \<le> n \<and> \<not> (m < length recs \<and> length (log_of (take (m + 1) recs)) \<le> n)"
  using log_read_prefix [of recs n reporter checksum] by (auto simp: not_le)

end
