(* ===== verification/Ldb_Random.thy ===== *)
theory Ldb_Random
  imports Pb_Prelude
begin

text \<open>
  The pseudo-random generator of \<^verbatim>\<open>util/random.h\<close>: its state is the seed, and \<^verbatim>\<open>Next\<close> multiplies
  it modulo the prime \<open>2 ^ 31 - 1\<close> without a division.
\<close>

type_synonym Random = "32 word"

definition make_Random :: "32 word \<Rightarrow> Random" where
  "make_Random s =
     (let seed = s AND 0x7fffffff in if seed = 0 \<or> seed = 2147483647 then 1 else seed)"

definition random_M :: "32 word" where "random_M = 2147483647"
definition random_A :: "64 word" where "random_A = 16807"

definition random_Next :: "Random \<Rightarrow> 32 word \<times> Random" where
  "random_Next seed =
     (let product = ucast seed * random_A;
          seed1 = ucast (drop_bit 31 product + (product AND ucast random_M)) :: 32 word;
          seed2 = (if random_M < seed1 then seed1 - random_M else seed1)
      in (seed2, seed2))"

definition random_Uniform :: "32 word \<Rightarrow> Random \<Rightarrow> 32 word \<times> Random" where
  "random_Uniform n rnd = (let (x, rnd') = random_Next rnd in (x mod n, rnd'))"

definition random_OneIn :: "32 word \<Rightarrow> Random \<Rightarrow> bool \<times> Random" where
  "random_OneIn n rnd = (let (x, rnd') = random_Next rnd in (x mod n = 0, rnd'))"

definition random_Skewed :: "32 word \<Rightarrow> Random \<Rightarrow> 32 word \<times> Random" where
  "random_Skewed max_log rnd =
     (let (b, rnd') = random_Uniform (max_log + 1) rnd in random_Uniform (push_bit (unat b) 1) rnd')"

section \<open>The seeds\<close>

definition good_seed :: "Random \<Rightarrow> bool" where
  "good_seed s \<longleftrightarrow> 0 < unat s \<and> unat s < 2147483647"

lemma make_Random_good: "good_seed (make_Random s)"
proof -
  have "s AND 0x7fffffff \<le> 0x7fffffff" using word_and_le1 by blast
  then have "unat (s AND 0x7fffffff) \<le> 0x7fffffff" by (simp add: word_le_nat_alt)
  then show ?thesis
    by (auto simp: good_seed_def make_Random_def Let_def word_unat_eq_iff)
qed

lemma fast_mod:
  fixes p :: nat
  assumes "p < 2 ^ 46" "p mod 2147483647 \<noteq> 0"
  defines "r \<equiv> p div 2 ^ 31 + p mod 2 ^ 31"
  shows "(if 2147483647 < r then r - 2147483647 else r) = p mod 2147483647"
    and "r < 2 ^ 32"
proof -
  have q: "p div 2 ^ 31 < 2 ^ 15" using assms(1) by (simp add: less_mult_imp_div_less)
  have m: "p mod 2 ^ 31 < 2 ^ 31" by simp
  show "r < 2 ^ 32" unfolding r_def using q m by simp
  have "p = p div 2 ^ 31 * 2 ^ 31 + p mod 2 ^ 31" by simp
  also have "\<dots> = p div 2 ^ 31 * 2147483647 + r" by (simp add: r_def)
  finally have p: "p mod 2147483647 = r mod 2147483647" by (metis mod_mult_self3)
  have "r < 2 * 2147483647" unfolding r_def using q m by simp
  moreover have "r \<noteq> 2147483647" using p assms(2) by auto
  ultimately show "(if 2147483647 < r then r - 2147483647 else r) = p mod 2147483647"
    by (cases "2147483647 < r") (simp_all add: p le_mod_geq)
qed

lemma mult_nonzero:
  assumes "0 < s" "s < 2147483647"
  shows "(s * 16807) mod 2147483647 \<noteq> (0 :: nat)"
proof
  assume "(s * 16807) mod 2147483647 = 0"
  then have "2147483647 dvd s * 16807" by auto
  moreover have "coprime (2147483647 :: nat) 16807" by (simp add: coprime_iff_gcd_eq_1 gcd_non_0_nat)
  ultimately have "2147483647 dvd s" by (simp add: coprime_dvd_mult_left_iff)
  then show False using assms by (auto dest: dvd_imp_le)
qed

lemma random_Next_step:
  assumes "0 < unat seed" "unat seed < 2147483647"
  shows "unat (fst (random_Next seed)) = unat seed * 16807 mod 2147483647 \<and>
    0 < unat (snd (random_Next seed)) \<and> unat (snd (random_Next seed)) < 2147483647"
proof -
  define p where "p = (ucast seed * random_A :: 64 word)"
  define n where "n = unat seed * 16807"
  have n: "n < 2 ^ 46" using assms(2) by (simp add: n_def)
  have "unat p = n"
    using n by (simp add: p_def n_def random_A_def unat_word_ariths unsigned_ucast_eq take_bit_nat_eq_self)
  moreover have "p AND ucast random_M = take_bit 31 p"
    by (simp add: random_M_def take_bit_eq_mask mask_eq_exp_minus_1)
  ultimately have r: "unat (drop_bit 31 p + (p AND ucast random_M)) = n div 2 ^ 31 + n mod 2 ^ 31"
    using fast_mod(2) [OF n] mult_nonzero [OF assms]
    by (simp add: n_def unat_word_ariths drop_bit_eq_div take_bit_eq_mod unat_div unat_mod)
  note f = fast_mod [OF n mult_nonzero [OF assms, folded n_def]]
  define s1 where "s1 = (ucast (drop_bit 31 p + (p AND ucast random_M)) :: 32 word)"
  have s1: "unat s1 = n div 2 ^ 31 + n mod 2 ^ 31"
    unfolding s1_def unsigned_ucast_eq r using f(2) by (simp add: take_bit_nat_eq_self)
  have "unat (if random_M < s1 then s1 - random_M else s1) = n mod 2147483647"
    using f(1) [folded s1] by (auto simp: word_less_nat_alt random_M_def unat_sub word_le_nat_alt)
  moreover have "random_Next seed = (if random_M < s1 then s1 - random_M else s1, if random_M < s1 then s1 - random_M else s1)"
    by (simp add: random_Next_def Let_def s1_def p_def)
  ultimately show ?thesis using mult_nonzero [OF assms] by (simp add: n_def)
qed

text \<open>
  the shift-and-mask reduction computes the product modulo \<open>2 ^ 31 - 1\<close> exactly, and a
  seed the constructor made, or an earlier call left, never becomes 0 or the modulus, the two
  values the generator would be stuck at.
\<close>
theorem random_next_exact:
  assumes "0 < unat seed" "unat seed < 2147483647"
  shows "unat (fst (random_Next seed)) = unat seed * 16807 mod 2147483647 \<and>
    0 < unat (snd (random_Next seed)) \<and> unat (snd (random_Next seed)) < 2147483647"
  using assms by (rule random_Next_step)

theorem random_next_exact_witness:
  "unat (fst (random_Next 2147483646)) = 2147483646 * 16807 mod 2147483647 \<and>
    0 < unat (snd (random_Next 2147483646)) \<and> unat (snd (random_Next 2147483646)) < 2147483647"
  using random_next_exact [of 2147483646] by simp

end
