(* ===== verification/Ldb_Skiplist.thy ===== *)
theory Ldb_Skiplist
  imports Ldb_Comparator Ldb_Random "HOL-Library.Monad_Syntax"
begin

text \<open>
  The skip list of \<^verbatim>\<open>db/skiplist.h\<close>. Nodes live in an arena that is never freed, so a pointer is
  the index of a node in the list of all nodes, and \<open>None\<close> is \<^verbatim>\<open>NULL\<close>. A link that was not stored
  yet is \<open>None\<close> as well, inside the node: reading it, or a link above the height of a node, has no
  result, and neither has a search that does not end. The atomic loads and stores are the steps of
  the one writing thread; concurrent readers are not modelled.
\<close>

section \<open>Nodes\<close>

record 'k node =
  n_key :: 'k
  n_next :: "nat option option list"

record 'k skiplist =
  sl_nodes :: "'k node list"
  sl_max_height :: nat
  sl_rnd :: Random

definition kMaxHeight :: nat where "kMaxHeight = 12"

definition sl_head :: nat where "sl_head = 0"

definition node_key :: "'k skiplist \<Rightarrow> nat \<Rightarrow> 'k" where
  "node_key sl x = n_key (sl_nodes sl ! x)"

definition node_height :: "'k skiplist \<Rightarrow> nat \<Rightarrow> nat" where
  "node_height sl x = length (n_next (sl_nodes sl ! x))"

definition node_Next :: "'k skiplist \<Rightarrow> nat \<Rightarrow> nat \<Rightarrow> nat option option" where
  "node_Next sl x n =
     (if x < length (sl_nodes sl) \<and> n < node_height sl x then n_next (sl_nodes sl ! x) ! n else None)"

definition node_SetNext :: "'k skiplist \<Rightarrow> nat \<Rightarrow> nat \<Rightarrow> nat option \<Rightarrow> 'k skiplist option" where
  "node_SetNext sl x n y =
     (if x < length (sl_nodes sl) \<and> n < node_height sl x
      then Some (sl\<lparr>sl_nodes := (sl_nodes sl)[x := (sl_nodes sl ! x)\<lparr>n_next := (n_next (sl_nodes sl ! x))[n := Some y]\<rparr>]\<rparr>)
      else None)"

definition NewNode :: "'k skiplist \<Rightarrow> 'k \<Rightarrow> nat \<Rightarrow> 'k skiplist \<times> nat" where
  "NewNode sl key height =
     (sl\<lparr>sl_nodes := sl_nodes sl @ [\<lparr>n_key = key, n_next = replicate height None\<rparr>]\<rparr>, length (sl_nodes sl))"

section \<open>Construction\<close>

primrec clear_head :: "nat \<Rightarrow> 'k skiplist \<Rightarrow> 'k skiplist option" where
  "clear_head 0 sl = Some sl"
| "clear_head (Suc i) sl = do { sl' \<leftarrow> clear_head i sl; node_SetNext sl' sl_head i None }"

definition make_SkipList :: "'k \<Rightarrow> 'k skiplist option" where
  "make_SkipList any_key =
     (let (sl, head) = NewNode \<lparr>sl_nodes = [], sl_max_height = 1, sl_rnd = make_Random 0xdeadbeef\<rparr> any_key kMaxHeight
      in clear_head kMaxHeight sl)"

function RandomHeight_loop :: "nat \<Rightarrow> Random \<Rightarrow> nat \<times> Random" where
  "RandomHeight_loop height rnd =
     (if height < kMaxHeight
      then let (x, rnd') = random_Next rnd
           in if x mod 4 = 0 then RandomHeight_loop (height + 1) rnd' else (height, rnd')
      else (height, rnd))"
  by pat_completeness auto
termination by (relation "measure (\<lambda>(height, rnd). kMaxHeight - height)") auto

declare RandomHeight_loop.simps [simp del]

definition RandomHeight :: "Random \<Rightarrow> nat \<times> Random" where
  "RandomHeight rnd = RandomHeight_loop 1 rnd"

section \<open>Searches\<close>

definition KeyIsAfterNode :: "('k \<Rightarrow> 'k \<Rightarrow> int) \<Rightarrow> 'k skiplist \<Rightarrow> 'k \<Rightarrow> nat option \<Rightarrow> bool" where
  "KeyIsAfterNode cmp sl key n = (case n of None \<Rightarrow> False | Some x \<Rightarrow> cmp (node_key sl x) key < 0)"

text \<open>\<open>prev\<close> is \<open>None\<close> for a null pointer, and else an array whose entries may be unset.\<close>

partial_function (option) FindGreaterOrEqual_loop ::
  "('k \<Rightarrow> 'k \<Rightarrow> int) \<Rightarrow> 'k skiplist \<Rightarrow> 'k \<Rightarrow> nat \<Rightarrow> nat \<Rightarrow> nat option list option \<Rightarrow>
    (nat option \<times> nat option list option) option" where
  "FindGreaterOrEqual_loop cmp sl key x level prev =
     do { nxt \<leftarrow> node_Next sl x level;
          if KeyIsAfterNode cmp sl key nxt
          then FindGreaterOrEqual_loop cmp sl key (the nxt) level prev
          else let prev' = map_option (\<lambda>p. p[level := Some x]) prev
               in if level = 0 then Some (nxt, prev')
                  else FindGreaterOrEqual_loop cmp sl key x (level - 1) prev' }"

definition FindGreaterOrEqual ::
  "('k \<Rightarrow> 'k \<Rightarrow> int) \<Rightarrow> 'k skiplist \<Rightarrow> 'k \<Rightarrow> nat option list option \<Rightarrow>
    (nat option \<times> nat option list option) option" where
  "FindGreaterOrEqual cmp sl key prev =
     FindGreaterOrEqual_loop cmp sl key sl_head (sl_max_height sl - 1) prev"

partial_function (option) FindLessThan_loop ::
  "('k \<Rightarrow> 'k \<Rightarrow> int) \<Rightarrow> 'k skiplist \<Rightarrow> 'k \<Rightarrow> nat \<Rightarrow> nat \<Rightarrow> nat option" where
  "FindLessThan_loop cmp sl key x level =
     do { nxt \<leftarrow> node_Next sl x level;
          if nxt = None \<or> 0 \<le> cmp (node_key sl (the nxt)) key
          then if level = 0 then Some x else FindLessThan_loop cmp sl key x (level - 1)
          else FindLessThan_loop cmp sl key (the nxt) level }"

definition FindLessThan :: "('k \<Rightarrow> 'k \<Rightarrow> int) \<Rightarrow> 'k skiplist \<Rightarrow> 'k \<Rightarrow> nat option" where
  "FindLessThan cmp sl key = FindLessThan_loop cmp sl key sl_head (sl_max_height sl - 1)"

partial_function (option) FindLast_loop :: "'k skiplist \<Rightarrow> nat \<Rightarrow> nat \<Rightarrow> nat option" where
  "FindLast_loop sl x level =
     do { nxt \<leftarrow> node_Next sl x level;
          if nxt = None
          then if level = 0 then Some x else FindLast_loop sl x (level - 1)
          else FindLast_loop sl (the nxt) level }"

definition FindLast :: "'k skiplist \<Rightarrow> nat option" where
  "FindLast sl = FindLast_loop sl sl_head (sl_max_height sl - 1)"

section \<open>Insertion and membership\<close>

primrec raise_prev :: "nat \<Rightarrow> nat \<Rightarrow> nat option list \<Rightarrow> nat option list" where
  "raise_prev from_height 0 prev = prev"
| "raise_prev from_height (Suc i) prev =
     (let prev' = raise_prev from_height i prev
      in if from_height \<le> i then prev'[i := Some sl_head] else prev')"

primrec link_levels :: "nat \<Rightarrow> nat \<Rightarrow> nat option list \<Rightarrow> 'k skiplist \<Rightarrow> 'k skiplist option" where
  "link_levels 0 x prev sl = Some sl"
| "link_levels (Suc i) x prev sl =
     do { sl1 \<leftarrow> link_levels i x prev sl;
          p \<leftarrow> prev ! i;
          nxt \<leftarrow> node_Next sl1 p i;
          sl2 \<leftarrow> node_SetNext sl1 x i nxt;
          node_SetNext sl2 p i (Some x) }"

definition SkipList_Insert :: "('k \<Rightarrow> 'k \<Rightarrow> int) \<Rightarrow> 'k skiplist \<Rightarrow> 'k \<Rightarrow> 'k skiplist option" where
  "SkipList_Insert cmp sl key =
     do { (x, prev) \<leftarrow> FindGreaterOrEqual cmp sl key (Some (replicate kMaxHeight None));
          let (height, rnd) = RandomHeight (sl_rnd sl);
              (prev, max_height) =
                (if sl_max_height sl < height
                 then (raise_prev (sl_max_height sl) height (the prev), height)
                 else (the prev, sl_max_height sl));
              (sl1, n) = NewNode (sl\<lparr>sl_max_height := max_height, sl_rnd := rnd\<rparr>) key height
          in link_levels height n prev sl1 }"

definition SkipList_Contains :: "('k \<Rightarrow> 'k \<Rightarrow> int) \<Rightarrow> 'k skiplist \<Rightarrow> 'k \<Rightarrow> bool option" where
  "SkipList_Contains cmp sl key =
     do { (x, prev) \<leftarrow> FindGreaterOrEqual cmp sl key None;
          Some (case x of None \<Rightarrow> False | Some n \<Rightarrow> cmp key (node_key sl n) = 0) }"

section \<open>The iterator\<close>

text \<open>Its state is the current node.\<close>

definition Iter_new :: "nat option" where "Iter_new = None"

definition Iter_Valid :: "nat option \<Rightarrow> bool" where "Iter_Valid it \<longleftrightarrow> it \<noteq> None"

definition Iter_key :: "'k skiplist \<Rightarrow> nat option \<Rightarrow> 'k" where
  "Iter_key sl it = node_key sl (the it)"

definition Iter_Next :: "'k skiplist \<Rightarrow> nat option \<Rightarrow> nat option option" where
  "Iter_Next sl it = node_Next sl (the it) 0"

definition Iter_Prev :: "('k \<Rightarrow> 'k \<Rightarrow> int) \<Rightarrow> 'k skiplist \<Rightarrow> nat option \<Rightarrow> nat option option" where
  "Iter_Prev cmp sl it =
     do { x \<leftarrow> FindLessThan cmp sl (node_key sl (the it)); Some (if x = sl_head then None else Some x) }"

definition Iter_Seek :: "('k \<Rightarrow> 'k \<Rightarrow> int) \<Rightarrow> 'k skiplist \<Rightarrow> 'k \<Rightarrow> nat option option" where
  "Iter_Seek cmp sl target = do { (x, prev) \<leftarrow> FindGreaterOrEqual cmp sl target None; Some x }"

definition Iter_SeekToFirst :: "'k skiplist \<Rightarrow> nat option option" where
  "Iter_SeekToFirst sl = node_Next sl sl_head 0"

definition Iter_SeekToLast :: "'k skiplist \<Rightarrow> nat option option" where
  "Iter_SeekToLast sl = do { x \<leftarrow> FindLast sl; Some (if x = sl_head then None else Some x) }"

section \<open>The invariant\<close>

text \<open>
  \<open>xs\<close> are the nodes in the order of the lowest level. Every level links the nodes that are
  high enough for it, in that order, from the head to \<^verbatim>\<open>NULL\<close>.
\<close>

fun linked :: "(nat \<Rightarrow> nat option option) \<Rightarrow> nat list \<Rightarrow> bool" where
  "linked f [] \<longleftrightarrow> True"
| "linked f [x] \<longleftrightarrow> f x = Some None"
| "linked f (x # y # r) \<longleftrightarrow> f x = Some (Some y) \<and> linked f (y # r)"

definition on_level :: "'k skiplist \<Rightarrow> nat \<Rightarrow> nat list \<Rightarrow> nat list" where
  "on_level sl i xs = filter (\<lambda>x. i < node_height sl x) xs"

definition sl_rep :: "'k skiplist \<Rightarrow> nat list \<Rightarrow> bool" where
  "sl_rep sl xs \<longleftrightarrow>
     sl_nodes sl \<noteq> [] \<and> node_height sl sl_head = kMaxHeight \<and>
     1 \<le> sl_max_height sl \<and> sl_max_height sl \<le> kMaxHeight \<and>
     distinct xs \<and> set xs = {1..<length (sl_nodes sl)} \<and>
     (\<forall>x\<in>set xs. 1 \<le> node_height sl x \<and> node_height sl x \<le> sl_max_height sl) \<and>
     (\<forall>i<kMaxHeight. linked (\<lambda>x. node_Next sl x i) (sl_head # on_level sl i xs))"

definition sl_keys :: "'k skiplist \<Rightarrow> nat list \<Rightarrow> 'k list" where
  "sl_keys sl xs = map (node_key sl) xs"

lemma sl_repD:
  assumes "sl_rep sl xs"
  shows "set xs = {1..<length (sl_nodes sl)}" "distinct xs" "sl_head \<notin> set xs"
    "\<And>x. x \<in> set xs \<Longrightarrow> x < length (sl_nodes sl)"
    "\<And>x. x \<in> set xs \<Longrightarrow> 1 \<le> node_height sl x"
    "\<And>x. x \<in> set xs \<Longrightarrow> node_height sl x \<le> sl_max_height sl"
    "0 < length (sl_nodes sl)" "node_height sl sl_head = kMaxHeight"
    "1 \<le> sl_max_height sl" "sl_max_height sl \<le> kMaxHeight"
    "\<And>i. i < kMaxHeight \<Longrightarrow> linked (\<lambda>x. node_Next sl x i) (sl_head # on_level sl i xs)"
  using assms by (simp_all add: sl_rep_def sl_head_def)

lemma linked_next:
  "linked f (ps @ x # rs) \<Longrightarrow> f x = Some (case rs of [] \<Rightarrow> None | y # _ \<Rightarrow> Some y)"
proof (induction ps)
  case Nil
  then show ?case by (cases rs) auto
next
  case (Cons p ps)
  then show ?case by (cases ps) auto
qed

lemma linked_cong: "(\<And>x. x \<in> set l \<Longrightarrow> g x = f x) \<Longrightarrow> linked g l = linked f l"
  by (induction f l rule: linked.induct) auto

lemma linked_insert_head:
  assumes "linked f (p # rs)" "distinct (p # rs)" "n \<notin> set (p # rs)"
    and "g p = Some (Some n)" "g n = f p" "\<And>x. x \<noteq> p \<Longrightarrow> x \<noteq> n \<Longrightarrow> g x = f x"
  shows "linked g (p # n # rs)"
proof (cases rs)
  case Nil
  then show ?thesis using assms(1,4,5) by simp
next
  case (Cons r rs')
  have "linked g rs = linked f rs" by (rule linked_cong, rule assms(6)) (use assms(2,3) in auto)
  then show ?thesis using assms(1,4,5) Cons by simp
qed

lemma linked_insert:
  assumes "linked f (ps @ p # rs)" "distinct (ps @ p # rs)" "n \<notin> set (ps @ p # rs)"
    and "g p = Some (Some n)" "g n = f p" "\<And>x. x \<noteq> p \<Longrightarrow> x \<noteq> n \<Longrightarrow> g x = f x"
  shows "linked g (ps @ p # n # rs)"
  using assms(1-3)
proof (induction ps rule: induct_list012)
  case 1
  then show ?case using linked_insert_head [of f p rs n g] assms(4-6) by simp
next
  case (2 x)
  then show ?case using linked_insert_head [of f p rs n g] assms(4-6) by auto
next
  case (3 x y zs)
  then show ?case using assms(6) [of x] by auto
qed

lemma sl_rep_next:
  assumes "sl_rep sl xs" "i < kMaxHeight" "sl_head # on_level sl i xs = ps @ x # rs"
  shows "node_Next sl x i = Some (case rs of [] \<Rightarrow> None | y # _ \<Rightarrow> Some y)"
proof -
  have "linked (\<lambda>x. node_Next sl x i) (ps @ x # rs)"
    using assms unfolding sl_rep_def by metis
  then show ?thesis by (rule linked_next)
qed

section \<open>The searches return, and where they return\<close>

text \<open>
  A search for a key splits the nodes into those before it and those that are not. The cursor
  of the loop is the head or a node before the key.
\<close>

definition split_at :: "('k \<Rightarrow> 'k \<Rightarrow> int) \<Rightarrow> 'k skiplist \<Rightarrow> 'k \<Rightarrow> nat list \<Rightarrow> nat list \<Rightarrow> bool" where
  "split_at cmp sl key as bs \<longleftrightarrow>
     (\<forall>a\<in>set as. cmp (node_key sl a) key < 0) \<and> (\<forall>b\<in>set bs. \<not> cmp (node_key sl b) key < 0)"

definition hd_option :: "'a list \<Rightarrow> 'a option" where
  "hd_option xs = (case xs of [] \<Rightarrow> None | x # _ \<Rightarrow> Some x)"

lemma cursor_next:
  assumes rep: "sl_rep sl (as @ bs)" and i: "i < kMaxHeight"
    and cur: "sl_head # on_level sl i as = ps @ x # rs"
  shows "node_Next sl x i = Some (case rs of [] \<Rightarrow> hd_option (on_level sl i bs) | y # _ \<Rightarrow> Some y)"
  using sl_rep_next [OF rep i, of ps x "rs @ on_level sl i bs"] cur
  by (auto simp: on_level_def hd_option_def split: list.splits)

lemma cursor_down:
  assumes "sl_head # on_level sl (Suc i) as = ps @ [x]"
  obtains ps' rs' where "sl_head # on_level sl i as = ps' @ x # rs'"
proof -
  have "x \<in> set (sl_head # on_level sl (Suc i) as)" by (simp add: assms)
  then have "x \<in> set (sl_head # on_level sl i as)" by (auto simp: on_level_def)
  then show thesis using that by (meson split_list)
qed

lemma on_level_subset: "set (on_level sl i xs) \<subseteq> set xs"
  by (auto simp: on_level_def)

lemma on_level_0:
  assumes "sl_rep sl (as @ bs)"
  shows "on_level sl 0 bs = bs" "on_level sl 0 as = as"
  using assms by (auto simp: on_level_def sl_rep_def filter_id_conv Suc_le_eq)

definition prev_at :: "'k skiplist \<Rightarrow> nat \<Rightarrow> nat list \<Rightarrow> nat" where
  "prev_at sl i as = last (sl_head # on_level sl i as)"

lemma hd_not_after:
  assumes "split_at cmp sl key as bs"
  shows "\<not> KeyIsAfterNode cmp sl key (hd_option (on_level sl i bs))"
  using assms on_level_subset [of sl i bs]
  by (auto simp: KeyIsAfterNode_def hd_option_def split_at_def split: list.splits)

text \<open>One level: the cursor moves to the last node before the key.\<close>

lemma FindGreaterOrEqual_level:
  assumes rep: "sl_rep sl (as @ bs)" and split: "split_at cmp sl key as bs"
    and level: "level < kMaxHeight"
  shows "sl_head # on_level sl level as = ps @ x # rs \<Longrightarrow>
    FindGreaterOrEqual_loop cmp sl key x level prev =
      (let p = prev_at sl level as; prev' = map_option (\<lambda>pr. pr[level := Some p]) prev
       in if level = 0 then Some (hd_option bs, prev')
          else FindGreaterOrEqual_loop cmp sl key p (level - 1) prev')"
proof (induction rs arbitrary: ps x)
  case Nil
  have "node_Next sl x level = Some (hd_option (on_level sl level bs))"
    using cursor_next [OF rep level Nil] by simp
  moreover have "prev_at sl level as = x" by (simp add: prev_at_def Nil)
  ultimately show ?case
    using hd_not_after [OF split, of level] on_level_0(1) [OF rep]
    by (subst FindGreaterOrEqual_loop.simps) (simp add: Let_def)
next
  case (Cons y rs)
  have "y \<in> set (on_level sl level as)" using Cons.prems by (cases ps) auto
  then have "y \<in> set as" by (simp add: on_level_def)
  then have "KeyIsAfterNode cmp sl key (Some y)"
    using split by (simp add: KeyIsAfterNode_def split_at_def)
  moreover have "node_Next sl x level = Some (Some y)"
    using cursor_next [OF rep level Cons.prems] by simp
  ultimately show ?case
    using Cons.IH [of "ps @ [x]" y] Cons.prems by (subst FindGreaterOrEqual_loop.simps) simp
qed

lemma prev_at_cursor: "\<exists>ps. sl_head # on_level sl i as = ps @ [prev_at sl i as]"
  unfolding prev_at_def by (metis append_butlast_last_id list.discI)

text \<open>All levels from \<open>level\<close> down.\<close>

primrec set_prevs :: "'k skiplist \<Rightarrow> nat list \<Rightarrow> nat \<Rightarrow> nat option list \<Rightarrow> nat option list" where
  "set_prevs sl as 0 prev = prev[0 := Some (prev_at sl 0 as)]"
| "set_prevs sl as (Suc i) prev = set_prevs sl as i (prev[Suc i := Some (prev_at sl (Suc i) as)])"

lemma FindGreaterOrEqual_down:
  assumes rep: "sl_rep sl (as @ bs)" and split: "split_at cmp sl key as bs"
  shows "level < kMaxHeight \<Longrightarrow> sl_head # on_level sl level as = ps @ x # rs \<Longrightarrow>
    FindGreaterOrEqual_loop cmp sl key x level prev =
      Some (hd_option bs, map_option (set_prevs sl as level) prev)"
proof (induction level arbitrary: ps x rs prev)
  case 0
  then show ?case using FindGreaterOrEqual_level [OF rep split 0(1,2)] by (cases prev) simp_all
next
  case (Suc level)
  obtain ps' where "sl_head # on_level sl (Suc level) as = ps' @ [prev_at sl (Suc level) as]"
    using prev_at_cursor by blast
  then obtain ps'' rs'' where "sl_head # on_level sl level as = ps'' @ prev_at sl (Suc level) as # rs''"
    by (rule cursor_down)
  from Suc.IH [OF _ this] show ?case
    using FindGreaterOrEqual_level [OF rep split Suc.prems] Suc.prems(1)
    by (cases prev) (simp_all add: Let_def)
qed

lemma FindGreaterOrEqual_result:
  assumes "sl_rep sl (as @ bs)" "split_at cmp sl key as bs"
  shows "FindGreaterOrEqual cmp sl key prev =
    Some (hd_option bs, map_option (set_prevs sl as (sl_max_height sl - 1)) prev)"
  unfolding FindGreaterOrEqual_def
  by (rule FindGreaterOrEqual_down [OF assms, where ps = "[]"]) (use assms(1) in \<open>auto simp: sl_rep_def\<close>)

lemma FindLessThan_level:
  assumes rep: "sl_rep sl (as @ bs)" and split: "split_at cmp sl key as bs"
    and level: "level < kMaxHeight"
  shows "sl_head # on_level sl level as = ps @ x # rs \<Longrightarrow>
    FindLessThan_loop cmp sl key x level =
      (let p = prev_at sl level as
       in if level = 0 then Some p else FindLessThan_loop cmp sl key p (level - 1))"
proof (induction rs arbitrary: ps x)
  case Nil
  have "node_Next sl x level = Some (hd_option (on_level sl level bs))"
    using cursor_next [OF rep level Nil] by simp
  moreover have "prev_at sl level as = x" by (simp add: prev_at_def Nil)
  ultimately show ?case
    using hd_not_after [OF split, of level]
    by (subst FindLessThan_loop.simps) (auto simp: Let_def KeyIsAfterNode_def not_less split: option.splits)
next
  case (Cons y rs)
  have "y \<in> set (on_level sl level as)" using Cons.prems by (cases ps) auto
  then have "y \<in> set as" by (simp add: on_level_def)
  then have "\<not> 0 \<le> cmp (node_key sl y) key" using split by (auto simp: split_at_def not_le)
  moreover have "node_Next sl x level = Some (Some y)"
    using cursor_next [OF rep level Cons.prems] by simp
  ultimately show ?case
    using Cons.IH [of "ps @ [x]" y] Cons.prems by (subst FindLessThan_loop.simps) simp
qed

lemma FindLessThan_down:
  assumes rep: "sl_rep sl (as @ bs)" and split: "split_at cmp sl key as bs"
  shows "level < kMaxHeight \<Longrightarrow> sl_head # on_level sl level as = ps @ x # rs \<Longrightarrow>
    FindLessThan_loop cmp sl key x level = Some (prev_at sl 0 as)"
proof (induction level arbitrary: ps x rs)
  case 0
  then show ?case using FindLessThan_level [OF rep split 0(1,2)] by simp
next
  case (Suc level)
  obtain ps' where "sl_head # on_level sl (Suc level) as = ps' @ [prev_at sl (Suc level) as]"
    using prev_at_cursor by blast
  then obtain ps'' rs'' where "sl_head # on_level sl level as = ps'' @ prev_at sl (Suc level) as # rs''"
    by (rule cursor_down)
  from Suc.IH [OF _ this] show ?case
    using FindLessThan_level [OF rep split Suc.prems] Suc.prems(1) by (simp add: Let_def)
qed

lemma FindLessThan_result:
  assumes "sl_rep sl (as @ bs)" "split_at cmp sl key as bs"
  shows "FindLessThan cmp sl key = Some (last (sl_head # as))"
proof -
  have "FindLessThan cmp sl key = Some (prev_at sl 0 as)"
    unfolding FindLessThan_def
    by (rule FindLessThan_down [OF assms, where ps = "[]"]) (use assms(1) in \<open>auto simp: sl_rep_def\<close>)
  then show ?thesis using on_level_0(2) [OF assms(1)] by (simp add: prev_at_def)
qed

lemma FindLast_level:
  assumes rep: "sl_rep sl xs" and level: "level < kMaxHeight"
  shows "sl_head # on_level sl level xs = ps @ x # rs \<Longrightarrow>
    FindLast_loop sl x level =
      (let p = prev_at sl level xs in if level = 0 then Some p else FindLast_loop sl p (level - 1))"
proof (induction rs arbitrary: ps x)
  case Nil
  have "node_Next sl x level = Some None" using sl_rep_next [OF rep level Nil] by simp
  moreover have "prev_at sl level xs = x" by (simp add: prev_at_def Nil)
  ultimately show ?case by (subst FindLast_loop.simps) (simp add: Let_def)
next
  case (Cons y rs)
  have "node_Next sl x level = Some (Some y)"
    using sl_rep_next [OF rep level Cons.prems] by simp
  then show ?case
    using Cons.IH [of "ps @ [x]" y] Cons.prems by (subst FindLast_loop.simps) simp
qed

lemma FindLast_down:
  assumes rep: "sl_rep sl xs"
  shows "level < kMaxHeight \<Longrightarrow> sl_head # on_level sl level xs = ps @ x # rs \<Longrightarrow>
    FindLast_loop sl x level = Some (prev_at sl 0 xs)"
proof (induction level arbitrary: ps x rs)
  case 0
  then show ?case using FindLast_level [OF rep 0(1,2)] by simp
next
  case (Suc level)
  obtain ps' where "sl_head # on_level sl (Suc level) xs = ps' @ [prev_at sl (Suc level) xs]"
    using prev_at_cursor by blast
  then obtain ps'' rs'' where "sl_head # on_level sl level xs = ps'' @ prev_at sl (Suc level) xs # rs''"
    by (rule cursor_down)
  from Suc.IH [OF _ this] show ?case
    using FindLast_level [OF rep Suc.prems] Suc.prems(1) by (simp add: Let_def)
qed

lemma FindLast_result:
  assumes "sl_rep sl xs"
  shows "FindLast sl = Some (last (sl_head # xs))"
proof -
  have "FindLast sl = Some (prev_at sl 0 xs)"
    unfolding FindLast_def
    by (rule FindLast_down [OF assms, where ps = "[]"]) (use assms in \<open>auto simp: sl_rep_def\<close>)
  then show ?thesis using on_level_0(2) [of sl xs "[]"] assms by (simp add: prev_at_def)
qed

section \<open>Insertion keeps the invariant\<close>

lemma length_set_prevs [simp]: "length (set_prevs sl as i prev) = length prev"
  by (induction i arbitrary: prev) simp_all

lemma set_prevs_nth:
  "i < length prev \<Longrightarrow> set_prevs sl as l prev ! i = (if i \<le> l then Some (prev_at sl i as) else prev ! i)"
  by (induction l arbitrary: prev) (auto simp: nth_list_update le_Suc_eq)

lemma length_raise_prev [simp]: "length (raise_prev h i prev) = length prev"
  by (induction i) (simp_all add: Let_def)

lemma raise_prev_nth:
  "j < length prev \<Longrightarrow> raise_prev h i prev ! j = (if h \<le> j \<and> j < i then Some sl_head else prev ! j)"
  by (induction i) (auto simp: Let_def nth_list_update)

lemma RandomHeight_loop_bounds:
  "1 \<le> h \<Longrightarrow> h \<le> kMaxHeight \<Longrightarrow>
    1 \<le> fst (RandomHeight_loop h rnd) \<and> fst (RandomHeight_loop h rnd) \<le> kMaxHeight"
proof (induction h rnd rule: RandomHeight_loop.induct)
  case (1 h rnd)
  then show ?case
    by (subst (1 2) RandomHeight_loop.simps) (auto simp: Let_def split: prod.splits)
qed

lemma RandomHeight_bounds: "1 \<le> fst (RandomHeight rnd)" "fst (RandomHeight rnd) \<le> kMaxHeight"
  using RandomHeight_loop_bounds [of 1 rnd] by (simp_all add: RandomHeight_def kMaxHeight_def)

lemma node_SetNext_spec:
  assumes "x < length (sl_nodes sl)" "n < node_height sl x"
  obtains sl' where "node_SetNext sl x n y = Some sl'"
    "length (sl_nodes sl') = length (sl_nodes sl)" "sl_max_height sl' = sl_max_height sl"
    "sl_rnd sl' = sl_rnd sl"
    "\<And>z. node_key sl' z = node_key sl z" "\<And>z. node_height sl' z = node_height sl z"
    "\<And>z m. node_Next sl' z m = (if z = x \<and> m = n then Some y else node_Next sl z m)"
proof (rule that)
  let ?sl = "sl\<lparr>sl_nodes := (sl_nodes sl)[x := (sl_nodes sl ! x)\<lparr>n_next := (n_next (sl_nodes sl ! x))[n := Some y]\<rparr>]\<rparr>"
  show "node_SetNext sl x n y = Some ?sl" using assms by (simp add: node_SetNext_def)
  have nth: "sl_nodes ?sl ! z = (if z = x then (sl_nodes sl ! x)\<lparr>n_next := (n_next (sl_nodes sl ! x))[n := Some y]\<rparr> else sl_nodes sl ! z)" for z
    using assms(1) by (simp add: nth_list_update)
  show "node_key ?sl z = node_key sl z" for z by (simp only: node_key_def nth) simp
  show h: "node_height ?sl z = node_height sl z" for z by (simp only: node_height_def nth) simp
  show "node_Next ?sl z m = (if z = x \<and> m = n then Some y else node_Next sl z m)" for z m
    unfolding node_Next_def h nth using assms by (auto simp: nth_list_update node_height_def)
qed simp_all

text \<open>After the first \<open>i\<close> levels are linked.\<close>

definition spliced :: "'k skiplist \<Rightarrow> 'k skiplist \<Rightarrow> nat \<Rightarrow> nat \<Rightarrow> (nat \<Rightarrow> nat) \<Rightarrow> bool" where
  "spliced sl sl' i x p \<longleftrightarrow>
     length (sl_nodes sl') = length (sl_nodes sl) \<and> sl_max_height sl' = sl_max_height sl \<and>
     (\<forall>z. node_key sl' z = node_key sl z) \<and> (\<forall>z. node_height sl' z = node_height sl z) \<and>
     (\<forall>z m. node_Next sl' z m =
        (if m < i then (if z = p m then Some (Some x) else if z = x then node_Next sl (p m) m else node_Next sl z m)
         else node_Next sl z m))"

lemma link_levels_spliced:
  assumes "\<And>j. j < i \<Longrightarrow> prev ! j = Some (p j) \<and> p j < length (sl_nodes sl) \<and> j < node_height sl (p j) \<and>
      p j \<noteq> x \<and> node_Next sl (p j) j \<noteq> None"
    and "x < length (sl_nodes sl)" "i \<le> node_height sl x"
  shows "\<exists>sl'. link_levels i x prev sl = Some sl' \<and> spliced sl sl' i x p"
  using assms(1,3)
proof (induction i)
  case 0
  then show ?case by (simp add: spliced_def)
next
  case (Suc i)
  then obtain sl1 where 1: "link_levels i x prev sl = Some sl1" "spliced sl sl1 i x p" by auto
  have j: "prev ! i = Some (p i)" "p i < length (sl_nodes sl)" "i < node_height sl (p i)" "p i \<noteq> x"
    and nx: "node_Next sl (p i) i \<noteq> None" using Suc.prems(1) [of i] by simp_all
  obtain nxt where nxt: "node_Next sl1 (p i) i = Some nxt" "node_Next sl (p i) i = Some nxt"
    using 1(2) nx by (auto simp: spliced_def)
  obtain sl2 where 2: "node_SetNext sl1 x i nxt = Some sl2"
    "length (sl_nodes sl2) = length (sl_nodes sl1)" "sl_max_height sl2 = sl_max_height sl1"
    "\<And>z. node_key sl2 z = node_key sl1 z" "\<And>z. node_height sl2 z = node_height sl1 z"
    "\<And>z m. node_Next sl2 z m = (if z = x \<and> m = i then Some nxt else node_Next sl1 z m)"
    by (rule node_SetNext_spec [of x sl1 i nxt]) (use 1(2) assms(2) Suc.prems(2) in \<open>auto simp: spliced_def\<close>)
  obtain sl3 where 3: "node_SetNext sl2 (p i) i (Some x) = Some sl3"
    "length (sl_nodes sl3) = length (sl_nodes sl2)" "sl_max_height sl3 = sl_max_height sl2"
    "\<And>z. node_key sl3 z = node_key sl2 z" "\<And>z. node_height sl3 z = node_height sl2 z"
    "\<And>z m. node_Next sl3 z m = (if z = p i \<and> m = i then Some (Some x) else node_Next sl2 z m)"
    by (rule node_SetNext_spec [of "p i" sl2 i "Some x"]) (use 1(2) 2 j in \<open>auto simp: spliced_def\<close>)
  have "link_levels (Suc i) x prev sl = Some sl3" using 1(1) 2(1) 3(1) nxt(1) j(1) by simp
  moreover have "spliced sl sl3 (Suc i) x p"
    using 1(2) nxt(2) j(4) unfolding spliced_def
    by (simp add: 2(2-) 3(2-)) (auto simp: less_Suc_eq)
  ultimately show ?case by blast
qed

lemma NewNode_spec:
  assumes "NewNode (sl\<lparr>sl_max_height := mh, sl_rnd := rnd\<rparr>) key height = (sl1, n)"
  shows "n = length (sl_nodes sl)" "length (sl_nodes sl1) = Suc (length (sl_nodes sl))"
    "sl_max_height sl1 = mh" "node_key sl1 n = key" "node_height sl1 n = height"
    "\<And>z. z < n \<Longrightarrow> node_key sl1 z = node_key sl z" "\<And>z. z < n \<Longrightarrow> node_height sl1 z = node_height sl z"
    "\<And>z m. z < n \<Longrightarrow> node_Next sl1 z m = node_Next sl z m"
  using assms
  by (auto simp: NewNode_def node_key_def node_height_def node_Next_def nth_append)

lemma prev_at_facts:
  assumes rep: "sl_rep sl (as @ bs)" and j: "j < kMaxHeight"
  shows "prev_at sl j as < length (sl_nodes sl)" "j < node_height sl (prev_at sl j as)"
    "node_Next sl (prev_at sl j as) j \<noteq> None"
    "sl_max_height sl \<le> j \<Longrightarrow> prev_at sl j as = sl_head"
proof -
  obtain ps where ps: "sl_head # on_level sl j as = ps @ [prev_at sl j as]" using prev_at_cursor by blast
  then have mem: "prev_at sl j as \<in> set (sl_head # on_level sl j as)" by simp
  have bounds: "set as \<subseteq> {1..<length (sl_nodes sl)}" "0 < length (sl_nodes sl)" "node_height sl sl_head = kMaxHeight"
    using rep by (auto simp: sl_rep_def)
  show "prev_at sl j as < length (sl_nodes sl)" "j < node_height sl (prev_at sl j as)"
    using mem bounds j by (auto simp: on_level_def sl_head_def)
  show "node_Next sl (prev_at sl j as) j \<noteq> None" using cursor_next [OF rep j ps] by simp
  assume "sl_max_height sl \<le> j"
  moreover have "node_height sl a \<le> sl_max_height sl" if "a \<in> set as" for a
    using sl_repD(6) [OF rep] that by simp
  ultimately have "on_level sl j as = []" by (fastforce simp: on_level_def filter_empty_conv not_less)
  then show "prev_at sl j as = sl_head" by (simp add: prev_at_def)
qed

text \<open>The array of predecessors that \<^verbatim>\<open>Insert\<close> works with.\<close>

definition insert_prev :: "'k skiplist \<Rightarrow> nat list \<Rightarrow> nat \<Rightarrow> nat option list" where
  "insert_prev sl as height =
     (let prev = set_prevs sl as (sl_max_height sl - 1) (replicate kMaxHeight None)
      in if sl_max_height sl < height then raise_prev (sl_max_height sl) height prev else prev)"

lemma insert_prev_nth:
  assumes rep: "sl_rep sl (as @ bs)" and "j < height" "height \<le> kMaxHeight"
  shows "insert_prev sl as height ! j = Some (prev_at sl j as)"
proof -
  have "j < kMaxHeight" "1 \<le> sl_max_height sl" using assms by (auto simp: sl_rep_def)
  then show ?thesis
    using prev_at_facts(4) [OF rep \<open>j < kMaxHeight\<close>] assms(2)
    by (auto simp: insert_prev_def Let_def raise_prev_nth set_prevs_nth)
qed

lemma Insert_unfold:
  assumes "sl_rep sl (as @ bs)" "split_at cmp sl key as bs"
    and "RandomHeight (sl_rnd sl) = (height, rnd)"
    and "NewNode (sl\<lparr>sl_max_height := max height (sl_max_height sl), sl_rnd := rnd\<rparr>) key height = (sl1, n)"
  shows "SkipList_Insert cmp sl key = link_levels height n (insert_prev sl as height) sl1"
  using assms(3,4)
  by (auto simp: SkipList_Insert_def FindGreaterOrEqual_result [OF assms(1,2)] insert_prev_def
      Let_def max_def not_le split: if_splits)

lemma SkipList_Insert_rep:
  assumes rep: "sl_rep sl (as @ bs)" and split: "split_at cmp sl key as bs"
  shows "\<exists>sl'. SkipList_Insert cmp sl key = Some sl' \<and> sl_rep sl' (as @ length (sl_nodes sl) # bs) \<and>
    node_key sl' (length (sl_nodes sl)) = key \<and>
    (\<forall>z < length (sl_nodes sl). node_key sl' z = node_key sl z)"
proof -
  obtain height rnd where h: "RandomHeight (sl_rnd sl) = (height, rnd)" by (cases "RandomHeight (sl_rnd sl)")
  then have hb: "1 \<le> height" "height \<le> kMaxHeight" using RandomHeight_bounds [of "sl_rnd sl"] by simp_all
  obtain sl1 n where n: "NewNode (sl\<lparr>sl_max_height := max height (sl_max_height sl), sl_rnd := rnd\<rparr>) key height = (sl1, n)"
    by (cases "NewNode (sl\<lparr>sl_max_height := max height (sl_max_height sl), sl_rnd := rnd\<rparr>) key height")
  note new = NewNode_spec [OF n]
  let ?p = "\<lambda>j. prev_at sl j as"
  have p: "?p j < n \<and> j < node_height sl (?p j) \<and> node_Next sl (?p j) j \<noteq> None" if "j < height" for j
    using prev_at_facts [OF rep, of j] that hb new(1) by auto
  have "\<exists>sl'. link_levels height n (insert_prev sl as height) sl1 = Some sl' \<and> spliced sl1 sl' height n ?p"
  proof (rule link_levels_spliced)
    fix j assume "j < height"
    then show "insert_prev sl as height ! j = Some (?p j) \<and> ?p j < length (sl_nodes sl1) \<and>
        j < node_height sl1 (?p j) \<and> ?p j \<noteq> n \<and> node_Next sl1 (?p j) j \<noteq> None"
      using insert_prev_nth [OF rep _ hb(2)] p [of j] new by auto
  qed (use new in simp_all)
  then obtain sl' where link: "link_levels height n (insert_prev sl as height) sl1 = Some sl'"
    and sp: "spliced sl1 sl' height n ?p" by blast
  have ins: "SkipList_Insert cmp sl key = Some sl'" using Insert_unfold [OF rep split h n] link by simp
  have height': "node_height sl' z = (if z = n then height else node_height sl z)" if "z \<le> n" for z
    using sp new that by (auto simp: spliced_def)
  have next': "node_Next sl' z m = (if z = n then node_Next sl (?p m) m else if z = ?p m then Some (Some n) else node_Next sl z m)"
    if "z \<le> n" "m < height" for z m
    using sp new that p [of m] by (auto simp: spliced_def)
  have next'': "node_Next sl' z m = node_Next sl z m" if "z < n" "height \<le> m" for z m
    using sp new that by (auto simp: spliced_def)
  have old: "set as \<union> set bs = {1..<n}" "distinct (as @ bs)" using rep new(1) by (auto simp: sl_rep_def)
  have lev: "on_level sl' i (as @ n # bs) =
      (if i < height then on_level sl i as @ n # on_level sl i bs else on_level sl i (as @ bs))" for i
  proof -
    have "filter (\<lambda>x. i < node_height sl' x) l = filter (\<lambda>x. i < node_height sl x) l" if "set l \<subseteq> {1..<n}" for l
      by (rule filter_cong [OF refl]) (use that height' in auto)
    moreover have "set as \<subseteq> {1..<n}" "set bs \<subseteq> {1..<n}" using old(1) by blast+
    ultimately show ?thesis using height' [of n] by (simp add: on_level_def)
  qed
  have linked': "linked (\<lambda>x. node_Next sl' x i) (sl_head # on_level sl' i (as @ n # bs))" if i: "i < kMaxHeight" for i
  proof -
    have l: "linked (\<lambda>x. node_Next sl x i) (sl_head # on_level sl i (as @ bs))" using rep i by (simp add: sl_rep_def)
    have small: "set (sl_head # on_level sl i (as @ bs)) \<subseteq> {..<n}" "distinct (sl_head # on_level sl i (as @ bs))"
      using sl_repD(2-4,7) [OF rep] new(1) by (auto simp: on_level_def sl_head_def)
    show ?thesis
    proof (cases "i < height")
      case True
      obtain ps where ps: "sl_head # on_level sl i as = ps @ [?p i]" using prev_at_cursor by blast
      then have eq: "sl_head # on_level sl i (as @ bs) = ps @ ?p i # on_level sl i bs"
        by (simp add: on_level_def)
      have "linked (\<lambda>x. if x \<le> n then node_Next sl' x i else node_Next sl x i) (ps @ ?p i # n # on_level sl i bs)"
        by (rule linked_insert [where f = "\<lambda>x. node_Next sl x i"])
          (use l small p [OF True] True in \<open>auto simp: eq next'\<close>)
      moreover have "set (ps @ ?p i # n # on_level sl i bs) \<subseteq> {..n}" using small unfolding eq by auto
      ultimately have "linked (\<lambda>x. node_Next sl' x i) (ps @ ?p i # n # on_level sl i bs)"
        by (subst linked_cong [where f = "\<lambda>x. if x \<le> n then node_Next sl' x i else node_Next sl x i"]) auto
      moreover have "sl_head # on_level sl' i (as @ n # bs) = ps @ ?p i # n # on_level sl i bs"
        using True ps by (simp add: lev)
      ultimately show ?thesis by simp
    next
      case False
      have "linked (\<lambda>x. node_Next sl' x i) (sl_head # on_level sl i (as @ bs)) =
          linked (\<lambda>x. node_Next sl x i) (sl_head # on_level sl i (as @ bs))"
        by (rule linked_cong) (use small False next'' in auto)
      then show ?thesis using False l by (simp add: lev)
    qed
  qed
  have heights: "1 \<le> node_height sl' x \<and> node_height sl' x \<le> sl_max_height sl'" if "x \<in> set (as @ n # bs)" for x
    using that height' [of x] sl_repD(4-6) [OF rep, of x] new sp hb by (auto simp: spliced_def)
  have nodes: "length (sl_nodes sl') = Suc n" "sl_max_height sl' = max height (sl_max_height sl)" "0 < n"
    using sp new sl_repD(7) [OF rep] by (simp_all add: spliced_def)
  moreover have "set (as @ n # bs) = {1..<Suc n}" "distinct (as @ n # bs)" using old \<open>0 < n\<close> by auto
  moreover have "node_height sl' sl_head = kMaxHeight"
    using height' [of sl_head] sl_repD(8) [OF rep] \<open>0 < n\<close> by (simp add: sl_head_def)
  ultimately have "sl_rep sl' (as @ n # bs)"
    unfolding sl_rep_def using heights linked' hb sl_repD(9,10) [OF rep] by (simp, force)
  moreover have "node_key sl' n = key" "\<forall>z < n. node_key sl' z = node_key sl z"
    using sp new by (auto simp: spliced_def)
  ultimately show ?thesis using ins new(1) by auto
qed

section \<open>The empty list\<close>

lemma clear_head_spec:
  assumes "sl_nodes sl \<noteq> []" "i \<le> node_height sl sl_head"
  shows "\<exists>sl'. clear_head i sl = Some sl' \<and> length (sl_nodes sl') = length (sl_nodes sl) \<and>
    sl_max_height sl' = sl_max_height sl \<and> node_height sl' sl_head = node_height sl sl_head \<and>
    (\<forall>j<i. node_Next sl' sl_head j = Some None)"
  using assms(2)
proof (induction i)
  case (Suc i)
  then obtain sl1 where 1: "clear_head i sl = Some sl1" "length (sl_nodes sl1) = length (sl_nodes sl)"
    "sl_max_height sl1 = sl_max_height sl" "node_height sl1 sl_head = node_height sl sl_head"
    "\<forall>j<i. node_Next sl1 sl_head j = Some None" by auto
  obtain sl2 where "node_SetNext sl1 sl_head i None = Some sl2"
    "length (sl_nodes sl2) = length (sl_nodes sl1)" "sl_max_height sl2 = sl_max_height sl1"
    "\<And>z. node_height sl2 z = node_height sl1 z"
    "\<And>z m. node_Next sl2 z m = (if z = sl_head \<and> m = i then Some None else node_Next sl1 z m)"
    by (rule node_SetNext_spec [of sl_head sl1 i None]) (use 1 Suc.prems assms(1) in \<open>auto simp: sl_head_def\<close>)
  then show ?case using 1 by (auto simp: less_Suc_eq)
qed simp

lemma make_SkipList_rep: "\<exists>sl. make_SkipList any_key = Some sl \<and> sl_rep sl []"
proof -
  let ?sl = "fst (NewNode \<lparr>sl_nodes = [], sl_max_height = 1, sl_rnd = make_Random 0xdeadbeef\<rparr> any_key kMaxHeight)"
  have "sl_nodes ?sl \<noteq> []" "length (sl_nodes ?sl) = 1" "node_height ?sl sl_head = kMaxHeight" "sl_max_height ?sl = 1"
    by (simp_all add: NewNode_def node_height_def sl_head_def)
  then obtain sl' where "clear_head kMaxHeight ?sl = Some sl'" "length (sl_nodes sl') = 1" "sl_max_height sl' = 1"
    "node_height sl' sl_head = kMaxHeight" "\<forall>j<kMaxHeight. node_Next sl' sl_head j = Some None"
    using clear_head_spec [of ?sl kMaxHeight] by auto
  moreover have "1 \<le> kMaxHeight" by (simp add: kMaxHeight_def)
  moreover have "make_SkipList any_key = clear_head kMaxHeight ?sl"
    by (simp add: make_SkipList_def case_prod_beta Let_def)
  ultimately show ?thesis by (auto simp: sl_rep_def on_level_def)
qed

section \<open>The list of keys a skip list stands for\<close>

definition sl_abs :: "('k \<Rightarrow> bool) \<Rightarrow> ('k \<Rightarrow> 'k \<Rightarrow> int) \<Rightarrow> 'k skiplist \<Rightarrow> 'k list \<Rightarrow> bool" where
  "sl_abs valid cmp sl ks \<longleftrightarrow>
     (\<exists>xs. sl_rep sl xs \<and> ks = map (node_key sl) xs) \<and>
     sorted_wrt (\<lambda>a b. cmp a b < 0) ks \<and> (\<forall>k\<in>set ks. valid k)"

definition insert_key :: "('k \<Rightarrow> 'k \<Rightarrow> int) \<Rightarrow> 'k \<Rightarrow> 'k list \<Rightarrow> 'k list" where
  "insert_key cmp k ks = takeWhile (\<lambda>a. cmp a k < 0) ks @ k # dropWhile (\<lambda>a. cmp a k < 0) ks"

lemma make_SkipList_abs: "\<exists>sl. make_SkipList any_key = Some sl \<and> sl_abs valid cmp sl []"
  using make_SkipList_rep [of any_key] by (auto simp: sl_abs_def)

lemma set_insert_key [simp]: "set (insert_key cmp k ks) = insert k (set ks)"
  unfolding insert_key_def by (metis Un_insert_right list.simps(15) set_append takeWhile_dropWhile_id)

context key_order
begin

lemma dropWhile_sorted:
  assumes "sorted_wrt (\<lambda>a b. cmp a b < 0) ks" "\<forall>a\<in>set ks. valid a" "valid k"
  shows "\<forall>b\<in>set (dropWhile (\<lambda>a. cmp a k < 0) ks). \<not> cmp b k < 0"
  using assms(1,2)
proof (induction ks)
  case (Cons a ks)
  show ?case
  proof (cases "cmp a k < 0")
    case True
    then show ?thesis using Cons.IH Cons.prems by (simp only: dropWhile.simps if_True sorted_wrt.simps list.set) blast
  next
    case False
    have "\<not> cmp b k < 0" if "b \<in> set ks" for b
    proof -
      have "cmp a b < 0" "valid a" "valid b" using Cons.prems that by simp_all
      then show ?thesis using cmp_less_trans [of a b k] False assms(3) by blast
    qed
    then show ?thesis using False by simp
  qed
qed simp

lemma abs_split:
  assumes "sl_abs valid cmp sl ks" "valid k"
  obtains as bs where "sl_rep sl (as @ bs)" "split_at cmp sl k as bs"
    "takeWhile (\<lambda>a. cmp a k < 0) ks = map (node_key sl) as" "dropWhile (\<lambda>a. cmp a k < 0) ks = map (node_key sl) bs"
    "ks = map (node_key sl) (as @ bs)"
proof -
  obtain xs where xs: "sl_rep sl xs" "ks = map (node_key sl) xs" using assms(1) by (auto simp: sl_abs_def)
  have sorted: "sorted_wrt (\<lambda>a b. cmp a b < 0) ks" "\<forall>a\<in>set ks. valid a"
    using assms(1) by (simp_all add: sl_abs_def)
  let ?P = "\<lambda>x. cmp (node_key sl x) k < 0"
  have d: "dropWhile (\<lambda>a. cmp a k < 0) ks = map (node_key sl) (dropWhile ?P xs)"
    unfolding xs(2) by (simp add: dropWhile_map o_def)
  have "\<forall>b\<in>set (dropWhile ?P xs). \<not> ?P b"
    using dropWhile_sorted [OF sorted assms(2)] unfolding d set_map by blast
  then have "split_at cmp sl k (takeWhile ?P xs) (dropWhile ?P xs)"
    unfolding split_at_def by (blast dest: set_takeWhileD)
  moreover have "takeWhile (\<lambda>a. cmp a k < 0) ks = map (node_key sl) (takeWhile ?P xs)"
    unfolding xs(2) by (simp add: takeWhile_map o_def)
  ultimately show thesis using that [of "takeWhile ?P xs" "dropWhile ?P xs"] xs d by simp
qed

lemma insert_key_sorted:
  assumes "sorted_wrt (\<lambda>a b. cmp a b < 0) ks" "\<forall>a\<in>set ks. valid a" "valid k"
    and "\<forall>a\<in>set ks. cmp a k \<noteq> 0"
  shows "sorted_wrt (\<lambda>a b. cmp a b < 0) (insert_key cmp k ks)"
proof -
  let ?t = "takeWhile (\<lambda>a. cmp a k < 0) ks" and ?d = "dropWhile (\<lambda>a. cmp a k < 0) ks"
  have ks: "ks = ?t @ ?d" by simp
  then have s: "sorted_wrt (\<lambda>a b. cmp a b < 0) ?t" "sorted_wrt (\<lambda>a b. cmp a b < 0) ?d"
    "\<forall>a\<in>set ?t. \<forall>b\<in>set ?d. cmp a b < 0"
    using assms(1) by (metis sorted_wrt_append)+
  have "cmp k b < 0" if b: "b \<in> set ?d" for b
  proof -
    have "b \<in> set ks" using b by (meson set_dropWhileD)
    then have "valid b" "cmp b k \<noteq> 0" using assms(2,4) by auto
    moreover have "\<not> cmp b k < 0" using dropWhile_sorted [OF assms(1-3)] b by blast
    ultimately show ?thesis using cmp_swap [OF assms(3), of b] by linarith
  qed
  then show ?thesis using s by (auto simp: insert_key_def sorted_wrt_append dest: set_takeWhileD)
qed

text \<open>Insertion refines the insertion into the sorted list of keys.\<close>

lemma Insert_abs:
  assumes abs: "sl_abs valid cmp sl ks" and k: "valid k" "\<forall>a\<in>set ks. cmp a k \<noteq> 0"
  shows "\<exists>sl'. SkipList_Insert cmp sl k = Some sl' \<and> sl_abs valid cmp sl' (insert_key cmp k ks)"
proof -
  obtain as bs where r: "sl_rep sl (as @ bs)" "split_at cmp sl k as bs"
    and t: "takeWhile (\<lambda>a. cmp a k < 0) ks = map (node_key sl) as" "dropWhile (\<lambda>a. cmp a k < 0) ks = map (node_key sl) bs"
    by (rule abs_split [OF abs k(1)])
  let ?n = "length (sl_nodes sl)"
  obtain sl' where sl': "SkipList_Insert cmp sl k = Some sl'" "sl_rep sl' (as @ ?n # bs)"
    "node_key sl' ?n = k" "\<forall>z<?n. node_key sl' z = node_key sl z"
    using SkipList_Insert_rep [OF r] by blast
  have same: "map (node_key sl') l = map (node_key sl) l" if "set l \<subseteq> set (as @ bs)" for l
    using sl'(4) sl_repD(4) [OF r(1)] that by (auto simp: subset_iff)
  then have "insert_key cmp k ks = map (node_key sl') (as @ ?n # bs)"
    using sl'(3) same [of as] same [of bs] by (simp add: insert_key_def t)
  moreover have "sorted_wrt (\<lambda>a b. cmp a b < 0) (insert_key cmp k ks)" "\<forall>a\<in>set (insert_key cmp k ks). valid a"
    using insert_key_sorted abs k by (auto simp: sl_abs_def)
  ultimately show ?thesis using sl'(1,2) unfolding sl_abs_def by blast
qed

lemma Seek_abs:
  assumes abs: "sl_abs valid cmp sl ks" and k: "valid k"
  shows "\<exists>it. Iter_Seek cmp sl k = Some it \<and>
    map_option (node_key sl) it = hd_option (dropWhile (\<lambda>a. cmp a k < 0) ks)"
proof -
  obtain as bs where r: "sl_rep sl (as @ bs)" "split_at cmp sl k as bs"
    and t: "dropWhile (\<lambda>a. cmp a k < 0) ks = map (node_key sl) bs"
    by (rule abs_split [OF abs k])
  show ?thesis
    by (simp add: Iter_Seek_def FindGreaterOrEqual_result [OF r] t) (cases bs, simp_all add: hd_option_def)
qed

lemma Contains_abs:
  assumes abs: "sl_abs valid cmp sl ks" and k: "valid k"
  shows "SkipList_Contains cmp sl k = Some (\<exists>a\<in>set ks. cmp a k = 0)"
proof -
  obtain as bs where r: "sl_rep sl (as @ bs)" "split_at cmp sl k as bs"
    and ks: "ks = map (node_key sl) (as @ bs)" by (rule abs_split [OF abs k])
  have v: "valid (node_key sl x)" if "x \<in> set (as @ bs)" for x using abs ks that by (auto simp: sl_abs_def)
  have "SkipList_Contains cmp sl k = Some (case bs of [] \<Rightarrow> False | n # _ \<Rightarrow> cmp k (node_key sl n) = 0)"
    by (simp add: SkipList_Contains_def FindGreaterOrEqual_result [OF r] hd_option_def split: list.split)
  also have "(case bs of [] \<Rightarrow> False | n # _ \<Rightarrow> cmp k (node_key sl n) = 0) = (\<exists>a\<in>set ks. cmp a k = 0)"
  proof (cases bs)
    case Nil
    then show ?thesis using r(2) ks by (auto simp: split_at_def)
  next
    case (Cons n bs')
    have "cmp (node_key sl n) (node_key sl b) < 0" if "b \<in> set bs'" for b
      using abs that unfolding sl_abs_def ks Cons by (auto simp: sorted_wrt_append)
    then have "cmp (node_key sl b) k \<noteq> 0" if "b \<in> set bs'" for b
      using that v [of n] v [of b] k Cons r(2) cmp_less_le [of "node_key sl n" "node_key sl b" k]
      by (auto simp: split_at_def)
    then show ?thesis
      using r(2) cmp_eq_sym [OF k v, of n] unfolding ks Cons by (auto simp: split_at_def)
  qed
  finally show ?thesis .
qed

text \<open>The iterator walks the keys in both directions.\<close>

lemma Iter_walk:
  assumes rep: "sl_rep sl xs" and abs: "sl_abs valid cmp sl (map (node_key sl) xs)" and i: "i < length xs"
  shows "Iter_Next sl (Some (xs ! i)) = Some (if Suc i < length xs then Some (xs ! Suc i) else None)"
    "Iter_Prev cmp sl (Some (xs ! i)) = Some (if i = 0 then None else Some (xs ! (i - 1)))"
proof -
  have xs: "xs = take i xs @ xs ! i # drop (Suc i) xs" using i by (rule id_take_nth_drop)
  have "sl_head # on_level sl 0 xs = (sl_head # take i xs) @ xs ! i # drop (Suc i) xs"
    using on_level_0(2) [of sl xs "[]"] rep xs by simp
  from sl_rep_next [OF rep _ this]
  show "Iter_Next sl (Some (xs ! i)) = Some (if Suc i < length xs then Some (xs ! Suc i) else None)"
    using Cons_nth_drop_Suc [of "Suc i" xs] by (auto simp: Iter_Next_def kMaxHeight_def split: list.splits)
  have key: "valid (node_key sl (xs ! i))" using abs i by (simp add: sl_abs_def)
  have "sorted_wrt (\<lambda>a b. cmp a b < 0) (map (node_key sl) (take i xs @ xs ! i # drop (Suc i) xs))"
    using abs xs by (simp add: sl_abs_def)
  then have before: "\<forall>a\<in>set (take i xs). cmp (node_key sl a) (node_key sl (xs ! i)) < 0"
    and after: "\<forall>b\<in>set (drop (Suc i) xs). cmp (node_key sl (xs ! i)) (node_key sl b) < 0"
    unfolding map_append list.map sorted_wrt_append sorted_wrt.simps by auto
  have "\<not> cmp (node_key sl b) (node_key sl (xs ! i)) < 0" if "b \<in> set (drop i xs)" for b
  proof (cases "b = xs ! i")
    case True
    then show ?thesis using cmp_refl [OF key] by simp
  next
    case False
    then have b: "b \<in> set (drop (Suc i) xs)" using that i by (simp flip: Cons_nth_drop_Suc)
    then have "valid (node_key sl b)" using abs by (auto simp: sl_abs_def dest: in_set_dropD)
    then show ?thesis using after b cmp_swap [OF key] cmp_swap key by (metis less_asym)
  qed
  then have "split_at cmp sl (node_key sl (xs ! i)) (take i xs) (drop i xs)"
    using before by (simp add: split_at_def)
  then have less: "FindLessThan cmp sl (node_key sl (xs ! i)) = Some (last (sl_head # take i xs))"
    using FindLessThan_result [of sl "take i xs" "drop i xs"] rep by simp
  show "Iter_Prev cmp sl (Some (xs ! i)) = Some (if i = 0 then None else Some (xs ! (i - 1)))"
  proof (cases i)
    case 0
    then show ?thesis using less by (simp add: Iter_Prev_def)
  next
    case (Suc j)
    then have "last (sl_head # take i xs) = xs ! j" using i by (simp add: take_Suc_conv_app_nth)
    moreover have "xs ! j \<noteq> sl_head" using sl_repD(3) [OF rep] i Suc by (metis Suc_lessD nth_mem)
    ultimately show ?thesis using less Suc by (simp add: Iter_Prev_def)
  qed
qed

end

lemma Iter_ends:
  assumes "sl_rep sl xs"
  shows "Iter_SeekToFirst sl = Some (hd_option xs)"
    "Iter_SeekToLast sl = Some (if xs = [] then None else Some (last xs))"
proof -
  have "sl_head # on_level sl 0 xs = [] @ sl_head # xs" using on_level_0(2) [of sl xs "[]"] assms by simp
  from sl_rep_next [OF assms _ this] show "Iter_SeekToFirst sl = Some (hd_option xs)"
    by (simp add: Iter_SeekToFirst_def hd_option_def kMaxHeight_def)
  have "xs \<noteq> [] \<Longrightarrow> last xs \<noteq> sl_head" using sl_repD(3) [OF assms] by (metis last_in_set)
  then show "Iter_SeekToLast sl = Some (if xs = [] then None else Some (last xs))"
    by (simp add: Iter_SeekToLast_def FindLast_result [OF assms])
qed

text \<open>
  C12: inserting a key keeps the structure of the skip list: the call returns, whatever the random
  height, every one of the twelve levels still links exactly the nodes that reach it, in the order of
  the lowest level and ending in \<^verbatim>\<open>NULL\<close>, the new node stands between the nodes before its key
  and those after it, and no other key changes.
\<close>
theorem skiplist_insert_invariant:
  assumes "sl_rep sl (as @ bs)"
    and "\<forall>a\<in>set as. cmp (node_key sl a) key < 0" "\<forall>b\<in>set bs. 0 \<le> cmp (node_key sl b) key"
  shows "\<exists>sl'. SkipList_Insert cmp sl key = Some sl' \<and> sl_rep sl' (as @ length (sl_nodes sl) # bs) \<and>
    node_key sl' (length (sl_nodes sl)) = key \<and> (\<forall>z < length (sl_nodes sl). node_key sl' z = node_key sl z)"
  by (rule SkipList_Insert_rep) (use assms in \<open>simp_all add: split_at_def not_less\<close>)

theorem skiplist_insert_invariant_witness:
  "\<exists>sl sl'. make_SkipList (0 :: int) = Some sl \<and> SkipList_Insert (-) sl 7 = Some sl' \<and>
    sl_rep sl' [length (sl_nodes sl)] \<and> node_key sl' (length (sl_nodes sl)) = 7"
  using make_SkipList_rep [of "0 :: int"] skiplist_insert_invariant [of _ "[]" "[]" "(-)" 7] by fastforce

end
