(* ===== verification/Ldb_Memtable.thy ===== *)
theory Ldb_Memtable
  imports Ldb_Skiplist Ldb_Dbformat Ldb_Status
begin

text \<open>
  The table of recent writes, \<^verbatim>\<open>db/memtable.cc\<close>: entries are byte strings of the internal key and
  the value, each with its length in front, held in a skip list that compares the internal keys.
  A pointer to an entry is the bytes from there on.
\<close>

section \<open>Entries\<close>

text \<open>The slice at a pointer and the pointer behind it; five bytes are enough for the length.\<close>

definition mem_GetLengthPrefixedSlice :: "byte list \<Rightarrow> (byte list \<times> byte list) option" where
  "mem_GetLengthPrefixedSlice data =
     (case GetVarint32Ptr (take 5 data) of
        None \<Rightarrow> None
      | Some (len, rest) \<Rightarrow>
          (let p = drop (length (take 5 data) - length rest) data
           in Some (take (unat len) p, drop (unat len) p)))"

definition KeyComparator :: "(byte list \<Rightarrow> byte list \<Rightarrow> int) \<Rightarrow> byte list \<Rightarrow> byte list \<Rightarrow> int" where
  "KeyComparator user_cmp aptr bptr =
     (case (mem_GetLengthPrefixedSlice aptr, mem_GetLengthPrefixedSlice bptr) of
        (Some (a, _), Some (b, _)) \<Rightarrow> InternalKeyCompare user_cmp a b
      | _ \<Rightarrow> 0)"

definition EncodeKey :: "byte list \<Rightarrow> byte list" where
  "EncodeKey target = PutVarint32 [] (of_nat (length target)) @ target"

section \<open>The table\<close>

record MemTable =
  mt_refs :: int
  mt_table :: "byte list skiplist"

definition make_MemTable :: "MemTable option" where
  "make_MemTable = do { table \<leftarrow> make_SkipList []; Some \<lparr>mt_refs = 0, mt_table = table\<rparr> }"

definition MemTable_Ref :: "MemTable \<Rightarrow> MemTable" where
  "MemTable_Ref m = m\<lparr>mt_refs := mt_refs m + 1\<rparr>"

text \<open>The result says whether the table is still there.\<close>

definition MemTable_Unref :: "MemTable \<Rightarrow> MemTable option" where
  "MemTable_Unref m = (let m' = m\<lparr>mt_refs := mt_refs m - 1\<rparr> in if mt_refs m' \<le> 0 then None else Some m')"

definition mem_encoded_len :: "byte list \<Rightarrow> byte list \<Rightarrow> nat" where
  "mem_encoded_len key v =
     (let internal_key_size = length key + 8
      in VarintLength (of_nat internal_key_size) + internal_key_size +
         VarintLength (of_nat (length v)) + length v)"

definition mem_entry :: "SequenceNumber \<Rightarrow> ValueType \<Rightarrow> byte list \<Rightarrow> byte list \<Rightarrow> byte list" where
  "mem_entry s type key v =
     EncodeVarint32 (of_nat (length key + 8)) @ key @ EncodeFixed64 (push_bit 8 s OR ucast type) @
     EncodeVarint32 (of_nat (length v)) @ v"

definition MemTable_Add ::
  "(byte list \<Rightarrow> byte list \<Rightarrow> int) \<Rightarrow> MemTable \<Rightarrow> SequenceNumber \<Rightarrow> ValueType \<Rightarrow> byte list \<Rightarrow> byte list \<Rightarrow>
    MemTable option" where
  "MemTable_Add user_cmp m s type key v =
     do { table \<leftarrow> SkipList_Insert (KeyComparator user_cmp) (mt_table m) (mem_entry s type key v);
          Some (m\<lparr>mt_table := table\<rparr>) }"

text \<open>The result is the boolean the code returns, with \<^verbatim>\<open>*value\<close> and \<^verbatim>\<open>*s\<close> after the call.\<close>

definition MemTable_Get ::
  "(byte list \<Rightarrow> byte list \<Rightarrow> int) \<Rightarrow> MemTable \<Rightarrow> LookupKey \<Rightarrow> byte list \<Rightarrow> Status \<Rightarrow>
    (bool \<times> byte list \<times> Status) option" where
  "MemTable_Get user_cmp m key v s =
     do { iter \<leftarrow> Iter_Seek (KeyComparator user_cmp) (mt_table m) (lookup_memtable_key key);
          if Iter_Valid iter
          then do {
            let entry = Iter_key (mt_table m) iter;
            (key_length, rest) \<leftarrow> GetVarint32Ptr (take 5 entry);
            let key_ptr = drop (length (take 5 entry) - length rest) entry;
            if user_cmp (take (unat (key_length - 8)) key_ptr) (lookup_user_key key) = 0
            then let tag = DecodeFixed64 (drop (unat (key_length - 8)) key_ptr);
                     type = ucast (tag AND 0xff) :: ValueType
                 in if type = kTypeValue
                    then do { (v', _) \<leftarrow> mem_GetLengthPrefixedSlice (drop (unat key_length) key_ptr);
                              Some (True, v', s) }
                    else if type = kTypeDeletion then Some (True, v, Status_NotFound [] [])
                    else Some (False, v, s)
            else Some (False, v, s) }
          else Some (False, v, s) }"

section \<open>The iterator\<close>

definition MemIter_Seek ::
  "(byte list \<Rightarrow> byte list \<Rightarrow> int) \<Rightarrow> MemTable \<Rightarrow> byte list \<Rightarrow> nat option option" where
  "MemIter_Seek user_cmp m k = Iter_Seek (KeyComparator user_cmp) (mt_table m) (EncodeKey k)"

definition MemIter_SeekToFirst :: "MemTable \<Rightarrow> nat option option" where
  "MemIter_SeekToFirst m = Iter_SeekToFirst (mt_table m)"

definition MemIter_SeekToLast :: "MemTable \<Rightarrow> nat option option" where
  "MemIter_SeekToLast m = Iter_SeekToLast (mt_table m)"

definition MemIter_Next :: "MemTable \<Rightarrow> nat option \<Rightarrow> nat option option" where
  "MemIter_Next m it = Iter_Next (mt_table m) it"

definition MemIter_Prev ::
  "(byte list \<Rightarrow> byte list \<Rightarrow> int) \<Rightarrow> MemTable \<Rightarrow> nat option \<Rightarrow> nat option option" where
  "MemIter_Prev user_cmp m it = Iter_Prev (KeyComparator user_cmp) (mt_table m) it"

definition MemIter_key :: "MemTable \<Rightarrow> nat option \<Rightarrow> byte list option" where
  "MemIter_key m it = do { (k, _) \<leftarrow> mem_GetLengthPrefixedSlice (Iter_key (mt_table m) it); Some k }"

definition MemIter_value :: "MemTable \<Rightarrow> nat option \<Rightarrow> byte list option" where
  "MemIter_value m it =
     do { (_, rest) \<leftarrow> mem_GetLengthPrefixedSlice (Iter_key (mt_table m) it);
          (v, _) \<leftarrow> mem_GetLengthPrefixedSlice rest; Some v }"

section \<open>Reading an entry\<close>

lemma length_EncodeVarint32: "length (EncodeVarint32 v) \<le> 5"
proof -
  have "unat v < 2 ^ 32" using unsigned_less [of v, where ?'a = nat] by simp
  then show ?thesis using length_leb128_32 by (simp add: EncodeVarint32_leb128)
qed

lemma GetVarint32Ptr_entry:
  "GetVarint32Ptr (take 5 (EncodeVarint32 v @ rest)) = Some (v, take (5 - length (EncodeVarint32 v)) rest)"
  using GetVarint32_Encode [of v "take (5 - length (EncodeVarint32 v)) rest"] length_EncodeVarint32 [of v]
  by (simp add: GetVarint32_def split: option.splits prod.splits)

lemma entry_ptr:
  "drop (length (take 5 (EncodeVarint32 v @ rest)) - length (take (5 - length (EncodeVarint32 v)) rest))
     (EncodeVarint32 v @ rest) = rest"
proof -
  have "length (take 5 (EncodeVarint32 v @ rest)) - length (take (5 - length (EncodeVarint32 v)) rest) = length (EncodeVarint32 v)"
    using length_EncodeVarint32 [of v] by (simp add: min_def)
  then show ?thesis by simp
qed

lemma mem_GetLengthPrefixedSlice_Encode:
  assumes "length xs < 2 ^ 32"
  shows "mem_GetLengthPrefixedSlice (EncodeVarint32 (of_nat (length xs)) @ xs @ rest) = Some (xs, rest)"
  unfolding mem_GetLengthPrefixedSlice_def GetVarint32Ptr_entry option.case prod.case Let_def entry_ptr
  using assms by (simp add: unat_of_nat take_bit_nat_eq_self)

text \<open>Sizes fit their fields, sequence numbers are within 56 bits.\<close>

type_synonym mem_write = "SequenceNumber \<times> ValueType \<times> byte list \<times> byte list"

definition write_ok :: "mem_write \<Rightarrow> bool" where
  "write_ok = (\<lambda>(s, type, key, v). s \<le> kMaxSequenceNumber \<and> (type = kTypeValue \<or> type = kTypeDeletion) \<and>
     length key + 8 < 2 ^ 32 \<and> length v < 2 ^ 32)"

definition entry_of :: "mem_write \<Rightarrow> byte list" where
  "entry_of = (\<lambda>(s, type, key, v). mem_entry s type key v)"

definition internal_key_of :: "SequenceNumber \<Rightarrow> ValueType \<Rightarrow> byte list \<Rightarrow> byte list" where
  "internal_key_of s type key = AppendInternalKey [] \<lparr>pk_user_key = key, pk_sequence = s, pk_type = type\<rparr>"

lemma internal_key_of: "internal_key_of s type key = key @ EncodeFixed64 (push_bit 8 s OR ucast type)"
  by (simp add: internal_key_of_def AppendInternalKey_def PutFixed64_def PackSequenceAndType_def)

lemma mem_entry_slice:
  assumes "length key + 8 < 2 ^ 32"
  shows "mem_GetLengthPrefixedSlice (mem_entry s type key v) =
    Some (internal_key_of s type key, EncodeVarint32 (of_nat (length v)) @ v)"
  using mem_GetLengthPrefixedSlice_Encode [of "internal_key_of s type key"] assms
  by (simp add: mem_entry_def internal_key_of)

lemma lookup_slice:
  assumes "length key + 8 < 2 ^ 32"
  shows "mem_GetLengthPrefixedSlice (lookup_memtable_key (make_LookupKey key s)) =
    Some (internal_key_of s kValueTypeForSeek key, [])"
  using mem_GetLengthPrefixedSlice_Encode [of "internal_key_of s kValueTypeForSeek key" "[]"] assms
  by (simp add: lookup_memtable_key_def make_LookupKey_def Let_def internal_key_of PackSequenceAndType_def)

lemma lookup_user: "lookup_user_key (make_LookupKey key s) = key"
  by (simp add: lookup_user_key_def make_LookupKey_def Let_def)

lemma mem_entry_length:
  assumes "length key + 8 < 2 ^ 32" "length v < 2 ^ 32"
  shows "length (mem_entry s type key v) = mem_encoded_len key v"
proof -
  have len: "length (EncodeVarint32 (of_nat n)) = VarintLength (of_nat n)" if "n < 2 ^ 32" for n
    using that by (simp add: EncodeVarint32_leb128 VarintLength_leb128 unat_of_nat take_bit_nat_eq_self)
  show ?thesis
    using assms len [of "length key + 8"] len [of "length v"] by (simp add: mem_entry_def mem_encoded_len_def Let_def)
qed

section \<open>The order of the entries\<close>

definition mem_valid :: "byte list \<Rightarrow> bool" where
  "mem_valid e \<longleftrightarrow> (\<exists>ik rest. mem_GetLengthPrefixedSlice e = Some (ik, rest) \<and> 8 \<le> length ik)"

lemma KeyComparator_slices:
  "mem_GetLengthPrefixedSlice a = Some (ka, ra) \<Longrightarrow> mem_GetLengthPrefixedSlice b = Some (kb, rb) \<Longrightarrow>
    KeyComparator user_cmp a b = InternalKeyCompare user_cmp ka kb"
  by (simp add: KeyComparator_def)

interpretation memtable: key_order mem_valid "KeyComparator Bytewise_Compare"
proof (unfold_locales, goal_cases)
  case (1 a b)
  then show ?case
    using internal.cmp_swap by (auto simp: mem_valid_def KeyComparator_slices internal_key_def)
next
  case (2 a b c)
  then obtain ka kb kc where k: "8 \<le> length ka" "8 \<le> length kb" "8 \<le> length kc"
    and "\<exists>r. mem_GetLengthPrefixedSlice a = Some (ka, r)" "\<exists>r. mem_GetLengthPrefixedSlice b = Some (kb, r)"
      "\<exists>r. mem_GetLengthPrefixedSlice c = Some (kc, r)"
    unfolding mem_valid_def by blast
  then show ?case
    using 2(4,5) internal.cmp_trans [of ka kb kc] by (auto simp: KeyComparator_slices internal_key_def)
qed

lemma internal_key_of_less:
  assumes "s \<le> kMaxSequenceNumber" "s' \<le> kMaxSequenceNumber"
  shows "InternalKeyCompare Bytewise_Compare (internal_key_of s t k) (internal_key_of s' t' k') < 0 \<longleftrightarrow>
    k < k' \<or> k = k' \<and> (s' < s \<or> s = s' \<and> t' < t)"
  using internal_key_less [of "\<lparr>pk_user_key = k, pk_sequence = s, pk_type = t\<rparr>"
      "\<lparr>pk_user_key = k', pk_sequence = s', pk_type = t'\<rparr>"] assms
  by (simp add: internal_key_of_def)

lemma internal_key_of_eq:
  assumes "s \<le> kMaxSequenceNumber" "s' \<le> kMaxSequenceNumber"
  shows "InternalKeyCompare Bytewise_Compare (internal_key_of s t k) (internal_key_of s' t' k') = 0 \<longleftrightarrow>
    k = k' \<and> s = s' \<and> t = t'"
proof -
  have "internal_key (\<lambda>_. True) (internal_key_of s t k)" for s t k
    by (simp add: internal_key_def internal_key_of)
  then have "0 < InternalKeyCompare Bytewise_Compare (internal_key_of s t k) (internal_key_of s' t' k') \<longleftrightarrow>
      InternalKeyCompare Bytewise_Compare (internal_key_of s' t' k') (internal_key_of s t k) < 0"
    by (metis internal.cmp_swap)
  then show ?thesis
    using internal_key_of_less [OF assms, of t k t' k'] internal_key_of_less [OF assms(2,1), of t' k' t k]
    by (smt (verit) linorder_neq_iff)
qed

lemma entry_valid: "write_ok (s, t, k, v) \<Longrightarrow> mem_valid (mem_entry s t k v)"
  by (simp add: mem_valid_def mem_entry_slice write_ok_def internal_key_of)

lemma lookup_valid:
  "length k + 8 < 2 ^ 32 \<Longrightarrow> mem_valid (lookup_memtable_key (make_LookupKey k s))"
  by (simp add: mem_valid_def lookup_slice internal_key_of)

section \<open>The history a table stands for\<close>

text \<open>The writes in the order of their sequence numbers, oldest first.\<close>

definition mem_rep :: "MemTable \<Rightarrow> mem_write list \<Rightarrow> bool" where
  "mem_rep m H \<longleftrightarrow>
     (\<exists>ks. sl_abs mem_valid (KeyComparator Bytewise_Compare) (mt_table m) ks \<and> set ks = entry_of ` set H) \<and>
     sorted_wrt (<) (map fst H) \<and> (\<forall>h\<in>set H. write_ok h)"

text \<open>What a reader at sequence number \<open>s\<close> sees: the latest write of the key up to there.\<close>

definition latest :: "mem_write list \<Rightarrow> byte list \<Rightarrow> SequenceNumber \<Rightarrow> mem_write option" where
  "latest H k s = find (\<lambda>(s', t, k', v). k' = k \<and> s' \<le> s) (rev H)"

lemma make_MemTable_rep: "\<exists>m. make_MemTable = Some m \<and> mem_rep m []"
  using make_SkipList_abs [of "[]" mem_valid "KeyComparator Bytewise_Compare"]
  by (auto simp: make_MemTable_def mem_rep_def)

lemma MemTable_Add_rep:
  assumes rep: "mem_rep m H" and ok: "write_ok (s, t, k, v)" and new: "\<forall>h\<in>set H. fst h < s"
  shows "\<exists>m'. MemTable_Add Bytewise_Compare m s t k v = Some m' \<and> mem_rep m' (H @ [(s, t, k, v)])"
proof -
  let ?cmp = "KeyComparator Bytewise_Compare" and ?e = "mem_entry s t k v"
  obtain ks where ks: "sl_abs mem_valid ?cmp (mt_table m) ks" "set ks = entry_of ` set H"
    using rep by (auto simp: mem_rep_def)
  have "?cmp a ?e \<noteq> 0" if a: "a \<in> set ks" for a
  proof -
    obtain s' t' k' v' where h: "(s', t', k', v') \<in> set H" "a = mem_entry s' t' k' v'"
      using a ks(2) by (auto simp: entry_of_def)
    then have "write_ok (s', t', k', v')" "s' < s" using rep new by (auto simp: mem_rep_def)
    then show ?thesis
      using ok internal_key_of_eq [of s' s t' k' t k]
      by (auto simp: h(2) write_ok_def KeyComparator_slices mem_entry_slice)
  qed
  then obtain table where "SkipList_Insert ?cmp (mt_table m) ?e = Some table"
    "sl_abs mem_valid ?cmp table (insert_key ?cmp ?e ks)"
    using memtable.Insert_abs [OF ks(1) entry_valid [OF ok]] by blast
  moreover have "set (insert_key ?cmp ?e ks) = entry_of ` set (H @ [(s, t, k, v)])"
    using ks(2) by (simp add: entry_of_def)
  ultimately show ?thesis
    using rep ok new unfolding mem_rep_def
    by (auto simp: MemTable_Add_def sorted_wrt_append)
qed

lemma latest_Some:
  assumes "sorted_wrt (<) (map fst H)" "(s', t, k, v) \<in> set H" "s' \<le> s"
    and "\<And>s'' t'' v''. (s'', t'', k, v'') \<in> set H \<Longrightarrow> s'' \<le> s \<Longrightarrow> s'' \<le> s'"
  shows "latest H k s = Some (s', t, k, v)"
  using assms
proof (induction H rule: rev_induct)
  case (snoc h H)
  obtain s1 t1 k1 v1 where h: "h = (s1, t1, k1, v1)" by (cases h)
  show ?case
  proof (cases "k1 = k \<and> s1 \<le> s")
    case True
    then have "s1 \<le> s'" using snoc.prems(4) [of s1 t1 v1] h by simp
    moreover have "s' < s1" if "(s', t, k, v) \<in> set H"
      using that snoc.prems(1) h by (force simp: sorted_wrt_append)
    ultimately have "h = (s', t, k, v)" using snoc.prems(2) by force
    then show ?thesis using snoc.prems(3) by (simp add: latest_def)
  next
    case False
    then have "(s', t, k, v) \<in> set H" using snoc.prems(2,3) h by auto
    then have "latest H k s = Some (s', t, k, v)"
      using snoc by (auto simp: sorted_wrt_append)
    then show ?thesis using False h by (auto simp: latest_def)
  qed
qed simp

lemma latest_None:
  "(\<And>s' t v. (s', t, k, v) \<in> set H \<Longrightarrow> \<not> s' \<le> s) \<Longrightarrow> latest H k s = None"
  by (auto simp: latest_def find_None_iff)

lemma Get_entry:
  assumes ok: "write_ok (s', t, k', v')"
    and "Iter_Seek (KeyComparator user_cmp) (mt_table m) (lookup_memtable_key key) = Some (Some it)"
    and "node_key (mt_table m) it = mem_entry s' t k' v'"
  shows "MemTable_Get user_cmp m key v st = Some
    (if user_cmp k' (lookup_user_key key) = 0
     then if t = kTypeValue then (True, v', st) else (True, v, Status_NotFound [] [])
     else (False, v, st))"
proof -
  let ?n = "of_nat (length k' + 8) :: 32 word"
  let ?rest = "k' @ EncodeFixed64 (push_bit 8 s' OR ucast t) @ EncodeVarint32 (of_nat (length v')) @ v'"
  have sizes: "length k' + 8 < 2 ^ 32" "length v' < 2 ^ 32" "s' \<le> kMaxSequenceNumber" "t = kTypeValue \<or> t = kTypeDeletion"
    using ok by (auto simp: write_ok_def)
  have "unat ?n = length k' + 8" by (simp only: unat_of_nat) (use sizes(1) in \<open>simp add: take_bit_nat_eq_self\<close>)
  moreover have "unat (?n - 8) = length k'" using sizes(1) by (simp add: unat_of_nat take_bit_nat_eq_self)
  ultimately have n: "unat (?n - 8) = length k'" "unat ?n = length k' + 8" by blast+
  have entry: "mem_entry s' t k' v' = EncodeVarint32 ?n @ ?rest" by (simp add: mem_entry_def)
  have tag: "ucast (DecodeFixed64 (drop (length k') ?rest) AND 0xff) = t"
    using pack_fields(2) [OF sizes(3), of t] by (simp add: PackSequenceAndType_def)
  have val: "mem_GetLengthPrefixedSlice (drop (unat ?n) ?rest) = Some (v', [])"
    using mem_GetLengthPrefixedSlice_Encode [OF sizes(2), of "[]"] unfolding n(2) by simp
  have "kTypeDeletion \<noteq> kTypeValue" by (simp add: kTypeDeletion_def kTypeValue_def)
  then show ?thesis
    unfolding MemTable_Get_def assms(2) bind.bind_lunit Iter_key_def option.sel assms(3) Let_def entry
      GetVarint32Ptr_entry prod.case entry_ptr n(1) tag val
    using sizes(4) by (auto simp: Iter_Valid_def)
qed

text \<open>The entry a search for \<open>(k, s)\<close> stops at.\<close>

lemma entry_before_lookup:
  assumes "write_ok (s', t', k', v')" "length k + 8 < 2 ^ 32" "s \<le> kMaxSequenceNumber"
  shows "KeyComparator Bytewise_Compare (mem_entry s' t' k' v') (lookup_memtable_key (make_LookupKey k s)) < 0 \<longleftrightarrow>
    k' < k \<or> k' = k \<and> s < s'"
proof -
  have "t' \<le> kValueTypeForSeek"
    using assms(1) by (auto simp: write_ok_def kValueTypeForSeek_def kTypeValue_def kTypeDeletion_def)
  then show ?thesis
    using assms internal_key_of_less [of s' s t' k' kValueTypeForSeek k]
    by (auto simp: write_ok_def KeyComparator_slices mem_entry_slice lookup_slice)
qed

lemma entry_order:
  assumes "write_ok (s1, t1, k1, v1)" "write_ok (s2, t2, k2, v2)"
  shows "KeyComparator Bytewise_Compare (mem_entry s1 t1 k1 v1) (mem_entry s2 t2 k2 v2) < 0 \<longleftrightarrow>
    k1 < k2 \<or> k1 = k2 \<and> (s2 < s1 \<or> s1 = s2 \<and> t2 < t1)"
  using assms internal_key_of_less [of s1 s2 t1 k1 t2 k2]
  by (auto simp: write_ok_def KeyComparator_slices mem_entry_slice)

definition get_result :: "mem_write option \<Rightarrow> byte list \<Rightarrow> Status \<Rightarrow> bool \<times> byte list \<times> Status" where
  "get_result w v st = (case w of None \<Rightarrow> (False, v, st)
     | Some (s, t, k, v') \<Rightarrow> if t = kTypeValue then (True, v', st) else (True, v, Status_NotFound [] []))"

lemma MemTable_Get_latest:
  assumes rep: "mem_rep m H" and k: "length k + 8 < 2 ^ 32" and s: "s \<le> kMaxSequenceNumber"
  shows "MemTable_Get Bytewise_Compare m (make_LookupKey k s) v st = Some (get_result (latest H k s) v st)"
proof -
  let ?cmp = "KeyComparator Bytewise_Compare" and ?T = "lookup_memtable_key (make_LookupKey k s)"
  let ?d = "\<lambda>ks. dropWhile (\<lambda>a. ?cmp a ?T < 0) ks"
  obtain ks where ks: "sl_abs mem_valid ?cmp (mt_table m) ks" "set ks = entry_of ` set H"
    using rep by (auto simp: mem_rep_def)
  have H: "sorted_wrt (<) (map fst H)" "\<And>h. h \<in> set H \<Longrightarrow> write_ok h" using rep by (auto simp: mem_rep_def)
  obtain it where it: "Iter_Seek ?cmp (mt_table m) ?T = Some it"
    "map_option (node_key (mt_table m)) it = hd_option (?d ks)"
    using memtable.Seek_abs [OF ks(1) lookup_valid [OF k]] by blast
  have sorted: "sorted_wrt (\<lambda>a b. ?cmp a b < 0) ks" using ks(1) by (simp add: sl_abs_def)
  have candidate: "mem_entry s' t' k v' \<in> set (?d ks)" if "(s', t', k, v') \<in> set H" "s' \<le> s" for s' t' v'
  proof -
    have "mem_entry s' t' k v' \<in> set ks" using that(1) ks(2) by (force simp: entry_of_def)
    moreover have "\<not> ?cmp (mem_entry s' t' k v') ?T < 0"
      using entry_before_lookup [OF H(2) [OF that(1)] k s] that(2) by auto
    ultimately show ?thesis
      using takeWhile_dropWhile_id [of "\<lambda>a. ?cmp a ?T < 0" ks] by (metis Un_iff set_append set_takeWhileD)
  qed
  show ?thesis
  proof (cases "?d ks")
    case Nil
    then have "it = None" using it(2) unfolding Nil by (simp add: hd_option_def)
    moreover have "latest H k s = None" by (rule latest_None) (use candidate Nil in force)
    ultimately show ?thesis by (simp add: MemTable_Get_def it(1) Iter_Valid_def get_result_def)
  next
    case (Cons e es)
    then obtain i where i: "it = Some i" "node_key (mt_table m) i = e"
      using it(2) unfolding Cons by (auto simp: hd_option_def)
    have "e \<in> set ks" using Cons by (metis list.set_intros(1) set_dropWhileD)
    then obtain s' t' k' v' where h: "(s', t', k', v') \<in> set H" "e = mem_entry s' t' k' v'"
      using ks(2) by (auto simp: entry_of_def)
    have "\<not> ?cmp e ?T < 0" using Cons by (metis hd_dropWhile list.distinct(1) list.sel(1))
    then have ge: "\<not> (k' < k \<or> k' = k \<and> s < s')" using entry_before_lookup [OF H(2) [OF h(1)] k s] h(2) by simp
    have first: "e = x \<or> ?cmp e x < 0" if "x \<in> set (?d ks)" for x
    proof -
      have "sorted_wrt (\<lambda>a b. ?cmp a b < 0) (?d ks)"
        using sorted takeWhile_dropWhile_id [of "\<lambda>a. ?cmp a ?T < 0" ks] by (metis sorted_wrt_append)
      then show ?thesis using that unfolding Cons by auto
    qed
    have above: "s'' \<le> s'" if c: "(s'', t'', k, v'') \<in> set H" "s'' \<le> s" and "k' = k" for s'' t'' v''
    proof (cases "e = mem_entry s'' t'' k v''")
      case True
      then have "internal_key_of s'' t'' k = internal_key_of s' t' k'"
        using H(2) [OF c(1)] H(2) [OF h(1)] h(2) mem_entry_slice [of k s'' t'' v''] mem_entry_slice [of k' s' t' v']
        by (simp add: write_ok_def)
      then show ?thesis
        using internal_key_of_eq [of s'' s' t'' k t' k'] memtable.cmp_refl [OF entry_valid [OF H(2) [OF h(1)]]]
          H(2) [OF c(1)] H(2) [OF h(1)]
        by (simp add: write_ok_def KeyComparator_slices mem_entry_slice)
    next
      case False
      then have "?cmp e (mem_entry s'' t'' k v'') < 0" using first candidate [OF c] by blast
      then show ?thesis using entry_order [OF H(2) [OF h(1)] H(2) [OF c(1)]] h(2) \<open>k' = k\<close> by auto
    qed
    have get: "MemTable_Get Bytewise_Compare m (make_LookupKey k s) v st = Some
        (if k' = k then if t' = kTypeValue then (True, v', st) else (True, v, Status_NotFound [] []) else (False, v, st))"
      using Get_entry [OF H(2) [OF h(1)]] it(1) i h(2)
      by (simp add: lookup_user Bytewise_Compare_def slice_compare_eq)
    show ?thesis
    proof (cases "k' = k")
      case True
      have "latest H k s = Some (s', t', k, v')"
        by (rule latest_Some) (use H(1) h(1) ge above True in auto)
      then show ?thesis using True get by (simp add: get_result_def)
    next
      case False
      then have "k < k'" using ge by auto
      have "\<not> s'' \<le> s" if c: "(s'', t'', k, v'') \<in> set H" for s'' t'' v''
      proof
        assume "s'' \<le> s"
        then have "e = mem_entry s'' t'' k v'' \<or> ?cmp e (mem_entry s'' t'' k v'') < 0"
          using first candidate [OF c] by blast
        moreover have "\<not> ?cmp e (mem_entry s'' t'' k v'') < 0"
          using entry_order [OF H(2) [OF h(1)] H(2) [OF c]] h(2) \<open>k < k'\<close> by auto
        moreover have "?cmp (mem_entry s'' t'' k v'') e < 0"
          using entry_order [OF H(2) [OF c] H(2) [OF h(1)]] h(2) \<open>k < k'\<close> by auto
        ultimately show False by auto
      qed
      then have "latest H k s = None" by (rule latest_None)
      then show ?thesis using False get by (simp add: get_result_def)
    qed
  qed
qed

section \<open>Properties\<close>

definition MemTable_Add_all :: "MemTable \<Rightarrow> mem_write list \<Rightarrow> MemTable option" where
  "MemTable_Add_all m H =
     fold (\<lambda>(s, t, k, v) r. do { m' \<leftarrow> r; MemTable_Add Bytewise_Compare m' s t k v }) H (Some m)"

lemma MemTable_Add_all_rep:
  assumes "mem_rep m H" "sorted_wrt (<) (map fst (H @ H'))" "\<forall>h\<in>set H'. write_ok h"
  shows "\<exists>m'. MemTable_Add_all m H' = Some m' \<and> mem_rep m' (H @ H')"
  using assms(2,3)
proof (induction H' rule: rev_induct)
  case Nil
  then show ?case using assms(1) by (simp add: MemTable_Add_all_def)
next
  case (snoc h H')
  obtain s t k v where h: "h = (s, t, k, v)" by (cases h)
  obtain m' where m': "MemTable_Add_all m H' = Some m'" "mem_rep m' (H @ H')"
    using snoc by (auto simp: sorted_wrt_append)
  have "\<forall>h\<in>set (H @ H'). fst h < s" using snoc.prems(1) h by (auto simp: sorted_wrt_append)
  then show ?case
    using MemTable_Add_rep [OF m'(2), of s t k v] m'(1) snoc.prems(2) h by (auto simp: MemTable_Add_all_def)
qed

text \<open>
  C13: reading from a memtable returns what the history of writes says: for a table filled by
  \<^verbatim>\<open>Add\<close> with increasing sequence numbers, \<^verbatim>\<open>Get\<close> at a snapshot finds the latest write of the key
  that the snapshot includes, and yields its value, \<^verbatim>\<open>NotFound\<close> for a deletion, or \<^verbatim>\<open>false\<close> when
  there is none; every call returns.
\<close>
theorem memtable_get_latest:
  assumes "sorted_wrt (<) (map fst H)" "\<forall>h\<in>set H. write_ok h" "length k + 8 < 2 ^ 32" "s \<le> kMaxSequenceNumber"
  shows "\<exists>m0 m. make_MemTable = Some m0 \<and> MemTable_Add_all m0 H = Some m \<and>
    MemTable_Get Bytewise_Compare m (make_LookupKey k s) v st =
      Some (case find (\<lambda>(s', t, k', v'). k' = k \<and> s' \<le> s) (rev H) of
              None \<Rightarrow> (False, v, st)
            | Some (s', t, k', v') \<Rightarrow> if t = kTypeValue then (True, v', st) else (True, v, Status_NotFound [] []))"
proof -
  obtain m0 where m0: "make_MemTable = Some m0" "mem_rep m0 []" using make_MemTable_rep by blast
  obtain m where "MemTable_Add_all m0 H = Some m" "mem_rep m H"
    using MemTable_Add_all_rep [OF m0(2)] assms(1,2) by auto
  then show ?thesis
    using m0(1) MemTable_Get_latest [OF _ assms(3,4)] by (auto simp: latest_def get_result_def)
qed

theorem memtable_get_latest_witness:
  "\<exists>m0 m. make_MemTable = Some m0 \<and>
    MemTable_Add_all m0 [(1, kTypeValue, [5], [10]), (2, kTypeValue, [6], [11]), (3, kTypeValue, [5], [12])] = Some m \<and>
    MemTable_Get Bytewise_Compare m (make_LookupKey [5] 2) [] None = Some (True, [10], None)"
  using memtable_get_latest [of "[(1, kTypeValue, [5], [10]), (2, kTypeValue, [6], [11]), (3, kTypeValue, [5], [12])]" "[5]" 2 "[]" None]
  by (simp add: write_ok_def kMaxSequenceNumber_def)

text \<open>
  the memtable iterator visits the entries in strictly increasing internal-key order, forwards
  and backwards: \<^verbatim>\<open>Next\<close> and \<^verbatim>\<open>Prev\<close> step between neighbours and leave the table at its ends,
  \<^verbatim>\<open>SeekToFirst\<close> and \<^verbatim>\<open>SeekToLast\<close> find the ends, and no entry is missed or repeated.
\<close>
theorem memtable_iterator_walks:
  assumes "mem_rep m H"
  shows "\<exists>xs. distinct xs \<and> set (map (node_key (mt_table m)) xs) = entry_of ` set H \<and>
    sorted_wrt (\<lambda>a b. KeyComparator Bytewise_Compare a b < 0) (map (node_key (mt_table m)) xs) \<and>
    MemIter_SeekToFirst m = Some (if xs = [] then None else Some (hd xs)) \<and>
    MemIter_SeekToLast m = Some (if xs = [] then None else Some (last xs)) \<and>
    (\<forall>i < length xs. MemIter_Next m (Some (xs ! i)) = Some (if Suc i < length xs then Some (xs ! Suc i) else None) \<and>
      MemIter_Prev Bytewise_Compare m (Some (xs ! i)) = Some (if i = 0 then None else Some (xs ! (i - 1))))"
proof -
  let ?sl = "mt_table m" and ?cmp = "KeyComparator Bytewise_Compare"
  obtain xs where xs: "sl_rep ?sl xs" "sl_abs mem_valid ?cmp ?sl (map (node_key ?sl) xs)"
    "set (map (node_key ?sl) xs) = entry_of ` set H"
    using assms unfolding mem_rep_def sl_abs_def by metis
  have "sorted_wrt (\<lambda>a b. ?cmp a b < 0) (map (node_key ?sl) xs)" using xs(2) by (simp add: sl_abs_def)
  moreover have "hd_option xs = (if xs = [] then None else Some (hd xs))" by (cases xs) (simp_all add: hd_option_def)
  ultimately show ?thesis
    using xs Iter_ends [OF xs(1)] memtable.Iter_walk [OF xs(1,2)] sl_repD(2) [OF xs(1)]
    by (intro exI [of _ xs])
      (simp add: MemIter_SeekToFirst_def MemIter_SeekToLast_def MemIter_Next_def MemIter_Prev_def)
qed

theorem memtable_iterator_walks_witness:
  "\<exists>m xs. make_MemTable = Some m \<and> distinct xs \<and> set (map (node_key (mt_table m)) xs) = {} \<and>
    MemIter_SeekToFirst m = Some (if xs = [] then None else Some (hd xs))"
  using make_MemTable_rep memtable_iterator_walks [of _ "[]"] by fastforce

end
