(* ===== verification/Ldb_Write_Batch.thy ===== *)
theory Ldb_Write_Batch
  imports Ldb_Memtable
begin

text \<open>
  Atomic groups of updates, \<^verbatim>\<open>db/write_batch.cc\<close>: a byte string with a header of sequence number
  and count, and one record per operation. A handler is its two callbacks on a state of its own;
  inserting into a memtable is one of them.
\<close>

section \<open>The batch\<close>

text \<open>The count is kept in 32 bits of the header; the \<^verbatim>\<open>int\<close> the code reads it into is that word, and adding to it wraps.\<close>

type_synonym WriteBatch = "byte list"

definition kHeader :: nat where "kHeader = 12"

definition WriteBatch_Clear :: "WriteBatch" where "WriteBatch_Clear = replicate kHeader 0"

definition WriteBatch_Count :: "WriteBatch \<Rightarrow> 32 word" where
  "WriteBatch_Count b = DecodeFixed32 (drop 8 b)"

definition WriteBatch_SetCount :: "WriteBatch \<Rightarrow> 32 word \<Rightarrow> WriteBatch" where
  "WriteBatch_SetCount b n = take 8 b @ EncodeFixed32 n @ drop 12 b"

definition WriteBatch_Sequence :: "WriteBatch \<Rightarrow> SequenceNumber" where
  "WriteBatch_Sequence b = DecodeFixed64 b"

definition WriteBatch_SetSequence :: "WriteBatch \<Rightarrow> SequenceNumber \<Rightarrow> WriteBatch" where
  "WriteBatch_SetSequence b seq = EncodeFixed64 seq @ drop 8 b"

definition WriteBatch_Put :: "WriteBatch \<Rightarrow> byte list \<Rightarrow> byte list \<Rightarrow> WriteBatch" where
  "WriteBatch_Put b key v =
     (let b1 = WriteBatch_SetCount b (WriteBatch_Count b + 1); b2 = b1 @ [kTypeValue]
      in PutLengthPrefixedSlice (PutLengthPrefixedSlice b2 key) v)"

definition WriteBatch_Delete :: "WriteBatch \<Rightarrow> byte list \<Rightarrow> WriteBatch" where
  "WriteBatch_Delete b key =
     (let b1 = WriteBatch_SetCount b (WriteBatch_Count b + 1); b2 = b1 @ [kTypeDeletion]
      in PutLengthPrefixedSlice b2 key)"

definition WriteBatch_SetContents :: "byte list \<Rightarrow> WriteBatch" where
  "WriteBatch_SetContents contents = contents"

definition WriteBatch_Append :: "WriteBatch \<Rightarrow> WriteBatch \<Rightarrow> WriteBatch" where
  "WriteBatch_Append dst src =
     WriteBatch_SetCount dst (WriteBatch_Count dst + WriteBatch_Count src) @ drop kHeader src"

section \<open>Iterating\<close>

text \<open>A callback may fail to return, so it has an optional result.\<close>

record 's Handler =
  h_Put :: "byte list \<Rightarrow> byte list \<Rightarrow> 's \<Rightarrow> 's option"
  h_Delete :: "byte list \<Rightarrow> 's \<Rightarrow> 's option"

text \<open>
  The loop over the records. Its result is the state of the handler with the status of an early
  return or the number of records found.
\<close>

function Iterate_loop :: "'s Handler \<Rightarrow> byte list \<Rightarrow> 32 word \<Rightarrow> 's \<Rightarrow> ('s \<times> (Status + 32 word)) option" where
  "Iterate_loop h inp found s =
     (case inp of
        [] \<Rightarrow> Some (s, Inr found)
      | tag # inp0 \<Rightarrow>
          if tag = kTypeValue
          then (case GetLengthPrefixedSlice inp0 of
                  None \<Rightarrow> Some (s, Inl (Status_Corruption (ascii ''bad WriteBatch Put'') []))
                | Some (key, inp1) \<Rightarrow>
                    (case GetLengthPrefixedSlice inp1 of
                       None \<Rightarrow> Some (s, Inl (Status_Corruption (ascii ''bad WriteBatch Put'') []))
                     | Some (v, inp2) \<Rightarrow>
                         (case h_Put h key v s of None \<Rightarrow> None | Some s' \<Rightarrow> Iterate_loop h inp2 (found + 1) s')))
          else if tag = kTypeDeletion
          then (case GetLengthPrefixedSlice inp0 of
                  None \<Rightarrow> Some (s, Inl (Status_Corruption (ascii ''bad WriteBatch Delete'') []))
                | Some (key, inp1) \<Rightarrow>
                    (case h_Delete h key s of None \<Rightarrow> None | Some s' \<Rightarrow> Iterate_loop h inp1 (found + 1) s'))
          else Some (s, Inl (Status_Corruption (ascii ''unknown WriteBatch tag'') [])))"
  by pat_completeness auto
termination
  by (relation "measure (\<lambda>(h, inp, found, s). length inp)")
    (auto dest!: GetLengthPrefixedSlice_shorter)

declare Iterate_loop.simps [simp del]

definition WriteBatch_Iterate :: "'s Handler \<Rightarrow> WriteBatch \<Rightarrow> 's \<Rightarrow> ('s \<times> Status) option" where
  "WriteBatch_Iterate h b s =
     (if length b < kHeader then Some (s, Status_Corruption (ascii ''malformed WriteBatch (too small)'') [])
      else (case Iterate_loop h (drop kHeader b) 0 s of
              None \<Rightarrow> None
            | Some (s', Inl status) \<Rightarrow> Some (s', status)
            | Some (s', Inr found) \<Rightarrow>
                if found \<noteq> WriteBatch_Count b
                then Some (s', Status_Corruption (ascii ''WriteBatch has wrong count'') [])
                else Some (s', Status_OK)))"

text \<open>
  The handler that fills a memtable: its state is the next sequence number and the table, whose comparator,
  fixed when the table is made, is the byte-wise one here.
\<close>

definition MemTableInserter :: "(SequenceNumber \<times> MemTable) Handler" where
  "MemTableInserter =
     \<lparr>h_Put = (\<lambda>key v (seq, mem). do { mem' \<leftarrow> MemTable_Add Bytewise_Compare mem seq kTypeValue key v; Some (seq + 1, mem') }),
      h_Delete = (\<lambda>key (seq, mem). do { mem' \<leftarrow> MemTable_Add Bytewise_Compare mem seq kTypeDeletion key []; Some (seq + 1, mem') })\<rparr>"

definition WriteBatch_InsertInto :: "WriteBatch \<Rightarrow> MemTable \<Rightarrow> (MemTable \<times> Status) option" where
  "WriteBatch_InsertInto b mem =
     do { ((seq, mem'), status) \<leftarrow> WriteBatch_Iterate MemTableInserter b (WriteBatch_Sequence b, mem);
          Some (mem', status) }"

section \<open>The operations a batch stands for\<close>

datatype batch_op = BPut "byte list" "byte list" | BDelete "byte list"

primrec op_key :: "batch_op \<Rightarrow> byte list" where
  "op_key (BPut k v) = k" | "op_key (BDelete k) = k"

primrec op_ok :: "batch_op \<Rightarrow> bool" where
  "op_ok (BPut k v) \<longleftrightarrow> length k + 8 < 2 ^ 32 \<and> length v < 2 ^ 32"
| "op_ok (BDelete k) \<longleftrightarrow> length k + 8 < 2 ^ 32"

primrec op_bytes :: "batch_op \<Rightarrow> byte list" where
  "op_bytes (BPut k v) = kTypeValue # EncodeVarint32 (of_nat (length k)) @ k @ EncodeVarint32 (of_nat (length v)) @ v"
| "op_bytes (BDelete k) = kTypeDeletion # EncodeVarint32 (of_nat (length k)) @ k"

definition batch_add :: "batch_op \<Rightarrow> WriteBatch \<Rightarrow> WriteBatch" where
  "batch_add x b = (case x of BPut k v \<Rightarrow> WriteBatch_Put b k v | BDelete k \<Rightarrow> WriteBatch_Delete b k)"

text \<open>The contents of a batch in terms of its operations.\<close>

definition batch_rep :: "WriteBatch \<Rightarrow> SequenceNumber \<Rightarrow> batch_op list \<Rightarrow> bool" where
  "batch_rep b seq xs \<longleftrightarrow>
     b = EncodeFixed64 seq @ EncodeFixed32 (of_nat (length xs)) @ concat (map op_bytes xs)"

lemma batch_rep_fields:
  assumes "batch_rep b seq xs"
  shows "WriteBatch_Count b = of_nat (length xs)" "WriteBatch_Sequence b = seq"
    "drop kHeader b = concat (map op_bytes xs)" "12 \<le> length b" "take 8 b = EncodeFixed64 seq"
  using assms
  by (simp_all add: batch_rep_def WriteBatch_Count_def WriteBatch_Sequence_def kHeader_def)

lemma Clear_rep: "batch_rep WriteBatch_Clear 0 []"
  by (simp add: batch_rep_def WriteBatch_Clear_def kHeader_def EncodeFixed64_def EncodeFixed32_def kLittleEndian_def
      bytes_of_word_def eval_nat_numeral)

lemma SetCount_rep:
  "batch_rep b seq xs \<Longrightarrow>
    WriteBatch_SetCount b n = EncodeFixed64 seq @ EncodeFixed32 n @ concat (map op_bytes xs)"
  by (simp add: WriteBatch_SetCount_def batch_rep_def)

lemma batch_add_rep: "batch_rep b seq xs \<Longrightarrow> batch_rep (batch_add x b) seq (xs @ [x])"
  by (cases x)
    (simp_all add: batch_add_def WriteBatch_Put_def WriteBatch_Delete_def SetCount_rep batch_rep_fields Let_def
      PutLengthPrefixedSlice_def PutVarint32_def, simp_all add: batch_rep_def add.commute)

lemma SetSequence_rep: "batch_rep b seq xs \<Longrightarrow> batch_rep (WriteBatch_SetSequence b seq') seq' xs"
  by (simp add: WriteBatch_SetSequence_def batch_rep_def)

lemma Append_rep:
  "batch_rep dst seq xs \<Longrightarrow> batch_rep src seq' ys \<Longrightarrow> batch_rep (WriteBatch_Append dst src) seq (xs @ ys)"
  by (simp add: WriteBatch_Append_def SetCount_rep batch_rep_fields) (simp add: batch_rep_def)

lemma batch_build_rep: "batch_rep b seq xs \<Longrightarrow> batch_rep (fold batch_add ys b) seq (xs @ ys)"
  by (induction ys arbitrary: b xs) (simp_all, metis append_Cons append_Nil append_assoc batch_add_rep)

section \<open>Iterating over a well-formed batch\<close>

definition run_op :: "'s Handler \<Rightarrow> batch_op \<Rightarrow> 's option \<Rightarrow> 's option" where
  "run_op h x r = Option.bind r (\<lambda>s. case x of BPut k v \<Rightarrow> h_Put h k v s | BDelete k \<Rightarrow> h_Delete h k s)"

lemma run_op_None: "fold (run_op h) xs None = None"
  by (induction xs) (simp_all add: run_op_def)

lemma Iterate_loop_op:
  assumes "op_ok x"
  shows "Iterate_loop h (op_bytes x @ rest) found s =
    (case run_op h x (Some s) of None \<Rightarrow> None | Some s' \<Rightarrow> Iterate_loop h rest (found + 1) s')"
proof -
  have "kTypeDeletion \<noteq> kTypeValue" by (simp add: kTypeDeletion_def kTypeValue_def)
  then show ?thesis
    using assms GetLengthPrefixedSlice_Put
    by (cases x; subst Iterate_loop.simps) (auto simp: run_op_def split: option.splits)
qed

lemma Iterate_loop_ops:
  "\<forall>x\<in>set xs. op_ok x \<Longrightarrow> Iterate_loop h (concat (map op_bytes xs) @ rest) found s =
    (case fold (run_op h) xs (Some s) of None \<Rightarrow> None
     | Some s' \<Rightarrow> Iterate_loop h rest (found + of_nat (length xs)) s')"
proof (induction xs arbitrary: found s)
  case (Cons x xs)
  then show ?case
    by (cases "run_op h x (Some s)") (simp_all add: Iterate_loop_op run_op_None add.assoc split: option.split)
qed simp

lemma Iterate_rep:
  assumes "batch_rep b seq xs" "\<forall>x\<in>set xs. op_ok x"
  shows "WriteBatch_Iterate h b s =
    (case fold (run_op h) xs (Some s) of None \<Rightarrow> None | Some s' \<Rightarrow> Some (s', Status_OK))"
proof -
  have "Iterate_loop h (drop kHeader b) 0 s =
      (case fold (run_op h) xs (Some s) of None \<Rightarrow> None | Some s' \<Rightarrow> Some (s', Inr (of_nat (length xs))))"
    using Iterate_loop_ops [OF assms(2), of h "[]" 0 s]
    by (simp add: batch_rep_fields(3) [OF assms(1)] Iterate_loop.simps split: option.splits)
  moreover have "\<not> length b < kHeader" using batch_rep_fields(4) [OF assms(1)] by (simp add: kHeader_def)
  ultimately show ?thesis
    by (simp add: WriteBatch_Iterate_def batch_rep_fields(1) [OF assms(1)] split: option.splits)
qed

section \<open>Inserting into a memtable\<close>

primrec op_write :: "SequenceNumber \<Rightarrow> batch_op \<Rightarrow> mem_write" where
  "op_write seq (BPut k v) = (seq, kTypeValue, k, v)"
| "op_write seq (BDelete k) = (seq, kTypeDeletion, k, [])"

primrec numbered :: "SequenceNumber \<Rightarrow> batch_op list \<Rightarrow> mem_write list" where
  "numbered seq [] = []"
| "numbered seq (x # xs) = op_write seq x # numbered (seq + 1) xs"

lemma numbered_append: "numbered seq (xs @ ys) = numbered seq xs @ numbered (seq + of_nat (length xs)) ys"
  by (induction xs arbitrary: seq) (simp_all add: ac_simps)

lemma op_write_simps [simp]:
  "fst (op_write seq x) = seq" "fst (snd (snd (op_write seq x))) = op_key x"
  by (cases x; simp)+

lemma op_write_ok: "op_ok x \<Longrightarrow> seq \<le> kMaxSequenceNumber \<Longrightarrow> write_ok (op_write seq x)"
  by (cases x) (auto simp: write_ok_def)

lemma kMax_unat: "unat kMaxSequenceNumber = 2 ^ 56 - 1"
  by (simp add: kMaxSequenceNumber_def)

lemma run_inserter:
  assumes "mem_rep m H" "\<forall>h\<in>set H. fst h < seq" "op_ok x" "unat seq + 1 < 2 ^ 56"
  shows "\<exists>m'. run_op MemTableInserter x (Some (seq, m)) = Some (seq + 1, m') \<and>
    mem_rep m' (H @ [op_write seq x]) \<and> (\<forall>h\<in>set (H @ [op_write seq x]). fst h < seq + 1)"
proof -
  have seq: "seq \<le> kMaxSequenceNumber" "unat (seq + 1) = unat seq + 1"
    using assms(4) by (simp_all add: word_le_nat_alt kMax_unat unat_word_ariths)
  then have less: "h < seq + 1" if "h \<le> seq" for h
    using that by (simp add: word_less_nat_alt word_le_nat_alt)
  obtain s t k v where w: "op_write seq x = (s, t, k, v)" by (cases "op_write seq x")
  then have "s = seq" using op_write_simps(1) by (metis fst_conv)
  then obtain m' where m': "MemTable_Add Bytewise_Compare m seq t k v = Some m'" "mem_rep m' (H @ [op_write seq x])"
    using MemTable_Add_rep [OF assms(1), of s t k v] op_write_ok [OF assms(3) seq(1)] assms(2) w by auto
  have "run_op MemTableInserter x (Some (seq, m)) = Some (seq + 1, m')"
    using m'(1) w by (cases x) (auto simp: run_op_def MemTableInserter_def)
  moreover have "\<forall>h\<in>set (H @ [op_write seq x]). fst h < seq + 1"
    using assms(2) less by (auto intro: less_imp_le)
  ultimately show ?thesis using m'(2) by blast
qed

lemma run_inserter_all:
  "mem_rep m H \<Longrightarrow> \<forall>h\<in>set H. fst h < seq \<Longrightarrow> \<forall>x\<in>set xs. op_ok x \<Longrightarrow> unat seq + length xs < 2 ^ 56 \<Longrightarrow>
    \<exists>m'. fold (run_op MemTableInserter) xs (Some (seq, m)) = Some (seq + of_nat (length xs), m') \<and>
      mem_rep m' (H @ numbered seq xs)"
proof (induction xs arbitrary: m H seq)
  case (Cons x xs)
  have n: "unat seq + 1 < 2 ^ 56" "op_ok x" using Cons.prems by simp_all
  obtain m1 where m1: "run_op MemTableInserter x (Some (seq, m)) = Some (seq + 1, m1)"
    "mem_rep m1 (H @ [op_write seq x])" "\<forall>h\<in>set (H @ [op_write seq x]). fst h < seq + 1"
    using run_inserter [OF Cons.prems(1,2) n(2,1)] by blast
  have "unat (seq + 1) + length xs < 2 ^ 56" using Cons.prems(4) by (simp add: unat_word_ariths)
  from Cons.IH [OF m1(2,3) _ this] show ?case using m1(1) Cons.prems(3) by (auto simp: ac_simps)
qed simp

lemma InsertInto_rep:
  assumes "batch_rep b seq xs" "\<forall>x\<in>set xs. op_ok x" "mem_rep m H" "\<forall>h\<in>set H. fst h < seq"
    and "unat seq + length xs < 2 ^ 56"
  shows "\<exists>m'. WriteBatch_InsertInto b m = Some (m', Status_OK) \<and> mem_rep m' (H @ numbered seq xs)"
  using run_inserter_all [OF assms(3,4,2,5)]
  by (auto simp: WriteBatch_InsertInto_def Iterate_rep [OF assms(1,2)] batch_rep_fields(2) [OF assms(1)])

text \<open>The latest write of a key is the last operation on it, numbered.\<close>

lemma latest_numbered_snoc:
  assumes "unat seq + length xs < 2 ^ 56" "unat seq + length xs \<le> unat s"
  shows "latest (numbered seq (xs @ [x])) k s =
    (if op_key x = k then Some (op_write (seq + of_nat (length xs)) x) else latest (numbered seq xs) k s)"
proof -
  have "unat (seq + of_nat (length xs)) = unat seq + length xs"
    using assms(1) by (simp add: unat_word_ariths unat_of_nat take_bit_nat_eq_self)
  then have "seq + of_nat (length xs) \<le> s" using assms(2) by (simp add: word_le_nat_alt)
  then show ?thesis by (cases x) (simp_all add: numbered_append latest_def)
qed

lemma get_result_numbered:
  assumes "unat seq + length xs < 2 ^ 56" "unat seq + length xs \<le> unat s + 1"
  shows "get_result (latest (numbered seq xs) k s) v st =
    (case find (\<lambda>x. op_key x = k) (rev xs) of None \<Rightarrow> (False, v, st)
     | Some (BPut _ v') \<Rightarrow> (True, v', st)
     | Some (BDelete _) \<Rightarrow> (True, v, Status_NotFound [] []))"
  using assms
proof (induction xs rule: rev_induct)
  case Nil
  then show ?case by (simp add: latest_def get_result_def)
next
  case (snoc x xs)
  then show ?case
    by (cases x) (simp_all add: latest_numbered_snoc get_result_def kTypeValue_def kTypeDeletion_def)
qed

text \<open>
  C18: a batch hands its operations over in order: whatever the operations put and deleted since
  \<^verbatim>\<open>Clear\<close>, with \<^verbatim>\<open>SetSequence\<close> and \<^verbatim>\<open>Append\<close> of another batch, \<^verbatim>\<open>Iterate\<close> calls the handler
  with exactly those, first to last, and returns \<open>OK\<close>; the count and the sequence number read back.
\<close>
theorem write_batch_roundtrip:
  assumes "\<forall>x\<in>set (xs @ ys). op_ok x"
  shows "let b = WriteBatch_SetSequence (WriteBatch_Append (fold batch_add xs WriteBatch_Clear) (fold batch_add ys WriteBatch_Clear)) seq
    in WriteBatch_Count b = of_nat (length (xs @ ys)) \<and> WriteBatch_Sequence b = seq \<and>
      WriteBatch_Iterate \<lparr>h_Put = (\<lambda>k v l. Some (l @ [BPut k v])), h_Delete = (\<lambda>k l. Some (l @ [BDelete k]))\<rparr> b [] =
        Some (xs @ ys, Status_OK)"
proof -
  let ?b = "WriteBatch_SetSequence (WriteBatch_Append (fold batch_add xs WriteBatch_Clear) (fold batch_add ys WriteBatch_Clear)) seq"
  let ?h = "\<lparr>h_Put = (\<lambda>k v l. Some (l @ [BPut k v])), h_Delete = (\<lambda>k l. Some (l @ [BDelete k]))\<rparr>"
  have rep: "batch_rep ?b seq (xs @ ys)"
    using SetSequence_rep [OF Append_rep [OF batch_build_rep [OF Clear_rep] batch_build_rep [OF Clear_rep]]] by simp
  have "fold (run_op ?h) l (Some acc) = Some (acc @ l)" for l acc
    by (induction l arbitrary: acc) (auto simp: run_op_def split: batch_op.splits)
  then show ?thesis
    using Iterate_rep [OF rep assms, of ?h "[]"] batch_rep_fields(1,2) [OF rep] by (simp add: Let_def)
qed

theorem write_batch_roundtrip_witness:
  "let b = WriteBatch_SetSequence (WriteBatch_Append (fold batch_add [BPut [1] [2]] WriteBatch_Clear) (fold batch_add [BDelete [1]] WriteBatch_Clear)) 9
    in WriteBatch_Count b = of_nat (length ([BPut [1] [2]] @ [BDelete [1]])) \<and> WriteBatch_Sequence b = 9 \<and>
      WriteBatch_Iterate \<lparr>h_Put = (\<lambda>k v l. Some (l @ [BPut k v])), h_Delete = (\<lambda>k l. Some (l @ [BDelete k]))\<rparr> b [] =
        Some ([BPut [1] [2]] @ [BDelete [1]], Status_OK)"
  by (rule write_batch_roundtrip) simp

text \<open>
  Damaged batches. The operations in front of the damage reach the handler, then \<^verbatim>\<open>Iterate\<close>
  returns with the message; a handler that fails to return on the way ends it earlier.
\<close>

definition stopped_after :: "'s Handler \<Rightarrow> batch_op list \<Rightarrow> 's \<Rightarrow> string \<Rightarrow> ('s \<times> Status) option" where
  "stopped_after h xs s msg =
     map_option (\<lambda>s'. (s', Status_Corruption (ascii msg) [])) (fold (run_op h) xs (Some s))"

primrec cut_message :: "batch_op \<Rightarrow> string" where
  "cut_message (BPut k v) = ''bad WriteBatch Put''"
| "cut_message (BDelete k) = ''bad WriteBatch Delete''"

lemma length_op_bytes_pos: "0 < length (op_bytes x)"
  by (cases x) simp_all

lemma Iterate_loop_cut:
  assumes "op_ok x" "0 < n" "n < length (op_bytes x)"
  shows "Iterate_loop h (take n (op_bytes x)) found s = Some (s, Inl (Status_Corruption (ascii (cut_message x)) []))"
proof -
  obtain r where n: "n = Suc r" using assms(2) by (cases n) auto
  show ?thesis
  proof (cases x)
    case (BPut k v)
    let ?k = "EncodeVarint32 (of_nat (length k)) @ k" and ?v = "EncodeVarint32 (of_nat (length v)) @ v"
    have t: "take n (op_bytes x) = kTypeValue # take r ?k @ take (r - length ?k) ?v"
      by (simp add: BPut n)
    have ok: "length k < 2 ^ 32" "length v < 2 ^ 32" using assms(1) BPut by simp_all
    show ?thesis
    proof (cases "r < length ?k")
      case True
      then have "GetLengthPrefixedSlice (take r ?k @ take (r - length ?k) ?v) = None"
        using GetLengthPrefixedSlice_cut [OF ok(1), of r] by simp
      then show ?thesis unfolding t by (subst Iterate_loop.simps) (simp add: BPut)
    next
      case False
      then have "GetLengthPrefixedSlice (take r ?k @ take (r - length ?k) ?v) = Some (k, take (r - length ?k) ?v)"
        using GetLengthPrefixedSlice_Put [OF ok(1), of "take (r - length ?k) ?v"] by simp
      moreover have "GetLengthPrefixedSlice (take (r - length ?k) ?v) = None"
        by (rule GetLengthPrefixedSlice_cut [OF ok(2)]) (use assms(3) False in \<open>simp add: BPut n\<close>)
      ultimately show ?thesis unfolding t by (subst Iterate_loop.simps) (simp add: BPut)
    qed
  next
    case (BDelete k)
    have t: "take n (op_bytes x) = kTypeDeletion # take r (EncodeVarint32 (of_nat (length k)) @ k)"
      by (simp add: BDelete n)
    have "GetLengthPrefixedSlice (take r (EncodeVarint32 (of_nat (length k)) @ k)) = None"
      by (rule GetLengthPrefixedSlice_cut) (use assms in \<open>auto simp: BDelete n\<close>)
    then show ?thesis unfolding t
      by (subst Iterate_loop.simps) (simp add: BDelete kTypeValue_def kTypeDeletion_def)
  qed
qed

lemma Iterate_damaged:
  assumes "batch_rep b seq xs" "\<forall>x\<in>set ys. op_ok x" "kHeader \<le> length d"
    and "drop kHeader d = concat (map op_bytes ys) @ tail"
    and "\<And>found s'. Iterate_loop h tail found s' = Some (s', Inl (Status_Corruption (ascii msg) []))"
  shows "WriteBatch_Iterate h d s = stopped_after h ys s msg"
  using assms(3) Iterate_loop_ops [OF assms(2), of h tail 0 s]
  by (auto simp: WriteBatch_Iterate_def assms(4,5) stopped_after_def split: option.splits)

text \<open>A batch cut anywhere behind its header ends within one of its records.\<close>

lemma take_records:
  "n < length (concat (map op_bytes xs)) \<Longrightarrow> \<exists>j r. j < length xs \<and> r < length (op_bytes (xs ! j)) \<and>
    n = length (concat (map op_bytes (take j xs))) + r \<and>
    take n (concat (map op_bytes xs)) = concat (map op_bytes (take j xs)) @ take r (op_bytes (xs ! j))"
proof (induction xs arbitrary: n)
  case (Cons x xs)
  show ?case
  proof (cases "n < length (op_bytes x)")
    case True
    then show ?thesis by (intro exI [of _ 0] exI [of _ n]) simp
  next
    case False
    then have "n - length (op_bytes x) < length (concat (map op_bytes xs))" using Cons.prems by simp
    from Cons.IH [OF this] obtain j r where "j < length xs" "r < length (op_bytes (xs ! j))"
      "n - length (op_bytes x) = length (concat (map op_bytes (take j xs))) + r"
      "take (n - length (op_bytes x)) (concat (map op_bytes xs)) =
        concat (map op_bytes (take j xs)) @ take r (op_bytes (xs ! j))" by blast
    then show ?thesis using False by (intro exI [of _ "Suc j"] exI [of _ r]) simp
  qed
qed simp

lemma Iterate_count:
  assumes "batch_rep b seq xs" "\<forall>x\<in>set ys. op_ok x" "drop kHeader d = concat (map op_bytes ys)"
    and "kHeader \<le> length d" "WriteBatch_Count d \<noteq> of_nat (length ys)"
  shows "WriteBatch_Iterate h d s = stopped_after h ys s ''WriteBatch has wrong count''"
  using Iterate_loop_ops [OF assms(2), of h "[]" 0 s] assms(3-5)
  by (auto simp: WriteBatch_Iterate_def stopped_after_def Iterate_loop.simps split: option.splits)

lemma Iterate_take:
  assumes "batch_rep b seq xs" "\<forall>x\<in>set xs. op_ok x" "length xs < 2 ^ 32"
    and j: "j < length xs" "r < length (op_bytes (xs ! j))"
    and t: "take (n - 12) (concat (map op_bytes xs)) = concat (map op_bytes (take j xs)) @ take r (op_bytes (xs ! j))"
    and n: "12 \<le> n" "n < length b"
  shows "WriteBatch_Iterate h (take n b) s =
    stopped_after h (take j xs) s (if r = 0 then ''WriteBatch has wrong count'' else cut_message (xs ! j))"
proof -
  have ok: "\<forall>x\<in>set (take j xs). op_ok x" "op_ok (xs ! j)" using assms(2) j by (auto dest: in_set_takeD)
  have d: "drop kHeader (take n b) = concat (map op_bytes (take j xs)) @ take r (op_bytes (xs ! j))"
    "kHeader \<le> length (take n b)"
    using batch_rep_fields(3) [OF assms(1)] t n by (simp_all add: drop_take kHeader_def)
  show ?thesis
  proof (cases "r = 0")
    case False
    have "WriteBatch_Iterate h (take n b) s = stopped_after h (take j xs) s (cut_message (xs ! j))"
      by (rule Iterate_damaged [OF assms(1) ok(1) d(2,1)]) (rule Iterate_loop_cut [OF ok(2) _ j(2)], use False in simp)
    with False show ?thesis by simp
  next
    case True
    have "WriteBatch_Count (take n b) = WriteBatch_Count b"
      using n by (simp add: WriteBatch_Count_def drop_take DecodeFixed32_def kLittleEndian_def take_take min_def)
    moreover have "(of_nat (length xs) :: 32 word) \<noteq> of_nat (length (take j xs))"
      using j(1) assms(3) by (metis length_take min.absorb4 nat_neq_iff order.strict_trans unat_small32)
    ultimately have "WriteBatch_Count (take n b) \<noteq> of_nat (length (take j xs))"
      using batch_rep_fields(1) [OF assms(1)] by simp
    then show ?thesis using Iterate_count [OF assms(1) ok(1) _ d(2)] d(1) True by simp
  qed
qed

text \<open>
  C38: damage to a batch is reported as \<^verbatim>\<open>Corruption\<close> with its message, after the operations in
  front of it have reached the handler (so the caller must not keep what they did): bytes behind
  the operations that start no record; a \<^verbatim>\<open>Put\<close> or \<^verbatim>\<open>Delete\<close> record cut at any byte; a count
  that is not the number of operations; a header cut short; and a batch of fewer than \<open>2^32\<close>
  operations cut at any byte behind its header, where the cut falls into a record or between two.
\<close>
theorem write_batch_corruption:
  assumes "batch_rep b seq xs" "\<forall>x\<in>set xs. op_ok x"
  shows "(tag \<noteq> kTypeValue \<and> tag \<noteq> kTypeDeletion \<longrightarrow>
      WriteBatch_Iterate h (b @ tag # rest) s = stopped_after h xs s ''unknown WriteBatch tag'') \<and>
    (op_ok x \<and> 0 < n \<and> n < length (op_bytes x) \<longrightarrow>
      WriteBatch_Iterate h (b @ take n (op_bytes x)) s = stopped_after h xs s (cut_message x)) \<and>
    (count \<noteq> of_nat (length xs) \<longrightarrow>
      WriteBatch_Iterate h (WriteBatch_SetCount b count) s = stopped_after h xs s ''WriteBatch has wrong count'') \<and>
    (n < 12 \<longrightarrow>
      WriteBatch_Iterate h (take n b) s = Some (s, Status_Corruption (ascii ''malformed WriteBatch (too small)'') [])) \<and>
    (length xs < 2 ^ 32 \<and> 12 \<le> n \<and> n < length b \<longrightarrow>
      (\<exists>j r. j < length xs \<and> r < length (op_bytes (xs ! j)) \<and>
        n = 12 + length (concat (map op_bytes (take j xs))) + r \<and>
        WriteBatch_Iterate h (take n b) s = stopped_after h (take j xs) s
          (if r = 0 then ''WriteBatch has wrong count'' else cut_message (xs ! j))))"
proof (intro conjI impI, goal_cases)
  case 1
  then have "Iterate_loop h (tag # rest) found s' = Some (s', Inl (Status_Corruption (ascii ''unknown WriteBatch tag'') []))"
    for found s' by (subst Iterate_loop.simps) simp
  then show ?case
    by (intro Iterate_damaged [OF assms]) (use batch_rep_fields(3,4) [OF assms(1)] in \<open>simp_all add: kHeader_def\<close>)
next
  case 2
  then show ?case
    by (intro Iterate_damaged [OF assms])
       (use batch_rep_fields(3,4) [OF assms(1)] Iterate_loop_cut [of x n] in \<open>simp_all add: kHeader_def\<close>)
next
  case 3
  then show ?case
    by (intro Iterate_count [OF assms])
       (simp_all add: SetCount_rep [OF assms(1)] kHeader_def WriteBatch_Count_def)
next
  case 4
  then show ?case by (simp add: WriteBatch_Iterate_def kHeader_def min_less_iff_disj)
next
  case 5
  then have "n - 12 < length (concat (map op_bytes xs))"
    using assms(1) by (auto simp: batch_rep_def)
  from take_records [OF this] obtain j r where j: "j < length xs" "r < length (op_bytes (xs ! j))"
      "n - 12 = length (concat (map op_bytes (take j xs))) + r"
      "take (n - 12) (concat (map op_bytes xs)) = concat (map op_bytes (take j xs)) @ take r (op_bytes (xs ! j))"
    by blast
  have n: "length xs < 2 ^ 32" "12 \<le> n" "n < length b" using 5 by simp_all
  show ?case
    by (intro exI conjI) (rule j(1), rule j(2), use j(3) n(2) in linarith,
      rule Iterate_take [OF assms n(1) j(1,2,4) n(2,3)])
qed

lemma EncodeVarint32_one: "EncodeVarint32 1 = [1]"
  by (simp add: EncodeVarint32_leb128 leb128_small)

theorem write_batch_corruption_witness:
  "WriteBatch_Iterate \<lparr>h_Put = (\<lambda>k v n. Some (Suc n)), h_Delete = (\<lambda>k n. Some n)\<rparr>
     (fold batch_add [BPut [1] [2]] WriteBatch_Clear @ 7 # []) (0 :: nat) =
   Some (1, Status_Corruption (ascii ''unknown WriteBatch tag'') []) \<and>
   WriteBatch_Iterate \<lparr>h_Put = (\<lambda>k v n. Some (Suc n)), h_Delete = (\<lambda>k n. Some n)\<rparr>
     (fold batch_add [BPut [1] [2]] WriteBatch_Clear @ take 2 (op_bytes (BDelete [3]))) (0 :: nat) =
   Some (1, Status_Corruption (ascii ''bad WriteBatch Delete'') []) \<and>
   WriteBatch_Iterate \<lparr>h_Put = (\<lambda>k v n. Some (Suc n)), h_Delete = (\<lambda>k n. Some n)\<rparr>
     (WriteBatch_SetCount (fold batch_add [BPut [1] [2]] WriteBatch_Clear) 2) (0 :: nat) =
   Some (1, Status_Corruption (ascii ''WriteBatch has wrong count'') [])"
  using write_batch_corruption [OF batch_build_rep [OF Clear_rep, of "[BPut [1] [2]]"], of 7
      "\<lparr>h_Put = (\<lambda>k v n. Some (Suc n)), h_Delete = (\<lambda>k n. Some n)\<rparr>" "[]" 0 "BDelete [3]" 2 2]
  by (simp add: kTypeValue_def kTypeDeletion_def run_op_def stopped_after_def EncodeVarint32_one)

text \<open>
  C9: a write batch, the memtable and its skip list together: after inserting a batch at a
  sequence number into a new table, reading a key at any snapshot that includes the whole batch
  yields the effect of the last operation on the key: the value put last, \<^verbatim>\<open>NotFound\<close> if it was
  deleted last, and nothing if the batch does not mention it.
\<close>
theorem write_batch_then_get:
  assumes "\<forall>x\<in>set xs. op_ok x" "unat seq + length xs < 2 ^ 56"
    and "length k + 8 < 2 ^ 32" "unat seq + length xs \<le> unat s + 1" "s \<le> kMaxSequenceNumber"
  shows "\<exists>m0 m. make_MemTable = Some m0 \<and>
    WriteBatch_InsertInto (WriteBatch_SetSequence (fold batch_add xs WriteBatch_Clear) seq) m0 = Some (m, Status_OK) \<and>
    MemTable_Get Bytewise_Compare m (make_LookupKey k s) v st = Some
      (case find (\<lambda>x. op_key x = k) (rev xs) of None \<Rightarrow> (False, v, st)
       | Some (BPut _ v') \<Rightarrow> (True, v', st)
       | Some (BDelete _) \<Rightarrow> (True, v, Status_NotFound [] []))"
proof -
  obtain m0 where m0: "make_MemTable = Some m0" "mem_rep m0 []" using make_MemTable_rep by blast
  have "batch_rep (WriteBatch_SetSequence (fold batch_add xs WriteBatch_Clear) seq) seq xs"
    using SetSequence_rep [OF batch_build_rep [OF Clear_rep]] by simp
  then obtain m where m: "WriteBatch_InsertInto (WriteBatch_SetSequence (fold batch_add xs WriteBatch_Clear) seq) m0 = Some (m, Status_OK)"
    "mem_rep m (numbered seq xs)"
    using InsertInto_rep [OF _ assms(1) m0(2) _ assms(2)] by auto
  show ?thesis
    using m0(1) m(1) MemTable_Get_latest [OF m(2) assms(3,5), of v st] get_result_numbered [OF assms(2,4)] by auto
qed

theorem write_batch_then_get_witness:
  "\<exists>m0 m. make_MemTable = Some m0 \<and>
    WriteBatch_InsertInto (WriteBatch_SetSequence (fold batch_add [BPut [1] [2], BDelete [3], BPut [1] [4]] WriteBatch_Clear) 5) m0 =
      Some (m, Status_OK) \<and>
    MemTable_Get Bytewise_Compare m (make_LookupKey [1] 7) [] None = Some (True, [4], None)"
  using write_batch_then_get [of "[BPut [1] [2], BDelete [3], BPut [1] [4]]" 5 "[1]" 7 "[]" None]
  by (simp add: kMaxSequenceNumber_def)

end
