(* ===== verification/Ldb_Block.thy ===== *)
theory Ldb_Block
  imports Ldb_Comparator Ldb_Coding Ldb_Status "HOL-Library.Monad_Syntax"
begin

text \<open>
  Blocks of sorted entries: \<^verbatim>\<open>table/block_builder.cc\<close> writes them with the prefix a key shares with
  the one before left out, except at restart points; \<^verbatim>\<open>table/block.cc\<close> reads and searches them. A
  pointer into the block is its offset.
\<close>

section \<open>Building\<close>

record BlockBuilder =
  bb_buffer :: "byte list"
  bb_restarts :: "32 word list"
  bb_counter :: int
  bb_finished :: bool
  bb_last_key :: "byte list"

definition make_BlockBuilder :: BlockBuilder where
  "make_BlockBuilder = \<lparr>bb_buffer = [], bb_restarts = [0], bb_counter = 0, bb_finished = False, bb_last_key = []\<rparr>"

definition BlockBuilder_Reset :: "BlockBuilder \<Rightarrow> BlockBuilder" where
  "BlockBuilder_Reset b =
     b\<lparr>bb_buffer := [], bb_restarts := [0], bb_counter := 0, bb_finished := False, bb_last_key := []\<rparr>"

definition CurrentSizeEstimate :: "BlockBuilder \<Rightarrow> nat" where
  "CurrentSizeEstimate b = length (bb_buffer b) + length (bb_restarts b) * 4 + 4"

definition BlockBuilder_empty :: "BlockBuilder \<Rightarrow> bool" where
  "BlockBuilder_empty b \<longleftrightarrow> bb_buffer b = []"

definition BlockBuilder_Finish :: "BlockBuilder \<Rightarrow> byte list \<times> BlockBuilder" where
  "BlockBuilder_Finish b =
     (let buffer1 = fold (\<lambda>r buffer. PutFixed32 buffer r) (bb_restarts b) (bb_buffer b);
          buffer2 = PutFixed32 buffer1 (of_nat (length (bb_restarts b)))
      in (buffer2, b\<lparr>bb_buffer := buffer2, bb_finished := True\<rparr>))"

definition BlockBuilder_Add :: "int \<Rightarrow> BlockBuilder \<Rightarrow> byte list \<Rightarrow> byte list \<Rightarrow> BlockBuilder" where
  "BlockBuilder_Add block_restart_interval b key v =
     (let (shared, b1) =
            (if bb_counter b < block_restart_interval
             then (common_prefix (bb_last_key b) key, b)
             else (0, b\<lparr>bb_restarts := bb_restarts b @ [of_nat (length (bb_buffer b))], bb_counter := 0\<rparr>));
          non_shared = length key - shared;
          buffer1 = PutVarint32 (bb_buffer b1) (of_nat shared);
          buffer2 = PutVarint32 buffer1 (of_nat non_shared);
          buffer3 = PutVarint32 buffer2 (of_nat (length v));
          buffer4 = buffer3 @ take non_shared (drop shared key) @ v;
          last_key = take shared (bb_last_key b1) @ take non_shared (drop shared key)
      in b1\<lparr>bb_buffer := buffer4, bb_last_key := last_key, bb_counter := bb_counter b1 + 1\<rparr>)"

section \<open>Reading\<close>

record Block =
  blk_data :: "byte list"
  blk_size :: nat
  blk_restart_offset :: "32 word"

definition NumRestarts :: "byte list \<Rightarrow> nat \<Rightarrow> 32 word" where
  "NumRestarts data size1 = DecodeFixed32 (drop (size1 - 4) data)"

definition make_Block :: "byte list \<Rightarrow> Block" where
  "make_Block contents =
     (let size1 = length contents in
      if size1 < 4 then \<lparr>blk_data = contents, blk_size = 0, blk_restart_offset = 0\<rparr>
      else let max_restarts_allowed = (size1 - 4) div 4 in
           if max_restarts_allowed < unat (NumRestarts contents size1)
           then \<lparr>blk_data = contents, blk_size = 0, blk_restart_offset = 0\<rparr>
           else \<lparr>blk_data = contents, blk_size = size1,
             blk_restart_offset = of_nat (size1 - unat (1 + NumRestarts contents size1) * 4)\<rparr>)"

text \<open>
  One entry from the bytes between \<open>p\<close> and \<open>limit\<close>: the three lengths and the bytes behind them.
  The sum of two lengths is a \<^verbatim>\<open>uint32_t\<close>.
\<close>

definition DecodeEntry :: "byte list \<Rightarrow> (32 word \<times> 32 word \<times> 32 word \<times> byte list) option" where
  "DecodeEntry p =
     (if length p < 3 then None
      else let shared = ucast (p ! 0) :: 32 word; non_shared = ucast (p ! 1) :: 32 word;
               value_length = ucast (p ! 2) :: 32 word
           in do { (shared, non_shared, value_length, p) \<leftarrow>
                     (if (shared OR non_shared OR value_length) < 128
                      then Some (shared, non_shared, value_length, drop 3 p)
                      else do { (shared, p) \<leftarrow> GetVarint32Ptr p;
                                (non_shared, p) \<leftarrow> GetVarint32Ptr p;
                                (value_length, p) \<leftarrow> GetVarint32Ptr p;
                                Some (shared, non_shared, value_length, p) });
                   if (of_nat (length p) :: 32 word) < non_shared + value_length then None
                   else Some (shared, non_shared, value_length, p) })"

text \<open>The value is given by its offset and length.\<close>

record BlockIter =
  bi_data :: "byte list"
  bi_restarts :: "32 word"
  bi_num_restarts :: "32 word"
  bi_current :: "32 word"
  bi_restart_index :: "32 word"
  bi_key :: "byte list"
  bi_value :: "nat \<times> nat"
  bi_status :: Status

definition make_BlockIter :: "byte list \<Rightarrow> 32 word \<Rightarrow> 32 word \<Rightarrow> BlockIter" where
  "make_BlockIter data restarts num_restarts =
     \<lparr>bi_data = data, bi_restarts = restarts, bi_num_restarts = num_restarts, bi_current = restarts,
      bi_restart_index = num_restarts, bi_key = [], bi_value = (0, 0), bi_status = Status_OK\<rparr>"

definition BlockIter_Valid :: "BlockIter \<Rightarrow> bool" where
  "BlockIter_Valid it \<longleftrightarrow> bi_current it < bi_restarts it"

definition BlockIter_key :: "BlockIter \<Rightarrow> byte list" where "BlockIter_key it = bi_key it"

definition BlockIter_value :: "BlockIter \<Rightarrow> byte list" where
  "BlockIter_value it = (case bi_value it of (off, len) \<Rightarrow> take len (drop off (bi_data it)))"

definition NextEntryOffset :: "BlockIter \<Rightarrow> 32 word" where
  "NextEntryOffset it = of_nat (fst (bi_value it) + snd (bi_value it))"

definition GetRestartPoint :: "BlockIter \<Rightarrow> 32 word \<Rightarrow> 32 word" where
  "GetRestartPoint it index = DecodeFixed32 (drop (unat (bi_restarts it) + unat index * 4) (bi_data it))"

definition SeekToRestartPoint :: "BlockIter \<Rightarrow> 32 word \<Rightarrow> BlockIter" where
  "SeekToRestartPoint it index =
     it\<lparr>bi_key := [], bi_restart_index := index, bi_value := (unat (GetRestartPoint it index), 0)\<rparr>"

definition BlockIter_CorruptionError :: "BlockIter \<Rightarrow> BlockIter" where
  "BlockIter_CorruptionError it =
     it\<lparr>bi_current := bi_restarts it, bi_restart_index := bi_num_restarts it,
        bi_status := Status_Corruption (ascii ''bad entry in block'') [], bi_key := [], bi_value := (0, 0)\<rparr>"

partial_function (option) advance_restart :: "BlockIter \<Rightarrow> BlockIter option" where
  "advance_restart it =
     (if bi_restart_index it + 1 < bi_num_restarts it \<and>
         GetRestartPoint it (bi_restart_index it + 1) < bi_current it
      then advance_restart (it\<lparr>bi_restart_index := bi_restart_index it + 1\<rparr>) else Some it)"

text \<open>No result stands for a read outside the block.\<close>

definition ParseNextKey :: "BlockIter \<Rightarrow> (bool \<times> BlockIter) option" where
  "ParseNextKey it0 =
     (let it = it0\<lparr>bi_current := NextEntryOffset it0\<rparr> in
      if bi_restarts it \<le> bi_current it
      then Some (False, it\<lparr>bi_current := bi_restarts it, bi_restart_index := bi_num_restarts it\<rparr>)
      else (case DecodeEntry (drop (unat (bi_current it)) (take (unat (bi_restarts it)) (bi_data it))) of
              None \<Rightarrow> Some (False, BlockIter_CorruptionError it)
            | Some (shared, non_shared, value_length, p) \<Rightarrow>
                if length (bi_key it) < unat shared then Some (False, BlockIter_CorruptionError it)
                else let off = unat (bi_restarts it) - length p in
                  if off + unat non_shared \<le> length (bi_data it)
                  then do { it' \<leftarrow> advance_restart
                      (it\<lparr>bi_key := take (unat shared) (bi_key it) @ take (unat non_shared) (drop off (bi_data it)),
                          bi_value := (off + unat non_shared, unat value_length)\<rparr>);
                    Some (True, it') }
                  else None))"

definition BlockIter_Next :: "BlockIter \<Rightarrow> BlockIter option" where
  "BlockIter_Next it = do { (ok, it') \<leftarrow> ParseNextKey it; Some it' }"

text \<open>The last restart point before \<open>original\<close>, or none.\<close>

partial_function (option) prev_restart :: "BlockIter \<Rightarrow> 32 word \<Rightarrow> (bool \<times> BlockIter) option" where
  "prev_restart it original =
     (if original \<le> GetRestartPoint it (bi_restart_index it)
      then if bi_restart_index it = 0
           then Some (False, it\<lparr>bi_current := bi_restarts it, bi_restart_index := bi_num_restarts it\<rparr>)
           else prev_restart (it\<lparr>bi_restart_index := bi_restart_index it - 1\<rparr>) original
      else Some (True, it))"

partial_function (option) parse_until :: "BlockIter \<Rightarrow> 32 word \<Rightarrow> BlockIter option" where
  "parse_until it stop =
     do { (ok, it') \<leftarrow> ParseNextKey it;
          if ok \<and> NextEntryOffset it' < stop then parse_until it' stop else Some it' }"

definition BlockIter_Prev :: "BlockIter \<Rightarrow> BlockIter option" where
  "BlockIter_Prev it =
     do { (more, it1) \<leftarrow> prev_restart it (bi_current it);
          if \<not> more then Some it1
          else parse_until (SeekToRestartPoint it1 (bi_restart_index it1)) (bi_current it) }"

text \<open>The binary search over the restart points; \<open>Inl\<close> is the iterator after an error.\<close>

partial_function (option) seek_restart ::
  "(byte list \<Rightarrow> byte list \<Rightarrow> int) \<Rightarrow> BlockIter \<Rightarrow> byte list \<Rightarrow> 32 word \<Rightarrow> 32 word \<Rightarrow> (BlockIter + 32 word) option" where
  "seek_restart cmp it target left right =
     (if left < right
      then let mid = (left + right + 1) div 2; region_offset = GetRestartPoint it mid in
        (case DecodeEntry (drop (unat region_offset) (take (unat (bi_restarts it)) (bi_data it))) of
           None \<Rightarrow> Some (Inl (BlockIter_CorruptionError it))
         | Some (shared, non_shared, value_length, p) \<Rightarrow>
             if shared \<noteq> 0 then Some (Inl (BlockIter_CorruptionError it))
             else let off = unat (bi_restarts it) - length p in
               if off + unat non_shared \<le> length (bi_data it)
               then let mid_key = take (unat non_shared) (drop off (bi_data it)) in
                 if cmp mid_key target < 0 then seek_restart cmp it target mid right
                 else seek_restart cmp it target left (mid - 1)
               else None)
      else Some (Inr left))"

partial_function (option) seek_linear ::
  "(byte list \<Rightarrow> byte list \<Rightarrow> int) \<Rightarrow> BlockIter \<Rightarrow> byte list \<Rightarrow> BlockIter option" where
  "seek_linear cmp it target =
     do { (ok, it') \<leftarrow> ParseNextKey it;
          if \<not> ok then Some it'
          else if 0 \<le> cmp (bi_key it') target then Some it'
          else seek_linear cmp it' target }"

definition BlockIter_Seek ::
  "(byte list \<Rightarrow> byte list \<Rightarrow> int) \<Rightarrow> BlockIter \<Rightarrow> byte list \<Rightarrow> BlockIter option" where
  "BlockIter_Seek cmp it target =
     do { r \<leftarrow> seek_restart cmp it target 0 (bi_num_restarts it - 1);
          case r of Inl it' \<Rightarrow> Some it' | Inr left \<Rightarrow> seek_linear cmp (SeekToRestartPoint it left) target }"

definition BlockIter_SeekToFirst :: "BlockIter \<Rightarrow> BlockIter option" where
  "BlockIter_SeekToFirst it = do { (ok, it') \<leftarrow> ParseNextKey (SeekToRestartPoint it 0); Some it' }"

definition BlockIter_SeekToLast :: "BlockIter \<Rightarrow> BlockIter option" where
  "BlockIter_SeekToLast it = parse_until (SeekToRestartPoint it (bi_num_restarts it - 1)) (bi_restarts it)"

text \<open>What \<^verbatim>\<open>NewIterator\<close> returns: an iterator in error, an empty one, or one over the block.\<close>

datatype NewIterator_result = ErrorIterator Status | EmptyIterator | IterOver BlockIter

definition Block_NewIterator :: "Block \<Rightarrow> NewIterator_result" where
  "Block_NewIterator b =
     (if blk_size b < 4 then ErrorIterator (Status_Corruption (ascii ''bad block contents'') [])
      else let num_restarts = NumRestarts (blk_data b) (blk_size b) in
           if num_restarts = 0 then EmptyIterator
           else IterOver (make_BlockIter (blk_data b) (blk_restart_offset b) num_restarts))"

end
