(* ===== verification/Ldb_Block_Props.thy ===== *)
theory Ldb_Block_Props
  imports Ldb_Block
begin

text \<open>
  Correctness of \<open>Ldb_Block\<close>: the bytes a block builder writes stand for its entries, and the
  iterator over them finds the entries again, in both directions and by key.
\<close>

section \<open>The contents of a block\<close>

text \<open>An entry with the number of key bytes it shares with the one before.\<close>

type_synonym entry = "nat \<times> byte list \<times> byte list"

definition enc_entry :: "entry \<Rightarrow> byte list" where
  "enc_entry = (\<lambda>(sh, k, v). EncodeVarint32 (of_nat sh) @ EncodeVarint32 (of_nat (length k - sh)) @
     EncodeVarint32 (of_nat (length v)) @ drop sh k @ v)"

definition enc_entries :: "entry list \<Rightarrow> byte list" where
  "enc_entries xs = concat (map enc_entry xs)"

definition boff :: "entry list \<Rightarrow> nat \<Rightarrow> nat" where
  "boff xs i = length (enc_entries (take i xs))"

definition prev_key :: "entry list \<Rightarrow> nat \<Rightarrow> byte list" where
  "prev_key xs i = (if i = 0 then [] else fst (snd (xs ! (i - 1))))"

definition entry_ok :: "entry list \<Rightarrow> nat \<Rightarrow> bool" where
  "entry_ok xs i = (case xs ! i of (sh, k, v) \<Rightarrow>
     sh \<le> length k \<and> sh \<le> length (prev_key xs i) \<and> take sh (prev_key xs i) = take sh k)"

text \<open>\<open>rs\<close> are the entries at the restart points.\<close>

definition restarts_ok :: "entry list \<Rightarrow> nat list \<Rightarrow> bool" where
  "restarts_ok xs rs \<longleftrightarrow> rs \<noteq> [] \<and> hd rs = 0 \<and> sorted_wrt (<) rs \<and> length rs \<le> length xs + 1 \<and>
     (\<forall>i\<in>set rs. i < length xs \<or> i = 0) \<and> (\<forall>i\<in>set rs. i < length xs \<longrightarrow> fst (xs ! i) = 0)"

definition block_bytes :: "entry list \<Rightarrow> nat list \<Rightarrow> byte list" where
  "block_bytes xs rs = enc_entries xs @ concat (map (\<lambda>i. EncodeFixed32 (of_nat (boff xs i))) rs) @
     EncodeFixed32 (of_nat (length rs))"

definition block_ok :: "entry list \<Rightarrow> nat list \<Rightarrow> bool" where
  "block_ok xs rs \<longleftrightarrow> (\<forall>i<length xs. entry_ok xs i) \<and> restarts_ok xs rs \<and> length (block_bytes xs rs) < 2 ^ 32"

lemma boff_Suc: "i < length xs \<Longrightarrow> boff xs (Suc i) = boff xs i + length (enc_entry (xs ! i))"
  by (simp add: boff_def enc_entries_def take_Suc_conv_app_nth)

lemma boff_length [simp]: "boff xs (length xs) = length (enc_entries xs)" "boff xs 0 = 0"
  by (simp_all add: boff_def enc_entries_def)

lemma enc_entries_drop:
  "i < length xs \<Longrightarrow> drop (boff xs i) (enc_entries xs) = enc_entry (xs ! i) @ enc_entries (drop (Suc i) xs)"
proof -
  assume i: "i < length xs"
  have "xs = take i xs @ xs ! i # drop (Suc i) xs" using i by (rule id_take_nth_drop)
  then have "enc_entries xs = enc_entries (take i xs) @ enc_entry (xs ! i) @ enc_entries (drop (Suc i) xs)"
    unfolding enc_entries_def by (metis concat_append map_append list.simps(9) concat.simps(2))
  then show ?thesis by (simp add: boff_def)
qed

lemma length_enc_entry: "3 \<le> length (enc_entry x)"
proof -
  have one: "1 \<le> length (EncodeVarint32 v)" for v
    using GetVarint32_shorter [OF GetVarint32_Encode [of v "[]"]] by (simp add: Suc_le_eq)
  obtain sh k v where x: "x = (sh, k, v)" by (cases x)
  have "length (enc_entry x) = length (EncodeVarint32 (of_nat sh)) + length (EncodeVarint32 (of_nat (length k - sh))) +
      length (EncodeVarint32 (of_nat (length v))) + (length (drop sh k) + length v)"
    by (simp add: x enc_entry_def)
  then show ?thesis
    using one [of "of_nat sh"] one [of "of_nat (length k - sh)"] one [of "of_nat (length v)"] by linarith
qed

lemma boff_mono: "i \<le> j \<Longrightarrow> boff xs i \<le> boff xs j"
  by (simp add: boff_def enc_entries_def) (metis le_iff_add length_append concat_append map_append take_add le_add1)

lemma boff_strict: "i < j \<Longrightarrow> j \<le> length xs \<Longrightarrow> boff xs i < boff xs j"
proof -
  assume ij: "i < j" "j \<le> length xs"
  then have "boff xs i < boff xs (Suc i)" using length_enc_entry [of "xs ! i"] boff_Suc [of i xs] by linarith
  also have "\<dots> \<le> boff xs j" using ij by (intro boff_mono) simp
  finally show ?thesis .
qed

section \<open>Decoding an entry\<close>

lemma small_byte: "(ucast (b :: byte) :: 32 word) < 128 \<Longrightarrow> (ucast b :: 32 word) AND 128 = 0"
proof -
  assume "(ucast b :: 32 word) < 128"
  then have "unat b < 128" by (simp add: word_less_nat_alt unat_ucast_up)
  then show ?thesis using byte_groups(1) [where 'a = 32, of b] by simp
qed

text \<open>The fast path agrees with the general one.\<close>

lemma DecodeEntry_slow:
  "DecodeEntry p = (if length p < 3 then None
     else do { (shared, p) \<leftarrow> GetVarint32Ptr p; (non_shared, p) \<leftarrow> GetVarint32Ptr p; (value_length, p) \<leftarrow> GetVarint32Ptr p;
               if (of_nat (length p) :: 32 word) < non_shared + value_length then None
               else Some (shared, non_shared, value_length, p) })"
proof (cases "length p < 3")
  case False
  then obtain a b c q where p: "p = a # b # c # q" by (auto simp: numeral_3_eq_3 not_less Suc_le_length_iff)
  show ?thesis
  proof (cases "((ucast a :: 32 word) OR ucast b OR ucast c) < 128")
    case True
    have le: "x \<le> x OR y" "y \<le> x OR y" for x y :: "32 word" by (simp_all add: le_word_or1 le_word_or2)
    have "(ucast a :: 32 word) < 128" "(ucast b :: 32 word) < 128" "(ucast c :: 32 word) < 128"
      using True le by (meson order_le_less_trans order_trans)+
    then show ?thesis using True by (simp add: p DecodeEntry_def GetVarint32Ptr_def small_byte)
  next
    case f: False
    then show ?thesis by (auto simp: p DecodeEntry_def split: prod.splits Option.bind_splits)
  qed
qed (simp add: DecodeEntry_def)

lemma of_nat_not_less: "m \<le> n \<Longrightarrow> n < 2 ^ 32 \<Longrightarrow> \<not> (of_nat n :: 32 word) < of_nat m"
  by (simp add: word_less_nat_alt unat_of_nat take_bit_nat_eq_self not_less)

lemma DecodeEntry_enc:
  assumes "sh \<le> length k" "length k < 2 ^ 32" "length (drop sh k @ v @ rest) < 2 ^ 32"
  shows "DecodeEntry (enc_entry (sh, k, v) @ rest) =
    Some (of_nat sh, of_nat (length k - sh), of_nat (length v), drop sh k @ v @ rest)"
proof -
  have "(of_nat (length k - sh) :: 32 word) + of_nat (length v) = of_nat (length (drop sh k @ v))"
    by simp
  moreover have "\<not> (of_nat (length (drop sh k @ v @ rest)) :: 32 word) < of_nat (length (drop sh k @ v))"
    by (rule of_nat_not_less [OF _ assms(3)]) simp
  moreover have "\<not> length (enc_entry (sh, k, v) @ rest) < 3" using length_enc_entry [of "(sh, k, v)"] by simp
  ultimately show ?thesis
    unfolding DecodeEntry_slow by (simp add: enc_entry_def del: length_append length_drop)
qed

section \<open>The iterator over a block\<close>

definition it_over :: "entry list \<Rightarrow> nat list \<Rightarrow> BlockIter \<Rightarrow> bool" where
  "it_over xs rs it \<longleftrightarrow> bi_data it = block_bytes xs rs \<and> bi_restarts it = of_nat (boff xs (length xs)) \<and>
     bi_num_restarts it = of_nat (length rs) \<and> bi_status it = Status_OK"

text \<open>Standing before entry \<open>i\<close>, at entry \<open>i\<close>, and behind the last one.\<close>

definition it_before :: "entry list \<Rightarrow> nat list \<Rightarrow> BlockIter \<Rightarrow> nat \<Rightarrow> bool" where
  "it_before xs rs it i \<longleftrightarrow> it_over xs rs it \<and> i \<le> length xs \<and> NextEntryOffset it = of_nat (boff xs i) \<and>
     (i < length xs \<longrightarrow> fst (xs ! i) \<le> length (bi_key it) \<and>
        take (fst (xs ! i)) (bi_key it) = take (fst (xs ! i)) (fst (snd (xs ! i)))) \<and>
     bi_restart_index it < of_nat (length rs)"

definition it_at :: "entry list \<Rightarrow> nat list \<Rightarrow> BlockIter \<Rightarrow> nat \<Rightarrow> bool" where
  "it_at xs rs it i \<longleftrightarrow> it_over xs rs it \<and> i < length xs \<and> bi_current it = of_nat (boff xs i) \<and>
     bi_key it = fst (snd (xs ! i)) \<and>
     bi_value it = (boff xs (Suc i) - length (snd (snd (xs ! i))), length (snd (snd (xs ! i)))) \<and>
     bi_restart_index it < of_nat (length rs)"

definition it_end :: "entry list \<Rightarrow> nat list \<Rightarrow> BlockIter \<Rightarrow> bool" where
  "it_end xs rs it \<longleftrightarrow> it_over xs rs it \<and> bi_current it = bi_restarts it"

lemma block_sizes:
  assumes "block_ok xs rs"
  shows "boff xs i < 2 ^ 32" "unat (of_nat (boff xs i) :: 32 word) = boff xs i"
    "length rs < 2 ^ 32" "unat (of_nat (length rs) :: 32 word) = length rs"
    "length (enc_entries xs) + 4 * length rs + 4 = length (block_bytes xs rs)" "length (block_bytes xs rs) < 2 ^ 32"
proof -
  have "length (concat (map (\<lambda>i. EncodeFixed32 (of_nat (boff xs i))) rs)) = 4 * length rs"
    by (induction rs) simp_all
  then show len: "length (enc_entries xs) + 4 * length rs + 4 = length (block_bytes xs rs)"
    by (simp add: block_bytes_def)
  show small: "length (block_bytes xs rs) < 2 ^ 32" using assms by (simp add: block_ok_def)
  have "boff xs i \<le> length (enc_entries xs)"
    by (cases "i \<le> length xs") (metis boff_length(1) boff_mono, simp add: boff_def)
  then show "boff xs i < 2 ^ 32" using len small by linarith
  then show "unat (of_nat (boff xs i) :: 32 word) = boff xs i" by (simp add: unat_of_nat take_bit_nat_eq_self)
  show "length rs < 2 ^ 32" using len small by linarith
  then show "unat (of_nat (length rs) :: 32 word) = length rs" by (simp add: unat_of_nat take_bit_nat_eq_self)
qed

lemma of_nat_boff_less:
  assumes "block_ok xs rs"
  shows "(of_nat (boff xs i) :: 32 word) < of_nat (boff xs j) \<longleftrightarrow> boff xs i < boff xs j"
  using block_sizes(2) [OF assms] by (simp add: word_less_nat_alt)

lemma GetRestartPoint_rs:
  assumes ok: "block_ok xs rs" and it: "bi_data it = block_bytes xs rs" "bi_restarts it = of_nat (boff xs (length xs))"
    and j: "j < length rs"
  shows "GetRestartPoint it (of_nat j) = of_nat (boff xs (rs ! j))"
proof -
  have "unat (of_nat j :: 32 word) = j"
    using j block_sizes(3) [OF ok] by (simp add: unat_of_nat take_bit_nat_eq_self)
  then have "drop (unat (bi_restarts it) + unat (of_nat j :: 32 word) * 4) (bi_data it) =
      drop (4 * j) (concat (map (\<lambda>i. EncodeFixed32 (of_nat (boff xs i))) rs) @ EncodeFixed32 (of_nat (length rs)))"
    using block_sizes(2) [OF ok, of "length xs"] by (simp add: it block_bytes_def mult.commute)
  then show ?thesis using drop_fixed [OF j, of "\<lambda>i. of_nat (boff xs i)"] by (simp add: GetRestartPoint_def)
qed

lemma unat_plus_one: "(a :: 'a::len word) < b \<Longrightarrow> unat (a + 1) = unat a + 1"
proof -
  assume "a < b"
  moreover have "unat b < 2 ^ LENGTH('a)" by (rule unsigned_less)
  ultimately have "unat a + 1 < 2 ^ LENGTH('a)" unfolding word_less_nat_alt by linarith
  then show "unat (a + 1) = unat a + 1" by (simp add: unat_word_ariths)
qed

lemma advance_restart_returns:
  "bi_restart_index it < bi_num_restarts it \<Longrightarrow>
    \<exists>r. advance_restart it = Some (it\<lparr>bi_restart_index := r\<rparr>) \<and> r < bi_num_restarts it"
proof (induction "unat (bi_num_restarts it) - unat (bi_restart_index it)" arbitrary: it rule: less_induct)
  case less
  show ?case
  proof (cases "bi_restart_index it + 1 < bi_num_restarts it \<and> GetRestartPoint it (bi_restart_index it + 1) < bi_current it")
    case True
    let ?it = "it\<lparr>bi_restart_index := bi_restart_index it + 1\<rparr>"
    have "unat (bi_restart_index it + 1) = unat (bi_restart_index it) + 1"
      by (rule unat_plus_one [OF less.prems])
    then have "unat (bi_num_restarts ?it) - unat (bi_restart_index ?it) < unat (bi_num_restarts it) - unat (bi_restart_index it)"
      using less.prems by (simp add: word_less_nat_alt)
    from less.hyps [OF this] True show ?thesis by (subst advance_restart.simps) auto
  next
    case False
    then show ?thesis using less.prems by (subst advance_restart.simps) (auto intro!: exI [of _ "bi_restart_index it"])
  qed
qed

lemma key_small:
  assumes "\<forall>i<length xs. entry_ok xs i"
  shows "i < length xs \<Longrightarrow> length (fst (snd (xs ! i))) \<le> boff xs (Suc i)"
proof (induction i)
  case 0
  obtain sh k v where x: "xs ! 0 = (sh, k, v)" by (cases "xs ! 0")
  have "sh = 0" using assms 0 x by (auto simp: entry_ok_def prev_key_def)
  then show ?case using 0 x by (simp add: boff_Suc enc_entry_def)
next
  case (Suc i)
  obtain sh k v where x: "xs ! Suc i = (sh, k, v)" by (cases "xs ! Suc i")
  have "sh \<le> length (fst (snd (xs ! i)))" "sh \<le> length k"
    using assms Suc.prems x by (auto simp: entry_ok_def prev_key_def)
  moreover have "length (fst (snd (xs ! i))) \<le> boff xs (Suc i)" using Suc by simp
  ultimately show ?case using Suc.prems x by (simp add: boff_Suc enc_entry_def)
qed

text \<open>What decoding at the offset of an entry finds.\<close>

lemma decode_at:
  assumes ok: "block_ok xs rs" and i: "i < length xs" and x: "xs ! i = (sh, k, v)"
  obtains p where
    "DecodeEntry (drop (unat (of_nat (boff xs i) :: 32 word))
       (take (unat (of_nat (boff xs (length xs)) :: 32 word)) (block_bytes xs rs))) =
     Some (of_nat sh, of_nat (length k - sh), of_nat (length v), p)"
    "unat (of_nat sh :: 32 word) = sh" "unat (of_nat (length k - sh) :: 32 word) = length k - sh"
    "unat (of_nat (length v) :: 32 word) = length v" "sh \<le> length k"
    "boff xs (length xs) - length p + (length k - sh) + length v = boff xs (Suc i)"
    "boff xs (length xs) - length p + (length k - sh) \<le> length (block_bytes xs rs)"
    "take (length k - sh) (drop (boff xs (length xs) - length p) (block_bytes xs rs)) = drop sh k"
proof -
  have sh: "sh \<le> length k" using ok i x by (auto simp: block_ok_def entry_ok_def)
  note sizes = block_sizes [OF ok]
  let ?E = "enc_entries xs" and ?tail = "enc_entries (drop (Suc i) xs)"
  let ?p = "drop sh k @ v @ ?tail" and ?R = "of_nat (boff xs (length xs)) :: 32 word"
  have seg: "drop (unat (of_nat (boff xs i) :: 32 word)) (take (unat ?R) (block_bytes xs rs)) = enc_entry (sh, k, v) @ ?tail"
    using sizes(2) [of i] sizes(2) [of "length xs"] enc_entries_drop [OF i] x by (simp add: block_bytes_def)
  have next_off: "boff xs (Suc i) = boff xs i + length (enc_entry (sh, k, v))" using boff_Suc [OF i] x by simp
  have "length (drop (boff xs i) ?E) = length (enc_entry (sh, k, v)) + length ?tail"
    using enc_entries_drop [OF i] x by simp
  then have total: "boff xs (Suc i) + length ?tail = length ?E"
    using boff_strict [OF i order_refl] boff_length(1) [of xs] next_off by simp
  have E: "length ?E < 2 ^ 32" using sizes(5,6) by linarith
  have part: "length (drop sh k @ v) \<le> length (enc_entry (sh, k, v))" by (simp add: enc_entry_def)
  then have p: "length ?p < 2 ^ 32" using total next_off E by simp
  have klen: "length k < 2 ^ 32"
    using key_small [of xs i] ok i x total E by (simp add: block_ok_def)
  let ?hdr = "EncodeVarint32 (of_nat sh) @ EncodeVarint32 (of_nat (length k - sh)) @ EncodeVarint32 (of_nat (length v))"
  have "?E = take (boff xs i) ?E @ drop (boff xs i) ?E" by simp
  then have "?E = (take (boff xs i) ?E @ ?hdr) @ ?p"
    using enc_entries_drop [OF i] x by (simp add: enc_entry_def)
  then have "drop (length ?E - length ?p) ?E = ?p"
    by (metis append_eq_conv_conj length_append add_diff_cancel_right')
  then have "drop (length ?E - length ?p) (block_bytes xs rs) = ?p @ drop (length ?E) (block_bytes xs rs)"
    by (simp add: block_bytes_def)
  then have suffix: "take (length k - sh) (drop (boff xs (length xs) - length ?p) (block_bytes xs rs)) = drop sh k"
    by simp
  have off: "boff xs (length xs) - length ?p + (length k - sh) + length v = boff xs (Suc i)"
    using total part next_off by simp
  have bound: "boff xs (length xs) - length ?p + (length k - sh) \<le> length (block_bytes xs rs)"
    using off total sizes(5) by simp
  show ?thesis
  proof (rule that [OF _ _ _ _ sh off bound suffix])
    show "DecodeEntry (drop (unat (of_nat (boff xs i) :: 32 word)) (take (unat ?R) (block_bytes xs rs))) =
        Some (of_nat sh, of_nat (length k - sh), of_nat (length v), ?p)"
      unfolding seg by (rule DecodeEntry_enc [OF sh klen p])
  qed (rule unat_small32, use klen sh p in simp)+
qed

lemma ParseNextKey_entry:
  assumes ok: "block_ok xs rs" and before: "it_before xs rs it i" and i: "i < length xs"
  shows "\<exists>it'. ParseNextKey it = Some (True, it') \<and> it_at xs rs it' i"
proof -
  obtain sh k v where x: "xs ! i = (sh, k, v)" by (cases "xs ! i")
  have over: "it_over xs rs it" and key: "sh \<le> length (bi_key it)" "take sh (bi_key it) = take sh k"
    and index: "bi_restart_index it < of_nat (length rs)" and nxt: "NextEntryOffset it = of_nat (boff xs i)"
    using before i x by (simp_all add: it_before_def)
  obtain p where p: "DecodeEntry (drop (unat (of_nat (boff xs i) :: 32 word))
       (take (unat (of_nat (boff xs (length xs)) :: 32 word)) (block_bytes xs rs))) =
     Some (of_nat sh, of_nat (length k - sh), of_nat (length v), p)"
    "unat (of_nat sh :: 32 word) = sh" "unat (of_nat (length k - sh) :: 32 word) = length k - sh"
    "unat (of_nat (length v) :: 32 word) = length v" "sh \<le> length k"
    "boff xs (length xs) - length p + (length k - sh) + length v = boff xs (Suc i)"
    "boff xs (length xs) - length p + (length k - sh) \<le> length (block_bytes xs rs)"
    "take (length k - sh) (drop (boff xs (length xs) - length p) (block_bytes xs rs)) = drop sh k"
    by (rule decode_at [OF ok i x])
  define off where "off = boff xs (length xs) - length p"
  note p = p [folded off_def]
  have off: "unat (of_nat (boff xs (length xs)) :: 32 word) - length p = off"
    using block_sizes(2) [OF ok, of "length xs"] by (simp add: off_def)
  have cur: "\<not> (of_nat (boff xs (length xs)) :: 32 word) \<le> of_nat (boff xs i)"
    using of_nat_boff_less [OF ok, of i "length xs"] boff_strict [OF i order_refl] by (simp add: not_le)
  let ?it = "it\<lparr>bi_current := of_nat (boff xs i), bi_key := k, bi_value := (off + (length k - sh), length v)\<rparr>"
  obtain r where r: "advance_restart ?it = Some (?it\<lparr>bi_restart_index := r\<rparr>)" "r < bi_num_restarts ?it"
    using advance_restart_returns [of ?it] over index by (auto simp: it_over_def)
  have "ParseNextKey it = Some (True, ?it\<lparr>bi_restart_index := r\<rparr>)"
    using over cur key p r(1) nxt
    by (simp add: ParseNextKey_def Let_def it_over_def off
        del: boff_length length_append length_drop of_nat_diff)
  moreover have "it_at xs rs (?it\<lparr>bi_restart_index := r\<rparr>) i"
    using over i x p(6) r(2) by (auto simp: it_at_def it_over_def)
  ultimately show ?thesis by blast
qed

lemma ParseNextKey_end:
  assumes "block_ok xs rs" "it_before xs rs it (length xs)"
  shows "\<exists>it'. ParseNextKey it = Some (False, it') \<and> it_end xs rs it'"
  using assms by (auto simp: it_before_def it_over_def it_end_def ParseNextKey_def Let_def)

lemma at_before:
  assumes ok: "block_ok xs rs" and at: "it_at xs rs it i"
  shows "it_before xs rs it (Suc i)" "NextEntryOffset it = of_nat (boff xs (Suc i))"
    "BlockIter_Valid it" "BlockIter_value it = snd (snd (xs ! i))"
proof -
  obtain sh k v where x: "xs ! i = (sh, k, v)" by (cases "xs ! i")
  have i: "i < length xs" using at by (simp add: it_at_def)
  have vi: "length v \<le> length (enc_entry (sh, k, v))" by (simp add: enc_entry_def)
  then have off: "boff xs (Suc i) - length v + length v = boff xs (Suc i)" using boff_Suc [OF i] x by simp
  then show nxt: "NextEntryOffset it = of_nat (boff xs (Suc i))"
    using at x by (simp add: it_at_def NextEntryOffset_def)
  have "entry_ok xs (Suc i)" if "Suc i < length xs" using ok that by (simp add: block_ok_def)
  then show "it_before xs rs it (Suc i)"
    using at nxt i by (auto simp: it_before_def it_at_def entry_ok_def prev_key_def)
  show "BlockIter_Valid it"
    using at of_nat_boff_less [OF ok, of i "length xs"] boff_strict [OF i order_refl]
    by (simp add: BlockIter_Valid_def it_at_def it_over_def)
  have "take (boff xs (Suc i)) (block_bytes xs rs) = take (boff xs (Suc i)) (enc_entries xs)"
    using boff_mono [of "Suc i" "length xs" xs] i by (simp add: block_bytes_def)
  also have "\<dots> = enc_entries (take (Suc i) xs)"
    by (metis append_eq_conv_conj append_take_drop_id boff_def concat_append enc_entries_def map_append)
  also have "\<dots> = enc_entries (take i xs) @ enc_entry (sh, k, v)"
    using i x by (simp add: take_Suc_conv_app_nth enc_entries_def)
  finally have pre: "take (boff xs (Suc i)) (block_bytes xs rs) = enc_entries (take i xs) @ enc_entry (sh, k, v)" .
  have "take (length v) (drop (boff xs (Suc i) - length v) (block_bytes xs rs)) =
      drop (boff xs (Suc i) - length v) (take (boff xs (Suc i)) (block_bytes xs rs))"
    using off by (simp add: take_drop add.commute)
  also have "\<dots> = v"
    unfolding pre using boff_Suc [OF i] x by (simp add: boff_def enc_entry_def)
  finally show "BlockIter_value it = snd (snd (xs ! i))"
    using at x by (simp add: BlockIter_value_def it_at_def it_over_def)
qed

text \<open>Starting over at a restart point.\<close>

lemma SeekToRestartPoint_before:
  assumes ok: "block_ok xs rs" and over: "it_over xs rs it" and j: "j < length rs"
  shows "it_before xs rs (SeekToRestartPoint it (of_nat j)) (rs ! j)"
proof -
  have r: "GetRestartPoint it (of_nat j) = of_nat (boff xs (rs ! j))"
    using GetRestartPoint_rs [OF ok _ _ j] over by (simp add: it_over_def)
  have mem: "rs ! j \<in> set rs" using j by simp
  have zero: "rs ! j < length xs \<Longrightarrow> fst (xs ! (rs ! j)) = 0" "rs ! j \<le> length xs"
    using ok mem by (auto simp: block_ok_def restarts_ok_def)
  have "(of_nat j :: 32 word) < of_nat (length rs)"
    using j block_sizes(3,4) [OF ok] by (simp add: word_less_nat_alt unat_small32)
  then show ?thesis
    using over zero r block_sizes(2) [OF ok, of "rs ! j"]
    by (simp add: it_before_def it_over_def SeekToRestartPoint_def NextEntryOffset_def)
qed

lemma rs_0: "block_ok xs rs \<Longrightarrow> rs ! 0 = 0 \<and> 0 < length rs"
  by (cases rs) (simp_all add: block_ok_def restarts_ok_def)

lemma SeekToFirst_result:
  assumes ok: "block_ok xs rs" and over: "it_over xs rs it"
  shows "\<exists>it'. BlockIter_SeekToFirst it = Some it' \<and> (if xs = [] then it_end xs rs it' else it_at xs rs it' 0)"
proof -
  have "it_before xs rs (SeekToRestartPoint it 0) 0"
    using SeekToRestartPoint_before [OF ok over, of 0] rs_0 [OF ok] by simp
  then show ?thesis
    using ParseNextKey_entry [OF ok, of _ 0] ParseNextKey_end [OF ok, of "SeekToRestartPoint it 0"]
    by (cases "xs = []") (fastforce simp: BlockIter_SeekToFirst_def)+
qed

lemma Next_result:
  assumes ok: "block_ok xs rs" and at: "it_at xs rs it i"
  shows "\<exists>it'. BlockIter_Next it = Some it' \<and> (if Suc i = length xs then it_end xs rs it' else it_at xs rs it' (Suc i))"
proof (cases "Suc i = length xs")
  case True
  then show ?thesis
    using ParseNextKey_end [OF ok, of it] at_before(1) [OF ok at] by (auto simp: BlockIter_Next_def)
next
  case False
  then have "Suc i < length xs" using at by (simp add: it_at_def)
  then show ?thesis
    using ParseNextKey_entry [OF ok at_before(1) [OF ok at]] False by (auto simp: BlockIter_Next_def)
qed

text \<open>Parsing on until the entry ends at or behind a given offset.\<close>

lemma parse_until_result:
  assumes ok: "block_ok xs rs"
  shows "it_before xs rs it i \<Longrightarrow> i \<le> j \<Longrightarrow> j < length xs \<Longrightarrow>
    \<exists>it'. parse_until it (of_nat (boff xs (Suc j))) = Some it' \<and> it_at xs rs it' j"
proof (induction "j - i" arbitrary: it i rule: less_induct)
  case less
  have i: "i < length xs" using less.prems by simp
  obtain it1 where it1: "ParseNextKey it = Some (True, it1)" "it_at xs rs it1 i"
    using ParseNextKey_entry [OF ok less.prems(1) i] by blast
  note b = at_before [OF ok it1(2)]
  show ?case
  proof (cases "i = j")
    case True
    then have "\<not> NextEntryOffset it1 < of_nat (boff xs (Suc j))" using b(2) by simp
    then show ?thesis using it1 True by (subst parse_until.simps) simp
  next
    case False
    then have ij: "Suc i \<le> j" using less.prems(2) by simp
    then have "NextEntryOffset it1 < of_nat (boff xs (Suc j))"
      using b(2) of_nat_boff_less [OF ok] boff_strict [of "Suc i" "Suc j" xs] less.prems(3) by simp
    then show ?thesis
      using less.hyps [OF _ b(1) ij less.prems(3)] it1(1) ij by (subst parse_until.simps) simp
  qed
qed

lemma SeekToLast_result:
  assumes ok: "block_ok xs rs" and over: "it_over xs rs it"
  shows "\<exists>it'. BlockIter_SeekToLast it = Some it' \<and>
    (if xs = [] then it_end xs rs it' else it_at xs rs it' (length xs - 1))"
proof -
  let ?j = "length rs - 1"
  have j: "?j < length rs" using rs_0 [OF ok] by simp
  have "bi_num_restarts it - 1 = of_nat ?j"
    using over j by (cases rs) (simp_all add: it_over_def)
  then have before: "it_before xs rs (SeekToRestartPoint it (bi_num_restarts it - 1)) (rs ! ?j)"
    using SeekToRestartPoint_before [OF ok over j] by simp
  show ?thesis
  proof (cases "xs = []")
    case True
    then have "rs ! ?j = length xs" using before by (simp add: it_before_def)
    then obtain it' where "ParseNextKey (SeekToRestartPoint it (bi_num_restarts it - 1)) = Some (False, it')" "it_end xs rs it'"
      using ParseNextKey_end [OF ok] before by metis
    then show ?thesis using True by (auto simp: BlockIter_SeekToLast_def parse_until.simps)
  next
    case False
    have "rs ! ?j \<in> set rs" using j by (rule nth_mem)
    then have "rs ! ?j < length xs \<or> rs ! ?j = 0" using ok by (simp add: block_ok_def restarts_ok_def)
    then have "rs ! ?j \<le> length xs - 1" by auto
    then show ?thesis
      using parse_until_result [OF ok before, of "length xs - 1"] False over
      by (auto simp: BlockIter_SeekToLast_def it_over_def)
  qed
qed

end
