(* ===== verification/Ldb_Iterator.thy ===== *)
theory Ldb_Iterator
  imports Ldb_Status "HOL-Library.Monad_Syntax"
begin

text \<open>
  Iterators: the operations of \<^verbatim>\<open>include/leveldb/iterator.h\<close> as a record, what its comments promise as
  the locale \<open>iterator\<close>, the empty iterator of \<^verbatim>\<open>table/iterator.cc\<close> and the caching wrapper of
  \<^verbatim>\<open>table/iterator_wrapper.h\<close>. A call without a result breaks a precondition or does not end.
\<close>

section \<open>The interface\<close>

type_synonym entry_kv = "byte list \<times> byte list"

record 'i Iterator =
  it_Valid :: "'i \<Rightarrow> bool"
  it_key :: "'i \<Rightarrow> byte list"
  it_value :: "'i \<Rightarrow> byte list"
  it_status :: "'i \<Rightarrow> Status"
  it_SeekToFirst :: "'i \<Rightarrow> 'i option"
  it_SeekToLast :: "'i \<Rightarrow> 'i option"
  it_Next :: "'i \<Rightarrow> 'i option"
  it_Prev :: "'i \<Rightarrow> 'i option"
  it_Seek :: "byte list \<Rightarrow> 'i \<Rightarrow> 'i option"

text \<open>Whether the entries below a target come first, and how many there are.\<close>

definition downward :: "(byte list \<Rightarrow> byte list \<Rightarrow> bool) \<Rightarrow> byte list \<Rightarrow> entry_kv list \<Rightarrow> bool" where
  "downward below t xs \<longleftrightarrow> sorted_wrt (\<lambda>x y. below (fst y) t \<longrightarrow> below (fst x) t) xs"

definition seek_pos :: "(byte list \<Rightarrow> byte list \<Rightarrow> bool) \<Rightarrow> byte list \<Rightarrow> entry_kv list \<Rightarrow> nat" where
  "seek_pos below t xs = length (takeWhile (\<lambda>x. below (fst x) t) xs)"

lemma seek_pos_le: "seek_pos below t xs \<le> length xs"
  by (simp add: seek_pos_def length_takeWhile_le)

lemma downward_less_seek_pos:
  "downward below t xs \<Longrightarrow> i < length xs \<Longrightarrow> below (fst (xs ! i)) t \<longleftrightarrow> i < seek_pos below t xs"
proof (induction xs arbitrary: i)
  case (Cons x xs)
  show ?case
  proof (cases i)
    case 0
    then show ?thesis by (simp add: seek_pos_def)
  next
    case (Suc j)
    have d: "downward below t xs" using Cons.prems(1) by (simp add: downward_def)
    show ?thesis
    proof (cases "below (fst x) t")
      case True
      then show ?thesis using Cons.IH [OF d] Cons.prems(2) Suc by (simp add: seek_pos_def)
    next
      case False
      then have "\<not> below (fst (xs ! j)) t" using Cons.prems Suc by (auto simp: downward_def)
      then show ?thesis using False Suc by (simp add: seek_pos_def)
    qed
  qed
qed simp

lemma seek_pos_unique:
  assumes "s \<le> length xs" "\<And>i. i < s \<Longrightarrow> below (fst (xs ! i)) t" "s < length xs \<Longrightarrow> \<not> below (fst (xs ! s)) t"
  shows "seek_pos below t xs = s"
proof -
  have "takeWhile (\<lambda>x. below (fst x) t) xs = take s xs"
  proof (rule takeWhile_eq_take_P_nth)
    show "\<And>i. i < s \<Longrightarrow> i < length xs \<Longrightarrow> below (fst (xs ! i)) t" using assms(2) by blast
    show "s < length xs \<Longrightarrow> \<not> below (fst (xs ! s)) t" by (rule assms(3))
  qed
  then show ?thesis using assms(1) by (simp add: seek_pos_def)
qed

text \<open>
  An iterator at position \<open>i\<close> over the entries \<open>xs\<close>, behind the last one when \<open>i = length xs\<close>; that is also
  where stepping back from the first entry ends. Seeking is promised for proper targets.
\<close>

locale iterator =
  fixes ops :: "'i Iterator"
    and iter_at :: "'i \<Rightarrow> entry_kv list \<Rightarrow> nat \<Rightarrow> bool"
    and below :: "byte list \<Rightarrow> byte list \<Rightarrow> bool"
    and proper :: "byte list \<Rightarrow> bool"
  assumes at_bound: "\<And>it xs i. iter_at it xs i \<Longrightarrow> i \<le> length xs"
    and at_valid: "\<And>it xs i. iter_at it xs i \<Longrightarrow> it_Valid ops it \<longleftrightarrow> i < length xs"
    and at_key: "\<And>it xs i. iter_at it xs i \<Longrightarrow> i < length xs \<Longrightarrow> it_key ops it = fst (xs ! i)"
    and at_value: "\<And>it xs i. iter_at it xs i \<Longrightarrow> i < length xs \<Longrightarrow> it_value ops it = snd (xs ! i)"
    and at_status: "\<And>it xs i. iter_at it xs i \<Longrightarrow> it_status ops it = Status_OK"
    and at_first: "\<And>it xs i. iter_at it xs i \<Longrightarrow> \<exists>it'. it_SeekToFirst ops it = Some it' \<and> iter_at it' xs 0"
    and at_last: "\<And>it xs i. iter_at it xs i \<Longrightarrow> \<exists>it'. it_SeekToLast ops it = Some it' \<and> iter_at it' xs (length xs - 1)"
    and at_next: "\<And>it xs i. iter_at it xs i \<Longrightarrow> i < length xs \<Longrightarrow>
      \<exists>it'. it_Next ops it = Some it' \<and> iter_at it' xs (Suc i)"
    and at_prev: "\<And>it xs i. iter_at it xs i \<Longrightarrow> i < length xs \<Longrightarrow>
      \<exists>it'. it_Prev ops it = Some it' \<and> iter_at it' xs (if i = 0 then length xs else i - 1)"
    and at_seek: "\<And>it xs i t. iter_at it xs i \<Longrightarrow> proper t \<Longrightarrow> downward below t xs \<Longrightarrow>
      \<exists>it'. it_Seek ops t it = Some it' \<and> iter_at it' xs (seek_pos below t xs)"

section \<open>Walking\<close>

text \<open>All entries from the current one, taken with repeated steps of one kind, and the final status.\<close>

partial_function (option) walk :: "'i Iterator \<Rightarrow> ('i \<Rightarrow> 'i option) \<Rightarrow> 'i \<Rightarrow> (entry_kv list \<times> Status) option" where
  "walk ops step it =
     (if it_Valid ops it
      then do { it' \<leftarrow> step it; (kvs, st) \<leftarrow> walk ops step it'; Some ((it_key ops it, it_value ops it) # kvs, st) }
      else Some ([], it_status ops it))"

context iterator begin

lemma walk_end: "iter_at it xs (length xs) \<Longrightarrow> walk ops step it = Some ([], Status_OK)"
  by (subst walk.simps) (simp add: at_valid at_status)

lemma walk_Next: "iter_at it xs i \<Longrightarrow> walk ops (it_Next ops) it = Some (drop i xs, Status_OK)"
proof (induction "length xs - i" arbitrary: it i rule: less_induct)
  case less
  show ?case
  proof (cases "i < length xs")
    case True
    obtain it' where it': "it_Next ops it = Some it'" "iter_at it' xs (Suc i)" using at_next [OF less.prems True] by blast
    have "walk ops (it_Next ops) it' = Some (drop (Suc i) xs, Status_OK)" using less.hyps [OF _ it'(2)] True by simp
    then show ?thesis
      using it'(1) True less.prems by (subst walk.simps) (simp add: at_valid at_key at_value flip: Cons_nth_drop_Suc)
  next
    case False
    then have "i = length xs" using at_bound [OF less.prems] by simp
    then show ?thesis using walk_end less.prems by simp
  qed
qed

lemma walk_Prev: "iter_at it xs i \<Longrightarrow> i < length xs \<Longrightarrow> walk ops (it_Prev ops) it = Some (rev (take (Suc i) xs), Status_OK)"
proof (induction i arbitrary: it)
  case (0 it)
  obtain it' where it': "it_Prev ops it = Some it'" "iter_at it' xs (length xs)" using at_prev [OF 0] by auto
  then show ?case
    using 0 walk_end [OF it'(2)] by (subst walk.simps) (simp add: at_valid at_key at_value take_Suc_conv_app_nth)
next
  case (Suc i it)
  obtain it' where it': "it_Prev ops it = Some it'" "iter_at it' xs i" using at_prev [OF Suc.prems] by auto
  then show ?case
    using Suc.IH [OF it'(2)] Suc.prems
    by (subst walk.simps) (simp add: at_valid at_key at_value take_Suc_conv_app_nth [of "Suc i"])
qed

lemma walk_from_first:
  assumes "iter_at it xs i"
  shows "\<exists>it'. it_SeekToFirst ops it = Some it' \<and> walk ops (it_Next ops) it' = Some (xs, Status_OK)"
  using at_first [OF assms] walk_Next [of _ xs 0] by auto

lemma at_unique: "iter_at it xs i \<Longrightarrow> iter_at it ys j \<Longrightarrow> xs = ys"
  using walk_from_first [of it xs i] walk_from_first [of it ys j] by auto

lemma walk_from_last:
  assumes "iter_at it xs i"
  shows "\<exists>it'. it_SeekToLast ops it = Some it' \<and> walk ops (it_Prev ops) it' = Some (rev xs, Status_OK)"
proof -
  obtain it' where it': "it_SeekToLast ops it = Some it'" "iter_at it' xs (length xs - 1)" using at_last [OF assms] by blast
  show ?thesis
  proof (cases "xs = []")
    case True
    then show ?thesis using it' walk_end [of it' xs] by auto
  next
    case False
    then show ?thesis using it' walk_Prev [OF it'(2)] by auto
  qed
qed

lemma walk_from_target:
  assumes "iter_at it xs i" "proper t" "downward below t xs"
  shows "\<exists>it'. it_Seek ops t it = Some it' \<and>
    walk ops (it_Next ops) it' = Some (dropWhile (\<lambda>x. below (fst x) t) xs, Status_OK)"
  using at_seek [OF assms] walk_Next by (fastforce simp: seek_pos_def dropWhile_eq_drop)

end

section \<open>The wrapper\<close>

record 'i IteratorWrapper =
  iw_iter :: "'i option"
  iw_valid :: bool
  iw_key :: "byte list"

definition iw_null :: "'i IteratorWrapper" where
  "iw_null = \<lparr>iw_iter = None, iw_valid = False, iw_key = []\<rparr>"

definition iw_Update :: "'i Iterator \<Rightarrow> 'i \<Rightarrow> 'i IteratorWrapper \<Rightarrow> 'i IteratorWrapper" where
  "iw_Update ops it w =
     (let w = w\<lparr>iw_iter := Some it, iw_valid := it_Valid ops it\<rparr>
      in if iw_valid w then w\<lparr>iw_key := it_key ops it\<rparr> else w)"

definition iw_Set :: "'i Iterator \<Rightarrow> 'i option \<Rightarrow> 'i IteratorWrapper \<Rightarrow> 'i IteratorWrapper" where
  "iw_Set ops iter w =
     (case iter of None \<Rightarrow> w\<lparr>iw_iter := None, iw_valid := False\<rparr> | Some it \<Rightarrow> iw_Update ops it w)"

definition make_IteratorWrapper :: "'i Iterator \<Rightarrow> 'i option \<Rightarrow> 'i IteratorWrapper" where
  "make_IteratorWrapper ops iter = iw_Set ops iter iw_null"

definition iw_value :: "'i Iterator \<Rightarrow> 'i IteratorWrapper \<Rightarrow> byte list" where
  "iw_value ops w = it_value ops (the (iw_iter w))"

definition iw_status :: "'i Iterator \<Rightarrow> 'i IteratorWrapper \<Rightarrow> Status" where
  "iw_status ops w = it_status ops (the (iw_iter w))"

text \<open>The moving operations of the wrapper are those of the iterator and an update.\<close>

definition iw_move :: "'i Iterator \<Rightarrow> ('i \<Rightarrow> 'i option) \<Rightarrow> 'i IteratorWrapper \<Rightarrow> 'i IteratorWrapper option" where
  "iw_move ops f w = do { it \<leftarrow> iw_iter w; it' \<leftarrow> f it; Some (iw_Update ops it' w) }"

definition iw_Next :: "'i Iterator \<Rightarrow> 'i IteratorWrapper \<Rightarrow> 'i IteratorWrapper option" where
  "iw_Next ops = iw_move ops (it_Next ops)"

definition iw_Prev :: "'i Iterator \<Rightarrow> 'i IteratorWrapper \<Rightarrow> 'i IteratorWrapper option" where
  "iw_Prev ops = iw_move ops (it_Prev ops)"

definition iw_Seek :: "'i Iterator \<Rightarrow> byte list \<Rightarrow> 'i IteratorWrapper \<Rightarrow> 'i IteratorWrapper option" where
  "iw_Seek ops k = iw_move ops (it_Seek ops k)"

definition iw_SeekToFirst :: "'i Iterator \<Rightarrow> 'i IteratorWrapper \<Rightarrow> 'i IteratorWrapper option" where
  "iw_SeekToFirst ops = iw_move ops (it_SeekToFirst ops)"

definition iw_SeekToLast :: "'i Iterator \<Rightarrow> 'i IteratorWrapper \<Rightarrow> 'i IteratorWrapper option" where
  "iw_SeekToLast ops = iw_move ops (it_SeekToLast ops)"

text \<open>A wrapper at a position: its iterator is there, and what it caches is right.\<close>

definition wrap_at ::
  "('i \<Rightarrow> entry_kv list \<Rightarrow> nat \<Rightarrow> bool) \<Rightarrow> 'i IteratorWrapper \<Rightarrow> entry_kv list \<Rightarrow> nat \<Rightarrow> bool" where
  "wrap_at iter_at w xs i \<longleftrightarrow>
     (\<exists>it. iw_iter w = Some it \<and> iter_at it xs i) \<and> i \<le> length xs \<and> (iw_valid w \<longleftrightarrow> i < length xs) \<and>
     (i < length xs \<longrightarrow> iw_key w = fst (xs ! i))"

context iterator begin

lemma wrap_Update: "iter_at it xs i \<Longrightarrow> wrap_at iter_at (iw_Update ops it w) xs i"
  by (auto simp: wrap_at_def iw_Update_def Let_def at_valid at_key at_bound)

lemma wrap_move:
  assumes "wrap_at iter_at w xs i" "\<And>it. iter_at it xs i \<Longrightarrow> \<exists>it'. f it = Some it' \<and> iter_at it' xs j"
  shows "\<exists>w'. iw_move ops f w = Some w' \<and> wrap_at iter_at w' xs j"
proof -
  obtain it where it: "iw_iter w = Some it" "iter_at it xs i" using assms(1) by (auto simp: wrap_at_def)
  then obtain it' where "f it = Some it'" "iter_at it' xs j" using assms(2) by blast
  then show ?thesis using it(1) wrap_Update by (auto simp: iw_move_def)
qed

lemma wrap_ops:
  "wrap_at iter_at w xs i \<Longrightarrow> \<exists>w'. iw_SeekToFirst ops w = Some w' \<and> wrap_at iter_at w' xs 0"
  "wrap_at iter_at w xs i \<Longrightarrow> \<exists>w'. iw_SeekToLast ops w = Some w' \<and> wrap_at iter_at w' xs (length xs - 1)"
  "wrap_at iter_at w xs i \<Longrightarrow> i < length xs \<Longrightarrow> \<exists>w'. iw_Next ops w = Some w' \<and> wrap_at iter_at w' xs (Suc i)"
  "wrap_at iter_at w xs i \<Longrightarrow> i < length xs \<Longrightarrow>
    \<exists>w'. iw_Prev ops w = Some w' \<and> wrap_at iter_at w' xs (if i = 0 then length xs else i - 1)"
  "wrap_at iter_at w xs i \<Longrightarrow> proper t \<Longrightarrow> downward below t xs \<Longrightarrow>
    \<exists>w'. iw_Seek ops t w = Some w' \<and> wrap_at iter_at w' xs (seek_pos below t xs)"
  unfolding iw_SeekToFirst_def iw_SeekToLast_def iw_Next_def iw_Prev_def iw_Seek_def
  by (erule wrap_move, blast intro: at_first at_last at_next at_prev at_seek)+

lemma wrap_value: "wrap_at iter_at w xs i \<Longrightarrow> i < length xs \<Longrightarrow> iw_value ops w = snd (xs ! i)"
  by (auto simp: wrap_at_def iw_value_def at_value)

lemma wrap_status: "wrap_at iter_at w xs i \<Longrightarrow> iw_status ops w = Status_OK"
  by (auto simp: wrap_at_def iw_status_def at_status)

lemma wrap_make: "iter_at it xs i \<Longrightarrow> wrap_at iter_at (make_IteratorWrapper ops (Some it)) xs i"
  by (simp add: make_IteratorWrapper_def iw_Set_def wrap_Update)

end

lemma wrap_atD:
  "wrap_at iter_at w xs i \<Longrightarrow> iw_iter w \<noteq> None" "wrap_at iter_at w xs i \<Longrightarrow> iw_valid w \<longleftrightarrow> i < length xs"
  "wrap_at iter_at w xs i \<Longrightarrow> i < length xs \<Longrightarrow> iw_key w = fst (xs ! i)" "wrap_at iter_at w xs i \<Longrightarrow> i \<le> length xs"
  by (auto simp: wrap_at_def)

end
