(* ===== verification/Ldb_Block_Theorems.thy ===== *)
theory Ldb_Block_Theorems
  imports Ldb_Block_Props Ldb_Dbformat Ldb_Iterator
begin

text \<open>
  Blocks: stepping back and seeking by key in a block, what the builder builds, and the two
  theorems about a block read back.
\<close>

section \<open>Stepping back\<close>

lemma boff_less_iff: "a \<le> length xs \<Longrightarrow> i \<le> length xs \<Longrightarrow> boff xs a < boff xs i \<longleftrightarrow> a < i"
  by (metis boff_mono boff_strict not_le order_less_irrefl order_less_le_trans)

lemma restart_le: "block_ok xs rs \<Longrightarrow> j < length rs \<Longrightarrow> rs ! j \<le> length xs"
  by (metis block_ok_def le0 less_imp_le_nat nth_mem restarts_ok_def)

lemma of_nat_restart:
  assumes "block_ok xs rs" "j < length rs"
  shows "unat (of_nat j :: 32 word) = j" "(of_nat j :: 32 word) = 0 \<longleftrightarrow> j = 0"
    "(of_nat j :: 32 word) < of_nat (length rs)"
proof -
  show j: "unat (of_nat j :: 32 word) = j" using assms block_sizes(3) [OF assms(1)] by (intro unat_small32) simp
  then show "(of_nat j :: 32 word) = 0 \<longleftrightarrow> j = 0" by (auto simp: word_unat_eq_iff)
  show "(of_nat j :: 32 word) < of_nat (length rs)"
    using j assms(2) block_sizes(4) [OF assms(1)] by (simp add: word_less_nat_alt)
qed

lemma prev_restart_result:
  assumes ok: "block_ok xs rs" and i: "i < length xs"
  shows "it_over xs rs it \<Longrightarrow> bi_restart_index it = of_nat j \<Longrightarrow> j < length rs \<Longrightarrow>
    (if i = 0 then \<exists>it'. prev_restart it (of_nat (boff xs i)) = Some (False, it') \<and> it_end xs rs it'
     else \<exists>it' j'. prev_restart it (of_nat (boff xs i)) = Some (True, it') \<and> it_over xs rs it' \<and>
       j' < length rs \<and> bi_restart_index it' = of_nat j' \<and> rs ! j' < i)"
proof (induction j arbitrary: it)
  case (0 it)
  have point: "GetRestartPoint it 0 = 0"
    using GetRestartPoint_rs [OF ok, of it 0] 0 rs_0 [OF ok] by (simp add: it_over_def)
  have "i \<noteq> 0 \<Longrightarrow> \<not> (of_nat (boff xs i) :: 32 word) \<le> 0"
    using of_nat_boff_less [OF ok, of 0 i] boff_less_iff [of 0 xs i] i by (simp add: not_le)
  then show ?case
    using 0 point rs_0 [OF ok]
    by (subst (1 2) prev_restart.simps) (auto simp: it_end_def it_over_def intro!: exI [of _ 0])
next
  case (Suc j it)
  have point: "GetRestartPoint it (of_nat (Suc j)) = of_nat (boff xs (rs ! Suc j))"
    using GetRestartPoint_rs [OF ok _ _ Suc.prems(3)] Suc.prems(1) by (simp add: it_over_def)
  have nz: "(of_nat (Suc j) :: 32 word) \<noteq> 0" using of_nat_restart(2) [OF ok Suc.prems(3)] by simp
  have less: "(of_nat (boff xs i) :: 32 word) \<le> of_nat (boff xs (rs ! Suc j)) \<longleftrightarrow> \<not> rs ! Suc j < i"
    using of_nat_boff_less [OF ok, of "rs ! Suc j" i] boff_less_iff [of "rs ! Suc j" xs i]
      restart_le [OF ok Suc.prems(3)] i by (simp flip: not_less)
  show ?case
  proof (cases "rs ! Suc j < i")
    case True
    then have "prev_restart it (of_nat (boff xs i)) = Some (True, it)"
      using less point Suc.prems(2) by (subst prev_restart.simps) simp
    then show ?thesis using True Suc.prems by auto
  next
    case False
    then have step: "prev_restart it (of_nat (boff xs i)) =
        prev_restart (it\<lparr>bi_restart_index := of_nat j\<rparr>) (of_nat (boff xs i))"
      using less point nz Suc.prems(2) by (subst prev_restart.simps) simp
    have "it_over xs rs (it\<lparr>bi_restart_index := of_nat j\<rparr>)" using Suc.prems(1) by (simp add: it_over_def)
    then show ?thesis unfolding step by (rule Suc.IH) (use Suc.prems(3) in simp_all)
  qed
qed

lemma Prev_result:
  assumes ok: "block_ok xs rs" and at: "it_at xs rs it i"
  shows "\<exists>it'. BlockIter_Prev it = Some it' \<and> (if i = 0 then it_end xs rs it' else it_at xs rs it' (i - 1))"
proof -
  have i: "i < length xs" and over: "it_over xs rs it" and cur: "bi_current it = of_nat (boff xs i)"
    using at by (simp_all add: it_at_def)
  define j where "j = unat (bi_restart_index it)"
  have j: "bi_restart_index it = of_nat j" "j < length rs"
    using at block_sizes(4) [OF ok] by (simp_all add: j_def it_at_def word_less_nat_alt)
  show ?thesis
  proof (cases "i = 0")
    case True
    then show ?thesis
      using prev_restart_result [OF ok i over j] cur by (auto simp: BlockIter_Prev_def)
  next
    case False
    then obtain it1 j' where it1: "prev_restart it (of_nat (boff xs i)) = Some (True, it1)" "it_over xs rs it1"
      "j' < length rs" "bi_restart_index it1 = of_nat j'" "rs ! j' < i"
      using prev_restart_result [OF ok i over j] by auto
    have "\<exists>it'. parse_until (SeekToRestartPoint it1 (of_nat j')) (of_nat (boff xs (Suc (i - 1)))) = Some it' \<and>
        it_at xs rs it' (i - 1)"
      using it1(5) i by (intro parse_until_result [OF ok SeekToRestartPoint_before [OF ok it1(2,3)]]) simp_all
    then show ?thesis using False it1 cur by (auto simp: BlockIter_Prev_def)
  qed
qed

section \<open>Seeking\<close>

definition entry_key :: "entry list \<Rightarrow> nat \<Rightarrow> byte list" where
  "entry_key xs i = fst (snd (xs ! i))"

lemma seek_mid:
  assumes ok: "block_ok xs rs" and ab: "a < b" "b < length rs"
  shows "((of_nat a :: 32 word) + of_nat b + 1) div 2 = of_nat ((a + b + 1) div 2)"
proof -
  have "a + b + 1 < 2 ^ 32" using ab block_sizes(5,6) [OF ok] by linarith
  then have "unat (of_nat (a + b + 1) :: 32 word) = a + b + 1" by (rule unat_small32)
  moreover have "unat (of_nat ((a + b + 1) div 2) :: 32 word) = (a + b + 1) div 2"
    using \<open>a + b + 1 < 2 ^ 32\<close> by (intro unat_small32) simp
  ultimately have "unat ((of_nat (a + b + 1) :: 32 word) div 2) = unat (of_nat ((a + b + 1) div 2) :: 32 word)"
    by (simp add: unat_div)
  then have "(of_nat (a + b + 1) :: 32 word) div 2 = of_nat ((a + b + 1) div 2)" by (rule word_unat_eq_iff [THEN iffD2])
  then show ?thesis by (simp only: of_nat_add of_nat_1)
qed

text \<open>The key at a restart point, as the search reads it.\<close>

lemma restart_key:
  assumes ok: "block_ok xs rs" and over: "it_over xs rs it" and m: "0 < m" "m < length rs"
  obtains n v p where
    "DecodeEntry (drop (unat (GetRestartPoint it (of_nat m))) (take (unat (bi_restarts it)) (bi_data it))) = Some (0, n, v, p)"
    "unat (bi_restarts it) - length p + unat n \<le> length (bi_data it)"
    "take (unat n) (drop (unat (bi_restarts it) - length p) (bi_data it)) = entry_key xs (rs ! m)"
    "rs ! m < length xs"
proof -
  have "rs ! 0 < rs ! m" using ok m by (auto simp: block_ok_def restarts_ok_def sorted_wrt_iff_nth_less)
  moreover have mem: "rs ! m \<in> set rs" using m(2) by (rule nth_mem)
  ultimately have lt: "rs ! m < length xs" and zero: "fst (xs ! (rs ! m)) = 0"
    using ok by (auto simp: block_ok_def restarts_ok_def)
  obtain sh k v where x: "xs ! (rs ! m) = (sh, k, v)" by (cases "xs ! (rs ! m)")
  have point: "GetRestartPoint it (of_nat m) = of_nat (boff xs (rs ! m))"
    using GetRestartPoint_rs [OF ok _ _ m(2)] over by (simp add: it_over_def)
  have R: "bi_restarts it = of_nat (boff xs (length xs))" "bi_data it = block_bytes xs rs"
    using over by (simp_all add: it_over_def)
  have uR: "unat (of_nat (boff xs (length xs)) :: 32 word) = boff xs (length xs)" by (rule block_sizes(2) [OF ok])
  show ?thesis
    by (rule decode_at [OF ok lt x], rule that)
      (use x zero lt point R uR in \<open>auto simp: entry_key_def simp del: boff_length\<close>)
qed

lemma seek_restart_result:
  assumes ok: "block_ok xs rs" and over: "it_over xs rs it"
  shows "a \<le> b \<Longrightarrow> b < length rs \<Longrightarrow> a = 0 \<or> cmp (entry_key xs (rs ! a)) target < 0 \<Longrightarrow>
    \<exists>j<length rs. seek_restart cmp it target (of_nat a) (of_nat b) = Some (Inr (of_nat j)) \<and>
      (j = 0 \<or> cmp (entry_key xs (rs ! j)) target < 0)"
proof (induction "b - a" arbitrary: a b rule: less_induct)
  case less
  have small: "unat (of_nat a :: 32 word) = a" "unat (of_nat b :: 32 word) = b"
    using of_nat_restart(1) [OF ok] less.prems(1,2) by simp_all
  show ?case
  proof (cases "a < b")
    case False
    then have "seek_restart cmp it target (of_nat a) (of_nat b) = Some (Inr (of_nat a))"
      using small by (subst seek_restart.simps) (simp add: word_less_nat_alt)
    then show ?thesis using False less.prems by auto
  next
    case True
    define m where "m = (a + b + 1) div 2"
    have m: "a < m" "m \<le> b" "0 < m" "m < length rs" using True less.prems(2) by (simp_all add: m_def)
    have lt: "(of_nat a :: 32 word) < of_nat b" using True small by (simp add: word_less_nat_alt)
    have mid: "((of_nat a :: 32 word) + of_nat b + 1) div 2 = of_nat m"
      unfolding m_def by (rule seek_mid [OF ok True less.prems(2)])
    have pred: "(of_nat m :: 32 word) - 1 = of_nat (m - 1)" using m(3) by (cases m) simp_all
    obtain n v p where e:
      "DecodeEntry (drop (unat (GetRestartPoint it (of_nat m))) (take (unat (bi_restarts it)) (bi_data it))) = Some (0, n, v, p)"
      "unat (bi_restarts it) - length p + unat n \<le> length (bi_data it)"
      "take (unat n) (drop (unat (bi_restarts it) - length p) (bi_data it)) = entry_key xs (rs ! m)"
      by (rule restart_key [OF ok over m(3,4)])
    have step: "seek_restart cmp it target (of_nat a) (of_nat b) =
        (if cmp (entry_key xs (rs ! m)) target < 0 then seek_restart cmp it target (of_nat m) (of_nat b)
         else seek_restart cmp it target (of_nat a) (of_nat (m - 1)))"
      by (subst seek_restart.simps) (simp only: lt mid pred e Let_def simp_thms if_True if_False option.case prod.case)
    show ?thesis
      unfolding step
      using less.hyps [of b m] less.hyps [of "m - 1" a] m less.prems by (cases "cmp (entry_key xs (rs ! m)) target < 0") auto
  qed
qed

text \<open>From any entry in front of it, the linear search finds the first entry that is not smaller.\<close>

lemma seek_linear_result:
  assumes ok: "block_ok xs rs"
    and s: "s \<le> length xs" "\<And>i. i < s \<Longrightarrow> cmp (entry_key xs i) target < 0"
      "s < length xs \<Longrightarrow> 0 \<le> cmp (entry_key xs s) target"
  shows "it_before xs rs it i \<Longrightarrow> i \<le> s \<Longrightarrow>
    \<exists>it'. seek_linear cmp it target = Some it' \<and> (if s = length xs then it_end xs rs it' else it_at xs rs it' s)"
proof (induction "s - i" arbitrary: it i rule: less_induct)
  case less
  show ?case
  proof (cases "i = length xs")
    case True
    then show ?thesis
      using ParseNextKey_end [OF ok, of it] less.prems s(1) by (subst seek_linear.simps) auto
  next
    case False
    then have i: "i < length xs" using less.prems s(1) by simp
    obtain it1 where it1: "ParseNextKey it = Some (True, it1)" "it_at xs rs it1 i"
      using ParseNextKey_entry [OF ok less.prems(1) i] by blast
    then have key: "bi_key it1 = entry_key xs i" by (simp add: it_at_def entry_key_def)
    show ?thesis
    proof (cases "i = s")
      case True
      then show ?thesis using it1 key s(3) i by (subst seek_linear.simps) simp
    next
      case False
      then have "i < s" using less.prems(2) by simp
      then show ?thesis
        using less.hyps [OF _ at_before(1) [OF ok it1(2)]] it1(1) key s(2) [of i]
        by (subst seek_linear.simps) simp
    qed
  qed
qed

lemma Seek_result:
  assumes ok: "block_ok xs rs" and over: "it_over xs rs it"
    and s: "s \<le> length xs" "\<And>i. i < length xs \<Longrightarrow> cmp (entry_key xs i) target < 0 \<longleftrightarrow> i < s"
  shows "\<exists>it'. BlockIter_Seek cmp it target = Some it' \<and> (if s = length xs then it_end xs rs it' else it_at xs rs it' s)"
proof -
  have last: "bi_num_restarts it - 1 = of_nat (length rs - 1)" "length rs - 1 < length rs"
    using over rs_0 [OF ok] by (cases rs; simp add: it_over_def)+
  obtain j where j: "j < length rs" "seek_restart cmp it target 0 (bi_num_restarts it - 1) = Some (Inr (of_nat j))"
    "j = 0 \<or> cmp (entry_key xs (rs ! j)) target < 0"
    using seek_restart_result [OF ok over, of 0 "length rs - 1" cmp target] last by auto
  have le: "rs ! j \<le> s"
  proof (cases "j = 0 \<or> rs ! j = length xs")
    case True
    then show ?thesis
    proof
      assume "rs ! j = length xs"
      then have "rs ! j = 0" using ok j(1) nth_mem [OF j(1)] by (auto simp: block_ok_def restarts_ok_def)
      then show ?thesis by simp
    qed (use rs_0 [OF ok] in simp)
  next
    case False
    then have "rs ! j < length xs" using restart_le [OF ok j(1)] by simp
    then show ?thesis using s(2) [of "rs ! j"] j(3) False by simp
  qed
  have "\<exists>it'. seek_linear cmp (SeekToRestartPoint it (of_nat j)) target = Some it' \<and>
      (if s = length xs then it_end xs rs it' else it_at xs rs it' s)"
    by (rule seek_linear_result [OF ok s(1) _ _ SeekToRestartPoint_before [OF ok over j(1)] le])
      (use s in \<open>simp_all flip: not_less\<close>)
  then show ?thesis using j(2) by (auto simp: BlockIter_Seek_def)
qed

section \<open>What the builder builds\<close>

definition block_rep :: "BlockBuilder \<Rightarrow> entry list \<Rightarrow> nat list \<Rightarrow> bool" where
  "block_rep b xs rs \<longleftrightarrow> bb_buffer b = enc_entries xs \<and> bb_restarts b = map (\<lambda>i. of_nat (boff xs i)) rs \<and>
     bb_last_key b = prev_key xs (length xs) \<and> (\<forall>i<length xs. entry_ok xs i) \<and> restarts_ok xs rs \<and>
     last rs \<le> length xs \<and> bb_counter b = int (length xs - last rs)"

lemma make_BlockBuilder_rep: "block_rep make_BlockBuilder [] [0]"
  by (simp add: block_rep_def make_BlockBuilder_def enc_entries_def prev_key_def restarts_ok_def)

lemma boff_snoc: "i \<le> length xs \<Longrightarrow> boff (xs @ ys) i = boff xs i"
  by (simp add: boff_def)

lemma prev_key_snoc: "i \<le> length xs \<Longrightarrow> prev_key (xs @ ys) i = prev_key xs i"
  by (auto simp: prev_key_def nth_append)

lemma restarts_ok_snoc:
  assumes ok: "restarts_ok xs rs" "last rs \<le> length xs" and e: "xs = [] \<Longrightarrow> fst e = 0"
  shows "restarts_ok (xs @ [e]) rs"
proof -
  have "i < length xs \<and> fst ((xs @ [e]) ! i) = 0 \<or> i = 0 \<and> xs = []" if "i \<in> set rs" for i
    using ok(1) that by (auto simp: restarts_ok_def nth_append)
  then have "\<forall>i\<in>set rs. fst ((xs @ [e]) ! i) = 0" using e by fastforce
  then show ?thesis using ok(1) by (auto simp: restarts_ok_def)
qed

lemma restarts_ok_new:
  assumes ok: "restarts_ok xs rs" "last rs < length xs" and e: "fst e = 0"
  shows "restarts_ok (xs @ [e]) (rs @ [length xs])"
proof -
  have old: "restarts_ok (xs @ [e]) rs" by (rule restarts_ok_snoc [OF ok(1) less_imp_le [OF ok(2)] e])
  have "i < length xs" if "i \<in> set rs" for i using ok that by (auto simp: restarts_ok_def)
  then have "sorted_wrt (<) (rs @ [length xs])" using ok(1) by (auto simp: restarts_ok_def sorted_wrt_append)
  moreover have "length rs \<le> length xs"
  proof -
    have "distinct rs" using ok(1) by (simp add: restarts_ok_def strict_sorted_iff)
    moreover have "set rs \<subseteq> {..<length xs}" using \<open>\<And>i. i \<in> set rs \<Longrightarrow> i < length xs\<close> by auto
    ultimately show ?thesis by (metis card_lessThan card_mono distinct_card finite_lessThan)
  qed
  ultimately show ?thesis using old e by (auto simp: restarts_ok_def nth_append)
qed

lemma entry_ok_snoc: "i < length xs \<Longrightarrow> entry_ok (xs @ ys) i = entry_ok xs i"
  by (simp add: entry_ok_def nth_append prev_key_snoc)

lemma BlockBuilder_Add_rep:
  assumes rep: "block_rep b xs rs" and interval: "1 \<le> interval"
  shows "\<exists>sh rs'. block_rep (BlockBuilder_Add interval b k v) (xs @ [(sh, k, v)]) rs'"
proof -
  let ?last = "prev_key xs (length xs)"
  define same where "same = (bb_counter b < interval)"
  define sh where "sh = (if same then common_prefix ?last k else 0)"
  define rs' where "rs' = (if same then rs else rs @ [length xs])"
  let ?ys = "xs @ [(sh, k, v)]"
  note r = rep [unfolded block_rep_def]
  have sh: "sh \<le> length k" "sh \<le> length ?last" "take sh ?last = take sh k"
    by (simp_all add: sh_def common_prefix_le common_prefix_take)
  have "\<forall>i<length ?ys. entry_ok ?ys i"
    using r sh by (auto simp: less_Suc_eq entry_ok_snoc entry_ok_def [of _ "length xs"] prev_key_snoc)
  moreover have "restarts_ok ?ys rs'" "last rs' \<le> length ?ys"
    "map (\<lambda>i. of_nat (boff xs i) :: 32 word) rs' = map (\<lambda>i. of_nat (boff ?ys i)) rs'"
  proof -
    have new: "\<not> same \<Longrightarrow> last rs < length xs" using r interval by (auto simp: same_def)
    show ok: "restarts_ok ?ys rs'" "last rs' \<le> length ?ys"
      using r restarts_ok_snoc [of xs rs "(sh, k, v)"] restarts_ok_new [of xs rs "(sh, k, v)"] new
      by (auto simp: rs'_def sh_def prev_key_def)
    have "\<forall>i\<in>set rs. i \<le> length xs" using r by (auto simp: restarts_ok_def)
    then show "map (\<lambda>i. of_nat (boff xs i) :: 32 word) rs' = map (\<lambda>i. of_nat (boff ?ys i)) rs'"
      by (auto simp: rs'_def boff_snoc)
  qed
  moreover have "take sh ?last @ drop sh k = k" using sh(3) by simp
  moreover have "prev_key ?ys (length ?ys) = k" by (simp add: prev_key_def)
  moreover have "enc_entries ?ys = enc_entries xs @ enc_entry (sh, k, v)" by (simp add: enc_entries_def)
  ultimately have "block_rep (BlockBuilder_Add interval b k v) ?ys rs'"
    using r
    by (auto simp: block_rep_def BlockBuilder_Add_def Let_def sh_def rs'_def same_def PutVarint32_def enc_entry_def
        Suc_diff_le simp del: of_nat_diff)
  then show ?thesis by blast
qed

definition build_block :: "int \<Rightarrow> (byte list \<times> byte list) list \<Rightarrow> byte list" where
  "build_block interval kvs = fst (BlockBuilder_Finish (fold (\<lambda>(k, v) b. BlockBuilder_Add interval b k v) kvs make_BlockBuilder))"

lemma build_block_rep:
  assumes "1 \<le> interval"
  shows "\<exists>xs rs. block_rep (fold (\<lambda>(k, v) b. BlockBuilder_Add interval b k v) kvs make_BlockBuilder) xs rs \<and> map snd xs = kvs"
proof (induction kvs rule: rev_induct)
  case Nil
  then show ?case using make_BlockBuilder_rep by auto
next
  case (snoc kv kvs)
  obtain xs rs where xs: "block_rep (fold (\<lambda>(k, v) b. BlockBuilder_Add interval b k v) kvs make_BlockBuilder) xs rs"
    "map snd xs = kvs" using snoc by blast
  obtain k v where kv: "kv = (k, v)" by (cases kv)
  show ?case using BlockBuilder_Add_rep [OF xs(1) assms, of k v] xs(2) kv by fastforce
qed

lemma Finish_bytes: "block_rep b xs rs \<Longrightarrow> fst (BlockBuilder_Finish b) = block_bytes xs rs"
  by (simp add: block_rep_def BlockBuilder_Finish_def Let_def fold_PutFixed32 PutFixed32_def block_bytes_def comp_def)

text \<open>What the reader makes of it.\<close>

lemma NewIterator_new:
  assumes ok: "block_ok xs rs"
  shows "\<exists>it. Block_NewIterator (make_Block (block_bytes xs rs)) = IterOver it \<and> it_end xs rs it"
proof -
  note sizes = block_sizes [OF ok]
  let ?bytes = "block_bytes xs rs"
  let ?body = "enc_entries xs @ concat (map (\<lambda>i. EncodeFixed32 (of_nat (boff xs i))) rs)"
  have "?bytes = ?body @ EncodeFixed32 (of_nat (length rs))" by (simp add: block_bytes_def)
  moreover have "length ?bytes - 4 = length ?body" using calculation by simp
  ultimately have "drop (length ?bytes - 4) ?bytes = EncodeFixed32 (of_nat (length rs))" by simp
  then have num: "NumRestarts ?bytes (length ?bytes) = of_nat (length rs)" by (simp add: NumRestarts_def)
  have "1 + length rs < 2 ^ 32" using sizes(5,6) by linarith
  then have "unat (of_nat (1 + length rs) :: 32 word) = 1 + length rs" by (rule unat_small32)
  then have suc: "unat (1 + of_nat (length rs) :: 32 word) = 1 + length rs" by (simp only: of_nat_add of_nat_1)
  have nz: "(of_nat (length rs) :: 32 word) \<noteq> 0" using sizes(4) rs_0 [OF ok] by (metis less_numeral_extra(3) unat_0)
  have "length ?bytes - (1 + length rs) * 4 = boff xs (length xs)" using sizes(5) by simp
  then show ?thesis
    using num suc nz sizes(4,5)
    by (simp add: make_Block_def Block_NewIterator_def make_BlockIter_def it_end_def it_over_def Let_def not_less)
qed

lemma build_block_ok:
  assumes "1 \<le> interval" "length (build_block interval kvs) < 2 ^ 32"
  obtains xs rs where "build_block interval kvs = block_bytes xs rs" "block_ok xs rs" "map snd xs = kvs"
proof -
  obtain xs rs where xs: "block_rep (fold (\<lambda>(k, v) b. BlockBuilder_Add interval b k v) kvs make_BlockBuilder) xs rs"
    "map snd xs = kvs" using build_block_rep [OF assms(1)] by blast
  then have bytes: "build_block interval kvs = block_bytes xs rs" by (simp add: build_block_def Finish_bytes)
  then have "block_ok xs rs" using xs(1) assms(2) by (simp add: block_ok_def block_rep_def)
  then show ?thesis using that xs(2) bytes by blast
qed

section \<open>The block iterator as an iterator\<close>

definition on_block :: "(BlockIter \<Rightarrow> BlockIter option) \<Rightarrow> NewIterator_result \<Rightarrow> NewIterator_result option" where
  "on_block f r = (case r of IterOver it \<Rightarrow> map_option IterOver (f it) | _ \<Rightarrow> Some r)"

definition step_block :: "(BlockIter \<Rightarrow> BlockIter option) \<Rightarrow> NewIterator_result \<Rightarrow> NewIterator_result option" where
  "step_block f r = (case r of IterOver it \<Rightarrow> map_option IterOver (f it) | _ \<Rightarrow> None)"

text \<open>An empty iterator is never valid, and may not be stepped.\<close>

definition block_iterator :: "(byte list \<Rightarrow> byte list \<Rightarrow> int) \<Rightarrow> NewIterator_result Iterator" where
  "block_iterator cmp =
     \<lparr>it_Valid = (\<lambda>r. case r of IterOver it \<Rightarrow> BlockIter_Valid it | _ \<Rightarrow> False),
      it_key = (\<lambda>r. case r of IterOver it \<Rightarrow> BlockIter_key it | _ \<Rightarrow> []),
      it_value = (\<lambda>r. case r of IterOver it \<Rightarrow> BlockIter_value it | _ \<Rightarrow> []),
      it_status = (\<lambda>r. case r of IterOver it \<Rightarrow> bi_status it | ErrorIterator st \<Rightarrow> st | EmptyIterator \<Rightarrow> Status_OK),
      it_SeekToFirst = on_block BlockIter_SeekToFirst, it_SeekToLast = on_block BlockIter_SeekToLast,
      it_Next = step_block BlockIter_Next, it_Prev = step_block BlockIter_Prev,
      it_Seek = (\<lambda>target. on_block (\<lambda>it. BlockIter_Seek cmp it target))\<rparr>"

definition block_at :: "NewIterator_result \<Rightarrow> entry_kv list \<Rightarrow> nat \<Rightarrow> bool" where
  "block_at r xs i \<longleftrightarrow> (\<exists>es rs it. r = IterOver it \<and> block_ok es rs \<and> map snd es = xs \<and>
     (if i = length xs then it_end es rs it else it_at es rs it i))"

lemma block_atE:
  assumes "block_at r xs i"
  obtains es rs it where "r = IterOver it" "block_ok es rs" "map snd es = xs" "length xs = length es" "it_over es rs it"
    "if i = length es then it_end es rs it else it_at es rs it i"
  using assms by (auto simp: block_at_def it_end_def it_at_def split: if_splits)

lemma block_atI:
  "block_ok es rs \<Longrightarrow> map snd es = xs \<Longrightarrow> (if i = length es then it_end es rs it else it_at es rs it i) \<Longrightarrow> block_at (IterOver it) xs i"
  unfolding block_at_def by (intro exI [of _ es] exI [of _ rs] exI [of _ it]) auto

interpretation block: iterator "block_iterator cmp" block_at "\<lambda>k t. cmp k t < 0" proper for cmp proper
proof (unfold_locales, goal_cases)
  case (1 r xs i)
  then show ?case by (elim block_atE) (auto simp: it_at_def split: if_splits)
next
  case (2 r xs i)
  then obtain es rs it where e: "r = IterOver it" "block_ok es rs" "length xs = length es"
    "if i = length es then it_end es rs it else it_at es rs it i" by (elim block_atE)
  then show ?case using at_before(3) [OF e(2)]
    by (cases "i = length es") (auto simp: block_iterator_def it_end_def BlockIter_Valid_def it_at_def)
next
  case (3 r xs i)
  then show ?case by (elim block_atE) (auto simp: block_iterator_def BlockIter_key_def it_at_def)
next
  case (4 r xs i)
  then obtain es rs it where e: "r = IterOver it" "block_ok es rs" "map snd es = xs" "length xs = length es"
    "it_at es rs it i" by (elim block_atE) simp
  then show ?case using at_before(4) [OF e(2)] 4(2) by (auto simp: block_iterator_def)
next
  case (5 r xs i)
  then show ?case by (rule block_atE) (simp add: block_iterator_def it_over_def)
next
  case (6 r xs i)
  then obtain es rs it where e: "r = IterOver it" "block_ok es rs" "map snd es = xs" "length xs = length es"
    "it_over es rs it" by (elim block_atE)
  obtain it' where it': "BlockIter_SeekToFirst it = Some it'" "if es = [] then it_end es rs it' else it_at es rs it' 0"
    using SeekToFirst_result [OF e(2,5)] by blast
  then show ?case using block_atI [OF e(2,3), of 0 it'] e(1) by (auto simp: block_iterator_def on_block_def split: if_splits)
next
  case (7 r xs i)
  then obtain es rs it where e: "r = IterOver it" "block_ok es rs" "map snd es = xs" "length xs = length es"
    "it_over es rs it" by (elim block_atE)
  obtain it' where it': "BlockIter_SeekToLast it = Some it'"
    "if es = [] then it_end es rs it' else it_at es rs it' (length es - 1)"
    using SeekToLast_result [OF e(2,5)] by blast
  then show ?case using block_atI [OF e(2,3), of "length xs - 1" it'] e(1,4)
    by (cases es) (auto simp: block_iterator_def on_block_def)
next
  case (8 r xs i)
  then obtain es rs it where e: "r = IterOver it" "block_ok es rs" "map snd es = xs" "length xs = length es"
    "it_at es rs it i" by (elim block_atE) simp
  obtain it' where "BlockIter_Next it = Some it'" "if Suc i = length es then it_end es rs it' else it_at es rs it' (Suc i)"
    using Next_result [OF e(2,5)] by blast
  then show ?case using block_atI [OF e(2,3), of "Suc i" it'] e(1) by (auto simp: block_iterator_def step_block_def)
next
  case (9 r xs i)
  then obtain es rs it where e: "r = IterOver it" "block_ok es rs" "map snd es = xs" "length xs = length es"
    "it_at es rs it i" by (elim block_atE) simp
  obtain it' where it': "BlockIter_Prev it = Some it'" "if i = 0 then it_end es rs it' else it_at es rs it' (i - 1)"
    using Prev_result [OF e(2,5)] by blast
  have "block_at (IterOver it') xs (if i = 0 then length xs else i - 1)"
    by (rule block_atI [OF e(2,3)]) (use it'(2) e(4) 9(2) in auto)
  then show ?case using it'(1) e(1) by (simp add: block_iterator_def step_block_def)
next
  case (10 r xs i t)
  then obtain es rs it where e: "r = IterOver it" "block_ok es rs" "map snd es = xs" "length xs = length es"
    "it_over es rs it" by (elim block_atE)
  let ?s = "seek_pos (\<lambda>k t. cmp k t < 0) t xs"
  have "cmp (entry_key es i) t < 0 \<longleftrightarrow> i < ?s" if "i < length es" for i
    using downward_less_seek_pos [OF 10(3), of i] that e(3) by (auto simp: entry_key_def)
  moreover have "?s \<le> length es" using seek_pos_le [of _ t xs] e(4) by simp
  ultimately obtain it' where "BlockIter_Seek cmp it t = Some it'" "if ?s = length es then it_end es rs it' else it_at es rs it' ?s"
    using Seek_result [OF e(2,5), of ?s cmp t] by blast
  then show ?case using block_atI [OF e(2,3), of ?s it'] e(1) by (auto simp: block_iterator_def on_block_def)
qed

text \<open>A new iterator is behind the last entry.\<close>

lemma block_at_new:
  "block_ok es rs \<Longrightarrow> block_at (Block_NewIterator (make_Block (block_bytes es rs))) (map snd es) (length es)"
  using NewIterator_new [of es rs] by (auto intro!: block_atI)

section \<open>A block read back\<close>

lemma build_block_at:
  assumes "1 \<le> interval" "length (build_block interval kvs) < 2 ^ 32"
  shows "block_at (Block_NewIterator (make_Block (build_block interval kvs))) kvs (length kvs)"
proof -
  obtain es rs where "build_block interval kvs = block_bytes es rs" "block_ok es rs" "map snd es = kvs"
    by (rule build_block_ok [OF assms])
  then show ?thesis using block_at_new [of es rs] by (metis length_map)
qed

text \<open>
  C6: a block read back: whatever entries are added to a block builder, in any order and with any
  restart interval, the iterator over the finished block visits exactly these entries, forwards from
  \<^verbatim>\<open>SeekToFirst\<close> and backwards from \<^verbatim>\<open>SeekToLast\<close>, and ends there without an error; every call
  returns and reads inside the block. A block stays under 4 GB.
\<close>
theorem block_roundtrip:
  fixes cmp
  defines "ops \<equiv> block_iterator cmp"
  assumes "1 \<le> interval" "length (build_block interval kvs) < 2 ^ 32"
  shows "\<exists>first last. it_SeekToFirst ops (Block_NewIterator (make_Block (build_block interval kvs))) = Some first \<and>
    walk ops (it_Next ops) first = Some (kvs, Status_OK) \<and>
    it_SeekToLast ops (Block_NewIterator (make_Block (build_block interval kvs))) = Some last \<and>
    walk ops (it_Prev ops) last = Some (rev kvs, Status_OK)"
  using build_block_at [OF assms(2,3)] block.walk_from_first block.walk_from_last unfolding ops_def by blast

text \<open>A small block, for the examples.\<close>

lemma sample_block:
  "build_block 2 [([1, 2], [7]), ([1, 3], []), ([1, 3, 4], [8])] =
    [0, 2, 1, 1, 2, 7, 1, 1, 0, 3, 0, 3, 1, 1, 3, 4, 8, 0, 0, 0, 0, 10, 0, 0, 0, 2, 0, 0, 0]"
  by (simp add: build_block_def make_BlockBuilder_def BlockBuilder_Add_def BlockBuilder_Finish_def Let_def
      PutVarint32_def EncodeVarint32_def PutFixed32_def EncodeFixed32_def kLittleEndian_def
      bytes_of_word_def upt_rec)

theorem block_roundtrip_witness:
  fixes kvs :: "entry_kv list"
  defines "kvs \<equiv> [([1, 2], [7]), ([1, 3], []), ([1, 3, 4], [8])]"
  shows "\<exists>first last. it_SeekToFirst (block_iterator Bytewise_Compare) (Block_NewIterator (make_Block (build_block 2 kvs))) = Some first \<and>
    walk (block_iterator Bytewise_Compare) (it_Next (block_iterator Bytewise_Compare)) first = Some (kvs, Status_OK) \<and>
    it_SeekToLast (block_iterator Bytewise_Compare) (Block_NewIterator (make_Block (build_block 2 kvs))) = Some last \<and>
    walk (block_iterator Bytewise_Compare) (it_Prev (block_iterator Bytewise_Compare)) last =
      Some ([([1, 3, 4], [8]), ([1, 3], []), ([1, 2], [7])], Status_OK)"
proof -
  have "length (build_block 2 kvs) < 2 ^ 32" unfolding kvs_def sample_block by simp
  from block_roundtrip [OF _ this, of Bytewise_Compare] show ?thesis by (simp add: kvs_def)
qed

text \<open>Keys in order make every target split the entries.\<close>

context key_order begin

lemma sorted_downward:
  assumes "\<forall>k\<in>fst ` set kvs. valid (key_of k)" "valid (key_of target)"
    and "sorted_wrt (\<lambda>a b. cmp (key_of a) (key_of b) < 0) (map fst kvs)"
  shows "downward (\<lambda>k t. cmp (key_of k) (key_of t) < 0) target kvs"
  using assms
proof (induction kvs)
  case (Cons x xs)
  have "cmp (key_of (fst x)) (key_of target) < 0" if "y \<in> set xs" "cmp (key_of (fst y)) (key_of target) < 0" for y
    using cmp_less_trans [of "key_of (fst x)" "key_of (fst y)" "key_of target"] Cons.prems that by auto
  then show ?case using Cons by (simp add: downward_def)
qed (simp add: downward_def)

end

text \<open>
  C15: seeking in a block of keys in byte order lands at the first key that is not below the target,
  so that reading on yields exactly the entries from there; the binary search over the restart points
  and the linear search behind it always return.
\<close>
theorem block_seek:
  assumes "1 \<le> interval" "length (build_block interval kvs) < 2 ^ 32" "sorted_wrt (<) (map fst kvs)"
  shows "\<exists>it. it_Seek (block_iterator Bytewise_Compare) target (Block_NewIterator (make_Block (build_block interval kvs))) = Some it \<and>
    walk (block_iterator Bytewise_Compare) (it_Next (block_iterator Bytewise_Compare)) it =
      Some (dropWhile (\<lambda>(k, v). k < target) kvs, Status_OK)"
proof -
  have less: "(\<lambda>a b. Bytewise_Compare a b < 0) = (<)" by (intro ext) (simp add: Bytewise_Compare_def slice_compare_less)
  have "downward (\<lambda>k t. Bytewise_Compare k t < 0) target kvs"
    using bytewise.sorted_downward [of kvs "\<lambda>k. k" target] assms(3) by (simp add: less)
  then show ?thesis
    using block.walk_from_target [OF build_block_at [OF assms(1,2)], where proper = "\<lambda>_. True" and cmp = Bytewise_Compare and t = target]
    by (auto simp: Bytewise_Compare_def slice_compare_less case_prod_beta')
qed

theorem block_seek_witness:
  fixes kvs :: "entry_kv list"
  defines "kvs \<equiv> [([1, 2], [7]), ([1, 3], []), ([1, 3, 4], [8])]"
  shows "\<exists>it. it_Seek (block_iterator Bytewise_Compare) [1, 2, 9] (Block_NewIterator (make_Block (build_block 2 kvs))) = Some it \<and>
    walk (block_iterator Bytewise_Compare) (it_Next (block_iterator Bytewise_Compare)) it =
      Some ([([1, 3], []), ([1, 3, 4], [8])], Status_OK)"
proof -
  have "length (build_block 2 kvs) < 2 ^ 32" unfolding kvs_def sample_block by simp
  from block_seek [OF _ this, of "[1, 2, 9]"] show ?thesis by (simp add: kvs_def)
qed

section \<open>A corrupted entry\<close>

text \<open>
  The two lengths of an entry are added as 32-bit numbers before they are compared with the bytes
  left: an entry that claims a key of \<open>2 ^ 32 - 1\<close> bytes and a value of one byte is accepted, and
  the key is then copied from outside the block.
\<close>

lemma overflowing_entry_accepted:
  "DecodeEntry [0, 255, 255, 255, 255, 15, 1] = Some (0, - 1, 1, [])"
proof -
  have "EncodeVarint32 (- 1) = [255, 255, 255, 255, 15]" by (simp add: EncodeVarint32_def) code_simp
  then have "GetVarint32Ptr (255 # 255 # 255 # 255 # 15 # rest) = Some (- 1, rest)" for rest
    using GetVarint32Ptr_Encode [of "- 1" rest] by simp
  then show ?thesis by (simp add: DecodeEntry_slow GetVarint32Ptr_def)
qed

lemma overflowing_entry_read_outside:
  "ParseNextKey (SeekToRestartPoint
     (make_BlockIter [0, 255, 255, 255, 255, 15, 1, 0, 0, 0, 0, 1, 0, 0, 0] 7 1) 0) = None"
proof -
  have "GetRestartPoint (make_BlockIter [0, 255, 255, 255, 255, 15, 1, 0, 0, 0, 0, 1, 0, 0, 0] 7 1) 0 = 0"
    by (simp add: GetRestartPoint_def make_BlockIter_def DecodeFixed32_def kLittleEndian_def)
  moreover have "unat (- 1 :: 32 word) = 4294967295" by (simp add: unsigned_minus_1_eq_mask mask_eq_exp_minus_1)
  ultimately show ?thesis
    by (simp add: ParseNextKey_def SeekToRestartPoint_def NextEntryOffset_def make_BlockIter_def Let_def
        overflowing_entry_accepted)
qed

end
