(* ===== verification/Ldb_Logging.thy ===== *)
theory Ldb_Logging
  imports Ldb_Status
begin

text \<open>
  Printing and parsing of \<^verbatim>\<open>util/logging.cc\<close>: decimal numbers and escaped strings. Text is a list of
  bytes, and a \<^verbatim>\<open>char\<close> is signed.
\<close>

section \<open>Printing\<close>

definition AppendNumberTo :: "byte list \<Rightarrow> 64 word \<Rightarrow> byte list" where
  "AppendNumberTo str num = str @ take 29 (decimal (unat num))"

definition hex_digit :: "nat \<Rightarrow> byte" where
  "hex_digit n = (if n < 10 then of_nat (48 + n) else of_nat (87 + n))"

text \<open>\<^verbatim>\<open>\x%02x\<close>\<close>

definition hex_escape :: "byte \<Rightarrow> byte list" where
  "hex_escape c = [92, 120, hex_digit (unat c div 16), hex_digit (unat c mod 16)]"

definition AppendEscapedStringTo :: "byte list \<Rightarrow> byte list \<Rightarrow> byte list" where
  "AppendEscapedStringTo str v =
     fold (\<lambda>c str. if 32 \<le> sint c \<and> sint c \<le> 126 then str @ [c] else str @ hex_escape c) v str"

definition NumberToString :: "64 word \<Rightarrow> byte list" where "NumberToString num = AppendNumberTo [] num"

definition EscapeString :: "byte list \<Rightarrow> byte list" where "EscapeString v = AppendEscapedStringTo [] v"

section \<open>Parsing\<close>

text \<open>
  The loop over the digits: after an overflow the input that is left, else the value, the number of
  digits and the rest.
\<close>

fun consume_digits :: "byte list \<Rightarrow> 64 word \<Rightarrow> nat \<Rightarrow> byte list + 64 word \<times> nat \<times> byte list" where
  "consume_digits [] v digits = Inr (v, digits, [])"
| "consume_digits (c # rest) v digits =
     (if 48 \<le> sint c \<and> sint c \<le> 57
      then let delta = sint c - 48; kMaxUint64 = - 1 :: 64 word in
           if kMaxUint64 div 10 < v \<or> v = kMaxUint64 div 10 \<and> kMaxUint64 mod 10 < of_int delta
           then Inl (c # rest)
           else consume_digits rest (v * 10 + of_int delta) (digits + 1)
      else Inr (v, digits, c # rest))"

text \<open>The result is the truth value, the number (unchanged after an overflow) and the input behind it.\<close>

definition ConsumeDecimalNumber :: "byte list \<Rightarrow> 64 word \<Rightarrow> bool \<times> 64 word \<times> byte list" where
  "ConsumeDecimalNumber inp val =
     (case consume_digits inp 0 0 of
        Inl rest \<Rightarrow> (False, val, rest)
      | Inr (v, digits, rest) \<Rightarrow> (0 < digits, v, rest))"

section \<open>What a decimal number is\<close>

definition digit :: "byte \<Rightarrow> bool" where "digit c \<longleftrightarrow> 48 \<le> sint c \<and> sint c \<le> 57"

definition decimal_value :: "byte list \<Rightarrow> nat" where
  "decimal_value ds = fold (\<lambda>c n. 10 * n + nat (sint c - 48)) ds 0"

lemma decimal_value_simps [simp]:
  "decimal_value [] = 0"
  "decimal_value (ds @ [d]) = 10 * decimal_value ds + nat (sint d - 48)"
  by (simp_all add: decimal_value_def)

lemma digit_of_nat:
  assumes "n < 10"
  shows "sint (of_nat (48 + n) :: byte) = int (48 + n)"
proof -
  have "n = 0 \<or> n = 1 \<or> n = 2 \<or> n = 3 \<or> n = 4 \<or> n = 5 \<or> n = 6 \<or> n = 7 \<or> n = 8 \<or> n = 9"
    using assms by presburger
  then show ?thesis by (elim disjE) simp_all
qed

lemma decimal_digits: "list_all digit (decimal n) \<and> decimal n \<noteq> [] \<and> decimal_value (decimal n) = n"
proof (induction n rule: decimal.induct)
  case (1 n)
  show ?case
  proof (cases "n < 10")
    case True
    then show ?thesis
      using digit_of_nat [of n] by (simp add: decimal.simps [of n] digit_def decimal_value_def)
  next
    case False
    have d: "n mod 10 < 10" by simp
    have "decimal n = decimal (n div 10) @ [of_nat (48 + n mod 10)]" using False by (subst decimal.simps) simp
    moreover have "10 * (n div 10) + n mod 10 = n" by simp
    ultimately show ?thesis using digit_of_nat [OF d] 1 [OF False] d by (simp add: digit_def)
  qed
qed

text \<open>The loop computes the value, and refuses exactly the numbers that do not fit.\<close>

lemma consume_digits_value:
  "list_all digit ds \<Longrightarrow> unat v = n \<Longrightarrow> (case rest of [] \<Rightarrow> True | c # _ \<Rightarrow> \<not> digit c) \<Longrightarrow>
    (if fold (\<lambda>c n. 10 * n + nat (sint c - 48)) ds n < 2 ^ 64
     then consume_digits (ds @ rest) v k =
       Inr (of_nat (fold (\<lambda>c n. 10 * n + nat (sint c - 48)) ds n), k + length ds, rest)
     else \<exists>left. consume_digits (ds @ rest) v k = Inl left)"
proof (induction ds arbitrary: v n k)
  case Nil
  then show ?case using unsigned_less [of v] by (cases rest) (auto simp: digit_def)
next
  case (Cons c ds)
  let ?f = "\<lambda>c n. 10 * n + nat (sint c - 48)"
  define d where "d = nat (sint c - 48)"
  have d: "sint c - 48 = int d" "d \<le> 9" "48 \<le> sint c" "sint c \<le> 57" using Cons.prems(1) by (auto simp: d_def digit_def)
  have grow: "m \<le> fold ?f ds m" for m
  proof (induction ds arbitrary: m)
    case (Cons c ds)
    have "m \<le> ?f c m" by simp
    also have "\<dots> \<le> fold ?f ds (?f c m)" by (rule Cons.IH)
    finally show ?case by simp
  qed simp
  have max: "unat ((- 1 :: 64 word) div 10) = 1844674407370955161" "unat ((- 1 :: 64 word) mod 10) = 5"
    by (simp_all add: unat_div unat_mod_distrib unsigned_minus_1_eq_mask mask_eq_exp_minus_1)
  have small64: "m < 2 ^ 64 \<Longrightarrow> unat (of_nat m :: 64 word) = m" for m
    by (simp add: unat_of_nat take_bit_nat_eq_self)
  have du: "unat (of_int (int d) :: 64 word) = d" using d(2) by (simp add: unat_of_nat take_bit_nat_eq_self)
  have over: "((- 1 :: 64 word) div 10 < v \<or> v = (- 1) div 10 \<and> (- 1) mod 10 < (of_int (int d) :: 64 word))
      \<longleftrightarrow> \<not> 10 * n + d < 2 ^ 64"
    using d(2) max du Cons.prems(2) by (auto simp: word_less_nat_alt word_unat_eq_iff)
  have nxt: "v * 10 + of_int (int d) = of_nat (10 * n + d)" using Cons.prems(2) by (auto simp: mult.commute)
  have step: "consume_digits (c # ds @ rest) v k =
      (if 10 * n + d < 2 ^ 64 then consume_digits (ds @ rest) (of_nat (10 * n + d)) (Suc k) else Inl (c # ds @ rest))"
    unfolding consume_digits.simps d(1) Let_def over nxt Suc_eq_plus1 using d(3,4) by auto
  have value_step: "fold ?f (c # ds) n = fold ?f ds (10 * n + d)" by (simp add: d_def)
  show ?case
  proof (cases "10 * n + d < 2 ^ 64")
    case True
    have "list_all digit ds" using Cons.prems(1) by simp
    from Cons.IH [OF this small64 [OF True] Cons.prems(3), of "Suc k"] True show ?thesis
      unfolding append_Cons step value_step by (simp split: if_splits del: of_nat_add of_nat_mult)
  next
    case False
    then have "\<not> fold ?f ds (10 * n + d) < 2 ^ 64" using grow [of "10 * n + d"] by linarith
    then show ?thesis using False unfolding append_Cons step value_step by simp
  qed
qed

lemma consume_decimal:
  assumes "list_all digit ds" "ds \<noteq> []" "case rest of [] \<Rightarrow> True | c # _ \<Rightarrow> \<not> digit c"
  shows "decimal_value ds < 2 ^ 64 \<Longrightarrow>
      ConsumeDecimalNumber (ds @ rest) val = (True, of_nat (decimal_value ds), rest)"
    "\<not> decimal_value ds < 2 ^ 64 \<Longrightarrow>
      \<exists>left. ConsumeDecimalNumber (ds @ rest) val = (False, val, left)"
  using consume_digits_value [OF assms(1) _ assms(3), of 0 0 0] assms(2)
  by (auto simp: ConsumeDecimalNumber_def decimal_value_def)

lemma consume_no_digit:
  "(case inp of [] \<Rightarrow> True | c # _ \<Rightarrow> \<not> digit c) \<Longrightarrow> ConsumeDecimalNumber inp val = (False, 0, inp)"
  by (cases inp) (auto simp: ConsumeDecimalNumber_def digit_def)

lemma length_decimal: "n < 10 ^ k \<Longrightarrow> 0 < k \<Longrightarrow> length (decimal n) \<le> k"
proof (induction k arbitrary: n)
  case (Suc k)
  show ?case
  proof (cases "n < 10")
    case False
    then have "0 < k" using Suc.prems(1) by (cases k) auto
    moreover have "n div 10 < 10 ^ k" using Suc.prems(1) by (simp add: less_mult_imp_div_less mult.commute)
    ultimately show ?thesis using Suc.IH [of "n div 10"] False by (subst decimal.simps) simp
  qed (simp add: decimal.simps)
qed simp

lemma NumberToString_decimal: "NumberToString num = decimal (unat num)"
proof -
  have "unat num < 2 ^ 64" using unsigned_less [of num] by simp
  also have "(2 :: nat) ^ 64 < 10 ^ 29" by simp
  finally have "length (decimal (unat num)) \<le> 29" by (intro length_decimal) simp_all
  then show ?thesis by (simp add: NumberToString_def AppendNumberTo_def)
qed

end
