(* ===== verification/Ldb_Filename.thy ===== *)
theory Ldb_Filename
  imports Ldb_Logging Ldb_Comparator
begin

text \<open>
  The names of a database's files, made and parsed as in \<^verbatim>\<open>db/filename.cc\<close>.
\<close>

section \<open>File names\<close>

datatype FileType = kLogFile | kDBLockFile | kTableFile | kDescriptorFile | kCurrentFile | kTempFile | kInfoLogFile

text \<open>\<^verbatim>\<open>%06llu\<close>\<close>

definition decimal_06 :: "64 word \<Rightarrow> byte list" where
  "decimal_06 number = (let ds = decimal (unat number) in replicate (6 - length ds) 48 @ ds)"

definition MakeFileName :: "byte list \<Rightarrow> 64 word \<Rightarrow> byte list \<Rightarrow> byte list" where
  "MakeFileName name number suffix = name @ take 99 (ascii ''/'' @ decimal_06 number @ ascii ''.'' @ suffix)"

definition LogFileName :: "byte list \<Rightarrow> 64 word \<Rightarrow> byte list" where
  "LogFileName name number = MakeFileName name number (ascii ''log'')"

definition TableFileName :: "byte list \<Rightarrow> 64 word \<Rightarrow> byte list" where
  "TableFileName name number = MakeFileName name number (ascii ''ldb'')"

definition SSTTableFileName :: "byte list \<Rightarrow> 64 word \<Rightarrow> byte list" where
  "SSTTableFileName name number = MakeFileName name number (ascii ''sst'')"

definition DescriptorFileName :: "byte list \<Rightarrow> 64 word \<Rightarrow> byte list" where
  "DescriptorFileName dbname number = dbname @ take 99 (ascii ''/MANIFEST-'' @ decimal_06 number)"

definition CurrentFileName :: "byte list \<Rightarrow> byte list" where
  "CurrentFileName dbname = dbname @ ascii ''/CURRENT''"

definition LockFileName :: "byte list \<Rightarrow> byte list" where
  "LockFileName dbname = dbname @ ascii ''/LOCK''"

definition TempFileName :: "byte list \<Rightarrow> 64 word \<Rightarrow> byte list" where
  "TempFileName dbname number = MakeFileName dbname number (ascii ''dbtmp'')"

definition InfoLogFileName :: "byte list \<Rightarrow> byte list" where
  "InfoLogFileName dbname = dbname @ ascii ''/LOG''"

definition OldInfoLogFileName :: "byte list \<Rightarrow> byte list" where
  "OldInfoLogFileName dbname = dbname @ ascii ''/LOG.old''"

text \<open>No result stands for \<^verbatim>\<open>false\<close>.\<close>

definition ParseFileName :: "byte list \<Rightarrow> (64 word \<times> FileType) option" where
  "ParseFileName rest =
     (if slice_equal rest (ascii ''CURRENT'') then Some (0, kCurrentFile)
      else if slice_equal rest (ascii ''LOCK'') then Some (0, kDBLockFile)
      else if slice_equal rest (ascii ''LOG'') \<or> slice_equal rest (ascii ''LOG.old'') then Some (0, kInfoLogFile)
      else if starts_with rest (ascii ''MANIFEST-'')
      then let (ok, num, rest) = ConsumeDecimalNumber (drop (length (ascii ''MANIFEST-'')) rest) 0 in
           if \<not> ok then None else if rest \<noteq> [] then None else Some (num, kDescriptorFile)
      else let (ok, num, suffix) = ConsumeDecimalNumber rest 0 in
           if \<not> ok then None
           else if slice_equal suffix (ascii ''.log'') then Some (num, kLogFile)
           else if slice_equal suffix (ascii ''.sst'') \<or> slice_equal suffix (ascii ''.ldb'') then Some (num, kTableFile)
           else if slice_equal suffix (ascii ''.dbtmp'') then Some (num, kTempFile)
           else None)"

lemma slice_equal_iff [simp]: "slice_equal x y \<longleftrightarrow> x = y"
proof -
  have "length x = length y \<Longrightarrow> memcmp x y = 0 \<longleftrightarrow> x = y"
    by (induction x y rule: memcmp.induct) (auto simp: word_uint_eq_iff)
  then show ?thesis by (auto simp: slice_equal_def)
qed

lemma starts_with_iff [simp]: "starts_with a x \<longleftrightarrow> (\<exists>b. a = x @ b)"
proof
  assume "starts_with a x"
  then have "slice_equal (take (length x) a) x" by (simp add: starts_with_def slice_equal_def del: slice_equal_iff)
  then show "\<exists>b. a = x @ b" by (metis append_take_drop_id slice_equal_iff)
next
  have "memcmp x x = 0" by (induction x) simp_all
  then show "\<exists>b. a = x @ b \<Longrightarrow> starts_with a x" by (auto simp: starts_with_def)
qed

lemma decimal_06_digits:
  "list_all digit (decimal_06 n)" "decimal_06 n \<noteq> []" "decimal_value (decimal_06 n) = unat n" "length (decimal_06 n) \<le> 20"
proof -
  have zeros: "fold (\<lambda>c n. 10 * n + nat (sint c - 48)) (replicate k (48 :: byte)) 0 = 0" for k by (induction k) simp_all
  note d = decimal_digits [of "unat n"]
  show "list_all digit (decimal_06 n)" using d by (auto simp: decimal_06_def Let_def list_all_iff digit_def)
  show "decimal_06 n \<noteq> []" using d by (simp add: decimal_06_def Let_def)
  show "decimal_value (decimal_06 n) = unat n"
    using d zeros by (simp add: decimal_06_def Let_def decimal_value_def)
  have "unat n < 2 ^ 64" using unsigned_less [of n] by simp
  also have "(2 :: nat) ^ 64 < 10 ^ 20" by simp
  finally have "unat n < 10 ^ 20" .
  then have "length (decimal (unat n)) \<le> 20" by (intro length_decimal) simp_all
  then show "length (decimal_06 n) \<le> 20" by (simp add: decimal_06_def Let_def)
qed

lemma consume_06:
  assumes "case rest of [] \<Rightarrow> True | c # _ \<Rightarrow> \<not> digit c"
  shows "ConsumeDecimalNumber (decimal_06 n @ rest) val = (True, n, rest)"
proof -
  have "unat n < 2 ^ 64" using unsigned_less [of n] by simp
  then show ?thesis using consume_decimal(1) [OF decimal_06_digits(1,2) assms, of n val] decimal_06_digits(3) by simp
qed

text \<open>A name that starts with a digit is none of the fixed ones.\<close>

lemma ParseFileName_number:
  assumes "ds \<noteq> []" "list_all digit ds"
  shows "ParseFileName (ds @ suffix) =
    (let (ok, num, suffix) = ConsumeDecimalNumber (ds @ suffix) 0 in
           if \<not> ok then None
           else if suffix = ascii ''.log'' then Some (num, kLogFile)
           else if suffix = ascii ''.sst'' \<or> suffix = ascii ''.ldb'' then Some (num, kTableFile)
           else if suffix = ascii ''.dbtmp'' then Some (num, kTempFile)
           else None)"
proof -
  obtain d rest where ds: "ds = d # rest" "digit d" using assms by (cases ds) auto
  have "\<not> digit 67" "\<not> digit 76" "\<not> digit 77" by (simp_all add: digit_def)
  then have "d \<noteq> 67" "d \<noteq> 76" "d \<noteq> 77" using ds(2) by auto
  then show ?thesis by (simp add: ParseFileName_def ds(1) ascii_def of_char_def split: prod.splits)
qed

lemma MakeFileName_parts:
  "length suffix \<le> 5 \<Longrightarrow> MakeFileName name number suffix = name @ ascii ''/'' @ decimal_06 number @ ascii ''.'' @ suffix"
  using decimal_06_digits(4) [of number] by (simp add: MakeFileName_def)

definition base_name :: "byte list \<Rightarrow> byte list \<Rightarrow> byte list" where
  "base_name dbname fname = drop (length dbname + 1) fname"

text \<open>
  C35: every file name the database makes is parsed back, relative to the directory of the database, to
  its number and type, for every 64-bit number; the fixed names have number 0.
\<close>
theorem filename_roundtrip:
  "ParseFileName (base_name db (LogFileName db n)) = Some (n, kLogFile) \<and>
   ParseFileName (base_name db (TableFileName db n)) = Some (n, kTableFile) \<and>
   ParseFileName (base_name db (SSTTableFileName db n)) = Some (n, kTableFile) \<and>
   ParseFileName (base_name db (TempFileName db n)) = Some (n, kTempFile) \<and>
   ParseFileName (base_name db (DescriptorFileName db n)) = Some (n, kDescriptorFile) \<and>
   ParseFileName (base_name db (CurrentFileName db)) = Some (0, kCurrentFile) \<and>
   ParseFileName (base_name db (LockFileName db)) = Some (0, kDBLockFile) \<and>
   ParseFileName (base_name db (InfoLogFileName db)) = Some (0, kInfoLogFile) \<and>
   ParseFileName (base_name db (OldInfoLogFileName db)) = Some (0, kInfoLogFile)"
proof -
  have number: "ParseFileName (base_name db (MakeFileName db n suffix)) =
      (if suffix = ascii ''log'' then Some (n, kLogFile)
       else if suffix = ascii ''sst'' \<or> suffix = ascii ''ldb'' then Some (n, kTableFile)
       else if suffix = ascii ''dbtmp'' then Some (n, kTempFile) else None)" if "length suffix \<le> 5" for suffix
  proof -
    have "\<not> digit 46" by (simp add: digit_def)
    then show ?thesis
      using ParseFileName_number [OF decimal_06_digits(2,1), of n "ascii ''.'' @ suffix"]
        consume_06 [of "ascii ''.'' @ suffix" n 0] MakeFileName_parts [OF that]
      by (simp add: base_name_def ascii_def)
  qed
  have "ParseFileName (ascii ''MANIFEST-'' @ decimal_06 n) = Some (n, kDescriptorFile)"
    using consume_06 [of "[]" n 0] by (simp add: ParseFileName_def ascii_def)
  moreover have "base_name db (DescriptorFileName db n) = ascii ''MANIFEST-'' @ decimal_06 n"
    using decimal_06_digits(4) [of n] by (simp add: base_name_def DescriptorFileName_def ascii_def)
  ultimately show ?thesis
    by (simp add: number LogFileName_def TableFileName_def SSTTableFileName_def TempFileName_def)
      (simp add: base_name_def ParseFileName_def ascii_def CurrentFileName_def LockFileName_def InfoLogFileName_def
        OldInfoLogFileName_def)
qed

end
