(* ===== verification/Ldb_Merger.thy ===== *)
theory Ldb_Merger
  imports Ldb_Iterator Ldb_Comparator "HOL-Library.Multiset"
begin

text \<open>
  The merging iterator (\<^verbatim>\<open>table/merger.cc\<close>): one iterator over the union of the entries of several
  children in the order of their keys. Its correctness is again the contract \<open>iterator\<close>.
\<close>

section \<open>The iterator\<close>

datatype Direction = kForward | kReverse

text \<open>\<^verbatim>\<open>current_\<close> is the index of a child, or none for a null pointer.\<close>

record 'i MergingIterator =
  mi_children :: "'i IteratorWrapper list"
  mi_current :: "nat option"
  mi_direction :: Direction

definition make_MergingIterator :: "'i Iterator \<Rightarrow> 'i list \<Rightarrow> 'i MergingIterator" where
  "make_MergingIterator I children =
     \<lparr>mi_children = map (\<lambda>c. iw_Set I (Some c) iw_null) children, mi_current = None, mi_direction = kForward\<rparr>"

definition mi_Valid :: "'i MergingIterator \<Rightarrow> bool" where
  "mi_Valid m \<longleftrightarrow> mi_current m \<noteq> None"

definition mi_key :: "'i MergingIterator \<Rightarrow> byte list" where
  "mi_key m = iw_key (mi_children m ! the (mi_current m))"

definition mi_value :: "'i Iterator \<Rightarrow> 'i MergingIterator \<Rightarrow> byte list" where
  "mi_value I m = iw_value I (mi_children m ! the (mi_current m))"

fun children_status :: "'i Iterator \<Rightarrow> Status \<Rightarrow> 'i IteratorWrapper list \<Rightarrow> Status" where
  "children_status I st [] = st"
| "children_status I st (w # ws) =
     (let st = iw_status I w in if \<not> Status_ok st then st else children_status I st ws)"

definition mi_status :: "'i Iterator \<Rightarrow> 'i MergingIterator \<Rightarrow> Status" where
  "mi_status I m = children_status I Status_OK (mi_children m)"

text \<open>The loops over the children, from the first and from the last one.\<close>

fun find_smallest ::
  "(byte list \<Rightarrow> byte list \<Rightarrow> int) \<Rightarrow> 'i IteratorWrapper list \<Rightarrow> nat list \<Rightarrow> nat option \<Rightarrow> nat option" where
  "find_smallest cmp ws [] smallest = smallest"
| "find_smallest cmp ws (i # is) smallest =
     find_smallest cmp ws is
       (if iw_valid (ws ! i)
        then (case smallest of None \<Rightarrow> Some i
              | Some s \<Rightarrow> if cmp (iw_key (ws ! i)) (iw_key (ws ! s)) < 0 then Some i else smallest)
        else smallest)"

definition FindSmallest :: "(byte list \<Rightarrow> byte list \<Rightarrow> int) \<Rightarrow> 'i MergingIterator \<Rightarrow> 'i MergingIterator" where
  "FindSmallest cmp m = m\<lparr>mi_current := find_smallest cmp (mi_children m) [0..<length (mi_children m)] None\<rparr>"

fun find_largest ::
  "(byte list \<Rightarrow> byte list \<Rightarrow> int) \<Rightarrow> 'i IteratorWrapper list \<Rightarrow> nat list \<Rightarrow> nat option \<Rightarrow> nat option" where
  "find_largest cmp ws [] largest = largest"
| "find_largest cmp ws (i # is) largest =
     find_largest cmp ws is
       (if iw_valid (ws ! i)
        then (case largest of None \<Rightarrow> Some i
              | Some l \<Rightarrow> if 0 < cmp (iw_key (ws ! i)) (iw_key (ws ! l)) then Some i else largest)
        else largest)"

definition FindLargest :: "(byte list \<Rightarrow> byte list \<Rightarrow> int) \<Rightarrow> 'i MergingIterator \<Rightarrow> 'i MergingIterator" where
  "FindLargest cmp m = m\<lparr>mi_current := find_largest cmp (mi_children m) (rev [0..<length (mi_children m)]) None\<rparr>"

fun each_child ::
  "(nat \<Rightarrow> 'i IteratorWrapper \<Rightarrow> 'i IteratorWrapper option) \<Rightarrow> nat \<Rightarrow> 'i IteratorWrapper list \<Rightarrow>
    'i IteratorWrapper list option" where
  "each_child f i [] = Some []"
| "each_child f i (w # ws) = do { w' \<leftarrow> f i w; ws' \<leftarrow> each_child f (Suc i) ws; Some (w' # ws') }"

definition mi_SeekToFirst ::
  "(byte list \<Rightarrow> byte list \<Rightarrow> int) \<Rightarrow> 'i Iterator \<Rightarrow> 'i MergingIterator \<Rightarrow> 'i MergingIterator option" where
  "mi_SeekToFirst cmp I m = do {
     ws \<leftarrow> each_child (\<lambda>i. iw_SeekToFirst I) 0 (mi_children m);
     Some ((FindSmallest cmp (m\<lparr>mi_children := ws\<rparr>))\<lparr>mi_direction := kForward\<rparr>) }"

definition mi_SeekToLast ::
  "(byte list \<Rightarrow> byte list \<Rightarrow> int) \<Rightarrow> 'i Iterator \<Rightarrow> 'i MergingIterator \<Rightarrow> 'i MergingIterator option" where
  "mi_SeekToLast cmp I m = do {
     ws \<leftarrow> each_child (\<lambda>i. iw_SeekToLast I) 0 (mi_children m);
     Some ((FindLargest cmp (m\<lparr>mi_children := ws\<rparr>))\<lparr>mi_direction := kReverse\<rparr>) }"

definition mi_Seek ::
  "(byte list \<Rightarrow> byte list \<Rightarrow> int) \<Rightarrow> 'i Iterator \<Rightarrow> byte list \<Rightarrow> 'i MergingIterator \<Rightarrow> 'i MergingIterator option" where
  "mi_Seek cmp I target m = do {
     ws \<leftarrow> each_child (\<lambda>i. iw_Seek I target) 0 (mi_children m);
     Some ((FindSmallest cmp (m\<lparr>mi_children := ws\<rparr>))\<lparr>mi_direction := kForward\<rparr>) }"

text \<open>A child that is not the current one is moved behind the current key, or before it.\<close>

definition move_after ::
  "(byte list \<Rightarrow> byte list \<Rightarrow> int) \<Rightarrow> 'i Iterator \<Rightarrow> byte list \<Rightarrow> 'i IteratorWrapper \<Rightarrow> 'i IteratorWrapper option" where
  "move_after cmp I key child = do {
     child \<leftarrow> iw_Seek I key child;
     if iw_valid child \<and> cmp key (iw_key child) = 0 then iw_Next I child else Some child }"

definition move_before :: "'i Iterator \<Rightarrow> byte list \<Rightarrow> 'i IteratorWrapper \<Rightarrow> 'i IteratorWrapper option" where
  "move_before I key child = do {
     child \<leftarrow> iw_Seek I key child;
     if iw_valid child then iw_Prev I child else iw_SeekToLast I child }"

definition mi_Next ::
  "(byte list \<Rightarrow> byte list \<Rightarrow> int) \<Rightarrow> 'i Iterator \<Rightarrow> 'i MergingIterator \<Rightarrow> 'i MergingIterator option" where
  "mi_Next cmp I m = do {
     c \<leftarrow> mi_current m;
     ws \<leftarrow> (if mi_direction m \<noteq> kForward
           then each_child (\<lambda>i w. if i \<noteq> c then move_after cmp I (mi_key m) w else Some w) 0 (mi_children m)
           else Some (mi_children m));
     w \<leftarrow> iw_Next I (ws ! c);
     Some (FindSmallest cmp (m\<lparr>mi_direction := kForward, mi_children := ws[c := w]\<rparr>)) }"

definition mi_Prev ::
  "(byte list \<Rightarrow> byte list \<Rightarrow> int) \<Rightarrow> 'i Iterator \<Rightarrow> 'i MergingIterator \<Rightarrow> 'i MergingIterator option" where
  "mi_Prev cmp I m = do {
     c \<leftarrow> mi_current m;
     ws \<leftarrow> (if mi_direction m \<noteq> kReverse
           then each_child (\<lambda>i w. if i \<noteq> c then move_before I (mi_key m) w else Some w) 0 (mi_children m)
           else Some (mi_children m));
     w \<leftarrow> iw_Prev I (ws ! c);
     Some (FindLargest cmp (m\<lparr>mi_direction := kReverse, mi_children := ws[c := w]\<rparr>)) }"

definition merging_iterator ::
  "(byte list \<Rightarrow> byte list \<Rightarrow> int) \<Rightarrow> 'i Iterator \<Rightarrow> 'i MergingIterator Iterator" where
  "merging_iterator cmp I =
     \<lparr>it_Valid = mi_Valid, it_key = mi_key, it_value = mi_value I, it_status = mi_status I,
      it_SeekToFirst = mi_SeekToFirst cmp I, it_SeekToLast = mi_SeekToLast cmp I,
      it_Next = mi_Next cmp I, it_Prev = mi_Prev cmp I, it_Seek = mi_Seek cmp I\<rparr>"

section \<open>The constructing function\<close>

datatype 'i Merged = MergedEmpty Status | MergedSingle 'i | MergedMany "'i MergingIterator"

definition NewMergingIterator :: "'i Iterator \<Rightarrow> 'i list \<Rightarrow> 'i Merged" where
  "NewMergingIterator I xs =
     (if length xs = 0 then MergedEmpty Status_OK
      else if length xs = 1 then MergedSingle (xs ! 0)
      else MergedMany (make_MergingIterator I xs))"

fun merged_move ::
  "('i \<Rightarrow> 'i option) \<Rightarrow> ('i MergingIterator \<Rightarrow> 'i MergingIterator option) \<Rightarrow> 'i Merged option \<Rightarrow> 'i Merged \<Rightarrow>
    'i Merged option" where
  "merged_move f g r (MergedEmpty st) = r"
| "merged_move f g r (MergedSingle it) = map_option MergedSingle (f it)"
| "merged_move f g r (MergedMany m) = map_option MergedMany (g m)"

text \<open>The empty iterator asserts that it is never stepped.\<close>

definition merged_iterator :: "(byte list \<Rightarrow> byte list \<Rightarrow> int) \<Rightarrow> 'i Iterator \<Rightarrow> 'i Merged Iterator" where
  "merged_iterator cmp I =
     \<lparr>it_Valid = (\<lambda>r. case r of MergedEmpty st \<Rightarrow> False | MergedSingle it \<Rightarrow> it_Valid I it | MergedMany m \<Rightarrow> mi_Valid m),
      it_key = (\<lambda>r. case r of MergedEmpty st \<Rightarrow> [] | MergedSingle it \<Rightarrow> it_key I it | MergedMany m \<Rightarrow> mi_key m),
      it_value = (\<lambda>r. case r of MergedEmpty st \<Rightarrow> [] | MergedSingle it \<Rightarrow> it_value I it | MergedMany m \<Rightarrow> mi_value I m),
      it_status = (\<lambda>r. case r of MergedEmpty st \<Rightarrow> st | MergedSingle it \<Rightarrow> it_status I it | MergedMany m \<Rightarrow> mi_status I m),
      it_SeekToFirst = (\<lambda>r. merged_move (it_SeekToFirst I) (mi_SeekToFirst cmp I) (Some r) r),
      it_SeekToLast = (\<lambda>r. merged_move (it_SeekToLast I) (mi_SeekToLast cmp I) (Some r) r),
      it_Next = merged_move (it_Next I) (mi_Next cmp I) None,
      it_Prev = merged_move (it_Prev I) (mi_Prev cmp I) None,
      it_Seek = (\<lambda>t r. merged_move (it_Seek I t) (mi_Seek cmp I t) (Some r) r)\<rparr>"

section \<open>The loops\<close>

lemma find_smallest_none: "(\<And>i. i \<in> set is \<Longrightarrow> \<not> iw_valid (ws ! i)) \<Longrightarrow> find_smallest cmp ws is acc = acc"
  by (induction "is") auto

lemma find_largest_none: "(\<And>i. i \<in> set is \<Longrightarrow> \<not> iw_valid (ws ! i)) \<Longrightarrow> find_largest cmp ws is acc = acc"
  by (induction "is") auto

lemma find_smallest_unique:
  assumes "\<And>i. i \<in> set is \<Longrightarrow> iw_valid (ws ! i) \<Longrightarrow> i \<noteq> c \<Longrightarrow>
      cmp (iw_key (ws ! c)) (iw_key (ws ! i)) < 0 \<and> 0 < cmp (iw_key (ws ! i)) (iw_key (ws ! c))"
    and "\<And>a. acc = Some a \<Longrightarrow> a \<noteq> c \<Longrightarrow> cmp (iw_key (ws ! c)) (iw_key (ws ! a)) < 0"
    and "c \<in> set is \<or> acc = Some c" "iw_valid (ws ! c)"
  shows "find_smallest cmp ws is acc = Some c"
  using assms
proof (induction "is" arbitrary: acc)
  case (Cons i "is")
  note P = Cons.prems(1) [of i]
  show ?case
    unfolding find_smallest.simps
  proof (rule Cons.IH)
    show "c \<in> set is \<or> (if iw_valid (ws ! i)
        then (case acc of None \<Rightarrow> Some i | Some s \<Rightarrow> if cmp (iw_key (ws ! i)) (iw_key (ws ! s)) < 0 then Some i else acc)
        else acc) = Some c"
      using Cons.prems(2-4) P by (cases "i = c") (auto split: option.splits)
  qed (use Cons.prems P in \<open>auto split: option.splits if_splits\<close>)
qed auto

lemma find_largest_unique:
  assumes "\<And>i. i \<in> set is \<Longrightarrow> iw_valid (ws ! i) \<Longrightarrow> i \<noteq> c \<Longrightarrow>
      0 < cmp (iw_key (ws ! c)) (iw_key (ws ! i)) \<and> cmp (iw_key (ws ! i)) (iw_key (ws ! c)) < 0"
    and "\<And>a. acc = Some a \<Longrightarrow> a \<noteq> c \<Longrightarrow> 0 < cmp (iw_key (ws ! c)) (iw_key (ws ! a))"
    and "c \<in> set is \<or> acc = Some c" "iw_valid (ws ! c)"
  shows "find_largest cmp ws is acc = Some c"
  using assms
proof (induction "is" arbitrary: acc)
  case (Cons i "is")
  note P = Cons.prems(1) [of i]
  show ?case
    unfolding find_largest.simps
  proof (rule Cons.IH)
    show "c \<in> set is \<or> (if iw_valid (ws ! i)
        then (case acc of None \<Rightarrow> Some i | Some l \<Rightarrow> if 0 < cmp (iw_key (ws ! i)) (iw_key (ws ! l)) then Some i else acc)
        else acc) = Some c"
      using Cons.prems(2-4) P by (cases "i = c") (auto split: option.splits)
  qed (use Cons.prems P in \<open>auto split: option.splits if_splits\<close>)
qed auto

lemma each_child_ok:
  assumes "\<And>j. j < length ws \<Longrightarrow> \<exists>w'. f (i + j) (ws ! j) = Some w' \<and> P j w'"
  shows "\<exists>ws'. each_child f i ws = Some ws' \<and> length ws' = length ws \<and> (\<forall>j<length ws. P j (ws' ! j))"
  using assms
proof (induction ws arbitrary: i P)
  case (Cons w ws)
  obtain w' where w': "f i w = Some w'" "P 0 w'" using Cons.prems [of 0] by auto
  have "\<exists>w'. f (Suc i + j) (ws ! j) = Some w' \<and> P (Suc j) w'" if "j < length ws" for j
    using Cons.prems [of "Suc j"] that by simp
  then obtain ws' where "each_child f (Suc i) ws = Some ws'" "length ws' = length ws" "\<forall>j<length ws. P (Suc j) (ws' ! j)"
    using Cons.IH [of "Suc i" "\<lambda>j. P (Suc j)"] by blast
  then show ?case using w' by (auto simp: nth_Cons split: nat.split)
qed simp

section \<open>Positions in a merged list\<close>

text \<open>
  The entries \<open>ys\<close> are those of all the children together, in strict order; no key is in two
  children. Before position \<open>k\<close> of \<open>ys\<close> child \<open>j\<close> has passed \<open>passed ys (xss ! j) k\<close> of its entries.
\<close>

definition passed :: "entry_kv list \<Rightarrow> entry_kv list \<Rightarrow> nat \<Rightarrow> nat" where
  "passed ys xs k = length (filter (\<lambda>y. y \<in> set xs) (take k ys))"

lemma passed_0 [simp]: "passed ys xs 0 = 0"
  by (simp add: passed_def)

lemma passed_Suc: "k < length ys \<Longrightarrow> passed ys xs (Suc k) = passed ys xs k + (if ys ! k \<in> set xs then 1 else 0)"
  by (simp add: passed_def take_Suc_conv_app_nth)

lemma passed_le: "xs = filter (\<lambda>y. y \<in> set xs) ys \<Longrightarrow> passed ys xs k \<le> length xs"
  unfolding passed_def by (metis append_take_drop_id filter_append le_add1 length_append)

lemma passed_split:
  assumes "xs = filter (\<lambda>y. y \<in> set xs) ys"
  shows "take (passed ys xs k) xs = filter (\<lambda>y. y \<in> set xs) (take k ys)"
    "drop (passed ys xs k) xs = filter (\<lambda>y. y \<in> set xs) (drop k ys)"
proof -
  have "xs = filter (\<lambda>y. y \<in> set xs) (take k ys) @ filter (\<lambda>y. y \<in> set xs) (drop k ys)"
    using assms by (metis append_take_drop_id filter_append)
  then show "take (passed ys xs k) xs = filter (\<lambda>y. y \<in> set xs) (take k ys)"
    "drop (passed ys xs k) xs = filter (\<lambda>y. y \<in> set xs) (drop k ys)"
    by (metis passed_def append_eq_conv_conj)+
qed

lemma passed_all: "xs = filter (\<lambda>y. y \<in> set xs) ys \<Longrightarrow> length ys \<le> k \<Longrightarrow> passed ys xs k = length xs"
  by (simp add: passed_def)

lemma passed_nth:
  assumes "xs = filter (\<lambda>y. y \<in> set xs) ys"
  shows "i < passed ys xs k \<Longrightarrow> i < length xs \<Longrightarrow> xs ! i \<in> set (take k ys)"
    "passed ys xs k \<le> i \<Longrightarrow> i < length xs \<Longrightarrow> xs ! i \<in> set (drop k ys)"
proof -
  show "xs ! i \<in> set (take k ys)" if "i < passed ys xs k" "i < length xs"
  proof -
    have "take (passed ys xs k) xs ! i \<in> set (take (passed ys xs k) xs)" using that by (intro nth_mem) simp
    then have "xs ! i \<in> set (filter (\<lambda>y. y \<in> set xs) (take k ys))"
      unfolding passed_split(1) [OF assms, of k, symmetric] using that(1) by simp
    then show ?thesis by simp
  qed
  show "xs ! i \<in> set (drop k ys)" if "passed ys xs k \<le> i" "i < length xs"
  proof -
    have "drop (passed ys xs k) xs ! (i - passed ys xs k) \<in> set (drop (passed ys xs k) xs)" using that by (intro nth_mem) simp
    then have "xs ! i \<in> set (filter (\<lambda>y. y \<in> set xs) (drop k ys))"
      unfolding passed_split(2) [OF assms, of k, symmetric] using that by simp
    then show ?thesis by simp
  qed
qed

lemma passed_owner:
  assumes "xs = filter (\<lambda>y. y \<in> set xs) ys" "k < length ys" "ys ! k \<in> set xs"
  shows "passed ys xs k < length xs" "xs ! passed ys xs k = ys ! k"
proof -
  have "drop (passed ys xs k) xs = ys ! k # filter (\<lambda>y. y \<in> set xs) (drop (Suc k) ys)"
    unfolding passed_split(2) [OF assms(1)] using assms(2,3) by (simp flip: Cons_nth_drop_Suc)
  then have "drop (passed ys xs k) xs \<noteq> []" "hd (drop (passed ys xs k) xs) = ys ! k" by simp_all
  then show "passed ys xs k < length xs" "xs ! passed ys xs k = ys ! k"
    by (simp_all add: hd_drop_conv_nth)
qed

lemma sorted_wrt_unique:
  assumes "sorted_wrt R xs" "sorted_wrt R ys" "set xs = set ys" "\<And>x y. x \<in> set xs \<Longrightarrow> y \<in> set xs \<Longrightarrow> R x y \<Longrightarrow> \<not> R y x"
  shows "xs = ys"
  using assms
proof (induction xs arbitrary: ys)
  case (Cons x xs)
  obtain y zs where ys: "ys = y # zs" using Cons.prems(3) by (cases ys) auto
  have irr: "\<not> R z z" if "z \<in> set (x # xs)" for z using Cons.prems(4) that by blast
  have "x = y"
  proof (rule ccontr)
    assume "x \<noteq> y"
    then have "x \<in> set zs" "y \<in> set xs" using Cons.prems(3) ys by auto
    then have "R y x" "R x y" using Cons.prems(1,2) ys by auto
    then show False using Cons.prems(4) [of x y] \<open>y \<in> set xs\<close> by simp
  qed
  have "x \<notin> set xs" "y \<notin> set zs"
    using Cons.prems(1,2) irr ys \<open>x = y\<close> by auto
  then have "set xs = set zs" using Cons.prems(3) ys \<open>x = y\<close> by (simp add: insert_ident)
  moreover have "sorted_wrt R xs" "sorted_wrt R zs" using Cons.prems(1,2) ys by simp_all
  ultimately have "xs = zs" using Cons.IH [of zs] Cons.prems(4) by (meson list.set_intros(2))
  then show ?case using ys \<open>x = y\<close> by simp
qed simp

lemma distinct_concat_disjoint:
  "distinct (concat xss) \<Longrightarrow> i < length xss \<Longrightarrow> j < length xss \<Longrightarrow> i \<noteq> j \<Longrightarrow> set (xss ! i) \<inter> set (xss ! j) = {}"
proof (induction xss arbitrary: i j)
  case (Cons xs xss)
  have d: "set xs \<inter> set (xss ! j) = {}" if "j < length xss" for j
    using Cons.prems(1) nth_mem [OF that] by fastforce
  have r: "set (xss ! i) \<inter> set (xss ! j) = {}" if "i < length xss" "j < length xss" "i \<noteq> j" for i j
    using Cons.IH [OF _ that] Cons.prems(1) by simp
  show ?case
    using Cons.prems(2-4) d r by (cases i; cases j) (simp_all add: Int_commute)
qed simp

definition merge_of ::
  "(byte list \<Rightarrow> byte list \<Rightarrow> int) \<Rightarrow> (byte list \<Rightarrow> bool) \<Rightarrow> entry_kv list list \<Rightarrow> entry_kv list \<Rightarrow> bool" where
  "merge_of cmp proper xss ys \<longleftrightarrow>
     sorted_wrt (\<lambda>x y. cmp (fst x) (fst y) < 0) ys \<and> (\<forall>y\<in>set ys. proper (fst y)) \<and>
     (\<forall>xs\<in>set xss. sorted_wrt (\<lambda>x y. cmp (fst x) (fst y) < 0) xs) \<and> mset ys = mset (concat xss)"

definition back_one :: "nat \<Rightarrow> nat \<Rightarrow> nat" where
  "back_one n p = (if p = 0 then n else p - 1)"

text \<open>The children stand at the positions \<open>ps\<close> of the lists \<open>xss\<close>.\<close>

definition children_at ::
  "('i \<Rightarrow> entry_kv list \<Rightarrow> nat \<Rightarrow> bool) \<Rightarrow> 'i IteratorWrapper list \<Rightarrow> entry_kv list list \<Rightarrow> (nat \<Rightarrow> nat) \<Rightarrow> bool" where
  "children_at iter_at ws xss ps \<longleftrightarrow> length ws = length xss \<and> (\<forall>j<length xss. wrap_at iter_at (ws ! j) (xss ! j) (ps j))"

text \<open>
  The merging iterator at position \<open>k\<close>: the current child stands on the entry \<open>ys ! k\<close>, the others behind it
  when the direction is forward, before it when it is reverse.
\<close>

definition other_pos :: "Direction \<Rightarrow> entry_kv list \<Rightarrow> entry_kv list \<Rightarrow> nat \<Rightarrow> nat" where
  "other_pos d ys xs k =
     (case d of kForward \<Rightarrow> passed ys xs k | kReverse \<Rightarrow> back_one (length xs) (passed ys xs k))"

definition mi_at ::
  "(byte list \<Rightarrow> byte list \<Rightarrow> int) \<Rightarrow> (byte list \<Rightarrow> bool) \<Rightarrow> ('i \<Rightarrow> entry_kv list \<Rightarrow> nat \<Rightarrow> bool) \<Rightarrow>
    'i MergingIterator \<Rightarrow> entry_kv list \<Rightarrow> nat \<Rightarrow> bool" where
  "mi_at cmp proper iter_at m ys k \<longleftrightarrow> k \<le> length ys \<and>
     (\<exists>xss ps. merge_of cmp proper xss ys \<and> children_at iter_at (mi_children m) xss ps \<and>
       (if k = length ys then mi_current m = None
        else \<exists>c<length xss. mi_current m = Some c \<and> ys ! k \<in> set (xss ! c) \<and> ps c = passed ys (xss ! c) k \<and>
          (\<forall>j<length xss. j \<noteq> c \<longrightarrow> ps j = other_pos (mi_direction m) ys (xss ! j) k)))"

section \<open>The contract\<close>

locale merging = iterator I iter_at "\<lambda>k t. cmp k t < 0" proper + key_order proper cmp
  for I :: "'i Iterator" and iter_at :: "'i \<Rightarrow> entry_kv list \<Rightarrow> nat \<Rightarrow> bool"
    and cmp :: "byte list \<Rightarrow> byte list \<Rightarrow> int" and proper :: "byte list \<Rightarrow> bool"
begin

lemma strict_unique:
  assumes "sorted_wrt (\<lambda>x y. cmp (fst x) (fst y) < 0) xs" "sorted_wrt (\<lambda>x y. cmp (fst x) (fst y) < 0) ys"
    "set xs = set ys" "\<And>x. x \<in> set xs \<Longrightarrow> proper (fst x)"
  shows "xs = ys"
  using assms(1,2,3)
proof (rule sorted_wrt_unique)
  fix x y
  assume "x \<in> set xs" "y \<in> set xs" "cmp (fst x) (fst y) < 0"
  then show "\<not> cmp (fst y) (fst x) < 0" using cmp_swap [of "fst x" "fst y"] assms(4) by fastforce
qed

lemma merge_distinct: "merge_of cmp proper xss ys \<Longrightarrow> distinct ys"
proof -
  assume m: "merge_of cmp proper xss ys"
  have "\<not> cmp (fst y) (fst y) < 0" if "y \<in> set ys" for y
    using m that cmp_refl [of "fst y"] by (auto simp: merge_of_def)
  then show ?thesis using m unfolding merge_of_def distinct_conv_nth sorted_wrt_iff_nth_less
    by (metis nat_neq_iff nth_mem)
qed

lemma merge_child:
  assumes "merge_of cmp proper xss ys" "j < length xss"
  shows "xss ! j = filter (\<lambda>y. y \<in> set (xss ! j)) ys" "set (xss ! j) \<subseteq> set ys"
proof -
  have "set ys = set (concat xss)" using assms(1) unfolding merge_of_def by (metis set_mset_mset)
  then show sub: "set (xss ! j) \<subseteq> set ys" using assms(2) by (auto intro: nth_mem)
  show "xss ! j = filter (\<lambda>y. y \<in> set (xss ! j)) ys"
  proof (rule strict_unique)
    show "sorted_wrt (\<lambda>x y. cmp (fst x) (fst y) < 0) (filter (\<lambda>y. y \<in> set (xss ! j)) ys)"
      using assms(1) by (simp add: merge_of_def sorted_wrt_filter)
  qed (use assms sub in \<open>auto simp: merge_of_def\<close>)
qed

lemma merge_owner:
  assumes "merge_of cmp proper xss ys" "k < length ys"
  obtains c where "c < length xss" "ys ! k \<in> set (xss ! c)" "\<And>j. j < length xss \<Longrightarrow> j \<noteq> c \<Longrightarrow> ys ! k \<notin> set (xss ! j)"
proof -
  have m: "mset ys = mset (concat xss)" using assms(1) by (simp add: merge_of_def)
  then have "set ys = set (concat xss)" by (metis set_mset_mset)
  then have "ys ! k \<in> set (concat xss)" using assms(2) by (metis nth_mem)
  then obtain c where c: "c < length xss" "ys ! k \<in> set (xss ! c)" by (auto simp: in_set_conv_nth [of _ xss])
  have "distinct (concat xss)" using m merge_distinct [OF assms(1)] by (metis mset_eq_imp_distinct_iff)
  then have "ys ! k \<notin> set (xss ! j)" if "j < length xss" "j \<noteq> c" for j
    using distinct_concat_disjoint [of xss c j] that c by blast
  with c show ?thesis using that by blast
qed

lemma merge_before:
  assumes "merge_of cmp proper xss ys" "k < length ys"
  shows "y \<in> set (take k ys) \<Longrightarrow> cmp (fst y) (fst (ys ! k)) < 0"
    "y \<in> set (drop k ys) \<Longrightarrow> y \<noteq> ys ! k \<Longrightarrow> cmp (fst (ys ! k)) (fst y) < 0"
proof -
  have s: "sorted_wrt (\<lambda>x y. cmp (fst x) (fst y) < 0) (take k ys @ ys ! k # drop (Suc k) ys)"
    using assms by (simp add: merge_of_def flip: id_take_nth_drop)
  then show "y \<in> set (take k ys) \<Longrightarrow> cmp (fst y) (fst (ys ! k)) < 0"
    by (simp add: sorted_wrt_append)
  show "y \<in> set (drop k ys) \<Longrightarrow> y \<noteq> ys ! k \<Longrightarrow> cmp (fst (ys ! k)) (fst y) < 0"
    using s assms(2) by (auto simp: sorted_wrt_append simp flip: Cons_nth_drop_Suc)
qed

lemma merge_proper: "merge_of cmp proper xss ys \<Longrightarrow> y \<in> set ys \<Longrightarrow> proper (fst y)"
  by (simp add: merge_of_def)

lemma merge_proper_child: "merge_of cmp proper xss ys \<Longrightarrow> j < length xss \<Longrightarrow> i < length (xss ! j) \<Longrightarrow> proper (fst (xss ! j ! i))"
  using merge_proper merge_child(2) nth_mem by blast

lemma smallest_at:
  assumes m: "merge_of cmp proper xss ys" and k: "k \<le> length ys"
    and ws: "children_at iter_at ws xss (\<lambda>j. passed ys (xss ! j) k)"
    and "mi_children mi = ws" "mi_direction mi = kForward" "mi_current mi = find_smallest cmp ws [0..<length ws] None"
  shows "mi_at cmp proper iter_at mi ys k"
proof (cases "k = length ys")
  case True
  have "\<not> iw_valid (ws ! j)" if "j < length ws" for j
    using that ws wrap_atD(2) passed_all [OF merge_child(1) [OF m], of j k] True by (fastforce simp: children_at_def)
  then have "mi_current mi = None" using assms(6) find_smallest_none [of "[0..<length ws]" ws] by simp
  then show ?thesis using m ws assms(4) True by (auto simp: mi_at_def)
next
  case False
  then have k': "k < length ys" using k by simp
  obtain c where c: "c < length xss" "ys ! k \<in> set (xss ! c)" "\<And>j. j < length xss \<Longrightarrow> j \<noteq> c \<Longrightarrow> ys ! k \<notin> set (xss ! j)"
    using merge_owner [OF m k'] by blast
  note p = passed_owner [OF merge_child(1) [OF m c(1)] k' c(2)]
  have w: "wrap_at iter_at (ws ! j) (xss ! j) (passed ys (xss ! j) k)" if "j < length xss" for j
    using ws that by (simp add: children_at_def)
  have kc: "iw_valid (ws ! c)" "iw_key (ws ! c) = fst (ys ! k)"
    using wrap_atD(2,3) [OF w [OF c(1)]] p by simp_all
  have "find_smallest cmp ws [0..<length ws] None = Some c"
  proof (rule find_smallest_unique)
    fix i
    assume i: "i \<in> set [0..<length ws]" "iw_valid (ws ! i)" "i \<noteq> c"
    then have il: "i < length xss" using ws by (simp add: children_at_def)
    let ?y = "xss ! i ! passed ys (xss ! i) k"
    have v: "passed ys (xss ! i) k < length (xss ! i)" "iw_key (ws ! i) = fst ?y"
      using wrap_atD(2,3) [OF w [OF il]] i(2) by simp_all
    have y: "?y \<in> set (drop k ys)" using passed_nth(2) [OF merge_child(1) [OF m il]] v(1) by simp
    have "?y \<noteq> ys ! k" using c(3) [OF il i(3)] v(1) by (metis nth_mem)
    then have "cmp (fst (ys ! k)) (fst ?y) < 0" using merge_before(2) [OF m k' y] by simp
    then show "cmp (iw_key (ws ! c)) (iw_key (ws ! i)) < 0 \<and> 0 < cmp (iw_key (ws ! i)) (iw_key (ws ! c))"
      using cmp_swap merge_proper [OF m] nth_mem [OF k'] in_set_dropD [OF y] by (simp add: kc v)
  qed (use c(1) ws kc in \<open>auto simp: children_at_def\<close>)
  then show ?thesis
    using m ws c(1,2) assms(4-6) k' unfolding mi_at_def
    by (intro conjI exI [of _ xss] exI [of _ "\<lambda>j. passed ys (xss ! j) k"]) (auto simp: other_pos_def)
qed

lemma largest_at:
  assumes m: "merge_of cmp proper xss ys" and k: "k \<le> length ys"
    and ws: "children_at iter_at ws xss (\<lambda>j. back_one (length (xss ! j)) (passed ys (xss ! j) k))"
    and "mi_children mi = ws" "mi_direction mi = kReverse" "mi_current mi = find_largest cmp ws (rev [0..<length ws]) None"
  shows "mi_at cmp proper iter_at mi ys (back_one (length ys) k)"
proof (cases k)
  case 0
  have "\<not> iw_valid (ws ! j)" if "j < length ws" for j
    using that ws wrap_atD(2) 0 by (fastforce simp: children_at_def back_one_def)
  then have "mi_current mi = None" using assms(6) find_largest_none [of "rev [0..<length ws]" ws] by simp
  then show ?thesis using m ws assms(4) 0 by (auto simp: mi_at_def back_one_def)
next
  case (Suc n)
  then have n: "n < length ys" using k by simp
  obtain c where c: "c < length xss" "ys ! n \<in> set (xss ! c)" "\<And>j. j < length xss \<Longrightarrow> j \<noteq> c \<Longrightarrow> ys ! n \<notin> set (xss ! j)"
    using merge_owner [OF m n] by blast
  note p = passed_owner [OF merge_child(1) [OF m c(1)] n c(2)]
  have pc: "passed ys (xss ! c) k = Suc (passed ys (xss ! c) n)" using Suc passed_Suc [OF n] c(2) by simp
  have w: "wrap_at iter_at (ws ! j) (xss ! j) (back_one (length (xss ! j)) (passed ys (xss ! j) k))" if "j < length xss" for j
    using ws that by (simp add: children_at_def)
  have kc: "iw_valid (ws ! c)" "iw_key (ws ! c) = fst (ys ! n)"
    using wrap_atD(2,3) [OF w [OF c(1)]] p by (simp_all add: pc back_one_def)
  have "find_largest cmp ws (rev [0..<length ws]) None = Some c"
  proof (rule find_largest_unique)
    fix i
    assume i: "i \<in> set (rev [0..<length ws])" "iw_valid (ws ! i)" "i \<noteq> c"
    then have il: "i < length xss" using ws by (simp add: children_at_def)
    let ?p = "passed ys (xss ! i) k"
    let ?y = "xss ! i ! (?p - 1)"
    have v: "?p \<noteq> 0" "?p - 1 < length (xss ! i)" "iw_key (ws ! i) = fst ?y"
      using wrap_atD(2,3) [OF w [OF il]] i(2) by (auto simp: back_one_def split: if_splits)
    have "?y \<in> set (take k ys)" using passed_nth(1) [OF merge_child(1) [OF m il], of "?p - 1" k] v(1,2) by simp
    moreover have "?y \<noteq> ys ! n" using c(3) [OF il i(3)] v(2) by (metis nth_mem)
    ultimately have y: "?y \<in> set (take n ys)" using Suc n by (simp add: take_Suc_conv_app_nth)
    then have "cmp (fst ?y) (fst (ys ! n)) < 0" using merge_before(1) [OF m n] by simp
    then show "0 < cmp (iw_key (ws ! c)) (iw_key (ws ! i)) \<and> cmp (iw_key (ws ! i)) (iw_key (ws ! c)) < 0"
      using cmp_swap merge_proper [OF m] nth_mem [OF n] in_set_takeD [OF y] by (simp add: kc v)
  qed (use c(1) ws kc in \<open>auto simp: children_at_def\<close>)
  moreover have "passed ys (xss ! j) k = passed ys (xss ! j) n" if "j < length xss" "j \<noteq> c" for j
    using Suc passed_Suc [OF n] c(3) [OF that] by simp
  ultimately show ?thesis
    using m ws c(1,2) assms(4-6) n pc Suc unfolding mi_at_def
    by (intro conjI exI [of _ xss] exI [of _ "\<lambda>j. back_one (length (xss ! j)) (passed ys (xss ! j) k)"])
       (auto simp: other_pos_def back_one_def)
qed

lemma children_each:
  assumes "children_at iter_at ws xss ps"
    and "\<And>j w. j < length xss \<Longrightarrow> wrap_at iter_at w (xss ! j) (ps j) \<Longrightarrow> \<exists>w'. f j w = Some w' \<and> wrap_at iter_at w' (xss ! j) (qs j)"
  shows "\<exists>ws'. each_child f 0 ws = Some ws' \<and> children_at iter_at ws' xss qs"
proof -
  have "\<exists>w'. f (0 + j) (ws ! j) = Some w' \<and> wrap_at iter_at w' (xss ! j) (qs j)" if "j < length ws" for j
    using assms that by (simp add: children_at_def)
  then obtain ws' where "each_child f 0 ws = Some ws'" "length ws' = length ws" "\<forall>j<length ws. wrap_at iter_at (ws' ! j) (xss ! j) (qs j)"
    using each_child_ok [of ws f 0 "\<lambda>j w. wrap_at iter_at w (xss ! j) (qs j)"] by blast
  then show ?thesis using assms(1) by (auto simp: children_at_def)
qed

lemma downward_strict:
  assumes "sorted_wrt (\<lambda>x y. cmp (fst x) (fst y) < 0) xs" "\<And>x. x \<in> set xs \<Longrightarrow> proper (fst x)" "proper t"
  shows "downward (\<lambda>k t. cmp k t < 0) t xs"
  unfolding downward_def
  by (rule sorted_wrt_mono_rel [OF _ assms(1)]) (use assms(2,3) cmp_less_trans in blast)

lemma seek_pos_child:
  assumes m: "merge_of cmp proper xss ys" and t: "proper t" and j: "j < length xss"
  shows "downward (\<lambda>k t. cmp k t < 0) t (xss ! j)"
    "seek_pos (\<lambda>k t. cmp k t < 0) t (xss ! j) = passed ys (xss ! j) (seek_pos (\<lambda>k t. cmp k t < 0) t ys)"
proof -
  let ?b = "\<lambda>k t. cmp k t < 0"
  let ?k = "seek_pos ?b t ys"
  note sub = merge_child [OF m j]
  show "downward ?b t (xss ! j)"
    by (rule downward_strict) (use m j sub(2) t in \<open>auto simp: merge_of_def\<close>)
  have d: "downward ?b t ys" by (rule downward_strict) (use m t in \<open>auto simp: merge_of_def\<close>)
  have below: "cmp (fst y) t < 0" if "y \<in> set (take ?k ys)" for y
    using that downward_less_seek_pos [OF d] by (auto simp: in_set_conv_nth)
  have above: "\<not> cmp (fst y) t < 0" if y: "y \<in> set (drop ?k ys)" for y
  proof -
    obtain i where i: "?k + i < length ys" "y = ys ! (?k + i)" using y by (auto simp: in_set_conv_nth less_diff_conv add.commute)
    then show ?thesis using downward_less_seek_pos [OF d i(1)] by simp
  qed
  show "seek_pos ?b t (xss ! j) = passed ys (xss ! j) ?k"
  proof (rule seek_pos_unique)
    show le: "passed ys (xss ! j) ?k \<le> length (xss ! j)" by (rule passed_le [OF sub(1)])
    show "cmp (fst (xss ! j ! i)) t < 0" if "i < passed ys (xss ! j) ?k" for i
      using below [OF passed_nth(1) [OF sub(1) that]] that le by simp
    show "\<not> cmp (fst (xss ! j ! passed ys (xss ! j) ?k)) t < 0" if "passed ys (xss ! j) ?k < length (xss ! j)"
      using above [OF passed_nth(2) [OF sub(1) le_refl that]] by simp
  qed
qed

lemma seek_pos_self:
  assumes "merge_of cmp proper xss ys" "k < length ys"
  shows "seek_pos (\<lambda>k t. cmp k t < 0) (fst (ys ! k)) ys = k"
proof (rule seek_pos_unique)
  show "cmp (fst (ys ! i)) (fst (ys ! k)) < 0" if "i < k" for i
    using that assms(2) by (intro merge_before(1) [OF assms]) (auto simp: in_set_conv_nth)
  show "\<not> cmp (fst (ys ! k)) (fst (ys ! k)) < 0"
    using cmp_refl merge_proper [OF assms(1)] nth_mem [OF assms(2)] by simp
qed (use assms(2) in simp)

lemma children_Seek:
  assumes "merge_of cmp proper xss ys" "proper t" "children_at iter_at ws xss ps"
  shows "\<exists>ws'. each_child (\<lambda>i. iw_Seek I t) 0 ws = Some ws' \<and>
    children_at iter_at ws' xss (\<lambda>j. passed ys (xss ! j) (seek_pos (\<lambda>k t. cmp k t < 0) t ys))"
  by (rule children_each [OF assms(3)])
     (use wrap_ops(5) [OF _ assms(2) seek_pos_child(1) [OF assms(1,2)]] seek_pos_child(2) [OF assms(1,2)] in auto)

lemma child_Seek_key:
  assumes "merge_of cmp proper xss ys" "k < length ys" "j < length xss" "wrap_at iter_at w (xss ! j) i"
  shows "\<exists>w'. iw_Seek I (fst (ys ! k)) w = Some w' \<and> wrap_at iter_at w' (xss ! j) (passed ys (xss ! j) k)"
proof -
  have t: "proper (fst (ys ! k))" using merge_proper [OF assms(1)] nth_mem [OF assms(2)] by blast
  show ?thesis
    using wrap_ops(5) [OF assms(4) t seek_pos_child(1) [OF assms(1) t assms(3)]]
    by (simp add: seek_pos_child(2) [OF assms(1) t assms(3)] seek_pos_self [OF assms(1,2)])
qed

lemma child_move_after:
  assumes m: "merge_of cmp proper xss ys" and k: "k < length ys" and j: "j < length xss" "ys ! k \<notin> set (xss ! j)"
    and w: "wrap_at iter_at w (xss ! j) i"
  shows "\<exists>w'. move_after cmp I (fst (ys ! k)) w = Some w' \<and> wrap_at iter_at w' (xss ! j) (passed ys (xss ! j) k)"
proof -
  obtain w' where w': "iw_Seek I (fst (ys ! k)) w = Some w'" "wrap_at iter_at w' (xss ! j) (passed ys (xss ! j) k)"
    using child_Seek_key [OF m k j(1) w] by blast
  have "cmp (fst (ys ! k)) (iw_key w') < 0" if "iw_valid w'"
  proof -
    let ?y = "xss ! j ! passed ys (xss ! j) k"
    have l: "passed ys (xss ! j) k < length (xss ! j)" "iw_key w' = fst ?y"
      using wrap_atD(2,3) [OF w'(2)] that by simp_all
    have "?y \<in> set (drop k ys)" "?y \<noteq> ys ! k"
      using passed_nth(2) [OF merge_child(1) [OF m j(1)] _ l(1)] j(2) l(1) by (simp, metis nth_mem)
    then show ?thesis using merge_before(2) [OF m k] l(2) by simp
  qed
  then show ?thesis using w' by (auto simp: move_after_def)
qed

lemma child_move_before:
  assumes m: "merge_of cmp proper xss ys" and k: "k < length ys" and j: "j < length xss"
    and w: "wrap_at iter_at w (xss ! j) i"
  shows "\<exists>w'. move_before I (fst (ys ! k)) w = Some w' \<and>
    wrap_at iter_at w' (xss ! j) (back_one (length (xss ! j)) (passed ys (xss ! j) k))"
proof -
  let ?p = "passed ys (xss ! j) k"
  obtain w' where w': "iw_Seek I (fst (ys ! k)) w = Some w'" "wrap_at iter_at w' (xss ! j) ?p"
    using child_Seek_key [OF m k j w] by blast
  show ?thesis
  proof (cases "iw_valid w'")
    case True
    then have "?p < length (xss ! j)" using wrap_atD(2) [OF w'(2)] by simp
    then show ?thesis using True w' wrap_ops(4) [OF w'(2)] by (auto simp: move_before_def back_one_def)
  next
    case False
    then have "?p = length (xss ! j)" using wrap_atD(2,4) [OF w'(2)] by simp
    then show ?thesis using False w' wrap_ops(2) [OF w'(2)] by (auto simp: move_before_def back_one_def)
  qed
qed

lemma children_update:
  assumes "children_at iter_at ws xss ps" "c < length xss" "wrap_at iter_at w (xss ! c) q"
  shows "children_at iter_at (ws[c := w]) xss (ps(c := q))"
  using assms by (auto simp: children_at_def nth_list_update)

lemma children_at_cong:
  "children_at iter_at ws xss ps \<Longrightarrow> (\<And>j. j < length xss \<Longrightarrow> ps j = qs j) \<Longrightarrow> children_at iter_at ws xss qs"
  by (simp add: children_at_def)

lemma mi_atE:
  assumes "mi_at cmp proper iter_at m ys k" "k < length ys"
  obtains xss ps c where "merge_of cmp proper xss ys" "children_at iter_at (mi_children m) xss ps" "c < length xss"
    "mi_current m = Some c" "ys ! k \<in> set (xss ! c)" "ps c = passed ys (xss ! c) k" "mi_key m = fst (ys ! k)"
    "mi_value I m = snd (ys ! k)" "\<And>j. j < length xss \<Longrightarrow> j \<noteq> c \<Longrightarrow> ys ! k \<notin> set (xss ! j)"
    "\<And>j. j < length xss \<Longrightarrow> j \<noteq> c \<Longrightarrow> ps j = other_pos (mi_direction m) ys (xss ! j) k"
proof -
  obtain xss ps c where h: "merge_of cmp proper xss ys" "children_at iter_at (mi_children m) xss ps" "c < length xss"
    "mi_current m = Some c" "ys ! k \<in> set (xss ! c)" "ps c = passed ys (xss ! c) k"
    "\<forall>j<length xss. j \<noteq> c \<longrightarrow> ps j = other_pos (mi_direction m) ys (xss ! j) k"
    using assms by (auto simp: mi_at_def)
  have w: "wrap_at iter_at (mi_children m ! c) (xss ! c) (passed ys (xss ! c) k)"
    using h(2,3,6) by (auto simp: children_at_def)
  note p = passed_owner [OF merge_child(1) [OF h(1,3)] assms(2) h(5)]
  have kv: "mi_key m = fst (ys ! k)" "mi_value I m = snd (ys ! k)"
    using wrap_atD(3) [OF w p(1)] wrap_value [OF w p(1)] p(2) h(4) by (simp_all add: mi_key_def mi_value_def)
  obtain c' where c': "\<And>j. j < length xss \<Longrightarrow> j \<noteq> c' \<Longrightarrow> ys ! k \<notin> set (xss ! j)"
    using merge_owner [OF h(1) assms(2)] by blast
  then have "c' = c" using h(3,5) by blast
  then show ?thesis using that [OF h(1-6) kv] c' h(7) by blast
qed

lemma mi_at_children:
  "mi_at cmp proper iter_at m ys k \<Longrightarrow> \<exists>xss ps. merge_of cmp proper xss ys \<and> children_at iter_at (mi_children m) xss ps"
  by (auto simp: mi_at_def)

lemma merging_SeekToFirst:
  assumes "mi_at cmp proper iter_at m ys k"
  shows "\<exists>m'. mi_SeekToFirst cmp I m = Some m' \<and> mi_at cmp proper iter_at m' ys 0"
proof -
  obtain xss ps where m: "merge_of cmp proper xss ys" "children_at iter_at (mi_children m) xss ps"
    using mi_at_children [OF assms] by blast
  obtain ws where ws: "each_child (\<lambda>i. iw_SeekToFirst I) 0 (mi_children m) = Some ws"
    "children_at iter_at ws xss (\<lambda>j. passed ys (xss ! j) 0)"
    using children_each [OF m(2), of "\<lambda>i. iw_SeekToFirst I" "\<lambda>j. passed ys (xss ! j) 0"] wrap_ops(1) by auto
  then show ?thesis
    by (auto simp: mi_SeekToFirst_def FindSmallest_def intro!: smallest_at [OF m(1) _ ws(2)])
qed

lemma merging_Seek:
  assumes "mi_at cmp proper iter_at m ys k" "proper t"
  shows "\<exists>m'. mi_Seek cmp I t m = Some m' \<and> mi_at cmp proper iter_at m' ys (seek_pos (\<lambda>k t. cmp k t < 0) t ys)"
proof -
  obtain xss ps where m: "merge_of cmp proper xss ys" "children_at iter_at (mi_children m) xss ps"
    using mi_at_children [OF assms(1)] by blast
  obtain ws where ws: "each_child (\<lambda>i. iw_Seek I t) 0 (mi_children m) = Some ws"
    "children_at iter_at ws xss (\<lambda>j. passed ys (xss ! j) (seek_pos (\<lambda>k t. cmp k t < 0) t ys))"
    using children_Seek [OF m(1) assms(2) m(2)] by blast
  then show ?thesis
    by (auto simp: mi_Seek_def FindSmallest_def seek_pos_le intro!: smallest_at [OF m(1) _ ws(2)])
qed

lemma merging_SeekToLast:
  assumes "mi_at cmp proper iter_at m ys k"
  shows "\<exists>m'. mi_SeekToLast cmp I m = Some m' \<and> mi_at cmp proper iter_at m' ys (length ys - 1)"
proof -
  obtain xss ps where m: "merge_of cmp proper xss ys" "children_at iter_at (mi_children m) xss ps"
    using mi_at_children [OF assms] by blast
  have b: "length (xss ! j) - 1 = back_one (length (xss ! j)) (passed ys (xss ! j) (length ys))" if "j < length xss" for j
    using passed_all [OF merge_child(1) [OF m(1) that]] by (simp add: back_one_def)
  have "\<exists>ws. each_child (\<lambda>i. iw_SeekToLast I) 0 (mi_children m) = Some ws \<and>
    children_at iter_at ws xss (\<lambda>j. back_one (length (xss ! j)) (passed ys (xss ! j) (length ys)))"
    by (rule children_each [OF m(2)]) (use wrap_ops(2) in \<open>simp flip: b\<close>)
  then obtain ws where ws: "each_child (\<lambda>i. iw_SeekToLast I) 0 (mi_children m) = Some ws"
    "children_at iter_at ws xss (\<lambda>j. back_one (length (xss ! j)) (passed ys (xss ! j) (length ys)))" by blast
  have "back_one (length ys) (length ys) = length ys - 1" by (simp add: back_one_def)
  then show ?thesis using ws(1) largest_at [OF m(1) le_refl ws(2)]
    by (auto simp: mi_SeekToLast_def FindLargest_def)
qed

lemma merging_Next:
  assumes "mi_at cmp proper iter_at m ys k" "k < length ys"
  shows "\<exists>m'. mi_Next cmp I m = Some m' \<and> mi_at cmp proper iter_at m' ys (Suc k)"
proof -
  obtain xss ps c where h: "merge_of cmp proper xss ys" "children_at iter_at (mi_children m) xss ps" "c < length xss"
    "mi_current m = Some c" "ys ! k \<in> set (xss ! c)" "ps c = passed ys (xss ! c) k" "mi_key m = fst (ys ! k)"
    "mi_value I m = snd (ys ! k)" "\<And>j. j < length xss \<Longrightarrow> j \<noteq> c \<Longrightarrow> ys ! k \<notin> set (xss ! j)"
    "\<And>j. j < length xss \<Longrightarrow> j \<noteq> c \<Longrightarrow> ps j = other_pos (mi_direction m) ys (xss ! j) k"
    using mi_atE [OF assms] by blast
  obtain ws where ws: "(if mi_direction m \<noteq> kForward
      then each_child (\<lambda>i w. if i \<noteq> c then move_after cmp I (mi_key m) w else Some w) 0 (mi_children m)
      else Some (mi_children m)) = Some ws" "children_at iter_at ws xss (\<lambda>j. passed ys (xss ! j) k)"
  proof (cases "mi_direction m")
    case kForward
    have "children_at iter_at (mi_children m) xss (\<lambda>j. passed ys (xss ! j) k)"
      using h(2,6,10) kForward by (fastforce simp: children_at_def other_pos_def)
    then show ?thesis using that kForward by simp
  next
    case kReverse
    have "\<exists>ws'. each_child (\<lambda>i w. if i \<noteq> c then move_after cmp I (mi_key m) w else Some w) 0 (mi_children m) = Some ws' \<and>
        children_at iter_at ws' xss (\<lambda>j. passed ys (xss ! j) k)"
      by (rule children_each [OF h(2)]) (use child_move_after [OF h(1) assms(2) _ h(9)] h(6,7) in auto)
    then show ?thesis using that kReverse by auto
  qed
  note p = passed_owner(1) [OF merge_child(1) [OF h(1,3)] assms(2) h(5)]
  have "wrap_at iter_at (ws ! c) (xss ! c) (passed ys (xss ! c) k)" using ws(2) h(3) by (simp add: children_at_def)
  then obtain w where w: "iw_Next I (ws ! c) = Some w" "wrap_at iter_at w (xss ! c) (Suc (passed ys (xss ! c) k))"
    using wrap_ops(3) [OF _ p] by blast
  have "children_at iter_at (ws[c := w]) xss (\<lambda>j. passed ys (xss ! j) (Suc k))"
  proof (rule children_at_cong [OF children_update [OF ws(2) h(3) w(2)]])
    show "((\<lambda>j. passed ys (xss ! j) k)(c := Suc (passed ys (xss ! c) k))) j = passed ys (xss ! j) (Suc k)"
      if "j < length xss" for j
      using h(5) h(9) [OF that] by (auto simp: passed_Suc [OF assms(2)])
  qed
  then show ?thesis
    using smallest_at [OF h(1) Suc_leI [OF assms(2)]] h(4) ws(1) w(1) by (auto simp: mi_Next_def FindSmallest_def)
qed

lemma merging_Prev:
  assumes "mi_at cmp proper iter_at m ys k" "k < length ys"
  shows "\<exists>m'. mi_Prev cmp I m = Some m' \<and> mi_at cmp proper iter_at m' ys (back_one (length ys) k)"
proof -
  obtain xss ps c where h: "merge_of cmp proper xss ys" "children_at iter_at (mi_children m) xss ps" "c < length xss"
    "mi_current m = Some c" "ys ! k \<in> set (xss ! c)" "ps c = passed ys (xss ! c) k" "mi_key m = fst (ys ! k)"
    "mi_value I m = snd (ys ! k)" "\<And>j. j < length xss \<Longrightarrow> j \<noteq> c \<Longrightarrow> ys ! k \<notin> set (xss ! j)"
    "\<And>j. j < length xss \<Longrightarrow> j \<noteq> c \<Longrightarrow> ps j = other_pos (mi_direction m) ys (xss ! j) k"
    using mi_atE [OF assms] by blast
  define qs where "qs = (\<lambda>j. back_one (length (xss ! j)) (passed ys (xss ! j) k))"
  obtain ws where ws: "(if mi_direction m \<noteq> kReverse
      then each_child (\<lambda>i w. if i \<noteq> c then move_before I (mi_key m) w else Some w) 0 (mi_children m)
      else Some (mi_children m)) = Some ws" "children_at iter_at ws xss (qs(c := passed ys (xss ! c) k))"
  proof (cases "mi_direction m")
    case kReverse
    have "children_at iter_at (mi_children m) xss (qs(c := passed ys (xss ! c) k))"
      using h(2,6,10) kReverse by (fastforce simp: children_at_def other_pos_def qs_def)
    then show ?thesis using that kReverse by simp
  next
    case kForward
    have "\<exists>ws'. each_child (\<lambda>i w. if i \<noteq> c then move_before I (mi_key m) w else Some w) 0 (mi_children m) = Some ws' \<and>
        children_at iter_at ws' xss (qs(c := passed ys (xss ! c) k))"
      by (rule children_each [OF h(2)]) (use child_move_before [OF h(1) assms(2)] h(6,7) in \<open>auto simp: qs_def\<close>)
    then show ?thesis using that kForward by auto
  qed
  note p = passed_owner(1) [OF merge_child(1) [OF h(1,3)] assms(2) h(5)]
  have "wrap_at iter_at (ws ! c) (xss ! c) (passed ys (xss ! c) k)" using ws(2) h(3) by (auto simp: children_at_def)
  then obtain w where w: "iw_Prev I (ws ! c) = Some w" "wrap_at iter_at w (xss ! c) (qs c)"
    using wrap_ops(4) [OF _ p] by (auto simp: qs_def back_one_def)
  have "children_at iter_at (ws[c := w]) xss qs" using children_update [OF ws(2) h(3) w(2)] by simp
  then show ?thesis
    using largest_at [OF h(1) less_imp_le [OF assms(2)], of "ws[c := w]"] h(4) ws(1) w(1)
    by (auto simp: mi_Prev_def FindLargest_def qs_def)
qed

lemma merging_status:
  assumes "mi_at cmp proper iter_at m ys k"
  shows "mi_status I m = Status_OK"
proof -
  have ok: "children_status I Status_OK ws = Status_OK" if "\<And>w. w \<in> set ws \<Longrightarrow> iw_status I w = Status_OK" for ws
    using that by (induction ws) (auto simp: Let_def)
  obtain xss ps where "children_at iter_at (mi_children m) xss ps" using mi_at_children [OF assms] by blast
  then show ?thesis using wrap_status unfolding mi_status_def by (intro ok) (auto simp: children_at_def in_set_conv_nth)
qed

end

sublocale merging \<subseteq> many: iterator "merging_iterator cmp I" "mi_at cmp proper iter_at" "\<lambda>k t. cmp k t < 0" proper
proof (unfold_locales, goal_cases)
  case (2 m ys k)
  then show ?case by (cases "k = length ys") (auto simp: merging_iterator_def mi_Valid_def mi_at_def)
next
  case (3 m ys k)
  then show ?case by (auto simp: merging_iterator_def elim: mi_atE)
next
  case (4 m ys k)
  then show ?case by (auto simp: merging_iterator_def elim: mi_atE)
next
  case (1 m ys k)
  then show ?case by (simp add: mi_at_def)
qed (simp_all add: merging_iterator_def merging_status merging_SeekToFirst merging_SeekToLast [simplified] merging_Next
    merging_Prev [unfolded back_one_def, simplified] merging_Seek)

section \<open>The result of the constructing function\<close>

fun merged_at ::
  "(byte list \<Rightarrow> byte list \<Rightarrow> int) \<Rightarrow> (byte list \<Rightarrow> bool) \<Rightarrow> ('i \<Rightarrow> entry_kv list \<Rightarrow> nat \<Rightarrow> bool) \<Rightarrow>
    'i Merged \<Rightarrow> entry_kv list \<Rightarrow> nat \<Rightarrow> bool" where
  "merged_at cmp proper iter_at (MergedEmpty st) ys k \<longleftrightarrow> st = Status_OK \<and> ys = [] \<and> k = 0"
| "merged_at cmp proper iter_at (MergedSingle it) ys k \<longleftrightarrow> iter_at it ys k"
| "merged_at cmp proper iter_at (MergedMany m) ys k \<longleftrightarrow> mi_at cmp proper iter_at m ys k"

sublocale merging \<subseteq> merged: iterator "merged_iterator cmp I" "merged_at cmp proper iter_at" "\<lambda>k t. cmp k t < 0" proper
proof (unfold_locales, goal_cases)
  case (1 r ys k)
  then show ?case by (cases r) (auto dest: at_bound many.at_bound)
next
  case (2 r ys k)
  then show ?case by (cases r) (auto simp: merged_iterator_def at_valid dest: many.at_valid simp: merging_iterator_def)
next
  case (3 r ys k)
  then show ?case by (cases r) (auto simp: merged_iterator_def at_key dest: many.at_key simp: merging_iterator_def)
next
  case (4 r ys k)
  then show ?case by (cases r) (auto simp: merged_iterator_def at_value dest: many.at_value simp: merging_iterator_def)
next
  case (5 r ys k)
  then show ?case by (cases r) (auto simp: merged_iterator_def at_status merging_status)
next
  case (6 r ys k)
  then show ?case
  proof (cases r)
    case (MergedSingle it)
    then show ?thesis using 6 at_first [of it ys k] by (auto simp: merged_iterator_def)
  next
    case (MergedMany m)
    then show ?thesis using 6 merging_SeekToFirst [of m ys k] by (auto simp: merged_iterator_def)
  qed (use 6 in \<open>simp add: merged_iterator_def seek_pos_def\<close>)
next
  case (7 r ys k)
  then show ?case
  proof (cases r)
    case (MergedSingle it)
    then show ?thesis using 7 at_last [of it ys k] by (auto simp: merged_iterator_def)
  next
    case (MergedMany m)
    then show ?thesis using 7 merging_SeekToLast [of m ys k] by (auto simp: merged_iterator_def)
  qed (use 7 in \<open>simp add: merged_iterator_def seek_pos_def\<close>)
next
  case (8 r ys k)
  then show ?case
  proof (cases r)
    case (MergedSingle it)
    then show ?thesis using 8 at_next [of it ys k] by (auto simp: merged_iterator_def)
  next
    case (MergedMany m)
    then show ?thesis using 8 merging_Next [of m ys k] by (auto simp: merged_iterator_def)
  qed (use 8 in \<open>simp add: merged_iterator_def\<close>)
next
  case (9 r ys k)
  then show ?case
  proof (cases r)
    case (MergedSingle it)
    then show ?thesis using 9 at_prev [of it ys k] by (auto simp: merged_iterator_def)
  next
    case (MergedMany m)
    then show ?thesis using 9 merging_Prev [of m ys k] by (auto simp: merged_iterator_def back_one_def)
  qed (use 9 in \<open>simp add: merged_iterator_def\<close>)
next
  case (10 r ys k t)
  then show ?case
  proof (cases r)
    case (MergedSingle it)
    then show ?thesis using 10 at_seek [of it ys k t] by (auto simp: merged_iterator_def)
  next
    case (MergedMany m)
    then show ?thesis using 10 merging_Seek [of m ys k t] by (auto simp: merged_iterator_def)
  qed (use 10 in \<open>simp add: merged_iterator_def seek_pos_def\<close>)
qed

context merging begin

lemma merge_of_single: "merge_of cmp proper [xs] ys \<Longrightarrow> ys = xs"
  using merge_child(1) [of "[xs]" ys 0] merge_child(2) [of "[xs]" ys 0]
  by (simp add: merge_of_def) (metis filter_True mset_eq_setD)

lemma NewMergingIterator_at:
  assumes "merge_of cmp proper xss ys" "length its = length xss"
    and "\<And>j. j < length xss \<Longrightarrow> \<exists>i. iter_at (its ! j) (xss ! j) i"
  shows "\<exists>k. merged_at cmp proper iter_at (NewMergingIterator I its) ys k"
proof -
  consider "length its = 0" | "length its = 1" | "length its \<noteq> 0" "length its \<noteq> 1" by blast
  then show ?thesis
  proof cases
    case 1
    then show ?thesis using assms(1,2) by (simp add: NewMergingIterator_def merge_of_def)
  next
    case 2
    then obtain xs where "xss = [xs]" using assms(2) by (metis length_0_conv length_Suc_conv One_nat_def)
    then show ?thesis using assms 2 merge_of_single by (auto simp: NewMergingIterator_def)
  next
    case 3
    obtain ps where ps: "\<And>j. j < length xss \<Longrightarrow> iter_at (its ! j) (xss ! j) (ps j)" using assms(3) by metis
    have "children_at iter_at (mi_children (make_MergingIterator I its)) xss ps"
      using assms(2) wrap_make [OF ps] by (simp add: children_at_def make_MergingIterator_def make_IteratorWrapper_def)
    then have "mi_at cmp proper iter_at (make_MergingIterator I its) ys (length ys)"
      using assms(1) by (auto simp: mi_at_def make_MergingIterator_def)
    then show ?thesis using 3 by (auto simp: NewMergingIterator_def)
  qed
qed

end

end
