(* ===== verification/Ldb_Db_Iter.thy ===== *)
theory Ldb_Db_Iter
  imports Ldb_Iterator Ldb_Dbformat Ldb_Random
begin

text \<open>
  The iterator a client of the database sees (\<^verbatim>\<open>db/db_iter.cc\<close>): it reads the internal entries, shows for
  every user key the latest version a snapshot includes, and hides deleted keys, in both directions.
  The calls of \<^verbatim>\<open>DBImpl::RecordReadSample\<close> are kept as a list of the sampled keys.
\<close>

section \<open>The iterator\<close>

datatype IterDirection = DbForward | DbReverse

record 'i DBIter =
  di_iter :: 'i
  di_sequence :: SequenceNumber
  di_status :: Status
  di_saved_key :: "byte list"
  di_saved_value :: "byte list"
  di_direction :: IterDirection
  di_valid :: bool
  di_rnd :: Random
  di_bytes_counter :: int
  di_samples :: "byte list list"

definition kReadBytesPeriod :: "32 word" where "kReadBytesPeriod = 1048576"

definition RandomPeriod :: "Random \<Rightarrow> int \<times> Random" where
  "RandomPeriod rnd = (let (x, rnd') = random_Uniform (2 * kReadBytesPeriod) rnd in (uint x, rnd'))"

definition make_DBIter :: "'i \<Rightarrow> SequenceNumber \<Rightarrow> 32 word \<Rightarrow> 'i DBIter" where
  "make_DBIter iter s seed =
     (let (period, rnd) = RandomPeriod (make_Random seed)
      in \<lparr>di_iter = iter, di_sequence = s, di_status = Status_OK, di_saved_key = [], di_saved_value = [],
          di_direction = DbForward, di_valid = False, di_rnd = rnd, di_bytes_counter = period, di_samples = []\<rparr>)"

definition di_key :: "'i Iterator \<Rightarrow> 'i DBIter \<Rightarrow> byte list" where
  "di_key I d = (if di_direction d = DbForward then ExtractUserKey (it_key I (di_iter d)) else di_saved_key d)"

definition di_value :: "'i Iterator \<Rightarrow> 'i DBIter \<Rightarrow> byte list" where
  "di_value I d = (if di_direction d = DbForward then it_value I (di_iter d) else di_saved_value d)"

definition di_Status :: "'i Iterator \<Rightarrow> 'i DBIter \<Rightarrow> Status" where
  "di_Status I d = (if Status_ok (di_status d) then it_status I (di_iter d) else di_status d)"

definition ClearSavedValue :: "'i DBIter \<Rightarrow> 'i DBIter" where
  "ClearSavedValue d = d\<lparr>di_saved_value := []\<rparr>"

text \<open>Whenever the counter has run out, the key is sampled and the counter raised by a random period. It is a signed number in
  the code, here unbounded: it stays below the period drawn last.\<close>

partial_function (option) sample_reads :: "byte list \<Rightarrow> 'i DBIter \<Rightarrow> 'i DBIter option" where
  "sample_reads k d =
     (if di_bytes_counter d < 0
      then let (period, rnd) = RandomPeriod (di_rnd d)
           in sample_reads k (d\<lparr>di_bytes_counter := di_bytes_counter d + period, di_rnd := rnd,
                di_samples := di_samples d @ [k]\<rparr>)
      else Some d)"

definition ParseKey :: "'i Iterator \<Rightarrow> 'i DBIter \<Rightarrow> (ParsedInternalKey option \<times> 'i DBIter) option" where
  "ParseKey I d =
     (let k = it_key I (di_iter d);
          n = length k + length (it_value I (di_iter d))
      in do {
        d \<leftarrow> sample_reads k (d\<lparr>di_bytes_counter := di_bytes_counter d - int n\<rparr>);
        case ParseInternalKey k of
          None \<Rightarrow> Some (None, d\<lparr>di_status := Status_Corruption (ascii ''corrupted internal key in DBIter'') []\<rparr>)
        | Some ikey \<Rightarrow> Some (Some ikey, d) })"

definition move_iter :: "('i \<Rightarrow> 'i option) \<Rightarrow> 'i DBIter \<Rightarrow> 'i DBIter option" where
  "move_iter f d = do { it \<leftarrow> f (di_iter d); Some (d\<lparr>di_iter := it\<rparr>) }"

text \<open>
  What the loop does with one entry; \<^verbatim>\<open>skip\<close> always points to \<^verbatim>\<open>saved_key_\<close>. The results are
  whether the loop returns here, \<^verbatim>\<open>skipping\<close>, and the state.
\<close>

definition next_entry ::
  "(byte list \<Rightarrow> byte list \<Rightarrow> int) \<Rightarrow> ParsedInternalKey option \<Rightarrow> bool \<Rightarrow> 'i DBIter \<Rightarrow> bool \<times> bool \<times> 'i DBIter" where
  "next_entry ucmp parsed skipping d =
     (case parsed of
        Some ikey \<Rightarrow>
          if pk_sequence ikey \<le> di_sequence d
          then if pk_type ikey = kTypeDeletion then (False, True, d\<lparr>di_saved_key := pk_user_key ikey\<rparr>)
               else if pk_type ikey = kTypeValue
               then if skipping \<and> ucmp (pk_user_key ikey) (di_saved_key d) \<le> 0 then (False, skipping, d)
                    else (True, skipping, d\<lparr>di_valid := True, di_saved_key := []\<rparr>)
               else (False, skipping, d)
          else (False, skipping, d)
      | None \<Rightarrow> (False, skipping, d))"

partial_function (option) find_next_user_entry ::
  "(byte list \<Rightarrow> byte list \<Rightarrow> int) \<Rightarrow> 'i Iterator \<Rightarrow> bool \<Rightarrow> 'i DBIter \<Rightarrow> 'i DBIter option" where
  "find_next_user_entry ucmp I skipping d = do {
     (parsed, d) \<leftarrow> ParseKey I d;
     let (stop, skipping, d) = next_entry ucmp parsed skipping d;
     if stop then Some d
     else do {
       d \<leftarrow> move_iter (it_Next I) d;
       if it_Valid I (di_iter d) then find_next_user_entry ucmp I skipping d
       else Some (d\<lparr>di_saved_key := [], di_valid := False\<rparr>) } }"

definition FindNextUserEntry ::
  "(byte list \<Rightarrow> byte list \<Rightarrow> int) \<Rightarrow> 'i Iterator \<Rightarrow> bool \<Rightarrow> 'i DBIter \<Rightarrow> 'i DBIter option" where
  "FindNextUserEntry ucmp I skipping d =
     (if it_Valid I (di_iter d) \<and> di_direction d = DbForward then find_next_user_entry ucmp I skipping d else None)"

definition prev_entry ::
  "(byte list \<Rightarrow> byte list \<Rightarrow> int) \<Rightarrow> 'i Iterator \<Rightarrow> ParsedInternalKey option \<Rightarrow> ValueType \<Rightarrow> 'i DBIter \<Rightarrow>
    bool \<times> ValueType \<times> 'i DBIter" where
  "prev_entry ucmp I parsed value_type d =
     (case parsed of
        Some ikey \<Rightarrow>
          if pk_sequence ikey \<le> di_sequence d
          then if value_type \<noteq> kTypeDeletion \<and> ucmp (pk_user_key ikey) (di_saved_key d) < 0 then (True, value_type, d)
               else if pk_type ikey = kTypeDeletion
               then (False, pk_type ikey, ClearSavedValue (d\<lparr>di_saved_key := []\<rparr>))
               else (False, pk_type ikey,
                 d\<lparr>di_saved_key := ExtractUserKey (it_key I (di_iter d)), di_saved_value := it_value I (di_iter d)\<rparr>)
          else (False, value_type, d)
      | None \<Rightarrow> (False, value_type, d))"

partial_function (option) find_prev_user_entry ::
  "(byte list \<Rightarrow> byte list \<Rightarrow> int) \<Rightarrow> 'i Iterator \<Rightarrow> ValueType \<Rightarrow> 'i DBIter \<Rightarrow> (ValueType \<times> 'i DBIter) option" where
  "find_prev_user_entry ucmp I value_type d = do {
     (parsed, d) \<leftarrow> ParseKey I d;
     let (stop, value_type, d) = prev_entry ucmp I parsed value_type d;
     if stop then Some (value_type, d)
     else do {
       d \<leftarrow> move_iter (it_Prev I) d;
       if it_Valid I (di_iter d) then find_prev_user_entry ucmp I value_type d else Some (value_type, d) } }"

definition FindPrevUserEntry ::
  "(byte list \<Rightarrow> byte list \<Rightarrow> int) \<Rightarrow> 'i Iterator \<Rightarrow> 'i DBIter \<Rightarrow> 'i DBIter option" where
  "FindPrevUserEntry ucmp I d =
     (if di_direction d = DbReverse
      then do {
        (value_type, d) \<leftarrow>
          (if it_Valid I (di_iter d) then find_prev_user_entry ucmp I kTypeDeletion d else Some (kTypeDeletion, d));
        if value_type = kTypeDeletion
        then Some ((ClearSavedValue (d\<lparr>di_valid := False, di_saved_key := []\<rparr>))\<lparr>di_direction := DbForward\<rparr>)
        else Some (d\<lparr>di_valid := True\<rparr>) }
      else None)"

definition di_Next ::
  "(byte list \<Rightarrow> byte list \<Rightarrow> int) \<Rightarrow> 'i Iterator \<Rightarrow> 'i DBIter \<Rightarrow> 'i DBIter option" where
  "di_Next ucmp I d =
     (if \<not> di_valid d then None
      else if di_direction d = DbReverse
      then do {
        let d = d\<lparr>di_direction := DbForward\<rparr>;
        d \<leftarrow> move_iter (if \<not> it_Valid I (di_iter d) then it_SeekToFirst I else it_Next I) d;
        if \<not> it_Valid I (di_iter d) then Some (d\<lparr>di_valid := False, di_saved_key := []\<rparr>)
        else FindNextUserEntry ucmp I True d }
      else FindNextUserEntry ucmp I True (d\<lparr>di_saved_key := ExtractUserKey (it_key I (di_iter d))\<rparr>))"

text \<open>Stepping back over the entries of the current key; \<open>False\<close> when there are no entries before it.\<close>

partial_function (option) scan_back ::
  "(byte list \<Rightarrow> byte list \<Rightarrow> int) \<Rightarrow> 'i Iterator \<Rightarrow> 'i DBIter \<Rightarrow> (bool \<times> 'i DBIter) option" where
  "scan_back ucmp I d = do {
     d \<leftarrow> move_iter (it_Prev I) d;
     if \<not> it_Valid I (di_iter d) then Some (False, ClearSavedValue (d\<lparr>di_valid := False, di_saved_key := []\<rparr>))
     else if ucmp (ExtractUserKey (it_key I (di_iter d))) (di_saved_key d) < 0 then Some (True, d)
     else scan_back ucmp I d }"

definition di_Prev ::
  "(byte list \<Rightarrow> byte list \<Rightarrow> int) \<Rightarrow> 'i Iterator \<Rightarrow> 'i DBIter \<Rightarrow> 'i DBIter option" where
  "di_Prev ucmp I d =
     (if \<not> di_valid d then None
      else if di_direction d = DbForward
      then if \<not> it_Valid I (di_iter d) then None
           else do {
             (more, d) \<leftarrow> scan_back ucmp I (d\<lparr>di_saved_key := ExtractUserKey (it_key I (di_iter d))\<rparr>);
             if more then FindPrevUserEntry ucmp I (d\<lparr>di_direction := DbReverse\<rparr>) else Some d }
      else FindPrevUserEntry ucmp I d)"

definition di_Seek ::
  "(byte list \<Rightarrow> byte list \<Rightarrow> int) \<Rightarrow> 'i Iterator \<Rightarrow> byte list \<Rightarrow> 'i DBIter \<Rightarrow> 'i DBIter option" where
  "di_Seek ucmp I target d = do {
     let d = ClearSavedValue (d\<lparr>di_direction := DbForward\<rparr>);
     let d = d\<lparr>di_saved_key := AppendInternalKey []
           \<lparr>pk_user_key = target, pk_sequence = di_sequence d, pk_type = kValueTypeForSeek\<rparr>\<rparr>;
     d \<leftarrow> move_iter (it_Seek I (di_saved_key d)) d;
     if it_Valid I (di_iter d) then FindNextUserEntry ucmp I False d else Some (d\<lparr>di_valid := False\<rparr>) }"

definition di_SeekToFirst ::
  "(byte list \<Rightarrow> byte list \<Rightarrow> int) \<Rightarrow> 'i Iterator \<Rightarrow> 'i DBIter \<Rightarrow> 'i DBIter option" where
  "di_SeekToFirst ucmp I d = do {
     d \<leftarrow> move_iter (it_SeekToFirst I) (ClearSavedValue (d\<lparr>di_direction := DbForward\<rparr>));
     if it_Valid I (di_iter d) then FindNextUserEntry ucmp I False d else Some (d\<lparr>di_valid := False\<rparr>) }"

definition di_SeekToLast ::
  "(byte list \<Rightarrow> byte list \<Rightarrow> int) \<Rightarrow> 'i Iterator \<Rightarrow> 'i DBIter \<Rightarrow> 'i DBIter option" where
  "di_SeekToLast ucmp I d = do {
     d \<leftarrow> move_iter (it_SeekToLast I) (ClearSavedValue (d\<lparr>di_direction := DbReverse\<rparr>));
     FindPrevUserEntry ucmp I d }"

definition db_iterator :: "(byte list \<Rightarrow> byte list \<Rightarrow> int) \<Rightarrow> 'i Iterator \<Rightarrow> 'i DBIter Iterator" where
  "db_iterator ucmp I =
     \<lparr>it_Valid = di_valid, it_key = di_key I, it_value = di_value I, it_status = di_Status I,
      it_SeekToFirst = di_SeekToFirst ucmp I, it_SeekToLast = di_SeekToLast ucmp I,
      it_Next = di_Next ucmp I, it_Prev = di_Prev ucmp I, it_Seek = di_Seek ucmp I\<rparr>"

section \<open>Sampling ends\<close>

text \<open>
  A period may be 0, but never twice in a row, so the loop ends for every state of the generator.
\<close>

lemma Next_good:
  assumes "good_seed s"
  shows "unat (fst (random_Next s)) = unat s * 16807 mod 2147483647" "snd (random_Next s) = fst (random_Next s)"
    "good_seed (snd (random_Next s))"
  using random_Next_step [of s] assms by (auto simp: good_seed_def random_Next_def Let_def)

lemma RandomPeriod_good:
  assumes "good_seed s"
  shows "good_seed (snd (RandomPeriod s))" "0 \<le> fst (RandomPeriod s)"
    "fst (RandomPeriod s) = int (unat (snd (RandomPeriod s)) mod 2097152)"
    "unat (snd (RandomPeriod s)) = unat s * 16807 mod 2147483647"
proof -
  have p: "RandomPeriod s = (uint (fst (random_Next s) mod 2097152), snd (random_Next s))"
    by (simp add: RandomPeriod_def random_Uniform_def kReadBytesPeriod_def split_beta Let_def)
  have "uint (fst (random_Next s) mod 2097152) = int (unat (fst (random_Next s) mod 2097152))"
    by (rule uint_nat)
  also have "unat (fst (random_Next s) mod 2097152) = unat (fst (random_Next s)) mod 2097152"
    by (simp add: unat_mod)
  finally show "fst (RandomPeriod s) = int (unat (snd (RandomPeriod s)) mod 2097152)"
    unfolding p using Next_good(2) [OF assms] by simp
  then show "0 \<le> fst (RandomPeriod s)" by simp
  show "good_seed (snd (RandomPeriod s))" "unat (snd (RandomPeriod s)) = unat s * 16807 mod 2147483647"
    unfolding p using Next_good [OF assms] by simp_all
qed

lemma zero_period_once:
  fixes m :: nat
  assumes "0 < m" "m < 2147483647" "m mod 2097152 = 0"
  shows "(m * 16807 mod 2147483647) mod 2097152 \<noteq> 0"
proof -
  obtain k where k: "m = 2097152 * k" using assms(3) by (auto elim: dvdE)
  have kb: "0 < k" "k < 1024" using assms k by auto
  define q r where "q = 16807 * k div 1024" and "r = 16807 * k mod 1024"
  have qr: "16807 * k = 1024 * q + r" "r < 1024" by (simp_all add: q_def r_def)
  have q: "0 < q" "q < 16807" using kb by (simp_all add: q_def div_greater_zero_iff less_mult_imp_div_less)
  have "m * 16807 = 2097152 * (1024 * q + r)" using k qr(1) by simp
  also have "\<dots> = q * 2147483647 + (2097152 * r + q)" by simp
  finally have "m * 16807 mod 2147483647 = (2097152 * r + q) mod 2147483647" by (metis mod_mult_self3)
  also have "\<dots> = 2097152 * r + q" using qr(2) q(2) by simp
  finally show ?thesis using q by simp
qed

lemma period_progress:
  assumes "good_seed s" "fst (RandomPeriod s) = 0"
  shows "0 < fst (RandomPeriod (snd (RandomPeriod s)))"
proof -
  note g = RandomPeriod_good [OF assms(1)]
  have "unat (snd (RandomPeriod s)) mod 2097152 = 0" using g(3) assms(2) by simp
  then show ?thesis
    using g(1) RandomPeriod_good(3,4) [OF g(1)] zero_period_once [of "unat (snd (RandomPeriod s))"]
    by (simp add: good_seed_def)
qed

text \<open>What sampling leaves alone: everything but the generator, the counter and the samples.\<close>

definition sampled :: "'i DBIter \<Rightarrow> 'i DBIter \<Rightarrow> bool" where
  "sampled d d' \<longleftrightarrow> (\<exists>rnd c ks. good_seed rnd \<and> 0 \<le> c \<and> d' = d\<lparr>di_rnd := rnd, di_bytes_counter := c, di_samples := ks\<rparr>)"

lemma sampled_update: "sampled (d\<lparr>di_rnd := r, di_bytes_counter := c, di_samples := ks\<rparr>) d' \<Longrightarrow> sampled d d'"
  by (auto simp: sampled_def)

lemma sample_reads_ends: "good_seed (di_rnd d) \<Longrightarrow> \<exists>d'. sample_reads k d = Some d' \<and> sampled d d'"
proof (induction "2 * nat (- di_bytes_counter d) + (if fst (RandomPeriod (di_rnd d)) = 0 then 1 else 0)" arbitrary: d
    rule: less_induct)
  case less
  show ?case
  proof (cases "di_bytes_counter d < 0")
    case True
    define e where "e = d\<lparr>di_bytes_counter := di_bytes_counter d + fst (RandomPeriod (di_rnd d)),
      di_rnd := snd (RandomPeriod (di_rnd d)), di_samples := di_samples d @ [k]\<rparr>"
    have step: "sample_reads k d = sample_reads k e"
      using True by (subst sample_reads.simps) (simp add: e_def split_beta Let_def)
    have "2 * nat (- di_bytes_counter e) + (if fst (RandomPeriod (di_rnd e)) = 0 then 1 else 0) <
        2 * nat (- di_bytes_counter d) + (if fst (RandomPeriod (di_rnd d)) = 0 then 1 else 0)"
      using True period_progress [OF less.prems] RandomPeriod_good(2) [OF less.prems] by (auto simp: e_def)
    moreover have "good_seed (di_rnd e)" using RandomPeriod_good(1) [OF less.prems] by (simp add: e_def)
    ultimately obtain d' where "sample_reads k e = Some d'" "sampled e d'" using less.hyps by blast
    then show ?thesis using step by (auto simp: e_def sampled_def)
  next
    case False
    then show ?thesis
      using less.prems unfolding sampled_def
      by (subst sample_reads.simps, intro exI [of _ d] conjI exI [of _ "di_rnd d"] exI [of _ "di_bytes_counter d"] exI [of _ "di_samples d"])
        simp_all
  qed
qed

section \<open>What a snapshot shows\<close>

text \<open>
  An internal entry is seen by a snapshot up to its sequence number. An entry is visible when it is the
  first seen one of its user key, that is the latest version, and a value.
\<close>

definition seen :: "SequenceNumber \<Rightarrow> entry_kv \<Rightarrow> bool" where
  "seen s e \<longleftrightarrow> drop_bit 8 (key_number (fst e)) \<le> s"

abbreviation user_part :: "entry_kv \<Rightarrow> byte list" where
  "user_part e \<equiv> ExtractUserKey (fst e)"

definition visible :: "(byte list \<Rightarrow> byte list \<Rightarrow> int) \<Rightarrow> SequenceNumber \<Rightarrow> entry_kv list \<Rightarrow> nat \<Rightarrow> bool" where
  "visible ucmp s ys i \<longleftrightarrow> i < length ys \<and> seen s (ys ! i) \<and> ExtractValueType (fst (ys ! i)) = kTypeValue \<and>
     (\<forall>j<i. seen s (ys ! j) \<longrightarrow> ucmp (user_part (ys ! j)) (user_part (ys ! i)) \<noteq> 0)"

definition visible_positions :: "(byte list \<Rightarrow> byte list \<Rightarrow> int) \<Rightarrow> SequenceNumber \<Rightarrow> entry_kv list \<Rightarrow> nat list" where
  "visible_positions ucmp s ys = filter (visible ucmp s ys) [0..<length ys]"

definition user_view :: "(byte list \<Rightarrow> byte list \<Rightarrow> int) \<Rightarrow> SequenceNumber \<Rightarrow> entry_kv list \<Rightarrow> entry_kv list" where
  "user_view ucmp s ys = map (\<lambda>i. (user_part (ys ! i), snd (ys ! i))) (visible_positions ucmp s ys)"

text \<open>The internal entries of a database: in strict order, and with keys that parse.\<close>

definition internal_entries :: "(byte list \<Rightarrow> byte list \<Rightarrow> int) \<Rightarrow> (byte list \<Rightarrow> bool) \<Rightarrow> entry_kv list \<Rightarrow> bool" where
  "internal_entries ucmp valid ys \<longleftrightarrow> sorted_wrt (\<lambda>x y. InternalKeyCompare ucmp (fst x) (fst y) < 0) ys \<and>
     (\<forall>e\<in>set ys. internal_key valid (fst e) \<and> ParseInternalKey (fst e) \<noteq> None)"

lemma ParseInternalKey_parts:
  assumes "ParseInternalKey k \<noteq> None"
  shows "ParseInternalKey k = Some \<lparr>pk_user_key = ExtractUserKey k, pk_sequence = drop_bit 8 (key_number k), pk_type = ExtractValueType k\<rparr>"
    "ExtractValueType k = kTypeDeletion \<or> ExtractValueType k = kTypeValue"
proof -
  show "ParseInternalKey k = Some \<lparr>pk_user_key = ExtractUserKey k, pk_sequence = drop_bit 8 (key_number k), pk_type = ExtractValueType k\<rparr>"
    using assms by (auto simp: ParseInternalKey_def Let_def ExtractUserKey_def key_number_def ExtractValueType_def split: if_splits)
  have "ExtractValueType k \<le> kTypeValue"
    using assms by (auto simp: ParseInternalKey_def Let_def key_number_def ExtractValueType_def split: if_splits)
  then show "ExtractValueType k = kTypeDeletion \<or> ExtractValueType k = kTypeValue"
    by (simp add: kTypeValue_def kTypeDeletion_def word_le_nat_alt word_unat_eq_iff le_Suc_eq)
qed

lemma filter_upt_nth:
  assumes "P l" "l < n"
  shows "length (filter P [0..<l]) < length (filter P [0..<n])" "filter P [0..<n] ! length (filter P [0..<l]) = l"
proof -
  have "[0..<n] = [0..<l] @ l # [Suc l..<n]" 
    using assms(2) upt_add_eq_append [of 0 l "n - l"] by (simp add: upt_conv_Cons)
  then have "filter P [0..<n] = filter P [0..<l] @ l # filter P [Suc l..<n]" using assms(1) by simp
  then show "length (filter P [0..<l]) < length (filter P [0..<n])" "filter P [0..<n] ! length (filter P [0..<l]) = l"
    by (simp_all add: nth_append)
qed

lemma filter_upt_skip:
  assumes "i \<le> j" "\<And>l. i \<le> l \<Longrightarrow> l < j \<Longrightarrow> \<not> P l"
  shows "filter P [0..<j] = filter P [0..<i]"
proof -
  have "filter P [i..<j] = []" using assms(2) by (auto simp: filter_empty_conv)
  moreover have "[0..<j] = [0..<i] @ [i..<j]" using assms(1) upt_add_eq_append [of 0 i "j - i"] by simp
  ultimately show ?thesis by simp
qed

text \<open>The iterator stands before the visible entry \<open>m\<close>, with only unseen ones between.\<close>

definition rev_pos :: "SequenceNumber \<Rightarrow> entry_kv list \<Rightarrow> nat \<Rightarrow> nat \<Rightarrow> bool" where
  "rev_pos s ys m p \<longleftrightarrow>
     p < m \<and> (\<forall>l. p < l \<and> l < m \<longrightarrow> \<not> seen s (ys ! l)) \<or> p = length ys \<and> (\<forall>l<m. \<not> seen s (ys ! l))"

text \<open>The database iterator on entry \<open>g\<close> of the view; when it moves backwards it has read on to the entries before.\<close>

definition db_at ::
  "(byte list \<Rightarrow> byte list \<Rightarrow> int) \<Rightarrow> (byte list \<Rightarrow> bool) \<Rightarrow> ('i \<Rightarrow> entry_kv list \<Rightarrow> nat \<Rightarrow> bool) \<Rightarrow>
    'i DBIter \<Rightarrow> entry_kv list \<Rightarrow> nat \<Rightarrow> bool" where
  "db_at ucmp valid iter_at d xs g \<longleftrightarrow> g \<le> length xs \<and>
     (\<exists>ys p. internal_entries ucmp valid ys \<and> xs = user_view ucmp (di_sequence d) ys \<and> iter_at (di_iter d) ys p \<and>
       good_seed (di_rnd d) \<and> di_status d = Status_OK \<and> di_sequence d \<le> kMaxSequenceNumber \<and>
       (di_valid d \<longleftrightarrow> g < length xs) \<and>
       (g < length xs \<longrightarrow> (let m = visible_positions ucmp (di_sequence d) ys ! g in
          case di_direction d of
            DbForward \<Rightarrow> p = m
          | DbReverse \<Rightarrow> di_saved_key d = user_part (ys ! m) \<and> di_saved_value d = snd (ys ! m) \<and>
              rev_pos (di_sequence d) ys m p)))"

section \<open>One step\<close>

locale db_iter = iterator I iter_at "\<lambda>k t. InternalKeyCompare ucmp k t < 0" "internal_key valid" + key_order valid ucmp
  for I :: "'i Iterator" and iter_at :: "'i \<Rightarrow> entry_kv list \<Rightarrow> nat \<Rightarrow> bool"
    and ucmp :: "byte list \<Rightarrow> byte list \<Rightarrow> int" and valid :: "byte list \<Rightarrow> bool"
begin

lemma user_parts:
  assumes "internal_entries ucmp valid ys"
  shows "i < length ys \<Longrightarrow> valid (user_part (ys ! i))"
    "i \<le> j \<Longrightarrow> j < length ys \<Longrightarrow> ucmp (user_part (ys ! i)) (user_part (ys ! j)) \<le> 0"
proof -
  show v: "valid (user_part (ys ! i))" if "i < length ys" for i
    using assms nth_mem [OF that] by (auto simp: internal_entries_def internal_key_def)
  assume ij: "i \<le> j" "j < length ys"
  show "ucmp (user_part (ys ! i)) (user_part (ys ! j)) \<le> 0"
  proof (cases "i = j")
    case True
    then show ?thesis using cmp_refl [OF v] ij by simp
  next
    case False
    then have "InternalKeyCompare ucmp (fst (ys ! i)) (fst (ys ! j)) < 0"
      using assms ij by (auto simp: internal_entries_def intro: sorted_wrt_nth_less)
    then show ?thesis by (auto simp: InternalKeyCompare_def Let_def split: if_splits)
  qed
qed

text \<open>What a step leaves as it is.\<close>

definition kept :: "'i DBIter \<Rightarrow> 'i DBIter \<Rightarrow> bool" where
  "kept d d' \<longleftrightarrow> di_sequence d' = di_sequence d \<and> di_direction d' = di_direction d \<and> di_status d' = di_status d \<and>
     good_seed (di_rnd d')"

lemma keptD: "kept d d' \<Longrightarrow> di_sequence d' = di_sequence d" "kept d d' \<Longrightarrow> di_direction d' = di_direction d"
  "kept d d' \<Longrightarrow> di_status d' = di_status d" "kept d d' \<Longrightarrow> good_seed (di_rnd d')"
  by (simp_all add: kept_def)

lemma ParseKey_at:
  assumes "internal_entries ucmp valid ys" "iter_at (di_iter d) ys i" "i < length ys" "good_seed (di_rnd d)"
  obtains d' where "ParseKey I d = Some (Some \<lparr>pk_user_key = user_part (ys ! i), pk_sequence = drop_bit 8 (key_number (fst (ys ! i))),
      pk_type = ExtractValueType (fst (ys ! i))\<rparr>, d')"
    "kept d d'" "di_iter d' = di_iter d" "di_saved_key d' = di_saved_key d" "di_saved_value d' = di_saved_value d"
    "di_valid d' = di_valid d"
proof -
  have k: "it_key I (di_iter d) = fst (ys ! i)" by (rule at_key [OF assms(2,3)])
  have "ParseInternalKey (fst (ys ! i)) \<noteq> None"
    using assms(1) nth_mem [OF assms(3)] by (simp add: internal_entries_def)
  note p = ParseInternalKey_parts(1) [OF this]
  define e where "e = d\<lparr>di_bytes_counter := di_bytes_counter d - int (length (fst (ys ! i)) + length (it_value I (di_iter d)))\<rparr>"
  obtain d' where d': "sample_reads (fst (ys ! i)) e = Some d'" "sampled e d'"
    using sample_reads_ends [of e] assms(4) by (auto simp: e_def)
  then show ?thesis
    using that [of d'] by (auto simp: ParseKey_def Let_def k p sampled_def kept_def e_def)
qed

lemma visibleD:
  "visible ucmp s ys i \<Longrightarrow> i < length ys" "visible ucmp s ys i \<Longrightarrow> seen s (ys ! i)"
  "visible ucmp s ys i \<Longrightarrow> ExtractValueType (fst (ys ! i)) = kTypeValue"
  "visible ucmp s ys i \<Longrightarrow> j < i \<Longrightarrow> seen s (ys ! j) \<Longrightarrow> ucmp (user_part (ys ! j)) (user_part (ys ! i)) \<noteq> 0"
  by (simp_all add: visible_def)

section \<open>Forwards\<close>

text \<open>
  The entries the loop may stop at from position \<open>i\<close>: latest versions among the entries from there, of
  a user key above the skipped one.
\<close>

definition wanted :: "SequenceNumber \<Rightarrow> entry_kv list \<Rightarrow> nat \<Rightarrow> byte list option \<Rightarrow> nat \<Rightarrow> bool" where
  "wanted s ys i K l \<longleftrightarrow> i \<le> l \<and> l < length ys \<and> seen s (ys ! l) \<and> ExtractValueType (fst (ys ! l)) = kTypeValue \<and>
     (\<forall>j. i \<le> j \<and> j < l \<and> seen s (ys ! j) \<longrightarrow> ucmp (user_part (ys ! j)) (user_part (ys ! l)) \<noteq> 0) \<and>
     (\<forall>k. K = Some k \<longrightarrow> ucmp k (user_part (ys ! l)) < 0)"

definition first_wanted :: "SequenceNumber \<Rightarrow> entry_kv list \<Rightarrow> nat \<Rightarrow> byte list option \<Rightarrow> nat \<Rightarrow> bool" where
  "first_wanted s ys i K j \<longleftrightarrow> i \<le> j \<and> j \<le> length ys \<and> (\<forall>l. l < j \<longrightarrow> \<not> wanted s ys i K l) \<and>
     (j < length ys \<longrightarrow> wanted s ys i K j)"

text \<open>The skipped key is valid, and no deletion from here on is of a smaller key.\<close>

definition skippable :: "SequenceNumber \<Rightarrow> entry_kv list \<Rightarrow> nat \<Rightarrow> byte list option \<Rightarrow> bool" where
  "skippable s ys i K \<longleftrightarrow> (\<forall>k. K = Some k \<longrightarrow> valid k \<and>
     (\<forall>l. i \<le> l \<and> l < length ys \<and> seen s (ys ! l) \<and> ExtractValueType (fst (ys ! l)) = kTypeDeletion \<longrightarrow>
       ucmp k (user_part (ys ! l)) \<le> 0))"

lemma skippable_Suc: "skippable s ys i K \<Longrightarrow> skippable s ys (Suc i) K"
  by (simp add: skippable_def)

lemma first_wanted_next:
  assumes "\<not> wanted s ys i K i" "i < length ys" "\<And>l. i < l \<Longrightarrow> wanted s ys i K l \<longleftrightarrow> wanted s ys (Suc i) K' l"
    "first_wanted s ys (Suc i) K' j"
  shows "first_wanted s ys i K j"
proof -
  have "\<not> wanted s ys i K l" if "l < j" for l
  proof (cases l i rule: linorder_cases)
    case less
    then show ?thesis by (simp add: wanted_def)
  next
    case equal
    then show ?thesis using assms(1) by simp
  next
    case greater
    then show ?thesis using assms(3) [OF greater] assms(4) that by (simp add: first_wanted_def)
  qed
  moreover have "i < j" using assms(4) by (simp add: first_wanted_def)
  ultimately show ?thesis using assms(3,4) by (simp add: first_wanted_def)
qed

lemma wanted_Suc:
  assumes "i < l"
  shows "wanted s ys i K l \<longleftrightarrow>
    wanted s ys (Suc i) K l \<and> (seen s (ys ! i) \<longrightarrow> ucmp (user_part (ys ! i)) (user_part (ys ! l)) \<noteq> 0)"
proof -
  have "(\<forall>j. i \<le> j \<and> j < l \<and> seen s (ys ! j) \<longrightarrow> ucmp (user_part (ys ! j)) (user_part (ys ! l)) \<noteq> 0) \<longleftrightarrow>
    (\<forall>j. Suc i \<le> j \<and> j < l \<and> seen s (ys ! j) \<longrightarrow> ucmp (user_part (ys ! j)) (user_part (ys ! l)) \<noteq> 0) \<and>
    (seen s (ys ! i) \<longrightarrow> ucmp (user_part (ys ! i)) (user_part (ys ! l)) \<noteq> 0)"
    using assms by (metis Suc_leD Suc_leI le_neq_implies_less order_refl)
  then show ?thesis using assms unfolding wanted_def by (simp add: Suc_le_eq) blast
qed

lemma wanted_skip:
  assumes "internal_entries ucmp valid ys" "i < l" "l < length ys" "valid k" "ucmp (user_part (ys ! i)) k \<le> 0"
  shows "wanted s ys i (Some k) l \<longleftrightarrow> wanted s ys (Suc i) (Some k) l"
proof -
  note v = user_parts(1) [OF assms(1)]
  have il: "i < length ys" using assms(2,3) by simp
  have "ucmp (user_part (ys ! i)) (user_part (ys ! l)) \<noteq> 0" if "ucmp k (user_part (ys ! l)) < 0"
    using cmp_le_less [OF v [OF il] assms(4) v [OF assms(3)] assms(5) that] by simp
  then show ?thesis unfolding wanted_Suc [OF assms(2)] by (auto simp: wanted_def)
qed

lemma wanted_deleted:
  assumes "internal_entries ucmp valid ys" "i < l" "l < length ys" "seen s (ys ! i)"
    "\<forall>k. K = Some k \<longrightarrow> valid k \<and> ucmp k (user_part (ys ! i)) \<le> 0"
  shows "wanted s ys i K l \<longleftrightarrow> wanted s ys (Suc i) (Some (user_part (ys ! i))) l"
proof -
  note v = user_parts(1) [OF assms(1)]
  have il: "i < length ys" using assms(2,3) by simp
  have le: "ucmp (user_part (ys ! i)) (user_part (ys ! l)) \<le> 0" using user_parts(2) [OF assms(1)] assms(2,3) by simp
  have "wanted s ys i K l \<longleftrightarrow> wanted s ys i (Some (user_part (ys ! i))) l"
  proof
    assume w: "wanted s ys i K l"
    then have "ucmp (user_part (ys ! i)) (user_part (ys ! l)) \<noteq> 0" using assms(2,4) by (auto simp: wanted_def)
    then show "wanted s ys i (Some (user_part (ys ! i))) l" using w le by (auto simp: wanted_def)
  next
    assume w: "wanted s ys i (Some (user_part (ys ! i))) l"
    then have "ucmp (user_part (ys ! i)) (user_part (ys ! l)) < 0" by (auto simp: wanted_def)
    then have "\<forall>k. K = Some k \<longrightarrow> ucmp k (user_part (ys ! l)) < 0"
      using assms(5) cmp_le_less v [OF il] v [OF assms(3)] by blast
    then show "wanted s ys i K l" using w by (auto simp: wanted_def)
  qed
  also have "\<dots> \<longleftrightarrow> wanted s ys (Suc i) (Some (user_part (ys ! i))) l"
    using wanted_skip [OF assms(1-3) v [OF il]] cmp_refl [OF v [OF il]] by simp
  finally show ?thesis .
qed

text \<open>What one entry does in the loop, and the rest of the loop.\<close>

abbreviation parsed_at :: "entry_kv list \<Rightarrow> nat \<Rightarrow> ParsedInternalKey" where
  "parsed_at ys i \<equiv> \<lparr>pk_user_key = user_part (ys ! i), pk_sequence = drop_bit 8 (key_number (fst (ys ! i))),
      pk_type = ExtractValueType (fst (ys ! i))\<rparr>"

lemma find_next_unfold:
  assumes "ParseKey I d = Some (parsed, d1)" "next_entry ucmp parsed skipping d1 = (stop, skipping', d2)"
  shows "find_next_user_entry ucmp I skipping d =
    (if stop then Some d2
     else do {
       d \<leftarrow> move_iter (it_Next I) d2;
       if it_Valid I (di_iter d) then find_next_user_entry ucmp I skipping' d
       else Some (d\<lparr>di_saved_key := [], di_valid := False\<rparr>) })"
  by (subst find_next_user_entry.simps) (simp add: assms)

lemma next_step_kept:
  "next_entry ucmp parsed skipping d = (stop, skipping', d2) \<Longrightarrow> good_seed (di_rnd d) \<Longrightarrow>
    kept d d2 \<and> di_iter d2 = di_iter d \<and> di_saved_value d2 = di_saved_value d"
  by (auto simp: next_entry_def kept_def split: if_splits option.splits)

lemma next_step_result:
  assumes ys: "internal_entries ucmp valid ys" and i: "i < length ys"
    and K: "skippable (di_sequence d) ys i (if skipping then Some (di_saved_key d) else None)"
    and step: "next_entry ucmp (Some (parsed_at ys i)) skipping d = (stop, skipping', d2)"
  shows "if stop then wanted (di_sequence d) ys i (if skipping then Some (di_saved_key d) else None) i \<and> di_valid d2
    else \<not> wanted (di_sequence d) ys i (if skipping then Some (di_saved_key d) else None) i \<and>
      skippable (di_sequence d) ys (Suc i) (if skipping' then Some (di_saved_key d2) else None) \<and>
      (\<forall>l. i < l \<longrightarrow> wanted (di_sequence d) ys i (if skipping then Some (di_saved_key d) else None) l \<longleftrightarrow>
        wanted (di_sequence d) ys (Suc i) (if skipping' then Some (di_saved_key d2) else None) l)"
proof -
  let ?s = "di_sequence d" and ?e = "ys ! i"
  let ?K = "if skipping then Some (di_saved_key d) else None"
  note v = user_parts(1) [OF ys]
  have out: "\<not> wanted s ys j K l" if "\<not> l < length ys" for s j K l using that by (simp add: wanted_def)
  have type: "ExtractValueType (fst ?e) = kTypeDeletion \<or> ExtractValueType (fst ?e) = kTypeValue"
    using ParseInternalKey_parts(2) ys nth_mem [OF i] by (auto simp: internal_entries_def)
  have ne: "kTypeDeletion \<noteq> kTypeValue" by (simp add: kTypeDeletion_def kTypeValue_def)
  consider (unseen) "\<not> seen ?s ?e" | (deleted) "seen ?s ?e" "ExtractValueType (fst ?e) = kTypeDeletion"
    | (hidden) "seen ?s ?e" "ExtractValueType (fst ?e) = kTypeValue" "skipping" "ucmp (user_part ?e) (di_saved_key d) \<le> 0"
    | (found) "seen ?s ?e" "ExtractValueType (fst ?e) = kTypeValue" "\<not> (skipping \<and> ucmp (user_part ?e) (di_saved_key d) \<le> 0)"
    using type by blast
  then show ?thesis
  proof cases
    case unseen
    then have "(stop, skipping', d2) = (False, skipping, d)" using step by (simp add: next_entry_def seen_def)
    then show ?thesis using unseen skippable_Suc [OF K] by (auto simp: wanted_Suc) (auto simp: wanted_def)
  next
    case deleted
    then have r: "(stop, skipping', d2) = (False, True, d\<lparr>di_saved_key := user_part ?e\<rparr>)"
      using step by (simp add: next_entry_def seen_def)
    have le: "\<forall>k. ?K = Some k \<longrightarrow> valid k \<and> ucmp k (user_part ?e) \<le> 0"
      using K i deleted unfolding skippable_def by blast
    have "wanted ?s ys i ?K l \<longleftrightarrow> wanted ?s ys (Suc i) (Some (user_part ?e)) l" if "i < l" for l
      using wanted_deleted [OF ys that _ deleted(1) le] out by (cases "l < length ys") simp_all
    moreover have "skippable ?s ys (Suc i) (Some (user_part ?e))"
      using v [OF i] user_parts(2) [OF ys, of i] by (simp add: skippable_def)
    ultimately show ?thesis using r deleted ne by (auto simp: wanted_def)
  next
    case hidden
    then have r: "(stop, skipping', d2) = (False, True, d)"
      using step ne by (auto simp: next_entry_def seen_def)
    have k: "valid (di_saved_key d)" using K hidden(3) by (simp add: skippable_def)
    have "wanted ?s ys i ?K l \<longleftrightarrow> wanted ?s ys (Suc i) ?K l" if "i < l" for l
      using wanted_skip [OF ys that _ k hidden(4)] out hidden(3) by (cases "l < length ys") simp_all
    moreover have "\<not> ucmp (di_saved_key d) (user_part ?e) < 0" using hidden(4) cmp_swap [OF k v [OF i]] by simp
    ultimately show ?thesis using r hidden(3) skippable_Suc [OF K] by (auto simp: wanted_def [of _ _ i _ i])
  next
    case found
    then have r: "(stop, skipping', d2) = (True, skipping, d\<lparr>di_valid := True, di_saved_key := []\<rparr>)"
      using step ne by (auto simp: next_entry_def seen_def)
    have "ucmp (di_saved_key d) (user_part ?e) < 0" if skipping
      using found(3) that K cmp_swap [OF _ v [OF i], of "di_saved_key d"] by (simp add: skippable_def)
    then show ?thesis using r found(1,2) i by (auto simp: wanted_def)
  qed
qed

lemma find_next_result:
  assumes ys: "internal_entries ucmp valid ys"
  shows "iter_at (di_iter d) ys i \<Longrightarrow> i < length ys \<Longrightarrow> good_seed (di_rnd d) \<Longrightarrow>
    skippable (di_sequence d) ys i (if skipping then Some (di_saved_key d) else None) \<Longrightarrow>
    \<exists>d' j. find_next_user_entry ucmp I skipping d = Some d' \<and> kept d d' \<and> iter_at (di_iter d') ys j \<and>
      first_wanted (di_sequence d) ys i (if skipping then Some (di_saved_key d) else None) j \<and> (di_valid d' \<longleftrightarrow> j < length ys)"
proof (induction "length ys - i" arbitrary: d i skipping rule: less_induct)
  case less
  let ?K = "\<lambda>skipping d. if skipping then Some (di_saved_key d) else None"
  obtain d1 where d1: "ParseKey I d = Some (Some (parsed_at ys i), d1)" "kept d d1" "di_iter d1 = di_iter d" "di_saved_key d1 = di_saved_key d"
    using ParseKey_at [OF ys less.prems(1-3)] by metis
  obtain stop skipping' d2 where st: "next_entry ucmp (Some (parsed_at ys i)) skipping d1 = (stop, skipping', d2)" by (metis prod_cases3)
  note k = next_step_kept [OF st keptD(4) [OF d1(2)]] and u = find_next_unfold [OF d1(1) st]
  have s: "di_sequence d1 = di_sequence d" using d1(2) by (rule keptD)
  have r: "if stop then wanted (di_sequence d) ys i (?K skipping d) i \<and> di_valid d2
    else \<not> wanted (di_sequence d) ys i (?K skipping d) i \<and> skippable (di_sequence d) ys (Suc i) (?K skipping' d2) \<and>
      (\<forall>l. i < l \<longrightarrow> wanted (di_sequence d) ys i (?K skipping d) l \<longleftrightarrow> wanted (di_sequence d) ys (Suc i) (?K skipping' d2) l)"
    using next_step_result [OF ys less.prems(2) _ st] less.prems(4) unfolding s d1(4) by blast
  have kd: "kept d d2" using d1(2) k by (auto simp: kept_def)
  show ?case
  proof (cases stop)
    case True
    then have "first_wanted (di_sequence d) ys i (?K skipping d) i"
      using r less.prems(2) by (auto simp: first_wanted_def wanted_def)
    then show ?thesis using True u kd k r less.prems(1,2) d1(3) by auto
  next
    case False
    obtain it where it: "it_Next I (di_iter d) = Some it" "iter_at it ys (Suc i)" using at_next [OF less.prems(1,2)] by blast
    define e where "e = d2\<lparr>di_iter := it\<rparr>"
    have m: "move_iter (it_Next I) d2 = Some e" using it(1) k d1(3) by (simp add: move_iter_def e_def)
    have e: "kept d e" "di_saved_key e = di_saved_key d2" "di_iter e = it" using kd by (simp_all add: e_def kept_def)
    note nw = first_wanted_next [OF _ less.prems(2), of "di_sequence d" "?K skipping d" "?K skipping' d2"]
    show ?thesis
    proof (cases "Suc i < length ys")
      case True
      have lt: "length ys - Suc i < length ys - i" using True by simp
      have sk: "skippable (di_sequence d) ys (Suc i) (?K skipping' d2)" using r False by simp
      obtain d' j where h: "find_next_user_entry ucmp I skipping' e = Some d'" "kept e d'" "iter_at (di_iter d') ys j"
        "first_wanted (di_sequence d) ys (Suc i) (?K skipping' d2) j" "di_valid d' \<longleftrightarrow> j < length ys"
        using less.hyps [of "Suc i" e skipping', unfolded e(2,3) keptD(1) [OF e(1)], OF lt it(2) True keptD(4) [OF e(1)] sk]
        by blast
      then have "first_wanted (di_sequence d) ys i (?K skipping d) j" using nw r False by metis
      moreover have "kept d d'" using e(1) h(2) by (simp add: kept_def)
      ultimately show ?thesis
        using h(1,3,5) u m False True at_valid [OF it(2)] e(3) by auto
    next
      case fin: False
      then have n: "Suc i = length ys" using less.prems(2) by simp
      have "first_wanted (di_sequence d) ys (Suc i) (?K skipping' d2) (Suc i)" by (simp add: first_wanted_def n wanted_def)
      then have "first_wanted (di_sequence d) ys i (?K skipping d) (Suc i)" using nw r False by metis
      moreover have "kept d (e\<lparr>di_saved_key := [], di_valid := False\<rparr>)" using e(1) by (simp add: kept_def)
      ultimately show ?thesis
        using u m False at_valid [OF it(2)] e(3) it(2) n by (intro exI [of _ "e\<lparr>di_saved_key := [], di_valid := False\<rparr>"]) auto
    qed
  qed
qed

section \<open>Backwards\<close>

text \<open>
  The entries from \<open>b\<close> on are read, down from somewhere; the candidate \<open>c\<close> is the oldest position of those
  whose version is saved, and no seen entry lies between \<open>b\<close> and it.
\<close>

definition candidate :: "entry_kv list \<Rightarrow> nat \<Rightarrow> nat option \<Rightarrow> ValueType \<Rightarrow> 'i DBIter \<Rightarrow> bool" where
  "candidate ys b c vt d \<longleftrightarrow>
     (case c of
        None \<Rightarrow> vt = kTypeDeletion
      | Some j \<Rightarrow> vt = kTypeValue \<and> b \<le> j \<and> j < length ys \<and> seen (di_sequence d) (ys ! j) \<and>
          ExtractValueType (fst (ys ! j)) = kTypeValue \<and> di_saved_key d = user_part (ys ! j) \<and>
          di_saved_value d = snd (ys ! j) \<and> (\<forall>l. b \<le> l \<and> l < j \<longrightarrow> \<not> seen (di_sequence d) (ys ! l)))"

definition candidate_end :: "nat \<Rightarrow> nat option \<Rightarrow> nat" where
  "candidate_end b c = (case c of None \<Rightarrow> b | Some j \<Rightarrow> Suc j)"

definition prev_result :: "entry_kv list \<Rightarrow> nat \<Rightarrow> ValueType \<Rightarrow> 'i DBIter \<Rightarrow> bool" where
  "prev_result ys t vt d \<longleftrightarrow>
     vt = kTypeDeletion \<and> (\<forall>m<t. \<not> visible ucmp (di_sequence d) ys m) \<and> iter_at (di_iter d) ys (length ys) \<or>
     vt = kTypeValue \<and> (\<exists>m<t. visible ucmp (di_sequence d) ys m \<and> (\<forall>l. m < l \<and> l < t \<longrightarrow> \<not> visible ucmp (di_sequence d) ys l) \<and>
       di_saved_key d = user_part (ys ! m) \<and> di_saved_value d = snd (ys ! m) \<and>
       (\<exists>p. iter_at (di_iter d) ys p \<and> rev_pos (di_sequence d) ys m p))"

lemma candidate_visible:
  assumes "internal_entries ucmp valid ys" "candidate ys b (Some j) vt d"
    and "\<And>l. l < b \<Longrightarrow> seen (di_sequence d) (ys ! l) \<Longrightarrow> ucmp (user_part (ys ! l)) (user_part (ys ! j)) \<noteq> 0"
  shows "visible ucmp (di_sequence d) ys j"
  using assms(2,3) unfolding candidate_def visible_def by (auto simp: not_le) (metis not_le)

lemma prev_result_end:
  assumes "internal_entries ucmp valid ys" "candidate ys 0 c vt d" "iter_at (di_iter d) ys (length ys)"
  shows "prev_result ys (candidate_end 0 c) vt d"
proof (cases c)
  case None
  then show ?thesis using assms by (simp add: prev_result_def candidate_def candidate_end_def)
next
  case (Some j)
  have "visible ucmp (di_sequence d) ys j"
    by (rule candidate_visible [OF assms(1) assms(2) [unfolded Some]]) simp
  moreover have "rev_pos (di_sequence d) ys j (length ys)" using assms(2) Some by (simp add: candidate_def rev_pos_def)
  ultimately show ?thesis
    using assms(2,3) Some by (auto simp: prev_result_def candidate_def candidate_end_def)
qed

text \<open>One entry of the loop: it stops before the user key of the candidate changes, or goes on.\<close>

lemma prev_entry_result:
  assumes ys: "internal_entries ucmp valid ys" and i: "i < length ys" and it: "iter_at (di_iter d) ys i"
    and c: "candidate ys (Suc i) c vt d"
    and step: "prev_entry ucmp I (Some (parsed_at ys i)) vt d = (stop, vt', d2)"
  shows "if stop then prev_result ys (candidate_end (Suc i) c) vt' d2
    else \<exists>c'. candidate ys i c' vt' d2 \<and> candidate_end i c' \<le> candidate_end (Suc i) c \<and>
      (\<forall>m. candidate_end i c' \<le> m \<and> m < candidate_end (Suc i) c \<longrightarrow> \<not> visible ucmp (di_sequence d) ys m)"
proof -
  let ?s = "di_sequence d" and ?e = "ys ! i"
  note v = user_parts(1) [OF ys] and le = user_parts(2) [OF ys]
  have ne: "kTypeDeletion \<noteq> kTypeValue" by (simp add: kTypeDeletion_def kTypeValue_def)
  have type: "ExtractValueType (fst ?e) = kTypeDeletion \<or> ExtractValueType (fst ?e) = kTypeValue"
    using ParseInternalKey_parts(2) ys nth_mem [OF i] by (auto simp: internal_entries_def)
  have kv: "it_key I (di_iter d) = fst ?e" "it_value I (di_iter d) = snd ?e"
    using at_key [OF it i] at_value [OF it i] by simp_all
  have unseen: "\<not> visible ucmp ?s ys m" if "\<not> seen ?s (ys ! m)" for m using that by (simp add: visible_def)
  have same: "\<not> visible ucmp ?s ys m" if "seen ?s ?e" "candidate ys (Suc i) (Some m) vt d" "\<not> ucmp (user_part ?e) (di_saved_key d) < 0" for m
  proof -
    have "i < m" "m < length ys" "ucmp (user_part ?e) (user_part (ys ! m)) = 0"
      using that le [of i m] by (auto simp: candidate_def)
    then show ?thesis using that(1) by (auto simp: visible_def)
  qed
  have between: "\<not> visible ucmp ?s ys m" if "c = Some j" "Suc i \<le> m" "m < j" for j m
    using c that unseen by (auto simp: candidate_def)
  consider (unseen) "\<not> seen ?s ?e"
    | (stop) "seen ?s ?e" "vt \<noteq> kTypeDeletion" "ucmp (user_part ?e) (di_saved_key d) < 0"
    | (version) "seen ?s ?e" "\<not> (vt \<noteq> kTypeDeletion \<and> ucmp (user_part ?e) (di_saved_key d) < 0)" by blast
  then show ?thesis
  proof cases
    case unseen
    then have r: "(stop, vt', d2) = (False, vt, d)" using step by (simp add: prev_entry_def seen_def)
    have "candidate ys i c vt d"
      using c unseen by (auto simp: candidate_def not_less_eq_eq split: option.splits) (metis Suc_leI le_neq_implies_less)
    then show ?thesis
      using r unseen by simp (rule exI [of _ c], auto simp: candidate_end_def visible_def less_Suc_eq split: option.splits)
  next
    case stop
    then have r: "(stop, vt', d2) = (True, vt, d)" using step by (simp add: prev_entry_def seen_def)
    obtain j where j: "c = Some j" using stop(2) c by (cases c) (auto simp: candidate_def)
    have sk: "di_saved_key d = user_part (ys ! j)" "j < length ys" "i < j" using c j by (auto simp: candidate_def)
    have "ucmp (user_part (ys ! l)) (user_part (ys ! j)) \<noteq> 0" if "l < Suc i" for l
      using cmp_le_less [OF v v [OF i] v [OF sk(2)] le [OF _ i], of l] that stop(3) sk i by simp
    then have "visible ucmp ?s ys j" using candidate_visible [OF ys c [unfolded j]] by blast
    moreover have "rev_pos ?s ys j i" using c j sk(3) by (auto simp: candidate_def rev_pos_def)
    ultimately show ?thesis using r c j it by (auto simp: prev_result_def candidate_def candidate_end_def)
  next
    case version
    have gone: "\<not> visible ucmp ?s ys m" if "i < m" "m < candidate_end (Suc i) c" for m
    proof (cases c)
      case (Some j)
      then have "\<not> ucmp (user_part ?e) (di_saved_key d) < 0" using version(2) c ne by (auto simp: candidate_def)
      then show ?thesis using same [OF version(1) c [unfolded Some]] between [OF Some] that Some
        by (cases "m = j") (auto simp: candidate_end_def)
    qed (use that in \<open>simp add: candidate_end_def\<close>)
    have top: "i < candidate_end (Suc i) c" using c by (auto simp: candidate_end_def candidate_def split: option.splits)
    show ?thesis
    proof (cases "ExtractValueType (fst ?e) = kTypeDeletion")
      case True
      then have r: "(stop, vt', d2) = (False, kTypeDeletion, ClearSavedValue (d\<lparr>di_saved_key := []\<rparr>))"
        using step version by (auto simp: prev_entry_def seen_def split: if_splits)
      have "\<not> visible ucmp ?s ys i" using True ne by (simp add: visible_def)
      then have "\<not> visible ucmp ?s ys m" if "i \<le> m" "m < candidate_end (Suc i) c" for m
        using gone that by (cases "m = i") auto
      then show ?thesis using r top by simp (rule exI [of _ None], auto simp: candidate_def candidate_end_def)
    next
      case False
      then have r: "(stop, vt', d2) = (False, kTypeValue, d\<lparr>di_saved_key := user_part ?e, di_saved_value := snd ?e\<rparr>)"
        using step version type by (auto simp: prev_entry_def seen_def kv split: if_splits)
      have "candidate ys i (Some i) vt' d2" using r version(1) i False type by (auto simp: candidate_def)
      then show ?thesis using r top gone by simp (rule exI [of _ "Some i"], auto simp: candidate_end_def Suc_le_eq)
    qed
  qed
qed

lemma find_prev_unfold:
  assumes "ParseKey I d = Some (parsed, d1)" "prev_entry ucmp I parsed vt d1 = (stop, vt', d2)"
  shows "find_prev_user_entry ucmp I vt d =
    (if stop then Some (vt', d2)
     else do {
       d \<leftarrow> move_iter (it_Prev I) d2;
       if it_Valid I (di_iter d) then find_prev_user_entry ucmp I vt' d else Some (vt', d) })"
  by (subst find_prev_user_entry.simps) (simp add: assms)

lemma prev_entry_kept:
  "prev_entry ucmp I parsed vt d = (stop, vt', d2) \<Longrightarrow> good_seed (di_rnd d) \<Longrightarrow> kept d d2 \<and> di_iter d2 = di_iter d"
  by (auto simp: prev_entry_def kept_def ClearSavedValue_def split: if_splits option.splits)

lemma prev_result_mono:
  assumes "prev_result ys t vt d" "t \<le> t'" "\<forall>m. t \<le> m \<and> m < t' \<longrightarrow> \<not> visible ucmp (di_sequence d) ys m"
  shows "prev_result ys t' vt d"
proof -
  have "\<not> visible ucmp (di_sequence d) ys l" if "\<not> l < t" "l < t'" for l using assms(3) that by simp
  moreover have "l < t'" if "l < t" for l using assms(2) that by simp
  ultimately show ?thesis using assms(1) unfolding prev_result_def by blast
qed

lemma find_prev_result:
  assumes ys: "internal_entries ucmp valid ys"
  shows "iter_at (di_iter d) ys i \<Longrightarrow> i < length ys \<Longrightarrow> good_seed (di_rnd d) \<Longrightarrow> candidate ys (Suc i) c vt d \<Longrightarrow>
    \<exists>d' vt'. find_prev_user_entry ucmp I vt d = Some (vt', d') \<and> kept d d' \<and> prev_result ys (candidate_end (Suc i) c) vt' d'"
proof (induction i arbitrary: d vt c)
  case (0 d vt c)
  obtain d1 where d1: "ParseKey I d = Some (Some (parsed_at ys 0), d1)" "kept d d1" "di_iter d1 = di_iter d"
    "di_saved_key d1 = di_saved_key d" "di_saved_value d1 = di_saved_value d"
    using ParseKey_at [OF ys 0(1-3)] by metis
  obtain stop vt' d2 where st: "prev_entry ucmp I (Some (parsed_at ys 0)) vt d1 = (stop, vt', d2)" by (metis prod_cases3)
  note k = prev_entry_kept [OF st keptD(4) [OF d1(2)]] and u = find_prev_unfold [OF d1(1) st]
  have s: "di_sequence d1 = di_sequence d" using d1(2) by (rule keptD)
  have "candidate ys (Suc 0) c vt d1" using 0(4) d1(4,5) s by (simp add: candidate_def split: option.splits)
  note r = prev_entry_result [OF ys 0(2) _ this st]
  have kd: "kept d d2" using d1(2) k by (auto simp: kept_def)
  show ?case
  proof (cases stop)
    case True
    then show ?thesis using r 0(1) d1(3) u kd by auto
  next
    case False
    obtain it where it: "it_Prev I (di_iter d) = Some it" "iter_at it ys (length ys)" using at_prev [OF 0(1,2)] by auto
    define e where "e = d2\<lparr>di_iter := it\<rparr>"
    have m: "move_iter (it_Prev I) d2 = Some e" using it(1) k d1(3) by (simp add: move_iter_def e_def)
    have e: "kept d e" "di_iter e = it" using kd by (simp_all add: e_def kept_def)
    obtain c' where c': "candidate ys 0 c' vt' d2" "candidate_end 0 c' \<le> candidate_end (Suc 0) c"
      "\<forall>m. candidate_end 0 c' \<le> m \<and> m < candidate_end (Suc 0) c \<longrightarrow> \<not> visible ucmp (di_sequence d) ys m"
      using r 0(1) d1(3) False s by auto
    have "candidate ys 0 c' vt' e" using c'(1) by (simp add: candidate_def e_def split: option.splits)
    then have "prev_result ys (candidate_end 0 c') vt' e" using prev_result_end [OF ys] it(2) e(2) by simp
    then have "prev_result ys (candidate_end (Suc 0) c) vt' e"
      using prev_result_mono c'(2,3) keptD(1) [OF e(1)] by auto
    then show ?thesis using u m False at_valid [OF it(2)] e by auto
  qed
next
  case (Suc i d vt c)
  obtain d1 where d1: "ParseKey I d = Some (Some (parsed_at ys (Suc i)), d1)" "kept d d1" "di_iter d1 = di_iter d"
    "di_saved_key d1 = di_saved_key d" "di_saved_value d1 = di_saved_value d"
    using ParseKey_at [OF ys Suc.prems(1-3)] by metis
  obtain stop vt' d2 where st: "prev_entry ucmp I (Some (parsed_at ys (Suc i))) vt d1 = (stop, vt', d2)" by (metis prod_cases3)
  note k = prev_entry_kept [OF st keptD(4) [OF d1(2)]] and u = find_prev_unfold [OF d1(1) st]
  have s: "di_sequence d1 = di_sequence d" using d1(2) by (rule keptD)
  have "candidate ys (Suc (Suc i)) c vt d1" using Suc.prems(4) d1(4,5) s by (simp add: candidate_def split: option.splits)
  note r = prev_entry_result [OF ys Suc.prems(2) _ this st]
  have kd: "kept d d2" using d1(2) k by (auto simp: kept_def)
  show ?case
  proof (cases stop)
    case True
    then show ?thesis using r Suc.prems(1) d1(3) u kd by auto
  next
    case False
    obtain it where it: "it_Prev I (di_iter d) = Some it" "iter_at it ys i" using at_prev [OF Suc.prems(1,2)] by auto
    define e where "e = d2\<lparr>di_iter := it\<rparr>"
    have m: "move_iter (it_Prev I) d2 = Some e" using it(1) k d1(3) by (simp add: move_iter_def e_def)
    have e: "kept d e" "di_iter e = it" using kd by (simp_all add: e_def kept_def)
    obtain c' where c': "candidate ys (Suc i) c' vt' d2" "candidate_end (Suc i) c' \<le> candidate_end (Suc (Suc i)) c"
      "\<forall>m. candidate_end (Suc i) c' \<le> m \<and> m < candidate_end (Suc (Suc i)) c \<longrightarrow> \<not> visible ucmp (di_sequence d) ys m"
      using r Suc.prems(1) d1(3) False s by auto
    have ce: "candidate ys (Suc i) c' vt' e" using c'(1) by (simp add: candidate_def e_def split: option.splits)
    have ie: "iter_at (di_iter e) ys i" using it(2) e(2) by simp
    obtain d' vt'' where h: "find_prev_user_entry ucmp I vt' e = Some (vt'', d')" "kept e d'"
      "prev_result ys (candidate_end (Suc i) c') vt'' d'"
      using Suc.IH [OF ie Suc_lessD [OF Suc.prems(2)] keptD(4) [OF e(1)] ce] by blast
    have "kept d d'" using e(1) h(2) by (simp add: kept_def)
    moreover from this have "prev_result ys (candidate_end (Suc (Suc i)) c) vt'' d'"
      using c'(3) by (intro prev_result_mono [OF h(3) c'(2)]) (simp add: keptD(1))
    moreover have "find_prev_user_entry ucmp I vt d = Some (vt'', d')"
      using u m False at_valid [OF it(2)] e(2) h(1) Suc_lessD [OF Suc.prems(2)] by simp
    ultimately show ?thesis by blast
  qed
qed

section \<open>Positions of the view\<close>

lemma view_length: "length (user_view ucmp s ys) = length (visible_positions ucmp s ys)"
  by (simp add: user_view_def)

lemma view_nth:
  "g < length (visible_positions ucmp s ys) \<Longrightarrow>
    user_view ucmp s ys ! g = (user_part (ys ! (visible_positions ucmp s ys ! g)), snd (ys ! (visible_positions ucmp s ys ! g)))"
  by (simp add: user_view_def)

definition rank :: "SequenceNumber \<Rightarrow> entry_kv list \<Rightarrow> nat \<Rightarrow> nat" where
  "rank s ys i = length (filter (visible ucmp s ys) [0..<i])"

lemma rank_visible:
  assumes "visible ucmp s ys m"
  shows "rank s ys m < length (visible_positions ucmp s ys)" "visible_positions ucmp s ys ! rank s ys m = m"
    "rank s ys (Suc m) = Suc (rank s ys m)"
  using filter_upt_nth [where P = "visible ucmp s ys", OF assms visibleD(1) [OF assms]] assms by (simp_all add: rank_def visible_positions_def)

lemma rank_skip:
  "i \<le> j \<Longrightarrow> (\<And>l. i \<le> l \<Longrightarrow> l < j \<Longrightarrow> \<not> visible ucmp s ys l) \<Longrightarrow> rank s ys j = rank s ys i"
  unfolding rank_def by (rule arg_cong [OF filter_upt_skip])

lemma rank_length: "rank s ys (length ys) = length (visible_positions ucmp s ys)"
  by (simp add: rank_def visible_positions_def)

lemma rank_0: "rank s ys 0 = 0"
  by (simp add: rank_def)

lemma rank_le: "rank s ys i \<le> rank s ys (i + k)"
  by (simp add: rank_def upt_add_eq_append [of 0 i k])

lemma position_visible:
  assumes "g < length (visible_positions ucmp s ys)"
  shows "visible ucmp s ys (visible_positions ucmp s ys ! g)" "rank s ys (visible_positions ucmp s ys ! g) = g"
proof -
  have "visible_positions ucmp s ys ! g \<in> set (visible_positions ucmp s ys)" using assms by simp
  then show v: "visible ucmp s ys (visible_positions ucmp s ys ! g)" by (simp add: visible_positions_def)
  have "distinct (visible_positions ucmp s ys)" by (simp add: visible_positions_def)
  then show "rank s ys (visible_positions ucmp s ys ! g) = g"
    using rank_visible(1,2) [OF v] assms by (simp add: nth_eq_iff_index_eq)
qed

text \<open>The forward loop arrives at the entry of the view that the entries before it lead to.\<close>

lemma first_wanted_rank:
  assumes "first_wanted s ys i K j" "i \<le> length ys"
    and "\<And>l. i \<le> l \<Longrightarrow> l < length ys \<Longrightarrow> wanted s ys i K l \<longleftrightarrow> i0 \<le> l \<and> visible ucmp s ys l"
    and "i \<le> i0" "i0 \<le> length ys" "\<And>l. i \<le> l \<Longrightarrow> l < i0 \<Longrightarrow> \<not> wanted s ys i K l"
  shows "rank s ys j = rank s ys i0" "j < length ys \<Longrightarrow> visible ucmp s ys j"
proof -
  have j: "i \<le> j" "j \<le> length ys" "\<And>l. l < j \<Longrightarrow> \<not> wanted s ys i K l" "j < length ys \<Longrightarrow> wanted s ys i K j"
    using assms(1) by (auto simp: first_wanted_def)
  show "j < length ys \<Longrightarrow> visible ucmp s ys j" using j(1,4) assms(3) by blast
  have "i0 \<le> j"
  proof (cases "j < length ys")
    case True
    then show ?thesis using j(1,4) assms(3) by blast
  next
    case False
    then show ?thesis using j(2) assms(5) by simp
  qed
  moreover have "\<not> visible ucmp s ys l" if "i0 \<le> l" "l < j" for l
    using assms(3) [of l] j(3) [OF that(2)] that j(2) assms(4) by auto
  ultimately show "rank s ys j = rank s ys i0" by (rule rank_skip)
qed

section \<open>The contract\<close>

lemma wanted_None:
  assumes "\<And>j. j < i \<Longrightarrow> seen s (ys ! j) \<Longrightarrow> ucmp (user_part (ys ! j)) (user_part (ys ! l)) \<noteq> 0" "i \<le> l" "l < length ys"
  shows "wanted s ys i None l \<longleftrightarrow> visible ucmp s ys l"
  using assms unfolding wanted_def visible_def by (metis linorder_not_le option.distinct(1))

text \<open>Behind a visible entry \<open>m\<close>, with only unseen ones from \<open>i\<close> to it.\<close>

lemma wanted_behind:
  assumes ys: "internal_entries ucmp valid ys" and m: "visible ucmp s ys m" "i \<le> m" "\<And>l. i \<le> l \<Longrightarrow> l < m \<Longrightarrow> \<not> seen s (ys ! l)"
  shows "skippable s ys i (Some (user_part (ys ! m)))"
    "i \<le> l \<Longrightarrow> l < length ys \<Longrightarrow> wanted s ys i (Some (user_part (ys ! m))) l \<longleftrightarrow> Suc m \<le> l \<and> visible ucmp s ys l"
proof -
  note v = user_parts(1) [OF ys] and le = user_parts(2) [OF ys] and ml = visibleD(1) [OF m(1)]
  show "skippable s ys i (Some (user_part (ys ! m)))"
    using v [OF ml] le m(3) unfolding skippable_def by (metis linorder_not_le option.inject)
  assume l: "i \<le> l" "l < length ys"
  have up: "ucmp (user_part (ys ! m)) (user_part (ys ! l)) < 0 \<longleftrightarrow> Suc m \<le> l \<and> ucmp (user_part (ys ! m)) (user_part (ys ! l)) \<noteq> 0"
  proof (cases "m < l")
    case True
    then show ?thesis using le [of m l] l(2) by auto
  next
    case False
    then have "ucmp (user_part (ys ! l)) (user_part (ys ! m)) \<le> 0" using le [OF _ ml] by simp
    then have "\<not> ucmp (user_part (ys ! m)) (user_part (ys ! l)) < 0" using cmp_swap [OF v [OF ml] v [OF l(2)]] by simp
    then show ?thesis using False by simp
  qed
  have before: "ucmp (user_part (ys ! j)) (user_part (ys ! l)) \<noteq> 0" if "j < i" "ucmp (user_part (ys ! m)) (user_part (ys ! l)) < 0" for j
    using cmp_le_less [OF v v [OF ml] v [OF l(2)] le [OF _ ml] that(2), of j] that(1) m(2) ml by simp
  show "wanted s ys i (Some (user_part (ys ! m))) l \<longleftrightarrow> Suc m \<le> l \<and> visible ucmp s ys l"
  proof
    assume w: "wanted s ys i (Some (user_part (ys ! m))) l"
    then have "ucmp (user_part (ys ! m)) (user_part (ys ! l)) < 0" by (simp add: wanted_def)
    then show "Suc m \<le> l \<and> visible ucmp s ys l"
      using w up before unfolding wanted_def visible_def by (metis linorder_not_le)
  next
    assume w: "Suc m \<le> l \<and> visible ucmp s ys l"
    then have "ucmp (user_part (ys ! m)) (user_part (ys ! l)) < 0"
      using up visibleD(4) [of s ys l m] visibleD(2) [OF m(1)] by simp
    then show "wanted s ys i (Some (user_part (ys ! m))) l" using w l(1) by (simp add: wanted_def visible_def)
  qed
qed

lemma db_atI:
  assumes "internal_entries ucmp valid ys" "iter_at (di_iter d) ys p" "good_seed (di_rnd d)" "di_status d = Status_OK"
    "di_sequence d \<le> kMaxSequenceNumber" "g \<le> length (visible_positions ucmp (di_sequence d) ys)"
    "di_valid d \<longleftrightarrow> g < length (visible_positions ucmp (di_sequence d) ys)"
    "g < length (visible_positions ucmp (di_sequence d) ys) \<Longrightarrow> let m = visible_positions ucmp (di_sequence d) ys ! g in
          case di_direction d of
            DbForward \<Rightarrow> p = m
          | DbReverse \<Rightarrow> di_saved_key d = user_part (ys ! m) \<and> di_saved_value d = snd (ys ! m) \<and>
              rev_pos (di_sequence d) ys m p"
  shows "db_at ucmp valid iter_at d (user_view ucmp (di_sequence d) ys) g"
  using assms unfolding db_at_def view_length by blast

lemma FindNext_at:
  assumes ys: "internal_entries ucmp valid ys" and it: "iter_at (di_iter d) ys i" "i < length ys" "good_seed (di_rnd d)"
    and d: "di_direction d = DbForward" "di_status d = Status_OK" "di_sequence d \<le> kMaxSequenceNumber"
    and K: "skippable (di_sequence d) ys i (if skipping then Some (di_saved_key d) else None)"
    and w: "\<And>l. i \<le> l \<Longrightarrow> l < length ys \<Longrightarrow>
      wanted (di_sequence d) ys i (if skipping then Some (di_saved_key d) else None) l \<longleftrightarrow> i0 \<le> l \<and> visible ucmp (di_sequence d) ys l"
    and i0: "i \<le> i0" "i0 \<le> length ys"
  shows "\<exists>d'. FindNextUserEntry ucmp I skipping d = Some d' \<and>
    db_at ucmp valid iter_at d' (user_view ucmp (di_sequence d) ys) (rank (di_sequence d) ys i0)"
proof -
  obtain d' j where h: "find_next_user_entry ucmp I skipping d = Some d'" "kept d d'" "iter_at (di_iter d') ys j"
    "first_wanted (di_sequence d) ys i (if skipping then Some (di_saved_key d) else None) j" "di_valid d' \<longleftrightarrow> j < length ys"
    using find_next_result [OF ys it K] by blast
  have "\<not> wanted (di_sequence d) ys i (if skipping then Some (di_saved_key d) else None) l" if "i \<le> l" "l < i0" for l
    using w [OF that(1)] that(2) i0(2) by simp
  note f0 = first_wanted_rank [OF h(4) less_imp_le [OF it(2)] w i0 this]
  have f: "rank (di_sequence d) ys j = rank (di_sequence d) ys i0" "j < length ys \<Longrightarrow> visible ucmp (di_sequence d) ys j"
    by (rule f0(1); assumption) (rule f0(2); assumption)
  have j: "j \<le> length ys" using h(4) by (simp add: first_wanted_def)
  note k = keptD [OF h(2)]
  have n: "rank (di_sequence d) ys j = length (visible_positions ucmp (di_sequence d) ys)" if "\<not> j < length ys"
    using that j rank_length [of "di_sequence d" ys] by simp
  have "db_at ucmp valid iter_at d' (user_view ucmp (di_sequence d') ys) (rank (di_sequence d) ys j)"
  proof (rule db_atI [OF ys h(3) k(4)])
    show "rank (di_sequence d) ys j \<le> length (visible_positions ucmp (di_sequence d') ys)"
      "di_valid d' \<longleftrightarrow> rank (di_sequence d) ys j < length (visible_positions ucmp (di_sequence d') ys)"
      using rank_visible(1) [OF f(2)] n h(5) by (cases "j < length ys"; simp add: k(1))+
    assume "rank (di_sequence d) ys j < length (visible_positions ucmp (di_sequence d') ys)"
    then have "j < length ys" using n k(1) by auto
    from rank_visible(2) [OF f(2) [OF this]]
    show "let m = visible_positions ucmp (di_sequence d') ys ! rank (di_sequence d) ys j in
        case di_direction d' of
          DbForward \<Rightarrow> j = m
        | DbReverse \<Rightarrow> di_saved_key d' = user_part (ys ! m) \<and> di_saved_value d' = snd (ys ! m) \<and> rev_pos (di_sequence d') ys m j"
      using k d by simp
  qed (use k d in simp_all)
  then show ?thesis using h(1) it(1,2) d(1) at_valid [OF it(1)] f(1) k(1) by (simp add: FindNextUserEntry_def)
qed

lemma FindPrev_at:
  assumes ys: "internal_entries ucmp valid ys" and it: "iter_at (di_iter d) ys p" "good_seed (di_rnd d)"
    and d: "di_direction d = DbReverse" "di_status d = Status_OK" "di_sequence d \<le> kMaxSequenceNumber"
    and t: "rank (di_sequence d) ys (if p < length ys then Suc p else 0) = r"
  shows "\<exists>d'. FindPrevUserEntry ucmp I d = Some d' \<and> db_at ucmp valid iter_at d' (user_view ucmp (di_sequence d) ys)
    (if r = 0 then length (user_view ucmp (di_sequence d) ys) else r - 1)"
proof -
  let ?t = "if p < length ys then Suc p else 0" and ?s = "di_sequence d"
  have "\<exists>d' vt. (if it_Valid I (di_iter d) then find_prev_user_entry ucmp I kTypeDeletion d else Some (kTypeDeletion, d)) = Some (vt, d') \<and>
      kept d d' \<and> prev_result ys ?t vt d'"
  proof (cases "p < length ys")
    case True
    have "candidate ys (Suc p) None kTypeDeletion d" by (simp add: candidate_def)
    from find_prev_result [OF ys it(1) True it(2) this] show ?thesis
      using at_valid [OF it(1)] True by (auto simp: candidate_end_def)
  next
    case False
    then have "p = length ys" using at_bound [OF it(1)] by simp
    then show ?thesis using it at_valid [OF it(1)] by (simp add: prev_result_def kept_def)
  qed
  then obtain d1 vt where h: "(if it_Valid I (di_iter d) then find_prev_user_entry ucmp I kTypeDeletion d else Some (kTypeDeletion, d)) = Some (vt, d1)"
    "kept d d1" "prev_result ys ?t vt d1" by blast
  note k = keptD [OF h(2)]
  have ne: "kTypeDeletion \<noteq> kTypeValue" by (simp add: kTypeDeletion_def kTypeValue_def)
  from h(3) consider (none) "vt = kTypeDeletion" "\<forall>m<?t. \<not> visible ucmp ?s ys m" "iter_at (di_iter d1) ys (length ys)"
    | (some) m q where "vt = kTypeValue" "m < ?t" "visible ucmp ?s ys m" "\<forall>l. m < l \<and> l < ?t \<longrightarrow> \<not> visible ucmp ?s ys l"
      "di_saved_key d1 = user_part (ys ! m)" "di_saved_value d1 = snd (ys ! m)" "iter_at (di_iter d1) ys q" "rev_pos ?s ys m q"
    unfolding prev_result_def k(1) by blast
  then show ?thesis
  proof cases
    case none
    have "rank ?s ys ?t = rank ?s ys 0" by (rule rank_skip) (use none(2) in auto)
    then have r: "r = 0" using t rank_0 by simp
    define d2 where "d2 = (ClearSavedValue (d1\<lparr>di_valid := False, di_saved_key := []\<rparr>))\<lparr>di_direction := DbForward\<rparr>"
    have "db_at ucmp valid iter_at d2 (user_view ucmp (di_sequence d2) ys) (length (visible_positions ucmp ?s ys))"
      by (rule db_atI [OF ys, where p = "length ys"]) (use none k d in \<open>simp_all add: d2_def ClearSavedValue_def\<close>)
    then show ?thesis using h(1) none(1) d(1) r k(1)
      by (simp add: FindPrevUserEntry_def d2_def ClearSavedValue_def view_length)
  next
    case some
    have "rank ?s ys ?t = rank ?s ys (Suc m)" by (rule rank_skip) (use some(2,4) in auto)
    then have r: "r = Suc (rank ?s ys m)" using t rank_visible(3) [OF some(3)] by simp
    define d2 where "d2 = d1\<lparr>di_valid := True\<rparr>"
    have "db_at ucmp valid iter_at d2 (user_view ucmp (di_sequence d2) ys) (rank ?s ys m)"
      by (rule db_atI [OF ys, where p = q]) (use some k d rank_visible(1,2) [OF some(3)] in \<open>simp_all add: d2_def\<close>)
    then show ?thesis using h(1) some(1) ne d(1) r k(1) by (simp add: FindPrevUserEntry_def d2_def)
  qed
qed

lemma db_atE:
  assumes "db_at ucmp valid iter_at d xs g"
  obtains ys p where "internal_entries ucmp valid ys" "xs = user_view ucmp (di_sequence d) ys" "iter_at (di_iter d) ys p"
    "good_seed (di_rnd d)" "di_status d = Status_OK" "di_sequence d \<le> kMaxSequenceNumber" "di_valid d \<longleftrightarrow> g < length xs"
  using assms by (auto simp: db_at_def)

text \<open>On an entry: the visible position \<open>m\<close> it stands for.\<close>

lemma db_at_entry:
  assumes "db_at ucmp valid iter_at d xs g" "g < length xs"
  obtains ys p m where "internal_entries ucmp valid ys" "xs = user_view ucmp (di_sequence d) ys" "iter_at (di_iter d) ys p"
    "good_seed (di_rnd d)" "di_status d = Status_OK" "di_sequence d \<le> kMaxSequenceNumber" "di_valid d"
    "visible ucmp (di_sequence d) ys m" "rank (di_sequence d) ys m = g" "xs ! g = (user_part (ys ! m), snd (ys ! m))"
    "case di_direction d of DbForward \<Rightarrow> p = m
      | DbReverse \<Rightarrow> di_saved_key d = user_part (ys ! m) \<and> di_saved_value d = snd (ys ! m) \<and> rev_pos (di_sequence d) ys m p"
proof -
  obtain ys p where h: "internal_entries ucmp valid ys" "xs = user_view ucmp (di_sequence d) ys" "iter_at (di_iter d) ys p"
    "good_seed (di_rnd d)" "di_status d = Status_OK" "di_sequence d \<le> kMaxSequenceNumber" "di_valid d"
    "let m = visible_positions ucmp (di_sequence d) ys ! g in
          case di_direction d of
            DbForward \<Rightarrow> p = m
          | DbReverse \<Rightarrow> di_saved_key d = user_part (ys ! m) \<and> di_saved_value d = snd (ys ! m) \<and>
              rev_pos (di_sequence d) ys m p"
    using assms unfolding db_at_def by blast
  have g: "g < length (visible_positions ucmp (di_sequence d) ys)" using assms(2) h(2) by (simp add: view_length)
  show ?thesis
    by (rule that [OF h(1-7) position_visible [OF g]]) (use h(2,8) view_nth [OF g] in \<open>simp_all add: Let_def\<close>)
qed

lemma db_key_value:
  assumes "db_at ucmp valid iter_at d xs g" "g < length xs"
  shows "di_key I d = fst (xs ! g)" "di_value I d = snd (xs ! g)"
proof -
  obtain ys p m where h: "iter_at (di_iter d) ys p" "visible ucmp (di_sequence d) ys m"
    "xs ! g = (user_part (ys ! m), snd (ys ! m))"
    "case di_direction d of DbForward \<Rightarrow> p = m
      | DbReverse \<Rightarrow> di_saved_key d = user_part (ys ! m) \<and> di_saved_value d = snd (ys ! m) \<and> rev_pos (di_sequence d) ys m p"
    using db_at_entry [OF assms] by metis
  show "di_key I d = fst (xs ! g)" "di_value I d = snd (xs ! g)"
    using h at_key [OF h(1)] at_value [OF h(1)] visibleD(1) [OF h(2)]
    by (cases "di_direction d"; simp add: di_key_def di_value_def)+
qed

lemma db_status: "db_at ucmp valid iter_at d xs g \<Longrightarrow> di_Status I d = Status_OK"
  by (erule db_atE) (simp add: di_Status_def at_status)

lemma move_at: "f (di_iter d) = Some it \<Longrightarrow> move_iter f d = Some (d\<lparr>di_iter := it\<rparr>)"
  by (simp add: move_iter_def)

lemma db_Next:
  assumes "db_at ucmp valid iter_at d xs g" "g < length xs"
  shows "\<exists>d'. di_Next ucmp I d = Some d' \<and> db_at ucmp valid iter_at d' xs (Suc g)"
proof -
  obtain ys p m where h: "internal_entries ucmp valid ys" "xs = user_view ucmp (di_sequence d) ys" "iter_at (di_iter d) ys p"
    "good_seed (di_rnd d)" "di_status d = Status_OK" "di_sequence d \<le> kMaxSequenceNumber" "di_valid d"
    "visible ucmp (di_sequence d) ys m" "rank (di_sequence d) ys m = g" "xs ! g = (user_part (ys ! m), snd (ys ! m))"
    "case di_direction d of DbForward \<Rightarrow> p = m
      | DbReverse \<Rightarrow> di_saved_key d = user_part (ys ! m) \<and> di_saved_value d = snd (ys ! m) \<and> rev_pos (di_sequence d) ys m p"
    using db_at_entry [OF assms] by metis
  note m = visibleD(1) [OF h(8)]
  have go: "\<exists>d'. FindNextUserEntry ucmp I True e = Some d' \<and> db_at ucmp valid iter_at d' xs (Suc g)"
    if e: "iter_at (di_iter e) ys i" "good_seed (di_rnd e)" "di_direction e = DbForward" "di_status e = Status_OK"
      "di_sequence e = di_sequence d" "di_saved_key e = user_part (ys ! m)"
      and i: "i \<le> m" "\<And>l. i \<le> l \<Longrightarrow> l < m \<Longrightarrow> \<not> seen (di_sequence d) (ys ! l)" for e i
    using FindNext_at [of ys e i True "Suc m", OF h(1) e(1) _ e(2-4)] wanted_behind [OF h(1,8) i] rank_visible(3) [OF h(8)]
      i(1) m h(2,6,9) e(5,6) by simp
  show ?thesis
  proof (cases "di_direction d")
    case DbForward
    then have "it_key I (di_iter d) = fst (ys ! m)" using h(3,11) m at_key by simp
    then show ?thesis using go [of "d\<lparr>di_saved_key := user_part (ys ! m)\<rparr>" m] DbForward h by (simp add: di_Next_def)
  next
    case DbReverse
    then have r: "di_saved_key d = user_part (ys ! m)" "rev_pos (di_sequence d) ys m p" using h(11) by simp_all
    let ?f = "if \<not> it_Valid I (di_iter d) then it_SeekToFirst I else it_Next I"
    have "\<exists>it i. ?f (di_iter d) = Some it \<and> iter_at it ys i \<and> i \<le> m \<and> (\<forall>l. i \<le> l \<and> l < m \<longrightarrow> \<not> seen (di_sequence d) (ys ! l))"
    proof (cases "p < length ys")
      case True
      obtain it where it: "it_Next I (di_iter d) = Some it" "iter_at it ys (Suc p)" using at_next [OF h(3) True] by blast
      have "p < m" "\<And>l. Suc p \<le> l \<Longrightarrow> l < m \<Longrightarrow> \<not> seen (di_sequence d) (ys ! l)"
        using r(2) True by (auto simp: rev_pos_def Suc_le_eq)
      then show ?thesis
        using it at_valid [OF h(3)] True by (intro exI [of _ it] exI [of _ "Suc p"]) (simp add: Suc_le_eq)
    next
      case False
      then show ?thesis using at_first [OF h(3)] r(2) at_valid [OF h(3)] m by (auto simp: rev_pos_def)
    qed
    then obtain it i where it: "?f (di_iter d) = Some it" "iter_at it ys i" "i \<le> m"
      "\<And>l. i \<le> l \<Longrightarrow> l < m \<Longrightarrow> \<not> seen (di_sequence d) (ys ! l)" by blast
    have "it_Valid I it" using at_valid [OF it(2)] it(3) m by simp
    moreover have "move_iter ?f (d\<lparr>di_direction := DbForward\<rparr>) = Some (d\<lparr>di_direction := DbForward, di_iter := it\<rparr>)"
      using it(1) by (simp add: move_iter_def)
    ultimately show ?thesis
      using go [of "d\<lparr>di_direction := DbForward, di_iter := it\<rparr>" i] it(2-4) DbReverse h(4,5,7) r(1)
      by (simp add: di_Next_def Let_def)
  qed
qed

lemma scan_back_result:
  assumes ys: "internal_entries ucmp valid ys" and m: "m < length ys"
  shows "iter_at (di_iter d) ys i \<Longrightarrow> i \<le> m \<Longrightarrow> good_seed (di_rnd d) \<Longrightarrow> di_saved_key d = user_part (ys ! m) \<Longrightarrow>
    \<forall>l. i \<le> l \<and> l \<le> m \<longrightarrow> \<not> ucmp (user_part (ys ! l)) (user_part (ys ! m)) < 0 \<Longrightarrow>
    \<exists>more d'. scan_back ucmp I d = Some (more, d') \<and> kept d d' \<and>
      (if more then \<exists>j<m. iter_at (di_iter d') ys j \<and>
           (\<forall>l. j < l \<and> l \<le> m \<longrightarrow> \<not> ucmp (user_part (ys ! l)) (user_part (ys ! m)) < 0)
       else iter_at (di_iter d') ys (length ys) \<and> \<not> di_valid d' \<and>
           (\<forall>l\<le>m. \<not> ucmp (user_part (ys ! l)) (user_part (ys ! m)) < 0))"
proof (induction i arbitrary: d)
  case (0 d)
  obtain it where it: "it_Prev I (di_iter d) = Some it" "iter_at it ys (length ys)" using at_prev [OF 0(1)] m by fastforce
  then show ?case using at_valid [OF it(2)] 0
    by (subst scan_back.simps) (auto simp: move_at [of "it_Prev I", OF it(1)] kept_def ClearSavedValue_def)
next
  case (Suc i d)
  have "Suc i < length ys" using Suc.prems(2) m by simp
  then obtain it where it: "it_Prev I (di_iter d) = Some it" "iter_at it ys i" using at_prev [OF Suc.prems(1)] by auto
  note v = at_valid [OF it(2)] and k = at_key [OF it(2)]
  show ?case
  proof (cases "ucmp (user_part (ys ! i)) (user_part (ys ! m)) < 0")
    case True
    then show ?thesis using v k Suc.prems m it(2)
      by (subst scan_back.simps) (auto simp: move_at [of "it_Prev I", OF it(1)] kept_def Suc_le_eq)
  next
    case False
    then have "\<forall>l. i \<le> l \<and> l \<le> m \<longrightarrow> \<not> ucmp (user_part (ys ! l)) (user_part (ys ! m)) < 0"
      using Suc.prems(5) by (metis Suc_leI le_neq_implies_less)
    note ih = Suc.IH [of "d\<lparr>di_iter := it\<rparr>", simplified, OF it(2) _ Suc.prems(3,4) this]
    have "scan_back ucmp I d = scan_back ucmp I (d\<lparr>di_iter := it\<rparr>)"
      using v k Suc.prems m False by (subst scan_back.simps) (simp add: move_at [of "it_Prev I", OF it(1)])
    then show ?thesis using ih Suc.prems(2) by (auto simp: kept_def)
  qed
qed

lemma not_less_same:
  assumes "internal_entries ucmp valid ys" "l \<le> m" "m < length ys" "\<not> ucmp (user_part (ys ! l)) (user_part (ys ! m)) < 0"
    "visible ucmp s ys m" "l < m"
  shows "\<not> seen s (ys ! l)"
  using user_parts(2) [OF assms(1,2,3)] assms(4) visibleD(4) [OF assms(5,6)] by auto

lemma db_Prev:
  assumes "db_at ucmp valid iter_at d xs g" "g < length xs"
  shows "\<exists>d'. di_Prev ucmp I d = Some d' \<and> db_at ucmp valid iter_at d' xs (if g = 0 then length xs else g - 1)"
proof -
  obtain ys p m where h: "internal_entries ucmp valid ys" "xs = user_view ucmp (di_sequence d) ys" "iter_at (di_iter d) ys p"
    "good_seed (di_rnd d)" "di_status d = Status_OK" "di_sequence d \<le> kMaxSequenceNumber" "di_valid d"
    "visible ucmp (di_sequence d) ys m" "rank (di_sequence d) ys m = g" "xs ! g = (user_part (ys ! m), snd (ys ! m))"
    "case di_direction d of DbForward \<Rightarrow> p = m
      | DbReverse \<Rightarrow> di_saved_key d = user_part (ys ! m) \<and> di_saved_value d = snd (ys ! m) \<and> rev_pos (di_sequence d) ys m p"
    using db_at_entry [OF assms] by metis
  note m = visibleD(1) [OF h(8)]
  have go: "\<exists>d'. FindPrevUserEntry ucmp I e = Some d' \<and> db_at ucmp valid iter_at d' xs (if g = 0 then length xs else g - 1)"
    if e: "iter_at (di_iter e) ys q" "good_seed (di_rnd e)" "di_direction e = DbReverse" "di_status e = Status_OK"
      "di_sequence e = di_sequence d"
      and q: "rank (di_sequence d) ys (if q < length ys then Suc q else 0) = g" for e q
  proof -
    have "rank (di_sequence e) ys (if q < length ys then Suc q else 0) = g" unfolding e(5) by (rule q)
    from FindPrev_at [OF h(1) e(1-4) _ this] show ?thesis unfolding e(5) h(2) using h(6) by blast
  qed
  have before: "rank (di_sequence d) ys i = g" if "i \<le> m" "\<And>l. i \<le> l \<Longrightarrow> l < m \<Longrightarrow> \<not> seen (di_sequence d) (ys ! l)" for i
    using rank_skip [OF that(1), of "di_sequence d" ys] that(2) h(9) by (metis visibleD(2))
  show ?thesis
  proof (cases "di_direction d")
    case DbReverse
    then have "rev_pos (di_sequence d) ys m p" using h(11) by simp
    then have "rank (di_sequence d) ys (if p < length ys then Suc p else 0) = g"
      using before [of "if p < length ys then Suc p else 0"] m by (auto simp: rev_pos_def Suc_le_eq)
    then show ?thesis using go [OF h(3,4) DbReverse h(5) refl] DbReverse h(7) by (simp add: di_Prev_def)
  next
    case DbForward
    then have p: "p = m" using h(11) by simp
    define e where "e = d\<lparr>di_saved_key := user_part (ys ! m)\<rparr>"
    have k: "it_key I (di_iter d) = fst (ys ! m)" "it_Valid I (di_iter d)"
      using at_key [OF h(3)] at_valid [OF h(3)] p m by simp_all
    have "\<forall>l. m \<le> l \<and> l \<le> m \<longrightarrow> \<not> ucmp (user_part (ys ! l)) (user_part (ys ! m)) < 0"
      using cmp_refl [OF user_parts(1) [OF h(1) m]] by (auto dest: le_antisym)
    then obtain more d1 where b: "scan_back ucmp I e = Some (more, d1)" "kept e d1"
      "if more then \<exists>j<m. iter_at (di_iter d1) ys j \<and>
           (\<forall>l. j < l \<and> l \<le> m \<longrightarrow> \<not> ucmp (user_part (ys ! l)) (user_part (ys ! m)) < 0)
       else iter_at (di_iter d1) ys (length ys) \<and> \<not> di_valid d1 \<and>
           (\<forall>l\<le>m. \<not> ucmp (user_part (ys ! l)) (user_part (ys ! m)) < 0)"
      using scan_back_result [OF h(1) m, of e m] h(3,4) p by (auto simp: e_def)
    have kd: "di_sequence d1 = di_sequence d" "di_status d1 = Status_OK" "good_seed (di_rnd d1)"
      using b(2) h(5) by (simp_all add: kept_def e_def)
    have prev: "di_Prev ucmp I d = (if more then FindPrevUserEntry ucmp I (d1\<lparr>di_direction := DbReverse\<rparr>) else Some d1)"
      using h(7) k DbForward b(1) by (simp add: di_Prev_def e_def)
    show ?thesis
    proof (cases more)
      case True
      then obtain j where j: "j < m" "iter_at (di_iter d1) ys j"
        "\<And>l. j < l \<Longrightarrow> l \<le> m \<Longrightarrow> \<not> ucmp (user_part (ys ! l)) (user_part (ys ! m)) < 0" using b(3) by auto
      have "rank (di_sequence d) ys (Suc j) = g"
        by (rule before) (use j(1) not_less_same [OF h(1) _ m _ h(8)] j(3) in \<open>simp_all add: Suc_le_eq\<close>)
      then show ?thesis
        using go [of "d1\<lparr>di_direction := DbReverse\<rparr>" j] j(1,2) m kd prev True by simp
    next
      case False
      have "rank (di_sequence d) ys 0 = g"
        by (rule before) (use b(3) False not_less_same [OF h(1) _ m _ h(8)] in simp_all)
      then have g: "g = 0" using rank_0 by simp
      have "db_at ucmp valid iter_at d1 (user_view ucmp (di_sequence d1) ys) (length (visible_positions ucmp (di_sequence d1) ys))"
        by (rule db_atI [OF h(1), where p = "length ys"]) (use b(3) False kd h(6) in simp_all)
      then show ?thesis using prev False g h(2) kd(1) by (simp add: view_length)
    qed
  qed
qed

lemma db_SeekToFirst:
  assumes "db_at ucmp valid iter_at d xs g"
  shows "\<exists>d'. di_SeekToFirst ucmp I d = Some d' \<and> db_at ucmp valid iter_at d' xs 0"
proof -
  obtain ys p where h: "internal_entries ucmp valid ys" "xs = user_view ucmp (di_sequence d) ys" "iter_at (di_iter d) ys p"
    "good_seed (di_rnd d)" "di_status d = Status_OK" "di_sequence d \<le> kMaxSequenceNumber"
    using assms by (rule db_atE) 
  obtain it where it: "it_SeekToFirst I (di_iter d) = Some it" "iter_at it ys 0" using at_first [OF h(3)] by blast
  define e where "e = ClearSavedValue (d\<lparr>di_direction := DbForward, di_iter := it\<rparr>)"
  have m: "move_iter (it_SeekToFirst I) (ClearSavedValue (d\<lparr>di_direction := DbForward\<rparr>)) = Some e"
    using it(1) by (simp add: move_iter_def e_def ClearSavedValue_def)
  have e: "di_iter e = it" "good_seed (di_rnd e)" "di_direction e = DbForward" "di_status e = Status_OK" "di_sequence e = di_sequence d"
    using h(4,5) by (simp_all add: e_def ClearSavedValue_def)
  show ?thesis
  proof (cases "ys = []")
    case True
    have "db_at ucmp valid iter_at (e\<lparr>di_valid := False\<rparr>) (user_view ucmp (di_sequence d) ys) 0"
      using db_atI [OF h(1), of "e\<lparr>di_valid := False\<rparr>" 0 0] e it(2) h(6) True by (simp add: visible_positions_def)
    then show ?thesis using True m e(1) at_valid [OF it(2)] h(2) by (simp add: di_SeekToFirst_def)
  next
    case False
    have "\<exists>d'. FindNextUserEntry ucmp I False e = Some d' \<and>
        db_at ucmp valid iter_at d' (user_view ucmp (di_sequence e) ys) (rank (di_sequence e) ys 0)"
      by (rule FindNext_at [OF h(1), where i = 0])
         (use e it(2) False h(6) wanted_None in \<open>simp_all add: skippable_def\<close>)
    then show ?thesis using False m e(1,5) at_valid [OF it(2)] h(2) by (simp add: di_SeekToFirst_def rank_0)
  qed
qed

lemma db_SeekToLast:
  assumes "db_at ucmp valid iter_at d xs g"
  shows "\<exists>d'. di_SeekToLast ucmp I d = Some d' \<and> db_at ucmp valid iter_at d' xs (length xs - 1)"
proof -
  obtain ys p where h: "internal_entries ucmp valid ys" "xs = user_view ucmp (di_sequence d) ys" "iter_at (di_iter d) ys p"
    "good_seed (di_rnd d)" "di_status d = Status_OK" "di_sequence d \<le> kMaxSequenceNumber"
    using assms by (rule db_atE) 
  obtain it where it: "it_SeekToLast I (di_iter d) = Some it" "iter_at it ys (length ys - 1)" using at_last [OF h(3)] by blast
  define e where "e = ClearSavedValue (d\<lparr>di_direction := DbReverse, di_iter := it\<rparr>)"
  have m: "move_iter (it_SeekToLast I) (ClearSavedValue (d\<lparr>di_direction := DbReverse\<rparr>)) = Some e"
    using it(1) by (simp add: move_iter_def e_def ClearSavedValue_def)
  have e: "iter_at (di_iter e) ys (length ys - 1)" "good_seed (di_rnd e)" "di_direction e = DbReverse" "di_status e = Status_OK"
    "di_sequence e = di_sequence d"
    using h(4,5) it(2) by (simp_all add: e_def ClearSavedValue_def)
  have r: "rank (di_sequence e) ys (if length ys - 1 < length ys then Suc (length ys - 1) else 0) = length xs"
  proof -
    have "(if length ys - 1 < length ys then Suc (length ys - 1) else 0) = length ys" by (cases ys) auto
    then show ?thesis using rank_length [of "di_sequence e" ys] e(5) h(2) by (simp only: view_length)
  qed
  have idx: "(if length xs = 0 then length xs else length xs - 1) = length xs - 1" by simp
  have view: "user_view ucmp (di_sequence e) ys = xs" and "di_sequence e \<le> kMaxSequenceNumber" using e(5) h(2,6) by simp_all
  from FindPrev_at [OF h(1) e(1-4) this(2) r] show ?thesis
    unfolding view idx di_SeekToLast_def m by (simp only: Option.bind.bind_lunit)
qed

text \<open>The internal key \<^verbatim>\<open>Seek\<close> looks for comes before the seen entries of the target and of larger user keys.\<close>

lemma seen_below:
  assumes "ParseInternalKey (fst e) \<noteq> None" "seen s e" "s \<le> kMaxSequenceNumber"
  shows "InternalKeyCompare ucmp (fst e) (AppendInternalKey [] \<lparr>pk_user_key = t, pk_sequence = s, pk_type = kValueTypeForSeek\<rparr>) < 0 \<longleftrightarrow>
    ucmp (user_part e) t < 0"
proof -
  let ?T = "AppendInternalKey [] \<lparr>pk_user_key = t, pk_sequence = s, pk_type = kValueTypeForSeek\<rparr>"
  let ?n = "key_number (fst e)" and ?p = "PackSequenceAndType s kValueTypeForSeek"
  have ty: "unat (ExtractValueType (fst e)) \<le> 1"
    using ParseInternalKey_parts(2) [OF assms(1)] by (auto simp: kTypeDeletion_def kTypeValue_def)
  have "unat (ExtractValueType (fst e)) = unat ?n mod 256"
  proof -
    have "?n AND 0xff = take_bit 8 ?n" by (simp add: take_bit_eq_mask mask_eq_exp_minus_1)
    then show ?thesis by (simp add: ExtractValueType_def unsigned_ucast_eq unsigned_take_bit_eq) (simp add: take_bit_eq_mod)
  qed
  moreover have "unat ?n = unat ?n div 256 * 256 + unat ?n mod 256" by simp
  moreover have "unat ?n div 256 \<le> unat s"
    using assms(2) by (simp add: seen_def word_le_nat_alt drop_bit_eq_div unat_div)
  ultimately have "unat ?n \<le> unat s * 256 + 1" using ty by linarith
  then have "\<not> ?p < ?n"
    by (simp add: word_less_nat_alt pack_fields(3) [OF assms(3)] kValueTypeForSeek_def kTypeValue_def)
  moreover have "ExtractUserKey ?T = t" "DecodeFixed64 (drop (length ?T - 8) ?T) = ?p"
    using AppendInternalKey_fields [of "\<lparr>pk_user_key = t, pk_sequence = s, pk_type = kValueTypeForSeek\<rparr>"] by simp_all
  ultimately show ?thesis unfolding InternalKeyCompare_def Let_def by (simp add: key_number_def)
qed

lemma db_Seek:
  assumes "db_at ucmp valid iter_at d xs g" "valid t"
  shows "\<exists>d'. di_Seek ucmp I t d = Some d' \<and> db_at ucmp valid iter_at d' xs (seek_pos (\<lambda>k t. ucmp k t < 0) t xs)"
proof -
  obtain ys p where h: "internal_entries ucmp valid ys" "xs = user_view ucmp (di_sequence d) ys" "iter_at (di_iter d) ys p"
    "good_seed (di_rnd d)" "di_status d = Status_OK" "di_sequence d \<le> kMaxSequenceNumber"
    using assms(1) by (rule db_atE)
  let ?s = "di_sequence d" and ?below = "\<lambda>k t. InternalKeyCompare ucmp k t < 0"
  define T where "T = AppendInternalKey [] \<lparr>pk_user_key = t, pk_sequence = ?s, pk_type = kValueTypeForSeek\<rparr>"
  define i where "i = seek_pos ?below T ys"
  note v = user_parts(1) [OF h(1)]
  have T: "internal_key valid T" using assms(2) by (simp add: T_def internal_key_def AppendInternalKey_fields)
  have down: "downward ?below T ys" unfolding downward_def
    by (rule sorted_wrt_mono_rel [where P = "\<lambda>x y. ?below (fst x) (fst y)"])
       (use h(1) T key_order.cmp_less_trans [OF internal_order [OF key_order_axioms]] in \<open>auto simp: internal_entries_def\<close>)
  have i: "i \<le> length ys" by (simp add: i_def seek_pos_le)
  have less: "l < i \<longleftrightarrow> ucmp (user_part (ys ! l)) t < 0" if "l < length ys" "seen ?s (ys ! l)" for l
    using downward_less_seek_pos [OF down that(1)] seen_below [OF _ that(2) h(6)] h(1) nth_mem [OF that(1)]
    by (auto simp: internal_entries_def i_def T_def)
  have split: "ucmp (user_part (ys ! j)) (user_part (ys ! l)) \<noteq> 0"
    if "j < i" "seen ?s (ys ! j)" "i \<le> l" "l < length ys" "seen ?s (ys ! l)" for j l
  proof
    assume e: "ucmp (user_part (ys ! j)) (user_part (ys ! l)) = 0"
    have jl: "j < length ys" using that(1) i by simp
    have "ucmp (user_part (ys ! l)) t < 0"
      using less [OF jl that(2)] that(1) e cmp_eq_sym [OF v [OF jl] v [OF that(4)]]
        cmp_le_less [OF v [OF that(4)] v [OF jl] assms(2)] by simp
    then show False using less [OF that(4,5)] that(3) by simp
  qed
  have w: "wanted ?s ys i None l \<longleftrightarrow> visible ucmp ?s ys l" if "i \<le> l" "l < length ys" for l
    using wanted_None [OF _ that, of ?s] split [OF _ _ that] unfolding wanted_def visible_def by blast
  have pos: "rank ?s ys i = seek_pos (\<lambda>k t. ucmp k t < 0) t xs"
    unfolding h(2)
  proof (rule seek_pos_unique [symmetric], unfold view_length)
    let ?vs = "visible_positions ucmp ?s ys"
    show "rank ?s ys i \<le> length ?vs" using rank_le [of ?s ys i "length ys - i"] i rank_length [of ?s ys] by simp
    have low: "?vs ! q < i \<longleftrightarrow> q < rank ?s ys i" if "q < length ?vs" for q
    proof -
      note q = position_visible [OF that] and r = rank_visible(3) [OF position_visible(1) [OF that]]
      show ?thesis
        using rank_le [of ?s ys "Suc (?vs ! q)" "i - Suc (?vs ! q)"] rank_le [of ?s ys i "?vs ! q - i"] q(2) r
        by (cases "?vs ! q < i") simp_all
    qed
    have key: "fst (user_view ucmp ?s ys ! q) = user_part (ys ! (?vs ! q))" if "q < length ?vs" for q
      using view_nth [OF that] by simp
    have b: "ucmp (user_part (ys ! (?vs ! q))) t < 0 \<longleftrightarrow> q < rank ?s ys i" if "q < length ?vs" for q
      using less [OF visibleD(1,2) [OF position_visible(1) [OF that]]] low [OF that] by simp
    show "ucmp (fst (user_view ucmp ?s ys ! q)) t < 0" if "q < rank ?s ys i" for q
      using key [of q] b [of q] that \<open>rank ?s ys i \<le> length ?vs\<close> by simp
    show "\<not> ucmp (fst (user_view ucmp ?s ys ! rank ?s ys i)) t < 0" if "rank ?s ys i < length ?vs"
      using key [OF that] b [OF that] by simp
  qed
  obtain it where it: "it_Seek I T (di_iter d) = Some it" "iter_at it ys i" using at_seek [OF h(3) T down] by (auto simp: i_def)
  define e where "e = d\<lparr>di_direction := DbForward, di_saved_value := [], di_saved_key := T, di_iter := it\<rparr>"
  have e: "di_iter e = it" "good_seed (di_rnd e)" "di_direction e = DbForward" "di_status e = Status_OK" "di_sequence e = ?s"
    using h(4,5) by (simp_all add: e_def)
  have m: "di_Seek ucmp I t d = (if i < length ys then FindNextUserEntry ucmp I False e else Some (e\<lparr>di_valid := False\<rparr>))"
    using it at_valid [OF it(2)] by (simp add: di_Seek_def ClearSavedValue_def move_iter_def e_def Let_def flip: T_def)
  show ?thesis
  proof (cases "i < length ys")
    case True
    have "\<exists>d'. FindNextUserEntry ucmp I False e = Some d' \<and>
        db_at ucmp valid iter_at d' (user_view ucmp (di_sequence e) ys) (rank (di_sequence e) ys i)"
      by (rule FindNext_at [OF h(1), where i = i])
         (use e it(2) True h(6) w in \<open>simp_all add: skippable_def\<close>)
    then show ?thesis using m True pos e(5) h(2) by simp
  next
    case False
    then have n: "rank ?s ys i = length (visible_positions ucmp ?s ys)" using i rank_length [of ?s ys] by simp
    have "db_at ucmp valid iter_at (e\<lparr>di_valid := False\<rparr>) (user_view ucmp ?s ys) (rank ?s ys i)"
      using db_atI [OF h(1), of "e\<lparr>di_valid := False\<rparr>" i "rank ?s ys i"] e it(2) h(6) n by simp
    then show ?thesis using m False pos h(2) by simp
  qed
qed

end

sublocale db_iter \<subseteq> view: iterator "db_iterator ucmp I" "db_at ucmp valid iter_at" "\<lambda>k t. ucmp k t < 0" valid
proof (unfold_locales, goal_cases)
  case (1 d xs g)
  then show ?case by (simp add: db_at_def)
next
  case (2 d xs g)
  then show ?case by (elim db_atE) (simp add: db_iterator_def)
qed (simp_all add: db_iterator_def db_key_value db_status db_SeekToFirst db_SeekToLast [simplified] db_Next db_Prev [simplified] db_Seek)

end
