(* ===== verification/Ldb_Memtable_Iter.thy ===== *)
theory Ldb_Memtable_Iter
  imports Ldb_Memtable Ldb_Iterator
begin

text \<open>
  The iterator of a memtable (\<^verbatim>\<open>MemTableIterator\<close> of \<^verbatim>\<open>db/memtable.cc\<close>) behind the interface of
  iterators, and its contract: it is an iterator over the internal keys and values of the writes.
\<close>

definition MemTableIterator :: "(byte list \<Rightarrow> byte list \<Rightarrow> int) \<Rightarrow> MemTable \<Rightarrow> nat option Iterator" where
  "MemTableIterator user_cmp m =
     \<lparr>it_Valid = Iter_Valid, it_key = (\<lambda>it. the (MemIter_key m it)), it_value = (\<lambda>it. the (MemIter_value m it)),
      it_status = (\<lambda>_. Status_OK), it_SeekToFirst = (\<lambda>_. MemIter_SeekToFirst m), it_SeekToLast = (\<lambda>_. MemIter_SeekToLast m),
      it_Next = MemIter_Next m, it_Prev = MemIter_Prev user_cmp m, it_Seek = (\<lambda>k _. MemIter_Seek user_cmp m k)\<rparr>"

lemma MemTableIterator_ops:
  "it_SeekToFirst (MemTableIterator user_cmp m) it = MemIter_SeekToFirst m"
  "it_SeekToLast (MemTableIterator user_cmp m) it = MemIter_SeekToLast m"
  "it_Next (MemTableIterator user_cmp m) it = MemIter_Next m it"
  "it_Prev (MemTableIterator user_cmp m) it = MemIter_Prev user_cmp m it"
  "it_Seek (MemTableIterator user_cmp m) k it = MemIter_Seek user_cmp m k"
  by (simp_all add: MemTableIterator_def)

definition kv_of :: "mem_write \<Rightarrow> entry_kv" where
  "kv_of = (\<lambda>(s, t, k, v). (internal_key_of s t k, v))"

text \<open>The nodes of the lowest level hold the writes \<open>ws\<close> in the order of their internal keys.\<close>

definition mem_nodes :: "MemTable \<Rightarrow> nat list \<Rightarrow> mem_write list \<Rightarrow> bool" where
  "mem_nodes m ns ws \<longleftrightarrow> sl_rep (mt_table m) ns \<and> map (node_key (mt_table m)) ns = map entry_of ws \<and>
     sl_abs mem_valid (KeyComparator Bytewise_Compare) (mt_table m) (map (node_key (mt_table m)) ns) \<and> (\<forall>w\<in>set ws. write_ok w)"

definition mem_at :: "MemTable \<Rightarrow> nat option \<Rightarrow> entry_kv list \<Rightarrow> nat \<Rightarrow> bool" where
  "mem_at m it xs i \<longleftrightarrow> i \<le> length xs \<and>
     (\<exists>ns ws. mem_nodes m ns ws \<and> xs = map kv_of ws \<and> it = (if i < length ns then Some (ns ! i) else None))"

definition user_key_ok :: "byte list \<Rightarrow> bool" where
  "user_key_ok k \<longleftrightarrow> length k + 8 < 2 ^ 32"

lemma internal_key_ok: "internal_key user_key_ok t \<longleftrightarrow> 8 \<le> length t \<and> length t < 2 ^ 32"
  by (auto simp: internal_key_def user_key_ok_def ExtractUserKey_def)

lemma mem_nodes_length: "mem_nodes m ns ws \<Longrightarrow> length ns = length ws"
  unfolding mem_nodes_def by (metis length_map)

lemma mem_nodesD:
  "mem_nodes m ns ws \<Longrightarrow> sl_rep (mt_table m) ns"
  "mem_nodes m ns ws \<Longrightarrow> sl_abs mem_valid (KeyComparator Bytewise_Compare) (mt_table m) (map (node_key (mt_table m)) ns)"
  unfolding mem_nodes_def by blast+

lemma mem_nodes_key:
  assumes "mem_nodes m ns ws" "i < length ws"
  shows "node_key (mt_table m) (ns ! i) = entry_of (ws ! i)" "write_ok (ws ! i)"
  using assms mem_nodes_length [OF assms(1)] unfolding mem_nodes_def by (metis nth_map, metis nth_mem)

lemma mem_kv:
  assumes "mem_nodes m ns ws" "i < length ws"
  shows "MemIter_key m (Some (ns ! i)) = Some (fst (kv_of (ws ! i)))" "MemIter_value m (Some (ns ! i)) = Some (snd (kv_of (ws ! i)))"
proof -
  obtain s t k v where w: "ws ! i = (s, t, k, v)" by (cases "ws ! i")
  have ok: "length k + 8 < 2 ^ 32" "length v < 2 ^ 32" using mem_nodes_key(2) [OF assms] w by (simp_all add: write_ok_def)
  have e: "Iter_key (mt_table m) (Some (ns ! i)) = mem_entry s t k v"
    using mem_nodes_key(1) [OF assms] w by (simp add: Iter_key_def entry_of_def)
  show "MemIter_key m (Some (ns ! i)) = Some (fst (kv_of (ws ! i)))" "MemIter_value m (Some (ns ! i)) = Some (snd (kv_of (ws ! i)))"
    using mem_GetLengthPrefixedSlice_Encode [OF ok(2), of "[]"] w
    by (simp_all add: MemIter_key_def MemIter_value_def e mem_entry_slice [OF ok(1)] kv_of_def)
qed

lemma EncodeKey_slice: "length t < 2 ^ 32 \<Longrightarrow> mem_GetLengthPrefixedSlice (EncodeKey t) = Some (t, [])"
  using mem_GetLengthPrefixedSlice_Encode [of t "[]"] by (simp add: EncodeKey_def PutVarint32_def)

lemma hd_option_drop: "hd_option (drop j xs) = (if j < length xs then Some (xs ! j) else None)"
  by (simp add: hd_option_def flip: Cons_nth_drop_Suc)

lemma mem_atI:
  assumes "mem_nodes m ns ws" "j \<le> length ws" "r = Some (if j < length ns then Some (ns ! j) else None)"
  shows "\<exists>it'. r = Some it' \<and> mem_at m it' (map kv_of ws) j"
  using assms unfolding mem_at_def by auto

lemma sl_absD:
  "sl_abs valid cmp sl ks \<Longrightarrow> sorted_wrt (\<lambda>a b. cmp a b < 0) ks" "sl_abs valid cmp sl ks \<Longrightarrow> \<forall>k\<in>set ks. valid k"
  by (simp_all add: sl_abs_def)

lemma mem_seek:
  assumes n: "mem_nodes m ns ws" and t: "internal_key user_key_ok t"
  defines "j \<equiv> seek_pos (\<lambda>k t. InternalKeyCompare Bytewise_Compare k t < 0) t (map kv_of ws)"
  shows "MemIter_Seek Bytewise_Compare m t = Some (if j < length ns then Some (ns ! j) else None)"
proof -
  let ?sl = "mt_table m" and ?cmp = "KeyComparator Bytewise_Compare"
  let ?P = "\<lambda>x. ?cmp (node_key ?sl x) (EncodeKey t) < 0"
  have T: "mem_GetLengthPrefixedSlice (EncodeKey t) = Some (t, [])" "mem_valid (EncodeKey t)"
    using t EncodeKey_slice by (auto simp: internal_key_ok mem_valid_def)
  have abs: "sl_abs mem_valid ?cmp ?sl (map (node_key ?sl) ns)" and rep: "sl_rep ?sl ns"
    using n unfolding mem_nodes_def by blast+
  have "\<forall>b\<in>set (dropWhile (\<lambda>a. ?cmp a (EncodeKey t) < 0) (map (node_key ?sl) ns)). \<not> ?cmp b (EncodeKey t) < 0"
    by (rule memtable.dropWhile_sorted [OF sl_absD [OF abs] T(2)])
  then have "\<forall>b\<in>set (dropWhile ?P ns). \<not> ?P b" unfolding dropWhile_map o_def set_map by blast
  then have split: "split_at ?cmp ?sl (EncodeKey t) (takeWhile ?P ns) (dropWhile ?P ns)"
    unfolding split_at_def by (blast dest: set_takeWhileD)
  have P: "?P (ns ! i) \<longleftrightarrow> InternalKeyCompare Bytewise_Compare (fst (kv_of (ws ! i))) t < 0" if "i < length ws" for i
  proof -
    obtain s ty k v where w: "ws ! i = (s, ty, k, v)" by (cases "ws ! i")
    then show ?thesis using mem_nodes_key [OF n that] T(1)
      by (simp add: entry_of_def kv_of_def KeyComparator_slices mem_entry_slice write_ok_def)
  qed
  have "length (takeWhile ?P ns) = j"
  proof -
    have l: "length ns = length ws" by (rule mem_nodes_length [OF n])
    have "map (\<lambda>i. ?P (ns ! i)) [0..<length ns] = map (\<lambda>i. InternalKeyCompare Bytewise_Compare (fst (kv_of (ws ! i))) t < 0) [0..<length ws]"
      using P l by simp
    then have m: "map ?P ns = map (\<lambda>w. InternalKeyCompare Bytewise_Compare (fst (kv_of w)) t < 0) ws"
      by (smt (verit) l length_map map_equality_iff nth_map nth_upt P)
    have "length (takeWhile ?P ns) = length (takeWhile id (map ?P ns))" by (simp add: takeWhile_map o_def)
    also have "\<dots> = j" unfolding m by (simp add: takeWhile_map o_def j_def seek_pos_def)
    finally show ?thesis .
  qed
  then have "hd_option (dropWhile ?P ns) = (if j < length ns then Some (ns ! j) else None)"
    by (simp add: dropWhile_eq_drop hd_option_drop)
  moreover have "FindGreaterOrEqual ?cmp ?sl (EncodeKey t) None = Some (hd_option (dropWhile ?P ns), None)"
    using FindGreaterOrEqual_result [of ?sl "takeWhile ?P ns" "dropWhile ?P ns" ?cmp "EncodeKey t" None] rep split by simp
  ultimately show ?thesis by (simp add: MemIter_Seek_def Iter_Seek_def)
qed

interpretation memtable_iter: iterator "MemTableIterator Bytewise_Compare m" "mem_at m"
  "\<lambda>k t. InternalKeyCompare Bytewise_Compare k t < 0" "internal_key user_key_ok" for m
proof (unfold_locales, goal_cases)
  case (1 it xs i)
  then show ?case by (simp add: mem_at_def)
next
  case (2 it xs i)
  then show ?case by (auto simp: mem_at_def MemTableIterator_def Iter_Valid_def split: if_splits dest: mem_nodes_length)
next
  case (3 it xs i)
  then show ?case by (auto simp: mem_at_def MemTableIterator_def mem_nodes_length mem_kv(1))
next
  case (4 it xs i)
  then show ?case by (auto simp: mem_at_def MemTableIterator_def mem_nodes_length mem_kv(2))
next
  case (5 it xs i)
  then show ?case by (simp add: MemTableIterator_def)
next
  case (6 it xs i)
  then obtain ns ws where n: "mem_nodes m ns ws" "xs = map kv_of ws" by (auto simp: mem_at_def)
  then have "MemIter_SeekToFirst m = Some (if 0 < length ns then Some (ns ! 0) else None)"
    using Iter_ends(1) [of "mt_table m" ns]
    by (cases ns) (auto simp: MemIter_SeekToFirst_def mem_nodes_def hd_option_def)
  from mem_atI [OF n(1) le0 this] show ?case unfolding MemTableIterator_ops n(2) .
next
  case (7 it xs i)
  then obtain ns ws where n: "mem_nodes m ns ws" "xs = map kv_of ws" by (auto simp: mem_at_def)
  then have "MemIter_SeekToLast m = Some (if length xs - 1 < length ns then Some (ns ! (length xs - 1)) else None)"
    using Iter_ends(2) [of "mt_table m" ns] mem_nodes_length [OF n(1)]
    by (cases ns rule: rev_cases) (auto simp: MemIter_SeekToLast_def mem_nodes_def nth_append)
  from mem_atI [OF n(1) _ this] show ?case unfolding MemTableIterator_ops n(2) by simp
next
  case (8 it xs i)
  then obtain ns ws where n: "mem_nodes m ns ws" "xs = map kv_of ws" "it = Some (ns ! i)" "i < length ns"
    using mem_nodes_length by (fastforce simp: mem_at_def)
  then have "MemIter_Next m it = Some (if Suc i < length ns then Some (ns ! Suc i) else None)"
    using memtable.Iter_walk(1) [OF mem_nodesD [OF n(1)] n(4)] by (simp add: MemIter_Next_def)
  from mem_atI [OF n(1) _ this] show ?case using 8(2) unfolding MemTableIterator_ops n(2) by simp
next
  case (9 it xs i)
  then obtain ns ws where n: "mem_nodes m ns ws" "xs = map kv_of ws" "it = Some (ns ! i)" "i < length ns"
    using mem_nodes_length by (fastforce simp: mem_at_def)
  let ?j = "if i = 0 then length xs else i - 1"
  have "MemIter_Prev Bytewise_Compare m it = Some (if ?j < length ns then Some (ns ! ?j) else None)"
    using n(2-4) memtable.Iter_walk(2) [OF mem_nodesD [OF n(1)] n(4)] mem_nodes_length [OF n(1)]
    by (auto simp: MemIter_Prev_def)
  moreover have "?j \<le> length ws" using 9(2) n(2) by auto
  ultimately show ?case using mem_atI [OF n(1), of ?j] unfolding MemTableIterator_ops n(2) by blast
next
  case (10 it xs i t)
  then obtain ns ws where n: "mem_nodes m ns ws" "xs = map kv_of ws" by (auto simp: mem_at_def)
  let ?j = "seek_pos (\<lambda>k t. InternalKeyCompare Bytewise_Compare k t < 0) t xs"
  have "?j \<le> length ws" using seek_pos_le [of _ t xs] n(2) by (metis length_map)
  then show ?case using mem_atI [OF n(1) _ mem_seek [OF n(1) 10(2)]] unfolding MemTableIterator_ops n(2) by blast
qed

lemma map_choice: "set ys \<subseteq> f ` A \<Longrightarrow> \<exists>xs. ys = map f xs \<and> set xs \<subseteq> A"
proof (induction ys)
  case (Cons y ys)
  then obtain xs x where "ys = map f xs" "set xs \<subseteq> A" "y = f x" "x \<in> A" by auto
  then show ?case by (intro exI [of _ "x # xs"]) simp
qed simp

text \<open>A table filled with a history holds its writes, in the order of the internal keys.\<close>

lemma mem_rep_iter:
  assumes "mem_rep m H"
  obtains ws where "mem_at m None (map kv_of ws) (length ws)" "set ws = set H" "\<forall>w\<in>set ws. write_ok w"
    "sorted_wrt (\<lambda>x y. InternalKeyCompare Bytewise_Compare (fst x) (fst y) < 0) (map kv_of ws)"
proof -
  let ?sl = "mt_table m" and ?cmp = "KeyComparator Bytewise_Compare"
  obtain ns where ns: "sl_rep ?sl ns" "sl_abs mem_valid ?cmp ?sl (map (node_key ?sl) ns)"
    "set (map (node_key ?sl) ns) = entry_of ` set H"
    using assms unfolding mem_rep_def sl_abs_def by metis
  have ok: "\<forall>h\<in>set H. write_ok h" using assms by (simp add: mem_rep_def)
  have "\<exists>ws. map (node_key ?sl) ns = map entry_of ws \<and> set ws \<subseteq> set H"
    by (rule map_choice) (use ns(3) in auto)
  then obtain ws where ws: "map (node_key ?sl) ns = map entry_of ws" "set ws \<subseteq> set H" by blast
  have okw: "\<forall>w\<in>set ws. write_ok w" using ws(2) ok by blast
  have inj: "h = h'" if "write_ok h" "write_ok h'" "entry_of h = entry_of h'" for h h'
  proof -
    obtain s t k v s' t' k' v' where h: "h = (s, t, k, v)" "h' = (s', t', k', v')" by (cases h, cases h')
    have sl: "mem_GetLengthPrefixedSlice (entry_of h) = Some (internal_key_of s t k, EncodeVarint32 (of_nat (length v)) @ v)"
      "mem_GetLengthPrefixedSlice (entry_of h') = Some (internal_key_of s' t' k', EncodeVarint32 (of_nat (length v')) @ v')"
      using that(1,2) h by (simp_all add: entry_of_def write_ok_def mem_entry_slice)
    then have e: "internal_key_of s t k = internal_key_of s' t' k'"
      "EncodeVarint32 (of_nat (length v)) @ v = EncodeVarint32 (of_nat (length v')) @ v'"
      unfolding that(3) by (metis option.inject prod.inject)+
    have len: "length v < 2 ^ 32" "length v' < 2 ^ 32" using that(1,2) h by (simp_all add: write_ok_def)
    have "v = v'"
      using mem_GetLengthPrefixedSlice_Encode [OF len(1), of "[]"] mem_GetLengthPrefixedSlice_Encode [OF len(2), of "[]"]
      unfolding append_Nil2 e(2) by simp
    moreover have "s = s' \<and> t = t' \<and> k = k'"
      using e(1) internal_key_of_eq [of s s' t k t' k'] that(1,2) h internal.cmp_refl [of "internal_key_of s t k"]
      by (simp add: write_ok_def internal_key_def internal_key_of)
    ultimately show ?thesis using h by simp
  qed
  have "set H \<subseteq> set ws"
  proof
    fix h assume "h \<in> set H"
    then obtain w where "w \<in> set ws" "entry_of h = entry_of w" using ns(3) ws(1) by (metis (no_types, lifting) imageE imageI set_map)
    then show "h \<in> set ws" using inj ok okw \<open>h \<in> set H\<close> by metis
  qed
  moreover have "mem_nodes m ns ws" using ns ws okw by (simp add: mem_nodes_def)
  moreover have "sorted_wrt (\<lambda>x y. InternalKeyCompare Bytewise_Compare (fst x) (fst y) < 0) (map kv_of ws)"
  proof -
    have slice: "mem_GetLengthPrefixedSlice (entry_of w) = Some (fst (kv_of w), EncodeVarint32 (of_nat (length (snd (kv_of w)))) @ snd (kv_of w))"
      if "write_ok w" for w
      using that by (cases w) (simp add: entry_of_def kv_of_def write_ok_def mem_entry_slice)
    have "sorted_wrt (\<lambda>a b. ?cmp (entry_of a) (entry_of b) < 0) ws"
      using ns(2) unfolding sl_abs_def ws(1) by (simp add: sorted_wrt_map)
    then have "sorted_wrt (\<lambda>a b. InternalKeyCompare Bytewise_Compare (fst (kv_of a)) (fst (kv_of b)) < 0) ws"
      by (rule sorted_wrt_mono_rel [rotated])
         (use okw slice in \<open>simp add: KeyComparator_slices\<close>)
    then show ?thesis by (simp add: sorted_wrt_map)
  qed
  ultimately show ?thesis
    using that [of ws] ws(2) okw mem_nodes_length by (fastforce simp: mem_at_def)
qed

end
