(* ===== verification/Ldb_Filter_Block.thy ===== *)
theory Ldb_Filter_Block
  imports Ldb_Bloom Ldb_Dbformat Ldb_Coding
begin

text \<open>
  Filter blocks (\<^verbatim>\<open>table/filter_block.cc\<close>): one filter for the keys of every 2 KB of data blocks. What
  a filter policy promises is the locale \<open>filter_policy\<close>; the Bloom filter and its lifting to internal
  keys are its instances. A builder's policy is an argument of its operations.
\<close>

section \<open>The policy\<close>

locale filter_policy =
  fixes create :: "byte list list \<Rightarrow> byte list \<Rightarrow> byte list"
    and may_match :: "byte list \<Rightarrow> byte list \<Rightarrow> bool"
    and max_keys :: nat
  assumes create_appends: "\<And>keys dst. \<exists>f. create keys dst = dst @ f"
    and no_false_negative: "\<And>key keys dst. key \<in> set keys \<Longrightarrow> length keys < max_keys \<Longrightarrow>
      may_match key (drop (length dst) (create keys dst))"

definition bloom_max_keys :: "64 word \<Rightarrow> nat" where
  "bloom_max_keys bpk = (if unat bpk < 2 ^ 31 then 2 ^ 31 else 0)"

interpretation bloom: filter_policy "CreateFilter (make_BloomFilterPolicy bpk probes)" KeyMayMatch "bloom_max_keys bpk"
  for bpk probes
  by unfold_locales
    (simp add: CreateFilter_def Let_def,
     auto intro: CreateFilter_KeyMayMatch simp: bloom_max_keys_def split: if_splits)

interpretation internal_bloom:
  filter_policy "InternalCreateFilter (CreateFilter (make_BloomFilterPolicy bpk probes))" "InternalKeyMayMatch KeyMayMatch"
    "bloom_max_keys bpk" for bpk probes
  by unfold_locales
    (auto simp: InternalCreateFilter_def InternalKeyMayMatch_def intro: bloom.create_appends bloom.no_false_negative)

section \<open>Building\<close>

definition kFilterBaseLg :: nat where "kFilterBaseLg = 11"
definition kFilterBase :: "64 word" where "kFilterBase = push_bit kFilterBaseLg 1"

record FilterBlockBuilder =
  fb_keys :: "byte list"
  fb_start :: "nat list"
  fb_result :: "byte list"
  fb_filter_offsets :: "32 word list"

definition make_FilterBlockBuilder :: FilterBlockBuilder where
  "make_FilterBlockBuilder = \<lparr>fb_keys = [], fb_start = [], fb_result = [], fb_filter_offsets = []\<rparr>"

definition GenerateFilter ::
  "(byte list list \<Rightarrow> byte list \<Rightarrow> byte list) \<Rightarrow> FilterBlockBuilder \<Rightarrow> FilterBlockBuilder" where
  "GenerateFilter create b =
     (let num_keys = length (fb_start b);
          b1 = b\<lparr>fb_filter_offsets := fb_filter_offsets b @ [of_nat (length (fb_result b))]\<rparr>
      in if num_keys = 0 then b1
         else let start = fb_start b @ [length (fb_keys b)];
                  tmp_keys = map (\<lambda>i. take (start ! (i + 1) - start ! i) (drop (start ! i) (fb_keys b))) [0..<num_keys]
              in b1\<lparr>fb_result := create tmp_keys (fb_result b), fb_keys := [], fb_start := []\<rparr>)"

function start_block_loop ::
  "(byte list list \<Rightarrow> byte list \<Rightarrow> byte list) \<Rightarrow> nat \<Rightarrow> FilterBlockBuilder \<Rightarrow> FilterBlockBuilder" where
  "start_block_loop create filter_index b =
     (if length (fb_filter_offsets b) < filter_index
      then start_block_loop create filter_index (GenerateFilter create b) else b)"
  by pat_completeness auto
termination
  by (relation "measure (\<lambda>(create, filter_index, b). filter_index - length (fb_filter_offsets b))")
    (auto simp: GenerateFilter_def Let_def)

declare start_block_loop.simps [simp del]

definition StartBlock ::
  "(byte list list \<Rightarrow> byte list \<Rightarrow> byte list) \<Rightarrow> FilterBlockBuilder \<Rightarrow> 64 word \<Rightarrow> FilterBlockBuilder" where
  "StartBlock create b block_offset = start_block_loop create (unat (block_offset div kFilterBase)) b"

definition AddKey :: "FilterBlockBuilder \<Rightarrow> byte list \<Rightarrow> FilterBlockBuilder" where
  "AddKey b key = b\<lparr>fb_start := fb_start b @ [length (fb_keys b)], fb_keys := fb_keys b @ key\<rparr>"

definition FilterBlock_Finish ::
  "(byte list list \<Rightarrow> byte list \<Rightarrow> byte list) \<Rightarrow> FilterBlockBuilder \<Rightarrow> byte list \<times> FilterBlockBuilder" where
  "FilterBlock_Finish create b =
     (let b1 = (if fb_start b \<noteq> [] then GenerateFilter create b else b);
          array_offset = of_nat (length (fb_result b1)) :: 32 word;
          result1 = fold (\<lambda>offset result. PutFixed32 result offset) (fb_filter_offsets b1) (fb_result b1);
          result2 = PutFixed32 result1 array_offset @ [of_nat kFilterBaseLg]
      in (result2, b1\<lparr>fb_result := result2\<rparr>))"

section \<open>Reading\<close>

text \<open>The data, where the offset array starts in it, the number of filters, and the base.\<close>

record FilterBlockReader =
  fr_data :: "byte list"
  fr_offset :: nat
  fr_num :: nat
  fr_base_lg :: "64 word"

definition make_FilterBlockReader :: "byte list \<Rightarrow> FilterBlockReader" where
  "make_FilterBlockReader contents =
     (let n = length contents; r = \<lparr>fr_data = [], fr_offset = 0, fr_num = 0, fr_base_lg = 0\<rparr> in
      if n < 5 then r
      else let r = r\<lparr>fr_base_lg := scast (contents ! (n - 1))\<rparr>;
               last_word = unat (DecodeFixed32 (drop (n - 5) contents))
           in if n - 5 < last_word then r
              else r\<lparr>fr_data := contents, fr_offset := last_word, fr_num := (n - 5 - last_word) div 4\<rparr>)"

text \<open>No result stands for a shift by the width of the type or more.\<close>

definition FilterBlock_KeyMayMatch ::
  "(byte list \<Rightarrow> byte list \<Rightarrow> bool) \<Rightarrow> FilterBlockReader \<Rightarrow> 64 word \<Rightarrow> byte list \<Rightarrow> bool option" where
  "FilterBlock_KeyMayMatch may_match r block_offset key =
     (if 64 \<le> fr_base_lg r then None
      else let index = unat (drop_bit (unat (fr_base_lg r)) block_offset) in
           if index < fr_num r
           then let start = unat (DecodeFixed32 (drop (fr_offset r + index * 4) (fr_data r)));
                    limit = unat (DecodeFixed32 (drop (fr_offset r + index * 4 + 4) (fr_data r)))
                in if start \<le> limit \<and> limit \<le> fr_offset r
                   then Some (may_match key (take (limit - start) (drop start (fr_data r))))
                   else if start = limit then Some False else Some True
           else Some True)"

section \<open>No key is lost\<close>

text \<open>
  A builder stands for the filters generated so far, each with its keys and its bytes, and the keys
  waiting for the next one.
\<close>

definition segment_ok :: "(byte list list \<Rightarrow> byte list \<Rightarrow> byte list) \<Rightarrow> byte list list \<times> byte list \<Rightarrow> bool" where
  "segment_ok create = (\<lambda>(keys, f). keys = [] \<and> f = [] \<or> (\<exists>dst. f = drop (length dst) (create keys dst)))"

definition segment_offset :: "(byte list list \<times> byte list) list \<Rightarrow> nat \<Rightarrow> nat" where
  "segment_offset segs i = length (concat (map snd (take i segs)))"

definition filter_rep ::
  "(byte list list \<Rightarrow> byte list \<Rightarrow> byte list) \<Rightarrow> FilterBlockBuilder \<Rightarrow> (byte list list \<times> byte list) list \<Rightarrow> byte list list \<Rightarrow> bool"
  where
  "filter_rep create b segs ks \<longleftrightarrow>
     fb_result b = concat (map snd segs) \<and>
     fb_filter_offsets b = map (\<lambda>i. of_nat (segment_offset segs i)) [0..<length segs] \<and>
     fb_keys b = concat ks \<and> fb_start b = map (\<lambda>i. length (concat (take i ks))) [0..<length ks] \<and>
     (\<forall>s\<in>set segs. segment_ok create s)"

text \<open>The keys that a filter index covers, generated or waiting.\<close>

definition keys_at :: "(byte list list \<times> byte list) list \<Rightarrow> byte list list \<Rightarrow> nat \<Rightarrow> byte list set" where
  "keys_at segs ks i = (if i < length segs then set (fst (segs ! i)) else if i = length segs then set ks else {})"

lemma segment_offset_snoc: "i \<le> length segs \<Longrightarrow> segment_offset (segs @ ys) i = segment_offset segs i"
  by (simp add: segment_offset_def)

lemma offsets_snoc:
  "map (\<lambda>i. of_nat (segment_offset segs i)) [0..<length segs] @ [of_nat (length (concat (map snd segs)))] =
    map (\<lambda>i. of_nat (segment_offset (segs @ [s]) i)) [0..<length (segs @ [s])]"
proof -
  have "segment_offset (segs @ [s]) (length segs) = length (concat (map snd segs))"
    by (simp add: segment_offset_def)
  then show ?thesis by (simp add: segment_offset_snoc cong: map_cong)
qed

lemma take_flattened:
  assumes "i < length ks"
  shows "take (length (concat (take (Suc i) ks)) - length (concat (take i ks))) (drop (length (concat (take i ks))) (concat ks))
    = ks ! i"
proof -
  have "concat ks = concat (take i ks) @ ks ! i @ concat (drop (Suc i) ks)"
    using assms by (metis concat.simps(2) concat_append id_take_nth_drop)
  moreover have "length (concat (take (Suc i) ks)) = length (concat (take i ks)) + length (ks ! i)"
    using assms by (simp add: take_Suc_conv_app_nth)
  ultimately show ?thesis by simp
qed

lemma make_FilterBlockBuilder_rep: "filter_rep create make_FilterBlockBuilder [] []"
  by (simp add: filter_rep_def make_FilterBlockBuilder_def)

lemma AddKey_rep: "filter_rep create b segs ks \<Longrightarrow> filter_rep create (AddKey b key) segs (ks @ [key])"
  by (auto simp: filter_rep_def AddKey_def)

context filter_policy begin

lemma GenerateFilter_rep:
  assumes rep: "filter_rep create b segs ks"
  shows "\<exists>f. filter_rep create (GenerateFilter create b) (segs @ [(ks, f)]) []"
proof (cases "ks = []")
  case True
  then have "filter_rep create (GenerateFilter create b) (segs @ [(ks, [])]) []"
    using rep offsets_snoc [of segs "(ks, [])"] by (auto simp: filter_rep_def GenerateFilter_def Let_def segment_ok_def)
  then show ?thesis by blast
next
  case False
  let ?start = "fb_start b @ [length (fb_keys b)]"
  have start: "?start ! i = length (concat (take i ks))" if "i \<le> length ks" for i
    using rep that by (auto simp: filter_rep_def nth_append)
  have "map (\<lambda>i. take (?start ! (i + 1) - ?start ! i) (drop (?start ! i) (fb_keys b))) [0..<length ks] = ks"
    using rep take_flattened [of _ ks] start by (intro nth_equalityI) (simp_all add: filter_rep_def)
  moreover have "length (fb_start b) = length ks" using rep by (simp add: filter_rep_def)
  ultimately have gen: "GenerateFilter create b = b\<lparr>fb_filter_offsets := fb_filter_offsets b @ [of_nat (length (fb_result b))],
      fb_result := create ks (fb_result b), fb_keys := [], fb_start := []\<rparr>"
    using False by (simp add: GenerateFilter_def Let_def)
  obtain f where f: "create ks (fb_result b) = fb_result b @ f" using create_appends by blast
  then have "segment_ok create (ks, f)"
    unfolding segment_ok_def by (auto intro!: exI [of _ "fb_result b"])
  then have "filter_rep create (GenerateFilter create b) (segs @ [(ks, f)]) []"
    using rep offsets_snoc [of segs "(ks, f)"] f by (auto simp: filter_rep_def gen)
  then show ?thesis by blast
qed

lemma start_block_loop_rep:
  "filter_rep create b segs ks \<Longrightarrow> length segs \<le> n \<Longrightarrow>
    \<exists>segs' ks'. filter_rep create (start_block_loop create n b) segs' ks' \<and> length segs' = n \<and>
      (\<forall>i. keys_at segs ks i \<subseteq> keys_at segs' ks' i) \<and> concat (map fst segs' @ [ks']) = concat (map fst segs @ [ks])"
proof (induction "n - length segs" arbitrary: b segs ks rule: less_induct)
  case less
  have len: "length (fb_filter_offsets b) = length segs" using less.prems(1) by (simp add: filter_rep_def)
  show ?case
  proof (cases "length segs < n")
    case False
    then have "start_block_loop create n b = b" using len less.prems(2) by (subst start_block_loop.simps) simp
    then show ?thesis using less.prems False by auto
  next
    case True
    obtain f where f: "filter_rep create (GenerateFilter create b) (segs @ [(ks, f)]) []"
      using GenerateFilter_rep [OF less.prems(1)] by blast
    have shorter: "n - length (segs @ [(ks, f)]) < n - length segs" using True by simp
    have "start_block_loop create n b = start_block_loop create n (GenerateFilter create b)"
      using len True by (subst start_block_loop.simps) simp
    moreover obtain segs' ks' where "filter_rep create (start_block_loop create n (GenerateFilter create b)) segs' ks'"
      "length segs' = n" "\<forall>i. keys_at (segs @ [(ks, f)]) [] i \<subseteq> keys_at segs' ks' i"
      "concat (map fst segs' @ [ks']) = concat (map fst (segs @ [(ks, f)]) @ [[]])"
      using less.hyps [OF shorter f] True by auto
    moreover have "keys_at segs ks i \<subseteq> keys_at (segs @ [(ks, f)]) [] i" for i
      by (auto simp: keys_at_def nth_append less_Suc_eq)
    ultimately show ?thesis by (intro exI [of _ segs'] exI [of _ ks']) auto
  qed
qed

lemma StartBlock_rep:
  assumes "filter_rep create b segs ks" "length segs \<le> unat off div 2048"
  shows "\<exists>segs' ks'. filter_rep create (StartBlock create b off) segs' ks' \<and> length segs' = unat off div 2048 \<and>
      (\<forall>i. keys_at segs ks i \<subseteq> keys_at segs' ks' i) \<and> concat (map fst segs' @ [ks']) = concat (map fst segs @ [ks])"
proof -
  have "unat (off div kFilterBase) = unat off div 2048" by (simp add: kFilterBase_def kFilterBaseLg_def unat_div)
  then show ?thesis using start_block_loop_rep [OF assms] by (simp add: StartBlock_def)
qed

end

lemma AddKeys_rep:
  "filter_rep create b segs ks \<Longrightarrow> filter_rep create (fold (\<lambda>k b. AddKey b k) keys b) segs (ks @ keys)"
  by (induction keys arbitrary: b ks) (simp, drule AddKey_rep, fastforce)

text \<open>The calls a table builder makes: for every block its offset, then its keys.\<close>

definition filter_blocks ::
  "(byte list list \<Rightarrow> byte list \<Rightarrow> byte list) \<Rightarrow> (64 word \<times> byte list list) list \<Rightarrow> FilterBlockBuilder \<Rightarrow> FilterBlockBuilder"
  where
  "filter_blocks create = fold (\<lambda>(off, keys) b. fold (\<lambda>k b. AddKey b k) keys (StartBlock create b off))"

context filter_policy begin

lemma filter_blocks_rep:
  "sorted (map fst blocks) \<Longrightarrow>
    \<exists>segs ks. filter_rep create (filter_blocks create blocks make_FilterBlockBuilder) segs ks \<and>
      (\<forall>(off, keys)\<in>set blocks. set keys \<subseteq> keys_at segs ks (unat off div 2048) \<and> length segs \<le> unat (fst (last blocks)) div 2048) \<and>
      (blocks = [] \<longrightarrow> segs = []) \<and> concat (map fst segs @ [ks]) = concat (map snd blocks)"
proof (induction blocks rule: rev_induct)
  case Nil
  then show ?case using make_FilterBlockBuilder_rep
    by (intro exI [of _ "[]"] exI [of _ "[]"]) (simp add: filter_blocks_def)
next
  case (snoc x blocks)
  obtain off keys where x: "x = (off, keys)" by (cases x)
  let ?b = "filter_blocks create blocks make_FilterBlockBuilder"
  obtain segs ks where r: "filter_rep create ?b segs ks"
    "\<forall>(off, keys)\<in>set blocks. set keys \<subseteq> keys_at segs ks (unat off div 2048) \<and> length segs \<le> unat (fst (last blocks)) div 2048"
    "blocks = [] \<longrightarrow> segs = []" "concat (map fst segs @ [ks]) = concat (map snd blocks)"
    using snoc by (auto simp: sorted_append)
  have "length segs \<le> unat off div 2048"
  proof (cases "blocks = []")
    case False
    then have "fst (last blocks) \<le> off" using snoc.prems x by (auto simp: sorted_append)
    then have "unat (fst (last blocks)) div 2048 \<le> unat off div 2048" by (simp add: word_le_nat_alt div_le_mono)
    moreover have "last blocks \<in> set blocks" using False by simp
    ultimately show ?thesis using r(2) by (cases "last blocks") fastforce
  qed (use r(3) in simp)
  from StartBlock_rep [OF r(1) this] obtain segs' ks' where q: "filter_rep create (StartBlock create ?b off) segs' ks'"
    "length segs' = unat off div 2048" "\<forall>i. keys_at segs ks i \<subseteq> keys_at segs' ks' i"
    "concat (map fst segs' @ [ks']) = concat (map fst segs @ [ks])" by blast
  have more: "keys_at segs' ks' i \<subseteq> keys_at segs' (ks' @ keys) i" for i by (simp add: keys_at_def)
  have "set keys \<subseteq> keys_at segs' (ks' @ keys) (unat off div 2048)" using q(2) by (simp add: keys_at_def)
  moreover have "set keys' \<subseteq> keys_at segs' (ks' @ keys) (unat off' div 2048)" if "(off', keys') \<in> set blocks" for off' keys'
    using r(2) q(3) more that by fast
  moreover have "filter_rep create (filter_blocks create (blocks @ [x]) make_FilterBlockBuilder) segs' (ks' @ keys)"
    using AddKeys_rep [OF q(1), of keys] by (simp add: filter_blocks_def x)
  moreover have "concat (map fst segs' @ [ks' @ keys]) = concat (map snd (blocks @ [x]))"
    using q(4) r(4) x by simp
  ultimately show ?case using q(2) x by (intro exI [of _ segs'] exI [of _ "ks' @ keys"]) auto
qed

lemma Finish_rep:
  assumes "filter_rep create b segs ks"
  shows "\<exists>segs'. fst (FilterBlock_Finish create b) =
      concat (map snd segs') @ concat (map (\<lambda>i. EncodeFixed32 (of_nat (segment_offset segs' i))) [0..<length segs']) @
      EncodeFixed32 (of_nat (length (concat (map snd segs')))) @ [11] \<and>
    (\<forall>s\<in>set segs'. segment_ok create s) \<and> (\<forall>i. keys_at segs ks i \<subseteq> keys_at segs' [] i) \<and>
    concat (map fst segs') = concat (map fst segs @ [ks])"
proof -
  have fin: "fst (FilterBlock_Finish create b) =
      concat (map snd segs') @ concat (map (\<lambda>i. EncodeFixed32 (of_nat (segment_offset segs' i))) [0..<length segs']) @
      EncodeFixed32 (of_nat (length (concat (map snd segs')))) @ [11]"
    if "filter_rep create (if fb_start b \<noteq> [] then GenerateFilter create b else b) segs' []" for segs'
    using that by (simp add: filter_rep_def FilterBlock_Finish_def Let_def PutFixed32_def fold_PutFixed32 kFilterBaseLg_def comp_def)
  show ?thesis
  proof (cases "ks = []")
    case True
    then have "fb_start b = []" using assms by (simp add: filter_rep_def)
    then show ?thesis using fin [of segs] assms True
      by (intro exI [of _ segs]) (auto simp: filter_rep_def keys_at_def)
  next
    case False
    then have s: "fb_start b \<noteq> []" using assms by (simp add: filter_rep_def)
    obtain f where f: "filter_rep create (GenerateFilter create b) (segs @ [(ks, f)]) []"
      using GenerateFilter_rep [OF assms] by blast
    have "keys_at segs ks i \<subseteq> keys_at (segs @ [(ks, f)]) [] i" for i
      by (auto simp: keys_at_def nth_append less_Suc_eq)
    then show ?thesis using fin [of "segs @ [(ks, f)]"] f s
      by (intro exI [of _ "segs @ [(ks, f)]"]) (auto simp: filter_rep_def)
  qed
qed

end

text \<open>The reader over these bytes.\<close>

lemma reader_over:
  fixes segs :: "(byte list list \<times> byte list) list"
  defines "fs \<equiv> concat (map snd segs)"
  defines "contents \<equiv> fs @ concat (map (\<lambda>i. EncodeFixed32 (of_nat (segment_offset segs i))) [0..<length segs]) @
    EncodeFixed32 (of_nat (length fs)) @ [11]"
  assumes small: "length contents < 2 ^ 32"
  shows "make_FilterBlockReader contents =
      \<lparr>fr_data = contents, fr_offset = length fs, fr_num = length segs, fr_base_lg = 11\<rparr>" (is ?reader)
    and "i < length segs \<Longrightarrow> unat off div 2048 = i \<Longrightarrow>
      FilterBlock_KeyMayMatch may_match (make_FilterBlockReader contents) off key = Some (may_match key (snd (segs ! i)))"
proof -
  let ?m = "length segs" and ?enc = "\<lambda>i. EncodeFixed32 (of_nat (segment_offset segs i))"
  have last: "segment_offset segs ?m = length fs" by (simp add: segment_offset_def fs_def)
  have arr: "contents = fs @ concat (map ?enc [0..<Suc ?m]) @ [11]" by (simp add: contents_def last)
  have len_arr: "length (concat (map ?enc l)) = 4 * length l" for l by (induction l) simp_all
  have len: "length contents = length fs + 4 * ?m + 5" by (simp add: contents_def len_arr)
  have "contents = (fs @ concat (map ?enc [0..<?m])) @ EncodeFixed32 (of_nat (length fs)) @ [11]"
    by (simp add: contents_def)
  moreover have "length (fs @ concat (map ?enc [0..<?m])) = length contents - 5" using len by (simp add: len_arr)
  ultimately have tail: "drop (length contents - 5) contents = EncodeFixed32 (of_nat (length fs)) @ [11]"
    by (metis append_eq_conv_conj)
  have u: "unat (of_nat (segment_offset segs j) :: 32 word) = segment_offset segs j" if "j \<le> ?m" for j
  proof -
    have "fs = concat (map snd (take j segs)) @ concat (map snd (drop j segs))"
      unfolding fs_def by (metis append_take_drop_id concat_append map_append)
    then have "segment_offset segs j \<le> length fs" by (simp add: segment_offset_def)
    then show ?thesis using small len by (intro unat_small32) linarith
  qed
  have "contents ! (length contents - 1) = 11" by (simp add: arr nth_append len_arr)
  then show r: ?reader
    using tail u [of ?m] last len by (simp add: make_FilterBlockReader_def Let_def)
  have word: "unat (DecodeFixed32 (drop (length fs + j * 4) contents)) = segment_offset segs j" if "j \<le> ?m" for j
  proof -
    have "drop (length fs + j * 4) contents = drop (4 * j) (concat (map ?enc [0..<Suc ?m]) @ [11])"
      by (simp add: arr mult.commute del: upt_Suc)
    also have "\<dots> = ?enc ([0..<Suc ?m] ! j) @ concat (map ?enc (drop (Suc j) [0..<Suc ?m])) @ [11]"
      by (rule drop_fixed) (use that in simp)
    finally show ?thesis using that u [OF that] by (simp del: upt_Suc)
  qed
  assume i: "i < ?m" "unat off div 2048 = i"
  have n64: "(64 :: 64 word) \<le> 11 \<longleftrightarrow> False" by simp
  have index: "unat (drop_bit (unat (11 :: 64 word)) off) = i" using i(2) by (simp add: drop_bit_eq_div unat_div)
  have parts: "fs = concat (map snd (take i segs)) @ snd (segs ! i) @ concat (map snd (drop (Suc i) segs))"
  proof -
    have "segs = take i segs @ segs ! i # drop (Suc i) segs" by (rule id_take_nth_drop [OF i(1)])
    then have "map snd segs = map snd (take i segs) @ snd (segs ! i) # map snd (drop (Suc i) segs)"
      by (metis list.simps(9) map_append)
    then show ?thesis by (simp add: fs_def)
  qed
  have next_off: "segment_offset segs (Suc i) = segment_offset segs i + length (snd (segs ! i))"
    using i(1) by (simp add: segment_offset_def take_Suc_conv_app_nth)
  have "take (segment_offset segs (Suc i) - segment_offset segs i) (drop (segment_offset segs i) contents) = snd (segs ! i)"
  proof -
    define A where "A = concat (map snd (take i segs))"
    obtain rest where "contents = A @ snd (segs ! i) @ rest" by (metis parts A_def arr append_assoc)
    moreover have "segment_offset segs i = length A" by (simp add: A_def segment_offset_def)
    ultimately show ?thesis unfolding next_off by simp
  qed
  moreover have "segment_offset segs (Suc i) \<le> length fs"
    using arg_cong [OF parts, of length] unfolding next_off by (simp add: segment_offset_def)
  ultimately show "FilterBlock_KeyMayMatch may_match (make_FilterBlockReader contents) off key =
      Some (may_match key (snd (segs ! i)))"
    using word [of i] word [of "Suc i"] i(1) next_off
    unfolding r FilterBlock_KeyMayMatch_def Let_def FilterBlockReader.simps index n64 if_False
    by (simp add: add.commute add.left_commute)
qed

context filter_policy begin

lemma filter_block_keeps:
  assumes sorted: "sorted (map fst blocks)" and block: "(off, keys) \<in> set blocks" and key: "key \<in> set keys"
    and few: "length (concat (map snd blocks)) < max_keys"
    and small: "length (fst (FilterBlock_Finish create (filter_blocks create blocks make_FilterBlockBuilder))) < 2 ^ 32"
  shows "FilterBlock_KeyMayMatch may_match
    (make_FilterBlockReader (fst (FilterBlock_Finish create (filter_blocks create blocks make_FilterBlockBuilder)))) off key = Some True"
proof -
  obtain segs ks where r: "filter_rep create (filter_blocks create blocks make_FilterBlockBuilder) segs ks"
    "set keys \<subseteq> keys_at segs ks (unat off div 2048)" "concat (map fst segs @ [ks]) = concat (map snd blocks)"
    using filter_blocks_rep [OF sorted] block by blast
  obtain segs' where q: "fst (FilterBlock_Finish create (filter_blocks create blocks make_FilterBlockBuilder)) =
      concat (map snd segs') @ concat (map (\<lambda>i. EncodeFixed32 (of_nat (segment_offset segs' i))) [0..<length segs']) @
      EncodeFixed32 (of_nat (length (concat (map snd segs')))) @ [11]"
    "\<forall>s\<in>set segs'. segment_ok create s" "\<forall>i. keys_at segs ks i \<subseteq> keys_at segs' [] i"
    "concat (map fst segs') = concat (map fst segs @ [ks])"
    using Finish_rep [OF r(1)] by blast
  define i where "i = unat off div 2048"
  have "key \<in> keys_at segs' [] i" using r(2) q(3) key unfolding i_def by blast
  then have i: "i < length segs'" "key \<in> set (fst (segs' ! i))" by (auto simp: keys_at_def split: if_splits)
  have mem: "segs' ! i \<in> set segs'" using i(1) by simp
  then obtain xs ys where split: "segs' = xs @ segs' ! i # ys" by (metis split_list)
  have "length (fst (segs' ! i)) \<le> length (concat (map fst segs'))" by (subst (2) split) simp
  then have "length (fst (segs' ! i)) < max_keys" using few unfolding q(4) r(3) by simp
  moreover obtain ks' f where s: "segs' ! i = (ks', f)" by (cases "segs' ! i")
  ultimately have "may_match key f"
    using q(2) mem i(2) no_false_negative [of key ks'] by (auto simp: segment_ok_def)
  moreover have "FilterBlock_KeyMayMatch may_match
      (make_FilterBlockReader (fst (FilterBlock_Finish create (filter_blocks create blocks make_FilterBlockBuilder)))) off key =
      Some (may_match key (snd (segs' ! i)))"
    unfolding q(1) by (rule reader_over(2) [OF _ i(1)]) (use small q(1) i_def in simp_all)
  ultimately show ?thesis using s by simp
qed

end

text \<open>
  C34: The filter block of a table never loses a key: built with the Bloom filter over internal keys from the
  blocks of a table in the order of their offsets, it lets every key of every block pass at the
  offset of its block, and reading it shifts by less than the width of the word.
\<close>
theorem filter_block_no_false_negative:
  fixes bpk probes
  defines "create \<equiv> InternalCreateFilter (CreateFilter (make_BloomFilterPolicy bpk probes))"
  assumes "sorted (map fst blocks)" "(off, keys) \<in> set blocks" "key \<in> set keys"
    and "unat bpk < 2 ^ 31" "length (concat (map snd blocks)) < 2 ^ 31"
    and "length (fst (FilterBlock_Finish create (filter_blocks create blocks make_FilterBlockBuilder))) < 2 ^ 32"
  shows "FilterBlock_KeyMayMatch (InternalKeyMayMatch KeyMayMatch)
    (make_FilterBlockReader (fst (FilterBlock_Finish create (filter_blocks create blocks make_FilterBlockBuilder)))) off key = Some True"
  unfolding create_def
  by (rule internal_bloom.filter_block_keeps [OF assms(2-4)]) (use assms in \<open>simp_all add: bloom_max_keys_def\<close>)

theorem filter_block_no_false_negative_witness:
  "FilterBlock_KeyMayMatch (InternalKeyMayMatch KeyMayMatch)
    (make_FilterBlockReader (fst (FilterBlock_Finish (InternalCreateFilter (CreateFilter (make_BloomFilterPolicy 10 6)))
      (filter_blocks (InternalCreateFilter (CreateFilter (make_BloomFilterPolicy 10 6)))
        [(0, [[1, 0, 0, 0, 0, 0, 0, 0, 0]])] make_FilterBlockBuilder)))) 0 [1, 0, 0, 0, 0, 0, 0, 0, 0] = Some True"
proof -
  have "length (fst (FilterBlock_Finish (InternalCreateFilter (CreateFilter (make_BloomFilterPolicy 10 6)))
      (filter_blocks (InternalCreateFilter (CreateFilter (make_BloomFilterPolicy 10 6)))
        [(0, [[1, 0, 0, 0, 0, 0, 0, 0, 0]])] make_FilterBlockBuilder))) < 2 ^ 32"
    by (simp add: FilterBlock_Finish_def filter_blocks_def StartBlock_def start_block_loop.simps GenerateFilter_def AddKey_def
        InternalCreateFilter_def CreateFilter_def make_FilterBlockBuilder_def make_BloomFilterPolicy_def PutFixed32_def Let_def
        kFilterBase_def)
  then show ?thesis
    using filter_block_no_false_negative [of "[(0, [[1, 0, 0, 0, 0, 0, 0, 0, 0]])]" 0 "[[1, 0, 0, 0, 0, 0, 0, 0, 0]]"
        "[1, 0, 0, 0, 0, 0, 0, 0, 0]" 10 6] by simp
qed

end
