(* ===== verification/Ldb_Format.thy ===== *)
theory Ldb_Format
  imports Ldb_Coding Ldb_Crc32c Ldb_Status
begin

text \<open>
  The frame of a table file (\<^verbatim>\<open>table/format.h\<close>, \<^verbatim>\<open>table/format.cc\<close>): block handles, the footer, and
  reading one block with its type byte and checksum. A file that is read at random is the function
  from an offset and a length to a status and the bytes; the compression library is a parameter.
\<close>

section \<open>Handles and footers\<close>

record BlockHandle =
  bh_offset :: "64 word"
  bh_size :: "64 word"

definition make_BlockHandle :: BlockHandle where
  "make_BlockHandle = \<lparr>bh_offset = NOT 0, bh_size = NOT 0\<rparr>"

definition kMaxEncodedLength :: nat where "kMaxEncodedLength = 10 + 10"

definition BlockHandle_EncodeTo :: "BlockHandle \<Rightarrow> byte list \<Rightarrow> byte list" where
  "BlockHandle_EncodeTo h dst = PutVarint64 (PutVarint64 dst (bh_offset h)) (bh_size h)"

text \<open>The status, the handle (which keeps what an error left of it) and the rest of the input.\<close>

definition BlockHandle_DecodeFrom :: "BlockHandle \<Rightarrow> byte list \<Rightarrow> Status \<times> BlockHandle \<times> byte list" where
  "BlockHandle_DecodeFrom h inp =
     (case GetVarint64 inp of
        None \<Rightarrow> (Status_Corruption (ascii ''bad block handle'') [], h, inp)
      | Some (offset, inp) \<Rightarrow>
          (case GetVarint64 inp of
             None \<Rightarrow> (Status_Corruption (ascii ''bad block handle'') [], h\<lparr>bh_offset := offset\<rparr>, inp)
           | Some (size1, inp) \<Rightarrow> (Status_OK, h\<lparr>bh_offset := offset, bh_size := size1\<rparr>, inp)))"

record Footer =
  ft_metaindex_handle :: BlockHandle
  ft_index_handle :: BlockHandle

definition make_Footer :: Footer where
  "make_Footer = \<lparr>ft_metaindex_handle = make_BlockHandle, ft_index_handle = make_BlockHandle\<rparr>"

definition kEncodedLength :: nat where "kEncodedLength = 2 * kMaxEncodedLength + 8"

definition kTableMagicNumber :: "64 word" where "kTableMagicNumber = 0xdb4775248b80fb57"

definition kBlockTrailerSize :: nat where "kBlockTrailerSize = 5"

text \<open>\<^verbatim>\<open>resize\<close> cuts a string or fills it with zeros.\<close>

definition resize :: "nat \<Rightarrow> byte list \<Rightarrow> byte list" where
  "resize n xs = take n xs @ replicate (n - length xs) 0"

definition Footer_EncodeTo :: "Footer \<Rightarrow> byte list \<Rightarrow> byte list" where
  "Footer_EncodeTo f dst =
     (let dst = BlockHandle_EncodeTo (ft_metaindex_handle f) dst;
          dst = BlockHandle_EncodeTo (ft_index_handle f) dst;
          dst = resize (2 * kMaxEncodedLength) dst;
          dst = PutFixed32 dst (ucast (kTableMagicNumber AND 0xffffffff))
      in PutFixed32 dst (ucast (drop_bit 32 kTableMagicNumber)))"

definition Footer_DecodeFrom :: "Footer \<Rightarrow> byte list \<Rightarrow> Status \<times> Footer \<times> byte list" where
  "Footer_DecodeFrom f inp =
     (let magic_ptr = drop (kEncodedLength - 8) inp;
          magic_lo = DecodeFixed32 magic_ptr;
          magic_hi = DecodeFixed32 (drop 4 magic_ptr);
          magic = push_bit 32 (ucast magic_hi) OR ucast magic_lo :: 64 word
      in if magic \<noteq> kTableMagicNumber
         then (Status_Corruption (ascii ''not an sstable (bad magic number)'') [], f, inp)
         else let (s, h, inp1) = BlockHandle_DecodeFrom (ft_metaindex_handle f) inp;
                  f = f\<lparr>ft_metaindex_handle := h\<rparr>
              in if \<not> Status_ok s then (s, f, inp1)
                 else let (s, h, inp2) = BlockHandle_DecodeFrom (ft_index_handle f) inp1;
                          f = f\<lparr>ft_index_handle := h\<rparr>
                      in (s, f, if Status_ok s then drop 8 magic_ptr else inp2))"

section \<open>Reading a block\<close>

definition kNoCompression :: byte where "kNoCompression = 0"
definition kSnappyCompression :: byte where "kSnappyCompression = 1"

text \<open>
  The compression library: no result stands for \<^verbatim>\<open>false\<close>. The pod is built without it
  (\<^verbatim>\<open>port/port_posix.h\<close>).
\<close>

record Snappy =
  sn_Compress :: "byte list \<Rightarrow> byte list option"
  sn_GetUncompressedLength :: "byte list \<Rightarrow> nat option"
  sn_Uncompress :: "byte list \<Rightarrow> byte list option"

definition port_Snappy :: Snappy where
  "port_Snappy = \<lparr>sn_Compress = (\<lambda>_. None), sn_GetUncompressedLength = (\<lambda>_. None), sn_Uncompress = (\<lambda>_. None)\<rparr>"

type_synonym RandomAccessFile = "64 word \<Rightarrow> nat \<Rightarrow> Status \<times> byte list"

record BlockContents =
  bc_data :: "byte list"
  bc_cachable :: bool
  bc_heap_allocated :: bool

text \<open>
  \<open>own_buffer\<close> says whether the file hands out the caller's buffer rather than memory of its own; it
  decides only who owns the contents.
\<close>

definition ReadBlock ::
  "Snappy \<Rightarrow> bool \<Rightarrow> RandomAccessFile \<Rightarrow> bool \<Rightarrow> BlockHandle \<Rightarrow> Status \<times> BlockContents" where
  "ReadBlock snappy own_buffer file verify_checksums handle =
     (let result = \<lparr>bc_data = [], bc_cachable = False, bc_heap_allocated = False\<rparr>;
          n = unat (bh_size handle);
          (s, contents) = file (bh_offset handle) (n + kBlockTrailerSize)
      in if \<not> Status_ok s then (s, result)
         else if length contents \<noteq> n + kBlockTrailerSize
         then (Status_Corruption (ascii ''truncated block read'') [], result)
         else if verify_checksums \<and> Value 0 (take (n + 1) contents) \<noteq> Unmask (DecodeFixed32 (drop (n + 1) contents))
         then (Status_Corruption (ascii ''block checksum mismatch'') [], result)
         else if contents ! n = kNoCompression
         then (Status_OK, \<lparr>bc_data = take n contents, bc_cachable = own_buffer, bc_heap_allocated = own_buffer\<rparr>)
         else if contents ! n = kSnappyCompression
         then (case sn_GetUncompressedLength snappy (take n contents) of
                 None \<Rightarrow> (Status_Corruption (ascii ''corrupted compressed block contents'') [], result)
               | Some ulength \<Rightarrow>
                   (case sn_Uncompress snappy (take n contents) of
                      None \<Rightarrow> (Status_Corruption (ascii ''corrupted compressed block contents'') [], result)
                    | Some ubuf \<Rightarrow>
                        (Status_OK, \<lparr>bc_data = resize ulength ubuf, bc_cachable = True, bc_heap_allocated = True\<rparr>)))
         else (Status_Corruption (ascii ''bad block type'') [], result))"

section \<open>Round trips\<close>

lemma BlockHandle_Decode_Encode:
  "BlockHandle_DecodeFrom h0 (BlockHandle_EncodeTo h [] @ rest) = (Status_OK, h, rest)"
  by (simp add: BlockHandle_DecodeFrom_def BlockHandle_EncodeTo_def PutVarint64_def)

lemma length_EncodeVarint64: "length (EncodeVarint64 v) \<le> 10"
  by (simp add: EncodeVarint64_leb128 length_leb128_word)

lemma length_handle: "length (BlockHandle_EncodeTo h []) \<le> 20"
  using length_EncodeVarint64 [of "bh_offset h"] length_EncodeVarint64 [of "bh_size h"]
  by (simp add: BlockHandle_EncodeTo_def PutVarint64_def)

lemma BlockHandle_EncodeTo_append: "BlockHandle_EncodeTo h dst = dst @ BlockHandle_EncodeTo h []"
  by (simp add: BlockHandle_EncodeTo_def PutVarint64_def)

lemma Footer_EncodeTo_shape:
  "\<exists>pad. Footer_EncodeTo f [] =
    (BlockHandle_EncodeTo (ft_metaindex_handle f) [] @ BlockHandle_EncodeTo (ft_index_handle f) [] @ pad) @
    EncodeFixed32 0x8b80fb57 @ EncodeFixed32 0xdb477524 \<and>
    length (BlockHandle_EncodeTo (ft_metaindex_handle f) [] @ BlockHandle_EncodeTo (ft_index_handle f) [] @ pad) = 40"
proof -
  let ?hs = "BlockHandle_EncodeTo (ft_metaindex_handle f) [] @ BlockHandle_EncodeTo (ft_index_handle f) []"
  have "length ?hs \<le> 40"
    using length_handle [of "ft_metaindex_handle f"] length_handle [of "ft_index_handle f"] by simp
  then have "resize 40 ?hs = ?hs @ replicate (40 - length ?hs) 0" "length ?hs + (40 - length ?hs) = 40"
    by (simp_all add: resize_def)
  moreover have "(ucast (kTableMagicNumber AND 0xffffffff) :: 32 word) = 0x8b80fb57"
    "(ucast (drop_bit 32 kTableMagicNumber) :: 32 word) = 0xdb477524"
    by (simp_all add: kTableMagicNumber_def)
  ultimately show ?thesis
    by (intro exI [of _ "replicate (40 - length ?hs) 0"])
      (simp add: Footer_EncodeTo_def Let_def PutFixed32_def kMaxEncodedLength_def
        BlockHandle_EncodeTo_append [of _ "BlockHandle_EncodeTo _ _"])
qed

lemma Footer_Decode_Encode:
  "length (Footer_EncodeTo f []) = kEncodedLength"
  "Footer_DecodeFrom f0 (Footer_EncodeTo f []) = (Status_OK, f, [])"
proof -
  obtain pad where f: "Footer_EncodeTo f [] =
    (BlockHandle_EncodeTo (ft_metaindex_handle f) [] @ BlockHandle_EncodeTo (ft_index_handle f) [] @ pad) @
    EncodeFixed32 0x8b80fb57 @ EncodeFixed32 0xdb477524"
    "length (BlockHandle_EncodeTo (ft_metaindex_handle f) [] @ BlockHandle_EncodeTo (ft_index_handle f) [] @ pad) = 40"
    using Footer_EncodeTo_shape by blast
  then show "length (Footer_EncodeTo f []) = kEncodedLength" by (simp add: kEncodedLength_def kMaxEncodedLength_def)
  have "drop 40 (Footer_EncodeTo f []) = EncodeFixed32 0x8b80fb57 @ EncodeFixed32 0xdb477524"
    unfolding f(1) using f(2) by (metis append_eq_conv_conj)
  then have magic: "drop (kEncodedLength - 8) (Footer_EncodeTo f []) = EncodeFixed32 0x8b80fb57 @ EncodeFixed32 0xdb477524"
    by (simp add: kEncodedLength_def kMaxEncodedLength_def)
  have dec: "DecodeFixed32 (EncodeFixed32 v @ r) = v" "DecodeFixed32 (EncodeFixed32 v) = v" for v r
    by simp_all
  have m: "(push_bit 32 (ucast (0xdb477524 :: 32 word)) OR ucast (0x8b80fb57 :: 32 word)) = kTableMagicNumber"
    by (simp add: kTableMagicNumber_def)
  show "Footer_DecodeFrom f0 (Footer_EncodeTo f []) = (Status_OK, f, [])"
    unfolding Footer_DecodeFrom_def Let_def magic
    using m by (simp add: f(1) BlockHandle_Decode_Encode Status_ok_def Status_OK_def)
qed

end
