(* ===== verification/Ldb_Table_Builder.thy ===== *)
theory Ldb_Table_Builder
  imports Ldb_Block_Theorems Ldb_Filter_Block Ldb_Format Ldb_Log
begin

text \<open>
  Building a table file (\<^verbatim>\<open>table/table_builder.cc\<close>): data blocks, the index over them, an optional
  filter block, the metaindex and the footer, appended to a file. The assertions of the code are part
  of the model: an operation that violates one has no result.
\<close>

section \<open>Options\<close>

text \<open>A comparator and a filter policy are their methods; the comparator's address is its identity.\<close>

record Comparator =
  cm_address :: nat
  cm_Name :: "byte list"
  cm_Compare :: "byte list \<Rightarrow> byte list \<Rightarrow> int"
  cm_FindShortestSeparator :: "byte list \<Rightarrow> byte list \<Rightarrow> byte list"
  cm_FindShortSuccessor :: "byte list \<Rightarrow> byte list"

definition BytewiseComparator :: Comparator where
  "BytewiseComparator = \<lparr>cm_address = 0, cm_Name = ascii ''leveldb.BytewiseComparator'', cm_Compare = Bytewise_Compare,
     cm_FindShortestSeparator = Bytewise_FindShortestSeparator, cm_FindShortSuccessor = Bytewise_FindShortSuccessor\<rparr>"

record FilterPolicy =
  fp_Name :: "byte list"
  fp_CreateFilter :: "byte list list \<Rightarrow> byte list \<Rightarrow> byte list"
  fp_KeyMayMatch :: "byte list \<Rightarrow> byte list \<Rightarrow> bool"

text \<open>The policies and comparators of the library; the number of probes is that of \<open>Ldb_Bloom\<close>.\<close>

definition NewBloomFilterPolicy :: "64 word \<Rightarrow> 64 word \<Rightarrow> FilterPolicy" where
  "NewBloomFilterPolicy bpk probes = \<lparr>fp_Name = ascii ''leveldb.BuiltinBloomFilter2'',
     fp_CreateFilter = CreateFilter (make_BloomFilterPolicy bpk probes), fp_KeyMayMatch = KeyMayMatch\<rparr>"

definition InternalFilterPolicy :: "FilterPolicy \<Rightarrow> FilterPolicy" where
  "InternalFilterPolicy p = \<lparr>fp_Name = fp_Name p, fp_CreateFilter = InternalCreateFilter (fp_CreateFilter p),
     fp_KeyMayMatch = InternalKeyMayMatch (fp_KeyMayMatch p)\<rparr>"

definition InternalKeyComparator :: "nat \<Rightarrow> Comparator \<Rightarrow> Comparator" where
  "InternalKeyComparator address c = \<lparr>cm_address = address, cm_Name = ascii ''leveldb.InternalKeyComparator'',
     cm_Compare = InternalKeyCompare (cm_Compare c),
     cm_FindShortestSeparator = InternalFindShortestSeparator (cm_Compare c) (cm_FindShortestSeparator c),
     cm_FindShortSuccessor = InternalFindShortSuccessor (cm_Compare c) (cm_FindShortSuccessor c)\<rparr>"

text \<open>The options that tables depend on.\<close>

record Options =
  op_comparator :: Comparator
  op_paranoid_checks :: bool
  op_block_size :: nat
  op_block_restart_interval :: int
  op_compression :: byte
  op_filter_policy :: "FilterPolicy option"

definition make_Options :: Options where
  "make_Options = \<lparr>op_comparator = BytewiseComparator, op_paranoid_checks = False, op_block_size = 4096,
     op_block_restart_interval = 16, op_compression = kSnappyCompression, op_filter_policy = None\<rparr>"

section \<open>The builder\<close>

text \<open>The filter block builder keeps the policy it was made with.\<close>

record 'f TableBuilder =
  tb_options :: Options
  tb_index_block_options :: Options
  tb_file :: 'f
  tb_offset :: "64 word"
  tb_status :: Status
  tb_data_block :: BlockBuilder
  tb_index_block :: BlockBuilder
  tb_last_key :: "byte list"
  tb_num_entries :: "64 word"
  tb_closed :: bool
  tb_filter_block :: "(FilterPolicy \<times> FilterBlockBuilder) option"
  tb_pending_index_entry :: bool
  tb_pending_handle :: BlockHandle

definition make_TableBuilder :: "Options \<Rightarrow> 'f \<Rightarrow> 'f TableBuilder" where
  "make_TableBuilder options f =
     \<lparr>tb_options = options, tb_index_block_options = options\<lparr>op_block_restart_interval := 1\<rparr>, tb_file = f,
      tb_offset = 0, tb_status = Status_OK, tb_data_block = make_BlockBuilder, tb_index_block = make_BlockBuilder,
      tb_last_key = [], tb_num_entries = 0, tb_closed = False,
      tb_filter_block = (case op_filter_policy options of None \<Rightarrow> None
        | Some policy \<Rightarrow> Some (policy, StartBlock (fp_CreateFilter policy) make_FilterBlockBuilder 0)),
      tb_pending_index_entry = False, tb_pending_handle = make_BlockHandle\<rparr>"

definition tb_ok :: "'f TableBuilder \<Rightarrow> bool" where
  "tb_ok r \<longleftrightarrow> Status_ok (tb_status r)"

definition TableBuilder_ChangeOptions :: "Options \<Rightarrow> 'f TableBuilder \<Rightarrow> Status \<times> 'f TableBuilder" where
  "TableBuilder_ChangeOptions options r =
     (if cm_address (op_comparator options) \<noteq> cm_address (op_comparator (tb_options r))
      then (Status_InvalidArgument (ascii ''changing comparator while building table'') [], r)
      else (Status_OK, r\<lparr>tb_options := options, tb_index_block_options := options\<lparr>op_block_restart_interval := 1\<rparr>\<rparr>))"

definition WriteRawBlock ::
  "'f WritableFile \<Rightarrow> byte list \<Rightarrow> byte \<Rightarrow> 'f TableBuilder \<Rightarrow> BlockHandle \<times> 'f TableBuilder" where
  "WriteRawBlock file block_contents type r =
     (let handle = \<lparr>bh_offset = tb_offset r, bh_size = of_nat (length block_contents)\<rparr>;
          (s, f) = wf_Append file block_contents (tb_file r);
          r = r\<lparr>tb_status := s, tb_file := f\<rparr>
      in if \<not> Status_ok s then (handle, r)
         else let crc = Extend (Value 0 block_contents) 0 [type];
                  trailer = [type] @ EncodeFixed32 (Mask crc);
                  (s, f) = wf_Append file trailer (tb_file r);
                  r = r\<lparr>tb_status := s, tb_file := f\<rparr>
              in if Status_ok s
                 then (handle, r\<lparr>tb_offset := tb_offset r + (of_nat (length block_contents) + of_nat kBlockTrailerSize)\<rparr>)
                 else (handle, r))"

text \<open>What is stored for the bytes of a block, and under which type. An unknown type stores nothing.\<close>

definition compress_block :: "Snappy \<Rightarrow> byte \<Rightarrow> byte list \<Rightarrow> byte list \<times> byte" where
  "compress_block snappy type raw =
     (if type = kNoCompression then (raw, type)
      else if type = kSnappyCompression
      then (case sn_Compress snappy raw of
              None \<Rightarrow> (raw, kNoCompression)
            | Some compressed \<Rightarrow>
                if length compressed < length raw - length raw div 8 then (compressed, type) else (raw, kNoCompression))
      else ([], type))"

text \<open>The block is given back reset.\<close>

definition WriteBlock ::
  "Snappy \<Rightarrow> 'f WritableFile \<Rightarrow> BlockBuilder \<Rightarrow> 'f TableBuilder \<Rightarrow> (BlockHandle \<times> BlockBuilder \<times> 'f TableBuilder) option"
  where
  "WriteBlock snappy file block r =
     (if \<not> tb_ok r then None
      else let (raw, block) = BlockBuilder_Finish block;
               (block_contents, type) = compress_block snappy (op_compression (tb_options r)) raw;
               (handle, r) = WriteRawBlock file block_contents type r
           in Some (handle, BlockBuilder_Reset block, r))"

definition TableBuilder_Flush :: "Snappy \<Rightarrow> 'f WritableFile \<Rightarrow> 'f TableBuilder \<Rightarrow> 'f TableBuilder option" where
  "TableBuilder_Flush snappy file r =
     (if tb_closed r then None
      else if \<not> tb_ok r then Some r
      else if BlockBuilder_empty (tb_data_block r) then Some r
      else if tb_pending_index_entry r then None
      else do {
        (handle, block, r) \<leftarrow> WriteBlock snappy file (tb_data_block r) r;
        let r = r\<lparr>tb_data_block := block, tb_pending_handle := handle\<rparr>;
        let r = (if tb_ok r
                 then let (s, f) = wf_Flush file (tb_file r)
                      in r\<lparr>tb_pending_index_entry := True, tb_status := s, tb_file := f\<rparr>
                 else r);
        Some (case tb_filter_block r of None \<Rightarrow> r
              | Some (policy, fb) \<Rightarrow>
                  r\<lparr>tb_filter_block := Some (policy, StartBlock (fp_CreateFilter policy) fb (tb_offset r))\<rparr>) })"

text \<open>The index entry of the block written last, under a key that separates it from what follows.\<close>

definition add_index_entry :: "byte list \<Rightarrow> 'f TableBuilder \<Rightarrow> 'f TableBuilder" where
  "add_index_entry last_key r =
     r\<lparr>tb_last_key := last_key,
       tb_index_block := BlockBuilder_Add (op_block_restart_interval (tb_index_block_options r)) (tb_index_block r)
         last_key (BlockHandle_EncodeTo (tb_pending_handle r) []),
       tb_pending_index_entry := False\<rparr>"

definition TableBuilder_Add ::
  "Snappy \<Rightarrow> 'f WritableFile \<Rightarrow> byte list \<Rightarrow> byte list \<Rightarrow> 'f TableBuilder \<Rightarrow> 'f TableBuilder option" where
  "TableBuilder_Add snappy file key v r =
     (if tb_closed r then None
      else if \<not> tb_ok r then Some r
      else if 0 <s tb_num_entries r \<and> \<not> 0 < cm_Compare (op_comparator (tb_options r)) key (tb_last_key r) then None
      else if tb_pending_index_entry r \<and> \<not> BlockBuilder_empty (tb_data_block r) then None
      else let r = (if tb_pending_index_entry r
                    then add_index_entry (cm_FindShortestSeparator (op_comparator (tb_options r)) (tb_last_key r) key) r
                    else r);
               r = (case tb_filter_block r of None \<Rightarrow> r
                    | Some (policy, fb) \<Rightarrow> r\<lparr>tb_filter_block := Some (policy, AddKey fb key)\<rparr>);
               r = r\<lparr>tb_last_key := key, tb_num_entries := tb_num_entries r + 1,
                     tb_data_block := BlockBuilder_Add (op_block_restart_interval (tb_options r)) (tb_data_block r) key v\<rparr>
           in if op_block_size (tb_options r) \<le> CurrentSizeEstimate (tb_data_block r)
              then TableBuilder_Flush snappy file r else Some r)"

text \<open>The steps of \<^verbatim>\<open>Finish\<close>; each is skipped after an error. A missing policy is a null pointer.\<close>

definition write_filter_block :: "'f WritableFile \<Rightarrow> 'f TableBuilder \<Rightarrow> BlockHandle \<times> 'f TableBuilder" where
  "write_filter_block file r =
     (case tb_filter_block r of
        Some (policy, fb) \<Rightarrow>
          if tb_ok r
          then let (contents, fb) = FilterBlock_Finish (fp_CreateFilter policy) fb
               in WriteRawBlock file contents kNoCompression (r\<lparr>tb_filter_block := Some (policy, fb)\<rparr>)
          else (make_BlockHandle, r)
      | None \<Rightarrow> (make_BlockHandle, r))"

definition filter_key :: "byte list \<Rightarrow> byte list" where
  "filter_key name = ascii ''filter.'' @ name"

definition write_metaindex_block ::
  "Snappy \<Rightarrow> 'f WritableFile \<Rightarrow> BlockHandle \<Rightarrow> 'f TableBuilder \<Rightarrow> (BlockHandle \<times> 'f TableBuilder) option" where
  "write_metaindex_block snappy file filter_block_handle r =
     (if \<not> tb_ok r then Some (make_BlockHandle, r)
      else do {
        meta_index_block \<leftarrow>
          (case tb_filter_block r of None \<Rightarrow> Some make_BlockBuilder
           | Some _ \<Rightarrow> do { policy \<leftarrow> op_filter_policy (tb_options r);
               Some (BlockBuilder_Add (op_block_restart_interval (tb_options r)) make_BlockBuilder
                 (filter_key (fp_Name policy)) (BlockHandle_EncodeTo filter_block_handle [])) });
        (handle, _, r) \<leftarrow> WriteBlock snappy file meta_index_block r;
        Some (handle, r) })"

definition write_index_block ::
  "Snappy \<Rightarrow> 'f WritableFile \<Rightarrow> 'f TableBuilder \<Rightarrow> (BlockHandle \<times> 'f TableBuilder) option" where
  "write_index_block snappy file r =
     (if \<not> tb_ok r then Some (make_BlockHandle, r)
      else let r = (if tb_pending_index_entry r
                    then add_index_entry (cm_FindShortSuccessor (op_comparator (tb_options r)) (tb_last_key r)) r else r)
           in do { (handle, block, r) \<leftarrow> WriteBlock snappy file (tb_index_block r) r;
                   Some (handle, r\<lparr>tb_index_block := block\<rparr>) })"

definition write_footer :: "'f WritableFile \<Rightarrow> BlockHandle \<Rightarrow> BlockHandle \<Rightarrow> 'f TableBuilder \<Rightarrow> 'f TableBuilder" where
  "write_footer file metaindex_handle index_handle r =
     (if \<not> tb_ok r then r
      else let footer_encoding = Footer_EncodeTo
                 (make_Footer\<lparr>ft_metaindex_handle := metaindex_handle, ft_index_handle := index_handle\<rparr>) [];
               (s, f) = wf_Append file footer_encoding (tb_file r);
               r = r\<lparr>tb_status := s, tb_file := f\<rparr>
           in if Status_ok s then r\<lparr>tb_offset := tb_offset r + of_nat (length footer_encoding)\<rparr> else r)"

definition TableBuilder_Finish ::
  "Snappy \<Rightarrow> 'f WritableFile \<Rightarrow> 'f TableBuilder \<Rightarrow> (Status \<times> 'f TableBuilder) option" where
  "TableBuilder_Finish snappy file r =
     do {
       r \<leftarrow> TableBuilder_Flush snappy file r;
       let r = r\<lparr>tb_closed := True\<rparr>;
       let (filter_block_handle, r) = write_filter_block file r;
       (metaindex_block_handle, r) \<leftarrow> write_metaindex_block snappy file filter_block_handle r;
       (index_block_handle, r) \<leftarrow> write_index_block snappy file r;
       let r = write_footer file metaindex_block_handle index_block_handle r;
       Some (tb_status r, r) }"

definition TableBuilder_Abandon :: "'f TableBuilder \<Rightarrow> 'f TableBuilder option" where
  "TableBuilder_Abandon r = (if tb_closed r then None else Some (r\<lparr>tb_closed := True\<rparr>))"

definition TableBuilder_NumEntries :: "'f TableBuilder \<Rightarrow> 64 word" where
  "TableBuilder_NumEntries r = tb_num_entries r"

definition TableBuilder_FileSize :: "'f TableBuilder \<Rightarrow> 64 word" where
  "TableBuilder_FileSize r = tb_offset r"

end
