(* ===== verification/Ldb_Two_Level.thy ===== *)
theory Ldb_Two_Level
  imports Ldb_Iterator Ldb_Comparator
begin

text \<open>
  The two-level iterator (\<^verbatim>\<open>table/two_level_iterator.cc\<close>): an iterator over an index whose values lead,
  through a function, to iterators over the data. Its correctness is again the contract \<open>iterator\<close>.
\<close>

section \<open>The iterator\<close>

record ('i, 'd) TwoLevel =
  tl_status :: Status
  tl_index :: "'i IteratorWrapper"
  tl_data :: "'d IteratorWrapper"
  tl_handle :: "byte list"

definition make_TwoLevel :: "'i Iterator \<Rightarrow> 'i \<Rightarrow> ('i, 'd) TwoLevel" where
  "make_TwoLevel I index_iter =
     \<lparr>tl_status = Status_OK, tl_index = make_IteratorWrapper I (Some index_iter), tl_data = iw_null, tl_handle = []\<rparr>"

definition tl_Status :: "'i Iterator \<Rightarrow> 'd Iterator \<Rightarrow> ('i, 'd) TwoLevel \<Rightarrow> Status" where
  "tl_Status I D t =
     (if \<not> Status_ok (iw_status I (tl_index t)) then iw_status I (tl_index t)
      else if iw_iter (tl_data t) \<noteq> None \<and> \<not> Status_ok (iw_status D (tl_data t)) then iw_status D (tl_data t)
      else tl_status t)"

definition tl_SaveError :: "Status \<Rightarrow> ('i, 'd) TwoLevel \<Rightarrow> ('i, 'd) TwoLevel" where
  "tl_SaveError s t = (if Status_ok (tl_status t) \<and> \<not> Status_ok s then t\<lparr>tl_status := s\<rparr> else t)"

definition tl_SetDataIterator :: "'d Iterator \<Rightarrow> 'd option \<Rightarrow> ('i, 'd) TwoLevel \<Rightarrow> ('i, 'd) TwoLevel" where
  "tl_SetDataIterator D data_iter t =
     (let t = (if iw_iter (tl_data t) \<noteq> None then tl_SaveError (iw_status D (tl_data t)) t else t)
      in t\<lparr>tl_data := iw_Set D data_iter (tl_data t)\<rparr>)"

definition tl_InitDataBlock ::
  "'i Iterator \<Rightarrow> 'd Iterator \<Rightarrow> (byte list \<Rightarrow> 'd) \<Rightarrow> ('i, 'd) TwoLevel \<Rightarrow> ('i, 'd) TwoLevel" where
  "tl_InitDataBlock I D block_function t =
     (if \<not> iw_valid (tl_index t) then tl_SetDataIterator D None t
      else let handle = iw_value I (tl_index t) in
           if iw_iter (tl_data t) \<noteq> None \<and> slice_compare handle (tl_handle t) = 0 then t
           else tl_SetDataIterator D (Some (block_function handle)) (t\<lparr>tl_handle := handle\<rparr>))"

text \<open>A move of the data iterator, if there is one.\<close>

definition tl_on_data ::
  "('d IteratorWrapper \<Rightarrow> 'd IteratorWrapper option) \<Rightarrow> ('i, 'd) TwoLevel \<Rightarrow> ('i, 'd) TwoLevel option" where
  "tl_on_data f t =
     (if iw_iter (tl_data t) \<noteq> None then do { d \<leftarrow> f (tl_data t); Some (t\<lparr>tl_data := d\<rparr>) } else Some t)"

partial_function (option) tl_SkipForward ::
  "'i Iterator \<Rightarrow> 'd Iterator \<Rightarrow> (byte list \<Rightarrow> 'd) \<Rightarrow> ('i, 'd) TwoLevel \<Rightarrow> ('i, 'd) TwoLevel option" where
  "tl_SkipForward I D block_function t =
     (if iw_iter (tl_data t) = None \<or> \<not> iw_valid (tl_data t)
      then if \<not> iw_valid (tl_index t) then Some (tl_SetDataIterator D None t)
           else do { ix \<leftarrow> iw_Next I (tl_index t);
                     t' \<leftarrow> tl_on_data (iw_SeekToFirst D) (tl_InitDataBlock I D block_function (t\<lparr>tl_index := ix\<rparr>));
                     tl_SkipForward I D block_function t' }
      else Some t)"

partial_function (option) tl_SkipBackward ::
  "'i Iterator \<Rightarrow> 'd Iterator \<Rightarrow> (byte list \<Rightarrow> 'd) \<Rightarrow> ('i, 'd) TwoLevel \<Rightarrow> ('i, 'd) TwoLevel option" where
  "tl_SkipBackward I D block_function t =
     (if iw_iter (tl_data t) = None \<or> \<not> iw_valid (tl_data t)
      then if \<not> iw_valid (tl_index t) then Some (tl_SetDataIterator D None t)
           else do { ix \<leftarrow> iw_Prev I (tl_index t);
                     t' \<leftarrow> tl_on_data (iw_SeekToLast D) (tl_InitDataBlock I D block_function (t\<lparr>tl_index := ix\<rparr>));
                     tl_SkipBackward I D block_function t' }
      else Some t)"

definition tl_Seek ::
  "'i Iterator \<Rightarrow> 'd Iterator \<Rightarrow> (byte list \<Rightarrow> 'd) \<Rightarrow> byte list \<Rightarrow> ('i, 'd) TwoLevel \<Rightarrow> ('i, 'd) TwoLevel option" where
  "tl_Seek I D block_function target t =
     do { ix \<leftarrow> iw_Seek I target (tl_index t);
          t' \<leftarrow> tl_on_data (iw_Seek D target) (tl_InitDataBlock I D block_function (t\<lparr>tl_index := ix\<rparr>));
          tl_SkipForward I D block_function t' }"

definition tl_SeekToFirst ::
  "'i Iterator \<Rightarrow> 'd Iterator \<Rightarrow> (byte list \<Rightarrow> 'd) \<Rightarrow> ('i, 'd) TwoLevel \<Rightarrow> ('i, 'd) TwoLevel option" where
  "tl_SeekToFirst I D block_function t =
     do { ix \<leftarrow> iw_SeekToFirst I (tl_index t);
          t' \<leftarrow> tl_on_data (iw_SeekToFirst D) (tl_InitDataBlock I D block_function (t\<lparr>tl_index := ix\<rparr>));
          tl_SkipForward I D block_function t' }"

definition tl_SeekToLast ::
  "'i Iterator \<Rightarrow> 'd Iterator \<Rightarrow> (byte list \<Rightarrow> 'd) \<Rightarrow> ('i, 'd) TwoLevel \<Rightarrow> ('i, 'd) TwoLevel option" where
  "tl_SeekToLast I D block_function t =
     do { ix \<leftarrow> iw_SeekToLast I (tl_index t);
          t' \<leftarrow> tl_on_data (iw_SeekToLast D) (tl_InitDataBlock I D block_function (t\<lparr>tl_index := ix\<rparr>));
          tl_SkipBackward I D block_function t' }"

definition tl_Next ::
  "'i Iterator \<Rightarrow> 'd Iterator \<Rightarrow> (byte list \<Rightarrow> 'd) \<Rightarrow> ('i, 'd) TwoLevel \<Rightarrow> ('i, 'd) TwoLevel option" where
  "tl_Next I D block_function t =
     do { d \<leftarrow> iw_Next D (tl_data t); tl_SkipForward I D block_function (t\<lparr>tl_data := d\<rparr>) }"

definition tl_Prev ::
  "'i Iterator \<Rightarrow> 'd Iterator \<Rightarrow> (byte list \<Rightarrow> 'd) \<Rightarrow> ('i, 'd) TwoLevel \<Rightarrow> ('i, 'd) TwoLevel option" where
  "tl_Prev I D block_function t =
     do { d \<leftarrow> iw_Prev D (tl_data t); tl_SkipBackward I D block_function (t\<lparr>tl_data := d\<rparr>) }"

definition two_level_iterator :: "'i Iterator \<Rightarrow> 'd Iterator \<Rightarrow> (byte list \<Rightarrow> 'd) \<Rightarrow> ('i, 'd) TwoLevel Iterator" where
  "two_level_iterator I D block_function =
     \<lparr>it_Valid = (\<lambda>t. iw_valid (tl_data t)), it_key = (\<lambda>t. iw_key (tl_data t)), it_value = (\<lambda>t. iw_value D (tl_data t)),
      it_status = tl_Status I D,
      it_SeekToFirst = tl_SeekToFirst I D block_function, it_SeekToLast = tl_SeekToLast I D block_function,
      it_Next = tl_Next I D block_function, it_Prev = tl_Prev I D block_function,
      it_Seek = tl_Seek I D block_function\<rparr>"

section \<open>Its contents\<close>

text \<open>
  The index \<open>ixs\<close> has one entry per block; the blocks are \<open>map content\<close> of its handles. Every key of a
  block is at most the block's index key, and that is below the keys of the later blocks, as far as
  targets can tell.
\<close>

definition blocks_of :: "(byte list \<Rightarrow> entry_kv list) \<Rightarrow> entry_kv list \<Rightarrow> entry_kv list list" where
  "blocks_of content ixs = map (\<lambda>x. content (snd x)) ixs"

definition index_splits ::
  "(byte list \<Rightarrow> byte list \<Rightarrow> bool) \<Rightarrow> (byte list \<Rightarrow> bool) \<Rightarrow> (byte list \<Rightarrow> entry_kv list) \<Rightarrow> entry_kv list \<Rightarrow> bool" where
  "index_splits below proper content ixs \<longleftrightarrow>
     (\<forall>t. proper t \<longrightarrow> downward below t (concat (blocks_of content ixs)) \<longrightarrow>
        (\<forall>j<length ixs. below (fst (ixs ! j)) t \<longrightarrow> (\<forall>x\<in>set (content (snd (ixs ! j))). below (fst x) t)) \<and>
        (\<forall>j<length ixs. \<forall>k<j. \<not> below (fst (ixs ! k)) t \<longrightarrow> \<not> below (fst (ixs ! j)) t \<and>
           (\<forall>x\<in>set (content (snd (ixs ! j))). \<not> below (fst x) t)))"

text \<open>The place of entry \<open>i\<close> of block \<open>j\<close> among all entries.\<close>

definition place :: "'a list list \<Rightarrow> nat \<Rightarrow> nat \<Rightarrow> nat" where
  "place bs j i = length (concat (take j bs)) + i"

lemma place_end: "j < length bs \<Longrightarrow> place bs j (length (bs ! j)) = place bs (Suc j) 0"
  by (simp add: place_def take_Suc_conv_app_nth)

lemma concat_split: "j < length bs \<Longrightarrow> concat bs = concat (take j bs) @ bs ! j @ concat (drop (Suc j) bs)"
  by (metis concat.simps(2) concat_append id_take_nth_drop)

lemma place_nth: "j < length bs \<Longrightarrow> i < length (bs ! j) \<Longrightarrow> place bs j i < length (concat bs) \<and> concat bs ! place bs j i = bs ! j ! i"
  using concat_split [of j bs] by (simp add: place_def nth_append)

lemma downward_block:
  assumes "downward below t (concat bs)" "j < length bs"
  shows "downward below t (bs ! j)"
proof -
  have "sorted_wrt (\<lambda>x y. below (fst y) t \<longrightarrow> below (fst x) t) (concat (take j bs) @ bs ! j @ concat (drop (Suc j) bs))"
    using assms concat_split [OF assms(2)] unfolding downward_def by (metis (no_types))
  then show ?thesis unfolding downward_def sorted_wrt_append by blast
qed

lemma place_0 [simp]: "place bs 0 i = i"
  by (simp add: place_def)

lemma place_last: "place bs (length bs) 0 = length (concat bs)"
  by (simp add: place_def)

lemma place_Suc: "Suc (place bs j i) = place bs j (Suc i)"
  by (simp add: place_def)

lemma place_split: "place bs j i = place bs j 0 + i"
  by (simp add: place_def)

text \<open>Where skipping backwards ends, from the position i of block j.\<close>

definition back_place :: "'a list list \<Rightarrow> nat \<Rightarrow> nat \<Rightarrow> nat" where
  "back_place bs j i = (if j < length bs \<and> i < length (bs ! j) then place bs j i
     else if j = length bs \<or> place bs j 0 = 0 then length (concat bs) else place bs j 0 - 1)"

lemma back_place_prev:
  assumes "j < length bs" "i < length (bs ! j)"
  shows "back_place bs j (if i = 0 then length (bs ! j) else i - 1) =
    (if place bs j i = 0 then length (concat bs) else place bs j i - 1)"
  using assms place_split [of bs j i] place_split [of bs j "i - 1"] less_imp_diff_less [OF assms(2), of 1]
  by (cases i) (simp_all add: back_place_def)

lemma back_place_step:
  assumes "j < length bs"
  shows "back_place bs j (length (bs ! j) - 1) =
    (if place bs (Suc j) 0 = 0 then length (concat bs) else place bs (Suc j) 0 - 1)"
  using assms place_end [OF assms] place_split [of bs j "length (bs ! j)"] place_split [of bs j "length (bs ! j) - 1"]
  by (cases "length (bs ! j)") (simp_all add: back_place_def del: length_0_conv)

lemma back_place_last:
  "back_place bs (length bs - 1) (if bs = [] then 0 else length (last bs) - 1) = length (concat bs) - 1"
proof (cases "bs = []")
  case False
  let ?j = "length bs - 1"
  have last: "last bs = bs ! ?j" using False by (simp add: last_conv_nth)
  have "length (concat bs) = place bs ?j (length (bs ! ?j))"
    using place_end [of ?j bs] place_last [of bs] False by simp
  moreover have "?j < length bs" "?j \<noteq> length bs" using False by (cases bs; simp)+
  ultimately show ?thesis
    using False place_split [of bs ?j "length (bs ! ?j)"] place_split [of bs ?j "length (bs ! ?j) - 1"]
    by (cases "length (bs ! ?j)") (simp_all add: back_place_def last del: length_0_conv)
qed (simp add: back_place_def)

section \<open>Correctness\<close>

locale two_level =
  index: iterator I index_at below proper + data: iterator D data_at below proper
  for I :: "'i Iterator" and index_at :: "'i \<Rightarrow> entry_kv list \<Rightarrow> nat \<Rightarrow> bool"
    and D :: "'d Iterator" and data_at :: "'d \<Rightarrow> entry_kv list \<Rightarrow> nat \<Rightarrow> bool"
    and below :: "byte list \<Rightarrow> byte list \<Rightarrow> bool" and proper :: "byte list \<Rightarrow> bool" +
  fixes block_function :: "byte list \<Rightarrow> 'd"
    and content :: "byte list \<Rightarrow> entry_kv list"
    and handles :: "byte list set"
  assumes block_content: "\<And>h. h \<in> handles \<Longrightarrow> \<exists>i. data_at (block_function h) (content h) i"

text \<open>The data iterator is absent, or stands in the block of the handle that is remembered.\<close>

definition data_ok ::
  "('d \<Rightarrow> entry_kv list \<Rightarrow> nat \<Rightarrow> bool) \<Rightarrow> (byte list \<Rightarrow> entry_kv list) \<Rightarrow> ('i, 'd) TwoLevel \<Rightarrow> bool" where
  "data_ok data_at content t \<longleftrightarrow> tl_status t = Status_OK \<and>
     (iw_iter (tl_data t) = None \<and> \<not> iw_valid (tl_data t) \<or>
      (\<exists>i. wrap_at data_at (tl_data t) (content (tl_handle t)) i))"

text \<open>The index at block \<open>j\<close> and the data at entry \<open>i\<close> of it, or both at the end.\<close>

definition mid_at ::
  "('i \<Rightarrow> entry_kv list \<Rightarrow> nat \<Rightarrow> bool) \<Rightarrow> ('d \<Rightarrow> entry_kv list \<Rightarrow> nat \<Rightarrow> bool) \<Rightarrow> (byte list \<Rightarrow> entry_kv list) \<Rightarrow>
    ('i, 'd) TwoLevel \<Rightarrow> entry_kv list \<Rightarrow> nat \<Rightarrow> nat \<Rightarrow> bool" where
  "mid_at index_at data_at content t ixs j i \<longleftrightarrow>
     tl_status t = Status_OK \<and> wrap_at index_at (tl_index t) ixs j \<and>
     (if j < length ixs
      then tl_handle t = snd (ixs ! j) \<and> wrap_at data_at (tl_data t) (content (snd (ixs ! j))) i
      else i = 0 \<and> iw_iter (tl_data t) = None \<and> \<not> iw_valid (tl_data t))"

definition two_at ::
  "('i \<Rightarrow> entry_kv list \<Rightarrow> nat \<Rightarrow> bool) \<Rightarrow> ('d \<Rightarrow> entry_kv list \<Rightarrow> nat \<Rightarrow> bool) \<Rightarrow> (byte list \<Rightarrow> byte list \<Rightarrow> bool) \<Rightarrow>
    (byte list \<Rightarrow> bool) \<Rightarrow> (byte list \<Rightarrow> entry_kv list) \<Rightarrow> byte list set \<Rightarrow> ('i, 'd) TwoLevel \<Rightarrow> entry_kv list \<Rightarrow> nat \<Rightarrow> bool" where
  "two_at index_at data_at below proper content handles t xs g \<longleftrightarrow>
     (\<exists>ixs j i. xs = concat (blocks_of content ixs) \<and> snd ` set ixs \<subseteq> handles \<and> index_splits below proper content ixs \<and>
        mid_at index_at data_at content t ixs j i \<and> g = place (blocks_of content ixs) j i \<and>
        (j < length ixs \<longrightarrow> i < length (content (snd (ixs ! j)))))"

lemma mid_at_data_ok: "mid_at index_at data_at content t ixs j i \<Longrightarrow> data_ok data_at content t"
  by (auto simp: mid_at_def data_ok_def split: if_splits)

lemma mid_at_bound: "mid_at index_at data_at content t ixs j i \<Longrightarrow> j \<le> length ixs"
  by (simp add: mid_at_def wrap_at_def)

lemma mid_at_data_bound:
  "mid_at index_at data_at content t ixs j i \<Longrightarrow> j < length ixs \<Longrightarrow> i \<le> length (content (snd (ixs ! j)))"
  by (simp add: mid_at_def wrap_at_def)

lemma mid_at_valid:
  "mid_at index_at data_at content t ixs j i \<Longrightarrow>
    (iw_iter (tl_data t) = None \<or> \<not> iw_valid (tl_data t)) \<longleftrightarrow> \<not> (j < length ixs \<and> i < length (content (snd (ixs ! j))))"
  by (auto simp: mid_at_def wrap_at_def split: if_splits)

context two_level begin

abbreviation (input) "Skip_forward \<equiv> tl_SkipForward I D block_function"
abbreviation (input) "Skip_backward \<equiv> tl_SkipBackward I D block_function"
abbreviation (input) "Mid \<equiv> mid_at index_at data_at content"

lemma SetDataIterator_ok:
  assumes "data_ok data_at content t"
  shows "tl_SetDataIterator D None t = t\<lparr>tl_data := (tl_data t)\<lparr>iw_iter := None, iw_valid := False\<rparr>\<rparr>"
    "tl_SetDataIterator D (Some d) t = t\<lparr>tl_data := iw_Update D d (tl_data t)\<rparr>"
  using assms by (auto simp: data_ok_def tl_SetDataIterator_def tl_SaveError_def iw_Set_def Let_def data.wrap_status Status_ok_def Status_OK_def)

lemma InitDataBlock_mid:
  assumes ok: "data_ok data_at content t" and ix: "wrap_at index_at (tl_index t) ixs j" and h: "snd ` set ixs \<subseteq> handles"
  shows "\<exists>i. Mid (tl_InitDataBlock I D block_function t) ixs j i"
proof (cases "j < length ixs")
  case False
  then show ?thesis
    using ok ix SetDataIterator_ok(1) [OF ok]
    by (auto simp: tl_InitDataBlock_def mid_at_def wrap_atD(2) [OF ix] data_ok_def)
next
  case True
  have v: "iw_value I (tl_index t) = snd (ixs ! j)" by (rule index.wrap_value [OF ix True])
  have valid: "iw_valid (tl_index t)" using True wrap_atD(2) [OF ix] by simp
  have st: "tl_status t = Status_OK" using ok by (simp add: data_ok_def)
  show ?thesis
  proof (cases "iw_iter (tl_data t) \<noteq> None \<and> snd (ixs ! j) = tl_handle t")
    case same: True
    then have "tl_InitDataBlock I D block_function t = t"
      using valid v by (simp add: tl_InitDataBlock_def slice_compare_eq)
    then show ?thesis using same ok ix True st by (auto simp: mid_at_def data_ok_def)
  next
    case False
    let ?t = "t\<lparr>tl_handle := snd (ixs ! j)\<rparr>"
    have "tl_SetDataIterator D (Some d) ?t = ?t\<lparr>tl_data := iw_Update D d (tl_data t)\<rparr>" for d
      using ok by (auto simp: data_ok_def tl_SetDataIterator_def tl_SaveError_def iw_Set_def Let_def data.wrap_status Status_ok_def Status_OK_def)
    then have "tl_InitDataBlock I D block_function t =
        ?t\<lparr>tl_data := iw_Update D (block_function (snd (ixs ! j))) (tl_data t)\<rparr>"
      using False valid v by (auto simp: tl_InitDataBlock_def slice_compare_eq Let_def)
    moreover have "snd (ixs ! j) \<in> handles" using h True by auto
    then obtain i where "data_at (block_function (snd (ixs ! j))) (content (snd (ixs ! j))) i" using block_content by blast
    ultimately show ?thesis using ix True st by (auto simp: mid_at_def intro!: exI [of _ i] data.wrap_Update)
  qed
qed

text \<open>Moving the index, opening its block and moving in it.\<close>

lemma index_then_data:
  assumes t: "data_ok data_at content t" and h: "snd ` set ixs \<subseteq> handles"
    and ix: "wrap_at index_at ix ixs j"
    and d: "\<And>i w. wrap_at data_at w (content (snd (ixs ! j))) i \<Longrightarrow> j < length ixs \<Longrightarrow>
      \<exists>w'. m w = Some w' \<and> wrap_at data_at w' (content (snd (ixs ! j))) i'"
  shows "\<exists>t'. tl_on_data m (tl_InitDataBlock I D block_function (t\<lparr>tl_index := ix\<rparr>)) = Some t' \<and>
    Mid t' ixs j (if j < length ixs then i' else 0)"
proof -
  have "data_ok data_at content (t\<lparr>tl_index := ix\<rparr>)" using t by (simp add: data_ok_def)
  then obtain i where mid: "Mid (tl_InitDataBlock I D block_function (t\<lparr>tl_index := ix\<rparr>)) ixs j i" (is "Mid ?t _ _ _")
    using InitDataBlock_mid [of "t\<lparr>tl_index := ix\<rparr>" ixs j] ix h by auto
  show ?thesis
  proof (cases "j < length ixs")
    case True
    then have w: "wrap_at data_at (tl_data ?t) (content (snd (ixs ! j))) i" using mid by (simp add: mid_at_def)
    from d [OF w True] obtain w' where "m (tl_data ?t) = Some w'" "wrap_at data_at w' (content (snd (ixs ! j))) i'" by blast
    then show ?thesis using mid True wrap_atD(1) [OF w] by (auto simp: tl_on_data_def mid_at_def)
  next
    case False
    then show ?thesis using mid by (auto simp: tl_on_data_def mid_at_def)
  qed
qed

lemma SkipForward_result:
  assumes h: "snd ` set ixs \<subseteq> handles" and split: "index_splits below proper content ixs"
  shows "Mid t ixs j i \<Longrightarrow> \<exists>t'. Skip_forward t = Some t' \<and>
    two_at index_at data_at below proper content handles t' (concat (blocks_of content ixs)) (place (blocks_of content ixs) j i)"
proof (induction "length ixs - j" arbitrary: t j i rule: less_induct)
  case less
  let ?bs = "blocks_of content ixs"
  have len: "length ?bs = length ixs" by (simp add: blocks_of_def)
  note mid = less.prems
  show ?case
  proof (cases "j < length ixs \<and> i < length (content (snd (ixs ! j)))")
    case True
    then have "Skip_forward t = Some t" using mid_at_valid [OF mid] by (subst tl_SkipForward.simps) auto
    then show ?thesis using mid True h split by (auto simp: two_at_def)
  next
    case False
    show ?thesis
    proof (cases "j < length ixs")
      case j: True
      then have i: "i = length (content (snd (ixs ! j)))" using mid_at_data_bound [OF mid j] False by simp
      have w: "wrap_at index_at (tl_index t) ixs j" using mid by (simp add: mid_at_def)
      obtain ix where ix: "iw_Next I (tl_index t) = Some ix" "wrap_at index_at ix ixs (Suc j)"
        using index.wrap_ops(3) [OF w j] by blast
      obtain t' where t': "tl_on_data (iw_SeekToFirst D) (tl_InitDataBlock I D block_function (t\<lparr>tl_index := ix\<rparr>)) = Some t'"
        "Mid t' ixs (Suc j) 0"
        using index_then_data [OF mid_at_data_ok [OF mid] h ix(2), of "iw_SeekToFirst D" 0] data.wrap_ops(1) by auto
      have "Skip_forward t = Skip_forward t'"
        using mid_at_valid [OF mid] False wrap_atD(2) [OF w] j ix(1) t'(1) by (subst tl_SkipForward.simps) simp
      moreover have "place ?bs j i = place ?bs (Suc j) 0"
        using place_end [of j ?bs] j i len by (simp add: blocks_of_def)
      ultimately show ?thesis using less.hyps [OF _ t'(2)] j by simp
    next
      case j: False
      then have "j = length ixs" using mid_at_bound [OF mid] by simp
      moreover have w: "wrap_at index_at (tl_index t) ixs j" using mid by (simp add: mid_at_def)
      moreover have "Skip_forward t = Some (tl_SetDataIterator D None t)"
        using mid_at_valid [OF mid] j wrap_atD(2) [OF w] by (subst tl_SkipForward.simps) simp
      moreover have "Mid (tl_SetDataIterator D None t) ixs j i"
        using mid j by (simp add: mid_at_def SetDataIterator_ok(1) [OF mid_at_data_ok [OF mid]])
      ultimately show ?thesis using h split by (auto simp: two_at_def)
    qed
  qed
qed

lemma SkipBackward_result:
  assumes h: "snd ` set ixs \<subseteq> handles" and split: "index_splits below proper content ixs"
  shows "Mid t ixs j i \<Longrightarrow> \<exists>t'. Skip_backward t = Some t' \<and>
    two_at index_at data_at below proper content handles t' (concat (blocks_of content ixs))
      (back_place (blocks_of content ixs) j i)"
proof (induction "if j < length ixs then Suc j else 0" arbitrary: t j i rule: less_induct)
  case less
  let ?bs = "blocks_of content ixs"
  have len: "length ?bs = length ixs" by (simp add: blocks_of_def)
  note mid = less.prems
  have w: "wrap_at index_at (tl_index t) ixs j" using mid by (simp add: mid_at_def)
  show ?case
  proof (cases "j < length ixs \<and> i < length (content (snd (ixs ! j)))")
    case True
    then have "Skip_backward t = Some t" using mid_at_valid [OF mid] by (subst tl_SkipBackward.simps) auto
    moreover have "back_place ?bs j i = place ?bs j i" using True len by (simp add: back_place_def blocks_of_def)
    ultimately show ?thesis using mid True h split unfolding two_at_def by blast
  next
    case False
    have bk: "back_place ?bs j i = (if j = length ixs \<or> place ?bs j 0 = 0 then length (concat ?bs) else place ?bs j 0 - 1)"
      using False len by (auto simp: back_place_def blocks_of_def)
    show ?thesis
    proof (cases "j < length ixs")
      case j: False
      then have jl: "j = length ixs" using mid_at_bound [OF mid] by simp
      have "Skip_backward t = Some (tl_SetDataIterator D None t)"
        using mid_at_valid [OF mid] j wrap_atD(2) [OF w] by (subst tl_SkipBackward.simps) simp
      moreover have "Mid (tl_SetDataIterator D None t) ixs j 0"
        using mid j by (simp add: mid_at_def SetDataIterator_ok(1) [OF mid_at_data_ok [OF mid]])
      moreover have "length (concat ?bs) = place ?bs j 0" using place_last [of ?bs] len jl by simp
      ultimately show ?thesis using h split jl bk by (auto simp: two_at_def)
    next
      case j: True
      define j' where "j' = (if j = 0 then length ixs else j - 1)"
      obtain ix where ix: "iw_Prev I (tl_index t) = Some ix" "wrap_at index_at ix ixs j'"
        using index.wrap_ops(4) [OF w j] unfolding j'_def by blast
      let ?last = "length (content (snd (ixs ! j'))) - 1"
      obtain t' where t': "tl_on_data (iw_SeekToLast D) (tl_InitDataBlock I D block_function (t\<lparr>tl_index := ix\<rparr>)) = Some t'"
        "Mid t' ixs j' (if j' < length ixs then ?last else 0)"
        using index_then_data [OF mid_at_data_ok [OF mid] h ix(2), of "iw_SeekToLast D" ?last] data.wrap_ops(2) by blast
      have step: "Skip_backward t = Skip_backward t'"
        using mid_at_valid [OF mid] False wrap_atD(2) [OF w] j ix(1) t'(1) by (subst tl_SkipBackward.simps) simp
      have smaller: "(if j' < length ixs then Suc j' else 0) < (if j < length ixs then Suc j else 0)"
        using j by (auto simp: j'_def)
      have pos: "back_place ?bs j' (if j' < length ixs then ?last else 0) = back_place ?bs j i"
      proof (cases "j = 0")
        case True
        then show ?thesis using bk j len by (simp add: j'_def back_place_def)
      next
        case nz: False
        then have j': "j' < length ?bs" "Suc j' = j" "?bs ! j' = content (snd (ixs ! j'))"
          using j by (simp_all add: j'_def blocks_of_def)
        have "back_place ?bs j i = (if place ?bs j 0 = 0 then length (concat ?bs) else place ?bs j 0 - 1)"
          using bk j by simp
        then show ?thesis using back_place_step [OF j'(1)] j' len by simp
      qed
      show ?thesis
        using less.hyps [OF smaller t'(2)] step unfolding pos by simp
    qed
  qed
qed

lemma two_atE:
  assumes "two_at index_at data_at below proper content handles t xs g"
  obtains ixs j i where "xs = concat (blocks_of content ixs)" "snd ` set ixs \<subseteq> handles" "index_splits below proper content ixs"
    "Mid t ixs j i" "g = place (blocks_of content ixs) j i" "j < length ixs \<Longrightarrow> i < length (content (snd (ixs ! j)))"
    "g < length xs \<longleftrightarrow> j < length ixs" "g \<le> length xs" "g < length xs \<Longrightarrow> xs ! g = content (snd (ixs ! j)) ! i"
proof -
  obtain ixs j i where t: "xs = concat (blocks_of content ixs)" "snd ` set ixs \<subseteq> handles" "index_splits below proper content ixs"
    "Mid t ixs j i" "g = place (blocks_of content ixs) j i" "j < length ixs \<longrightarrow> i < length (content (snd (ixs ! j)))"
    using assms unfolding two_at_def by blast
  have len: "length (blocks_of content ixs) = length ixs" by (simp add: blocks_of_def)
  have inside: "g < length xs \<and> xs ! g = content (snd (ixs ! j)) ! i" if "j < length ixs"
    using place_nth [of j "blocks_of content ixs" i] that t(1,5,6) len by (simp add: blocks_of_def)
  have "g = length xs" if "\<not> j < length ixs"
  proof -
    have "j = length ixs" using that mid_at_bound [OF t(4)] by simp
    then show ?thesis using t(1,4,5) place_last [of "blocks_of content ixs"] len by (simp add: mid_at_def)
  qed
  then show thesis using that [of ixs j i] t inside by (metis less_irrefl linorder_le_less_linear order_less_imp_le)
qed

lemma two_Next:
  assumes t: "two_at index_at data_at below proper content handles t xs g" and g: "g < length xs"
  shows "\<exists>t'. tl_Next I D block_function t = Some t' \<and> two_at index_at data_at below proper content handles t' xs (Suc g)"
proof -
  obtain ixs j i where e: "xs = concat (blocks_of content ixs)" "snd ` set ixs \<subseteq> handles" "index_splits below proper content ixs"
    "Mid t ixs j i" "g = place (blocks_of content ixs) j i" "j < length ixs" "i < length (content (snd (ixs ! j)))"
    using t by (rule two_atE) (use g in blast)
  have "wrap_at data_at (tl_data t) (content (snd (ixs ! j))) i" using e(4,6) by (simp add: mid_at_def)
  then obtain d where d: "iw_Next D (tl_data t) = Some d" "wrap_at data_at d (content (snd (ixs ! j))) (Suc i)"
    using data.wrap_ops(3) e(7) by blast
  then have "Mid (t\<lparr>tl_data := d\<rparr>) ixs j (Suc i)" using e(4,6) by (simp add: mid_at_def)
  from SkipForward_result [OF e(2,3) this] show ?thesis using d(1) e(1,5) by (simp add: tl_Next_def place_Suc)
qed

lemma two_Prev:
  assumes t: "two_at index_at data_at below proper content handles t xs g" and g: "g < length xs"
  shows "\<exists>t'. tl_Prev I D block_function t = Some t' \<and>
    two_at index_at data_at below proper content handles t' xs (if g = 0 then length xs else g - 1)"
proof -
  obtain ixs j i where e: "xs = concat (blocks_of content ixs)" "snd ` set ixs \<subseteq> handles" "index_splits below proper content ixs"
    "Mid t ixs j i" "g = place (blocks_of content ixs) j i" "j < length ixs" "i < length (content (snd (ixs ! j)))"
    using t by (rule two_atE) (use g in blast)
  let ?n = "length (content (snd (ixs ! j)))"
  have "wrap_at data_at (tl_data t) (content (snd (ixs ! j))) i" using e(4,6) by (simp add: mid_at_def)
  then obtain d where d: "iw_Prev D (tl_data t) = Some d" "wrap_at data_at d (content (snd (ixs ! j))) (if i = 0 then ?n else i - 1)"
    using data.wrap_ops(4) e(7) by blast
  then have "Mid (t\<lparr>tl_data := d\<rparr>) ixs j (if i = 0 then ?n else i - 1)" using e(4,6) by (simp add: mid_at_def)
  from SkipBackward_result [OF e(2,3) this] obtain t' where
    t': "tl_SkipBackward I D block_function (t\<lparr>tl_data := d\<rparr>) = Some t'"
    "two_at index_at data_at below proper content handles t' xs
      (back_place (blocks_of content ixs) j (if i = 0 then ?n else i - 1))"
    using e(1) by blast
  have "j < length (blocks_of content ixs)" "blocks_of content ixs ! j = content (snd (ixs ! j))"
    using e(6) by (simp_all add: blocks_of_def)
  then have "back_place (blocks_of content ixs) j (if i = 0 then ?n else i - 1) = (if g = 0 then length xs else g - 1)"
    using back_place_prev [of j "blocks_of content ixs" i] e(1,5,7) by metis
  then show ?thesis using d(1) t' by (simp add: tl_Prev_def)
qed

lemma index_downward:
  assumes "index_splits below proper content ixs" "proper t" "downward below t (concat (blocks_of content ixs))"
  shows "downward below t ixs"
proof -
  have "below (fst (ixs ! i)) t" if "i < j" "j < length ixs" "below (fst (ixs ! j)) t" for i j
    using assms that unfolding index_splits_def by blast
  then show ?thesis unfolding downward_def sorted_wrt_iff_nth_less by blast
qed

lemma takeWhile_middle:
  assumes "\<forall>x\<in>set a. P x" "takeWhile P c = []"
  shows "takeWhile P (a @ b @ c) = a @ takeWhile P b"
proof -
  have "takeWhile P (b @ c) = takeWhile P b"
    using assms(2) by (cases "\<forall>x\<in>set b. P x") (auto simp: takeWhile_append1 takeWhile_eq_all_conv [THEN iffD2])
  then show ?thesis using assms(1) by (simp add: takeWhile_append2)
qed

text \<open>Where a target lies: in the block that the index leads to.\<close>

lemma seek_place:
  assumes split: "index_splits below proper content ixs" and proper: "proper target"
    and down: "downward below target (concat (blocks_of content ixs))"
  defines "k \<equiv> seek_pos below target ixs"
  defines "m \<equiv> seek_pos below target (content (snd (ixs ! k)))"
  shows "seek_pos below target (concat (blocks_of content ixs)) =
    place (blocks_of content ixs) k (if k < length ixs then m else 0)"
proof -
  let ?bs = "blocks_of content ixs"
  let ?xs = "concat ?bs"
  have len: "length ?bs = length ixs" and blk: "\<And>j. j < length ixs \<Longrightarrow> ?bs ! j = content (snd (ixs ! j))"
    by (simp_all add: blocks_of_def)
  have dix: "downward below target ixs" using index_downward split proper down by blast
  have kb: "k \<le> length ixs" unfolding k_def by (rule seek_pos_le)
  have before: "below (fst x) target" if x: "x \<in> set (concat (take k ?bs))" for x
  proof -
    obtain j where j: "j < k" "x \<in> set (content (snd (ixs ! j)))"
    proof -
      obtain b where "b \<in> set (take k ?bs)" "x \<in> set b" using x by auto
      then obtain i where "i < k" "x \<in> set (?bs ! i)"
        using len kb unfolding in_set_conv_nth [of b] by auto
      then show thesis using that [of i] kb by (simp add: blocks_of_def)
    qed
    have "below (fst (ixs ! j)) target" using downward_less_seek_pos [OF dix, of j] j(1) kb by (simp add: k_def)
    moreover have "j < length ixs" using j(1) kb by simp
    ultimately show ?thesis using split proper down j(2) unfolding index_splits_def by blast
  qed
  have not_k: "\<not> below (fst (ixs ! k)) target" if "k < length ixs"
    using downward_less_seek_pos [OF dix that] by (simp add: k_def)
  have after: "\<not> below (fst x) target" if x: "x \<in> set (concat (drop (Suc k) ?bs))" and k: "k < length ixs" for x
  proof -
    obtain j where j: "k < j" "j < length ixs" "x \<in> set (content (snd (ixs ! j)))"
    proof -
      obtain b where "b \<in> set (drop (Suc k) ?bs)" "x \<in> set b" using x by auto
      then obtain i where "i < length ixs - Suc k" "x \<in> set (?bs ! (Suc k + i))"
        using len unfolding in_set_conv_nth [of b] by auto
      then show thesis using that [of "Suc k + i"] k by (simp add: blocks_of_def)
    qed
    then show ?thesis using split proper down not_k [OF k] unfolding index_splits_def by blast
  qed
  let ?i = "if k < length ixs then m else 0"
  have "seek_pos below target ?xs = place ?bs k ?i"
  proof (cases "k < length ixs")
    case False
    then have "k = length ixs" using kb by simp
    then have "takeWhile (\<lambda>x. below (fst x) target) ?xs = ?xs" using before len by (simp add: takeWhile_eq_all_conv)
    then have "seek_pos below target ?xs = length ?xs" unfolding seek_pos_def by (rule arg_cong)
    then show ?thesis using False \<open>k = length ixs\<close> len place_last [of ?bs] by simp
  next
    case True
    have "takeWhile (\<lambda>x. below (fst x) target) (concat (drop (Suc k) ?bs)) = []"
    proof -
      have none: "takeWhile P ys = []" if "\<forall>x\<in>set ys. \<not> P x" for P and ys :: "entry_kv list"
        using that by (cases ys) auto
      have "\<forall>x\<in>set (concat (drop (Suc k) ?bs)). \<not> below (fst x) target" using after [OF _ True] by (rule ballI)
      then show ?thesis by (rule none)
    qed
    then have "takeWhile (\<lambda>x. below (fst x) target) ?xs =
        concat (take k ?bs) @ takeWhile (\<lambda>x. below (fst x) target) (content (snd (ixs ! k)))"
    proof -
      assume "takeWhile (\<lambda>x. below (fst x) target) (concat (drop (Suc k) ?bs)) = []"
      from takeWhile_middle [of "concat (take k ?bs)", OF ballI [OF before] this] show ?thesis
        using concat_split [of k ?bs] True len blk [OF True] by metis
    qed
    then show ?thesis using True by (simp add: seek_pos_def place_def m_def)
  qed
  then show ?thesis .
qed

lemma two_Seek:
  assumes t: "two_at index_at data_at below proper content handles t xs g" and proper: "proper target"
    and down: "downward below target xs"
  shows "\<exists>t'. tl_Seek I D block_function target t = Some t' \<and>
    two_at index_at data_at below proper content handles t' xs (seek_pos below target xs)"
proof -
  obtain ixs j i where e: "xs = concat (blocks_of content ixs)" "snd ` set ixs \<subseteq> handles" "index_splits below proper content ixs"
    "Mid t ixs j i" using t by (rule two_atE)
  let ?bs = "blocks_of content ixs"
  define k where "k = seek_pos below target ixs"
  have len: "length ?bs = length ixs" and blk: "\<And>j. j < length ixs \<Longrightarrow> ?bs ! j = content (snd (ixs ! j))"
    by (simp_all add: blocks_of_def)
  have dix: "downward below target ixs" using index_downward e(1,3) proper down by blast
  obtain ix where ix: "iw_Seek I target (tl_index t) = Some ix" "wrap_at index_at ix ixs k"
    using index.wrap_ops(5) [OF _ proper dix] e(4) unfolding k_def mid_at_def by blast
  have dblock: "downward below target (content (snd (ixs ! j)))" if "j < length ixs" for j
    using downward_block [of below target ?bs j] down that len blk [OF that] e(1) by simp
  define m where "m = seek_pos below target (content (snd (ixs ! k)))"
  obtain t' where t': "tl_on_data (iw_Seek D target) (tl_InitDataBlock I D block_function (t\<lparr>tl_index := ix\<rparr>)) = Some t'"
    "Mid t' ixs k (if k < length ixs then m else 0)"
    using index_then_data [OF mid_at_data_ok [OF e(4)] e(2) ix(2), of "iw_Seek D target" m] data.wrap_ops(5) proper dblock
    unfolding m_def by blast
  have "seek_pos below target xs = place ?bs k (if k < length ixs then m else 0)"
    using seek_place [OF e(3) proper] down e(1) by (simp add: k_def m_def)
  then show ?thesis
    using SkipForward_result [OF e(2,3) t'(2)] ix(1) t'(1) e(1) by (simp add: tl_Seek_def)
qed

end

sublocale two_level \<subseteq> two: iterator "two_level_iterator I D block_function"
  "two_at index_at data_at below proper content handles" below proper
proof (unfold_locales, goal_cases)
  case (1 t xs g)
  then show ?case by (rule two_atE)
next
  case (2 t xs g)
  then show ?case
    by (rule two_atE) (auto simp: two_level_iterator_def mid_at_def wrap_at_def split: if_splits)
next
  case (3 t xs g)
  then show ?case
    by (elim two_atE) (auto simp: two_level_iterator_def mid_at_def wrap_at_def split: if_splits)
next
  case (4 t xs g)
  then show ?case
    by (elim two_atE) (auto simp: two_level_iterator_def mid_at_def data.wrap_value split: if_splits)
next
  case (5 t xs g)
  then show ?case
    by (elim two_atE) (auto simp: two_level_iterator_def mid_at_def tl_Status_def index.wrap_status data.wrap_status
        Status_ok_def Status_OK_def split: if_splits)
next
  case (6 t xs g)
  obtain ixs j i where e: "xs = concat (blocks_of content ixs)" "snd ` set ixs \<subseteq> handles" "index_splits below proper content ixs"
    "Mid t ixs j i" using 6 by (rule two_atE)
  obtain ix where ix: "iw_SeekToFirst I (tl_index t) = Some ix" "wrap_at index_at ix ixs 0"
    using index.wrap_ops(1) e(4) unfolding mid_at_def by blast
  obtain t' where "tl_on_data (iw_SeekToFirst D) (tl_InitDataBlock I D block_function (t\<lparr>tl_index := ix\<rparr>)) = Some t'"
    "Mid t' ixs 0 (if 0 < length ixs then 0 else 0)"
    using index_then_data [OF mid_at_data_ok [OF e(4)] e(2) ix(2), of "iw_SeekToFirst D" 0] data.wrap_ops(1) by blast
  then show ?case using SkipForward_result [OF e(2,3), of t' 0 0] ix(1) e(1)
    by (simp add: two_level_iterator_def tl_SeekToFirst_def)
next
  case (7 t xs g)
  obtain ixs j i where e: "xs = concat (blocks_of content ixs)" "snd ` set ixs \<subseteq> handles" "index_splits below proper content ixs"
    "Mid t ixs j i" using 7 by (rule two_atE)
  let ?bs = "blocks_of content ixs" and ?j = "length ixs - 1"
  let ?last = "length (content (snd (ixs ! ?j))) - 1"
  obtain ix where ix: "iw_SeekToLast I (tl_index t) = Some ix" "wrap_at index_at ix ixs ?j"
    using index.wrap_ops(2) e(4) unfolding mid_at_def by blast
  obtain t' where t': "tl_on_data (iw_SeekToLast D) (tl_InitDataBlock I D block_function (t\<lparr>tl_index := ix\<rparr>)) = Some t'"
    "Mid t' ixs ?j (if ?j < length ixs then ?last else 0)"
    using index_then_data [OF mid_at_data_ok [OF e(4)] e(2) ix(2), of "iw_SeekToLast D" ?last] data.wrap_ops(2) by blast
  have "(if ?j < length ixs then ?last else 0) = (if ?bs = [] then 0 else length (last ?bs) - 1)" "length ?bs = length ixs"
    by (auto simp: blocks_of_def last_map last_conv_nth)
  then have "back_place ?bs ?j (if ?j < length ixs then ?last else 0) = length xs - 1"
    using back_place_last [of ?bs] e(1) by simp
  then show ?case using SkipBackward_result [OF e(2,3) t'(2)] ix(1) t'(1) e(1)
    by (simp add: two_level_iterator_def tl_SeekToLast_def)
next
  case (8 t xs g)
  then show ?case using two_Next by (simp add: two_level_iterator_def)
next
  case (9 t xs g)
  then show ?case using two_Prev by (simp add: two_level_iterator_def)
next
  case (10 t xs g target)
  then show ?case using two_Seek by (simp add: two_level_iterator_def)
qed

text \<open>A new iterator over an index that stands behind its last entry.\<close>

context two_level begin

lemma new_at:
  assumes "index_at ix ixs (length ixs)" "snd ` set ixs \<subseteq> handles" "index_splits below proper content ixs"
  shows "two_at index_at data_at below proper content handles (make_TwoLevel I ix) (concat (blocks_of content ixs))
    (length (concat (blocks_of content ixs)))"
proof -
  have "Mid (make_TwoLevel I ix) ixs (length ixs) 0"
    using index.wrap_make [OF assms(1)] by (simp add: mid_at_def make_TwoLevel_def iw_null_def)
  moreover have "length (concat (blocks_of content ixs)) = place (blocks_of content ixs) (length ixs) 0"
    using place_last [of "blocks_of content ixs"] by (simp add: blocks_of_def)
  ultimately show ?thesis using assms(2,3) unfolding two_at_def by blast
qed

end

end
