(* ===== verification/Ldb_Table.thy ===== *)
theory Ldb_Table
  imports Ldb_Table_Builder Ldb_Two_Level
begin

text \<open>
  Reading a table file (\<^verbatim>\<open>table/table.cc\<close>): opening it, its filter, iterating over it, looking a key up,
  and where a key lies; without a block cache. A call without a result reads outside a block.
\<close>

section \<open>Opening\<close>

text \<open>The filter reader keeps its policy.\<close>

record Table =
  t_options :: Options
  t_file :: RandomAccessFile
  t_filter :: "(FilterPolicy \<times> FilterBlockReader) option"
  t_metaindex_handle :: BlockHandle
  t_index_block :: Block

definition Table_ReadFilter :: "Snappy \<Rightarrow> bool \<Rightarrow> FilterPolicy \<Rightarrow> byte list \<Rightarrow> Table \<Rightarrow> Table" where
  "Table_ReadFilter snappy own_buffer policy filter_handle_value t =
     (let (s, filter_handle, v) = BlockHandle_DecodeFrom make_BlockHandle filter_handle_value in
      if \<not> Status_ok s then t
      else let (s, block) = ReadBlock snappy own_buffer (t_file t) (op_paranoid_checks (t_options t)) filter_handle
           in if \<not> Status_ok s then t
              else t\<lparr>t_filter := Some (policy, make_FilterBlockReader (bc_data block))\<rparr>)"

definition Table_ReadMeta :: "Snappy \<Rightarrow> bool \<Rightarrow> Footer \<Rightarrow> Table \<Rightarrow> Table option" where
  "Table_ReadMeta snappy own_buffer footer t =
     (case op_filter_policy (t_options t) of
        None \<Rightarrow> Some t
      | Some policy \<Rightarrow>
          (let (s, contents) = ReadBlock snappy own_buffer (t_file t) (op_paranoid_checks (t_options t)) (ft_metaindex_handle footer)
           in if \<not> Status_ok s then Some t
              else let ops = block_iterator Bytewise_Compare; key = filter_key (fp_Name policy)
                   in do { iter \<leftarrow> it_Seek ops key (Block_NewIterator (make_Block (bc_data contents)));
                           Some (if it_Valid ops iter \<and> slice_equal (it_key ops iter) key
                                 then Table_ReadFilter snappy own_buffer policy (it_value ops iter) t else t) }))"

definition Table_Open ::
  "Snappy \<Rightarrow> bool \<Rightarrow> Options \<Rightarrow> RandomAccessFile \<Rightarrow> 64 word \<Rightarrow> (Status \<times> Table option) option" where
  "Table_Open snappy own_buffer options file size1 =
     (if size1 < of_nat kEncodedLength
      then Some (Status_Corruption (ascii ''file is too short to be an sstable'') [], None)
      else let (s, footer_input) = file (size1 - of_nat kEncodedLength) kEncodedLength in
           if \<not> Status_ok s then Some (s, None)
           else let (s, footer, _) = Footer_DecodeFrom make_Footer footer_input in
                if \<not> Status_ok s then Some (s, None)
                else let (s, contents) = ReadBlock snappy own_buffer file (op_paranoid_checks options) (ft_index_handle footer) in
                     if \<not> Status_ok s then Some (s, None)
                     else do { t \<leftarrow> Table_ReadMeta snappy own_buffer footer
                                 \<lparr>t_options = options, t_file = file, t_filter = None,
                                  t_metaindex_handle = ft_metaindex_handle footer, t_index_block = make_Block (bc_data contents)\<rparr>;
                               Some (s, Some t) })"

section \<open>Reading\<close>

definition table_cmp :: "Table \<Rightarrow> byte list \<Rightarrow> byte list \<Rightarrow> int" where
  "table_cmp t = cm_Compare (op_comparator (t_options t))"

definition BlockReader :: "Snappy \<Rightarrow> bool \<Rightarrow> Table \<Rightarrow> bool \<Rightarrow> byte list \<Rightarrow> NewIterator_result" where
  "BlockReader snappy own_buffer t verify_checksums index_value =
     (let (s, handle, inp) = BlockHandle_DecodeFrom make_BlockHandle index_value in
      if \<not> Status_ok s then ErrorIterator s
      else let (s, contents) = ReadBlock snappy own_buffer (t_file t) verify_checksums handle
           in if \<not> Status_ok s then ErrorIterator s else Block_NewIterator (make_Block (bc_data contents)))"

type_synonym TableIter = "(NewIterator_result, NewIterator_result) TwoLevel"

definition table_iterator :: "Snappy \<Rightarrow> bool \<Rightarrow> Table \<Rightarrow> bool \<Rightarrow> TableIter Iterator" where
  "table_iterator snappy own_buffer t verify_checksums =
     two_level_iterator (block_iterator (table_cmp t)) (block_iterator (table_cmp t))
       (BlockReader snappy own_buffer t verify_checksums)"

definition Table_NewIterator :: "Table \<Rightarrow> TableIter" where
  "Table_NewIterator t = make_TwoLevel (block_iterator (table_cmp t)) (Block_NewIterator (t_index_block t))"

text \<open>The status, and the entry that is handed to the callback, if any.\<close>

definition Table_InternalGet ::
  "Snappy \<Rightarrow> bool \<Rightarrow> Table \<Rightarrow> bool \<Rightarrow> byte list \<Rightarrow> (Status \<times> entry_kv option) option" where
  "Table_InternalGet snappy own_buffer t verify_checksums k =
     (let ops = block_iterator (table_cmp t) in
      do {
        iiter \<leftarrow> it_Seek ops k (Block_NewIterator (t_index_block t));
        (s, saved) \<leftarrow>
          (if it_Valid ops iiter
           then do {
             filtered \<leftarrow>
               (case t_filter t of None \<Rightarrow> Some False
                | Some (policy, filter1) \<Rightarrow>
                    (let (s, handle, v) = BlockHandle_DecodeFrom make_BlockHandle (it_value ops iiter) in
                     if Status_ok s
                     then map_option Not (FilterBlock_KeyMayMatch (fp_KeyMayMatch policy) filter1 (bh_offset handle) k)
                     else Some False));
             if filtered then Some (Status_OK, None)
             else do {
               block_iter \<leftarrow> it_Seek ops k (BlockReader snappy own_buffer t verify_checksums (it_value ops iiter));
               Some (it_status ops block_iter,
                 if it_Valid ops block_iter then Some (it_key ops block_iter, it_value ops block_iter) else None) } }
           else Some (Status_OK, None));
        Some (if Status_ok s then it_status ops iiter else s, saved) })"

definition Table_ApproximateOffsetOf :: "Table \<Rightarrow> byte list \<Rightarrow> 64 word option" where
  "Table_ApproximateOffsetOf t key =
     (let ops = block_iterator (table_cmp t) in
      do { index_iter \<leftarrow> it_Seek ops key (Block_NewIterator (t_index_block t));
           Some (if it_Valid ops index_iter
                 then let (s, handle, inp) = BlockHandle_DecodeFrom make_BlockHandle (it_value ops index_iter)
                      in if Status_ok s then bh_offset handle else bh_offset (t_metaindex_handle t)
                 else bh_offset (t_metaindex_handle t)) })"

end
