(* ===== verification/Ldb_Table_Props.thy ===== *)
theory Ldb_Table_Props
  imports Ldb_Table
begin

text \<open>
  What a table builder has written at every point of its work, and what is in a finished file: the
  invariant of the builder over any file, any order of keys and any compression that can be undone.
\<close>

section \<open>Stored blocks\<close>

definition raw_block :: "byte list \<Rightarrow> byte \<Rightarrow> byte list" where
  "raw_block p type = p @ [type] @ EncodeFixed32 (Mask (Extend (Value 0 p) 0 [type]))"

lemma length_raw_block [simp]: "length (raw_block p type) = length p + 5"
  by (simp add: raw_block_def)

lemma take_raw_block [simp]: "take (length p) (raw_block p type) = p" "raw_block p type ! length p = type"
  by (simp_all add: raw_block_def)

definition encoded :: "Snappy \<Rightarrow> byte list \<Rightarrow> byte list \<Rightarrow> byte \<Rightarrow> bool" where
  "encoded snappy raw p type \<longleftrightarrow> type = kNoCompression \<and> p = raw \<or>
     type = kSnappyCompression \<and> sn_Compress snappy raw = Some p"

definition stored :: "Snappy \<Rightarrow> byte list \<Rightarrow> BlockHandle \<Rightarrow> byte list \<Rightarrow> bool" where
  "stored snappy F h raw \<longleftrightarrow> (\<exists>pre p type post. F = pre @ raw_block p type @ post \<and>
     h = \<lparr>bh_offset = of_nat (length pre), bh_size = of_nat (length p)\<rparr> \<and> encoded snappy raw p type)"

lemma stored_append: "stored snappy F h raw \<Longrightarrow> stored snappy (F @ G) h raw"
  by (fastforce simp: stored_def)

lemma stored_new:
  "encoded snappy raw p type \<Longrightarrow>
    stored snappy (F @ raw_block p type) \<lparr>bh_offset = of_nat (length F), bh_size = of_nat (length p)\<rparr> raw"
  unfolding stored_def by (intro exI [of _ F] exI [of _ p] exI [of _ type] exI [of _ "[]"]) simp

lemma compress_block_encoded:
  "type = kNoCompression \<or> type = kSnappyCompression \<Longrightarrow>
    encoded snappy raw (fst (compress_block snappy type raw)) (snd (compress_block snappy type raw))"
  by (auto simp: compress_block_def encoded_def split: option.split)

text \<open>What a compression library promises; a compressed block carries its length as a 32-bit number.\<close>

locale codec =
  fixes snappy :: Snappy
  assumes codec: "\<And>raw c. sn_Compress snappy raw = Some c \<Longrightarrow>
    sn_GetUncompressedLength snappy c = Some (length raw) \<and> sn_Uncompress snappy c = Some raw \<and> length raw < 2 ^ 32"

interpretation no_snappy: codec port_Snappy
  by unfold_locales (simp add: port_Snappy_def)

text \<open>What a file that is read at random promises for reads inside it.\<close>

locale random_access =
  fixes reader :: RandomAccessFile and F :: "byte list"
  assumes read_inside: "\<And>off n. length F < 2 ^ 64 \<Longrightarrow> unat off + n \<le> length F \<Longrightarrow>
    reader off n = (Status_OK, take n (drop (unat off) F))"

text \<open>The in-memory file of the table test.\<close>

definition StringSource_ReadAt :: "byte list \<Rightarrow> RandomAccessFile" where
  "StringSource_ReadAt contents offset n =
     (if of_nat (length contents) < offset then (Status_InvalidArgument (ascii ''invalid Read offset'') [], [])
      else let n = (if of_nat (length contents) < offset + of_nat n then length contents - unat offset else n)
           in (Status_OK, take n (drop (unat offset) contents)))"

lemma unat_small64: "n < 2 ^ 64 \<Longrightarrow> unat (of_nat n :: 64 word) = n"
  by (simp add: unat_of_nat take_bit_nat_eq_self)

interpretation string_source: random_access "StringSource_ReadAt contents" contents for contents
proof (unfold_locales, goal_cases)
  case (1 off n)
  then have "unat (of_nat (length contents) :: 64 word) = length contents" "unat (of_nat n :: 64 word) = n"
    by (simp_all add: unat_small64)
  moreover from this have "unat (off + of_nat n) = unat off + n" using 1 by (simp add: unat_word_ariths)
  ultimately show ?case using 1 by (simp add: StringSource_ReadAt_def word_less_nat_alt Let_def)
qed

lemma ReadBlock_stored:
  assumes c: "codec snappy" and r: "random_access reader F" and st: "stored snappy F h raw" and len: "length F < 2 ^ 63"
  shows "\<exists>c. ReadBlock snappy own_buffer reader verify_checksums h = (Status_OK, c) \<and> bc_data c = raw"
proof -
  obtain pre p type post where e: "F = pre @ raw_block p type @ post"
    "h = \<lparr>bh_offset = of_nat (length pre), bh_size = of_nat (length p)\<rparr>" "encoded snappy raw p type"
    using st unfolding stored_def by blast
  have small: "length pre < 2 ^ 64" "length p < 2 ^ 64" using len by (auto simp: e(1))
  have off: "unat (bh_offset h) = length pre" "unat (bh_size h) = length p"
    using small by (simp_all add: e(2) unat_small64)
  have rd: "reader (bh_offset h) (length p + 5) = (Status_OK, raw_block p type)"
    using random_access.read_inside [OF r, of "bh_offset h" "length p + 5"] len off by (simp add: e(1))
  have crc: "Value 0 (p @ [type]) = Extend (Value 0 p) 0 [type]"
    using Extend_append [of 0 p 0 "[type]" 0 0] len by (simp add: Value_def e(1))
  have parts: "take (Suc (length p)) (raw_block p type) = p @ [type]"
    "DecodeFixed32 (drop (Suc (length p)) (raw_block p type)) = Mask (Value 0 (p @ [type]))"
    by (simp_all add: raw_block_def crc)
  have "resize (length raw) raw = raw" by (simp add: resize_def)
  moreover have "kSnappyCompression \<noteq> kNoCompression" by (simp add: kSnappyCompression_def kNoCompression_def)
  moreover have "ReadBlock snappy own_buffer reader verify_checksums h =
      (if type = kNoCompression
       then (Status_OK, \<lparr>bc_data = p, bc_cachable = own_buffer, bc_heap_allocated = own_buffer\<rparr>)
       else if type = kSnappyCompression
       then (case sn_GetUncompressedLength snappy p of
               None \<Rightarrow> (Status_Corruption (ascii ''corrupted compressed block contents'') [], \<lparr>bc_data = [], bc_cachable = False, bc_heap_allocated = False\<rparr>)
             | Some ulength \<Rightarrow>
                 (case sn_Uncompress snappy p of
                    None \<Rightarrow> (Status_Corruption (ascii ''corrupted compressed block contents'') [], \<lparr>bc_data = [], bc_cachable = False, bc_heap_allocated = False\<rparr>)
                  | Some ubuf \<Rightarrow> (Status_OK, \<lparr>bc_data = resize ulength ubuf, bc_cachable = True, bc_heap_allocated = True\<rparr>)))
       else (Status_Corruption (ascii ''bad block type'') [], \<lparr>bc_data = [], bc_cachable = False, bc_heap_allocated = False\<rparr>))"
    by (simp add: ReadBlock_def Let_def off kBlockTrailerSize_def rd parts Unmask_Mask Status_ok_def Status_OK_def split: option.split)
  ultimately show ?thesis using e(3) codec.codec [OF c, of raw p] by (auto simp: encoded_def)
qed

lemma stored_length:
  assumes "codec snappy" "stored snappy F h raw" "length F < 2 ^ 32"
  shows "length raw < 2 ^ 32"
  using assms codec.codec [OF assms(1), of raw] by (auto simp: stored_def encoded_def)

section \<open>Writing one block\<close>

context writable_file begin

lemma append_ok' [simp]: "\<exists>f'. wf_Append ops d f = (Status_OK, f') \<and> contents f' = contents f @ d"
  using append_ok [of d f] append_contents [of d f] by (cases "wf_Append ops d f") (auto simp: Status_ok_def Status_OK_def)

lemma WriteRawBlock_result:
  assumes "tb_offset r = of_nat (length (contents (tb_file r)))"
  shows "\<exists>f. WriteRawBlock ops p type r = (\<lparr>bh_offset = tb_offset r, bh_size = of_nat (length p)\<rparr>,
      r\<lparr>tb_status := Status_OK, tb_file := f, tb_offset := of_nat (length (contents f))\<rparr>) \<and>
    contents f = contents (tb_file r) @ raw_block p type"
proof -
  obtain f1 where f1: "wf_Append ops p (tb_file r) = (Status_OK, f1)" "contents f1 = contents (tb_file r) @ p"
    using append_ok' by blast
  let ?trailer = "[type] @ EncodeFixed32 (Mask (Extend (Value 0 p) 0 [type]))"
  obtain f2 where f2: "wf_Append ops ?trailer f1 = (Status_OK, f2)" "contents f2 = contents f1 @ ?trailer"
    using append_ok' by blast
  have "Status_ok Status_OK" by (simp add: Status_ok_def Status_OK_def)
  then show ?thesis
    using f1 f2 assms by (intro exI [of _ f2]) (simp add: WriteRawBlock_def Let_def raw_block_def kBlockTrailerSize_def)
qed

lemma WriteBlock_result:
  assumes r: "tb_offset r = of_nat (length (contents (tb_file r)))" "tb_status r = Status_OK"
    and type: "op_compression (tb_options r) = kNoCompression \<or> op_compression (tb_options r) = kSnappyCompression"
  shows "\<exists>h f G. WriteBlock snappy ops b r = Some (h, make_BlockBuilder,
      r\<lparr>tb_status := Status_OK, tb_file := f, tb_offset := of_nat (length (contents f))\<rparr>) \<and>
    contents f = contents (tb_file r) @ G \<and> bh_offset h = tb_offset r \<and> stored snappy (contents f) h (fst (BlockBuilder_Finish b))"
proof -
  obtain p ty where c: "compress_block snappy (op_compression (tb_options r)) (fst (BlockBuilder_Finish b)) = (p, ty)"
    by (cases "compress_block snappy (op_compression (tb_options r)) (fst (BlockBuilder_Finish b))")
  obtain f where f: "WriteRawBlock ops p ty r = (\<lparr>bh_offset = tb_offset r, bh_size = of_nat (length p)\<rparr>,
      r\<lparr>tb_status := Status_OK, tb_file := f, tb_offset := of_nat (length (contents f))\<rparr>)"
    "contents f = contents (tb_file r) @ raw_block p ty"
    using WriteRawBlock_result [OF r(1)] by blast
  have "encoded snappy (fst (BlockBuilder_Finish b)) p ty"
    using compress_block_encoded [OF type, of snappy "fst (BlockBuilder_Finish b)"] by (simp add: c)
  then have "stored snappy (contents f) \<lparr>bh_offset = tb_offset r, bh_size = of_nat (length p)\<rparr> (fst (BlockBuilder_Finish b))"
    using stored_new f(2) r(1) by simp
  moreover have "BlockBuilder_Reset b' = make_BlockBuilder" for b' by (simp add: BlockBuilder_Reset_def make_BlockBuilder_def)
  ultimately show ?thesis
    using f r(2) c by (intro exI [of _ "\<lparr>bh_offset = tb_offset r, bh_size = of_nat (length p)\<rparr>"] exI [of _ f] exI [of _ "raw_block p ty"])
      (simp add: WriteBlock_def tb_ok_def Status_ok_def Status_OK_def case_prod_beta')
qed

end

section \<open>The invariant of the builder\<close>

definition add_all :: "int \<Rightarrow> entry_kv list \<Rightarrow> BlockBuilder" where
  "add_all interval kvs = fold (\<lambda>(k, v) b. BlockBuilder_Add interval b k v) kvs make_BlockBuilder"

lemma add_all_simps [simp]: "add_all interval [] = make_BlockBuilder"
  "add_all interval (kvs @ [(k, v)]) = BlockBuilder_Add interval (add_all interval kvs) k v"
  by (simp_all add: add_all_def)

lemma add_all_Finish: "fst (BlockBuilder_Finish (add_all interval kvs)) = build_block interval kvs"
  by (simp add: add_all_def build_block_def)

lemma add_all_empty: "BlockBuilder_empty (add_all interval kvs) \<longleftrightarrow> kvs = []"
proof (cases kvs rule: rev_cases)
  case (snoc ys x)
  have "EncodeVarint32 w \<noteq> []" for w by (simp add: EncodeVarint32_def)
  then show ?thesis using snoc
    by (cases x) (simp add: BlockBuilder_empty_def BlockBuilder_Add_def Let_def PutVarint32_def case_prod_beta')
qed (simp add: BlockBuilder_empty_def make_BlockBuilder_def)

text \<open>The index keys separate the blocks, and the keys still waiting come behind all of them.\<close>

definition separates ::
  "(byte list \<Rightarrow> byte list \<Rightarrow> int) \<Rightarrow> entry_kv list list \<Rightarrow> entry_kv list \<Rightarrow> byte list list \<Rightarrow> bool" where
  "separates cmp bs cur seps \<longleftrightarrow> (\<forall>j<length seps.
     (\<forall>x\<in>set (concat (take (Suc j) bs)). cmp (fst x) (seps ! j) \<le> 0) \<and>
     (\<forall>x\<in>set (concat (drop (Suc j) bs) @ cur). cmp (seps ! j) (fst x) < 0))"

text \<open>The calls that the filter block builder has seen.\<close>

definition filter_calls ::
  "(BlockHandle \<times> entry_kv list) list \<Rightarrow> 64 word \<Rightarrow> entry_kv list \<Rightarrow> (64 word \<times> byte list list) list" where
  "filter_calls blocks off cur = map (\<lambda>(h, kvs). (bh_offset h, map fst kvs)) blocks @ [(off, map fst cur)]"

definition written :: "Snappy \<Rightarrow> int \<Rightarrow> byte list \<Rightarrow> 64 word \<Rightarrow> (BlockHandle \<times> entry_kv list) list \<Rightarrow> bool" where
  "written snappy interval F off blocks \<longleftrightarrow> off = of_nat (length F) \<and>
     (\<forall>(h, kvs)\<in>set blocks. kvs \<noteq> [] \<and> stored snappy F h (build_block interval kvs)) \<and>
     (length F < 2 ^ 64 \<longrightarrow> sorted (map (\<lambda>b. bh_offset (fst b)) blocks @ [off]))"

definition index_rep ::
  "(byte list \<Rightarrow> bool) \<Rightarrow> (byte list \<Rightarrow> byte list \<Rightarrow> int) \<Rightarrow> (BlockHandle \<times> entry_kv list) list \<Rightarrow> entry_kv list \<Rightarrow>
    entry_kv list \<Rightarrow> bool" where
  "index_rep valid cmp blocks cur ixs \<longleftrightarrow> length ixs \<le> length blocks \<and>
     map snd ixs = take (length ixs) (map (\<lambda>b. BlockHandle_EncodeTo (fst b) []) blocks) \<and>
     (\<forall>x\<in>set ixs. valid (fst x)) \<and> separates cmp (map snd blocks) cur (map fst ixs)"

definition table_rep ::
  "Snappy \<Rightarrow> ('f \<Rightarrow> byte list) \<Rightarrow> (byte list \<Rightarrow> bool) \<Rightarrow> Options \<Rightarrow> 'f TableBuilder \<Rightarrow>
    (BlockHandle \<times> entry_kv list) list \<Rightarrow> entry_kv list \<Rightarrow> entry_kv list \<Rightarrow> bool" where
  "table_rep snappy contents valid opts r blocks cur ixs \<longleftrightarrow>
     tb_status r = Status_OK \<and> \<not> tb_closed r \<and> tb_options r = opts \<and>
     tb_index_block_options r = opts\<lparr>op_block_restart_interval := 1\<rparr> \<and>
     written snappy (op_block_restart_interval opts) (contents (tb_file r)) (tb_offset r) blocks \<and>
     tb_data_block r = add_all (op_block_restart_interval opts) cur \<and> tb_index_block r = add_all 1 ixs \<and>
     tb_num_entries r = of_nat (length (concat (map snd blocks) @ cur)) \<and>
     (concat (map snd blocks) @ cur \<noteq> [] \<longrightarrow> tb_last_key r = fst (last (concat (map snd blocks) @ cur))) \<and>
     (if tb_pending_index_entry r
      then cur = [] \<and> blocks \<noteq> [] \<and> tb_pending_handle r = fst (last blocks) \<and> length ixs = length blocks - 1
      else length ixs = length blocks \<and> (blocks \<noteq> [] \<longrightarrow> cur \<noteq> [])) \<and>
     index_rep valid (cm_Compare (op_comparator opts)) blocks cur ixs \<and>
     tb_filter_block r = map_option (\<lambda>p. (p, filter_blocks (fp_CreateFilter p) (filter_calls blocks (tb_offset r) cur) make_FilterBlockBuilder))
       (op_filter_policy opts)"

definition ordered :: "(byte list \<Rightarrow> bool) \<Rightarrow> (byte list \<Rightarrow> byte list \<Rightarrow> int) \<Rightarrow> entry_kv list \<Rightarrow> bool" where
  "ordered valid cmp kvs \<longleftrightarrow> (\<forall>x\<in>set kvs. valid (fst x)) \<and> sorted_wrt (\<lambda>x y. cmp (fst x) (fst y) < 0) kvs"

lemma make_TableBuilder_rep:
  assumes "contents f = []"
  shows "table_rep snappy contents valid opts (make_TableBuilder opts f) [] [] []"
  using assms
  by (auto simp: table_rep_def make_TableBuilder_def written_def index_rep_def separates_def filter_calls_def
      filter_blocks_def split: option.split)

lemma filter_blocks_snoc:
  "filter_blocks create (calls @ [(off, keys)]) b =
    fold (\<lambda>k b. AddKey b k) keys (StartBlock create (filter_blocks create calls b) off)"
  by (simp add: filter_blocks_def)

lemma filter_calls_AddKey:
  "AddKey (filter_blocks create (filter_calls blocks off cur) b) key =
    filter_blocks create (filter_calls blocks off (cur @ [(key, v)])) b"
  by (simp add: filter_calls_def filter_blocks_snoc)

lemma filter_calls_StartBlock:
  "bh_offset h = off \<Longrightarrow> StartBlock create (filter_blocks create (filter_calls blocks off cur) b) off' =
    filter_blocks create (filter_calls (blocks @ [(h, cur)]) off' []) b"
  by (simp add: filter_calls_def filter_blocks_def)

lemma written_snoc:
  assumes w: "written snappy interval F off blocks" and kvs: "kvs \<noteq> []"
    and st: "stored snappy (F @ G) h (build_block interval kvs)" and off: "bh_offset h = off"
  shows "written snappy interval (F @ G) (of_nat (length (F @ G))) (blocks @ [(h, kvs)])"
proof -
  have "off \<le> of_nat (length (F @ G))" if "length (F @ G) < 2 ^ 64"
  proof -
    have "unat (of_nat (length F) :: 64 word) = length F" by (rule unat_small64) (use that in simp)
    moreover have "off = of_nat (length F)" using w by (simp add: written_def)
    ultimately show ?thesis using unat_small64 [OF that] unfolding word_le_nat_alt by simp
  qed
  then have "length (F @ G) < 2 ^ 64 \<longrightarrow> sorted (map (\<lambda>b. bh_offset (fst b)) (blocks @ [(h, kvs)]) @ [of_nat (length (F @ G))])"
    using w off by (fastforce simp: written_def sorted_append)
  then show ?thesis using w kvs st stored_append by (fastforce simp: written_def)
qed

lemma separates_snoc_block:
  "length seps \<le> length bs \<Longrightarrow> separates cmp (bs @ [cur]) [] seps \<longleftrightarrow> separates cmp bs cur seps"
  by (auto simp: separates_def)

lemma index_rep_snoc_block:
  "index_rep valid cmp blocks cur ixs \<Longrightarrow> index_rep valid cmp (blocks @ [(h, cur)]) [] ixs"
  by (simp add: index_rep_def separates_snoc_block)

section \<open>Adding entries\<close>

lemma table_repD:
  assumes "table_rep snappy contents valid opts r blocks cur ixs"
  shows "tb_status r = Status_OK" "\<not> tb_closed r" "tb_options r = opts"
    "tb_index_block_options r = opts\<lparr>op_block_restart_interval := 1\<rparr>"
    "written snappy (op_block_restart_interval opts) (contents (tb_file r)) (tb_offset r) blocks"
    "tb_data_block r = add_all (op_block_restart_interval opts) cur" "tb_index_block r = add_all 1 ixs"
    "tb_num_entries r = of_nat (length (concat (map snd blocks) @ cur))"
    "concat (map snd blocks) @ cur \<noteq> [] \<Longrightarrow> tb_last_key r = fst (last (concat (map snd blocks) @ cur))"
    "tb_pending_index_entry r \<Longrightarrow>
      cur = [] \<and> blocks \<noteq> [] \<and> tb_pending_handle r = fst (last blocks) \<and> Suc (length ixs) = length blocks"
    "\<not> tb_pending_index_entry r \<Longrightarrow> length ixs = length blocks \<and> (blocks \<noteq> [] \<longrightarrow> cur \<noteq> [])"
    "index_rep valid (cm_Compare (op_comparator opts)) blocks cur ixs"
    "tb_filter_block r = map_option (\<lambda>p. (p, filter_blocks (fp_CreateFilter p) (filter_calls blocks (tb_offset r) cur) make_FilterBlockBuilder))
       (op_filter_policy opts)"
    "tb_ok r"
  using assms by (simp_all add: table_rep_def tb_ok_def Status_ok_def Status_OK_def del: append_is_Nil_conv concat_eq_Nil_conv)

lemma sorted_wrt_last: "sorted_wrt P xs \<Longrightarrow> x \<in> set xs \<Longrightarrow> x = last xs \<or> P x (last xs)"
  by (induction xs) auto

locale table_writer = writable_file ops contents + codec snappy +
  order: comparator valid "cm_Compare (op_comparator opts)" "cm_FindShortestSeparator (op_comparator opts)"
    "cm_FindShortSuccessor (op_comparator opts)"
  for ops :: "'f WritableFile" and contents :: "'f \<Rightarrow> byte list" and snappy :: Snappy
    and valid :: "byte list \<Rightarrow> bool" and opts :: Options +
  assumes interval: "1 \<le> op_block_restart_interval opts"
    and compression: "op_compression opts = kNoCompression \<or> op_compression opts = kSnappyCompression"

context table_writer begin

abbreviation (input) "cmp \<equiv> cm_Compare (op_comparator opts)"
abbreviation (input) "Rep \<equiv> table_rep snappy contents valid opts"

lemma Flush_rep:
  assumes rep: "Rep r blocks cur ixs"
  shows "\<exists>r' blocks'. TableBuilder_Flush snappy ops r = Some r' \<and> Rep r' blocks' [] ixs \<and>
    concat (map snd blocks') = concat (map snd blocks) @ cur"
proof (cases "cur = []")
  case True
  then have "TableBuilder_Flush snappy ops r = Some r"
    using table_repD [OF rep] add_all_empty [of "op_block_restart_interval opts" "[]"] by (simp add: TableBuilder_Flush_def)
  then show ?thesis using rep True by auto
next
  case False
  note r = table_repD [OF rep]
  have pend: "\<not> tb_pending_index_entry r" using r(10) False by blast
  obtain h f G where w: "WriteBlock snappy ops (tb_data_block r) r = Some (h, make_BlockBuilder,
      r\<lparr>tb_status := Status_OK, tb_file := f, tb_offset := of_nat (length (contents f))\<rparr>)"
    "contents f = contents (tb_file r) @ G" "bh_offset h = tb_offset r"
    "stored snappy (contents f) h (build_block (op_block_restart_interval opts) cur)"
    using WriteBlock_result [of r snappy "tb_data_block r"] r(1,3,5,6) compression by (auto simp: add_all_Finish written_def)
  obtain f' where f': "wf_Flush ops f = (Status_OK, f')" "contents f' = contents f"
    using flush_ok [of f] flush_contents [of f] by (cases "wf_Flush ops f") (auto simp: Status_ok_def Status_OK_def)
  let ?r = "r\<lparr>tb_status := Status_OK, tb_file := f', tb_offset := of_nat (length (contents f)), tb_data_block := make_BlockBuilder,
    tb_pending_handle := h, tb_pending_index_entry := True,
    tb_filter_block := map_option (\<lambda>p. (p, filter_blocks (fp_CreateFilter p)
      (filter_calls (blocks @ [(h, cur)]) (of_nat (length (contents f))) []) make_FilterBlockBuilder)) (op_filter_policy opts)\<rparr>"
  have "TableBuilder_Flush snappy ops r = Some ?r"
    using r(2,13,14) add_all_empty [of "op_block_restart_interval opts" cur] False pend w f'(1) r(6)
    by (cases "op_filter_policy opts")
      (simp_all add: TableBuilder_Flush_def tb_ok_def Status_ok_def Status_OK_def filter_calls_StartBlock)
  moreover have "Rep ?r (blocks @ [(h, cur)]) [] ixs"
  proof -
    have "written snappy (op_block_restart_interval opts) (contents f) (of_nat (length (contents f))) (blocks @ [(h, cur)])"
      using written_snoc [OF r(5) False, of G h] w(2,3,4) by simp
    then show ?thesis
      using r(1-4,7,8) r(9) r(11) [OF pend] False f'(2) index_rep_snoc_block [OF r(12), of h] by (simp add: table_rep_def)
  qed
  ultimately show ?thesis by (intro exI [of _ ?r] exI [of _ "blocks @ [(h, cur)]"]) simp
qed

text \<open>The index entry for the block before the key \<open>k\<close>.\<close>

lemma index_rep_add:
  assumes ord: "ordered valid cmp (concat (map snd blocks) @ cur @ [(k, v)])" and ix: "index_rep valid cmp blocks cur ixs"
    and after: "\<forall>j<length ixs. concat (drop (Suc j) (map snd blocks)) @ cur \<noteq> []"
  shows "index_rep valid cmp blocks (cur @ [(k, v)]) ixs"
proof -
  have "cmp (map fst ixs ! j) k < 0" if j: "j < length ixs" for j
  proof -
    obtain x where x: "x \<in> set (concat (drop (Suc j) (map snd blocks)) @ cur)"
      using after j by (metis last_in_set)
    then have "x \<in> set (concat (map snd blocks) @ cur)" by (auto simp: drop_map dest: in_set_dropD)
    then have "cmp (fst x) k < 0" "valid (fst x)" "valid k" using ord by (auto simp: ordered_def sorted_wrt_append)
    moreover have "cmp (map fst ixs ! j) (fst x) < 0" using ix x j by (auto simp: index_rep_def separates_def)
    moreover have "valid (map fst ixs ! j)" using ix j by (simp add: index_rep_def)
    ultimately show ?thesis using order.cmp_less_trans by blast
  qed
  then show ?thesis using ix by (auto simp: index_rep_def separates_def)
qed

lemma index_rep_separator:
  assumes ord: "ordered valid cmp (concat (map snd blocks) @ [(k, v)])" and ix: "index_rep valid cmp blocks [] ixs"
    and len: "Suc (length ixs) = length blocks" and ne: "\<forall>b\<in>set blocks. snd b \<noteq> []"
    and s: "valid s" "cmp (fst (last (concat (map snd blocks)))) s \<le> 0" "cmp s k < 0"
  shows "index_rep valid cmp blocks [(k, v)] (ixs @ [(s, BlockHandle_EncodeTo (fst (last blocks)) [])])"
proof -
  let ?ix = "(s, BlockHandle_EncodeTo (fst (last blocks)) [])"
  have blocks: "blocks = butlast blocks @ [last blocks]" using len by (metis append_butlast_last_id length_0_conv nat.distinct(1))
  have last_ne: "snd (last blocks) \<noteq> []" using ne blocks by (metis last_in_set append_is_Nil_conv not_Cons_self2)
  have "\<forall>j<length ixs. concat (drop (Suc j) (map snd blocks)) @ [] \<noteq> []"
  proof (intro allI impI)
    fix j assume "j < length ixs"
    then have "drop (Suc j) (map snd blocks) = drop (Suc j) (map snd (butlast blocks)) @ [snd (last blocks)]"
      using len by (subst (1) blocks) simp
    then show "concat (drop (Suc j) (map snd blocks)) @ [] \<noteq> []" using last_ne by simp
  qed
  from index_rep_add [OF _ ix this, of k v] ord have old: "index_rep valid cmp blocks [(k, v)] ixs" by simp
  have "cmp (fst x) s \<le> 0" if x: "x \<in> set (concat (map snd blocks))" for x
  proof -
    let ?xs = "concat (map snd blocks)"
    have "fst x = fst (last ?xs) \<or> cmp (fst x) (fst (last ?xs)) < 0" "valid (fst x)" "valid (fst (last ?xs))"
      using ord x sorted_wrt_last [of "\<lambda>x y. cmp (fst x) (fst y) < 0" ?xs x] last_in_set [of ?xs]
      by (force simp: ordered_def sorted_wrt_append)+
    then have "cmp (fst x) (fst (last ?xs)) \<le> 0" "valid (fst x)" "valid (fst (last ?xs))"
      using order.cmp_refl [of "fst x"] by auto
    then show ?thesis using s order.cmp_trans by blast
  qed
  then have "separates cmp (map snd blocks) [(k, v)] (map fst (ixs @ [?ix]))"
    using old len s(3) by (auto simp: index_rep_def separates_def less_Suc_eq nth_append)
  moreover have "map snd (ixs @ [?ix]) = take (length (ixs @ [?ix])) (map (\<lambda>b. BlockHandle_EncodeTo (fst b) []) blocks)"
  proof -
    have "last blocks = blocks ! length ixs" using len by (metis diff_Suc_1 last_conv_nth length_0_conv nat.distinct(1))
    then show ?thesis
      using old len take_Suc_conv_app_nth [of "length ixs" "map (\<lambda>b. BlockHandle_EncodeTo (fst b) []) blocks"]
      by (simp add: index_rep_def)
  qed
  ultimately show ?thesis using old len s(1) by (simp add: index_rep_def)
qed

text \<open>The record before the key is added to the data block.\<close>

lemma Add_rep:
  assumes rep: "Rep r blocks cur ixs" and ord: "ordered valid cmp (concat (map snd blocks) @ cur @ [(k, v)])"
  shows "\<exists>r' blocks' cur' ixs'. TableBuilder_Add snappy ops k v r = Some r' \<and> Rep r' blocks' cur' ixs' \<and>
    concat (map snd blocks') @ cur' = concat (map snd blocks) @ cur @ [(k, v)]"
proof -
  note r = table_repD [OF rep]
  let ?all = "concat (map snd blocks) @ cur" and ?i = "op_block_restart_interval opts"
  have greater: "0 < cmp k (tb_last_key r) \<and> cmp (tb_last_key r) k < 0 \<and> valid (tb_last_key r) \<and> valid k" if "?all \<noteq> []"
  proof -
    have "last ?all \<in> set ?all" using that by (rule last_in_set)
    moreover have "sorted_wrt (\<lambda>x y. cmp (fst x) (fst y) < 0) (?all @ [(k, v)])" "\<forall>x\<in>set (?all @ [(k, v)]). valid (fst x)"
      using ord by (simp_all add: ordered_def)
    ultimately have "cmp (fst (last ?all)) k < 0" "valid (fst (last ?all))" "valid k"
      unfolding sorted_wrt_append by force+
    then show ?thesis using r(9) [OF that] order.cmp_swap by auto
  qed
  have key_ok: "(0 <s tb_num_entries r \<and> \<not> 0 < cm_Compare (op_comparator (tb_options r)) k (tb_last_key r)) = False"
    using greater r(3,8) by (cases "?all = []") auto
  have pend_ok: "(tb_pending_index_entry r \<and> \<not> BlockBuilder_empty (tb_data_block r)) = False"
    using r(6,10) add_all_empty [of ?i cur] by auto
  let ?sep = "cm_FindShortestSeparator (op_comparator opts) (tb_last_key r) k"
  define ixs' where "ixs' = (if tb_pending_index_entry r
    then ixs @ [(?sep, BlockHandle_EncodeTo (fst (last blocks)) [])] else ixs)"
  have ne: "\<forall>b\<in>set blocks. snd b \<noteq> []" using r(5) by (auto simp: written_def)
  have ix: "length ixs' = length blocks \<and> index_rep valid cmp blocks (cur @ [(k, v)]) ixs'"
  proof (cases "tb_pending_index_entry r")
    case True
    note p = r(10) [OF True]
    have all: "?all \<noteq> []" using p ne by (metis concat_eq_Nil_conv last_in_set list.set_map imageI append_is_Nil_conv)
    then have "valid ?sep" "cmp (fst (last (concat (map snd blocks)))) ?sep \<le> 0" "cmp ?sep k < 0"
      using greater [OF all] order.sep_valid order.sep_between r(9) [OF all] p by auto
    then show ?thesis
      using index_rep_separator [of blocks k v ixs ?sep] ord r(12) p ne True by (simp add: ixs'_def)
  next
    case False
    note p = r(11) [OF False]
    then have "\<forall>j<length ixs. concat (drop (Suc j) (map snd blocks)) @ cur \<noteq> []" by auto
    then show ?thesis using index_rep_add [OF ord r(12)] p False by (simp add: ixs'_def)
  qed
  let ?r = "r\<lparr>tb_last_key := k, tb_index_block := add_all 1 ixs', tb_pending_index_entry := False,
    tb_filter_block := map_option (\<lambda>p. (p, filter_blocks (fp_CreateFilter p)
      (filter_calls blocks (tb_offset r) (cur @ [(k, v)])) make_FilterBlockBuilder)) (op_filter_policy opts),
    tb_num_entries := tb_num_entries r + 1, tb_data_block := add_all ?i (cur @ [(k, v)])\<rparr>"
  have add: "TableBuilder_Add snappy ops k v r =
      (if op_block_size opts \<le> CurrentSizeEstimate (tb_data_block ?r) then TableBuilder_Flush snappy ops ?r else Some ?r)"
  proof -
    have "tb_pending_index_entry r \<Longrightarrow> tb_pending_handle r = fst (last blocks)" using r(10) by blast
    then show ?thesis
      unfolding TableBuilder_Add_def key_ok pend_ok
      using r(2,3,4,6,7,13,14) filter_calls_AddKey [of _ blocks "tb_offset r" cur make_FilterBlockBuilder k v]
      by (cases r; cases "op_filter_policy opts"; cases "tb_pending_index_entry r")
        (simp_all add: add_index_entry_def ixs'_def Let_def)
  qed
  have rep': "Rep ?r blocks (cur @ [(k, v)]) ixs'"
    using r(1-5,8) ix by (simp add: table_rep_def)
  show ?thesis
  proof (cases "op_block_size opts \<le> CurrentSizeEstimate (tb_data_block ?r)")
    case True
    obtain r' blocks' where "TableBuilder_Flush snappy ops ?r = Some r'" "Rep r' blocks' [] ixs'"
      "concat (map snd blocks') = concat (map snd blocks) @ cur @ [(k, v)]"
      using Flush_rep [OF rep'] by auto
    then show ?thesis using add True by (intro exI [of _ r'] exI [of _ blocks'] exI [of _ "[]"] exI [of _ ixs']) simp
  next
    case False
    then show ?thesis using add rep' by (intro exI [of _ ?r] exI [of _ blocks] exI [of _ "cur @ [(k, v)]"] exI [of _ ixs']) simp
  qed
qed

end

section \<open>Finishing\<close>

text \<open>A step that appends to the file and keeps what \<^verbatim>\<open>Finish\<close> needs later.\<close>

definition grown :: "('f \<Rightarrow> byte list) \<Rightarrow> 'f TableBuilder \<Rightarrow> 'f TableBuilder \<Rightarrow> bool" where
  "grown contents r r' \<longleftrightarrow> tb_status r' = Status_OK \<and> tb_offset r' = of_nat (length (contents (tb_file r'))) \<and>
     (\<exists>G. contents (tb_file r') = contents (tb_file r) @ G) \<and> tb_options r' = tb_options r \<and>
     tb_index_block_options r' = tb_index_block_options r \<and> tb_index_block r' = tb_index_block r \<and>
     tb_last_key r' = tb_last_key r \<and> tb_pending_index_entry r' = tb_pending_index_entry r \<and>
     tb_pending_handle r' = tb_pending_handle r \<and> (tb_filter_block r' = None \<longleftrightarrow> tb_filter_block r = None)"

text \<open>The entries of the metaindex.\<close>

definition meta_entries :: "FilterPolicy option \<Rightarrow> BlockHandle \<Rightarrow> entry_kv list" where
  "meta_entries policy h = (case policy of None \<Rightarrow> [] | Some p \<Rightarrow> [(filter_key (fp_Name p), BlockHandle_EncodeTo h [])])"

text \<open>A finished file with its blocks and index.\<close>

definition table_file ::
  "Snappy \<Rightarrow> Options \<Rightarrow> (byte list \<Rightarrow> bool) \<Rightarrow> byte list \<Rightarrow> (BlockHandle \<times> entry_kv list) list \<Rightarrow> entry_kv list \<Rightarrow> bool" where
  "table_file snappy opts valid F blocks ixs \<longleftrightarrow> (\<exists>G mh ih fh off.
     F = G @ Footer_EncodeTo \<lparr>ft_metaindex_handle = mh, ft_index_handle = ih\<rparr> [] \<and>
     stored snappy F ih (build_block 1 ixs) \<and>
     stored snappy F mh (build_block (op_block_restart_interval opts) (meta_entries (op_filter_policy opts) fh)) \<and>
     (\<forall>p. op_filter_policy opts = Some p \<longrightarrow> stored snappy F fh (fst (FilterBlock_Finish (fp_CreateFilter p)
        (filter_blocks (fp_CreateFilter p) (filter_calls blocks off []) make_FilterBlockBuilder)))) \<and>
     (\<forall>(h, kvs)\<in>set blocks. kvs \<noteq> [] \<and> stored snappy F h (build_block (op_block_restart_interval opts) kvs)) \<and>
     (length F < 2 ^ 64 \<longrightarrow> sorted (map (\<lambda>b. bh_offset (fst b)) blocks @ [off])) \<and>
     length ixs = length blocks \<and> index_rep valid (cm_Compare (op_comparator opts)) blocks [] ixs)"

context writable_file begin

lemma write_filter_block_result:
  assumes r: "tb_status r = Status_OK" "tb_offset r = of_nat (length (contents (tb_file r)))"
  shows "\<exists>h r'. write_filter_block ops r = (h, r') \<and> grown contents r r' \<and>
    (\<forall>p fb. tb_filter_block r = Some (p, fb) \<longrightarrow>
      stored snappy (contents (tb_file r')) h (fst (FilterBlock_Finish (fp_CreateFilter p) fb)))"
proof (cases "tb_filter_block r")
  case None
  then show ?thesis using r by (simp add: write_filter_block_def grown_def)
next
  case (Some pfb)
  obtain p fb where pfb: "pfb = (p, fb)" by (cases pfb)
  obtain raw fb' where fin: "FilterBlock_Finish (fp_CreateFilter p) fb = (raw, fb')"
    by (cases "FilterBlock_Finish (fp_CreateFilter p) fb")
  let ?r = "r\<lparr>tb_filter_block := Some (p, fb')\<rparr>"
  obtain f where f: "WriteRawBlock ops raw kNoCompression ?r = (\<lparr>bh_offset = tb_offset r, bh_size = of_nat (length raw)\<rparr>,
      ?r\<lparr>tb_status := Status_OK, tb_file := f, tb_offset := of_nat (length (contents f))\<rparr>)"
    "contents f = contents (tb_file r) @ raw_block raw kNoCompression"
    using WriteRawBlock_result [of ?r raw kNoCompression] r(2) by auto
  have "stored snappy (contents f) \<lparr>bh_offset = tb_offset r, bh_size = of_nat (length raw)\<rparr> raw"
    unfolding f(2) r(2) by (rule stored_new) (simp add: encoded_def)
  then show ?thesis
    using f fin Some pfb r by (simp add: write_filter_block_def grown_def tb_ok_def Status_ok_def Status_OK_def)
qed

lemma write_metaindex_block_result:
  assumes r: "tb_status r = Status_OK" "tb_offset r = of_nat (length (contents (tb_file r)))"
    and type: "op_compression (tb_options r) = kNoCompression \<or> op_compression (tb_options r) = kSnappyCompression"
    and fb: "tb_filter_block r = None \<longleftrightarrow> op_filter_policy (tb_options r) = None"
  shows "\<exists>h r'. write_metaindex_block snappy ops fh r = Some (h, r') \<and> grown contents r r' \<and>
    stored snappy (contents (tb_file r')) h
      (build_block (op_block_restart_interval (tb_options r)) (meta_entries (op_filter_policy (tb_options r)) fh))"
proof -
  let ?b = "add_all (op_block_restart_interval (tb_options r)) (meta_entries (op_filter_policy (tb_options r)) fh)"
  obtain h f G where w: "WriteBlock snappy ops ?b r = Some (h, make_BlockBuilder,
      r\<lparr>tb_status := Status_OK, tb_file := f, tb_offset := of_nat (length (contents f))\<rparr>)"
    "contents f = contents (tb_file r) @ G" "stored snappy (contents f) h (fst (BlockBuilder_Finish ?b))"
    using WriteBlock_result [OF r(2,1) type, of snappy ?b] by blast
  have "?b = (case op_filter_policy (tb_options r) of None \<Rightarrow> make_BlockBuilder
      | Some p \<Rightarrow> BlockBuilder_Add (op_block_restart_interval (tb_options r)) make_BlockBuilder (filter_key (fp_Name p)) (BlockHandle_EncodeTo fh []))"
    using add_all_simps(2) [of _ "[]"] by (simp add: meta_entries_def split: option.split)
  then have "write_metaindex_block snappy ops fh r =
      Some (h, r\<lparr>tb_status := Status_OK, tb_file := f, tb_offset := of_nat (length (contents f))\<rparr>)"
    using w(1) r(1) fb
    by (cases "op_filter_policy (tb_options r)"; cases "tb_filter_block r")
      (auto simp: write_metaindex_block_def tb_ok_def Status_ok_def Status_OK_def)
  then show ?thesis using w r by (auto simp: grown_def add_all_Finish)
qed

lemma write_index_block_result:
  assumes r: "tb_status r = Status_OK" "tb_offset r = of_nat (length (contents (tb_file r)))"
    and type: "op_compression (tb_options r) = kNoCompression \<or> op_compression (tb_options r) = kSnappyCompression"
    and opts: "tb_index_block_options r = (tb_options r)\<lparr>op_block_restart_interval := 1\<rparr>"
    and ix: "tb_index_block r = add_all 1 ixs"
  shows "\<exists>h r' G. write_index_block snappy ops r = Some (h, r') \<and> tb_status r' = Status_OK \<and>
    tb_offset r' = of_nat (length (contents (tb_file r'))) \<and> contents (tb_file r') = contents (tb_file r) @ G \<and>
    stored snappy (contents (tb_file r')) h (build_block 1 (if tb_pending_index_entry r
      then ixs @ [(cm_FindShortSuccessor (op_comparator (tb_options r)) (tb_last_key r), BlockHandle_EncodeTo (tb_pending_handle r) [])]
      else ixs))"
proof -
  let ?s = "cm_FindShortSuccessor (op_comparator (tb_options r)) (tb_last_key r)"
  let ?r = "if tb_pending_index_entry r then add_index_entry ?s r else r"
  let ?ixs = "if tb_pending_index_entry r then ixs @ [(?s, BlockHandle_EncodeTo (tb_pending_handle r) [])] else ixs"
  have b: "tb_index_block ?r = add_all 1 ?ixs" using ix opts by (simp add: add_index_entry_def)
  have "tb_offset ?r = of_nat (length (contents (tb_file ?r)))" "tb_status ?r = Status_OK"
    "op_compression (tb_options ?r) = kNoCompression \<or> op_compression (tb_options ?r) = kSnappyCompression"
    using r type by (simp_all add: add_index_entry_def)
  from WriteBlock_result [OF this, of snappy "add_all 1 ?ixs"] obtain h f G where
    w: "WriteBlock snappy ops (add_all 1 ?ixs) ?r = Some (h, make_BlockBuilder,
      ?r\<lparr>tb_status := Status_OK, tb_file := f, tb_offset := of_nat (length (contents f))\<rparr>)"
    "contents f = contents (tb_file ?r) @ G" "stored snappy (contents f) h (build_block 1 ?ixs)"
    unfolding add_all_Finish by blast
  have "tb_file ?r = tb_file r" by (simp add: add_index_entry_def)
  moreover have "write_index_block snappy ops r = Some (h,
      ?r\<lparr>tb_status := Status_OK, tb_file := f, tb_offset := of_nat (length (contents f)), tb_index_block := make_BlockBuilder\<rparr>)"
    using r(1) w(1) b by (simp add: write_index_block_def tb_ok_def Status_ok_def Status_OK_def del: add_all_simps split del: if_split)
  ultimately show ?thesis using w(2,3) by simp
qed

lemma write_footer_result:
  assumes r: "tb_status r = Status_OK"
  shows "tb_status (write_footer ops mh ih r) = Status_OK"
    "contents (tb_file (write_footer ops mh ih r)) =
      contents (tb_file r) @ Footer_EncodeTo \<lparr>ft_metaindex_handle = mh, ft_index_handle = ih\<rparr> []"
    "tb_offset r = of_nat (length (contents (tb_file r))) \<Longrightarrow>
      tb_offset (write_footer ops mh ih r) = of_nat (length (contents (tb_file (write_footer ops mh ih r))))"
proof -
  obtain f where "wf_Append ops (Footer_EncodeTo \<lparr>ft_metaindex_handle = mh, ft_index_handle = ih\<rparr> []) (tb_file r) = (Status_OK, f)"
    "contents f = contents (tb_file r) @ Footer_EncodeTo \<lparr>ft_metaindex_handle = mh, ft_index_handle = ih\<rparr> []"
    using append_ok' by blast
  then show "tb_status (write_footer ops mh ih r) = Status_OK"
    "contents (tb_file (write_footer ops mh ih r)) =
      contents (tb_file r) @ Footer_EncodeTo \<lparr>ft_metaindex_handle = mh, ft_index_handle = ih\<rparr> []"
    "tb_offset r = of_nat (length (contents (tb_file r))) \<Longrightarrow>
      tb_offset (write_footer ops mh ih r) = of_nat (length (contents (tb_file (write_footer ops mh ih r))))"
    using r by (simp_all add: write_footer_def tb_ok_def Status_ok_def Status_OK_def make_Footer_def Let_def)
qed

end

text \<open>The calls that make a table: every entry is added, then the table is finished.\<close>

fun add_entries ::
  "Snappy \<Rightarrow> 'f WritableFile \<Rightarrow> entry_kv list \<Rightarrow> 'f TableBuilder \<Rightarrow> 'f TableBuilder option" where
  "add_entries snappy file [] r = Some r"
| "add_entries snappy file ((k, v) # kvs) r = do { r \<leftarrow> TableBuilder_Add snappy file k v r; add_entries snappy file kvs r }"

definition build_table ::
  "Snappy \<Rightarrow> 'f WritableFile \<Rightarrow> Options \<Rightarrow> 'f \<Rightarrow> entry_kv list \<Rightarrow> (Status \<times> 'f TableBuilder) option" where
  "build_table snappy file options f kvs =
     do { r \<leftarrow> add_entries snappy file kvs (make_TableBuilder options f); TableBuilder_Finish snappy file r }"

context table_writer begin

lemma Finish_result:
  assumes rep: "Rep r blocks cur ixs" and ord: "ordered valid cmp (concat (map snd blocks) @ cur)"
  shows "\<exists>r' blocks' ixs'. TableBuilder_Finish snappy ops r = Some (Status_OK, r') \<and>
    table_file snappy opts valid (contents (tb_file r')) blocks' ixs' \<and>
    concat (map snd blocks') = concat (map snd blocks) @ cur \<and>
    tb_offset r' = of_nat (length (contents (tb_file r')))"
proof -
  obtain r1 bs where r1: "TableBuilder_Flush snappy ops r = Some r1" "Rep r1 bs [] ixs"
    "concat (map snd bs) = concat (map snd blocks) @ cur" using Flush_rep [OF rep] by blast
  note d = table_repD [OF r1(2)]
  let ?r1 = "r1\<lparr>tb_closed := True\<rparr>" and ?F1 = "contents (tb_file r1)"
  have off: "tb_offset r1 = of_nat (length ?F1)" using d(5) by (simp add: written_def)
  obtain fh r2 where r2: "write_filter_block ops ?r1 = (fh, r2)" "grown contents ?r1 r2"
    "\<forall>p fb. tb_filter_block r1 = Some (p, fb) \<longrightarrow> stored snappy (contents (tb_file r2)) fh (fst (FilterBlock_Finish (fp_CreateFilter p) fb))"
    using write_filter_block_result [of ?r1 snappy] d(1) off by auto
  obtain mh r3 where r3: "write_metaindex_block snappy ops fh r2 = Some (mh, r3)" "grown contents r2 r3"
    "stored snappy (contents (tb_file r3)) mh (build_block (op_block_restart_interval opts) (meta_entries (op_filter_policy opts) fh))"
    using write_metaindex_block_result [of r2 snappy fh] r2(2) d(3,13) compression by (auto simp: grown_def)
  let ?ixs = "if tb_pending_index_entry r1
    then ixs @ [(cm_FindShortSuccessor (op_comparator opts) (tb_last_key r1), BlockHandle_EncodeTo (tb_pending_handle r1) [])] else ixs"
  have g: "tb_options r3 = opts" "tb_index_block_options r3 = opts\<lparr>op_block_restart_interval := 1\<rparr>"
    "tb_index_block r3 = add_all 1 ixs" "tb_pending_index_entry r3 = tb_pending_index_entry r1"
    "tb_last_key r3 = tb_last_key r1" "tb_pending_handle r3 = tb_pending_handle r1"
    "tb_status r3 = Status_OK" "tb_offset r3 = of_nat (length (contents (tb_file r3)))"
    using r2(2) r3(2) d(3,4,7) by (simp_all add: grown_def)
  obtain ih r4 G where r4: "write_index_block snappy ops r3 = Some (ih, r4)" "tb_status r4 = Status_OK"
    "tb_offset r4 = of_nat (length (contents (tb_file r4)))" "contents (tb_file r4) = contents (tb_file r3) @ G"
    "stored snappy (contents (tb_file r4)) ih (build_block 1 ?ixs)"
    using write_index_block_result [of r3 ixs snappy] g compression by auto
  let ?r5 = "write_footer ops mh ih r4"
  note f = write_footer_result [OF r4(2), of mh ih]
  have fin: "TableBuilder_Finish snappy ops r = Some (Status_OK, ?r5)"
    using r1(1) r2(1) r3(1) r4(1) f(1) by (simp add: TableBuilder_Finish_def)
  let ?F = "contents (tb_file ?r5)"
  obtain G3 where F3: "contents (tb_file r3) = contents (tb_file r2) @ G3" using r3(2) by (auto simp: grown_def)
  obtain G2 where F2: "contents (tb_file r2) = ?F1 @ G2" using r2(2) by (auto simp: grown_def)
  have keep: "stored snappy ?F1 h raw \<Longrightarrow> stored snappy ?F h raw" "stored snappy (contents (tb_file r2)) h raw \<Longrightarrow> stored snappy ?F h raw"
    "stored snappy (contents (tb_file r3)) h raw \<Longrightarrow> stored snappy ?F h raw" "stored snappy (contents (tb_file r4)) h raw \<Longrightarrow> stored snappy ?F h raw"
    for h raw unfolding f(2) r4(4) F3 F2 by (blast intro: stored_append)+
  have "\<forall>(h, kvs)\<in>set bs. kvs \<noteq> [] \<and> stored snappy ?F h (build_block (op_block_restart_interval opts) kvs)"
    using d(5) keep(1) by (fastforce simp: written_def)
  moreover have "length ?F < 2 ^ 64 \<longrightarrow> sorted (map (\<lambda>b. bh_offset (fst b)) bs @ [tb_offset r1])"
  proof -
    have "length ?F1 \<le> length ?F" by (simp add: f(2) r4(4) F3 F2)
    then show ?thesis using d(5) by (auto simp: written_def)
  qed
  moreover have "\<forall>p. op_filter_policy opts = Some p \<longrightarrow> stored snappy ?F fh (fst (FilterBlock_Finish (fp_CreateFilter p)
      (filter_blocks (fp_CreateFilter p) (filter_calls bs (tb_offset r1) []) make_FilterBlockBuilder)))"
    using r2(3) d(13) keep(2) by auto
  moreover have "length ?ixs = length bs \<and> index_rep valid cmp bs [] ?ixs"
  proof (cases "tb_pending_index_entry r1")
    case False
    then show ?thesis using d(11,12) by auto
  next
    case True
    note p = d(10) [OF True]
    let ?s = "cm_FindShortSuccessor (op_comparator opts) (tb_last_key r1)" and ?xs = "concat (map snd bs)"
    have ne: "?xs \<noteq> []" 
    proof -
      have "last bs \<in> set bs" using p by simp
      then have "snd (last bs) \<noteq> []" using d(5) by (auto simp: written_def case_prod_beta')
      then show ?thesis using \<open>last bs \<in> set bs\<close> by auto
    qed
    then have last: "tb_last_key r1 = fst (last ?xs)" using d(9) by simp
    have vl: "valid (fst (last ?xs))" using ord ne last_in_set [OF ne] by (simp add: ordered_def r1(3))
    have "cmp (fst x) ?s \<le> 0" if x: "x \<in> set ?xs" for x
    proof -
      have "cmp (fst x) (fst (last ?xs)) \<le> 0" "valid (fst x)"
        using ord x sorted_wrt_last [of "\<lambda>x y. cmp (fst x) (fst y) < 0" ?xs x] order.cmp_refl [OF vl]
        by (auto simp: ordered_def simp flip: r1(3))
      then show ?thesis using order.cmp_trans [OF _ vl order.succ_valid [OF vl]] order.succ_above [OF vl] last by simp
    qed
    then have "separates cmp (map snd bs) [] (map fst ?ixs)"
      using d(12) p True by (auto simp: index_rep_def separates_def less_Suc_eq nth_append)
    moreover have "map snd ?ixs = take (length ?ixs) (map (\<lambda>b. BlockHandle_EncodeTo (fst b) []) bs)"
    proof -
      have "last bs = bs ! length ixs" using p by (metis diff_Suc_1 last_conv_nth)
      then show ?thesis
        using d(12) p True take_Suc_conv_app_nth [of "length ixs" "map (\<lambda>b. BlockHandle_EncodeTo (fst b) []) bs"]
        by (simp add: index_rep_def)
    qed
    ultimately show ?thesis using d(12) p True order.succ_valid [OF vl] last by (simp add: index_rep_def)
  qed
  ultimately have "table_file snappy opts valid ?F bs ?ixs"
    unfolding table_file_def using f(2) keep(3) [OF r3(3)] keep(4) [OF r4(5)] by blast
  then show ?thesis using fin r1(3) f(3) [OF r4(3)] by blast
qed

lemma add_entries_result:
  "Rep r blocks cur ixs \<Longrightarrow> ordered valid cmp (concat (map snd blocks) @ cur @ kvs) \<Longrightarrow>
    \<exists>r' blocks' cur' ixs'. add_entries snappy ops kvs r = Some r' \<and> Rep r' blocks' cur' ixs' \<and>
      concat (map snd blocks') @ cur' = concat (map snd blocks) @ cur @ kvs"
proof (induction kvs arbitrary: r blocks cur ixs)
  case Nil
  then show ?case by (intro exI [of _ r] exI [of _ blocks] exI [of _ cur] exI [of _ ixs]) simp
next
  case (Cons x kvs)
  obtain k v where x: "x = (k, v)" by (cases x)
  have "ordered valid cmp (concat (map snd blocks) @ cur @ [(k, v)])"
    using Cons.prems(2) x by (auto simp: ordered_def sorted_wrt_append)
  from Add_rep [OF Cons.prems(1) this] obtain r' blocks' cur' ixs' where a: "TableBuilder_Add snappy ops k v r = Some r'"
    "Rep r' blocks' cur' ixs'" "concat (map snd blocks') @ cur' = concat (map snd blocks) @ cur @ [(k, v)]" by blast
  have "concat (map snd blocks') @ cur' @ kvs = concat (map snd blocks) @ cur @ x # kvs"
    using arg_cong [OF a(3), of "\<lambda>l. l @ kvs"] x by simp
  moreover have "add_entries snappy ops (x # kvs) r = add_entries snappy ops kvs r'" using a(1) x by simp
  ultimately show ?case using Cons.IH [OF a(2)] Cons.prems(2) by metis
qed

lemma build_table_result:
  assumes "contents f = []" "ordered valid cmp kvs"
  shows "\<exists>r blocks ixs. build_table snappy ops opts f kvs = Some (Status_OK, r) \<and>
    table_file snappy opts valid (contents (tb_file r)) blocks ixs \<and> concat (map snd blocks) = kvs \<and>
    tb_offset r = of_nat (length (contents (tb_file r)))"
proof -
  obtain r' blocks cur ixs where r': "add_entries snappy ops kvs (make_TableBuilder opts f) = Some r'" "Rep r' blocks cur ixs"
    "concat (map snd blocks) @ cur = kvs"
    using add_entries_result [OF make_TableBuilder_rep [where contents = contents, OF assms(1)], of kvs] assms(2) by auto
  then show ?thesis using Finish_result [OF r'(2)] assms(2) by (auto simp: build_table_def)
qed

end

end
