(* ===== verification/Ldb_Table_Theorems.thy ===== *)
theory Ldb_Table_Theorems
  imports Ldb_Table_Props
begin

text \<open>
  Tables: what opening a finished file yields, the table iterator as an instance of the two-level
  iterator, and the theorems about a table built, opened and read.
\<close>

section \<open>Opening a finished file\<close>

text \<open>A table as \<^verbatim>\<open>Open\<close> leaves it.\<close>

definition opened_table :: "Options \<Rightarrow> RandomAccessFile \<Rightarrow> entry_kv list \<Rightarrow> (BlockHandle \<times> entry_kv list) list \<Rightarrow> Table \<Rightarrow> bool" where
  "opened_table opts reader ixs blocks t \<longleftrightarrow> t_options t = opts \<and> t_file t = reader \<and>
     t_index_block t = make_Block (build_block 1 ixs) \<and>
     (case op_filter_policy opts of None \<Rightarrow> t_filter t = None
      | Some p \<Rightarrow> \<exists>off. (sorted (map (\<lambda>b. bh_offset (fst b)) blocks @ [off])) \<and>
          (let filter_bytes = fst (FilterBlock_Finish (fp_CreateFilter p)
             (filter_blocks (fp_CreateFilter p) (filter_calls blocks off []) make_FilterBlockBuilder))
           in length filter_bytes < 2 ^ 32 \<and> t_filter t = Some (p, make_FilterBlockReader filter_bytes)))"

lemma slice_equal_refl [simp]: "slice_equal xs xs"
proof -
  have "memcmp xs xs = 0" by (induction xs) simp_all
  then show ?thesis by (simp add: slice_equal_def)
qed

text \<open>Seeking the only key of a block.\<close>

lemma seek_only_key:
  assumes "1 \<le> interval" "length (build_block interval [(k, v)]) < 2 ^ 32"
  shows "\<exists>it. it_Seek (block_iterator Bytewise_Compare) k (Block_NewIterator (make_Block (build_block interval [(k, v)]))) = Some it \<and>
    block_at it [(k, v)] 0"
proof -
  have "Bytewise_Compare k k = 0" using slice_compare_eq [of k k] by (simp add: Bytewise_Compare_def)
  then have "seek_pos (\<lambda>k t. Bytewise_Compare k t < 0) k [(k, v)] = 0" by (simp add: seek_pos_def)
  moreover have "downward (\<lambda>k t. Bytewise_Compare k t < 0) k [(k, v)]" by (simp add: downward_def)
  ultimately show ?thesis
    using block.at_seek [OF build_block_at [OF assms], where cmp = Bytewise_Compare and t = k and proper = "\<lambda>_. True"] by simp
qed

lemma seek_empty_block:
  assumes "1 \<le> interval" "length (build_block interval []) < 2 ^ 32"
  shows "\<exists>it. it_Seek (block_iterator Bytewise_Compare) k (Block_NewIterator (make_Block (build_block interval []))) = Some it \<and>
    block_at it [] 0"
  using block.at_seek [OF build_block_at [OF assms], where cmp = Bytewise_Compare and t = k and proper = "\<lambda>_. True"]
  by (simp add: downward_def seek_pos_def)

lemma Open_result:
  assumes c: "codec snappy" and r: "random_access reader F" and tf: "table_file snappy opts valid F blocks ixs"
    and len: "length F < 2 ^ 32" and interval: "1 \<le> op_block_restart_interval opts"
  shows "\<exists>t. Table_Open snappy own_buffer opts reader (of_nat (length F)) = Some (Status_OK, Some t) \<and>
    opened_table opts reader ixs blocks t"
proof -
  obtain G mh ih fh off where f: "F = G @ Footer_EncodeTo \<lparr>ft_metaindex_handle = mh, ft_index_handle = ih\<rparr> []"
    "stored snappy F ih (build_block 1 ixs)"
    "stored snappy F mh (build_block (op_block_restart_interval opts) (meta_entries (op_filter_policy opts) fh))"
    "\<forall>p. op_filter_policy opts = Some p \<longrightarrow> stored snappy F fh (fst (FilterBlock_Finish (fp_CreateFilter p)
       (filter_blocks (fp_CreateFilter p) (filter_calls blocks off []) make_FilterBlockBuilder)))"
    "sorted (map (\<lambda>b. bh_offset (fst b)) blocks @ [off])"
    using tf len unfolding table_file_def by auto
  have len63: "length F < 2 ^ 63" using len by simp
  let ?footer = "Footer_EncodeTo \<lparr>ft_metaindex_handle = mh, ft_index_handle = ih\<rparr> []"
  have k: "kEncodedLength = 48" by (simp add: kEncodedLength_def kMaxEncodedLength_def)
  have fl: "length ?footer = 48" using Footer_Decode_Encode(1) k by simp
  then have lF: "length F = length G + 48" by (simp add: f(1))
  have u: "unat (of_nat (length F) :: 64 word) = length F" by (rule unat_small64) (use len in simp)
  have sub: "(of_nat (length F) :: 64 word) - of_nat kEncodedLength = of_nat (length G)" by (simp add: lF k)
  have "unat (of_nat (length G) :: 64 word) = length G" by (rule unat_small64) (use len lF in simp)
  then have rd: "reader (of_nat (length F) - of_nat kEncodedLength) kEncodedLength = (Status_OK, ?footer)"
    using random_access.read_inside [OF r, of "of_nat (length G)" 48] len lF fl unfolding sub k by (simp add: f(1))
  have big: "\<not> (of_nat (length F) :: 64 word) < of_nat kEncodedLength"
    using u lF by (simp add: word_less_nat_alt k)
  obtain ci where ci: "ReadBlock snappy own_buffer reader (op_paranoid_checks opts) ih = (Status_OK, ci)" "bc_data ci = build_block 1 ixs"
    using ReadBlock_stored [OF c r f(2) len63] by blast
  define t0 where "t0 = \<lparr>t_options = opts, t_file = reader, t_filter = None, t_metaindex_handle = mh,
    t_index_block = make_Block (build_block 1 ixs)\<rparr>"
  have ok: "Status_ok Status_OK" by (simp add: Status_ok_def Status_OK_def)
  have "Table_Open snappy own_buffer opts reader (of_nat (length F)) =
      do { t \<leftarrow> Table_ReadMeta snappy own_buffer \<lparr>ft_metaindex_handle = mh, ft_index_handle = ih\<rparr> t0; Some (Status_OK, Some t) }"
    using big rd ci ok by (simp add: Table_Open_def Footer_Decode_Encode t0_def)
  moreover have "\<exists>t. Table_ReadMeta snappy own_buffer \<lparr>ft_metaindex_handle = mh, ft_index_handle = ih\<rparr> t0 = Some t \<and>
      opened_table opts reader ixs blocks t"
  proof (cases "op_filter_policy opts")
    case None
    then show ?thesis by (simp add: Table_ReadMeta_def t0_def opened_table_def)
  next
    case (Some p)
    let ?fb = "fst (FilterBlock_Finish (fp_CreateFilter p) (filter_blocks (fp_CreateFilter p) (filter_calls blocks off []) make_FilterBlockBuilder))"
    let ?kv = "(filter_key (fp_Name p), BlockHandle_EncodeTo fh [])"
    have m: "stored snappy F mh (build_block (op_block_restart_interval opts) [?kv])" using f(3) Some by (simp add: meta_entries_def)
    obtain cm where cm: "ReadBlock snappy own_buffer reader (op_paranoid_checks opts) mh = (Status_OK, cm)"
      "bc_data cm = build_block (op_block_restart_interval opts) [?kv]"
      using ReadBlock_stored [OF c r m len63] by blast
    obtain it where it: "it_Seek (block_iterator Bytewise_Compare) (filter_key (fp_Name p))
        (Block_NewIterator (make_Block (build_block (op_block_restart_interval opts) [?kv]))) = Some it" "block_at it [?kv] 0"
      using seek_only_key [OF interval stored_length [OF c m len]] by blast
    have st: "stored snappy F fh ?fb" using f(4) Some by blast
    obtain cf where cf: "ReadBlock snappy own_buffer reader (op_paranoid_checks opts) fh = (Status_OK, cf)" "bc_data cf = ?fb"
      using ReadBlock_stored [OF c r st len63] by blast
    have "BlockHandle_DecodeFrom make_BlockHandle (BlockHandle_EncodeTo fh []) = (Status_OK, fh, [])"
      using BlockHandle_Decode_Encode [of _ fh "[]"] by simp
    then have "Table_ReadMeta snappy own_buffer \<lparr>ft_metaindex_handle = mh, ft_index_handle = ih\<rparr> t0 =
        Some (t0\<lparr>t_filter := Some (p, make_FilterBlockReader ?fb)\<rparr>)"
      using Some cm it cf ok block.at_valid [OF it(2)] block.at_key [OF it(2)] block.at_value [OF it(2)]
      by (simp add: Table_ReadMeta_def Table_ReadFilter_def t0_def)
    moreover have "length ?fb < 2 ^ 32" by (rule stored_length [OF c st len])
    ultimately show ?thesis using Some f(5) by (auto simp: opened_table_def t0_def Let_def)
  qed
  ultimately show ?thesis by auto
qed

section \<open>The table iterator\<close>

text \<open>What the blocks behind handles contain, as the block iterators show it.\<close>

definition block_contents :: "(byte list \<Rightarrow> NewIterator_result) \<Rightarrow> byte list \<Rightarrow> entry_kv list" where
  "block_contents read h = (SOME xs. \<exists>i. block_at (read h) xs i)"

definition good_handles :: "(byte list \<Rightarrow> NewIterator_result) \<Rightarrow> byte list set" where
  "good_handles read = {h. \<exists>xs i. block_at (read h) xs i}"

lemma block_contents_eq: "block_at (read h) xs i \<Longrightarrow> block_contents read h = xs \<and> h \<in> good_handles read"
proof -
  assume at: "block_at (read h) xs i"
  then have "\<exists>i. block_at (read h) (block_contents read h) i"
    unfolding block_contents_def by (intro someI_ex [of "\<lambda>xs. \<exists>i. block_at (read h) xs i"]) blast
  then show ?thesis using at block.at_unique by (auto simp: good_handles_def)
qed

interpretation table: two_level "block_iterator cmp" block_at "block_iterator cmp" block_at "\<lambda>k t. cmp k t < 0" proper
  "BlockReader snappy own_buffer t verify_checksums" "block_contents (BlockReader snappy own_buffer t verify_checksums)"
  "good_handles (BlockReader snappy own_buffer t verify_checksums)"
  for cmp proper snappy own_buffer t verify_checksums
proof (unfold_locales, goal_cases)
  case (1 h)
  then obtain xs i where "block_at (BlockReader snappy own_buffer t verify_checksums h) xs i" by (auto simp: good_handles_def)
  then show ?case using block_contents_eq by blast
qed

lemma separates_splits:
  assumes ord: "key_order valid cmp" and sep: "separates cmp bs [] (map fst ixs)" and len: "length ixs = length bs"
    and valid: "\<forall>x\<in>set ixs. valid (fst x)" "\<forall>x\<in>set (concat bs). valid (fst x)" and ne: "\<forall>b\<in>set bs. b \<noteq> []"
    and content: "blocks_of content ixs = bs"
  shows "index_splits (\<lambda>k t. cmp k t < 0) valid content ixs"
proof -
  have below: "cmp (fst x) (fst (ixs ! j)) \<le> 0" if "j < length ixs" "x \<in> set (bs ! j)" for j x
  proof -
    have "x \<in> set (concat (take (Suc j) bs))" using that len by (simp add: take_Suc_conv_app_nth)
    moreover have "map fst ixs ! j = fst (ixs ! j)" "j < length (map fst ixs)" using that(1) by simp_all
    ultimately show ?thesis using sep unfolding separates_def by metis
  qed
  have above: "cmp (fst (ixs ! k)) (fst x) < 0" if "k < j" "j < length ixs" "x \<in> set (bs ! j)" for j k x
  proof -
    have "bs ! j \<in> set (drop (Suc k) bs)"
      using that len nth_mem [of "j - Suc k" "drop (Suc k) bs"] by simp
    then have "x \<in> set (concat (drop (Suc k) bs) @ [])" using that(3) by auto
    moreover have "map fst ixs ! k = fst (ixs ! k)" "k < length (map fst ixs)" using that by simp_all
    ultimately show ?thesis using sep unfolding separates_def by metis
  qed
  have block: "content (snd (ixs ! j)) = bs ! j" if "j < length ixs" for j
    using that content by (auto simp: blocks_of_def)
  have v: "valid (fst (ixs ! j))" "x \<in> set (bs ! j) \<Longrightarrow> valid (fst x)" if "j < length ixs" for j x
    using that valid len by auto
  show ?thesis
    unfolding index_splits_def
  proof (intro allI impI conjI ballI)
    fix t j x assume "valid t" "j < length ixs" "cmp (fst (ixs ! j)) t < 0" "x \<in> set (content (snd (ixs ! j)))"
    then show "cmp (fst x) t < 0"
      using below [of j x] block v key_order.cmp_le_less [OF ord, of "fst x" "fst (ixs ! j)" t] by simp
  next
    fix t j k x assume a: "valid t" "j < length ixs" "k < j" "\<not> cmp (fst (ixs ! k)) t < 0" "x \<in> set (content (snd (ixs ! j)))"
    have vx: "valid (fst x)" "valid (fst (ixs ! k))" using a v block by auto
    have "cmp (fst (ixs ! k)) (fst x) < 0" using above [of k j x] a block by simp
    then show "\<not> cmp (fst x) t < 0" using a(1,4) vx key_order.cmp_less_trans [OF ord] by blast
  next
    fix t j k assume a: "valid t" "j < length ixs" "k < j" "\<not> cmp (fst (ixs ! k)) t < 0"
    obtain x where x: "x \<in> set (bs ! j)" using ne a(2) len by (metis last_in_set nth_mem)
    have vx: "valid (fst x)" "valid (fst (ixs ! k))" "valid (fst (ixs ! j))" using a x v by auto
    have "cmp (fst (ixs ! k)) (fst x) < 0" "cmp (fst x) (fst (ixs ! j)) \<le> 0" using above a below x by auto
    then have "cmp (fst (ixs ! k)) (fst (ixs ! j)) < 0" using vx key_order.cmp_less_le [OF ord] by blast
    then show "\<not> cmp (fst (ixs ! j)) t < 0" using a(1,4) vx key_order.cmp_less_trans [OF ord] by blast
  qed
qed

text \<open>The iterator of an opened table stands behind all its entries.\<close>

lemma BlockReader_at:
  assumes c: "codec snappy" and r: "random_access reader F" and tf: "table_file snappy opts valid F blocks ixs"
    and len: "length F < 2 ^ 32" and interval: "1 \<le> op_block_restart_interval opts"
    and t: "t_file t = reader" and b: "(h, kvs) \<in> set blocks"
  shows "block_at (BlockReader snappy own_buffer t verify_checksums (BlockHandle_EncodeTo h [])) kvs (length kvs)"
proof -
  have st: "stored snappy F h (build_block (op_block_restart_interval opts) kvs)"
    using tf b by (auto simp: table_file_def)
  obtain cb where cb: "ReadBlock snappy own_buffer reader verify_checksums h = (Status_OK, cb)"
    "bc_data cb = build_block (op_block_restart_interval opts) kvs"
    using ReadBlock_stored [OF c r st] len by fastforce
  have "BlockHandle_DecodeFrom make_BlockHandle (BlockHandle_EncodeTo h []) = (Status_OK, h, [])"
    using BlockHandle_Decode_Encode [of _ h "[]"] by simp
  then have "BlockReader snappy own_buffer t verify_checksums (BlockHandle_EncodeTo h []) =
      Block_NewIterator (make_Block (build_block (op_block_restart_interval opts) kvs))"
    using cb t by (simp add: BlockReader_def Status_ok_def Status_OK_def)
  then show ?thesis using build_block_at [OF interval stored_length [OF c st len]] by simp
qed

definition table_at ::
  "Snappy \<Rightarrow> bool \<Rightarrow> Table \<Rightarrow> bool \<Rightarrow> (byte list \<Rightarrow> bool) \<Rightarrow> TableIter \<Rightarrow> entry_kv list \<Rightarrow> nat \<Rightarrow> bool" where
  "table_at snappy own_buffer t verify_checksums valid = two_at block_at block_at (\<lambda>k x. table_cmp t k x < 0) valid
     (block_contents (BlockReader snappy own_buffer t verify_checksums)) (good_handles (BlockReader snappy own_buffer t verify_checksums))"

lemma opened_table_parts:
  fixes own_buffer verify_checksums
  assumes c: "codec snappy" and r: "random_access reader F" and tf: "table_file snappy opts valid F blocks ixs"
    and len: "length F < 2 ^ 32" and interval: "1 \<le> op_block_restart_interval opts"
    and t: "opened_table opts reader ixs blocks t"
    and ord: "key_order valid (cm_Compare (op_comparator opts))" "\<forall>x\<in>set (concat (map snd blocks)). valid (fst x)"
  defines "BR \<equiv> BlockReader snappy own_buffer t verify_checksums"
  shows "block_at (Block_NewIterator (t_index_block t)) ixs (length ixs)" "table_cmp t = cm_Compare (op_comparator opts)"
    "length ixs = length blocks" "\<And>j. j < length ixs \<Longrightarrow> snd (ixs ! j) = BlockHandle_EncodeTo (fst (blocks ! j)) []"
    "\<And>j. j < length ixs \<Longrightarrow> block_at (BR (snd (ixs ! j))) (snd (blocks ! j)) (length (snd (blocks ! j)))"
    "blocks_of (block_contents BR) ixs = map snd blocks" "snd ` set ixs \<subseteq> good_handles BR"
    "index_splits (\<lambda>k x. table_cmp t k x < 0) valid (block_contents BR) ixs"
proof -
  obtain ih where ih: "stored snappy F ih (build_block 1 ixs)" using tf unfolding table_file_def by blast
  show ix: "block_at (Block_NewIterator (t_index_block t)) ixs (length ixs)"
    using build_block_at [OF order.refl stored_length [OF c ih len]] t by (simp add: opened_table_def)
  show cmp: "table_cmp t = cm_Compare (op_comparator opts)" using t by (simp add: table_cmp_def opened_table_def)
  have rep: "index_rep valid (cm_Compare (op_comparator opts)) blocks [] ixs" "length ixs = length blocks"
    "\<forall>b\<in>set blocks. snd b \<noteq> []" using tf by (auto simp: table_file_def)
  show lenix: "length ixs = length blocks" by (rule rep(2))
  show handle: "snd (ixs ! j) = BlockHandle_EncodeTo (fst (blocks ! j)) []" if "j < length ixs" for j
  proof -
    have "map snd ixs = map (\<lambda>b. BlockHandle_EncodeTo (fst b) []) blocks" using rep(1,2) by (simp add: index_rep_def)
    then have "map snd ixs ! j = map (\<lambda>b. BlockHandle_EncodeTo (fst b) []) blocks ! j" by (rule arg_cong)
    then show ?thesis using that rep(2) by simp
  qed
  show at: "block_at (BR (snd (ixs ! j))) (snd (blocks ! j)) (length (snd (blocks ! j)))" if "j < length ixs" for j
  proof -
    have "(fst (blocks ! j), snd (blocks ! j)) \<in> set blocks" using that rep(2) by simp
    then show ?thesis
      using BlockReader_at [OF c r tf len interval] t handle [OF that] by (simp add: BR_def opened_table_def)
  qed
  show content: "blocks_of (block_contents BR) ixs = map snd blocks"
    using block_contents_eq [of BR, OF at] rep(2) by (intro nth_equalityI) (simp_all add: blocks_of_def)
  show "snd ` set ixs \<subseteq> good_handles BR"
    using block_contents_eq [of BR, OF at] by (force simp: in_set_conv_nth [of _ ixs])
  show "index_splits (\<lambda>k x. table_cmp t k x < 0) valid (block_contents BR) ixs"
    unfolding cmp
    by (rule separates_splits [OF ord(1) _ _ _ ord(2) _ content]) (use rep in \<open>auto simp: index_rep_def\<close>)
qed

lemma Table_NewIterator_at:
  assumes "codec snappy" "random_access reader F" "table_file snappy opts valid F blocks ixs"
    and "length F < 2 ^ 32" "1 \<le> op_block_restart_interval opts" "opened_table opts reader ixs blocks t"
    and "key_order valid (cm_Compare (op_comparator opts))" "\<forall>x\<in>set (concat (map snd blocks)). valid (fst x)"
  shows "table_at snappy own_buffer t verify_checksums valid (Table_NewIterator t) (concat (map snd blocks)) (length (concat (map snd blocks)))"
  using table.new_at [OF opened_table_parts(1,7,8) [OF assms]] opened_table_parts(6) [OF assms]
  by (simp add: table_at_def Table_NewIterator_def)

interpretation table_iter: iterator "table_iterator snappy own_buffer t verify_checksums"
  "table_at snappy own_buffer t verify_checksums valid" "\<lambda>k x. table_cmp t k x < 0" valid
  for snappy own_buffer t verify_checksums valid
  unfolding table_iterator_def table_at_def by (rule table.two.iterator_axioms)

section \<open>Looking a key up\<close>

text \<open>What a filter policy promises for a table of \<open>n\<close> keys.\<close>

definition filter_ok :: "Options \<Rightarrow> nat \<Rightarrow> bool" where
  "filter_ok opts n \<longleftrightarrow> (\<forall>p. op_filter_policy opts = Some p \<longrightarrow>
     (\<exists>m. filter_policy (fp_CreateFilter p) (fp_KeyMayMatch p) m \<and> n < m))"

lemma filter_base:
  "fr_base_lg (make_FilterBlockReader (fst (FilterBlock_Finish create b))) = 11"
proof -
  define x where "x = fst (FilterBlock_Finish create b)"
  obtain ys where "x = ys @ [of_nat kFilterBaseLg]" "4 \<le> length ys"
    by (auto simp: x_def FilterBlock_Finish_def Let_def PutFixed32_def)
  then have "5 \<le> length x" "x ! (length x - 1) = 11" by (simp_all add: kFilterBaseLg_def)
  then show ?thesis unfolding x_def [symmetric] by (simp add: make_FilterBlockReader_def Let_def)
qed

lemma KeyMayMatch_some:
  "fr_base_lg r < 64 \<Longrightarrow> \<exists>b. FilterBlock_KeyMayMatch may_match r off k = Some b"
  by (auto simp: FilterBlock_KeyMayMatch_def Let_def not_le [symmetric])

lemma table_filter_result:
  assumes t: "opened_table opts reader ixs blocks t" and ok: "filter_ok opts (length (concat (map snd blocks)))"
    and h: "(h, kvs) \<in> set blocks"
  shows "\<exists>filtered. (case t_filter t of None \<Rightarrow> Some False
      | Some (policy, filter1) \<Rightarrow> map_option Not (FilterBlock_KeyMayMatch (fp_KeyMayMatch policy) filter1 (bh_offset h) k)) = Some filtered \<and>
    (k \<in> fst ` set kvs \<longrightarrow> \<not> filtered)"
proof (cases "op_filter_policy opts")
  case None
  then show ?thesis using t by (intro exI [of _ False]) (simp add: opened_table_def)
next
  case (Some p)
  obtain off where off: "sorted (map (\<lambda>b. bh_offset (fst b)) blocks @ [off])"
    "length (fst (FilterBlock_Finish (fp_CreateFilter p)
       (filter_blocks (fp_CreateFilter p) (filter_calls blocks off []) make_FilterBlockBuilder))) < 2 ^ 32"
    "t_filter t = Some (p, make_FilterBlockReader (fst (FilterBlock_Finish (fp_CreateFilter p)
       (filter_blocks (fp_CreateFilter p) (filter_calls blocks off []) make_FilterBlockBuilder))))"
    using t Some by (auto simp: opened_table_def Let_def)
  obtain m where m: "filter_policy (fp_CreateFilter p) (fp_KeyMayMatch p) m" "length (concat (map snd blocks)) < m"
    using ok Some by (auto simp: filter_ok_def)
  let ?reader = "make_FilterBlockReader (fst (FilterBlock_Finish (fp_CreateFilter p)
       (filter_blocks (fp_CreateFilter p) (filter_calls blocks off []) make_FilterBlockBuilder)))"
  have "\<exists>b. FilterBlock_KeyMayMatch (fp_KeyMayMatch p) ?reader (bh_offset h) k = Some b"
    by (rule KeyMayMatch_some) (simp add: filter_base)
  moreover have "FilterBlock_KeyMayMatch (fp_KeyMayMatch p) ?reader (bh_offset h) k = Some True" if "k \<in> fst ` set kvs"
  proof (rule filter_policy.filter_block_keeps [OF m(1) _ _ _ _ off(2)])
    show "sorted (map fst (filter_calls blocks off []))" using off(1) by (simp add: filter_calls_def case_prod_beta' comp_def)
    show "(bh_offset h, map fst kvs) \<in> set (filter_calls blocks off [])" using h by (force simp: filter_calls_def)
    show "k \<in> set (map fst kvs)" using that by simp
    have "length (concat (map snd (filter_calls blocks off []))) = length (concat (map snd blocks))"
      by (simp add: filter_calls_def case_prod_beta' comp_def length_concat)
    then show "length (concat (map snd (filter_calls blocks off []))) < m" using m(2) by simp
  qed
  ultimately show ?thesis using off(3) by auto
qed

lemma seek_pos_member:
  assumes ord: "key_order valid cmp" and kvs: "ordered valid cmp kvs" and k: "valid k" and i: "i < length kvs" "fst (kvs ! i) = k"
  shows "seek_pos (\<lambda>k x. cmp k x < 0) k kvs = i"
proof (rule seek_pos_unique)
  show "cmp (fst (kvs ! j)) k < 0" if "j < i" for j
    using kvs i that unfolding ordered_def sorted_wrt_iff_nth_less by blast
  show "\<not> cmp (fst (kvs ! i)) k < 0" using key_order.cmp_refl [OF ord k] i(2) by simp
qed (use i in simp)

lemma nth_length_in: "length a < length (a @ b) \<Longrightarrow> (a @ b) ! length a \<in> set b"
  by (cases b) simp_all

lemma InternalGet_result:
  fixes own_buffer verify_checksums
  assumes c: "codec snappy" and r: "random_access reader F" and tf: "table_file snappy opts valid F blocks ixs"
    and len: "length F < 2 ^ 32" and interval: "1 \<le> op_block_restart_interval opts"
    and t: "opened_table opts reader ixs blocks t" and ok: "filter_ok opts (length (concat (map snd blocks)))"
    and ord: "key_order valid (cm_Compare (op_comparator opts))" and kvs: "ordered valid (cm_Compare (op_comparator opts)) (concat (map snd blocks))"
    and k: "valid k"
  defines "kvs \<equiv> concat (map snd blocks)" and "s \<equiv> seek_pos (\<lambda>k x. cm_Compare (op_comparator opts) k x < 0) k (concat (map snd blocks))"
  shows "\<exists>res. Table_InternalGet snappy own_buffer t verify_checksums k = Some (Status_OK, res) \<and>
    (\<forall>e. res = Some e \<longrightarrow> s < length kvs \<and> e = kvs ! s) \<and> (res = None \<longrightarrow> k \<notin> fst ` set kvs)"
proof -
  have v: "\<forall>x\<in>set (concat (map snd blocks)). valid (fst x)" using kvs by (simp add: ordered_def)
  note o = opened_table_parts(1-4) [OF c r tf len interval t ord v]
    opened_table_parts(5-8) [where own_buffer = own_buffer and verify_checksums = verify_checksums, OF c r tf len interval t ord v]
  let ?cmp = "cm_Compare (op_comparator opts)" and ?BR = "BlockReader snappy own_buffer t verify_checksums"
  let ?below = "\<lambda>k x. ?cmp k x < 0" and ?ops = "block_iterator (cm_Compare (op_comparator opts))"
  have cmp: "table_cmp t = ?cmp" by (rule o(2))
  note split = o(8) [unfolded cmp]
  have down: "downward ?below k (concat (map snd blocks))"
    using key_order.sorted_downward [OF ord, of "concat (map snd blocks)" "\<lambda>k. k" k] v k kvs by (simp add: ordered_def sorted_wrt_map)
  have dix: "downward ?below k ixs"
    using table.index_downward [OF split k] down o(6) by simp
  define j where "j = seek_pos ?below k ixs"
  obtain ii where ii: "it_Seek ?ops k (Block_NewIterator (t_index_block t)) = Some ii" "block_at ii ixs j"
    using block.at_seek [OF o(1), where cmp = ?cmp and t = k and proper = valid] k dix unfolding j_def by blast
  have jb: "j \<le> length ixs" unfolding j_def by (rule seek_pos_le)
  let ?block = "snd (blocks ! j)"
  define m where "m = seek_pos ?below k ?block"
  have content: "block_contents ?BR (snd (ixs ! j)) = ?block" if "j < length ixs"
    using block_contents_eq [of ?BR, OF o(5) [OF that]] by simp
  have s: "s = place (map snd blocks) j (if j < length ixs then m else 0)"
    using table.seek_place [OF split k] down content unfolding o(6) s_def j_def m_def by (auto simp: j_def [symmetric])
  have nb: "length (map snd blocks) = length ixs" using o(3) by simp
  have missing: "k \<notin> fst ` set kvs" if "s < length kvs \<Longrightarrow> fst (kvs ! s) \<noteq> k"
  proof
    assume "k \<in> fst ` set kvs"
    then obtain i where i: "i < length kvs" "fst (kvs ! i) = k" by (metis imageE in_set_conv_nth)
    have "s = i" unfolding s_def kvs_def [symmetric] by (rule seek_pos_member [OF ord _ k i]) (use kvs in \<open>simp add: kvs_def\<close>)
    then show False using that i by simp
  qed
  have ok': "Status_ok Status_OK" by (simp add: Status_ok_def Status_OK_def)
  show ?thesis
  proof (cases "j < length ixs")
    case False
    then have "j = length (map snd blocks)" using jb o(3) by simp
    then have "s = length kvs" using s False place_last [of "map snd blocks"] by (simp add: kvs_def)
    moreover have "Table_InternalGet snappy own_buffer t verify_checksums k = Some (Status_OK, None)"
      using ii block.at_valid [OF ii(2)] block.at_status [OF ii(2)] False ok' by (simp add: Table_InternalGet_def cmp)
    ultimately show ?thesis using missing by simp
  next
    case True
    have jin: "(fst (blocks ! j), ?block) \<in> set blocks" using True o(3) by simp
    have val: "it_value ?ops ii = BlockHandle_EncodeTo (fst (blocks ! j)) []"
      using block.at_value [OF ii(2) True] o(4) [OF True] by simp
    have dec: "BlockHandle_DecodeFrom make_BlockHandle (BlockHandle_EncodeTo (fst (blocks ! j)) []) = (Status_OK, fst (blocks ! j), [])"
      using BlockHandle_Decode_Encode [of _ "fst (blocks ! j)" "[]"] by simp
    obtain filtered where f: "(case t_filter t of None \<Rightarrow> Some False
        | Some (policy, filter1) \<Rightarrow> map_option Not (FilterBlock_KeyMayMatch (fp_KeyMayMatch policy) filter1 (bh_offset (fst (blocks ! j))) k)) = Some filtered"
      "k \<in> fst ` set ?block \<longrightarrow> \<not> filtered" using table_filter_result [OF t ok jin] by blast
    have db: "downward ?below k ?block" using downward_block [of ?below k "map snd blocks" j] down True o(3) by simp
    obtain bi where bi: "it_Seek ?ops k (?BR (snd (ixs ! j))) = Some bi" "block_at bi ?block m"
      using block.at_seek [OF o(5) [OF True], where cmp = ?cmp and t = k and proper = valid] k db unfolding m_def by blast
    have mb: "m \<le> length ?block" unfolding m_def by (rule seek_pos_le)
    have entry: "s < length kvs \<and> kvs ! s = ?block ! m" if "m < length ?block"
      using place_nth [of j "map snd blocks" m] that True nb s by (simp add: kvs_def)
    have get: "Table_InternalGet snappy own_buffer t verify_checksums k =
        Some (Status_OK, if filtered then None else if m < length ?block then Some (?block ! m) else None)"
      using ii block.at_valid [OF ii(2)] block.at_status [OF ii(2)] True ok' val dec f(1) bi o(4) [OF True]
        block.at_valid [OF bi(2)] block.at_status [OF bi(2)] block.at_key [OF bi(2)] block.at_value [OF bi(2)]
      by (cases "t_filter t") (auto simp: Table_InternalGet_def cmp)
    have "k \<notin> fst ` set kvs" if none: "filtered \<or> \<not> m < length ?block"
    proof (rule missing)
      assume sl: "s < length kvs"
      show "fst (kvs ! s) \<noteq> k"
      proof (cases "m < length ?block")
        case m: True
        then have "k \<notin> fst ` set ?block" using none f(2) by blast
        then show ?thesis using entry [OF m] m by (metis image_eqI nth_mem)
      next
        case False
        then have "s = length (concat (take (Suc j) (map snd blocks)))"
          using s True mb place_end [of j "map snd blocks"] o(3) by (simp add: place_def)
        moreover have "kvs = concat (take (Suc j) (map snd blocks)) @ concat (drop (Suc j) (map snd blocks))"
          unfolding kvs_def by (metis append_take_drop_id concat_append)
        ultimately have "kvs ! s \<in> set (concat (drop (Suc j) (map snd blocks)) @ [])"
          using sl nth_length_in [of "concat (take (Suc j) (map snd blocks))" "concat (drop (Suc j) (map snd blocks))"] by simp
        moreover have "separates ?cmp (map snd blocks) [] (map fst ixs)" "j < length (map fst ixs)"
          using tf True by (auto simp: table_file_def index_rep_def)
        ultimately have "?cmp (map fst ixs ! j) (fst (kvs ! s)) < 0" unfolding separates_def by blast
        then have "?cmp (fst (ixs ! j)) (fst (kvs ! s)) < 0" using True by simp
        moreover have "\<not> ?cmp (fst (ixs ! j)) k < 0" using downward_less_seek_pos [OF dix True] by (simp add: j_def)
        ultimately show ?thesis by auto
      qed
    qed
    then show ?thesis using get entry by auto
  qed
qed

section \<open>Tables built, opened and read\<close>

lemma table_writerI:
  assumes "codec snappy" "comparator valid (cm_Compare (op_comparator opts))
      (cm_FindShortestSeparator (op_comparator opts)) (cm_FindShortSuccessor (op_comparator opts))"
    and "1 \<le> op_block_restart_interval opts" "op_compression opts = kNoCompression \<or> op_compression opts = kSnappyCompression"
  shows "table_writer StringDest_file (\<lambda>f. f) snappy valid opts"
  using assms string_dest.writable_file_axioms by (simp add: table_writer_def table_writer_axioms_def)

interpretation string_table: table_writer StringDest_file "\<lambda>f. f" port_Snappy "\<lambda>_. True"
  "make_Options\<lparr>op_block_size := n, op_filter_policy := policy\<rparr>" for n policy
proof (rule table_writerI)
  show "comparator (\<lambda>_. True) (cm_Compare (op_comparator (make_Options\<lparr>op_block_size := n, op_filter_policy := policy\<rparr>)))
     (cm_FindShortestSeparator (op_comparator (make_Options\<lparr>op_block_size := n, op_filter_policy := policy\<rparr>)))
     (cm_FindShortSuccessor (op_comparator (make_Options\<lparr>op_block_size := n, op_filter_policy := policy\<rparr>)))"
    using bytewise.comparator_axioms by (simp add: make_Options_def BytewiseComparator_def)
qed (simp_all add: no_snappy.codec_axioms make_Options_def)

lemma built_table:
  assumes "codec snappy" "comparator valid (cm_Compare (op_comparator opts))
      (cm_FindShortestSeparator (op_comparator opts)) (cm_FindShortSuccessor (op_comparator opts))"
    and "1 \<le> op_block_restart_interval opts" "op_compression opts = kNoCompression \<or> op_compression opts = kSnappyCompression"
    and "ordered valid (cm_Compare (op_comparator opts)) kvs"
    and "\<forall>s r. build_table snappy StringDest_file opts [] kvs = Some (s, r) \<longrightarrow> length (tb_file r) < 2 ^ 32"
  obtains r blocks ixs t where "build_table snappy StringDest_file opts [] kvs = Some (Status_OK, r)"
    "TableBuilder_FileSize r = of_nat (length (tb_file r))"
    "Table_Open snappy own_buffer opts (StringSource_ReadAt (tb_file r)) (TableBuilder_FileSize r) = Some (Status_OK, Some t)"
    "table_file snappy opts valid (tb_file r) blocks ixs" "concat (map snd blocks) = kvs"
    "length (tb_file r) < 2 ^ 32" "opened_table opts (StringSource_ReadAt (tb_file r)) ixs blocks t"
proof -
  obtain r blocks ixs where r: "build_table snappy StringDest_file opts [] kvs = Some (Status_OK, r)"
    "table_file snappy opts valid (tb_file r) blocks ixs" "concat (map snd blocks) = kvs"
    "tb_offset r = of_nat (length (tb_file r))"
    using table_writer.build_table_result [OF table_writerI [OF assms(1-4)] _ assms(5), of "[]"] by auto
  have len: "length (tb_file r) < 2 ^ 32" using assms(6) r(1) by blast
  obtain t where "Table_Open snappy own_buffer opts (StringSource_ReadAt (tb_file r)) (of_nat (length (tb_file r))) = Some (Status_OK, Some t)"
    "opened_table opts (StringSource_ReadAt (tb_file r)) ixs blocks t"
    using Open_result [OF assms(1) string_source.random_access_axioms r(2) len assms(3)] by blast
  then show thesis using that r len by (simp add: TableBuilder_FileSize_def)
qed

lemma comparator_order: "comparator valid cmp sep succ \<Longrightarrow> key_order valid cmp"
  by (simp add: comparator_def)

text \<open>A small table, for the examples: two blocks of one entry, with a Bloom filter.\<close>

definition sample_options :: Options where
  "sample_options = make_Options\<lparr>op_block_size := 1, op_filter_policy := Some (NewBloomFilterPolicy 10 6)\<rparr>"

definition sample_entries :: "entry_kv list" where
  "sample_entries = [([97], [1]), ([98], [2])]"

lemma length_CreateFilter:
  "length (CreateFilter policy keys dst) = length dst + unat (filter_bytes (of_nat (length keys) * bits_per_key policy)) + 1"
  by (simp add: CreateFilter_def Let_def filter_bytes_def)

lemmas table_build_defs = build_table_def make_TableBuilder_def TableBuilder_Add_def tb_ok_def Status_ok_def Status_OK_def
  TableBuilder_Flush_def BlockBuilder_empty_def BlockBuilder_Add_def make_BlockBuilder_def CurrentSizeEstimate_def
  PutVarint32_def EncodeVarint32_def WriteBlock_def BlockBuilder_Finish_def PutFixed32_def compress_block_def WriteRawBlock_def
  BlockBuilder_Reset_def add_index_entry_def TableBuilder_Finish_def write_filter_block_def write_metaindex_block_def
  write_index_block_def write_footer_def BlockHandle_EncodeTo_def PutVarint64_def EncodeVarint64.simps kBlockTrailerSize_def
  Footer_Decode_Encode(1) kEncodedLength_def kMaxEncodedLength_def

lemma sample_table:
  "codec port_Snappy"
  "comparator (\<lambda>_. True) (cm_Compare (op_comparator sample_options))
      (cm_FindShortestSeparator (op_comparator sample_options)) (cm_FindShortSuccessor (op_comparator sample_options))"
  "1 \<le> op_block_restart_interval sample_options"
  "op_compression sample_options = kNoCompression \<or> op_compression sample_options = kSnappyCompression"
  "ordered (\<lambda>_. True) (cm_Compare (op_comparator sample_options)) sample_entries"
  "\<forall>s r. build_table port_Snappy StringDest_file sample_options [] sample_entries = Some (s, r) \<longrightarrow> length (tb_file r) < 2 ^ 32"
  "filter_ok sample_options (length sample_entries)"
proof -
  show "\<forall>s r. build_table port_Snappy StringDest_file sample_options [] sample_entries = Some (s, r) \<longrightarrow> length (tb_file r) < 2 ^ 32"
    by (simp add: table_build_defs sample_options_def sample_entries_def make_Options_def BytewiseComparator_def port_Snappy_def
        kNoCompression_def kSnappyCompression_def StringDest_file_def Bytewise_Compare_def Bytewise_FindShortestSeparator_def
        Bytewise_FindShortSuccessor_def NewBloomFilterPolicy_def StartBlock_def start_block_loop.simps AddKey_def GenerateFilter_def
        FilterBlock_Finish_def make_FilterBlockBuilder_def kFilterBase_def kFilterBaseLg_def length_CreateFilter
        make_BloomFilterPolicy_def filter_bytes_def filter_key_def Let_def)
  have "filter_policy (CreateFilter (make_BloomFilterPolicy 10 6)) KeyMayMatch (2 ^ 31)"
    using bloom.filter_policy_axioms [of 10 6] by (simp add: bloom_max_keys_def)
  then show "filter_ok sample_options (length sample_entries)"
    by (auto simp: filter_ok_def sample_options_def sample_entries_def NewBloomFilterPolicy_def intro!: exI [of _ "2 ^ 31"])
  show "comparator (\<lambda>_. True) (cm_Compare (op_comparator sample_options))
      (cm_FindShortestSeparator (op_comparator sample_options)) (cm_FindShortSuccessor (op_comparator sample_options))"
    using bytewise.comparator_axioms by (simp add: sample_options_def make_Options_def BytewiseComparator_def)
  show "ordered (\<lambda>_. True) (cm_Compare (op_comparator sample_options)) sample_entries"
    by (simp add: ordered_def sample_options_def sample_entries_def make_Options_def BytewiseComparator_def Bytewise_Compare_def)
qed (simp_all add: no_snappy.codec_axioms sample_options_def make_Options_def)

text \<open>
  C2: a table read back: for any comparator and any lossless compression, and keys added in increasing
  order, building the table succeeds with none of the builder's assertions violated, the reported size is the
  file's, opening the file succeeds, and the table iterator visits exactly the entries, forwards and
  backwards, without an error; with or without checksum verification. The file stays under 4 GB.
\<close>
theorem table_roundtrip:
  assumes "codec snappy" "comparator valid (cm_Compare (op_comparator opts))
      (cm_FindShortestSeparator (op_comparator opts)) (cm_FindShortSuccessor (op_comparator opts))"
    and "1 \<le> op_block_restart_interval opts" "op_compression opts = kNoCompression \<or> op_compression opts = kSnappyCompression"
    and "ordered valid (cm_Compare (op_comparator opts)) kvs"
    and "\<forall>s r. build_table snappy StringDest_file opts [] kvs = Some (s, r) \<longrightarrow> length (tb_file r) < 2 ^ 32"
  shows "\<exists>r t first last. build_table snappy StringDest_file opts [] kvs = Some (Status_OK, r) \<and>
    TableBuilder_FileSize r = of_nat (length (tb_file r)) \<and>
    Table_Open snappy own_buffer opts (StringSource_ReadAt (tb_file r)) (TableBuilder_FileSize r) = Some (Status_OK, Some t) \<and>
    it_SeekToFirst (table_iterator snappy own_buffer t verify) (Table_NewIterator t) = Some first \<and>
    walk (table_iterator snappy own_buffer t verify) (it_Next (table_iterator snappy own_buffer t verify)) first = Some (kvs, Status_OK) \<and>
    it_SeekToLast (table_iterator snappy own_buffer t verify) (Table_NewIterator t) = Some last \<and>
    walk (table_iterator snappy own_buffer t verify) (it_Prev (table_iterator snappy own_buffer t verify)) last = Some (rev kvs, Status_OK)"
proof -
  obtain r blocks ixs t where r: "build_table snappy StringDest_file opts [] kvs = Some (Status_OK, r)"
    "TableBuilder_FileSize r = of_nat (length (tb_file r))"
    "Table_Open snappy own_buffer opts (StringSource_ReadAt (tb_file r)) (TableBuilder_FileSize r) = Some (Status_OK, Some t)"
    "table_file snappy opts valid (tb_file r) blocks ixs" "concat (map snd blocks) = kvs"
    "length (tb_file r) < 2 ^ 32" "opened_table opts (StringSource_ReadAt (tb_file r)) ixs blocks t"
    by (rule built_table [OF assms, of own_buffer])
  have v: "\<forall>x\<in>set (concat (map snd blocks)). valid (fst x)" using assms(5) r(5) by (simp add: ordered_def)
  have at: "table_at snappy own_buffer t verify valid (Table_NewIterator t) kvs (length kvs)"
    using Table_NewIterator_at [OF assms(1) string_source.random_access_axioms r(4,6) assms(3) r(7) comparator_order [OF assms(2)] v]
    unfolding r(5) .
  show ?thesis using r(1,2,3) table_iter.walk_from_first [OF at] table_iter.walk_from_last [OF at] by blast
qed

theorem table_roundtrip_witness:
  "\<exists>r t first last. build_table port_Snappy StringDest_file sample_options [] sample_entries = Some (Status_OK, r) \<and>
    TableBuilder_FileSize r = of_nat (length (tb_file r)) \<and>
    Table_Open port_Snappy True sample_options (StringSource_ReadAt (tb_file r)) (TableBuilder_FileSize r) = Some (Status_OK, Some t) \<and>
    it_SeekToFirst (table_iterator port_Snappy True t True) (Table_NewIterator t) = Some first \<and>
    walk (table_iterator port_Snappy True t True) (it_Next (table_iterator port_Snappy True t True)) first =
      Some ([([97], [1]), ([98], [2])], Status_OK) \<and>
    it_SeekToLast (table_iterator port_Snappy True t True) (Table_NewIterator t) = Some last \<and>
    walk (table_iterator port_Snappy True t True) (it_Prev (table_iterator port_Snappy True t True)) last =
      Some ([([98], [2]), ([97], [1])], Status_OK)"
  using table_roundtrip [OF sample_table(1-6), where own_buffer = True and verify = True] by (simp add: sample_entries_def)

text \<open>
  C7: seeking in a table lands at the first entry whose key is not below the target, in whichever block it
  lies, so that reading on yields exactly the entries from there.
\<close>
theorem table_seek:
  assumes "codec snappy" "comparator valid (cm_Compare (op_comparator opts))
      (cm_FindShortestSeparator (op_comparator opts)) (cm_FindShortSuccessor (op_comparator opts))"
    and "1 \<le> op_block_restart_interval opts" "op_compression opts = kNoCompression \<or> op_compression opts = kSnappyCompression"
    and "ordered valid (cm_Compare (op_comparator opts)) kvs"
    and "\<forall>s r. build_table snappy StringDest_file opts [] kvs = Some (s, r) \<longrightarrow> length (tb_file r) < 2 ^ 32"
    and "valid target"
  shows "\<exists>r t it. build_table snappy StringDest_file opts [] kvs = Some (Status_OK, r) \<and>
    Table_Open snappy own_buffer opts (StringSource_ReadAt (tb_file r)) (TableBuilder_FileSize r) = Some (Status_OK, Some t) \<and>
    it_Seek (table_iterator snappy own_buffer t verify) target (Table_NewIterator t) = Some it \<and>
    walk (table_iterator snappy own_buffer t verify) (it_Next (table_iterator snappy own_buffer t verify)) it =
      Some (dropWhile (\<lambda>x. cm_Compare (op_comparator opts) (fst x) target < 0) kvs, Status_OK)"
proof -
  obtain r blocks ixs t where r: "build_table snappy StringDest_file opts [] kvs = Some (Status_OK, r)"
    "TableBuilder_FileSize r = of_nat (length (tb_file r))"
    "Table_Open snappy own_buffer opts (StringSource_ReadAt (tb_file r)) (TableBuilder_FileSize r) = Some (Status_OK, Some t)"
    "table_file snappy opts valid (tb_file r) blocks ixs" "concat (map snd blocks) = kvs"
    "length (tb_file r) < 2 ^ 32" "opened_table opts (StringSource_ReadAt (tb_file r)) ixs blocks t"
    by (rule built_table [OF assms(1-6), of own_buffer])
  have v: "\<forall>x\<in>set (concat (map snd blocks)). valid (fst x)" using assms(5) r(5) by (simp add: ordered_def)
  have at: "table_at snappy own_buffer t verify valid (Table_NewIterator t) kvs (length kvs)"
    using Table_NewIterator_at [OF assms(1) string_source.random_access_axioms r(4,6) assms(3) r(7) comparator_order [OF assms(2)] v]
    unfolding r(5) .
  have cmp: "table_cmp t = cm_Compare (op_comparator opts)" using r(7) by (simp add: table_cmp_def opened_table_def)
  have "downward (\<lambda>k x. table_cmp t k x < 0) target kvs"
    using key_order.sorted_downward [OF comparator_order [OF assms(2)], of kvs "\<lambda>k. k" target] assms(5,7)
    by (simp add: ordered_def sorted_wrt_map cmp)
  then show ?thesis using r(1,3) table_iter.walk_from_target [OF at assms(7)] unfolding cmp by blast
qed

theorem table_seek_witness:
  "\<exists>r t it. build_table port_Snappy StringDest_file sample_options [] sample_entries = Some (Status_OK, r) \<and>
    Table_Open port_Snappy True sample_options (StringSource_ReadAt (tb_file r)) (TableBuilder_FileSize r) = Some (Status_OK, Some t) \<and>
    it_Seek (table_iterator port_Snappy True t True) [97, 5] (Table_NewIterator t) = Some it \<and>
    walk (table_iterator port_Snappy True t True) (it_Next (table_iterator port_Snappy True t True)) it = Some ([([98], [2])], Status_OK)"
  using table_seek [OF sample_table(1-6), where own_buffer = True and verify = True and target = "[97, 5]"]
  by (simp add: sample_entries_def sample_options_def make_Options_def BytewiseComparator_def Bytewise_Compare_def)

text \<open>
  C4: looking up a key in a table with any filter policy that has no false negatives: a key of the table is
  found with its value; for any other key nothing is handed out or an entry of the table that is not
  below it. No lookup fails.
\<close>
theorem table_get:
  assumes "codec snappy" "comparator valid (cm_Compare (op_comparator opts))
      (cm_FindShortestSeparator (op_comparator opts)) (cm_FindShortSuccessor (op_comparator opts))"
    and "1 \<le> op_block_restart_interval opts" "op_compression opts = kNoCompression \<or> op_compression opts = kSnappyCompression"
    and "ordered valid (cm_Compare (op_comparator opts)) kvs"
    and "\<forall>s r. build_table snappy StringDest_file opts [] kvs = Some (s, r) \<longrightarrow> length (tb_file r) < 2 ^ 32"
    and "valid k" "filter_ok opts (length kvs)"
  shows "\<exists>r t res. build_table snappy StringDest_file opts [] kvs = Some (Status_OK, r) \<and>
    Table_Open snappy own_buffer opts (StringSource_ReadAt (tb_file r)) (TableBuilder_FileSize r) = Some (Status_OK, Some t) \<and>
    Table_InternalGet snappy own_buffer t verify k = Some (Status_OK, res) \<and>
    (case map_of kvs k of
       Some v \<Rightarrow> res = Some (k, v)
     | None \<Rightarrow> \<forall>e. res = Some e \<longrightarrow> e \<in> set kvs \<and> 0 \<le> cm_Compare (op_comparator opts) (fst e) k)"
proof -
  let ?cmp = "cm_Compare (op_comparator opts)"
  obtain r blocks ixs t where r: "build_table snappy StringDest_file opts [] kvs = Some (Status_OK, r)"
    "TableBuilder_FileSize r = of_nat (length (tb_file r))"
    "Table_Open snappy own_buffer opts (StringSource_ReadAt (tb_file r)) (TableBuilder_FileSize r) = Some (Status_OK, Some t)"
    "table_file snappy opts valid (tb_file r) blocks ixs" "concat (map snd blocks) = kvs"
    "length (tb_file r) < 2 ^ 32" "opened_table opts (StringSource_ReadAt (tb_file r)) ixs blocks t"
    by (rule built_table [OF assms(1-6), of own_buffer])
  note ord = comparator_order [OF assms(2)]
  define s where "s = seek_pos (\<lambda>k x. ?cmp k x < 0) k kvs"
  obtain res where res: "Table_InternalGet snappy own_buffer t verify k = Some (Status_OK, res)"
    "\<forall>e. res = Some e \<longrightarrow> s < length kvs \<and> e = kvs ! s" "res = None \<longrightarrow> k \<notin> fst ` set kvs"
    using InternalGet_result [OF assms(1) string_source.random_access_axioms r(4,6) assms(3) r(7) _ ord _ assms(7)]
      assms(5,8) unfolding r(5) s_def by blast
  have down: "downward (\<lambda>k x. ?cmp k x < 0) k kvs"
    using key_order.sorted_downward [OF ord, of kvs "\<lambda>k. k" k] assms(5,7) by (simp add: ordered_def sorted_wrt_map)
  have found: "kvs ! s = (k, v)" if "map_of kvs k = Some v" for v
  proof -
    have "(k, v) \<in> set kvs" using that by (rule map_of_SomeD)
    then obtain i where i: "i < length kvs" "kvs ! i = (k, v)" by (metis in_set_conv_nth)
    have "s = i" unfolding s_def by (rule seek_pos_member [OF ord assms(5,7) i(1)]) (simp add: i(2))
    then show ?thesis using i(2) by simp
  qed
  have "case map_of kvs k of Some v \<Rightarrow> res = Some (k, v)
      | None \<Rightarrow> \<forall>e. res = Some e \<longrightarrow> e \<in> set kvs \<and> 0 \<le> ?cmp (fst e) k"
  proof (cases "map_of kvs k")
    case None
    have "\<not> ?cmp (fst (kvs ! s)) k < 0" if "s < length kvs"
      using downward_less_seek_pos [OF down that] by (simp add: s_def)
    then show ?thesis using None res(2) by auto
  next
    case (Some v)
    then have "k \<in> fst ` set kvs" by (metis map_of_SomeD fst_conv image_eqI)
    then show ?thesis using Some res(2,3) found [OF Some] by (cases res) auto
  qed
  then show ?thesis using r(1,3) res(1) by blast
qed

theorem table_get_witness:
  "\<exists>r t res. build_table port_Snappy StringDest_file sample_options [] sample_entries = Some (Status_OK, r) \<and>
    Table_Open port_Snappy True sample_options (StringSource_ReadAt (tb_file r)) (TableBuilder_FileSize r) = Some (Status_OK, Some t) \<and>
    Table_InternalGet port_Snappy True t True [98] = Some (Status_OK, Some ([98], [2]))"
  using table_get [OF sample_table(1-6) _ sample_table(7), where own_buffer = True and verify = True and k = "[98]"] by (auto simp: sample_entries_def)

section \<open>Options that change\<close>

text \<open>
  C33: \<^verbatim>\<open>ChangeOptions\<close> rejects another comparator but not another filter policy: when the policy is taken
  away, \<^verbatim>\<open>Finish\<close> still writes the filter and then asks the missing policy for its name.
\<close>
theorem change_options_loses_policy:
  assumes "op_compression opts = kNoCompression" "op_filter_policy opts = Some policy"
  shows "fst (TableBuilder_ChangeOptions (opts\<lparr>op_filter_policy := None\<rparr>) (make_TableBuilder opts f)) = Status_OK \<and>
    TableBuilder_Finish snappy StringDest_file
      (snd (TableBuilder_ChangeOptions (opts\<lparr>op_filter_policy := None\<rparr>) (make_TableBuilder opts f))) = None"
  using assms
  by (cases "FilterBlock_Finish (fp_CreateFilter policy) (StartBlock (fp_CreateFilter policy) make_FilterBlockBuilder 0)")
    (simp add: TableBuilder_ChangeOptions_def make_TableBuilder_def TableBuilder_Finish_def TableBuilder_Flush_def
      BlockBuilder_empty_def make_BlockBuilder_def write_filter_block_def write_metaindex_block_def WriteRawBlock_def
      StringDest_file_def tb_ok_def Status_ok_def Status_OK_def Let_def)

theorem change_options_loses_policy_witness:
  "fst (TableBuilder_ChangeOptions (sample_options\<lparr>op_compression := kNoCompression, op_filter_policy := None\<rparr>)
      (make_TableBuilder (sample_options\<lparr>op_compression := kNoCompression\<rparr>) ([] :: StringDest))) = Status_OK \<and>
    TableBuilder_Finish port_Snappy StringDest_file
      (snd (TableBuilder_ChangeOptions (sample_options\<lparr>op_compression := kNoCompression, op_filter_policy := None\<rparr>)
        (make_TableBuilder (sample_options\<lparr>op_compression := kNoCompression\<rparr>) []))) = None"
  using change_options_loses_policy [of "sample_options\<lparr>op_compression := kNoCompression\<rparr>" "NewBloomFilterPolicy 10 6" "[]" port_Snappy]
  by (simp add: sample_options_def)

end
