(* ===== verification/Ldb_Db_View.thy ===== *)
theory Ldb_Db_View
  imports Ldb_Merger Ldb_Db_Iter Ldb_Memtable_Iter Ldb_Table_Theorems
begin

text \<open>
  The sources of a database together: memtables and tables of internal keys are children of one merging
  iterator, and the database iterator over it shows the latest version of every key.
\<close>

section \<open>The sources as one kind of iterator\<close>

text \<open>What is behind an \<^verbatim>\<open>Iterator\<close> pointer in the list of \<^verbatim>\<open>DBImpl::NewInternalIterator\<close>.\<close>

datatype Source = MemSource MemTable "nat option" | TableSource Table TableIter

definition on_source :: "(MemTable \<Rightarrow> nat option \<Rightarrow> 'a) \<Rightarrow> (Table \<Rightarrow> TableIter \<Rightarrow> 'a) \<Rightarrow> Source \<Rightarrow> 'a" where
  "on_source f g r = (case r of MemSource m it \<Rightarrow> f m it | TableSource t it \<Rightarrow> g t it)"

definition move_source ::
  "(nat option Iterator \<Rightarrow> nat option \<Rightarrow> nat option option) \<Rightarrow> (TableIter Iterator \<Rightarrow> TableIter \<Rightarrow> TableIter option) \<Rightarrow>
    Snappy \<Rightarrow> bool \<Rightarrow> bool \<Rightarrow> Source \<Rightarrow> Source option" where
  "move_source f g snappy own_buffer verify =
     on_source (\<lambda>m it. map_option (MemSource m) (f (MemTableIterator Bytewise_Compare m) it))
       (\<lambda>t it. map_option (TableSource t) (g (table_iterator snappy own_buffer t verify) it))"

definition source_iterator :: "Snappy \<Rightarrow> bool \<Rightarrow> bool \<Rightarrow> Source Iterator" where
  "source_iterator snappy own_buffer verify =
     \<lparr>it_Valid = on_source (\<lambda>m. it_Valid (MemTableIterator Bytewise_Compare m)) (\<lambda>t. it_Valid (table_iterator snappy own_buffer t verify)),
      it_key = on_source (\<lambda>m. it_key (MemTableIterator Bytewise_Compare m)) (\<lambda>t. it_key (table_iterator snappy own_buffer t verify)),
      it_value = on_source (\<lambda>m. it_value (MemTableIterator Bytewise_Compare m)) (\<lambda>t. it_value (table_iterator snappy own_buffer t verify)),
      it_status = on_source (\<lambda>m. it_status (MemTableIterator Bytewise_Compare m)) (\<lambda>t. it_status (table_iterator snappy own_buffer t verify)),
      it_SeekToFirst = move_source it_SeekToFirst it_SeekToFirst snappy own_buffer verify,
      it_SeekToLast = move_source it_SeekToLast it_SeekToLast snappy own_buffer verify,
      it_Next = move_source it_Next it_Next snappy own_buffer verify,
      it_Prev = move_source it_Prev it_Prev snappy own_buffer verify,
      it_Seek = (\<lambda>k. move_source (\<lambda>I. it_Seek I k) (\<lambda>I. it_Seek I k) snappy own_buffer verify)\<rparr>"

definition source_at :: "Snappy \<Rightarrow> bool \<Rightarrow> bool \<Rightarrow> Source \<Rightarrow> entry_kv list \<Rightarrow> nat \<Rightarrow> bool" where
  "source_at snappy own_buffer verify r xs i \<longleftrightarrow>
     (case r of
        MemSource m it \<Rightarrow> mem_at m it xs i
      | TableSource t it \<Rightarrow> table_cmp t = InternalKeyCompare Bytewise_Compare \<and>
          table_at snappy own_buffer t verify (internal_key user_key_ok) it xs i)"

lemma table_source:
  assumes "table_cmp t = InternalKeyCompare Bytewise_Compare"
  shows "iterator (table_iterator snappy own_buffer t verify) (table_at snappy own_buffer t verify (internal_key user_key_ok))
    (\<lambda>k t. InternalKeyCompare Bytewise_Compare k t < 0) (internal_key user_key_ok)"
  using table_iter.iterator_axioms [of snappy own_buffer t verify "internal_key user_key_ok"] unfolding assms .

interpretation sources: iterator "source_iterator snappy own_buffer verify" "source_at snappy own_buffer verify"
  "\<lambda>k t. InternalKeyCompare Bytewise_Compare k t < 0" "internal_key user_key_ok" for snappy own_buffer verify
proof (unfold_locales, goal_cases)
  case (1 r xs i)
  then show ?case
    by (cases r) (auto simp: source_at_def dest: memtable_iter.at_bound table_iter.at_bound)
next
  case (2 r xs i)
  then show ?case
    by (cases r) (auto simp: source_at_def source_iterator_def on_source_def dest: memtable_iter.at_valid table_iter.at_valid)
next
  case (3 r xs i)
  then show ?case
    by (cases r) (auto simp: source_at_def source_iterator_def on_source_def dest: memtable_iter.at_key table_iter.at_key)
next
  case (4 r xs i)
  then show ?case
    by (cases r) (auto simp: source_at_def source_iterator_def on_source_def dest: memtable_iter.at_value table_iter.at_value)
next
  case (5 r xs i)
  then show ?case
    by (cases r) (auto simp: source_at_def source_iterator_def on_source_def dest: memtable_iter.at_status table_iter.at_status)
next
  case (6 r xs i)
  show ?case
  proof (cases r)
    case (MemSource m it)
    then show ?thesis using 6 memtable_iter.at_first [of m it xs i]
      by (auto simp: source_at_def source_iterator_def on_source_def move_source_def)
  next
    case (TableSource t it)
    then show ?thesis using 6 table_iter.at_first [of snappy own_buffer t verify "internal_key user_key_ok" it xs i]
      by (auto simp: source_at_def source_iterator_def on_source_def move_source_def)
  qed
next
  case (7 r xs i)
  show ?case
  proof (cases r)
    case (MemSource m it)
    then show ?thesis using 7 memtable_iter.at_last [of m it xs i]
      by (auto simp: source_at_def source_iterator_def on_source_def move_source_def)
  next
    case (TableSource t it)
    then show ?thesis using 7 table_iter.at_last [of snappy own_buffer t verify "internal_key user_key_ok" it xs i]
      by (auto simp: source_at_def source_iterator_def on_source_def move_source_def)
  qed
next
  case (8 r xs i)
  show ?case
  proof (cases r)
    case (MemSource m it)
    then show ?thesis using 8 memtable_iter.at_next [of m it xs i]
      by (auto simp: source_at_def source_iterator_def on_source_def move_source_def)
  next
    case (TableSource t it)
    then show ?thesis using 8 table_iter.at_next [of snappy own_buffer t verify "internal_key user_key_ok" it xs i]
      by (auto simp: source_at_def source_iterator_def on_source_def move_source_def)
  qed
next
  case (9 r xs i)
  show ?case
  proof (cases r)
    case (MemSource m it)
    then show ?thesis using 9 memtable_iter.at_prev [of m it xs i]
      by (auto simp: source_at_def source_iterator_def on_source_def move_source_def)
  next
    case (TableSource t it)
    then show ?thesis using 9 table_iter.at_prev [of snappy own_buffer t verify "internal_key user_key_ok" it xs i]
      by (auto simp: source_at_def source_iterator_def on_source_def move_source_def)
  qed
next
  case (10 r xs i k)
  show ?case
  proof (cases r)
    case (MemSource m it)
    then show ?thesis using 10 memtable_iter.at_seek [of m it xs i k]
      by (auto simp: source_at_def source_iterator_def on_source_def move_source_def)
  next
    case (TableSource t it)
    then show ?thesis using 10 table_iter.at_seek [of snappy own_buffer t verify "internal_key user_key_ok" it xs i k]
      by (auto simp: source_at_def source_iterator_def on_source_def move_source_def)
  qed
qed

text \<open>The comparators, for user keys that fit the length fields.\<close>

lemma increment_first_length: "increment_first k = Some k' \<Longrightarrow> length k' \<le> length k"
  by (induction k arbitrary: k') (auto split: if_splits)

lemma user_comparator: "comparator user_key_ok Bytewise_Compare Bytewise_FindShortestSeparator Bytewise_FindShortSuccessor"
proof (unfold_locales, goal_cases)
  case (3 a b)
  have "length (Bytewise_FindShortestSeparator a b) \<le> length a"
    by (auto simp: Bytewise_FindShortestSeparator_def Let_def)
  then show ?case using 3 by (simp add: user_key_ok_def)
next
  case (6 a)
  have "length (Bytewise_FindShortSuccessor a) \<le> length a"
    using increment_first_length [of a] by (auto simp: Bytewise_FindShortSuccessor_def split: option.split)
  then show ?case using 6 by (simp add: user_key_ok_def)
qed (use bytewise.cmp_swap bytewise.cmp_trans bytewise.sep_between bytewise.sep_outside bytewise.succ_above in auto)

lemma key_comparator:
  "comparator (internal_key user_key_ok) (InternalKeyCompare Bytewise_Compare)
    (InternalFindShortestSeparator Bytewise_Compare Bytewise_FindShortestSeparator)
    (InternalFindShortSuccessor Bytewise_Compare Bytewise_FindShortSuccessor)"
  by (rule comparator.internal_comparator [OF user_comparator])

interpretation merged_sources: merging "source_iterator snappy own_buffer verify" "source_at snappy own_buffer verify"
  "InternalKeyCompare Bytewise_Compare" "internal_key user_key_ok" for snappy own_buffer verify
  by (intro merging.intro sources.iterator_axioms comparator_order [OF key_comparator])

interpretation database: db_iter "merged_iterator (InternalKeyCompare Bytewise_Compare) (source_iterator snappy own_buffer verify)"
  "merged_at (InternalKeyCompare Bytewise_Compare) (internal_key user_key_ok) (source_at snappy own_buffer verify)"
  Bytewise_Compare user_key_ok for snappy own_buffer verify
  by (intro db_iter.intro merged_sources.merged.iterator_axioms comparator_order [OF user_comparator])

section \<open>What the writes say\<close>

text \<open>The latest version of a key among a set of writes, up to a sequence number.\<close>

definition latest_version :: "mem_write set \<Rightarrow> byte list \<Rightarrow> SequenceNumber \<Rightarrow> mem_write \<Rightarrow> bool" where
  "latest_version W k s w \<longleftrightarrow> w \<in> W \<and> fst (snd (snd w)) = k \<and> fst w \<le> s \<and>
     (\<forall>w'\<in>W. fst (snd (snd w')) = k \<and> fst w' \<le> s \<longrightarrow> fst w' \<le> fst w)"

lemma kv_of_parts:
  assumes "write_ok (s, t, k, v)"
  shows "user_part (kv_of (s, t, k, v)) = k" "seen n (kv_of (s, t, k, v)) \<longleftrightarrow> s \<le> n"
    "ExtractValueType (fst (kv_of (s, t, k, v))) = t" "ParseInternalKey (fst (kv_of (s, t, k, v))) \<noteq> None"
    "internal_key user_key_ok (fst (kv_of (s, t, k, v)))"
proof -
  have ok: "s \<le> kMaxSequenceNumber" "t \<le> kTypeValue" "user_key_ok k"
    using assms by (auto simp: write_ok_def kTypeValue_def kTypeDeletion_def user_key_ok_def)
  have n: "key_number (internal_key_of s t k) = PackSequenceAndType s t"
    using AppendInternalKey_fields [of "\<lparr>pk_user_key = k, pk_sequence = s, pk_type = t\<rparr>"]
    by (simp add: key_number_def internal_key_of_def)
  have u: "ExtractUserKey (internal_key_of s t k) = k" "length (internal_key_of s t k) = length k + 8"
    using AppendInternalKey_fields [of "\<lparr>pk_user_key = k, pk_sequence = s, pk_type = t\<rparr>"] by (simp_all add: internal_key_of_def)
  then show "user_part (kv_of (s, t, k, v)) = k" by (simp add: kv_of_def)
  show "seen n (kv_of (s, t, k, v)) \<longleftrightarrow> s \<le> n" using pack_fields(1) [OF ok(1)] by (simp add: seen_def kv_of_def n)
  show ty: "ExtractValueType (fst (kv_of (s, t, k, v))) = t" using pack_fields(2) [OF ok(1)] by (simp add: ExtractValueType_def kv_of_def n)
  show "ParseInternalKey (fst (kv_of (s, t, k, v))) \<noteq> None"
    using ty ok(2) n u(2) by (simp add: ParseInternalKey_def Let_def kv_of_def ExtractValueType_def key_number_def)
  show "internal_key user_key_ok (fst (kv_of (s, t, k, v)))" using u ok(3) by (simp add: kv_of_def internal_key_def)
qed

lemma kv_of_ok: "write_ok w \<Longrightarrow> internal_key user_key_ok (fst (kv_of w))"
  using kv_of_parts(5) by (cases w) simp

lemma writes_entries:
  assumes "\<forall>w\<in>set ws. write_ok w" "sorted_wrt (\<lambda>x y. InternalKeyCompare Bytewise_Compare (fst x) (fst y) < 0) (map kv_of ws)"
  shows "internal_entries Bytewise_Compare user_key_ok (map kv_of ws)"
  using assms kv_of_parts(4,5) unfolding internal_entries_def by (metis (no_types, lifting) imageE prod_cases4 set_map)

text \<open>The view lists the latest versions that are values, by increasing key.\<close>

lemma visible_write:
  assumes ws: "\<forall>w\<in>set ws. write_ok w" and sorted: "sorted_wrt (\<lambda>x y. InternalKeyCompare Bytewise_Compare (fst x) (fst y) < 0) (map kv_of ws)"
    and i: "i < length ws"
  shows "visible Bytewise_Compare n (map kv_of ws) i \<longleftrightarrow>
    latest_version (set ws) (fst (snd (snd (ws ! i)))) n (ws ! i) \<and> fst (snd (ws ! i)) = kTypeValue"
proof -
  obtain s t k v where w: "ws ! i = (s, t, k, v)" by (cases "ws ! i")
  have wi: "write_ok (s, t, k, v)" using ws nth_mem [OF i] w by simp
  have parts: "user_part (map kv_of ws ! j) = fst (snd (snd (ws ! j)))" "seen n (map kv_of ws ! j) \<longleftrightarrow> fst (ws ! j) \<le> n" if "j < length ws" for j
    using kv_of_parts(1,2) ws nth_mem [OF that] that by (metis nth_map prod.collapse)+
  have eq: "Bytewise_Compare a b = 0 \<longleftrightarrow> a = b" for a b by (simp add: Bytewise_Compare_def slice_compare_eq)
  have order: "fst (ws ! b) \<le> fst (ws ! a) \<and> (fst (ws ! a) = fst (ws ! b) \<longrightarrow> fst (snd (ws ! b)) < fst (snd (ws ! a)))"
    if "a < b" "b < length ws" "fst (snd (snd (ws ! a))) = fst (snd (snd (ws ! b)))" for a b
  proof -
    obtain s1 t1 k1 v1 s2 t2 k2 v2 where ab: "ws ! a = (s1, t1, k1, v1)" "ws ! b = (s2, t2, k2, v2)" by (metis prod_cases4)
    have "write_ok (s1, t1, k1, v1)" "write_ok (s2, t2, k2, v2)"
      using ws nth_mem [of a ws] nth_mem [of b ws] that(1,2) ab by force+
    moreover have "InternalKeyCompare Bytewise_Compare (fst (kv_of (ws ! a))) (fst (kv_of (ws ! b))) < 0"
      using sorted_wrt_nth_less [OF sorted that(1)] that(1,2) by simp
    ultimately show ?thesis using internal_key_of_less [of s1 s2 t1 k1 t2 k2] that(3) ab
      by (auto simp: kv_of_def write_ok_def)
  qed
  have "(\<forall>j<i. seen n (map kv_of ws ! j) \<longrightarrow> user_part (map kv_of ws ! j) \<noteq> k) \<longleftrightarrow>
      (\<forall>w'\<in>set ws. fst (snd (snd w')) = k \<and> fst w' \<le> n \<longrightarrow> fst w' \<le> s)" if "t = kTypeValue"
  proof
    assume first: "\<forall>j<i. seen n (map kv_of ws ! j) \<longrightarrow> user_part (map kv_of ws ! j) \<noteq> k"
    show "\<forall>w'\<in>set ws. fst (snd (snd w')) = k \<and> fst w' \<le> n \<longrightarrow> fst w' \<le> s"
    proof (intro ballI impI)
      fix w' assume w': "w' \<in> set ws" "fst (snd (snd w')) = k \<and> fst w' \<le> n"
      then obtain j where j: "j < length ws" "w' = ws ! j" by (auto simp: in_set_conv_nth)
      then have "\<not> j < i" using first parts [OF j(1)] w'(2) by auto
      then show "fst w' \<le> s" using order [of i j] j w w'(2) by (cases "i = j") auto
    qed
  next
    assume top: "\<forall>w'\<in>set ws. fst (snd (snd w')) = k \<and> fst w' \<le> n \<longrightarrow> fst w' \<le> s"
    show "\<forall>j<i. seen n (map kv_of ws ! j) \<longrightarrow> user_part (map kv_of ws ! j) \<noteq> k"
    proof (intro allI impI notI)
      fix j assume j: "j < i" "seen n (map kv_of ws ! j)" "user_part (map kv_of ws ! j) = k"
      then have jl: "j < length ws" using i by simp
      have "fst (ws ! j) \<le> s" using top nth_mem [OF jl] j(2,3) parts [OF jl] by simp
      then have "t < fst (snd (ws ! j))" using order [OF j(1) i] j(3) parts [OF jl] w by auto
      moreover have "write_ok (ws ! j)" using ws nth_mem [OF jl] by blast
      ultimately show False using that by (auto simp: write_ok_def kTypeValue_def kTypeDeletion_def)
    qed
  qed
  then show ?thesis
    using i w kv_of_parts(1-3) [OF wi] nth_mem [OF i] by (auto simp: visible_def latest_version_def eq)
qed

lemma view_of_writes:
  fixes n :: SequenceNumber and ws :: "mem_write list"
  assumes ws: "\<forall>w\<in>set ws. write_ok w" and sorted: "sorted_wrt (\<lambda>x y. InternalKeyCompare Bytewise_Compare (fst x) (fst y) < 0) (map kv_of ws)"
  defines "xs \<equiv> user_view Bytewise_Compare n (map kv_of ws)"
  shows "sorted_wrt (<) (map fst xs)" "(k, v) \<in> set xs \<longleftrightarrow> (\<exists>s. latest_version (set ws) k n (s, kTypeValue, k, v))"
proof -
  let ?vs = "visible_positions Bytewise_Compare n (map kv_of ws)"
  have parts: "(user_part (map kv_of ws ! i), snd (map kv_of ws ! i)) = (fst (snd (snd (ws ! i))), snd (snd (snd (ws ! i))))"
    if "i < length ws" for i
    using kv_of_parts(1) ws nth_mem [OF that] that by (cases "ws ! i") (auto simp: kv_of_def)
  have vs: "set ?vs = {i. i < length ws \<and> visible Bytewise_Compare n (map kv_of ws) i}"
    by (auto simp: visible_positions_def)
  have "sorted_wrt (<) ?vs" unfolding visible_positions_def by (rule sorted_wrt_filter) simp
  then show "sorted_wrt (<) (map fst xs)" unfolding xs_def user_view_def
  proof (simp add: sorted_wrt_map o_def, elim sorted_wrt_mono_rel [rotated])
    fix i j assume "i \<in> set ?vs" "j \<in> set ?vs" "i < j"
    then have h: "i < j \<and> visible Bytewise_Compare n (map kv_of ws) i \<and> visible Bytewise_Compare n (map kv_of ws) j" by (simp add: vs)
    have e: "internal_entries Bytewise_Compare user_key_ok (map kv_of ws)" by (rule writes_entries [OF ws sorted])
    have jl: "j < length (map kv_of ws)" using h by (simp add: visible_def)
    have "Bytewise_Compare (user_part (map kv_of ws ! i)) (user_part (map kv_of ws ! j)) \<le> 0"
      using database.user_parts(2) [OF e _ jl, of i] h by simp
    moreover have "Bytewise_Compare (user_part (map kv_of ws ! i)) (user_part (map kv_of ws ! j)) \<noteq> 0"
      using database.visibleD(2,4) h by blast
    ultimately show "user_part (map kv_of ws ! i) < user_part (map kv_of ws ! j)"
      by (simp add: Bytewise_Compare_def flip: slice_compare_less)
  qed
  have "(k, v) \<in> set xs \<longleftrightarrow> (\<exists>i<length ws. visible Bytewise_Compare n (map kv_of ws) i \<and> (k, v) = (fst (snd (snd (ws ! i))), snd (snd (snd (ws ! i)))))"
  proof -
    have "set xs = (\<lambda>i. (fst (snd (snd (ws ! i))), snd (snd (snd (ws ! i))))) ` set ?vs"
      unfolding xs_def user_view_def set_map by (rule image_cong [OF refl]) (use parts vs in blast)
    then show ?thesis unfolding vs by blast
  qed
  also have "\<dots> \<longleftrightarrow> (\<exists>i<length ws. latest_version (set ws) k n (ws ! i) \<and> ws ! i = (fst (ws ! i), kTypeValue, k, v))"
    using visible_write [OF ws sorted] by (auto simp: prod_eq_iff)
  also have "\<dots> \<longleftrightarrow> (\<exists>s. latest_version (set ws) k n (s, kTypeValue, k, v))"
  proof
    assume "\<exists>i<length ws. latest_version (set ws) k n (ws ! i) \<and> ws ! i = (fst (ws ! i), kTypeValue, k, v)"
    then show "\<exists>s. latest_version (set ws) k n (s, kTypeValue, k, v)" by metis
  next
    assume "\<exists>s. latest_version (set ws) k n (s, kTypeValue, k, v)"
    then obtain s where s: "latest_version (set ws) k n (s, kTypeValue, k, v)" ..
    then obtain i where "i < length ws" "ws ! i = (s, kTypeValue, k, v)" by (auto simp: latest_version_def in_set_conv_nth)
    then show "\<exists>i<length ws. latest_version (set ws) k n (ws ! i) \<and> ws ! i = (fst (ws ! i), kTypeValue, k, v)"
      using s by auto
  qed
  finally show "(k, v) \<in> set xs \<longleftrightarrow> (\<exists>s. latest_version (set ws) k n (s, kTypeValue, k, v))" .
qed

section \<open>The iterator of a database\<close>

text \<open>
  \<^verbatim>\<open>DBImpl::NewInternalIterator\<close> for a version whose files are all of level 0: the memtable, the
  immutable memtable if there is one, and the tables; \<^verbatim>\<open>DBImpl::NewIterator\<close> shows a snapshot of it.
\<close>

definition NewInternalIterator ::
  "Snappy \<Rightarrow> bool \<Rightarrow> bool \<Rightarrow> MemTable \<Rightarrow> MemTable option \<Rightarrow> Table list \<Rightarrow> Source Merged" where
  "NewInternalIterator snappy own_buffer verify mem imm tables =
     NewMergingIterator (source_iterator snappy own_buffer verify)
       ([MemSource mem None] @ (case imm of None \<Rightarrow> [] | Some m \<Rightarrow> [MemSource m None]) @
        map (\<lambda>t. TableSource t (Table_NewIterator t)) tables)"

definition DBImpl_NewIterator ::
  "Snappy \<Rightarrow> bool \<Rightarrow> bool \<Rightarrow> MemTable \<Rightarrow> MemTable option \<Rightarrow> Table list \<Rightarrow> SequenceNumber \<Rightarrow> 32 word \<Rightarrow> Source Merged DBIter" where
  "DBImpl_NewIterator snappy own_buffer verify mem imm tables snapshot seed =
     make_DBIter (NewInternalIterator snappy own_buffer verify mem imm tables) snapshot seed"

definition database_iterator :: "Snappy \<Rightarrow> bool \<Rightarrow> bool \<Rightarrow> Source Merged DBIter Iterator" where
  "database_iterator snappy own_buffer verify =
     db_iterator Bytewise_Compare (merged_iterator (InternalKeyCompare Bytewise_Compare) (source_iterator snappy own_buffer verify))"

text \<open>A memtable after a history of writes, and a table opened on the file the builder made of some.\<close>

definition mem_of_writes :: "MemTable \<Rightarrow> mem_write list \<Rightarrow> bool" where
  "mem_of_writes m H \<longleftrightarrow> sorted_wrt (<) (map fst H) \<and> (\<forall>h\<in>set H. write_ok h) \<and>
     (\<exists>m0. make_MemTable = Some m0 \<and> MemTable_Add_all m0 H = Some m)"

definition table_of_writes :: "Snappy \<Rightarrow> bool \<Rightarrow> Options \<Rightarrow> Table \<Rightarrow> mem_write list \<Rightarrow> bool" where
  "table_of_writes snappy own_buffer opts t ws \<longleftrightarrow>
     (\<forall>w\<in>set ws. write_ok w) \<and> sorted_wrt (\<lambda>x y. InternalKeyCompare Bytewise_Compare (fst x) (fst y) < 0) (map kv_of ws) \<and>
     (\<exists>r. build_table snappy StringDest_file opts [] (map kv_of ws) = Some (Status_OK, r) \<and> length (tb_file r) < 2 ^ 32 \<and>
       Table_Open snappy own_buffer opts (StringSource_ReadAt (tb_file r)) (TableBuilder_FileSize r) = Some (Status_OK, Some t))"

definition internal_options :: "Options \<Rightarrow> bool" where
  "internal_options opts \<longleftrightarrow> (\<exists>a. op_comparator opts = InternalKeyComparator a BytewiseComparator) \<and>
     1 \<le> op_block_restart_interval opts \<and> (op_compression opts = kNoCompression \<or> op_compression opts = kSnappyCompression)"

lemma mem_of_writes_source:
  assumes "mem_of_writes m H"
  obtains ws where "source_at snappy own_buffer verify (MemSource m None) (map kv_of ws) (length ws)" "mset ws = mset H"
    "\<forall>w\<in>set ws. write_ok w" "sorted_wrt (\<lambda>x y. InternalKeyCompare Bytewise_Compare (fst x) (fst y) < 0) (map kv_of ws)"
proof -
  obtain m0 where m0: "make_MemTable = Some m0" "MemTable_Add_all m0 H = Some m" using assms by (auto simp: mem_of_writes_def)
  then have "mem_rep m0 []" using make_MemTable_rep by (metis option.inject)
  then have "mem_rep m H" using MemTable_Add_all_rep [of m0 "[]" H] assms m0(2) by (auto simp: mem_of_writes_def)
  then obtain ws where ws: "mem_at m None (map kv_of ws) (length ws)" "set ws = set H" "\<forall>w\<in>set ws. write_ok w"
    "sorted_wrt (\<lambda>x y. InternalKeyCompare Bytewise_Compare (fst x) (fst y) < 0) (map kv_of ws)"
    by (rule mem_rep_iter)
  have "distinct (map kv_of ws)"
    using merged_sources.merge_distinct [of "[map kv_of ws]" "map kv_of ws"] ws(3,4) kv_of_ok
    by (simp add: merge_of_def)
  then have "distinct ws" by (simp add: distinct_map)
  moreover have "distinct H" using assms strict_sorted_iff by (metis mem_of_writes_def distinct_map)
  ultimately have "mset ws = mset H" using ws(2) by (simp add: set_eq_iff_mset_eq_distinct)
  with ws show ?thesis using that by (simp add: source_at_def)
qed

lemma table_of_writes_source:
  assumes "codec snappy" "internal_options opts" "table_of_writes snappy own_buffer opts t ws"
  shows "source_at snappy own_buffer verify (TableSource t (Table_NewIterator t)) (map kv_of ws) (length ws)"
proof -
  obtain a where a: "op_comparator opts = InternalKeyComparator a BytewiseComparator"
    "1 \<le> op_block_restart_interval opts" "op_compression opts = kNoCompression \<or> op_compression opts = kSnappyCompression"
    using assms(2) by (auto simp: internal_options_def)
  have cmp: "comparator (internal_key user_key_ok) (cm_Compare (op_comparator opts))
      (cm_FindShortestSeparator (op_comparator opts)) (cm_FindShortSuccessor (op_comparator opts))"
    using key_comparator by (simp add: a(1) InternalKeyComparator_def BytewiseComparator_def)
  have compare: "cm_Compare (op_comparator opts) = InternalKeyCompare Bytewise_Compare"
    by (simp add: a(1) InternalKeyComparator_def BytewiseComparator_def)
  obtain r where r: "build_table snappy StringDest_file opts [] (map kv_of ws) = Some (Status_OK, r)" "length (tb_file r) < 2 ^ 32"
    "Table_Open snappy own_buffer opts (StringSource_ReadAt (tb_file r)) (TableBuilder_FileSize r) = Some (Status_OK, Some t)"
    using assms(3) by (auto simp: table_of_writes_def)
  have keys: "\<forall>x\<in>set (map kv_of ws). internal_key user_key_ok (fst x)"
    using assms(3) kv_of_ok by (auto simp: table_of_writes_def)
  then have ord: "ordered (internal_key user_key_ok) (cm_Compare (op_comparator opts)) (map kv_of ws)"
    using assms(3) by (simp add: ordered_def compare table_of_writes_def)
  have "\<forall>s r'. build_table snappy StringDest_file opts [] (map kv_of ws) = Some (s, r') \<longrightarrow> length (tb_file r') < 2 ^ 32"
    using r(1,2) by simp
  note built = built_table [OF assms(1) cmp a(2,3) ord this, of own_buffer]
  obtain r' blocks ixs t' where b: "build_table snappy StringDest_file opts [] (map kv_of ws) = Some (Status_OK, r')"
    "TableBuilder_FileSize r' = of_nat (length (tb_file r'))"
    "Table_Open snappy own_buffer opts (StringSource_ReadAt (tb_file r')) (TableBuilder_FileSize r') = Some (Status_OK, Some t')"
    "table_file snappy opts (internal_key user_key_ok) (tb_file r') blocks ixs" "concat (map snd blocks) = map kv_of ws"
    "length (tb_file r') < 2 ^ 32" "opened_table opts (StringSource_ReadAt (tb_file r')) ixs blocks t'"
    by (rule built)
  have same: "r' = r" "t' = t" using b(1,3) r(1,3) by simp_all
  have "table_at snappy own_buffer t verify (internal_key user_key_ok) (Table_NewIterator t) (map kv_of ws) (length (map kv_of ws))"
    using Table_NewIterator_at [OF assms(1) string_source.random_access_axioms b(4) [unfolded same] r(2) a(2) b(7) [unfolded same]
        comparator_order [OF cmp], of own_buffer verify] keys
    unfolding b(5) by blast
  moreover have "table_cmp t = InternalKeyCompare Bytewise_Compare"
    using b(7) compare by (simp add: table_cmp_def opened_table_def same)
  ultimately show ?thesis by (simp add: source_at_def)
qed

lemma sorted_choice:
  assumes "distinct xs" "\<And>x y. x \<in> set xs \<Longrightarrow> y \<in> set xs \<Longrightarrow> x \<noteq> y \<Longrightarrow> R x y \<or> R y x"
    "\<And>x y z. x \<in> set xs \<Longrightarrow> y \<in> set xs \<Longrightarrow> z \<in> set xs \<Longrightarrow> R x y \<Longrightarrow> R y z \<Longrightarrow> R x z"
  shows "\<exists>ys. mset ys = mset xs \<and> sorted_wrt R ys"
  using assms
proof (induction xs)
  case (Cons x xs)
  obtain ys where ys: "mset ys = mset xs" "sorted_wrt R ys" 
  proof -
    have "\<exists>ys. mset ys = mset xs \<and> sorted_wrt R ys"
      by (rule Cons.IH) (use Cons.prems(1) in simp, meson Cons.prems(2) list.set_intros(2), meson Cons.prems(3) list.set_intros(2))
    then show thesis using that by blast
  qed
  then have in_xs: "set ys = set xs" by (metis set_mset_mset)
  let ?a = "takeWhile (\<lambda>y. R y x) ys" and ?b = "dropWhile (\<lambda>y. R y x) ys"
  have split: "ys = ?a @ ?b" by simp
  have s: "sorted_wrt R ?a" "sorted_wrt R ?b" "\<forall>p\<in>set ?a. \<forall>q\<in>set ?b. R p q"
    using ys(2) split by (metis sorted_wrt_append)+
  have sub: "set ?a \<subseteq> set xs" "set ?b \<subseteq> set xs" using in_xs by (auto dest: set_takeWhileD set_dropWhileD)
  have a: "\<forall>p\<in>set ?a. R p x" by (auto dest: set_takeWhileD)
  have b: "\<forall>q\<in>set ?b. R x q"
  proof (cases ?b)
    case (Cons q qs)
    have "\<not> R q x" using Cons by (metis hd_dropWhile list.distinct(1) list.sel(1))
    moreover have q: "q \<in> set xs" using sub(2) Cons by simp
    moreover have "q \<noteq> x" using q Cons.prems(1) by auto
    ultimately have "R x q" using Cons.prems(2) [of x q] by auto
    then show ?thesis using s(2) Cons Cons.prems(3) [of x q] sub(2) by auto
  next
    case Nil
    then show ?thesis by (simp only: list.set) blast
  qed
  have "mset (?a @ x # ?b) = add_mset x (mset (?a @ ?b))" by (simp only: mset_append mset.simps union_mset_add_mset_right)
  then have "mset (?a @ x # ?b) = mset (x # xs)"
    by (simp only: takeWhile_dropWhile_id ys(1) mset.simps)
  moreover have "sorted_wrt R (?a @ x # ?b)"
    unfolding sorted_wrt_append sorted_wrt.simps list.set using s a b by blast
  ultimately show ?case by blast
next
  case Nil
  show ?case by (intro exI [of _ "[]"] conjI) (simp_all only: sorted_wrt.simps)
qed

lemma writes_merge:
  assumes "\<forall>w\<in>set (concat wss). write_ok w" "distinct (map fst (concat wss))"
    "\<forall>ws\<in>set wss. sorted_wrt (\<lambda>x y. InternalKeyCompare Bytewise_Compare (fst x) (fst y) < 0) (map kv_of ws)"
  obtains ws where "mset ws = mset (concat wss)" "merge_of (InternalKeyCompare Bytewise_Compare) (internal_key user_key_ok) (map (map kv_of) wss) (map kv_of ws)"
proof -
  let ?R = "\<lambda>x y. InternalKeyCompare Bytewise_Compare (fst (kv_of x)) (fst (kv_of y)) < 0"
  have less: "?R x y \<longleftrightarrow> fst (snd (snd x)) < fst (snd (snd y)) \<or> fst (snd (snd x)) = fst (snd (snd y)) \<and>
      (fst y < fst x \<or> fst x = fst y \<and> fst (snd y) < fst (snd x))" if "write_ok x" "write_ok y" for x y
    using that internal_key_of_less by (cases x; cases y) (simp add: kv_of_def write_ok_def)
  have "\<exists>ws. mset ws = mset (concat wss) \<and> sorted_wrt ?R ws"
  proof (rule sorted_choice)
    show "distinct (concat wss)" using assms(2) distinct_map by blast
    fix x y assume xy: "x \<in> set (concat wss)" "y \<in> set (concat wss)" "x \<noteq> y"
    then have "fst x \<noteq> fst y" using assms(2) by (metis distinct_map inj_onD)
    then show "?R x y \<or> ?R y x" using less assms(1) xy by (metis linorder_neqE)
  next
    fix x y z assume "x \<in> set (concat wss)" "y \<in> set (concat wss)" "z \<in> set (concat wss)" and R: "?R x y" "?R y z"
    then have "write_ok x" "write_ok y" "write_ok z" using assms(1) by auto
    then show "?R x z" using R less by (smt (verit) order_less_trans)
  qed
  then obtain ws where ws: "mset ws = mset (concat wss)" "sorted_wrt ?R ws" by blast
  have "mset (map kv_of ws) = mset (concat (map (map kv_of) wss))" using ws(1) by (metis map_concat mset_map)
  moreover have "\<forall>y\<in>set (map kv_of ws). internal_key user_key_ok (fst y)"
    using assms(1) kv_of_ok mset_eq_setD [OF ws(1)] by auto
  ultimately have "merge_of (InternalKeyCompare Bytewise_Compare) (internal_key user_key_ok) (map (map kv_of) wss) (map kv_of ws)"
    using ws(2) assms(3) by (simp add: merge_of_def sorted_wrt_map)
  then show ?thesis using that ws(1) by blast
qed

lemma make_DBIter_at:
  assumes "internal_entries Bytewise_Compare user_key_ok ys" "s \<le> kMaxSequenceNumber"
    "merged_at (InternalKeyCompare Bytewise_Compare) (internal_key user_key_ok) (source_at snappy own_buffer verify) it ys p"
  shows "db_at Bytewise_Compare user_key_ok
    (merged_at (InternalKeyCompare Bytewise_Compare) (internal_key user_key_ok) (source_at snappy own_buffer verify))
    (make_DBIter it s seed) (user_view Bytewise_Compare s ys) (length (user_view Bytewise_Compare s ys))"
proof -
  have d: "di_iter (make_DBIter it s seed) = it" "di_sequence (make_DBIter it s seed) = s" "di_status (make_DBIter it s seed) = Status_OK"
    "di_valid (make_DBIter it s seed) = False" "di_rnd (make_DBIter it s seed) = snd (RandomPeriod (make_Random seed))"
    by (simp_all add: make_DBIter_def split_beta)
  have "good_seed (di_rnd (make_DBIter it s seed))" unfolding d using RandomPeriod_good(1) [OF make_Random_good] .
  then have "db_at Bytewise_Compare user_key_ok
    (merged_at (InternalKeyCompare Bytewise_Compare) (internal_key user_key_ok) (source_at snappy own_buffer verify))
    (make_DBIter it s seed) (user_view Bytewise_Compare (di_sequence (make_DBIter it s seed)) ys)
    (length (visible_positions Bytewise_Compare (di_sequence (make_DBIter it s seed)) ys))"
    by (intro database.db_atI [OF assms(1)]) (use assms(2,3) d in simp_all)
  then show ?thesis by (simp only: d(2) database.view_length)
qed

text \<open>The merged sources hold all their writes in the order of the internal keys.\<close>

lemma database_merge:
  assumes "codec snappy" "internal_options opts" "mem_of_writes mem H" "\<forall>m. imm = Some m \<longrightarrow> mem_of_writes m H'" "imm = None \<longrightarrow> H' = []"
    and "\<forall>(t, ws)\<in>set tables. table_of_writes snappy own_buffer opts t ws"
    and "distinct (map fst (H @ H' @ concat (map snd tables)))"
  obtains ws p where "mset ws = mset (H @ H' @ concat (map snd tables))" "\<forall>w\<in>set ws. write_ok w"
    "sorted_wrt (\<lambda>x y. InternalKeyCompare Bytewise_Compare (fst x) (fst y) < 0) (map kv_of ws)"
    "merged_at (InternalKeyCompare Bytewise_Compare) (internal_key user_key_ok) (source_at snappy own_buffer verify)
       (NewInternalIterator snappy own_buffer verify mem imm (map fst tables)) (map kv_of ws) p"
proof -
  let ?at = "source_at snappy own_buffer verify"
  let ?sorted = "\<lambda>ws. sorted_wrt (\<lambda>x y. InternalKeyCompare Bytewise_Compare (fst x) (fst y) < 0) (map kv_of ws)"
  obtain w1 where w1: "?at (MemSource mem None) (map kv_of w1) (length w1)" "mset w1 = mset H" "\<forall>w\<in>set w1. write_ok w" "?sorted w1"
    using assms(3) by (rule mem_of_writes_source)
  obtain w2 where w2: "\<And>m. imm = Some m \<Longrightarrow> ?at (MemSource m None) (map kv_of w2) (length w2)" "mset w2 = mset H'"
    "\<forall>w\<in>set w2. write_ok w" "?sorted w2"
  proof (cases imm)
    case None
    then show ?thesis using that [of "[]"] assms(5) by simp
  next
    case (Some m)
    then have "mem_of_writes m H'" using assms(4) by simp
    then obtain ws where "?at (MemSource m None) (map kv_of ws) (length ws)" "mset ws = mset H'"
      "\<forall>w\<in>set ws. write_ok w" "?sorted ws" by (rule mem_of_writes_source)
    then show ?thesis using that [of ws] Some by simp
  qed
  let ?tail = "map (\<lambda>(t, ws). (TableSource t (Table_NewIterator t), ws)) tables"
  let ?parts = "(MemSource mem None, w1) # (case imm of None \<Rightarrow> [] | Some m \<Rightarrow> [(MemSource m None, w2)]) @ ?tail"
  let ?wss = "map snd ?parts"
  have parts: "\<forall>(r, ws)\<in>set ?parts. ?at r (map kv_of ws) (length ws) \<and> (\<forall>w\<in>set ws. write_ok w) \<and> ?sorted ws"
  proof -
    have mem_part: "\<forall>(r, ws)\<in>set ?tail. ?at r (map kv_of ws) (length ws) \<and> (\<forall>w\<in>set ws. write_ok w) \<and> ?sorted ws"
    proof (intro ballI)
      fix x assume "x \<in> set ?tail"
      then obtain t ws where "(t, ws) \<in> set tables" and x: "x = (TableSource t (Table_NewIterator t), ws)" by auto
      then have t: "table_of_writes snappy own_buffer opts t ws" using assms(6) by blast
      show "case x of (r, ws) \<Rightarrow> ?at r (map kv_of ws) (length ws) \<and> (\<forall>w\<in>set ws. write_ok w) \<and> ?sorted ws"
        using table_of_writes_source [OF assms(1,2) t] t unfolding x table_of_writes_def by simp
    qed
    show ?thesis
    proof (cases imm)
      case None
      then show ?thesis using w1(1,3,4) mem_part by simp
    next
      case (Some m)
      then show ?thesis using w1(1,3,4) w2(1) [OF Some] w2(3,4) mem_part by simp
    qed
  qed
  have mset: "mset (concat ?wss) = mset (H @ H' @ concat (map snd tables))"
  proof -
    have tail: "map snd ?tail = map snd tables" by (simp add: case_prod_beta' o_def)
    show ?thesis
    proof (cases imm)
      case None
      then have "H' = []" using assms(5) by simp
      with None show ?thesis using w1(2) tail by (simp only: option.case list.map concat.simps mset_append append_Nil map_append snd_conv)
    next
      case (Some m)
      then show ?thesis using w1(2) w2(2) tail
        by (simp only: option.case list.map concat.simps concat_append mset_append append_Nil2 map_append snd_conv)
    qed
  qed
  have its: "[MemSource mem None] @ (case imm of None \<Rightarrow> [] | Some m \<Rightarrow> [MemSource m None]) @
      map (\<lambda>t. TableSource t (Table_NewIterator t)) (map fst tables) = map fst ?parts"
    by (cases imm) (simp_all add: case_prod_beta' o_def)
  obtain parts where parts: "\<forall>(r, ws)\<in>set parts. ?at r (map kv_of ws) (length ws) \<and> (\<forall>w\<in>set ws. write_ok w) \<and> ?sorted ws"
    and mset: "mset (concat (map snd parts)) = mset (H @ H' @ concat (map snd tables))"
    and its: "[MemSource mem None] @ (case imm of None \<Rightarrow> [] | Some m \<Rightarrow> [MemSource m None]) @
      map (\<lambda>t. TableSource t (Table_NewIterator t)) (map fst tables) = map fst parts"
    using parts mset its by blast
  let ?wss = "map snd parts"
  have "mset (map fst (concat ?wss)) = mset (map fst (H @ H' @ concat (map snd tables)))" using mset by (simp only: mset_map)
  then have "distinct (map fst (concat ?wss))" using assms(7) mset_eq_imp_distinct_iff by blast
  moreover have oks: "\<forall>w\<in>set (concat ?wss). write_ok w" "\<forall>ws\<in>set ?wss. ?sorted ws" using parts by auto
  ultimately obtain ws where ws: "mset ws = mset (concat ?wss)"
    "merge_of (InternalKeyCompare Bytewise_Compare) (internal_key user_key_ok) (map (map kv_of) ?wss) (map kv_of ws)"
    using writes_merge [of ?wss] by blast
  have ok: "\<forall>w\<in>set ws. write_ok w" using oks(1) mset_eq_setD [OF ws(1)] by simp
  have sorted: "?sorted ws" using ws(2) by (simp add: merge_of_def)
  have at: "i < length parts \<Longrightarrow> ?at (fst (parts ! i)) (map kv_of (snd (parts ! i))) (length (snd (parts ! i)))" for i
    using parts nth_mem by fastforce
  obtain p where p: "merged_at (InternalKeyCompare Bytewise_Compare) (internal_key user_key_ok) ?at
      (NewInternalIterator snappy own_buffer verify mem imm (map fst tables)) (map kv_of ws) p"
    unfolding NewInternalIterator_def its
    using merged_sources.NewMergingIterator_at [OF ws(2), of "map fst parts" snappy own_buffer verify] at
    by fastforce
  show ?thesis using that [OF _ ok sorted p] ws(1) mset by simp
qed

text \<open>All sources together show the view of all their writes.\<close>

lemma database_view:
  assumes "codec snappy" "internal_options opts" "mem_of_writes mem H" "\<forall>m. imm = Some m \<longrightarrow> mem_of_writes m H'" "imm = None \<longrightarrow> H' = []"
    and "\<forall>(t, ws)\<in>set tables. table_of_writes snappy own_buffer opts t ws"
    and "distinct (map fst (H @ H' @ concat (map snd tables)))" "s \<le> kMaxSequenceNumber"
  obtains xs where "db_at Bytewise_Compare user_key_ok
      (merged_at (InternalKeyCompare Bytewise_Compare) (internal_key user_key_ok) (source_at snappy own_buffer verify))
      (DBImpl_NewIterator snappy own_buffer verify mem imm (map fst tables) s seed) xs (length xs)"
    "sorted_wrt (<) (map fst xs)"
    "\<And>k v. (k, v) \<in> set xs \<longleftrightarrow> (\<exists>s'. latest_version (set (H @ H' @ concat (map snd tables))) k s (s', kTypeValue, k, v))"
proof -
  let ?at = "source_at snappy own_buffer verify"
  obtain ws p where ws: "mset ws = mset (H @ H' @ concat (map snd tables))" and ok: "\<forall>w\<in>set ws. write_ok w"
    and sorted: "sorted_wrt (\<lambda>x y. InternalKeyCompare Bytewise_Compare (fst x) (fst y) < 0) (map kv_of ws)"
    and p: "merged_at (InternalKeyCompare Bytewise_Compare) (internal_key user_key_ok) ?at
      (NewInternalIterator snappy own_buffer verify mem imm (map fst tables)) (map kv_of ws) p"
    using database_merge [OF assms(1-7)] by blast
  show ?thesis
  proof (rule that)
    show "db_at Bytewise_Compare user_key_ok (merged_at (InternalKeyCompare Bytewise_Compare) (internal_key user_key_ok) ?at)
        (DBImpl_NewIterator snappy own_buffer verify mem imm (map fst tables) s seed) (user_view Bytewise_Compare s (map kv_of ws))
        (length (user_view Bytewise_Compare s (map kv_of ws)))"
      unfolding DBImpl_NewIterator_def using make_DBIter_at [OF writes_entries [OF ok sorted] assms(8) p] .
  qed (use view_of_writes [OF ok sorted] mset_eq_setD [OF ws] in simp_all)
qed

end
