(* ===== verification/Ldb_Db_Theorems.thy ===== *)
theory Ldb_Db_Theorems
  imports Ldb_Db_View
begin

text \<open>
  What the iterator of the database shows, from the writes in its memtables and tables through the merging
  iterator up to the user: the properties of \<^verbatim>\<open>db/db_iter.cc\<close>, \<^verbatim>\<open>table/merger.cc\<close> and
  \<^verbatim>\<open>DBImpl::NewIterator\<close> together.
\<close>

text \<open>Two memtables of a few writes, for the witnesses.\<close>

lemma sample_mem:
  assumes "sorted_wrt (<) (map fst H)" "\<forall>h\<in>set H. write_ok h"
  obtains m where "mem_of_writes m H"
proof -
  obtain m0 where m0: "make_MemTable = Some m0" "mem_rep m0 []" using make_MemTable_rep by blast
  then obtain m where "MemTable_Add_all m0 H = Some m" using MemTable_Add_all_rep [of m0 "[]" H] assms by auto
  then show thesis using that assms m0(1) by (auto simp: mem_of_writes_def)
qed

definition sample_internal_options :: Options where
  "sample_internal_options = make_Options\<lparr>op_comparator := InternalKeyComparator 0 BytewiseComparator\<rparr>"

lemma sample_internal_options: "internal_options sample_internal_options"
  by (auto simp: internal_options_def sample_internal_options_def make_Options_def)

lemma sample_table_of_writes:
  obtains t where "table_of_writes port_Snappy True sample_internal_options t [(2, kTypeValue, [7], [11])]"
proof -
  let ?kvs = "map kv_of [(2, kTypeValue, [7], [11])]" and ?valid = "internal_key user_key_ok" and ?opts = sample_internal_options
  have w: "write_ok (2, kTypeValue, [7], [11])" by (simp add: write_ok_def kMaxSequenceNumber_def)
  have cmp: "comparator ?valid (cm_Compare (op_comparator ?opts))
      (cm_FindShortestSeparator (op_comparator ?opts)) (cm_FindShortSuccessor (op_comparator ?opts))"
    using key_comparator by (simp add: sample_internal_options_def InternalKeyComparator_def BytewiseComparator_def)
  have o: "1 \<le> op_block_restart_interval ?opts" "op_compression ?opts = kNoCompression \<or> op_compression ?opts = kSnappyCompression"
    by (simp_all add: sample_internal_options_def make_Options_def)
  have ord: "ordered ?valid (cm_Compare (op_comparator ?opts)) ?kvs" using kv_of_ok [OF w] by (simp add: ordered_def)
  have succ: "InternalFindShortSuccessor Bytewise_Compare Bytewise_FindShortSuccessor (7 # EncodeFixed64 x) = 7 # EncodeFixed64 x" for x
    by (simp add: InternalFindShortSuccessor_def shorten_def ExtractUserKey_def Bytewise_FindShortSuccessor_def increment_first.simps)
  have len: "\<forall>s r. build_table port_Snappy StringDest_file ?opts [] ?kvs = Some (s, r) \<longrightarrow> length (tb_file r) < 2 ^ 32"
    by (simp add: table_build_defs sample_internal_options_def make_Options_def BytewiseComparator_def InternalKeyComparator_def
        port_Snappy_def kNoCompression_def kSnappyCompression_def StringDest_file_def Let_def kv_of_def internal_key_of_def
        AppendInternalKey_def PutFixed64_def succ)
  obtain r t where "build_table port_Snappy StringDest_file ?opts [] ?kvs = Some (Status_OK, r)"
    "Table_Open port_Snappy True ?opts (StringSource_ReadAt (tb_file r)) (TableBuilder_FileSize r) = Some (Status_OK, Some t)"
    "length (tb_file r) < 2 ^ 32"
    by (rule built_table [OF no_snappy.codec_axioms cmp o ord len, of True])
  then have "table_of_writes port_Snappy True ?opts t [(2, kTypeValue, [7], [11])]"
    using w by (auto simp: table_of_writes_def)
  then show thesis by (rule that)
qed

lemma bytewise_below: "(\<lambda>k t. Bytewise_Compare k t < 0) = (<)"
  by (intro ext) (simp add: Bytewise_Compare_def slice_compare_less)

text \<open>
  C1: The iterator of the database over its memtable, the immutable memtable and the tables of level 0 shows,
  at the snapshot \<open>s\<close>, every user key whose latest write with a sequence number up to \<open>s\<close> stored a value, once,
  with that value and in byte order: forwards from the first key, backwards from the last one and onwards from
  any target, whichever source holds the writes, and with status OK. Deleted and newer entries never show.
\<close>
theorem database_iterator_view:
  fixes mem snappy own_buffer verify imm tables s seed
  defines "I \<equiv> database_iterator snappy own_buffer verify"
    and "it \<equiv> DBImpl_NewIterator snappy own_buffer verify mem imm (map fst tables) s seed"
    and "W \<equiv> \<lambda>H H'. H @ H' @ concat (map snd tables)"
  assumes "codec snappy" "internal_options opts" "mem_of_writes mem H" "\<forall>m. imm = Some m \<longrightarrow> mem_of_writes m H'" "imm = None \<longrightarrow> H' = []"
    and "\<forall>(t, ws)\<in>set tables. table_of_writes snappy own_buffer opts t ws"
    and "distinct (map fst (W H H'))" "s \<le> kMaxSequenceNumber"
  shows "\<exists>xs. sorted_wrt (<) (map fst xs) \<and>
    (\<forall>k v. (k, v) \<in> set xs \<longleftrightarrow> (\<exists>s'. latest_version (set (W H H')) k s (s', kTypeValue, k, v))) \<and>
    (\<exists>it'. it_SeekToFirst I it = Some it' \<and> walk I (it_Next I) it' = Some (xs, Status_OK)) \<and>
    (\<exists>it'. it_SeekToLast I it = Some it' \<and> walk I (it_Prev I) it' = Some (rev xs, Status_OK)) \<and>
    (\<forall>t. length t + 8 < 2 ^ 32 \<longrightarrow>
      (\<exists>it'. it_Seek I t it = Some it' \<and> walk I (it_Next I) it' = Some (dropWhile (\<lambda>x. fst x < t) xs, Status_OK)))"
proof -
  obtain xs where at: "db_at Bytewise_Compare user_key_ok
      (merged_at (InternalKeyCompare Bytewise_Compare) (internal_key user_key_ok) (source_at snappy own_buffer verify)) it xs (length xs)"
    and xs: "sorted_wrt (<) (map fst xs)"
      "\<And>k v. (k, v) \<in> set xs \<longleftrightarrow> (\<exists>s'. latest_version (set (W H H')) k s (s', kTypeValue, k, v))"
    unfolding it_def W_def using database_view [OF assms(4-9) assms(10) [unfolded W_def] assms(11), of verify seed] by blast
  have seek: "\<exists>it'. it_Seek I t it = Some it' \<and> walk I (it_Next I) it' = Some (dropWhile (\<lambda>x. fst x < t) xs, Status_OK)"
    if "length t + 8 < 2 ^ 32" for t
  proof -
    have d: "downward (\<lambda>k t. Bytewise_Compare k t < 0) t xs"
      using bytewise.sorted_downward [of xs "\<lambda>k. k" t] xs(1) by (simp add: bytewise_below)
    have u: "user_key_ok t" using that by (simp add: user_key_ok_def)
    have b: "(\<lambda>x :: entry_kv. Bytewise_Compare (fst x) t < 0) = (\<lambda>x. fst x < t)" by (simp add: Bytewise_Compare_def slice_compare_less)
    show ?thesis
      using database.view.walk_from_target [OF at u d] unfolding b I_def database_iterator_def .
  qed
  have "\<exists>it'. it_SeekToFirst I it = Some it' \<and> walk I (it_Next I) it' = Some (xs, Status_OK)"
    "\<exists>it'. it_SeekToLast I it = Some it' \<and> walk I (it_Prev I) it' = Some (rev xs, Status_OK)"
    unfolding I_def database_iterator_def using database.view.walk_from_first [OF at] database.view.walk_from_last [OF at] by blast+
  then show ?thesis by (intro exI [of _ xs] conjI allI impI xs seek)
qed

theorem database_iterator_view_witness:
  defines "H \<equiv> [(3, kTypeDeletion, [5], []), (4, kTypeValue, [6], [12])]" and "H' \<equiv> [(1, kTypeValue, [5], [10])]"
    and "I \<equiv> database_iterator port_Snappy True True" and "w \<equiv> (2, kTypeValue, [7], [11])"
  shows "\<exists>mem imm t xs. mem_of_writes mem H \<and> mem_of_writes imm H' \<and> table_of_writes port_Snappy True sample_internal_options t [w] \<and>
    (\<forall>k v. (k, v) \<in> set xs \<longleftrightarrow> (\<exists>s'. latest_version (set (H @ H' @ [w])) k 4 (s', kTypeValue, k, v))) \<and>
    (\<exists>it. it_SeekToFirst I (DBImpl_NewIterator port_Snappy True True mem (Some imm) [t] 4 0) = Some it \<and>
      walk I (it_Next I) it = Some (xs, Status_OK))"
proof -
  have "sorted_wrt (<) (map fst H)" "\<forall>h\<in>set H. write_ok h" "sorted_wrt (<) (map fst H')" "\<forall>h\<in>set H'. write_ok h"
    by (simp_all add: H_def H'_def write_ok_def kMaxSequenceNumber_def)
  then obtain mem imm where m: "mem_of_writes mem H" "mem_of_writes imm H'" using sample_mem by metis
  obtain t where t: "table_of_writes port_Snappy True sample_internal_options t [w]" unfolding w_def by (rule sample_table_of_writes)
  have "distinct (map fst (H @ H' @ [w]))" "(4 :: SequenceNumber) \<le> kMaxSequenceNumber"
    by (simp_all add: H_def H'_def w_def kMaxSequenceNumber_def)
  then obtain xs where "\<forall>k v. (k, v) \<in> set xs \<longleftrightarrow> (\<exists>s'. latest_version (set (H @ H' @ concat (map snd [(t, [w])]))) k 4 (s', kTypeValue, k, v))"
    "\<exists>it. it_SeekToFirst I (DBImpl_NewIterator port_Snappy True True mem (Some imm) (map fst [(t, [w])]) 4 0) = Some it \<and>
      walk I (it_Next I) it = Some (xs, Status_OK)"
    using database_iterator_view [OF no_snappy.codec_axioms sample_internal_options m(1), of "Some imm" H' "[(t, [w])]" True 4 True 0] m(2) t
    unfolding I_def by auto
  then have "(\<forall>k v. (k, v) \<in> set xs \<longleftrightarrow> (\<exists>s'. latest_version (set (H @ H' @ [w])) k 4 (s', kTypeValue, k, v))) \<and>
    (\<exists>it. it_SeekToFirst I (DBImpl_NewIterator port_Snappy True True mem (Some imm) [t] 4 0) = Some it \<and>
      walk I (it_Next I) it = Some (xs, Status_OK))"
    by (simp only: list.map fst_conv snd_conv concat.simps append_Nil2) blast
  then show ?thesis using m t by blast
qed

text \<open>
  C5: The merging iterator below it visits every write of every source once, deletions and old versions included,
  in the order of the internal keys, and backwards in the reverse order, whatever the number of sources.
\<close>
theorem internal_iterator_merges:
  fixes mem snappy own_buffer verify imm tables
  defines "I \<equiv> merged_iterator (InternalKeyCompare Bytewise_Compare) (source_iterator snappy own_buffer verify)"
    and "it \<equiv> NewInternalIterator snappy own_buffer verify mem imm (map fst tables)"
    and "W \<equiv> \<lambda>H H'. H @ H' @ concat (map snd tables)"
  assumes "codec snappy" "internal_options opts" "mem_of_writes mem H" "\<forall>m. imm = Some m \<longrightarrow> mem_of_writes m H'" "imm = None \<longrightarrow> H' = []"
    and "\<forall>(t, ws)\<in>set tables. table_of_writes snappy own_buffer opts t ws"
    and "distinct (map fst (W H H'))"
  shows "\<exists>ws. mset ws = mset (W H H') \<and>
    sorted_wrt (\<lambda>x y. InternalKeyCompare Bytewise_Compare (fst x) (fst y) < 0) (map kv_of ws) \<and>
    (\<exists>it'. it_SeekToFirst I it = Some it' \<and> walk I (it_Next I) it' = Some (map kv_of ws, Status_OK)) \<and>
    (\<exists>it'. it_SeekToLast I it = Some it' \<and> walk I (it_Prev I) it' = Some (map kv_of (rev ws), Status_OK))"
proof -
  obtain ws p where ws: "mset ws = mset (W H H')"
      "sorted_wrt (\<lambda>x y. InternalKeyCompare Bytewise_Compare (fst x) (fst y) < 0) (map kv_of ws)"
    and p: "merged_at (InternalKeyCompare Bytewise_Compare) (internal_key user_key_ok) (source_at snappy own_buffer verify) it (map kv_of ws) p"
    unfolding it_def W_def using database_merge [OF assms(4-9) assms(10) [unfolded W_def]] by blast
  show ?thesis
    using ws merged_sources.merged.walk_from_first [OF p] merged_sources.merged.walk_from_last [OF p] unfolding I_def rev_map by blast
qed

theorem internal_iterator_merges_witness:
  defines "H \<equiv> [(3, kTypeDeletion, [5], []), (4, kTypeValue, [6], [12])]" and "H' \<equiv> [(1, kTypeValue, [5], [10])]"
    and "I \<equiv> merged_iterator (InternalKeyCompare Bytewise_Compare) (source_iterator port_Snappy True True)"
  shows "\<exists>mem imm ws. mem_of_writes mem H \<and> mem_of_writes imm H' \<and> mset ws = mset (H @ H') \<and>
    (\<exists>it. it_SeekToFirst I (NewInternalIterator port_Snappy True True mem (Some imm) []) = Some it \<and>
      walk I (it_Next I) it = Some (map kv_of ws, Status_OK))"
proof -
  have "sorted_wrt (<) (map fst H)" "\<forall>h\<in>set H. write_ok h" "sorted_wrt (<) (map fst H')" "\<forall>h\<in>set H'. write_ok h"
    by (simp_all add: H_def H'_def write_ok_def kMaxSequenceNumber_def)
  then obtain mem imm where m: "mem_of_writes mem H" "mem_of_writes imm H'" using sample_mem by metis
  have "distinct (map fst (H @ H'))" by (simp add: H_def H'_def)
  then obtain ws where "mset ws = mset (H @ H')"
    "\<exists>it. it_SeekToFirst I (NewInternalIterator port_Snappy True True mem (Some imm) []) = Some it \<and>
      walk I (it_Next I) it = Some (map kv_of ws, Status_OK)"
    using internal_iterator_merges [OF no_snappy.codec_axioms sample_internal_options m(1), of "Some imm" H' "[]" True True] m(2)
    unfolding I_def by auto
  then show ?thesis using m by blast
qed

text \<open>
  C37: Read sampling always ends and the counter is not negative afterwards: every step of the loop adds a random
  period, and a period of zero is never drawn twice in a row. The visible state of the iterator stays as it was.
\<close>
theorem read_sampling_ends:
  assumes "good_seed (di_rnd d)"
  shows "\<exists>rnd c ks. sample_reads k d = Some (d\<lparr>di_rnd := rnd, di_bytes_counter := c, di_samples := ks\<rparr>) \<and>
    0 \<le> c \<and> good_seed rnd"
  using sample_reads_ends [OF assms, of k] by (auto simp: sampled_def)

theorem read_sampling_ends_witness:
  "\<exists>rnd c ks. sample_reads [1] (make_DBIter () 5 0) = Some ((make_DBIter () 5 0)\<lparr>di_rnd := rnd, di_bytes_counter := c, di_samples := ks\<rparr>) \<and>
    0 \<le> c \<and> good_seed rnd"
  by (rule read_sampling_ends) (simp add: make_DBIter_def split_beta RandomPeriod_good(1) make_Random_good)

end
