(* ===== verification/Ldb_Version_Edit.thy ===== *)
theory Ldb_Version_Edit
  imports Ldb_Dbformat Ldb_Logging "HOL-Library.Product_Lexorder" "HOL-Library.Monad_Syntax"
begin

text \<open>
  Version edits (\<^verbatim>\<open>db/version_edit.h\<close>, \<^verbatim>\<open>db/version_edit.cc\<close>): the records of the manifest that say
  which files a version gains and loses, written as tagged fields and read back. An \<^verbatim>\<open>InternalKey\<close> is
  its byte string, and \<^verbatim>\<open>std::set\<close> a set that is traversed in increasing order.
\<close>

section \<open>Edits\<close>

definition kNumLevels :: "32 word" where "kNumLevels = 7"

record FileMetaData =
  fm_refs :: int
  fm_allowed_seeks :: int
  fm_number :: "64 word"
  fm_file_size :: "64 word"
  fm_smallest :: "byte list"
  fm_largest :: "byte list"

record VersionEdit =
  ve_comparator :: "byte list"
  ve_log_number :: "64 word"
  ve_prev_log_number :: "64 word"
  ve_next_file_number :: "64 word"
  ve_last_sequence :: "64 word"
  ve_has_comparator :: bool
  ve_has_log_number :: bool
  ve_has_prev_log_number :: bool
  ve_has_next_file_number :: bool
  ve_has_last_sequence :: bool
  ve_compact_pointers :: "(int \<times> byte list) list"
  ve_deleted_files :: "(int \<times> 64 word) set"
  ve_new_files :: "(int \<times> FileMetaData) list"

text \<open>\<^verbatim>\<open>Clear\<close> does not touch the compaction pointers.\<close>

definition VersionEdit_Clear :: "VersionEdit \<Rightarrow> VersionEdit" where
  "VersionEdit_Clear e =
     e\<lparr>ve_comparator := [], ve_log_number := 0, ve_prev_log_number := 0, ve_last_sequence := 0,
       ve_next_file_number := 0, ve_has_comparator := False, ve_has_log_number := False,
       ve_has_prev_log_number := False, ve_has_next_file_number := False, ve_has_last_sequence := False,
       ve_deleted_files := {}, ve_new_files := []\<rparr>"

definition make_VersionEdit :: VersionEdit where
  "make_VersionEdit =
     \<lparr>ve_comparator = [], ve_log_number = 0, ve_prev_log_number = 0, ve_next_file_number = 0,
      ve_last_sequence = 0, ve_has_comparator = False, ve_has_log_number = False,
      ve_has_prev_log_number = False, ve_has_next_file_number = False, ve_has_last_sequence = False,
      ve_compact_pointers = [], ve_deleted_files = {}, ve_new_files = []\<rparr>"

definition SetComparatorName :: "byte list \<Rightarrow> VersionEdit \<Rightarrow> VersionEdit" where
  "SetComparatorName name e = e\<lparr>ve_has_comparator := True, ve_comparator := name\<rparr>"

definition SetLogNumber :: "64 word \<Rightarrow> VersionEdit \<Rightarrow> VersionEdit" where
  "SetLogNumber num e = e\<lparr>ve_has_log_number := True, ve_log_number := num\<rparr>"

definition SetPrevLogNumber :: "64 word \<Rightarrow> VersionEdit \<Rightarrow> VersionEdit" where
  "SetPrevLogNumber num e = e\<lparr>ve_has_prev_log_number := True, ve_prev_log_number := num\<rparr>"

definition SetNextFile :: "64 word \<Rightarrow> VersionEdit \<Rightarrow> VersionEdit" where
  "SetNextFile num e = e\<lparr>ve_has_next_file_number := True, ve_next_file_number := num\<rparr>"

definition SetLastSequence :: "64 word \<Rightarrow> VersionEdit \<Rightarrow> VersionEdit" where
  "SetLastSequence seq e = e\<lparr>ve_has_last_sequence := True, ve_last_sequence := seq\<rparr>"

definition SetCompactPointer :: "int \<Rightarrow> byte list \<Rightarrow> VersionEdit \<Rightarrow> VersionEdit" where
  "SetCompactPointer level key e = e\<lparr>ve_compact_pointers := ve_compact_pointers e @ [(level, key)]\<rparr>"

definition AddFile :: "int \<Rightarrow> 64 word \<Rightarrow> 64 word \<Rightarrow> byte list \<Rightarrow> byte list \<Rightarrow> VersionEdit \<Rightarrow> VersionEdit" where
  "AddFile level n file_size smallest largest e =
     (let f = \<lparr>fm_refs = 0, fm_allowed_seeks = 2 ^ 30, fm_number = n, fm_file_size = file_size,
               fm_smallest = smallest, fm_largest = largest\<rparr>
      in e\<lparr>ve_new_files := ve_new_files e @ [(level, f)]\<rparr>)"

definition DeleteFile :: "int \<Rightarrow> 64 word \<Rightarrow> VersionEdit \<Rightarrow> VersionEdit" where
  "DeleteFile level n e = e\<lparr>ve_deleted_files := insert (level, n) (ve_deleted_files e)\<rparr>"

section \<open>Writing\<close>

definition kComparator :: "32 word" where "kComparator = 1"
definition kLogNumber :: "32 word" where "kLogNumber = 2"
definition kNextFileNumber :: "32 word" where "kNextFileNumber = 3"
definition kLastSequence :: "32 word" where "kLastSequence = 4"
definition kCompactPointer :: "32 word" where "kCompactPointer = 5"
definition kDeletedFile :: "32 word" where "kDeletedFile = 6"
definition kNewFile :: "32 word" where "kNewFile = 7"
definition kPrevLogNumber :: "32 word" where "kPrevLogNumber = 9"

definition VersionEdit_EncodeTo :: "VersionEdit \<Rightarrow> byte list \<Rightarrow> byte list" where
  "VersionEdit_EncodeTo e dst =
     (let dst = (if ve_has_comparator e
                 then PutLengthPrefixedSlice (PutVarint32 dst kComparator) (ve_comparator e) else dst);
          dst = (if ve_has_log_number e then PutVarint64 (PutVarint32 dst kLogNumber) (ve_log_number e) else dst);
          dst = (if ve_has_prev_log_number e
                 then PutVarint64 (PutVarint32 dst kPrevLogNumber) (ve_prev_log_number e) else dst);
          dst = (if ve_has_next_file_number e
                 then PutVarint64 (PutVarint32 dst kNextFileNumber) (ve_next_file_number e) else dst);
          dst = (if ve_has_last_sequence e
                 then PutVarint64 (PutVarint32 dst kLastSequence) (ve_last_sequence e) else dst);
          dst = fold (\<lambda>(level, key) dst.
                  PutLengthPrefixedSlice (PutVarint32 (PutVarint32 dst kCompactPointer) (of_int level)) key)
                  (ve_compact_pointers e) dst;
          dst = fold (\<lambda>(level, n) dst. PutVarint64 (PutVarint32 (PutVarint32 dst kDeletedFile) (of_int level)) n)
                  (sorted_list_of_set (ve_deleted_files e)) dst
      in fold (\<lambda>(level, f) dst.
           PutLengthPrefixedSlice (PutLengthPrefixedSlice
             (PutVarint64 (PutVarint64 (PutVarint32 (PutVarint32 dst kNewFile) (of_int level)) (fm_number f)) (fm_file_size f))
             (fm_smallest f)) (fm_largest f))
           (ve_new_files e) dst)"

section \<open>Reading\<close>

definition GetInternalKey :: "byte list \<Rightarrow> (byte list \<times> byte list) option" where
  "GetInternalKey inp = (case GetLengthPrefixedSlice inp of Some (str, inp) \<Rightarrow> Some (str, inp) | None \<Rightarrow> None)"

definition GetLevel :: "byte list \<Rightarrow> (int \<times> byte list) option" where
  "GetLevel inp =
     (case GetVarint32 inp of
        Some (v, inp) \<Rightarrow> if v < kNumLevels then Some (int (unat v), inp) else None
      | None \<Rightarrow> None)"

text \<open>One field behind its tag: an error message, or the changed edit and the rest of the input.\<close>

definition or_msg :: "('a \<times> byte list) option \<Rightarrow> string \<Rightarrow> ('a \<Rightarrow> VersionEdit) \<Rightarrow> string + VersionEdit \<times> byte list" where
  "or_msg r msg update = (case r of None \<Rightarrow> Inl msg | Some (x, inp) \<Rightarrow> Inr (update x, inp))"

definition get_new_file :: "byte list \<Rightarrow> ((int \<times> FileMetaData) \<times> byte list) option" where
  "get_new_file inp =
     do { (level, inp) \<leftarrow> GetLevel inp;
          (n, inp) \<leftarrow> GetVarint64 inp;
          (file_size, inp) \<leftarrow> GetVarint64 inp;
          (smallest, inp) \<leftarrow> GetInternalKey inp;
          (largest, inp) \<leftarrow> GetInternalKey inp;
          Some ((level, \<lparr>fm_refs = 0, fm_allowed_seeks = 2 ^ 30, fm_number = n, fm_file_size = file_size,
                         fm_smallest = smallest, fm_largest = largest\<rparr>), inp) }"

definition decode_edit_field :: "32 word \<Rightarrow> byte list \<Rightarrow> VersionEdit \<Rightarrow> string + VersionEdit \<times> byte list" where
  "decode_edit_field tag inp e =
     (if tag = kComparator
      then or_msg (GetLengthPrefixedSlice inp) ''comparator name''
             (\<lambda>str. e\<lparr>ve_comparator := str, ve_has_comparator := True\<rparr>)
      else if tag = kLogNumber
      then or_msg (GetVarint64 inp) ''log number'' (\<lambda>v. e\<lparr>ve_log_number := v, ve_has_log_number := True\<rparr>)
      else if tag = kPrevLogNumber
      then or_msg (GetVarint64 inp) ''previous log number''
             (\<lambda>v. e\<lparr>ve_prev_log_number := v, ve_has_prev_log_number := True\<rparr>)
      else if tag = kNextFileNumber
      then or_msg (GetVarint64 inp) ''next file number''
             (\<lambda>v. e\<lparr>ve_next_file_number := v, ve_has_next_file_number := True\<rparr>)
      else if tag = kLastSequence
      then or_msg (GetVarint64 inp) ''last sequence number''
             (\<lambda>v. e\<lparr>ve_last_sequence := v, ve_has_last_sequence := True\<rparr>)
      else if tag = kCompactPointer
      then or_msg (do { (level, inp) \<leftarrow> GetLevel inp; (key, inp) \<leftarrow> GetInternalKey inp; Some ((level, key), inp) })
             ''compaction pointer'' (\<lambda>p. e\<lparr>ve_compact_pointers := ve_compact_pointers e @ [p]\<rparr>)
      else if tag = kDeletedFile
      then or_msg (do { (level, inp) \<leftarrow> GetLevel inp; (n, inp) \<leftarrow> GetVarint64 inp; Some ((level, n), inp) })
             ''deleted file'' (\<lambda>p. e\<lparr>ve_deleted_files := insert p (ve_deleted_files e)\<rparr>)
      else if tag = kNewFile
      then or_msg (get_new_file inp) ''new-file entry'' (\<lambda>p. e\<lparr>ve_new_files := ve_new_files e @ [p]\<rparr>)
      else Inl ''unknown tag'')"

lemma get_shorter:
  "GetVarint64 p = Some (w, q) \<Longrightarrow> length q \<le> length p"
  "GetInternalKey p = Some (k, q) \<Longrightarrow> length q \<le> length p"
  "GetLevel p = Some (l, q) \<Longrightarrow> length q \<le> length p"
proof -
  show "GetVarint64 p = Some (w, q) \<Longrightarrow> length q \<le> length p"
    by (auto simp: GetVarint64_scan scan_ptr_def split: scan_result.splits)
  show "GetInternalKey p = Some (k, q) \<Longrightarrow> length q \<le> length p"
    by (auto simp: GetInternalKey_def split: option.splits dest!: GetLengthPrefixedSlice_shorter)
  show "GetLevel p = Some (l, q) \<Longrightarrow> length q \<le> length p"
    by (auto simp: GetLevel_def split: option.splits if_splits dest!: GetVarint32_shorter)
qed

lemma decode_edit_field_shorter: "decode_edit_field tag inp e = Inr (e', inp') \<Longrightarrow> length inp' \<le> length inp"
  by (force simp: decode_edit_field_def or_msg_def get_new_file_def
      split: if_splits option.splits Option.bind_splits prod.splits
      dest: get_shorter GetLengthPrefixedSlice_shorter)

function DecodeFrom_loop :: "byte list \<Rightarrow> VersionEdit \<Rightarrow> string option \<times> VersionEdit \<times> byte list" where
  "DecodeFrom_loop inp e =
     (case GetVarint32 inp of
        None \<Rightarrow> (None, e, inp)
      | Some (tag, inp) \<Rightarrow>
          (case decode_edit_field tag inp e of
             Inl msg \<Rightarrow> (Some msg, e, inp)
           | Inr (e, inp) \<Rightarrow> DecodeFrom_loop inp e))"
  by pat_completeness auto
termination
  by (relation "measure (\<lambda>(inp, e). length inp)")
    (auto dest!: GetVarint32_shorter decode_edit_field_shorter)

declare DecodeFrom_loop.simps [simp del]

definition VersionEdit_DecodeFrom :: "VersionEdit \<Rightarrow> byte list \<Rightarrow> Status \<times> VersionEdit" where
  "VersionEdit_DecodeFrom e src =
     (let (msg, e, inp) = DecodeFrom_loop src (VersionEdit_Clear e);
          msg = (if msg = None \<and> inp \<noteq> [] then Some ''invalid tag'' else msg)
      in (case msg of None \<Rightarrow> Status_OK | Some msg \<Rightarrow> Status_Corruption (ascii ''VersionEdit'') (ascii msg), e))"

section \<open>Printing\<close>

definition ParsedInternalKey_DebugString :: "ParsedInternalKey \<Rightarrow> byte list" where
  "ParsedInternalKey_DebugString key =
     [39] @ EscapeString (pk_user_key key) @
     take 49 ([39] @ ascii '' @ '' @ decimal (unat (pk_sequence key)) @ ascii '' : '' @ decimal (unat (pk_type key)))"

definition InternalKey_DebugString :: "byte list \<Rightarrow> byte list" where
  "InternalKey_DebugString rep =
     (case ParseInternalKey rep of
        Some parsed \<Rightarrow> ParsedInternalKey_DebugString parsed
      | None \<Rightarrow> ascii ''(bad)'' @ EscapeString rep)"

definition debug_number :: "bool \<Rightarrow> string \<Rightarrow> 64 word \<Rightarrow> byte list \<Rightarrow> byte list" where
  "debug_number has title num r = (if has then AppendNumberTo (r @ [10] @ ascii title) num else r)"

definition VersionEdit_DebugString :: "VersionEdit \<Rightarrow> byte list" where
  "VersionEdit_DebugString e =
     (let r = ascii ''VersionEdit {'';
          r = (if ve_has_comparator e then r @ [10] @ ascii ''  Comparator: '' @ ve_comparator e else r);
          r = debug_number (ve_has_log_number e) ''  LogNumber: '' (ve_log_number e) r;
          r = debug_number (ve_has_prev_log_number e) ''  PrevLogNumber: '' (ve_prev_log_number e) r;
          r = debug_number (ve_has_next_file_number e) ''  NextFile: '' (ve_next_file_number e) r;
          r = debug_number (ve_has_last_sequence e) ''  LastSeq: '' (ve_last_sequence e) r;
          r = fold (\<lambda>(level, key) r.
                debug_number True ''  CompactPointer: '' (of_int level) r @ ascii '' '' @ InternalKey_DebugString key)
                (ve_compact_pointers e) r;
          r = fold (\<lambda>(level, n) r.
                AppendNumberTo (debug_number True ''  DeleteFile: '' (of_int level) r @ ascii '' '') n)
                (sorted_list_of_set (ve_deleted_files e)) r;
          r = fold (\<lambda>(level, f) r.
                AppendNumberTo (AppendNumberTo (debug_number True ''  AddFile: '' (of_int level) r @ ascii '' '')
                  (fm_number f) @ ascii '' '') (fm_file_size f) @ ascii '' '' @
                InternalKey_DebugString (fm_smallest f) @ ascii '' .. '' @ InternalKey_DebugString (fm_largest f))
                (ve_new_files e) r
      in r @ [10] @ ascii ''}'' @ [10])"

section \<open>What is written is read back\<close>

text \<open>
  The edits that the setters build from a fresh one, with levels a database has and names short
  enough for their lengths to be written.
\<close>

definition level_ok :: "int \<Rightarrow> bool" where "level_ok level \<longleftrightarrow> 0 \<le> level \<and> level < 7"

definition edit_ok :: "VersionEdit \<Rightarrow> bool" where
  "edit_ok e \<longleftrightarrow>
     (ve_has_comparator e \<or> ve_comparator e = []) \<and> (ve_has_log_number e \<or> ve_log_number e = 0) \<and>
     (ve_has_prev_log_number e \<or> ve_prev_log_number e = 0) \<and> (ve_has_next_file_number e \<or> ve_next_file_number e = 0) \<and>
     (ve_has_last_sequence e \<or> ve_last_sequence e = 0) \<and> length (ve_comparator e) < 2 ^ 32 \<and>
     (\<forall>(level, key)\<in>set (ve_compact_pointers e). level_ok level \<and> length key < 2 ^ 32) \<and>
     finite (ve_deleted_files e) \<and> (\<forall>(level, n)\<in>ve_deleted_files e. level_ok level) \<and>
     (\<forall>(level, f)\<in>set (ve_new_files e). level_ok level \<and> fm_refs f = 0 \<and> fm_allowed_seeks f = 2 ^ 30 \<and>
        length (fm_smallest f) < 2 ^ 32 \<and> length (fm_largest f) < 2 ^ 32)"

lemma setters_edit_ok:
  "edit_ok make_VersionEdit"
  "edit_ok e \<Longrightarrow> length name < 2 ^ 32 \<Longrightarrow> edit_ok (SetComparatorName name e)"
  "edit_ok e \<Longrightarrow> edit_ok (SetLogNumber n e)" "edit_ok e \<Longrightarrow> edit_ok (SetPrevLogNumber n e)"
  "edit_ok e \<Longrightarrow> edit_ok (SetNextFile n e)" "edit_ok e \<Longrightarrow> edit_ok (SetLastSequence n e)"
  "edit_ok e \<Longrightarrow> level_ok level \<Longrightarrow> length key < 2 ^ 32 \<Longrightarrow> edit_ok (SetCompactPointer level key e)"
  "edit_ok e \<Longrightarrow> level_ok level \<Longrightarrow> edit_ok (DeleteFile level n e)"
  "edit_ok e \<Longrightarrow> level_ok level \<Longrightarrow> length smallest < 2 ^ 32 \<Longrightarrow> length largest < 2 ^ 32 \<Longrightarrow>
    edit_ok (AddFile level n size1 smallest largest e)"
  by (auto simp: edit_ok_def make_VersionEdit_def SetComparatorName_def SetLogNumber_def SetPrevLogNumber_def
      SetNextFile_def SetLastSequence_def SetCompactPointer_def DeleteFile_def AddFile_def)

lemmas put_defs = PutVarint32_def PutVarint64_def PutLengthPrefixedSlice_def

lemma GetLevel_Put: "level_ok level \<Longrightarrow> GetLevel (EncodeVarint32 (of_int level) @ rest) = Some (level, rest)"
proof -
  assume "level_ok level"
  then obtain n where n: "level = int n" "n < 7" by (metis level_ok_def nonneg_int_cases of_nat_less_numeral_iff)
  then have "unat (of_nat n :: 32 word) = n" by (simp add: unat_of_nat take_bit_nat_eq_self)
  then show ?thesis using n by (simp add: GetLevel_def kNumLevels_def word_less_nat_alt)
qed

lemma GetInternalKey_Put:
  "length k < 2 ^ 32 \<Longrightarrow> GetInternalKey (EncodeVarint32 (of_nat (length k)) @ k @ rest) = Some (k, rest)"
  by (simp add: GetInternalKey_def GetLengthPrefixedSlice_Put)

lemmas tag_defs = kComparator_def kLogNumber_def kNextFileNumber_def kLastSequence_def kCompactPointer_def
  kDeletedFile_def kNewFile_def kPrevLogNumber_def

lemma loop_field:
  "decode_edit_field tag inp e = Inr (e', rest) \<Longrightarrow> DecodeFrom_loop (EncodeVarint32 tag @ inp) e = DecodeFrom_loop rest e'"
  by (subst DecodeFrom_loop.simps) simp

lemma loop_simple:
  "length str < 2 ^ 32 \<Longrightarrow> DecodeFrom_loop (EncodeVarint32 kComparator @ EncodeVarint32 (of_nat (length str)) @ str @ rest) e =
    DecodeFrom_loop rest (e\<lparr>ve_comparator := str, ve_has_comparator := True\<rparr>)"
  "DecodeFrom_loop (EncodeVarint32 kLogNumber @ EncodeVarint64 v @ rest) e =
    DecodeFrom_loop rest (e\<lparr>ve_log_number := v, ve_has_log_number := True\<rparr>)"
  "DecodeFrom_loop (EncodeVarint32 kPrevLogNumber @ EncodeVarint64 v @ rest) e =
    DecodeFrom_loop rest (e\<lparr>ve_prev_log_number := v, ve_has_prev_log_number := True\<rparr>)"
  "DecodeFrom_loop (EncodeVarint32 kNextFileNumber @ EncodeVarint64 v @ rest) e =
    DecodeFrom_loop rest (e\<lparr>ve_next_file_number := v, ve_has_next_file_number := True\<rparr>)"
  "DecodeFrom_loop (EncodeVarint32 kLastSequence @ EncodeVarint64 v @ rest) e =
    DecodeFrom_loop rest (e\<lparr>ve_last_sequence := v, ve_has_last_sequence := True\<rparr>)"
  by (rule loop_field, simp add: decode_edit_field_def tag_defs or_msg_def GetLengthPrefixedSlice_Put)+

definition enc_pointer :: "int \<times> byte list \<Rightarrow> byte list" where
  "enc_pointer = (\<lambda>(level, key). EncodeVarint32 kCompactPointer @ EncodeVarint32 (of_int level) @
     EncodeVarint32 (of_nat (length key)) @ key)"

definition enc_deleted :: "int \<times> 64 word \<Rightarrow> byte list" where
  "enc_deleted = (\<lambda>(level, n). EncodeVarint32 kDeletedFile @ EncodeVarint32 (of_int level) @ EncodeVarint64 n)"

definition enc_new :: "int \<times> FileMetaData \<Rightarrow> byte list" where
  "enc_new = (\<lambda>(level, f). EncodeVarint32 kNewFile @ EncodeVarint32 (of_int level) @
     EncodeVarint64 (fm_number f) @ EncodeVarint64 (fm_file_size f) @
     EncodeVarint32 (of_nat (length (fm_smallest f))) @ fm_smallest f @
     EncodeVarint32 (of_nat (length (fm_largest f))) @ fm_largest f)"

lemma loop_pointers:
  "\<forall>(level, key)\<in>set ps. level_ok level \<and> length key < 2 ^ 32 \<Longrightarrow>
    DecodeFrom_loop (concat (map enc_pointer ps) @ rest) e =
    DecodeFrom_loop rest (e\<lparr>ve_compact_pointers := ve_compact_pointers e @ ps\<rparr>)"
proof (induction ps arbitrary: e)
  case (Cons p ps)
  obtain level key where p: "p = (level, key)" by (cases p)
  let ?e = "e\<lparr>ve_compact_pointers := ve_compact_pointers e @ [p]\<rparr>"
  have "DecodeFrom_loop (enc_pointer p @ concat (map enc_pointer ps) @ rest) e =
      DecodeFrom_loop (concat (map enc_pointer ps) @ rest) ?e"
    unfolding enc_pointer_def p prod.case append_assoc
    by (rule loop_field) (use Cons.prems p in \<open>simp add: decode_edit_field_def tag_defs or_msg_def GetLevel_Put GetInternalKey_Put\<close>)
  then show ?case using Cons.IH [of ?e] Cons.prems by simp
qed simp

lemma loop_deleted:
  "\<forall>(level, n)\<in>set ds. level_ok level \<Longrightarrow>
    DecodeFrom_loop (concat (map enc_deleted ds) @ rest) e =
    DecodeFrom_loop rest (e\<lparr>ve_deleted_files := ve_deleted_files e \<union> set ds\<rparr>)"
proof (induction ds arbitrary: e)
  case (Cons d ds)
  obtain level n where d: "d = (level, n)" by (cases d)
  let ?e = "e\<lparr>ve_deleted_files := insert d (ve_deleted_files e)\<rparr>"
  have "DecodeFrom_loop (enc_deleted d @ concat (map enc_deleted ds) @ rest) e =
      DecodeFrom_loop (concat (map enc_deleted ds) @ rest) ?e"
    unfolding enc_deleted_def d prod.case append_assoc
    by (rule loop_field) (use Cons.prems d in \<open>simp add: decode_edit_field_def tag_defs or_msg_def GetLevel_Put\<close>)
  then show ?case using Cons.IH [of ?e] Cons.prems by simp
qed simp

lemma loop_new:
  "\<forall>(level, f)\<in>set fs. level_ok level \<and> fm_refs f = 0 \<and> fm_allowed_seeks f = 2 ^ 30 \<and>
      length (fm_smallest f) < 2 ^ 32 \<and> length (fm_largest f) < 2 ^ 32 \<Longrightarrow>
    DecodeFrom_loop (concat (map enc_new fs) @ rest) e =
    DecodeFrom_loop rest (e\<lparr>ve_new_files := ve_new_files e @ fs\<rparr>)"
proof (induction fs arbitrary: e)
  case (Cons p fs)
  obtain level f where p: "p = (level, f)" by (cases p)
  let ?e = "e\<lparr>ve_new_files := ve_new_files e @ [p]\<rparr>"
  have "DecodeFrom_loop (enc_new p @ concat (map enc_new fs) @ rest) e =
      DecodeFrom_loop (concat (map enc_new fs) @ rest) ?e"
    unfolding enc_new_def p prod.case append_assoc
    by (rule loop_field)
      (use Cons.prems p in \<open>simp add: decode_edit_field_def tag_defs or_msg_def get_new_file_def GetLevel_Put GetInternalKey_Put\<close>)
  then show ?case using Cons.IH [of ?e] Cons.prems by simp
qed simp

definition enc_if :: "bool \<Rightarrow> byte list \<Rightarrow> byte list" where "enc_if b xs = (if b then xs else [])"

lemma EncodeTo_parts:
  "VersionEdit_EncodeTo e [] =
    enc_if (ve_has_comparator e) (EncodeVarint32 kComparator @ EncodeVarint32 (of_nat (length (ve_comparator e))) @ ve_comparator e) @
    enc_if (ve_has_log_number e) (EncodeVarint32 kLogNumber @ EncodeVarint64 (ve_log_number e)) @
    enc_if (ve_has_prev_log_number e) (EncodeVarint32 kPrevLogNumber @ EncodeVarint64 (ve_prev_log_number e)) @
    enc_if (ve_has_next_file_number e) (EncodeVarint32 kNextFileNumber @ EncodeVarint64 (ve_next_file_number e)) @
    enc_if (ve_has_last_sequence e) (EncodeVarint32 kLastSequence @ EncodeVarint64 (ve_last_sequence e)) @
    concat (map enc_pointer (ve_compact_pointers e)) @ concat (map enc_deleted (sorted_list_of_set (ve_deleted_files e))) @
    concat (map enc_new (ve_new_files e))"
proof -
  have "fold (\<lambda>(level, key) dst.
          PutLengthPrefixedSlice (PutVarint32 (PutVarint32 dst kCompactPointer) (of_int level)) key) ps dst =
      dst @ concat (map enc_pointer ps)" for ps dst
    by (induction ps arbitrary: dst) (auto simp: put_defs enc_pointer_def)
  moreover have "fold (\<lambda>(level, n) dst. PutVarint64 (PutVarint32 (PutVarint32 dst kDeletedFile) (of_int level)) n) ds dst =
      dst @ concat (map enc_deleted ds)" for ds dst
    by (induction ds arbitrary: dst) (auto simp: put_defs enc_deleted_def)
  moreover have "fold (\<lambda>(level, f) dst.
           PutLengthPrefixedSlice (PutLengthPrefixedSlice
             (PutVarint64 (PutVarint64 (PutVarint32 (PutVarint32 dst kNewFile) (of_int level)) (fm_number f)) (fm_file_size f))
             (fm_smallest f)) (fm_largest f)) fs dst =
      dst @ concat (map enc_new fs)" for fs dst
    by (induction fs arbitrary: dst) (auto simp: put_defs enc_new_def)
  ultimately show ?thesis unfolding VersionEdit_EncodeTo_def Let_def enc_if_def by (simp add: put_defs)
qed

lemma loop_if:
  "length str < 2 ^ 32 \<Longrightarrow>
    DecodeFrom_loop (enc_if b (EncodeVarint32 kComparator @ EncodeVarint32 (of_nat (length str)) @ str) @ rest) e =
    DecodeFrom_loop rest (if b then e\<lparr>ve_comparator := str, ve_has_comparator := True\<rparr> else e)"
  "DecodeFrom_loop (enc_if b (EncodeVarint32 kLogNumber @ EncodeVarint64 v) @ rest) e =
    DecodeFrom_loop rest (if b then e\<lparr>ve_log_number := v, ve_has_log_number := True\<rparr> else e)"
  "DecodeFrom_loop (enc_if b (EncodeVarint32 kPrevLogNumber @ EncodeVarint64 v) @ rest) e =
    DecodeFrom_loop rest (if b then e\<lparr>ve_prev_log_number := v, ve_has_prev_log_number := True\<rparr> else e)"
  "DecodeFrom_loop (enc_if b (EncodeVarint32 kNextFileNumber @ EncodeVarint64 v) @ rest) e =
    DecodeFrom_loop rest (if b then e\<lparr>ve_next_file_number := v, ve_has_next_file_number := True\<rparr> else e)"
  "DecodeFrom_loop (enc_if b (EncodeVarint32 kLastSequence @ EncodeVarint64 v) @ rest) e =
    DecodeFrom_loop rest (if b then e\<lparr>ve_last_sequence := v, ve_has_last_sequence := True\<rparr> else e)"
  by (simp_all add: enc_if_def loop_simple)

text \<open>
  C36: a version edit is read back: decoding the bytes of an edit built with the setters succeeds and
  yields its comparator name, numbers, deleted files and new files. The compaction pointers of the
  decoding edit are not cleared first, so what it gets is its old pointers followed by the written ones.
\<close>
theorem version_edit_roundtrip:
  assumes "edit_ok e"
  shows "VersionEdit_DecodeFrom e0 (VersionEdit_EncodeTo e []) =
    (Status_OK, e\<lparr>ve_compact_pointers := ve_compact_pointers e0 @ ve_compact_pointers e\<rparr>)"
proof -
  let ?p = "concat (map enc_pointer (ve_compact_pointers e))" and ?n = "concat (map enc_new (ve_new_files e))"
    and ?d = "concat (map enc_deleted (sorted_list_of_set (ve_deleted_files e)))"
  note ok = assms [unfolded edit_ok_def]
  have flags: "ve_has_comparator e \<or> ve_comparator e = []" "ve_has_log_number e \<or> ve_log_number e = 0"
    "ve_has_prev_log_number e \<or> ve_prev_log_number e = 0" "ve_has_next_file_number e \<or> ve_next_file_number e = 0"
    "ve_has_last_sequence e \<or> ve_last_sequence e = 0"
    using ok by simp_all
  have fields: "length (ve_comparator e) < 2 ^ 32" "finite (ve_deleted_files e)"
    "\<forall>(level, key)\<in>set (ve_compact_pointers e). level_ok level \<and> length key < 2 ^ 32"
    "\<forall>(level, n)\<in>set (sorted_list_of_set (ve_deleted_files e)). level_ok level"
    "\<forall>(level, f)\<in>set (ve_new_files e). level_ok level \<and> fm_refs f = 0 \<and> fm_allowed_seeks f = 2 ^ 30 \<and>
        length (fm_smallest f) < 2 ^ 32 \<and> length (fm_largest f) < 2 ^ 32"
    using ok by auto
  have "DecodeFrom_loop [] e' = (None, e', [])" for e'
    by (subst DecodeFrom_loop.simps) (simp add: GetVarint32_scan scan_ptr_def)
  then have stop: "DecodeFrom_loop ?n e' = (None, e'\<lparr>ve_new_files := ve_new_files e' @ ve_new_files e\<rparr>, [])" for e'
    using loop_new [OF fields(5), of "[]" e'] by simp
  have run: "DecodeFrom_loop (VersionEdit_EncodeTo e []) (VersionEdit_Clear e0) =
      (None, e\<lparr>ve_compact_pointers := ve_compact_pointers e0 @ ve_compact_pointers e\<rparr>, [])"
    unfolding EncodeTo_parts loop_if(1) [OF fields(1)] loop_if(2-) loop_pointers [OF fields(3)] loop_deleted [OF fields(4)] stop
    by (simp only: prod.inject simp_thms, rule VersionEdit.equality)
      (use flags fields(2) in \<open>auto simp: VersionEdit_Clear_def\<close>)
  then show ?thesis by (simp add: VersionEdit_DecodeFrom_def)
qed

theorem version_edit_roundtrip_witness:
  "VersionEdit_DecodeFrom make_VersionEdit
      (VersionEdit_EncodeTo (AddFile 2 7 100 [1] [2] (DeleteFile 3 5 (SetLogNumber 9 make_VersionEdit))) []) =
    (Status_OK, AddFile 2 7 100 [1] [2] (DeleteFile 3 5 (SetLogNumber 9 make_VersionEdit)))"
proof -
  have "edit_ok (AddFile 2 7 100 [1] [2] (DeleteFile 3 5 (SetLogNumber 9 make_VersionEdit)))"
    by (intro setters_edit_ok) (simp_all add: level_ok_def)
  from version_edit_roundtrip [OF this, of make_VersionEdit] show ?thesis
    by (simp add: make_VersionEdit_def AddFile_def DeleteFile_def SetLogNumber_def)
qed

end
