(* ===== verification/Ldb_Cache.thy ===== *)
theory Ldb_Cache
  imports Ldb_Bloom "HOL-Library.Monad_Syntax"
begin

text \<open>
  The cache of \<^verbatim>\<open>util/cache.cc\<close>: handles in memory, linked in a ring in the order of their last use and in the
  chains of a hash table, with reference counts and a budget. Memory maps addresses to handles; reading an
  address that holds none is a missing result, and so is a failed assertion. New handles get fresh addresses.
\<close>

section \<open>Handles in memory\<close>

text \<open>A value goes with the deleter it was inserted with; \<open>key_data\<close> has its \<^verbatim>\<open>key_length\<close> bytes.\<close>

record 'v LRUHandle =
  lh_value :: 'v
  lh_next_hash :: nat
  lh_next :: nat
  lh_prev :: nat
  lh_charge :: "64 word"
  lh_refs :: "32 word"
  lh_hash :: "32 word"
  lh_key_data :: "byte list"

type_synonym 'v handles = "nat \<Rightarrow> 'v LRUHandle option"

definition NULL :: nat where "NULL = 0"

text \<open>The address of the member \<^verbatim>\<open>lru_\<close>, the head of the ring.\<close>

definition lru_head :: nat where "lru_head = 1"

definition set_handle :: "('v LRUHandle \<Rightarrow> 'v LRUHandle) \<Rightarrow> nat \<Rightarrow> 'v handles \<Rightarrow> 'v handles option" where
  "set_handle f a h = map_option (\<lambda>e. h(a \<mapsto> f e)) (h a)"

text \<open>A handle whose \<^verbatim>\<open>next\<close> is itself would be a temporary one whose value points to its key; none is made.\<close>

definition LRUHandle_key :: "'v handles \<Rightarrow> nat \<Rightarrow> byte list option" where
  "LRUHandle_key h a = do { e \<leftarrow> h a; if lh_next e = a then None else Some (lh_key_data e) }"

section \<open>The hash table\<close>

record HandleTable =
  ht_length :: "32 word"
  ht_elems :: "32 word"
  ht_list :: "nat list"

text \<open>A pointer to a pointer: to the head of a bucket, or to the \<^verbatim>\<open>next_hash\<close> of a handle.\<close>

datatype Slot = InBucket nat | InHandle nat

definition load_slot :: "'v handles \<Rightarrow> nat list \<Rightarrow> Slot \<Rightarrow> nat option" where
  "load_slot h l ptr =
     (case ptr of InBucket i \<Rightarrow> if i < length l then Some (l ! i) else None
                | InHandle a \<Rightarrow> map_option lh_next_hash (h a))"

definition store_slot :: "Slot \<Rightarrow> nat \<Rightarrow> 'v handles \<Rightarrow> nat list \<Rightarrow> ('v handles \<times> nat list) option" where
  "store_slot ptr a h l =
     (case ptr of InBucket i \<Rightarrow> if i < length l then Some (h, l[i := a]) else None
                | InHandle b \<Rightarrow> map_option (\<lambda>h. (h, l)) (set_handle (\<lambda>e. e\<lparr>lh_next_hash := a\<rparr>) b h))"

partial_function (option) find_slot ::
  "'v handles \<Rightarrow> nat list \<Rightarrow> byte list \<Rightarrow> 32 word \<Rightarrow> Slot \<Rightarrow> Slot option" where
  "find_slot h l key hash ptr = do {
     p \<leftarrow> load_slot h l ptr;
     if p = NULL then Some ptr
     else do {
       e \<leftarrow> h p;
       found \<leftarrow> (if lh_hash e \<noteq> hash then Some False else map_option (\<lambda>k. key = k) (LRUHandle_key h p));
       if \<not> found then find_slot h l key hash (InHandle p) else Some ptr } }"

definition bucket_of :: "32 word \<Rightarrow> 32 word \<Rightarrow> nat" where
  "bucket_of hash len = unat (hash AND (len - 1))"

definition FindPointer :: "'v handles \<Rightarrow> HandleTable \<Rightarrow> byte list \<Rightarrow> 32 word \<Rightarrow> Slot option" where
  "FindPointer h t key hash = find_slot h (ht_list t) key hash (InBucket (bucket_of hash (ht_length t)))"

text \<open>Resizing moves every handle of every old chain to the front of its new chain.\<close>

partial_function (option) new_length :: "32 word \<Rightarrow> 32 word \<Rightarrow> 32 word option" where
  "new_length elems n = (if n < elems then new_length elems (n * 2) else Some n)"

partial_function (option) move_chain ::
  "32 word \<Rightarrow> nat \<Rightarrow> 32 word \<Rightarrow> 'v handles \<Rightarrow> nat list \<Rightarrow> ('v handles \<times> nat list \<times> 32 word) option" where
  "move_chain len p count h new_list =
     (if p = NULL then Some (h, new_list, count)
      else do {
        e \<leftarrow> h p;
        let ptr = InBucket (bucket_of (lh_hash e) len);
        first \<leftarrow> load_slot h new_list ptr;
        h \<leftarrow> set_handle (\<lambda>e. e\<lparr>lh_next_hash := first\<rparr>) p h;
        (h, new_list) \<leftarrow> store_slot ptr p h new_list;
        move_chain len (lh_next_hash e) (count + 1) h new_list })"

fun move_chains ::
  "32 word \<Rightarrow> nat list \<Rightarrow> 32 word \<Rightarrow> 'v handles \<Rightarrow> nat list \<Rightarrow> ('v handles \<times> nat list \<times> 32 word) option" where
  "move_chains len [] count h new_list = Some (h, new_list, count)"
| "move_chains len (p # ps) count h new_list = do {
     (h, new_list, count) \<leftarrow> move_chain len p count h new_list;
     move_chains len ps count h new_list }"

definition ht_Resize :: "'v handles \<Rightarrow> HandleTable \<Rightarrow> ('v handles \<times> HandleTable) option" where
  "ht_Resize h t = do {
     len \<leftarrow> new_length (ht_elems t) 4;
     (h, new_list, count) \<leftarrow> move_chains len (ht_list t) 0 h (replicate (unat len) NULL);
     if ht_elems t = count then Some (h, t\<lparr>ht_length := len, ht_list := new_list\<rparr>) else None }"

definition make_HandleTable :: "HandleTable option" where
  "make_HandleTable =
     map_option snd (ht_Resize (Map.empty :: unit handles) \<lparr>ht_length = 0, ht_elems = 0, ht_list = []\<rparr>)"

definition ht_Lookup :: "'v handles \<Rightarrow> HandleTable \<Rightarrow> byte list \<Rightarrow> 32 word \<Rightarrow> nat option" where
  "ht_Lookup h t key hash = do { ptr \<leftarrow> FindPointer h t key hash; load_slot h (ht_list t) ptr }"

definition next_hash_of :: "'v handles \<Rightarrow> nat \<Rightarrow> nat option" where
  "next_hash_of h a = map_option lh_next_hash (h a)"

definition ht_Insert :: "nat \<Rightarrow> 'v handles \<Rightarrow> HandleTable \<Rightarrow> (nat \<times> 'v handles \<times> HandleTable) option" where
  "ht_Insert a h t = do {
     e \<leftarrow> h a;
     k \<leftarrow> LRUHandle_key h a;
     ptr \<leftarrow> FindPointer h t k (lh_hash e);
     old \<leftarrow> load_slot h (ht_list t) ptr;
     nxt \<leftarrow> (if old = NULL then Some NULL else next_hash_of h old);
     h \<leftarrow> set_handle (\<lambda>e. e\<lparr>lh_next_hash := nxt\<rparr>) a h;
     (h, l) \<leftarrow> store_slot ptr a h (ht_list t);
     let t = t\<lparr>ht_list := l\<rparr>;
     if old = NULL
     then let t = t\<lparr>ht_elems := ht_elems t + 1\<rparr>
          in if ht_length t < ht_elems t
             then map_option (\<lambda>(h, t). (old, h, t)) (ht_Resize h t)
             else Some (old, h, t)
     else Some (old, h, t) }"

definition ht_Remove :: "byte list \<Rightarrow> 32 word \<Rightarrow> 'v handles \<Rightarrow> HandleTable \<Rightarrow> (nat \<times> 'v handles \<times> HandleTable) option" where
  "ht_Remove key hash h t = do {
     ptr \<leftarrow> FindPointer h t key hash;
     result \<leftarrow> load_slot h (ht_list t) ptr;
     if result \<noteq> NULL
     then do {
       nxt \<leftarrow> next_hash_of h result;
       (h, l) \<leftarrow> store_slot ptr nxt h (ht_list t);
       Some (result, h, t\<lparr>ht_list := l, ht_elems := ht_elems t - 1\<rparr>) }
     else Some (result, h, t) }"

section \<open>One shard\<close>

text \<open>
  The calls of deleters are kept with the key and the value they get. Members the code does not set, as those
  of \<^verbatim>\<open>lru_\<close> but its links, are never read; \<open>any\<close> stands for the value \<^verbatim>\<open>lru_\<close> happens to have. The capacity
  that \<^verbatim>\<open>SetCapacity\<close> sets right after construction is an argument of the constructor.
\<close>

record 'v LRUCache =
  lc_capacity :: "64 word"
  lc_usage :: "64 word"
  lc_handles :: "'v handles"
  lc_table :: HandleTable
  lc_fresh :: nat
  lc_deleted :: "(byte list \<times> 'v) list"

definition make_LRUCache :: "'v \<Rightarrow> 64 word \<Rightarrow> 'v LRUCache option" where
  "make_LRUCache any capacity = do {
     t \<leftarrow> make_HandleTable;
     Some \<lparr>lc_capacity = capacity, lc_usage = 0,
       lc_handles = [lru_head \<mapsto> \<lparr>lh_value = any, lh_next_hash = NULL, lh_next = lru_head, lh_prev = lru_head,
          lh_charge = 0, lh_refs = 0, lh_hash = 0, lh_key_data = []\<rparr>],
       lc_table = t, lc_fresh = 2, lc_deleted = []\<rparr> }"

definition LRU_Remove :: "nat \<Rightarrow> 'v handles \<Rightarrow> 'v handles option" where
  "LRU_Remove a h = do {
     e \<leftarrow> h a;
     h \<leftarrow> set_handle (\<lambda>n. n\<lparr>lh_prev := lh_prev e\<rparr>) (lh_next e) h;
     e \<leftarrow> h a;
     set_handle (\<lambda>p. p\<lparr>lh_next := lh_next e\<rparr>) (lh_prev e) h }"

definition LRU_Append :: "nat \<Rightarrow> 'v handles \<Rightarrow> 'v handles option" where
  "LRU_Append a h = do {
     h \<leftarrow> set_handle (\<lambda>e. e\<lparr>lh_next := lru_head\<rparr>) a h;
     l \<leftarrow> h lru_head;
     h \<leftarrow> set_handle (\<lambda>e. e\<lparr>lh_prev := lh_prev l\<rparr>) a h;
     e \<leftarrow> h a;
     h \<leftarrow> set_handle (\<lambda>p. p\<lparr>lh_next := a\<rparr>) (lh_prev e) h;
     e \<leftarrow> h a;
     set_handle (\<lambda>n. n\<lparr>lh_prev := a\<rparr>) (lh_next e) h }"

definition LRU_Unref :: "nat \<Rightarrow> 'v LRUCache \<Rightarrow> 'v LRUCache option" where
  "LRU_Unref a c = do {
     e \<leftarrow> lc_handles c a;
     if lh_refs e = 0 then None
     else let e = e\<lparr>lh_refs := lh_refs e - 1\<rparr>; h = (lc_handles c)(a \<mapsto> e) in
       if lh_refs e \<le> 0
       then do {
         k \<leftarrow> LRUHandle_key h a;
         Some (c\<lparr>lc_usage := lc_usage c - lh_charge e, lc_deleted := lc_deleted c @ [(k, lh_value e)],
           lc_handles := h(a := None)\<rparr>) }
       else Some (c\<lparr>lc_handles := h\<rparr>) }"

definition LRU_Lookup :: "byte list \<Rightarrow> 32 word \<Rightarrow> 'v LRUCache \<Rightarrow> (nat \<times> 'v LRUCache) option" where
  "LRU_Lookup key hash c = do {
     a \<leftarrow> ht_Lookup (lc_handles c) (lc_table c) key hash;
     if a \<noteq> NULL
     then do {
       h \<leftarrow> set_handle (\<lambda>e. e\<lparr>lh_refs := lh_refs e + 1\<rparr>) a (lc_handles c);
       h \<leftarrow> LRU_Remove a h;
       h \<leftarrow> LRU_Append a h;
       Some (a, c\<lparr>lc_handles := h\<rparr>) }
     else Some (a, c) }"

definition LRU_Release :: "nat \<Rightarrow> 'v LRUCache \<Rightarrow> 'v LRUCache option" where
  "LRU_Release a c = LRU_Unref a c"

partial_function (option) LRU_evict :: "'v LRUCache \<Rightarrow> 'v LRUCache option" where
  "LRU_evict c = do {
     l \<leftarrow> lc_handles c lru_head;
     if lc_capacity c < lc_usage c \<and> lh_next l \<noteq> lru_head
     then do {
       let old = lh_next l;
       h \<leftarrow> LRU_Remove old (lc_handles c);
       k \<leftarrow> LRUHandle_key h old;
       e \<leftarrow> h old;
       (_, h, t) \<leftarrow> ht_Remove k (lh_hash e) h (lc_table c);
       c \<leftarrow> LRU_Unref old (c\<lparr>lc_handles := h, lc_table := t\<rparr>);
       LRU_evict c }
     else Some c }"

definition LRU_Insert :: "byte list \<Rightarrow> 32 word \<Rightarrow> 'v \<Rightarrow> 64 word \<Rightarrow> 'v LRUCache \<Rightarrow> (nat \<times> 'v LRUCache) option" where
  "LRU_Insert key hash v charge c = do {
     let a = lc_fresh c;
     let e = \<lparr>lh_value = v, lh_next_hash = NULL, lh_next = NULL, lh_prev = NULL, lh_charge = charge,
       lh_refs = 2, lh_hash = hash, lh_key_data = key\<rparr>;
     h \<leftarrow> LRU_Append a ((lc_handles c)(a \<mapsto> e));
     let c = c\<lparr>lc_usage := lc_usage c + charge, lc_fresh := Suc a\<rparr>;
     (old, h, t) \<leftarrow> ht_Insert a h (lc_table c);
     c \<leftarrow> (if old \<noteq> NULL
          then do { h \<leftarrow> LRU_Remove old h; LRU_Unref old (c\<lparr>lc_handles := h, lc_table := t\<rparr>) }
          else Some (c\<lparr>lc_handles := h, lc_table := t\<rparr>));
     c \<leftarrow> LRU_evict c;
     Some (a, c) }"

definition LRU_Erase :: "byte list \<Rightarrow> 32 word \<Rightarrow> 'v LRUCache \<Rightarrow> 'v LRUCache option" where
  "LRU_Erase key hash c = do {
     (a, h, t) \<leftarrow> ht_Remove key hash (lc_handles c) (lc_table c);
     if a \<noteq> NULL
     then do { h \<leftarrow> LRU_Remove a h; LRU_Unref a (c\<lparr>lc_handles := h, lc_table := t\<rparr>) }
     else Some (c\<lparr>lc_handles := h, lc_table := t\<rparr>) }"

text \<open>The destructor expects that no caller holds a handle.\<close>

partial_function (option) LRU_destroy_from :: "nat \<Rightarrow> 'v LRUCache \<Rightarrow> 'v LRUCache option" where
  "LRU_destroy_from a c =
     (if a = lru_head then Some c
      else do {
        e \<leftarrow> lc_handles c a;
        if lh_refs e \<noteq> 1 then None else do { c \<leftarrow> LRU_Unref a c; LRU_destroy_from (lh_next e) c } })"

definition LRU_destroy :: "'v LRUCache \<Rightarrow> 'v LRUCache option" where
  "LRU_destroy c = do { l \<leftarrow> lc_handles c lru_head; LRU_destroy_from (lh_next l) c }"

section \<open>All shards\<close>

definition kNumShardBits :: nat where "kNumShardBits = 4"
definition kNumShards :: nat where "kNumShards = 2 ^ kNumShardBits"

text \<open>
  A handle is an address in the memory of a shard; using it with another shard than the one its hash names is
  a missing result.
\<close>

type_synonym cache_handle = "nat \<times> nat"

record 'v ShardedLRUCache =
  sc_shard :: "'v LRUCache list"
  sc_last_id :: "64 word"

definition HashSlice :: "byte list \<Rightarrow> 32 word" where "HashSlice s = Hash s 0"

definition Shard :: "32 word \<Rightarrow> nat" where "Shard hash = unat (drop_bit (32 - kNumShardBits) hash)"

definition NewLRUCache :: "'v \<Rightarrow> 64 word \<Rightarrow> 'v ShardedLRUCache option" where
  "NewLRUCache any capacity =
     (let per_shard = (capacity + (of_nat kNumShards - 1)) div of_nat kNumShards
      in do { c \<leftarrow> make_LRUCache any per_shard; Some \<lparr>sc_shard = replicate kNumShards c, sc_last_id = 0\<rparr> })"

definition on_shard :: "nat \<Rightarrow> ('v LRUCache \<Rightarrow> ('a \<times> 'v LRUCache) option) \<Rightarrow> 'v ShardedLRUCache \<Rightarrow> ('a \<times> 'v ShardedLRUCache) option" where
  "on_shard s f c = do { (x, c') \<leftarrow> f (sc_shard c ! s); Some (x, c\<lparr>sc_shard := (sc_shard c)[s := c']\<rparr>) }"

definition Cache_Insert :: "byte list \<Rightarrow> 'v \<Rightarrow> 64 word \<Rightarrow> 'v ShardedLRUCache \<Rightarrow> (cache_handle \<times> 'v ShardedLRUCache) option" where
  "Cache_Insert key v charge c =
     (let hash = HashSlice key; s = Shard hash
      in do { (a, c) \<leftarrow> on_shard s (LRU_Insert key hash v charge) c; Some ((s, a), c) })"

definition Cache_Lookup :: "byte list \<Rightarrow> 'v ShardedLRUCache \<Rightarrow> (cache_handle option \<times> 'v ShardedLRUCache) option" where
  "Cache_Lookup key c =
     (let hash = HashSlice key; s = Shard hash
      in do { (a, c) \<leftarrow> on_shard s (LRU_Lookup key hash) c; Some (if a = NULL then None else Some (s, a), c) })"

definition no_result :: "('a \<Rightarrow> 'a option) \<Rightarrow> 'a \<Rightarrow> (unit \<times> 'a) option" where
  "no_result f x = map_option (Pair ()) (f x)"

definition Cache_Release :: "cache_handle \<Rightarrow> 'v ShardedLRUCache \<Rightarrow> 'v ShardedLRUCache option" where
  "Cache_Release handle c = do {
     e \<leftarrow> lc_handles (sc_shard c ! fst handle) (snd handle);
     if Shard (lh_hash e) = fst handle
     then map_option snd (on_shard (Shard (lh_hash e)) (no_result (LRU_Release (snd handle))) c)
     else None }"

definition Cache_Erase :: "byte list \<Rightarrow> 'v ShardedLRUCache \<Rightarrow> 'v ShardedLRUCache option" where
  "Cache_Erase key c =
     (let hash = HashSlice key in map_option snd (on_shard (Shard hash) (no_result (LRU_Erase key hash)) c))"

definition Cache_Value :: "cache_handle \<Rightarrow> 'v ShardedLRUCache \<Rightarrow> 'v option" where
  "Cache_Value handle c = map_option lh_value (lc_handles (sc_shard c ! fst handle) (snd handle))"

definition Cache_NewId :: "'v ShardedLRUCache \<Rightarrow> 64 word \<times> 'v ShardedLRUCache" where
  "Cache_NewId c = (let id = sc_last_id c + 1 in (id, c\<lparr>sc_last_id := id\<rparr>))"

text \<open>The destructor of the cache destroys its shards.\<close>

fun destroy_shards :: "'v LRUCache list \<Rightarrow> 'v LRUCache list option" where
  "destroy_shards [] = Some []"
| "destroy_shards (c # cs) = do { c \<leftarrow> LRU_destroy c; cs \<leftarrow> destroy_shards cs; Some (c # cs) }"

definition Cache_destroy :: "'v ShardedLRUCache \<Rightarrow> 'v LRUCache list option" where
  "Cache_destroy c = destroy_shards (sc_shard c)"

end
