(* ===== verification/Ldb_Cache_Props.thy ===== *)
theory Ldb_Cache_Props
  imports Ldb_Cache "HOL-Library.Multiset"
begin

text \<open>
  The cache refines a list of addresses in the order of their last use: lemmas on the ring, on the chains of
  the hash table, and on one shard.
\<close>

section \<open>What the memory holds\<close>

text \<open>Four views of memory: the links of the ring both ways, the links of the chains, and the rest.\<close>

definition next_of :: "'v handles \<Rightarrow> nat \<Rightarrow> nat option" where
  "next_of h a = map_option lh_next (h a)"

definition prev_of :: "'v handles \<Rightarrow> nat \<Rightarrow> nat option" where
  "prev_of h a = map_option lh_prev (h a)"

record 'v lru_entry =
  en_hash :: "32 word"
  en_key :: "byte list"
  en_value :: 'v
  en_charge :: "64 word"

definition entry_of_handle :: "'v LRUHandle \<Rightarrow> 'v lru_entry" where
  "entry_of_handle e = \<lparr>en_hash = lh_hash e, en_key = lh_key_data e, en_value = lh_value e, en_charge = lh_charge e\<rparr>"

definition data_of :: "'v handles \<Rightarrow> nat \<Rightarrow> ('v lru_entry \<times> 32 word) option" where
  "data_of h a = map_option (\<lambda>e. (entry_of_handle e, lh_refs e)) (h a)"

lemmas view_defs = next_of_def prev_of_def next_hash_of_def data_of_def

lemma set_next:
  assumes "h a \<noteq> None"
  shows "\<exists>h'. set_handle (\<lambda>e. e\<lparr>lh_next := x\<rparr>) a h = Some h' \<and> next_of h' = (next_of h)(a \<mapsto> x) \<and> prev_of h' = prev_of h \<and>
    next_hash_of h' = next_hash_of h \<and> data_of h' = data_of h"
  using assms
  by (intro exI [of _ "h(a \<mapsto> (the (h a))\<lparr>lh_next := x\<rparr>)"]) (auto simp: set_handle_def view_defs fun_eq_iff entry_of_handle_def)

lemma set_prev:
  assumes "h a \<noteq> None"
  shows "\<exists>h'. set_handle (\<lambda>e. e\<lparr>lh_prev := x\<rparr>) a h = Some h' \<and> next_of h' = next_of h \<and> prev_of h' = (prev_of h)(a \<mapsto> x) \<and>
    next_hash_of h' = next_hash_of h \<and> data_of h' = data_of h"
  using assms
  by (intro exI [of _ "h(a \<mapsto> (the (h a))\<lparr>lh_prev := x\<rparr>)"]) (auto simp: set_handle_def view_defs fun_eq_iff entry_of_handle_def)

lemma set_next_hash:
  assumes "h a \<noteq> None"
  shows "\<exists>h'. set_handle (\<lambda>e. e\<lparr>lh_next_hash := x\<rparr>) a h = Some h' \<and> next_of h' = next_of h \<and> prev_of h' = prev_of h \<and>
    next_hash_of h' = (next_hash_of h)(a \<mapsto> x) \<and> data_of h' = data_of h"
  using assms
  by (intro exI [of _ "h(a \<mapsto> (the (h a))\<lparr>lh_next_hash := x\<rparr>)"]) (auto simp: set_handle_def view_defs fun_eq_iff entry_of_handle_def)

lemma view_None:
  "next_of h a = None \<longleftrightarrow> h a = None" "prev_of h a = None \<longleftrightarrow> h a = None"
  "next_hash_of h a = None \<longleftrightarrow> h a = None" "data_of h a = None \<longleftrightarrow> h a = None"
  by (simp_all add: view_defs)

lemma same_data_dom: "data_of h' = data_of h \<Longrightarrow> h' a = None \<longleftrightarrow> h a = None"
  by (metis view_None(4))

lemma handle_read:
  "h a = Some e \<Longrightarrow> next_of h a = Some (lh_next e)" "h a = Some e \<Longrightarrow> prev_of h a = Some (lh_prev e)"
  "h a = Some e \<Longrightarrow> next_hash_of h a = Some (lh_next_hash e)"
  "h a = Some e \<Longrightarrow> data_of h a = Some (entry_of_handle e, lh_refs e)"
  by (simp_all add: view_defs)

section \<open>The ring\<close>

fun ring_linked :: "(nat \<Rightarrow> nat option) \<Rightarrow> (nat \<Rightarrow> nat option) \<Rightarrow> nat list \<Rightarrow> bool" where
  "ring_linked nx pv (a # b # zs) \<longleftrightarrow> nx a = Some b \<and> pv b = Some a \<and> ring_linked nx pv (b # zs)"
| "ring_linked nx pv zs \<longleftrightarrow> True"

lemma ring_linked_split: "ring_linked nx pv (us @ a # vs) \<longleftrightarrow> ring_linked nx pv (us @ [a]) \<and> ring_linked nx pv (a # vs)"
  by (induction nx pv us rule: ring_linked.induct) auto

lemma ring_linked_cong:
  "(\<And>a. a \<in> set (butlast L) \<Longrightarrow> nx' a = nx a) \<Longrightarrow> (\<And>b. b \<in> set (tl L) \<Longrightarrow> pv' b = pv b) \<Longrightarrow>
    ring_linked nx' pv' L \<longleftrightarrow> ring_linked nx pv L"
proof (induction nx pv L rule: ring_linked.induct)
  case (1 nx pv a b zs)
  then show ?case by (cases zs) auto
qed auto

definition ring :: "'v handles \<Rightarrow> nat list \<Rightarrow> bool" where
  "ring h xs \<longleftrightarrow> ring_linked (next_of h) (prev_of h) (lru_head # xs @ [lru_head]) \<and> distinct (lru_head # xs)"

lemma ring_cong: "next_of h' = next_of h \<Longrightarrow> prev_of h' = prev_of h \<Longrightarrow> ring h' xs \<longleftrightarrow> ring h xs"
  by (simp add: ring_def)

lemma ring_linked_mem: "ring_linked nx pv (us @ [a]) \<Longrightarrow> x \<in> set us \<Longrightarrow> nx x \<noteq> None"
proof (induction us)
  case (Cons u us)
  then show ?case by (cases us) auto
qed simp

lemma ring_mem: "ring h xs \<Longrightarrow> a = lru_head \<or> a \<in> set xs \<Longrightarrow> h a \<noteq> None"
  using ring_linked_mem [of "next_of h" "prev_of h" "lru_head # xs" lru_head a] by (auto simp: ring_def view_None)

lemma ring_first:
  assumes "ring h xs" "h lru_head = Some l"
  shows "lh_next l = (case xs of [] \<Rightarrow> lru_head | x # _ \<Rightarrow> x)"
  using assms handle_read(1) [of h lru_head l] by (cases xs) (auto simp: ring_def)

text \<open>Every live handle that is not the head points elsewhere, so that none looks like a temporary one.\<close>

definition no_temporary :: "'v handles \<Rightarrow> bool" where
  "no_temporary h \<longleftrightarrow> (\<forall>a. a \<noteq> lru_head \<longrightarrow> next_of h a \<noteq> Some a)"

lemma LRUHandle_key_data:
  assumes "no_temporary h" "h a = Some e" "a \<noteq> lru_head"
  shows "LRUHandle_key h a = Some (lh_key_data e)"
  using assms handle_read(1) [of h a e] by (auto simp: no_temporary_def LRUHandle_key_def)

lemma LRU_Remove_ring:
  assumes "ring h (as @ a # bs)" "no_temporary h"
  shows "\<exists>h'. LRU_Remove a h = Some h' \<and> ring h' (as @ bs) \<and> no_temporary h' \<and>
    next_hash_of h' = next_hash_of h \<and> data_of h' = data_of h"
proof -
  define us where "us = butlast (lru_head # as)"
  define p where "p = last (lru_head # as)"
  define n where "n = hd (bs @ [lru_head])"
  define vs where "vs = tl (bs @ [lru_head])"
  have left: "lru_head # as = us @ [p]" by (simp add: us_def p_def del: butlast.simps last.simps)
  have right: "bs @ [lru_head] = n # vs" by (simp add: n_def vs_def)
  have dist: "distinct (lru_head # as @ a # bs)" using assms(1) by (simp add: ring_def)
  have all: "lru_head # (as @ a # bs) @ [lru_head] = us @ p # a # n # vs" using left right by simp
  have l: "ring_linked (next_of h) (prev_of h) (us @ [p])" "next_of h p = Some a" "prev_of h a = Some p" "next_of h a = Some n"
    "prev_of h n = Some a" "ring_linked (next_of h) (prev_of h) (n # vs)"
    using assms(1) ring_linked_split [of "next_of h" "prev_of h" us p "a # n # vs"] unfolding ring_def all by simp_all
  have "p \<in> set (lru_head # as)" unfolding left by simp
  then have p_ne: "p \<noteq> a" using dist by auto
  have "n \<in> set (bs @ [lru_head])" unfolding right by simp
  then have n_ne: "n \<noteq> a" using dist by auto
  note pn = p_ne n_ne
  obtain e where e: "h a = Some e" using l(4) by (auto simp: next_of_def)
  have en: "lh_next e = n" "lh_prev e = p" using l(3,4) handle_read(1,2) [of h a, OF e] by simp_all
  obtain h1 where h1: "set_handle (\<lambda>x. x\<lparr>lh_prev := p\<rparr>) n h = Some h1" "next_of h1 = next_of h"
    "prev_of h1 = (prev_of h)(n \<mapsto> p)" "next_hash_of h1 = next_hash_of h" "data_of h1 = data_of h"
    using set_prev [of h n p] l(5) by (auto simp: view_None(2) [symmetric])
  have "h1 a \<noteq> None" using e same_data_dom [OF h1(5), of a] by simp
  then obtain e1 where e1: "h1 a = Some e1" by blast
  have en1: "lh_next e1 = n" "lh_prev e1 = p" using l(3,4) pn handle_read(1,2) [of h1 a, OF e1] by (simp_all add: h1(2,3))
  have "h1 p \<noteq> None" using l(2) same_data_dom [OF h1(5), of p] by (auto simp: view_None(1) [symmetric])
  then obtain h2 where h2: "set_handle (\<lambda>x. x\<lparr>lh_next := n\<rparr>) p h1 = Some h2" "next_of h2 = (next_of h)(p \<mapsto> n)"
    "prev_of h2 = (prev_of h)(n \<mapsto> p)" "next_hash_of h2 = next_hash_of h" "data_of h2 = data_of h"
    using set_next [of h1 p n] h1 by auto
  have new: "lru_head # (as @ bs) @ [lru_head] = us @ p # n # vs" using left right by simp
  have d: "distinct (us @ [p])" "distinct (n # vs)" "n \<notin> set (tl (us @ [p]))" "p \<notin> set (butlast (n # vs))"
  proof -
    show "distinct (us @ [p])" using dist left by (metis distinct_append append_Cons)
    have "distinct (bs @ [lru_head])" using dist by auto
    then show "distinct (n # vs)" using right by simp
    have "set (tl (us @ [p])) = set as" using left by (metis list.sel(3))
    moreover have "n \<in> set (bs @ [lru_head])" using right by simp
    ultimately show "n \<notin> set (tl (us @ [p]))" using dist by auto
    have "set (butlast (n # vs)) = set bs" using right by (metis butlast_snoc)
    moreover have "p \<in> set (lru_head # as)" using left by simp
    ultimately show "p \<notin> set (butlast (n # vs))" using dist by auto
  qed
  have "ring_linked (next_of h2) (prev_of h2) (us @ [p])"
    using l(1) d(1,3) unfolding h2(2,3) by (subst ring_linked_cong [of _ _ "next_of h" _ "prev_of h"]) auto
  moreover have "ring_linked (next_of h2) (prev_of h2) (n # vs)"
    using l(6) d(2,4) unfolding h2(2,3) by (subst ring_linked_cong [of _ _ "next_of h" _ "prev_of h"]) auto
  ultimately have "ring h2 (as @ bs)"
    unfolding ring_def new using ring_linked_split [of "next_of h2" "prev_of h2" us p "n # vs"] dist by (simp add: h2(2,3))
  moreover have "no_temporary h2"
  proof -
    have "p \<noteq> n" if "p \<noteq> lru_head"
    proof -
      have "p \<in> set as" using that left by (metis in_set_conv_decomp set_ConsD)
      moreover have "n \<in> set (bs @ [lru_head])" using right by simp
      ultimately show ?thesis using dist that by auto
    qed
    then show ?thesis using assms(2) by (auto simp: no_temporary_def h2(2))
  qed
  moreover have "LRU_Remove a h = Some h2" using e e1 h1(1) h2(1) by (simp add: LRU_Remove_def en en1)
  ultimately show ?thesis using h2(4,5) by blast
qed

lemma LRU_Append_ring:
  assumes "ring h xs" "no_temporary h" "h a \<noteq> None" "a \<noteq> lru_head" "a \<notin> set xs"
  shows "\<exists>h'. LRU_Append a h = Some h' \<and> ring h' (xs @ [a]) \<and> no_temporary h' \<and>
    next_hash_of h' = next_hash_of h \<and> data_of h' = data_of h"
proof -
  define us where "us = butlast (lru_head # xs)"
  define p where "p = last (lru_head # xs)"
  have left: "lru_head # xs = us @ [p]" by (simp add: us_def p_def del: butlast.simps last.simps)
  have dist: "distinct (lru_head # xs)" using assms(1) by (simp add: ring_def)
  have all: "lru_head # xs @ [lru_head] = us @ p # [lru_head]" using left by simp
  have l: "ring_linked (next_of h) (prev_of h) (us @ [p])" "next_of h p = Some lru_head" "prev_of h lru_head = Some p"
    using assms(1) ring_linked_split [of "next_of h" "prev_of h" us p "[lru_head]"] unfolding ring_def all by simp_all
  have "p \<in> set (lru_head # xs)" unfolding left by simp
  then have pa: "p \<noteq> a" using assms(4,5) by auto
  obtain h1 where h1: "set_handle (\<lambda>x. x\<lparr>lh_next := lru_head\<rparr>) a h = Some h1" "next_of h1 = (next_of h)(a \<mapsto> lru_head)"
    "prev_of h1 = prev_of h" "next_hash_of h1 = next_hash_of h" "data_of h1 = data_of h"
    using set_next [of h a lru_head] assms(3) by blast
  obtain e1 where e1: "h1 lru_head = Some e1" "lh_prev e1 = p"
    using l(3) h1(3) by (metis (no_types, lifting) map_option_eq_Some prev_of_def)
  obtain h2 where h2: "set_handle (\<lambda>x. x\<lparr>lh_prev := p\<rparr>) a h1 = Some h2" "next_of h2 = (next_of h)(a \<mapsto> lru_head)"
    "prev_of h2 = (prev_of h)(a \<mapsto> p)" "next_hash_of h2 = next_hash_of h" "data_of h2 = data_of h"
    using set_prev [of h1 a p] h1 assms(3) same_data_dom [OF h1(5), of a] by auto
  have "prev_of h2 a = Some p" by (simp add: h2(3))
  then obtain e2 where e2: "h2 a = Some e2" "lh_prev e2 = p" by (auto simp: prev_of_def)
  have "h2 p \<noteq> None" using l(2) same_data_dom [OF h2(5), of p] view_None(1) [of h p] by auto
  then obtain h3 where h3: "set_handle (\<lambda>x. x\<lparr>lh_next := a\<rparr>) p h2 = Some h3" "next_of h3 = (next_of h)(a \<mapsto> lru_head, p \<mapsto> a)"
    "prev_of h3 = (prev_of h)(a \<mapsto> p)" "next_hash_of h3 = next_hash_of h" "data_of h3 = data_of h"
    using set_next [of h2 p a] h2 by auto
  have "next_of h3 a = Some lru_head" using pa by (simp add: h3(2))
  then obtain e3 where e3: "h3 a = Some e3" "lh_next e3 = lru_head" by (auto simp: next_of_def)
  have "h3 lru_head \<noteq> None" using l(3) same_data_dom [OF h3(5), of lru_head] view_None(2) [of h lru_head] by auto
  then obtain h4 where h4: "set_handle (\<lambda>x. x\<lparr>lh_prev := a\<rparr>) lru_head h3 = Some h4" "next_of h4 = (next_of h)(a \<mapsto> lru_head, p \<mapsto> a)"
    "prev_of h4 = (prev_of h)(a \<mapsto> p, lru_head \<mapsto> a)" "next_hash_of h4 = next_hash_of h" "data_of h4 = data_of h"
    using set_prev [of h3 lru_head a] h3 by auto
  have "LRU_Append a h = Some h4"
    using h1(1) e1 h2(1) e2 h3(1) e3 h4(1) by (simp add: LRU_Append_def)
  moreover have "no_temporary h4" using assms(2,4) pa by (simp add: no_temporary_def h4(2))
  moreover have "ring h4 (xs @ [a])"
  proof -
    have "distinct (us @ [p])" using dist left by metis
    moreover have "set (us @ [p]) = set (lru_head # xs)" using left by metis
    moreover have "tl (us @ [p]) = xs" using left by (metis list.sel(3))
    ultimately have "ring_linked (next_of h4) (prev_of h4) (us @ [p])"
      using l(1) assms(4,5) dist unfolding h4(2,3)
      by (subst ring_linked_cong [of _ _ "next_of h" _ "prev_of h"]) auto
    then have "ring_linked (next_of h4) (prev_of h4) (us @ p # [a, lru_head])"
      using ring_linked_split [of "next_of h4" "prev_of h4" us p "[a, lru_head]"] pa assms(4) by (simp add: h4(2,3))
    moreover have "lru_head # (xs @ [a]) @ [lru_head] = us @ p # [a, lru_head]" using left by simp
    moreover have "distinct (lru_head # xs @ [a])" using dist assms(4,5) by auto
    ultimately show ?thesis unfolding ring_def by metis
  qed
  ultimately show ?thesis using h4(4,5) by blast
qed

section \<open>Chains\<close>

fun chain :: "(nat \<Rightarrow> nat option) \<Rightarrow> nat \<Rightarrow> nat list \<Rightarrow> bool" where
  "chain nh p [] \<longleftrightarrow> p = NULL"
| "chain nh p (z # zs) \<longleftrightarrow> p = z \<and> z \<noteq> NULL \<and> (\<exists>q. nh z = Some q \<and> chain nh q zs)"

lemma chain_cong: "(\<And>z. z \<in> set zs \<Longrightarrow> nh' z = nh z) \<Longrightarrow> chain nh' p zs \<longleftrightarrow> chain nh p zs"
  by (induction zs arbitrary: p) auto

lemma chain_mem: "chain nh p zs \<Longrightarrow> z \<in> set zs \<Longrightarrow> nh z \<noteq> None \<and> z \<noteq> NULL"
  by (induction zs arbitrary: p) auto

lemma chain_split: "chain nh p (us @ vs) \<Longrightarrow> us \<noteq> [] \<Longrightarrow> nh (last us) = Some (if vs = [] then NULL else hd vs)"
  by (induction us arbitrary: p) (auto split: if_splits, (cases vs; auto)+)

lemma chain_first: "chain nh p zs \<Longrightarrow> p = (if zs = [] then NULL else hd zs)"
  by (cases zs) auto

lemma chain_rest: "chain nh p (us @ v # vs) \<Longrightarrow> \<exists>q. nh v = Some q \<and> chain nh q vs"
  by (induction us arbitrary: p) auto

lemma chain_store:
  "chain nh p (us @ vs) \<Longrightarrow> us \<noteq> [] \<Longrightarrow> distinct us \<Longrightarrow> last us \<notin> set ws \<Longrightarrow> chain nh q ws \<Longrightarrow>
    chain (nh(last us \<mapsto> q)) p (us @ ws)"
proof (induction us arbitrary: p)
  case (Cons u us)
  show ?case
  proof (cases "us = []")
    case True
    then have "chain (nh(u \<mapsto> q)) q ws" using Cons.prems by (subst chain_cong [of _ _ nh]) auto
    then show ?thesis using Cons.prems True by (simp add: fun_upd_def)
  next
    case False
    then have "last us \<in> set us" by simp
    then have "last us \<noteq> u" using Cons.prems(3) by auto
    then show ?thesis using False Cons by auto
  qed
qed simp

definition matches :: "'v handles \<Rightarrow> byte list \<Rightarrow> 32 word \<Rightarrow> nat \<Rightarrow> bool" where
  "matches h key hash z \<longleftrightarrow> (\<exists>e r. data_of h z = Some (e, r) \<and> en_hash e = hash \<and> en_key e = key)"

definition slot_after :: "Slot \<Rightarrow> nat list \<Rightarrow> Slot" where
  "slot_after ptr us = (if us = [] then ptr else InHandle (last us))"

lemma find_slot_chain:
  assumes "chain (next_hash_of h) p zs" "load_slot h l ptr = Some p" "no_temporary h" "lru_head \<notin> set zs"
  shows "find_slot h l key hash ptr = Some (slot_after ptr (takeWhile (\<lambda>z. \<not> matches h key hash z) zs))"
  using assms
proof (induction zs arbitrary: p ptr)
  case Nil
  then show ?case by (subst find_slot.simps) (simp add: slot_after_def)
next
  case (Cons z zs)
  obtain q where q: "p = z" "z \<noteq> NULL" "next_hash_of h z = Some q" "chain (next_hash_of h) q zs" using Cons.prems(1) by auto
  obtain e where e: "h z = Some e" using q(3) by (auto simp: next_hash_of_def)
  have key: "LRUHandle_key h z = Some (lh_key_data e)" using LRUHandle_key_data [OF Cons.prems(3) e] Cons.prems(4) by simp
  have m: "matches h key hash z \<longleftrightarrow> lh_hash e = hash \<and> key = lh_key_data e"
    by (auto simp: matches_def data_of_def e entry_of_handle_def)
  show ?case
  proof (cases "matches h key hash z")
    case True
    then show ?thesis using Cons.prems(2) q e key m by (subst find_slot.simps) (simp add: slot_after_def)
  next
    case False
    have "load_slot h l (InHandle z) = Some q" using q(3) by (simp add: load_slot_def next_hash_of_def)
    then have "find_slot h l key hash (InHandle z) =
        Some (slot_after (InHandle z) (takeWhile (\<lambda>z. \<not> matches h key hash z) zs))"
      using Cons.IH [OF q(4)] Cons.prems by simp
    moreover have "find_slot h l key hash ptr = find_slot h l key hash (InHandle z)"
      using Cons.prems(2) q e key m False by (subst find_slot.simps) auto
    ultimately show ?thesis using False by (simp add: slot_after_def)
  qed
qed

lemma load_slot_after:
  assumes "i < length l" "chain (next_hash_of h) (l ! i) (us @ vs)"
  shows "load_slot h l (slot_after (InBucket i) us) = Some (if vs = [] then NULL else hd vs)"
proof (cases "us = []")
  case True
  then show ?thesis using assms chain_first [of "next_hash_of h" "l ! i" vs] by (simp add: slot_after_def load_slot_def)
next
  case False
  then show ?thesis using chain_split [OF assms(2)] by (simp add: slot_after_def load_slot_def next_hash_of_def)
qed

text \<open>Storing through the slot behind \<open>us\<close> replaces the rest of the chain and nothing else.\<close>

lemma store_slot_after:
  assumes "i < length l" "chain (next_hash_of h) (l ! i) (us @ vs)" "distinct us" "us = [] \<or> last us \<notin> set ws"
    and "chain (next_hash_of h) q ws"
  shows "\<exists>h' l'. store_slot (slot_after (InBucket i) us) q h l = Some (h', l') \<and> chain (next_hash_of h') (l' ! i) (us @ ws) \<and>
    length l' = length l \<and> (\<forall>j. j \<noteq> i \<longrightarrow> l' ! j = l ! j) \<and> (\<forall>z. z \<notin> set us \<longrightarrow> next_hash_of h' z = next_hash_of h z) \<and>
    next_of h' = next_of h \<and> prev_of h' = prev_of h \<and> data_of h' = data_of h"
proof (cases "us = []")
  case True
  then show ?thesis using assms by (simp add: slot_after_def store_slot_def)
next
  case False
  have "h (last us) \<noteq> None" using chain_split [OF assms(2) False] by (auto simp: view_None(3) [symmetric])
  then obtain h' where h': "set_handle (\<lambda>e. e\<lparr>lh_next_hash := q\<rparr>) (last us) h = Some h'" "next_of h' = next_of h"
    "prev_of h' = prev_of h" "next_hash_of h' = (next_hash_of h)(last us \<mapsto> q)" "data_of h' = data_of h"
    using set_next_hash [of h "last us" q] by blast
  have "chain (next_hash_of h') (l ! i) (us @ ws)" using chain_store [OF assms(2) False assms(3) _ assms(5)] assms(4) False by (simp add: h'(4))
  moreover have "z \<noteq> last us" if "z \<notin> set us" for z using that False by auto
  ultimately show ?thesis using False h' by (auto simp: slot_after_def store_slot_def)
qed

section \<open>The table\<close>

definition hash_of :: "'v handles \<Rightarrow> nat \<Rightarrow> 32 word" where
  "hash_of h z = (case data_of h z of None \<Rightarrow> 0 | Some (e, r) \<Rightarrow> en_hash e)"

definition buckets_rep :: "'v handles \<Rightarrow> 32 word \<Rightarrow> nat list \<Rightarrow> nat list list \<Rightarrow> bool" where
  "buckets_rep h len l bs \<longleftrightarrow> 0 < len \<and> length l = unat len \<and> length bs = unat len \<and>
     (\<forall>i<length bs. chain (next_hash_of h) (l ! i) (bs ! i) \<and> distinct (bs ! i) \<and> (\<forall>z\<in>set (bs ! i). bucket_of (hash_of h z) len = i))"

definition htable_rep :: "'v handles \<Rightarrow> HandleTable \<Rightarrow> nat list list \<Rightarrow> bool" where
  "htable_rep h t bs \<longleftrightarrow> buckets_rep h (ht_length t) (ht_list t) bs \<and> unat (ht_elems t) = length (concat bs)"

lemma bucket_of_less: "0 < len \<Longrightarrow> bucket_of hash len < unat len"
proof -
  assume "0 < len"
  have "unat (hash AND (len - 1)) \<le> unat (len - 1)" using word_and_le1 [of hash "len - 1"] word_le_nat_alt by blast
  also have "\<dots> = unat len - 1" using \<open>0 < len\<close> by (intro unat_minus_one) auto
  finally show ?thesis using \<open>0 < len\<close> by (simp add: bucket_of_def word_less_nat_alt)
qed

lemma in_concat: "z \<in> set (concat bs) \<longleftrightarrow> (\<exists>j<length bs. z \<in> set (bs ! j))"
  unfolding set_concat UN_iff by (metis in_set_conv_nth)

lemma distinct_buckets:
  "(\<And>i. i < length bs \<Longrightarrow> distinct (bs ! i)) \<Longrightarrow> (\<And>i z. i < length bs \<Longrightarrow> z \<in> set (bs ! i) \<Longrightarrow> f z = k + i) \<Longrightarrow> distinct (concat bs)"
proof (induction bs arbitrary: k)
  case (Cons b bs)
  have "f z = Suc k + i" if "i < length bs" "z \<in> set (bs ! i)" for i z using Cons.prems(2) [of "Suc i" z] that by simp
  moreover have "distinct (bs ! i)" if "i < length bs" for i using Cons.prems(1) [of "Suc i"] that by simp
  ultimately have d: "distinct (concat bs)" using Cons.IH by blast
  have "z \<notin> set (concat bs)" if "z \<in> set b" for z
  proof
    assume "z \<in> set (concat bs)"
    then obtain i where "i < length bs" "z \<in> set (bs ! i)" unfolding in_concat by blast
    then show False using Cons.prems(2) [of "Suc i" z] Cons.prems(2) [of 0 z] that by simp
  qed
  then show ?case using d Cons.prems(1) [of 0] by auto
qed simp

lemma buckets_distinct: "buckets_rep h len l bs \<Longrightarrow> distinct (concat bs)"
  by (rule distinct_buckets [where f = "\<lambda>z. bucket_of (hash_of h z) len" and k = 0]) (simp_all add: buckets_rep_def)

lemma matches_hash: "matches h key hash z \<Longrightarrow> hash_of h z = hash"
  by (auto simp: matches_def hash_of_def)

lemma hash_of_cong: "data_of h' = data_of h \<Longrightarrow> hash_of h' = hash_of h"
  by (simp add: hash_of_def fun_eq_iff)

lemma matches_cong: "data_of h' = data_of h \<Longrightarrow> matches h' = matches h"
  by (simp add: matches_def fun_eq_iff)

lemma table_rep_cong:
  "next_hash_of h' = next_hash_of h \<Longrightarrow> data_of h' = data_of h \<Longrightarrow> htable_rep h' t bs \<longleftrightarrow> htable_rep h t bs"
  using hash_of_cong [of h' h] by (simp add: htable_rep_def buckets_rep_def)

lemma concat_update:
  assumes "i < length bs"
  shows "mset (concat (bs[i := ys])) + mset (bs ! i) = mset (concat bs) + mset ys"
  using assms
proof (induction bs arbitrary: i)
  case (Cons b bs)
  show ?case
  proof (cases i)
    case (Suc j)
    then have "mset (concat (bs[j := ys])) + mset (bs ! j) = mset (concat bs) + mset ys" using Cons by simp
    then show ?thesis unfolding Suc by (simp only: list_update_code(3) concat.simps mset_append nth_Cons_Suc add.assoc)
  qed (simp add: ac_simps)
qed simp

text \<open>Where a key is in the table: behind \<open>us\<close> in its bucket, if \<open>vs\<close> is not empty.\<close>

definition found_at :: "'v handles \<Rightarrow> HandleTable \<Rightarrow> nat list list \<Rightarrow> byte list \<Rightarrow> 32 word \<Rightarrow> nat \<Rightarrow> nat list \<Rightarrow> nat list \<Rightarrow> bool" where
  "found_at h t bs key hash i us vs \<longleftrightarrow> i = bucket_of hash (ht_length t) \<and> i < length bs \<and> bs ! i = us @ vs \<and>
     (\<forall>z\<in>set us. \<not> matches h key hash z) \<and> (vs \<noteq> [] \<longrightarrow> matches h key hash (hd vs))"

lemma FindPointer_found:
  assumes "htable_rep h t bs" "no_temporary h" "lru_head \<notin> set (concat bs)"
  obtains us vs where "found_at h t bs key hash (bucket_of hash (ht_length t)) us vs"
    "FindPointer h t key hash = Some (slot_after (InBucket (bucket_of hash (ht_length t))) us)"
    "load_slot h (ht_list t) (slot_after (InBucket (bucket_of hash (ht_length t))) us) = Some (if vs = [] then NULL else hd vs)"
proof -
  let ?i = "bucket_of hash (ht_length t)"
  let ?us = "takeWhile (\<lambda>z. \<not> matches h key hash z) (bs ! ?i)" and ?vs = "dropWhile (\<lambda>z. \<not> matches h key hash z) (bs ! ?i)"
  have r: "0 < ht_length t" "length (ht_list t) = length bs" "length bs = unat (ht_length t)"
    "\<And>i. i < length bs \<Longrightarrow> chain (next_hash_of h) (ht_list t ! i) (bs ! i)"
    using assms(1) by (simp_all add: htable_rep_def buckets_rep_def)
  have i: "?i < length bs" using bucket_of_less [OF r(1)] r(3) by simp
  have "lru_head \<notin> set (bs ! ?i)" using assms(3) i by auto
  then have f: "FindPointer h t key hash = Some (slot_after (InBucket ?i) ?us)"
    using find_slot_chain [OF r(4) [OF i] _ assms(2), of "ht_list t" "InBucket ?i" key hash] i r(2)
    by (simp add: FindPointer_def load_slot_def)
  have "load_slot h (ht_list t) (slot_after (InBucket ?i) ?us) = Some (if ?vs = [] then NULL else hd ?vs)"
    using load_slot_after [of ?i "ht_list t" h ?us ?vs] i r(2) r(4) [OF i] by simp
  moreover have "found_at h t bs key hash ?i ?us ?vs"
    using i hd_dropWhile [of "\<lambda>z. \<not> matches h key hash z" "bs ! ?i"] by (auto simp: found_at_def dest: set_takeWhileD)
  ultimately show thesis using that f by blast
qed

lemma found_bucket:
  assumes "htable_rep h t bs" "found_at h t bs key hash i us vs"
  shows "i < length bs" "bs ! i = us @ vs" "distinct (us @ vs)" "chain (next_hash_of h) (ht_list t ! i) (us @ vs)"
    "\<forall>z\<in>set (us @ vs). bucket_of (hash_of h z) (ht_length t) = i" "set (us @ vs) \<subseteq> set (concat bs)"
proof -
  show i: "i < length bs" "bs ! i = us @ vs" using assms(2) unfolding found_at_def by blast+
  then show "distinct (us @ vs)" "chain (next_hash_of h) (ht_list t ! i) (us @ vs)"
    "\<forall>z\<in>set (us @ vs). bucket_of (hash_of h z) (ht_length t) = i"
    using assms(1) unfolding htable_rep_def buckets_rep_def by metis+
  have "bs ! i \<in> set bs" using i(1) by simp
  then show "set (us @ vs) \<subseteq> set (concat bs)" using i(2) by auto
qed

text \<open>When handles in the table have different keys, a match is what the bucket search finds.\<close>

lemma found_unique:
  assumes "htable_rep h t bs" "found_at h t bs key hash i us vs" "z \<in> set (concat bs)" "matches h key hash z"
    and "\<And>y. y \<in> set (concat bs) \<Longrightarrow> matches h key hash y \<Longrightarrow> y = z"
  shows "vs \<noteq> [] \<and> hd vs = z"
proof -
  obtain j where j: "j < length bs" "z \<in> set (bs ! j)" using assms(3) unfolding in_concat by blast
  then have "bucket_of (hash_of h z) (ht_length t) = j" using assms(1) by (simp add: htable_rep_def buckets_rep_def)
  then have "j = i" using assms(2) matches_hash [OF assms(4)] by (simp add: found_at_def)
  then have "z \<in> set us \<or> z \<in> set vs" using j(2) assms(2) by (auto simp: found_at_def)
  then have "vs \<noteq> []" using assms(2,4) by (auto simp: found_at_def)
  moreover have "hd vs \<in> set (concat bs)" using found_bucket(6) [OF assms(1,2)] \<open>vs \<noteq> []\<close>
    by (metis UnCI hd_in_set set_append subsetD)
  ultimately show ?thesis using assms(2,5) by (auto simp: found_at_def)
qed

lemma found_none:
  assumes "found_at h t bs key hash i us []" "htable_rep h t bs" "z \<in> set (concat bs)"
  shows "\<not> matches h key hash z"
proof
  assume m: "matches h key hash z"
  obtain j where j: "j < length bs" "z \<in> set (bs ! j)" using assms(3) unfolding in_concat by blast
  then have "bucket_of (hash_of h z) (ht_length t) = j" using assms(2) by (simp add: htable_rep_def buckets_rep_def)
  then have "j = i" using assms(1) matches_hash [OF m] by (simp add: found_at_def)
  then show False using j(2) assms(1) m by (auto simp: found_at_def)
qed

text \<open>Putting \<open>ws\<close> in place of the rest of one chain.\<close>

lemma buckets_store:
  assumes "buckets_rep h len l bs" "i < length bs" "bs ! i = us @ vs" "chain (next_hash_of h) q ws"
    and "distinct (us @ ws)" "\<forall>z\<in>set ws. bucket_of (hash_of h z) len = i"
  shows "\<exists>h' l'. store_slot (slot_after (InBucket i) us) q h l = Some (h', l') \<and> buckets_rep h' len l' (bs[i := us @ ws]) \<and>
    next_of h' = next_of h \<and> prev_of h' = prev_of h \<and> data_of h' = data_of h"
proof -
  have r: "0 < len" "length l = unat len" "length bs = unat len"
    "\<And>i. i < length bs \<Longrightarrow> chain (next_hash_of h) (l ! i) (bs ! i)" "\<And>i. i < length bs \<Longrightarrow> distinct (bs ! i)"
    "\<And>i z. i < length bs \<Longrightarrow> z \<in> set (bs ! i) \<Longrightarrow> bucket_of (hash_of h z) len = i"
    using assms(1) by (simp_all add: buckets_rep_def)
  have last: "us = [] \<or> last us \<notin> set ws"
  proof (cases "us = []")
    case False
    then have "last us \<in> set us" by simp
    then show ?thesis using assms(5) by auto
  qed simp
  have i: "i < length l" using assms(2) r(2,3) by simp
  have c: "chain (next_hash_of h) (l ! i) (us @ vs)" using r(4) [OF assms(2)] assms(3) by simp
  have "distinct us" using assms(5) by simp
  then obtain h' l' where s: "store_slot (slot_after (InBucket i) us) q h l = Some (h', l')"
    "chain (next_hash_of h') (l' ! i) (us @ ws)" "length l' = length l" "\<And>j. j \<noteq> i \<Longrightarrow> l' ! j = l ! j"
    "\<And>z. z \<notin> set us \<Longrightarrow> next_hash_of h' z = next_hash_of h z" "next_of h' = next_of h" "prev_of h' = prev_of h" "data_of h' = data_of h"
    using store_slot_after [OF i c _ last assms(4)] by blast
  have other: "chain (next_hash_of h') (l' ! j) (bs ! j)" if "j < length bs" "j \<noteq> i" for j
  proof -
    have "z \<notin> set us" if z: "z \<in> set (bs ! j)" for z
    proof
      assume "z \<in> set us"
      then have "z \<in> set (bs ! i)" using assms(3) by simp
      then show False using r(6) [OF assms(2)] r(6) [OF \<open>j < length bs\<close> z] \<open>j \<noteq> i\<close> by simp
    qed
    then have "chain (next_hash_of h') (l ! j) (bs ! j)" using r(4) [OF that(1)] s(5) chain_cong [of "bs ! j" "next_hash_of h'" "next_hash_of h"] by blast
    then show ?thesis using s(4) [OF that(2)] by simp
  qed
  have "\<forall>z\<in>set us. bucket_of (hash_of h z) len = i" using r(6) [OF assms(2)] assms(3) by simp
  then have "\<forall>z\<in>set (us @ ws). bucket_of (hash_of h z) len = i" using assms(6) by auto
  then have "buckets_rep h' len l' (bs[i := us @ ws])"
    unfolding buckets_rep_def hash_of_cong [OF s(8)] using r(1-3,5,6) s(2,3) assms(2,5) other by (auto simp: nth_list_update)
  then show ?thesis using s by blast
qed

lemma ht_Lookup_rep:
  assumes "htable_rep h t bs" "no_temporary h" "lru_head \<notin> set (concat bs)"
    and "\<And>y z. y \<in> set (concat bs) \<Longrightarrow> z \<in> set (concat bs) \<Longrightarrow> matches h key hash y \<Longrightarrow> matches h key hash z \<Longrightarrow> y = z"
  shows "ht_Lookup h t key hash =
    Some (case find (matches h key hash) (concat bs) of None \<Rightarrow> NULL | Some z \<Rightarrow> z)"
proof -
  obtain us vs where f: "found_at h t bs key hash (bucket_of hash (ht_length t)) us vs"
    "FindPointer h t key hash = Some (slot_after (InBucket (bucket_of hash (ht_length t))) us)"
    "load_slot h (ht_list t) (slot_after (InBucket (bucket_of hash (ht_length t))) us) = Some (if vs = [] then NULL else hd vs)"
    by (rule FindPointer_found [OF assms(1-3)])
  have "(if vs = [] then NULL else hd vs) = (case find (matches h key hash) (concat bs) of None \<Rightarrow> NULL | Some z \<Rightarrow> z)"
  proof (cases "find (matches h key hash) (concat bs)")
    case None
    then have "\<not> matches h key hash z" if "z \<in> set (concat bs)" for z using that by (simp only: find_None_iff) blast
    then have "vs = []" using f(1) found_bucket(6) [OF assms(1) f(1)] unfolding found_at_def by (cases vs) auto
    then show ?thesis using None by simp
  next
    case (Some z)
    then obtain i where "i < length (concat bs)" "matches h key hash (concat bs ! i)" "z = concat bs ! i"
      unfolding find_Some_iff by blast
    then have z: "z \<in> set (concat bs)" "matches h key hash z" by (metis nth_mem)+
    have "vs \<noteq> [] \<and> hd vs = z" using found_unique [OF assms(1) f(1) z] assms(4) [OF _ z(1) _ z(2)] by blast
    then show ?thesis using Some by simp
  qed
  then show ?thesis using f(2,3) by (simp add: ht_Lookup_def)
qed

lemma ht_Remove_rep:
  assumes "htable_rep h t bs" "no_temporary h" "lru_head \<notin> set (concat bs)" "a \<in> set (concat bs)" "matches h key hash a"
    and "\<And>y. y \<in> set (concat bs) \<Longrightarrow> matches h key hash y \<Longrightarrow> y = a"
  shows "\<exists>h' t' bs'. ht_Remove key hash h t = Some (a, h', t') \<and> htable_rep h' t' bs' \<and> mset (concat bs) = add_mset a (mset (concat bs')) \<and>
    next_of h' = next_of h \<and> prev_of h' = prev_of h \<and> data_of h' = data_of h"
proof -
  let ?i = "bucket_of hash (ht_length t)"
  obtain us vs where f: "found_at h t bs key hash ?i us vs"
    "FindPointer h t key hash = Some (slot_after (InBucket ?i) us)"
    "load_slot h (ht_list t) (slot_after (InBucket ?i) us) = Some (if vs = [] then NULL else hd vs)"
    by (rule FindPointer_found [OF assms(1-3)])
  have vs: "vs \<noteq> []" "hd vs = a" using found_unique [OF assms(1) f(1) assms(4,5,6)] by blast+
  then obtain ws where ws: "vs = a # ws" by (cases vs) auto
  note b = found_bucket [OF assms(1) f(1)]
  obtain q where q: "next_hash_of h a = Some q" "chain (next_hash_of h) q ws" using chain_rest b(4) ws by blast
  have a: "a \<noteq> NULL" using chain_mem [OF b(4), of a] ws by simp
  have r: "buckets_rep h (ht_length t) (ht_list t) bs" using assms(1) by (simp add: htable_rep_def)
  obtain h' l' where s: "store_slot (slot_after (InBucket ?i) us) q h (ht_list t) = Some (h', l')"
    "buckets_rep h' (ht_length t) l' (bs[?i := us @ ws])" "next_of h' = next_of h" "prev_of h' = prev_of h" "data_of h' = data_of h"
    using buckets_store [OF r b(1,2) q(2)] b(3,5) ws by auto
  have m: "mset (concat bs) = add_mset a (mset (concat (bs[?i := us @ ws])))"
    using concat_update [OF b(1), of "us @ ws"] b(2) ws by simp
  then have "length (concat bs) = Suc (length (concat (bs[?i := us @ ws])))" by (metis size_mset size_add_mset)
  then have n: "unat (ht_elems t) = Suc (length (concat (bs[?i := us @ ws])))" using assms(1) by (simp only: htable_rep_def)
  then have "ht_elems t \<noteq> 0" by auto
  then have "unat (ht_elems t - 1) = length (concat (bs[?i := us @ ws]))" using n unat_minus_one [of "ht_elems t"] by (metis diff_Suc_1)
  then have "htable_rep h' (t\<lparr>ht_list := l', ht_elems := ht_elems t - 1\<rparr>) (bs[?i := us @ ws])"
    using s(2) by (simp add: htable_rep_def)
  moreover have "ht_Remove key hash h t = Some (a, h', t\<lparr>ht_list := l', ht_elems := ht_elems t - 1\<rparr>)"
    using f(2,3) vs ws a q(1) s(1) by (simp add: ht_Remove_def)
  ultimately show ?thesis using m s(3-5) by blast
qed

lemma ht_Remove_none:
  assumes "htable_rep h t bs" "no_temporary h" "lru_head \<notin> set (concat bs)" "\<And>y. y \<in> set (concat bs) \<Longrightarrow> \<not> matches h key hash y"
  shows "ht_Remove key hash h t = Some (NULL, h, t)"
proof -
  let ?i = "bucket_of hash (ht_length t)"
  obtain us vs where f: "found_at h t bs key hash ?i us vs"
    "FindPointer h t key hash = Some (slot_after (InBucket ?i) us)"
    "load_slot h (ht_list t) (slot_after (InBucket ?i) us) = Some (if vs = [] then NULL else hd vs)"
    by (rule FindPointer_found [OF assms(1-3)])
  have "vs = []" using f(1) found_bucket(6) [OF assms(1) f(1)] assms(4) unfolding found_at_def by (cases vs) auto
  then show ?thesis using f(2,3) by (simp add: ht_Remove_def)
qed

section \<open>Resizing\<close>

lemma new_length_ok:
  assumes "unat elems \<le> 2 ^ 31" "n = 2 ^ k" "k \<le> 31"
  shows "\<exists>j. new_length elems n = Some (2 ^ j) \<and> k \<le> j \<and> j \<le> 31"
  using assms(2,3)
proof (induction "31 - k" arbitrary: k n)
  case 0
  then have "k = 31" by simp
  then have "\<not> n < elems" using assms(1) 0 by (simp add: word_less_nat_alt)
  then show ?case using 0 by (subst new_length.simps) (auto intro: exI [of _ 31])
next
  case (Suc d)
  show ?case
  proof (cases "n < elems")
    case True
    have "\<exists>j. new_length elems (n * 2) = Some (2 ^ j) \<and> Suc k \<le> j \<and> j \<le> 31"
      using Suc.hyps(1) [of "Suc k" "n * 2"] Suc.hyps(2) Suc.prems by simp
    then show ?thesis using True by (subst new_length.simps) auto
  next
    case False
    then show ?thesis using Suc.prems by (subst new_length.simps) auto
  qed
qed

text \<open>Moving handles to the front of their new chains.\<close>

definition put :: "'v handles \<Rightarrow> 32 word \<Rightarrow> nat list list \<Rightarrow> nat \<Rightarrow> nat list list" where
  "put h len bs z = (let i = bucket_of (hash_of h z) len in bs[i := z # bs ! i])"

lemma mset_put:
  assumes "0 < len" "length bs = unat len"
  shows "length (put h len bs z) = unat len" "mset (concat (put h len bs z)) = add_mset z (mset (concat bs))"
proof -
  have i: "bucket_of (hash_of h z) len < length bs" using bucket_of_less [OF assms(1)] assms(2) by simp
  show "length (put h len bs z) = unat len" using assms(2) by (simp add: put_def Let_def)
  show "mset (concat (put h len bs z)) = add_mset z (mset (concat bs))"
    using concat_update [OF i, of "z # bs ! bucket_of (hash_of h z) len"] by (simp add: put_def Let_def)
qed

lemma move_one:
  assumes "buckets_rep h len l bs" "z \<notin> set (concat bs)" "h z = Some e" "z \<noteq> NULL"
  shows "\<exists>first h1 h' l'. load_slot h l (InBucket (bucket_of (lh_hash e) len)) = Some first \<and>
    set_handle (\<lambda>e. e\<lparr>lh_next_hash := first\<rparr>) z h = Some h1 \<and>
    store_slot (InBucket (bucket_of (lh_hash e) len)) z h1 l = Some (h', l') \<and> buckets_rep h' len l' (put h len bs z) \<and>
    next_of h' = next_of h \<and> prev_of h' = prev_of h \<and> data_of h' = data_of h \<and>
    (\<forall>y. y \<noteq> z \<longrightarrow> next_hash_of h' y = next_hash_of h y)"
proof -
  let ?i = "bucket_of (lh_hash e) len"
  have hash: "hash_of h z = lh_hash e" by (simp add: hash_of_def data_of_def assms(3) entry_of_handle_def)
  have r: "0 < len" "length l = unat len" "length bs = unat len"
    "\<And>i. i < length bs \<Longrightarrow> chain (next_hash_of h) (l ! i) (bs ! i)" "\<And>i. i < length bs \<Longrightarrow> distinct (bs ! i)"
    "\<And>i z. i < length bs \<Longrightarrow> z \<in> set (bs ! i) \<Longrightarrow> bucket_of (hash_of h z) len = i"
    using assms(1) by (simp_all add: buckets_rep_def)
  have i: "?i < length bs" using bucket_of_less [OF r(1)] r(3) by simp
  obtain h1 where h1: "set_handle (\<lambda>e. e\<lparr>lh_next_hash := l ! ?i\<rparr>) z h = Some h1" "next_of h1 = next_of h"
    "prev_of h1 = prev_of h" "next_hash_of h1 = (next_hash_of h)(z \<mapsto> l ! ?i)" "data_of h1 = data_of h"
    using set_next_hash [of h z "l ! ?i"] assms(3) by auto
  have out: "z \<notin> set (bs ! j)" if "j < length bs" for j using assms(2) that unfolding in_concat by blast
  have kept: "chain (next_hash_of h1) p (bs ! j) \<longleftrightarrow> chain (next_hash_of h) p (bs ! j)" if "j < length bs" for j p
    using out [OF that] by (intro chain_cong) (auto simp: h1(4))
  have "buckets_rep h1 len (l[?i := z]) (put h len bs z)"
    unfolding buckets_rep_def hash_of_cong [OF h1(5)] put_def Let_def hash
    using r i out kept assms(4) by (auto simp: nth_list_update hash h1(4) simp del: fun_upd_apply) (simp_all add: h1(4))
  moreover have "load_slot h l (InBucket ?i) = Some (l ! ?i)" "store_slot (InBucket ?i) z h1 l = Some (h1, l[?i := z])"
    using i r(2,3) by (simp_all add: load_slot_def store_slot_def)
  ultimately show ?thesis using h1 by auto
qed

lemma move_chain_rep:
  assumes "buckets_rep h len l bs" "chain (next_hash_of h) p zs" "distinct zs" "set zs \<inter> set (concat bs) = {}"
  shows "\<exists>h' l'. move_chain len p cnt h l = Some (h', l', cnt + of_nat (length zs)) \<and>
    (\<exists>bs'. buckets_rep h' len l' bs' \<and> mset (concat bs') = mset zs + mset (concat bs)) \<and>
    next_of h' = next_of h \<and> prev_of h' = prev_of h \<and> data_of h' = data_of h \<and>
    (\<forall>y. y \<notin> set zs \<longrightarrow> next_hash_of h' y = next_hash_of h y)"
  using assms
proof (induction zs arbitrary: p cnt h l bs)
  case Nil
  then show ?case by (subst move_chain.simps) auto
next
  case (Cons z zs)
  obtain q where q: "p = z" "z \<noteq> NULL" "next_hash_of h z = Some q" "chain (next_hash_of h) q zs" using Cons.prems(2) by auto
  obtain e where e: "h z = Some e" "lh_next_hash e = q" using q(3) by (auto simp: next_hash_of_def)
  have z: "z \<notin> set (concat bs)" using Cons.prems(4) by auto
  obtain first h1 h2 l2 where m: "load_slot h l (InBucket (bucket_of (lh_hash e) len)) = Some first"
    "set_handle (\<lambda>e. e\<lparr>lh_next_hash := first\<rparr>) z h = Some h1"
    "store_slot (InBucket (bucket_of (lh_hash e) len)) z h1 l = Some (h2, l2)" "buckets_rep h2 len l2 (put h len bs z)"
    "next_of h2 = next_of h" "prev_of h2 = prev_of h" "data_of h2 = data_of h" "\<And>y. y \<noteq> z \<Longrightarrow> next_hash_of h2 y = next_hash_of h y"
    using move_one [OF Cons.prems(1) z e(1) q(2)] by blast
  have step: "move_chain len p cnt h l = move_chain len q (cnt + 1) h2 l2"
    using q(1,2) e m(1-3) by (subst move_chain.simps) (simp add: Let_def)
  have len: "0 < len" "length bs = unat len" using Cons.prems(1) by (simp_all add: buckets_rep_def)
  have ms: "mset (concat (put h len bs z)) = add_mset z (mset (concat bs))" by (rule mset_put(2) [OF len])
  have "y \<in> set zs \<Longrightarrow> next_hash_of h2 y = next_hash_of h y" for y using m(8) [of y] Cons.prems(3) by auto
  then have c: "chain (next_hash_of h2) q zs" using q(4) chain_cong [of zs "next_hash_of h2" "next_hash_of h" q] by blast
  have "set (concat (put h len bs z)) = insert z (set (concat bs))" using ms by (metis set_mset_add_mset_insert set_mset_mset)
  then have d: "set zs \<inter> set (concat (put h len bs z)) = {}" using Cons.prems(3,4) by auto
  have "distinct zs" using Cons.prems(3) by simp
  from Cons.IH [OF m(4) c this d, of "cnt + 1"] obtain h' l' bs' where
    n: "move_chain len q (cnt + 1) h2 l2 = Some (h', l', cnt + 1 + of_nat (length zs))" "buckets_rep h' len l' bs'"
      "mset (concat bs') = mset zs + mset (concat (put h len bs z))" "next_of h' = next_of h2" "prev_of h' = prev_of h2" "data_of h' = data_of h2"
      "\<And>y. y \<notin> set zs \<Longrightarrow> next_hash_of h' y = next_hash_of h2 y" by blast
  have "mset (concat bs') = mset (z # zs) + mset (concat bs)" unfolding n(3) ms by simp
  moreover have "move_chain len p cnt h l = Some (h', l', cnt + of_nat (length (z # zs)))" unfolding step n(1) by (simp add: add.assoc)
  moreover have "\<forall>y. y \<notin> set (z # zs) \<longrightarrow> next_hash_of h' y = next_hash_of h y" using n(7) m(8) by simp
  ultimately show ?case using n(2,4-6) m(5-7) by (intro exI [of _ h'] exI [of _ l'] conjI exI [of _ bs']) simp_all
qed

lemma move_chains_rep:
  assumes "buckets_rep h len l bs" "length ps = length cs" "\<And>i. i < length cs \<Longrightarrow> chain (next_hash_of h) (ps ! i) (cs ! i)"
    and "distinct (concat cs)" "set (concat cs) \<inter> set (concat bs) = {}"
  shows "\<exists>h' l'. move_chains len ps cnt h l = Some (h', l', cnt + of_nat (length (concat cs))) \<and>
    (\<exists>bs'. buckets_rep h' len l' bs' \<and> mset (concat bs') = mset (concat cs) + mset (concat bs)) \<and>
    next_of h' = next_of h \<and> prev_of h' = prev_of h \<and> data_of h' = data_of h"
  using assms
proof (induction cs arbitrary: ps cnt h l bs)
  case Nil
  then show ?case by auto
next
  case (Cons c cs)
  obtain p ps' where ps: "ps = p # ps'" using Cons.prems(2) by (cases ps) auto
  have c: "chain (next_hash_of h) p c" using Cons.prems(3) [of 0] ps by simp
  have d: "distinct c" "set c \<inter> set (concat bs) = {}" "distinct (concat cs)" "set c \<inter> set (concat cs) = {}"
    "set (concat cs) \<inter> set (concat bs) = {}" using Cons.prems(4,5) by auto
  obtain h2 l2 bs2 where m: "move_chain len p cnt h l = Some (h2, l2, cnt + of_nat (length c))" "buckets_rep h2 len l2 bs2"
    "mset (concat bs2) = mset c + mset (concat bs)" "next_of h2 = next_of h" "prev_of h2 = prev_of h" "data_of h2 = data_of h"
    "\<And>y. y \<notin> set c \<Longrightarrow> next_hash_of h2 y = next_hash_of h y"
    using move_chain_rep [OF Cons.prems(1) c d(1,2), of cnt] by blast
  have rest: "chain (next_hash_of h2) (ps' ! i) (cs ! i)" if "i < length cs" for i
  proof -
    have "cs ! i \<in> set cs" using that by simp
    then have "y \<notin> set c" if "y \<in> set (cs ! i)" for y using d(4) that by auto
    then have "next_hash_of h2 y = next_hash_of h y" if "y \<in> set (cs ! i)" for y using m(7) that by blast
    then show ?thesis using chain_cong [of "cs ! i" "next_hash_of h2" "next_hash_of h"] Cons.prems(3) [of "Suc i"] that ps by simp
  qed
  have "set (concat bs2) = set c \<union> set (concat bs)" using m(3) by (metis set_mset_mset set_mset_union)
  then have "set (concat cs) \<inter> set (concat bs2) = {}" using d(4,5) by auto
  from Cons.IH [OF m(2) _ rest d(3) this, of "cnt + of_nat (length c)"] Cons.prems(2) ps obtain h' l' bs' where
    n: "move_chains len ps' (cnt + of_nat (length c)) h2 l2 = Some (h', l', cnt + of_nat (length c) + of_nat (length (concat cs)))"
      "buckets_rep h' len l' bs'" "mset (concat bs') = mset (concat cs) + mset (concat bs2)" "next_of h' = next_of h2"
      "prev_of h' = prev_of h2" "data_of h' = data_of h2" by auto
  have "mset (concat bs') = mset (concat (c # cs)) + mset (concat bs)" unfolding n(3) m(3) by (simp add: ac_simps)
  moreover have "move_chains len ps cnt h l = Some (h', l', cnt + of_nat (length (concat (c # cs))))"
    unfolding ps by (simp add: m(1) n(1) add.assoc)
  ultimately show ?case using n(2,4-6) m(4-6) by (intro exI [of _ h'] exI [of _ l'] conjI exI [of _ bs']) simp_all
qed

lemma ht_Resize_rep:
  assumes "length (ht_list t) = length bs" "\<And>i. i < length bs \<Longrightarrow> chain (next_hash_of h) (ht_list t ! i) (bs ! i)"
    and "distinct (concat bs)" "unat (ht_elems t) = length (concat bs)" "length (concat bs) \<le> 2 ^ 31"
  shows "\<exists>h' t' bs'. ht_Resize h t = Some (h', t') \<and> htable_rep h' t' bs' \<and> mset (concat bs') = mset (concat bs) \<and>
    next_of h' = next_of h \<and> prev_of h' = prev_of h \<and> data_of h' = data_of h"
proof -
  obtain j where j: "new_length (ht_elems t) 4 = Some (2 ^ j)" "j \<le> 31"
    using new_length_ok [of "ht_elems t" 4 2] assms(4,5) by auto
  let ?len = "2 ^ j :: 32 word" and ?empty = "replicate (unat (2 ^ j :: 32 word)) []" and ?nulls = "replicate (unat (2 ^ j :: 32 word)) NULL"
  have pos: "0 < ?len" using j(2) by (simp add: word_gt_0)
  have "buckets_rep h ?len ?nulls ?empty" using pos by (simp add: buckets_rep_def)
  moreover have none: "concat ?empty = []" by simp
  ultimately obtain h' l' bs' where m: "move_chains ?len (ht_list t) 0 h ?nulls = Some (h', l', 0 + of_nat (length (concat bs)))"
    "buckets_rep h' ?len l' bs'" "mset (concat bs') = mset (concat bs) + mset (concat ?empty)" "next_of h' = next_of h" "prev_of h' = prev_of h"
    "data_of h' = data_of h"
    using move_chains_rep [of h ?len ?nulls ?empty "ht_list t" bs 0] assms(1-3) by auto
  have count: "ht_elems t = of_nat (length (concat bs))" using assms(4) [symmetric] by simp
  have "length (concat bs') = length (concat bs)" using m(3) none by (metis add.right_neutral mset.simps(1) size_mset)
  then have "htable_rep h' (t\<lparr>ht_length := ?len, ht_list := l'\<rparr>) bs'" using m(2) assms(4) by (simp add: htable_rep_def)
  moreover have "ht_Resize h t = Some (h', t\<lparr>ht_length := ?len, ht_list := l'\<rparr>)"
    using j(1) m(1) count by (simp add: ht_Resize_def)
  moreover have "mset (concat bs') = mset (concat bs)" using m(3) none by simp
  ultimately show ?thesis using m(4-6) by blast
qed

lemma buckets_frame:
  assumes "buckets_rep h len l bs" "\<And>z. z \<in> set (concat bs) \<Longrightarrow> next_hash_of h' z = next_hash_of h z \<and> hash_of h' z = hash_of h z"
  shows "buckets_rep h' len l bs"
proof -
  have same: "next_hash_of h' z = next_hash_of h z \<and> hash_of h' z = hash_of h z" if "i < length bs" "z \<in> set (bs ! i)" for i z
    using assms(2) that unfolding in_concat by blast
  have "chain (next_hash_of h') (l ! i) (bs ! i)" if "i < length bs" for i
    using assms(1) that same [OF that] chain_cong [of "bs ! i" "next_hash_of h'" "next_hash_of h"] by (simp add: buckets_rep_def)
  then show ?thesis using assms(1) same unfolding buckets_rep_def by auto
qed

text \<open>The insertion of a handle replaces the one with the same key, or adds the handle and resizes.\<close>

lemma ht_Insert_rep:
  assumes "htable_rep h t bs" "no_temporary h" "lru_head \<notin> set (concat bs)" "a \<notin> set (concat bs)" "h a = Some e"
    and "a \<noteq> NULL" "a \<noteq> lru_head" "length (concat bs) < 2 ^ 31"
    and "\<And>y z. y \<in> set (concat bs) \<Longrightarrow> z \<in> set (concat bs) \<Longrightarrow> matches h (lh_key_data e) (lh_hash e) y \<Longrightarrow>
      matches h (lh_key_data e) (lh_hash e) z \<Longrightarrow> y = z"
  shows "\<exists>old h' t' bs'. ht_Insert a h t = Some (case old of None \<Rightarrow> NULL | Some z \<Rightarrow> z, h', t') \<and>
    old = find (matches h (lh_key_data e) (lh_hash e)) (concat bs) \<and> htable_rep h' t' bs' \<and>
    mset (concat bs') = add_mset a (case old of None \<Rightarrow> mset (concat bs) | Some z \<Rightarrow> mset (concat bs) - {#z#}) \<and>
    next_of h' = next_of h \<and> prev_of h' = prev_of h \<and> data_of h' = data_of h"
proof -
  let ?key = "lh_key_data e" and ?hash = "lh_hash e"
  let ?i = "bucket_of ?hash (ht_length t)" and ?m = "matches h ?key ?hash"
  obtain us vs where f: "found_at h t bs ?key ?hash ?i us vs" "FindPointer h t ?key ?hash = Some (slot_after (InBucket ?i) us)"
    "load_slot h (ht_list t) (slot_after (InBucket ?i) us) = Some (if vs = [] then NULL else hd vs)"
    by (rule FindPointer_found [OF assms(1-3)])
  note b = found_bucket [OF assms(1) f(1)]
  have vs_nn: "vs \<noteq> [] \<Longrightarrow> hd vs \<noteq> NULL" using chain_mem [OF b(4), of "hd vs"] by (cases vs) auto
  obtain q where q: "(if (if vs = [] then NULL else hd vs) = NULL then Some NULL else next_hash_of h (if vs = [] then NULL else hd vs)) = Some q"
    "chain (next_hash_of h) q (tl vs)"
  proof (cases vs)
    case Nil
    then show ?thesis using that [of NULL] by simp
  next
    case (Cons v ws)
    then obtain q where "next_hash_of h v = Some q" "chain (next_hash_of h) q ws" using chain_rest b(4) by blast
    then show ?thesis using that [of q] Cons vs_nn by simp
  qed
  obtain h1 where h1: "set_handle (\<lambda>e. e\<lparr>lh_next_hash := q\<rparr>) a h = Some h1" "next_of h1 = next_of h"
    "prev_of h1 = prev_of h" "next_hash_of h1 = (next_hash_of h)(a \<mapsto> q)" "data_of h1 = data_of h"
    using set_next_hash [of h a q] assms(5) by auto
  have r: "buckets_rep h (ht_length t) (ht_list t) bs" using assms(1) by (simp add: htable_rep_def)
  have r1: "buckets_rep h1 (ht_length t) (ht_list t) bs"
    by (rule buckets_frame [OF r]) (use assms(4) h1(4) hash_of_cong [OF h1(5)] in auto)
  have a_out: "a \<notin> set us" "a \<notin> set vs" using assms(4) b(6) by auto
  then have tl_out: "a \<notin> set (tl vs)" by (cases vs) auto
  have "chain (next_hash_of h1) q (tl vs)" using q(2) tl_out by (subst chain_cong [of _ _ "next_hash_of h"]) (auto simp: h1(4))
  then have c: "chain (next_hash_of h1) a (a # tl vs)" using assms(6) by (simp add: h1(4))
  have d: "distinct (us @ a # tl vs)" using b(3) a_out tl_out by (cases vs) auto
  have "hash_of h1 a = ?hash" by (simp add: hash_of_cong [OF h1(5)] hash_of_def data_of_def assms(5) entry_of_handle_def)
  then have bk: "\<forall>z\<in>set (a # tl vs). bucket_of (hash_of h1 z) (ht_length t) = ?i"
    using b(5) hash_of_cong [OF h1(5)] by (cases vs) auto
  obtain h2 l2 where s: "store_slot (slot_after (InBucket ?i) us) a h1 (ht_list t) = Some (h2, l2)"
    "buckets_rep h2 (ht_length t) l2 (bs[?i := us @ a # tl vs])" "next_of h2 = next_of h" "prev_of h2 = prev_of h" "data_of h2 = data_of h"
    using buckets_store [OF r1 b(1,2) c d bk] h1 by auto
  let ?bs = "bs[?i := us @ a # tl vs]"
  have m: "mset (concat ?bs) + mset (us @ vs) = mset (concat bs) + mset (us @ a # tl vs)" using concat_update [OF b(1)] b(2) by simp
  have key: "LRUHandle_key h a = Some ?key" by (rule LRUHandle_key_data [OF assms(2,5,7)])
  have start: "ht_Insert a h t =
      (let old = if vs = [] then NULL else hd vs; t = t\<lparr>ht_list := l2\<rparr> in
       if old = NULL
       then let t = t\<lparr>ht_elems := ht_elems t + 1\<rparr>
            in if ht_length t < ht_elems t then map_option (\<lambda>(h, t). (old, h, t)) (ht_Resize h2 t) else Some (old, h2, t)
       else Some (old, h2, t))"
    unfolding ht_Insert_def using assms(5) key f(2,3) q(1) h1(1) s(1) by (simp add: Let_def)
  show ?thesis
  proof (cases vs)
    case Nil
    have none: "find ?m (concat bs) = None" unfolding find_None_iff using found_none [OF f(1) [unfolded Nil] assms(1)] by blast
    have ms: "mset (concat ?bs) = add_mset a (mset (concat bs))" using m Nil by simp
    then have n: "length (concat ?bs) = Suc (length (concat bs))" by (metis size_mset size_add_mset)
    let ?t = "t\<lparr>ht_list := l2, ht_elems := ht_elems t + 1\<rparr>"
    have "unat (ht_elems t + 1) = Suc (unat (ht_elems t))"
      using assms(1,8) unfolding htable_rep_def unat_word_ariths(1) by simp
    then have el: "unat (ht_elems ?t) = length (concat ?bs)" using assms(1) n by (simp add: htable_rep_def)
    have rep2: "buckets_rep h2 (ht_length t) l2 ?bs" by (rule s(2))
    show ?thesis
    proof (cases "ht_length ?t < ht_elems ?t")
      case True
      have lists: "length (ht_list ?t) = length ?bs" "\<And>i. i < length ?bs \<Longrightarrow> chain (next_hash_of h2) (ht_list ?t ! i) (?bs ! i)"
        using rep2 by (simp_all add: buckets_rep_def del: list_update_append)
      have "length (concat ?bs) \<le> 2 ^ 31" using n assms(8) by simp
      then obtain h' t' bs' where "ht_Resize h2 ?t = Some (h', t')" "htable_rep h' t' bs'" "mset (concat bs') = mset (concat ?bs)"
        "next_of h' = next_of h2" "prev_of h' = prev_of h2" "data_of h' = data_of h2"
        using ht_Resize_rep [OF lists buckets_distinct [OF rep2] el] by blast
      moreover from this(1) have "ht_Insert a h t = Some (NULL, h', t')" using start Nil True by (simp add: Let_def)
      ultimately show ?thesis using none ms s(3-5) by (intro exI [of _ None] exI [of _ h'] exI [of _ t'] exI [of _ bs'] conjI) simp_all
    next
      case False
      then have "ht_Insert a h t = Some (NULL, h2, ?t)" using start Nil by (simp add: Let_def)
      moreover have "htable_rep h2 ?t ?bs" using rep2 el by (simp add: htable_rep_def)
      ultimately show ?thesis using none ms s(3-5) by (intro exI [of _ None] exI [of _ h2] exI [of _ ?t] exI [of _ ?bs] conjI) simp_all
    qed
  next
    case (Cons v ws)
    have v: "v \<in> set (concat bs)" "?m v" using b(6) f(1) Cons by (auto simp: found_at_def)
    have found: "find ?m (concat bs) = Some v"
    proof (cases "find ?m (concat bs)")
      case None
      then show ?thesis using v unfolding find_None_iff by blast
    next
      case (Some z)
      then obtain i where "i < length (concat bs)" "?m (concat bs ! i)" "z = concat bs ! i" unfolding find_Some_iff by blast
      then have "z \<in> set (concat bs)" "?m z" by (metis nth_mem)+
      then show ?thesis using Some assms(9) v by blast
    qed
    have ms: "mset (concat ?bs) = add_mset a (mset (concat bs) - {#v#})"
    proof -
      have "mset (concat bs) = add_mset v (mset (concat bs) - {#v#})" using v(1) by simp
      moreover have "add_mset v (mset (concat ?bs)) = add_mset a (mset (concat bs))" using m Cons by simp
      ultimately have "add_mset v (mset (concat ?bs)) = add_mset v (add_mset a (mset (concat bs) - {#v#}))" by (metis add_mset_commute)
      then show ?thesis by simp
    qed
    then have "length (concat ?bs) = length (concat bs)"
      using v(1) by (metis insert_DiffM set_mset_mset size_add_mset size_mset)
    then have "htable_rep h2 (t\<lparr>ht_list := l2\<rparr>) ?bs" using s(2) assms(1) by (simp add: htable_rep_def)
    moreover have "ht_Insert a h t = Some (v, h2, t\<lparr>ht_list := l2\<rparr>)" using start Cons vs_nn by (simp add: Let_def)
    ultimately show ?thesis using found ms s(3-5)
      by (intro exI [of _ "Some v"] exI [of _ h2] exI [of _ "t\<lparr>ht_list := l2\<rparr>"] exI [of _ ?bs] conjI) simp_all
  qed
qed

end
