(* ===== verification/Ldb_Cache_Spec.thy ===== *)
theory Ldb_Cache_Spec
  imports Ldb_Cache_Props
begin

text \<open>
  What one shard of the cache promises: a list of entries in the order of their last use, cut from its old end
  when the budget is exceeded, with entries kept alive by the handles that callers hold.
\<close>

section \<open>The specification\<close>

record 'v acache =
  ac_live :: "(nat \<times> 'v lru_entry) list"
  ac_order :: "nat list"
  ac_held :: "nat \<Rightarrow> nat"
  ac_deleted :: "(byte list \<times> 'v) list"

definition charges :: "(nat \<times> 'v lru_entry) list \<Rightarrow> 64 word" where
  "charges live = sum_list (map (\<lambda>x. en_charge (snd x)) live)"

definition has_key :: "(nat \<times> 'v lru_entry) list \<Rightarrow> byte list \<Rightarrow> 32 word \<Rightarrow> nat \<Rightarrow> bool" where
  "has_key live key hash a \<longleftrightarrow> (case map_of live a of None \<Rightarrow> False | Some e \<Rightarrow> en_hash e = hash \<and> en_key e = key)"

definition a_find :: "byte list \<Rightarrow> 32 word \<Rightarrow> 'v acache \<Rightarrow> nat option" where
  "a_find key hash A = find (has_key (ac_live A) key hash) (ac_order A)"

text \<open>An entry that is neither cached nor held goes, and its deleter is called.\<close>

definition a_forget :: "nat \<Rightarrow> 'v acache \<Rightarrow> 'v acache" where
  "a_forget a A =
     (if a \<in> set (ac_order A) \<or> 0 < ac_held A a then A
      else A\<lparr>ac_live := filter (\<lambda>x. fst x \<noteq> a) (ac_live A),
             ac_deleted := ac_deleted A @ (case map_of (ac_live A) a of None \<Rightarrow> [] | Some e \<Rightarrow> [(en_key e, en_value e)])\<rparr>)"

definition a_unlink :: "nat \<Rightarrow> 'v acache \<Rightarrow> 'v acache" where
  "a_unlink a A = a_forget a (A\<lparr>ac_order := remove1 a (ac_order A)\<rparr>)"

definition a_hold :: "nat \<Rightarrow> 'v acache \<Rightarrow> 'v acache" where
  "a_hold a A = A\<lparr>ac_held := (ac_held A)(a := Suc (ac_held A a))\<rparr>"

definition a_lookup :: "byte list \<Rightarrow> 32 word \<Rightarrow> 'v acache \<Rightarrow> nat option \<times> 'v acache" where
  "a_lookup key hash A =
     (case a_find key hash A of
        None \<Rightarrow> (None, A)
      | Some a \<Rightarrow> (Some a, a_hold a (A\<lparr>ac_order := remove1 a (ac_order A) @ [a]\<rparr>)))"

definition a_release :: "nat \<Rightarrow> 'v acache \<Rightarrow> 'v acache" where
  "a_release a A = a_forget a (A\<lparr>ac_held := (ac_held A)(a := ac_held A a - 1)\<rparr>)"

definition a_erase :: "byte list \<Rightarrow> 32 word \<Rightarrow> 'v acache \<Rightarrow> 'v acache" where
  "a_erase key hash A = (case a_find key hash A of None \<Rightarrow> A | Some a \<Rightarrow> a_unlink a A)"

fun a_evict :: "64 word \<Rightarrow> nat list \<Rightarrow> 'v acache \<Rightarrow> 'v acache" where
  "a_evict capacity [] A = A"
| "a_evict capacity (a # as) A = (if capacity < charges (ac_live A) then a_evict capacity as (a_unlink a A) else A)"

definition a_add :: "nat \<Rightarrow> 'v lru_entry \<Rightarrow> 'v acache \<Rightarrow> 'v acache" where
  "a_add a e A = a_hold a (A\<lparr>ac_live := (a, e) # ac_live A, ac_order := ac_order A @ [a]\<rparr>)"

definition a_insert :: "64 word \<Rightarrow> nat \<Rightarrow> 'v lru_entry \<Rightarrow> 'v acache \<Rightarrow> 'v acache" where
  "a_insert capacity a e A =
     (let B = a_add a e A;
          C = (case a_find (en_key e) (en_hash e) A of None \<Rightarrow> B | Some old \<Rightarrow> a_unlink old B)
      in a_evict capacity (ac_order C) C)"

section \<open>The representation\<close>

definition handle_rep :: "'v lru_entry option \<Rightarrow> nat \<Rightarrow> ('v lru_entry \<times> 32 word) option \<Rightarrow> bool" where
  "handle_rep m n d \<longleftrightarrow> (case m of None \<Rightarrow> d = None | Some e \<Rightarrow> \<exists>r. d = Some (e, r) \<and> unat r = n \<and> 0 < n)"

definition memory_rep :: "'v handles \<Rightarrow> (nat \<times> 'v lru_entry) list \<Rightarrow> (nat \<Rightarrow> nat) \<Rightarrow> bool" where
  "memory_rep h live refs \<longleftrightarrow> distinct (map fst live) \<and> data_of h NULL = None \<and> map_of live lru_head = None \<and>
     (\<forall>a. a \<noteq> lru_head \<longrightarrow> handle_rep (map_of live a) (refs a) (data_of h a))"

definition cache_rep ::
  "'v LRUCache \<Rightarrow> nat list \<Rightarrow> (nat \<times> 'v lru_entry) list \<Rightarrow> (nat \<Rightarrow> nat) \<Rightarrow> (byte list \<times> 'v) list \<Rightarrow> bool" where
  "cache_rep c order live refs deleted \<longleftrightarrow>
     ring (lc_handles c) order \<and> no_temporary (lc_handles c) \<and>
     (\<exists>bs. htable_rep (lc_handles c) (lc_table c) bs \<and> mset (concat bs) = mset order) \<and>
     memory_rep (lc_handles c) live refs \<and> (\<forall>a\<in>set order. map_of live a \<noteq> None) \<and>
     (\<forall>a\<in>set order. \<forall>b\<in>set order. \<forall>key hash. has_key live key hash a \<longrightarrow> has_key live key hash b \<longrightarrow> a = b) \<and>
     lc_usage c = charges live \<and> lc_deleted c = deleted \<and> 2 \<le> lc_fresh c \<and> (\<forall>a. lc_fresh c \<le> a \<longrightarrow> lc_handles c a = None)"

definition lru_rep :: "'v LRUCache \<Rightarrow> 'v acache \<Rightarrow> bool" where
  "lru_rep c A \<longleftrightarrow>
     cache_rep c (ac_order A) (ac_live A) (\<lambda>a. of_bool (a \<in> set (ac_order A)) + ac_held A a) (ac_deleted A) \<and>
     (\<forall>a. 0 < ac_held A a \<longrightarrow> map_of (ac_live A) a \<noteq> None)"

lemma cache_repD:
  assumes "cache_rep c order live refs deleted"
  shows "ring (lc_handles c) order" "no_temporary (lc_handles c)" "memory_rep (lc_handles c) live refs" "distinct order"
    "lru_head \<notin> set order" "\<And>a. a \<in> set order \<Longrightarrow> map_of live a \<noteq> None" "lc_usage c = charges live" "lc_deleted c = deleted"
  using assms by (simp_all add: cache_rep_def ring_def)

lemma memory_rep_data: "memory_rep h live refs \<Longrightarrow> data_of h' = data_of h \<Longrightarrow> memory_rep h' live refs"
  by (simp add: memory_rep_def)

lemma memory_live:
  assumes "memory_rep h live refs" "map_of live a = Some e"
  shows "a \<noteq> lru_head" "a \<noteq> NULL" "\<exists>x. h a = Some x \<and> entry_of_handle x = e \<and> unat (lh_refs x) = refs a \<and> 0 < refs a"
proof -
  show a: "a \<noteq> lru_head" using assms by (auto simp: memory_rep_def)
  then have d: "handle_rep (Some e) (refs a) (data_of h a)" using assms unfolding memory_rep_def by metis
  then show "\<exists>x. h a = Some x \<and> entry_of_handle x = e \<and> unat (lh_refs x) = refs a \<and> 0 < refs a"
    by (auto simp: handle_rep_def data_of_def)
  show "a \<noteq> NULL" using d assms(1) by (auto simp: memory_rep_def handle_rep_def)
qed

lemma matches_has_key:
  assumes "memory_rep h live refs" "a \<noteq> lru_head"
  shows "matches h key hash a \<longleftrightarrow> has_key live key hash a"
proof (cases "map_of live a")
  case None
  moreover have "handle_rep (map_of live a) (refs a) (data_of h a)" using assms by (simp add: memory_rep_def)
  ultimately have "data_of h a = None" by (simp add: handle_rep_def)
  then show ?thesis using None by (simp add: matches_def has_key_def)
next
  case (Some e)
  then obtain x where "h a = Some x" "entry_of_handle x = e" using memory_live(3) [OF assms(1)] by blast
  then show ?thesis using Some by (simp add: matches_def has_key_def data_of_def)
qed

lemma find_unique:
  assumes "set xs = set ys" "\<And>a b. a \<in> set ys \<Longrightarrow> b \<in> set ys \<Longrightarrow> P a \<Longrightarrow> P b \<Longrightarrow> a = b"
  shows "find P xs = find P ys"
proof (cases "find P ys")
  case None
  then have "find P xs = None" using assms(1) by (simp add: find_None_iff)
  then show ?thesis using None by simp
next
  case (Some y)
  then have y: "y \<in> set ys" "P y" unfolding find_Some_iff by auto
  then obtain x where x: "find P xs = Some x" using assms(1) by (cases "find P xs") (auto simp: find_None_iff)
  then have "x \<in> set xs" "P x" unfolding find_Some_iff by auto
  then show ?thesis using assms y x Some by auto
qed

lemma find_cong_set: "(\<And>x. x \<in> set xs \<Longrightarrow> P x = Q x) \<Longrightarrow> find P xs = find Q xs"
  by (induction xs) auto

lemma find_mem: "find P xs = Some x \<Longrightarrow> x \<in> set xs \<and> P x"
  unfolding find_Some_iff by auto

lemma sum_filter:
  assumes "distinct (map fst live)" "map_of live a = Some e"
  shows "charges (filter (\<lambda>x. fst x \<noteq> a) live) = charges live - en_charge e"
  using assms
proof (induction live)
  case (Cons x live)
  show ?case
  proof (cases "fst x = a")
    case True
    then have "a \<notin> fst ` set live" using Cons.prems(1) by auto
    then have "filter (\<lambda>x. fst x \<noteq> a) live = live" by (auto intro!: filter_True)
    then show ?thesis using True Cons.prems(2) by (cases x) (simp add: charges_def)
  next
    case False
    then show ?thesis using Cons by (cases x) (simp add: charges_def algebra_simps)
  qed
qed simp

lemma map_of_filter: "map_of (filter (\<lambda>x. fst x \<noteq> a) live) b = (if b = a then None else map_of live b)"
  by (induction live) auto

section \<open>Dropping a reference\<close>

lemma ring_frame:
  assumes "ring h xs" "\<And>z. z = lru_head \<or> z \<in> set xs \<Longrightarrow> next_of h' z = next_of h z \<and> prev_of h' z = prev_of h z"
  shows "ring h' xs"
proof -
  have "ring_linked (next_of h') (prev_of h') (lru_head # xs @ [lru_head]) \<longleftrightarrow> ring_linked (next_of h) (prev_of h) (lru_head # xs @ [lru_head])"
    by (rule ring_linked_cong) (use assms(2) in \<open>auto dest: in_set_butlastD\<close>)
  then show ?thesis using assms(1) by (simp add: ring_def)
qed

lemma structure_frame:
  assumes "ring h xs" "\<exists>bs. htable_rep h t bs \<and> mset (concat bs) = mset xs"
    and "\<And>z. z = lru_head \<or> z \<in> set xs \<Longrightarrow> next_of h' z = next_of h z \<and> prev_of h' z = prev_of h z"
    and "\<And>z. z \<in> set xs \<Longrightarrow> next_hash_of h' z = next_hash_of h z \<and> hash_of h' z = hash_of h z"
  shows "ring h' xs" "\<exists>bs. htable_rep h' t bs \<and> mset (concat bs) = mset xs"
proof -
  show "ring h' xs" by (rule ring_frame [OF assms(1,3)])
  obtain bs where bs: "htable_rep h t bs" "mset (concat bs) = mset xs" using assms(2) by blast
  then have "set (concat bs) = set xs" by (intro mset_eq_setD)
  then have "buckets_rep h' (ht_length t) (ht_list t) bs"
    using bs(1) assms(4) buckets_frame [of h "ht_length t" "ht_list t" bs h'] unfolding htable_rep_def by blast
  then show "\<exists>bs. htable_rep h' t bs \<and> mset (concat bs) = mset xs" using bs unfolding htable_rep_def by blast
qed

text \<open>The last reference may only go when the entry is not cached any more.\<close>

lemma LRU_Unref_rep:
  assumes "cache_rep c order live refs deleted" "map_of live a = Some e" "refs a = 1 \<Longrightarrow> a \<notin> set order"
  shows "\<exists>c'. LRU_Unref a c = Some c' \<and> lc_capacity c' = lc_capacity c \<and> lc_fresh c' = lc_fresh c \<and>
    (if refs a = 1
     then cache_rep c' order (filter (\<lambda>x. fst x \<noteq> a) live) refs (deleted @ [(en_key e, en_value e)])
     else cache_rep c' order live (refs(a := refs a - 1)) deleted)"
proof -
  let ?h = "lc_handles c"
  note D = cache_repD [OF assms(1)]
  obtain x where x: "?h a = Some x" "entry_of_handle x = e" "unat (lh_refs x) = refs a" "0 < refs a"
    using memory_live(3) [OF D(3) assms(2)] by blast
  have a: "a \<noteq> lru_head" "a \<noteq> NULL" using memory_live(1,2) [OF D(3) assms(2)] .
  have nz: "lh_refs x \<noteq> 0" using x(3,4) by auto
  have minus: "unat (lh_refs x - 1) = refs a - 1" using unat_minus_one [OF nz] x(3) by simp
  define x' where "x' = x\<lparr>lh_refs := lh_refs x - 1\<rparr>"
  have x': "lh_next x' = lh_next x" "entry_of_handle x' = e" "lh_charge x' = en_charge e" "lh_value x' = en_value e" "lh_key_data x' = en_key e"
    using x(2) by (auto simp: x'_def entry_of_handle_def)
  obtain bs where bs: "htable_rep ?h (lc_table c) bs" "mset (concat bs) = mset order" using assms(1) by (auto simp: cache_rep_def)
  show ?thesis
  proof (cases "refs a = 1")
    case True
    then have out: "a \<notin> set order" by (rule assms(3))
    have "lh_refs x' = 0" using minus True by (simp add: x'_def unat_eq_zero)
    moreover have "LRUHandle_key (?h(a \<mapsto> x')) a = Some (en_key e)"
      using D(2) a handle_read(1) [of ?h a, OF x(1)] x' by (auto simp: LRUHandle_key_def no_temporary_def)
    ultimately have u: "LRU_Unref a c = Some (c\<lparr>lc_usage := lc_usage c - en_charge e, lc_deleted := lc_deleted c @ [(en_key e, en_value e)],
        lc_handles := ?h(a := None)\<rparr>)"
      using x(1) nz x' by (simp add: LRU_Unref_def Let_def x'_def [symmetric])
    let ?g = "?h(a := None)" and ?live = "filter (\<lambda>x. fst x \<noteq> a) live"
    have g: "next_of ?g z = (if z = a then None else next_of ?h z)" "prev_of ?g z = (if z = a then None else prev_of ?h z)"
      "next_hash_of ?g z = (if z = a then None else next_hash_of ?h z)" "data_of ?g z = (if z = a then None else data_of ?h z)" for z
      by (simp_all add: view_defs)
    have "hash_of ?g z = hash_of ?h z" if "z \<noteq> a" for z using that by (simp add: hash_of_def g(4))
    then have ring: "ring ?g order" and table: "\<exists>bs. htable_rep ?g (lc_table c) bs \<and> mset (concat bs) = mset order"
      using structure_frame [OF D(1), of "lc_table c" ?g] bs out a(1) g by metis+
    have "no_temporary ?g" using D(2) by (auto simp: no_temporary_def g(1))
    moreover have "memory_rep ?g ?live refs"
      using D(3) by (auto simp: memory_rep_def g(4) map_of_filter distinct_map_filter handle_rep_def)
    moreover have "\<forall>b\<in>set order. map_of ?live b \<noteq> None" using D(6) out by (auto simp: map_of_filter)
    moreover have "has_key ?live key hash b \<longleftrightarrow> has_key live key hash b" if "b \<in> set order" for key hash b
      using that out by (auto simp: has_key_def map_of_filter)
    moreover have "charges ?live = charges live - en_charge e"
      using D(3) by (intro sum_filter [OF _ assms(2)]) (simp add: memory_rep_def)
    ultimately have "cache_rep (c\<lparr>lc_usage := lc_usage c - en_charge e, lc_deleted := lc_deleted c @ [(en_key e, en_value e)],
        lc_handles := ?g\<rparr>) order ?live refs (deleted @ [(en_key e, en_value e)])"
      using assms(1) ring table unfolding cache_rep_def by auto
    then show ?thesis using u True by auto
  next
    case False
    have "lh_refs x' \<noteq> 0" using minus False x(4) by (auto simp: x'_def unat_eq_zero)
    then have u: "LRU_Unref a c = Some (c\<lparr>lc_handles := ?h(a \<mapsto> x')\<rparr>)"
      using x(1) nz by (simp add: LRU_Unref_def Let_def x'_def [symmetric])
    let ?g = "?h(a \<mapsto> x')"
    have g: "next_of ?g = next_of ?h" "prev_of ?g = prev_of ?h" "next_hash_of ?g = next_hash_of ?h"
      using x(1) by (auto simp: view_defs x'_def fun_eq_iff)
    have gd: "data_of ?g z = (if z = a then Some (e, lh_refs x - 1) else data_of ?h z)" for z
      using x'(2) by (simp add: data_of_def x'_def)
    have "data_of ?h a = Some (e, lh_refs x)" using x(1,2) by (simp add: data_of_def)
    then have "hash_of ?g z = hash_of ?h z" for z by (simp add: hash_of_def gd)
    then have ring: "ring ?g order" and table: "\<exists>bs. htable_rep ?g (lc_table c) bs \<and> mset (concat bs) = mset order"
      using structure_frame [OF D(1), of "lc_table c" ?g] bs g by metis+
    have "no_temporary ?g" using D(2) by (simp add: no_temporary_def g(1))
    moreover have "memory_rep ?g live (refs(a := refs a - 1))"
      using D(3) False x(4) minus a(2) assms(2) by (auto simp: memory_rep_def gd handle_rep_def)
    moreover have "\<forall>b. lc_fresh c \<le> b \<longrightarrow> ?g b = None"
      using assms(1) x(1) unfolding cache_rep_def by auto
    ultimately have "cache_rep (c\<lparr>lc_handles := ?g\<rparr>) order live (refs(a := refs a - 1)) deleted"
      using assms(1) ring table unfolding cache_rep_def by simp
    then show ?thesis using u False by auto
  qed
qed

section \<open>Taking an entry out\<close>

lemma cache_table:
  assumes "cache_rep c order live refs deleted"
  obtains bs where "htable_rep (lc_handles c) (lc_table c) bs" "mset (concat bs) = mset order" "set (concat bs) = set order"
    "lru_head \<notin> set (concat bs)" "\<And>z key hash. z \<in> set order \<Longrightarrow> matches (lc_handles c) key hash z \<longleftrightarrow> has_key live key hash z"
    "\<And>y z key hash. y \<in> set (concat bs) \<Longrightarrow> z \<in> set (concat bs) \<Longrightarrow> matches (lc_handles c) key hash y \<Longrightarrow>
      matches (lc_handles c) key hash z \<Longrightarrow> y = z"
proof -
  note D = cache_repD [OF assms]
  obtain bs where bs: "htable_rep (lc_handles c) (lc_table c) bs" "mset (concat bs) = mset order" using assms by (auto simp: cache_rep_def)
  have s: "set (concat bs) = set order" using bs(2) by (intro mset_eq_setD)
  have m: "matches (lc_handles c) key hash z \<longleftrightarrow> has_key live key hash z" if "z \<in> set order" for key hash z
    using that D(5) by (intro matches_has_key [OF D(3)]) auto
  have u: "a = b" if "a \<in> set order" "b \<in> set order" "has_key live key hash a" "has_key live key hash b" for a b key hash
    using assms that unfolding cache_rep_def by blast
  have "y = z" if "y \<in> set (concat bs)" "z \<in> set (concat bs)" "matches (lc_handles c) key hash y" "matches (lc_handles c) key hash z"
    for y z key hash using that unfolding s m by (auto simp: m intro: u)
  moreover have "lru_head \<notin> set (concat bs)" using D(5) unfolding s .
  ultimately show thesis using that [OF bs s _ m] by blast
qed

lemma ht_Lookup_cache:
  assumes "cache_rep c order live refs deleted"
  shows "ht_Lookup (lc_handles c) (lc_table c) key hash =
    Some (case find (has_key live key hash) order of None \<Rightarrow> NULL | Some a \<Rightarrow> a)"
proof -
  obtain bs where bs: "htable_rep (lc_handles c) (lc_table c) bs" "set (concat bs) = set order" "lru_head \<notin> set (concat bs)"
    "\<And>z key hash. z \<in> set order \<Longrightarrow> matches (lc_handles c) key hash z \<longleftrightarrow> has_key live key hash z"
    "\<And>y z key hash. y \<in> set (concat bs) \<Longrightarrow> z \<in> set (concat bs) \<Longrightarrow> matches (lc_handles c) key hash y \<Longrightarrow>
      matches (lc_handles c) key hash z \<Longrightarrow> y = z" using cache_table [OF assms] by metis
  have "find (matches (lc_handles c) key hash) (concat bs) = find (matches (lc_handles c) key hash) order"
    by (rule find_unique [OF bs(2)]) (use bs(2,5) in blast)
  also have "\<dots> = find (has_key live key hash) order" by (rule find_cong_set) (rule bs(4))
  finally show ?thesis using ht_Lookup_rep [OF bs(1) cache_repD(2) [OF assms] bs(3,5)] by simp
qed

lemma cache_rep_shrink:
  assumes "cache_rep c order live refs deleted" "ring h (remove1 a order)" "no_temporary h" "data_of h = data_of (lc_handles c)"
    and "htable_rep h t bs" "mset (concat bs) = mset (remove1 a order)"
  shows "cache_rep (c\<lparr>lc_handles := h, lc_table := t\<rparr>) (remove1 a order) live refs deleted"
proof -
  have "set (remove1 a order) \<subseteq> set order" by (rule set_remove1_subset)
  then have "\<forall>b\<in>set (remove1 a order). map_of live b \<noteq> None"
    "\<forall>b\<in>set (remove1 a order). \<forall>b'\<in>set (remove1 a order). \<forall>key hash. has_key live key hash b \<longrightarrow> has_key live key hash b' \<longrightarrow> b = b'"
    using assms(1) unfolding cache_rep_def by blast+
  moreover have "\<forall>b. lc_fresh c \<le> b \<longrightarrow> h b = None" using assms(1) same_data_dom [OF assms(4)] by (simp add: cache_rep_def)
  ultimately show ?thesis
    using assms(1-3,5,6) memory_rep_data [OF cache_repD(3) [OF assms(1)] assms(4)] unfolding cache_rep_def by auto
qed

lemma unlink_rep:
  assumes "cache_rep c order live refs deleted" "a \<in> set order" "has_key live key hash a"
  shows "\<exists>h1 t h2. ht_Remove key hash (lc_handles c) (lc_table c) = Some (a, h1, t) \<and> LRU_Remove a h1 = Some h2 \<and>
    cache_rep (c\<lparr>lc_handles := h2, lc_table := t\<rparr>) (remove1 a order) live refs deleted"
    "\<exists>h1 t h2. LRU_Remove a (lc_handles c) = Some h1 \<and> ht_Remove key hash h1 (lc_table c) = Some (a, h2, t) \<and>
    data_of h1 = data_of (lc_handles c) \<and> no_temporary h1 \<and>
    cache_rep (c\<lparr>lc_handles := h2, lc_table := t\<rparr>) (remove1 a order) live refs deleted"
proof -
  let ?h = "lc_handles c"
  note D = cache_repD [OF assms(1)]
  obtain bs where bs: "htable_rep ?h (lc_table c) bs" "mset (concat bs) = mset order" "set (concat bs) = set order" "lru_head \<notin> set (concat bs)"
    "\<And>z key hash. z \<in> set order \<Longrightarrow> matches ?h key hash z \<longleftrightarrow> has_key live key hash z"
    "\<And>y z key hash. y \<in> set (concat bs) \<Longrightarrow> z \<in> set (concat bs) \<Longrightarrow> matches ?h key hash y \<Longrightarrow> matches ?h key hash z \<Longrightarrow> y = z"
    using cache_table [OF assms(1)] by metis
  have a: "a \<in> set (concat bs)" "matches ?h key hash a" using assms(2,3) bs(3,5) by auto
  obtain xs ys where o: "order = xs @ a # ys" using assms(2) by (meson split_list)
  then have r: "remove1 a order = xs @ ys" using D(4) by (simp add: remove1_append)
  have ms: "mset (concat bs') = mset (remove1 a order)" if "mset (concat bs) = add_mset a (mset (concat bs'))" for bs'
    using that bs(2) by simp
  obtain h1 t bs1 where h1: "ht_Remove key hash ?h (lc_table c) = Some (a, h1, t)" "htable_rep h1 t bs1"
    "mset (concat bs) = add_mset a (mset (concat bs1))" "next_of h1 = next_of ?h" "prev_of h1 = prev_of ?h" "data_of h1 = data_of ?h"
    using ht_Remove_rep [OF bs(1) D(2) bs(4) a] bs(6) [OF _ a(1) _ a(2)] by blast
  have "ring h1 (xs @ a # ys)" "no_temporary h1" using D(1,2) h1(4,5) o by (simp_all add: ring_def no_temporary_def)
  then obtain h2 where h2: "LRU_Remove a h1 = Some h2" "ring h2 (xs @ ys)" "no_temporary h2" "next_hash_of h2 = next_hash_of h1"
    "data_of h2 = data_of h1" using LRU_Remove_ring by blast
  have "cache_rep (c\<lparr>lc_handles := h2, lc_table := t\<rparr>) (remove1 a order) live refs deleted"
    using cache_rep_shrink [OF assms(1), of h2 a t bs1] h2 h1 r ms [OF h1(3)] table_rep_cong [OF h2(4,5), of t bs1] by simp
  then show "\<exists>h1 t h2. ht_Remove key hash (lc_handles c) (lc_table c) = Some (a, h1, t) \<and> LRU_Remove a h1 = Some h2 \<and>
    cache_rep (c\<lparr>lc_handles := h2, lc_table := t\<rparr>) (remove1 a order) live refs deleted" using h1(1) h2(1) by blast
  have "ring ?h (xs @ a # ys)" using D(1) o by simp
  then obtain g1 where g1: "LRU_Remove a ?h = Some g1" "ring g1 (xs @ ys)" "no_temporary g1" "next_hash_of g1 = next_hash_of ?h"
    "data_of g1 = data_of ?h" using LRU_Remove_ring [OF _ D(2)] by blast
  have t1: "htable_rep g1 (lc_table c) bs" using bs(1) table_rep_cong [OF g1(4,5)] by blast
  have "\<And>y. y \<in> set (concat bs) \<Longrightarrow> matches g1 key hash y \<Longrightarrow> y = a"
    using bs(6) [OF _ a(1) _ a(2)] matches_cong [OF g1(5)] by metis
  moreover have "matches g1 key hash a" using a(2) matches_cong [OF g1(5)] by metis
  ultimately obtain g2 t2 bs2 where g2: "ht_Remove key hash g1 (lc_table c) = Some (a, g2, t2)" "htable_rep g2 t2 bs2"
    "mset (concat bs) = add_mset a (mset (concat bs2))" "next_of g2 = next_of g1" "prev_of g2 = prev_of g1" "data_of g2 = data_of g1"
    using ht_Remove_rep [OF t1 g1(3) bs(4) a(1)] by blast
  have "ring g2 (xs @ ys)" "no_temporary g2" using g1(2,3) g2(4,5) by (simp_all add: ring_def no_temporary_def)
  then have "cache_rep (c\<lparr>lc_handles := g2, lc_table := t2\<rparr>) (remove1 a order) live refs deleted"
    using cache_rep_shrink [OF assms(1), of g2 a t2 bs2] g2 g1 r ms [OF g2(3)] by simp
  then show "\<exists>h1 t h2. LRU_Remove a (lc_handles c) = Some h1 \<and> ht_Remove key hash h1 (lc_table c) = Some (a, h2, t) \<and>
    data_of h1 = data_of (lc_handles c) \<and> no_temporary h1 \<and>
    cache_rep (c\<lparr>lc_handles := h2, lc_table := t\<rparr>) (remove1 a order) live refs deleted" using g1(1,3,5) g2(1) by blast
qed

text \<open>Dropping the cache's own reference to an entry that has been unlinked.\<close>

lemma cache_rep_refs:
  assumes "cache_rep c order live refs deleted" "\<And>a. map_of live a \<noteq> None \<Longrightarrow> refs a = refs' a"
  shows "cache_rep c order live refs' deleted"
proof -
  have "handle_rep (map_of live a) (refs' a) (data_of (lc_handles c) a)" if "a \<noteq> lru_head" for a
  proof -
    have "handle_rep (map_of live a) (refs a) (data_of (lc_handles c) a)" using cache_repD(3) [OF assms(1)] that by (simp add: memory_rep_def)
    then show ?thesis using assms(2) [of a] by (cases "map_of live a = None") (auto simp: handle_rep_def)
  qed
  then have "memory_rep (lc_handles c) live refs'" using cache_repD(3) [OF assms(1)] by (simp add: memory_rep_def)
  then show ?thesis using assms(1) unfolding cache_rep_def by blast
qed

text \<open>After one reference fewer the shard represents the state with the entry forgotten if it was the last one.\<close>

lemma forget_rep:
  assumes "cache_rep c (ac_order A) (ac_live A) refs (ac_deleted A)" "map_of (ac_live A) a \<noteq> None"
    and "\<And>b. refs b = of_bool (b \<in> set (ac_order A)) + ac_held A b + of_bool (b = a)"
    and "\<And>b. 0 < ac_held A b \<Longrightarrow> map_of (ac_live A) b \<noteq> None"
  shows "\<exists>c'. LRU_Unref a c = Some c' \<and> lru_rep c' (a_forget a A) \<and> lc_capacity c' = lc_capacity c \<and> lc_fresh c' = lc_fresh c"
proof -
  obtain e where e: "map_of (ac_live A) a = Some e" using assms(2) by blast
  have out: "refs a = 1 \<Longrightarrow> a \<notin> set (ac_order A) \<and> ac_held A a = 0" using assms(3) [of a] by (cases "a \<in> set (ac_order A)") auto
  obtain c' where c': "LRU_Unref a c = Some c'" "lc_capacity c' = lc_capacity c" "lc_fresh c' = lc_fresh c"
    "if refs a = 1 then cache_rep c' (ac_order A) (filter (\<lambda>x. fst x \<noteq> a) (ac_live A)) refs (ac_deleted A @ [(en_key e, en_value e)])
     else cache_rep c' (ac_order A) (ac_live A) (refs(a := refs a - 1)) (ac_deleted A)"
    using LRU_Unref_rep [OF assms(1) e] out by blast
  have "lru_rep c' (a_forget a A)"
  proof (cases "refs a = 1")
    case True
    let ?live = "filter (\<lambda>x. fst x \<noteq> a) (ac_live A)"
    have "cache_rep c' (ac_order A) ?live refs (ac_deleted A @ [(en_key e, en_value e)])" using c'(4) True by simp
    then have "cache_rep c' (ac_order A) ?live (\<lambda>b. of_bool (b \<in> set (ac_order A)) + ac_held A b) (ac_deleted A @ [(en_key e, en_value e)])"
      by (rule cache_rep_refs) (use assms(3) in \<open>auto simp: map_of_filter split: if_splits\<close>)
    moreover have "map_of ?live b \<noteq> None" if "0 < ac_held A b" for b using that out [OF True] assms(4) [OF that] by (auto simp: map_of_filter)
    ultimately show ?thesis using out [OF True] e by (auto simp: lru_rep_def a_forget_def)
  next
    case False
    have "0 < refs a" using memory_live(3) [OF cache_repD(3) [OF assms(1)] e] by auto
    then have "a \<in> set (ac_order A) \<or> 0 < ac_held A a" using assms(3) [of a] False by (cases "a \<in> set (ac_order A)") auto
    then have f: "a_forget a A = A" by (auto simp: a_forget_def)
    have "cache_rep c' (ac_order A) (ac_live A) (refs(a := refs a - 1)) (ac_deleted A)" using c'(4) False by simp
    then have "cache_rep c' (ac_order A) (ac_live A) (\<lambda>b. of_bool (b \<in> set (ac_order A)) + ac_held A b) (ac_deleted A)"
      by (rule cache_rep_refs) (use assms(3) in auto)
    then show ?thesis using assms(4) unfolding f lru_rep_def by blast
  qed
  then show ?thesis using c'(1-3) by blast
qed

text \<open>Unlinking and forgetting, as \<^verbatim>\<open>Insert\<close>, \<^verbatim>\<open>Erase\<close> and eviction do it.\<close>

lemma unlink_forget:
  assumes "cache_rep c (remove1 a (ac_order A)) (ac_live A) (\<lambda>b. of_bool (b \<in> set (ac_order A)) + ac_held A b) (ac_deleted A)"
    "a \<in> set (ac_order A)" "distinct (ac_order A)" "map_of (ac_live A) a \<noteq> None" "\<And>b. 0 < ac_held A b \<Longrightarrow> map_of (ac_live A) b \<noteq> None"
  shows "\<exists>c'. LRU_Unref a c = Some c' \<and> lru_rep c' (a_unlink a A) \<and> lc_capacity c' = lc_capacity c \<and> lc_fresh c' = lc_fresh c"
  unfolding a_unlink_def
  by (rule forget_rep [where refs = "\<lambda>b. of_bool (b \<in> set (ac_order A)) + ac_held A b"]) (use assms in auto)

lemma LRU_Release_rep:
  assumes "lru_rep c A" "0 < ac_held A a"
  shows "\<exists>c'. LRU_Release a c = Some c' \<and> lru_rep c' (a_release a A) \<and> lc_capacity c' = lc_capacity c \<and> lc_fresh c' = lc_fresh c"
  unfolding a_release_def LRU_Release_def
  by (rule forget_rep [where refs = "\<lambda>b. of_bool (b \<in> set (ac_order A)) + ac_held A b"]) (use assms in \<open>auto simp: lru_rep_def split: if_splits\<close>)

lemma LRU_Erase_rep:
  assumes "lru_rep c A"
  shows "\<exists>c'. LRU_Erase key hash c = Some c' \<and> lru_rep c' (a_erase key hash A) \<and> lc_capacity c' = lc_capacity c \<and> lc_fresh c' = lc_fresh c"
proof -
  have rep: "cache_rep c (ac_order A) (ac_live A) (\<lambda>b. of_bool (b \<in> set (ac_order A)) + ac_held A b) (ac_deleted A)"
    and held: "\<And>b. 0 < ac_held A b \<Longrightarrow> map_of (ac_live A) b \<noteq> None" using assms by (simp_all add: lru_rep_def)
  show ?thesis
  proof (cases "a_find key hash A")
    case None
    obtain bs where bs: "htable_rep (lc_handles c) (lc_table c) bs" "set (concat bs) = set (ac_order A)" "lru_head \<notin> set (concat bs)"
      "\<And>z key hash. z \<in> set (ac_order A) \<Longrightarrow> matches (lc_handles c) key hash z \<longleftrightarrow> has_key (ac_live A) key hash z"
      using cache_table [OF rep] by metis
    have "\<not> matches (lc_handles c) key hash y" if "y \<in> set (concat bs)" for y
      using None that bs(2,4) unfolding a_find_def find_None_iff by blast
    then have "LRU_Erase key hash c = Some c"
      using ht_Remove_none [OF bs(1) cache_repD(2) [OF rep] bs(3)] by (simp add: LRU_Erase_def)
    then show ?thesis using assms None by (simp add: a_erase_def)
  next
    case (Some a)
    then have a: "a \<in> set (ac_order A)" "has_key (ac_live A) key hash a" unfolding a_find_def by (auto dest: find_mem)
    have live: "map_of (ac_live A) a \<noteq> None" using cache_repD(6) [OF rep a(1)] .
    then have "a \<noteq> NULL" using memory_live(2) [OF cache_repD(3) [OF rep]] by blast
    then show ?thesis
      using unlink_rep(1) [OF rep a] unlink_forget [OF _ a(1) cache_repD(4) [OF rep] live held] Some
      by (fastforce simp: LRU_Erase_def a_erase_def)
  qed
qed

end
