(* ===== verification/Ldb_Cache_Steps.thy ===== *)
theory Ldb_Cache_Steps
  imports Ldb_Cache_Spec
begin

text \<open>Lookup, eviction and insertion on one shard, against its specification.\<close>

section \<open>Look-up\<close>

lemma hold_rep:
  assumes "cache_rep c order live refs deleted" "map_of live a = Some e" "Suc (refs a) < 2 ^ 32"
  shows "\<exists>h. set_handle (\<lambda>e. e\<lparr>lh_refs := lh_refs e + 1\<rparr>) a (lc_handles c) = Some h \<and>
    cache_rep (c\<lparr>lc_handles := h\<rparr>) order live (refs(a := Suc (refs a))) deleted"
proof -
  let ?h = "lc_handles c"
  note D = cache_repD [OF assms(1)]
  obtain x where x: "?h a = Some x" "entry_of_handle x = e" "unat (lh_refs x) = refs a"
    using memory_live(3) [OF D(3) assms(2)] by blast
  have a: "a \<noteq> NULL" using memory_live(2) [OF D(3) assms(2)] .
  define x' where "x' = x\<lparr>lh_refs := lh_refs x + 1\<rparr>"
  have plus: "unat (lh_refs x + 1) = Suc (refs a)" using x(3) assms(3) unfolding unat_word_ariths(1) by simp
  obtain bs where bs: "htable_rep ?h (lc_table c) bs" "mset (concat bs) = mset order" using assms(1) by (auto simp: cache_rep_def)
  let ?g = "?h(a \<mapsto> x')"
  have g: "next_of ?g = next_of ?h" "prev_of ?g = prev_of ?h" "next_hash_of ?g = next_hash_of ?h"
    using x(1) by (auto simp: view_defs x'_def fun_eq_iff)
  have gd: "data_of ?g z = (if z = a then Some (e, lh_refs x + 1) else data_of ?h z)" for z
    using x(2) by (simp add: data_of_def x'_def entry_of_handle_def)
  have "data_of ?h a = Some (e, lh_refs x)" using x(1,2) by (simp add: data_of_def)
  then have "hash_of ?g z = hash_of ?h z" for z by (simp add: hash_of_def gd)
  then have ring: "ring ?g order" and table: "\<exists>bs. htable_rep ?g (lc_table c) bs \<and> mset (concat bs) = mset order"
    using structure_frame [OF D(1), of "lc_table c" ?g] bs g by metis+
  have "no_temporary ?g" using D(2) by (simp add: no_temporary_def g(1))
  moreover have "memory_rep ?g live (refs(a := Suc (refs a)))"
    using D(3) plus a assms(2) by (auto simp: memory_rep_def gd handle_rep_def)
  moreover have "\<forall>b. lc_fresh c \<le> b \<longrightarrow> ?g b = None"
    using assms(1) x(1) unfolding cache_rep_def by auto
  ultimately have "cache_rep (c\<lparr>lc_handles := ?g\<rparr>) order live (refs(a := Suc (refs a))) deleted"
    using assms(1) ring table unfolding cache_rep_def by simp
  moreover have "set_handle (\<lambda>e. e\<lparr>lh_refs := lh_refs e + 1\<rparr>) a ?h = Some ?g" using x(1) by (simp add: set_handle_def x'_def)
  ultimately show ?thesis by blast
qed

lemma touch_rep:
  assumes "cache_rep c order live refs deleted" "a \<in> set order"
  shows "\<exists>h1 h2. LRU_Remove a (lc_handles c) = Some h1 \<and> LRU_Append a h1 = Some h2 \<and>
    cache_rep (c\<lparr>lc_handles := h2\<rparr>) (remove1 a order @ [a]) live refs deleted"
proof -
  let ?h = "lc_handles c"
  note D = cache_repD [OF assms(1)]
  obtain xs ys where o: "order = xs @ a # ys" using assms(2) by (meson split_list)
  then have r: "remove1 a order = xs @ ys" "a \<notin> set (xs @ ys)" "a \<noteq> lru_head" using D(4,5) by (auto simp: remove1_append)
  have "ring ?h (xs @ a # ys)" using D(1) o by simp
  then obtain h1 where h1: "LRU_Remove a ?h = Some h1" "ring h1 (xs @ ys)" "no_temporary h1" "next_hash_of h1 = next_hash_of ?h"
    "data_of h1 = data_of ?h" using LRU_Remove_ring [OF _ D(2)] by blast
  have "?h a \<noteq> None" using ring_mem [OF D(1)] assms(2) by blast
  then have "h1 a \<noteq> None" using same_data_dom [OF h1(5)] by simp
  then obtain h2 where h2: "LRU_Append a h1 = Some h2" "ring h2 ((xs @ ys) @ [a])" "no_temporary h2" "next_hash_of h2 = next_hash_of h1"
    "data_of h2 = data_of h1" using LRU_Append_ring [OF h1(2,3) _ r(3,2)] by blast
  have data: "data_of h2 = data_of ?h" "next_hash_of h2 = next_hash_of ?h" using h1(4,5) h2(4,5) by simp_all
  obtain bs where bs: "htable_rep ?h (lc_table c) bs" "mset (concat bs) = mset order" using assms(1) by (auto simp: cache_rep_def)
  have "mset (concat bs) = mset (remove1 a order @ [a])" using bs(2) assms(2) by simp
  moreover have "htable_rep h2 (lc_table c) bs" using bs(1) table_rep_cong [OF data(2,1)] by blast
  ultimately have table: "\<exists>bs. htable_rep h2 (lc_table c) bs \<and> mset (concat bs) = mset (remove1 a order @ [a])" by blast
  define zs where "zs = remove1 a order @ [a]"
  have same: "set zs = set order" using o r(1) by (auto simp: zs_def)
  have ring: "ring h2 zs" using h2(2) by (simp only: zs_def r(1))
  have "\<forall>b. lc_fresh c \<le> b \<longrightarrow> h2 b = None" using assms(1) same_data_dom [OF data(1)] by (simp add: cache_rep_def)
  then have "cache_rep (c\<lparr>lc_handles := h2\<rparr>) zs live refs deleted"
    using assms(1) table [folded zs_def] ring h2(3) memory_rep_data [OF D(3) data(1)] unfolding cache_rep_def same by simp
  then have "cache_rep (c\<lparr>lc_handles := h2\<rparr>) (remove1 a order @ [a]) live refs deleted" by (simp only: zs_def)
  then show ?thesis using h1(1) h2(1) by blast
qed

lemma LRU_Lookup_rep:
  assumes "lru_rep c A" "\<And>a. ac_held A a + 2 < 2 ^ 32"
  shows "\<exists>c'. LRU_Lookup key hash c = Some (case fst (a_lookup key hash A) of None \<Rightarrow> NULL | Some a \<Rightarrow> a, c') \<and>
    lru_rep c' (snd (a_lookup key hash A)) \<and> lc_capacity c' = lc_capacity c \<and> lc_fresh c' = lc_fresh c"
proof -
  have rep: "cache_rep c (ac_order A) (ac_live A) (\<lambda>b. of_bool (b \<in> set (ac_order A)) + ac_held A b) (ac_deleted A)"
    and held: "\<And>b. 0 < ac_held A b \<Longrightarrow> map_of (ac_live A) b \<noteq> None" using assms by (simp_all add: lru_rep_def)
  note look = ht_Lookup_cache [OF rep, of key hash]
  show ?thesis
  proof (cases "a_find key hash A")
    case None
    then show ?thesis using look assms(1) by (simp add: a_find_def a_lookup_def LRU_Lookup_def)
  next
    case (Some a)
    then have a: "a \<in> set (ac_order A)" unfolding a_find_def by (auto dest: find_mem)
    then obtain e where e: "map_of (ac_live A) a = Some e" using cache_repD(6) [OF rep] by blast
    then have nn: "a \<noteq> NULL" using memory_live(2) [OF cache_repD(3) [OF rep]] by blast
    have "Suc (of_bool (a \<in> set (ac_order A)) + ac_held A a) < 2 ^ 32" using assms(2) [of a] by simp
    then obtain h where h: "set_handle (\<lambda>e. e\<lparr>lh_refs := lh_refs e + 1\<rparr>) a (lc_handles c) = Some h"
      "cache_rep (c\<lparr>lc_handles := h\<rparr>) (ac_order A) (ac_live A)
        ((\<lambda>b. of_bool (b \<in> set (ac_order A)) + ac_held A b)(a := Suc (of_bool (a \<in> set (ac_order A)) + ac_held A a))) (ac_deleted A)"
      using hold_rep [OF rep e] by blast
    obtain h1 h2 where t: "LRU_Remove a h = Some h1" "LRU_Append a h1 = Some h2"
      "cache_rep (c\<lparr>lc_handles := h2\<rparr>) (remove1 a (ac_order A) @ [a]) (ac_live A)
        ((\<lambda>b. of_bool (b \<in> set (ac_order A)) + ac_held A b)(a := Suc (of_bool (a \<in> set (ac_order A)) + ac_held A a))) (ac_deleted A)"
      using touch_rep [OF h(2) a] by auto
    let ?B = "a_hold a (A\<lparr>ac_order := remove1 a (ac_order A) @ [a]\<rparr>)"
    have "set (remove1 a (ac_order A) @ [a]) = set (ac_order A)" using a cache_repD(4) [OF rep] by auto
    then have "cache_rep (c\<lparr>lc_handles := h2\<rparr>) (remove1 a (ac_order A) @ [a]) (ac_live A)
      (\<lambda>b. of_bool (b \<in> set (remove1 a (ac_order A) @ [a])) + ac_held ?B b) (ac_deleted A)"
      by (intro cache_rep_refs [OF t(3)]) (simp add: a_hold_def)
    then have "cache_rep (c\<lparr>lc_handles := h2\<rparr>) (ac_order ?B) (ac_live ?B)
      (\<lambda>b. of_bool (b \<in> set (ac_order ?B)) + ac_held ?B b) (ac_deleted ?B)" by (simp add: a_hold_def)
    then have "lru_rep (c\<lparr>lc_handles := h2\<rparr>) ?B" using held e by (auto simp: lru_rep_def a_hold_def)
    moreover have "LRU_Lookup key hash c = Some (a, c\<lparr>lc_handles := h2\<rparr>)"
      using look Some nn h(1) t(1,2) by (simp add: LRU_Lookup_def a_find_def)
    ultimately show ?thesis using Some by (simp add: a_lookup_def)
  qed
qed

section \<open>Eviction\<close>

lemma a_unlink_order: "ac_order (a_unlink a A) = remove1 a (ac_order A)"
  by (simp add: a_unlink_def a_forget_def)

lemma LRU_evict_rep:
  assumes "lru_rep c A"
  shows "\<exists>c'. LRU_evict c = Some c' \<and> lru_rep c' (a_evict (lc_capacity c) (ac_order A) A) \<and>
    lc_capacity c' = lc_capacity c \<and> lc_fresh c' = lc_fresh c"
  using assms
proof (induction "ac_order A" arbitrary: c A)
  case Nil
  have rep: "cache_rep c [] (ac_live A) (\<lambda>b. of_bool (b \<in> set (ac_order A)) + ac_held A b) (ac_deleted A)"
    using Nil by (simp add: lru_rep_def)
  obtain l where l: "lc_handles c lru_head = Some l" using ring_mem [OF cache_repD(1) [OF rep]] by blast
  then have "lh_next l = lru_head" using ring_first [OF cache_repD(1) [OF rep] l] by simp
  then show ?case using Nil l by (subst LRU_evict.simps) simp
next
  case (Cons a as)
  let ?refs = "\<lambda>b. of_bool (b \<in> set (ac_order A)) + ac_held A b"
  have rep: "cache_rep c (ac_order A) (ac_live A) ?refs (ac_deleted A)"
    and held: "\<And>b. 0 < ac_held A b \<Longrightarrow> map_of (ac_live A) b \<noteq> None" using Cons.prems by (simp_all add: lru_rep_def)
  note D = cache_repD [OF rep]
  obtain l where l: "lc_handles c lru_head = Some l" using ring_mem [OF D(1)] by blast
  have first: "lh_next l = a" using ring_first [OF D(1) l] Cons.hyps(2) [symmetric] by simp
  have a: "a \<in> set (ac_order A)" "a \<noteq> lru_head" using Cons.hyps(2) [symmetric] D(5) by auto
  obtain e where e: "map_of (ac_live A) a = Some e" using D(6) [OF a(1)] by blast
  show ?case
  proof (cases "lc_capacity c < lc_usage c")
    case False
    then have "LRU_evict c = Some c" using l by (subst LRU_evict.simps) simp
    moreover have "a_evict (lc_capacity c) (ac_order A) A = A" using False D(7) Cons.hyps(2) [symmetric] by simp
    ultimately show ?thesis using Cons.prems by simp
  next
    case True
    have k: "has_key (ac_live A) (en_key e) (en_hash e) a" using e by (simp add: has_key_def)
    obtain h1 t h2 where u: "LRU_Remove a (lc_handles c) = Some h1" "ht_Remove (en_key e) (en_hash e) h1 (lc_table c) = Some (a, h2, t)"
      "data_of h1 = data_of (lc_handles c)" "no_temporary h1"
      "cache_rep (c\<lparr>lc_handles := h2, lc_table := t\<rparr>) (remove1 a (ac_order A)) (ac_live A) ?refs (ac_deleted A)"
      using unlink_rep(2) [OF rep a(1) k] by blast
    obtain x where x: "lc_handles c a = Some x" "entry_of_handle x = e" using memory_live(3) [OF D(3) e] by blast
    obtain x1 where x1: "h1 a = Some x1" using same_data_dom [OF u(3), of a] x(1) by fastforce
    have "entry_of_handle x1 = e" using fun_cong [OF u(3), of a] x x1 by (simp add: data_of_def)
    then have x1e: "lh_hash x1 = en_hash e" "lh_key_data x1 = en_key e" by (auto simp: entry_of_handle_def)
    have key: "LRUHandle_key h1 a = Some (en_key e)" using LRUHandle_key_data [OF u(4) x1 a(2)] x1e by simp
    have ne: "map_of (ac_live A) a \<noteq> None" using e by simp
    obtain c' where c': "LRU_Unref a (c\<lparr>lc_handles := h2, lc_table := t\<rparr>) = Some c'" "lru_rep c' (a_unlink a A)"
      "lc_capacity c' = lc_capacity c" "lc_fresh c' = lc_fresh c"
      using unlink_forget [OF u(5) a(1) D(4) ne held] by auto
    have step: "LRU_evict c = LRU_evict c'"
      using l first a(2) True u(1,2) key x1 x1e c'(1) by (subst LRU_evict.simps) (simp add: Let_def)
    have "as = ac_order (a_unlink a A)" using Cons.hyps(2) [symmetric] by (simp add: a_unlink_order)
    from Cons.hyps(1) [OF this c'(2)] obtain c2 where "LRU_evict c' = Some c2"
      "lru_rep c2 (a_evict (lc_capacity c) as (a_unlink a A))" "lc_capacity c2 = lc_capacity c" "lc_fresh c2 = lc_fresh c"
      using \<open>as = ac_order (a_unlink a A)\<close> c'(3,4) by auto
    moreover have "a_evict (lc_capacity c) (ac_order A) A = a_evict (lc_capacity c) as (a_unlink a A)"
      using True D(7) Cons.hyps(2) [symmetric] by simp
    ultimately show ?thesis using step by simp
  qed
qed

section \<open>Insertion\<close>

definition handle_of :: "'v lru_entry \<Rightarrow> 'v LRUHandle" where
  "handle_of e = \<lparr>lh_value = en_value e, lh_next_hash = NULL, lh_next = NULL, lh_prev = NULL, lh_charge = en_charge e,
     lh_refs = 2, lh_hash = en_hash e, lh_key_data = en_key e\<rparr>"

lemma not_live:
  assumes "lru_rep c A" "lc_fresh c \<le> a"
  shows "map_of (ac_live A) a = None" "a \<notin> set (ac_order A)" "ac_held A a = 0"
proof -
  have rep: "cache_rep c (ac_order A) (ac_live A) (\<lambda>b. of_bool (b \<in> set (ac_order A)) + ac_held A b) (ac_deleted A)"
    using assms by (simp add: lru_rep_def)
  have "lc_handles c a = None" using rep assms(2) by (simp add: cache_rep_def)
  then show n: "map_of (ac_live A) a = None"
    using memory_live(3) [OF cache_repD(3) [OF rep], of a] by (cases "map_of (ac_live A) a") auto
  then show "a \<notin> set (ac_order A)" using cache_repD(6) [OF rep, of a] by blast
  show "ac_held A a = 0" using assms(1) n unfolding lru_rep_def by (metis gr0I)
qed

text \<open>The new handle in memory and in the ring.\<close>

lemma append_new:
  assumes "lru_rep c A" "a = lc_fresh c"
  obtains h bs where "LRU_Append a ((lc_handles c)(a \<mapsto> handle_of e)) = Some h" "ring h (ac_order A @ [a])" "no_temporary h"
    "data_of h = (data_of (lc_handles c))(a \<mapsto> (e, 2))" "htable_rep h (lc_table c) bs" "mset (concat bs) = mset (ac_order A)"
proof -
  let ?h = "lc_handles c" and ?g = "(lc_handles c)(a \<mapsto> handle_of e)"
  have rep: "cache_rep c (ac_order A) (ac_live A) (\<lambda>b. of_bool (b \<in> set (ac_order A)) + ac_held A b) (ac_deleted A)"
    using assms by (simp add: lru_rep_def)
  note D = cache_repD [OF rep]
  have out: "a \<notin> set (ac_order A)" using not_live(2) [OF assms(1), of a] assms(2) by simp
  have a: "2 \<le> a" "?h a = None" using rep assms(2) by (simp_all add: cache_rep_def)
  then have ne: "a \<noteq> lru_head" "a \<noteq> NULL" by (auto simp: lru_head_def NULL_def)
  have g: "next_of ?g = (next_of ?h)(a \<mapsto> NULL)" "prev_of ?g = (prev_of ?h)(a \<mapsto> NULL)"
    "next_hash_of ?g = (next_hash_of ?h)(a \<mapsto> NULL)" "data_of ?g = (data_of ?h)(a \<mapsto> (e, 2))"
    by (auto simp: view_defs handle_of_def entry_of_handle_def fun_eq_iff)
  have "hash_of ?g z = hash_of ?h z" if "z \<noteq> a" for z using that by (simp add: hash_of_def g(4))
  moreover have "\<exists>bs. htable_rep ?h (lc_table c) bs \<and> mset (concat bs) = mset (ac_order A)" using rep by (simp add: cache_rep_def)
  ultimately have ring: "ring ?g (ac_order A)" and table: "\<exists>bs. htable_rep ?g (lc_table c) bs \<and> mset (concat bs) = mset (ac_order A)"
    using structure_frame [OF D(1), of "lc_table c" ?g] out ne(1) g by (metis fun_upd_apply)+
  have nt: "no_temporary ?g" using D(2) ne(2) by (simp add: no_temporary_def g(1))
  obtain h where h: "LRU_Append a ?g = Some h" "ring h (ac_order A @ [a])" "no_temporary h" "next_hash_of h = next_hash_of ?g"
    "data_of h = data_of ?g" using LRU_Append_ring [OF ring nt _ ne(1) out] by auto
  obtain bs where bs: "htable_rep ?g (lc_table c) bs" "mset (concat bs) = mset (ac_order A)" using table by blast
  have "htable_rep h (lc_table c) bs" using bs(1) table_rep_cong [OF h(4,5)] by blast
  then show thesis using that [OF h(1-3)] h(5) g(4) bs(2) by simp
qed

lemma has_key_Cons: "map_of live a = None \<Longrightarrow> b \<noteq> a \<Longrightarrow> has_key ((a, e) # live) key hash b \<longleftrightarrow> has_key live key hash b"
  by (simp add: has_key_def)

text \<open>The table takes the new handle and gives back the one it replaces.\<close>

lemma insert_new:
  assumes "lru_rep c A" "a = lc_fresh c" "length (ac_order A) < 2 ^ 31"
  obtains h h' t where "LRU_Append a ((lc_handles c)(a \<mapsto> handle_of e)) = Some h"
    "ht_Insert a h (lc_table c) = Some (case a_find (en_key e) (en_hash e) A of None \<Rightarrow> NULL | Some z \<Rightarrow> z, h', t)"
    "ring h' (ac_order A @ [a])" "no_temporary h'" "data_of h' = (data_of (lc_handles c))(a \<mapsto> (e, 2))"
    "\<exists>bs. htable_rep h' t bs \<and> mset (concat bs) =
      add_mset a (mset (case a_find (en_key e) (en_hash e) A of None \<Rightarrow> ac_order A | Some z \<Rightarrow> remove1 z (ac_order A)))"
proof -
  have rep: "cache_rep c (ac_order A) (ac_live A) (\<lambda>b. of_bool (b \<in> set (ac_order A)) + ac_held A b) (ac_deleted A)"
    using assms by (simp add: lru_rep_def)
  note D = cache_repD [OF rep]
  have out: "a \<notin> set (ac_order A)" using not_live(2) [OF assms(1), of a] assms(2) by simp
  have "2 \<le> a" using rep assms(2) by (simp add: cache_rep_def)
  then have ne: "a \<noteq> lru_head" "a \<noteq> NULL" by (auto simp: lru_head_def NULL_def)
  obtain h bs where h: "LRU_Append a ((lc_handles c)(a \<mapsto> handle_of e)) = Some h" "ring h (ac_order A @ [a])" "no_temporary h"
    "data_of h = (data_of (lc_handles c))(a \<mapsto> (e, 2))" "htable_rep h (lc_table c) bs" "mset (concat bs) = mset (ac_order A)"
    using append_new [OF assms(1,2)] by metis
  have set: "set (concat bs) = set (ac_order A)" using h(6) by (rule mset_eq_setD)
  have len: "length (concat bs) = length (ac_order A)" using h(6) by (rule mset_eq_length)
  have "data_of h a = Some (e, 2)" using h(4) by simp
  then obtain x where x: "h a = Some x" "entry_of_handle x = e" by (auto simp: data_of_def)
  then have xe: "lh_key_data x = en_key e" "lh_hash x = en_hash e" by (auto simp: entry_of_handle_def)
  have m: "matches h key hash z \<longleftrightarrow> has_key (ac_live A) key hash z" if "z \<in> set (ac_order A)" for key hash z
  proof -
    have "z \<noteq> a" using that out by auto
    then have "matches h key hash z \<longleftrightarrow> matches (lc_handles c) key hash z" by (simp add: matches_def h(4))
    then show ?thesis using matches_has_key [OF D(3)] that D(5) by metis
  qed
  have u: "y = z" if "y \<in> set (ac_order A)" "z \<in> set (ac_order A)" "has_key (ac_live A) key hash y" "has_key (ac_live A) key hash z" for y z key hash
    using rep that unfolding cache_rep_def by blast
  have uniq: "y = z" if "y \<in> set (concat bs)" "z \<in> set (concat bs)" "matches h (lh_key_data x) (lh_hash x) y" "matches h (lh_key_data x) (lh_hash x) z" for y z
    using that u m unfolding set by blast
  have f: "find (matches h (lh_key_data x) (lh_hash x)) (concat bs) = a_find (en_key e) (en_hash e) A"
  proof -
    have "find (matches h (lh_key_data x) (lh_hash x)) (concat bs) = find (matches h (lh_key_data x) (lh_hash x)) (ac_order A)"
      by (rule find_unique [OF set]) (use uniq set in blast)
    also have "\<dots> = find (has_key (ac_live A) (lh_key_data x) (lh_hash x)) (ac_order A)" by (rule find_cong_set) (rule m)
    finally show ?thesis by (simp add: a_find_def xe)
  qed
  have pre: "lru_head \<notin> set (concat bs)" "a \<notin> set (concat bs)" "length (concat bs) < 2 ^ 31"
    using D(5) out assms(3) by (simp_all only: set len not_False_eq_True)
  obtain old h' t bs' where i: "ht_Insert a h (lc_table c) = Some (case old of None \<Rightarrow> NULL | Some z \<Rightarrow> z, h', t)"
    "old = find (matches h (lh_key_data x) (lh_hash x)) (concat bs)" "htable_rep h' t bs'"
    "mset (concat bs') = add_mset a (case old of None \<Rightarrow> mset (concat bs) | Some z \<Rightarrow> mset (concat bs) - {#z#})"
    "next_of h' = next_of h" "prev_of h' = prev_of h" "data_of h' = data_of h"
    using ht_Insert_rep [OF h(5,3) pre(1,2) x(1) ne(2,1) pre(3) uniq] by blast
  have "ring h' (ac_order A @ [a])" "no_temporary h'" using h(2,3) i(5,6) by (simp_all add: ring_def no_temporary_def)
  moreover have "mset (concat bs') = add_mset a (mset (case old of None \<Rightarrow> ac_order A | Some z \<Rightarrow> remove1 z (ac_order A)))"
    using i(4) h(6) by (cases old) simp_all
  ultimately show thesis using that [OF h(1), of h' t] i f h(4) by auto
qed

lemma LRU_Insert_rep:
  assumes "lru_rep c A" "length (ac_order A) < 2 ^ 31"
  shows "\<exists>c'. LRU_Insert (en_key e) (en_hash e) (en_value e) (en_charge e) c = Some (lc_fresh c, c') \<and>
    lru_rep c' (a_insert (lc_capacity c) (lc_fresh c) e A) \<and> lc_capacity c' = lc_capacity c \<and> lc_fresh c' = Suc (lc_fresh c)"
proof -
  let ?a = "lc_fresh c" and ?old = "a_find (en_key e) (en_hash e) A"
  have rep: "cache_rep c (ac_order A) (ac_live A) (\<lambda>b. of_bool (b \<in> set (ac_order A)) + ac_held A b) (ac_deleted A)"
    and held: "\<And>b. 0 < ac_held A b \<Longrightarrow> map_of (ac_live A) b \<noteq> None" using assms by (simp_all add: lru_rep_def)
  note D = cache_repD [OF rep] and fresh = not_live [OF assms(1) order_refl]
  have two: "2 \<le> ?a" "\<And>b. ?a \<le> b \<Longrightarrow> lc_handles c b = None" using rep by (simp_all add: cache_rep_def)
  obtain h h' t where i: "LRU_Append ?a ((lc_handles c)(?a \<mapsto> handle_of e)) = Some h"
    "ht_Insert ?a h (lc_table c) = Some (case ?old of None \<Rightarrow> NULL | Some z \<Rightarrow> z, h', t)"
    "ring h' (ac_order A @ [?a])" "no_temporary h'" "data_of h' = (data_of (lc_handles c))(?a \<mapsto> (e, 2))"
    "\<exists>bs. htable_rep h' t bs \<and> mset (concat bs) = add_mset ?a (mset (case ?old of None \<Rightarrow> ac_order A | Some z \<Rightarrow> remove1 z (ac_order A)))"
    using insert_new [OF assms(1) refl assms(2)] by metis
  let ?B = "a_add ?a e A" and ?refs = "\<lambda>b. of_bool (b \<in> set (ac_order A @ [?a])) + ac_held (a_add ?a e A) b"
  have B: "ac_order ?B = ac_order A @ [?a]" "ac_live ?B = (?a, e) # ac_live A" "ac_deleted ?B = ac_deleted A"
    "ac_held ?B = (ac_held A)(?a := 1)" using fresh(3) by (simp_all add: a_add_def a_hold_def)
  have heldB: "map_of (ac_live ?B) b \<noteq> None" if "0 < ac_held ?B b" for b
    using that held [of b] by (auto simp: B split: if_splits)
  define c1 where "c1 = c\<lparr>lc_usage := lc_usage c + en_charge e, lc_fresh := Suc ?a\<rparr>"
  have mem: "memory_rep g (ac_live ?B) ?refs" if "data_of g = data_of h'" for g
  proof -
    have "?a \<noteq> lru_head" "?a \<noteq> NULL" using two(1) by (auto simp: lru_head_def NULL_def)
    moreover have "?a \<notin> fst ` set (ac_live A)" using fresh(1) by (simp add: map_of_eq_None_iff)
    moreover have "handle_rep (map_of (ac_live ?B) b) (?refs b) (data_of g b)" if "b \<noteq> lru_head" for b
    proof (cases "b = ?a")
      case True
      then show ?thesis using \<open>data_of g = data_of h'\<close> i(5) by (simp add: handle_rep_def B)
    next
      case False
      then have "?refs b = of_bool (b \<in> set (ac_order A)) + ac_held A b" by (simp add: B)
      then show ?thesis
        using D(3) that False \<open>data_of g = data_of h'\<close> i(5) unfolding memory_rep_def by (simp add: B)
    qed
    ultimately show ?thesis
      using D(3) that i(5) by (simp add: memory_rep_def B)
  qed
  have unused: "\<forall>b. Suc ?a \<le> b \<longrightarrow> g b = None" if "data_of g = data_of h'" for g
    using that i(5) two(2) by (auto simp: view_None(4) [symmetric])
  have parts: "cache_rep (c1\<lparr>lc_handles := g, lc_table := t'\<rparr>) xs (ac_live ?B) ?refs (ac_deleted ?B)"
    if "data_of g = data_of h'" "no_temporary g" "ring g xs" "\<exists>bs. htable_rep g t' bs \<and> mset (concat bs) = mset xs"
      "set xs \<subseteq> set (ac_order ?B)" "\<forall>b\<in>set xs. b \<noteq> ?a \<longrightarrow> \<not> has_key (ac_live A) (en_key e) (en_hash e) b" for g t' xs
  proof -
    have live: "\<forall>b\<in>set xs. map_of (ac_live ?B) b \<noteq> None" using that(5) D(6) by (auto simp: B)
    have old: "b \<in> set (ac_order A)" if "b \<in> set xs" "b \<noteq> ?a" for b using that \<open>set xs \<subseteq> _\<close> by (auto simp: B)
    have k: "has_key (ac_live ?B) key hash b \<longleftrightarrow> (if b = ?a then en_key e = key \<and> en_hash e = hash else has_key (ac_live A) key hash b)" for key hash b
      by (auto simp: B has_key_def)
    have "\<forall>b\<in>set xs. \<forall>b'\<in>set xs. \<forall>key hash. has_key (ac_live ?B) key hash b \<longrightarrow> has_key (ac_live ?B) key hash b' \<longrightarrow> b = b'"
    proof (intro ballI allI impI)
      fix b b' key hash
      assume bb: "b \<in> set xs" "b' \<in> set xs" "has_key (ac_live ?B) key hash b" "has_key (ac_live ?B) key hash b'"
      show "b = b'"
      proof (cases "b = ?a \<or> b' = ?a")
        case True
        then show ?thesis using bb that(6) by (auto simp: k split: if_splits)
      next
        case False
        then have "has_key (ac_live A) key hash b" "has_key (ac_live A) key hash b'" using bb by (simp_all add: k)
        then show ?thesis using rep old bb False unfolding cache_rep_def by blast
      qed
    qed
    moreover have "charges (ac_live ?B) = lc_usage c + en_charge e" using D(7) by (simp add: charges_def B)
    ultimately show ?thesis
      using that(1-4) mem [OF that(1)] unused [OF that(1)] live two(1) D(8) unfolding cache_rep_def by (simp add: c1_def B)
  qed
  have start: "LRU_Insert (en_key e) (en_hash e) (en_value e) (en_charge e) c = do {
      c \<leftarrow> (if (case ?old of None \<Rightarrow> NULL | Some z \<Rightarrow> z) \<noteq> NULL
           then do { h \<leftarrow> LRU_Remove (case ?old of None \<Rightarrow> NULL | Some z \<Rightarrow> z) h';
                     LRU_Unref (case ?old of None \<Rightarrow> NULL | Some z \<Rightarrow> z) (c1\<lparr>lc_handles := h, lc_table := t\<rparr>) }
           else Some (c1\<lparr>lc_handles := h', lc_table := t\<rparr>));
      c \<leftarrow> LRU_evict c; Some (?a, c) }"
    using i(1,2) by (simp add: LRU_Insert_def Let_def handle_of_def c1_def)
  have "\<exists>c2. (if (case ?old of None \<Rightarrow> NULL | Some z \<Rightarrow> z) \<noteq> NULL
           then do { h \<leftarrow> LRU_Remove (case ?old of None \<Rightarrow> NULL | Some z \<Rightarrow> z) h';
                     LRU_Unref (case ?old of None \<Rightarrow> NULL | Some z \<Rightarrow> z) (c1\<lparr>lc_handles := h, lc_table := t\<rparr>) }
           else Some (c1\<lparr>lc_handles := h', lc_table := t\<rparr>)) = Some c2 \<and>
      lru_rep c2 (case ?old of None \<Rightarrow> ?B | Some z \<Rightarrow> a_unlink z ?B) \<and> lc_capacity c2 = lc_capacity c \<and> lc_fresh c2 = Suc ?a"
  proof (cases ?old)
    case None
    then have "\<forall>b\<in>set (ac_order A). \<not> has_key (ac_live A) (en_key e) (en_hash e) b" unfolding a_find_def find_None_iff by blast
    then have "cache_rep (c1\<lparr>lc_handles := h', lc_table := t\<rparr>) (ac_order A @ [?a]) (ac_live ?B) ?refs (ac_deleted ?B)"
      by (intro parts) (use i(3,4,6) None in \<open>auto simp: B\<close>)
    then have "lru_rep (c1\<lparr>lc_handles := h', lc_table := t\<rparr>) ?B" using heldB by (simp add: lru_rep_def B(1))
    then show ?thesis using None by (simp add: c1_def)
  next
    case (Some z)
    then have z: "z \<in> set (ac_order A)" "has_key (ac_live A) (en_key e) (en_hash e) z" unfolding a_find_def by (auto dest: find_mem)
    have zl: "map_of (ac_live A) z \<noteq> None" using D(6) [OF z(1)] .
    then have zn: "z \<noteq> NULL" using memory_live(2) [OF D(3)] by blast
    have za: "z \<noteq> ?a" using z(1) fresh(2) by auto
    obtain us vs where o: "ac_order A = us @ z # vs" using z(1) by (meson split_list)
    have r: "remove1 z (ac_order ?B) = us @ (vs @ [?a])" "remove1 z (ac_order A) = us @ vs"
      using o D(4) by (auto simp: B remove1_append)
    have "ring h' (us @ z # (vs @ [?a]))" using i(3) o by simp
    then obtain g where g: "LRU_Remove z h' = Some g" "ring g (us @ (vs @ [?a]))" "no_temporary g" "next_hash_of g = next_hash_of h'"
      "data_of g = data_of h'" using LRU_Remove_ring [OF _ i(4)] by blast
    have others: "\<not> has_key (ac_live A) (en_key e) (en_hash e) b" if "b \<in> set (ac_order A)" "b \<noteq> z" for b
      using rep that z unfolding cache_rep_def by blast
    have "z \<notin> set (us @ vs)" using D(4) o by auto
    then have none: "\<forall>b\<in>set (us @ (vs @ [?a])). b \<noteq> ?a \<longrightarrow> \<not> has_key (ac_live A) (en_key e) (en_hash e) b"
      using others o by auto
    have "\<exists>bs. htable_rep g t bs \<and> mset (concat bs) = mset (us @ (vs @ [?a]))"
      using i(6) Some r(2) table_rep_cong [OF g(4,5)] by auto
    then have "cache_rep (c1\<lparr>lc_handles := g, lc_table := t\<rparr>) (us @ (vs @ [?a])) (ac_live ?B) ?refs (ac_deleted ?B)"
      by (intro parts [OF g(5,3,2) _ _ none]) (use o in \<open>auto simp: B\<close>)
    then have cr: "cache_rep (c1\<lparr>lc_handles := g, lc_table := t\<rparr>) (remove1 z (ac_order ?B)) (ac_live ?B)
        (\<lambda>b. of_bool (b \<in> set (ac_order ?B)) + ac_held ?B b) (ac_deleted ?B)" by (simp only: r(1) [unfolded B(1)] B(1))
    have "distinct (ac_order ?B)" using D(4) fresh(2) by (simp add: B)
    moreover have "map_of (ac_live ?B) z \<noteq> None" using zl by (simp add: B)
    ultimately obtain c2 where "LRU_Unref z (c1\<lparr>lc_handles := g, lc_table := t\<rparr>) = Some c2" "lru_rep c2 (a_unlink z ?B)"
      "lc_capacity c2 = lc_capacity c" "lc_fresh c2 = Suc ?a"
      using unlink_forget [OF cr _ _ _ heldB] z(1) by (auto simp: B(1) c1_def)
    then show ?thesis using Some zn g(1) by simp
  qed
  then obtain c2 where c2: "LRU_Insert (en_key e) (en_hash e) (en_value e) (en_charge e) c = do { c \<leftarrow> LRU_evict c2; Some (?a, c) }"
    "lru_rep c2 (case ?old of None \<Rightarrow> ?B | Some z \<Rightarrow> a_unlink z ?B)" "lc_capacity c2 = lc_capacity c" "lc_fresh c2 = Suc ?a"
    unfolding start by force
  then show ?thesis using LRU_evict_rep [OF c2(2)] by (auto simp: a_insert_def Let_def)
qed

section \<open>A new shard and the end of one\<close>

lemma make_LRUCache_rep:
  "\<exists>c. make_LRUCache any capacity = Some c \<and> lc_capacity c = capacity \<and> lc_fresh c = 2 \<and>
     lru_rep c \<lparr>ac_live = [], ac_order = [], ac_held = (\<lambda>_. 0), ac_deleted = []\<rparr>"
proof -
  obtain h :: "unit handles" and t bs where t: "ht_Resize (Map.empty :: unit handles) \<lparr>ht_length = 0, ht_elems = 0, ht_list = []\<rparr> = Some (h, t)"
    "htable_rep h t bs" "mset (concat bs) = mset (concat ([] :: nat list list))"
    using ht_Resize_rep [of "\<lparr>ht_length = 0, ht_elems = 0, ht_list = []\<rparr>" "[]" "Map.empty :: unit handles"] by auto
  let ?h = "[lru_head \<mapsto> \<lparr>lh_value = any, lh_next_hash = NULL, lh_next = lru_head, lh_prev = lru_head,
          lh_charge = 0, lh_refs = 0, lh_hash = 0, lh_key_data = []\<rparr>]"
  have none: "concat bs = []" using t(3) by simp
  then have empty: "bs ! i = []" if "i < length bs" for i using nth_mem [OF that] by auto
  have "length bs = unat (ht_length t)" using t(2) by (simp add: htable_rep_def buckets_rep_def)
  then have "\<forall>i<unat (ht_length t). bs ! i = []" using empty by simp
  moreover from this have "\<forall>i<unat (ht_length t). ht_list t ! i = NULL"
    using t(2) unfolding htable_rep_def buckets_rep_def by (metis chain.simps(1))
  ultimately have "htable_rep ?h t bs" using t(2) unfolding htable_rep_def buckets_rep_def by simp
  moreover have "ring ?h []" by (simp add: ring_def view_defs)
  moreover have "no_temporary ?h" by (auto simp: no_temporary_def next_of_def)
  moreover have "memory_rep ?h [] r" for r by (auto simp: memory_rep_def handle_rep_def data_of_def lru_head_def NULL_def)
  moreover have "mset (concat bs) = mset []" using none by simp
  moreover have "\<forall>a. 2 \<le> a \<longrightarrow> ?h a = None" by (simp add: lru_head_def)
  ultimately have "cache_rep \<lparr>lc_capacity = capacity, lc_usage = 0, lc_handles = ?h, lc_table = t, lc_fresh = 2, lc_deleted = []\<rparr> [] [] r []" for r
    unfolding cache_rep_def by (auto simp: charges_def)
  moreover have table: "make_HandleTable = Some t" using t(1) by (simp add: make_HandleTable_def)
  have "make_LRUCache any capacity =
      Some \<lparr>lc_capacity = capacity, lc_usage = 0, lc_handles = ?h, lc_table = t, lc_fresh = 2, lc_deleted = []\<rparr>"
    unfolding make_LRUCache_def table by simp
  ultimately show ?thesis by (intro exI conjI) (auto simp: lru_rep_def)
qed

text \<open>The destructor walks along the ring and frees every handle behind it.\<close>

fun forward :: "(nat \<Rightarrow> nat option) \<Rightarrow> nat list \<Rightarrow> bool" where
  "forward nx [] \<longleftrightarrow> True"
| "forward nx (z # zs) \<longleftrightarrow> nx z = Some (hd (zs @ [lru_head])) \<and> forward nx zs"

lemma forward_cong: "(\<And>z. z \<in> set zs \<Longrightarrow> nx' z = nx z) \<Longrightarrow> forward nx' zs \<longleftrightarrow> forward nx zs"
  by (induction zs) auto

lemma ring_linked_forward: "ring_linked nx pv (zs @ [lru_head]) \<Longrightarrow> forward nx zs"
proof (induction zs)
  case (Cons z zs)
  then show ?case by (cases zs) auto
qed simp

lemma LRU_destroy_from_rep:
  assumes "forward (next_of (lc_handles c)) zs" "distinct zs" "lru_head \<notin> set zs"
    and "\<And>z. z \<in> set zs \<Longrightarrow> \<exists>x. lc_handles c z = Some x \<and> entry_of_handle x = f z \<and> lh_refs x = 1"
  shows "\<exists>c'. LRU_destroy_from (hd (zs @ [lru_head])) c = Some c' \<and> lc_deleted c' = lc_deleted c @ map (\<lambda>z. (en_key (f z), en_value (f z))) zs"
  using assms
proof (induction zs arbitrary: c)
  case Nil
  then show ?case by (subst LRU_destroy_from.simps) simp
next
  case (Cons z zs)
  obtain x where x: "lc_handles c z = Some x" "entry_of_handle x = f z" "lh_refs x = 1" using Cons.prems(4) [of z] by auto
  have nx: "lh_next x = hd (zs @ [lru_head])" using Cons.prems(1) x(1) by (simp add: next_of_def)
  have "hd (zs @ [lru_head]) \<noteq> z" using Cons.prems(2,3) by (cases zs) auto
  then have nz: "lh_next x \<noteq> z" using nx by simp
  have fields: "lh_key_data x = en_key (f z)" "lh_value x = en_value (f z)" using x(2) by (metis lru_entry.select_convs(2,3) entry_of_handle_def)+
  let ?c = "c\<lparr>lc_usage := lc_usage c - lh_charge x, lc_deleted := lc_deleted c @ [(lh_key_data x, lh_value x)],
    lc_handles := (lc_handles c)(z := None)\<rparr>"
  have u: "LRU_Unref z c = Some ?c" using x nz by (simp add: LRU_Unref_def Let_def LRUHandle_key_def)
  have zh: "z \<noteq> lru_head" using Cons.prems(3) by auto
  have out: "z \<notin> set zs" using Cons.prems(2) by simp
  have "forward (next_of (lc_handles ?c)) zs \<longleftrightarrow> forward (next_of (lc_handles c)) zs"
    by (rule forward_cong) (use out in \<open>auto simp: next_of_def\<close>)
  then have "forward (next_of (lc_handles ?c)) zs" using Cons.prems(1) by simp
  moreover have "\<exists>y. lc_handles ?c y' = Some y \<and> entry_of_handle y = f y' \<and> lh_refs y = 1" if "y' \<in> set zs" for y'
    using Cons.prems(4) [of y'] that out by auto
  ultimately obtain c' where "LRU_destroy_from (hd (zs @ [lru_head])) ?c = Some c'"
    "lc_deleted c' = lc_deleted ?c @ map (\<lambda>z. (en_key (f z), en_value (f z))) zs"
    using Cons.IH [of ?c] Cons.prems(2,3) by (meson distinct.simps(2) list.set_intros(2))
  then show ?case using zh x(1,3) u nx fields by (subst LRU_destroy_from.simps) simp
qed

lemma LRU_destroy_rep:
  assumes "lru_rep c A" "\<And>a. ac_held A a = 0"
  shows "\<exists>c'. LRU_destroy c = Some c' \<and> mset (lc_deleted c') = mset (ac_deleted A) + mset (map (\<lambda>x. (en_key (snd x), en_value (snd x))) (ac_live A))"
proof -
  have rep: "cache_rep c (ac_order A) (ac_live A) (\<lambda>b. of_bool (b \<in> set (ac_order A)) + ac_held A b) (ac_deleted A)"
    using assms by (simp add: lru_rep_def)
  note D = cache_repD [OF rep]
  let ?f = "\<lambda>z. the (map_of (ac_live A) z)"
  have one: "\<exists>x. lc_handles c z = Some x \<and> entry_of_handle x = ?f z \<and> lh_refs x = 1" if z: "z \<in> set (ac_order A)" for z
  proof -
    obtain e where e: "map_of (ac_live A) z = Some e" using D(6) [OF z] by blast
    then obtain x where x: "lc_handles c z = Some x" "entry_of_handle x = e" "unat (lh_refs x) = of_bool (z \<in> set (ac_order A)) + ac_held A z"
      using memory_live(3) [OF D(3) e] by blast
    then have "unat (lh_refs x) = 1" using z assms(2) by simp
    then have "lh_refs x = 1" by (metis unat_1 word_unat_eq_iff)
    then show ?thesis using x e by simp
  qed
  obtain l where l: "lc_handles c lru_head = Some l" using ring_mem [OF D(1)] by blast
  have "lh_next l = hd (ac_order A @ [lru_head])" using ring_first [OF D(1) l] by (cases "ac_order A") auto
  moreover have "forward (next_of (lc_handles c)) (ac_order A)"
    using ring_linked_forward [of _ _ "lru_head # ac_order A"] D(1) unfolding ring_def by (metis append_Cons forward.simps(2))
  ultimately obtain c' where c': "LRU_destroy c = Some c'" "lc_deleted c' = lc_deleted c @ map (\<lambda>z. (en_key (?f z), en_value (?f z))) (ac_order A)"
    using LRU_destroy_from_rep [of c "ac_order A" ?f] D(4,5) one l by (auto simp: LRU_destroy_def)
  have dist: "distinct (map fst (ac_live A))" using D(3) by (simp add: memory_rep_def)
  have "fst ` set (ac_live A) = set (ac_order A)"
  proof
    show "set (ac_order A) \<subseteq> fst ` set (ac_live A)" using D(6) by (force simp: map_of_eq_None_iff)
    show "fst ` set (ac_live A) \<subseteq> set (ac_order A)"
    proof
      fix z assume "z \<in> fst ` set (ac_live A)"
      then obtain e where e: "map_of (ac_live A) z = Some e" by (metis map_of_eq_None_iff not_None_eq)
      have "0 < of_bool (z \<in> set (ac_order A)) + ac_held A z" using memory_live(3) [OF D(3) e] by auto
      then show "z \<in> set (ac_order A)" using assms(2) by (cases "z \<in> set (ac_order A)") auto
    qed
  qed
  then have "mset (map fst (ac_live A)) = mset (ac_order A)" using dist D(4) set_eq_iff_mset_eq_distinct [of "map fst (ac_live A)" "ac_order A"]
    by (metis list.set_map)
  then have "image_mset (\<lambda>z. (en_key (?f z), en_value (?f z))) (mset (ac_order A)) =
      image_mset (\<lambda>z. (en_key (?f z), en_value (?f z))) (mset (map fst (ac_live A)))" by simp
  also have "\<dots> = mset (map (\<lambda>x. (en_key (snd x), en_value (snd x))) (ac_live A))"
  proof -
    have "?f (fst x) = snd x" if "x \<in> set (ac_live A)" for x using map_of_is_SomeI [OF dist, of "fst x" "snd x"] that by simp
    then have "map (\<lambda>z. (en_key (?f z), en_value (?f z))) (map fst (ac_live A)) = map (\<lambda>x. (en_key (snd x), en_value (snd x))) (ac_live A)"
      by simp
    then show ?thesis unfolding mset_map [symmetric] by (rule arg_cong)
  qed
  finally show ?thesis using c' D(8) by (intro exI [of _ c']) simp
qed

end
