(* ===== verification/Ldb_Cache_Theorems.thy ===== *)
theory Ldb_Cache_Theorems
  imports Ldb_Cache_Steps
begin

text \<open>
  The whole cache under any sequence of calls of a caller that releases only what it holds: each shard follows
  its specification, keeps to its budget, and hands every inserted value to its deleter exactly once.
\<close>

section \<open>Calls\<close>

datatype 'v cache_op = CInsert "byte list" 'v "64 word" | CLookup "byte list" | CRelease cache_handle | CErase "byte list"

primrec cache_call :: "'v cache_op \<Rightarrow> 'v ShardedLRUCache \<Rightarrow> (cache_handle option \<times> 'v ShardedLRUCache) option" where
  "cache_call (CInsert key v charge) c = map_option (\<lambda>(h, c). (Some h, c)) (Cache_Insert key v charge c)"
| "cache_call (CLookup key) c = Cache_Lookup key c"
| "cache_call (CRelease handle) c = map_option (Pair None) (Cache_Release handle c)"
| "cache_call (CErase key) c = map_option (Pair None) (Cache_Erase key c)"

fun cache_calls :: "'v cache_op list \<Rightarrow> 'v ShardedLRUCache \<Rightarrow> (cache_handle option list \<times> 'v ShardedLRUCache) option" where
  "cache_calls [] c = Some ([], c)"
| "cache_calls (x # xs) c = do { (r, c) \<leftarrow> cache_call x c; (rs, c) \<leftarrow> cache_calls xs c; Some (r # rs, c) }"

text \<open>The specification of a shard goes with the address of its next handle.\<close>

type_synonym 'v ashard = "nat \<times> 'v acache"

definition entry_for :: "byte list \<Rightarrow> 'v \<Rightarrow> 64 word \<Rightarrow> 'v lru_entry" where
  "entry_for key v charge = \<lparr>en_hash = HashSlice key, en_key = key, en_value = v, en_charge = charge\<rparr>"

primrec a_call :: "64 word \<Rightarrow> 'v cache_op \<Rightarrow> 'v ashard list \<Rightarrow> cache_handle option \<times> 'v ashard list" where
  "a_call capacity (CInsert key v charge) S =
     (let s = Shard (HashSlice key); (n, A) = S ! s
      in (Some (s, n), S[s := (Suc n, a_insert capacity n (entry_for key v charge) A)]))"
| "a_call capacity (CLookup key) S =
     (let s = Shard (HashSlice key); (n, A) = S ! s; (r, A) = a_lookup key (HashSlice key) A
      in (map_option (Pair s) r, S[s := (n, A)]))"
| "a_call capacity (CRelease handle) S =
     (let (n, A) = S ! fst handle in (None, S[fst handle := (n, a_release (snd handle) A)]))"
| "a_call capacity (CErase key) S =
     (let s = Shard (HashSlice key); (n, A) = S ! s in (None, S[s := (n, a_erase key (HashSlice key) A)]))"

fun a_calls :: "64 word \<Rightarrow> 'v cache_op list \<Rightarrow> 'v ashard list \<Rightarrow> cache_handle option list \<times> 'v ashard list" where
  "a_calls capacity [] S = ([], S)"
| "a_calls capacity (x # xs) S =
     (let (r, S) = a_call capacity x S; (rs, S) = a_calls capacity xs S in (r # rs, S))"

text \<open>A caller releases only handles it holds.\<close>

primrec releases_held :: "'v cache_op \<Rightarrow> 'v ashard list \<Rightarrow> bool" where
  "releases_held (CInsert key v charge) S \<longleftrightarrow> True"
| "releases_held (CLookup key) S \<longleftrightarrow> True"
| "releases_held (CRelease handle) S \<longleftrightarrow> fst handle < kNumShards \<and> 0 < ac_held (snd (S ! fst handle)) (snd handle)"
| "releases_held (CErase key) S \<longleftrightarrow> True"

fun good_caller :: "64 word \<Rightarrow> 'v cache_op list \<Rightarrow> 'v ashard list \<Rightarrow> bool" where
  "good_caller capacity [] S \<longleftrightarrow> True"
| "good_caller capacity (x # xs) S \<longleftrightarrow> releases_held x S \<and> good_caller capacity xs (snd (a_call capacity x S))"

definition new_shards :: "'v ashard list" where
  "new_shards = replicate kNumShards (2, \<lparr>ac_live = [], ac_order = [], ac_held = (\<lambda>_. 0), ac_deleted = []\<rparr>)"

section \<open>Facts on the specification\<close>

text \<open>What every operation leaves of live entries, order and held handles.\<close>

definition shard_fits :: "nat \<Rightarrow> nat \<Rightarrow> 'v ashard \<Rightarrow> bool" where
  "shard_fits s n x \<longleftrightarrow> length (ac_order (snd x)) \<le> n \<and> (\<forall>a. ac_held (snd x) a \<le> n) \<and>
     (\<forall>a e. (a, e) \<in> set (ac_live (snd x)) \<longrightarrow> Shard (en_hash e) = s)"

lemma forget_fits: "shard_fits s n (k, A) \<Longrightarrow> shard_fits s n (k, a_forget a A)"
  by (auto simp: shard_fits_def a_forget_def)

lemma unlink_fits: "shard_fits s n (k, A) \<Longrightarrow> shard_fits s n (k, a_unlink a A)"
  unfolding a_unlink_def
  by (rule forget_fits) (auto simp: shard_fits_def length_remove1)

lemma release_fits: "shard_fits s n (k, A) \<Longrightarrow> shard_fits s n (k, a_release a A)"
  unfolding a_release_def
  by (rule forget_fits) (auto simp: shard_fits_def le_diff_conv intro: le_trans)

lemma erase_fits: "shard_fits s n (k, A) \<Longrightarrow> shard_fits s n (k, a_erase key hash A)"
  by (auto simp: a_erase_def intro: unlink_fits split: option.split)

lemma evict_fits: "shard_fits s n (k, A) \<Longrightarrow> shard_fits s n (k, a_evict capacity xs A)"
  by (induction capacity xs A rule: a_evict.induct) (auto intro: unlink_fits)

lemma lookup_fits: "shard_fits s n (k, A) \<Longrightarrow> shard_fits s (Suc n) (k, snd (a_lookup key hash A))"
  by (auto simp: a_lookup_def a_hold_def shard_fits_def a_find_def length_remove1 le_SucI dest: find_mem split: option.split)

lemma insert_fits:
  assumes "shard_fits s n (k, A)" "Shard (en_hash e) = s"
  shows "shard_fits s (Suc n) (Suc k, a_insert capacity k e A)"
proof -
  have "shard_fits s (Suc n) (Suc k, a_add k e A)" using assms by (auto simp: a_add_def a_hold_def shard_fits_def le_SucI)
  then show ?thesis by (auto simp: a_insert_def Let_def intro!: evict_fits unlink_fits split: option.split)
qed

lemma fits_mono: "shard_fits s n x \<Longrightarrow> shard_fits s (Suc n) x"
  by (auto simp: shard_fits_def le_SucI)

section \<open>All shards represent their specifications\<close>

definition sharded_rep :: "64 word \<Rightarrow> nat \<Rightarrow> 'v ShardedLRUCache \<Rightarrow> 'v ashard list \<Rightarrow> bool" where
  "sharded_rep capacity n c S \<longleftrightarrow> length (sc_shard c) = kNumShards \<and> length S = kNumShards \<and>
     (\<forall>s<kNumShards. lru_rep (sc_shard c ! s) (snd (S ! s)) \<and> lc_capacity (sc_shard c ! s) = capacity \<and>
        lc_fresh (sc_shard c ! s) = fst (S ! s) \<and> shard_fits s n (S ! s))"

lemma Shard_less: "Shard hash < kNumShards"
proof -
  have "unat hash < 2 ^ 32" using unsigned_less [of hash, where ?'a = nat] by simp
  moreover have "unat (drop_bit 28 hash) = unat hash div 2 ^ 28" by (metis unat_drop_bit_eq drop_bit_eq_div)
  ultimately have "unat (drop_bit 28 hash) < 16" by (simp add: less_mult_imp_div_less)
  then show ?thesis by (simp add: Shard_def kNumShards_def kNumShardBits_def)
qed

lemma rep_update:
  assumes "sharded_rep capacity n c S" "s < kNumShards" "lru_rep c' A" "lc_capacity c' = capacity" "lc_fresh c' = k"
    and "shard_fits s (Suc n) (k, A)"
  shows "sharded_rep capacity (Suc n) (c\<lparr>sc_shard := (sc_shard c)[s := c']\<rparr>) (S[s := (k, A)])"
  using assms by (auto simp: sharded_rep_def nth_list_update intro: fits_mono)

lemma cache_call_rep:
  assumes "sharded_rep capacity n c S" "n < 2 ^ 31" "releases_held x S"
  shows "\<exists>c'. cache_call x c = Some (fst (a_call capacity x S), c') \<and> sharded_rep capacity (Suc n) c' (snd (a_call capacity x S))"
proof -
  have shard: "lru_rep (sc_shard c ! s) (snd (S ! s))" "lc_capacity (sc_shard c ! s) = capacity" "lc_fresh (sc_shard c ! s) = fst (S ! s)"
    "shard_fits s n (S ! s)" if "s < kNumShards" for s using assms(1) that by (simp_all add: sharded_rep_def)
  have small: "length (ac_order (snd (S ! s))) < 2 ^ 31" "ac_held (snd (S ! s)) a + 2 < 2 ^ 32" if "s < kNumShards" for s a
  proof -
    have "length (ac_order (snd (S ! s))) \<le> n" "ac_held (snd (S ! s)) a \<le> n" using shard(4) [OF that] by (simp_all add: shard_fits_def)
    then show "length (ac_order (snd (S ! s))) < 2 ^ 31" "ac_held (snd (S ! s)) a + 2 < 2 ^ 32" using assms(2) by simp_all
  qed
  show ?thesis
  proof (cases x)
    case (CInsert key v charge)
    let ?s = "Shard (HashSlice key)" and ?e = "entry_for key v charge"
    obtain c' where "LRU_Insert key (HashSlice key) v charge (sc_shard c ! ?s) = Some (fst (S ! ?s), c')"
      "lru_rep c' (a_insert capacity (fst (S ! ?s)) ?e (snd (S ! ?s)))" "lc_capacity c' = capacity" "lc_fresh c' = Suc (fst (S ! ?s))"
      using LRU_Insert_rep [OF shard(1) small(1), of ?s ?e] shard(2,3) Shard_less by (auto simp: entry_for_def)
    moreover have "shard_fits ?s (Suc n) (Suc (fst (S ! ?s)), a_insert capacity (fst (S ! ?s)) ?e (snd (S ! ?s)))"
      using insert_fits [of ?s n "fst (S ! ?s)" "snd (S ! ?s)" ?e capacity] shard(4) Shard_less by (simp add: entry_for_def)
    ultimately show ?thesis
      using rep_update [OF assms(1) Shard_less] CInsert by (auto simp: Cache_Insert_def on_shard_def Let_def split_beta)
  next
    case (CLookup key)
    let ?s = "Shard (HashSlice key)" and ?r = "a_lookup key (HashSlice key) (snd (S ! Shard (HashSlice key)))"
    obtain c' where l: "LRU_Lookup key (HashSlice key) (sc_shard c ! ?s) = Some (case fst ?r of None \<Rightarrow> NULL | Some a \<Rightarrow> a, c')"
      "lru_rep c' (snd ?r)" "lc_capacity c' = capacity" "lc_fresh c' = fst (S ! ?s)"
      using LRU_Lookup_rep [OF shard(1) small(2), of ?s key "HashSlice key"] shard(2,3) Shard_less by auto
    have "a \<noteq> NULL" if "fst ?r = Some a" for a
    proof -
      have rep: "lru_rep (sc_shard c ! ?s) (snd (S ! ?s))" using shard(1) Shard_less by blast
      then have cr: "cache_rep (sc_shard c ! ?s) (ac_order (snd (S ! ?s))) (ac_live (snd (S ! ?s)))
          (\<lambda>b. of_bool (b \<in> set (ac_order (snd (S ! ?s)))) + ac_held (snd (S ! ?s)) b) (ac_deleted (snd (S ! ?s)))" by (simp add: lru_rep_def)
      have "a \<in> set (ac_order (snd (S ! ?s)))" using that by (auto simp: a_lookup_def a_find_def dest: find_mem split: option.splits)
      then show ?thesis using memory_live(2) [OF cache_repD(3) [OF cr]] cache_repD(6) [OF cr] by blast
    qed
    then have "(if (case fst ?r of None \<Rightarrow> NULL | Some a \<Rightarrow> a) = NULL then None else Some (?s, case fst ?r of None \<Rightarrow> NULL | Some a \<Rightarrow> a)) =
        map_option (Pair ?s) (fst ?r)" by (cases "fst ?r") auto
    moreover have "shard_fits ?s (Suc n) (fst (S ! ?s), snd ?r)" using lookup_fits [of ?s n "fst (S ! ?s)" "snd (S ! ?s)"] shard(4) Shard_less by simp
    ultimately show ?thesis
      using l rep_update [OF assms(1) Shard_less l(2-4)] CLookup by (auto simp: Cache_Lookup_def on_shard_def Let_def split_beta)
  next
    case (CRelease handle)
    let ?s = "fst handle" and ?a = "snd handle"
    have s: "?s < kNumShards" "0 < ac_held (snd (S ! ?s)) ?a" using assms(3) CRelease by simp_all
    obtain c' where l: "LRU_Release ?a (sc_shard c ! ?s) = Some c'" "lru_rep c' (a_release ?a (snd (S ! ?s)))" "lc_capacity c' = capacity"
      "lc_fresh c' = fst (S ! ?s)" using LRU_Release_rep [OF shard(1) [OF s(1)] s(2)] shard(2,3) [OF s(1)] by auto
    have rep: "lru_rep (sc_shard c ! ?s) (snd (S ! ?s))" using shard(1) s(1) by blast
    then obtain e where e: "map_of (ac_live (snd (S ! ?s))) ?a = Some e" using s(2) by (auto simp: lru_rep_def)
    have "memory_rep (lc_handles (sc_shard c ! ?s)) (ac_live (snd (S ! ?s)))
        (\<lambda>b. of_bool (b \<in> set (ac_order (snd (S ! ?s)))) + ac_held (snd (S ! ?s)) b)"
      using rep by (auto simp: lru_rep_def dest: cache_repD(3))
    then obtain h where h: "lc_handles (sc_shard c ! ?s) ?a = Some h" "entry_of_handle h = e" using memory_live(3) e by blast
    have "Shard (en_hash e) = ?s" using shard(4) [OF s(1)] map_of_SomeD [OF e] by (auto simp: shard_fits_def)
    then have "Shard (lh_hash h) = ?s" using h(2) by (auto simp: entry_of_handle_def)
    moreover have "shard_fits ?s (Suc n) (fst (S ! ?s), a_release ?a (snd (S ! ?s)))"
      using release_fits [of ?s n "fst (S ! ?s)" "snd (S ! ?s)"] shard(4) [OF s(1)] by (simp add: fits_mono)
    ultimately show ?thesis
      using h(1) l rep_update [OF assms(1) s(1) l(2-4)] CRelease by (auto simp: Cache_Release_def on_shard_def no_result_def split_beta)
  next
    case (CErase key)
    let ?s = "Shard (HashSlice key)"
    obtain c' where l: "LRU_Erase key (HashSlice key) (sc_shard c ! ?s) = Some c'" "lru_rep c' (a_erase key (HashSlice key) (snd (S ! ?s)))"
      "lc_capacity c' = capacity" "lc_fresh c' = fst (S ! ?s)"
      using LRU_Erase_rep [OF shard(1), of ?s key "HashSlice key"] shard(2,3) Shard_less by auto
    have "shard_fits ?s (Suc n) (fst (S ! ?s), a_erase key (HashSlice key) (snd (S ! ?s)))"
      using erase_fits [of ?s n "fst (S ! ?s)" "snd (S ! ?s)"] shard(4) Shard_less by (simp add: fits_mono)
    then show ?thesis
      using l rep_update [OF assms(1) Shard_less l(2-4)] CErase by (auto simp: Cache_Erase_def on_shard_def no_result_def Let_def split_beta)
  qed
qed

lemma cache_calls_rep:
  assumes "sharded_rep capacity n c S" "n + length xs \<le> 2 ^ 31" "good_caller capacity xs S"
  shows "\<exists>c'. cache_calls xs c = Some (fst (a_calls capacity xs S), c') \<and> sharded_rep capacity (n + length xs) c' (snd (a_calls capacity xs S))"
  using assms
proof (induction xs arbitrary: n c S)
  case (Cons x xs)
  obtain c1 where c1: "cache_call x c = Some (fst (a_call capacity x S), c1)" "sharded_rep capacity (Suc n) c1 (snd (a_call capacity x S))"
    using cache_call_rep [OF Cons.prems(1), of x] Cons.prems(2,3) by auto
  then obtain c' where "cache_calls xs c1 = Some (fst (a_calls capacity xs (snd (a_call capacity x S))), c')"
    "sharded_rep capacity (Suc n + length xs) c' (snd (a_calls capacity xs (snd (a_call capacity x S))))"
    using Cons.IH [OF c1(2)] Cons.prems(2,3) by auto
  then show ?case using c1(1) by (auto simp: split_beta Let_def)
qed simp

lemma new_shards_rep:
  "\<exists>c. NewLRUCache any capacity = Some c \<and> sharded_rep ((capacity + 15) div 16) 0 c new_shards"
proof -
  obtain c where c: "make_LRUCache any ((capacity + 15) div 16) = Some c" "lc_capacity c = (capacity + 15) div 16" "lc_fresh c = 2"
    "lru_rep c \<lparr>ac_live = [], ac_order = [], ac_held = (\<lambda>_. 0), ac_deleted = []\<rparr>" using make_LRUCache_rep [of any "(capacity + 15) div 16"] by blast
  then have "sharded_rep ((capacity + 15) div 16) 0 \<lparr>sc_shard = replicate kNumShards c, sc_last_id = 0\<rparr> new_shards"
    by (simp add: sharded_rep_def new_shards_def shard_fits_def)
  moreover have k: "of_nat kNumShards = (16 :: 64 word)" by (simp add: kNumShards_def kNumShardBits_def)
  have "NewLRUCache any capacity = Some \<lparr>sc_shard = replicate kNumShards c, sc_last_id = 0\<rparr>"
    unfolding NewLRUCache_def Let_def k using c(1) by (simp del: replicate.simps)
  ultimately show ?thesis by blast
qed

section \<open>Budget and deletion\<close>

definition nat_charges :: "(nat \<times> 'v lru_entry) list \<Rightarrow> nat" where
  "nat_charges live = sum_list (map (\<lambda>x. unat (en_charge (snd x))) live)"

lemma charges_nat: "nat_charges live < 2 ^ 64 \<Longrightarrow> unat (charges live) = nat_charges live"
proof (induction live)
  case (Cons x live)
  then have "unat (charges live) = nat_charges live" by (simp add: nat_charges_def)
  then show ?case using Cons.prems by (simp add: charges_def nat_charges_def unat_word_ariths)
qed (simp add: charges_def nat_charges_def)

lemma nat_charges_filter: "nat_charges (filter P live) \<le> nat_charges live"
  by (induction live) (auto simp: nat_charges_def)

text \<open>A shard is within its budget, or nothing is cached and all that is left is held by callers.\<close>

definition in_budget :: "64 word \<Rightarrow> nat \<Rightarrow> 'v acache \<Rightarrow> bool" where
  "in_budget capacity m A \<longleftrightarrow> nat_charges (ac_live A) \<le> m \<and> (ac_order A = [] \<or> nat_charges (ac_live A) \<le> unat capacity)"

lemma forget_charges: "nat_charges (ac_live (a_forget a A)) \<le> nat_charges (ac_live A)" "ac_order (a_forget a A) = ac_order A"
  by (auto simp: a_forget_def nat_charges_filter)

lemma in_budget_forget: "in_budget capacity m A \<Longrightarrow> in_budget capacity m (a_forget a A)"
  using forget_charges [of a A] unfolding in_budget_def by (metis le_trans)

lemma in_budget_same:
  "in_budget capacity m A \<Longrightarrow> ac_live B = ac_live A \<Longrightarrow> (ac_order A = [] \<Longrightarrow> ac_order B = []) \<Longrightarrow> in_budget capacity m B"
  by (auto simp: in_budget_def)

lemma in_budget_ops:
  assumes "in_budget capacity m A"
  shows "in_budget capacity m (a_release a A)" "in_budget capacity m (a_erase key hash A)" "in_budget capacity m (snd (a_lookup key hash A))"
proof -
  show "in_budget capacity m (a_release a A)"
    unfolding a_release_def by (rule in_budget_forget) (rule in_budget_same [OF assms], simp_all)
  have "in_budget capacity m (a_unlink b A)" for b
    unfolding a_unlink_def by (rule in_budget_forget) (rule in_budget_same [OF assms], simp_all)
  then show "in_budget capacity m (a_erase key hash A)" using assms by (simp add: a_erase_def split: option.split)
  show "in_budget capacity m (snd (a_lookup key hash A))"
    using assms by (auto simp: a_lookup_def a_find_def a_hold_def intro!: in_budget_same [OF assms] split: option.split)
qed

lemma in_budget_evict:
  "nat_charges (ac_live A) \<le> m \<Longrightarrow> m < 2 ^ 64 \<Longrightarrow> in_budget capacity m (a_evict capacity (ac_order A) A)"
proof (induction "ac_order A" arbitrary: A)
  case Nil
  then show ?case by (simp add: in_budget_def)
next
  case (Cons a as)
  show ?case
  proof (cases "capacity < charges (ac_live A)")
    case True
    have o: "as = ac_order (a_unlink a A)" using Cons.hyps(2) [symmetric] by (simp add: a_unlink_order)
    have "nat_charges (ac_live (a_unlink a A)) \<le> m"
      using forget_charges(1) [of a "A\<lparr>ac_order := remove1 a (ac_order A)\<rparr>"] Cons.prems(1) by (simp add: a_unlink_def)
    then have "in_budget capacity m (a_evict capacity as (a_unlink a A))" using Cons.hyps(1) [OF o] o Cons.prems(2) by simp
    then show ?thesis using True Cons.hyps(2) [symmetric] by simp
  next
    case False
    have "unat (charges (ac_live A)) = nat_charges (ac_live A)" using charges_nat [of "ac_live A"] Cons.prems by (simp add: le_less_trans)
    then show ?thesis using False Cons.hyps(2) [symmetric] Cons.prems(1) by (simp add: in_budget_def word_less_nat_alt)
  qed
qed

lemma in_budget_insert:
  assumes "in_budget capacity m A" "m + unat (en_charge e) < 2 ^ 64"
  shows "in_budget capacity (m + unat (en_charge e)) (a_insert capacity a e A)"
proof -
  have "nat_charges (ac_live (a_add a e A)) \<le> m + unat (en_charge e)"
    using assms(1) by (simp add: a_add_def a_hold_def nat_charges_def in_budget_def)
  moreover have "nat_charges (ac_live (a_unlink b B)) \<le> nat_charges (ac_live B)" for b and B :: "'a acache"
    using forget_charges(1) [of b "B\<lparr>ac_order := remove1 b (ac_order B)\<rparr>"] by (simp add: a_unlink_def)
  ultimately have "nat_charges (ac_live (case a_find (en_key e) (en_hash e) A of None \<Rightarrow> a_add a e A | Some old \<Rightarrow> a_unlink old (a_add a e A)))
      \<le> m + unat (en_charge e)" by (auto intro: le_trans split: option.split)
  then show ?thesis using in_budget_evict [OF _ assms(2)] by (simp add: a_insert_def Let_def)
qed

primrec charged :: "'v cache_op \<Rightarrow> nat" where
  "charged (CInsert key v charge) = unat charge"
| "charged (CLookup key) = 0"
| "charged (CRelease handle) = 0"
| "charged (CErase key) = 0"

lemma in_budget_call:
  assumes "\<forall>x\<in>set S. in_budget capacity m (snd x)" "length S = kNumShards" "m + charged x < 2 ^ 64" "releases_held x S"
  shows "\<forall>y\<in>set (snd (a_call capacity x S)). in_budget capacity (m + charged x) (snd y)"
proof -
  have mono: "in_budget capacity m A \<Longrightarrow> in_budget capacity (m + charged x) A" for A by (simp add: in_budget_def)
  have all: "in_budget capacity m (snd (S ! s))" if "s < kNumShards" for s using assms(1,2) that by simp
  have upd: "\<forall>y\<in>set (S[s := (k, A)]). in_budget capacity (m + charged x) (snd y)" if "in_budget capacity (m + charged x) A" for s k A
  proof
    fix y assume "y \<in> set (S[s := (k, A)])"
    then have "y = (k, A) \<or> y \<in> set S" using set_update_subset_insert [of S s "(k, A)"] by blast
    then show "in_budget capacity (m + charged x) (snd y)" using that assms(1) mono by auto
  qed
  show ?thesis
  proof (cases x)
    case (CInsert key v charge)
    let ?s = "Shard (HashSlice key)" and ?e = "entry_for key v charge"
    have e: "unat (en_charge ?e) = charged x" using CInsert by (simp add: entry_for_def)
    have "in_budget capacity (m + charged x) (a_insert capacity (fst (S ! ?s)) ?e (snd (S ! ?s)))"
      using in_budget_insert [OF all [OF Shard_less [of "HashSlice key"]], of ?e "fst (S ! ?s)"] assms(3) unfolding e .
    moreover have "snd (a_call capacity x S) = S[?s := (Suc (fst (S ! ?s)), a_insert capacity (fst (S ! ?s)) ?e (snd (S ! ?s)))]"
      unfolding CInsert by (simp add: Let_def split_beta)
    ultimately show ?thesis using upd by metis
  next
    case (CLookup key)
    let ?s = "Shard (HashSlice key)"
    from upd [OF mono [OF in_budget_ops(3) [OF all [OF Shard_less [of "HashSlice key"]]]], of ?s "fst (S ! ?s)" key "HashSlice key"]
    show ?thesis unfolding CLookup by (simp add: Let_def split_beta)
  next
    case (CRelease handle)
    then have s: "fst handle < kNumShards" using assms(4) by simp
    from upd [OF mono [OF in_budget_ops(1) [OF all [OF s]]], of "fst handle" "fst (S ! fst handle)" "snd handle"]
    show ?thesis unfolding CRelease by (simp add: split_beta)
  next
    case (CErase key)
    let ?s = "Shard (HashSlice key)"
    from upd [OF mono [OF in_budget_ops(2) [OF all [OF Shard_less [of "HashSlice key"]]]], of ?s "fst (S ! ?s)" key "HashSlice key"]
    show ?thesis unfolding CErase by (simp add: Let_def split_beta)
  qed
qed

lemma length_a_call [simp]: "length (snd (a_call capacity x S)) = length S"
  by (cases x) (simp_all add: Let_def split_beta)

lemma in_budget_calls:
  assumes "\<forall>x\<in>set S. in_budget capacity m (snd x)" "length S = kNumShards" "m + sum_list (map charged xs) < 2 ^ 64" "good_caller capacity xs S"
  shows "\<forall>y\<in>set (snd (a_calls capacity xs S)). in_budget capacity (m + sum_list (map charged xs)) (snd y)"
  using assms
proof (induction xs arbitrary: m S)
  case (Cons x xs)
  have "\<forall>y\<in>set (snd (a_call capacity x S)). in_budget capacity (m + charged x) (snd y)"
    using in_budget_call [OF Cons.prems(1,2)] Cons.prems(3,4) by simp
  then have "\<forall>y\<in>set (snd (a_calls capacity xs (snd (a_call capacity x S)))). in_budget capacity (m + charged x + sum_list (map charged xs)) (snd y)"
    using Cons.IH [of "snd (a_call capacity x S)" "m + charged x"] Cons.prems by (simp add: add.assoc)
  then show ?case by (simp add: split_beta Let_def add.assoc)
qed simp

section \<open>What was inserted\<close>

definition key_values :: "(nat \<times> 'v lru_entry) list \<Rightarrow> (byte list \<times> 'v) multiset" where
  "key_values live = mset (map (\<lambda>x. (en_key (snd x), en_value (snd x))) live)"

text \<open>The values a shard was given: those it deleted and those that live.\<close>

definition accounted :: "'v ashard \<Rightarrow> (byte list \<times> 'v) multiset" where
  "accounted x = mset (ac_deleted (snd x)) + key_values (ac_live (snd x))"

definition distinct_live :: "'v ashard \<Rightarrow> bool" where
  "distinct_live x \<longleftrightarrow> distinct (map fst (ac_live (snd x)))"

lemma key_values_filter:
  "distinct (map fst live) \<Longrightarrow> map_of live a = Some e \<Longrightarrow>
    key_values live = add_mset (en_key e, en_value e) (key_values (filter (\<lambda>x. fst x \<noteq> a) live))"
proof (induction live)
  case (Cons x live)
  show ?case
  proof (cases "fst x = a")
    case True
    then have "a \<notin> fst ` set live" using Cons.prems(1) by auto
    then have "filter (\<lambda>x. fst x \<noteq> a) live = live" by (auto intro!: filter_True)
    then show ?thesis using True Cons.prems(2) by (cases x) (simp add: key_values_def)
  next
    case False
    then have "key_values live = add_mset (en_key e, en_value e) (key_values (filter (\<lambda>x. fst x \<noteq> a) live))"
      using Cons by (cases x) simp
    then show ?thesis using False by (simp add: key_values_def)
  qed
qed simp

lemma map_of_None_filter: "map_of live a = None \<Longrightarrow> filter (\<lambda>x. fst x \<noteq> a) live = live"
  by (induction live) (auto split: if_splits)

lemma forget_accounted:
  assumes "distinct_live (k, A)"
  shows "accounted (k, a_forget a A) = accounted (k, A)" "distinct_live (k, a_forget a A)"
  using assms key_values_filter [of "ac_live A" a] map_of_None_filter [of "ac_live A" a]
  by (auto simp: a_forget_def accounted_def distinct_live_def distinct_map_filter split: option.split)

lemma accounted_cong: "ac_live B = ac_live A \<Longrightarrow> ac_deleted B = ac_deleted A \<Longrightarrow> accounted (k, B) = accounted (n, A)"
  by (simp add: accounted_def)

lemma distinct_live_cong: "ac_live B = ac_live A \<Longrightarrow> distinct_live (k, B) \<longleftrightarrow> distinct_live (n, A)"
  by (simp add: distinct_live_def)

lemma unlink_accounted:
  assumes "distinct_live (k, A)"
  shows "accounted (k, a_unlink a A) = accounted (k, A)" "distinct_live (k, a_unlink a A)"
  using forget_accounted [of k "A\<lparr>ac_order := remove1 a (ac_order A)\<rparr>" a] assms
  by (simp_all add: a_unlink_def accounted_def distinct_live_def)

lemma release_accounted:
  assumes "distinct_live (k, A)"
  shows "accounted (k, a_release a A) = accounted (k, A)" "distinct_live (k, a_release a A)"
  using forget_accounted [of k "A\<lparr>ac_held := (ac_held A)(a := ac_held A a - 1)\<rparr>" a] assms
  by (simp_all add: a_release_def accounted_def distinct_live_def)

lemma evict_accounted:
  "distinct_live (k, A) \<Longrightarrow> accounted (k, a_evict capacity xs A) = accounted (k, A) \<and> distinct_live (k, a_evict capacity xs A)"
proof (induction xs arbitrary: A)
  case (Cons a xs)
  then show ?case using unlink_accounted [OF Cons.prems, of a] Cons.IH [of "a_unlink a A"] by simp
qed simp

lemma insert_accounted:
  assumes "distinct_live (k, A)" "map_of (ac_live A) a = None"
  shows "accounted (k, a_insert capacity a e A) = add_mset (en_key e, en_value e) (accounted (k, A)) \<and> distinct_live (k, a_insert capacity a e A)"
proof -
  have "distinct_live (k, a_add a e A)" "accounted (k, a_add a e A) = add_mset (en_key e, en_value e) (accounted (k, A))"
    using assms by (simp_all add: distinct_live_def a_add_def a_hold_def accounted_def key_values_def map_of_eq_None_iff)
  note d = this
  show ?thesis
  proof (cases "a_find (en_key e) (en_hash e) A")
    case None
    then show ?thesis using evict_accounted [OF d(1)] d(2) by (simp add: a_insert_def Let_def)
  next
    case (Some old)
    then show ?thesis
      using evict_accounted [OF unlink_accounted(2) [OF d(1), of old]] unlink_accounted(1) [OF d(1), of old] d(2)
      by (simp add: a_insert_def Let_def)
  qed
qed

lemma lookup_live: "ac_live (snd (a_lookup key hash A)) = ac_live A" "ac_deleted (snd (a_lookup key hash A)) = ac_deleted A"
  by (simp_all add: a_lookup_def a_hold_def split: option.split)

lemma erase_accounted:
  assumes "distinct_live (k, A)"
  shows "accounted (k, a_erase key hash A) = accounted (k, A)"
  using unlink_accounted [OF assms] by (simp add: a_erase_def split: option.split)

primrec inserted :: "'v cache_op \<Rightarrow> (byte list \<times> 'v) multiset" where
  "inserted (CInsert key v charge) = {#(key, v)#}"
| "inserted (CLookup key) = {#}"
| "inserted (CRelease handle) = {#}"
| "inserted (CErase key) = {#}"

lemma sum_update:
  "s < length S \<Longrightarrow> sum_list (map f (S[s := y])) + f (S ! s) = sum_list (map f S) + (f y :: 'b multiset)"
proof (induction S arbitrary: s)
  case (Cons x S)
  show ?case
  proof (cases s)
    case (Suc j)
    then have "sum_list (map f (S[j := y])) + f (S ! j) = sum_list (map f S) + f y" using Cons by simp
    then show ?thesis unfolding Suc by (simp add: add.assoc)
  qed (simp add: ac_simps)
qed simp

lemma call_accounted:
  assumes "sharded_rep capacity n c S" "releases_held x S"
  shows "sum_list (map accounted (snd (a_call capacity x S))) = sum_list (map accounted S) + inserted x"
proof -
  have len: "length S = kNumShards" using assms(1) by (simp add: sharded_rep_def)
  have rep: "lru_rep (sc_shard c ! s) (snd (S ! s))" "lc_fresh (sc_shard c ! s) = fst (S ! s)" if "s < kNumShards" for s
    using assms(1) that by (simp_all add: sharded_rep_def)
  have d: "distinct_live (S ! s)" if "s < kNumShards" for s
  proof -
    have "memory_rep (lc_handles (sc_shard c ! s)) (ac_live (snd (S ! s))) (\<lambda>b. of_bool (b \<in> set (ac_order (snd (S ! s)))) + ac_held (snd (S ! s)) b)"
      using rep(1) [OF that] by (auto simp: lru_rep_def dest: cache_repD(3))
    then show ?thesis by (simp add: memory_rep_def distinct_live_def)
  qed
  have upd: "sum_list (map accounted (S[s := y])) = sum_list (map accounted S) + m"
    if "s < kNumShards" "accounted y = accounted (S ! s) + m" for s y m
  proof -
    have "sum_list (map accounted (S[s := y])) + accounted (S ! s) = (sum_list (map accounted S) + m) + accounted (S ! s)"
      using sum_update [of s S accounted y] len that by (simp add: ac_simps)
    then show ?thesis by simp
  qed
  show ?thesis
  proof (cases x)
    case (CInsert key v charge)
    let ?s = "Shard (HashSlice key)" and ?e = "entry_for key v charge"
    have "map_of (ac_live (snd (S ! ?s))) (fst (S ! ?s)) = None"
      using not_live(1) [OF rep(1) [OF Shard_less], of "HashSlice key" "fst (S ! ?s)"] rep(2) [OF Shard_less] by simp
    moreover have "distinct_live (Suc (fst (S ! ?s)), snd (S ! ?s))" using d [OF Shard_less] by (simp add: distinct_live_def)
    ultimately have "accounted (Suc (fst (S ! ?s)), a_insert capacity (fst (S ! ?s)) ?e (snd (S ! ?s))) = accounted (S ! ?s) + inserted x"
      using insert_accounted [of "Suc (fst (S ! ?s))" "snd (S ! ?s)" "fst (S ! ?s)" capacity ?e] CInsert
      by (simp add: entry_for_def accounted_def)
    then have "sum_list (map accounted (S[?s := (Suc (fst (S ! ?s)), a_insert capacity (fst (S ! ?s)) ?e (snd (S ! ?s)))])) =
      sum_list (map accounted S) + inserted x" by (rule upd [OF Shard_less])
    moreover have "snd (a_call capacity x S) = S[?s := (Suc (fst (S ! ?s)), a_insert capacity (fst (S ! ?s)) ?e (snd (S ! ?s)))]"
      unfolding CInsert by (simp add: Let_def split_beta)
    ultimately show ?thesis by simp
  next
    case (CLookup key)
    let ?s = "Shard (HashSlice key)"
    have "accounted (fst (S ! ?s), snd (a_lookup key (HashSlice key) (snd (S ! ?s)))) = accounted (S ! ?s) + {#}"
      by (simp add: accounted_def lookup_live)
    from upd [OF Shard_less this] show ?thesis using CLookup by (simp add: Let_def split_beta)
  next
    case (CRelease handle)
    then have s: "fst handle < kNumShards" using assms(2) by simp
    have "accounted (fst (S ! fst handle), a_release (snd handle) (snd (S ! fst handle))) = accounted (S ! fst handle) + {#}"
      using release_accounted(1) [of "fst (S ! fst handle)" "snd (S ! fst handle)"] d [OF s] by simp
    from upd [OF s this] show ?thesis using CRelease by (simp add: split_beta)
  next
    case (CErase key)
    let ?s = "Shard (HashSlice key)"
    have "accounted (fst (S ! ?s), a_erase key (HashSlice key) (snd (S ! ?s))) = accounted (S ! ?s) + {#}"
      using erase_accounted [of "fst (S ! ?s)" "snd (S ! ?s)"] d [OF Shard_less] by simp
    from upd [OF Shard_less this] show ?thesis using CErase by (simp add: Let_def split_beta)
  qed
qed

lemma calls_accounted:
  assumes "sharded_rep capacity n c S" "n + length xs \<le> 2 ^ 31" "good_caller capacity xs S"
  shows "sum_list (map accounted (snd (a_calls capacity xs S))) = sum_list (map accounted S) + sum_list (map inserted xs)"
  using assms
proof (induction xs arbitrary: n c S)
  case (Cons x xs)
  obtain c1 where c1: "sharded_rep capacity (Suc n) c1 (snd (a_call capacity x S))"
    using cache_call_rep [OF Cons.prems(1), of x] Cons.prems(2,3) by auto
  have "sum_list (map accounted (snd (a_calls capacity xs (snd (a_call capacity x S))))) =
      sum_list (map accounted (snd (a_call capacity x S))) + sum_list (map inserted xs)"
    using Cons.IH [OF c1] Cons.prems(2,3) by simp
  then show ?case using call_accounted [OF Cons.prems(1), of x] Cons.prems(3) by (simp add: split_beta Let_def add.assoc)
qed simp

lemma destroy_shards_rep:
  assumes "length cs = length S" "\<And>s. s < length S \<Longrightarrow> lru_rep (cs ! s) (snd (S ! s)) \<and> (\<forall>a. ac_held (snd (S ! s)) a = 0)"
  shows "\<exists>ds. destroy_shards cs = Some ds \<and> sum_list (map (\<lambda>c. mset (lc_deleted c)) ds) = sum_list (map accounted S)"
  using assms
proof (induction cs arbitrary: S)
  case (Cons c cs)
  obtain x S' where S: "S = x # S'" using Cons.prems(1) by (cases S) auto
  have x: "lru_rep c (snd x)" "\<And>a. ac_held (snd x) a = 0" using Cons.prems(2) [of 0] S by simp_all
  obtain d where d: "LRU_destroy c = Some d" "mset (lc_deleted d) = accounted x"
    using LRU_destroy_rep [OF x] by (auto simp: accounted_def key_values_def)
  have "lru_rep (cs ! s) (snd (S' ! s)) \<and> (\<forall>a. ac_held (snd (S' ! s)) a = 0)" if "s < length S'" for s
    using Cons.prems(2) [of "Suc s"] that S by simp
  then obtain ds where "destroy_shards cs = Some ds" "sum_list (map (\<lambda>c. mset (lc_deleted c)) ds) = sum_list (map accounted S')"
    using Cons.IH [of S'] Cons.prems(1) S by auto
  then show ?case using d S by simp
qed simp

lemma empty_sum: "sum_list (replicate n {#}) = {#}"
  by (induction n) simp_all

section \<open>The properties\<close>

text \<open>
  C11: The cache refines its specification: for every sequence of up to \<open>2\<^sup>3\<^sup>1\<close> calls that releases only handles it
  holds, no call dereferences a freed or foreign handle or fails an assertion, every result is that of sixteen
  lists kept in the order of last use, a held handle still gives the value of its entry, and the deleters have
  been called for the same entries in the same order. If the charges add up to less than \<open>2\<^sup>6\<^sup>4\<close>, every shard is
  within its capacity at the end unless nothing is cached in it any more.
\<close>
theorem cache_refines_lru:
  fixes capacity :: "64 word" and xs :: "'v cache_op list"
  defines "per_shard \<equiv> (capacity + 15) div 16"
  defines "S \<equiv> snd (a_calls per_shard xs new_shards)"
  assumes "good_caller per_shard xs new_shards" "length xs \<le> 2 ^ 31"
  shows "\<exists>c0 c. NewLRUCache any capacity = Some c0 \<and> cache_calls xs c0 = Some (fst (a_calls per_shard xs new_shards), c) \<and>
    (\<forall>s<kNumShards. lc_deleted (sc_shard c ! s) = ac_deleted (snd (S ! s)) \<and> lc_usage (sc_shard c ! s) = charges (ac_live (snd (S ! s))) \<and>
      (\<forall>a. 0 < ac_held (snd (S ! s)) a \<longrightarrow> (\<exists>e. map_of (ac_live (snd (S ! s))) a = Some e \<and> Cache_Value (s, a) c = Some (en_value e))) \<and>
      (sum_list (map charged xs) < 2 ^ 64 \<longrightarrow> ac_order (snd (S ! s)) \<noteq> [] \<longrightarrow> lc_usage (sc_shard c ! s) \<le> per_shard))"
proof -
  obtain c0 where c0: "NewLRUCache any capacity = Some c0" "sharded_rep per_shard 0 c0 new_shards"
    using new_shards_rep [of any capacity] unfolding per_shard_def by blast
  obtain c where c: "cache_calls xs c0 = Some (fst (a_calls per_shard xs new_shards), c)" "sharded_rep per_shard (length xs) c S"
    using cache_calls_rep [OF c0(2) _ assms(3)] assms(4) by (auto simp: S_def)
  have budget: "\<forall>y\<in>set S. in_budget per_shard (sum_list (map charged xs)) (snd y)" if "sum_list (map charged xs) < 2 ^ 64"
    using in_budget_calls [of new_shards per_shard 0 xs] assms(3) that
    by (simp add: S_def in_budget_def nat_charges_def new_shards_def)
  have "lc_deleted (sc_shard c ! s) = ac_deleted (snd (S ! s)) \<and> lc_usage (sc_shard c ! s) = charges (ac_live (snd (S ! s))) \<and>
      (\<forall>a. 0 < ac_held (snd (S ! s)) a \<longrightarrow> (\<exists>e. map_of (ac_live (snd (S ! s))) a = Some e \<and> Cache_Value (s, a) c = Some (en_value e))) \<and>
      (sum_list (map charged xs) < 2 ^ 64 \<longrightarrow> ac_order (snd (S ! s)) \<noteq> [] \<longrightarrow> lc_usage (sc_shard c ! s) \<le> per_shard)"
    if s: "s < kNumShards" for s
  proof -
    let ?A = "snd (S ! s)" and ?c = "sc_shard c ! s"
    have rep: "lru_rep ?c ?A" using c(2) s by (simp add: sharded_rep_def)
    then have cr: "cache_rep ?c (ac_order ?A) (ac_live ?A) (\<lambda>b. of_bool (b \<in> set (ac_order ?A)) + ac_held ?A b) (ac_deleted ?A)"
      by (simp add: lru_rep_def)
    have held: "\<exists>e. map_of (ac_live ?A) a = Some e \<and> Cache_Value (s, a) c = Some (en_value e)" if "0 < ac_held ?A a" for a
    proof -
      have "map_of (ac_live ?A) a \<noteq> None" using rep that unfolding lru_rep_def by blast
      then obtain e where e: "map_of (ac_live ?A) a = Some e" by blast
      then obtain x where "lc_handles ?c a = Some x" "entry_of_handle x = e" using memory_live(3) [OF cache_repD(3) [OF cr]] by blast
      then show ?thesis using e by (auto simp: Cache_Value_def entry_of_handle_def)
    qed
    have "lc_usage ?c \<le> per_shard" if m: "sum_list (map charged xs) < 2 ^ 64" and o: "ac_order ?A \<noteq> []"
    proof -
      have "S ! s \<in> set S" using c(2) s by (simp add: sharded_rep_def)
      then have b: "in_budget per_shard (sum_list (map charged xs)) ?A" using budget [OF m] by blast
      then have "nat_charges (ac_live ?A) \<le> unat per_shard" "nat_charges (ac_live ?A) < 2 ^ 64" using o m unfolding in_budget_def by linarith+
      then show ?thesis using charges_nat [of "ac_live ?A"] cache_repD(7) [OF cr] by (simp add: word_le_nat_alt)
    qed
    then show ?thesis using cache_repD(7,8) [OF cr] held by blast
  qed
  then show ?thesis using c0(1) c(1) by blast
qed

text \<open>
  C17: Every value is deleted exactly once: when the caller has released all its handles, destroying the cache
  succeeds, and over the life of the cache the deleters were called for exactly the keys and values inserted.
\<close>
theorem cache_deletes_once:
  fixes capacity :: "64 word" and xs :: "'v cache_op list"
  defines "per_shard \<equiv> (capacity + 15) div 16"
  defines "S \<equiv> snd (a_calls per_shard xs new_shards)"
  assumes "good_caller per_shard xs new_shards" "length xs \<le> 2 ^ 31" "\<forall>s<kNumShards. \<forall>a. ac_held (snd (S ! s)) a = 0"
  shows "\<exists>c0 r c ds. NewLRUCache any capacity = Some c0 \<and> cache_calls xs c0 = Some (r, c) \<and> Cache_destroy c = Some ds \<and>
    sum_list (map (\<lambda>d. mset (lc_deleted d)) ds) = sum_list (map inserted xs)"
proof -
  obtain c0 where c0: "NewLRUCache any capacity = Some c0" "sharded_rep per_shard 0 c0 new_shards"
    using new_shards_rep [of any capacity] unfolding per_shard_def by blast
  obtain c where c: "cache_calls xs c0 = Some (fst (a_calls per_shard xs new_shards), c)" "sharded_rep per_shard (length xs) c S"
    using cache_calls_rep [OF c0(2) _ assms(3)] assms(4) by (auto simp: S_def)
  have "sum_list (map accounted S) = sum_list (map accounted (new_shards :: 'v ashard list)) + sum_list (map inserted xs)"
    using calls_accounted [OF c0(2) _ assms(3)] assms(4) by (simp add: S_def)
  moreover have "sum_list (map accounted (new_shards :: 'v ashard list)) = {#}"
    by (simp add: new_shards_def accounted_def key_values_def empty_sum)
  moreover obtain ds where "destroy_shards (sc_shard c) = Some ds" "sum_list (map (\<lambda>d. mset (lc_deleted d)) ds) = sum_list (map accounted S)"
    using destroy_shards_rep [of "sc_shard c" S] c(2) assms(5) by (auto simp: sharded_rep_def)
  ultimately show ?thesis using c0(1) c(1) by (auto simp: Cache_destroy_def)
qed

text \<open>An insertion, a look-up of the entry and the release of both handles.\<close>

definition sample_calls :: "nat cache_op list" where
  "sample_calls = (let h = (Shard (HashSlice [1]), 2) in [CInsert [1] 7 3, CLookup [1], CRelease h, CRelease h])"

lemma new_shard: "s < kNumShards \<Longrightarrow> new_shards ! s = (2, \<lparr>ac_live = [], ac_order = [], ac_held = (\<lambda>_. 0), ac_deleted = []\<rparr>)"
  by (simp add: new_shards_def)

lemma length_new_shards: "length new_shards = kNumShards"
  by (simp add: new_shards_def)

lemmas call_defs = a_insert_def a_add_def a_hold_def a_find_def a_lookup_def a_release_def a_forget_def a_unlink_def has_key_def
  entry_for_def charges_def Let_def new_shard length_new_shards Shard_less

lemma sample_calls:
  "good_caller 100 sample_calls new_shards" "length sample_calls \<le> 2 ^ 31"
  "\<forall>s<kNumShards. \<forall>a. ac_held (snd (snd (a_calls 100 sample_calls new_shards) ! s)) a = 0"
  by (auto simp: sample_calls_def call_defs nth_list_update split_beta)

theorem cache_refines_lru_witness:
  "\<exists>c0 c. NewLRUCache 0 1600 = Some c0 \<and> cache_calls sample_calls c0 = Some (fst (a_calls 100 sample_calls new_shards), c) \<and>
    fst (a_calls 100 sample_calls (new_shards :: nat ashard list)) =
      [Some (Shard (HashSlice [1]), 2), Some (Shard (HashSlice [1]), 2), None, None]"
proof -
  have "(1600 + 15) div 16 = (100 :: 64 word)" by (simp add: word_div_def)
  then have "\<exists>c0 c. NewLRUCache 0 1600 = Some c0 \<and> cache_calls sample_calls c0 = Some (fst (a_calls 100 sample_calls new_shards), c)"
    using cache_refines_lru [of 1600 sample_calls 0] sample_calls by auto
  moreover have "fst (a_calls 100 sample_calls (new_shards :: nat ashard list)) =
      [Some (Shard (HashSlice [1]), 2), Some (Shard (HashSlice [1]), 2), None, None]"
    by (auto simp: sample_calls_def call_defs nth_list_update split_beta)
  ultimately show ?thesis by blast
qed

theorem cache_deletes_once_witness:
  "\<exists>c0 r c ds. NewLRUCache 0 1600 = Some c0 \<and> cache_calls sample_calls c0 = Some (r, c) \<and> Cache_destroy c = Some ds \<and>
    sum_list (map (\<lambda>d. mset (lc_deleted d)) ds) = {#([1], 7)#}"
proof -
  have "(1600 + 15) div 16 = (100 :: 64 word)" by (simp add: word_div_def)
  moreover have "sum_list (map inserted sample_calls) = {#([1], 7)#}" by (simp add: sample_calls_def Let_def)
  ultimately show ?thesis using cache_deletes_once [of 1600 sample_calls 0] sample_calls by auto
qed

end
