(* ===== verification/Spec2Isabelle.thy ===== *)
theory Spec2Isabelle
  imports Pb_Encode_Theorems Pb_Decode_Theorems
    Ldb_Dbformat Ldb_Bloom Ldb_Log Ldb_Write_Batch Ldb_Block_Theorems
    Ldb_Filename Ldb_Db_Theorems Ldb_Version_Edit Ldb_Cache_Theorems
begin

text \<open>
  A verification development for the C and C++ code of the repository, an iOS game with its pods under
  \<^verbatim>\<open>src/ios-game/Pods\<close>. Two libraries there are implemented in source: the protocol-buffer runtime
  nanopb and the key-value store LevelDB.

  \<^bold>\<open>Parts and their theories.\<close>

  nanopb (\<^verbatim>\<open>nanopb/pb.h\<close>, \<^verbatim>\<open>pb_common.c\<close>, \<^verbatim>\<open>pb_encode.c\<close>, \<^verbatim>\<open>pb_decode.c\<close>), theories \<open>Pb_*\<close>:
    \<^item> \<open>Pb_Prelude\<close>: the error monad with its weakest-precondition rules, byte-addressed memory, words as
      bytes. Memory is a total function of addresses; what a call may touch is part of the theorems.
    \<^item> \<open>Pb_Types\<close>, \<open>Pb_Stream\<close>, \<open>Pb_Wire\<close>, \<open>Pb_Common\<close>, \<open>Pb_Encode\<close>, \<open>Pb_Decode\<close>: the model, one definition for
      each C function, in the order of the code. Descriptors are the delta-encoded tables of the code;
      user callbacks and the allocator are parameters.
    \<^item> \<open>Leb128\<close>, \<open>Pb_Source\<close>, \<open>Pb_Sink\<close>: the interfaces of byte sources and sinks as locales, interpreted
      on the buffer streams, and base-128 numbers as the reference of varints.
    \<^item> \<open>Pb_Wire_Props\<close>, \<open>Pb_Wire_Theorems\<close>: exact behaviour and round trips of the wire primitives.
    \<^item> \<open>Pb_Iter_Props\<close>, \<open>Pb_Fields\<close>, \<open>Pb_Records\<close>, \<open>Pb_Encode_Props\<close>, \<open>Pb_Encode_Theorems\<close>: the field iterator
      as a fold over the table, the abstract records a message in memory stands for, and the encoder as
      their serialisation.
    \<^item> \<open>Pb_Layout\<close>, \<open>Pb_Safe\<close>, \<open>Pb_Defaults\<close>, \<open>Pb_Decode_Safe\<close>, \<open>Pb_Required\<close>, \<open>Pb_Message_Safe\<close>,
      \<open>Pb_Decode_Theorems\<close>: the decoder reads only its input, writes only its message and returns, for
      arbitrary bytes; fuel is the number of bytes left and one more.

  LevelDB (\<^verbatim>\<open>leveldb-library/{include,util,db,table,port}\<close>), theories \<open>Ldb_*\<close>:
    \<^item> \<open>Ldb_Coding\<close> (\<^verbatim>\<open>util/coding\<close>), \<open>Ldb_Status\<close> (\<^verbatim>\<open>util/status.cc\<close>), \<open>Ldb_Logging\<close>, \<open>Ldb_Filename\<close>
      (\<^verbatim>\<open>util/logging.cc\<close>, \<^verbatim>\<open>db/filename.cc\<close>): numbers, slices, errors and text.
    \<^item> \<open>Ldb_Comparator\<close> (\<^verbatim>\<open>util/comparator.cc\<close>), \<open>Ldb_Dbformat\<close> (\<^verbatim>\<open>db/dbformat\<close>): the locales \<open>key_order\<close> and
      \<open>comparator\<close>, interpreted on byte order and on internal keys.
    \<^item> \<open>Ldb_Random\<close>, \<open>Ldb_Skiplist\<close>, \<open>Ldb_Memtable\<close>, \<open>Ldb_Write_Batch\<close> (\<^verbatim>\<open>util/random.h\<close>, \<^verbatim>\<open>db/skiplist.h\<close>,
      \<^verbatim>\<open>db/memtable.cc\<close>, \<^verbatim>\<open>db/write_batch.cc\<close>): the write path into memory. A skip list is an arena of nodes
      with their successors at every level; its abstraction is the sorted list of keys, and the memtable
      refines the history of writes.
    \<^item> \<open>Ldb_Crc32c\<close>, \<open>Ldb_Log\<close> (\<^verbatim>\<open>util/crc32c.cc\<close>, \<^verbatim>\<open>db/log_*\<close>): checksums and the write-ahead log over the
      locales \<open>writable_file\<close> and \<open>sequential_file\<close>.
    \<^item> \<open>Ldb_Bloom\<close>, \<open>Ldb_Filter_Block\<close> (\<^verbatim>\<open>util/hash.cc\<close>, \<^verbatim>\<open>util/bloom.cc\<close>, \<^verbatim>\<open>table/filter_block.cc\<close>): filters,
      over the locale \<open>filter_policy\<close>.
    \<^item> \<open>Ldb_Block\<close>, \<open>Ldb_Block_Props\<close>, \<open>Ldb_Block_Theorems\<close> (\<^verbatim>\<open>table/block_builder.cc\<close>, \<^verbatim>\<open>table/block.cc\<close>):
      blocks of entries with shared prefixes and restart points, and their iterator.
    \<^item> \<open>Ldb_Iterator\<close>, \<open>Ldb_Two_Level\<close> (\<^verbatim>\<open>include/leveldb/iterator.h\<close>, \<^verbatim>\<open>table/iterator*\<close>,
      \<^verbatim>\<open>table/two_level_iterator.cc\<close>): the interface of iterators as a record of operations and a locale
      over the list an iterator visits, the wrapper that caches the current key, and the iterator over an
      index of blocks, for any index and data iterators that keep the contract.
    \<^item> \<open>Ldb_Format\<close>, \<open>Ldb_Table_Builder\<close>, \<open>Ldb_Table\<close>, \<open>Ldb_Table_Props\<close>, \<open>Ldb_Table_Theorems\<close>
      (\<^verbatim>\<open>table/format.cc\<close>, \<^verbatim>\<open>table/table_builder.cc\<close>, \<^verbatim>\<open>table/table.cc\<close>): whole table files, from adding entries
      to opening, seeking, looking up and iterating, over any file, comparator, compression and filter.
    \<^item> \<open>Ldb_Merger\<close>, \<open>Ldb_Memtable_Iter\<close>, \<open>Ldb_Db_Iter\<close>, \<open>Ldb_Db_View\<close>, \<open>Ldb_Db_Theorems\<close>
      (\<^verbatim>\<open>table/merger.cc\<close>, \<^verbatim>\<open>db/memtable.cc\<close>, \<^verbatim>\<open>db/db_iter.cc\<close>, the parts of \<^verbatim>\<open>db/db_impl.cc\<close> that put an iterator
      together): merging iterators as a locale, memtable and table iterators as its instances, and the
      iterator of users as the view of the latest visible writes.
    \<^item> \<open>Ldb_Version_Edit\<close> (\<^verbatim>\<open>db/version_edit.cc\<close>): the records of the manifest.
    \<^item> \<open>Ldb_Cache\<close>, \<open>Ldb_Cache_Props\<close>, \<open>Ldb_Cache_Spec\<close>, \<open>Ldb_Cache_Steps\<close>, \<open>Ldb_Cache_Theorems\<close>
      (\<^verbatim>\<open>util/cache.cc\<close>): the sharded LRU cache as handles in memory, linked in a ring and in hash chains;
      its abstraction are lists in the order of last use with the number of handles each caller holds.

  \<^bold>\<open>Conventions.\<close> Machine integers keep their width as words; \<^verbatim>\<open>size_t\<close> lengths of objects in memory are
  natural numbers. Pointers into a buffer are offsets or the bytes from there on. A missing result
  (\<^verbatim>\<open>None\<close> of an option the code does not return) stands for undefined behaviour or a loop that does not
  end, so that a theorem that a call yields a result says both that it returns and that it stays inside
  its memory. Loops are recursive functions with a measure where one exists, and partial functions
  otherwise, with their termination part of the theorems.

  \<^bold>\<open>Bounds.\<close> The theorems bound what the code's integers bound: keys and values below \<open>2^32\<close> bytes,
  sequence numbers below \<open>2^56\<close>, encodings below \<open>2^63\<close> bytes, \<open>2^31\<close> calls of a cache so that no reference
  count wraps. Fuel of the nanopb encoder is the depth of the descriptors and two more.

  \<^bold>\<open>Not modelled.\<close> The database proper (\<^verbatim>\<open>db/db_impl.cc\<close>, \<^verbatim>\<open>db/version_set.cc\<close>: threads, compaction and
  recovery over the file system), the operating-system environment, the arena and the threads'
  synchronisation, the C binding, benchmarks and tests, because they are input and output over the
  operating system or concurrency the model has no notion of. Within the modelled files: a table is read
  without a block cache (the branch \<^verbatim>\<open>block_cache == NULL\<close> of \<^verbatim>\<open>Table::BlockReader\<close>), the sources of a
  database iterator are the memtables and the tables of level 0, its snapshot is an argument, and an
  offset in a file plus a length does not wrap. Assertions are missing results in the table builder, the
  table, the merging and database iterators and the cache; in \<^verbatim>\<open>SkipList::Insert\<close>, \<^verbatim>\<open>BlockBuilder::Add\<close>,
  \<^verbatim>\<open>BlockHandle::EncodeTo\<close>, \<^verbatim>\<open>FilterBlockBuilder::StartBlock\<close>, \<^verbatim>\<open>ExtractUserKey\<close>, the makers of file names
  and \<^verbatim>\<open>InternalKey::Encode\<close> they are preconditions on the caller that the definitions leave out, and
  the theorems there hold beyond them. The other pods are Objective-C code over Apple frameworks or headers
  of closed binaries, and the game itself is Swift.
\<close>

end
